(* ===== verification/Prelude.thy ===== *)
theory Prelude
  imports Main "HOL-Library.Word" "HOL-Library.Monad_Syntax"
begin

unbundle bit_operations_syntax

text \<open>
  Shared vocabulary of the development: the fixed-width integers of the C sources, memory as a
  list of bytes with little-endian loads and stores, the view of such a memory as a sequence of
  bits, and the result conventions.

  A C function that may fail an assertion (or run into undefined behaviour, such as an access
  outside an allocated buffer or a shift by the word size) is a function into \<open>option\<close>:
  \<open>None\<close> is the end of the process. A function that returns an error code returns the code,
  an \<open>int\<close> as in C, next to the new state, so that what it changed before it failed is visible.
  The macro \<^verbatim>\<open>ENSURE_RES_OK\<close> of \<^verbatim>\<open>my_utils.h\<close> is the combinator \<open>ensure_res_ok\<close> below.
\<close>

named_theorems c_simps \<open>unfolding of the C result combinators\<close>
named_theorems mem_simps \<open>lengths and bits of loads and stores\<close>

type_synonym u8 = "8 word"
type_synonym u16 = "16 word"
type_synonym u32 = "32 word"
type_synonym u64 = "64 word"
type_synonym i64 = "64 word"  \<comment> \<open>\<^verbatim>\<open>int64_t\<close>: read with \<open>sint\<close>\<close>
type_synonym byte = "8 word"
type_synonym mem = "byte list"

subsection \<open>Error codes (\<^verbatim>\<open>globals.h\<close>)\<close>

definition ERR_OK :: int where "ERR_OK = 0"
definition ERR_UNKNOWN :: int where "ERR_UNKNOWN = 1"
definition ERR_BITSTREAM_BAD_VALUE :: int where "ERR_BITSTREAM_BAD_VALUE = 2"
definition ERR_BITSTREAM_OUT_OF_SPACE :: int where "ERR_BITSTREAM_OUT_OF_SPACE = 3"
definition ERR_TSC_OUT_OF_SPACE :: int where "ERR_TSC_OUT_OF_SPACE = 4"
definition ERR_TSC_UNKOWN :: int where "ERR_TSC_UNKOWN = 5"
definition ERR_TSC_ITER_DONE :: int where "ERR_TSC_ITER_DONE = 6"
definition ERR_LOOKUP_FAILED :: int where "ERR_LOOKUP_FAILED = 7"
definition ERR_TOO_MANY_POINTS :: int where "ERR_TOO_MANY_POINTS = 8"
definition ERR_STRUCTURED_STREAM_BUF_TOO_SMALL :: int where "ERR_STRUCTURED_STREAM_BUF_TOO_SMALL = 10"
definition ERR_STRUCTURED_STREAM_BUF_OTHER :: int where "ERR_STRUCTURED_STREAM_BUF_OTHER = 12"
definition ERR_STRUCTURED_STREAM_IO_REQUIRED :: int where "ERR_STRUCTURED_STREAM_IO_REQUIRED = 13"
definition ERR_STRUCTURED_STREAM_EOF :: int where "ERR_STRUCTURED_STREAM_EOF = 14"
definition ERR_STRUCTURED_STREAM_BUF_UNDERRUN :: int where "ERR_STRUCTURED_STREAM_BUF_UNDERRUN = 15"
definition ERR_OUT_OF_ORDER_TIMESTAMP :: int where "ERR_OUT_OF_ORDER_TIMESTAMP = 16"
definition ERR_BUF_TOO_SMALL :: int where "ERR_BUF_TOO_SMALL = 17"
definition ERR_BAD_INDEX :: int where "ERR_BAD_INDEX = 18"

lemmas err_defs = ERR_OK_def ERR_UNKNOWN_def ERR_BITSTREAM_BAD_VALUE_def
  ERR_BITSTREAM_OUT_OF_SPACE_def ERR_TSC_OUT_OF_SPACE_def ERR_TSC_UNKOWN_def
  ERR_TSC_ITER_DONE_def ERR_LOOKUP_FAILED_def ERR_TOO_MANY_POINTS_def
  ERR_STRUCTURED_STREAM_BUF_TOO_SMALL_def ERR_STRUCTURED_STREAM_BUF_OTHER_def
  ERR_STRUCTURED_STREAM_IO_REQUIRED_def ERR_STRUCTURED_STREAM_EOF_def
  ERR_STRUCTURED_STREAM_BUF_UNDERRUN_def ERR_OUT_OF_ORDER_TIMESTAMP_def
  ERR_BUF_TOO_SMALL_def ERR_BAD_INDEX_def

subsection \<open>Assertions and early returns\<close>

definition c_assert :: "bool \<Rightarrow> unit option" where
  "c_assert b = (if b then Some () else None)"

lemma c_assert_simps [simp]: "c_assert True = Some ()" "c_assert False = None"
  by (simp_all add: c_assert_def)

lemma c_assert_eq_Some [simp]: "c_assert b = Some u \<longleftrightarrow> b"
  by (simp add: c_assert_def)

definition ensure_res_ok :: "(int \<times> 's) option \<Rightarrow> ('s \<Rightarrow> (int \<times> 's) option) \<Rightarrow> (int \<times> 's) option" where
  "ensure_res_ok m k = (case m of None \<Rightarrow> None
     | Some (res, s) \<Rightarrow> if res \<noteq> ERR_OK then Some (res, s) else k s)"

lemma ensure_res_ok_simps [simp]:
  "ensure_res_ok None k = None"
  "ensure_res_ok (Some (ERR_OK, s)) k = k s"
  "res \<noteq> ERR_OK \<Longrightarrow> ensure_res_ok (Some (res, s)) k = Some (res, s)"
  by (simp_all add: ensure_res_ok_def)

lemma ensure_res_ok_cases:
  assumes "ensure_res_ok m k = Some (res, s)"
  obtains (ok) s0 where "m = Some (ERR_OK, s0)" "k s0 = Some (res, s)"
    | (err) "m = Some (res, s)" "res \<noteq> ERR_OK"
  using assms by (auto simp: ensure_res_ok_def split: option.splits if_splits)

subsection \<open>Machine sizes\<close>

text \<open>\<^verbatim>\<open>size_t\<close> is a natural number whose additions wrap at \<open>2 ^ 64\<close>.\<close>

definition sz :: "nat \<Rightarrow> nat" where
  "sz x = x mod 2 ^ 64"

lemma sz_id [simp]: "x < 2 ^ 64 \<Longrightarrow> sz x = x"
  by (simp add: sz_def)

lemma sz_numeral: "sz (numeral n) = numeral n mod 18446744073709551616"
  by (simp add: sz_def)

text \<open>The implicit conversion of a \<^verbatim>\<open>size_t\<close> argument to an \<^verbatim>\<open>int\<close> parameter.\<close>

definition size_to_int :: "nat \<Rightarrow> int" where
  "size_to_int x = sint (of_nat x :: u32)"

lemma size_to_int_small: "x < 2 ^ 31 \<Longrightarrow> size_to_int x = int x"
  by (simp add: size_to_int_def signed_of_nat signed_take_bit_int_eq_self)

subsection \<open>Bytes of words, little-endian\<close>

definition le_bytes :: "'a::len word \<Rightarrow> byte list" where
  "le_bytes w = map (\<lambda>k. ucast (drop_bit (8 * k) w)) [0..<LENGTH('a) div 8]"

primrec le_word :: "byte list \<Rightarrow> 'a::len word" where
  "le_word [] = 0"
| "le_word (b # bs) = ucast b OR push_bit 8 (le_word bs)"

lemma length_le_bytes [simp]: "length (le_bytes (w :: 'a::len word)) = LENGTH('a) div 8"
  by (simp add: le_bytes_def)

lemma bit_le_bytes:
  fixes w :: "'a::len word"
  assumes "i < LENGTH('a) div 8"
  shows "bit (le_bytes w ! i) k \<longleftrightarrow> k < 8 \<and> bit w (8 * i + k)"
  using assms by (auto simp: le_bytes_def bit_simps dest: bit_imp_le_length)

lemma bit_le_word:
  "bit (le_word bs :: 'a::len word) k \<longleftrightarrow>
     k < LENGTH('a) \<and> k < 8 * length bs \<and> bit (bs ! (k div 8)) (k mod 8)"
proof (induction bs arbitrary: k)
  case Nil
  then show ?case by simp
next
  case (Cons b bs)
  show ?case
  proof (cases "k < 8")
    case True
    then show ?thesis
      by (auto simp: bit_or_iff bit_ucast_iff bit_push_bit_iff)
  next
    case False
    then have "\<not> bit b k" using bit_imp_le_length by fastforce
    moreover have "k div 8 = Suc ((k - 8) div 8)" "(k - 8) mod 8 = k mod 8"
      using False by (simp_all add: le_div_geq le_mod_geq)
    ultimately show ?thesis
      using False by (auto simp: bit_or_iff bit_ucast_iff bit_push_bit_iff Cons.IH)
  qed
qed

lemma le_word_le_bytes:
  fixes w :: "'a::len word"
  assumes "8 dvd LENGTH('a)"
  shows "le_word (le_bytes w) = w"
proof (rule bit_word_eqI)
  fix k assume k: "k < LENGTH('a)"
  then have "k div 8 < LENGTH('a) div 8" using assms by (simp add: less_mult_imp_div_less mult.commute)
  then show "bit (le_word (le_bytes w) :: 'a word) k = bit w k"
    using k assms by (simp add: bit_le_word bit_le_bytes)
qed

lemma le_bytes_le_word:
  assumes "8 * length bs = LENGTH('a::len)"
  shows "le_bytes (le_word bs :: 'a word) = bs"
proof (rule nth_equalityI)
  show "length (le_bytes (le_word bs :: 'a word)) = length bs" using assms by (simp flip: assms)
next
  fix i assume "i < length (le_bytes (le_word bs :: 'a word))"
  then have i: "i < LENGTH('a) div 8" by simp
  then have il: "i < length bs" by (simp flip: assms)
  show "le_bytes (le_word bs :: 'a word) ! i = bs ! i"
  proof (rule bit_word_eqI)
    fix k assume k: "k < LENGTH(8)"
    then have "8 * i + k < LENGTH('a)" using il by (simp flip: assms)
    with k il show "bit (le_bytes (le_word bs :: 'a word) ! i) k = bit (bs ! i) k"
      using assms by (simp add: bit_le_bytes [OF i] bit_le_word)
  qed
qed

subsection \<open>Memory\<close>

definition mem_read :: "mem \<Rightarrow> nat \<Rightarrow> nat \<Rightarrow> byte list option" where
  "mem_read m off n = (if off + n \<le> length m then Some (take n (drop off m)) else None)"

definition mem_write :: "mem \<Rightarrow> nat \<Rightarrow> byte list \<Rightarrow> mem option" where
  "mem_write m off bs = (if off + length bs \<le> length m
     then Some (take off m @ bs @ drop (off + length bs) m) else None)"

definition load64 :: "mem \<Rightarrow> nat \<Rightarrow> u64 option" where
  "load64 m i = map_option le_word (mem_read m (8 * i) 8)"

definition store64 :: "mem \<Rightarrow> nat \<Rightarrow> u64 \<Rightarrow> mem option" where
  "store64 m i w = mem_write m (8 * i) (le_bytes w)"

text \<open>Bit \<open>k\<close> of a memory: bit \<open>k mod 8\<close> of byte \<open>k div 8\<close>.\<close>

definition bit_at :: "mem \<Rightarrow> nat \<Rightarrow> bool" where
  "bit_at m k \<longleftrightarrow> k < 8 * length m \<and> bit (m ! (k div 8)) (k mod 8)"

lemma mem_write_length [mem_simps]: "mem_write m off bs = Some m' \<Longrightarrow> length m' = length m"
  by (auto simp: mem_write_def split: if_splits)

lemma mem_write_nth:
  assumes "mem_write m off bs = Some m'"
  shows "m' ! k = (if off \<le> k \<and> k < off + length bs then bs ! (k - off) else m ! k)"
  using assms by (auto simp: mem_write_def nth_append not_less split: if_splits)

lemma store64_length [mem_simps]: "store64 m i w = Some m' \<Longrightarrow> length m' = length m"
  by (auto simp: store64_def dest: mem_write_length)

lemma load64_ok [mem_simps]: "8 * i + 8 \<le> length m \<Longrightarrow> \<exists>w. load64 m i = Some w"
  by (simp add: load64_def mem_read_def)

lemma store64_ok [mem_simps]: "8 * i + 8 \<le> length m \<Longrightarrow> \<exists>m'. store64 m i w = Some m'"
  by (simp add: store64_def mem_write_def)

lemma load64_range: "load64 m i = Some w \<Longrightarrow> 8 * i + 8 \<le> length m"
  by (auto simp: load64_def mem_read_def split: if_splits)

lemma word_index_mod8: "(64 * i + k) mod 8 = k mod (8::nat)"
proof -
  have "64 * i + k = k + 8 * i * 8" by simp
  then show ?thesis by (simp only: mod_mult_self1)
qed

lemma bit_load64:
  assumes "load64 m i = Some w"
  shows "bit w k \<longleftrightarrow> k < 64 \<and> bit_at m (64 * i + k)"
proof -
  from assms have len: "8 * i + 8 \<le> length m" and w: "w = le_word (take 8 (drop (8 * i) m))"
    by (auto simp: load64_def mem_read_def split: if_splits)
  have e: "(64 * i + k) div 8 = 8 * i + k div 8" "(64 * i + k) mod 8 = k mod 8"
    by (simp_all add: word_index_mod8)
  show ?thesis
  proof (cases "k < 64")
    case True
    then have "k div 8 < 8" by auto
    with True len show ?thesis by (simp add: w bit_le_word bit_at_def e)
  qed (simp add: w bit_le_word)
qed

lemma bit_store64:
  assumes "store64 m i w = Some m'"
  shows "bit_at m' k \<longleftrightarrow> (if 64 * i \<le> k \<and> k < 64 * i + 64 then bit w (k - 64 * i) else bit_at m k)"
proof -
  from assms have mw: "mem_write m (8 * i) (le_bytes w) = Some m'" by (simp add: store64_def)
  then have len: "length m' = length m" and r: "8 * i + 8 \<le> length m"
    by (auto simp: mem_write_def split: if_splits)
  have b: "64 * i \<le> k \<and> k < 64 * i + 64 \<longleftrightarrow> 8 * i \<le> k div 8 \<and> k div 8 < 8 * i + 8"
    by (simp add: less_eq_div_iff_mult_less_eq div_less_iff_less_mult algebra_simps)
  show ?thesis
  proof (cases "64 * i \<le> k \<and> k < 64 * i + 64")
    case True
    with b have "64 * i \<le> 8 * (k div 8)" by simp
    then have "8 * (k div 8 - 8 * i) + k mod 8 = k - 64 * i"
      using div_mult_mod_eq [of k 8] by (simp add: diff_mult_distrib2)
    moreover have "k div 8 - 8 * i < 8" "k < 8 * length m" using True r by auto
    ultimately show ?thesis
      using True b by (simp add: bit_at_def len mem_write_nth [OF mw] bit_le_bytes)
  next
    case False
    with b show ?thesis by (auto simp: bit_at_def len mem_write_nth [OF mw])
  qed
qed

text \<open>Facts that evaluate loads and stores on closed memories.\<close>

lemma le_bytes_u64: "le_bytes (w :: u64) = [ucast w, ucast (drop_bit 8 w), ucast (drop_bit 16 w),
    ucast (drop_bit 24 w), ucast (drop_bit 32 w), ucast (drop_bit 40 w), ucast (drop_bit 48 w),
    ucast (drop_bit 56 w)]"
  by (simp add: le_bytes_def upt_conv_Cons)

lemmas eval_mem = load64_def store64_def mem_read_def mem_write_def le_bytes_u64 sz_def mask_numeral

subsection \<open>Bit strings\<close>

definition nbits :: "nat \<Rightarrow> 'a::len word \<Rightarrow> bool list" where
  "nbits n v = map (bit v) [0..<n]"

lemma length_nbits [simp]: "length (nbits n v) = n"
  by (simp add: nbits_def)

lemma nth_nbits [simp]: "k < n \<Longrightarrow> nbits n v ! k = bit v k"
  by (simp add: nbits_def)

text \<open>The memory carries the bit string \<open>bs\<close> from bit \<open>i\<close> on.\<close>

definition has_bits :: "mem \<Rightarrow> nat \<Rightarrow> bool list \<Rightarrow> bool" where
  "has_bits m i bs \<longleftrightarrow> (\<forall>k < length bs. bit_at m (i + k) = bs ! k)"

lemma has_bits_Nil [simp]: "has_bits m i []"
  by (simp add: has_bits_def)

lemma has_bits_append:
  "has_bits m i (xs @ ys) \<longleftrightarrow> has_bits m i xs \<and> has_bits m (i + length xs) ys"
proof (intro iffI conjI)
  assume h: "has_bits m i (xs @ ys)"
  then show "has_bits m i xs" by (auto simp: has_bits_def nth_append)
  show "has_bits m (i + length xs) ys" unfolding has_bits_def
  proof (intro allI impI)
    fix k assume "k < length ys"
    with h show "bit_at m (i + length xs + k) = ys ! k"
      by (auto simp: has_bits_def nth_append add.assoc dest!: spec [of _ "length xs + k"])
  qed
next
  assume h: "has_bits m i xs \<and> has_bits m (i + length xs) ys"
  show "has_bits m i (xs @ ys)" unfolding has_bits_def
  proof (intro allI impI)
    fix k assume k: "k < length (xs @ ys)"
    show "bit_at m (i + k) = (xs @ ys) ! k"
    proof (cases "k < length xs")
      case True
      with h show ?thesis by (simp add: has_bits_def nth_append)
    next
      case False
      with k have "k - length xs < length ys" by simp
      with h have "bit_at m (i + length xs + (k - length xs)) = ys ! (k - length xs)"
        unfolding has_bits_def by blast
      with False show ?thesis by (simp add: nth_append)
    qed
  qed
qed

text \<open>Two memories that agree below bit \<open>i\<close>: what every write at \<open>i\<close> leaves alone.\<close>

definition same_below :: "nat \<Rightarrow> mem \<Rightarrow> mem \<Rightarrow> bool" where
  "same_below i m m' \<longleftrightarrow> length m' = length m \<and> (\<forall>k < i. bit_at m' k = bit_at m k)"

lemma same_below_refl [simp]: "same_below i m m"
  by (simp add: same_below_def)

lemma same_below_trans:
  "same_below i m m' \<Longrightarrow> same_below j m' m'' \<Longrightarrow> i \<le> j \<Longrightarrow> same_below i m m''"
  by (auto simp: same_below_def)

lemma same_below_length: "same_below i m m' \<Longrightarrow> length m' = length m"
  by (simp add: same_below_def)

lemma has_bits_same_below:
  "same_below j m m' \<Longrightarrow> i + length bs \<le> j \<Longrightarrow> has_bits m' i bs = has_bits m i bs"
  by (auto simp: has_bits_def same_below_def)

subsection \<open>Lists\<close>

lemma find_append: "find P (xs @ ys) = (case find P xs of None \<Rightarrow> find P ys | Some a \<Rightarrow> Some a)"
  by (induction xs) auto

lemma find_SomeD: "find P xs = Some a \<Longrightarrow> a \<in> set xs \<and> P a"
  by (auto simp: find_Some_iff)

lemma find_cong_on: "(\<And>a. a \<in> set xs \<Longrightarrow> P a = Q a) \<Longrightarrow> find P xs = find Q xs"
  by (induction xs) auto

lemma list_all2_mem: "list_all2 P xs ys \<Longrightarrow> x \<in> set xs \<Longrightarrow> \<exists>y\<in>set ys. P x y"
  by (metis in_set_conv_nth list_all2_conv_all_nth)

lemma list_all2_drop: "list_all2 P xs ys \<Longrightarrow> list_all2 P (drop i xs) (drop i ys)"
  by (auto simp: list_all2_conv_all_nth)

end
