(* ===== verification/Programs.thy ===== *)
theory Programs
  imports Prelude
begin

text \<open>
  Programs that return a code and change a state, as they are written in the code of the connections: a
  value of type \<open>prog\<close> takes the state and gives the result and the new state, or nothing when an assertion
  fails. A result is \<open>Inr x\<close> for the code zero with the output \<open>x\<close>, or \<open>Inl res\<close> for an error code
  \<open>res\<close>; \<open>andthen\<close> is a call under \<^verbatim>\<open>ENSURE_OK\<close>, which leaves the function with the error. The triples
  \<open>gives P p r Q\<close> say that \<open>p\<close> started in a state that satisfies \<open>P\<close> does return, with the result \<open>r\<close> and a
  state that satisfies \<open>Q\<close>.
\<close>

section \<open>Programs\<close>

type_synonym ('s, 'a) prog = "'s \<Rightarrow> ((int + 'a) \<times> 's) option"

definition ret :: "'a \<Rightarrow> ('s, 'a) prog" where
  "ret x s = Some (Inr x, s)"

definition fail :: "int \<Rightarrow> ('s, 'a) prog" where
  "fail res s = Some (Inl res, s)"

definition andthen :: "('s, 'a) prog \<Rightarrow> ('a \<Rightarrow> ('s, 'b) prog) \<Rightarrow> ('s, 'b) prog" where
  "andthen m f s = (case m s of None \<Rightarrow> None
     | Some (Inl res, s') \<Rightarrow> Some (Inl res, s')
     | Some (Inr x, s') \<Rightarrow> f x s')"

definition assertion :: "('s \<Rightarrow> bool) \<Rightarrow> ('s, unit) prog" where
  "assertion P s = (if P s then Some (Inr (), s) else None)"

definition modify :: "('s \<Rightarrow> 's) \<Rightarrow> ('s, unit) prog" where
  "modify f s = Some (Inr (), f s)"

definition gets :: "('s \<Rightarrow> 'a) \<Rightarrow> ('s, 'a) prog" where
  "gets f s = Some (Inr (f s), s)"

text \<open>The same call with another result for an error.\<close>

definition on_error :: "(int \<Rightarrow> int) \<Rightarrow> ('s, 'a) prog \<Rightarrow> ('s, 'a) prog" where
  "on_error f m s = (case m s of None \<Rightarrow> None | Some (Inl res, s') \<Rightarrow> Some (Inl (f res), s') | Some (Inr x, s') \<Rightarrow> Some (Inr x, s'))"

text \<open>A program on a part of the state.\<close>

definition zoom :: "('t \<Rightarrow> 's) \<Rightarrow> ('s \<Rightarrow> 't \<Rightarrow> 't) \<Rightarrow> ('s, 'a) prog \<Rightarrow> ('t, 'a) prog" where
  "zoom get put p t = (case p (get t) of None \<Rightarrow> None | Some (r, s) \<Rightarrow> Some (r, put s t))"

text \<open>A loop over a list; the outputs of the body are collected.\<close>

primrec for_list :: "('x \<Rightarrow> ('s, 'a) prog) \<Rightarrow> 'x list \<Rightarrow> ('s, 'a list) prog" where
  "for_list f [] = ret []"
| "for_list f (x # xs) = andthen (f x) (\<lambda>y. andthen (for_list f xs) (\<lambda>ys. ret (y # ys)))"

section \<open>Triples\<close>

definition gives :: "('s \<Rightarrow> bool) \<Rightarrow> ('s, 'a) prog \<Rightarrow> int + 'a \<Rightarrow> ('s \<Rightarrow> bool) \<Rightarrow> bool" where
  "gives P p r Q \<longleftrightarrow> (\<forall>s. P s \<longrightarrow> (\<exists>s'. p s = Some (r, s') \<and> Q s'))"

lemma givesI: "(\<And>s. P s \<Longrightarrow> \<exists>s'. p s = Some (r, s') \<and> Q s') \<Longrightarrow> gives P p r Q"
  by (simp add: gives_def)

lemma givesD: "gives P p r Q \<Longrightarrow> P s \<Longrightarrow> \<exists>s'. p s = Some (r, s') \<and> Q s'"
  by (simp add: gives_def)

lemma gives_weaken:
  assumes "gives P p r Q" "\<And>s. P' s \<Longrightarrow> P s" "\<And>s. Q s \<Longrightarrow> Q' s"
  shows "gives P' p r Q'"
  unfolding gives_def using assms by (meson givesD)

lemma gives_ret: "(\<And>s. P s \<Longrightarrow> Q s) \<Longrightarrow> gives P (ret x) (Inr x) Q"
  by (simp add: gives_def ret_def)

lemma gives_fail: "(\<And>s. P s \<Longrightarrow> Q s) \<Longrightarrow> gives P (fail e) (Inl e) Q"
  by (simp add: gives_def fail_def)

lemma gives_andthen:
  assumes "gives P m (Inr x) R" "gives R (f x) r Q"
  shows "gives P (andthen m f) r Q"
proof (rule givesI)
  fix s assume "P s"
  then obtain s1 where s1: "m s = Some (Inr x, s1)" "R s1" using givesD [OF assms(1)] by blast
  then show "\<exists>s'. andthen m f s = Some (r, s') \<and> Q s'" using givesD [OF assms(2) s1(2)] by (simp add: andthen_def)
qed

lemma gives_andthen_error:
  assumes "gives P m (Inl e) Q"
  shows "gives P (andthen m f) (Inl e) Q"
  using assms by (fastforce simp: gives_def andthen_def)

lemma gives_assertion: "(\<And>s. P s \<Longrightarrow> A s \<and> Q s) \<Longrightarrow> gives P (assertion A) (Inr ()) Q"
  by (simp add: gives_def assertion_def)

lemma gives_modify: "(\<And>s. P s \<Longrightarrow> Q (f s)) \<Longrightarrow> gives P (modify f) (Inr ()) Q"
  by (simp add: gives_def modify_def)

lemma gives_gets: "(\<And>s. P s \<Longrightarrow> f s = x \<and> Q s) \<Longrightarrow> gives P (gets f) (Inr x) Q"
  by (auto simp: gives_def gets_def)

lemma gives_on_error: "gives P m (Inr x) Q \<Longrightarrow> gives P (on_error f m) (Inr x) Q"
  "gives P m (Inl e) Q \<Longrightarrow> gives P (on_error f m) (Inl (f e)) Q"
  by (fastforce simp: gives_def on_error_def)+

lemma gives_zoom:
  assumes "gives P p r Q" "\<And>t. P' t \<Longrightarrow> P (get t)" "\<And>t s. P' t \<Longrightarrow> Q s \<Longrightarrow> Q' (put s t)"
  shows "gives P' (zoom get put p) r Q'"
proof (rule givesI)
  fix t assume t: "P' t"
  then obtain s where "p (get t) = Some (r, s)" "Q s" using givesD [OF assms(1) assms(2)] by blast
  then show "\<exists>t'. zoom get put p t = Some (r, t') \<and> Q' t'" using assms(3) t by (simp add: zoom_def)
qed

lemma gives_for_list:
  assumes "\<And>x xs. gives (P (x # xs)) (f x) (Inr (g x)) (P xs)"
  shows "gives (P xs) (for_list f xs) (Inr (map g xs)) (P [])"
proof (induction xs)
  case Nil
  show ?case by (simp add: gives_ret)
next
  case (Cons x xs)
  show ?case unfolding for_list.simps list.map
    by (rule gives_andthen [OF assms gives_andthen [OF Cons gives_ret]]) simp
qed

text \<open>Facts that do not depend on the state.\<close>

lemma gives_pure: "(A \<Longrightarrow> gives P p r Q) \<Longrightarrow> gives (\<lambda>s. A \<and> P s) p r Q"
  by (auto simp: gives_def)

lemma gives_exists: "(\<And>x. gives (P x) p r Q) \<Longrightarrow> gives (\<lambda>s. \<exists>x. P x s) p r Q"
  by (auto simp: gives_def)

end
