(* ===== verification/Item_Tree.thy ===== *)
theory Item_Tree
  imports Prelude
begin

text \<open>
  The red-black trees of \<^verbatim>\<open>src/common/tree.c\<close>, one per index of the storage. The C code links the
  items themselves through the arrays \<^verbatim>\<open>left\<close>, \<^verbatim>\<open>right\<close> and \<^verbatim>\<open>color_field\<close>, each function working at
  one array position \<^verbatim>\<open>index\<close>; here the tree of one index is a value, its elements are the addresses
  of the items, and the comparison \<^verbatim>\<open>storage_item_cmp\<close> at that index is an argument. Elements that
  compare equal are ordered by their addresses. A failed assertion, or following a null pointer, is
  \<open>None\<close>.
\<close>

type_synonym ptr = nat

datatype color = Black | Red

datatype item_tree = Null | Node color item_tree ptr item_tree

section \<open>Insertion\<close>

fun is_red :: "item_tree \<Rightarrow> bool" where
  "is_red Null = False"
| "is_red (Node c l a r) = (c = Red)"

fun set_color :: "color \<Rightarrow> item_tree \<Rightarrow> item_tree" where
  "set_color c Null = Null"
| "set_color c (Node c' l a r) = Node c l a r"

definition fix_left_insertion_discrepancy :: "item_tree \<Rightarrow> item_tree option" where
  "fix_left_insertion_discrepancy tree = (case tree of
     Node ct tl' t tr \<Rightarrow> (case tl' of
       Node cb bl b br \<Rightarrow>
         if is_red tr then
           (if cb = Red \<and> (is_red bl \<or> is_red br)
            then Some (Node Red (set_color Black tl') t (set_color Black tr)) else Some tree)
         else if cb = Red then
           (if is_red bl then Some (Node Black bl b (Node Red br t tr))
            else (case br of
                Node Red cl c cr \<Rightarrow> Some (Node Black (Node cb bl b cl) c (Node Red cr t tr))
              | _ \<Rightarrow> Some tree))
         else Some tree
     | Null \<Rightarrow> None)
   | Null \<Rightarrow> None)"

definition fix_right_insertion_discrepancy :: "item_tree \<Rightarrow> item_tree option" where
  "fix_right_insertion_discrepancy tree = (case tree of
     Node ct tr t tl' \<Rightarrow> (case tl' of
       Node cb br b bl \<Rightarrow>
         if is_red tr then
           (if cb = Red \<and> (is_red bl \<or> is_red br)
            then Some (Node Red (set_color Black tr) t (set_color Black tl')) else Some tree)
         else if cb = Red then
           (if is_red bl then Some (Node Black (Node Red tr t br) b bl)
            else (case br of
                Node Red cr c cl \<Rightarrow> Some (Node Black (Node Red tr t cr) c (Node cb cl b bl))
              | _ \<Rightarrow> Some tree))
         else Some tree
     | Null \<Rightarrow> None)
   | Null \<Rightarrow> None)"

text \<open>The test by which the code descends to the left; the pointer comparison breaks ties.\<close>

definition goes_left :: "(ptr \<Rightarrow> ptr \<Rightarrow> int) \<Rightarrow> ptr \<Rightarrow> ptr \<Rightarrow> bool" where
  "goes_left cmp e t \<longleftrightarrow> cmp e t < 0 \<or> (cmp e t = 0 \<and> e < t)"

definition goes_right :: "(ptr \<Rightarrow> ptr \<Rightarrow> int) \<Rightarrow> ptr \<Rightarrow> ptr \<Rightarrow> bool" where
  "goes_right cmp e t \<longleftrightarrow> cmp e t > 0 \<or> (cmp e t = 0 \<and> e > t)"

fun add_recursive :: "(ptr \<Rightarrow> ptr \<Rightarrow> int) \<Rightarrow> item_tree \<Rightarrow> ptr \<Rightarrow> item_tree option" where
  "add_recursive cmp Null e = Some (Node Red Null e Null)"
| "add_recursive cmp (Node c l t r) e =
     (if goes_left cmp e t then do {
        l \<leftarrow> add_recursive cmp l e;
        if c = Black then fix_left_insertion_discrepancy (Node c l t r) else Some (Node c l t r) }
      else do {
        r \<leftarrow> add_recursive cmp r e;
        if c = Black then fix_right_insertion_discrepancy (Node c l t r) else Some (Node c l t r) })"

definition tree_add :: "(ptr \<Rightarrow> ptr \<Rightarrow> int) \<Rightarrow> item_tree \<Rightarrow> ptr \<Rightarrow> item_tree option" where
  "tree_add cmp tree e = do {
     t \<leftarrow> add_recursive cmp tree e;
     case t of Null \<Rightarrow> None | Node c l a r \<Rightarrow> Some (Node Black l a r) }"

section \<open>Deletion\<close>

text \<open>
  The repair after the left (or right) subtree of the node \<open>a\<close> has lost one black level, with \<open>b\<close> the
  sibling. The result tells whether the whole tree has lost the level. The cases of a red and of a
  black sibling are separate functions; their arguments carry the names of the C variables.
\<close>

definition fix_left_deletion_red ::
  "color \<Rightarrow> item_tree \<Rightarrow> ptr \<Rightarrow> item_tree \<Rightarrow> ptr \<Rightarrow> item_tree \<Rightarrow> (item_tree \<times> bool) option" where
  "fix_left_deletion_red ca ar a br b bl = (case br of
     Null \<Rightarrow> Some (Node Black (Node ca ar a Null) b bl, False)
   | Node cc cr c cl \<Rightarrow>
       if cc \<noteq> Black then None
       else if \<not> is_red cl \<and> \<not> is_red cr then
         Some (Node Black (Node ca ar a (Node Red cr c cl)) b bl, False)
       else (case cr of
           Node Red dr d dl \<Rightarrow> Some (Node Black (Node ca ar a dr) d (Node Red (Node cc dl c cl) b bl), False)
         | _ \<Rightarrow> Some (Node cc (Node ca ar a cr) c (Node Red (set_color Black cl) b bl), False)))"

definition fix_left_deletion_black ::
  "color \<Rightarrow> item_tree \<Rightarrow> ptr \<Rightarrow> item_tree \<Rightarrow> ptr \<Rightarrow> item_tree \<Rightarrow> (item_tree \<times> bool) option" where
  "fix_left_deletion_black ca ar a br b bl =
     (if \<not> is_red bl \<and> \<not> is_red br then Some (Node Black ar a (Node Red br b bl), ca = Black)
      else if is_red bl \<and> \<not> is_red br then
        Some (Node ca (Node Black ar a br) b (set_color Black bl), False)
      else (case br of
          Node Red cr c cl \<Rightarrow> Some (Node ca (Node Black ar a cr) c (Node Black cl b bl), False)
        | _ \<Rightarrow> None))"

definition fix_left_deletion_discrepancy :: "item_tree \<Rightarrow> (item_tree \<times> bool) option" where
  "fix_left_deletion_discrepancy tree = (case tree of
     Null \<Rightarrow> None
   | Node ca ar a b \<Rightarrow> (case b of
       Null \<Rightarrow> if ca = Red then Some (Node Black ar a Null, False) else None
     | Node cb br b bl \<Rightarrow>
         if cb = Red then fix_left_deletion_red ca ar a br b bl
         else fix_left_deletion_black ca ar a br b bl))"

definition fix_right_deletion_red ::
  "color \<Rightarrow> item_tree \<Rightarrow> ptr \<Rightarrow> item_tree \<Rightarrow> ptr \<Rightarrow> item_tree \<Rightarrow> (item_tree \<times> bool) option" where
  "fix_right_deletion_red ca bl b br a ar = (case br of
     Null \<Rightarrow> Some (Node Black bl b (Node ca Null a ar), False)
   | Node cc cl c cr \<Rightarrow>
       if cc \<noteq> Black then None
       else if \<not> is_red cl \<and> \<not> is_red cr then
         Some (Node Black bl b (Node ca (Node Red cl c cr) a ar), False)
       else (case cr of
           Node Red dl d dr \<Rightarrow> Some (Node Black (Node Red bl b (Node cc cl c dl)) d (Node ca dr a ar), False)
         | _ \<Rightarrow> Some (Node cc (Node Red bl b (set_color Black cl)) c (Node ca cr a ar), False)))"

definition fix_right_deletion_black ::
  "color \<Rightarrow> item_tree \<Rightarrow> ptr \<Rightarrow> item_tree \<Rightarrow> ptr \<Rightarrow> item_tree \<Rightarrow> (item_tree \<times> bool) option" where
  "fix_right_deletion_black ca bl b br a ar =
     (if \<not> is_red bl \<and> \<not> is_red br then Some (Node Black (Node Red bl b br) a ar, ca = Black)
      else if is_red bl \<and> \<not> is_red br then
        Some (Node ca (set_color Black bl) b (Node Black br a ar), False)
      else (case br of
          Node Red cl c cr \<Rightarrow> Some (Node ca (Node Black bl b cl) c (Node Black cr a ar), False)
        | _ \<Rightarrow> None))"

definition fix_right_deletion_discrepancy :: "item_tree \<Rightarrow> (item_tree \<times> bool) option" where
  "fix_right_deletion_discrepancy tree = (case tree of
     Null \<Rightarrow> None
   | Node ca b a ar \<Rightarrow> (case b of
       Null \<Rightarrow> if ca = Red then Some (Node Black Null a ar, False) else None
     | Node cb bl b br \<Rightarrow>
         if cb = Red then fix_right_deletion_red ca bl b br a ar
         else fix_right_deletion_black ca bl b br a ar))"

fun delete_rightmost_leaf :: "item_tree \<Rightarrow> (item_tree \<times> ptr \<times> bool) option" where
  "delete_rightmost_leaf Null = None"
| "delete_rightmost_leaf (Node c l t r) =
     (if r = Null then
        (case l of
           Node cl ll a lr \<Rightarrow> Some (Node Black ll a lr, t, c = Black \<and> cl = Black)
         | Null \<Rightarrow> Some (Null, t, c = Black))
      else do {
        (r, theLeaf, deepDecreased) \<leftarrow> delete_rightmost_leaf r;
        if deepDecreased then do {
          (tree, res) \<leftarrow> fix_right_deletion_discrepancy (Node c l t r);
          Some (tree, theLeaf, res) }
        else Some (Node c l t r, theLeaf, False) })"

text \<open>Deleting the root of a tree, the innermost case of \<^verbatim>\<open>delete_recursive\<close>.\<close>

definition delete_root :: "color \<Rightarrow> item_tree \<Rightarrow> item_tree \<Rightarrow> (item_tree \<times> bool) option" where
  "delete_root c l r =
     (if l = Null then
        (case r of
           Null \<Rightarrow> Some (Null, c = Black)
         | Node cr rl a rr \<Rightarrow> Some (Node Black rl a rr, c = Black \<and> cr = Black))
      else do {
        (l, theLeaf, deepDecreased) \<leftarrow> delete_rightmost_leaf l;
        if deepDecreased then fix_left_deletion_discrepancy (Node c l theLeaf r)
        else Some (Node c l theLeaf r, False) })"

fun delete_recursive :: "(ptr \<Rightarrow> ptr \<Rightarrow> int) \<Rightarrow> item_tree \<Rightarrow> ptr \<Rightarrow> (item_tree \<times> bool) option" where
  "delete_recursive cmp Null e = None"
| "delete_recursive cmp (Node c l t r) e =
     (if goes_left cmp e t then do {
        (l, deepDecreased) \<leftarrow> delete_recursive cmp l e;
        if deepDecreased then fix_left_deletion_discrepancy (Node c l t r) else Some (Node c l t r, False) }
      else if goes_right cmp e t then do {
        (r, deepDecreased) \<leftarrow> delete_recursive cmp r e;
        if deepDecreased then fix_right_deletion_discrepancy (Node c l t r) else Some (Node c l t r, False) }
      else do {
        _ \<leftarrow> c_assert (e = t);
        delete_root c l r })"

definition tree_delete :: "(ptr \<Rightarrow> ptr \<Rightarrow> int) \<Rightarrow> item_tree \<Rightarrow> ptr \<Rightarrow> item_tree option" where
  "tree_delete cmp tree e = do {
     (t, _) \<leftarrow> delete_recursive cmp tree e;
     Some (set_color Black t) }"

section \<open>Searching\<close>

text \<open>
  The search loop that several functions of \<^verbatim>\<open>tree.c\<close> contain: descend until a node compares equal,
  and return the subtree there. \<open>f\<close> compares the wanted key with a node.
\<close>

fun find_node :: "(ptr \<Rightarrow> int) \<Rightarrow> item_tree \<Rightarrow> item_tree" where
  "find_node f Null = Null"
| "find_node f (Node c l t r) =
     (if f t < 0 then find_node f l else if f t > 0 then find_node f r else Node c l t r)"

fun root_elem :: "item_tree \<Rightarrow> ptr option" where
  "root_elem Null = None"
| "root_elem (Node c l t r) = Some t"

definition find_member :: "(ptr \<Rightarrow> int) \<Rightarrow> item_tree \<Rightarrow> ptr option" where
  "find_member f t = root_elem (find_node f t)"

fun nearest_lesser_loop :: "(ptr \<Rightarrow> int) \<Rightarrow> item_tree \<Rightarrow> ptr option \<Rightarrow> ptr option" where
  "nearest_lesser_loop f Null nearest = nearest"
| "nearest_lesser_loop f (Node c l s r) nearest =
     (if f s < 0 then nearest_lesser_loop f l nearest
      else if f s > 0 then nearest_lesser_loop f r (Some s)
      else Some s)"

definition find_member_or_nearest_lesser :: "(ptr \<Rightarrow> int) \<Rightarrow> item_tree \<Rightarrow> ptr option" where
  "find_member_or_nearest_lesser f t = nearest_lesser_loop f t None"

fun is_member :: "(ptr \<Rightarrow> ptr \<Rightarrow> int) \<Rightarrow> item_tree \<Rightarrow> ptr \<Rightarrow> bool option" where
  "is_member cmp Null e = Some False"
| "is_member cmp (Node c l t r) e =
     (if goes_left cmp e t then is_member cmp l e
      else if goes_right cmp e t then is_member cmp r e
      else do { _ \<leftarrow> c_assert (t = e); Some True })"

definition delete_if_member :: "(ptr \<Rightarrow> ptr \<Rightarrow> int) \<Rightarrow> item_tree \<Rightarrow> ptr \<Rightarrow> (bool \<times> item_tree \<times> ptr option) option" where
  "delete_if_member cmp tree e = (case find_member (cmp e) tree of
     Some memb \<Rightarrow> map_option (\<lambda>t. (True, t, Some memb)) (tree_delete cmp tree memb)
   | None \<Rightarrow> Some (False, tree, None))"

definition add_if_not_member :: "(ptr \<Rightarrow> ptr \<Rightarrow> int) \<Rightarrow> item_tree \<Rightarrow> ptr \<Rightarrow> (bool \<times> item_tree \<times> ptr option) option" where
  "add_if_not_member cmp tree e = (case find_member (cmp e) tree of
     None \<Rightarrow> map_option (\<lambda>t. (True, t, None)) (tree_add cmp tree e)
   | Some memb \<Rightarrow> Some (False, tree, Some memb))"

section \<open>Iteration\<close>

text \<open>
  The iterator keeps a path of nodes from the root of the iteration, innermost first here, each with
  the number of passes made through it. \<open>restrict\<close> stands for \<^verbatim>\<open>equalto\<close> and \<^verbatim>\<open>subcomparator\<close>: a
  comparison with the wanted key, or none. The path array has 128 entries; a deeper push is \<open>None\<close>.
\<close>

record tree_iterator =
  currentelem :: "ptr option"
  path :: "(item_tree \<times> nat) list"
  order :: nat
  restrict :: "(ptr \<Rightarrow> int) option"

definition next_child :: "(ptr \<Rightarrow> int) option \<Rightarrow> item_tree \<Rightarrow> nat \<Rightarrow> item_tree" where
  "next_child eqt t pass = (case t of Null \<Rightarrow> Null
     | Node c l a r \<Rightarrow> (let s = (if pass = 0 then l else r)
         in case eqt of None \<Rightarrow> s | Some f \<Rightarrow> find_node f s))"

definition push_child :: "item_tree \<Rightarrow> (item_tree \<times> nat) list \<Rightarrow> (item_tree \<times> nat) list option" where
  "push_child s p = (if s = Null then Some p else if length p < 128 then Some ((s, 0) # p) else None)"

definition advance_path :: "(ptr \<Rightarrow> int) option \<Rightarrow> (item_tree \<times> nat) list \<Rightarrow> (item_tree \<times> nat) list option" where
  "advance_path eqt p = (case p of [] \<Rightarrow> Some []
     | (t, pass) # q \<Rightarrow> if pass \<ge> 2 then Some q
         else push_child (next_child eqt t pass) ((t, pass + 1) # q))"

definition current_of :: "nat \<Rightarrow> (item_tree \<times> nat) list \<Rightarrow> ptr option" where
  "current_of ord p = (case p of [] \<Rightarrow> None | (t, pass) # q \<Rightarrow> if ord = pass then root_elem t else None)"

fun inorder :: "item_tree \<Rightarrow> ptr list" where
  "inorder Null = []"
| "inorder (Node c l a r) = inorder l @ a # inorder r"

fun frame_weight :: "item_tree \<times> nat \<Rightarrow> nat" where
  "frame_weight (Null, n) = (if n = 0 then 3 else if n = 1 then 2 else 1)"
| "frame_weight (Node c l a r, n) = (if n = 0 then 3 * (length (inorder l) + length (inorder r) + 1)
     else if n = 1 then 3 * length (inorder r) + 2 else 1)"

definition path_weight :: "(item_tree \<times> nat) list \<Rightarrow> nat" where
  "path_weight p = sum_list (map frame_weight p)"

lemma find_node_nodes: "length (inorder (find_node f t)) \<le> length (inorder t)"
  by (induction t) auto

lemma frame_weight_0: "t \<noteq> Null \<Longrightarrow> frame_weight (t, 0) = 3 * length (inorder t)"
  by (cases t) simp_all

lemma advance_weight:
  assumes "advance_path eqt p = Some p'" "p \<noteq> []"
  shows "path_weight p' < path_weight p"
proof -
  obtain t n q where p: "p = (t, n) # q" using assms(2) by (cases p) auto
  let ?s = "next_child eqt t n"
  show ?thesis
  proof (cases "2 \<le> n")
    case True
    then show ?thesis using assms p by (cases t) (auto simp: advance_path_def path_weight_def)
  next
    case False
    have "frame_weight (t, Suc n) + (if ?s = Null then 0 else frame_weight (?s, 0)) < frame_weight (t, n)"
    proof (cases t)
      case (Node c l a r)
      then have "length (inorder ?s) \<le> (if n = 0 then length (inorder l) else length (inorder r))"
        by (auto simp: next_child_def Let_def find_node_nodes split: option.splits)
      then show ?thesis using False Node frame_weight_0 [of ?s] by (auto split: if_splits)
    qed (use False in \<open>auto simp: next_child_def\<close>)
    moreover have "p' = (if ?s = Null then (t, Suc n) # q else (?s, 0) # (t, Suc n) # q)"
      using False assms p by (auto simp: advance_path_def push_child_def split: if_splits)
    ultimately show ?thesis using p by (auto simp: path_weight_def split: if_splits)
  qed
qed

function find_current :: "(ptr \<Rightarrow> int) option \<Rightarrow> nat \<Rightarrow> (item_tree \<times> nat) list \<Rightarrow>
    (ptr option \<times> (item_tree \<times> nat) list) option" where
  "find_current eqt ord p = (if p = [] then Some (None, []) else
     (case advance_path eqt p of None \<Rightarrow> None
      | Some p' \<Rightarrow> (case current_of ord p' of Some e \<Rightarrow> Some (Some e, p') | None \<Rightarrow> find_current eqt ord p')))"
  by pat_completeness auto

termination
  by (relation "measure (\<lambda>(eqt, ord, p). path_weight p)") (simp_all add: advance_weight)

declare find_current.simps [simp del]

definition it_compute_current_elem :: "tree_iterator \<Rightarrow> tree_iterator option" where
  "it_compute_current_elem it = map_option (\<lambda>(e, p). it\<lparr>currentelem := e, path := p\<rparr>)
     (find_current (restrict it) (order it) (path it))"

definition it_init_full :: "item_tree \<Rightarrow> nat \<Rightarrow> (ptr \<Rightarrow> int) option \<Rightarrow> tree_iterator option" where
  "it_init_full tree ord eqt =
     (let t = (case eqt of None \<Rightarrow> tree | Some f \<Rightarrow> find_node f tree);
          it = \<lparr>currentelem = None, path = [], order = ord, restrict = eqt\<rparr>
      in if t = Null then Some it
         else let it = it\<lparr>path := [(t, 0)]\<rparr>
              in if ord = 0 then Some (it\<lparr>currentelem := root_elem t\<rparr>)
                 else it_compute_current_elem it)"

definition it_init :: "item_tree \<Rightarrow> tree_iterator option" where
  "it_init tree = it_init_full tree 2 None"

definition it_init_preorder :: "item_tree \<Rightarrow> tree_iterator option" where
  "it_init_preorder tree = it_init_full tree 0 None"

definition it_init_inorder :: "item_tree \<Rightarrow> tree_iterator option" where
  "it_init_inorder tree = it_init_full tree 1 None"

definition it_init_postorder :: "item_tree \<Rightarrow> tree_iterator option" where
  "it_init_postorder tree = it_init_full tree 2 None"

definition it_init_on_equal :: "item_tree \<Rightarrow> (ptr \<Rightarrow> int) \<Rightarrow> tree_iterator option" where
  "it_init_on_equal tree f = it_init_full tree 1 (Some f)"

definition it_current :: "tree_iterator \<Rightarrow> ptr option" where
  "it_current it = currentelem it"

definition it_next :: "tree_iterator \<Rightarrow> tree_iterator option" where
  "it_next it = it_compute_current_elem it"

section \<open>Consistency check\<close>

text \<open>The check of the code: \<open>pathdeep\<close> is the black depth of the first null pointer, \<open>-1\<close> before it.\<close>

fun cmp_le :: "(ptr \<Rightarrow> ptr \<Rightarrow> int) \<Rightarrow> item_tree \<Rightarrow> item_tree \<Rightarrow> bool" where
  "cmp_le cmp (Node _ _ a _) (Node _ _ b _) = (cmp a b \<le> 0)"
| "cmp_le cmp _ _ = True"

fun consistency_check_recursive :: "(ptr \<Rightarrow> ptr \<Rightarrow> int) \<Rightarrow> item_tree \<Rightarrow> int \<Rightarrow> int \<Rightarrow> int option" where
  "consistency_check_recursive cmp Null pathdeep cdeep =
     (if pathdeep < 0 then Some cdeep else do { _ \<leftarrow> c_assert (pathdeep = cdeep); Some pathdeep })"
| "consistency_check_recursive cmp (Node c l t r) pathdeep cdeep = do {
     _ \<leftarrow> c_assert (cmp_le cmp l (Node c l t r));
     _ \<leftarrow> c_assert (cmp_le cmp (Node c l t r) r);
     if c = Red then do {
       _ \<leftarrow> c_assert (\<not> is_red l);
       _ \<leftarrow> c_assert (\<not> is_red r);
       pathdeep \<leftarrow> consistency_check_recursive cmp l pathdeep cdeep;
       consistency_check_recursive cmp r pathdeep cdeep }
     else do {
       pathdeep \<leftarrow> consistency_check_recursive cmp l pathdeep (cdeep + 1);
       consistency_check_recursive cmp r pathdeep (cdeep + 1) } }"

definition consistency_check :: "(ptr \<Rightarrow> ptr \<Rightarrow> int) \<Rightarrow> item_tree \<Rightarrow> unit option" where
  "consistency_check cmp t = do {
     _ \<leftarrow> c_assert (\<not> is_red t);
     _ \<leftarrow> consistency_check_recursive cmp t (- 1) 0;
     Some () }"

section \<open>The red-black invariant\<close>

text \<open>No red node has a red child, and every path to a null pointer crosses the same number of black nodes.\<close>

fun no_red_red :: "item_tree \<Rightarrow> bool" where
  "no_red_red Null = True"
| "no_red_red (Node c l a r) = ((c = Red \<longrightarrow> \<not> is_red l \<and> \<not> is_red r) \<and> no_red_red l \<and> no_red_red r)"

fun bdepth :: "item_tree \<Rightarrow> nat" where
  "bdepth Null = 0"
| "bdepth (Node c l a r) = (if c = Black then 1 else 0) + bdepth l"

fun balanced :: "item_tree \<Rightarrow> bool" where
  "balanced Null = True"
| "balanced (Node c l a r) = (bdepth l = bdepth r \<and> balanced l \<and> balanced r)"

text \<open>A tree whose root may be red with a red child, as insertion produces it on the way up.\<close>

fun nearly_no_red_red :: "item_tree \<Rightarrow> bool" where
  "nearly_no_red_red Null = True"
| "nearly_no_red_red (Node c l a r) = (no_red_red l \<and> no_red_red r \<and> (c = Red \<longrightarrow> \<not> (is_red l \<and> is_red r)))"

definition rb_tree :: "item_tree \<Rightarrow> bool" where
  "rb_tree t \<longleftrightarrow> \<not> is_red t \<and> no_red_red t \<and> balanced t"

lemma no_red_red_nearly: "no_red_red t \<Longrightarrow> nearly_no_red_red t"
  by (cases t) auto

lemma set_black [simp]:
  "inorder (set_color c t) = inorder t" "balanced (set_color c t) = balanced t"
  "is_red (set_color Black t) = False"
  by (cases t; simp)+

lemma set_black_no_red_red [simp]: "nearly_no_red_red t \<Longrightarrow> no_red_red (set_color Black t)"
  by (cases t) auto

lemma set_black_no_red_red' [simp]: "no_red_red t \<Longrightarrow> no_red_red (set_color Black t)"
  by (cases t) auto

lemma set_black_bdepth [simp]: "bdepth (set_color Black t) = (if is_red t then Suc (bdepth t) else bdepth t)"
  by (cases t) (auto intro: color.exhaust)

lemma fix_left_insertion:
  assumes "nearly_no_red_red l" "no_red_red r" "balanced (Node Black l t r)" "l \<noteq> Null"
  shows "\<exists>t'. fix_left_insertion_discrepancy (Node Black l t r) = Some t' \<and> no_red_red t' \<and> balanced t' \<and>
    bdepth t' = bdepth (Node Black l t r) \<and> inorder t' = inorder (Node Black l t r) \<and> t' \<noteq> Null"
  using assms
  by (auto simp: fix_left_insertion_discrepancy_def split: item_tree.splits color.splits)

lemma fix_right_insertion:
  assumes "no_red_red l" "nearly_no_red_red r" "balanced (Node Black l t r)" "r \<noteq> Null"
  shows "\<exists>t'. fix_right_insertion_discrepancy (Node Black l t r) = Some t' \<and> no_red_red t' \<and> balanced t' \<and>
    bdepth t' = bdepth (Node Black l t r) \<and> inorder t' = inorder (Node Black l t r) \<and> t' \<noteq> Null"
  using assms
  by (auto simp: fix_right_insertion_discrepancy_def split: item_tree.splits color.splits)

lemma add_recursive_rb:
  assumes "no_red_red t" "balanced t"
  shows "\<exists>t'. add_recursive cmp t e = Some t' \<and> t' \<noteq> Null \<and> balanced t' \<and> bdepth t' = bdepth t \<and>
    nearly_no_red_red t' \<and> (\<not> is_red t \<longrightarrow> no_red_red t')"
  using assms
proof (induction t)
  case (Node c l t r)
  show ?case
  proof (cases "goes_left cmp e t")
    case True
    obtain l' where l': "add_recursive cmp l e = Some l'" "l' \<noteq> Null" "balanced l'" "bdepth l' = bdepth l"
      "nearly_no_red_red l'" "\<not> is_red l \<longrightarrow> no_red_red l'" using Node by auto
    show ?thesis
    proof (cases c)
      case Black
      then show ?thesis using True l' Node.prems fix_left_insertion [of l' r t] by (auto intro: no_red_red_nearly)
    qed (use True l' Node.prems in auto)
  next
    case False
    obtain r' where r': "add_recursive cmp r e = Some r'" "r' \<noteq> Null" "balanced r'" "bdepth r' = bdepth r"
      "nearly_no_red_red r'" "\<not> is_red r \<longrightarrow> no_red_red r'" using Node by auto
    show ?thesis
    proof (cases c)
      case Black
      then show ?thesis using False r' Node.prems fix_right_insertion [of l r' t] by (auto intro: no_red_red_nearly)
    qed (use False r' Node.prems in auto)
  qed
qed simp

lemma tree_add_rb:
  assumes "rb_tree t"
  shows "\<exists>t'. tree_add cmp t e = Some t' \<and> rb_tree t' \<and> add_recursive cmp t e \<noteq> None \<and>
    inorder t' = inorder (the (add_recursive cmp t e))"
proof -
  have nrr: "\<not> is_red t" "no_red_red t" "balanced t" using assms by (simp_all add: rb_tree_def)
  with add_recursive_rb [of t cmp e] obtain t1 where t1: "add_recursive cmp t e = Some t1" "t1 \<noteq> Null" "balanced t1" "no_red_red t1"
    by blast
  then obtain c l a r where "t1 = Node c l a r" by (cases t1) auto
  with t1 show ?thesis by (auto simp: tree_add_def rb_tree_def)
qed

section \<open>Rebalancing after a deletion\<close>

text \<open>
  The repairs restore the balance of a tree one of whose subtrees is one black level short; the result
  is short exactly if the flag says so, and a black root stays black.
\<close>

definition repaired :: "item_tree \<Rightarrow> bool \<Rightarrow> nat \<Rightarrow> color \<Rightarrow> ptr list \<Rightarrow> bool" where
  "repaired t dec d c xs \<longleftrightarrow> no_red_red t \<and> balanced t \<and> bdepth t + (if dec then 1 else 0) = d \<and>
     (c = Black \<or> dec \<longrightarrow> \<not> is_red t) \<and> inorder t = xs"

lemma is_redE: "is_red t \<Longrightarrow> (\<And>l a r. t = Node Red l a r \<Longrightarrow> P) \<Longrightarrow> P"
  by (cases t) auto

lemma color_not [simp]: "c \<noteq> Red \<longleftrightarrow> c = Black" "c \<noteq> Black \<longleftrightarrow> c = Red"
  by (cases c; simp)+

lemma case_Red_not_red: "\<not> is_red t \<Longrightarrow> (case t of Node Red l a r \<Rightarrow> f l a r | _ \<Rightarrow> z) = z"
  by (cases t) (auto split: color.splits)

lemma fix_left_deletion_black:
  assumes "no_red_red ar" "no_red_red br" "no_red_red bl" "balanced ar" "balanced br" "balanced bl"
    "bdepth br = bdepth ar" "bdepth bl = bdepth ar" "\<not> is_red ar"
  shows "\<exists>t dec. fix_left_deletion_black ca ar a br b bl = Some (t, dec) \<and>
    repaired t dec ((if ca = Black then 1 else 0) + Suc (bdepth ar)) ca (inorder ar @ a # inorder br @ b # inorder bl)"
proof -
  consider (bb) "\<not> is_red bl" "\<not> is_red br" | (rb) "is_red bl" "\<not> is_red br"
    | (r) cr c cl where "br = Node Red cr c cl" by (metis is_redE)
  then show ?thesis
  proof cases
    case bb
    then show ?thesis using assms by (cases ca) (auto simp: fix_left_deletion_black_def repaired_def)
  next
    case rb
    then show ?thesis using assms by (cases ca) (auto simp: fix_left_deletion_black_def repaired_def)
  next
    case r
    then show ?thesis using assms by (cases ca) (auto simp: fix_left_deletion_black_def repaired_def)
  qed
qed

lemma fix_left_deletion_red:
  assumes "no_red_red ar" "no_red_red br" "no_red_red bl" "balanced ar" "balanced br" "balanced bl"
    "bdepth br = Suc (bdepth ar)" "bdepth bl = Suc (bdepth ar)" "\<not> is_red ar" "\<not> is_red br" "\<not> is_red bl"
  shows "\<exists>t dec. fix_left_deletion_red Black ar a br b bl = Some (t, dec) \<and>
    repaired t dec (Suc (Suc (bdepth ar))) Black (inorder ar @ a # inorder br @ b # inorder bl)"
proof -
  obtain cr c cl where br: "br = Node Black cr c cl" using assms(7,10) by (cases br) auto
  consider (bb) "\<not> is_red cl" "\<not> is_red cr" | (rb) "is_red cl" "\<not> is_red cr"
    | (r) dr d dl where "cr = Node Red dr d dl" by (metis is_redE)
  then show ?thesis
  proof cases
    case bb
    then show ?thesis using assms br by (auto simp: fix_left_deletion_red_def repaired_def)
  next
    case rb
    then show ?thesis using assms br by (auto simp: fix_left_deletion_red_def repaired_def case_Red_not_red)
  next
    case r
    then show ?thesis using assms br by (auto simp: fix_left_deletion_red_def repaired_def)
  qed
qed

lemma fix_left_deletion:
  assumes l: "no_red_red l" "balanced l" "\<not> is_red l" and r: "no_red_red r" "balanced r" "bdepth r = Suc (bdepth l)"
    and c: "c = Red \<longrightarrow> \<not> is_red r"
  shows "\<exists>t' dec. fix_left_deletion_discrepancy (Node c l t r) = Some (t', dec) \<and>
    repaired t' dec ((if c = Black then 1 else 0) + bdepth r) c (inorder l @ t # inorder r)"
proof -
  obtain cb br b bl where b: "r = Node cb br b bl" using r(3) by (cases r) auto
  show ?thesis
  proof (cases cb)
    case Black
    then show ?thesis using l r b fix_left_deletion_black [of l br bl c t b]
      by (auto simp: fix_left_deletion_discrepancy_def)
  next
    case Red
    then have "c = Black" using c b by (cases c) auto
    with Red show ?thesis using l r b fix_left_deletion_red [of l br bl t b]
      by (auto simp: fix_left_deletion_discrepancy_def)
  qed
qed

lemma fix_right_deletion_black:
  assumes "no_red_red ar" "no_red_red br" "no_red_red bl" "balanced ar" "balanced br" "balanced bl"
    "bdepth br = bdepth ar" "bdepth bl = bdepth ar" "\<not> is_red ar"
  shows "\<exists>t dec. fix_right_deletion_black ca bl b br a ar = Some (t, dec) \<and>
    repaired t dec ((if ca = Black then 1 else 0) + Suc (bdepth ar)) ca (inorder bl @ b # inorder br @ a # inorder ar)"
proof -
  consider (bb) "\<not> is_red bl" "\<not> is_red br" | (rb) "is_red bl" "\<not> is_red br"
    | (r) cr c cl where "br = Node Red cl c cr" by (metis is_redE)
  then show ?thesis
    by cases (cases ca; use assms in \<open>auto simp: fix_right_deletion_black_def repaired_def\<close>)+
qed

lemma fix_right_deletion_red:
  assumes "no_red_red ar" "no_red_red br" "no_red_red bl" "balanced ar" "balanced br" "balanced bl"
    "bdepth br = Suc (bdepth ar)" "bdepth bl = Suc (bdepth ar)" "\<not> is_red ar" "\<not> is_red br" "\<not> is_red bl"
  shows "\<exists>t dec. fix_right_deletion_red Black bl b br a ar = Some (t, dec) \<and>
    repaired t dec (Suc (Suc (bdepth ar))) Black (inorder bl @ b # inorder br @ a # inorder ar)"
proof -
  obtain cr c cl where br: "br = Node Black cl c cr" using assms(7,10) by (cases br) auto
  consider (bb) "\<not> is_red cl" "\<not> is_red cr" | (rb) "is_red cl" "\<not> is_red cr"
    | (r) dr d dl where "cr = Node Red dl d dr" by (metis is_redE)
  then show ?thesis
    by cases (use assms br in \<open>auto simp: fix_right_deletion_red_def repaired_def case_Red_not_red\<close>)
qed

lemma fix_right_deletion:
  assumes r: "no_red_red r" "balanced r" "\<not> is_red r" and l: "no_red_red l" "balanced l" "bdepth l = Suc (bdepth r)"
    and c: "c = Red \<longrightarrow> \<not> is_red l"
  shows "\<exists>t' dec. fix_right_deletion_discrepancy (Node c l t r) = Some (t', dec) \<and>
    repaired t' dec ((if c = Black then 1 else 0) + bdepth l) c (inorder l @ t # inorder r)"
proof -
  obtain cb br b bl where b: "l = Node cb bl b br" using l(3) by (cases l) auto
  show ?thesis
  proof (cases cb)
    case Black
    then show ?thesis using l r b fix_right_deletion_black [of r br bl c b t]
      by (auto simp: fix_right_deletion_discrepancy_def)
  next
    case Red
    then have "c = Black" using c b by (cases c) auto
    with Red show ?thesis using l r b fix_right_deletion_red [of r br bl b t]
      by (auto simp: fix_right_deletion_discrepancy_def)
  qed
qed

text \<open>The four deleting functions keep the invariant; only the searching one depends on the order of the elements.\<close>

lemma repairedD:
  assumes "repaired t dec d c xs"
  shows "no_red_red t" "balanced t" "bdepth t + (if dec then 1 else 0) = d" "c = Black \<Longrightarrow> \<not> is_red t"
    "dec \<Longrightarrow> \<not> is_red t" "inorder t = xs"
  using assms by (auto simp: repaired_def)

fun tree_color :: "item_tree \<Rightarrow> color" where
  "tree_color Null = Black"
| "tree_color (Node c l a r) = c"

lemma is_red_color: "is_red t \<longleftrightarrow> tree_color t = Red"
  by (cases t) auto

lemma delete_left_step:
  assumes t: "no_red_red (Node c l t r)" "balanced (Node c l t r)" and l': "repaired l' d (bdepth l) (tree_color l) xs"
  shows "\<exists>u dec. (if d then fix_left_deletion_discrepancy (Node c l' e r) else Some (Node c l' e r, False)) = Some (u, dec) \<and>
    repaired u dec (bdepth (Node c l t r)) c (xs @ e # inorder r)"
proof (cases d)
  case True
  then show ?thesis using t repairedD [OF l'] fix_left_deletion [of l' r c e] by (auto split: if_splits)
next
  case False
  then show ?thesis using t repairedD [OF l'] by (cases c) (auto simp: repaired_def is_red_color)
qed

lemma delete_right_step:
  assumes t: "no_red_red (Node c l t r)" "balanced (Node c l t r)" and r': "repaired r' d (bdepth r) (tree_color r) xs"
  shows "\<exists>u dec. (if d then fix_right_deletion_discrepancy (Node c l t r') else Some (Node c l t r', False)) = Some (u, dec) \<and>
    repaired u dec (bdepth (Node c l t r)) c (inorder l @ t # xs)"
proof (cases d)
  case True
  then show ?thesis using t repairedD [OF r'] fix_right_deletion [of r' l c t] by (auto split: if_splits)
next
  case False
  then show ?thesis using t repairedD [OF r'] by (cases c) (auto simp: repaired_def is_red_color)
qed

lemma delete_rightmost_leaf_ok:
  assumes "no_red_red t" "balanced t" "t \<noteq> Null"
  shows "\<exists>t' d. delete_rightmost_leaf t = Some (t', last (inorder t), d) \<and>
    repaired t' d (bdepth t) (tree_color t) (butlast (inorder t))"
  using assms
proof (induction t)
  case (Node c l a r)
  show ?case
  proof (cases "r = Null")
    case True
    then show ?thesis using Node.prems by (cases l; cases c) (auto simp: repaired_def butlast_append)
  next
    case False
    then obtain r' d where r': "delete_rightmost_leaf r = Some (r', last (inorder r), d)"
      "repaired r' d (bdepth r) (tree_color r) (butlast (inorder r))" using Node by auto
    have "inorder r \<noteq> []" using False by (cases r) auto
    then show ?thesis using delete_right_step [OF Node.prems(1,2) r'(2)] r'(1) False
      by (cases d) (auto simp: butlast_append)
  qed
qed simp

lemma delete_root_ok:
  assumes "no_red_red (Node c l a r)" "balanced (Node c l a r)"
  shows "\<exists>t' d. delete_root c l r = Some (t', d) \<and> repaired t' d (bdepth (Node c l a r)) c (inorder l @ inorder r)"
proof (cases "l = Null")
  case True
  then show ?thesis using assms by (cases r; cases c) (auto simp: delete_root_def repaired_def)
next
  case False
  then obtain l' d where l': "delete_rightmost_leaf l = Some (l', last (inorder l), d)"
    "repaired l' d (bdepth l) (tree_color l) (butlast (inorder l))" using delete_rightmost_leaf_ok [of l] assms by auto
  have "inorder l \<noteq> []" using False by (cases l) auto
  then have e: "butlast (inorder l) @ last (inorder l) # inorder r = inorder l @ inorder r"
    by (metis append_butlast_last_id append_Cons append_Nil append_assoc)
  have "delete_root c l r = (if d then fix_left_deletion_discrepancy (Node c l' (last (inorder l)) r)
      else Some (Node c l' (last (inorder l)) r, False))" using l'(1) False by (simp add: delete_root_def)
  with delete_left_step [OF assms l'(2), of "last (inorder l)"] show ?thesis unfolding e by metis
qed

section \<open>Ordered trees\<close>

text \<open>
  An index: a red-black tree whose elements are in order, smaller ones first and equal ones by address.
\<close>

definition item_index :: "(ptr \<Rightarrow> ptr \<Rightarrow> int) \<Rightarrow> item_tree \<Rightarrow> bool" where
  "item_index cmp t \<longleftrightarrow> rb_tree t \<and> sorted_wrt (goes_left cmp) (inorder t)"

definition tree_set :: "item_tree \<Rightarrow> ptr set" where
  "tree_set t = set (inorder t)"

text \<open>
  A search key, given by its comparison \<open>f\<close> with the elements: what lies above an element that is
  above the key is above the key, and likewise below.
\<close>

definition search_key :: "(ptr \<Rightarrow> ptr \<Rightarrow> int) \<Rightarrow> (ptr \<Rightarrow> int) \<Rightarrow> bool" where
  "search_key cmp f \<longleftrightarrow> (\<forall>a b. cmp a b \<le> 0 \<longrightarrow> (f a < 0 \<longrightarrow> f b < 0) \<and> (f b > 0 \<longrightarrow> f a > 0))"

text \<open>The greatest element below the key, or one that is equal to it if there is any.\<close>

definition nearest :: "(ptr \<Rightarrow> ptr \<Rightarrow> int) \<Rightarrow> (ptr \<Rightarrow> int) \<Rightarrow> ptr set \<Rightarrow> ptr \<Rightarrow> bool" where
  "nearest cmp f S a \<longleftrightarrow> a \<in> S \<and> f a \<ge> 0 \<and> (\<forall>x\<in>S. f x > 0 \<longrightarrow> x = a \<or> goes_left cmp x a) \<and>
     ((\<exists>x\<in>S. f x = 0) \<longrightarrow> f a = 0)"

text \<open>The comparisons that \<^verbatim>\<open>tree.c\<close> relies on: three-way comparisons of a total preorder.\<close>

locale item_order =
  fixes cmp :: "ptr \<Rightarrow> ptr \<Rightarrow> int"
  assumes cmp_swap: "cmp a b < 0 \<longleftrightarrow> cmp b a > 0"
    and cmp_trans: "cmp a b \<le> 0 \<Longrightarrow> cmp b c \<le> 0 \<Longrightarrow> cmp a c \<le> 0"
begin

lemma cmp_eq_swap: "cmp a b = 0 \<longleftrightarrow> cmp b a = 0"
  using cmp_swap [of a b] cmp_swap [of b a] by linarith

lemma cmp_refl [simp]: "cmp a a = 0"
  using cmp_swap [of a a] by linarith

lemma goes_right_swap: "goes_right cmp a b \<longleftrightarrow> goes_left cmp b a"
  using cmp_swap [of a b] cmp_swap [of b a] cmp_eq_swap [of a b] by (auto simp: goes_left_def goes_right_def)

lemma goes_left_irrefl [simp]: "\<not> goes_left cmp a a"
  by (simp add: goes_left_def)

lemma goes_left_total: "a \<noteq> b \<Longrightarrow> goes_left cmp a b \<or> goes_left cmp b a"
  using cmp_swap [of a b] cmp_swap [of b a] cmp_eq_swap [of a b] by (auto simp: goes_left_def)

lemma goes_left_trans: "goes_left cmp a b \<Longrightarrow> goes_left cmp b c \<Longrightarrow> goes_left cmp a c"
proof -
  assume ab: "goes_left cmp a b" and bc: "goes_left cmp b c"
  have le: "cmp a b \<le> 0" "cmp b c \<le> 0" using ab bc by (auto simp: goes_left_def)
  have ac: "cmp a c \<le> 0" using cmp_trans [OF le] .
  show ?thesis
  proof (cases "cmp a c = 0")
    case True
    then have ca: "cmp c a \<le> 0" using cmp_eq_swap [of a c] by simp
    have "cmp b a \<le> 0" "cmp c b \<le> 0" using cmp_trans [OF le(2) ca] cmp_trans [OF ca le(1)] .
    then have "cmp a b = 0" "cmp b c = 0" using le cmp_swap [of a b] cmp_swap [of b c] by linarith+
    then show ?thesis using ab bc True by (auto simp: goes_left_def)
  qed (use ac in \<open>simp add: goes_left_def\<close>)
qed

lemma goes_left_asym: "goes_left cmp a b \<Longrightarrow> \<not> goes_left cmp b a"
  using goes_left_trans [of a b a] by auto

lemma goes_left_le: "goes_left cmp a b \<Longrightarrow> cmp a b \<le> 0"
  by (auto simp: goes_left_def)

lemma search_key_elem: "search_key cmp (cmp e)"
  unfolding search_key_def
proof (intro allI impI conjI)
  fix a b assume ab: "cmp a b \<le> 0"
  show "cmp e b < 0" if "cmp e a < 0"
  proof (rule ccontr)
    assume "\<not> cmp e b < 0"
    then have "cmp b e \<le> 0" using cmp_swap [of e b] by linarith
    then have "cmp a e \<le> 0" using cmp_trans [OF ab] by blast
    with that cmp_swap [of e a] show False by linarith
  qed
  show "cmp e a > 0" if "cmp e b > 0"
  proof (rule ccontr)
    assume "\<not> cmp e a > 0"
    then have "cmp e a \<le> 0" by simp
    then have "cmp e b \<le> 0" using cmp_trans [OF _ ab] by blast
    with that show False by simp
  qed
qed

text \<open>Insertion and deletion.\<close>

lemma add_recursive_sorted:
  assumes "no_red_red t" "balanced t" "sorted_wrt (goes_left cmp) (inorder t)" "e \<notin> tree_set t"
  shows "\<exists>t'. add_recursive cmp t e = Some t' \<and> sorted_wrt (goes_left cmp) (inorder t') \<and> tree_set t' = insert e (tree_set t)"
  using assms
proof (induction t)
  case (Node c l t r)
  have srt: "sorted_wrt (goes_left cmp) (inorder l)" "sorted_wrt (goes_left cmp) (inorder r)"
    "\<forall>x\<in>tree_set l. goes_left cmp x t" "\<forall>x\<in>tree_set r. goes_left cmp t x" "\<forall>x\<in>tree_set l. \<forall>y\<in>tree_set r. goes_left cmp x y"
    using Node.prems by (auto simp: sorted_wrt_append tree_set_def)
  show ?case
  proof (cases "goes_left cmp e t")
    case True
    obtain l' where l': "add_recursive cmp l e = Some l'" "sorted_wrt (goes_left cmp) (inorder l')" "tree_set l' = insert e (tree_set l)"
      using Node.IH(1) Node.prems srt by (auto simp: tree_set_def)
    obtain l2 where l2: "add_recursive cmp l e = Some l2" "l2 \<noteq> Null" "balanced l2" "bdepth l2 = bdepth l" "nearly_no_red_red l2"
      using add_recursive_rb [of l cmp e] Node.prems by auto
    have eq: "l2 = l'" using l' l2 by simp
    have "\<exists>t'. add_recursive cmp (Node c l t r) e = Some t' \<and> inorder t' = inorder (Node c l' t r)"
      using True l' l2 eq Node.prems fix_left_insertion [of l' r t] by (cases c) auto
    moreover have "sorted_wrt (goes_left cmp) (inorder (Node c l' t r))"
      using l' srt True goes_left_trans by (auto simp: sorted_wrt_append tree_set_def)
    ultimately show ?thesis using l'(3) by (auto simp: tree_set_def)
  next
    case False
    then have et: "goes_left cmp t e" using goes_left_total [of e t] Node.prems by (auto simp: tree_set_def)
    obtain r' where r': "add_recursive cmp r e = Some r'" "sorted_wrt (goes_left cmp) (inorder r')" "tree_set r' = insert e (tree_set r)"
      using Node.IH(2) Node.prems srt by (auto simp: tree_set_def)
    obtain r2 where r2: "add_recursive cmp r e = Some r2" "r2 \<noteq> Null" "balanced r2" "bdepth r2 = bdepth r" "nearly_no_red_red r2"
      using add_recursive_rb [of r cmp e] Node.prems by auto
    have eq: "r2 = r'" using r' r2 by simp
    have "\<exists>t'. add_recursive cmp (Node c l t r) e = Some t' \<and> inorder t' = inorder (Node c l t r')"
      using False r' r2 eq Node.prems fix_right_insertion [of l r' t] by (cases c) auto
    moreover have "sorted_wrt (goes_left cmp) (inorder (Node c l t r'))"
      using r' srt et goes_left_trans by (auto simp: sorted_wrt_append tree_set_def)
    ultimately show ?thesis using r'(3) by (auto simp: tree_set_def)
  qed
qed (simp add: tree_set_def)

lemma add_ok:
  assumes "item_index cmp t" "e \<notin> tree_set t"
  shows "\<exists>t'. tree_add cmp t e = Some t' \<and> item_index cmp t' \<and> tree_set t' = insert e (tree_set t)"
proof -
  have rb: "rb_tree t" "sorted_wrt (goes_left cmp) (inorder t)" using assms by (simp_all add: item_index_def)
  obtain t1 where "add_recursive cmp t e = Some t1" "sorted_wrt (goes_left cmp) (inorder t1)" "tree_set t1 = insert e (tree_set t)"
    using add_recursive_sorted [of t e] rb assms(2) by (auto simp: rb_tree_def)
  then show ?thesis using tree_add_rb [OF rb(1), of cmp e] by (auto simp: item_index_def tree_set_def)
qed

lemma delete_recursive_ok:
  assumes "no_red_red t" "balanced t" "sorted_wrt (goes_left cmp) (inorder t)" "e \<in> tree_set t"
  shows "\<exists>t' d. delete_recursive cmp t e = Some (t', d) \<and> repaired t' d (bdepth t) (tree_color t) (remove1 e (inorder t))"
  using assms
proof (induction t)
  case (Node c l t r)
  have srt: "sorted_wrt (goes_left cmp) (inorder l)" "sorted_wrt (goes_left cmp) (inorder r)"
    "\<forall>x\<in>tree_set l. goes_left cmp x t" "\<forall>x\<in>tree_set r. goes_left cmp t x" "\<forall>x\<in>tree_set l. \<forall>y\<in>tree_set r. goes_left cmp x y"
    using Node.prems by (auto simp: sorted_wrt_append tree_set_def)
  consider (left) "goes_left cmp e t" | (right) "goes_left cmp t e" | (here) "e = t" using goes_left_total by blast
  then show ?case
  proof cases
    case left
    then have el: "e \<in> tree_set l" using Node.prems srt goes_left_asym by (auto simp: tree_set_def)
    then obtain l' d where l': "delete_recursive cmp l e = Some (l', d)" "repaired l' d (bdepth l) (tree_color l) (remove1 e (inorder l))"
      using Node.IH(1) Node.prems srt by auto
    have "remove1 e (inorder l @ t # inorder r) = remove1 e (inorder l) @ t # inorder r" using el by (simp add: remove1_append tree_set_def)
    then show ?thesis using delete_left_step [OF Node.prems(1,2) l'(2), of t] l'(1) left by (cases d) auto
  next
    case right
    then have nl: "\<not> goes_left cmp e t" "e \<noteq> t" using goes_left_asym by auto
    then have er: "e \<in> tree_set r" "e \<notin> tree_set l" using Node.prems srt right goes_left_asym by (auto simp: tree_set_def)
    then obtain r' d where r': "delete_recursive cmp r e = Some (r', d)" "repaired r' d (bdepth r) (tree_color r) (remove1 e (inorder r))"
      using Node.IH(2) Node.prems srt by auto
    have "remove1 e (inorder l @ t # inorder r) = inorder l @ t # remove1 e (inorder r)" using er nl by (simp add: remove1_append tree_set_def)
    then show ?thesis using delete_right_step [OF Node.prems(1,2) r'(2)] r'(1) right nl by (cases d) (auto simp: goes_right_swap)
  next
    case here
    then have "e \<notin> tree_set l" using srt goes_left_irrefl by blast
    then have "remove1 e (inorder l @ t # inorder r) = inorder l @ inorder r" using here by (simp add: remove1_append tree_set_def)
    then show ?thesis using delete_root_ok [OF Node.prems(1,2)] here by (auto simp: goes_right_swap)
  qed
qed (simp add: tree_set_def)

lemma sorted_wrt_remove1: "sorted_wrt P xs \<Longrightarrow> sorted_wrt P (remove1 e xs)"
  by (induction xs) (auto dest: set_mp [OF set_remove1_subset])

lemma sorted_distinct: "sorted_wrt (goes_left cmp) xs \<Longrightarrow> distinct xs"
  by (induction xs) auto

lemma delete_ok:
  assumes "item_index cmp t" "e \<in> tree_set t"
  shows "\<exists>t'. tree_delete cmp t e = Some t' \<and> item_index cmp t' \<and> inorder t' = remove1 e (inorder t) \<and> tree_set t' = tree_set t - {e}"
proof -
  have i: "no_red_red t" "balanced t" "sorted_wrt (goes_left cmp) (inorder t)" "\<not> is_red t"
    using assms by (simp_all add: item_index_def rb_tree_def)
  obtain t1 d where t1: "delete_recursive cmp t e = Some (t1, d)" "repaired t1 d (bdepth t) (tree_color t) (remove1 e (inorder t))"
    using delete_recursive_ok [OF i(1-3) assms(2)] by blast
  have "sorted_wrt (goes_left cmp) (remove1 e (inorder t))" using i(3) by (rule sorted_wrt_remove1)
  then show ?thesis using t1 repairedD [OF t1(2)] sorted_distinct [OF i(3)]
    by (auto simp: tree_delete_def item_index_def rb_tree_def tree_set_def)
qed

text \<open>Searching.\<close>

lemma is_member_ok: "sorted_wrt (goes_left cmp) (inorder t) \<Longrightarrow> is_member cmp t e = Some (e \<in> tree_set t)"
proof (induction t)
  case (Node c l t r)
  have srt: "sorted_wrt (goes_left cmp) (inorder l)" "sorted_wrt (goes_left cmp) (inorder r)"
    "\<forall>x\<in>tree_set l. goes_left cmp x t" "\<forall>x\<in>tree_set r. goes_left cmp t x"
    using Node.prems by (auto simp: sorted_wrt_append tree_set_def)
  consider (left) "goes_left cmp e t" | (right) "goes_left cmp t e" | (here) "e = t" using goes_left_total by blast
  then show ?case
  proof cases
    case left
    then have "e \<notin> tree_set r" "e \<noteq> t" using srt goes_left_asym by auto
    then show ?thesis using left Node.IH srt by (simp add: tree_set_def)
  next
    case right
    then have "e \<notin> tree_set l" "e \<noteq> t" "\<not> goes_left cmp e t" using srt goes_left_asym by auto
    then show ?thesis using right Node.IH srt by (simp add: tree_set_def goes_right_swap)
  qed (simp add: goes_right_swap tree_set_def)
qed (simp add: tree_set_def)

lemma key_below: "search_key cmp f \<Longrightarrow> goes_left cmp a b \<Longrightarrow> f a < 0 \<Longrightarrow> f b < 0"
  using goes_left_le by (auto simp: search_key_def)

lemma key_above: "search_key cmp f \<Longrightarrow> goes_left cmp a b \<Longrightarrow> f b > 0 \<Longrightarrow> f a > 0"
  using goes_left_le by (auto simp: search_key_def)

lemma find_node_ok:
  assumes "sorted_wrt (goes_left cmp) (inorder t)" "search_key cmp f"
  shows "[x \<leftarrow> inorder (find_node f t). f x = 0] = [x \<leftarrow> inorder t. f x = 0] \<and>
    (\<forall>c l a r. find_node f t = Node c l a r \<longrightarrow> f a = 0) \<and> sorted_wrt (goes_left cmp) (inorder (find_node f t))"
  using assms(1)
proof (induction t)
  case (Node c l t r)
  have srt: "sorted_wrt (goes_left cmp) (inorder l)" "sorted_wrt (goes_left cmp) (inorder r)"
    "\<forall>x\<in>set (inorder l). goes_left cmp x t" "\<forall>x\<in>set (inorder r). goes_left cmp t x"
    using Node.prems by (auto simp: sorted_wrt_append)
  consider (neg) "f t < 0" | (pos) "f t > 0" | (zero) "f t = 0" by linarith
  then show ?case
  proof cases
    case neg
    then have "\<forall>x\<in>set (inorder r). f x < 0" using srt key_below [OF assms(2)] by blast
    then have "[x \<leftarrow> inorder r. f x = 0] = []" by (auto simp: filter_empty_conv)
    then show ?thesis using neg Node.IH(1) srt by simp
  next
    case pos
    then have "\<forall>x\<in>set (inorder l). f x > 0" using srt key_above [OF assms(2)] by blast
    then have "[x \<leftarrow> inorder l. f x = 0] = []" by (auto simp: filter_empty_conv)
    then show ?thesis using pos Node.IH(2) srt by simp
  next
    case zero
    then show ?thesis using Node.prems by simp
  qed
qed simp

lemma find_member_ok:
  assumes "sorted_wrt (goes_left cmp) (inorder t)" "search_key cmp f"
  shows "find_member f t = None \<Longrightarrow> \<forall>x\<in>tree_set t. f x \<noteq> 0"
    and "find_member f t = Some a \<Longrightarrow> a \<in> tree_set t \<and> f a = 0"
proof -
  note f = find_node_ok [OF assms]
  show "\<forall>x\<in>tree_set t. f x \<noteq> 0" if "find_member f t = None"
  proof -
    have "find_node f t = Null" using that by (cases "find_node f t") (auto simp: find_member_def)
    then have "[x \<leftarrow> inorder t. f x = 0] = []" using f by simp
    then show ?thesis by (auto simp: filter_empty_conv tree_set_def)
  qed
  show "a \<in> tree_set t \<and> f a = 0" if "find_member f t = Some a"
  proof -
    have "\<exists>c l r. find_node f t = Node c l a r" using that by (cases "find_node f t") (auto simp: find_member_def)
    then obtain c l r where n: "find_node f t = Node c l a r" by blast
    then have "f a = 0" using f by blast
    then have "a \<in> set [x \<leftarrow> inorder (find_node f t). f x = 0]" using n by simp
    then show ?thesis using f by (simp add: tree_set_def)
  qed
qed

lemma nearest_lesser_loop_ok:
  assumes "sorted_wrt (goes_left cmp) (inorder t)" "search_key cmp f"
  shows "nearest_lesser_loop f t n = n \<and> (\<forall>x\<in>tree_set t. f x < 0) \<or>
    (\<exists>a. nearest_lesser_loop f t n = Some a \<and> nearest cmp f (tree_set t) a)"
  using assms(1)
proof (induction t arbitrary: n)
  case (Node c l t r)
  have srt: "sorted_wrt (goes_left cmp) (inorder l)" "sorted_wrt (goes_left cmp) (inorder r)"
    "\<And>x. x \<in> tree_set l \<Longrightarrow> goes_left cmp x t" "\<And>x. x \<in> tree_set r \<Longrightarrow> goes_left cmp t x"
    using Node.prems by (auto simp: sorted_wrt_append tree_set_def)
  have ts: "tree_set (Node c l t r) = insert t (tree_set l \<union> tree_set r)" by (auto simp: tree_set_def)
  consider (neg) "f t < 0" | (pos) "f t > 0" | (zero) "f t = 0" by linarith
  then show ?case
  proof cases
    case neg
    then have rn: "f x < 0" if "x \<in> tree_set r" for x using srt(4) that key_below [OF assms(2)] by blast
    have "nearest cmp f (tree_set (Node c l t r)) a" if "nearest cmp f (tree_set l) a" for a
      using that neg rn unfolding nearest_def ts by fastforce
    then show ?thesis using neg rn Node.IH(1) [OF srt(1), of n] ts by auto
  next
    case pos
    then have lp: "f x > 0" if "x \<in> tree_set l" for x using srt(3) that key_above [OF assms(2)] by blast
    have "nearest cmp f (tree_set (Node c l t r)) t" if "\<forall>x\<in>tree_set r. f x < 0"
      using that pos lp srt(3) unfolding nearest_def ts by fastforce
    moreover have "nearest cmp f (tree_set (Node c l t r)) a" if n: "nearest cmp f (tree_set r) a" for a
    proof -
      have "goes_left cmp t a" using n srt(4) by (simp add: nearest_def)
      moreover have "goes_left cmp x a" if "x \<in> tree_set l" for x using srt(3) [OF that] \<open>goes_left cmp t a\<close> by (rule goes_left_trans)
      ultimately show ?thesis using n pos lp unfolding nearest_def ts by fastforce
    qed
    ultimately show ?thesis using pos Node.IH(2) [OF srt(2), of "Some t"] by auto
  next
    case zero
    have rz: "\<not> f x > 0" if "x \<in> tree_set r" for x using key_above [OF assms(2), of t x] srt(4) zero that by auto
    then have "nearest cmp f (tree_set (Node c l t r)) t" using zero srt(3) unfolding nearest_def ts by fastforce
    then show ?thesis using zero by simp
  qed
qed (simp add: tree_set_def)

end

end
