(* ===== verification/Item_Tree_Iter.thy ===== *)
theory Item_Tree_Iter
  imports Item_Tree
begin

text \<open>
  Walking through an index with the iterators of \<^verbatim>\<open>tree.c\<close>: the in-order iterator visits the elements
  in order, and the iterator over the elements that are equal to a key visits exactly those. Both
  keep their path within the 128 entries of the C arrays, because a red-black tree is shallow.
\<close>

section \<open>The height of a red-black tree\<close>

fun tree_height :: "item_tree \<Rightarrow> nat" where
  "tree_height Null = 0"
| "tree_height (Node c l a r) = Suc (max (tree_height l) (tree_height r))"

lemma height_bdepth:
  "no_red_red t \<Longrightarrow> balanced t \<Longrightarrow> tree_height t \<le> 2 * bdepth t + (if is_red t then 1 else 0)"
  by (induction t) (auto split: if_splits)

lemma size_bdepth: "balanced t \<Longrightarrow> 2 ^ bdepth t \<le> length (inorder t) + 1"
proof (induction t)
  case (Node c l a r)
  then have l: "2 ^ bdepth l \<le> length (inorder l) + 1" and r: "2 ^ bdepth r \<le> length (inorder r) + 1"
    and e: "bdepth l = bdepth r" by auto
  show ?case using l r unfolding e by (cases c) (simp_all add: e)
qed simp

lemma rb_height:
  assumes "rb_tree t" "length (inorder t) < 2 ^ 63"
  shows "tree_height t \<le> 126"
proof -
  have b: "\<not> is_red t" "no_red_red t" "balanced t" using assms by (simp_all add: rb_tree_def)
  have "(2::nat) ^ bdepth t \<le> 2 ^ 63" using size_bdepth [OF b(3)] assms(2) by linarith
  then have "bdepth t \<le> 63" by (rule power_le_imp_le_exp [rotated]) simp
  then show ?thesis using height_bdepth [OF b(2,3)] b(1) by simp
qed

lemma find_node_height: "tree_height (find_node f t) \<le> tree_height t"
  by (induction t) auto

section \<open>What an iterator still has to visit\<close>

definition visit :: "(ptr \<Rightarrow> int) option \<Rightarrow> item_tree \<Rightarrow> ptr list" where
  "visit eqt t = (case eqt of None \<Rightarrow> inorder t | Some f \<Rightarrow> [x \<leftarrow> inorder t. f x = 0])"

fun right_child :: "item_tree \<Rightarrow> item_tree" where
  "right_child Null = Null"
| "right_child (Node c l a r) = r"

primrec pending :: "(ptr \<Rightarrow> int) option \<Rightarrow> (item_tree \<times> nat) list \<Rightarrow> ptr list" where
  "pending eqt [] = []"
| "pending eqt (e # q) = (case e of (t, n) \<Rightarrow>
     (if n = 0 then visit eqt t
      else if n = 1 then (case root_elem t of None \<Rightarrow> [] | Some a \<Rightarrow> [a]) @ visit eqt (right_child t) else []) @ pending eqt q)"

text \<open>The node on top of the path has been visited if it has one pass.\<close>

definition rest :: "(ptr \<Rightarrow> int) option \<Rightarrow> (item_tree \<times> nat) list \<Rightarrow> ptr list" where
  "rest eqt p = (case p of [] \<Rightarrow> []
     | (t, n) # q \<Rightarrow> (if n = 0 then visit eqt t else if n = 1 then visit eqt (right_child t) else []) @ pending eqt q)"

fun matches :: "(ptr \<Rightarrow> int) option \<Rightarrow> item_tree \<Rightarrow> bool" where
  "matches eqt Null = False"
| "matches eqt (Node c l a r) = (case eqt of None \<Rightarrow> True | Some f \<Rightarrow> f a = 0)"

primrec path_ok :: "(ptr \<Rightarrow> ptr \<Rightarrow> int) \<Rightarrow> (ptr \<Rightarrow> int) option \<Rightarrow> nat \<Rightarrow> (item_tree \<times> nat) list \<Rightarrow> bool" where
  "path_ok cmp eqt b [] = True"
| "path_ok cmp eqt b (e # q) = (case e of (t, n) \<Rightarrow>
     matches eqt t \<and> sorted_wrt (goes_left cmp) (inorder t) \<and> length q + tree_height t \<le> b \<and> path_ok cmp eqt b q)"

definition key_ok :: "(ptr \<Rightarrow> ptr \<Rightarrow> int) \<Rightarrow> (ptr \<Rightarrow> int) option \<Rightarrow> bool" where
  "key_ok cmp eqt = (case eqt of None \<Rightarrow> True | Some f \<Rightarrow> search_key cmp f)"

lemma visit_node: "matches eqt (Node c l a r) \<Longrightarrow> visit eqt (Node c l a r) = visit eqt l @ a # visit eqt r"
  by (auto simp: visit_def split: option.splits)

section \<open>Walking through a tree\<close>

lemma find_current_weight:
  "find_current eqt ord p = Some (e, p') \<Longrightarrow> p \<noteq> [] \<Longrightarrow> path_weight p' < path_weight p"
proof (induction eqt ord p rule: find_current.induct)
  case (1 eqt ord p)
  then obtain q where q: "advance_path eqt p = Some q" by (auto simp: find_current.simps [of eqt ord p] split: option.splits)
  have w: "path_weight q < path_weight p" using advance_weight [OF q 1(3)] .
  show ?case
  proof (cases "current_of ord q")
    case None
    then have f: "find_current eqt ord q = Some (e, p')" using 1(2,3) q by (simp add: find_current.simps [of eqt ord p])
    show ?thesis
    proof (cases "q = []")
      case True
      then show ?thesis using f w by (simp add: find_current.simps)
    next
      case False
      then show ?thesis using 1(1) [OF 1(3) q None f False] w by simp
    qed
  next
    case (Some x)
    then show ?thesis using 1(2,3) q w by (simp add: find_current.simps [of eqt ord p])
  qed
qed

text \<open>The loop of the clients: take the current element, and advance, until there is none.\<close>

function it_all :: "tree_iterator \<Rightarrow> ptr list option" where
  "it_all it = (case it_current it of None \<Rightarrow> Some []
     | Some e \<Rightarrow> (case it_next it of None \<Rightarrow> None
         | Some it' \<Rightarrow> map_option (Cons e) (it_all it')))"
  by pat_completeness auto

termination
proof (relation "measure (\<lambda>it. 2 * path_weight (path it) + (if currentelem it = None then 0 else 1))")
  fix it e it' assume e: "it_current it = Some e" and n: "it_next it = Some it'"
  obtain x q where f: "find_current (restrict it) (order it) (path it) = Some (x, q)" and it': "it' = it\<lparr>currentelem := x, path := q\<rparr>"
    using n by (auto simp: it_next_def it_compute_current_elem_def)
  show "(it', it) \<in> measure (\<lambda>it. 2 * path_weight (path it) + (if currentelem it = None then 0 else 1))"
  proof (cases "path it = []")
    case True
    then have "x = None" "q = []" using f by (simp_all add: find_current.simps)
    then show ?thesis using e it' True by (simp add: it_current_def path_weight_def)
  next
    case False
    then show ?thesis using find_current_weight [OF f] e it' by (simp add: it_current_def)
  qed
qed simp

declare it_all.simps [simp del]

context item_order
begin

lemma next_child_visit:
  fixes n :: nat
  assumes "key_ok cmp eqt" "sorted_wrt (goes_left cmp) (inorder (Node c l a r))"
  defines "s \<equiv> next_child eqt (Node c l a r) n"
  shows "visit eqt s = visit eqt (if n = 0 then l else r)" "s \<noteq> Null \<Longrightarrow> matches eqt s"
    "sorted_wrt (goes_left cmp) (inorder s)" "tree_height s < tree_height (Node c l a r)"
proof -
  let ?c = "if n = 0 then l else r"
  have srt: "sorted_wrt (goes_left cmp) (inorder ?c)" using assms by (auto simp: sorted_wrt_append)
  have h: "tree_height ?c < tree_height (Node c l a r)" by auto
  show "visit eqt s = visit eqt ?c"
    using find_node_ok [OF srt] assms(1) by (cases eqt) (auto simp: s_def next_child_def visit_def key_ok_def)
  show "matches eqt s" if "s \<noteq> Null"
    using that find_node_ok [OF srt] assms(1) by (cases s; cases eqt) (auto simp: s_def next_child_def key_ok_def split: if_splits)
  show "sorted_wrt (goes_left cmp) (inorder s)"
    using srt find_node_ok [OF srt] assms(1) by (cases eqt) (auto simp: s_def next_child_def key_ok_def split: if_splits)
  show "tree_height s < tree_height (Node c l a r)"
  proof (cases eqt)
    case None
    then have "s = ?c" by (simp add: s_def next_child_def)
    with h show ?thesis by simp
  next
    case (Some f)
    then have "tree_height s \<le> tree_height ?c" using find_node_height [of f ?c] by (simp add: s_def next_child_def)
    then show ?thesis using h by (rule le_less_trans)
  qed
qed

lemma advance_ok:
  assumes "path_ok cmp eqt b p" "key_ok cmp eqt" "b \<le> 128" "p \<noteq> []"
  shows "\<exists>p'. advance_path eqt p = Some p' \<and> path_ok cmp eqt b p' \<and>
    rest eqt p = (case current_of 1 p' of Some e \<Rightarrow> e # rest eqt p' | None \<Rightarrow> rest eqt p')"
proof -
  obtain t n q where p: "p = (t, n) # q" using assms(4) by (cases p) auto
  then obtain c l a r where t: "t = Node c l a r" using assms(1) by (cases t) auto
  have ok: "matches eqt t" "sorted_wrt (goes_left cmp) (inorder t)" "length q + tree_height t \<le> b" "path_ok cmp eqt b q"
    using assms(1) p by auto
  let ?s = "next_child eqt t n"
  note ch = next_child_visit [OF assms(2) ok(2) [unfolded t], of n, folded t]
  show ?thesis
  proof (cases "2 \<le> n")
    case True
    have "rest eqt p = pending eqt q" using True p by (simp add: rest_def)
    moreover have "pending eqt q = (case current_of 1 q of Some e \<Rightarrow> e # rest eqt q | None \<Rightarrow> rest eqt q)"
    proof (cases q)
      case (Cons e q')
      obtain t' n' where "e = (t', n')" by (cases e)
      then show ?thesis using Cons ok(4) by (cases t') (auto simp: current_of_def rest_def)
    qed (simp add: current_of_def rest_def)
    ultimately show ?thesis using True p ok by (simp add: advance_path_def)
  next
    case False
    show ?thesis
    proof (cases "?s = Null")
      case True
      have "visit eqt (if n = 0 then l else r) = []" using ch(1) True by (cases eqt) (simp_all add: visit_def)
      then show ?thesis using True False p ok t visit_node [of eqt c l a r]
        by (auto simp: advance_path_def push_child_def current_of_def rest_def)
    next
      case s: False
      have "tree_height ?s \<ge> 1" using s by (cases ?s) auto
      then have len: "length p < 128" and h: "length p + tree_height ?s \<le> b" using ok(3) ch(4) p assms(3) by auto
      have "advance_path eqt p = Some ((?s, 0) # (t, n + 1) # q)" using False s p len by (simp add: advance_path_def push_child_def)
      moreover have "path_ok cmp eqt b ((?s, 0) # (t, n + 1) # q)" using ch(2,3) s ok h p by simp
      moreover have "rest eqt p = rest eqt ((?s, 0) # (t, n + 1) # q)"
        using False p ok(1) t ch(1) visit_node [of eqt c l a r] by (auto simp: rest_def)
      ultimately show ?thesis by (simp add: current_of_def)
    qed
  qed
qed

lemma find_current_ok:
  assumes "path_ok cmp eqt b p" "key_ok cmp eqt" "b \<le> 128"
  shows "\<exists>p'. find_current eqt 1 p = Some (case rest eqt p of [] \<Rightarrow> None | x # xs \<Rightarrow> Some x, p') \<and>
    path_ok cmp eqt b p' \<and> rest eqt p' = tl (rest eqt p)"
  using assms
proof (induction eqt "1 :: nat" p rule: find_current.induct)
  case (1 eqt p)
  show ?case
  proof (cases "p = []")
    case False
    then obtain p' where p': "advance_path eqt p = Some p'" "path_ok cmp eqt b p'"
      "rest eqt p = (case current_of 1 p' of Some e \<Rightarrow> e # rest eqt p' | None \<Rightarrow> rest eqt p')"
      using advance_ok [OF 1(2,3,4)] by blast
    show ?thesis
    proof (cases "current_of 1 p'")
      case None
      then show ?thesis using 1(1) [OF False p'(1) None p'(2) 1(3,4)] p' False by (simp add: find_current.simps [of eqt "Suc 0" p])
    next
      case (Some e)
      then show ?thesis using p' False by (simp add: find_current.simps [of eqt "Suc 0" p])
    qed
  qed (simp add: find_current.simps rest_def)
qed

lemma it_all_ok:
  assumes "path_ok cmp (restrict it) b (path it)" "key_ok cmp (restrict it)" "b \<le> 128" "order it = 1"
    and "\<exists>p. find_current (restrict it) 1 p = Some (currentelem it, path it) \<and> path_ok cmp (restrict it) b p"
  shows "it_all it = Some ((case currentelem it of None \<Rightarrow> [] | Some e \<Rightarrow> e # rest (restrict it) (path it)))"
  using assms
proof (induction it rule: it_all.induct)
  case (1 it)
  show ?case
  proof (cases "currentelem it")
    case None
    then show ?thesis by (simp add: it_all.simps [of it] it_current_def)
  next
    case (Some e)
    obtain p' where p': "find_current (restrict it) 1 (path it) =
        Some (case rest (restrict it) (path it) of [] \<Rightarrow> None | x # xs \<Rightarrow> Some x, p')"
      "path_ok cmp (restrict it) b p'" "rest (restrict it) p' = tl (rest (restrict it) (path it))"
      using find_current_ok [OF 1(2,3,4)] by blast
    define it' where "it' = it\<lparr>currentelem := (case rest (restrict it) (path it) of [] \<Rightarrow> None | x # xs \<Rightarrow> Some x), path := p'\<rparr>"
    have nx: "it_next it = Some it'" using p'(1) 1(5) by (simp add: it_next_def it_compute_current_elem_def it'_def)
    have c: "it_current it = Some e" using Some by (simp add: it_current_def)
    have "it_all it' = Some (case currentelem it' of None \<Rightarrow> [] | Some e \<Rightarrow> e # rest (restrict it') (path it'))"
      by (rule 1(1) [OF c nx]) (use 1(2,3,4,5) p' in \<open>auto simp: it'_def\<close>)
    then have "it_all it' = Some (rest (restrict it) (path it))"
      using p'(3) by (cases "rest (restrict it) (path it)") (simp_all add: it'_def)
    then show ?thesis using c nx Some by (simp add: it_all.simps [of it])
  qed
qed

lemma start_ok:
  assumes srt: "sorted_wrt (goes_left cmp) (inorder t)" and k: "key_ok cmp eqt" and h: "tree_height t \<le> b"
  defines "s \<equiv> case eqt of None \<Rightarrow> t | Some f \<Rightarrow> find_node f t"
  shows "visit eqt s = visit eqt t \<and> sorted_wrt (goes_left cmp) (inorder s) \<and> tree_height s \<le> b \<and> (s \<noteq> Null \<longrightarrow> matches eqt s)"
proof (cases eqt)
  case None
  then show ?thesis using srt h by (cases t) (simp_all add: s_def)
next
  case (Some f)
  then have s: "s = find_node f t" "search_key cmp f" using k by (simp_all add: s_def key_ok_def)
  note f = find_node_ok [OF srt s(2)]
  have "s \<noteq> Null \<longrightarrow> matches eqt s" using f s Some by (cases "find_node f t") auto
  moreover have "tree_height s \<le> b" using le_trans [OF find_node_height h] s by simp
  ultimately show ?thesis using f s Some by (simp add: visit_def)
qed

lemma walk_ok:
  assumes idx: "item_index cmp t" and n: "length (inorder t) < 2 ^ 63" and k: "key_ok cmp eqt"
  shows "\<exists>it. it_init_full t 1 eqt = Some it \<and> it_all it = Some (visit eqt t)"
proof -
  let ?t = "case eqt of None \<Rightarrow> t | Some f \<Rightarrow> find_node f t"
  let ?it = "\<lparr>currentelem = None, path = [], order = 1, restrict = eqt\<rparr>"
  have srt: "sorted_wrt (goes_left cmp) (inorder t)" and h: "tree_height t \<le> 126"
    using idx rb_height [OF _ n] by (simp_all add: item_index_def)
  have v: "visit eqt ?t = visit eqt t" "sorted_wrt (goes_left cmp) (inorder ?t)" "tree_height ?t \<le> 126" "?t \<noteq> Null \<Longrightarrow> matches eqt ?t"
    using start_ok [OF srt k h] by simp_all
  show ?thesis
  proof (cases "?t = Null")
    case True
    then have "visit eqt t = []" using v(1) by (cases eqt) (simp_all add: visit_def)
    then show ?thesis using True by (simp add: it_init_full_def it_all.simps it_current_def)
  next
    case False
    let ?p = "[(?t, 0)] :: (item_tree \<times> nat) list"
    have ok: "path_ok cmp eqt 128 ?p" using v(2-4) False by simp
    have r: "rest eqt ?p = visit eqt t" using v(1) by (simp add: rest_def)
    obtain p' where p': "find_current eqt 1 ?p = Some (case visit eqt t of [] \<Rightarrow> None | x # xs \<Rightarrow> Some x, p')"
      "path_ok cmp eqt 128 p'" "rest eqt p' = tl (visit eqt t)" using find_current_ok [OF ok k] r by auto
    define it where "it = \<lparr>currentelem = (case visit eqt t of [] \<Rightarrow> None | x # xs \<Rightarrow> Some x), path = p', order = 1, restrict = eqt\<rparr>"
    have i: "it_init_full t 1 eqt = Some it"
      using p'(1) False by (simp add: it_init_full_def it_compute_current_elem_def it_def Let_def)
    have "it_all it = Some (case currentelem it of None \<Rightarrow> [] | Some e \<Rightarrow> e # rest (restrict it) (path it))"
      by (rule it_all_ok [of _ 128]) (use p' k ok in \<open>auto simp: it_def\<close>)
    then have "it_all it = Some (visit eqt t)" using p'(3) by (cases "visit eqt t") (simp_all add: it_def)
    then show ?thesis using i by blast
  qed
qed

text \<open>The consistency check of the code accepts every index.\<close>

lemma check_recursive_ok:
  assumes "no_red_red t" "balanced t" "sorted_wrt (goes_left cmp) (inorder t)" "d \<ge> 0" "pd < 0 \<or> pd = d + int (bdepth t)"
  shows "consistency_check_recursive cmp t pd d = Some (d + int (bdepth t))"
  using assms
proof (induction t arbitrary: pd d)
  case (Node c l a r)
  have srt: "sorted_wrt (goes_left cmp) (inorder l)" "sorted_wrt (goes_left cmp) (inorder r)"
    "\<And>x. x \<in> set (inorder l) \<Longrightarrow> cmp x a \<le> 0" "\<And>x. x \<in> set (inorder r) \<Longrightarrow> cmp a x \<le> 0"
    using Node.prems by (auto simp: sorted_wrt_append intro: goes_left_le)
  have "cmp_le cmp l (Node c l a r)" "cmp_le cmp (Node c l a r) r" using srt(3,4) by (cases l; cases r; simp)+
  moreover have "consistency_check_recursive cmp l pd (d + (if c = Black then 1 else 0)) = Some (d + (if c = Black then 1 else 0) + int (bdepth l))"
    using Node.IH(1) Node.prems srt by (cases c) auto
  moreover have "consistency_check_recursive cmp r (d + (if c = Black then 1 else 0) + int (bdepth l)) (d + (if c = Black then 1 else 0)) =
      Some (d + (if c = Black then 1 else 0) + int (bdepth r))"
    using Node.IH(2) Node.prems srt by (cases c) auto
  ultimately show ?case using Node.prems by (cases c) auto
qed auto

end

end
