(* ===== verification/Bitstream.thy ===== *)
theory Bitstream
  imports Prelude
begin

unbundle bit_operations_syntax

text \<open>
  The bit stream of \<^verbatim>\<open>src/common/bitstream.c\<close>: fields of up to 64 bits at arbitrary bit positions
  of a buffer that the code accesses as an array of 64-bit words. Each function is translated with
  its masks and shifts; \<open>load64\<close> and \<open>store64\<close> make every access outside the buffer visible
  as \<open>None\<close>. The lemmas give each function its meaning on the bits of the buffer, and the locale
  \<open>bit_fields\<close> states the contract that the time series codec relies on.
\<close>

section \<open>The functions\<close>

definition bit_mask :: "int \<Rightarrow> u64 option" where
  "bit_mask x = do {
     _ \<leftarrow> c_assert (x \<ge> 0);
     _ \<leftarrow> c_assert (x \<le> 64);
     if x = 64 then Some (-1) else Some (push_bit (nat x) 1 - 1) }"

text \<open>
  The two readers share their masks and word accesses: the field is fetched from one word, or put
  together from the end of one word and the beginning of the next.
\<close>

definition bitstream_fetch :: "mem \<Rightarrow> nat \<Rightarrow> u64 \<Rightarrow> u64 option" where
  "bitstream_fetch buf bit_index vmask =
     (let i = bit_index div 64; j = bit_index mod 64 in
      if j = 0 then do {
        p \<leftarrow> load64 buf i;
        Some (p AND vmask) }
      else do {
        let low_mask = push_bit j vmask;
        let high_mask = drop_bit (64 - j) vmask;
        _ \<leftarrow> c_assert (low_mask \<noteq> 0);
        p \<leftarrow> load64 buf i;
        let low = p AND low_mask;
        high \<leftarrow> (if high_mask \<noteq> 0 then do { q \<leftarrow> load64 buf (i + 1); Some (q AND high_mask) }
                else Some 0);
        Some (drop_bit j low OR push_bit (64 - j) high) })"

definition bitstream_read_uint64 :: "mem \<Rightarrow> nat \<Rightarrow> nat \<Rightarrow> nat \<Rightarrow> u64 \<Rightarrow> (int \<times> u64) option" where
  "bitstream_read_uint64 buf buf_size_bits bit_index num_bits val =
     (if sz (bit_index + num_bits) > buf_size_bits then Some (ERR_BITSTREAM_OUT_OF_SPACE, val)
      else do {
        vmask \<leftarrow> bit_mask (size_to_int num_bits);
        v \<leftarrow> bitstream_fetch buf bit_index vmask;
        Some (ERR_OK, v) })"

text \<open>
  Both writers round the end of the field up to a whole number of words before they compare it with
  the size of the buffer, and share the final read-modify-write of one or two words. In the signed
  writer \<^verbatim>\<open>value >> ( 64 - j )\<close> is an arithmetic shift.
\<close>

definition required_buf_size :: "nat \<Rightarrow> nat \<Rightarrow> nat" where
  "required_buf_size bit_index num_bits =
     (let required = sz (bit_index + num_bits); extra_bits = required mod 64
      in if extra_bits \<noteq> 0 then sz (required + (64 - extra_bits)) else required)"

definition bitstream_store :: "mem \<Rightarrow> nat \<Rightarrow> u64 \<Rightarrow> u64 \<Rightarrow> u64 \<Rightarrow> mem option" where
  "bitstream_store buf bit_index vmask val high =
     (let i = bit_index div 64; j = bit_index mod 64 in
      if j = 0 then do {
        p \<leftarrow> load64 buf i;
        store64 buf i ((p AND NOT vmask) OR (val AND vmask)) }
      else do {
        let low = push_bit j val;
        let low_mask = push_bit j vmask;
        let high_mask = drop_bit (64 - j) vmask;
        _ \<leftarrow> c_assert (low_mask \<noteq> 0);
        p \<leftarrow> load64 buf i;
        buf \<leftarrow> store64 buf i ((p AND NOT low_mask) OR (low AND low_mask));
        if high_mask \<noteq> 0 then do {
          q \<leftarrow> load64 buf (i + 1);
          store64 buf (i + 1) ((q AND NOT high_mask) OR (high AND high_mask)) }
        else Some buf })"

definition bitstream_write_uint64 ::
  "mem \<Rightarrow> nat \<Rightarrow> nat \<Rightarrow> nat \<Rightarrow> u64 \<Rightarrow> nat \<Rightarrow> (int \<times> mem \<times> nat) option" where
  "bitstream_write_uint64 buf buf_size_bits bit_index num_bits val num_bits_written =
     (if required_buf_size bit_index num_bits > buf_size_bits
      then Some (ERR_BITSTREAM_OUT_OF_SPACE, buf, num_bits_written)
      else do {
        vmask \<leftarrow> bit_mask (size_to_int num_bits);
        if val AND NOT vmask \<noteq> 0 then Some (ERR_BITSTREAM_BAD_VALUE, buf, num_bits_written)
        else do {
          buf \<leftarrow> bitstream_store buf bit_index vmask val (drop_bit (64 - bit_index mod 64) val);
          Some (ERR_OK, buf, sz (bit_index + num_bits)) } })"

definition bitstream_write_int64 ::
  "mem \<Rightarrow> nat \<Rightarrow> nat \<Rightarrow> nat \<Rightarrow> i64 \<Rightarrow> nat \<Rightarrow> (int \<times> mem \<times> nat) option" where
  "bitstream_write_int64 buf buf_size_bits bit_index num_bits val num_bits_written =
     (if required_buf_size bit_index num_bits > buf_size_bits
      then Some (ERR_BITSTREAM_OUT_OF_SPACE, buf, num_bits_written)
      else do {
        _ \<leftarrow> c_assert (num_bits > 1);
        vmask \<leftarrow> bit_mask (size_to_int num_bits);
        bad \<leftarrow> (if num_bits < 64 then
                  (if sint val < 0 then
                     (let min_val = push_bit (num_bits - 1) 1 :: u64 in Some (val < - min_val))
                   else do {
                     vmask_without_signed_bit \<leftarrow> bit_mask (size_to_int (num_bits - 1));
                     Some (val AND NOT vmask_without_signed_bit \<noteq> 0) })
                else Some False);
        if bad then Some (ERR_BITSTREAM_BAD_VALUE, buf, num_bits_written)
        else do {
          buf \<leftarrow> bitstream_store buf bit_index vmask val (signed_drop_bit (64 - bit_index mod 64) val);
          Some (ERR_OK, buf, sz (bit_index + num_bits)) } })"

text \<open>
  \<^verbatim>\<open>int64_t msb_mask = 1 << ( num_bits - 1 )\<close> shifts a 32-bit \<^verbatim>\<open>int\<close>. Below 32 bits it is the mask of
  the sign bit, at 32 bits the result \<open>-2 ^ 31\<close> is sign-extended, and beyond the C standard leaves it
  undefined; the definition takes the behaviour of the x86-64 shift instruction, which uses the count
  modulo 32. The 64-bit reads of the program do not depend on that choice (lemma
  \<open>read_int64_mask_irrelevant\<close>).
\<close>

definition msb_mask :: "nat \<Rightarrow> u64" where
  "msb_mask num_bits = scast (push_bit ((num_bits - 1) mod 32) 1 :: u32)"

definition sign_extend_field :: "u64 \<Rightarrow> u64 \<Rightarrow> u64 \<Rightarrow> u64" where
  "sign_extend_field vmask msb val = (if val AND msb \<noteq> 0 then val OR NOT vmask else val)"

definition read_int64_with :: "u64 \<Rightarrow> mem \<Rightarrow> nat \<Rightarrow> nat \<Rightarrow> nat \<Rightarrow> i64 \<Rightarrow> (int \<times> i64) option" where
  "read_int64_with msb buf buf_size_bits bit_index num_bits val =
     (if sz (bit_index + num_bits) > buf_size_bits then Some (ERR_BITSTREAM_OUT_OF_SPACE, val)
      else do {
        vmask \<leftarrow> bit_mask (size_to_int num_bits);
        v \<leftarrow> bitstream_fetch buf bit_index vmask;
        Some (ERR_OK, if bit_index mod 64 = 0 \<or> num_bits < 64
                      then sign_extend_field vmask msb v else v) })"

definition bitstream_read_int64 :: "mem \<Rightarrow> nat \<Rightarrow> nat \<Rightarrow> nat \<Rightarrow> i64 \<Rightarrow> (int \<times> i64) option" where
  "bitstream_read_int64 buf buf_size_bits bit_index num_bits val =
     read_int64_with (msb_mask num_bits) buf buf_size_bits bit_index num_bits val"

section \<open>Masks\<close>

lemma bit_mask_ok [simp]: "n \<le> 64 \<Longrightarrow> bit_mask (size_to_int n) = Some (mask n)"
  by (cases "n = 64")
     (simp_all add: size_to_int_small bit_mask_def mask_eq_exp_minus_1 push_bit_eq_mult)

lemma fits_mask_iff: "val AND NOT (mask n) \<noteq> (0 :: u64) \<longleftrightarrow> \<not> unat val < 2 ^ n"
proof -
  have "val AND NOT (mask n) = 0 \<longleftrightarrow> take_bit n val = val"
    by (auto simp: bit_eq_iff bit_simps)
  also have "\<dots> \<longleftrightarrow> unat val < 2 ^ n"
    by (metis take_bit_nat_eq_self_iff unsigned_take_bit_eq unsigned_word_eqI)
  finally show ?thesis by blast
qed

lemma unat_less_exp_bit: "unat (val :: u64) < 2 ^ n \<longleftrightarrow> (\<forall>k. bit val k \<longrightarrow> k < n)"
proof -
  have "val AND NOT (mask n) = 0 \<longleftrightarrow> (\<forall>k. bit val k \<longrightarrow> k < n)"
    using bit_imp_le_length [of val] by (fastforce simp: bit_eq_iff bit_simps)
  with fits_mask_iff show ?thesis by blast
qed

lemma required_buf_size_le:
  assumes "bit_index + num_bits \<le> 2 ^ 62"
  shows "required_buf_size bit_index num_bits = 64 * ((bit_index + num_bits + 63) div 64)"
proof -
  have "(if x mod 64 \<noteq> 0 then x + (64 - x mod 64) else x) = 64 * ((x + 63) div 64)" for x :: nat
  proof -
    obtain q r where "x = 64 * q + r" "r < 64" by (metis mod_less_divisor mult_div_mod_eq zero_less_numeral)
    moreover have "r \<noteq> 0 \<Longrightarrow> (64 * q + r + 63) div 64 = q + 1"
      using \<open>r < 64\<close> by (intro div_nat_eqI) auto
    ultimately show ?thesis by (cases "r = 0") auto
  qed
  from this [of "bit_index + num_bits"] show ?thesis using assms
    by (auto simp: required_buf_size_def Let_def split: if_splits)
qed

section \<open>The bits a store changes\<close>

lemma bit_merge:
  "bit ((p AND NOT m) OR (x AND m)) k = (if bit m k then bit x k else bit (p :: u64) k)"
  using bit_imp_le_length [of p k] bit_imp_le_length [of m k] by (auto simp: bit_simps)

text \<open>The meaning of a write: exactly the field's bits change, and the buffer keeps its size.\<close>

definition field_stored :: "mem \<Rightarrow> nat \<Rightarrow> nat \<Rightarrow> u64 \<Rightarrow> mem \<Rightarrow> bool" where
  "field_stored buf i n v buf' \<longleftrightarrow> length buf' = length buf \<and>
     (\<forall>k. bit_at buf' k = (if i \<le> k \<and> k < i + n then bit v (k - i) else bit_at buf k))"

lemma merge_word_ok:
  assumes "8 * i + 8 \<le> length buf"
  obtains p buf' where "load64 buf i = Some p" "store64 buf i ((p AND NOT m) OR (x AND m)) = Some buf'"
    "length buf' = length buf"
    "\<And>k. bit_at buf' k = (if 64 * i \<le> k \<and> k < 64 * i + 64 \<and> bit m (k - 64 * i) then bit x (k - 64 * i)
      else bit_at buf k)"
proof -
  obtain p where p: "load64 buf i = Some p" using load64_ok [OF assms] by blast
  obtain buf' where s: "store64 buf i ((p AND NOT m) OR (x AND m)) = Some buf'"
    using store64_ok [OF assms] by blast
  show thesis
  proof (rule that [OF p s store64_length [OF s]])
    fix k
    show "bit_at buf' k = (if 64 * i \<le> k \<and> k < 64 * i + 64 \<and> bit m (k - 64 * i) then bit x (k - 64 * i)
      else bit_at buf k)"
      by (auto simp: bit_store64 [OF s] bit_merge bit_load64 [OF p])
  qed
qed

lemma bitstream_store_ok:
  assumes n: "1 \<le> n" "n \<le> 64" and len: "64 * ((bi + n + 63) div 64) \<le> 8 * length buf"
    and high: "\<And>k. k < bi mod 64 \<Longrightarrow> bit high k = bit v (64 - bi mod 64 + k)"
  shows "\<exists>buf'. bitstream_store buf bi (mask n) v high = Some buf' \<and> field_stored buf bi n v buf'"
proof -
  define i j where "i = bi div 64" and "j = bi mod 64"
  have bi: "bi = 64 * i + j" and j: "j < 64" by (simp_all add: i_def j_def)
  have "i + 1 \<le> (bi + n + 63) div 64" using n bi by (simp add: less_eq_div_iff_mult_less_eq)
  with len have l1: "8 * i + 8 \<le> length buf" by linarith
  show ?thesis
  proof (cases "j = 0")
    case True
    obtain p buf' where "load64 buf i = Some p" "store64 buf i ((p AND NOT (mask n)) OR (v AND mask n)) = Some buf'"
      "length buf' = length buf" and bits: "\<And>k. bit_at buf' k = (if 64 * i \<le> k \<and> k < 64 * i + 64 \<and>
        bit (mask n :: u64) (k - 64 * i) then bit v (k - 64 * i) else bit_at buf k)"
      by (rule merge_word_ok [OF l1]) blast
    then have "bitstream_store buf bi (mask n) v high = Some buf'" "length buf' = length buf"
      using True by (simp_all add: bitstream_store_def flip: i_def j_def)
    moreover have "64 * i \<le> k \<and> k < 64 * i + 64 \<and> bit (mask n :: u64) (k - 64 * i) \<longleftrightarrow>
        bi \<le> k \<and> k < bi + n" for k
      using True n by (auto simp: bi bit_mask_iff)
    ultimately show ?thesis using True bits by (auto simp: field_stored_def bi)
  next
    case False
    define lm hm where "lm = push_bit j (mask n :: u64)" and "hm = drop_bit (64 - j) (mask n :: u64)"
    have lm: "bit lm k \<longleftrightarrow> j \<le> k \<and> k < 64 \<and> k < j + n" for k
      using False n j by (auto simp: lm_def bit_simps)
    have hm: "bit hm k \<longleftrightarrow> 64 + k < j + n" for k
      using False n j by (auto simp: hm_def bit_simps)
    have lm0: "lm \<noteq> 0" using lm [of j] n j by auto
    obtain p buf1 where s1: "load64 buf i = Some p"
      "store64 buf i ((p AND NOT lm) OR (push_bit j v AND lm)) = Some buf1" "length buf1 = length buf"
      and b1: "\<And>k. bit_at buf1 k = (if 64 * i \<le> k \<and> k < 64 * i + 64 \<and> bit lm (k - 64 * i)
        then bit (push_bit j v) (k - 64 * i) else bit_at buf k)"
      by (rule merge_word_ok [OF l1]) blast
    have b1': "bit_at buf1 k = (if bi \<le> k \<and> k < bi + n \<and> k < 64 * i + 64 then bit v (k - bi) else bit_at buf k)" for k
      using j by (auto simp: b1 lm bit_push_bit_iff bi)
    show ?thesis
    proof (cases "hm = 0")
      case True
      then have "j + n \<le> 64" using hm [of 0] by auto
      with b1' have "field_stored buf bi n v buf1" using s1(3) by (auto simp: field_stored_def bi)
      moreover have "bitstream_store buf bi (mask n) v high = Some buf1"
        using False lm0 True s1 by (simp add: bitstream_store_def flip: i_def j_def lm_def hm_def)
      ultimately show ?thesis by blast
    next
      case hm0: False
      then obtain k0 where "bit hm k0" by (auto simp: bit_eq_iff)
      with hm have jn: "64 < j + n" by fastforce
      then have "(bi + n + 63) div 64 = i + 2" using j n bi by (intro div_nat_eqI) auto
      with len have l2: "8 * (i + 1) + 8 \<le> length buf1" using s1(3) by simp
      obtain q buf2 where s2: "load64 buf1 (i + 1) = Some q"
        "store64 buf1 (i + 1) ((q AND NOT hm) OR (high AND hm)) = Some buf2" "length buf2 = length buf1"
        and b2: "\<And>k. bit_at buf2 k = (if 64 * (i + 1) \<le> k \<and> k < 64 * (i + 1) + 64 \<and> bit hm (k - 64 * (i + 1))
          then bit high (k - 64 * (i + 1)) else bit_at buf1 k)"
        by (rule merge_word_ok [OF l2]) blast
      have "bit_at buf2 k = (if bi \<le> k \<and> k < bi + n then bit v (k - bi) else bit_at buf k)" for k
      proof (cases "64 * (i + 1) \<le> k \<and> k < bi + n")
        case True
        then have "k - 64 * (i + 1) < j" using n bi by auto
        then have "bit high (k - 64 * (i + 1)) = bit v (64 - j + (k - 64 * (i + 1)))"
          using high unfolding j_def by blast
        also have "64 - j + (k - 64 * (i + 1)) = k - bi" using True j bi by auto
        finally show ?thesis using True n j bi by (auto simp: b2 hm)
      next
        case f: False
        then have "bit_at buf2 k = bit_at buf1 k" using bi by (auto simp: b2 hm)
        with f show ?thesis using bi by (auto simp: b1')
      qed
      then have "field_stored buf bi n v buf2" using s1 s2 by (simp add: field_stored_def)
      moreover have "bitstream_store buf bi (mask n) v high = Some buf2"
        using False lm0 hm0 s1 s2 by (simp add: bitstream_store_def flip: i_def j_def lm_def hm_def)
      ultimately show ?thesis by blast
    qed
  qed
qed

section \<open>Reads\<close>

lemma bitstream_fetch_ok:
  assumes n: "1 \<le> n" "n \<le> 64" and len: "64 * ((bi + n + 63) div 64) \<le> 8 * length buf"
  shows "\<exists>v. bitstream_fetch buf bi (mask n) = Some v \<and> (\<forall>k. bit v k \<longleftrightarrow> k < n \<and> bit_at buf (bi + k))"
proof -
  define i j where "i = bi div 64" and "j = bi mod 64"
  have bi: "bi = 64 * i + j" and j: "j < 64" by (simp_all add: i_def j_def)
  have "i + 1 \<le> (bi + n + 63) div 64" using n bi by (simp add: less_eq_div_iff_mult_less_eq)
  with len have l1: "8 * i + 8 \<le> length buf" by linarith
  then obtain p where p: "load64 buf i = Some p" using load64_ok by blast
  show ?thesis
  proof (cases "j = 0")
    case True
    have "bit (p AND mask n) k \<longleftrightarrow> k < n \<and> bit_at buf (bi + k)" for k
      using n True by (auto simp: bit_simps bit_load64 [OF p] bi)
    then show ?thesis using p True by (simp add: bitstream_fetch_def flip: i_def j_def)
  next
    case False
    define lm hm where "lm = push_bit j (mask n :: u64)" and "hm = drop_bit (64 - j) (mask n :: u64)"
    have lm: "bit lm k \<longleftrightarrow> j \<le> k \<and> k < 64 \<and> k < j + n" for k
      using False n j by (auto simp: lm_def bit_simps)
    have hm: "bit hm k \<longleftrightarrow> 64 + k < j + n" for k
      using False n j by (auto simp: hm_def bit_simps)
    have lm0: "lm \<noteq> 0" using lm [of j] n j by auto
    have pk: "bit p (j + k) \<longleftrightarrow> j + k < 64 \<and> bit_at buf (bi + k)" for k
    proof -
      have e: "64 * i + (j + k) = bi + k" using bi by linarith
      show ?thesis using bit_load64 [OF p, of "j + k"] unfolding e .
    qed
    have low: "bit (drop_bit j (p AND lm)) k \<longleftrightarrow> k < n \<and> j + k < 64 \<and> bit_at buf (bi + k)" for k
      by (auto simp: bit_drop_bit_eq bit_and_iff lm pk)
    show ?thesis
    proof (cases "hm = 0")
      case True
      then have "j + n \<le> 64" using hm [of 0] by auto
      then have "bit (drop_bit j (p AND lm)) k \<longleftrightarrow> k < n \<and> bit_at buf (bi + k)" for k
        using low [of k] by linarith
      then show ?thesis using p False True lm0
        by (simp add: bitstream_fetch_def flip: i_def j_def lm_def hm_def)
    next
      case hm0: False
      then obtain k0 where "bit hm k0" by (auto simp: bit_eq_iff)
      with hm have jn: "64 < j + n" by fastforce
      then have "(bi + n + 63) div 64 = i + 2" using j n bi by (intro div_nat_eqI) auto
      with len have "8 * (i + 1) + 8 \<le> length buf" by simp
      then obtain q where q: "load64 buf (i + 1) = Some q" using load64_ok by blast
      have high: "bit (push_bit (64 - j) (q AND hm)) k \<longleftrightarrow> k < n \<and> 64 \<le> j + k \<and> bit_at buf (bi + k)" for k
      proof (cases "64 \<le> j + k")
        case True
        then have e: "64 * (i + 1) + (k - (64 - j)) = bi + k" using j bi by auto
        from True show ?thesis using j n bit_load64 [OF q, of "k - (64 - j)"] unfolding e
          by (auto simp: bit_push_bit_iff bit_and_iff hm)
      qed (auto simp: bit_simps)
      have "bit (drop_bit j (p AND lm) OR push_bit (64 - j) (q AND hm)) k \<longleftrightarrow>
          k < n \<and> bit_at buf (bi + k)" for k
        using low [of k] high [of k] by (auto simp: bit_or_iff)
      then show ?thesis using p q False hm0 lm0
        by (simp add: bitstream_fetch_def flip: i_def j_def lm_def hm_def)
    qed
  qed
qed

lemma bitstream_read_uint64_ok:
  assumes "1 \<le> n" "n \<le> 64" "bi + n \<le> bs" "64 * ((bi + n + 63) div 64) \<le> 8 * length buf" "bi + n < 2 ^ 64"
  shows "\<exists>v. bitstream_read_uint64 buf bs bi n v0 = Some (ERR_OK, v) \<and>
    (\<forall>k. bit v k \<longleftrightarrow> k < n \<and> bit_at buf (bi + k))"
  using bitstream_fetch_ok [OF assms(1,2,4)] assms by (auto simp: bitstream_read_uint64_def)

text \<open>
  The signed read is the unsigned read followed by the sign extension of the field, whatever mask
  tests the sign bit; at 64 bits the mask has no effect.
\<close>

lemma read_int64_as_uint64:
  assumes "n \<le> 64"
  shows "read_int64_with msb buf bs bi n v0 =
    (case bitstream_read_uint64 buf bs bi n v0 of None \<Rightarrow> None
     | Some (res, v) \<Rightarrow> Some (res, if res = ERR_OK then sign_extend_field (mask n) msb v else v))"
proof -
  have "sign_extend_field (mask 64) msb v = v" for v
    by (auto simp: sign_extend_field_def bit_eq_iff bit_simps)
  then show ?thesis using assms
    by (cases "n = 64")
       (auto simp: read_int64_with_def bitstream_read_uint64_def err_defs split: option.splits bind_splits)
qed

lemma read_int64_mask_irrelevant:
  "read_int64_with msb buf bs bi 64 v0 = bitstream_read_uint64 buf bs bi 64 v0"
proof -
  have "sign_extend_field (mask 64) msb v = v" for v
    by (auto simp: sign_extend_field_def bit_eq_iff bit_simps)
  then show ?thesis by (auto simp: read_int64_as_uint64 split: option.splits)
qed

section \<open>The writers\<close>

lemma bitstream_write_uint64_ok:
  assumes "1 \<le> n" "n \<le> 64" "unat v < 2 ^ n" "bi + n \<le> 2 ^ 62"
    and "64 * ((bi + n + 63) div 64) \<le> bs" "bs \<le> 8 * length buf"
  shows "\<exists>buf'. bitstream_write_uint64 buf bs bi n v w = Some (ERR_OK, buf', bi + n) \<and>
    field_stored buf bi n v buf'"
proof -
  have "64 * ((bi + n + 63) div 64) \<le> 8 * length buf" using assms(5,6) by linarith
  from bitstream_store_ok [OF assms(1,2) this, of "drop_bit (64 - bi mod 64) v" v]
  obtain buf' where b: "bitstream_store buf bi (mask n) v (drop_bit (64 - bi mod 64) v) = Some buf'"
    "field_stored buf bi n v buf'" by (auto simp: bit_drop_bit_eq)
  moreover have "v AND NOT (mask n) = 0" using assms(3) fits_mask_iff by blast
  ultimately show ?thesis using assms
    by (simp add: bitstream_write_uint64_def required_buf_size_le)
qed

lemma bitstream_write_uint64_bad:
  assumes "n \<le> 64" "\<not> unat v < 2 ^ n" "bi + n \<le> 2 ^ 62" "64 * ((bi + n + 63) div 64) \<le> bs"
  shows "bitstream_write_uint64 buf bs bi n v w = Some (ERR_BITSTREAM_BAD_VALUE, buf, w)"
  using assms fits_mask_iff [of v n] by (simp add: bitstream_write_uint64_def required_buf_size_le)

lemma bitstream_write_uint64_full:
  assumes "bi + n \<le> 2 ^ 62" "bs < 64 * ((bi + n + 63) div 64)"
  shows "bitstream_write_uint64 buf bs bi n v w = Some (ERR_BITSTREAM_OUT_OF_SPACE, buf, w)"
  using assms by (simp add: bitstream_write_uint64_def required_buf_size_le)

text \<open>The range test of the signed writer is the two's complement range of the field.\<close>

definition int_fits :: "nat \<Rightarrow> i64 \<Rightarrow> bool" where
  "int_fits n v \<longleftrightarrow> - (2 ^ (n - 1)) \<le> sint v \<and> sint v < 2 ^ (n - 1)"

lemma sint_eq_uint_if: "sint (v :: u64) = (if uint v < 2 ^ 63 then uint v else uint v - 2 ^ 64)"
proof -
  have u: "0 \<le> uint v" "uint v < 2 ^ 64" using uint_lt2p [of v] by simp_all
  have "(uint v + 2 ^ 63) mod 2 ^ 64 = (if uint v < 2 ^ 63 then uint v + 2 ^ 63 else uint v - 2 ^ 63)"
    using u minus_mod_self2 [of "uint v + 2 ^ 63" "2 ^ 64"] by auto
  then show ?thesis
    by (simp add: sint_uint signed_take_bit_eq_take_bit_shift take_bit_eq_mod)
qed

lemma negative_range_test:
  assumes "n < 64" "1 < n" "sint v < 0"
  shows "v < - (push_bit (n - 1) 1 :: u64) \<longleftrightarrow> \<not> int_fits n v"
proof -
  have p: "(2::int) ^ (n - 1) < 2 ^ 63" using assms by (intro power_strict_increasing) auto
  have "uint (push_bit (n - 1) 1 :: u64) = 2 ^ (n - 1)"
    using assms by (simp add: uint_2p word_gt_0)
  then have "uint (- (push_bit (n - 1) 1 :: u64)) = 2 ^ 64 - 2 ^ (n - 1)"
    using p by (simp add: uint_word_ariths zmod_zminus1_eq_if)
  moreover have "uint v = sint v + 2 ^ 64" using assms(3) uint_ge_0 [of v]
    by (simp add: sint_eq_uint_if split: if_splits)
  ultimately show ?thesis using assms p by (auto simp: word_less_alt int_fits_def)
qed

lemma positive_range_test:
  assumes "n < 64" "1 < n" "\<not> sint v < 0"
  shows "v AND NOT (mask (n - 1)) \<noteq> 0 \<longleftrightarrow> \<not> int_fits n v"
proof -
  have "uint v = sint v" using assms(3) uint_lt2p [of v] by (simp add: sint_eq_uint_if split: if_splits)
  then have "unat v < 2 ^ (n - 1) \<longleftrightarrow> sint v < 2 ^ (n - 1)"
    by (simp add: unat_eq_nat_uint nat_less_iff)
  with assms(3) show ?thesis unfolding fits_mask_iff int_fits_def by auto
qed

lemma int_fits_64: "int_fits 64 v"
  using sint_ge [of v] sint_lt [of v] by (simp add: int_fits_def)

lemma bitstream_write_int64_eq:
  assumes n: "1 < n" "n \<le> 64" and "bi + n \<le> 2 ^ 62" "64 * ((bi + n + 63) div 64) \<le> bs"
  shows "bitstream_write_int64 buf bs bi n v w =
    (if int_fits n v then do {
       buf \<leftarrow> bitstream_store buf bi (mask n) v (signed_drop_bit (64 - bi mod 64) v);
       Some (ERR_OK, buf, bi + n) }
     else Some (ERR_BITSTREAM_BAD_VALUE, buf, w))"
proof (cases "n = 64")
  case True
  then show ?thesis using assms int_fits_64 by (simp add: bitstream_write_int64_def required_buf_size_le)
next
  case False
  then show ?thesis
    using assms negative_range_test [of n v] positive_range_test [of n v]
    by (cases "sint v < 0") (simp_all add: bitstream_write_int64_def required_buf_size_le)
qed

lemma bit_signed_drop_low:
  "k < j \<Longrightarrow> j < 64 \<Longrightarrow> bit (signed_drop_bit (64 - j) (v :: u64)) k = bit v (64 - j + k)"
  by (simp add: bit_signed_drop_bit_iff)

lemma bitstream_write_int64_ok:
  assumes "1 < n" "n \<le> 64" "int_fits n v" "bi + n \<le> 2 ^ 62"
    and "64 * ((bi + n + 63) div 64) \<le> bs" "bs \<le> 8 * length buf"
  shows "\<exists>buf'. bitstream_write_int64 buf bs bi n v w = Some (ERR_OK, buf', bi + n) \<and>
    field_stored buf bi n v buf'"
proof -
  have "64 * ((bi + n + 63) div 64) \<le> 8 * length buf" using assms(5,6) by linarith
  with bitstream_store_ok [of n bi buf "signed_drop_bit (64 - bi mod 64) v" v] assms(1,2)
  obtain buf' where b: "bitstream_store buf bi (mask n) v (signed_drop_bit (64 - bi mod 64) v) = Some buf'"
    "field_stored buf bi n v buf'" by (auto simp: bit_signed_drop_low)
  then show ?thesis using assms by (simp add: bitstream_write_int64_eq)
qed

lemma bitstream_write_int64_full:
  assumes "bi + n \<le> 2 ^ 62" "bs < 64 * ((bi + n + 63) div 64)"
  shows "bitstream_write_int64 buf bs bi n v w = Some (ERR_BITSTREAM_OUT_OF_SPACE, buf, w)"
  using assms by (simp add: bitstream_write_int64_def required_buf_size_le)

section \<open>Round trips\<close>

lemma field_stored_has_bits: "field_stored buf i n v buf' \<Longrightarrow> has_bits buf' i (nbits n v)"
  by (auto simp: field_stored_def has_bits_def)

lemma field_stored_same_below: "field_stored buf i n v buf' \<Longrightarrow> same_below i buf buf'"
  by (auto simp: field_stored_def same_below_def)

lemma bitstream_read_uint64_has_bits:
  assumes "1 \<le> n" "n \<le> 64" "bi + n \<le> bs" "64 * ((bi + n + 63) div 64) \<le> 8 * length buf" "bi + n < 2 ^ 64"
    and "has_bits buf bi (nbits n v)" "unat v < 2 ^ n"
  shows "bitstream_read_uint64 buf bs bi n v0 = Some (ERR_OK, v)"
proof -
  obtain x where x: "bitstream_read_uint64 buf bs bi n v0 = Some (ERR_OK, x)"
    "\<And>k. bit x k \<longleftrightarrow> k < n \<and> bit_at buf (bi + k)"
    using bitstream_read_uint64_ok [OF assms(1-5)] by blast
  have "x = v"
  proof (rule bit_eqI)
    fix k show "bit x k = bit v k"
      using assms(6,7) by (auto simp: x(2) has_bits_def unat_less_exp_bit)
  qed
  with x show ?thesis by simp
qed

text \<open>Sign extension restores a value whose upper bits all repeat the sign bit.\<close>

lemma msb_mask_bit: "1 < n \<Longrightarrow> n \<le> 32 \<Longrightarrow> k < n \<Longrightarrow> bit (msb_mask n) k \<longleftrightarrow> k = n - 1"
  by (auto simp: msb_mask_def bit_simps)

lemma int_fits_upper_bits:
  assumes "1 \<le> n" "n < 64" "int_fits n v" "n - 1 \<le> k" "k < 64"
  shows "bit (v :: u64) k = bit v (n - 1)"
proof -
  have "signed_take_bit (n - 1) (sint v) = sint v"
    using assms(3) by (simp add: int_fits_def signed_take_bit_int_eq_self_iff)
  then have "bit (sint v) k = bit (sint v) (min k (n - 1))"
    using bit_signed_take_bit_iff [of "n - 1" "sint v" k] by (simp add: min.commute)
  then show ?thesis using assms by (simp add: bit_sint_iff min_def split: if_splits)
qed

lemma sign_extend_field_restores:
  assumes "1 < n" "n \<le> 32" "int_fits n v"
  shows "sign_extend_field (mask n) (msb_mask n) (v AND mask n) = v"
proof -
  have up: "bit v k = bit v (n - 1)" if "n - 1 \<le> k" "k < 64" for k
    using int_fits_upper_bits [of n v k] assms that by auto
  have "(v AND mask n) AND msb_mask n \<noteq> 0 \<longleftrightarrow> bit v (n - 1)"
  proof
    assume "(v AND mask n) AND msb_mask n \<noteq> 0"
    then obtain k where "bit ((v AND mask n) AND msb_mask n) k" by (metis bit_eqI bit_0_eq bot_apply bot_boolE)
    then show "bit v (n - 1)" using assms msb_mask_bit [of n k] by (auto simp: bit_simps)
  next
    assume "bit v (n - 1)"
    then have "bit ((v AND mask n) AND msb_mask n) (n - 1)"
      using assms msb_mask_bit [of n "n - 1"] by (auto simp: bit_simps)
    then show "(v AND mask n) AND msb_mask n \<noteq> 0" by (metis bit_0_eq bot_apply bot_boolE)
  qed
  moreover have "bit (if bit v (n - 1) then (v AND mask n) OR NOT (mask n) else v AND mask n) k = bit v k"
    if "k < 64" for k
    using up [of k] that by (cases "k < n") (auto simp: bit_simps)
  ultimately show ?thesis by (intro bit_word_eqI) (simp add: sign_extend_field_def)
qed

lemma bitstream_read_int64_has_bits:
  assumes n: "1 < n" "n \<le> 32 \<or> n = 64" and "bi + n \<le> bs" "64 * ((bi + n + 63) div 64) \<le> 8 * length buf"
    "bi + n < 2 ^ 64" and hb: "has_bits buf bi (nbits n v)" and fits: "int_fits n v"
  shows "bitstream_read_int64 buf bs bi n v0 = Some (ERR_OK, v)"
proof -
  have "has_bits buf bi (nbits n (v AND mask n))"
    using hb n by (auto simp: has_bits_def bit_simps)
  moreover have "unat (v AND mask n) < 2 ^ n" by (simp add: unat_less_exp_bit bit_simps)
  ultimately have r: "bitstream_read_uint64 buf bs bi n v0 = Some (ERR_OK, v AND mask n)"
    using bitstream_read_uint64_has_bits [of n bi bs buf "v AND mask n"] assms by auto
  show ?thesis
  proof (cases "n = 64")
    case True
    moreover have "v AND mask 64 = v" by (rule bit_word_eqI) (simp add: bit_simps)
    ultimately show ?thesis using r
      by (simp add: bitstream_read_int64_def read_int64_mask_irrelevant)
  next
    case False
    then show ?thesis using r n fits
      by (simp add: bitstream_read_int64_def read_int64_as_uint64 sign_extend_field_restores)
  qed
qed

section \<open>The contract of a pair of field accessors\<close>

text \<open>
  What the time series codec relies on: a writer and a reader of fields, with the widths they take
  and the values that fit. The unsigned and the signed functions are its two interpretations.
\<close>

locale bit_fields =
  fixes wr :: "mem \<Rightarrow> nat \<Rightarrow> nat \<Rightarrow> nat \<Rightarrow> u64 \<Rightarrow> nat \<Rightarrow> (int \<times> mem \<times> nat) option"
    and rd :: "mem \<Rightarrow> nat \<Rightarrow> nat \<Rightarrow> nat \<Rightarrow> u64 \<Rightarrow> (int \<times> u64) option"
    and width :: "nat \<Rightarrow> bool"
    and fits :: "nat \<Rightarrow> u64 \<Rightarrow> bool"
  assumes wr_ok: "width n \<Longrightarrow> fits n v \<Longrightarrow> bi + n \<le> 2 ^ 62 \<Longrightarrow> 64 * ((bi + n + 63) div 64) \<le> bs \<Longrightarrow>
      bs \<le> 8 * length buf \<Longrightarrow>
      \<exists>buf'. wr buf bs bi n v w = Some (ERR_OK, buf', bi + n) \<and> field_stored buf bi n v buf'"
    and wr_full: "bi + n \<le> 2 ^ 62 \<Longrightarrow> bs < 64 * ((bi + n + 63) div 64) \<Longrightarrow>
      wr buf bs bi n v w = Some (ERR_BITSTREAM_OUT_OF_SPACE, buf, w)"
    and wr_bad: "width n \<Longrightarrow> \<not> fits n v \<Longrightarrow> bi + n \<le> 2 ^ 62 \<Longrightarrow> 64 * ((bi + n + 63) div 64) \<le> bs \<Longrightarrow>
      wr buf bs bi n v w = Some (ERR_BITSTREAM_BAD_VALUE, buf, w)"
    and rd_ok: "width n \<Longrightarrow> fits n v \<Longrightarrow> bi + n \<le> bs \<Longrightarrow> bi + n < 2 ^ 64 \<Longrightarrow>
      64 * ((bi + n + 63) div 64) \<le> 8 * length buf \<Longrightarrow> has_bits buf bi (nbits n v) \<Longrightarrow>
      rd buf bs bi n v0 = Some (ERR_OK, v)"
begin

text \<open>A write either stores the field or reports an error and changes nothing.\<close>

lemma wr_cases:
  assumes "width n" "bi + n \<le> 2 ^ 62" "bs \<le> 8 * length buf"
  obtains (ok) buf' where "fits n v" "wr buf bs bi n v w = Some (ERR_OK, buf', bi + n)"
      "has_bits buf' bi (nbits n v)" "same_below bi buf buf'" "64 * ((bi + n + 63) div 64) \<le> bs"
    | (full) "wr buf bs bi n v w = Some (ERR_BITSTREAM_OUT_OF_SPACE, buf, w)" "bs < 64 * ((bi + n + 63) div 64)"
    | (bad) "wr buf bs bi n v w = Some (ERR_BITSTREAM_BAD_VALUE, buf, w)" "\<not> fits n v"
      "64 * ((bi + n + 63) div 64) \<le> bs"
proof (cases "bs < 64 * ((bi + n + 63) div 64)")
  case True
  with full wr_full [OF assms(2) True] show thesis by blast
next
  case False
  then have le: "64 * ((bi + n + 63) div 64) \<le> bs" by simp
  show thesis
  proof (cases "fits n v")
    case True
    with wr_ok [OF assms(1) True assms(2) le assms(3)] ok le show thesis
      by (blast intro: field_stored_has_bits field_stored_same_below)
  next
    case False
    with wr_bad [OF assms(1) False assms(2) le] bad le show thesis by blast
  qed
qed

lemma wr_rd:
  assumes "width n" "fits n v" "bi + n \<le> 2 ^ 62" "64 * ((bi + n + 63) div 64) \<le> bs" "bs \<le> 8 * length buf"
  shows "\<exists>buf'. wr buf bs bi n v w = Some (ERR_OK, buf', bi + n) \<and>
    rd buf' bs bi n v0 = Some (ERR_OK, v) \<and> field_stored buf bi n v buf'"
proof -
  obtain buf' where b: "wr buf bs bi n v w = Some (ERR_OK, buf', bi + n)" "field_stored buf bi n v buf'"
    using wr_ok [OF assms] by blast
  have "bi + n \<le> 64 * ((bi + n + 63) div 64)"
    using div_mult_mod_eq [of "bi + n + 63" 64] mod_less_divisor [of 64 "bi + n + 63"] by linarith
  moreover have "length buf' = length buf" using b(2) by (simp add: field_stored_def)
  ultimately have "rd buf' bs bi n v0 = Some (ERR_OK, v)"
    using assms by (intro rd_ok field_stored_has_bits [OF b(2)]) auto
  with b show ?thesis by blast
qed

end

interpretation ub: bit_fields bitstream_write_uint64 bitstream_read_uint64
  "\<lambda>n. 1 \<le> n \<and> n \<le> 64" "\<lambda>n v. unat v < 2 ^ n"
  by unfold_locales
    (auto intro: bitstream_write_uint64_ok bitstream_write_uint64_full bitstream_write_uint64_bad
      bitstream_read_uint64_has_bits)

interpretation sb: bit_fields bitstream_write_int64 bitstream_read_int64
  "\<lambda>n. 1 < n \<and> (n \<le> 32 \<or> n = 64)" int_fits
  by unfold_locales
    (auto intro: bitstream_write_int64_ok bitstream_write_int64_full bitstream_read_int64_has_bits
      simp: bitstream_write_int64_eq)

section \<open>Properties\<close>

text \<open>
  Writing an unsigned value that fits into a field of 1 to 64 bits, at any bit position where the
  field rounded up to whole words lies within the buffer, succeeds; reading the field back gives the
  value; the new bit index is the end of the field; and no bit outside the field changes.
\<close>

theorem bitstream_uint64_roundtrip:
  assumes "1 \<le> num_bits" "num_bits \<le> 64" "unat v < 2 ^ num_bits"
    and "bit_index + num_bits \<le> 2 ^ 62" "required_buf_size bit_index num_bits \<le> buf_size_bits"
    and "buf_size_bits \<le> 8 * length buf"
  shows "\<exists>buf'. bitstream_write_uint64 buf buf_size_bits bit_index num_bits v w =
        Some (ERR_OK, buf', bit_index + num_bits) \<and>
      bitstream_read_uint64 buf' buf_size_bits bit_index num_bits v0 = Some (ERR_OK, v) \<and>
      length buf' = length buf \<and>
      (\<forall>k. \<not> (bit_index \<le> k \<and> k < bit_index + num_bits) \<longrightarrow> bit_at buf' k = bit_at buf k)"
  using ub.wr_rd [of num_bits v bit_index buf_size_bits buf w v0] assms
  by (auto simp: required_buf_size_le field_stored_def)

theorem bitstream_uint64_roundtrip_witness:
  "\<exists>buf'. bitstream_write_uint64 (replicate 16 170) 128 60 7 93 0 = Some (ERR_OK, buf', 67) \<and>
      bitstream_read_uint64 buf' 128 60 7 0 = Some (ERR_OK, 93)"
  using bitstream_uint64_roundtrip [of 7 93 60 128 "replicate 16 170" 0 0]
  by (auto simp: required_buf_size_le)

text \<open>
  The same for signed values in two's complement, for the widths of up to 32 bits and of 64 bits
  that the program uses: a value in the range of the field is restored with its sign, also when the
  field straddles two words.
\<close>

theorem bitstream_int64_roundtrip:
  assumes "2 \<le> num_bits" "num_bits \<le> 32 \<or> num_bits = 64"
    and "- (2 ^ (num_bits - 1)) \<le> sint v" "sint v < 2 ^ (num_bits - 1)"
    and "bit_index + num_bits \<le> 2 ^ 62" "required_buf_size bit_index num_bits \<le> buf_size_bits"
    and "buf_size_bits \<le> 8 * length buf"
  shows "\<exists>buf'. bitstream_write_int64 buf buf_size_bits bit_index num_bits v w =
        Some (ERR_OK, buf', bit_index + num_bits) \<and>
      bitstream_read_int64 buf' buf_size_bits bit_index num_bits v0 = Some (ERR_OK, v) \<and>
      length buf' = length buf \<and>
      (\<forall>k. \<not> (bit_index \<le> k \<and> k < bit_index + num_bits) \<longrightarrow> bit_at buf' k = bit_at buf k)"
  using sb.wr_rd [of num_bits v bit_index buf_size_bits buf w v0] assms
  by (auto simp: required_buf_size_le field_stored_def int_fits_def)

theorem bitstream_int64_roundtrip_witness:
  "\<exists>buf'. bitstream_write_int64 (replicate 16 0) 128 60 12 (- 2048) 0 = Some (ERR_OK, buf', 72) \<and>
      bitstream_read_int64 buf' 128 60 12 0 = Some (ERR_OK, - 2048)"
  using bitstream_int64_roundtrip [of 12 "- 2048" 60 128 "replicate 16 0" 0 0]
  by (auto simp: required_buf_size_le)

text \<open>
  The outcome of the unsigned writer on every branch: it never fails an assertion for widths of 1
  to 64 bits, reports a full buffer exactly when the field rounded up to whole words does not fit,
  reports a bad value exactly when the value needs more bits than the field has, and leaves the
  buffer and the output index alone in both error cases.
\<close>

theorem bitstream_write_uint64_outcome:
  assumes "1 \<le> num_bits" "num_bits \<le> 64" "bit_index + num_bits \<le> 2 ^ 62" "buf_size_bits \<le> 8 * length buf"
  shows "(required_buf_size bit_index num_bits > buf_size_bits \<and>
           bitstream_write_uint64 buf buf_size_bits bit_index num_bits v w =
             Some (ERR_BITSTREAM_OUT_OF_SPACE, buf, w)) \<or>
         (required_buf_size bit_index num_bits \<le> buf_size_bits \<and> unat v \<ge> 2 ^ num_bits \<and>
           bitstream_write_uint64 buf buf_size_bits bit_index num_bits v w =
             Some (ERR_BITSTREAM_BAD_VALUE, buf, w)) \<or>
         (required_buf_size bit_index num_bits \<le> buf_size_bits \<and> unat v < 2 ^ num_bits \<and>
           (\<exists>buf'. bitstream_write_uint64 buf buf_size_bits bit_index num_bits v w =
             Some (ERR_OK, buf', bit_index + num_bits)))"
proof -
  have w: "1 \<le> num_bits \<and> num_bits \<le> 64" using assms by simp
  show ?thesis
    by (rule ub.wr_cases [OF w assms(3,4), of v w])
       (use assms in \<open>auto simp: required_buf_size_le bitstream_write_uint64_bad not_less not_le\<close>)
qed

theorem bitstream_write_uint64_outcome_witness:
  "bitstream_write_uint64 (replicate 16 0) 128 120 9 5 0 = Some (ERR_BITSTREAM_OUT_OF_SPACE, replicate 16 0, 0)"
  using bitstream_write_uint64_outcome [of 9 120 128 "replicate 16 0" 5 0]
  by (simp add: required_buf_size_le)

text \<open>
  A signed field of 40 bits is not read back correctly: the sign test of the reader is a shift of
  a 32-bit \<^verbatim>\<open>int\<close>, so that the value 128 comes back as a negative number.
\<close>

theorem bitstream_int64_40_bits_misread:
  "\<exists>buf'. bitstream_write_int64 [0, 0, 0, 0, 0, 0, 0, 0] 64 0 40 128 0 = Some (ERR_OK, buf', 40) \<and>
      bitstream_read_int64 buf' 64 0 40 0 = Some (ERR_OK, 128 - 2 ^ 40)"
proof -
  let ?buf = "[128, 0, 0, 0, 0, 0, 0, 0] :: mem"
  have "bitstream_write_int64 [0, 0, 0, 0, 0, 0, 0, 0] 64 0 40 128 0 = Some (ERR_OK, ?buf, 40)" by (simp add: eval_mem bitstream_write_int64_def required_buf_size_def bitstream_store_def)
  moreover have "bitstream_read_int64 ?buf 64 0 40 0 = Some (ERR_OK, 128 - 2 ^ 40)"
    by (simp add: eval_mem bitstream_read_int64_def read_int64_with_def bitstream_fetch_def msb_mask_def
        sign_extend_field_def)
  ultimately show ?thesis by blast
qed

end
