(* ===== verification/Tsc.thy ===== *)
theory Tsc
  imports Bitstream
begin

unbundle bit_operations_syntax

text \<open>
  The time series compressor of \<^verbatim>\<open>src/common/tsc.c\<close>. A block is a header (\<open>tsc_header\<close>) and a
  buffer: four bytes with the number of points, then a bit stream with the first time stamp, the
  deltas of the time stamps and the XORs of the values (doubles, carried as their 64-bit patterns,
  as the code does with \<^verbatim>\<open>memcpy\<close>). The first part translates the functions; the second gives
  the bit strings they write and read, and the contract \<open>bit_codec\<close> of a writer and a reader of
  one value; the third relates a block to the list of points it holds (\<open>tsc_inv\<close>) and shows what
  adding a point, iterating, clearing, saving and loading do to that list.
\<close>

section \<open>Data\<close>

record tsc_header =
  last_timestamp :: i64
  last_timestamp_delta :: i64
  prev_value :: u64
  num_valid_bits :: u32
  last_leading :: u8
  last_sigbits :: u8
  tsc_data :: mem
  data_len :: u32

record tsc_iter =
  iter_y :: u64
  iter_t :: i64
  iter_i :: u32
  iter_r :: nat
  iter_dt :: i64
  iter_last_leading :: u8
  iter_last_sigbits :: u8

definition TSC_NUM_PTS :: "mem \<Rightarrow> u32 option" where
  "TSC_NUM_PTS p = map_option le_word (mem_read p 0 4)"

definition set_TSC_NUM_PTS :: "mem \<Rightarrow> u32 \<Rightarrow> mem option" where
  "set_TSC_NUM_PTS p x = mem_write p 0 (le_bytes x)"

definition TSC_START_TIME :: "mem \<Rightarrow> i64 option" where
  "TSC_START_TIME p = map_option le_word (mem_read p 4 8)"

definition TSC_HEADER_SERIALIZATION_SIZE :: nat where
  "TSC_HEADER_SERIALIZATION_SIZE = 30"

definition MAX_NUM_VALID_BITS :: nat where
  "MAX_NUM_VALID_BITS = 536870912"

text \<open>Subtraction of \<^verbatim>\<open>size_t\<close> values, which wraps below zero.\<close>

definition sz_sub :: "nat \<Rightarrow> nat \<Rightarrow> nat" where
  "sz_sub a b = sz (a + (2 ^ 64 - b))"

lemma sz_sub_le [simp]: "b \<le> a \<Longrightarrow> a < 2 ^ 64 \<Longrightarrow> sz_sub a b = a - b"
proof -
  assume a: "b \<le> a" "a < 2 ^ 64"
  have "sz_sub a b = ((a - b) + 2 ^ 64) mod 2 ^ 64"
    unfolding sz_sub_def sz_def by (rule arg_cong [where f = "\<lambda>x. x mod 2 ^ 64"]) (use a in simp)
  also have "\<dots> = a - b" using a by (simp only: mod_add_self2) simp
  finally show ?thesis .
qed

text \<open>Fresh memory has arbitrary contents, given by the function \<open>junk\<close>.\<close>

definition fresh_mem :: "(nat \<Rightarrow> byte) \<Rightarrow> nat \<Rightarrow> mem" where
  "fresh_mem junk n = map junk [0..<n]"

section \<open>Initialising, clearing, saving and loading a block\<close>

definition tsc_init :: "(nat \<Rightarrow> byte) \<Rightarrow> tsc_header \<Rightarrow> nat \<Rightarrow> (int \<times> tsc_header) option" where
  "tsc_init junk p n =
     (if sz (n * 8) > MAX_NUM_VALID_BITS then Some (ERR_TSC_UNKOWN, p)
      else do {
        _ \<leftarrow> c_assert (0 < n \<and> n < 0xFFFFFFFF);
        d \<leftarrow> set_TSC_NUM_PTS (fresh_mem junk n) 0;
        Some (ERR_OK, \<lparr>last_timestamp = 0, last_timestamp_delta = 0, prev_value = 0,
          num_valid_bits = 0, last_leading = 0, last_sigbits = 0, tsc_data = d, data_len = of_nat n\<rparr>) })"

definition tsc_clear :: "tsc_header \<Rightarrow> tsc_header option" where
  "tsc_clear p = do {
     d \<leftarrow> set_TSC_NUM_PTS (tsc_data p) 0;
     Some (p\<lparr>last_timestamp := 0, last_timestamp_delta := 0, prev_value := 0, num_valid_bits := 0,
       last_leading := 0, last_sigbits := 0, tsc_data := d\<rparr>) }"

definition tsc_is_clear :: "tsc_header \<Rightarrow> bool option" where
  "tsc_is_clear p =
     (if num_valid_bits p \<noteq> 0 then Some False
      else do {
        _ \<leftarrow> c_assert (last_timestamp p = 0);
        _ \<leftarrow> c_assert (last_timestamp_delta p = 0);
        k \<leftarrow> TSC_NUM_PTS (tsc_data p);
        _ \<leftarrow> c_assert (k = 0);
        Some True })"

definition tsc_serialize_header :: "tsc_header \<Rightarrow> byte list" where
  "tsc_serialize_header p = le_bytes (last_timestamp p) @ le_bytes (last_timestamp_delta p) @
     le_bytes (prev_value p) @ le_bytes (num_valid_bits p) @ le_bytes (last_leading p) @
     le_bytes (last_sigbits p)"

definition tsc_deserialize_header :: "tsc_header \<Rightarrow> mem \<Rightarrow> tsc_header option" where
  "tsc_deserialize_header p s = do {
     a \<leftarrow> mem_read s 0 8;
     b \<leftarrow> mem_read s 8 8;
     c \<leftarrow> mem_read s 16 8;
     d \<leftarrow> mem_read s 24 4;
     e \<leftarrow> mem_read s 28 1;
     f \<leftarrow> mem_read s 29 1;
     Some (p\<lparr>last_timestamp := le_word a, last_timestamp_delta := le_word b, prev_value := le_word c,
       num_valid_bits := le_word d, last_leading := le_word e, last_sigbits := le_word f\<rparr>) }"

definition tsc_load_block :: "tsc_header \<Rightarrow> mem \<Rightarrow> mem \<Rightarrow> nat \<Rightarrow> tsc_header option" where
  "tsc_load_block p s buf n = do {
     p \<leftarrow> tsc_clear p;
     p \<leftarrow> tsc_deserialize_header p s;
     _ \<leftarrow> c_assert (n \<ge> unat (data_len p));
     d \<leftarrow> mem_read buf 0 (unat (data_len p));
     Some (p\<lparr>tsc_data := d\<rparr>) }"

section \<open>Time stamps\<close>

definition tsc_write_int64 :: "mem \<Rightarrow> nat \<Rightarrow> nat \<Rightarrow> i64 \<Rightarrow> (int \<times> mem \<times> nat) option" where
  "tsc_write_int64 buf n bit_index x =
     (if x = 0 then bitstream_write_uint64 buf n bit_index 1 0 bit_index
      else if - 64 \<le> sint x \<and> sint x \<le> 63 then
        ensure_res_ok (bitstream_write_uint64 buf n bit_index 2 1 bit_index)
          (\<lambda>(buf, bit_index). bitstream_write_int64 buf n bit_index 7 x bit_index)
      else if - 256 \<le> sint x \<and> sint x \<le> 255 then
        ensure_res_ok (bitstream_write_uint64 buf n bit_index 3 3 bit_index)
          (\<lambda>(buf, bit_index). bitstream_write_int64 buf n bit_index 9 x bit_index)
      else if - 2048 \<le> sint x \<and> sint x \<le> 2047 then
        ensure_res_ok (bitstream_write_uint64 buf n bit_index 4 7 bit_index)
          (\<lambda>(buf, bit_index). bitstream_write_int64 buf n bit_index 12 x bit_index)
      else
        ensure_res_ok (bitstream_write_uint64 buf n bit_index 4 15 bit_index)
          (\<lambda>(buf, bit_index). bitstream_write_int64 buf n bit_index 32 x bit_index))"

text \<open>
  The readers keep their output parameters on an error: \<open>on_read m st k\<close> is
  \<^verbatim>\<open>ENSURE_RES_OK\<close> around a read into a local variable, with \<open>st\<close> the parameters so far.
\<close>

definition on_read :: "(int \<times> u64) option \<Rightarrow> 's \<Rightarrow> (u64 \<Rightarrow> (int \<times> 's) option) \<Rightarrow> (int \<times> 's) option" where
  "on_read m st k = (case m of None \<Rightarrow> None
     | Some (res, x) \<Rightarrow> if res \<noteq> ERR_OK then Some (res, st) else k x)"

lemma on_read_ok [simp]: "on_read (Some (ERR_OK, x)) st k = k x"
  by (simp add: on_read_def)

definition tsc_read_int64 :: "mem \<Rightarrow> nat \<Rightarrow> nat \<Rightarrow> i64 \<times> nat \<Rightarrow> (int \<times> i64 \<times> nat) option" where
  "tsc_read_int64 buf n bit_index out =
     on_read (bitstream_read_uint64 buf n bit_index 1 0) out (\<lambda>x.
       if x = 0 then Some (ERR_OK, 0, 1) else
     on_read (bitstream_read_uint64 buf n (sz (bit_index + 1)) 1 0) out (\<lambda>x.
       if x = 0 then
         on_read (bitstream_read_int64 buf n (sz (bit_index + 2)) 7 (fst out)) out (\<lambda>v. Some (ERR_OK, v, 9)) else
     on_read (bitstream_read_uint64 buf n (sz (bit_index + 2)) 1 0) out (\<lambda>x.
       if x = 0 then
         on_read (bitstream_read_int64 buf n (sz (bit_index + 3)) 9 (fst out)) out (\<lambda>v. Some (ERR_OK, v, 12)) else
     on_read (bitstream_read_uint64 buf n (sz (bit_index + 3)) 1 0) out (\<lambda>x.
       if x = 0 then
         on_read (bitstream_read_int64 buf n (sz (bit_index + 4)) 12 (fst out)) out (\<lambda>v. Some (ERR_OK, v, 16)) else
     on_read (bitstream_read_int64 buf n (sz (bit_index + 4)) 32 (fst out)) out (\<lambda>v. Some (ERR_OK, v, 36))))))"

section \<open>Values\<close>

definition clzll :: "u64 \<Rightarrow> nat" where
  "clzll x = length (takeWhile (\<lambda>k. \<not> bit x (63 - k)) [0..<64])"

definition ctzll :: "u64 \<Rightarrow> nat" where
  "ctzll x = length (takeWhile (\<lambda>k. \<not> bit x k) [0..<64])"

text \<open>State of \<^verbatim>\<open>tsc_write_double\<close>: the buffer, the bit index and the two in/out parameters.\<close>

definition put_bits :: "nat \<Rightarrow> nat \<Rightarrow> u64 \<Rightarrow> mem \<times> nat \<times> u8 \<times> u8 \<Rightarrow> (int \<times> mem \<times> nat \<times> u8 \<times> u8) option" where
  "put_bits n num_bits v st = (case st of (buf, bit_index, ll, ls) \<Rightarrow>
     map_option (\<lambda>(res, buf, bit_index). (res, buf, bit_index, ll, ls))
       (bitstream_write_uint64 buf n bit_index num_bits v bit_index))"

definition leading_zeros :: "u64 \<Rightarrow> int" where
  "leading_zeros x = (if clzll x \<ge> 32 then 31 else int (clzll x))"

definition tsc_write_double ::
  "mem \<Rightarrow> nat \<Rightarrow> nat \<Rightarrow> u64 \<Rightarrow> u8 \<Rightarrow> u8 \<Rightarrow> (int \<times> mem \<times> nat \<times> u8 \<times> u8) option" where
  "tsc_write_double buf n bit_index x ll ls =
     (let st = (buf, bit_index, ll, ls) in
      if x = 0 then put_bits n 1 0 st
      else ensure_res_ok (put_bits n 1 1 st) (\<lambda>st.
        let trailing_zeros = int (ctzll x);
            sig_bits = 64 - leading_zeros x - trailing_zeros;
            last_trailing = 64 - int (unat ll) - int (unat ls);
            bits_if_reset = 5 + 6 + sig_bits
        in if leading_zeros x \<ge> int (unat ll) \<and> trailing_zeros \<ge> last_trailing \<and> bits_if_reset \<ge> int (unat ls)
           then ensure_res_ok (put_bits n 1 0 st) (\<lambda>st. do {
             _ \<leftarrow> c_assert (0 \<le> last_trailing \<and> last_trailing < 64);
             put_bits n (unat ls) (drop_bit (nat last_trailing) x) st })
           else ensure_res_ok (put_bits n 1 1 st) (\<lambda>st. do {
             _ \<leftarrow> c_assert (0 \<le> leading_zeros x \<and> leading_zeros x \<le> 31);
             ensure_res_ok (put_bits n 5 (word_of_int (leading_zeros x)) st) (\<lambda>st. do {
               _ \<leftarrow> c_assert (0 < sig_bits);
               _ \<leftarrow> c_assert (sig_bits \<le> 64);
               ensure_res_ok
                 (if sig_bits = 64 then
                    ensure_res_ok (put_bits n 6 0 st) (\<lambda>st. do {
                      _ \<leftarrow> c_assert (leading_zeros x = 0);
                      _ \<leftarrow> c_assert (trailing_zeros = 0);
                      Some (ERR_OK, st) })
                  else put_bits n 6 (word_of_int sig_bits) st)
                 (\<lambda>st. ensure_res_ok (put_bits n (nat sig_bits) (drop_bit (ctzll x) x) st)
                   (\<lambda>(buf, bit_index, _, _).
                     Some (ERR_OK, buf, bit_index, word_of_int (leading_zeros x), word_of_int sig_bits))) }) })))"

definition shift_left :: "u64 \<Rightarrow> int \<Rightarrow> u64 option" where
  "shift_left x s = (if 0 \<le> s \<and> s < 64 then Some (push_bit (nat s) x) else None)"

definition tsc_read_double ::
  "mem \<Rightarrow> nat \<Rightarrow> nat \<Rightarrow> u64 \<times> nat \<times> u8 \<times> u8 \<Rightarrow> (int \<times> u64 \<times> nat \<times> u8 \<times> u8) option" where
  "tsc_read_double buf n bit_index out = (case out of (val, nbr, ll, ls) \<Rightarrow>
     on_read (bitstream_read_uint64 buf n bit_index 1 0) (val, nbr, ll, ls) (\<lambda>x.
       if x = 0 then Some (ERR_OK, 0, 1, ll, ls) else
     on_read (bitstream_read_uint64 buf n (sz (bit_index + 1)) 1 0) (val, nbr, ll, ls) (\<lambda>x.
       if x = 0 then
         on_read (bitstream_read_uint64 buf n (sz (bit_index + 2)) (unat ls) 0) (val, nbr, ll, ls) (\<lambda>x. do {
           v \<leftarrow> shift_left x (64 - int (unat ls) - int (unat ll));
           Some (ERR_OK, v, 2 + unat ls, ll, ls) })
       else
     on_read (bitstream_read_uint64 buf n (sz (bit_index + 2)) 5 0) (val, nbr, ll, ls) (\<lambda>x.
       let ll = ucast x :: u8 in
     on_read (bitstream_read_uint64 buf n (sz (bit_index + 7)) 6 0) (val, nbr, ll, ls) (\<lambda>x.
       let ls = (if x = 0 then 64 else ucast x :: u8) in
     on_read (bitstream_read_uint64 buf n (sz (bit_index + 13)) (unat ls) 0) (val, nbr, ll, ls) (\<lambda>x. do {
       v \<leftarrow> shift_left x (64 - int (unat ls) - int (unat ll));
       Some (ERR_OK, v, 13 + unat ls, ll, ls) }))))))"

section \<open>Points\<close>

text \<open>
  The three branches of \<^verbatim>\<open>tsc_add\<close> (first point, second point, later points) write a time field and
  a value and then update the header: \<open>tsc_append\<close>, with the time writer, the value and the header
  update as arguments. The buffer is modified in place, so an error keeps what was written.
\<close>

definition tsc_append :: "tsc_header \<Rightarrow> nat \<Rightarrow> (mem \<Rightarrow> nat \<Rightarrow> (int \<times> mem \<times> nat) option) \<Rightarrow> u64 \<Rightarrow>
    (tsc_header \<Rightarrow> tsc_header) \<Rightarrow> u32 \<Rightarrow> (int \<times> tsc_header) option" where
  "tsc_append p n write_time x upd num_pts = do {
     (res, buf, bit_index) \<leftarrow> write_time (drop 4 (tsc_data p)) (unat (num_valid_bits p));
     let p = p\<lparr>tsc_data := take 4 (tsc_data p) @ buf\<rparr>;
     if res \<noteq> ERR_OK then Some (res, p)
     else do {
       (res, buf, bit_index, ll, ls) \<leftarrow> tsc_write_double buf n bit_index x (last_leading p) (last_sigbits p);
       let p = p\<lparr>tsc_data := take 4 (tsc_data p) @ buf, last_leading := ll, last_sigbits := ls\<rparr>;
       if res \<noteq> ERR_OK then Some (res, p)
       else do {
         _ \<leftarrow> c_assert (bit_index \<le> MAX_NUM_VALID_BITS);
         d \<leftarrow> set_TSC_NUM_PTS (tsc_data p) num_pts;
         Some (ERR_OK, upd (p\<lparr>num_valid_bits := of_nat bit_index, tsc_data := d\<rparr>)) } } }"

definition tsc_add :: "tsc_header \<Rightarrow> i64 \<Rightarrow> u64 \<Rightarrow> (int \<times> tsc_header) option" where
  "tsc_add p t y =
     (let n = sz (sz_sub (unat (data_len p)) 4 * 8);
          avail_bits = sz_sub n (unat (num_valid_bits p))
      in if avail_bits < 18 * 8 then Some (ERR_TSC_OUT_OF_SPACE, p)
      else do {
        num_pts \<leftarrow> TSC_NUM_PTS (tsc_data p);
        if num_pts = 0 then
          tsc_append p n (\<lambda>buf bit_index. bitstream_write_int64 buf n bit_index 64 t bit_index) y
            (\<lambda>p. p\<lparr>last_timestamp := t, prev_value := y\<rparr>) 1
        else if sint t \<le> sint (last_timestamp p) then Some (ERR_OUT_OF_ORDER_TIMESTAMP, p)
        else let t_delta = t - last_timestamp p; y_xor = prev_value p XOR y in
        if num_pts = 1 then
          tsc_append p n (\<lambda>buf bit_index. tsc_write_int64 buf n bit_index t_delta) y_xor
            (\<lambda>p. p\<lparr>last_timestamp := t, last_timestamp_delta := t_delta, prev_value := y\<rparr>) 2
        else let t_delta_delta = t_delta - last_timestamp_delta p in
          tsc_append p n (\<lambda>buf bit_index. tsc_write_int64 buf n bit_index t_delta_delta) y_xor
            (\<lambda>p. p\<lparr>last_timestamp := t, last_timestamp_delta := t_delta, prev_value := y\<rparr>) (num_pts + 1) })"

definition tsc_iter_init :: tsc_iter where
  "tsc_iter_init = \<lparr>iter_y = 0, iter_t = 0, iter_i = 0, iter_r = 0, iter_dt = 0,
     iter_last_leading = 0, iter_last_sigbits = 0\<rparr>"

text \<open>
  An error of a reader leaves the iterator with the fields written so far. The local variables that
  are not yet initialised when a reader is called only reach the result if that reader succeeds.
\<close>

definition tsc_iter_next :: "mem \<Rightarrow> tsc_iter \<Rightarrow> (int \<times> tsc_iter) option" where
  "tsc_iter_next data it = do {
     num_pts \<leftarrow> TSC_NUM_PTS data;
     let buf = drop 4 data;
     let num_valid_bits = 9999999999999;
     if iter_i it \<ge> num_pts then Some (ERR_TSC_ITER_DONE, it)
     else if iter_i it = 0 then do {
       (res, t) \<leftarrow> bitstream_read_int64 buf num_valid_bits (iter_r it) 64 0;
       if res \<noteq> ERR_OK then Some (res, it)
       else do {
         let it = it\<lparr>iter_r := sz (iter_r it + 64)\<rparr>;
         (res, y, nbr, ll, ls) \<leftarrow> tsc_read_double buf num_valid_bits (iter_r it)
            (iter_y it, 0, iter_last_leading it, iter_last_sigbits it);
         let it = it\<lparr>iter_y := y, iter_last_leading := ll, iter_last_sigbits := ls\<rparr>;
         if res \<noteq> ERR_OK then Some (res, it)
         else Some (ERR_OK, it\<lparr>iter_r := sz (iter_r it + nbr), iter_dt := 0, iter_t := t,
                iter_i := iter_i it + 1\<rparr>) } }
     else do {
       (res, t, nbr) \<leftarrow> tsc_read_int64 buf num_valid_bits (iter_r it) (0, 0);
       if res \<noteq> ERR_OK then Some (res, it)
       else do {
         let it = it\<lparr>iter_r := sz (iter_r it + nbr)\<rparr>;
         (res, y, nbr, ll, ls) \<leftarrow> tsc_read_double buf num_valid_bits (iter_r it)
            (0, nbr, iter_last_leading it, iter_last_sigbits it);
         let it = it\<lparr>iter_last_leading := ll, iter_last_sigbits := ls\<rparr>;
         if res \<noteq> ERR_OK then Some (res, it)
         else Some (ERR_OK, it\<lparr>iter_r := sz (iter_r it + nbr), iter_dt := iter_dt it + t,
                iter_t := iter_t it + (iter_dt it + t), iter_y := iter_y it XOR y,
                iter_i := iter_i it + 1\<rparr>) } } }"

end
