(* ===== verification/Tsc_Codec.thy ===== *)
theory Tsc_Codec
  imports Tsc
begin

unbundle bit_operations_syntax

text \<open>
  The bit strings that the writers of \<^verbatim>\<open>tsc.c\<close> produce for one time field and one value, and
  the contract \<open>bit_codec\<close> of a writer and a reader of such a field. Both codecs of the program, the
  time deltas and the XORed doubles, are interpretations of the contract; the double codec carries
  the window of significant bits (\<^verbatim>\<open>last_leading\<close>, \<^verbatim>\<open>last_sigbits\<close>) as its state.
\<close>

section \<open>Outcomes of a writer\<close>

text \<open>
  \<open>wr_outcome v buf bs bi bits s s' m\<close>: the result \<open>m\<close> of a writer is either success, with \<open>bits\<close>
  stored at \<open>bi\<close>, the index moved to their end and the state \<open>s'\<close>; or an error code, with the state
  \<open>s\<close> as before. In both cases nothing below \<open>bi\<close> has changed. Success implies that the value is
  valid and that the bits, rounded up to whole words, fit into the buffer; an error implies the
  opposite, and for a valid value it is \<^verbatim>\<open>ERR_BITSTREAM_OUT_OF_SPACE\<close>.
\<close>

abbreviation word_ceil :: "nat \<Rightarrow> nat" where
  "word_ceil i \<equiv> 64 * ((i + 63) div 64)"

lemma word_ceil_mono: "i \<le> j \<Longrightarrow> word_ceil i \<le> word_ceil j"
  by (simp add: div_le_mono)

lemma word_ceil_ge: "i \<le> word_ceil i"
  using div_mult_mod_eq [of "i + 63" 64] mod_less_divisor [of 64 "i + 63"] by linarith

definition wr_outcome :: "bool \<Rightarrow> mem \<Rightarrow> nat \<Rightarrow> nat \<Rightarrow> bool list \<Rightarrow> 's \<Rightarrow> 's \<Rightarrow>
    (int \<times> mem \<times> nat \<times> 's) option \<Rightarrow> bool" where
  "wr_outcome v buf bs bi bits s s' m \<longleftrightarrow>
     (v \<and> word_ceil (bi + length bits) \<le> bs \<and>
       (\<exists>buf'. m = Some (ERR_OK, buf', bi + length bits, s') \<and> has_bits buf' bi bits \<and> same_below bi buf buf')) \<or>
     (\<not> (v \<and> word_ceil (bi + length bits) \<le> bs) \<and>
       (\<exists>res buf' bi'. m = Some (res, buf', bi', s) \<and> res \<noteq> ERR_OK \<and>
         (v \<longrightarrow> res = ERR_BITSTREAM_OUT_OF_SPACE) \<and> same_below bi buf buf'))"

definition add_state :: "'s \<Rightarrow> (int \<times> mem \<times> nat) option \<Rightarrow> (int \<times> mem \<times> nat \<times> 's) option" where
  "add_state s m = map_option (\<lambda>(res, buf, bi). (res, buf, bi, s)) m"

lemma add_state_ensure:
  "add_state s (ensure_res_ok m k) = ensure_res_ok (add_state s m) (\<lambda>(b, i, _). add_state s (k (b, i)))"
  by (auto simp: add_state_def ensure_res_ok_def split: option.splits)

lemma put_bits_add_state:
  "put_bits n k v (buf, bi, ll, ls) = add_state (ll, ls) (bitstream_write_uint64 buf n bi k v bi)"
  by (simp add: put_bits_def add_state_def case_prod_unfold)

lemma wr_outcome_same_below:
  assumes "wr_outcome v buf bs bi bits s s' m" "m = Some (res, buf', r)"
  shows "same_below bi buf buf'"
  using assms by (auto simp: wr_outcome_def)

lemma write_uint64_outcome:
  assumes "1 \<le> n" "n \<le> 64" "bi + n \<le> 2 ^ 62" "bs \<le> 8 * length buf"
  shows "wr_outcome (unat v < 2 ^ n) buf bs bi (nbits n v) s s
    (add_state s (bitstream_write_uint64 buf bs bi n v bi))"
proof -
  have w: "1 \<le> n \<and> n \<le> 64" using assms by simp
  show ?thesis
    by (rule ub.wr_cases [OF w assms(3,4), of v bi])
       (auto simp: wr_outcome_def add_state_def err_defs)
qed

lemma write_int64_outcome:
  assumes "1 < n" "n \<le> 32 \<or> n = 64" "bi + n \<le> 2 ^ 62" "bs \<le> 8 * length buf"
  shows "wr_outcome (int_fits n v) buf bs bi (nbits n v) s s
    (add_state s (bitstream_write_int64 buf bs bi n v bi))"
proof -
  have w: "1 < n \<and> (n \<le> 32 \<or> n = 64)" using assms by simp
  show ?thesis
    by (rule sb.wr_cases [OF w assms(3,4), of v bi])
       (auto simp: wr_outcome_def add_state_def err_defs)
qed

text \<open>Two writers in sequence, the second started where the first one stopped.\<close>

lemma wr_outcome_seq:
  assumes m: "wr_outcome v buf bs bi bits s s1 m"
    and k: "\<And>buf'. length buf' = length buf \<Longrightarrow> word_ceil (bi + length bits) \<le> bs \<Longrightarrow>
      wr_outcome v' buf' bs (bi + length bits) bits' s1 s' (k (buf', bi + length bits, s1))"
    and same: "v' = False \<or> bs < word_ceil (bi + length bits + length bits') \<Longrightarrow> s1 = s"
  shows "wr_outcome (v \<and> v') buf bs bi (bits @ bits') s s' (ensure_res_ok m k)"
proof (cases "v \<and> word_ceil (bi + length bits) \<le> bs")
  case True
  with m obtain buf1 where 1: "m = Some (ERR_OK, buf1, bi + length bits, s1)" "has_bits buf1 bi bits"
    "same_below bi buf buf1" by (auto simp: wr_outcome_def)
  note k1 = k [OF same_below_length [OF 1(3)] conjunct2 [OF True]]
  show ?thesis
  proof (cases "v' \<and> word_ceil (bi + length bits + length bits') \<le> bs")
    case t: True
    with k1 obtain buf2 where 2: "k (buf1, bi + length bits, s1) =
        Some (ERR_OK, buf2, bi + length bits + length bits', s')"
      "has_bits buf2 (bi + length bits) bits'" "same_below (bi + length bits) buf1 buf2"
      by (auto simp: wr_outcome_def)
    have "has_bits buf2 bi bits" using has_bits_same_below [OF 2(3)] 1(2) by simp
    moreover have "same_below bi buf buf2" using same_below_trans [OF 1(3) 2(3)] by simp
    ultimately show ?thesis using 1 2 True t
      by (simp add: wr_outcome_def has_bits_append add.assoc)
  next
    case f: False
    with k1 obtain res buf2 bi2 where 2: "k (buf1, bi + length bits, s1) = Some (res, buf2, bi2, s1)"
      "res \<noteq> ERR_OK" "same_below (bi + length bits) buf1 buf2" "v' \<longrightarrow> res = ERR_BITSTREAM_OUT_OF_SPACE"
      by (auto simp: wr_outcome_def)
    moreover have "same_below bi buf buf2" using same_below_trans [OF 1(3) 2(3)] by simp
    moreover have "s1 = s" using same f by auto
    ultimately show ?thesis using 1 2 True f by (auto simp: wr_outcome_def add.assoc)
  qed
next
  case False
  with m obtain res buf1 bi1 where "m = Some (res, buf1, bi1, s)" "res \<noteq> ERR_OK" "same_below bi buf buf1"
      "v \<longrightarrow> res = ERR_BITSTREAM_OUT_OF_SPACE" by (auto simp: wr_outcome_def)
  moreover have "\<not> (v \<and> v' \<and> word_ceil (bi + (length bits + length bits')) \<le> bs)"
    using False word_ceil_mono [of "bi + length bits" "bi + (length bits + length bits')"] by linarith
  ultimately show ?thesis by (auto simp: wr_outcome_def)
qed

section \<open>Time deltas\<close>

text \<open>The bit string of a time delta: a unary prefix selects a field of 0, 7, 9, 12 or 32 bits.\<close>

definition code_int :: "i64 \<Rightarrow> bool list" where
  "code_int x = (if x = 0 then [False]
     else if - 64 \<le> sint x \<and> sint x \<le> 63 then [True, False] @ nbits 7 x
     else if - 256 \<le> sint x \<and> sint x \<le> 255 then [True, True, False] @ nbits 9 x
     else if - 2048 \<le> sint x \<and> sint x \<le> 2047 then [True, True, True, False] @ nbits 12 x
     else [True, True, True, True] @ nbits 32 x)"

lemma length_code_int: "1 \<le> length (code_int x)" "length (code_int x) \<le> 36"
  by (simp_all add: code_int_def)

lemma prefix_bits:
  "nbits (Suc 0) (0 :: u64) = [False]" "nbits 1 (1 :: u64) = [True]" "nbits 2 (1 :: u64) = [True, False]"
  "nbits 3 (3 :: u64) = [True, True, False]" "nbits 4 (7 :: u64) = [True, True, True, False]"
  "nbits 4 (15 :: u64) = [True, True, True, True]"
  by (simp_all add: nbits_def upt_conv_Cons eval_nat_numeral bit_simps)

lemma prefixed_int_outcome:
  assumes "1 \<le> k" "k \<le> 4" "unat pre < 2 ^ k" "1 < n" "n \<le> 32" "bi + 36 \<le> 2 ^ 62" "bs \<le> 8 * length buf"
  shows "wr_outcome (int_fits n x) buf bs bi (nbits k pre @ nbits n x) () ()
    (add_state () (ensure_res_ok (bitstream_write_uint64 buf bs bi k pre bi)
       (\<lambda>(buf, bi). bitstream_write_int64 buf bs bi n x bi)))"
proof -
  have "wr_outcome (unat pre < 2 ^ k \<and> int_fits n x) buf bs bi (nbits k pre @ nbits n x) () ()
    (ensure_res_ok (add_state () (bitstream_write_uint64 buf bs bi k pre bi))
      (\<lambda>(b, i, _). add_state () (case (b, i) of (buf, bi) \<Rightarrow> bitstream_write_int64 buf bs bi n x bi)))"
    by (rule wr_outcome_seq [OF write_uint64_outcome])
       (use assms in \<open>auto intro!: write_int64_outcome\<close>)
  then show ?thesis using assms by (simp add: add_state_ensure)
qed

lemma tsc_write_int64_outcome:
  assumes "bi + 36 \<le> 2 ^ 62" "bs \<le> 8 * length buf"
  shows "wr_outcome (int_fits 32 x) buf bs bi (code_int x) () () (add_state () (tsc_write_int64 buf bs bi x))"
proof -
  consider (z) "x = 0" | (a) "x \<noteq> 0" "- 64 \<le> sint x \<and> sint x \<le> 63"
    | (b) "x \<noteq> 0" "\<not> (- 64 \<le> sint x \<and> sint x \<le> 63)" "- 256 \<le> sint x \<and> sint x \<le> 255"
    | (c) "x \<noteq> 0" "\<not> (- 64 \<le> sint x \<and> sint x \<le> 63)" "\<not> (- 256 \<le> sint x \<and> sint x \<le> 255)"
        "- 2048 \<le> sint x \<and> sint x \<le> 2047"
    | (d) "x \<noteq> 0" "\<not> (- 64 \<le> sint x \<and> sint x \<le> 63)" "\<not> (- 256 \<le> sint x \<and> sint x \<le> 255)"
        "\<not> (- 2048 \<le> sint x \<and> sint x \<le> 2047)" by blast
  then show ?thesis
  proof cases
    case z
    then show ?thesis using write_uint64_outcome [of 1 bi bs buf 0 "()"] assms
      by (simp add: tsc_write_int64_def code_int_def prefix_bits int_fits_def)
  next
    case a
    then have "int_fits 7 x" "int_fits 32 x" by (auto simp: int_fits_def)
    with a show ?thesis using prefixed_int_outcome [of 2 1 7 bi bs buf x] assms
      by (simp add: tsc_write_int64_def code_int_def prefix_bits)
  next
    case b
    then have "int_fits 9 x" "int_fits 32 x" by (auto simp: int_fits_def)
    with b show ?thesis using prefixed_int_outcome [of 3 3 9 bi bs buf x] assms
      by (auto simp: tsc_write_int64_def code_int_def prefix_bits)
  next
    case c
    then have "int_fits 12 x" "int_fits 32 x" by (auto simp: int_fits_def)
    with c show ?thesis using prefixed_int_outcome [of 4 7 12 bi bs buf x] assms
      by (auto simp: tsc_write_int64_def code_int_def prefix_bits)
  next
    case d
    then show ?thesis using prefixed_int_outcome [of 4 15 32 bi bs buf x] assms
      by (auto simp: tsc_write_int64_def code_int_def prefix_bits)
  qed
qed

text \<open>Reading: \<open>rd_room\<close> says that the words that hold the bits below \<open>e\<close> are inside the buffer.\<close>

definition rd_room :: "mem \<Rightarrow> nat \<Rightarrow> nat \<Rightarrow> bool" where
  "rd_room buf bs e \<longleftrightarrow> e \<le> bs \<and> e \<le> 2 ^ 62 \<and> word_ceil e \<le> 8 * length buf"

lemma rd_room_mono: "rd_room buf bs e \<Longrightarrow> d \<le> e \<Longrightarrow> rd_room buf bs d"
  using word_ceil_mono [of d e] by (auto simp: rd_room_def)

lemma has_bits_Cons: "has_bits m i (b # bs) \<longleftrightarrow> bit_at m i = b \<and> has_bits m (i + 1) bs"
  using has_bits_append [of m i "[b]" bs] by (simp add: has_bits_def)

lemma read_bit:
  assumes "rd_room buf bs (bi + 1)"
  shows "bitstream_read_uint64 buf bs bi 1 v0 = Some (ERR_OK, of_bool (bit_at buf bi))"
proof -
  have "has_bits buf bi (nbits 1 (of_bool (bit_at buf bi) :: u64))"
    by (simp add: has_bits_def nbits_def)
  with bitstream_read_uint64_has_bits [of 1 bi bs buf "of_bool (bit_at buf bi)" v0] assms
  show ?thesis by (simp add: rd_room_def)
qed

lemma read_uint64_field:
  assumes "has_bits buf bi (nbits n v)" "unat v < 2 ^ n" "1 \<le> n" "n \<le> 64" "rd_room buf bs (bi + n)"
  shows "bitstream_read_uint64 buf bs bi n v0 = Some (ERR_OK, v)"
  using bitstream_read_uint64_has_bits [of n bi bs buf v v0] assms by (simp add: rd_room_def)

lemma read_int64_field:
  assumes "has_bits buf bi (nbits n v)" "int_fits n v" "1 < n" "n \<le> 32 \<or> n = 64" "rd_room buf bs (bi + n)"
  shows "bitstream_read_int64 buf bs bi n v0 = Some (ERR_OK, v)"
  using bitstream_read_int64_has_bits [of n bi bs buf v v0] assms by (simp add: rd_room_def)

lemma tsc_read_int64_ok:
  assumes hb: "has_bits buf bi (code_int x)" and v: "int_fits 32 x" and room: "rd_room buf bs (bi + length (code_int x))"
  shows "tsc_read_int64 buf bs bi out = Some (ERR_OK, x, length (code_int x))"
proof -
  note r = rd_room_mono [OF room]
  have s: "sz (bi + 1) = bi + 1" "sz (bi + 2) = bi + 2" "sz (bi + 3) = bi + 3" "sz (bi + 4) = bi + 4"
    using room by (simp_all add: rd_room_def)
  note rules = tsc_read_int64_def has_bits_Cons read_bit s read_int64_field [where v = x] add.assoc
  have b1: "rd_room buf bs (bi + 1)" using length_code_int(1) [of x] by (intro r) simp
  consider (z) "x = 0" | (a) "x \<noteq> 0" "- 64 \<le> sint x \<and> sint x \<le> 63"
    | (b) "x \<noteq> 0" "\<not> (- 64 \<le> sint x \<and> sint x \<le> 63)" "- 256 \<le> sint x \<and> sint x \<le> 255"
    | (c) "x \<noteq> 0" "\<not> (- 64 \<le> sint x \<and> sint x \<le> 63)" "\<not> (- 256 \<le> sint x \<and> sint x \<le> 255)"
        "- 2048 \<le> sint x \<and> sint x \<le> 2047"
    | (d) "x \<noteq> 0" "\<not> (- 64 \<le> sint x \<and> sint x \<le> 63)" "\<not> (- 256 \<le> sint x \<and> sint x \<le> 255)"
        "\<not> (- 2048 \<le> sint x \<and> sint x \<le> 2047)" by blast
  then show ?thesis
  proof cases
    case z
    with hb b1 show ?thesis by (simp add: code_int_def rules del: One_nat_def add_2_eq_Suc add_2_eq_Suc')
  next
    case a
    then have e: "code_int x = [True, False] @ nbits 7 x" by (simp add: code_int_def)
    have "rd_room buf bs (bi + 2)" "rd_room buf bs (bi + 9)" by (rule r; simp add: e)+
    moreover have "int_fits 7 x" using a by (auto simp: int_fits_def)
    ultimately show ?thesis using hb b1
      by (simp add: e rules del: One_nat_def add_2_eq_Suc add_2_eq_Suc')
  next
    case b
    then have e: "code_int x = [True, True, False] @ nbits 9 x" by (auto simp add: code_int_def)
    have "rd_room buf bs (bi + 2)" "rd_room buf bs (bi + 3)" "rd_room buf bs (bi + 12)"
      by (rule r; simp add: e)+
    moreover have "int_fits 9 x" using b by (auto simp: int_fits_def)
    ultimately show ?thesis using hb b1
      by (simp add: e rules del: One_nat_def add_2_eq_Suc add_2_eq_Suc')
  next
    case c
    then have e: "code_int x = [True, True, True, False] @ nbits 12 x" by (auto simp add: code_int_def)
    have "rd_room buf bs (bi + 2)" "rd_room buf bs (bi + 3)"
      "rd_room buf bs (bi + 4)" "rd_room buf bs (bi + 16)" by (rule r; simp add: e)+
    moreover have "int_fits 12 x" using c by (auto simp: int_fits_def)
    ultimately show ?thesis using hb b1
      by (simp add: e rules del: One_nat_def add_2_eq_Suc add_2_eq_Suc')
  next
    case d
    then have e: "code_int x = [True, True, True, True] @ nbits 32 x" by (auto simp add: code_int_def)
    have "rd_room buf bs (bi + 2)" "rd_room buf bs (bi + 3)"
      "rd_room buf bs (bi + 4)" "rd_room buf bs (bi + 36)" by (rule r; simp add: e)+
    then show ?thesis using hb b1 v
      by (simp add: e rules del: One_nat_def add_2_eq_Suc add_2_eq_Suc')
  qed
qed

section \<open>Leading and trailing zeros\<close>

lemma length_takeWhile_upt:
  "length (takeWhile P [0..<n]) \<le> n"
  "k < length (takeWhile P [0..<n]) \<Longrightarrow> P k"
  "length (takeWhile P [0..<n]) < n \<Longrightarrow> \<not> P (length (takeWhile P [0..<n]))"
proof -
  show "length (takeWhile P [0..<n]) \<le> n" using length_takeWhile_le [of P "[0..<n]"] by simp
  show "P k" if k: "k < length (takeWhile P [0..<n])"
  proof -
    have "takeWhile P [0..<n] ! k = [0..<n] ! k" using k by (rule takeWhile_nth)
    moreover have "k < n" using k length_takeWhile_le [of P "[0..<n]"] by simp
    ultimately show ?thesis using nth_mem [OF k] set_takeWhileD [of _ P] by fastforce
  qed
  show "length (takeWhile P [0..<n]) < n \<Longrightarrow> \<not> P (length (takeWhile P [0..<n]))"
    using nth_length_takeWhile [of P "[0..<n]"] by simp
qed

lemma ctzll_le_bit: "bit x k \<Longrightarrow> ctzll x \<le> k"
  by (rule ccontr) (use length_takeWhile_upt(2) [of k "\<lambda>k. \<not> bit x k" 64] in \<open>simp add: ctzll_def not_le\<close>)

lemma bit_le_clzll: "bit x k \<Longrightarrow> clzll x \<le> 63 - k"
  by (rule ccontr) (use length_takeWhile_upt(2) [of "63 - k" "\<lambda>k. \<not> bit x (63 - k)" 64]
    bit_imp_le_length [of x k] in \<open>simp add: clzll_def not_le\<close>)

lemma clzll_ctzll_sum:
  assumes "x \<noteq> 0"
  shows "clzll x + ctzll x \<le> 63"
proof -
  obtain k where k: "bit x k" using assms bit_eq_iff [of x 0] by auto
  then have "ctzll x \<le> k" "clzll x \<le> 63 - k" "k < 64"
    using ctzll_le_bit [OF k] bit_le_clzll [OF k] bit_imp_le_length [OF k] by auto
  then show ?thesis by simp
qed

lemma no_bits_clzll: "bit x k \<Longrightarrow> n \<le> clzll x \<Longrightarrow> n \<le> 64 \<Longrightarrow> k < 64 - n"
  using bit_le_clzll [of x k] bit_imp_le_length [of x k] by auto

section \<open>Doubles\<close>

text \<open>
  The window of significant bits: \<open>lead x\<close> leading zeros (at most 31 are recorded), \<open>sig x\<close>
  significant bits, and \<open>ctzll x\<close> trailing zeros make up the 64 bits. A value that lies inside the
  previous window, and would not be cheaper with a window of its own, is written with the previous one.
\<close>

definition lead :: "u64 \<Rightarrow> nat" where
  "lead x = (if clzll x \<ge> 32 then 31 else clzll x)"

definition sig :: "u64 \<Rightarrow> nat" where
  "sig x = 64 - lead x - ctzll x"

definition in_window :: "u8 \<times> u8 \<Rightarrow> u64 \<Rightarrow> bool" where
  "in_window w x = (case w of (ll, ls) \<Rightarrow>
     unat ll \<le> lead x \<and> 64 \<le> unat ll + unat ls + ctzll x \<and> unat ls \<le> 11 + sig x)"

definition code_dbl :: "u8 \<times> u8 \<Rightarrow> u64 \<Rightarrow> bool list" where
  "code_dbl w x = (case w of (ll, ls) \<Rightarrow>
     if x = 0 then [False]
     else if in_window w x then [True] @ [False] @ nbits (unat ls) (drop_bit (64 - unat ll - unat ls) x)
     else [True] @ [True] @ nbits 5 (of_nat (lead x) :: u64) @ nbits 6 (of_nat (sig x mod 64) :: u64) @
       nbits (sig x) (drop_bit (ctzll x) x))"

definition next_dbl :: "u8 \<times> u8 \<Rightarrow> u64 \<Rightarrow> u8 \<times> u8" where
  "next_dbl w x = (if x = 0 \<or> in_window w x then w else (of_nat (lead x), of_nat (sig x)))"

definition good_window :: "u8 \<times> u8 \<Rightarrow> bool" where
  "good_window w = (case w of (ll, ls) \<Rightarrow> unat ll + unat ls \<le> 64)"

lemma leading_zeros_lead: "leading_zeros x = int (lead x)"
  by (simp add: leading_zeros_def lead_def)

lemma lead_bounds: "lead x \<le> 31" "lead x \<le> clzll x"
  by (simp_all add: lead_def)

lemma sig_facts:
  assumes "x \<noteq> 0"
  shows "1 \<le> sig x" "sig x \<le> 64" "lead x + sig x + ctzll x = 64" "64 - int (lead x) - int (ctzll x) = int (sig x)"
  using clzll_ctzll_sum [OF assms] lead_bounds [of x] by (auto simp: sig_def)

lemma good_next_dbl: "good_window w \<Longrightarrow> good_window (next_dbl w x)"
proof (cases "x = 0")
  case False
  then show "good_window w \<Longrightarrow> good_window (next_dbl w x)"
    using sig_facts [OF False] lead_bounds [of x]
    by (auto simp: good_window_def next_dbl_def unat_of_nat)
qed (simp add: next_dbl_def)

lemma window_facts:
  assumes "x \<noteq> 0" "good_window (ll, ls)" "in_window (ll, ls) x"
  shows "1 \<le> unat ls" "unat ls \<le> 64" "64 - unat ll - unat ls < 64"
    "64 - unat ll - unat ls \<le> ctzll x" "unat (drop_bit (64 - unat ll - unat ls) x) < 2 ^ unat ls"
    "push_bit (64 - unat ll - unat ls) (drop_bit (64 - unat ll - unat ls) x) = x"
proof -
  have b: "unat ll \<le> lead x" "64 \<le> unat ll + unat ls + ctzll x" "unat ll + unat ls \<le> 64"
    using assms by (simp_all add: in_window_def good_window_def)
  show "1 \<le> unat ls" "unat ls \<le> 64" "64 - unat ll - unat ls < 64" "64 - unat ll - unat ls \<le> ctzll x"
    using b clzll_ctzll_sum [OF assms(1)] lead_bounds [of x] by linarith+
  have k: "k < 64 - unat ll" if "bit x k" for k
    using no_bits_clzll [OF that, of "unat ll"] b lead_bounds [of x] by linarith
  show "unat (drop_bit (64 - unat ll - unat ls) x) < 2 ^ unat ls"
    using k b by (fastforce simp: unat_less_exp_bit bit_drop_bit_eq)
  have "64 - unat ll - unat ls \<le> k" if "bit x k" for k
    using ctzll_le_bit [OF that] b by linarith
  then show "push_bit (64 - unat ll - unat ls) (drop_bit (64 - unat ll - unat ls) x) = x"
    by (intro bit_word_eqI) (auto simp: bit_push_bit_iff bit_drop_bit_eq)
qed

lemma reset_facts:
  assumes "x \<noteq> 0"
  shows "unat (drop_bit (ctzll x) x) < 2 ^ sig x" "push_bit (ctzll x) (drop_bit (ctzll x) x) = x"
    "unat (of_nat (lead x) :: u64) < 2 ^ 5" "unat (of_nat (sig x mod 64) :: u64) < 2 ^ 6"
proof -
  have k: "k < sig x + ctzll x" if "bit x k" for k
    using no_bits_clzll [OF that lead_bounds(2)] sig_facts [OF assms] lead_bounds [of x] by linarith
  then show "unat (drop_bit (ctzll x) x) < 2 ^ sig x"
    by (fastforce simp: unat_less_exp_bit bit_drop_bit_eq)
  show "push_bit (ctzll x) (drop_bit (ctzll x) x) = x"
    using ctzll_le_bit [of x] by (intro bit_word_eqI) (auto simp: bit_push_bit_iff bit_drop_bit_eq)
  show "unat (of_nat (lead x) :: u64) < 2 ^ 5" using lead_bounds [of x] by (simp add: unat_of_nat)
  show "unat (of_nat (sig x mod 64) :: u64) < 2 ^ 6" by (simp add: unat_of_nat)
qed

lemma length_code_dbl:
  assumes "good_window w"
  shows "1 \<le> length (code_dbl w x)" "length (code_dbl w x) \<le> 77"
proof -
  obtain ll ls where w: "w = (ll, ls)" by (cases w)
  show "1 \<le> length (code_dbl w x)" by (simp add: code_dbl_def w)
  show "length (code_dbl w x) \<le> 77"
    using assms sig_facts(2) [of x] by (auto simp: code_dbl_def w good_window_def)
qed

text \<open>The two branches of \<^verbatim>\<open>tsc_write_double\<close> for a value other than zero.\<close>

lemma put_bits_outcome:
  assumes "1 \<le> k" "k \<le> 64" "bi + k \<le> 2 ^ 62" "bs \<le> 8 * length buf"
  shows "wr_outcome (unat v < 2 ^ k) buf bs bi (nbits k v) (ll, ls) (ll, ls) (put_bits bs k v (buf, bi, ll, ls))"
  unfolding put_bits_add_state using write_uint64_outcome [OF assms] .

lemma put_bit_outcome:
  assumes "bi + 1 \<le> 2 ^ 62" "bs \<le> 8 * length buf"
  shows "wr_outcome True buf bs bi [b] (ll, ls) (ll, ls) (put_bits bs 1 (of_bool b) (buf, bi, ll, ls))"
proof -
  have "nbits 1 (of_bool b :: u64) = [b]" by (simp add: nbits_def)
  moreover have "unat (of_bool b :: u64) < 2 ^ 1" by (cases b) simp_all
  ultimately show ?thesis using put_bits_outcome [of 1 bi bs buf "of_bool b" ll ls] assms by simp
qed

lemma wr_outcome_return:
  "word_ceil bi \<le> bs \<Longrightarrow> wr_outcome True buf bs bi [] s s' (Some (ERR_OK, buf, bi, s'))"
  by (simp add: wr_outcome_def)

lemma write_window_outcome:
  assumes x: "x \<noteq> 0" "good_window (ll, ls)" "in_window (ll, ls) x"
    and "bi + 77 \<le> 2 ^ 62" "bs \<le> 8 * length buf"
  shows "wr_outcome True buf bs bi ([False] @ nbits (unat ls) (drop_bit (64 - unat ll - unat ls) x)) (ll, ls) (ll, ls)
    (ensure_res_ok (put_bits bs 1 0 (buf, bi, ll, ls)) (\<lambda>st. put_bits bs (unat ls) (drop_bit (64 - unat ll - unat ls) x) st))"
proof -
  note w = window_facts [OF x]
  have "wr_outcome (True \<and> unat (drop_bit (64 - unat ll - unat ls) x) < 2 ^ unat ls) buf bs bi
    ([False] @ nbits (unat ls) (drop_bit (64 - unat ll - unat ls) x)) (ll, ls) (ll, ls)
    (ensure_res_ok (put_bits bs 1 (of_bool False) (buf, bi, ll, ls)) (\<lambda>st. put_bits bs (unat ls) (drop_bit (64 - unat ll - unat ls) x) st))"
    by (rule wr_outcome_seq [OF put_bit_outcome put_bits_outcome]) (use w assms in auto)
  then show ?thesis using w by simp
qed

lemma write_reset_outcome:
  assumes x: "x \<noteq> 0" and "bi + 77 \<le> 2 ^ 62" "bs \<le> 8 * length buf"
  defines "new \<equiv> (of_nat (lead x), of_nat (sig x)) :: u8 \<times> u8"
  shows "wr_outcome True buf bs bi ([True] @ nbits 5 (of_nat (lead x) :: u64) @
      nbits 6 (of_nat (sig x mod 64) :: u64) @ nbits (sig x) (drop_bit (ctzll x) x)) (ll, ls) new
    (ensure_res_ok (put_bits bs 1 1 (buf, bi, ll, ls)) (\<lambda>st.
      ensure_res_ok (put_bits bs 5 (of_nat (lead x)) st) (\<lambda>st.
      ensure_res_ok (put_bits bs 6 (of_nat (sig x mod 64)) st) (\<lambda>st.
      ensure_res_ok (put_bits bs (sig x) (drop_bit (ctzll x) x) st)
        (\<lambda>(buf, bi, _, _). Some (ERR_OK, buf, bi, new))))))"
proof -
  note r = reset_facts [OF x] and sg = sig_facts [OF x]
  have 4: "wr_outcome (unat (drop_bit (ctzll x) x) < 2 ^ sig x \<and> True) buf' bs i (nbits (sig x) (drop_bit (ctzll x) x) @ []) (ll, ls) new
      (ensure_res_ok (put_bits bs (sig x) (drop_bit (ctzll x) x) (buf', i, ll, ls))
        (\<lambda>(buf, bi, _, _). Some (ERR_OK, buf, bi, new)))"
    if "length buf' = length buf" "i \<le> bi + 13" for buf' i
    by (rule wr_outcome_seq [OF put_bits_outcome]) (use that assms sg in \<open>auto intro: wr_outcome_return\<close>)
  have 3: "wr_outcome (unat (of_nat (sig x mod 64) :: u64) < 2 ^ 6 \<and> True) buf' bs i
      (nbits 6 (of_nat (sig x mod 64) :: u64) @ nbits (sig x) (drop_bit (ctzll x) x)) (ll, ls) new
      (ensure_res_ok (put_bits bs 6 (of_nat (sig x mod 64)) (buf', i, ll, ls)) (\<lambda>st.
        ensure_res_ok (put_bits bs (sig x) (drop_bit (ctzll x) x) st)
        (\<lambda>(buf, bi, _, _). Some (ERR_OK, buf, bi, new))))"
    if "length buf' = length buf" "i \<le> bi + 6" for buf' i
    by (rule wr_outcome_seq [OF put_bits_outcome]) (use that assms sg r 4 in auto)
  have 2: "wr_outcome (unat (of_nat (lead x) :: u64) < 2 ^ 5 \<and> True) buf' bs i
      (nbits 5 (of_nat (lead x) :: u64) @ nbits 6 (of_nat (sig x mod 64) :: u64) @ nbits (sig x) (drop_bit (ctzll x) x)) (ll, ls) new
      (ensure_res_ok (put_bits bs 5 (of_nat (lead x)) (buf', i, ll, ls)) (\<lambda>st.
        ensure_res_ok (put_bits bs 6 (of_nat (sig x mod 64)) st) (\<lambda>st.
        ensure_res_ok (put_bits bs (sig x) (drop_bit (ctzll x) x) st)
        (\<lambda>(buf, bi, _, _). Some (ERR_OK, buf, bi, new)))))"
    if "length buf' = length buf" "i \<le> bi + 1" for buf' i
    by (rule wr_outcome_seq [OF put_bits_outcome]) (use that assms r 3 in auto)
  have "wr_outcome (True \<and> True) buf bs bi ([True] @ nbits 5 (of_nat (lead x) :: u64) @
      nbits 6 (of_nat (sig x mod 64) :: u64) @ nbits (sig x) (drop_bit (ctzll x) x)) (ll, ls) new
    (ensure_res_ok (put_bits bs 1 (of_bool True) (buf, bi, ll, ls)) (\<lambda>st.
      ensure_res_ok (put_bits bs 5 (of_nat (lead x)) st) (\<lambda>st.
      ensure_res_ok (put_bits bs 6 (of_nat (sig x mod 64)) st) (\<lambda>st.
      ensure_res_ok (put_bits bs (sig x) (drop_bit (ctzll x) x) st)
        (\<lambda>(buf, bi, _, _). Some (ERR_OK, buf, bi, new))))))"
    by (rule wr_outcome_seq [OF put_bit_outcome]) (use assms r 2 in auto)
  then show ?thesis by simp
qed

text \<open>The assertions of \<^verbatim>\<open>tsc_write_double\<close> hold, and its shift amounts are in range.\<close>

lemma ensure_res_ok_return: "ensure_res_ok m (\<lambda>st. Some (ERR_OK, st)) = m"
  by (auto simp: ensure_res_ok_def split: option.splits)

lemma in_window_code:
  assumes "x \<noteq> 0"
  shows "leading_zeros x \<ge> int (unat ll) \<and> int (ctzll x) \<ge> 64 - int (unat ll) - int (unat ls) \<and>
    5 + 6 + (64 - leading_zeros x - int (ctzll x)) \<ge> int (unat ls) \<longleftrightarrow> in_window (ll, ls) x"
  using sig_facts(4) [OF assms] unfolding leading_zeros_lead in_window_def prod.case by (safe; linarith)

lemma tsc_write_double_window:
  assumes x: "x \<noteq> 0" "good_window (ll, ls)" "in_window (ll, ls) x"
  shows "tsc_write_double buf n bi x ll ls = ensure_res_ok (put_bits n 1 1 (buf, bi, ll, ls)) (\<lambda>st.
    ensure_res_ok (put_bits n 1 0 st) (\<lambda>st. put_bits n (unat ls) (drop_bit (64 - unat ll - unat ls) x) st))"
proof -
  have t: "0 \<le> 64 - int (unat ll) - int (unat ls)" "64 - int (unat ll) - int (unat ls) < 64"
    "nat (64 - int (unat ll) - int (unat ls)) = 64 - unat ll - unat ls"
    using x(2) window_facts(3) [OF x] unfolding good_window_def prod.case by linarith+
  show ?thesis
    unfolding tsc_write_double_def Let_def in_window_code [OF x(1)] using x t by simp
qed

lemma tsc_write_double_reset:
  assumes x: "x \<noteq> 0" "\<not> in_window (ll, ls) x"
  shows "tsc_write_double buf n bi x ll ls = ensure_res_ok (put_bits n 1 1 (buf, bi, ll, ls)) (\<lambda>st.
    ensure_res_ok (put_bits n 1 1 st) (\<lambda>st.
      ensure_res_ok (put_bits n 5 (of_nat (lead x)) st) (\<lambda>st.
      ensure_res_ok (put_bits n 6 (of_nat (sig x mod 64)) st) (\<lambda>st.
      ensure_res_ok (put_bits n (sig x) (drop_bit (ctzll x) x) st)
        (\<lambda>(buf, bi, _, _). Some (ERR_OK, buf, bi, of_nat (lead x), of_nat (sig x)))))))"
proof -
  note sg = sig_facts [OF x(1)] and l = lead_bounds [of x]
  have six: "ensure_res_ok (if int (sig x) = 64 then ensure_res_ok (put_bits n 6 0 st) (\<lambda>st. do {
                      _ \<leftarrow> c_assert (int (lead x) = 0);
                      _ \<leftarrow> c_assert (int (ctzll x) = 0);
                      Some (ERR_OK, st) })
                  else put_bits n 6 (word_of_int (int (sig x))) st) k =
      ensure_res_ok (put_bits n 6 (of_nat (sig x mod 64)) st) k" for st k
  proof (cases "sig x = 64")
    case True
    then have "lead x = 0" "ctzll x = 0" using sg by auto
    with True show ?thesis by (simp add: ensure_res_ok_return)
  next
    case False
    then have "sig x mod 64 = sig x" using sg by simp
    with False show ?thesis by simp
  qed
  have a: "0 < int (sig x)" "int (sig x) \<le> 64" using sg by auto
  show ?thesis
    unfolding tsc_write_double_def Let_def in_window_code [OF x(1)]
    unfolding leading_zeros_lead sg(4) six using x a l(1) by simp
qed

lemma tsc_write_double_outcome:
  assumes w: "good_window (ll, ls)" and b: "bi + 80 \<le> 2 ^ 62" "bs \<le> 8 * length buf"
  shows "wr_outcome True buf bs bi (code_dbl (ll, ls) x) (ll, ls) (next_dbl (ll, ls) x)
    (tsc_write_double buf bs bi x ll ls)"
proof -
  have one: "wr_outcome True buf bs bi [True] (ll, ls) (ll, ls) (put_bits bs 1 1 (buf, bi, ll, ls))"
    using put_bit_outcome [of bi bs buf True ll ls] b by simp
  consider (z) "x = 0" | (win) "x \<noteq> 0" "in_window (ll, ls) x" | (reset) "x \<noteq> 0" "\<not> in_window (ll, ls) x"
    by blast
  then show ?thesis
  proof cases
    case z
    then show ?thesis using put_bit_outcome [of bi bs buf False ll ls] b
      by (simp add: tsc_write_double_def code_dbl_def next_dbl_def)
  next
    case win
    have "wr_outcome (True \<and> True) buf bs bi ([True] @ [False] @ nbits (unat ls) (drop_bit (64 - unat ll - unat ls) x))
        (ll, ls) (ll, ls) (tsc_write_double buf bs bi x ll ls)"
      unfolding tsc_write_double_window [OF win(1) w win(2)]
      by (rule wr_outcome_seq [OF one write_window_outcome [OF win(1) w win(2)]])
         (use b in auto)
    with win show ?thesis by (simp add: code_dbl_def next_dbl_def)
  next
    case reset
    have "wr_outcome (True \<and> True) buf bs bi ([True] @ [True] @ nbits 5 (of_nat (lead x) :: u64) @
          nbits 6 (of_nat (sig x mod 64) :: u64) @ nbits (sig x) (drop_bit (ctzll x) x))
        (ll, ls) (of_nat (lead x), of_nat (sig x)) (tsc_write_double buf bs bi x ll ls)"
      unfolding tsc_write_double_reset [OF reset]
      by (rule wr_outcome_seq [OF one write_reset_outcome [OF reset(1)]])
         (use b in auto)
    with reset show ?thesis by (simp add: code_dbl_def next_dbl_def)
  qed
qed

lemma shift_left_ok: "lt < 64 \<Longrightarrow> int lt = s \<Longrightarrow> shift_left x s = Some (push_bit lt x)"
  by (auto simp: shift_left_def)

lemma ucast_small_nat: "m < 256 \<Longrightarrow> ucast (of_nat m :: u64) = (of_nat m :: u8)"
  using of_nat_unat [of "of_nat m :: u64", where ?'a = u8] by (simp add: unat_of_nat)

lemma tsc_read_double_ok:
  assumes hb: "has_bits buf bi (code_dbl (ll, ls) x)" and w: "good_window (ll, ls)"
    and room: "rd_room buf bs (bi + length (code_dbl (ll, ls) x))"
  shows "tsc_read_double buf bs bi (v0, nbr0, ll, ls) =
    Some (ERR_OK, x, length (code_dbl (ll, ls) x), next_dbl (ll, ls) x)"
proof -
  note r = rd_room_mono [OF room]
  have s: "sz (bi + 1) = bi + 1" "sz (bi + 2) = bi + 2" "sz (bi + 7) = bi + 7" "sz (bi + 13) = bi + 13"
    using room by (simp_all add: rd_room_def)
  note rules = tsc_read_double_def has_bits_Cons has_bits_append read_bit s add.assoc
  have b1: "rd_room buf bs (bi + 1)" using length_code_dbl(1) [OF w, of x] by (intro r) simp
  consider (z) "x = 0" | (win) "x \<noteq> 0" "in_window (ll, ls) x" | (reset) "x \<noteq> 0" "\<not> in_window (ll, ls) x"
    by blast
  then show ?thesis
  proof cases
    case z
    with hb b1 show ?thesis by (simp add: code_dbl_def next_dbl_def rules del: One_nat_def)
  next
    case win
    let ?v = "drop_bit (64 - unat ll - unat ls) x"
    have e: "code_dbl (ll, ls) x = [True, False] @ nbits (unat ls) ?v" using win by (simp add: code_dbl_def)
    note wf = window_facts [OF win(1) w win(2)]
    have "rd_room buf bs (bi + 2)" and r2: "rd_room buf bs (bi + 2 + unat ls)" by (rule r; simp add: e)+
    moreover have "has_bits buf (bi + 2) (nbits (unat ls) ?v)" using hb by (simp add: e has_bits_Cons)
    then have "bitstream_read_uint64 buf bs (bi + 2) (unat ls) 0 = Some (ERR_OK, ?v)"
      by (rule read_uint64_field) (use wf r2 in auto)
    moreover have "shift_left ?v (64 - int (unat ls) - int (unat ll)) = Some x"
      using shift_left_ok [OF wf(3)] wf(6) w unfolding good_window_def prod.case by auto
    ultimately show ?thesis using hb b1 win
      by (simp add: e rules next_dbl_def del: One_nat_def add_2_eq_Suc add_2_eq_Suc' of_nat_unat)
  next
    case reset
    let ?v = "drop_bit (ctzll x) x" and ?l = "of_nat (lead x) :: u64" and ?g = "of_nat (sig x mod 64) :: u64"
    note rf = reset_facts [OF reset(1)] and sg = sig_facts [OF reset(1)] and l = lead_bounds [of x]
    have e: "code_dbl (ll, ls) x = [True, True] @ nbits 5 ?l @ nbits 6 ?g @ nbits (sig x) ?v"
      using reset by (simp add: code_dbl_def)
    have rr: "rd_room buf bs (bi + 2)" "rd_room buf bs (bi + 2 + 5)" "rd_room buf bs (bi + 7 + 6)"
      "rd_room buf bs (bi + 13 + sig x)" by (rule r; simp add: e)+
    have "has_bits buf (bi + 2) (nbits 5 ?l)" "has_bits buf (bi + 7) (nbits 6 ?g)"
      "has_bits buf (bi + 13) (nbits (sig x) ?v)" using hb by (simp_all add: e has_bits_Cons has_bits_append add.commute)
    then have "bitstream_read_uint64 buf bs (bi + 2) 5 0 = Some (ERR_OK, ?l)"
      "bitstream_read_uint64 buf bs (bi + 7) 6 0 = Some (ERR_OK, ?g)"
      "bitstream_read_uint64 buf bs (bi + 13) (sig x) 0 = Some (ERR_OK, ?v)"
      using rf rr sg by (auto intro!: read_uint64_field)
    moreover have "(if ?g = 0 then 64 else ucast ?g :: u8) = of_nat (sig x)"
    proof -
      have small: "unat (of_nat m :: u64) = m" if "m < 64" for m using that by (simp add: unat_of_nat)
      have g: "unat ?g = sig x mod 64" by (rule small) simp
      have c: "ucast ?g = (of_nat (sig x mod 64) :: u8)" by (rule ucast_small_nat) (rule less_trans [OF mod_less_divisor], simp_all)
      show ?thesis
      proof (cases "sig x = 64")
        case False
        then have m: "sig x mod 64 = sig x" using sg(2) by simp
        then have "?g \<noteq> 0" using g sg(1) unat_0_iff [of ?g] by linarith
        with c m show ?thesis by simp
      qed simp
    qed
    moreover have "ucast ?l = (of_nat (lead x) :: u8)" by (rule ucast_small_nat) (use l in simp)
    moreover have u: "unat (of_nat (sig x) :: u8) = sig x" "unat (of_nat (lead x) :: u8) = lead x"
      using sg l by (simp_all add: unat_of_nat)
    moreover have "shift_left ?v (64 - int (sig x) - int (lead x)) = Some x"
    proof -
      have "64 - int (sig x) - int (lead x) = int (ctzll x)" using sg(4) by simp
      then show ?thesis using shift_left_ok [of "ctzll x" _ ?v] rf(2) clzll_ctzll_sum [OF reset(1)] by simp
    qed
    ultimately show ?thesis using hb b1 rr(1) reset
      by (simp add: e rules next_dbl_def Let_def del: One_nat_def add_2_eq_Suc add_2_eq_Suc' of_nat_unat)
  qed
qed

section \<open>The contract of a codec\<close>

text \<open>
  A codec writes and reads one value with a state that both sides carry along. \<open>enc s x\<close> is the bit
  string of \<open>x\<close> in state \<open>s\<close>, at most \<open>maxb\<close> bits long, and \<open>nxt s x\<close> the state after it.
\<close>

locale bit_codec =
  fixes wr :: "'s \<Rightarrow> mem \<Rightarrow> nat \<Rightarrow> nat \<Rightarrow> u64 \<Rightarrow> (int \<times> mem \<times> nat \<times> 's) option"
    and rd :: "'s \<Rightarrow> mem \<Rightarrow> nat \<Rightarrow> nat \<Rightarrow> (int \<times> u64 \<times> nat \<times> 's) option"
    and enc :: "'s \<Rightarrow> u64 \<Rightarrow> bool list"
    and nxt :: "'s \<Rightarrow> u64 \<Rightarrow> 's"
    and good :: "'s \<Rightarrow> bool"
    and valid :: "u64 \<Rightarrow> bool"
    and maxb :: nat
  assumes good_nxt: "good s \<Longrightarrow> good (nxt s x)"
    and enc_len: "good s \<Longrightarrow> 1 \<le> length (enc s x) \<and> length (enc s x) \<le> maxb"
    and wr_result: "good s \<Longrightarrow> bi + 80 \<le> 2 ^ 62 \<Longrightarrow> bs \<le> 8 * length buf \<Longrightarrow>
      wr_outcome (valid x) buf bs bi (enc s x) s (nxt s x) (wr s buf bs bi x)"
    and rd_ok: "good s \<Longrightarrow> valid x \<Longrightarrow> has_bits buf bi (enc s x) \<Longrightarrow> rd_room buf bs (bi + length (enc s x)) \<Longrightarrow>
      rd s buf bs bi = Some (ERR_OK, x, length (enc s x), nxt s x)"
begin

lemma wr_total: "good s \<Longrightarrow> bi + 80 \<le> 2 ^ 62 \<Longrightarrow> bs \<le> 8 * length buf \<Longrightarrow> wr s buf bs bi x \<noteq> None"
  using wr_result [of s bi bs buf x] by (auto simp: wr_outcome_def)

text \<open>Room for the longest bit string is room enough, and then the value can be read back.\<close>

lemma wr_fits:
  assumes "good s" "valid x" "bi + 80 \<le> 2 ^ 62" "bs \<le> 8 * length buf" "word_ceil (bi + maxb) \<le> bs"
  obtains buf' where "wr s buf bs bi x = Some (ERR_OK, buf', bi + length (enc s x), nxt s x)"
    "has_bits buf' bi (enc s x)" "same_below bi buf buf'"
proof -
  have "word_ceil (bi + length (enc s x)) \<le> bs"
    using word_ceil_mono [of "bi + length (enc s x)" "bi + maxb"] enc_len [OF assms(1)] assms(5)
    by (meson add_le_cancel_left le_trans)
  then show thesis using wr_result [OF assms(1,3,4), of x] assms(2) that by (auto simp: wr_outcome_def)
qed

lemma wr_rd:
  assumes g: "good s" and v: "valid x" and b: "bi + 80 \<le> 2 ^ 62" "maxb \<le> 80" "bs \<le> 8 * length buf" "word_ceil (bi + maxb) \<le> bs"
  shows "\<exists>buf'. wr s buf bs bi x = Some (ERR_OK, buf', bi + length (enc s x), nxt s x) \<and>
    rd s buf' bs bi = Some (ERR_OK, x, length (enc s x), nxt s x) \<and> same_below bi buf buf'"
proof -
  obtain buf' where w: "wr s buf bs bi x = Some (ERR_OK, buf', bi + length (enc s x), nxt s x)"
    "has_bits buf' bi (enc s x)" "same_below bi buf buf'"
    using wr_fits [OF g v b(1) b(3) b(4)] by metis
  let ?e = "bi + length (enc s x)"
  have e: "?e \<le> bi + maxb" using enc_len [OF g] by simp
  then have "word_ceil ?e \<le> bs" using word_ceil_mono [OF e] b(4) by linarith
  then have "rd_room buf' bs ?e"
    using word_ceil_ge [of ?e] e b same_below_length [OF w(3)] unfolding rd_room_def by linarith
  then show ?thesis using w rd_ok [OF g v w(2)] by blast
qed

end

interpretation tc: bit_codec "\<lambda>_ buf bs bi x. add_state () (bitstream_write_int64 buf bs bi 64 x bi)"
  "\<lambda>_ buf bs bi. map_option (\<lambda>(res, x). (res, x, 64, ())) (bitstream_read_int64 buf bs bi 64 0)"
  "\<lambda>_. nbits 64" "\<lambda>_ _. ()" "\<lambda>_. True" "\<lambda>_. True" 64
proof
  fix s :: unit and x :: u64 and buf :: mem and bi bs :: nat assume "bi + 80 \<le> 2 ^ 62" "bs \<le> 8 * length buf"
  then show "wr_outcome True buf bs bi (nbits 64 x) s () (add_state () (bitstream_write_int64 buf bs bi 64 x bi))"
    using write_int64_outcome [of 64 bi bs buf x "()"] by (simp add: int_fits_64)
next
  fix s :: unit and x :: u64 and buf :: mem and bi bs :: nat assume "has_bits buf bi (nbits 64 x)" "rd_room buf bs (bi + length (nbits 64 x))"
  then show "map_option (\<lambda>(res, x). (res, x, 64, ())) (bitstream_read_int64 buf bs bi 64 0) =
      Some (ERR_OK, x, length (nbits 64 x), ())"
    using read_int64_field [of buf bi 64 x bs 0] by (simp add: int_fits_64)
qed simp_all

interpretation ic: bit_codec "\<lambda>_ buf bs bi x. add_state () (tsc_write_int64 buf bs bi x)"
  "\<lambda>_ buf bs bi. map_option (\<lambda>(res, x, nbr). (res, x, nbr, ())) (tsc_read_int64 buf bs bi (0, 0))"
  "\<lambda>_. code_int" "\<lambda>_ _. ()" "\<lambda>_. True" "int_fits 32" 36
  by unfold_locales
    (use length_code_int in \<open>auto intro!: tsc_write_int64_outcome simp: tsc_read_int64_ok\<close>)

interpretation dc: bit_codec "\<lambda>(ll, ls) buf bs bi x. tsc_write_double buf bs bi x ll ls"
  "\<lambda>(ll, ls) buf bs bi. tsc_read_double buf bs bi (0, 0, ll, ls)"
  code_dbl next_dbl good_window "\<lambda>_. True" 77
  by unfold_locales
    (use length_code_dbl in \<open>auto intro!: tsc_write_double_outcome good_next_dbl simp: tsc_read_double_ok split: prod.splits\<close>)

section \<open>Properties\<close>

text \<open>
  The variable-length code of time deltas is loss-free: every value that fits into 32 bits is
  written without an assertion failure and without touching the bits before it, and reading at the
  same position returns it and the number of bits that were written.
\<close>

theorem tsc_int64_roundtrip:
  assumes "- (2 ^ 31) \<le> sint x" "sint x < 2 ^ 31" "bit_index + 80 \<le> 2 ^ 62" "n \<le> 8 * length buf"
    and "word_ceil (bit_index + 36) \<le> n"
  shows "\<exists>buf' k. tsc_write_int64 buf n bit_index x = Some (ERR_OK, buf', bit_index + k) \<and> k \<le> 36 \<and>
    tsc_read_int64 buf' n bit_index (0, 0) = Some (ERR_OK, x, k) \<and> same_below bit_index buf buf'"
proof -
  have "int_fits 32 x" using assms by (simp add: int_fits_def)
  with ic.wr_rd [of x bit_index n buf] assms(3-) obtain buf' where
    "add_state () (tsc_write_int64 buf n bit_index x) = Some (ERR_OK, buf', bit_index + length (code_int x), ())"
    "map_option (\<lambda>(res, x, nbr). (res, x, nbr, ())) (tsc_read_int64 buf' n bit_index (0, 0)) =
       Some (ERR_OK, x, length (code_int x), ())" "same_below bit_index buf buf'" by auto
  then show ?thesis using length_code_int(2) [of x] by (auto simp: add_state_def)
qed

theorem tsc_int64_roundtrip_witness:
  "\<exists>buf' k. tsc_write_int64 (replicate 16 0) 128 50 (- 1000) = Some (ERR_OK, buf', 50 + k) \<and> k \<le> 36 \<and>
    tsc_read_int64 buf' 128 50 (0, 0) = Some (ERR_OK, - 1000, k) \<and> same_below 50 (replicate 16 0) buf'"
  by (rule tsc_int64_roundtrip) simp_all

text \<open>
  The XOR code of values is loss-free: from any window of significant bits that fits a word, every
  64-bit pattern is written without an assertion failure, an undefined shift or a change to the bits
  before it; the reader, started with the same window, returns the pattern, the number of bits, and
  the same next window, which fits a word again.
\<close>

theorem tsc_double_roundtrip:
  assumes "unat ll + unat ls \<le> 64" "bit_index + 80 \<le> 2 ^ 62" "n \<le> 8 * length buf" "word_ceil (bit_index + 77) \<le> n"
  shows "\<exists>buf' k ll' ls'. tsc_write_double buf n bit_index x ll ls = Some (ERR_OK, buf', bit_index + k, ll', ls') \<and>
    k \<le> 77 \<and> tsc_read_double buf' n bit_index (0, 0, ll, ls) = Some (ERR_OK, x, k, ll', ls') \<and>
    same_below bit_index buf buf' \<and> unat ll' + unat ls' \<le> 64"
proof -
  have g: "good_window (ll, ls)" using assms by (simp add: good_window_def)
  obtain ll' ls' where n: "next_dbl (ll, ls) x = (ll', ls')" by (cases "next_dbl (ll, ls) x")
  have "unat ll' + unat ls' \<le> 64" using dc.good_nxt [OF g, of x] by (simp add: n good_window_def)
  moreover have "length (code_dbl (ll, ls) x) \<le> 77" using length_code_dbl [OF g] by simp
  ultimately show ?thesis using dc.wr_rd [OF g, of bit_index n buf x] assms n by auto
qed

theorem tsc_double_roundtrip_witness:
  "\<exists>buf' k ll' ls'. tsc_write_double (replicate 24 0) 192 3 0x4045000000000000 11 20 = Some (ERR_OK, buf', 3 + k, ll', ls') \<and>
    k \<le> 77 \<and> tsc_read_double buf' 192 3 (0, 0, 11, 20) = Some (ERR_OK, 0x4045000000000000, k, ll', ls') \<and>
    same_below 3 (replicate 24 0) buf' \<and> unat ll' + unat ls' \<le> 64"
  by (rule tsc_double_roundtrip) simp_all

end
