(* ===== verification/Tsc_Block.thy ===== *)
theory Tsc_Block
  imports Tsc_Codec
begin

unbundle bit_operations_syntax

text \<open>
  What a block of \<^verbatim>\<open>tsc.c\<close> holds. \<open>tsc_inv p pts\<close> relates a header with its buffer to the list of
  points it stores; the lemmas show how \<^verbatim>\<open>tsc_init\<close>, \<^verbatim>\<open>tsc_add\<close>, \<^verbatim>\<open>tsc_clear\<close>, saving and
  loading act on that list, and that iterating over the buffer returns it. A point is a time stamp
  and the bit pattern of a double.
\<close>

type_synonym point = "i64 \<times> u64"

section \<open>The bit string of a list of points\<close>

text \<open>
  The state of the encoder after some points: the last time stamp, the last delta (zero after one
  point), the last value and the window; \<open>None\<close> before the first point.
\<close>

type_synonym enc_state = "(i64 \<times> i64 \<times> u64 \<times> u8 \<times> u8) option"

fun point_bits :: "enc_state \<Rightarrow> point \<Rightarrow> bool list" where
  "point_bits None (t, y) = nbits 64 t @ code_dbl (0, 0) y"
| "point_bits (Some (t0, dt, y0, w)) (t, y) = code_int ((t - t0) - dt) @ code_dbl w (y0 XOR y)"

fun next_state :: "enc_state \<Rightarrow> point \<Rightarrow> enc_state" where
  "next_state None (t, y) = Some (t, 0, y, next_dbl (0, 0) y)"
| "next_state (Some (t0, dt, y0, w)) (t, y) = Some (t, t - t0, y, next_dbl w (y0 XOR y))"

text \<open>A point can follow if its time stamp is later and the change of the delta fits 32 bits.\<close>

fun follows :: "enc_state \<Rightarrow> point \<Rightarrow> bool" where
  "follows None (t, y) = True"
| "follows (Some (t0, dt, y0, w)) (t, y) = (sint t0 < sint t \<and> int_fits 32 ((t - t0) - dt))"

primrec enc_all :: "enc_state \<Rightarrow> point list \<Rightarrow> bool list" where
  "enc_all s [] = []"
| "enc_all s (p # ps) = point_bits s p @ enc_all (next_state s p) ps"

primrec end_state :: "enc_state \<Rightarrow> point list \<Rightarrow> enc_state" where
  "end_state s [] = s"
| "end_state s (p # ps) = end_state (next_state s p) ps"

primrec encodable :: "enc_state \<Rightarrow> point list \<Rightarrow> bool" where
  "encodable s [] = True"
| "encodable s (p # ps) = (follows s p \<and> encodable (next_state s p) ps)"

fun good_state :: "enc_state \<Rightarrow> bool" where
  "good_state None = True"
| "good_state (Some (t, dt, y, w)) = good_window w"

lemma enc_all_append [simp]: "enc_all s (ps @ qs) = enc_all s ps @ enc_all (end_state s ps) qs"
  by (induction ps arbitrary: s) simp_all

lemma end_state_append [simp]: "end_state s (ps @ qs) = end_state (end_state s ps) qs"
  by (induction ps arbitrary: s) simp_all

lemma encodable_append [simp]: "encodable s (ps @ qs) \<longleftrightarrow> encodable s ps \<and> encodable (end_state s ps) qs"
  by (induction ps arbitrary: s) simp_all

lemma good_window_0 [simp]: "good_window (0, 0)"
  by (simp add: good_window_def)

lemma good_next: "good_state s \<Longrightarrow> good_state (next_state s p)"
  by (cases "(s, p)" rule: next_state.cases) (auto intro: good_next_dbl)

lemma good_end: "good_state s \<Longrightarrow> good_state (end_state s ps)"
  by (induction ps arbitrary: s) (simp_all add: good_next)

lemma length_point_bits: "good_state s \<Longrightarrow> 2 \<le> length (point_bits s p) \<and> length (point_bits s p) \<le> 141"
proof (cases "(s, p)" rule: point_bits.cases)
  case (1 t y)
  then show ?thesis using length_code_dbl [of "(0, 0)" y] by (simp add: good_window_def)
next
  case (2 t0 dt y0 w t y)
  then show "good_state s \<Longrightarrow> ?thesis"
    using length_code_dbl [of w "y0 XOR y"] length_code_int [of "t - t0 - dt"] by simp
qed

lemma length_enc_all: "good_state s \<Longrightarrow> 2 * length ps \<le> length (enc_all s ps)"
proof (induction ps arbitrary: s)
  case (Cons p ps)
  then have "2 * length ps \<le> length (enc_all (next_state s p) ps)" using good_next by blast
  with length_point_bits [OF Cons.prems, of p] show ?case by simp
qed simp

lemma end_state_None: "end_state s ps = None \<longleftrightarrow> s = None \<and> ps = []"
proof (induction ps arbitrary: s)
  case (Cons p ps)
  have "next_state s p \<noteq> None" by (cases "(s, p)" rule: next_state.cases) simp_all
  with Cons show ?case by simp
qed simp

section \<open>The block invariant\<close>

fun header_matches :: "tsc_header \<Rightarrow> enc_state \<Rightarrow> bool" where
  "header_matches p None \<longleftrightarrow> last_timestamp p = 0 \<and> last_timestamp_delta p = 0 \<and> prev_value p = 0 \<and>
     last_leading p = 0 \<and> last_sigbits p = 0"
| "header_matches p (Some (t, dt, y, ll, ls)) \<longleftrightarrow> last_timestamp p = t \<and> last_timestamp_delta p = dt \<and>
     prev_value p = y \<and> last_leading p = ll \<and> last_sigbits p = ls"

definition data_inv :: "mem \<Rightarrow> point list \<Rightarrow> bool" where
  "data_inv d pts \<longleftrightarrow> 12 \<le> length d \<and> 8 * length d \<le> MAX_NUM_VALID_BITS \<and>
     TSC_NUM_PTS d = Some (of_nat (length pts)) \<and>
     word_ceil (length (enc_all None pts)) \<le> 8 * (length d - 4) \<and>
     has_bits (drop 4 d) 0 (enc_all None pts) \<and> encodable None pts"

definition tsc_inv :: "tsc_header \<Rightarrow> point list \<Rightarrow> bool" where
  "tsc_inv p pts \<longleftrightarrow> data_inv (tsc_data p) pts \<and> unat (data_len p) = length (tsc_data p) \<and>
     unat (num_valid_bits p) = length (enc_all None pts) \<and> header_matches p (end_state None pts)"

lemma num_pts_bound:
  assumes "data_inv d pts"
  shows "length pts < 2 ^ 28" "length (enc_all None pts) \<le> 8 * (length d - 4)"
proof -
  show e: "length (enc_all None pts) \<le> 8 * (length d - 4)"
    using assms word_ceil_ge [of "length (enc_all None pts)"] by (simp add: data_inv_def)
  have "8 * (length d - 4) < 2 ^ 29" using assms by (auto simp: data_inv_def MAX_NUM_VALID_BITS_def)
  then show "length pts < 2 ^ 28" using e length_enc_all [of None pts] by simp
qed

lemma set_num_pts: "4 \<le> length d \<Longrightarrow> set_TSC_NUM_PTS d k = Some (le_bytes k @ drop 4 d)"
  by (simp add: set_TSC_NUM_PTS_def mem_write_def)

lemma get_num_pts [simp]: "TSC_NUM_PTS (le_bytes k @ d) = Some k"
  by (simp add: TSC_NUM_PTS_def mem_read_def le_word_le_bytes)

lemma get_num_pts_take: "4 \<le> length d \<Longrightarrow> take 4 d' = take 4 d \<Longrightarrow> length d' = length d \<Longrightarrow> TSC_NUM_PTS d' = TSC_NUM_PTS d"
  by (simp add: TSC_NUM_PTS_def mem_read_def)

section \<open>Appending to a block\<close>

lemma tsc_append_outcome:
  fixes x :: u64
  assumes len: "4 \<le> length (tsc_data p)" and n: "n = 8 * (length (tsc_data p) - 4)" "n \<le> MAX_NUM_VALID_BITS"
    and nvb: "unat (num_valid_bits p) = i" "i \<le> n" and w: "good_window (last_leading p, last_sigbits p)"
    and wt: "wr_outcome v (drop 4 (tsc_data p)) n i tbits () () (add_state () (wt (drop 4 (tsc_data p)) i))"
    and tb: "length tbits \<le> 64"
  defines "bits \<equiv> tbits @ code_dbl (last_leading p, last_sigbits p) x"
  shows "v \<and> word_ceil (i + length bits) \<le> n \<Longrightarrow> \<exists>d ll ls.
      tsc_append p n wt x upd k = Some (ERR_OK, upd (p\<lparr>last_leading := ll, last_sigbits := ls,
        num_valid_bits := of_nat (i + length bits), tsc_data := d\<rparr>)) \<and>
      (ll, ls) = next_dbl (last_leading p, last_sigbits p) x \<and>
      TSC_NUM_PTS d = Some k \<and> length d = length (tsc_data p) \<and>
      has_bits (drop 4 d) i bits \<and> same_below i (drop 4 (tsc_data p)) (drop 4 d)"
    and "\<not> (v \<and> word_ceil (i + length bits) \<le> n) \<Longrightarrow> \<exists>res d.
      tsc_append p n wt x upd k = Some (res, p\<lparr>tsc_data := d\<rparr>) \<and> res \<noteq> ERR_OK \<and> (v \<longrightarrow> res = ERR_BITSTREAM_OUT_OF_SPACE) \<and>
      length d = length (tsc_data p) \<and> take 4 d = take 4 (tsc_data p) \<and> same_below i (drop 4 (tsc_data p)) (drop 4 d)"
proof -
  let ?w = "(last_leading p, last_sigbits p)" and ?d = "drop 4 (tsc_data p)" and ?t = "take 4 (tsc_data p)"
  let ?j = "i + length tbits"
  have t4: "length ?t = 4" using len by simp
  have dl: "n = 8 * length ?d" using n by simp
  have small: "?j + 80 \<le> 2 ^ 62" "i + length bits \<le> 2 ^ 30"
    using nvb n tb length_code_dbl [OF w, of x] by (simp_all add: bits_def MAX_NUM_VALID_BITS_def)
  have wd: "wr_outcome True b n ?j (code_dbl ?w x) ?w (next_dbl ?w x) (tsc_write_double b n ?j x (last_leading p) (last_sigbits p))"
    if "same_below i ?d b" for b
    using tsc_write_double_outcome [OF w small(1)] same_below_length [OF that] dl by simp
  obtain ll ls where nx: "next_dbl ?w x = (ll, ls)" by (cases "next_dbl ?w x")
  show "\<exists>d ll ls. tsc_append p n wt x upd k = Some (ERR_OK, upd (p\<lparr>last_leading := ll, last_sigbits := ls,
        num_valid_bits := of_nat (i + length bits), tsc_data := d\<rparr>)) \<and> (ll, ls) = next_dbl ?w x \<and>
      TSC_NUM_PTS d = Some k \<and> length d = length (tsc_data p) \<and>
      has_bits (drop 4 d) i bits \<and> same_below i ?d (drop 4 d)"
    if ok: "v \<and> word_ceil (i + length bits) \<le> n"
  proof -
    have "word_ceil ?j \<le> n" using ok word_ceil_mono [of ?j "i + length bits"] by (simp add: bits_def)
    then obtain b where b: "wt ?d i = Some (ERR_OK, b, ?j)" "has_bits b i tbits" "same_below i ?d b"
      using wt ok by (auto simp: wr_outcome_def add_state_def)
    with wd [OF b(3)] ok nx obtain b' where b': "tsc_write_double b n ?j x (last_leading p) (last_sigbits p) =
        Some (ERR_OK, b', i + length bits, ll, ls)" "has_bits b' ?j (code_dbl ?w x)" "same_below ?j b b'"
      by (auto simp: wr_outcome_def bits_def add.assoc)
    have "i + length bits \<le> MAX_NUM_VALID_BITS" using ok word_ceil_ge [of "i + length bits"] n(2) by linarith
    then have "tsc_append p n wt x upd k = Some (ERR_OK, upd (p\<lparr>last_leading := ll, last_sigbits := ls,
        num_valid_bits := of_nat (i + length bits), tsc_data := le_bytes k @ b'\<rparr>))"
      using b b' nvb t4 by (simp add: tsc_append_def set_num_pts)
    moreover have "same_below i ?d b'" using same_below_trans [OF b(3) b'(3)] by simp
    moreover have "has_bits b' i bits" using b(2) b'(2) has_bits_same_below [OF b'(3)] by (simp add: bits_def has_bits_append)
    moreover have "length b' = length ?d" using \<open>same_below i ?d b'\<close> by (rule same_below_length)
    ultimately show ?thesis using nx len by (intro exI [of _ "le_bytes k @ b'"] exI [of _ ll] exI [of _ ls]) simp
  qed
  show "\<exists>res d. tsc_append p n wt x upd k = Some (res, p\<lparr>tsc_data := d\<rparr>) \<and> res \<noteq> ERR_OK \<and> (v \<longrightarrow> res = ERR_BITSTREAM_OUT_OF_SPACE) \<and>
      length d = length (tsc_data p) \<and> take 4 d = ?t \<and> same_below i ?d (drop 4 d)"
    if err: "\<not> (v \<and> word_ceil (i + length bits) \<le> n)"
  proof (cases "v \<and> word_ceil ?j \<le> n")
    case True
    then obtain b where b: "wt ?d i = Some (ERR_OK, b, ?j)" "same_below i ?d b"
      using wt by (auto simp: wr_outcome_def add_state_def)
    with wd [OF b(2)] err True obtain res b' j' where b': "tsc_write_double b n ?j x (last_leading p) (last_sigbits p) =
        Some (res, b', j', ?w)" "res \<noteq> ERR_OK" "same_below ?j b b'" "res = ERR_BITSTREAM_OUT_OF_SPACE"
      by (auto simp: wr_outcome_def bits_def add.assoc)
    have s: "same_below i ?d b'" using same_below_trans [OF b(2) b'(3)] by simp
    then have "length (?t @ b') = length (tsc_data p)" using same_below_length [OF s] len by simp
    moreover have "tsc_append p n wt x upd k = Some (res, p\<lparr>tsc_data := ?t @ b'\<rparr>)"
      using b b' nvb t4 by (cases p) (simp add: tsc_append_def)
    ultimately show ?thesis using b'(2,4) s t4 by (intro exI [of _ res] exI [of _ "?t @ b'"]) simp
  next
    case False
    then obtain res b j where b: "wt ?d i = Some (res, b, j)" "res \<noteq> ERR_OK" "same_below i ?d b"
      "v \<longrightarrow> res = ERR_BITSTREAM_OUT_OF_SPACE"
      using wt by (auto simp: wr_outcome_def add_state_def)
    then have "length (?t @ b) = length (tsc_data p)" using same_below_length [OF b(3)] len by simp
    moreover have "tsc_append p n wt x upd k = Some (res, p\<lparr>tsc_data := ?t @ b\<rparr>)"
      using b nvb t4 by (simp add: tsc_append_def)
    ultimately show ?thesis using b t4 by (intro exI [of _ res] exI [of _ "?t @ b"]) simp
  qed
qed

lemma u32_of_nat: "k < 2 ^ 32 \<Longrightarrow> unat (of_nat k :: u32) = k"
  by (simp add: unat_of_nat)

lemma data_inv_snoc:
  assumes "data_inv d pts" "TSC_NUM_PTS d' = Some (of_nat (length pts) + 1)" "length d' = length d"
    and "has_bits (drop 4 d') (length (enc_all None pts)) (point_bits (end_state None pts) q)"
    and sb: "same_below (length (enc_all None pts)) (drop 4 d) (drop 4 d')"
    and "follows (end_state None pts) q"
    and "word_ceil (length (enc_all None pts) + length (point_bits (end_state None pts) q)) \<le> 8 * (length d - 4)"
  shows "data_inv d' (pts @ [q])"
  using assms has_bits_same_below [OF sb, of 0] by (auto simp: data_inv_def has_bits_append add.commute)

lemma data_inv_same:
  assumes "data_inv d pts" "length d' = length d" "take 4 d' = take 4 d"
    and sb: "same_below (length (enc_all None pts)) (drop 4 d) (drop 4 d')"
  shows "data_inv d' pts"
  using assms has_bits_same_below [OF sb, of 0] get_num_pts_take [of d d'] by (auto simp: data_inv_def)

lemma block_sizes:
  assumes "tsc_inv p pts"
  shows "sz (sz_sub (unat (data_len p)) 4 * 8) = 8 * (length (tsc_data p) - 4)"
    "8 * (length (tsc_data p) - 4) \<le> MAX_NUM_VALID_BITS" "12 \<le> length (tsc_data p)"
    "unat (num_valid_bits p) \<le> 8 * (length (tsc_data p) - 4)"
    "sz_sub (8 * (length (tsc_data p) - 4)) (unat (num_valid_bits p)) =
       8 * (length (tsc_data p) - 4) - unat (num_valid_bits p)"
    "unat (of_nat (length pts) :: u32) = length pts"
proof -
  have i: "data_inv (tsc_data p) pts" "unat (data_len p) = length (tsc_data p)"
    "unat (num_valid_bits p) = length (enc_all None pts)" using assms by (simp_all add: tsc_inv_def)
  then show l: "12 \<le> length (tsc_data p)" and m: "8 * (length (tsc_data p) - 4) \<le> MAX_NUM_VALID_BITS"
    by (auto simp: data_inv_def)
  then show n: "unat (num_valid_bits p) \<le> 8 * (length (tsc_data p) - 4)" using num_pts_bound(2) [OF i(1)] i(3) by simp
  show "sz (sz_sub (unat (data_len p)) 4 * 8) = 8 * (length (tsc_data p) - 4)"
    using i(2) l m by (simp add: MAX_NUM_VALID_BITS_def)
  show "sz_sub (8 * (length (tsc_data p) - 4)) (unat (num_valid_bits p)) =
       8 * (length (tsc_data p) - 4) - unat (num_valid_bits p)"
    using n m by (intro sz_sub_le) (auto simp: MAX_NUM_VALID_BITS_def)
  show "unat (of_nat (length pts) :: u32) = length pts"
    using num_pts_bound(1) [OF i(1)] by (simp add: unat_of_nat)
qed

text \<open>Both later branches of \<^verbatim>\<open>tsc_add\<close> write the change of the delta: after one point the delta is zero.\<close>

lemma tsc_add_later:
  assumes inv: "tsc_inv p pts" and s: "end_state None pts = Some (t0, dt, y0, ll, ls)"
    and room: "18 * 8 \<le> 8 * (length (tsc_data p) - 4) - unat (num_valid_bits p)" and t: "sint t0 < sint t"
  shows "tsc_add p t y = tsc_append p (8 * (length (tsc_data p) - 4))
    (\<lambda>buf bi. tsc_write_int64 buf (8 * (length (tsc_data p) - 4)) bi (t - t0 - dt)) (y0 XOR y)
    (\<lambda>p. p\<lparr>last_timestamp := t, last_timestamp_delta := t - t0, prev_value := y\<rparr>) (of_nat (length pts) + 1)"
proof -
  have h: "last_timestamp p = t0" "last_timestamp_delta p = dt" "prev_value p = y0"
    and k: "TSC_NUM_PTS (tsc_data p) = Some (of_nat (length pts))" and ne: "pts \<noteq> []"
    using inv s by (auto simp: tsc_inv_def data_inv_def)
  note b = block_sizes [OF inv]
  have k0: "(of_nat (length pts) :: u32) \<noteq> 0" using b(6) ne by (metis length_0_conv unat_0)
  have nroom: "\<not> sz_sub (8 * (length (tsc_data p) - 4)) (unat (num_valid_bits p)) < 18 * 8" using room b(5) by simp
  show ?thesis
  proof (cases "length pts = 1")
    case True
    then obtain q where "pts = [q]" by (metis One_nat_def length_0_conv length_Suc_conv)
    then have "dt = 0" using s by (cases q) auto
    with True k0 k h nroom t show ?thesis unfolding tsc_add_def Let_def b(1) by simp
  next
    case False
    then have "(of_nat (length pts) :: u32) \<noteq> 1" using b(6) by (metis unat_1)
    with k0 k h nroom t show ?thesis unfolding tsc_add_def Let_def b(1) by simp
  qed
qed

lemma tsc_add_first:
  assumes inv: "tsc_inv p []" and room: "18 * 8 \<le> 8 * (length (tsc_data p) - 4) - unat (num_valid_bits p)"
  shows "tsc_add p t y = tsc_append p (8 * (length (tsc_data p) - 4))
    (\<lambda>buf bi. bitstream_write_int64 buf (8 * (length (tsc_data p) - 4)) bi 64 t bi) y
    (\<lambda>p. p\<lparr>last_timestamp := t, prev_value := y\<rparr>) 1"
proof -
  note b = block_sizes [OF inv]
  have k: "TSC_NUM_PTS (tsc_data p) = Some 0" using inv by (auto simp: tsc_inv_def data_inv_def)
  have "\<not> sz_sub (8 * (length (tsc_data p) - 4)) (unat (num_valid_bits p)) < 18 * 8" using room b(5) by simp
  with k show ?thesis unfolding tsc_add_def Let_def b(1) by simp
qed

text \<open>
  A point that is offered to a block with room: it is stored exactly if it follows the last point and
  its bits, rounded up to whole words, fit; otherwise the block keeps its points.
\<close>

definition point_fits :: "tsc_header \<Rightarrow> point list \<Rightarrow> point \<Rightarrow> bool" where
  "point_fits p pts q \<longleftrightarrow> follows (end_state None pts) q \<and>
     word_ceil (length (enc_all None pts) + length (point_bits (end_state None pts) q)) \<le> 8 * (length (tsc_data p) - 4)"

lemma tsc_add_first_result:
  assumes inv: "tsc_inv p []" and room: "18 * 8 \<le> 8 * (length (tsc_data p) - 4) - unat (num_valid_bits p)"
  shows "point_fits p [] (t, y) \<Longrightarrow> \<exists>p'. tsc_add p t y = Some (ERR_OK, p') \<and> tsc_inv p' [(t, y)] \<and> data_len p' = data_len p"
    and "\<not> point_fits p [] (t, y) \<Longrightarrow> \<exists>res p'. tsc_add p t y = Some (res, p') \<and> res \<noteq> ERR_OK \<and>
      (follows (end_state None []) (t, y) \<longrightarrow> res = ERR_BITSTREAM_OUT_OF_SPACE) \<and> tsc_inv p' [] \<and> data_len p' = data_len p"
proof -
  let ?n = "8 * (length (tsc_data p) - 4)"
  note b = block_sizes [OF inv]
  have i: "data_inv (tsc_data p) []" "unat (data_len p) = length (tsc_data p)" "unat (num_valid_bits p) = 0"
    and h: "last_timestamp p = 0" "last_timestamp_delta p = 0" "prev_value p = 0" "last_leading p = 0" "last_sigbits p = 0"
    using inv by (simp_all add: tsc_inv_def)
  have w: "good_window (last_leading p, last_sigbits p)" using h by simp
  have "wr_outcome True (drop 4 (tsc_data p)) ?n 0 (nbits 64 t) () ()
      (add_state () (bitstream_write_int64 (drop 4 (tsc_data p)) ?n 0 64 t 0))"
    using tc.wr_result [of 0 ?n "drop 4 (tsc_data p)" t "()"] by simp
  note r = tsc_append_outcome [where p = p and n = ?n and i = 0 and x = y and v = True and tbits = "nbits 64 t" and k = 1
    and wt = "\<lambda>buf bi. bitstream_write_int64 buf ?n bi 64 t bi" and upd = "\<lambda>p. p\<lparr>last_timestamp := t, prev_value := y\<rparr>",
    OF _ _ b(2) i(3) _ w this, folded tsc_add_first [OF inv room]]
  show "\<exists>p'. tsc_add p t y = Some (ERR_OK, p') \<and> tsc_inv p' [(t, y)] \<and> data_len p' = data_len p" if fit: "point_fits p [] (t, y)"
  proof -
    obtain d ll ls where d: "tsc_add p t y = Some (ERR_OK, p\<lparr>last_leading := ll, last_sigbits := ls,
        num_valid_bits := of_nat (length (nbits 64 t @ code_dbl (0, 0) y)), tsc_data := d, last_timestamp := t, prev_value := y\<rparr>)"
      "(ll, ls) = next_dbl (0, 0) y" "TSC_NUM_PTS d = Some 1" "length d = length (tsc_data p)"
      "has_bits (drop 4 d) 0 (nbits 64 t @ code_dbl (0, 0) y)" "same_below 0 (drop 4 (tsc_data p)) (drop 4 d)"
      using r(1) b(3) fit h by (auto simp: point_fits_def)
    have "data_inv d ([] @ [(t, y)])"
      by (rule data_inv_snoc [OF i(1)]) (use d fit in \<open>auto simp: point_fits_def\<close>)
    moreover have "unat (of_nat (length (nbits 64 t @ code_dbl (0, 0) y)) :: u32) = length (nbits 64 t @ code_dbl (0, 0) y)"
      by (rule u32_of_nat) (use length_code_dbl(2) [of "(0, 0)" y] in simp)
    ultimately show ?thesis using d i h by (simp add: tsc_inv_def flip: d(2) of_nat_add)
  qed
  show "\<exists>res p'. tsc_add p t y = Some (res, p') \<and> res \<noteq> ERR_OK \<and>
      (follows (end_state None []) (t, y) \<longrightarrow> res = ERR_BITSTREAM_OUT_OF_SPACE) \<and> tsc_inv p' [] \<and> data_len p' = data_len p"
    if fit: "\<not> point_fits p [] (t, y)"
  proof -
    obtain res d where d: "tsc_add p t y = Some (res, p\<lparr>tsc_data := d\<rparr>)" "res \<noteq> ERR_OK" "length d = length (tsc_data p)"
      "res = ERR_BITSTREAM_OUT_OF_SPACE"
      "take 4 d = take 4 (tsc_data p)" "same_below 0 (drop 4 (tsc_data p)) (drop 4 d)"
      using r(2) b(3) fit h by (auto simp: point_fits_def)
    have "data_inv d []" by (rule data_inv_same [OF i(1) d(3,5)]) (use d in auto)
    then show ?thesis using d i h by (simp add: tsc_inv_def)
  qed
qed

lemma tsc_add_later_result:
  assumes inv: "tsc_inv p pts" and s: "end_state None pts = Some (t0, dt, y0, ll, ls)"
    and room: "18 * 8 \<le> 8 * (length (tsc_data p) - 4) - unat (num_valid_bits p)" and t: "sint t0 < sint t"
  shows "point_fits p pts (t, y) \<Longrightarrow>
      \<exists>p'. tsc_add p t y = Some (ERR_OK, p') \<and> tsc_inv p' (pts @ [(t, y)]) \<and> data_len p' = data_len p"
    and "\<not> point_fits p pts (t, y) \<Longrightarrow>
      \<exists>res p'. tsc_add p t y = Some (res, p') \<and> res \<noteq> ERR_OK \<and>
      (follows (end_state None pts) (t, y) \<longrightarrow> res = ERR_BITSTREAM_OUT_OF_SPACE) \<and> tsc_inv p' pts \<and> data_len p' = data_len p"
proof -
  let ?n = "8 * (length (tsc_data p) - 4)" and ?x = "t - t0 - dt" and ?e = "length (enc_all None pts)"
  let ?q = "(t, y)" and ?bits = "code_int (t - t0 - dt) @ code_dbl (ll, ls) (y0 XOR y)"
  note b = block_sizes [OF inv]
  have i: "data_inv (tsc_data p) pts" "unat (data_len p) = length (tsc_data p)" "unat (num_valid_bits p) = ?e"
    and h: "last_timestamp p = t0" "last_timestamp_delta p = dt" "prev_value p = y0" "last_leading p = ll" "last_sigbits p = ls"
    using inv s by (simp_all add: tsc_inv_def)
  have w: "good_window (last_leading p, last_sigbits p)" using good_end [of None pts] s h by simp
  have e: "?e \<le> 8 * (length (tsc_data p) - 4)" "?e \<le> 2 ^ 29" using b(2,4) i(3) by (simp_all add: MAX_NUM_VALID_BITS_def)
  have "wr_outcome (int_fits 32 ?x) (drop 4 (tsc_data p)) ?n ?e (code_int ?x) () ()
      (add_state () (tsc_write_int64 (drop 4 (tsc_data p)) ?n ?e ?x))"
    using ic.wr_result [of ?e ?n "drop 4 (tsc_data p)" ?x "()"] e by simp
  note r = tsc_append_outcome [where p = p and n = ?n and i = ?e and x = "y0 XOR y" and v = "int_fits 32 ?x" and k = "of_nat (length pts) + 1"
    and wt = "\<lambda>buf bi. tsc_write_int64 buf ?n bi ?x" and upd = "\<lambda>p. p\<lparr>last_timestamp := t, last_timestamp_delta := t - t0, prev_value := y\<rparr>",
    OF _ _ b(2) i(3) e(1) w this, folded tsc_add_later [OF inv s room t]]
  have fits: "point_fits p pts ?q \<longleftrightarrow> int_fits 32 ?x \<and> word_ceil (?e + length ?bits) \<le> ?n"
    using s t by (simp add: point_fits_def)
  show "\<exists>p'. tsc_add p t y = Some (ERR_OK, p') \<and> tsc_inv p' (pts @ [?q]) \<and> data_len p' = data_len p" if fit: "point_fits p pts ?q"
  proof -
    obtain d ll' ls' where d: "tsc_add p t y = Some (ERR_OK, p\<lparr>last_leading := ll', last_sigbits := ls',
        num_valid_bits := of_nat (?e + length ?bits), tsc_data := d, last_timestamp := t, last_timestamp_delta := t - t0, prev_value := y\<rparr>)"
      "(ll', ls') = next_dbl (ll, ls) (y0 XOR y)" "TSC_NUM_PTS d = Some (of_nat (length pts) + 1)" "length d = length (tsc_data p)"
      "has_bits (drop 4 d) ?e ?bits" "same_below ?e (drop 4 (tsc_data p)) (drop 4 d)"
      using r(1) b(3) fit h length_code_int(2) [of ?x] by (auto simp: fits)
    have "data_inv d (pts @ [?q])"
      by (rule data_inv_snoc [OF i(1)]) (use d fit s in \<open>auto simp: point_fits_def\<close>)
    moreover have "unat (of_nat (?e + length ?bits) :: u32) = ?e + length ?bits"
      by (rule u32_of_nat) (use length_code_dbl(2) [OF w, of "y0 XOR y"] length_code_int(2) [of ?x] e(2) h in simp)
    ultimately show ?thesis using d i s by (simp add: tsc_inv_def flip: d(2) of_nat_add)
  qed
  show "\<exists>res p'. tsc_add p t y = Some (res, p') \<and> res \<noteq> ERR_OK \<and>
      (follows (end_state None pts) (t, y) \<longrightarrow> res = ERR_BITSTREAM_OUT_OF_SPACE) \<and> tsc_inv p' pts \<and> data_len p' = data_len p"
    if fit: "\<not> point_fits p pts ?q"
  proof -
    obtain res d where d: "tsc_add p t y = Some (res, p\<lparr>tsc_data := d\<rparr>)" "res \<noteq> ERR_OK" "length d = length (tsc_data p)"
      "int_fits 32 ?x \<longrightarrow> res = ERR_BITSTREAM_OUT_OF_SPACE"
      "take 4 d = take 4 (tsc_data p)" "same_below ?e (drop 4 (tsc_data p)) (drop 4 d)"
      using r(2) b(3) fit h length_code_int(2) [of ?x] by (auto simp: fits)
    have "data_inv d pts" by (rule data_inv_same [OF i(1) d(3,5,6)])
    then show ?thesis using d i s h by (simp add: tsc_inv_def)
  qed
qed

section \<open>Iterating over a block\<close>

fun iter_matches :: "tsc_iter \<Rightarrow> enc_state \<Rightarrow> bool" where
  "iter_matches it None \<longleftrightarrow> iter_last_leading it = 0 \<and> iter_last_sigbits it = 0"
| "iter_matches it (Some (t, dt, y, ll, ls)) \<longleftrightarrow> iter_t it = t \<and> iter_dt it = dt \<and> iter_y it = y \<and>
     iter_last_leading it = ll \<and> iter_last_sigbits it = ls"

definition iter_at :: "tsc_iter \<Rightarrow> point list \<Rightarrow> bool" where
  "iter_at it ps \<longleftrightarrow> iter_i it = of_nat (length ps) \<and> iter_r it = length (enc_all None ps) \<and>
     iter_matches it (end_state None ps)"

lemma iter_at_init: "iter_at tsc_iter_init []"
  by (simp add: iter_at_def tsc_iter_init_def)

lemma done_not_ok: "ERR_TSC_ITER_DONE \<noteq> ERR_OK"
  by (simp add: err_defs)

lemma xor_xor_cancel [simp]: "x XOR (x XOR y) = (y :: 'a::len word)"
  by (rule bit_word_eqI) (auto simp: bit_simps)

lemma tsc_iter_next_progress:
  assumes "tsc_iter_next d it = Some (ERR_OK, it')"
  shows "\<exists>n. TSC_NUM_PTS d = Some n \<and> iter_i it < n \<and> iter_i it' = iter_i it + 1"
  using assms unfolding tsc_iter_next_def
  by (auto simp: not_le Let_def done_not_ok split: Option.bind_split_asm if_split_asm prod.split_asm)

lemma data_inv_room:
  assumes "data_inv d (ps @ qs)"
  shows "rd_room (drop 4 d) 9999999999999 (length (enc_all None ps))"
proof -
  let ?e = "length (enc_all None (ps @ qs))"
  have "?e \<le> 8 * (length d - 4)" using num_pts_bound(2) [OF assms] .
  moreover have "8 * (length d - 4) \<le> 2 ^ 29" using assms by (auto simp: data_inv_def MAX_NUM_VALID_BITS_def)
  ultimately have "rd_room (drop 4 d) 9999999999999 ?e" using assms by (simp add: rd_room_def data_inv_def)
  then show ?thesis by (rule rd_room_mono) simp
qed

lemma tsc_iter_next_point:
  assumes inv: "data_inv d (ps @ q # qs)" and it: "iter_at it ps"
  shows "\<exists>it'. tsc_iter_next d it = Some (ERR_OK, it') \<and> iter_at it' (ps @ [q]) \<and> (iter_t it', iter_y it') = q"
proof -
  obtain t y where q: "q = (t, y)" by (cases q)
  let ?s = "end_state None ps" and ?e = "length (enc_all None ps)" and ?b = "drop 4 d"
  have room: "rd_room ?b 9999999999999 (?e + length (point_bits ?s q))" using data_inv_room [of d "ps @ [q]" qs] inv by simp
  note rm = rd_room_mono [OF room]
  have hb: "has_bits ?b ?e (point_bits ?s q)" and fol: "follows ?s q"
    and np: "TSC_NUM_PTS d = Some (of_nat (length (ps @ q # qs)))" using inv by (auto simp: data_inv_def has_bits_append)
  have lt: "length (ps @ q # qs) < 2 ^ 28" using num_pts_bound(1) [OF inv] .
  have i: "unat (of_nat (length ps) :: u32) = length ps" "unat (of_nat (length (ps @ q # qs)) :: u32) = length (ps @ q # qs)"
    using lt by (intro u32_of_nat; simp)+
  have less: "\<not> (of_nat (length (ps @ q # qs)) :: u32) \<le> of_nat (length ps)" using i by (simp add: word_le_nat_alt)
  have r: "iter_r it = ?e" "iter_i it = of_nat (length ps)" "iter_matches it ?s" using it by (simp_all add: iter_at_def)
  have e: "?e + length (point_bits ?s q) \<le> 2 ^ 62" using room by (simp add: rd_room_def)
  show ?thesis
  proof (cases ?s)
    case None
    then have ps: "ps = []" by (simp add: end_state_None)
    then have b: "has_bits ?b 0 (nbits 64 t)" "has_bits ?b 64 (code_dbl (0, 0) y)" using hb q by (simp_all add: has_bits_append)
    have "bitstream_read_int64 ?b 9999999999999 0 64 0 = Some (ERR_OK, t)"
      by (rule read_int64_field [OF b(1)]) (use rm [of 64] ps q in \<open>auto simp: int_fits_64\<close>)
    moreover have "tsc_read_double ?b 9999999999999 64 (iter_y it, 0, 0, 0) =
        Some (ERR_OK, y, length (code_dbl (0, 0) y), next_dbl (0, 0) y)"
      by (rule tsc_read_double_ok [OF b(2)]) (use room ps q in auto)
    ultimately show ?thesis using r np less e ps q
      by (auto simp: tsc_iter_next_def iter_at_def split: prod.splits)
  next
    case (Some s)
    then obtain t0 dt y0 ll ls where s: "?s = Some (t0, dt, y0, ll, ls)" by (cases s) auto
    let ?x = "t - t0 - dt"
    have ne: "(of_nat (length ps) :: u32) \<noteq> 0" using i(1) s by (auto simp: end_state_None)
    have f: "iter_t it = t0" "iter_dt it = dt" "iter_y it = y0" "iter_last_leading it = ll" "iter_last_sigbits it = ls" using r(3) s by simp_all
    have w: "good_window (ll, ls)" using good_end [of None ps] s by simp
    have b: "has_bits ?b ?e (code_int ?x)" "has_bits ?b (?e + length (code_int ?x)) (code_dbl (ll, ls) (y0 XOR y))" "int_fits 32 ?x"
      using hb fol q s by (simp_all add: has_bits_append)
    have "tsc_read_int64 ?b 9999999999999 ?e (0, 0) = Some (ERR_OK, ?x, length (code_int ?x))"
      by (rule tsc_read_int64_ok [OF b(1,3)]) (rule rm, use q s in simp)
    moreover have "tsc_read_double ?b 9999999999999 (?e + length (code_int ?x)) (0, length (code_int ?x), ll, ls) =
        Some (ERR_OK, y0 XOR y, length (code_dbl (ll, ls) (y0 XOR y)), next_dbl (ll, ls) (y0 XOR y))"
      by (rule tsc_read_double_ok [OF b(2) w]) (use room q s in \<open>simp add: add.assoc\<close>)
    ultimately show ?thesis using r np less e ne q s f
      by (auto simp: tsc_iter_next_def iter_at_def split: prod.splits)
  qed
qed

lemma u32_inc: "i < n \<Longrightarrow> unat (i + 1 :: u32) = unat i + 1"
  using unsigned_less [of n, where ?'a = nat] by (simp add: word_less_nat_alt unat_word_ariths)

text \<open>The loop that the readers of a block run: advance until \<^verbatim>\<open>tsc_iter_next\<close> reports something else than success.\<close>

function tsc_read_all :: "mem \<Rightarrow> tsc_iter \<Rightarrow> (int \<times> point list) option" where
  "tsc_read_all d it = (case tsc_iter_next d it of None \<Rightarrow> None
     | Some (res, it') \<Rightarrow> if res \<noteq> ERR_OK then Some (res, [])
       else map_option (\<lambda>(r, ps). (r, (iter_t it', iter_y it') # ps)) (tsc_read_all d it'))"
  by pat_completeness auto

termination
proof (relation "measure (\<lambda>(d, it). unat (the (TSC_NUM_PTS d)) - unat (iter_i it))")
  fix d it x2 res it' assume "tsc_iter_next d it = Some x2" "(res, it') = x2" "\<not> res \<noteq> ERR_OK"
  then obtain n where "TSC_NUM_PTS d = Some n" "iter_i it < n" "iter_i it' = iter_i it + 1"
    using tsc_iter_next_progress [of d it it'] by auto
  then show "((d, it'), d, it) \<in> measure (\<lambda>(d, it). unat (the (TSC_NUM_PTS d)) - unat (iter_i it))"
    using u32_inc [of "iter_i it" n] by (simp add: word_less_nat_alt)
qed simp

declare tsc_read_all.simps [simp del]

lemma tsc_iter_next_done:
  assumes "data_inv d ps" "iter_at it ps"
  shows "tsc_iter_next d it = Some (ERR_TSC_ITER_DONE, it)"
  using assms by (simp add: tsc_iter_next_def data_inv_def iter_at_def)

lemma tsc_read_all_from:
  assumes "data_inv d (ps @ qs)" "iter_at it ps"
  shows "tsc_read_all d it = Some (ERR_TSC_ITER_DONE, qs)"
  using assms
proof (induction qs arbitrary: ps it)
  case Nil
  then show ?case using tsc_iter_next_done [of d ps it] by (simp add: tsc_read_all.simps done_not_ok)
next
  case (Cons q qs)
  obtain it' where it': "tsc_iter_next d it = Some (ERR_OK, it')" "iter_at it' (ps @ [q])" "(iter_t it', iter_y it') = q"
    using tsc_iter_next_point [OF Cons.prems] by blast
  have "tsc_read_all d it' = Some (ERR_TSC_ITER_DONE, qs)" using Cons.IH [of "ps @ [q]" it'] Cons.prems it' by simp
  then show ?case using it' by (subst tsc_read_all.simps) simp
qed

section \<open>Starting, clearing, saving and loading\<close>

lemma data_inv_empty:
  assumes "12 \<le> length d" "8 * length d \<le> MAX_NUM_VALID_BITS" "TSC_NUM_PTS d = Some 0"
  shows "data_inv d []"
  using assms by (simp add: data_inv_def)

lemma tsc_init_inv:
  assumes "tsc_init junk p0 n = Some (ERR_OK, p)" "12 \<le> n" "n < 2 ^ 60"
  shows "tsc_inv p []" "unat (data_len p) = n"
proof -
  have n: "8 * n \<le> MAX_NUM_VALID_BITS" and p: "p = \<lparr>last_timestamp = 0, last_timestamp_delta = 0, prev_value = 0,
      num_valid_bits = 0, last_leading = 0, last_sigbits = 0, tsc_data = le_bytes (0 :: u32) @ drop 4 (fresh_mem junk n), data_len = of_nat n\<rparr>"
    using assms by (auto simp: tsc_init_def set_num_pts fresh_mem_def err_defs mult.commute split: if_splits Option.bind_split_asm)
  have "unat (of_nat n :: u32) = n" using n by (intro u32_of_nat) (simp add: MAX_NUM_VALID_BITS_def)
  with p n assms(2) show "tsc_inv p []" "unat (data_len p) = n"
    by (auto simp: tsc_inv_def fresh_mem_def intro: data_inv_empty)
qed

lemma tsc_clear_inv:
  assumes "tsc_inv p pts"
  shows "\<exists>p'. tsc_clear p = Some p' \<and> tsc_inv p' [] \<and> data_len p' = data_len p"
proof -
  have l: "12 \<le> length (tsc_data p)" "8 * length (tsc_data p) \<le> MAX_NUM_VALID_BITS" "unat (data_len p) = length (tsc_data p)"
    using assms by (simp_all add: tsc_inv_def data_inv_def)
  then show ?thesis by (simp add: tsc_clear_def set_num_pts tsc_inv_def data_inv_empty)
qed

lemma length_serialized [simp]: "length (tsc_serialize_header p) = TSC_HEADER_SERIALIZATION_SIZE"
  by (simp add: tsc_serialize_header_def TSC_HEADER_SERIALIZATION_SIZE_def)

lemma tsc_deserialize_serialize:
  "tsc_deserialize_header q (tsc_serialize_header p @ rest) = Some (q\<lparr>last_timestamp := last_timestamp p,
     last_timestamp_delta := last_timestamp_delta p, prev_value := prev_value p, num_valid_bits := num_valid_bits p,
     last_leading := last_leading p, last_sigbits := last_sigbits p\<rparr>)"
  by (simp add: tsc_deserialize_header_def tsc_serialize_header_def mem_read_def le_word_le_bytes)

lemma tsc_load_block_restores:
  assumes "4 \<le> length (tsc_data q)" "data_len q = data_len p" "unat (data_len p) = length (tsc_data p)" "length (tsc_data p) \<le> n"
  shows "tsc_load_block q (tsc_serialize_header p @ rest) (tsc_data p @ rest') n = Some p"
  using assms by (cases p; cases q)
    (simp add: tsc_load_block_def tsc_clear_def set_num_pts tsc_deserialize_serialize mem_read_def)

lemma start_time_data:
  assumes "data_inv d ((t, y) # pts)"
  shows "TSC_START_TIME d = Some t"
proof -
  have l: "12 \<le> length d" and h: "has_bits (drop 4 d) 0 (nbits 64 t)" using assms by (auto simp: data_inv_def has_bits_append)
  have e: "TSC_START_TIME d = load64 (drop 4 d) 0" using l by (simp add: TSC_START_TIME_def load64_def mem_read_def)
  have "8 * 0 + 8 \<le> length (drop 4 d)" using l by simp
  then obtain w where w: "load64 (drop 4 d) 0 = Some w" using load64_ok by blast
  have "w = t" using h bit_load64 [OF w] by (intro bit_word_eqI) (auto simp: has_bits_def)
  with e w show ?thesis by simp
qed

section \<open>Blocks of the program\<close>

text \<open>
  The blocks that the operations produce, with the points that were accepted since the block was last
  empty. A load restores a block that was saved as its serialised header and its buffer, possibly with
  further bytes behind them.
\<close>

inductive tsc_block :: "tsc_header \<Rightarrow> point list \<Rightarrow> bool" where
  init: "tsc_init junk p0 n = Some (ERR_OK, p) \<Longrightarrow> 12 \<le> n \<Longrightarrow> n < 2 ^ 60 \<Longrightarrow> tsc_block p []"
| add_ok: "tsc_block p pts \<Longrightarrow> tsc_add p t y = Some (ERR_OK, p') \<Longrightarrow> tsc_block p' (pts @ [(t, y)])"
| add_err: "tsc_block p pts \<Longrightarrow> tsc_add p t y = Some (res, p') \<Longrightarrow> res \<noteq> ERR_OK \<Longrightarrow> tsc_block p' pts"
| clear: "tsc_block p pts \<Longrightarrow> tsc_clear p = Some p' \<Longrightarrow> tsc_block p' []"
| load: "tsc_block p pts \<Longrightarrow> tsc_block q qs \<Longrightarrow> data_len q = data_len p \<Longrightarrow> length (tsc_data p) \<le> n \<Longrightarrow>
    tsc_load_block q (tsc_serialize_header p @ rest) (tsc_data p @ rest') n = Some q' \<Longrightarrow> tsc_block q' pts"

inductive_cases tsc_block_elim: "tsc_block p pts"

lemma room_or_full:
  assumes "tsc_inv p pts"
  shows "8 * (length (tsc_data p) - 4) - unat (num_valid_bits p) < 18 * 8 \<Longrightarrow> tsc_add p t y = Some (ERR_TSC_OUT_OF_SPACE, p)"
  using block_sizes [OF assms] by (simp add: tsc_add_def Let_def)

lemma tsc_add_out_of_order:
  assumes inv: "tsc_inv p pts" and s: "end_state None pts = Some (t0, r)"
    and room: "18 * 8 \<le> 8 * (length (tsc_data p) - 4) - unat (num_valid_bits p)" and t: "sint t \<le> sint t0"
  shows "tsc_add p t y = Some (ERR_OUT_OF_ORDER_TIMESTAMP, p)"
proof -
  note b = block_sizes [OF inv]
  have "last_timestamp p = t0" "TSC_NUM_PTS (tsc_data p) = Some (of_nat (length pts))" "pts \<noteq> []"
    using inv s by (cases r; auto simp: tsc_inv_def data_inv_def)+
  moreover have "(of_nat (length pts) :: u32) \<noteq> 0" using b(6) \<open>pts \<noteq> []\<close> by (metis length_0_conv unat_0)
  ultimately show ?thesis using room t unfolding tsc_add_def Let_def b(1) b(5) by simp
qed

text \<open>The outcome of \<^verbatim>\<open>tsc_add\<close> in every case.\<close>

lemma tsc_add_cases:
  assumes inv: "tsc_inv p pts"
  obtains (full) "tsc_add p t y = Some (ERR_TSC_OUT_OF_SPACE, p)" "8 * (length (tsc_data p) - 4) - unat (num_valid_bits p) < 18 * 8"
    | (order) r t0 where "tsc_add p t y = Some (ERR_OUT_OF_ORDER_TIMESTAMP, p)" "end_state None pts = Some (t0, r)" "sint t \<le> sint t0"
    | (ok) p' where "tsc_add p t y = Some (ERR_OK, p')" "tsc_inv p' (pts @ [(t, y)])" "data_len p' = data_len p" "point_fits p pts (t, y)"
    | (err) res p' where "tsc_add p t y = Some (res, p')" "res \<noteq> ERR_OK" "tsc_inv p' pts" "data_len p' = data_len p" "\<not> point_fits p pts (t, y)"
      "follows (end_state None pts) (t, y) \<longrightarrow> res = ERR_BITSTREAM_OUT_OF_SPACE"
proof (cases "8 * (length (tsc_data p) - 4) - unat (num_valid_bits p) < 18 * 8")
  case True
  then show thesis using room_or_full [OF inv True] full by blast
next
  case False
  then have room: "18 * 8 \<le> 8 * (length (tsc_data p) - 4) - unat (num_valid_bits p)" by simp
  show thesis
  proof (cases "end_state None pts")
    case None
    then have "pts = []" by (simp add: end_state_None)
    then show thesis using tsc_add_first_result [of p t y] inv room ok err by (cases "point_fits p [] (t, y)") auto
  next
    case (Some s)
    then obtain t0 dt y0 ll ls where s: "end_state None pts = Some (t0, dt, y0, ll, ls)" by (cases s) auto
    show thesis
    proof (cases "sint t \<le> sint t0")
      case True
      then show thesis using tsc_add_out_of_order [OF inv s room True] order s by blast
    next
      case False
      then have "sint t0 < sint t" by simp
      note r = tsc_add_later_result [OF inv s room this, of y]
      then show thesis using ok err by (cases "point_fits p pts (t, y)") blast+
    qed
  qed
qed

lemma tsc_block_inv: "tsc_block p pts \<Longrightarrow> tsc_inv p pts"
proof (induction rule: tsc_block.induct)
  case (init junk p0 n p)
  then show ?case using tsc_init_inv by blast
next
  case (add_ok p pts t y p')
  have "ERR_TSC_OUT_OF_SPACE \<noteq> ERR_OK" "ERR_OUT_OF_ORDER_TIMESTAMP \<noteq> ERR_OK" by (simp_all add: err_defs)
  with add_ok show ?case by (cases rule: tsc_add_cases [OF add_ok.IH, of t y]) auto
next
  case (add_err p pts t y res p')
  then show ?case by (cases rule: tsc_add_cases [OF add_err.IH, of t y]) auto
next
  case (clear p pts p')
  then show ?case using tsc_clear_inv by fastforce
next
  case (load p pts q qs n rest rest' q')
  have "4 \<le> length (tsc_data q)" "unat (data_len p) = length (tsc_data p)"
    using load.IH by (simp_all add: tsc_inv_def data_inv_def)
  then have "q' = p" using tsc_load_block_restores [of q p n rest rest'] load.hyps by simp
  with load.IH show ?case by simp
qed

lemma end_state_last: "end_state None (ps @ [(t, y)]) = Some (t0, dt, y0, w) \<Longrightarrow> t0 = t \<and> y0 = y"
  by (cases "(end_state None ps, (t, y))" rule: next_state.cases) auto

lemma end_state_Some_last:
  assumes "end_state None pts = Some (t0, dt, y0, w)"
  shows "\<exists>ps. pts = ps @ [(t0, y0)]"
proof (cases pts rule: rev_cases)
  case (snoc ps q)
  then show ?thesis using assms end_state_last by (cases q) blast
qed (use assms in simp)

text \<open>When the bit stream is a whole number of words, 144 free bits are enough for every point that follows.\<close>

lemma word_ceil_le_words: "x \<le> 64 * k \<Longrightarrow> word_ceil x \<le> 64 * k"
proof -
  assume x: "x \<le> 64 * k"
  have "(64 * k + 63) div 64 = k" by (rule div_nat_eqI) simp_all
  with word_ceil_mono [OF x] show ?thesis by simp
qed

lemma point_fits_words:
  assumes inv: "tsc_inv p pts" and words: "8 dvd length (tsc_data p) - 4"
    and room: "18 * 8 \<le> 8 * (length (tsc_data p) - 4) - unat (num_valid_bits p)"
    and f: "follows (end_state None pts) q"
  shows "point_fits p pts q"
proof -
  obtain k where k: "length (tsc_data p) - 4 = 8 * k" using words by blast
  have "length (point_bits (end_state None pts) q) \<le> 141" using length_point_bits good_end [of None pts] by simp
  then have "length (enc_all None pts) + length (point_bits (end_state None pts) q) \<le> 64 * k"
    using room inv k by (simp add: tsc_inv_def)
  then have "word_ceil (length (enc_all None pts) + length (point_bits (end_state None pts) q)) \<le> 64 * k"
    by (rule word_ceil_le_words)
  with k f show ?thesis by (simp add: point_fits_def)
qed

lemma tsc_add_follows:
  assumes inv: "tsc_inv p pts" and words: "8 dvd length (tsc_data p) - 4"
    and room: "18 * 8 \<le> 8 * (length (tsc_data p) - 4) - unat (num_valid_bits p)" and f: "follows (end_state None pts) (t, y)"
  shows "\<exists>p'. tsc_add p t y = Some (ERR_OK, p') \<and> tsc_inv p' (pts @ [(t, y)]) \<and> data_len p' = data_len p"
proof (cases rule: tsc_add_cases [OF inv, of t y, case_names full order ok err])
  case (order r t0)
  then show ?thesis using f by (cases r) simp
qed (use room point_fits_words [OF inv words room f] in auto)

text \<open>A block of 100 bytes with two points.\<close>

lemma tsc_block_example:
  "\<exists>p. tsc_block p [(100, 5), (110, 7)] \<and> data_len p = 100 \<and> length (tsc_data p) = 100"
proof -
  obtain p0 :: tsc_header where True by blast
  have "\<exists>p1. tsc_init (\<lambda>_. 0) p0 100 = Some (ERR_OK, p1)"
    by (simp add: tsc_init_def set_num_pts fresh_mem_def MAX_NUM_VALID_BITS_def sz_def)
  then obtain p1 where 1: "tsc_init (\<lambda>_. 0) p0 100 = Some (ERR_OK, p1)" by blast
  have i1: "tsc_inv p1 []" "unat (data_len p1) = 100" using tsc_init_inv [OF 1] by simp_all
  then have l1: "length (tsc_data p1) = 100" "unat (num_valid_bits p1) = 0" by (simp_all add: tsc_inv_def)
  obtain p2 where 2: "tsc_add p1 100 5 = Some (ERR_OK, p2)" "tsc_inv p2 ([] @ [(100, 5)])" "data_len p2 = data_len p1"
    using tsc_add_follows [OF i1(1), of 100 5] l1 by auto
  have l2: "length (tsc_data p2) = 100" "unat (num_valid_bits p2) \<le> 141"
    using 2 i1 length_point_bits [of None "(100, 5)"] by (simp_all add: tsc_inv_def)
  obtain p3 where 3: "tsc_add p2 110 7 = Some (ERR_OK, p3)" "tsc_inv p3 (([] @ [(100, 5)]) @ [(110, 7)])" "data_len p3 = data_len p2"
  proof -
    have "18 * 8 \<le> 8 * (length (tsc_data p2) - 4) - unat (num_valid_bits p2)" using l2 by linarith
    then show thesis using tsc_add_follows [OF 2(2), of 110 7] l2 that by (auto simp: int_fits_def)
  qed
  have "tsc_block p3 (([] @ [(100, 5)]) @ [(110, 7)])"
    by (intro tsc_block.add_ok [OF _ 3(1)] tsc_block.add_ok [OF _ 2(1)] tsc_block.init [OF 1]) simp_all
  moreover have "data_len p3 = 100" using i1(2) 2(3) 3(3) by (simp add: word_unat_eq_iff)
  ultimately show ?thesis using 3 l2 i1 2 by (auto simp: tsc_inv_def)
qed

lemma tsc_block_read: "tsc_block p pts \<Longrightarrow> tsc_read_all (tsc_data p) tsc_iter_init = Some (ERR_TSC_ITER_DONE, pts)"
  using tsc_block_inv [of p pts] tsc_read_all_from [of "tsc_data p" "[]" pts] iter_at_init by (simp add: tsc_inv_def)

lemma encodable_sorted:
  "encodable s pts \<Longrightarrow> (\<forall>t0 r. s = Some (t0, r) \<longrightarrow> (\<forall>q\<in>set pts. sint t0 < sint (fst q))) \<and>
     sorted_wrt (\<lambda>a b. sint (fst a) < sint (fst b)) pts"
proof (induction pts arbitrary: s)
  case (Cons q pts)
  obtain t y where q: "q = (t, y)" by (cases q)
  obtain r where r: "next_state s q = Some (t, r)" by (cases "(s, q)" rule: next_state.cases) (auto simp: q)
  have "(\<forall>q\<in>set pts. sint t < sint (fst q)) \<and> sorted_wrt (\<lambda>a b. sint (fst a) < sint (fst b)) pts"
    using Cons.IH [of "next_state s q"] Cons.prems r by (cases r) simp
  moreover have "sint t0 < sint t" if "s = Some (t0, r')" for t0 r'
    using Cons.prems q that by (cases r') simp
  ultimately show ?case using q by fastforce
qed simp

section \<open>Properties\<close>

text \<open>
  C13: Compression is loss-free. Whatever sequence of initialising, adding (accepted or refused),
  clearing, saving and loading produced a block, iterating over its buffer until \<^verbatim>\<open>tsc_iter_next\<close>
  stops ends with \<^verbatim>\<open>ERR_TSC_ITER_DONE\<close>, never fails an assertion or reads outside the buffer, and
  yields exactly the accepted points, in order, with their time stamps and the bit patterns of their values.
\<close>

theorem tsc_block_roundtrip:
  assumes "tsc_block p pts"
  shows "tsc_read_all (tsc_data p) tsc_iter_init = Some (ERR_TSC_ITER_DONE, pts)"
  using assms by (rule tsc_block_read)

theorem tsc_block_roundtrip_witness:
  "\<exists>p. tsc_block p [(100, 5), (110, 7)] \<and>
     tsc_read_all (tsc_data p) tsc_iter_init = Some (ERR_TSC_ITER_DONE, [(100, 5), (110, 7)])"
  using tsc_block_example tsc_block_roundtrip by blast

text \<open>
  Adding a point to a block never fails an assertion and never writes outside the buffer. It
  reports a full block when fewer than 144 bits are free and an out-of-order time stamp when the
  time is not after that of the last point, in both cases without any change; otherwise it either
  stores the point behind the others or reports an error and leaves the stored points as they were.
\<close>

theorem tsc_add_outcome:
  assumes "tsc_block p pts"
  shows "(8 * (unat (data_len p) - 4) - unat (num_valid_bits p) < 144 \<and> tsc_add p t y = Some (ERR_TSC_OUT_OF_SPACE, p)) \<or>
    (\<exists>ps t0 y0. pts = ps @ [(t0, y0)] \<and> sint t \<le> sint t0 \<and> tsc_add p t y = Some (ERR_OUT_OF_ORDER_TIMESTAMP, p)) \<or>
    (\<exists>p'. tsc_add p t y = Some (ERR_OK, p') \<and>
       tsc_read_all (tsc_data p') tsc_iter_init = Some (ERR_TSC_ITER_DONE, pts @ [(t, y)])) \<or>
    (\<exists>res p'. tsc_add p t y = Some (res, p') \<and> res \<noteq> ERR_OK \<and>
       tsc_read_all (tsc_data p') tsc_iter_init = Some (ERR_TSC_ITER_DONE, pts))"
proof (cases rule: tsc_add_cases [OF tsc_block_inv [OF assms], of t y, case_names full order ok err])
  case full
  then show ?thesis using tsc_block_inv [OF assms] by (simp add: tsc_inv_def)
next
  case (order r t0)
  then show ?thesis using end_state_Some_last [of pts t0] by (cases r) blast
next
  case (ok p')
  then show ?thesis using tsc_block_read [OF tsc_block.add_ok [OF assms ok(1)]] by blast
next
  case (err res p')
  then show ?thesis using tsc_block_read [OF tsc_block.add_err [OF assms err(1,2)]] by blast
qed

theorem tsc_add_outcome_witness:
  "\<exists>p. tsc_block p [(100, 5), (110, 7)] \<and> tsc_add p 120 9 \<noteq> None"
  using tsc_block_example tsc_add_outcome [of _ "[(100, 5), (110, 7)]" 120 9] by blast

text \<open>
  The room test of \<^verbatim>\<open>tsc_add\<close> is sufficient when the bit stream of the block is a whole number of
  64-bit words: with 144 free bits, a point whose time stamp is after the last one and whose change of
  the time delta fits into 32 bits is always accepted (the first point without any condition).
\<close>

theorem tsc_add_accepts:
  assumes "tsc_block p pts" "unat (data_len p) mod 8 = 4" "unat (num_valid_bits p) + 144 \<le> 8 * (unat (data_len p) - 4)"
    and "pts \<noteq> [] \<Longrightarrow> sint (fst (last pts)) < sint t \<and>
      - (2 ^ 31) \<le> sint (t - last_timestamp p - last_timestamp_delta p) \<and>
      sint (t - last_timestamp p - last_timestamp_delta p) < 2 ^ 31"
  shows "\<exists>p'. tsc_add p t y = Some (ERR_OK, p') \<and> tsc_block p' (pts @ [(t, y)])"
proof -
  have inv: "tsc_inv p pts" using assms(1) by (rule tsc_block_inv)
  then have l: "unat (data_len p) = length (tsc_data p)" "4 \<le> length (tsc_data p)" by (simp_all add: tsc_inv_def data_inv_def)
  have "follows (end_state None pts) (t, y)"
  proof (cases "end_state None pts")
    case (Some s)
    then obtain t0 dt y0 ll ls where s: "end_state None pts = Some (t0, dt, y0, ll, ls)" by (cases s) auto
    then obtain ps where "pts = ps @ [(t0, y0)]" using end_state_Some_last by blast
    moreover have "last_timestamp p = t0" "last_timestamp_delta p = dt" using inv s by (simp_all add: tsc_inv_def)
    ultimately show ?thesis using assms(4) s by (simp add: int_fits_def)
  qed simp
  moreover have "8 dvd length (tsc_data p) - 4"
  proof -
    have "length (tsc_data p) - 4 = 8 * (length (tsc_data p) div 8)"
      using assms(2) [unfolded l(1)] div_mult_mod_eq [of "length (tsc_data p)" 8] by linarith
    then show ?thesis by simp
  qed
  moreover have "18 * 8 \<le> 8 * (length (tsc_data p) - 4) - unat (num_valid_bits p)" using assms(3) l(1) by linarith
  ultimately obtain p' where "tsc_add p t y = Some (ERR_OK, p')" using tsc_add_follows [OF inv] by blast
  then show ?thesis using tsc_block.add_ok [OF assms(1)] by blast
qed

theorem tsc_add_accepts_witness:
  "\<exists>p p'. tsc_block p [] \<and> tsc_add p 100 5 = Some (ERR_OK, p') \<and> tsc_block p' [(100, 5)]"
proof -
  obtain p where p: "tsc_block p [(100, 5), (110, 7)]" "data_len p = 100" using tsc_block_example by blast
  obtain q where q: "tsc_clear p = Some q" "tsc_inv q []" "data_len q = data_len p"
    using tsc_clear_inv [OF tsc_block_inv [OF p(1)]] by blast
  then have "tsc_block q []" "unat (num_valid_bits q) = 0" using tsc_block.clear [OF p(1)] by (auto simp: tsc_inv_def)
  then show ?thesis using tsc_add_accepts [of q "[]" 100 5] q(3) p(2) by auto
qed

text \<open>
  Within a block the time stamps are strictly increasing.
\<close>

theorem tsc_timestamps_increasing:
  assumes "tsc_block p pts"
  shows "sorted_wrt (\<lambda>a b. sint (fst a) < sint (fst b)) pts"
  using tsc_block_inv [OF assms] encodable_sorted [of None pts] by (simp add: tsc_inv_def data_inv_def)

theorem tsc_timestamps_increasing_witness:
  "\<exists>p. tsc_block p [(100, 5), (110, 7)] \<and> sorted_wrt (\<lambda>a b. sint (fst a) < sint (fst b)) [(100 :: i64, 5 :: u64), (110, 7)]"
  using tsc_block_example tsc_timestamps_increasing by blast

text \<open>
  The first bytes of a block are its summary: \<^verbatim>\<open>TSC_NUM_PTS\<close> is the number of its points (it
  does not overflow), \<^verbatim>\<open>TSC_START_TIME\<close> is the time stamp of the first point, and the header carries
  the time stamp and the value of the last one.
\<close>

theorem tsc_block_summary:
  assumes "tsc_block p pts"
  shows "\<exists>k. TSC_NUM_PTS (tsc_data p) = Some k \<and> unat k = length pts \<and>
    (pts \<noteq> [] \<longrightarrow> TSC_START_TIME (tsc_data p) = Some (fst (hd pts)) \<and> (last_timestamp p, prev_value p) = last pts)"
proof -
  have inv: "tsc_inv p pts" using assms by (rule tsc_block_inv)
  then have d: "data_inv (tsc_data p) pts" by (simp add: tsc_inv_def)
  have "TSC_START_TIME (tsc_data p) = Some (fst (hd pts))" if "pts \<noteq> []"
    using start_time_data [of "tsc_data p" "fst (hd pts)" "snd (hd pts)" "tl pts"] d that by simp
  moreover have "(last_timestamp p, prev_value p) = last pts" if ne: "pts \<noteq> []"
  proof -
    obtain t0 dt y0 ll ls where s: "end_state None pts = Some (t0, dt, y0, ll, ls)"
      using ne end_state_None [of None pts] by (cases "end_state None pts") auto
    then obtain ps where "pts = ps @ [(t0, y0)]" using end_state_Some_last by blast
    then show ?thesis using inv s by (simp add: tsc_inv_def)
  qed
  ultimately show ?thesis using d block_sizes(6) [OF inv] by (simp add: data_inv_def)
qed

theorem tsc_block_summary_witness:
  "\<exists>p. tsc_block p [(100, 5), (110, 7)] \<and> TSC_START_TIME (tsc_data p) = Some 100 \<and> last_timestamp p = 110"
  using tsc_block_example tsc_block_summary [of _ "[(100, 5), (110, 7)]"] by fastforce

text \<open>
  A block survives being written out and loaded: reading the serialised header and the buffer back
  into any block of the same size gives the original block, whatever it held before.
\<close>

theorem tsc_save_load:
  assumes "tsc_block p pts" "tsc_block q qs" "data_len q = data_len p" "unat (data_len p) \<le> n"
  shows "length (tsc_serialize_header p) = TSC_HEADER_SERIALIZATION_SIZE \<and>
    tsc_load_block q (tsc_serialize_header p @ rest) (tsc_data p @ rest') n = Some p"
  using tsc_load_block_restores [of q p n rest rest'] tsc_block_inv [OF assms(1)] tsc_block_inv [OF assms(2)] assms(3,4)
  by (simp add: tsc_inv_def data_inv_def)

theorem tsc_save_load_witness:
  "\<exists>p. tsc_block p [(100, 5), (110, 7)] \<and>
     tsc_load_block p (tsc_serialize_header p @ [1]) (tsc_data p @ [2, 3]) 102 = Some p"
proof -
  obtain p where p: "tsc_block p [(100, 5), (110, 7)]" "data_len p = 100" using tsc_block_example by blast
  then show ?thesis using tsc_save_load [OF p(1) p(1), of 102 "[1]" "[2, 3]"] by auto
qed

text \<open>
  \<^verbatim>\<open>tsc_is_clear\<close> never fails one of its assertions and tells exactly whether a block holds no
  point; after \<^verbatim>\<open>tsc_clear\<close> it holds none.
\<close>

theorem tsc_is_clear_correct:
  assumes "tsc_block p pts"
  shows "tsc_is_clear p = Some (pts = []) \<and>
    (\<exists>p'. tsc_clear p = Some p' \<and> tsc_is_clear p' = Some True \<and>
      tsc_read_all (tsc_data p') tsc_iter_init = Some (ERR_TSC_ITER_DONE, []))"
proof -
  have c: "tsc_is_clear p = Some (pts = [])" if "tsc_block p pts" for p pts
  proof -
    have inv: "tsc_inv p pts" using that by (rule tsc_block_inv)
    then have "num_valid_bits p = 0 \<longleftrightarrow> pts = []"
      using length_enc_all [of None pts] unat_0_iff [of "num_valid_bits p"] by (cases pts) (auto simp: tsc_inv_def)
    then show ?thesis using inv by (auto simp: tsc_is_clear_def tsc_inv_def data_inv_def)
  qed
  obtain p' where p': "tsc_clear p = Some p'" using tsc_clear_inv [OF tsc_block_inv [OF assms]] by blast
  then have "tsc_block p' []" using tsc_block.clear assms by blast
  with p' c [OF assms] c [of p' "[]"] tsc_block_read [of p' "[]"] show ?thesis by simp
qed

theorem tsc_is_clear_correct_witness:
  "\<exists>p. tsc_block p [(100, 5), (110, 7)] \<and> tsc_is_clear p = Some False"
  using tsc_block_example tsc_is_clear_correct [of _ "[(100, 5), (110, 7)]"] by fastforce

text \<open>Blocks of the default size, filled with points of equal distance and equal value.\<close>

lemma sint_small: "m < 2 ^ 62 \<Longrightarrow> sint (of_nat m :: i64) = int m"
  by (simp add: signed_of_nat signed_take_bit_int_eq_self)

lemma regular_first:
  "\<exists>p. tsc_block p [(1, 0), (101, 0)] \<and> unat (data_len p) = 1016"
proof -
  obtain p0 :: tsc_header where True by blast
  have "\<exists>p1. tsc_init (\<lambda>_. 0) p0 1016 = Some (ERR_OK, p1)"
    by (simp add: tsc_init_def set_num_pts fresh_mem_def MAX_NUM_VALID_BITS_def sz_def)
  then obtain p1 where 1: "tsc_init (\<lambda>_. 0) p0 1016 = Some (ERR_OK, p1)" by blast
  have i1: "tsc_inv p1 []" "unat (data_len p1) = 1016" using tsc_init_inv [OF 1] by simp_all
  then have l1: "length (tsc_data p1) = 1016" "unat (num_valid_bits p1) = 0" by (simp_all add: tsc_inv_def)
  have f1: "point_fits p1 [] (1, 0)" using l1 by (simp add: point_fits_def code_dbl_def)
  obtain p2 where 2: "tsc_add p1 1 0 = Some (ERR_OK, p2)" "tsc_inv p2 [(1, 0)]" "data_len p2 = data_len p1"
    using tsc_add_first_result(1) [OF i1(1) _ f1] l1 by auto
  have l2: "length (tsc_data p2) = 1016" "unat (num_valid_bits p2) = 65" using 2 i1 by (simp_all add: tsc_inv_def code_dbl_def)
  have e: "end_state None [(1, 0)] = Some (1, 0, 0, 0, 0)" by (simp add: next_dbl_def)
  have f2: "point_fits p2 [(1, 0)] (101, 0)"
    using l2 by (simp add: point_fits_def code_dbl_def next_dbl_def code_int_def int_fits_def)
  obtain p3 where 3: "tsc_add p2 101 0 = Some (ERR_OK, p3)" "data_len p3 = data_len p2"
    using tsc_add_later_result(1) [OF 2(2) e _ _ f2] l2 by auto
  have "tsc_block p3 (([] @ [(1, 0)]) @ [(101, 0)])"
    by (intro tsc_block.add_ok [OF _ 3(1)] tsc_block.add_ok [OF _ 2(1)] tsc_block.init [OF 1]) simp_all
  then show ?thesis using 3 2 i1 by auto
qed

lemma regular_block:
  "k \<le> 3937 \<Longrightarrow> \<exists>p pts. tsc_block p pts \<and> unat (data_len p) = 1016 \<and> unat (num_valid_bits p) = 78 + 2 * k \<and>
     end_state None pts = Some (of_nat (101 + 100 * k), 100, 0, 0, 0)"
proof (induction k)
  case 0
  obtain p where p: "tsc_block p [(1, 0), (101, 0)]" "unat (data_len p) = 1016" using regular_first by blast
  have "unat (num_valid_bits p) = 78" using tsc_block_inv [OF p(1)]
    by (simp add: tsc_inv_def code_dbl_def next_dbl_def code_int_def)
  moreover have "end_state None [(1, 0), (101, 0)] = Some (101, 100, 0, 0, 0)" by (simp add: next_dbl_def)
  ultimately show ?case using p by force
next
  case (Suc k)
  then obtain p pts where p: "tsc_block p pts" "unat (data_len p) = 1016" "unat (num_valid_bits p) = 78 + 2 * k"
    and s: "end_state None pts = Some (of_nat (101 + 100 * k), 100, 0, 0, 0)" by auto
  let ?u = "of_nat (101 + 100 * k) :: i64" and ?t = "of_nat (101 + 100 * Suc k) :: i64"
  have inv: "tsc_inv p pts" using p(1) by (rule tsc_block_inv)
  then have l: "length (tsc_data p) = 1016" "length (enc_all None pts) = 78 + 2 * k" using p by (simp_all add: tsc_inv_def)
  have t: "sint ?u < sint ?t"
    using sint_small [of "101 + 100 * k"] sint_small [of "101 + 100 * Suc k"] Suc.prems by simp
  have d: "?t - ?u = 100" by simp
  have bits: "length (point_bits (end_state None pts) (?t, 0)) = 2" unfolding s point_bits.simps d by (simp add: code_int_def code_dbl_def)
  have "word_ceil (length (enc_all None pts) + 2) \<le> 64 * 125" using Suc.prems l by (intro word_ceil_le_words) simp
  then have f: "point_fits p pts (?t, 0)" using l s t d bits by (simp add: point_fits_def int_fits_def)
  have "18 * 8 \<le> 8 * (length (tsc_data p) - 4) - unat (num_valid_bits p)" using l p(3) Suc.prems by simp
  from tsc_add_later_result(1) [OF inv s this t f] obtain p' where
    p': "tsc_add p ?t 0 = Some (ERR_OK, p')" "tsc_inv p' (pts @ [(?t, 0)])" "data_len p' = data_len p" by blast
  have "tsc_block p' (pts @ [(?t, 0)])" using tsc_block.add_ok [OF p(1) p'(1)] .
  moreover have "unat (num_valid_bits p') = 78 + 2 * Suc k" using p'(2) bits l by (simp add: tsc_inv_def)
  moreover have "end_state None (pts @ [(?t, 0)]) = Some (?t, 100, 0, 0, 0)"
    unfolding end_state_append s by (simp add: next_dbl_def)
  ultimately show ?case using p(2) p'(3) by metis
qed

text \<open>
  The room test of \<^verbatim>\<open>tsc_add\<close> is not sufficient for the default block size of 1016 bytes, whose bit
  stream is not a whole number of words: there is a block with 144 free bits that refuses a point
  with \<^verbatim>\<open>ERR_BITSTREAM_OUT_OF_SPACE\<close>, not with the \<^verbatim>\<open>ERR_TSC_OUT_OF_SPACE\<close> that signals a full block,
  although the point follows the last one.
\<close>

theorem tsc_add_refuses_at_word_boundary:
  "\<exists>p pts t y p'. tsc_block p pts \<and> unat (data_len p) = 1016 \<and>
     8 * (unat (data_len p) - 4) - unat (num_valid_bits p) = 144 \<and> follows (end_state None pts) (t, y) \<and>
     tsc_add p t y = Some (ERR_BITSTREAM_OUT_OF_SPACE, p')"
proof -
  obtain p pts where p: "tsc_block p pts" "unat (data_len p) = 1016" "unat (num_valid_bits p) = 7952"
    and s: "end_state None pts = Some (393801, 100, 0, 0, 0)" using regular_block [of 3937] by auto
  let ?t = "400000 :: i64" and ?y = "0x8000000000000001 :: u64"
  have inv: "tsc_inv p pts" using p(1) by (rule tsc_block_inv)
  then have l: "length (tsc_data p) = 1016" "length (enc_all None pts) = 7952" using p by (simp_all add: tsc_inv_def)
  have z: "clzll ?y = 0" "ctzll ?y = 0" by (simp_all add: clzll_def ctzll_def upt_conv_Cons)
  have "code_dbl (0, 0) ?y = [True] @ [True] @ nbits 5 (of_nat (lead ?y) :: u64) @ nbits 6 (of_nat (sig ?y mod 64) :: u64) @
       nbits (sig ?y) (drop_bit (ctzll ?y) ?y)" by (simp add: code_dbl_def in_window_def z)
  then have "length (point_bits (end_state None pts) (?t, ?y)) = 113"
    using s by (simp add: code_int_def sig_def lead_def z)
  then have nf: "\<not> point_fits p pts (?t, ?y)" using l by (simp add: point_fits_def)
  have f: "follows (end_state None pts) (?t, ?y)" using s by (simp add: int_fits_def)
  have "18 * 8 \<le> 8 * (length (tsc_data p) - 4) - unat (num_valid_bits p)" "sint (393801 :: i64) < sint ?t" using l p(3) by simp_all
  from tsc_add_later_result(2) [OF inv s this nf] f
  obtain p' where "tsc_add p ?t ?y = Some (ERR_BITSTREAM_OUT_OF_SPACE, p')" by blast
  with p f show ?thesis by (intro exI [of _ p] exI [of _ pts] exI [of _ ?t] exI [of _ ?y] exI [of _ p']) simp
qed

end
