(* ===== verification/Storage_Item.thy ===== *)
theory Storage_Item
  imports Item_Tree_Iter Tsc_Block
begin

text \<open>
  The items of the storage (\<^verbatim>\<open>struct storage_item\<close> of \<^verbatim>\<open>storage.h\<close>) and the comparison
  \<^verbatim>\<open>storage_item_cmp\<close> of \<^verbatim>\<open>storage.c\<close> by which the trees of \<^verbatim>\<open>tree.c\<close> are ordered. Items live at
  addresses; \<open>items\<close> maps an address to the item there. The comparison is shown to be a total preorder
  at every index, which makes the results on ordered trees apply to the indices of the storage.
\<close>

section \<open>C strings\<close>

text \<open>A pointer to characters is the list of bytes from there to the end of its buffer.\<close>

fun strlen :: "byte list \<Rightarrow> nat" where
  "strlen [] = 0"
| "strlen (a # as) = (if a = 0 then 0 else Suc (strlen as))"

fun strcmp :: "byte list \<Rightarrow> byte list \<Rightarrow> int" where
  "strcmp [] [] = 0"
| "strcmp [] (b # bs) = - uint b"
| "strcmp (a # as) [] = uint a"
| "strcmp (a # as) (b # bs) =
     (if a \<noteq> b then uint a - uint b else if a = 0 then 0 else strcmp as bs)"

fun memcmp :: "byte list \<Rightarrow> byte list \<Rightarrow> nat \<Rightarrow> int" where
  "memcmp as bs 0 = 0"
| "memcmp [] [] (Suc n) = 0"
| "memcmp [] (b # bs) (Suc n) = - 1"
| "memcmp (a # as) [] (Suc n) = 1"
| "memcmp (a # as) (b # bs) (Suc n) = (if a \<noteq> b then uint a - uint b else memcmp as bs n)"

definition nullstrcmp :: "byte list option \<Rightarrow> byte list option \<Rightarrow> int" where
  "nullstrcmp a b = (case a of
     None \<Rightarrow> (case b of None \<Rightarrow> 0 | Some _ \<Rightarrow> - 1)
   | Some x \<Rightarrow> (case b of None \<Rightarrow> 1 | Some y \<Rightarrow> strcmp x y))"

section \<open>Items\<close>

text \<open>
  The arrays \<^verbatim>\<open>left\<close>, \<^verbatim>\<open>right\<close>, \<^verbatim>\<open>color_field\<close> are the trees themselves, and \<^verbatim>\<open>next\<close>, \<^verbatim>\<open>prev\<close> the list of
  all items in the storage; neither is part of the record. \<open>num_data_offsets\<close> is the length of the
  list \<open>data_offsets\<close>.
\<close>

type_synonym offset_and_time = "u64 \<times> i64"

record storage_item =
  internal_id :: u64
  key_len :: u16
  key :: "byte list option"
  item_data :: tsc_header
  key_storage_offset :: u64
  data_offsets :: "offset_and_time list"
  cap_data_offsets :: nat
  index_val :: "byte list option list"

definition INTERNAL_ID_INDEX :: nat where "INTERNAL_ID_INDEX = 0"
definition LFM_INDEX :: nat where "LFM_INDEX = 1"
definition NAME_INDEX :: nat where "NAME_INDEX = 2"
definition NUM_SPECIAL_INDICES :: nat where "NUM_SPECIAL_INDICES = 3"

lemmas index_defs = INTERNAL_ID_INDEX_def LFM_INDEX_def NAME_INDEX_def NUM_SPECIAL_INDICES_def

definition index_val_at :: "storage_item \<Rightarrow> nat \<Rightarrow> byte list option" where
  "index_val_at p i = (if i < length (index_val p) then index_val p ! i else None)"

definition storage_item_cmp :: "storage_item \<Rightarrow> storage_item \<Rightarrow> nat \<Rightarrow> int" where
  "storage_item_cmp a b index =
     (if index = INTERNAL_ID_INDEX then
        (if internal_id a < internal_id b then - 1 else if internal_id a > internal_id b then 1 else 0)
      else if index = LFM_INDEX then
        (let x = uint (key_len a) - uint (key_len b)
         in if x \<noteq> 0 then x
            else memcmp (case key a of None \<Rightarrow> [] | Some k \<Rightarrow> k) (case key b of None \<Rightarrow> [] | Some k \<Rightarrow> k) (unat (key_len a)))
      else if index = NAME_INDEX then nullstrcmp (key a) (key b)
      else nullstrcmp (index_val_at a (index - NUM_SPECIAL_INDICES)) (index_val_at b (index - NUM_SPECIAL_INDICES)))"

section \<open>The comparison is a total preorder\<close>

lemma strcmp_swap: "strcmp b a = - strcmp a b"
  by (induction a b rule: strcmp.induct) auto

lemma strcmp_trans: "strcmp a b \<le> 0 \<Longrightarrow> strcmp b c \<le> 0 \<Longrightarrow> strcmp a c \<le> 0"
proof (induction a b arbitrary: c rule: strcmp.induct)
  case 1
  then show ?case by simp
next
  case (2 b bs)
  then show ?case by (cases c) auto
next
  case (3 a as)
  then have "a = 0" by (simp add: uint_0_iff)
  then show ?case using 3 by (cases c) auto
next
  case (4 a as b bs)
  show ?case
  proof (cases c)
    case Nil
    then show ?thesis using 4 by (auto simp: uint_0_iff split: if_splits)
  next
    case (Cons d ds)
    have le: "uint a \<le> uint b" "uint b \<le> uint d"
      using 4(2,3) Cons by (auto split: if_splits)
    show ?thesis
    proof (cases "a = d")
      case True
      then have "a = b" using le by (simp add: word_uint_eq_iff)
      then show ?thesis using 4 Cons True by (auto split: if_splits)
    next
      case False
      then show ?thesis using le Cons by simp
    qed
  qed
qed

lemma memcmp_swap: "memcmp b a n = - memcmp a b n"
  by (induction a b n rule: memcmp.induct) auto

lemma memcmp_trans: "memcmp a b n \<le> 0 \<Longrightarrow> memcmp b c n \<le> 0 \<Longrightarrow> memcmp a c n \<le> 0"
proof (induction a b n arbitrary: c rule: memcmp.induct)
  case (5 a as b bs n)
  show ?case
  proof (cases c)
    case (Cons d ds)
    have le: "uint a \<le> uint b" "uint b \<le> uint d"
      using 5(2,3) Cons by (auto split: if_splits)
    show ?thesis
    proof (cases "a = d")
      case True
      then have "a = b" using le by (simp add: word_uint_eq_iff)
      then show ?thesis using 5 Cons True by (auto split: if_splits)
    next
      case False
      then show ?thesis using le Cons by simp
    qed
  qed (use 5 in simp)
next
  case (2 n)
  then show ?case by (cases c) auto
next
  case (3 b bs n)
  then show ?case by (cases c) auto
qed auto

lemma nullstrcmp_swap: "nullstrcmp b a = - nullstrcmp a b"
  using strcmp_swap [of "the b" "the a"] by (auto simp: nullstrcmp_def split: option.splits)

lemma nullstrcmp_trans: "nullstrcmp a b \<le> 0 \<Longrightarrow> nullstrcmp b c \<le> 0 \<Longrightarrow> nullstrcmp a c \<le> 0"
  using strcmp_trans by (auto simp: nullstrcmp_def split: option.splits)

lemma storage_item_cmp_swap: "storage_item_cmp b a i = - storage_item_cmp a b i"
proof -
  let ?k = "\<lambda>p. case key p of None \<Rightarrow> [] | Some k \<Rightarrow> k"
  have "memcmp (?k b) (?k a) (unat (key_len b)) = - memcmp (?k a) (?k b) (unat (key_len a))" if "uint (key_len a) = uint (key_len b)"
    using memcmp_swap [of "?k b" "?k a" "unat (key_len a)"] word_uint_eq_iff [of "key_len a" "key_len b"] that by simp
  then show ?thesis
    using nullstrcmp_swap [of "key b" "key a"]
      nullstrcmp_swap [of "index_val_at b (i - NUM_SPECIAL_INDICES)" "index_val_at a (i - NUM_SPECIAL_INDICES)"]
    by (auto simp: storage_item_cmp_def Let_def)
qed

lemma storage_item_cmp_trans:
  assumes "storage_item_cmp a b i \<le> 0" "storage_item_cmp b c i \<le> 0"
  shows "storage_item_cmp a c i \<le> 0"
proof -
  consider (id) "i = INTERNAL_ID_INDEX" | (lfm) "i = LFM_INDEX" | (name) "i = NAME_INDEX"
    | (user) "i \<noteq> INTERNAL_ID_INDEX" "i \<noteq> LFM_INDEX" "i \<noteq> NAME_INDEX" by blast
  then show ?thesis
  proof cases
    case id
    then show ?thesis using assms by (auto simp: storage_item_cmp_def split: if_splits)
  next
    case lfm
    let ?k = "\<lambda>p. case key p of None \<Rightarrow> [] | Some k \<Rightarrow> k"
    have m: "memcmp (?k a) (?k b) n \<le> 0 \<Longrightarrow> memcmp (?k b) (?k c) n \<le> 0 \<Longrightarrow> memcmp (?k a) (?k c) n \<le> 0" for n
      by (rule memcmp_trans)
    consider (lt) "uint (key_len a) < uint (key_len c)" | (eq) "key_len a = key_len b" "key_len b = key_len c"
      using assms lfm by (cases "key_len a = key_len b"; cases "key_len b = key_len c")
        (auto simp: storage_item_cmp_def index_defs Let_def word_uint_eq_iff split: if_splits)
    then show ?thesis
    proof cases
      case eq
      then show ?thesis using assms lfm m [of "unat (key_len a)"] by (simp add: storage_item_cmp_def index_defs)
    qed (use lfm in \<open>simp add: storage_item_cmp_def index_defs Let_def\<close>)
  next
    case name
    then show ?thesis using assms nullstrcmp_trans by (auto simp: storage_item_cmp_def index_defs)
  next
    case user
    then show ?thesis using assms nullstrcmp_trans by (auto simp: storage_item_cmp_def)
  qed
qed

definition item_cmp :: "(ptr \<Rightarrow> storage_item) \<Rightarrow> nat \<Rightarrow> ptr \<Rightarrow> ptr \<Rightarrow> int" where
  "item_cmp items index a b = storage_item_cmp (items a) (items b) index"

interpretation ix: item_order "item_cmp items index" for items index
proof
  fix a b c
  show "item_cmp items index a b < 0 \<longleftrightarrow> item_cmp items index b a > 0"
    using storage_item_cmp_swap [of "items b" "items a" index] by (simp add: item_cmp_def)
  show "item_cmp items index a b \<le> 0 \<Longrightarrow> item_cmp items index b c \<le> 0 \<Longrightarrow> item_cmp items index a c \<le> 0"
    using storage_item_cmp_trans by (simp add: item_cmp_def)
qed

text \<open>A search compares a probe, an item outside the tree, with the items of the tree.\<close>

definition probe_cmp :: "(ptr \<Rightarrow> storage_item) \<Rightarrow> nat \<Rightarrow> storage_item \<Rightarrow> ptr \<Rightarrow> int" where
  "probe_cmp items index probe a = storage_item_cmp probe (items a) index"

lemma search_key_probe: "search_key (item_cmp items index) (probe_cmp items index probe)"
  unfolding search_key_def
proof (intro allI impI conjI)
  fix a b assume ab: "item_cmp items index a b \<le> 0"
  have sw: "probe_cmp items index probe x = - storage_item_cmp (items x) probe index" for x
    using storage_item_cmp_swap [of probe "items x" index] by (simp add: probe_cmp_def)
  show "probe_cmp items index probe b < 0" if "probe_cmp items index probe a < 0"
  proof (rule ccontr)
    assume "\<not> probe_cmp items index probe b < 0"
    then have "storage_item_cmp (items b) probe index \<le> 0" by (simp add: sw)
    then have "storage_item_cmp (items a) probe index \<le> 0" using ab storage_item_cmp_trans by (simp add: item_cmp_def)
    then show False using that by (simp add: sw)
  qed
  show "probe_cmp items index probe a > 0" if "probe_cmp items index probe b > 0"
  proof (rule ccontr)
    assume "\<not> probe_cmp items index probe a > 0"
    then have "storage_item_cmp probe (items b) index \<le> 0"
      using ab storage_item_cmp_trans [of probe "items a"] by (simp add: item_cmp_def probe_cmp_def)
    then show False using that by (simp add: probe_cmp_def)
  qed
qed

section \<open>Indices\<close>

text \<open>The trees that adding new items and deleting present ones produce, with the addresses they hold.\<close>

inductive index_built :: "(ptr \<Rightarrow> storage_item) \<Rightarrow> nat \<Rightarrow> item_tree \<Rightarrow> ptr set \<Rightarrow> bool"
  for items :: "ptr \<Rightarrow> storage_item" and index :: nat where
  empty: "index_built items index Null {}"
| add: "index_built items index t S \<Longrightarrow> e \<notin> S \<Longrightarrow> tree_add (item_cmp items index) t e = Some t' \<Longrightarrow>
    index_built items index t' (insert e S)"
| delete: "index_built items index t S \<Longrightarrow> e \<in> S \<Longrightarrow> tree_delete (item_cmp items index) t e = Some t' \<Longrightarrow>
    index_built items index t' (S - {e})"

lemma item_index_Null [simp]: "item_index cmp Null" "tree_set Null = {}"
  by (simp_all add: item_index_def rb_tree_def tree_set_def)

lemma index_built_inv: "index_built items index t S \<Longrightarrow> item_index (item_cmp items index) t \<and> tree_set t = S"
proof (induction rule: index_built.induct)
  case (add t S e t')
  then show ?case using ix.add_ok [of items index t e] by auto
next
  case (delete t S e t')
  then show ?case using ix.delete_ok [of items index t e] by auto
qed simp

lemma index_built_finite: "index_built items index t S \<Longrightarrow> finite S"
  using index_built_inv by (fastforce simp: tree_set_def)

lemma index_card: "index_built items index t S \<Longrightarrow> length (inorder t) = card S"
  using index_built_inv [of items index t S] ix.sorted_distinct distinct_card
  by (fastforce simp: item_index_def tree_set_def)

text \<open>Three items, told apart by their identifiers, in an index by identifier.\<close>

definition example_item :: "ptr \<Rightarrow> storage_item" where
  "example_item p = \<lparr>internal_id = of_nat (100 - p), key_len = 1, key = Some [65, 0],
     item_data = \<lparr>last_timestamp = 0, last_timestamp_delta = 0, prev_value = 0, num_valid_bits = 0,
       last_leading = 0, last_sigbits = 0, tsc_data = [], data_len = 0\<rparr>,
     key_storage_offset = 0, data_offsets = [], cap_data_offsets = 4, index_val = []\<rparr>"

definition example_tree :: item_tree where
  "example_tree = Node Black (Node Red Null 9 Null) 8 (Node Red Null 7 Null)"

lemma example_built: "index_built example_item 0 example_tree {7, 8, 9}"
proof -
  note e = tree_add_def goes_left_def item_cmp_def storage_item_cmp_def example_item_def index_defs
    fix_left_insertion_discrepancy_def fix_right_insertion_discrepancy_def
  have 1: "tree_add (item_cmp example_item 0) Null 7 = Some (Node Black Null 7 Null)" by (simp add: e)
  have 2: "tree_add (item_cmp example_item 0) (Node Black Null 7 Null) 8 = Some (Node Black (Node Red Null 8 Null) 7 Null)" by (simp add: e)
  have 3: "tree_add (item_cmp example_item 0) (Node Black (Node Red Null 8 Null) 7 Null) 9 = Some example_tree"
    by (simp add: e example_tree_def)
  have "index_built example_item 0 example_tree (insert 9 (insert 8 (insert 7 {})))"
    by (intro index_built.add [OF _ _ 3] index_built.add [OF _ _ 2] index_built.add [OF _ _ 1] index_built.empty) auto
  moreover have "insert 9 (insert 8 (insert 7 {})) = {7, 8, 9::nat}" by auto
  ultimately show ?thesis by simp
qed

section \<open>Properties\<close>

text \<open>
  C30: Adding an item that is not in an index, and deleting one that is, never fails an assertion of the
  red-black tree code; the result holds exactly the expected items and is again a red-black tree (black
  root, no red node with a red child, equal black depth) in the order of the index.
\<close>

theorem index_update:
  assumes "index_built items index t S"
  shows "(e \<notin> S \<longrightarrow> (\<exists>t'. tree_add (item_cmp items index) t e = Some t' \<and>
      item_index (item_cmp items index) t' \<and> tree_set t' = insert e S)) \<and>
    (e \<in> S \<longrightarrow> (\<exists>t'. tree_delete (item_cmp items index) t e = Some t' \<and>
      item_index (item_cmp items index) t' \<and> tree_set t' = S - {e}))"
  using ix.add_ok [of items index t e] ix.delete_ok [of items index t e] index_built_inv [OF assms] by auto

theorem index_update_witness:
  "(\<exists>t'. tree_add (item_cmp example_item 0) example_tree 3 = Some t' \<and> tree_set t' = {3, 7, 8, 9}) \<and>
   (\<exists>t'. tree_delete (item_cmp example_item 0) example_tree 8 = Some t' \<and> tree_set t' = {7, 9})"
proof -
  have "{7, 8, 9} - {8 :: nat} = {7, 9}" by auto
  then show ?thesis using index_update [OF example_built, of 3] index_update [OF example_built, of 8] by auto
qed

text \<open>
  A search in an index is correct for every probe: \<^verbatim>\<open>find_member\<close> finds an item that compares equal
  to the probe exactly if there is one, and \<^verbatim>\<open>is_member\<close> tells whether an address is in the index.
\<close>

theorem index_find:
  assumes "index_built items index t S"
  shows "(case find_member (probe_cmp items index probe) t of
      None \<Rightarrow> \<forall>a\<in>S. storage_item_cmp probe (items a) index \<noteq> 0
    | Some a \<Rightarrow> a \<in> S \<and> storage_item_cmp probe (items a) index = 0) \<and>
    is_member (item_cmp items index) t e = Some (e \<in> S)"
proof -
  have i: "sorted_wrt (goes_left (item_cmp items index)) (inorder t)" "tree_set t = S"
    using index_built_inv [OF assms] by (simp_all add: item_index_def)
  show ?thesis
    using ix.find_member_ok [OF i(1) search_key_probe, of probe] ix.is_member_ok [OF i(1), of e] i(2)
    by (cases "find_member (probe_cmp items index probe) t") (auto simp: probe_cmp_def)
qed

theorem index_find_witness:
  "find_member (probe_cmp example_item 0 (example_item 9)) example_tree = Some 9"
proof -
  have "\<not> (\<forall>a\<in>{7, 8, 9}. storage_item_cmp (example_item 9) (example_item a) 0 \<noteq> 0)"
    by (simp add: storage_item_cmp_def example_item_def index_defs)
  moreover have "a = 9" if "a \<in> {7, 8, 9}" "storage_item_cmp (example_item 9) (example_item a) 0 = 0" for a
    using that by (auto simp: storage_item_cmp_def example_item_def index_defs)
  ultimately show ?thesis
    using index_find [OF example_built, of "example_item 9" 0]
    by (cases "find_member (probe_cmp example_item 0 (example_item 9)) example_tree") auto
qed

text \<open>
  \<^verbatim>\<open>find_member_or_nearest_lesser\<close>, from which a paginated scan resumes, returns an item equal to
  the probe if there is one, otherwise the greatest item below it, and nothing only if all are above.
\<close>

theorem index_nearest:
  assumes "index_built items index t S"
  shows "case find_member_or_nearest_lesser (probe_cmp items index probe) t of
      None \<Rightarrow> \<forall>a\<in>S. storage_item_cmp probe (items a) index < 0
    | Some a \<Rightarrow> a \<in> S \<and> 0 \<le> storage_item_cmp probe (items a) index \<and>
        ((\<exists>b\<in>S. storage_item_cmp probe (items b) index = 0) \<longrightarrow> storage_item_cmp probe (items a) index = 0) \<and>
        (\<forall>b\<in>S. storage_item_cmp probe (items b) index > 0 \<longrightarrow> storage_item_cmp (items b) (items a) index \<le> 0)"
proof -
  have i: "sorted_wrt (goes_left (item_cmp items index)) (inorder t)" "tree_set t = S"
    using index_built_inv [OF assms] by (simp_all add: item_index_def)
  have le: "storage_item_cmp (items b) (items a) index \<le> 0" if "b = a \<or> goes_left (item_cmp items index) b a" for a b
    using that ix.goes_left_le [of items index b a] storage_item_cmp_swap [of "items a" "items a" index] by (auto simp: item_cmp_def)
  show ?thesis
  proof (cases "find_member_or_nearest_lesser (probe_cmp items index probe) t")
    case None
    then show ?thesis using ix.nearest_lesser_loop_ok [OF i(1) search_key_probe, of probe None] i(2)
      by (auto simp: find_member_or_nearest_lesser_def probe_cmp_def)
  next
    case (Some a)
    then have "nearest (item_cmp items index) (probe_cmp items index probe) S a"
      using ix.nearest_lesser_loop_ok [OF i(1) search_key_probe, of probe None] i(2) by (auto simp: find_member_or_nearest_lesser_def)
    then show ?thesis using Some le by (simp add: nearest_def probe_cmp_def)
  qed
qed

theorem index_nearest_witness:
  "find_member_or_nearest_lesser (probe_cmp example_item 0 (example_item 6)) example_tree = Some 7"
proof -
  have p: "storage_item_cmp (example_item 6) (example_item a) 0 > 0" if "a \<in> {7, 8, 9}" for a
    using that by (auto simp: storage_item_cmp_def example_item_def index_defs)
  have q: "a = 7" if "a \<in> {7, 8, 9}" "storage_item_cmp (example_item 7) (example_item a) 0 \<le> 0" for a
    using that by (auto simp: storage_item_cmp_def example_item_def index_defs split: if_splits)
  show ?thesis
    using index_nearest [OF example_built, of "example_item 6"] p q
    by (cases "find_member_or_nearest_lesser (probe_cmp example_item 0 (example_item 6)) example_tree") fastforce+
qed

text \<open>
  C40: The in-order iterator visits every item of an index exactly once, in the order of the index, and
  never leaves its arrays of 128 entries (for fewer than \<open>2 ^ 63\<close> items).
\<close>

theorem index_walk:
  assumes "index_built items index t S" "card S < 2 ^ 63"
  shows "\<exists>it xs. it_init_inorder t = Some it \<and> it_all it = Some xs \<and> set xs = S \<and> distinct xs \<and>
    sorted_wrt (\<lambda>a b. storage_item_cmp (items a) (items b) index \<le> 0) xs"
proof -
  have i: "item_index (item_cmp items index) t" "tree_set t = S" using index_built_inv [OF assms(1)] by simp_all
  obtain it where it: "it_init_full t 1 None = Some it" "it_all it = Some (inorder t)"
    using ix.walk_ok [OF i(1), of None] assms index_card [OF assms(1)] by (auto simp: key_ok_def visit_def)
  have s: "sorted_wrt (goes_left (item_cmp items index)) (inorder t)" using i by (simp add: item_index_def)
  then have "sorted_wrt (\<lambda>a b. storage_item_cmp (items a) (items b) index \<le> 0) (inorder t)"
    by (rule sorted_wrt_mono_rel [rotated]) (use ix.goes_left_le in \<open>fastforce simp: item_cmp_def\<close>)
  then show ?thesis using it ix.sorted_distinct [OF s] i by (auto simp: it_init_inorder_def tree_set_def)
qed

theorem index_walk_witness:
  "\<exists>it xs. it_init_inorder example_tree = Some it \<and> it_all it = Some xs \<and> set xs = {7, 8, 9} \<and> distinct xs \<and>
    sorted_wrt (\<lambda>a b. storage_item_cmp (example_item a) (example_item b) 0 \<le> 0) xs"
  by (rule index_walk [OF example_built]) simp

text \<open>
  The iterator over the items equal to a probe, which answers the indexed lookups, visits exactly
  the items that compare equal to the probe, each once.
\<close>

theorem index_walk_on_equal:
  assumes "index_built items index t S" "card S < 2 ^ 63"
  shows "\<exists>it xs. it_init_on_equal t (probe_cmp items index probe) = Some it \<and> it_all it = Some xs \<and> distinct xs \<and>
    set xs = {a \<in> S. storage_item_cmp probe (items a) index = 0}"
proof -
  have i: "item_index (item_cmp items index) t" "tree_set t = S" using index_built_inv [OF assms(1)] by simp_all
  let ?f = "probe_cmp items index probe"
  obtain it where it: "it_init_full t 1 (Some ?f) = Some it" "it_all it = Some [x \<leftarrow> inorder t. ?f x = 0]"
    using ix.walk_ok [OF i(1), of "Some ?f"] assms index_card [OF assms(1)] search_key_probe
    by (auto simp: key_ok_def visit_def)
  have "distinct (inorder t)" using i ix.sorted_distinct [of items index "inorder t"] by (simp add: item_index_def)
  then show ?thesis using it i by (auto simp: it_init_on_equal_def tree_set_def probe_cmp_def)
qed

theorem index_walk_on_equal_witness:
  "\<exists>it xs. it_init_on_equal example_tree (probe_cmp example_item 0 (example_item 8)) = Some it \<and> it_all it = Some xs \<and>
    distinct xs \<and> set xs = {a \<in> {7, 8, 9}. storage_item_cmp (example_item 8) (example_item a) 0 = 0}"
  by (rule index_walk_on_equal [OF example_built]) simp

text \<open>
  The consistency check of the tree code accepts every index that its own operations build.
\<close>

theorem index_consistency_check:
  assumes "index_built items index t S"
  shows "consistency_check (item_cmp items index) t = Some ()"
proof -
  have "item_index (item_cmp items index) t" using index_built_inv [OF assms] by simp
  then show ?thesis using ix.check_recursive_ok [of t items index 0 "- 1"]
    by (simp add: consistency_check_def item_index_def rb_tree_def)
qed

theorem index_consistency_check_witness:
  "consistency_check (item_cmp example_item 0) example_tree = Some ()"
  by (rule index_consistency_check [OF example_built])

end
