(* ===== verification/Structured_Stream.thy ===== *)
theory Structured_Stream
  imports Programs Storage_Item
begin

text \<open>
  The buffered streams of \<^verbatim>\<open>src/common/structured_stream.c\<close>, through which client and server exchange bytes.

  The file descriptor of a stream is the connection it stands for, a \<open>socket\<close>: the bytes that the other side
  sends (after the last one it closes the connection), the bytes that were sent, and what \<^verbatim>\<open>read\<close> and \<^verbatim>\<open>write\<close>
  will do: transfer at most some number of bytes, return \<^verbatim>\<open>EAGAIN\<close>, or fail; when the list of events
  is used up they transfer as much as possible. The sizes of the buffers are their lengths.
\<close>

section \<open>Sockets\<close>

datatype io_event = Io_Some nat | Io_Again | Io_Error

record socket =
  inbox :: "byte list"
  rx :: "io_event list"
  sent :: "byte list"
  tx :: "io_event list"

datatype 'a io_result = Io_Done 'a | Io_Retry | Io_Fail

definition recv_up_to :: "nat \<Rightarrow> socket \<Rightarrow> byte list io_result \<times> socket" where
  "recv_up_to m s = (Io_Done (take m (inbox s)), s\<lparr>inbox := drop m (inbox s)\<rparr>)"

definition sock_read :: "socket \<Rightarrow> nat \<Rightarrow> byte list io_result \<times> socket" where
  "sock_read s n = (case rx s of
     [] \<Rightarrow> recv_up_to n s
   | Io_Some k # es \<Rightarrow> recv_up_to (min n (max 1 k)) (s\<lparr>rx := es\<rparr>)
   | Io_Again # es \<Rightarrow> (Io_Retry, s\<lparr>rx := es\<rparr>)
   | Io_Error # es \<Rightarrow> (Io_Fail, s\<lparr>rx := es\<rparr>))"

definition send_up_to :: "nat \<Rightarrow> byte list \<Rightarrow> socket \<Rightarrow> nat io_result \<times> socket" where
  "send_up_to m bs s = (Io_Done (length (take m bs)), s\<lparr>sent := sent s @ take m bs\<rparr>)"

definition sock_write :: "socket \<Rightarrow> byte list \<Rightarrow> nat io_result \<times> socket" where
  "sock_write s bs = (case tx s of
     [] \<Rightarrow> send_up_to (length bs) bs s
   | Io_Some k # es \<Rightarrow> send_up_to (max 1 k) bs (s\<lparr>tx := es\<rparr>)
   | Io_Again # es \<Rightarrow> (Io_Retry, s\<lparr>tx := es\<rparr>)
   | Io_Error # es \<Rightarrow> (Io_Fail, s\<lparr>tx := es\<rparr>))"

section \<open>Streams\<close>

record structured_stream =
  fd :: socket
  read_i :: nat
  read_n :: nat
  read_buf :: mem
  write_i :: nat
  write_buf :: mem
  allowed_io :: bool
  allowed_discard :: bool

definition structured_stream_init :: "structured_stream \<Rightarrow> socket \<Rightarrow> structured_stream" where
  "structured_stream_init ss s = ss\<lparr>read_i := 0, read_n := 0, write_i := 0, fd := s, allowed_io := True, allowed_discard := True\<rparr>"

text \<open>The contents of the new buffers are whatever the memory holds.\<close>

definition structured_stream_new :: "(nat \<Rightarrow> byte) \<Rightarrow> socket \<Rightarrow> nat \<Rightarrow> nat \<Rightarrow> structured_stream" where
  "structured_stream_new junk s read_buffer_size write_buffer_size =
     structured_stream_init \<lparr>fd = s, read_i = 0, read_n = 0, read_buf = fresh_mem junk read_buffer_size,
       write_i = 0, write_buf = fresh_mem junk write_buffer_size, allowed_io = False, allowed_discard = False\<rparr> s"

definition structured_stream_read_avail :: "structured_stream \<Rightarrow> nat option" where
  "structured_stream_read_avail ss = do { _ \<leftarrow> c_assert (read_n ss \<ge> read_i ss); Some (read_n ss - read_i ss) }"

definition structured_stream_write_avail :: "structured_stream \<Rightarrow> nat option" where
  "structured_stream_write_avail ss = do { _ \<leftarrow> c_assert (length (write_buf ss) \<ge> write_i ss); Some (length (write_buf ss) - write_i ss) }"

text \<open>The loop around \<^verbatim>\<open>read\<close>; \<^verbatim>\<open>needed\<close> bytes are wanted and \<^verbatim>\<open>max_space\<close> bytes fit into the buffer.\<close>

definition got_bytes :: "byte list \<Rightarrow> socket \<Rightarrow> structured_stream \<Rightarrow> structured_stream option" where
  "got_bytes d s ss = do {
     buf \<leftarrow> mem_write (read_buf ss) (read_n ss) d;
     Some (ss\<lparr>fd := s, read_buf := buf, read_n := read_n ss + length d\<rparr>) }"

lemma sock_read_measure:
  assumes "sock_read s n = (r, s')"
  shows "r = Io_Retry \<Longrightarrow> length (rx s') + length (inbox s') < length (rx s) + length (inbox s)"
    and "r = Io_Done d \<Longrightarrow> d \<noteq> [] \<Longrightarrow> length (rx s') + length (inbox s') < length (rx s) + length (inbox s)"
  using assms by (auto simp: sock_read_def recv_up_to_def split: list.splits io_event.splits)

function (sequential) ensure_read_loop :: "nat \<Rightarrow> nat \<Rightarrow> (structured_stream, unit) prog" where
  "ensure_read_loop needed max_space ss =
     (if max_space = 0 then None
      else case sock_read (fd ss) max_space of
        (Io_Retry, s) \<Rightarrow> ensure_read_loop needed max_space (ss\<lparr>fd := s\<rparr>)
      | (Io_Fail, s) \<Rightarrow> Some (Inl ERR_STRUCTURED_STREAM_BUF_OTHER, ss\<lparr>fd := s\<rparr>)
      | (Io_Done d, s) \<Rightarrow>
          if d = [] then Some (Inl ERR_STRUCTURED_STREAM_EOF, ss\<lparr>fd := s\<rparr>)
          else case got_bytes d s ss of None \<Rightarrow> None
            | Some ss \<Rightarrow> if length d < needed then ensure_read_loop (needed - length d) (max_space - length d) ss
                else Some (Inr (), ss))"
  by pat_completeness auto

termination
proof (relation "measure (\<lambda>(needed, max_space, ss). length (rx (fd ss)) + length (inbox (fd ss)))", goal_cases)
  case 1
  show ?case by simp
next
  case (2 needed max_space ss x s d ss')
  then show ?case using sock_read_measure(2) [of "fd ss" max_space "Io_Done d" s d]
    by (auto simp: got_bytes_def split: Option.bind_split_asm)
next
  case (3 needed max_space ss x s)
  then show ?case using sock_read_measure(1) [of "fd ss" max_space Io_Retry s] by simp
qed

declare ensure_read_loop.simps [simp del]

definition structured_stream_ensure_read :: "nat \<Rightarrow> (structured_stream, unit) prog" where
  "structured_stream_ensure_read n ss = do {
     _ \<leftarrow> c_assert (read_n ss \<ge> read_i ss);
     let avail = read_n ss - read_i ss;
     if avail \<ge> n then Some (Inr (), ss)
     else if \<not> allowed_io ss then Some (Inl ERR_STRUCTURED_STREAM_IO_REQUIRED, ss)
     else do {
       let ss = (if read_i ss > 0 \<and> allowed_discard ss
         then ss\<lparr>read_buf := take avail (drop (read_i ss) (read_buf ss)) @ drop avail (read_buf ss), read_n := avail, read_i := 0\<rparr>
         else ss);
       let needed = sz_sub n (read_n ss);
       let max_space = sz_sub (length (read_buf ss)) (read_n ss);
       if needed > max_space then Some (Inl ERR_STRUCTURED_STREAM_BUF_TOO_SMALL, ss)
       else ensure_read_loop needed max_space ss } }"

text \<open>
  Every \<^verbatim>\<open>write\<close> starts at the beginning of the buffer, also after one that wrote only a part of it. The loop
  ends because each call of \<^verbatim>\<open>write\<close> uses up an event or, when there are none, writes all.
\<close>

lemma sock_write_done: "sock_write s bs = (Io_Done w, s') \<Longrightarrow> w \<le> length bs \<and> (bs \<noteq> [] \<longrightarrow> 0 < w)"
  by (auto simp: sock_write_def send_up_to_def split: list.splits io_event.splits)

lemma sock_write_retry: "sock_write s bs = (Io_Retry, s') \<Longrightarrow> length (tx s') < length (tx s)"
  by (auto simp: sock_write_def send_up_to_def split: list.splits io_event.splits)

lemma sock_write_tx: "sock_write s bs = (r, s') \<Longrightarrow> length (tx s') \<le> length (tx s)"
  by (auto simp: sock_write_def send_up_to_def split: list.splits io_event.splits)

function (sequential) flush_loop :: "(structured_stream, unit) prog" where
  "flush_loop ss =
     (if write_i ss = 0 then Some (Inr (), ss)
      else if write_i ss > length (write_buf ss) then None
      else case sock_write (fd ss) (take (write_i ss) (write_buf ss)) of
        (Io_Retry, s) \<Rightarrow> flush_loop (ss\<lparr>fd := s\<rparr>)
      | (Io_Fail, s) \<Rightarrow> Some (Inl ERR_STRUCTURED_STREAM_BUF_OTHER, ss\<lparr>fd := s\<rparr>)
      | (Io_Done w, s) \<Rightarrow> if w > write_i ss then None else flush_loop (ss\<lparr>fd := s, write_i := write_i ss - w\<rparr>))"
  by pat_completeness auto

termination
proof (relation "measure (\<lambda>ss. length (tx (fd ss)) + write_i ss)", goal_cases)
  case 1
  show ?case by simp
next
  case (2 ss x s w)
  then show ?case using sock_write_done [of "fd ss" "take (write_i ss) (write_buf ss)" w s]
      sock_write_tx [of "fd ss" "take (write_i ss) (write_buf ss)" "Io_Done w" s] by auto
next
  case (3 ss x s)
  then show ?case using sock_write_retry [of "fd ss" "take (write_i ss) (write_buf ss)" s] by simp
qed

declare flush_loop.simps [simp del]

definition structured_stream_flush :: "(structured_stream, unit) prog" where
  "structured_stream_flush ss =
     (if \<not> allowed_io ss then Some (Inl ERR_STRUCTURED_STREAM_IO_REQUIRED, ss) else flush_loop ss)"

definition structured_stream_ensure_write :: "nat \<Rightarrow> (structured_stream, unit) prog" where
  "structured_stream_ensure_write n ss =
     (let avail = sz_sub (length (write_buf ss)) (write_i ss)
      in if avail \<ge> n then Some (Inr (), ss)
      else if n > length (write_buf ss) then Some (Inl ERR_STRUCTURED_STREAM_BUF_TOO_SMALL, ss)
      else structured_stream_flush ss)"

section \<open>Reading\<close>

text \<open>All functions that read a value of a fixed size are the same code for another size.\<close>

definition advance_read :: "nat \<Rightarrow> (structured_stream, byte list) prog" where
  "advance_read n ss = do {
     bs \<leftarrow> mem_read (read_buf ss) (read_i ss) n;
     let ss = ss\<lparr>read_i := read_i ss + n\<rparr>;
     _ \<leftarrow> c_assert (read_n ss \<ge> read_i ss);
     Some (Inr bs, ss) }"

definition structured_stream_read_bytes :: "nat \<Rightarrow> (structured_stream, byte list) prog" where
  "structured_stream_read_bytes n = andthen (structured_stream_ensure_read n) (\<lambda>_. advance_read n)"

definition structured_stream_read_uint8 :: "(structured_stream, u8) prog" where
  "structured_stream_read_uint8 = andthen (structured_stream_read_bytes 1) (\<lambda>bs. ret (le_word bs))"

definition structured_stream_read_uint16 :: "(structured_stream, u16) prog" where
  "structured_stream_read_uint16 = andthen (structured_stream_read_bytes 2) (\<lambda>bs. ret (le_word bs))"

definition structured_stream_read_uint32 :: "(structured_stream, u32) prog" where
  "structured_stream_read_uint32 = andthen (structured_stream_read_bytes 4) (\<lambda>bs. ret (le_word bs))"

definition structured_stream_read_uint64 :: "(structured_stream, u64) prog" where
  "structured_stream_read_uint64 = andthen (structured_stream_read_bytes 8) (\<lambda>bs. ret (le_word bs))"

definition structured_stream_read_int16 :: "(structured_stream, 16 word) prog" where
  "structured_stream_read_int16 = andthen (structured_stream_read_bytes 2) (\<lambda>bs. ret (le_word bs))"

definition structured_stream_read_int32 :: "(structured_stream, 32 word) prog" where
  "structured_stream_read_int32 = andthen (structured_stream_read_bytes 4) (\<lambda>bs. ret (le_word bs))"

definition structured_stream_read_int64 :: "(structured_stream, i64) prog" where
  "structured_stream_read_int64 = andthen (structured_stream_read_bytes 8) (\<lambda>bs. ret (le_word bs))"

text \<open>A \<^verbatim>\<open>float\<close> or \<^verbatim>\<open>double\<close> is its bit pattern.\<close>

definition structured_stream_read_float :: "(structured_stream, u32) prog" where
  "structured_stream_read_float = andthen (structured_stream_read_bytes 4) (\<lambda>bs. ret (le_word bs))"

definition structured_stream_read_double :: "(structured_stream, u64) prog" where
  "structured_stream_read_double = andthen (structured_stream_read_bytes 8) (\<lambda>bs. ret (le_word bs))"

definition eof_is_underrun :: "int \<Rightarrow> int" where
  "eof_is_underrun res = (if res = ERR_STRUCTURED_STREAM_EOF then ERR_STRUCTURED_STREAM_BUF_UNDERRUN else res)"

text \<open>
  The functions that return a pointer into the buffer give the bytes there. The length is read, put back,
  and read again together with the bytes.
\<close>

definition structured_stream_read_bytes_inplace :: "nat \<Rightarrow> (structured_stream, byte list) prog" where
  "structured_stream_read_bytes_inplace n = andthen (on_error eof_is_underrun (structured_stream_ensure_read n)) (\<lambda>_. advance_read n)"

definition structured_stream_read_uint16_prefixed_bytes_inplace :: "(structured_stream, byte list) prog" where
  "structured_stream_read_uint16_prefixed_bytes_inplace =
     andthen structured_stream_read_uint16 (\<lambda>nn.
     andthen (modify (\<lambda>ss. ss\<lparr>read_i := read_i ss - 2\<rparr>)) (\<lambda>_.
     andthen (on_error eof_is_underrun (structured_stream_ensure_read (unat nn + 2))) (\<lambda>_.
     andthen (modify (\<lambda>ss. ss\<lparr>read_i := read_i ss + 2\<rparr>)) (\<lambda>_.
     advance_read (unat nn)))))"

definition structured_stream_read_uint16_prefixed_bytes :: "nat \<Rightarrow> (structured_stream, byte list) prog" where
  "structured_stream_read_uint16_prefixed_bytes buf_size =
     andthen structured_stream_read_uint16_prefixed_bytes_inplace (\<lambda>s.
     if length s > buf_size then fail ERR_STRUCTURED_STREAM_BUF_TOO_SMALL else ret s)"

definition structured_stream_read_uint16_prefixed_string :: "nat \<Rightarrow> (structured_stream, byte list) prog" where
  "structured_stream_read_uint16_prefixed_string buf_size =
     andthen structured_stream_read_uint16_prefixed_bytes_inplace (\<lambda>s.
     if length s > sz_sub buf_size 1 \<or> buf_size = 0 then fail ERR_STRUCTURED_STREAM_BUF_TOO_SMALL else ret (s @ [0]))"

section \<open>Writing\<close>

definition structured_stream_write_bytes :: "byte list \<Rightarrow> (structured_stream, unit) prog" where
  "structured_stream_write_bytes bs = andthen (structured_stream_ensure_write (length bs)) (\<lambda>_ ss. do {
     buf \<leftarrow> mem_write (write_buf ss) (write_i ss) bs;
     Some (Inr (), ss\<lparr>write_buf := buf, write_i := write_i ss + length bs\<rparr>) })"

definition structured_stream_write_uint8 :: "u8 \<Rightarrow> (structured_stream, unit) prog" where
  "structured_stream_write_uint8 x = structured_stream_write_bytes (le_bytes x)"

definition structured_stream_write_uint16 :: "u16 \<Rightarrow> (structured_stream, unit) prog" where
  "structured_stream_write_uint16 x = structured_stream_write_bytes (le_bytes x)"

definition structured_stream_write_uint32 :: "u32 \<Rightarrow> (structured_stream, unit) prog" where
  "structured_stream_write_uint32 x = structured_stream_write_bytes (le_bytes x)"

definition structured_stream_write_uint64 :: "u64 \<Rightarrow> (structured_stream, unit) prog" where
  "structured_stream_write_uint64 x = structured_stream_write_bytes (le_bytes x)"

definition structured_stream_write_int8 :: "8 word \<Rightarrow> (structured_stream, unit) prog" where
  "structured_stream_write_int8 x = structured_stream_write_bytes (le_bytes x)"

definition structured_stream_write_int16 :: "16 word \<Rightarrow> (structured_stream, unit) prog" where
  "structured_stream_write_int16 x = structured_stream_write_bytes (le_bytes x)"

definition structured_stream_write_int32 :: "32 word \<Rightarrow> (structured_stream, unit) prog" where
  "structured_stream_write_int32 x = structured_stream_write_bytes (le_bytes x)"

definition structured_stream_write_int64 :: "i64 \<Rightarrow> (structured_stream, unit) prog" where
  "structured_stream_write_int64 x = structured_stream_write_bytes (le_bytes x)"

definition structured_stream_write_float :: "u32 \<Rightarrow> (structured_stream, unit) prog" where
  "structured_stream_write_float x = structured_stream_write_bytes (le_bytes x)"

definition structured_stream_write_double :: "u64 \<Rightarrow> (structured_stream, unit) prog" where
  "structured_stream_write_double x = structured_stream_write_bytes (le_bytes x)"

text \<open>The first \<open>n\<close> bytes of a buffer; of a string, the length is converted to 16 bits.\<close>

definition structured_stream_write_uint16_prefixed_bytes :: "byte list \<Rightarrow> u16 \<Rightarrow> (structured_stream, unit) prog" where
  "structured_stream_write_uint16_prefixed_bytes buf n =
     andthen (structured_stream_write_uint16 n) (\<lambda>_.
     if n = 0 then ret () else structured_stream_write_bytes (take (unat n) buf))"

definition structured_stream_write_uint16_prefixed_string :: "byte list \<Rightarrow> (structured_stream, unit) prog" where
  "structured_stream_write_uint16_prefixed_string buf =
     structured_stream_write_uint16_prefixed_bytes buf (of_nat (strlen buf))"

end
