(* ===== verification/Disk_Storage.thy ===== *)
theory Disk_Storage
  imports Tsc_Codec
begin

unbundle bit_operations_syntax

text \<open>
  The block store of \<^verbatim>\<open>src/common/disk_storage.c\<close>: a file of blocks whose sizes are powers of two, with
  one free list per size that lives in the free blocks, and a scratch file that holds the last block
  written, so that an interrupted write can be repeated at the next start.

  A file is its list of bytes and the position of its descriptor. The functions perform their seeks,
  reads and writes in the order of the code; \<^verbatim>\<open>lseek\<close>, \<^verbatim>\<open>read\<close> and \<^verbatim>\<open>write\<close> succeed, a read returns
  what is there, and a write behind the end fills the gap with zeros, as POSIX describes for regular
  files (\<^verbatim>\<open>MUST_WRITE\<close> and \<^verbatim>\<open>MUST_READ\<close> repeat short operations and abort on errors). Every write is
  also recorded in \<open>ds_writes\<close>, which is what the analysis of crashes works on. Offsets are natural
  numbers. Counters and log output are left out, and so are the additional assertions of debug builds.
\<close>

section \<open>Files\<close>

datatype disk_write = File_Write nat "byte list" | Scratch_Write nat "byte list"

record disk_storage =
  ds_file :: mem
  ds_pos :: nat
  ds_scratch :: mem
  ds_scratch_pos :: nat
  eof_offset :: nat
  next_free_block :: "nat list"
  ds_writes :: "disk_write list"

definition file_write :: "mem \<Rightarrow> nat \<Rightarrow> byte list \<Rightarrow> mem" where
  "file_write f off bs =
     (if bs = [] then f else take off f @ replicate (off - length f) 0 @ bs @ drop (off + length bs) f)"

definition file_read :: "mem \<Rightarrow> nat \<Rightarrow> nat \<Rightarrow> byte list" where
  "file_read f off n = take n (drop off f)"

definition must_write :: "disk_storage \<Rightarrow> byte list \<Rightarrow> disk_storage" where
  "must_write st bs = st\<lparr>ds_file := file_write (ds_file st) (ds_pos st) bs, ds_pos := ds_pos st + length bs,
     ds_writes := ds_writes st @ [File_Write (ds_pos st) bs]\<rparr>"

definition must_write_scratch :: "disk_storage \<Rightarrow> byte list \<Rightarrow> disk_storage" where
  "must_write_scratch st bs = st\<lparr>ds_scratch := file_write (ds_scratch st) (ds_scratch_pos st) bs,
     ds_scratch_pos := ds_scratch_pos st + length bs, ds_writes := ds_writes st @ [Scratch_Write (ds_scratch_pos st) bs]\<rparr>"

definition must_lseek :: "disk_storage \<Rightarrow> nat \<Rightarrow> disk_storage" where
  "must_lseek st off = st\<lparr>ds_pos := off\<rparr>"

definition must_lseek_scratch :: "disk_storage \<Rightarrow> nat \<Rightarrow> disk_storage" where
  "must_lseek_scratch st off = st\<lparr>ds_scratch_pos := off\<rparr>"

definition read_file :: "disk_storage \<Rightarrow> nat \<Rightarrow> byte list \<times> disk_storage" where
  "read_file st n = (let bs = file_read (ds_file st) (ds_pos st) n in (bs, st\<lparr>ds_pos := ds_pos st + length bs\<rparr>))"

definition read_scratch :: "disk_storage \<Rightarrow> nat \<Rightarrow> byte list \<times> disk_storage" where
  "read_scratch st n = (let bs = file_read (ds_scratch st) (ds_scratch_pos st) n
     in (bs, st\<lparr>ds_scratch_pos := ds_scratch_pos st + length bs\<rparr>))"

text \<open>\<^verbatim>\<open>MUST_READ\<close> aborts when the file ends early.\<close>

definition must_read :: "disk_storage \<Rightarrow> nat \<Rightarrow> (byte list \<times> disk_storage) option" where
  "must_read st n = (case read_file st n of (bs, st) \<Rightarrow> if length bs = n then Some (bs, st) else None)"

section \<open>Constants and pools\<close>

definition NUM_DISK_POOLS :: nat where "NUM_DISK_POOLS = 20"
definition MIN_DISK_POW_TWO :: nat where "MIN_DISK_POW_TWO = 7"
definition STORAGE_INITIAL_RESERVED :: nat where "STORAGE_INITIAL_RESERVED = 64"
definition BLOCK_HEADER_SIZE :: nat where "BLOCK_HEADER_SIZE = 2"
definition BLOCK_STATUS_EMPTY :: u8 where "BLOCK_STATUS_EMPTY = 0"
definition BLOCK_STATUS_RESERVED :: u8 where "BLOCK_STATUS_RESERVED = 1"
definition BLOCK_STATUS_VALID :: u8 where "BLOCK_STATUS_VALID = 2"
definition BLOCK_STATUS_ACTIVE :: u8 where "BLOCK_STATUS_ACTIVE = 3"
definition BLOCK_NUM_STATUSES :: u8 where "BLOCK_NUM_STATUSES = 4"
definition disk_version :: u64 where "disk_version = 1560537772"

lemmas disk_defs = NUM_DISK_POOLS_def MIN_DISK_POW_TWO_def STORAGE_INITIAL_RESERVED_def BLOCK_HEADER_SIZE_def
  BLOCK_STATUS_EMPTY_def BLOCK_STATUS_RESERVED_def BLOCK_STATUS_VALID_def BLOCK_STATUS_ACTIVE_def BLOCK_NUM_STATUSES_def

text \<open>
  \<^verbatim>\<open>__builtin_clzll\<close> is undefined at zero, that is for \<open>n = 1\<close>; a shift of the \<^verbatim>\<open>long\<close> 1 by 63 or more
  is undefined too.
\<close>

definition get_pool_id :: "nat \<Rightarrow> (u8 \<times> nat) option" where
  "get_pool_id n = do {
     let x = (of_nat n - 1 :: u64);
     _ \<leftarrow> c_assert (x \<noteq> 0);
     let pow = 64 - clzll x;
     let pow = (if pow < MIN_DISK_POW_TWO then MIN_DISK_POW_TWO else pow);
     _ \<leftarrow> c_assert (pow < 63);
     let pool_size = 2 ^ pow;
     _ \<leftarrow> c_assert (n \<le> pool_size);
     Some (of_nat pow - of_nat MIN_DISK_POW_TWO, pool_size) }"

definition get_pool_size :: "u8 \<Rightarrow> nat option" where
  "get_pool_size pool_id =
     (if unat pool_id + MIN_DISK_POW_TWO < 63 then Some (2 ^ (unat pool_id + MIN_DISK_POW_TWO)) else None)"

section \<open>The scratch file\<close>

definition invalid_offset :: u64 where "invalid_offset = 0xFFFFFFFFFFFFFFFF"

definition disk_storage_get_checksum :: "nat \<Rightarrow> byte list \<Rightarrow> u64" where
  "disk_storage_get_checksum offset buf = NOT (of_nat offset)"

definition disk_storage_write_block_for_real :: "disk_storage \<Rightarrow> nat \<Rightarrow> byte list \<Rightarrow> disk_storage" where
  "disk_storage_write_block_for_real st offset buf = must_write (must_lseek st offset) buf"

definition disk_storage_recover_scratch :: "disk_storage \<Rightarrow> int \<times> disk_storage" where
  "disk_storage_recover_scratch st =
     (let eof = length (ds_scratch st);
          st = must_lseek_scratch st 0;
          (v, st) = read_scratch st 8
      in if v = [] then (0, must_write_scratch st (le_bytes disk_version))
      else if (le_word v :: u64) \<noteq> disk_version then (1, st)
      else if eof = 8 then (0, st)
      else let (hdr, st) = read_scratch st 16 in
        if length hdr \<noteq> 16 then (1, st)
        else if (le_word (take 8 hdr) :: u64) = invalid_offset then (0, st)
        else let offset = unat (le_word (take 8 hdr) :: u64);
                 actual_checksum = le_word (drop 8 hdr) :: u64;
                 (sz_bytes, st) = read_scratch st 8
          in if length sz_bytes \<noteq> 8 then (1, st)
          else let buf_n = unat (le_word sz_bytes :: u64);
                   (buf, st) = read_scratch st buf_n
            in if length buf \<noteq> buf_n then (1, st)
            else if actual_checksum \<noteq> disk_storage_get_checksum offset buf then (1, st)
            else let st = disk_storage_write_block_for_real st offset buf;
                     st = must_lseek_scratch st 8
              in (0, must_write_scratch st (le_bytes invalid_offset @ le_bytes invalid_offset)))"

definition disk_storage_write_scratch :: "disk_storage \<Rightarrow> nat \<Rightarrow> byte list \<Rightarrow> disk_storage" where
  "disk_storage_write_scratch st offset buf =
     (let checksum = disk_storage_get_checksum offset buf;
          st = must_lseek_scratch st 8;
          st = must_write_scratch st (le_bytes invalid_offset @ le_bytes invalid_offset);
          st = must_write_scratch st (le_bytes (of_nat (length buf) :: u64));
          st = must_write_scratch st buf;
          st = must_lseek_scratch st 8
      in must_write_scratch st (le_bytes (of_nat offset :: u64) @ le_bytes checksum))"

section \<open>Opening\<close>

definition disk_storage_open :: "mem \<Rightarrow> mem \<Rightarrow> (int \<times> disk_storage) option" where
  "disk_storage_open file scratch =
     (let st = \<lparr>ds_file = file, ds_pos = 0, ds_scratch = scratch, ds_scratch_pos = 0, eof_offset = 0,
                next_free_block = replicate NUM_DISK_POOLS 0, ds_writes = []\<rparr>;
          (v, st) = read_file st 8
      in if v = [] then
           let st = must_write st (le_bytes disk_version);
               st = st\<lparr>eof_offset := STORAGE_INITIAL_RESERVED\<rparr>;
               st = must_lseek st (eof_offset st - 1);
               st = must_write st [0];
               (_, st) = disk_storage_recover_scratch st
           in Some (0, st)
         else if length v \<noteq> 8 then Some (1, st)
         else if (le_word v :: u64) \<noteq> disk_version then Some (1, st)
         else do {
           let st = must_lseek st (length (ds_file st));
           let st = st\<lparr>eof_offset := length (ds_file st)\<rparr>;
           _ \<leftarrow> c_assert (eof_offset st \<ge> STORAGE_INITIAL_RESERVED);
           let (_, st) = disk_storage_recover_scratch st;
           Some (0, st) })"

section \<open>Reading\<close>

text \<open>One step of the loop of \<^verbatim>\<open>disk_storage_read_blocks_from_start\<close>: skip a block, or stop with a result.\<close>

datatype read_step = Skip | Read_End | Read_Error int | Read_Block nat u8 "byte list"

definition read_blocks_step :: "disk_storage \<Rightarrow> nat \<Rightarrow> (read_step \<times> disk_storage) option" where
  "read_blocks_step st max_n = (let off = ds_pos st in do {
     _ \<leftarrow> c_assert (off > 0);
     let (header, st) = read_file st BLOCK_HEADER_SIZE;
     if header = [] then Some (Read_End, st)
     else if length header \<noteq> BLOCK_HEADER_SIZE then Some (Read_Error 1, st)
     else if header ! 0 \<ge> BLOCK_NUM_STATUSES \<or> unat (header ! 1) \<ge> NUM_DISK_POOLS then Some (Read_Error 1, st)
     else do {
       block_size \<leftarrow> get_pool_size (header ! 1);
       if block_size > max_n then Some (Read_Error 2, st)
       else if header ! 0 = BLOCK_STATUS_VALID \<or> header ! 0 = BLOCK_STATUS_ACTIVE then do {
         let (buf, st) = read_file st block_size;
         _ \<leftarrow> c_assert (length buf = block_size);
         Some (Read_Block off (header ! 0) buf, st) }
       else Some (Skip, must_lseek st (ds_pos st + block_size)) } })"

lemma read_blocks_step_skip:
  assumes "read_blocks_step st max_n = Some (Skip, st')"
  shows "ds_pos st < ds_pos st' \<and> ds_pos st < length (ds_file st) \<and> ds_file st' = ds_file st"
  using assms unfolding read_blocks_step_def read_file_def file_read_def must_lseek_def
  by (auto simp: Let_def disk_defs split: if_split_asm Option.bind_split_asm)

function read_blocks_loop :: "disk_storage \<Rightarrow> nat \<Rightarrow> (read_step \<times> disk_storage) option" where
  "read_blocks_loop st max_n = (case read_blocks_step st max_n of None \<Rightarrow> None
     | Some (r, st') \<Rightarrow> if r = Skip then read_blocks_loop st' max_n else Some (r, st'))"
  by pat_completeness auto

termination
proof (relation "measure (\<lambda>(st, max_n). length (ds_file st) - ds_pos st)")
  fix st max_n x r st' assume "read_blocks_step st max_n = Some x" "(r, st') = x" "r = Skip"
  then have "read_blocks_step st max_n = Some (Skip, st')" by simp
  from read_blocks_step_skip [OF this]
  show "((st', max_n), st, max_n) \<in> measure (\<lambda>(st, max_n). length (ds_file st) - ds_pos st)" by auto
qed simp

declare read_blocks_loop.simps [simp del]

text \<open>The result is the code, and the offset, status and contents of the block unless the end was reached (\<^verbatim>\<open>*n = 0\<close>).\<close>

definition disk_storage_read_blocks_from_start ::
  "disk_storage \<Rightarrow> bool \<Rightarrow> nat \<Rightarrow> (int \<times> (nat \<times> u8 \<times> byte list) option \<times> disk_storage) option" where
  "disk_storage_read_blocks_from_start st initial max_n = do {
     let st = (if initial then must_lseek st STORAGE_INITIAL_RESERVED else st);
     (r, st) \<leftarrow> read_blocks_loop st max_n;
     case r of Read_Block off status buf \<Rightarrow> Some (0, Some (off, status, buf), st)
       | Read_Error e \<Rightarrow> Some (e, None, st)
       | _ \<Rightarrow> Some (0, None, st) }"

definition disk_storage_read_block ::
  "disk_storage \<Rightarrow> nat \<Rightarrow> nat \<Rightarrow> (int \<times> (u8 \<times> byte list) option \<times> disk_storage) option" where
  "disk_storage_read_block st offset max_n = do {
     let st = must_lseek st offset;
     let (header, st) = read_file st 2;
     _ \<leftarrow> c_assert (length header = BLOCK_HEADER_SIZE);
     if header ! 0 = 0 then Some (1, None, st)
     else do {
       block_size \<leftarrow> get_pool_size (header ! 1);
       if block_size > max_n then Some (2, None, st)
       else do {
         let (buf, st) = read_file st block_size;
         _ \<leftarrow> c_assert (length buf = block_size);
         Some (0, Some (header ! 0, buf), st) } } }"

section \<open>Writing, reserving and releasing\<close>

definition disk_storage_write_block :: "disk_storage \<Rightarrow> nat \<Rightarrow> u8 \<Rightarrow> byte list \<Rightarrow> (int \<times> disk_storage) option" where
  "disk_storage_write_block st offset block_status buf = do {
     _ \<leftarrow> c_assert (offset > 0);
     _ \<leftarrow> c_assert (block_status = BLOCK_STATUS_VALID \<or> block_status = BLOCK_STATUS_ACTIVE);
     let st = must_lseek st offset;
     let (header, st) = read_file st BLOCK_HEADER_SIZE;
     _ \<leftarrow> c_assert (length header = BLOCK_HEADER_SIZE);
     block_size \<leftarrow> get_pool_size (header ! 1);
     _ \<leftarrow> c_assert (length buf \<le> block_size);
     let scratch_buf = [block_status, header ! 1] @ buf;
     let st = disk_storage_write_scratch st offset scratch_buf;
     Some (0, disk_storage_write_block_for_real st offset scratch_buf) }"

definition disk_storage_reserve_block :: "disk_storage \<Rightarrow> nat \<Rightarrow> (int \<times> nat \<times> disk_storage) option" where
  "disk_storage_reserve_block st n = do {
     (pool_id, block_size) \<leftarrow> get_pool_id n;
     if unat pool_id \<ge> NUM_DISK_POOLS then Some (1, 0, st)
     else if next_free_block st ! unat pool_id \<noteq> 0 then do {
       let offset = next_free_block st ! unat pool_id;
       _ \<leftarrow> c_assert (offset \<ge> STORAGE_INITIAL_RESERVED);
       (bs, st) \<leftarrow> must_read (must_lseek st (offset + BLOCK_HEADER_SIZE)) 8;
       Some (0, offset, st\<lparr>next_free_block := (next_free_block st)[unat pool_id := unat (le_word bs :: u64)]\<rparr>) }
     else do {
       let offset = eof_offset st;
       _ \<leftarrow> c_assert (offset \<ge> STORAGE_INITIAL_RESERVED);
       let st = st\<lparr>eof_offset := eof_offset st + (BLOCK_HEADER_SIZE + block_size)\<rparr>;
       let st = must_write (must_lseek st offset) [BLOCK_STATUS_RESERVED, pool_id];
       Some (0, offset, must_write (must_lseek st (eof_offset st - 1)) [0]) } }"

definition disk_storage_reserve_and_write_block ::
  "disk_storage \<Rightarrow> u8 \<Rightarrow> byte list \<Rightarrow> (int \<times> nat \<times> disk_storage) option" where
  "disk_storage_reserve_and_write_block st block_status buf = do {
     (res, offset, st) \<leftarrow> disk_storage_reserve_block st (length buf);
     if res \<noteq> 0 then Some (res, offset, st)
     else do {
       (res, st) \<leftarrow> disk_storage_write_block st offset block_status buf;
       Some (res, offset, st) } }"

text \<open>The header bytes are \<^verbatim>\<open>char\<close> in this function, that is signed on the supported platforms.\<close>

definition disk_storage_release_block :: "disk_storage \<Rightarrow> nat \<Rightarrow> (int \<times> disk_storage) option" where
  "disk_storage_release_block st offset = do {
     _ \<leftarrow> c_assert (offset \<ge> STORAGE_INITIAL_RESERVED);
     (header, st) \<leftarrow> must_read (must_lseek st offset) BLOCK_HEADER_SIZE;
     if sint (header ! 0) \<ge> sint BLOCK_NUM_STATUSES \<or> sint (header ! 1) \<ge> int NUM_DISK_POOLS then Some (1, st)
     else do {
       _ \<leftarrow> c_assert (header ! 0 \<noteq> BLOCK_STATUS_EMPTY);
       _ \<leftarrow> c_assert (sint (header ! 0) < sint BLOCK_NUM_STATUSES);
       let pool_id = unat (header ! 1);
       _ \<leftarrow> c_assert (pool_id < NUM_DISK_POOLS);
       let buf = [0, header ! 1] @ le_bytes (of_nat (next_free_block st ! pool_id) :: u64);
       let st = disk_storage_write_scratch st offset buf;
       let st = disk_storage_write_block_for_real st offset buf;
       Some (0, st\<lparr>next_free_block := (next_free_block st)[pool_id := offset]\<rparr>) } }"

end
