(* ===== verification/Disk_Blocks.thy ===== *)
theory Disk_Blocks
  imports Disk_Storage
begin

unbundle bit_operations_syntax

text \<open>
  The meaning of the file of \<^verbatim>\<open>disk_storage.c\<close>: 64 reserved bytes and then a sequence of blocks.
  \<open>disk_inv\<close> relates the state to that sequence and to the free lists; the lemmas give each operation
  its effect on the map from offsets to the status and the contents of the blocks in use. The locale
  \<open>block_store\<close> is the contract that the storage relies on.
\<close>

section \<open>Blocks\<close>

datatype block = Block (bstatus: u8) (bpool: u8) (bdata: "byte list")

definition block_ok :: "block \<Rightarrow> bool" where
  "block_ok b \<longleftrightarrow> bstatus b < BLOCK_NUM_STATUSES \<and> unat (bpool b) < NUM_DISK_POOLS \<and>
     length (bdata b) = 2 ^ (unat (bpool b) + MIN_DISK_POW_TWO)"

definition enc_block :: "block \<Rightarrow> byte list" where
  "enc_block b = [bstatus b, bpool b] @ bdata b"

definition enc_blocks :: "block list \<Rightarrow> byte list" where
  "enc_blocks bs = concat (map enc_block bs)"

primrec lookup_block :: "block list \<Rightarrow> nat \<Rightarrow> nat \<Rightarrow> block option" where
  "lookup_block [] base off = None"
| "lookup_block (b # bs) base off =
     (if off = base then Some b else lookup_block bs (base + length (enc_block b)) off)"

lemma length_enc_block [simp]: "length (enc_block b) = 2 + length (bdata b)"
  by (simp add: enc_block_def)

lemma enc_blocks_simps [simp]:
  "enc_blocks [] = []" "enc_blocks (b # bs) = enc_block b @ enc_blocks bs" "enc_blocks (bs @ cs) = enc_blocks bs @ enc_blocks cs"
  by (simp_all add: enc_blocks_def)

lemma lookup_ge: "lookup_block bs base off = Some b \<Longrightarrow> base \<le> off \<and> off < base + length (enc_blocks bs)"
  by (induction bs arbitrary: base) (fastforce split: if_splits)+

lemma lookup_split:
  "lookup_block bs base off = Some b \<Longrightarrow> \<exists>pre post. bs = pre @ b # post \<and> off = base + length (enc_blocks pre)"
proof (induction bs arbitrary: base)
  case (Cons c bs)
  show ?case
  proof (cases "off = base")
    case True
    then show ?thesis using Cons.prems by (intro exI [of _ "[]"] exI [of _ bs]) simp
  next
    case False
    then obtain pre post where "bs = pre @ b # post" "off = base + length (enc_block c) + length (enc_blocks pre)"
      using Cons.IH [of "base + length (enc_block c)"] Cons.prems by auto
    then show ?thesis by (intro exI [of _ "c # pre"] exI [of _ post]) simp
  qed
qed simp

lemma lookup_middle:
  "lookup_block (pre @ b # post) base off =
     (if off = base + length (enc_blocks pre) then Some b
      else if off < base + length (enc_blocks pre) then lookup_block pre base off
      else lookup_block post (base + length (enc_blocks pre) + length (enc_block b)) off)"
proof (induction pre arbitrary: base)
  case Nil
  then show ?case using lookup_ge [of post "base + length (enc_block b)" off]
    by (cases "lookup_block post (base + length (enc_block b)) off") auto
next
  case (Cons c pre)
  then show ?case by (auto simp: add.assoc)
qed

lemma lookup_replace:
  assumes "length (bdata b') = length (bdata b)"
  shows "lookup_block (pre @ b' # post) base off =
    (if off = base + length (enc_blocks pre) then Some b' else lookup_block (pre @ b # post) base off)"
  using assms by (simp add: lookup_middle)

lemma lookup_snoc:
  "lookup_block (bs @ [b]) base off = (if off = base + length (enc_blocks bs) then Some b else lookup_block bs base off)"
proof -
  have "lookup_block bs base off = None" if "\<not> off < base + length (enc_blocks bs)"
    using lookup_ge [of bs base off] that by (cases "lookup_block bs base off") auto
  then show ?thesis by (simp add: lookup_middle)
qed

section \<open>The invariant\<close>

definition file_ok :: "mem \<Rightarrow> block list \<Rightarrow> bool" where
  "file_ok f bs \<longleftrightarrow> (\<exists>r. f = r @ enc_blocks bs \<and> length r = STORAGE_INITIAL_RESERVED \<and> take 8 r = le_bytes disk_version) \<and>
     (\<forall>b\<in>set bs. block_ok b)"

definition block_at :: "block list \<Rightarrow> nat \<Rightarrow> block option" where
  "block_at bs off = lookup_block bs STORAGE_INITIAL_RESERVED off"

text \<open>The free list of a pool: the offsets of free blocks of that pool, each holding the offset of the next.\<close>

primrec free_chain :: "(nat \<Rightarrow> block option) \<Rightarrow> nat \<Rightarrow> nat \<Rightarrow> nat list \<Rightarrow> bool" where
  "free_chain blk pool head [] = (head = 0)"
| "free_chain blk pool head (x # xs) = (head = x \<and> x \<noteq> 0 \<and> (\<exists>b. blk x = Some b \<and> bstatus b = BLOCK_STATUS_EMPTY \<and>
     unat (bpool b) = pool \<and> free_chain blk pool (unat (le_word (take 8 (bdata b)) :: u64)) xs))"

definition disk_inv :: "disk_storage \<Rightarrow> block list \<Rightarrow> (nat \<Rightarrow> nat list) \<Rightarrow> bool" where
  "disk_inv st bs frees \<longleftrightarrow> file_ok (ds_file st) bs \<and> eof_offset st = length (ds_file st) \<and>
     length (ds_file st) < 2 ^ 62 \<and> length (next_free_block st) = NUM_DISK_POOLS \<and>
     (\<forall>p < NUM_DISK_POOLS. free_chain (block_at bs) p (next_free_block st ! p) (frees p) \<and> distinct (frees p))"

text \<open>A bound on the sizes of all blocks, the free ones too.\<close>

definition blocks_le :: "nat \<Rightarrow> block list \<Rightarrow> bool" where
  "blocks_le k bs \<longleftrightarrow> (\<forall>off b. block_at bs off = Some b \<longrightarrow> length (bdata b) \<le> k)"

lemma blocks_le_update:
  "blocks_le k bs \<Longrightarrow> block_at bs' = (block_at bs)(off \<mapsto> b) \<Longrightarrow> length (bdata b) \<le> k \<Longrightarrow> blocks_le k bs'"
  by (auto simp: blocks_le_def)

lemma block_at_ok: "file_ok f bs \<Longrightarrow> block_at bs off = Some b \<Longrightarrow> block_ok b"
  using lookup_split by (fastforce simp: file_ok_def block_at_def)

lemma block_at_bound: "file_ok f bs \<Longrightarrow> block_at bs off = Some b \<Longrightarrow> 64 \<le> off \<and> off < length f"
  using lookup_ge [of bs 64 off b] by (auto simp: file_ok_def block_at_def disk_defs)

lemma free_chain_mono:
  assumes "free_chain blk p h xs" "\<And>x b. x \<in> set xs \<Longrightarrow> blk x = Some b \<Longrightarrow> blk' x = Some b"
  shows "free_chain blk' p h xs"
  using assms by (induction xs arbitrary: h) auto

lemma free_chain_blocks:
  "free_chain blk p h xs \<Longrightarrow> x \<in> set xs \<Longrightarrow> \<exists>b. blk x = Some b \<and> bstatus b = BLOCK_STATUS_EMPTY \<and> unat (bpool b) = p"
  by (induction xs arbitrary: h) auto

section \<open>Access to one block\<close>

text \<open>A file around one block.\<close>

lemma file_around:
  assumes "file_ok f bs" "block_at bs off = Some b"
  obtains u v pre post where "f = u @ enc_block b @ v" "length u = off" "bs = pre @ b # post" "off = 64 + length (enc_blocks pre)"
    "\<And>b'. block_ok b' \<Longrightarrow> length (bdata b') = length (bdata b) \<Longrightarrow> file_ok (u @ enc_block b' @ v) (pre @ b' # post)"
proof -
  obtain r where r: "f = r @ enc_blocks bs" "length r = 64" "take 8 r = le_bytes disk_version" and ok: "\<forall>b\<in>set bs. block_ok b"
    using assms(1) by (auto simp: file_ok_def disk_defs)
  obtain pre post where p: "bs = pre @ b # post" "off = 64 + length (enc_blocks pre)"
    using lookup_split [of bs 64 off b] assms(2) by (auto simp: block_at_def disk_defs)
  let ?u = "r @ enc_blocks pre" and ?v = "enc_blocks post"
  show thesis
  proof (rule that [of ?u ?v pre post])
    fix b' assume "block_ok b'" "length (bdata b') = length (bdata b)"
    then show "file_ok (?u @ enc_block b' @ ?v) (pre @ b' # post)"
      using r ok p unfolding file_ok_def by (intro conjI exI [of _ r]) (auto simp: disk_defs)
  qed (use r p in simp_all)
qed

lemma block_size: "block_ok b \<Longrightarrow> get_pool_size (bpool b) = Some (length (bdata b))"
  by (simp add: block_ok_def get_pool_size_def disk_defs)

lemma read_header:
  assumes "file_ok f bs" "block_at bs off = Some b"
  shows "file_read f off 2 = [bstatus b, bpool b]" "file_read f (off + 2) (length (bdata b)) = bdata b"
proof -
  obtain u v pre post where f: "f = u @ enc_block b @ v" "length u = off" using file_around [OF assms] by metis
  show "file_read f off 2 = [bstatus b, bpool b]" using f by (simp add: file_read_def enc_block_def)
  show "file_read f (off + 2) (length (bdata b)) = bdata b" using f by (simp add: file_read_def enc_block_def)
qed

text \<open>Overwriting the header and the beginning of the contents of a block.\<close>

lemma write_in_block:
  assumes f: "file_ok f bs" and b: "block_at bs off = Some b" and n: "length buf \<le> length (bdata b)"
    and s: "s < BLOCK_NUM_STATUSES"
  defines "b' \<equiv> Block s (bpool b) (buf @ drop (length buf) (bdata b))"
  shows "\<exists>bs'. file_ok (file_write f off ([s, bpool b] @ buf)) bs' \<and> length (file_write f off ([s, bpool b] @ buf)) = length f \<and>
    block_at bs' = (block_at bs)(off \<mapsto> b')"
proof -
  obtain u v pre post where a: "f = u @ enc_block b @ v" "length u = off" "bs = pre @ b # post" "off = 64 + length (enc_blocks pre)"
    "\<And>b'. block_ok b' \<Longrightarrow> length (bdata b') = length (bdata b) \<Longrightarrow> file_ok (u @ enc_block b' @ v) (pre @ b' # post)"
    using file_around [OF f b] by metis
  have w: "file_write f off ([s, bpool b] @ buf) = u @ enc_block b' @ v"
    using a(1,2) n by (simp add: file_write_def enc_block_def b'_def)
  have "block_ok b'" "length (bdata b') = length (bdata b)"
    using block_at_ok [OF f b] n s by (simp_all add: block_ok_def b'_def)
  moreover have "block_at (pre @ b' # post) = (block_at bs)(off \<mapsto> b')"
    using lookup_replace [of b' b pre post 64] \<open>length (bdata b') = length (bdata b)\<close> a(3,4)
    by (auto simp: block_at_def disk_defs)
  ultimately show ?thesis using a(1,5) w by (intro exI [of _ "pre @ b' # post"]) simp
qed

section \<open>The operations on the block map\<close>

text \<open>The blocks in use: what a reader sees at an offset.\<close>

definition used :: "block list \<Rightarrow> nat \<Rightarrow> (u8 \<times> byte list) option" where
  "used bs off = (case block_at bs off of None \<Rightarrow> None
     | Some b \<Rightarrow> if bstatus b = BLOCK_STATUS_EMPTY then None else Some (bstatus b, bdata b))"

lemma write_scratch_keeps [simp]:
  "ds_file (disk_storage_write_scratch st off buf) = ds_file st"
  "eof_offset (disk_storage_write_scratch st off buf) = eof_offset st"
  "next_free_block (disk_storage_write_scratch st off buf) = next_free_block st"
  by (simp_all add: disk_storage_write_scratch_def must_write_scratch_def must_lseek_scratch_def Let_def)

lemma write_for_real_simps [simp]:
  "ds_file (disk_storage_write_block_for_real st off buf) = file_write (ds_file st) off buf"
  "eof_offset (disk_storage_write_block_for_real st off buf) = eof_offset st"
  "next_free_block (disk_storage_write_block_for_real st off buf) = next_free_block st"
  "ds_scratch (disk_storage_write_block_for_real st off buf) = ds_scratch st"
  by (simp_all add: disk_storage_write_block_for_real_def must_write_def must_lseek_def)

lemma write_block_result:
  assumes inv: "disk_inv st bs frees" and b: "block_at bs off = Some b"
    and n: "length buf \<le> length (bdata b)" and s: "s = BLOCK_STATUS_VALID \<or> s = BLOCK_STATUS_ACTIVE"
  shows "\<exists>st'. disk_storage_write_block st off s buf = Some (0, st') \<and>
    ds_file st' = file_write (ds_file st) off ([s, bpool b] @ buf) \<and> eof_offset st' = eof_offset st \<and>
    next_free_block st' = next_free_block st"
proof -
  have f: "file_ok (ds_file st) bs" using inv by (simp add: disk_inv_def)
  have "0 < off" using block_at_bound [OF f b] by simp
  then show ?thesis using read_header(1) [OF f b] block_size [OF block_at_ok [OF f b]] n s
    by (auto simp: disk_storage_write_block_def must_lseek_def read_file_def BLOCK_HEADER_SIZE_def Let_def)
qed

lemma disk_inv_update:
  assumes inv: "disk_inv st bs frees" and f: "file_ok (ds_file st') bs'" "length (ds_file st') = length (ds_file st)"
    and e: "eof_offset st' = eof_offset st" "next_free_block st' = next_free_block st"
    and blk: "block_at bs' = (block_at bs)(off \<mapsto> b')" and nf: "\<forall>p < NUM_DISK_POOLS. off \<notin> set (frees p)"
  shows "disk_inv st' bs' frees"
  unfolding disk_inv_def
proof (intro conjI allI impI)
  fix p assume p: "p < NUM_DISK_POOLS"
  then have c: "free_chain (block_at bs) p (next_free_block st ! p) (frees p)" "distinct (frees p)" using inv by (auto simp: disk_inv_def)
  then show "distinct (frees p)" by simp
  show "free_chain (block_at bs') p (next_free_block st' ! p) (frees p)"
    unfolding e by (rule free_chain_mono [OF c(1)]) (use blk nf p in auto)
qed (use inv f e in \<open>simp_all add: disk_inv_def\<close>)

text \<open>Blocks that are not in a free list can be written: those in use, and a free one just after it was taken.\<close>

lemma write_block_ok:
  assumes inv: "disk_inv st bs frees" and b: "block_at bs off = Some b" and nf: "\<forall>p < NUM_DISK_POOLS. off \<notin> set (frees p)"
    and n: "length buf \<le> length (bdata b)" and s: "s = BLOCK_STATUS_VALID \<or> s = BLOCK_STATUS_ACTIVE"
  shows "\<exists>st' bs'. disk_storage_write_block st off s buf = Some (0, st') \<and> disk_inv st' bs' frees \<and>
    length (ds_file st') = length (ds_file st) \<and>
    block_at bs' = (block_at bs)(off \<mapsto> Block s (bpool b) (buf @ drop (length buf) (bdata b)))"
proof -
  have f: "file_ok (ds_file st) bs" using inv by (simp add: disk_inv_def)
  have sn: "s < BLOCK_NUM_STATUSES" using s by (auto simp: disk_defs)
  obtain st' where st': "disk_storage_write_block st off s buf = Some (0, st')" "ds_file st' = file_write (ds_file st) off ([s, bpool b] @ buf)"
    "eof_offset st' = eof_offset st" "next_free_block st' = next_free_block st" using write_block_result [OF inv b n s] by blast
  obtain bs' where bs': "file_ok (ds_file st') bs'" "length (ds_file st') = length (ds_file st)"
    "block_at bs' = (block_at bs)(off \<mapsto> Block s (bpool b) (buf @ drop (length buf) (bdata b)))"
    using write_in_block [OF f b n sn] st'(2) by metis
  show ?thesis using st' bs' disk_inv_update [OF inv bs'(1,2) st'(3,4) bs'(3) nf] by blast
qed

lemma used_not_free:
  assumes "disk_inv st bs frees" "used bs off = Some x"
  shows "\<forall>p < NUM_DISK_POOLS. off \<notin> set (frees p)"
proof (intro allI impI notI)
  fix p assume "p < NUM_DISK_POOLS" "off \<in> set (frees p)"
  then obtain b where "block_at bs off = Some b" "bstatus b = BLOCK_STATUS_EMPTY"
    using free_chain_blocks [of "block_at bs" p] assms(1) by (fastforce simp: disk_inv_def)
  then show False using assms(2) by (simp add: used_def)
qed

lemma read_block_ok:
  assumes inv: "disk_inv st bs frees" and u: "used bs off = Some (s, d)" and n: "length d \<le> max_n"
  shows "\<exists>st'. disk_storage_read_block st off max_n = Some (0, Some (s, d), st') \<and> disk_inv st' bs frees \<and> ds_file st' = ds_file st"
proof -
  obtain b where b: "block_at bs off = Some b" "bstatus b \<noteq> 0" "s = bstatus b" "d = bdata b"
    using u by (auto simp: used_def disk_defs split: option.splits if_splits)
  have f: "file_ok (ds_file st) bs" using inv by (simp add: disk_inv_def)
  show ?thesis using read_header [OF f b(1)] block_size [OF block_at_ok [OF f b(1)]] b n inv
    by (auto simp: disk_storage_read_block_def must_lseek_def read_file_def BLOCK_HEADER_SIZE_def disk_inv_def Let_def)
qed

lemma sint_u8_small: "unat (w :: u8) < 128 \<Longrightarrow> sint w = int (unat w)"
proof -
  assume "unat w < 128"
  then have "uint w < 128" by (metis of_nat_less_iff of_nat_numeral of_nat_unat)
  then show ?thesis using signed_take_bit_int_eq_self [of 7 "uint w"] uint_ge_0 [of w] by (simp add: sint_uint)
qed

lemma release_block_ok:
  assumes inv: "disk_inv st bs frees" and u: "used bs off = Some x"
  shows "\<exists>st' bs' frees' p. disk_storage_release_block st off = Some (0, st') \<and> disk_inv st' bs' frees' \<and>
    length (ds_file st') = length (ds_file st) \<and> used bs' = (used bs)(off := None) \<and> (\<forall>k. blocks_le k bs \<longrightarrow> blocks_le k bs') \<and>
    (\<exists>b. block_at bs off = Some b \<and> p = unat (bpool b) \<and> p < NUM_DISK_POOLS \<and> frees' = frees(p := off # frees p))"
proof -
  have f: "file_ok (ds_file st) bs" using inv by (simp add: disk_inv_def)
  obtain b where b: "block_at bs off = Some b" "bstatus b \<noteq> BLOCK_STATUS_EMPTY"
    using u by (auto simp: used_def split: option.splits if_splits)
  have ok: "block_ok b" using block_at_ok [OF f b(1)] .
  define p where "p = unat (bpool b)"
  have p: "p < 20" "unat (bstatus b) < 4" using ok by (simp_all add: p_def block_ok_def disk_defs word_less_nat_alt)
  have off: "64 \<le> off" "off < length (ds_file st)" "length (ds_file st) < 2 ^ 62" using block_at_bound [OF f b(1)] inv by (simp_all add: disk_inv_def)
  let ?h = "next_free_block st ! p"
  have ch: "free_chain (block_at bs) p ?h (frees p)" "distinct (frees p)" "length (next_free_block st) = 20"
    using inv p by (auto simp: disk_inv_def disk_defs)
  have h: "?h < 2 ^ 62"
  proof (cases "frees p")
    case (Cons y ys)
    then obtain c where "block_at bs ?h = Some c" using ch(1) by auto
    then show ?thesis using block_at_bound [OF f] off(3) by fastforce
  qed (use ch(1) in simp)
  let ?buf = "le_bytes (of_nat ?h :: u64)"
  have len: "length ?buf \<le> length (bdata b)"
  proof -
    have "(2::nat) ^ 3 \<le> 2 ^ (p + 7)" by (rule power_increasing) simp_all
    then show ?thesis using ok by (simp add: block_ok_def disk_defs p_def)
  qed
  have sg: "sint (bstatus b) < 4" "sint (bpool b) = int p"
    using p sint_u8_small [of "bstatus b"] sint_u8_small [of "bpool b"] unfolding p_def by linarith+
  obtain bs' where bs': "file_ok (file_write (ds_file st) off ([0, bpool b] @ ?buf)) bs'"
    "length (file_write (ds_file st) off ([0, bpool b] @ ?buf)) = length (ds_file st)"
    "block_at bs' = (block_at bs)(off \<mapsto> Block 0 (bpool b) (?buf @ drop (length ?buf) (bdata b)))"
    using write_in_block [OF f b(1) len, of 0] by (auto simp: disk_defs)
  have nf: "\<forall>p < NUM_DISK_POOLS. off \<notin> set (frees p)" using used_not_free [OF inv u] .
  have "\<exists>st'. disk_storage_release_block st off = Some (0, st') \<and> ds_file st' = file_write (ds_file st) off ([0, bpool b] @ ?buf) \<and>
      eof_offset st' = eof_offset st \<and> next_free_block st' = (next_free_block st)[p := off]"
    using read_header(1) [OF f b(1)] off(1) b(2) p sg
    by (simp add: disk_storage_release_block_def must_read_def read_file_def must_lseek_def disk_defs Let_def flip: p_def)
  then obtain st' where st': "disk_storage_release_block st off = Some (0, st')" "ds_file st' = file_write (ds_file st) off ([0, bpool b] @ ?buf)"
    "eof_offset st' = eof_offset st" "next_free_block st' = (next_free_block st)[p := off]" by blast
  have "disk_inv st' bs' (frees(p := off # frees p))"
    unfolding disk_inv_def
  proof (intro conjI allI impI)
    fix q assume q: "q < NUM_DISK_POOLS"
    then have c: "free_chain (block_at bs) q (next_free_block st ! q) (frees q)" "distinct (frees q)" using inv by (auto simp: disk_inv_def)
    have c': "free_chain (block_at bs') q (next_free_block st ! q) (frees q)"
      by (rule free_chain_mono [OF c(1)]) (use bs'(3) nf q in auto)
    show "distinct ((frees(p := off # frees p)) q)" using c(2) nf q by auto
    show "free_chain (block_at bs') q (next_free_block st' ! q) ((frees(p := off # frees p)) q)"
    proof (cases "q = p")
      case True
      have "le_word (take 8 (?buf @ drop (length ?buf) (bdata b))) = (of_nat ?h :: u64)" by (simp add: le_word_le_bytes)
      moreover have "unat (of_nat ?h :: u64) = ?h" using h by (simp add: unat_of_nat)
      ultimately show ?thesis using True c' bs'(3) off(1) ch(3) p(1) st'(4)
        by (simp add: p_def [symmetric] BLOCK_STATUS_EMPTY_def del: le_bytes_le_word)
    next
      case False
      then show ?thesis using c' st'(4) by simp
    qed
  qed (use inv bs' st' in \<open>simp_all add: disk_inv_def\<close>)
  moreover have "used bs' = (used bs)(off := None)"
    using bs'(3) by (auto simp: used_def BLOCK_STATUS_EMPTY_def)
  moreover have "blocks_le k bs'" if "blocks_le k bs" for k
    by (rule blocks_le_update [OF that bs'(3)]) (use len that b(1) in \<open>auto simp: blocks_le_def\<close>)
  ultimately show ?thesis using st' bs'(2) b(1) p(1) by (auto simp: p_def disk_defs)
qed

section \<open>Reserving blocks\<close>

lemma clzll_bit: "x \<noteq> 0 \<Longrightarrow> bit x (63 - clzll x)"
proof -
  assume "x \<noteq> 0"
  then have "clzll x < 64" using clzll_ctzll_sum [of x] by simp
  then show ?thesis using length_takeWhile_upt(3) [where P = "\<lambda>k. \<not> bit x (63 - k)" and n = 64] by (simp add: clzll_def)
qed

lemma get_pool_id_ok:
  assumes n: "2 \<le> n" "n \<le> 2 ^ k" and k: "7 \<le> k" "k \<le> 26"
  shows "\<exists>p. get_pool_id n = Some (p, 2 ^ (unat p + 7)) \<and> unat p + 7 \<le> k \<and> n \<le> 2 ^ (unat p + 7)"
proof -
  let ?x = "of_nat n - 1 :: u64"
  have nb: "n < 2 ^ 27" using n(2) power_increasing [of k 26 "2::nat"] k(2) by simp
  have e: "?x = of_nat (n - 1)" using n(1) by (simp add: of_nat_diff)
  have x: "unat ?x = n - 1" unfolding e using nb by (simp add: unat_of_nat)
  have nz: "?x \<noteq> 0"
  proof
    assume "?x = 0"
    then have "unat ?x = 0" by (simp only: unat_0)
    then show False using x n(1) by linarith
  qed
  let ?pow = "64 - clzll ?x"
  have "unat ?x < 2 ^ ?pow" using no_bits_clzll [of ?x _ "clzll ?x"] clzll_ctzll_sum [OF nz] by (auto simp: unat_less_exp_bit)
  then have le: "n \<le> 2 ^ ?pow" using x by simp
  have "unat ?x < 2 ^ k" using x n by simp
  then have "63 - clzll ?x < k" using clzll_bit [OF nz] by (simp add: unat_less_exp_bit)
  then have pk: "?pow \<le> k" by simp
  define pow where "pow = (if ?pow < 7 then 7 else ?pow)"
  have pow: "7 \<le> pow" "pow \<le> k" "?pow \<le> pow" using pk k by (auto simp: pow_def)
  have le': "n \<le> 2 ^ pow" by (rule le_trans [OF le power_increasing [OF pow(3)]]) simp
  have u: "unat (of_nat pow - of_nat 7 :: u8) = pow - 7"
  proof -
    have e: "(of_nat pow - of_nat 7 :: u8) = of_nat (pow - 7)" using pow by (simp add: of_nat_diff)
    show ?thesis unfolding e unfolding unat_of_nat by (rule mod_less) (use pow k in simp)
  qed
  have "get_pool_id n = Some (of_nat pow - of_nat 7, 2 ^ pow)"
    using nz le' pow k unfolding get_pool_id_def Let_def MIN_DISK_POW_TWO_def pow_def [symmetric] by simp
  then show ?thesis using u pow le' by (intro exI [of _ "of_nat pow - of_nat 7"]) simp
qed

text \<open>Appending a reserved block at the end of the file.\<close>

lemma append_block:
  assumes f: "file_ok f bs" and p: "unat p < NUM_DISK_POOLS"
  defines "bsz \<equiv> 2 ^ (unat p + MIN_DISK_POW_TWO)"
  defines "f' \<equiv> file_write (file_write f (length f) [BLOCK_STATUS_RESERVED, p]) (length f + (2 + bsz) - 1) [0]"
  shows "file_ok f' (bs @ [Block BLOCK_STATUS_RESERVED p (replicate bsz 0)])" "length f' = length f + 2 + bsz"
proof -
  have pos: "1 \<le> bsz" by (simp add: bsz_def)
  have "f' = f @ [BLOCK_STATUS_RESERVED, p] @ replicate (bsz - 1) 0 @ [0]"
    using pos by (simp add: f'_def file_write_def)
  moreover have "replicate (bsz - 1) 0 @ [0 :: byte] = replicate bsz 0"
    using pos by (metis One_nat_def Suc_pred less_eq_Suc_le replicate_Suc replicate_append_same)
  ultimately have f': "f' = f @ enc_block (Block BLOCK_STATUS_RESERVED p (replicate bsz 0))" by (simp add: enc_block_def)
  then show "length f' = length f + 2 + bsz" by simp
  have "block_ok (Block BLOCK_STATUS_RESERVED p (replicate bsz 0))" using p by (simp add: block_ok_def bsz_def disk_defs)
  then show "file_ok f' (bs @ [Block BLOCK_STATUS_RESERVED p (replicate bsz 0)])" using f f' by (auto simp: file_ok_def)
qed

lemma reserve_fresh:
  assumes inv: "disk_inv st bs frees" and g: "get_pool_id n = Some (p, 2 ^ (unat p + 7))" "unat p < 20"
    and nf: "next_free_block st ! unat p = 0" and room: "length (ds_file st) + 2 ^ 27 < 2 ^ 62"
  shows "\<exists>st' bs'. disk_storage_reserve_block st n = Some (0, length (ds_file st), st') \<and> disk_inv st' bs' frees \<and>
    block_at bs (length (ds_file st)) = None \<and> length (ds_file st') \<le> length (ds_file st) + 2 ^ 27 \<and>
    block_at bs' = (block_at bs)(length (ds_file st) \<mapsto> Block BLOCK_STATUS_RESERVED p (replicate (2 ^ (unat p + 7)) 0))"
proof -
  let ?f = "ds_file st" and ?sz = "2 ^ (unat p + 7) :: nat" and ?b = "Block BLOCK_STATUS_RESERVED p (replicate (2 ^ (unat p + 7)) 0)"
  have f: "file_ok ?f bs" "eof_offset st = length ?f" "64 \<le> length ?f"
    using inv by (auto simp: disk_inv_def file_ok_def disk_defs)
  have sz: "?sz \<le> 2 ^ 26" using g(2) by (intro power_increasing) simp_all
  let ?f' = "file_write (file_write ?f (length ?f) [BLOCK_STATUS_RESERVED, p]) (length ?f + (2 + ?sz) - 1) [0]"
  have a: "file_ok ?f' (bs @ [?b])" "length ?f' = length ?f + 2 + ?sz"
    using append_block [OF f(1), of p] g(2) by (simp_all add: disk_defs)
  have none: "block_at bs (length ?f) = None" using block_at_bound [OF f(1)] by (cases "block_at bs (length ?f)") auto
  have le: "length ?f' \<le> length ?f + 2 ^ 27" using a(2) sz by simp
  have blk: "block_at (bs @ [?b]) = (block_at bs)(length ?f \<mapsto> ?b)"
    using f(1) by (auto simp: block_at_def lookup_snoc file_ok_def disk_defs)
  have "\<exists>st'. disk_storage_reserve_block st n = Some (0, length ?f, st') \<and> ds_file st' = ?f' \<and>
      eof_offset st' = length ?f + (2 + ?sz) \<and> next_free_block st' = next_free_block st"
    using g nf f(2,3) by (simp add: disk_storage_reserve_block_def must_write_def must_lseek_def disk_defs Let_def)
  then obtain st' where st': "disk_storage_reserve_block st n = Some (0, length ?f, st')" "ds_file st' = ?f'"
    "eof_offset st' = length ?f + (2 + ?sz)" "next_free_block st' = next_free_block st" by blast
  have "disk_inv st' (bs @ [?b]) frees"
    unfolding disk_inv_def
  proof (intro conjI allI impI)
    fix q assume q: "q < NUM_DISK_POOLS"
    then have c: "free_chain (block_at bs) q (next_free_block st ! q) (frees q)" "distinct (frees q)" using inv by (auto simp: disk_inv_def)
    then show "distinct (frees q)" by simp
    show "free_chain (block_at (bs @ [?b])) q (next_free_block st' ! q) (frees q)"
      unfolding st'(4) by (rule free_chain_mono [OF c(1)]) (use blk none in auto)
  qed (use inv a le room st' in \<open>simp_all add: disk_inv_def\<close>)
  then show ?thesis using st' none blk le by metis
qed

lemma reserve_reused:
  assumes inv: "disk_inv st bs frees" and g: "get_pool_id n = Some (p, 2 ^ (unat p + 7))" "unat p < 20"
    and nf: "next_free_block st ! unat p \<noteq> 0"
  shows "\<exists>st' off xs b. disk_storage_reserve_block st n = Some (0, off, st') \<and> frees (unat p) = off # xs \<and>
    disk_inv st' bs (frees(unat p := xs)) \<and> ds_file st' = ds_file st \<and>
    block_at bs off = Some b \<and> bstatus b = BLOCK_STATUS_EMPTY \<and> bpool b = p"
proof -
  have f: "file_ok (ds_file st) bs" using inv by (simp add: disk_inv_def)
  have ch: "free_chain (block_at bs) (unat p) (next_free_block st ! unat p) (frees (unat p))" "length (next_free_block st) = 20"
    using inv g(2) by (auto simp: disk_inv_def disk_defs)
  then obtain off xs where xs: "frees (unat p) = off # xs" using nf by (cases "frees (unat p)") auto
  then obtain b where b: "next_free_block st ! unat p = off" "block_at bs off = Some b" "bstatus b = BLOCK_STATUS_EMPTY"
    "unat (bpool b) = unat p" "free_chain (block_at bs) (unat p) (unat (le_word (take 8 (bdata b)) :: u64)) xs" using ch(1) by auto
  have bp: "bpool b = p" using b(4) by (simp add: word_unat_eq_iff)
  have ok: "block_ok b" using block_at_ok [OF f b(2)] .
  have len: "8 \<le> length (bdata b)"
  proof -
    have "(2::nat) ^ 3 \<le> 2 ^ (unat p + 7)" by (rule power_increasing) simp_all
    then show ?thesis using ok bp by (simp add: block_ok_def disk_defs)
  qed
  have off: "64 \<le> off" using block_at_bound [OF f b(2)] by simp
  have rd: "file_read (ds_file st) (off + 2) 8 = take 8 (bdata b)"
    using arg_cong [OF read_header(2) [OF f b(2)], of "take 8"] len by (simp add: file_read_def min_def)
  have "\<exists>st'. disk_storage_reserve_block st n = Some (0, off, st') \<and> ds_file st' = ds_file st \<and> eof_offset st' = eof_offset st \<and>
      next_free_block st' = (next_free_block st)[unat p := unat (le_word (take 8 (bdata b)) :: u64)]"
    using g nf off rd b(1) len
    by (simp add: disk_storage_reserve_block_def must_read_def read_file_def must_lseek_def disk_defs Let_def)
  then obtain st' where st': "disk_storage_reserve_block st n = Some (0, off, st')" "ds_file st' = ds_file st" "eof_offset st' = eof_offset st"
    "next_free_block st' = (next_free_block st)[unat p := unat (le_word (take 8 (bdata b)) :: u64)]" by blast
  have "disk_inv st' bs (frees(unat p := xs))"
    using inv st' b(5) xs ch(2) g(2) unfolding disk_inv_def by (auto simp: disk_defs nth_list_update)
  then show ?thesis using st' xs b bp by blast
qed


section \<open>The contents of the store\<close>

text \<open>The valid and the active blocks: what the storage finds when it loads the file.\<close>

definition live_block :: "block \<Rightarrow> bool" where
  "live_block b \<longleftrightarrow> bstatus b = BLOCK_STATUS_VALID \<or> bstatus b = BLOCK_STATUS_ACTIVE"

definition live :: "block list \<Rightarrow> nat \<Rightarrow> (u8 \<times> byte list) option" where
  "live bs off = (case block_at bs off of None \<Rightarrow> None
     | Some b \<Rightarrow> if live_block b then Some (bstatus b, bdata b) else None)"

definition disk_holds :: "disk_storage \<Rightarrow> (nat \<Rightarrow> (u8 \<times> byte list) option) \<Rightarrow> bool" where
  "disk_holds st m \<longleftrightarrow> (\<exists>bs frees. disk_inv st bs frees \<and> live bs = m)"

definition disk_size :: "disk_storage \<Rightarrow> nat" where
  "disk_size st = length (ds_file st)"

lemma live_used: "live bs off = Some x \<Longrightarrow> used bs off = Some x"
  by (auto simp: live_def used_def live_block_def disk_defs split: option.splits if_splits)

lemma live_blockD: "live bs off = Some (s, d) \<Longrightarrow> \<exists>p. block_at bs off = Some (Block s p d)"
  by (auto simp: live_def split: option.splits if_splits) (metis block.collapse)

lemma live_update:
  "block_at bs' = (block_at bs)(off \<mapsto> b) \<Longrightarrow> live bs' = (live bs)(off := if live_block b then Some (bstatus b, bdata b) else None)"
  by (auto simp: live_def)

lemma reserve_ok:
  assumes inv: "disk_inv st bs frees" and n: "2 \<le> n" "n \<le> 2 ^ 26" and room: "disk_size st + 2 ^ 27 < 2 ^ 62"
  shows "\<exists>st' off bs' frees' b. disk_storage_reserve_block st n = Some (0, off, st') \<and> disk_inv st' bs' frees' \<and>
    block_at bs' off = Some b \<and> n \<le> length (bdata b) \<and> (\<forall>k. 7 \<le> k \<longrightarrow> k \<le> 26 \<longrightarrow> n \<le> 2 ^ k \<longrightarrow> length (bdata b) \<le> 2 ^ k) \<and>
    (\<forall>q < NUM_DISK_POOLS. off \<notin> set (frees' q)) \<and> live bs off = None \<and> live bs' = live bs \<and> disk_size st' \<le> disk_size st + 2 ^ 27 \<and>
    (\<forall>k. 7 \<le> k \<longrightarrow> k \<le> 26 \<longrightarrow> n \<le> 2 ^ k \<longrightarrow> blocks_le (2 ^ k) bs \<longrightarrow> blocks_le (2 ^ k) bs')"
proof -
  obtain p where p: "get_pool_id n = Some (p, 2 ^ (unat p + 7))" "unat p < 20" "n \<le> 2 ^ (unat p + 7)"
    using get_pool_id_ok [OF n] by auto
  have tight: "(2 :: nat) ^ (unat p + 7) \<le> 2 ^ k" if "7 \<le> k" "k \<le> 26" "n \<le> 2 ^ k" for k
    using get_pool_id_ok [OF n(1) that(3,1,2)] p(1) by (auto intro: power_increasing)
  show ?thesis
  proof (cases "next_free_block st ! unat p = 0")
    case True
    let ?off = "length (ds_file st)" and ?b = "Block BLOCK_STATUS_RESERVED p (replicate (2 ^ (unat p + 7)) 0)"
    obtain st' bs' where r: "disk_storage_reserve_block st n = Some (0, ?off, st')" "disk_inv st' bs' frees"
      "block_at bs ?off = None" "length (ds_file st') \<le> ?off + 2 ^ 27" "block_at bs' = (block_at bs)(?off \<mapsto> ?b)"
      using reserve_fresh [OF inv p(1,2) True] room unfolding disk_size_def by metis
    have nf: "\<forall>q < NUM_DISK_POOLS. ?off \<notin> set (frees q)"
      by (rule used_not_free [OF r(2), of _ "(BLOCK_STATUS_RESERVED, bdata ?b)"]) (simp add: used_def r(5) disk_defs)
    have lv: "live bs ?off = None" using r(3) by (simp add: live_def)
    then have "live bs' = live bs" using live_update [OF r(5)] by (auto simp: live_block_def disk_defs)
    moreover have "blocks_le (2 ^ k) bs'" if "7 \<le> k" "k \<le> 26" "n \<le> 2 ^ k" "blocks_le (2 ^ k) bs" for k
      using blocks_le_update [OF that(4) r(5)] tight [OF that(1-3)] by simp
    ultimately show ?thesis using r p(3) nf lv tight
      by (intro exI [of _ st'] exI [of _ "?off"] exI [of _ bs'] exI [of _ frees] exI [of _ ?b]) (simp add: disk_size_def)
  next
    case False
    obtain st' off xs b where r: "disk_storage_reserve_block st n = Some (0, off, st')" "frees (unat p) = off # xs"
      "disk_inv st' bs (frees(unat p := xs))" "ds_file st' = ds_file st"
      "block_at bs off = Some b" "bstatus b = BLOCK_STATUS_EMPTY" "bpool b = p"
      using reserve_reused [OF inv p(1,2) False] by metis
    have ok: "block_ok b" using inv r(5) block_at_ok by (auto simp: disk_inv_def)
    have "off \<notin> set ((frees(unat p := xs)) q)" if q: "q < NUM_DISK_POOLS" for q
    proof (cases "q = unat p")
      case True
      have "distinct (frees (unat p))" using inv q True by (simp add: disk_inv_def)
      then show ?thesis using r(2) True by simp
    next
      case False
      then show ?thesis using free_chain_blocks [of "block_at bs" q _ "frees q" off] inv q r(5,7) by (auto simp: disk_inv_def)
    qed
    moreover have "live bs off = None" using r(5,6) by (simp add: live_def live_block_def disk_defs)
    moreover have "length (bdata b) = 2 ^ (unat p + 7)" using ok r(7) by (simp add: block_ok_def disk_defs)
    then have "n \<le> length (bdata b)" "\<forall>k. 7 \<le> k \<longrightarrow> k \<le> 26 \<longrightarrow> n \<le> 2 ^ k \<longrightarrow> length (bdata b) \<le> 2 ^ k" using p(3) tight by simp_all
    ultimately show ?thesis using r(1,3,4,5)
      by (intro exI [of _ st'] exI [of _ off] exI [of _ bs] exI [of _ "frees(unat p := xs)"] exI [of _ b]) (simp add: disk_size_def)
  qed
qed

lemma reserve_and_write_ok:
  assumes m: "disk_holds st m" and n: "2 \<le> length buf" "length buf \<le> 2 ^ 26"
    and s: "s = BLOCK_STATUS_VALID \<or> s = BLOCK_STATUS_ACTIVE" and room: "disk_size st + 2 ^ 27 < 2 ^ 62"
  shows "\<exists>st' off pad. disk_storage_reserve_and_write_block st s buf = Some (0, off, st') \<and> m off = None \<and>
    disk_holds st' (m(off \<mapsto> (s, buf @ pad))) \<and> disk_size st' \<le> disk_size st + 2 ^ 27 \<and>
    (\<forall>k. 7 \<le> k \<longrightarrow> k \<le> 26 \<longrightarrow> length buf \<le> 2 ^ k \<longrightarrow> length (buf @ pad) \<le> 2 ^ k)"
proof -
  obtain bs frees where inv: "disk_inv st bs frees" "live bs = m" using m by (auto simp: disk_holds_def)
  obtain st1 off bs1 frees1 b where r: "disk_storage_reserve_block st (length buf) = Some (0, off, st1)" "disk_inv st1 bs1 frees1"
    "block_at bs1 off = Some b" "length buf \<le> length (bdata b)" "\<forall>q < NUM_DISK_POOLS. off \<notin> set (frees1 q)"
    "live bs off = None" "live bs1 = live bs" "disk_size st1 \<le> disk_size st + 2 ^ 27"
    "\<forall>k. 7 \<le> k \<longrightarrow> k \<le> 26 \<longrightarrow> length buf \<le> 2 ^ k \<longrightarrow> length (bdata b) \<le> 2 ^ k"
    using reserve_ok [OF inv(1) n room] by metis
  obtain st2 bs2 where w: "disk_storage_write_block st1 off s buf = Some (0, st2)" "disk_inv st2 bs2 frees1"
    "length (ds_file st2) = length (ds_file st1)"
    "block_at bs2 = (block_at bs1)(off \<mapsto> Block s (bpool b) (buf @ drop (length buf) (bdata b)))"
    using write_block_ok [OF r(2,3,5,4) s] by metis
  have "disk_storage_reserve_and_write_block st s buf = Some (0, off, st2)"
    using r(1) w(1) by (simp add: disk_storage_reserve_and_write_block_def)
  moreover have "live bs2 = m(off \<mapsto> (s, buf @ drop (length buf) (bdata b)))"
    using live_update [OF w(4)] s r(7) inv(2) by (auto simp: live_block_def)
  moreover have "length (buf @ drop (length buf) (bdata b)) = length (bdata b)" using r(4) by simp
  ultimately show ?thesis using w(2,3) r(6,8,9) inv(2) unfolding disk_holds_def disk_size_def
    by (intro exI [of _ st2] exI [of _ off] exI [of _ "drop (length buf) (bdata b)"]) auto
qed

lemma write_block_holds:
  assumes m: "disk_holds st m" and off: "m off = Some (t, d)" and n: "length buf \<le> length d"
    and s: "s = BLOCK_STATUS_VALID \<or> s = BLOCK_STATUS_ACTIVE"
  shows "\<exists>st'. disk_storage_write_block st off s buf = Some (0, st') \<and>
    disk_holds st' (m(off \<mapsto> (s, buf @ drop (length buf) d))) \<and> disk_size st' = disk_size st"
proof -
  obtain bs frees where inv: "disk_inv st bs frees" "live bs = m" using m by (auto simp: disk_holds_def)
  then obtain p where b: "block_at bs off = Some (Block t p d)" using live_blockD off by blast
  have nf: "\<forall>q < NUM_DISK_POOLS. off \<notin> set (frees q)" using used_not_free [OF inv(1) live_used] inv(2) off by blast
  obtain st' bs' where w: "disk_storage_write_block st off s buf = Some (0, st')" "disk_inv st' bs' frees"
    "length (ds_file st') = length (ds_file st)" "block_at bs' = (block_at bs)(off \<mapsto> Block s p (buf @ drop (length buf) d))"
    using write_block_ok [OF inv(1) b nf _ s] n by (metis block.sel(2,3))
  have "live bs' = m(off \<mapsto> (s, buf @ drop (length buf) d))"
    using live_update [OF w(4)] s inv(2) by (auto simp: live_block_def)
  then show ?thesis using w(1-3) unfolding disk_holds_def disk_size_def by metis
qed

lemma read_block_holds:
  assumes m: "disk_holds st m" and off: "m off = Some (s, d)" and n: "length d \<le> max_n"
  shows "\<exists>st'. disk_storage_read_block st off max_n = Some (0, Some (s, d), st') \<and> disk_holds st' m \<and> disk_size st' = disk_size st"
proof -
  obtain bs frees where inv: "disk_inv st bs frees" "live bs = m" using m by (auto simp: disk_holds_def)
  then show ?thesis using read_block_ok [OF inv(1) live_used n] off unfolding disk_holds_def disk_size_def by metis
qed

lemma live_release: "used bs' = (used bs)(off := None) \<Longrightarrow> live bs' = (live bs)(off := None)"
proof
  fix x assume u: "used bs' = (used bs)(off := None)"
  have "live cs x = (case used cs x of None \<Rightarrow> None
      | Some (s, d) \<Rightarrow> if s = BLOCK_STATUS_VALID \<or> s = BLOCK_STATUS_ACTIVE then Some (s, d) else None)" for cs
    by (auto simp: live_def used_def live_block_def disk_defs split: option.splits)
  then show "live bs' x = ((live bs)(off := None)) x" by (simp add: u)
qed

lemma release_block_holds:
  assumes m: "disk_holds st m" and off: "m off = Some x"
  shows "\<exists>st'. disk_storage_release_block st off = Some (0, st') \<and> disk_holds st' (m(off := None)) \<and> disk_size st' = disk_size st"
proof -
  obtain bs frees where inv: "disk_inv st bs frees" "live bs = m" using m by (auto simp: disk_holds_def)
  then obtain st' bs' frees' where r: "disk_storage_release_block st off = Some (0, st')" "disk_inv st' bs' frees'"
    "length (ds_file st') = length (ds_file st)" "used bs' = (used bs)(off := None)"
    using release_block_ok [OF inv(1) live_used] off by metis
  then show ?thesis using live_release [OF r(4)] inv(2) unfolding disk_holds_def disk_size_def by metis
qed

end
