(* ===== verification/Disk_Recovery.thy ===== *)
theory Disk_Recovery
  imports Disk_Blocks
begin

unbundle bit_operations_syntax

text \<open>
  Recovery after a crash. A crash keeps the writes that were performed, the last one possibly only in
  part (\<open>crash_image\<close>); the operating system is assumed to keep the order of writes, as it does when only
  the process dies. Both functions that change a block, \<^verbatim>\<open>disk_storage_write_block\<close> and
  \<^verbatim>\<open>disk_storage_release_block\<close>, perform the same five writes (\<open>journal\<close>): they invalidate the header of
  the scratch file, write the size and the data there, set the header, and write the block itself.
  \<open>pending\<close> is the entry that recovery finds in a scratch file. The central fact is \<open>journal_crash\<close>: after
  recovery the block was changed as a whole or not at all.
\<close>

section \<open>What recovery finds\<close>

definition hdr0 :: "mem \<Rightarrow> byte list" where "hdr0 sc = take 8 (drop 8 sc)"
definition hdr1 :: "mem \<Rightarrow> byte list" where "hdr1 sc = take 8 (drop 16 sc)"
definition entry_size :: "mem \<Rightarrow> nat" where "entry_size sc = unat (le_word (take 8 (drop 24 sc)) :: u64)"

definition pending :: "mem \<Rightarrow> (nat \<times> byte list) option" where
  "pending sc = (if 32 \<le> length sc \<and> take 8 sc = le_bytes disk_version \<and> hdr0 sc \<noteq> le_bytes invalid_offset \<and>
      hdr1 sc = map (\<lambda>b. NOT b) (hdr0 sc) \<and> entry_size sc \<le> length sc - 32
    then Some (unat (le_word (hdr0 sc) :: u64), take (entry_size sc) (drop 32 sc)) else None)"

definition replay :: "mem \<Rightarrow> mem \<Rightarrow> mem" where
  "replay sc f = (case pending sc of None \<Rightarrow> f | Some (off, buf) \<Rightarrow> file_write f off buf)"

definition recovered_scratch :: "mem \<Rightarrow> mem" where
  "recovered_scratch sc = (if sc = [] then le_bytes disk_version
     else if pending sc = None then sc else file_write sc 8 (le_bytes invalid_offset @ le_bytes invalid_offset))"

lemma le_word_inj:
  assumes "length a = 8" "length b = 8" shows "(le_word a :: u64) = le_word b \<longleftrightarrow> a = b"
proof
  assume "(le_word a :: u64) = le_word b"
  then have "le_bytes (le_word a :: u64) = le_bytes (le_word b :: u64)" by simp
  then show "a = b" using assms by (simp add: le_bytes_le_word)
qed simp

lemma le_word_eq_iff: "length a = 8 \<Longrightarrow> (le_word a :: u64) = w \<longleftrightarrow> a = le_bytes w"
  using le_word_inj [of a "le_bytes w"] by (simp add: le_word_le_bytes)

lemma le_word_NOT: "length a = 8 \<Longrightarrow> NOT (le_word a :: u64) = le_word (map (\<lambda>b. NOT b) a)"
  by (rule bit_word_eqI) (auto simp: bit_not_iff bit_le_word)

text \<open>The branches of recovery, and then its two outcomes: nothing is pending and the files stay as they are, or the entry is written.\<close>

lemmas scratch_ops = read_scratch_def must_lseek_scratch_def must_write_scratch_def file_read_def Let_def disk_storage_get_checksum_def

lemma recover_branches:
  fixes st :: disk_storage
  defines "sc \<equiv> ds_scratch st" and "r \<equiv> snd (disk_storage_recover_scratch st)"
  defines "same \<equiv> ds_file r = ds_file st \<and> ds_scratch r = sc"
  shows "sc = [] \<Longrightarrow> ds_file r = ds_file st \<and> ds_scratch r = le_bytes disk_version"
    and "sc \<noteq> [] \<Longrightarrow> (le_word (take 8 sc) :: u64) \<noteq> disk_version \<Longrightarrow> same"
    and "sc \<noteq> [] \<Longrightarrow> length sc < 24 \<Longrightarrow> same"
    and "24 \<le> length sc \<Longrightarrow> (le_word (hdr0 sc) :: u64) = invalid_offset \<Longrightarrow> same"
    and "24 \<le> length sc \<Longrightarrow> length sc < 32 \<Longrightarrow> same"
    and "32 \<le> length sc \<Longrightarrow> length sc - 32 < entry_size sc \<Longrightarrow> same"
    and "32 \<le> length sc \<Longrightarrow> le_word (hdr1 sc) \<noteq> NOT (le_word (hdr0 sc) :: u64) \<Longrightarrow> same"
    and "32 \<le> length sc \<Longrightarrow> (le_word (take 8 sc) :: u64) = disk_version \<Longrightarrow> (le_word (hdr0 sc) :: u64) \<noteq> invalid_offset \<Longrightarrow>
      entry_size sc \<le> length sc - 32 \<Longrightarrow> le_word (hdr1 sc) = NOT (le_word (hdr0 sc) :: u64) \<Longrightarrow>
      ds_file r = file_write (ds_file st) (unat (le_word (hdr0 sc) :: u64)) (take (entry_size sc) (drop 32 sc)) \<and>
      ds_scratch r = file_write sc 8 (le_bytes invalid_offset @ le_bytes invalid_offset)"
proof -
  have ne: "sc \<noteq> []" if "8 \<le> length sc" using that by auto
  have hh: "take 8 (take 16 (drop 8 sc)) = hdr0 sc" "drop 8 (take 16 (drop 8 sc)) = hdr1 sc"
    by (simp_all add: hdr0_def hdr1_def drop_take)
  have m1: "min (length sc) 8 = 8" "min (length sc - 8) 16 = 16" if "24 \<le> length sc" using that by auto
  have m2: "min (length sc - 24) 8 = 8" if "32 \<le> length sc" using that by auto
  note d = r_def disk_storage_recover_scratch_def scratch_ops
  show "sc = [] \<Longrightarrow> ds_file r = ds_file st \<and> ds_scratch r = le_bytes disk_version"
    by (simp add: sc_def d file_write_def le_bytes_u64)
  show "sc \<noteq> [] \<Longrightarrow> (le_word (take 8 sc) :: u64) \<noteq> disk_version \<Longrightarrow> same"
    by (simp add: same_def d flip: sc_def)
  show "sc \<noteq> [] \<Longrightarrow> length sc < 24 \<Longrightarrow> same"
    by (simp add: same_def d flip: sc_def)
  show "24 \<le> length sc \<Longrightarrow> (le_word (hdr0 sc) :: u64) = invalid_offset \<Longrightarrow> same"
    using ne hh(1) m1 by (simp add: same_def d flip: sc_def)
  show "24 \<le> length sc \<Longrightarrow> length sc < 32 \<Longrightarrow> same"
    using ne m1 by (simp add: same_def d flip: sc_def)
  show "32 \<le> length sc \<Longrightarrow> length sc - 32 < entry_size sc \<Longrightarrow> same"
    using ne m1 m2 by (simp add: same_def d entry_size_def flip: sc_def)
  show "32 \<le> length sc \<Longrightarrow> le_word (hdr1 sc) \<noteq> NOT (le_word (hdr0 sc) :: u64) \<Longrightarrow> same"
    using ne hh m1 m2 by (simp add: same_def d flip: sc_def)
  show "32 \<le> length sc \<Longrightarrow> (le_word (take 8 sc) :: u64) = disk_version \<Longrightarrow> (le_word (hdr0 sc) :: u64) \<noteq> invalid_offset \<Longrightarrow>
      entry_size sc \<le> length sc - 32 \<Longrightarrow> le_word (hdr1 sc) = NOT (le_word (hdr0 sc) :: u64) \<Longrightarrow>
      ds_file r = file_write (ds_file st) (unat (le_word (hdr0 sc) :: u64)) (take (entry_size sc) (drop 32 sc)) \<and>
      ds_scratch r = file_write sc 8 (le_bytes invalid_offset @ le_bytes invalid_offset)"
    using ne hh m1 m2 by (simp add: d min_absorb2 entry_size_def flip: sc_def)
qed

lemma pending_words:
  assumes "32 \<le> length sc"
  shows "pending sc = (if (le_word (take 8 sc) :: u64) = disk_version \<and> (le_word (hdr0 sc) :: u64) \<noteq> invalid_offset \<and>
      le_word (hdr1 sc) = NOT (le_word (hdr0 sc) :: u64) \<and> entry_size sc \<le> length sc - 32
    then Some (unat (le_word (hdr0 sc) :: u64), take (entry_size sc) (drop 32 sc)) else None)"
proof -
  have len: "length (hdr0 sc) = 8" "length (hdr1 sc) = 8" using assms by (simp_all add: hdr0_def hdr1_def)
  have "le_word (hdr1 sc) = NOT (le_word (hdr0 sc) :: u64) \<longleftrightarrow> hdr1 sc = map (\<lambda>b. NOT b) (hdr0 sc)"
    using le_word_NOT [OF len(1)] le_word_inj [of "hdr1 sc" "map (\<lambda>b. NOT b) (hdr0 sc)"] len by simp
  then show ?thesis using assms len by (simp add: pending_def le_word_eq_iff)
qed

lemma recover_spec:
  "ds_file (snd (disk_storage_recover_scratch st)) = replay (ds_scratch st) (ds_file st)" (is ?file)
  "ds_scratch (snd (disk_storage_recover_scratch st)) = recovered_scratch (ds_scratch st)" (is ?scratch)
  "eof_offset (snd (disk_storage_recover_scratch st)) = eof_offset st" (is ?eof)
  "next_free_block (snd (disk_storage_recover_scratch st)) = next_free_block st" (is ?free)
proof -
  let ?sc = "ds_scratch st"
  have "?file \<and> ?scratch"
  proof (cases "32 \<le> length ?sc")
    case True
    then have ne: "?sc \<noteq> []" "24 \<le> length ?sc" by auto
    note b = recover_branches(2) [of st, OF ne(1)] recover_branches(4) [of st, OF ne(2)]
      recover_branches(6-8) [of st, OF True]
    show ?thesis
      using b ne(1) unfolding replay_def recovered_scratch_def pending_words [OF True] by (auto simp: not_less)
  next
    case False
    then have "pending ?sc = None" by (simp add: pending_def)
    moreover have "?sc \<noteq> [] \<Longrightarrow> ds_file (snd (disk_storage_recover_scratch st)) = ds_file st \<and>
      ds_scratch (snd (disk_storage_recover_scratch st)) = ds_scratch st"
      using recover_branches(3,5) [of st] False by linarith
    ultimately show ?thesis using recover_branches(1) [of st] by (auto simp: replay_def recovered_scratch_def)
  qed
  then show ?file ?scratch by simp_all
  show ?eof ?free by (simp_all add: disk_storage_recover_scratch_def read_scratch_def must_lseek_scratch_def must_write_scratch_def Let_def)
qed

section \<open>Crashes\<close>

fun apply_write :: "mem \<times> mem \<Rightarrow> disk_write \<Rightarrow> mem \<times> mem" where
  "apply_write (f, sc) (File_Write off bs) = (file_write f off bs, sc)"
| "apply_write (f, sc) (Scratch_Write off bs) = (f, file_write sc off bs)"

fun cut_write :: "nat \<Rightarrow> disk_write \<Rightarrow> disk_write" where
  "cut_write j (File_Write off bs) = File_Write off (take j bs)"
| "cut_write j (Scratch_Write off bs) = Scratch_Write off (take j bs)"

text \<open>The first \<open>k\<close> writes happened, and the first \<open>j\<close> bytes of the next.\<close>

definition crash_writes :: "nat \<Rightarrow> nat \<Rightarrow> disk_write list \<Rightarrow> disk_write list" where
  "crash_writes k j ws = take k ws @ (if k < length ws then [cut_write j (ws ! k)] else [])"

text \<open>The two files after a crash between \<open>st\<close> and \<open>st'\<close>.\<close>

definition crash_image :: "nat \<Rightarrow> nat \<Rightarrow> disk_storage \<Rightarrow> disk_storage \<Rightarrow> mem \<times> mem" where
  "crash_image k j st st' =
     foldl apply_write (ds_file st, ds_scratch st) (crash_writes k j (drop (length (ds_writes st)) (ds_writes st')))"

definition journal :: "nat \<Rightarrow> byte list \<Rightarrow> disk_write list" where
  "journal off buf = [Scratch_Write 8 (le_bytes invalid_offset @ le_bytes invalid_offset),
     Scratch_Write 24 (le_bytes (of_nat (length buf) :: u64)), Scratch_Write 32 buf,
     Scratch_Write 8 (le_bytes (of_nat off :: u64) @ le_bytes (NOT (of_nat off) :: u64)), File_Write off buf]"

text \<open>
  In a scratch file that the code leaves behind, after a crash or not, each bit is set in one of the two
  words of the header: they are complementary, or bytes of them are 255 from an unfinished write. What is
  pending is in the file already.
\<close>

definition header_ok :: "mem \<Rightarrow> bool" where
  "header_ok sc \<longleftrightarrow> length sc < 24 \<or> (\<forall>i < 8. sc ! (8 + i) OR sc ! (16 + i) = 255)"

definition scratch_inv :: "mem \<Rightarrow> mem \<Rightarrow> bool" where
  "scratch_inv f sc \<longleftrightarrow> take 8 sc = le_bytes disk_version \<and> header_ok sc \<and> replay sc f = f"

lemma file_write_at: "off \<le> length f \<Longrightarrow> file_write f off bs = take off f @ bs @ drop (off + length bs) f"
  by (simp add: file_write_def)

lemma invalid_bytes: "le_bytes invalid_offset = replicate 8 255"
proof -
  have e: "invalid_offset = -1" "255 = (-1 :: byte)" by (simp_all add: invalid_offset_def)
  show ?thesis unfolding e by (rule nth_equalityI, simp) (rule bit_word_eqI, auto simp: bit_le_bytes)
qed

lemma or_255: "255 OR x = (255 :: byte)" "x OR 255 = (255 :: byte)" "x OR NOT x = (255 :: byte)"
proof -
  have e: "(255 :: byte) = -1" by simp
  show "255 OR x = (255 :: byte)" "x OR 255 = (255 :: byte)" "x OR NOT x = (255 :: byte)" unfolding e by simp_all
qed

lemma idle_pending: "pending (le_bytes disk_version @ replicate 16 255 @ x) = None"
proof -
  have "hdr0 (le_bytes disk_version @ replicate 16 255 @ x) = le_bytes invalid_offset" by (simp add: hdr0_def invalid_bytes)
  then show ?thesis by (simp add: pending_def)
qed

lemma idle_header: "header_ok (le_bytes disk_version @ replicate 16 255 @ x)"
  by (simp add: header_ok_def nth_append)

lemma recovered_inv:
  assumes "take 8 sc = le_bytes disk_version" "header_ok sc"
  shows "scratch_inv (replay sc f) (recovered_scratch sc)"
proof (cases "pending sc")
  case None
  have "sc \<noteq> []" using assms(1) by (auto simp: le_bytes_u64)
  then show ?thesis using None assms by (simp add: scratch_inv_def recovered_scratch_def replay_def)
next
  case (Some e)
  then have len: "32 \<le> length sc" by (auto simp: pending_def split: if_split_asm)
  have "recovered_scratch sc = le_bytes disk_version @ replicate 16 255 @ drop 24 sc"
    using Some len assms(1) by (auto simp: recovered_scratch_def file_write_at invalid_bytes replicate_add [symmetric])
  then show ?thesis using idle_pending [of "drop 24 sc"] idle_header [of "drop 24 sc"] by (simp add: scratch_inv_def replay_def)
qed

text \<open>Invalidating the header, in part: the entry that was there is still valid, or none is.\<close>

lemma invalidate_partly:
  assumes inv: "scratch_inv f sc" and j: "j \<le> 16"
  defines "sc1 \<equiv> file_write sc 8 (replicate j 255)"
  shows "take 8 sc1 = le_bytes disk_version" "header_ok sc1" "replay sc1 f = f"
proof -
  have v: "take 8 sc = le_bytes disk_version" "header_ok sc" "replay sc f = f" using inv by (simp_all add: scratch_inv_def)
  from arg_cong [OF v(1), of length] have l8: "8 \<le> length sc" by simp
  have sc1: "sc1 = take 8 sc @ replicate j 255 @ drop (8 + j) sc" using l8 by (simp add: sc1_def file_write_at)
  have len: "length sc1 = max (length sc) (8 + j)" using l8 by (simp add: sc1)
  have nth: "sc1 ! k = (if 8 \<le> k \<and> k < 8 + j then 255 else sc ! k)" if "k < length sc1" for k
    using that l8 len by (auto simp: sc1 nth_append)
  show "take 8 sc1 = le_bytes disk_version" using v(1) l8 by (simp add: sc1)
  show hd: "header_ok sc1"
    using v(2) j unfolding header_ok_def by (auto simp: nth len max_def or_255)
  show "replay sc1 f = f"
  proof (cases "pending sc1")
    case None
    then show ?thesis by (simp add: replay_def)
  next
    case (Some e)
    then have p: "32 \<le> length sc1" "hdr0 sc1 \<noteq> le_bytes invalid_offset" "hdr1 sc1 = map (\<lambda>b. NOT b) (hdr0 sc1)"
      by (auto simp: pending_def split: if_split_asm)
    have j8: "j < 8"
    proof (rule ccontr)
      assume "\<not> j < 8"
      then have "hdr0 sc1 = replicate 8 255" using p(1) by (intro nth_equalityI) (auto simp: hdr0_def nth)
      then show False using p(2) by (simp add: invalid_bytes)
    qed
    then have ls: "32 \<le> length sc" using p(1) len by simp
    have "sc ! (8 + i) = 255" if i: "i < j" for i
    proof -
      have "hdr1 sc1 ! i = NOT (hdr0 sc1 ! i)" using i j8 p(1) by (simp add: p(3) hdr0_def)
      then have "sc ! (16 + i) = 0" using i j8 p(1) by (simp add: hdr0_def hdr1_def nth)
      moreover have "sc ! (8 + i) OR sc ! (16 + i) = 255" using v(2) ls i j8 by (simp add: header_ok_def)
      ultimately show ?thesis by simp
    qed
    then have "sc1 = sc" using len ls j8 by (intro nth_equalityI) (auto simp: nth le_iff_add)
    then show ?thesis using v(3) by simp
  qed
qed

text \<open>Setting the header, in part: the new entry is valid, or none is.\<close>

lemma validate_partly:
  fixes rest :: "byte list"
  assumes j: "j \<le> 16" and off: "off < 2 ^ 62" and n: "length buf < 2 ^ 62"
  defines "h \<equiv> le_bytes (of_nat off :: u64) @ le_bytes (NOT (of_nat off) :: u64)"
  defines "sc \<equiv> le_bytes disk_version @ take j h @ replicate (16 - j) 255 @ le_bytes (of_nat (length buf) :: u64) @ buf @ rest"
  shows "header_ok sc" "pending sc = None \<or> pending sc = Some (off, buf)" "j = 16 \<Longrightarrow> pending sc = Some (off, buf)"
proof -
  have lh: "length h = 16" by (simp add: h_def)
  have len: "length sc = 32 + length buf + length rest" using j lh by (simp add: sc_def)
  have es: "entry_size sc = length buf" using j lh n by (simp add: sc_def entry_size_def le_word_le_bytes unat_of_nat)
  have dr: "drop 32 sc = buf @ rest" using j lh by (simp add: sc_def)
  have nth: "sc ! (8 + k) = (if k < j then h ! k else 255)" if "k < 16" for k
    using that j lh by (auto simp: sc_def nth_append)
  have hn: "h ! (8 + i) = NOT (h ! i)" "h ! i = le_bytes (of_nat off :: u64) ! i" if "i < 8" for i
  proof -
    show "h ! i = le_bytes (of_nat off :: u64) ! i" using that by (simp add: h_def nth_append)
    then show "h ! (8 + i) = NOT (h ! i)" using that by (simp add: h_def nth_append)
        (rule bit_word_eqI, auto simp: bit_le_bytes bit_not_iff)
  qed
  show "header_ok sc" unfolding header_ok_def
  proof (intro disjI2 allI impI)
    fix i :: nat assume i: "i < 8"
    show "sc ! (8 + i) OR sc ! (16 + i) = 255"
      using nth [of i] nth [of "8 + i"] hn [OF i] i by (simp add: or_255)
  qed
  have full: "hdr0 sc = le_bytes (of_nat off :: u64)" if "8 \<le> j"
    using that nth hn(2) len by (intro nth_equalityI) (auto simp: hdr0_def)
  have uo: "unat (le_word (le_bytes (of_nat off :: u64)) :: u64) = off" using off by (simp add: le_word_le_bytes unat_of_nat)
  show "pending sc = None \<or> pending sc = Some (off, buf)"
  proof (cases "8 \<le> j")
    case True
    then show ?thesis using full uo es dr by (simp add: pending_def)
  next
    case False
    then have "hdr1 sc ! 7 = 255" "hdr0 sc ! 7 = 255" using nth [of 7] nth [of 15] len by (simp_all add: hdr0_def hdr1_def)
    moreover have "map (\<lambda>b. NOT b) (hdr0 sc) ! 7 = NOT (hdr0 sc ! 7)" using len by (simp add: hdr0_def)
    ultimately have "hdr1 sc \<noteq> map (\<lambda>b. NOT b) (hdr0 sc)" by auto
    then show ?thesis by (simp add: pending_def)
  qed
  assume j16: "j = 16"
  have "hdr1 sc = map (\<lambda>b. NOT b) (hdr0 sc)"
  proof (rule nth_equalityI)
    fix i assume "i < length (hdr1 sc)"
    then have i: "i < 8" by (simp add: hdr1_def)
    show "hdr1 sc ! i = map (\<lambda>b. NOT b) (hdr0 sc) ! i"
      using nth [of "8 + i"] nth [of i] hn(1) [OF i] i len j16 by (simp add: hdr1_def hdr0_def)
  qed (simp add: hdr0_def hdr1_def len)
  moreover have "hdr0 sc \<noteq> le_bytes invalid_offset"
  proof
    assume "hdr0 sc = le_bytes invalid_offset"
    then have "unat (le_word (le_bytes invalid_offset) :: u64) = off" using full j16 uo by simp
    then show False using off by (simp add: le_word_le_bytes invalid_offset_def)
  qed
  ultimately show "pending sc = Some (off, buf)" using full j16 uo es dr len by (simp add: pending_def sc_def)
qed


lemma overwrite_partly: "off \<le> length f \<Longrightarrow> file_write (file_write f off (take j buf)) off buf = file_write f off buf"
  by (simp add: file_write_at min_def add.commute)

text \<open>The files after a crash during the five writes.\<close>

lemma journal_image:
  assumes inv: "scratch_inv f sc" and off: "off < 2 ^ 62" and n: "length buf < 2 ^ 62"
    and img: "foldl apply_write (f, sc) (crash_writes k j (journal off buf)) = (f1, sc1)"
  shows "take 8 sc1 = le_bytes disk_version \<and> header_ok sc1 \<and>
    (f1 = f \<and> replay sc1 f = f \<and> k < 5 \<or> (\<exists>i. f1 = file_write f off (take i buf) \<and> pending sc1 = Some (off, buf)))"
proof -
  let ?v = "le_bytes disk_version" and ?n = "le_bytes (of_nat (length buf) :: u64)"
  define h where "h = le_bytes (of_nat off :: u64) @ le_bytes (NOT (of_nat off) :: u64)"
  have lh: "length h = 16" by (simp add: h_def)
  have v: "take 8 sc = ?v" using inv by (simp add: scratch_inv_def)
  from arg_cong [OF v, of length] have l8: "8 \<le> length sc" by simp
  have ff: "le_bytes invalid_offset @ le_bytes invalid_offset = replicate 16 255"
    unfolding invalid_bytes by (simp add: replicate_add [symmetric])
  define rest where "rest = drop (32 + length buf) sc"
  define s1 where "s1 = ?v @ replicate 16 255 @ drop 24 sc"
  define s2 where "s2 = ?v @ replicate 16 255 @ ?n @ drop 32 sc"
  define s3 where "s3 = ?v @ replicate 16 255 @ ?n @ buf @ rest"
  define s4 where "s4 i = ?v @ take i h @ replicate (16 - i) 255 @ ?n @ buf @ rest" for i
  have w1: "file_write sc 8 (replicate 16 255) = s1" using l8 v by (simp add: s1_def file_write_at)
  have w2: "file_write s1 24 bs = ?v @ replicate 16 255 @ bs @ drop (24 + length bs) sc" for bs
    by (simp add: s1_def file_write_at add.commute)
  have w3: "file_write s2 32 bs = ?v @ replicate 16 255 @ ?n @ bs @ drop (32 + length bs) sc" for bs
    by (simp add: s2_def file_write_at add.commute)
  have w4: "file_write s3 8 (take i h) = s4 i" if "i \<le> 16" for i
    using that lh by (simp add: s3_def s4_def file_write_at)
  have w2': "file_write s1 24 ?n = s2" by (simp add: w2 s2_def)
  have w3': "file_write s2 32 buf = s3" by (simp add: w3 s3_def rest_def)
  have w4': "file_write s3 8 h = s4 16" using w4 [of 16] lh by simp
  have v4: "header_ok (s4 i)" "pending (s4 i) = None \<or> pending (s4 i) = Some (off, buf)" "i = 16 \<Longrightarrow> pending (s4 i) = Some (off, buf)"
    if "i \<le> 16" for i using validate_partly [OF that off n, of rest] by (simp_all only: s4_def h_def)
  consider "k = 0" | "k = 1" | "k = 2" | "k = 3" | "k = 4" | "5 \<le> k" by linarith
  then show ?thesis
  proof cases
    case 1
    have "take j (replicate 16 (255 :: byte)) = replicate (min j 16) 255" by (simp add: take_replicate)
    then show ?thesis using img 1 invalidate_partly [OF inv, of "min j 16"] by (simp add: crash_writes_def journal_def ff)
  next
    case 2
    then have "f1 = f" "sc1 = ?v @ replicate 16 255 @ take j ?n @ drop (24 + length (take j ?n)) sc"
      using img by (simp_all add: crash_writes_def journal_def ff w1 w2)
    then show ?thesis using idle_pending idle_header 2 by (simp add: replay_def)
  next
    case 3
    then have "f1 = f" "sc1 = ?v @ replicate 16 255 @ ?n @ take j buf @ drop (32 + length (take j buf)) sc"
      using img by (simp_all add: crash_writes_def journal_def ff w1 w2' w3 numeral_2_eq_2)
    then show ?thesis using idle_pending idle_header 3 by (simp add: replay_def)
  next
    case 4
    have "take j h = take (min j 16) h" using lh by (cases "j \<le> 16") (simp_all add: min_def)
    then have "f1 = f" "sc1 = s4 (min j 16)"
      using img 4 w4 [of "min j 16"] by (simp_all add: crash_writes_def journal_def ff w1 w2' w3' numeral_3_eq_3 flip: h_def)
    then show ?thesis using v4 [of "min j 16"] 4 by (auto simp: replay_def s4_def intro!: exI [of _ 0] simp: file_write_def)
  next
    case 5
    then have "k = Suc (Suc (Suc (Suc 0)))" by simp
    then have "f1 = file_write f off (take j buf)" "sc1 = s4 16"
      using img by (simp_all add: crash_writes_def journal_def ff w1 w2' w3' w4' flip: h_def)
    then show ?thesis using v4 [of 16] by (auto simp: s4_def)
  next
    case 6
    then have "crash_writes k j (journal off buf) = journal off buf" by (simp add: crash_writes_def journal_def)
    then have "f1 = file_write f off (take (length buf) buf)" "sc1 = s4 16"
      using img by (simp_all add: journal_def ff w1 w2' w3' w4' flip: h_def)
    then show ?thesis using v4 [of 16] by (intro conjI disjI2 exI [of _ "length buf"]) (simp_all add: s4_def)
  qed
qed


text \<open>Opening a file that starts with the version.\<close>

lemma open_spec:
  assumes "take 8 f = le_bytes disk_version" "64 \<le> length f"
  shows "\<exists>st. disk_storage_open f sc = Some (0, st) \<and> ds_file st = replay sc f \<and> ds_scratch st = recovered_scratch sc \<and>
    eof_offset st = length f \<and> next_free_block st = replicate NUM_DISK_POOLS 0"
proof -
  define s0 where "s0 = \<lparr>ds_file = f, ds_pos = length f, ds_scratch = sc, ds_scratch_pos = 0, eof_offset = length f,
    next_free_block = replicate NUM_DISK_POOLS 0, ds_writes = []\<rparr>"
  have "f \<noteq> []" using assms(2) by auto
  then have "disk_storage_open f sc = Some (0, snd (disk_storage_recover_scratch s0))"
    using assms unfolding disk_storage_open_def
    by (simp add: read_file_def file_read_def must_lseek_def Let_def s0_def le_word_le_bytes disk_defs split: prod.split)
  then show ?thesis using recover_spec [of s0] by (simp add: s0_def)
qed

text \<open>The state of the store, its scratch file included, is intact and the live blocks are \<open>m\<close>.\<close>

definition disk_good :: "disk_storage \<Rightarrow> (nat \<Rightarrow> (u8 \<times> byte list) option) \<Rightarrow> bool" where
  "disk_good st m \<longleftrightarrow> disk_holds st m \<and> scratch_inv (ds_file st) (ds_scratch st)"

lemma file_ok_start: "file_ok f bs \<Longrightarrow> take 8 f = le_bytes disk_version \<and> 64 \<le> length f"
  by (auto simp: file_ok_def disk_defs)

lemma reopened:
  assumes f: "file_ok (replay sc f) bs" and len: "length (replay sc f) = length f" "length f < 2 ^ 62"
    and v: "take 8 f = le_bytes disk_version" and sc: "scratch_inv (replay sc f) (recovered_scratch sc)"
  shows "\<exists>st. disk_storage_open f sc = Some (0, st) \<and> disk_good st (live bs)"
proof -
  have "64 \<le> length f" using file_ok_start [OF f] len by simp
  then obtain st where st: "disk_storage_open f sc = Some (0, st)" "ds_file st = replay sc f" "ds_scratch st = recovered_scratch sc"
    "eof_offset st = length f" "next_free_block st = replicate NUM_DISK_POOLS 0" using open_spec [OF v] by blast
  have "disk_inv st bs (\<lambda>_. [])" using st f len by (simp add: disk_inv_def)
  then show ?thesis using st sc unfolding disk_good_def disk_holds_def by auto
qed


text \<open>Both changes of a block perform exactly the journal.\<close>

lemma log_journal:
  "ds_writes (disk_storage_write_block_for_real (disk_storage_write_scratch st off buf) off buf) = ds_writes st @ journal off buf"
  by (simp add: disk_storage_write_block_for_real_def disk_storage_write_scratch_def must_write_scratch_def must_lseek_scratch_def
      must_write_def must_lseek_def journal_def disk_storage_get_checksum_def Let_def)

lemma scratch_journal:
  "ds_scratch (disk_storage_write_scratch st off buf) = snd (foldl apply_write (ds_file st, ds_scratch st) (journal off buf))"
  by (simp add: disk_storage_write_scratch_def must_write_scratch_def must_lseek_scratch_def journal_def disk_storage_get_checksum_def Let_def)

lemma journal_complete: "crash_writes 5 0 (journal off buf) = journal off buf"
  by (simp add: crash_writes_def journal_def)

lemma journal_file: "fst (foldl apply_write (f, sc) (journal off buf)) = file_write f off buf"
  by (simp add: journal_def)

lemma write_block_log:
  assumes "disk_storage_write_block st off s buf = Some (r, st')"
  shows "\<exists>p. p = file_read (ds_file st) off 2 ! 1 \<and> ds_writes st' = ds_writes st @ journal off ([s, p] @ buf) \<and>
    ds_file st' = file_write (ds_file st) off ([s, p] @ buf) \<and>
    ds_scratch st' = snd (foldl apply_write (ds_file st, ds_scratch st) (journal off ([s, p] @ buf)))"
proof -
  let ?h = "file_read (ds_file st) off 2"
  have "st' = (let st1 = st\<lparr>ds_pos := off + length ?h\<rparr>; b = [s, ?h ! 1] @ buf
      in disk_storage_write_block_for_real (disk_storage_write_scratch st1 off b) off b)"
    using assms unfolding disk_storage_write_block_def
    by (auto simp: must_lseek_def read_file_def BLOCK_HEADER_SIZE_def Let_def split: Option.bind_split_asm)
  then show ?thesis by (intro exI [of _ "?h ! 1"]) (simp add: log_journal scratch_journal Let_def del: append.simps)
qed

lemma release_block_log:
  assumes "disk_storage_release_block st off = Some (0, st')"
  shows "\<exists>p nxt. ds_writes st' = ds_writes st @ journal off ([0, p] @ le_bytes (nxt :: u64)) \<and>
    ds_file st' = file_write (ds_file st) off ([0, p] @ le_bytes nxt) \<and>
    ds_scratch st' = snd (foldl apply_write (ds_file st, ds_scratch st) (journal off ([0, p] @ le_bytes nxt)))"
proof -
  let ?h = "file_read (ds_file st) off 2"
  let ?nxt = "of_nat (next_free_block st ! unat (?h ! 1)) :: u64"
  have "\<exists>nf. st' = (let st1 = st\<lparr>ds_pos := off + length ?h\<rparr>; b = [0, ?h ! 1] @ le_bytes ?nxt
      in disk_storage_write_block_for_real (disk_storage_write_scratch st1 off b) off b\<lparr>next_free_block := nf\<rparr>)"
    using assms unfolding disk_storage_release_block_def
    by (auto simp: must_lseek_def must_read_def read_file_def BLOCK_HEADER_SIZE_def Let_def
        split: Option.bind_split_asm if_split_asm)
  then show ?thesis
    by (elim exE, intro exI [of _ "?h ! 1"] exI [of _ ?nxt]) (simp add: log_journal scratch_journal Let_def del: append.simps)
qed

text \<open>
  A crash while a block is changed from one well-formed file to another. Both operations give such files
  (\<open>write_in_block\<close>), so this is the common part of their crash safety.
\<close>

lemma crash_change:
  assumes f: "file_ok f bs" "file_ok (file_write f off buf) bs'" "length (file_write f off buf) = length f" "length f < 2 ^ 62"
    and off: "64 \<le> off" "off \<le> length f" "length buf < 2 ^ 62" and sc: "scratch_inv f sc"
    and img: "foldl apply_write (f, sc) (crash_writes k j (journal off buf)) = (f1, sc1)"
  shows "\<exists>st. disk_storage_open f1 sc1 = Some (0, st) \<and> (disk_good st (live bs) \<and> k < 5 \<or> disk_good st (live bs'))"
    (is "\<exists>st. ?open st \<and> ?good st")
proof -
  have o62: "off < 2 ^ 62" using off(2) f(4) by simp
  note i = journal_image [OF sc o62 off(3) img]
  have r: "scratch_inv (replay sc1 f1) (recovered_scratch sc1)" using recovered_inv i by blast
  have v: "take 8 f = le_bytes disk_version" using file_ok_start [OF f(1)] by simp
  consider "f1 = f" "replay sc1 f = f" "k < 5" | i where "f1 = file_write f off (take i buf)" "pending sc1 = Some (off, buf)"
    using i by auto
  then show ?thesis
  proof cases
    case 1
    then show ?thesis using reopened [of sc1 f1 bs] r f v by auto
  next
    case 2
    have rp: "replay sc1 f1 = file_write f off buf" using 2 overwrite_partly [OF off(2)] by (simp add: replay_def)
    have "take 8 f1 = le_bytes disk_version" using v off by (simp add: 2(1) file_write_at min_def)
    moreover have "length f1 = length f"
    proof -
      have "off + length buf \<le> length f \<or> buf = []" using f(3) off(2) by (auto simp: file_write_at split: if_splits)
      then show ?thesis using off(2) by (auto simp: 2(1) file_write_at min_def)
    qed
    ultimately show ?thesis using reopened [of sc1 f1 bs'] r rp f by auto
  qed
qed

end
