(* ===== verification/Disk_Contract.thy ===== *)
theory Disk_Contract
  imports Disk_Recovery
begin

unbundle bit_operations_syntax

text \<open>
  The contract of the block store and the properties of \<^verbatim>\<open>disk_storage.c\<close>. The locale \<open>block_store\<close> states
  what the storage relies on: a map from offsets to blocks that adding, writing and releasing change at
  one place, and that survives a restart and a crash. It is interpreted on the functions of
  \<open>Disk_Storage\<close>, whose state satisfies \<open>disk_good\<close>.
\<close>

section \<open>Every operation keeps the files intact\<close>

lemma scratch_inv_append: "scratch_inv f sc \<Longrightarrow> scratch_inv (f @ x) sc"
proof -
  assume a: "scratch_inv f sc"
  have "replay sc (f @ x) = f @ x"
  proof (cases "pending sc")
    case (Some e)
    obtain off b where e: "e = (off, b)" by (cases e)
    have w: "file_write f off b = f" using a Some e by (simp add: scratch_inv_def replay_def)
    show ?thesis
    proof (cases "b = []")
      case False
      have "length (file_write f off b) = max (length f) (off + length b)" using False by (simp add: file_write_def)
      then have "off + length b \<le> length f" using w by simp
      then show ?thesis using w Some e by (simp add: replay_def file_write_at)
    qed (simp add: replay_def Some e file_write_def)
  qed (simp add: replay_def)
  then show ?thesis using a by (simp add: scratch_inv_def)
qed

lemma reserve_appends:
  assumes "disk_storage_reserve_block st n = Some (r, off, st')" "eof_offset st = length (ds_file st)"
  shows "ds_scratch st' = ds_scratch st \<and> (\<exists>x. ds_file st' = ds_file st @ x)"
proof -
  have app: "\<exists>x. file_write (f @ y) k z = f @ x" if "length f \<le> k" for f y z k
    using that by (auto simp: file_write_def)
  have "\<exists>x. file_write (file_write (ds_file st) (eof_offset st) h) (Suc (eof_offset st + b)) z = ds_file st @ x" for h z b
  proof -
    have "file_write (ds_file st) (eof_offset st) h = ds_file st @ h" using assms(2) by (simp add: file_write_def)
    then show ?thesis using app [of "ds_file st" "Suc (eof_offset st + b)" h z] assms(2) by simp
  qed
  then show ?thesis using assms unfolding disk_storage_reserve_block_def
    by (auto simp: must_write_def must_lseek_def must_read_def read_file_def BLOCK_HEADER_SIZE_def Let_def
        split: Option.bind_split_asm if_split_asm)
qed

lemma journal_inv:
  assumes sc: "scratch_inv f sc" and off: "off < 2 ^ 62" "off \<le> length f" and n: "length buf < 2 ^ 62"
  shows "scratch_inv (file_write f off buf) (snd (foldl apply_write (f, sc) (journal off buf)))"
proof -
  obtain f1 sc1 where img: "foldl apply_write (f, sc) (journal off buf) = (f1, sc1)" by fastforce
  have f1: "f1 = file_write f off buf" using journal_file [of f sc off buf] img by simp
  have "foldl apply_write (f, sc) (crash_writes 5 0 (journal off buf)) = (f1, sc1)" using img by (simp add: journal_complete)
  from journal_image [OF sc off(1) n this]
  have i: "take 8 sc1 = le_bytes disk_version" "header_ok sc1" "pending sc1 = Some (off, buf)" by auto
  have "file_write (file_write f off buf) off buf = file_write f off buf"
    using overwrite_partly [OF off(2), of "length buf" buf] by simp
  then show ?thesis using i f1 img by (simp add: scratch_inv_def replay_def)
qed

text \<open>One statement for the two operations that change a block: their effect, and that a crash inside them is harmless.\<close>

lemma change_block:
  assumes good: "disk_good st m" and off: "64 \<le> off" "off \<le> length (ds_file st)" and n: "length b < 2 ^ 62"
    and w: "ds_writes st' = ds_writes st @ journal off b" "ds_file st' = file_write (ds_file st) off b"
      "ds_scratch st' = snd (foldl apply_write (ds_file st, ds_scratch st) (journal off b))"
    and h: "disk_holds st' m'" "disk_size st' = disk_size st"
  shows "disk_good st' m'"
    "\<exists>st''. case_prod disk_storage_open (crash_image k j st st') = Some (0, st'') \<and> (disk_good st'' m \<and> k < 5 \<or> disk_good st'' m')"
proof -
  obtain bs frees where bs: "disk_inv st bs frees" "live bs = m" "scratch_inv (ds_file st) (ds_scratch st)"
    using good by (auto simp: disk_good_def disk_holds_def)
  obtain bs' frees' where bs': "disk_inv st' bs' frees'" "live bs' = m'" using h by (auto simp: disk_holds_def)
  have f: "file_ok (ds_file st) bs" "length (ds_file st) < 2 ^ 62" "file_ok (ds_file st') bs'" using bs bs' by (simp_all add: disk_inv_def)
  have o62: "off < 2 ^ 62" using off(2) f(2) by simp
  show "disk_good st' m'" using journal_inv [OF bs(3) o62 off(2) n] h(1) w(2,3) by (simp add: disk_good_def)
  obtain f1 sc1 where img: "crash_image k j st st' = (f1, sc1)" by fastforce
  then have "foldl apply_write (ds_file st, ds_scratch st) (crash_writes k j (journal off b)) = (f1, sc1)"
    by (simp add: crash_image_def w(1))
  from crash_change [OF f(1) _ _ f(2) off n bs(3) this, of bs']
  show "\<exists>st''. case_prod disk_storage_open (crash_image k j st st') = Some (0, st'') \<and> (disk_good st'' m \<and> k < 5 \<or> disk_good st'' m')"
    using f(3) h(2) bs(2) bs'(2) img w(2) by (simp add: disk_size_def)
qed

lemma good_holds: "disk_good st m \<Longrightarrow> disk_holds st m"
  by (simp add: disk_good_def)

lemma holds_bound:
  assumes "disk_holds st m" "m off = Some (s, d)"
  shows "64 \<le> off \<and> off \<le> disk_size st \<and> disk_size st < 2 ^ 62 \<and> length d \<le> 2 ^ 26"
proof -
  obtain bs frees where bs: "disk_inv st bs frees" "live bs = m" using assms(1) by (auto simp: disk_holds_def)
  then obtain p where b: "block_at bs off = Some (Block s p d)" using live_blockD assms(2) by blast
  have f: "file_ok (ds_file st) bs" using bs(1) by (simp add: disk_inv_def)
  have "length d = 2 ^ (unat p + 7)" "unat p < 20" using block_at_ok [OF f b] by (simp_all add: block_ok_def disk_defs)
  moreover have "(2::nat) ^ (unat p + 7) \<le> 2 ^ 26" using calculation(2) by (intro power_increasing) simp_all
  ultimately show ?thesis using block_at_bound [OF f b] bs(1) by (simp add: disk_inv_def disk_size_def)
qed

lemma write_good:
  assumes good: "disk_good st m" and off: "m off = Some (t, d)" and n: "length buf \<le> length d"
    and s: "s = BLOCK_STATUS_VALID \<or> s = BLOCK_STATUS_ACTIVE"
  defines "m' \<equiv> m(off \<mapsto> (s, buf @ drop (length buf) d))"
  shows "\<exists>st'. disk_storage_write_block st off s buf = Some (0, st') \<and> disk_good st' m' \<and> disk_size st' = disk_size st \<and>
    (\<forall>k j. \<exists>st''. case_prod disk_storage_open (crash_image k j st st') = Some (0, st'') \<and> (disk_good st'' m \<and> k < 5 \<or> disk_good st'' m'))"
proof -
  obtain st' where st': "disk_storage_write_block st off s buf = Some (0, st')" "disk_holds st' m'" "disk_size st' = disk_size st"
    using write_block_holds [OF good_holds [OF good] off n s] unfolding m'_def by blast
  obtain p where p: "ds_writes st' = ds_writes st @ journal off ([s, p] @ buf)" "ds_file st' = file_write (ds_file st) off ([s, p] @ buf)"
    "ds_scratch st' = snd (foldl apply_write (ds_file st, ds_scratch st) (journal off ([s, p] @ buf)))" using write_block_log [OF st'(1)] by blast
  have b: "64 \<le> off" "off \<le> length (ds_file st)" "length ([s, p] @ buf) < 2 ^ 62"
    using holds_bound [OF good_holds [OF good] off] n by (simp_all add: disk_size_def)
  note c = change_block [OF good b p st'(2,3)]
  show ?thesis using st' c by blast
qed

lemma release_good:
  assumes good: "disk_good st m" and off: "m off = Some x"
  shows "\<exists>st'. disk_storage_release_block st off = Some (0, st') \<and> disk_good st' (m(off := None)) \<and> disk_size st' = disk_size st \<and>
    (\<forall>k j. \<exists>st''. case_prod disk_storage_open (crash_image k j st st') = Some (0, st'') \<and>
      (disk_good st'' m \<and> k < 5 \<or> disk_good st'' (m(off := None))))"
proof -
  obtain st' where st': "disk_storage_release_block st off = Some (0, st')" "disk_holds st' (m(off := None))" "disk_size st' = disk_size st"
    using release_block_holds [OF good_holds [OF good] off] by blast
  obtain p nxt where p: "ds_writes st' = ds_writes st @ journal off ([0, p] @ le_bytes (nxt :: u64))"
    "ds_file st' = file_write (ds_file st) off ([0, p] @ le_bytes nxt)"
    "ds_scratch st' = snd (foldl apply_write (ds_file st, ds_scratch st) (journal off ([0, p] @ le_bytes nxt)))"
    using release_block_log [OF st'(1)] by blast
  have b: "64 \<le> off" "off \<le> length (ds_file st)" "length ([0, p] @ le_bytes nxt) < 2 ^ 62"
    using holds_bound [OF good_holds [OF good], of off "fst x" "snd x"] off by (simp_all add: disk_size_def)
  note c = change_block [OF good b p st'(2,3)]
  show ?thesis using st' c by blast
qed

lemma read_good:
  assumes good: "disk_good st m" and off: "m off = Some (s, d)" and n: "length d \<le> max_n"
  shows "\<exists>st'. disk_storage_read_block st off max_n = Some (0, Some (s, d), st') \<and> disk_good st' m \<and> disk_size st' = disk_size st"
proof -
  obtain st' where st': "disk_storage_read_block st off max_n = Some (0, Some (s, d), st')" "disk_holds st' m" "disk_size st' = disk_size st"
    using read_block_holds [OF good_holds [OF good] off n] by blast
  then have "ds_file st' = ds_file st \<and> ds_scratch st' = ds_scratch st"
    unfolding disk_storage_read_block_def
    by (auto simp: must_lseek_def read_file_def Let_def split: Option.bind_split_asm if_split_asm)
  then show ?thesis using st' good by (auto simp: disk_good_def)
qed

lemma add_good:
  assumes good: "disk_good st m" and n: "2 \<le> length buf" "length buf \<le> 2 ^ 26"
    and s: "s = BLOCK_STATUS_VALID \<or> s = BLOCK_STATUS_ACTIVE" and room: "disk_size st + 2 ^ 27 < 2 ^ 62"
  shows "\<exists>st' off pad. disk_storage_reserve_and_write_block st s buf = Some (0, off, st') \<and> m off = None \<and>
    disk_good st' (m(off \<mapsto> (s, buf @ pad))) \<and> disk_size st' \<le> disk_size st + 2 ^ 27 \<and>
    (\<forall>k. 7 \<le> k \<longrightarrow> k \<le> 26 \<longrightarrow> length buf \<le> 2 ^ k \<longrightarrow> length (buf @ pad) \<le> 2 ^ k)"
proof -
  obtain st' off pad where r: "disk_storage_reserve_and_write_block st s buf = Some (0, off, st')" "m off = None"
    "disk_holds st' (m(off \<mapsto> (s, buf @ pad)))" "disk_size st' \<le> disk_size st + 2 ^ 27"
    "\<forall>k. 7 \<le> k \<longrightarrow> k \<le> 26 \<longrightarrow> length buf \<le> 2 ^ k \<longrightarrow> length (buf @ pad) \<le> 2 ^ k"
    using reserve_and_write_ok [OF good_holds [OF good] n s room] by blast
  obtain st1 where st1: "disk_storage_reserve_block st (length buf) = Some (0, off, st1)" "disk_storage_write_block st1 off s buf = Some (0, st')"
    using r(1) by (auto simp: disk_storage_reserve_and_write_block_def split: Option.bind_split_asm if_split_asm)
  have "eof_offset st = length (ds_file st)" using good by (auto simp: disk_good_def disk_holds_def disk_inv_def)
  then obtain x where x: "ds_scratch st1 = ds_scratch st" "ds_file st1 = ds_file st @ x" using reserve_appends [OF st1(1)] by blast
  then have sc1: "scratch_inv (ds_file st1) (ds_scratch st1)" using scratch_inv_append good by (simp add: disk_good_def)
  obtain p where p: "ds_file st' = file_write (ds_file st1) off ([s, p] @ buf)"
    "ds_scratch st' = snd (foldl apply_write (ds_file st1, ds_scratch st1) (journal off ([s, p] @ buf)))" using write_block_log [OF st1(2)] by blast
  have hb: "off \<le> disk_size st'" "disk_size st' < 2 ^ 62" using holds_bound [OF r(3), of off] by simp_all
  have "2 \<le> length (file_read (ds_file st1) off 2)"
    using st1(2) by (auto simp: disk_storage_write_block_def must_lseek_def read_file_def BLOCK_HEADER_SIZE_def Let_def split: Option.bind_split_asm)
  then have "off \<le> length (ds_file st1)" by (simp add: file_read_def)
  then have "scratch_inv (ds_file st') (ds_scratch st')" using journal_inv [OF sc1, of off "[s, p] @ buf"] hb n p by simp
  then show ?thesis using r by (intro exI [of _ st'] exI [of _ off] exI [of _ pad]) (simp add: disk_good_def)
qed

lemma restart_file:
  assumes "disk_good st m"
  shows "\<exists>st'. disk_storage_open (ds_file st) (ds_scratch st) = Some (0, st') \<and> ds_file st' = ds_file st"
proof -
  obtain bs frees where bs: "disk_inv st bs frees" "scratch_inv (ds_file st) (ds_scratch st)"
    using assms by (auto simp: disk_good_def disk_holds_def)
  have "replay (ds_scratch st) (ds_file st) = ds_file st" using bs(2) by (simp add: scratch_inv_def)
  moreover have "file_ok (ds_file st) bs" using bs(1) by (simp add: disk_inv_def)
  ultimately show ?thesis using open_spec [of "ds_file st" "ds_scratch st"] file_ok_start [of "ds_file st" bs] by auto
qed

lemma restart_good:
  assumes "disk_good st m"
  shows "\<exists>st'. disk_storage_open (ds_file st) (ds_scratch st) = Some (0, st') \<and> disk_good st' m \<and> disk_size st' = disk_size st"
proof -
  obtain bs frees where bs: "disk_inv st bs frees" "live bs = m" "scratch_inv (ds_file st) (ds_scratch st)"
    using assms by (auto simp: disk_good_def disk_holds_def)
  have f: "file_ok (ds_file st) bs" "length (ds_file st) < 2 ^ 62" using bs(1) by (simp_all add: disk_inv_def)
  have r: "replay (ds_scratch st) (ds_file st) = ds_file st" using bs(3) by (simp add: scratch_inv_def)
  obtain st' where st': "disk_storage_open (ds_file st) (ds_scratch st) = Some (0, st')" "disk_good st' (live bs)"
    using reopened [of "ds_scratch st" "ds_file st" bs] recovered_inv [of "ds_scratch st" "ds_file st"] f r bs(3) file_ok_start [OF f(1)]
    by (auto simp: scratch_inv_def)
  then show ?thesis using restart_file [OF assms] bs(2) by (auto simp: disk_size_def)
qed

lemma open_empty_fields:
  "\<exists>st. disk_storage_open [] [] = Some (0, st) \<and> ds_file st = le_bytes disk_version @ replicate 56 0 \<and>
     ds_scratch st = le_bytes disk_version \<and> eof_offset st = 64 \<and> next_free_block st = replicate NUM_DISK_POOLS 0"
proof -
  define f where "f = le_bytes disk_version @ replicate 56 0"
  define s0 where "s0 = \<lparr>ds_file = f, ds_pos = 64, ds_scratch = [], ds_scratch_pos = 0, eof_offset = 64,
    next_free_block = replicate NUM_DISK_POOLS 0, ds_writes = [File_Write 0 (le_bytes disk_version), File_Write 63 [0]]\<rparr>"
  have "file_write (file_write [] 0 (le_bytes disk_version)) 63 [0] = f"
    by (simp add: f_def file_write_def le_bytes_u64 replicate_append_same replicate_Suc [symmetric] del: replicate_Suc)
  then have "disk_storage_open [] [] = Some (0, snd (disk_storage_recover_scratch s0))"
    unfolding disk_storage_open_def
    by (simp add: read_file_def file_read_def must_lseek_def must_write_def Let_def s0_def disk_defs split: prod.split)
  then show ?thesis using recover_spec [of s0] by (simp add: s0_def f_def replay_def recovered_scratch_def pending_def)
qed

lemma open_empty: "\<exists>st. disk_storage_open [] [] = Some (0, st) \<and> disk_good st Map.empty \<and> disk_size st = 64"
proof -
  define f where "f = le_bytes disk_version @ replicate 56 0"
  obtain st where st: "disk_storage_open [] [] = Some (0, st)" "ds_file st = f" "ds_scratch st = le_bytes disk_version"
    "eof_offset st = 64" "next_free_block st = replicate NUM_DISK_POOLS 0" using open_empty_fields unfolding f_def by blast
  have "file_ok f []" unfolding file_ok_def by (intro conjI exI [of _ f]) (simp_all add: f_def disk_defs)
  then have "disk_inv st [] (\<lambda>_. [])" using st by (simp add: disk_inv_def f_def)
  moreover have "live [] = Map.empty" by (rule ext) (simp add: live_def block_at_def)
  moreover have "scratch_inv f (le_bytes disk_version)" by (simp add: scratch_inv_def header_ok_def replay_def pending_def)
  ultimately show ?thesis using st unfolding disk_good_def disk_holds_def by (auto simp: disk_size_def f_def)
qed

section \<open>The contract\<close>

text \<open>A sequence of additions, each with the same status; the result is the list of offsets.\<close>

primrec add_list :: "('s \<Rightarrow> u8 \<Rightarrow> byte list \<Rightarrow> (int \<times> nat \<times> 's) option) \<Rightarrow> 's \<Rightarrow> u8 \<Rightarrow> byte list list \<Rightarrow> (nat list \<times> 's) option" where
  "add_list add_op st s [] = Some ([], st)"
| "add_list add_op st s (buf # bufs) = (case add_op st s buf of None \<Rightarrow> None
     | Some (r, off, st) \<Rightarrow> if r \<noteq> 0 then None else map_option (\<lambda>(offs, st). (off # offs, st)) (add_list add_op st s bufs))"

locale block_store =
  fixes good :: "'s \<Rightarrow> (nat \<Rightarrow> (u8 \<times> byte list) option) \<Rightarrow> bool"
    and space :: "'s \<Rightarrow> nat"
    and max_block :: nat
    and add_op :: "'s \<Rightarrow> u8 \<Rightarrow> byte list \<Rightarrow> (int \<times> nat \<times> 's) option"
    and write_op :: "'s \<Rightarrow> nat \<Rightarrow> u8 \<Rightarrow> byte list \<Rightarrow> (int \<times> 's) option"
    and read_op :: "'s \<Rightarrow> nat \<Rightarrow> nat \<Rightarrow> (int \<times> (u8 \<times> byte list) option \<times> 's) option"
    and release_op :: "'s \<Rightarrow> nat \<Rightarrow> (int \<times> 's) option"
    and restart_op :: "'s \<Rightarrow> (int \<times> 's) option"
  assumes add_law: "good st m \<Longrightarrow> 2 \<le> length buf \<Longrightarrow> length buf \<le> max_block \<Longrightarrow> s = BLOCK_STATUS_VALID \<or> s = BLOCK_STATUS_ACTIVE \<Longrightarrow>
      space st + 2 ^ 27 < 2 ^ 62 \<Longrightarrow> \<exists>st' off pad. add_op st s buf = Some (0, off, st') \<and> m off = None \<and>
        good st' (m(off \<mapsto> (s, buf @ pad))) \<and> space st' \<le> space st + 2 ^ 27"
    and write_law: "good st m \<Longrightarrow> m off = Some (t, d) \<Longrightarrow> length buf \<le> length d \<Longrightarrow> s = BLOCK_STATUS_VALID \<or> s = BLOCK_STATUS_ACTIVE \<Longrightarrow>
      \<exists>st'. write_op st off s buf = Some (0, st') \<and> good st' (m(off \<mapsto> (s, buf @ drop (length buf) d))) \<and> space st' = space st"
    and read_law: "good st m \<Longrightarrow> m off = Some (s, d) \<Longrightarrow> length d \<le> max_n \<Longrightarrow>
      \<exists>st'. read_op st off max_n = Some (0, Some (s, d), st') \<and> good st' m \<and> space st' = space st"
    and release_law: "good st m \<Longrightarrow> m off = Some x \<Longrightarrow>
      \<exists>st'. release_op st off = Some (0, st') \<and> good st' (m(off := None)) \<and> space st' = space st"
    and restart_law: "good st m \<Longrightarrow> \<exists>st'. restart_op st = Some (0, st') \<and> good st' m \<and> space st' = space st"
    and size_law: "good st m \<Longrightarrow> m off = Some (s, d) \<Longrightarrow> length d \<le> max_block"
begin

lemma write_then_read:
  assumes "good st m" "m off = Some (t, d)" "length buf \<le> length d" "s = BLOCK_STATUS_VALID \<or> s = BLOCK_STATUS_ACTIVE"
  shows "\<exists>st1 st2. write_op st off s buf = Some (0, st1) \<and> read_op st1 off max_block = Some (0, Some (s, buf @ drop (length buf) d), st2) \<and>
    good st2 (m(off \<mapsto> (s, buf @ drop (length buf) d)))"
proof -
  obtain st1 where st1: "write_op st off s buf = Some (0, st1)" "good st1 (m(off \<mapsto> (s, buf @ drop (length buf) d)))"
    using write_law [OF assms] by blast
  have "length (buf @ drop (length buf) d) \<le> max_block" using size_law [OF assms(1,2)] assms(3) by simp
  then show ?thesis using st1 read_law [OF st1(2)] by (metis fun_upd_same)
qed

lemma add_list_ok:
  assumes "good st m" "\<forall>buf\<in>set bufs. 2 \<le> length buf \<and> length buf \<le> max_block" "s = BLOCK_STATUS_VALID \<or> s = BLOCK_STATUS_ACTIVE"
    "space st + length bufs * 2 ^ 27 < 2 ^ 62"
  shows "\<exists>offs st' m'. add_list add_op st s bufs = Some (offs, st') \<and> good st' m' \<and> distinct offs \<and> length offs = length bufs \<and>
    (\<forall>off. off \<notin> set offs \<longrightarrow> m' off = m off) \<and> (\<forall>off\<in>set offs. m off = None) \<and>
    (\<forall>i < length bufs. \<exists>pad. m' (offs ! i) = Some (s, bufs ! i @ pad))"
  using assms
proof (induction bufs arbitrary: st m)
  case (Cons buf bufs)
  obtain st1 off pad where a: "add_op st s buf = Some (0, off, st1)" "m off = None" "good st1 (m(off \<mapsto> (s, buf @ pad)))"
    "space st1 \<le> space st + 2 ^ 27" using add_law [OF Cons.prems(1), of buf s] Cons.prems(2-4) by auto
  obtain offs st' m' where r: "add_list add_op st1 s bufs = Some (offs, st')" "good st' m'" "distinct offs" "length offs = length bufs"
    "\<forall>o'. o' \<notin> set offs \<longrightarrow> m' o' = (m(off \<mapsto> (s, buf @ pad))) o'" "\<forall>o'\<in>set offs. (m(off \<mapsto> (s, buf @ pad))) o' = None"
    "\<forall>i < length bufs. \<exists>pad. m' (offs ! i) = Some (s, bufs ! i @ pad)"
    using Cons.IH [OF a(3)] Cons.prems a(4) by auto
  have nin: "off \<notin> set offs" using r(6) by auto
  then have "m' off = Some (s, buf @ pad)" using r(5) by simp
  then have "\<forall>i < length (buf # bufs). \<exists>pad. m' ((off # offs) ! i) = Some (s, (buf # bufs) ! i @ pad)"
    using r(7) by (auto simp: less_Suc_eq_0_disj)
  moreover have "\<forall>o'. o' \<notin> set (off # offs) \<longrightarrow> m' o' = m o'" using r(5) by simp
  moreover have "m o' = None" if "o' \<in> set (off # offs)" for o'
    using bspec [OF r(6), of o'] that a(2) by (cases "o' = off") simp_all
  ultimately show ?case using a(1) r(1-4) nin
    by (intro exI [of _ "off # offs"] exI [of _ st'] exI [of _ m']) simp
next
  case Nil
  then show ?case by (intro exI [of _ "[]"] exI [of _ st] exI [of _ m]) simp
qed

text \<open>Everything that was added is read back, after a restart too.\<close>

lemma add_list_durable:
  assumes "good st m" "\<forall>buf\<in>set bufs. 2 \<le> length buf \<and> length buf \<le> max_block" "s = BLOCK_STATUS_VALID \<or> s = BLOCK_STATUS_ACTIVE"
    "space st + length bufs * 2 ^ 27 < 2 ^ 62" "i < length bufs"
  shows "\<exists>offs st1 st2 pad st3. add_list add_op st s bufs = Some (offs, st1) \<and> distinct offs \<and> restart_op st1 = Some (0, st2) \<and>
    read_op st2 (offs ! i) max_block = Some (0, Some (s, bufs ! i @ pad), st3)"
proof -
  obtain offs st1 m' where r: "add_list add_op st s bufs = Some (offs, st1)" "good st1 m'" "distinct offs"
    "\<forall>i < length bufs. \<exists>pad. m' (offs ! i) = Some (s, bufs ! i @ pad)" using add_list_ok [OF assms(1-4)] by blast
  obtain pad where p: "m' (offs ! i) = Some (s, bufs ! i @ pad)" using r(4) assms(5) by blast
  obtain st2 where st2: "restart_op st1 = Some (0, st2)" "good st2 m'" using restart_law [OF r(2)] by blast
  show ?thesis using r(1,3) st2(1) read_law [OF st2(2) p size_law [OF st2(2) p]] by blast
qed

end

interpretation ds: block_store disk_good disk_size "2 ^ 26" disk_storage_reserve_and_write_block disk_storage_write_block
  disk_storage_read_block disk_storage_release_block "\<lambda>st. disk_storage_open (ds_file st) (ds_scratch st)"
proof unfold_locales
  fix st m off t d and buf :: "byte list" and s :: u8
  assume "disk_good st m" "m off = Some (t, d)" "length buf \<le> length d" "s = BLOCK_STATUS_VALID \<or> s = BLOCK_STATUS_ACTIVE"
  from write_good [OF this] show "\<exists>st'. disk_storage_write_block st off s buf = Some (0, st') \<and>
    disk_good st' (m(off \<mapsto> (s, buf @ drop (length buf) d))) \<and> disk_size st' = disk_size st" by blast
next
  fix st m off x assume "disk_good st m" "m off = Some x"
  from release_good [OF this] show "\<exists>st'. disk_storage_release_block st off = Some (0, st') \<and>
    disk_good st' (m(off := None)) \<and> disk_size st' = disk_size st" by blast
next
  fix st m off s d assume "disk_good st m" "m off = Some (s, d)"
  from holds_bound [OF good_holds [OF this(1)] this(2)] show "length d \<le> 2 ^ 26" by blast
next
  fix st m and buf :: "byte list" and s :: u8
  assume "disk_good st m" "2 \<le> length buf" "length buf \<le> 2 ^ 26" "s = BLOCK_STATUS_VALID \<or> s = BLOCK_STATUS_ACTIVE" "disk_size st + 2 ^ 27 < 2 ^ 62"
  from add_good [OF this] show "\<exists>st' off pad. disk_storage_reserve_and_write_block st s buf = Some (0, off, st') \<and> m off = None \<and>
    disk_good st' (m(off \<mapsto> (s, buf @ pad))) \<and> disk_size st' \<le> disk_size st + 2 ^ 27" by blast
qed (fact read_good restart_good)+

section \<open>Stores of small blocks\<close>

text \<open>
  The storage loads blocks of at most 2^20 bytes. A store to which only such blocks were added has no
  larger ones, not even among the free ones, which the scan at start passes over. It satisfies the
  contract with this bound.
\<close>

lemma enc_blocks_inj:
  assumes "enc_blocks bs = enc_blocks cs" "\<forall>b\<in>set bs. block_ok b" "\<forall>b\<in>set cs. block_ok b"
  shows "bs = cs"
  using assms
proof (induction bs arbitrary: cs)
  case Nil
  then show ?case by (cases cs) (simp_all add: enc_block_def)
next
  case (Cons b bs)
  then obtain c cs' where c: "cs = c # cs'" by (cases cs) (simp_all add: enc_block_def)
  then have e: "bstatus b = bstatus c" "bpool b = bpool c" "bdata b @ enc_blocks bs = bdata c @ enc_blocks cs'"
    using Cons.prems(1) by (simp_all add: enc_block_def)
  moreover have "length (bdata b) = length (bdata c)" using e(2) Cons.prems(2,3) c by (simp add: block_ok_def)
  ultimately have "b = c" "enc_blocks bs = enc_blocks cs'" by (cases b; cases c; simp)+
  then show ?case using Cons.IH [of cs'] Cons.prems(2,3) c by simp
qed

lemma file_ok_unique: "file_ok f bs \<Longrightarrow> file_ok f cs \<Longrightarrow> bs = cs"
  using enc_blocks_inj [of bs cs] by (auto simp: file_ok_def)

definition disk_ok :: "disk_storage \<Rightarrow> (nat \<Rightarrow> (u8 \<times> byte list) option) \<Rightarrow> bool" where
  "disk_ok st m \<longleftrightarrow> disk_good st m \<and> (\<exists>bs. file_ok (ds_file st) bs \<and> blocks_le (2 ^ 20) bs)"

lemma disk_ok_good: "disk_ok st m \<Longrightarrow> disk_good st m"
  by (simp add: disk_ok_def)

lemma disk_ok_blocks:
  assumes "disk_ok st m"
  obtains bs frees where "disk_inv st bs frees" "live bs = m" "blocks_le (2 ^ 20) bs" "file_ok (ds_file st) bs"
proof -
  obtain bs frees where "disk_inv st bs frees" "live bs = m" using assms by (auto simp: disk_ok_def disk_good_def disk_holds_def)
  moreover then have "file_ok (ds_file st) bs" by (simp add: disk_inv_def)
  ultimately show thesis using that assms file_ok_unique unfolding disk_ok_def by metis
qed

lemma disk_okI: "disk_good st m \<Longrightarrow> disk_inv st bs frees \<Longrightarrow> blocks_le (2 ^ 20) bs \<Longrightarrow> disk_ok st m"
  by (auto simp: disk_ok_def disk_inv_def)

lemma disk_ok_size: "disk_ok st m \<Longrightarrow> m off = Some (s, d) \<Longrightarrow> length d \<le> 2 ^ 20"
  using live_blockD by (metis block.sel(3) blocks_le_def disk_ok_blocks)

lemma write_small:
  assumes ok: "disk_ok st m" and off: "m off = Some (t, d)" and n: "length buf \<le> length d" and s: "s = BLOCK_STATUS_VALID \<or> s = BLOCK_STATUS_ACTIVE"
  shows "\<exists>st'. disk_storage_write_block st off s buf = Some (0, st') \<and> disk_ok st' (m(off \<mapsto> (s, buf @ drop (length buf) d))) \<and> disk_size st' = disk_size st"
proof -
  obtain bs frees where bs: "disk_inv st bs frees" "live bs = m" "blocks_le (2 ^ 20) bs" by (rule disk_ok_blocks [OF ok])
  obtain p where b: "block_at bs off = Some (Block t p d)" using live_blockD bs(2) off by blast
  have nf: "\<forall>q < NUM_DISK_POOLS. off \<notin> set (frees q)" using used_not_free [OF bs(1) live_used] bs(2) off by blast
  obtain st' bs' where w: "disk_storage_write_block st off s buf = Some (0, st')" "disk_inv st' bs' frees"
    "block_at bs' = (block_at bs)(off \<mapsto> Block s p (buf @ drop (length buf) d))"
    using write_block_ok [OF bs(1) b nf _ s, of buf] n by auto
  have "blocks_le (2 ^ 20) bs'" by (rule blocks_le_update [OF bs(3) w(3)]) (use n disk_ok_size [OF ok off] in simp)
  then show ?thesis using write_good [OF disk_ok_good [OF ok] off n s] w(1) disk_okI [OF _ w(2)] by auto
qed

lemma release_small:
  assumes ok: "disk_ok st m" and off: "m off = Some x"
  shows "\<exists>st'. disk_storage_release_block st off = Some (0, st') \<and> disk_ok st' (m(off := None)) \<and> disk_size st' = disk_size st"
proof -
  obtain bs frees where bs: "disk_inv st bs frees" "live bs = m" "blocks_le (2 ^ 20) bs" by (rule disk_ok_blocks [OF ok])
  obtain st' bs' frees' where r: "disk_storage_release_block st off = Some (0, st')" "disk_inv st' bs' frees'"
    "\<forall>k. blocks_le k bs \<longrightarrow> blocks_le k bs'" using release_block_ok [OF bs(1) live_used] bs(2) off by metis
  then show ?thesis using release_good [OF disk_ok_good [OF ok] off] disk_okI [OF _ r(2)] bs(3) by auto
qed

lemma add_small:
  assumes ok: "disk_ok st m" and n: "2 \<le> length buf" "length buf \<le> 2 ^ 20" and s: "s = BLOCK_STATUS_VALID \<or> s = BLOCK_STATUS_ACTIVE"
    and room: "disk_size st + 2 ^ 27 < 2 ^ 62"
  shows "\<exists>st' off pad. disk_storage_reserve_and_write_block st s buf = Some (0, off, st') \<and> m off = None \<and>
    disk_ok st' (m(off \<mapsto> (s, buf @ pad))) \<and> disk_size st' \<le> disk_size st + 2 ^ 27"
proof -
  obtain bs frees where bs: "disk_inv st bs frees" "live bs = m" "blocks_le (2 ^ 20) bs" by (rule disk_ok_blocks [OF ok])
  have n26: "length buf \<le> 2 ^ 26" using n(2) by simp
  obtain st1 off bs1 frees1 b where r: "disk_storage_reserve_block st (length buf) = Some (0, off, st1)" "disk_inv st1 bs1 frees1"
    "block_at bs1 off = Some b" "length buf \<le> length (bdata b)" "\<forall>q < NUM_DISK_POOLS. off \<notin> set (frees1 q)"
    "\<forall>k. 7 \<le> k \<longrightarrow> k \<le> 26 \<longrightarrow> length buf \<le> 2 ^ k \<longrightarrow> blocks_le (2 ^ k) bs \<longrightarrow> blocks_le (2 ^ k) bs1"
    using reserve_ok [OF bs(1) n(1) n26 room] by metis
  have le: "blocks_le (2 ^ 20) bs1" using spec [OF r(6), of 20] n(2) bs(3) by simp
  obtain st2 bs2 where w: "disk_storage_write_block st1 off s buf = Some (0, st2)" "disk_inv st2 bs2 frees1"
    "block_at bs2 = (block_at bs1)(off \<mapsto> Block s (bpool b) (buf @ drop (length buf) (bdata b)))"
    using write_block_ok [OF r(2,3,5,4) s] by metis
  have "length (bdata b) \<le> 2 ^ 20" using le r(3) by (simp add: blocks_le_def)
  then have "blocks_le (2 ^ 20) bs2" using blocks_le_update [OF le w(3)] r(4) by simp
  moreover have "disk_storage_reserve_and_write_block st s buf = Some (0, off, st2)"
    using r(1) w(1) by (simp add: disk_storage_reserve_and_write_block_def)
  ultimately show ?thesis using add_good [OF disk_ok_good [OF ok] n(1) n26 s room] disk_okI [OF _ w(2)] by auto
qed

interpretation dk: block_store disk_ok disk_size "2 ^ 20" disk_storage_reserve_and_write_block disk_storage_write_block
  disk_storage_read_block disk_storage_release_block "\<lambda>st. disk_storage_open (ds_file st) (ds_scratch st)"
proof unfold_locales
  fix st m off s d and max_n :: nat assume a: "disk_ok st m" "m off = Some (s, d)" "length d \<le> max_n"
  then obtain st' where r: "disk_storage_read_block st off max_n = Some (0, Some (s, d), st')" "disk_good st' m" "disk_size st' = disk_size st"
    using read_good [OF disk_ok_good [OF a(1)]] by blast
  then have "ds_file st' = ds_file st" unfolding disk_storage_read_block_def
    by (auto simp: must_lseek_def read_file_def Let_def split: Option.bind_split_asm if_split_asm)
  then show "\<exists>st'. disk_storage_read_block st off max_n = Some (0, Some (s, d), st') \<and> disk_ok st' m \<and> disk_size st' = disk_size st"
    using r a(1) by (simp add: disk_ok_def)
next
  fix st m assume a: "disk_ok st m"
  obtain st' where r: "disk_storage_open (ds_file st) (ds_scratch st) = Some (0, st')" "disk_good st' m" "disk_size st' = disk_size st"
    using restart_good [OF disk_ok_good [OF a]] by blast
  moreover have "ds_file st' = ds_file st"
    using r(1) restart_file [OF disk_ok_good [OF a]] by auto
  ultimately show "\<exists>st'. disk_storage_open (ds_file st) (ds_scratch st) = Some (0, st') \<and> disk_ok st' m \<and> disk_size st' = disk_size st"
    using a by (simp add: disk_ok_def)
qed (fact add_small write_small release_small disk_ok_size)+

lemma open_empty_ok: "\<exists>st. disk_storage_open [] [] = Some (0, st) \<and> disk_ok st Map.empty \<and> disk_size st = 64"
proof -
  obtain st where st: "disk_storage_open [] [] = Some (0, st)" "disk_good st Map.empty" "disk_size st = 64" using open_empty by blast
  then obtain bs frees where bs: "disk_inv st bs frees" by (auto simp: disk_good_def disk_holds_def)
  then have "bs = []" using st(3) by (cases bs) (auto simp: disk_inv_def file_ok_def disk_size_def disk_defs)
  then have "blocks_le (2 ^ 20) bs" by (simp add: blocks_le_def block_at_def)
  then show ?thesis using st disk_okI [OF st(2) bs] by blast
qed

end
