(* ===== verification/Disk_Properties.thy ===== *)
theory Disk_Properties
  imports Disk_Contract
begin

unbundle bit_operations_syntax

text \<open>
  The properties of the block store: reads return what was written last, crashes leave each block old or
  new, the scan at start finds exactly the blocks in use, and released blocks are used again.
\<close>

section \<open>The scan\<close>

primrec live_entries :: "block list \<Rightarrow> nat \<Rightarrow> (nat \<times> u8 \<times> byte list) list" where
  "live_entries [] base = []"
| "live_entries (b # bs) base =
     (if live_block b then [(base, bstatus b, bdata b)] else []) @ live_entries bs (base + length (enc_block b))"

text \<open>The calls that a client makes to see all blocks, at most \<open>fuel\<close> of them.\<close>

primrec scan_blocks :: "nat \<Rightarrow> disk_storage \<Rightarrow> bool \<Rightarrow> nat \<Rightarrow> ((nat \<times> u8 \<times> byte list) list \<times> disk_storage) option" where
  "scan_blocks 0 st initial max_n = None"
| "scan_blocks (Suc fuel) st initial max_n = (case disk_storage_read_blocks_from_start st initial max_n of
     Some (r, Some e, st') \<Rightarrow> map_option (\<lambda>(es, st). (e # es, st)) (scan_blocks fuel st' False max_n)
   | Some (r, None, st') \<Rightarrow> if r = 0 then Some ([], st') else None
   | None \<Rightarrow> None)"

lemma live_entries_bound: "(off, x) \<in> set (live_entries bs base) \<Longrightarrow> base \<le> off \<and> off < base + length (enc_blocks bs)"
  by (induction bs arbitrary: base) (fastforce split: if_splits)+

lemma live_entries_sorted: "sorted_wrt (<) (map fst (live_entries bs base))"
proof (induction bs arbitrary: base)
  case (Cons b bs)
  have "base < off" if "(off, x) \<in> set (live_entries bs (base + length (enc_block b)))" for off x
    using live_entries_bound [OF that] by simp
  then show ?case using Cons [of "base + length (enc_block b)"] by fastforce
qed simp

lemma map_of_live_entries:
  "map_of (live_entries bs base) off = (case lookup_block bs base off of None \<Rightarrow> None
     | Some b \<Rightarrow> if live_block b then Some (bstatus b, bdata b) else None)"
proof (induction bs arbitrary: base)
  case (Cons b bs)
  have "map_of (live_entries bs (base + length (enc_block b))) base = None"
    using live_entries_bound [of base _ bs "base + length (enc_block b)"] by (fastforce simp: map_of_eq_None_iff)
  then show ?case using Cons [of "base + length (enc_block b)"] by auto
qed simp

lemma live_eq_map_of: "live bs = map_of (live_entries bs 64)"
  by (rule ext) (simp add: live_def block_at_def map_of_live_entries disk_defs)

lemma length_live_entries: "2 * length (live_entries bs base) \<le> length (enc_blocks bs)"
proof (induction bs arbitrary: base)
  case (Cons b bs)
  show ?case using Cons [of "Suc (Suc (base + length (bdata b)))"] by simp
qed simp

text \<open>One step at the beginning of a block.\<close>

lemma step_at_block:
  assumes f: "ds_file st = u @ enc_block b @ v" "length u = ds_pos st" "0 < ds_pos st" and b: "block_ok b" "length (bdata b) \<le> max_n"
  shows "\<exists>st'. read_blocks_step st max_n = Some (if live_block b then Read_Block (ds_pos st) (bstatus b) (bdata b) else Skip, st') \<and>
    ds_file st' = ds_file st \<and> ds_pos st' = ds_pos st + length (enc_block b) \<and> ds_scratch st' = ds_scratch st \<and>
    eof_offset st' = eof_offset st \<and> next_free_block st' = next_free_block st"
proof -
  have h: "file_read (ds_file st) (ds_pos st) 2 = [bstatus b, bpool b]" "file_read (ds_file st) (ds_pos st + 2) (length (bdata b)) = bdata b"
    using f(1,2) by (simp_all add: file_read_def enc_block_def flip: f(2))
  show ?thesis using h block_size [OF b(1)] b f(3) unfolding read_blocks_step_def live_block_def
    by (auto simp: read_file_def must_lseek_def block_ok_def disk_defs Let_def not_le)
qed

lemma step_at_end: "ds_pos st = length (ds_file st) \<Longrightarrow> 0 < ds_pos st \<Longrightarrow> read_blocks_step st max_n = Some (Read_End, st)"
  by (simp add: read_blocks_step_def read_file_def file_read_def Let_def)

lemma loop_at_block:
  assumes "ds_file st = u @ enc_blocks bs" "length u = ds_pos st" "0 < ds_pos st" "\<forall>b\<in>set bs. block_ok b \<and> length (bdata b) \<le> max_n"
  shows "\<exists>r st'. read_blocks_loop st max_n = Some (r, st') \<and> ds_file st' = ds_file st \<and> ds_scratch st' = ds_scratch st \<and>
    eof_offset st' = eof_offset st \<and> next_free_block st' = next_free_block st \<and>
    (case live_entries bs (ds_pos st) of [] \<Rightarrow> r = Read_End
     | (off, s, d) # es \<Rightarrow> r = Read_Block off s d \<and> (\<exists>u' bs'. ds_file st = u' @ enc_blocks bs' \<and> length u' = ds_pos st' \<and>
         0 < ds_pos st' \<and> set bs' \<subseteq> set bs \<and> live_entries bs' (ds_pos st') = es))"
  using assms
proof (induction bs arbitrary: st u)
  case Nil
  then have "read_blocks_step st max_n = Some (Read_End, st)" by (intro step_at_end) auto
  then show ?case by (simp add: read_blocks_loop.simps [of st])
next
  case (Cons b bs)
  obtain st1 where s: "read_blocks_step st max_n = Some (if live_block b then Read_Block (ds_pos st) (bstatus b) (bdata b) else Skip, st1)"
    "ds_file st1 = ds_file st" "ds_pos st1 = ds_pos st + length (enc_block b)" "ds_scratch st1 = ds_scratch st"
    "eof_offset st1 = eof_offset st" "next_free_block st1 = next_free_block st"
    using step_at_block [of st u b "enc_blocks bs" max_n] Cons.prems by auto
  show ?case
  proof (cases "live_block b")
    case True
    then show ?thesis using s Cons.prems
      by (intro exI [of _ "Read_Block (ds_pos st) (bstatus b) (bdata b)"] exI [of _ st1])
         (auto simp: read_blocks_loop.simps [of st] intro!: exI [of _ "u @ enc_block b"] exI [of _ bs])
  next
    case False
    have "read_blocks_loop st max_n = read_blocks_loop st1 max_n" using s(1) False by (simp add: read_blocks_loop.simps [of st])
    moreover have "live_entries (b # bs) (ds_pos st) = live_entries bs (ds_pos st1)" using False s(3) by simp
    moreover have "\<exists>r st'. read_blocks_loop st1 max_n = Some (r, st') \<and> ds_file st' = ds_file st1 \<and> ds_scratch st' = ds_scratch st1 \<and>
      eof_offset st' = eof_offset st1 \<and> next_free_block st' = next_free_block st1 \<and>
      (case live_entries bs (ds_pos st1) of [] \<Rightarrow> r = Read_End
       | (off, s, d) # es \<Rightarrow> r = Read_Block off s d \<and> (\<exists>u' bs'. ds_file st1 = u' @ enc_blocks bs' \<and> length u' = ds_pos st' \<and>
           0 < ds_pos st' \<and> set bs' \<subseteq> set bs \<and> live_entries bs' (ds_pos st') = es))"
      using Cons.prems s(2,3) by (intro Cons.IH [of st1 "u @ enc_block b"]) auto
    ultimately show ?thesis using s by (fastforce split: list.splits)
  qed
qed


lemma scan_at_block:
  assumes "ds_file st = u @ enc_blocks bs" "length u = ds_pos st" "0 < ds_pos st" "\<forall>b\<in>set bs. block_ok b \<and> length (bdata b) \<le> max_n"
    "length (live_entries bs (ds_pos st)) < fuel"
  shows "\<exists>st'. scan_blocks fuel st False max_n = Some (live_entries bs (ds_pos st), st') \<and> ds_file st' = ds_file st \<and>
    ds_scratch st' = ds_scratch st \<and> eof_offset st' = eof_offset st \<and> next_free_block st' = next_free_block st"
  using assms
proof (induction fuel arbitrary: st u bs)
  case (Suc fuel)
  obtain r st1 where l: "read_blocks_loop st max_n = Some (r, st1)" "ds_file st1 = ds_file st" "ds_scratch st1 = ds_scratch st"
    "eof_offset st1 = eof_offset st" "next_free_block st1 = next_free_block st"
    "case live_entries bs (ds_pos st) of [] \<Rightarrow> r = Read_End
     | (off, s, d) # es \<Rightarrow> r = Read_Block off s d \<and> (\<exists>u' bs'. ds_file st = u' @ enc_blocks bs' \<and> length u' = ds_pos st1 \<and>
         0 < ds_pos st1 \<and> set bs' \<subseteq> set bs \<and> live_entries bs' (ds_pos st1) = es)"
    using loop_at_block [OF Suc.prems(1-4)] by blast
  show ?case
  proof (cases "live_entries bs (ds_pos st)")
    case Nil
    then show ?thesis using l by (simp add: disk_storage_read_blocks_from_start_def)
  next
    case (Cons e es)
    obtain off s d where e: "e = (off, s, d)" by (cases e) auto
    obtain u' bs' where u': "r = Read_Block off s d" "ds_file st = u' @ enc_blocks bs'" "length u' = ds_pos st1" "0 < ds_pos st1"
      "set bs' \<subseteq> set bs" "live_entries bs' (ds_pos st1) = es" using l(6) Cons e by auto
    obtain st' where "scan_blocks fuel st1 False max_n = Some (es, st')" "ds_file st' = ds_file st1"
      "ds_scratch st' = ds_scratch st1" "eof_offset st' = eof_offset st1" "next_free_block st' = next_free_block st1"
      using Suc.IH [of st1 u' bs'] u' Suc.prems(4,5) l(2) Cons by auto
    then show ?thesis using l Cons e u'(1) by (simp add: disk_storage_read_blocks_from_start_def)
  qed
qed simp

text \<open>The first call seeks to the first block.\<close>

lemma scan_initial:
  "scan_blocks fuel st True max_n = scan_blocks fuel (must_lseek st STORAGE_INITIAL_RESERVED) False max_n"
  by (cases fuel) (simp_all add: disk_storage_read_blocks_from_start_def)

lemma same_files_good:
  assumes "disk_good st m" "ds_file st' = ds_file st" "ds_scratch st' = ds_scratch st" "eof_offset st' = eof_offset st"
    "next_free_block st' = next_free_block st"
  shows "disk_good st' m"
  using assms by (auto simp: disk_good_def disk_holds_def disk_inv_def)

lemma same_files_ok:
  assumes "disk_ok ds m" "ds_file ds' = ds_file ds" "ds_scratch ds' = ds_scratch ds" "eof_offset ds' = eof_offset ds"
    "next_free_block ds' = next_free_block ds"
  shows "disk_ok ds' m"
  using same_files_good [OF disk_ok_good [OF assms(1)] assms(2-5)] assms(1,2) by (simp add: disk_ok_def)

section \<open>Example states\<close>

definition fresh_disk :: disk_storage where
  "fresh_disk = snd (the (disk_storage_open [] []))"

lemma fresh_disk_good: "disk_good fresh_disk Map.empty" "disk_size fresh_disk = 64"
  using open_empty by (auto simp: fresh_disk_def)

definition example_disk :: disk_storage where
  "example_disk = (snd \<circ> snd) (the (disk_storage_reserve_and_write_block fresh_disk BLOCK_STATUS_ACTIVE [1, 2, 3]))"

lemma example_disk_good:
  "\<exists>pad. disk_good example_disk [64 \<mapsto> (BLOCK_STATUS_ACTIVE, [1, 2, 3] @ pad)] \<and> disk_size example_disk \<le> 2 ^ 28"
proof -
  obtain st' off pad where a: "disk_storage_reserve_and_write_block fresh_disk BLOCK_STATUS_ACTIVE [1, 2, 3] = Some (0, off, st')"
    "disk_good st' [off \<mapsto> (BLOCK_STATUS_ACTIVE, [1, 2, 3] @ pad)]" "disk_size st' \<le> disk_size fresh_disk + 2 ^ 27"
    using add_good [OF fresh_disk_good(1), of "[1, 2, 3]" BLOCK_STATUS_ACTIVE] fresh_disk_good(2) by auto
  have "off = 64"
  proof -
    have "next_free_block fresh_disk = replicate 20 0 \<and> eof_offset fresh_disk = 64"
      by (simp add: fresh_disk_def disk_storage_open_def read_file_def file_read_def must_write_def must_lseek_def disk_defs
          disk_storage_recover_scratch_def read_scratch_def must_lseek_scratch_def must_write_scratch_def Let_def)
    moreover obtain p where "get_pool_id 3 = Some (p, 2 ^ (unat p + 7))" "unat p < 20" using get_pool_id_ok [of 3 7] by auto
    ultimately show ?thesis using a(1)
      by (auto simp: disk_storage_reserve_and_write_block_def disk_storage_reserve_block_def disk_defs Let_def
          split: Option.bind_split_asm if_split_asm)
  qed
  then show ?thesis using a fresh_disk_good(2) by (auto simp: example_disk_def)
qed

section \<open>Runs\<close>

text \<open>
  The states that a process reaches from an empty store, with what was written last at each offset. A run
  may contain restarts. The additions leave room for the largest block in the file.
\<close>

inductive disk_run :: "disk_storage \<Rightarrow> (nat \<Rightarrow> (u8 \<times> byte list) option) \<Rightarrow> bool" where
  run_open: "disk_storage_open [] [] = Some (r, st) \<Longrightarrow> disk_run st Map.empty"
| run_add: "disk_run st m \<Longrightarrow> 2 \<le> length buf \<Longrightarrow> length buf \<le> 2 ^ 26 \<Longrightarrow> s = BLOCK_STATUS_VALID \<or> s = BLOCK_STATUS_ACTIVE \<Longrightarrow>
    disk_size st + 2 ^ 27 < 2 ^ 62 \<Longrightarrow> disk_storage_reserve_and_write_block st s buf = Some (r, off, st') \<Longrightarrow>
    disk_run st' (m(off \<mapsto> (s, buf)))"
| run_write: "disk_run st m \<Longrightarrow> m off = Some (t, old) \<Longrightarrow> length buf \<le> length old \<Longrightarrow> s = BLOCK_STATUS_VALID \<or> s = BLOCK_STATUS_ACTIVE \<Longrightarrow>
    disk_storage_write_block st off s buf = Some (r, st') \<Longrightarrow> disk_run st' (m(off \<mapsto> (s, buf)))"
| run_read: "disk_run st m \<Longrightarrow> disk_storage_read_block st off max_n = Some (r, x, st') \<Longrightarrow> disk_run st' m"
| run_release: "disk_run st m \<Longrightarrow> m off = Some x \<Longrightarrow> disk_storage_release_block st off = Some (r, st') \<Longrightarrow> disk_run st' (m(off := None))"
| run_restart: "disk_run st m \<Longrightarrow> disk_storage_open (ds_file st) (ds_scratch st) = Some (r, st') \<Longrightarrow> disk_run st' m"

definition written :: "(nat \<Rightarrow> (u8 \<times> byte list) option) \<Rightarrow> (nat \<Rightarrow> (u8 \<times> byte list) option) \<Rightarrow> bool" where
  "written m M \<longleftrightarrow> dom M = dom m \<and> (\<forall>off s buf. m off = Some (s, buf) \<longrightarrow> (\<exists>pad. M off = Some (s, buf @ pad)))"

lemma writtenD: "written m M \<Longrightarrow> m off = Some (s, buf) \<Longrightarrow> \<exists>pad. M off = Some (s, buf @ pad)"
  by (simp add: written_def)

lemma written_upd: "written m M \<Longrightarrow> written (m(off \<mapsto> (s, buf))) (M(off \<mapsto> (s, buf @ pad)))"
  by (simp add: written_def)

lemma written_del: "written m M \<Longrightarrow> written (m(off := None)) (M(off := None))"
  by (simp add: written_def)

lemma read_state:
  "disk_storage_read_block st off max_n = Some (r, x, st') \<Longrightarrow> ds_file st' = ds_file st \<and> ds_scratch st' = ds_scratch st \<and>
     eof_offset st' = eof_offset st \<and> next_free_block st' = next_free_block st"
  unfolding disk_storage_read_block_def
  by (auto simp: must_lseek_def read_file_def Let_def split: Option.bind_split_asm if_split_asm)

lemma disk_run_good: "disk_run st m \<Longrightarrow> \<exists>M. disk_good st M \<and> written m M"
proof (induction rule: disk_run.induct)
  case (run_open r st)
  then show ?case using open_empty by (auto simp: written_def)
next
  case (run_add st m buf s r off st')
  then obtain M where M: "disk_good st M" "written m M" by blast
  obtain pad where "disk_good st' (M(off \<mapsto> (s, buf @ pad)))"
    using add_good [OF M(1) run_add.hyps(2-5)] run_add.hyps(6) by auto
  then show ?case using written_upd [OF M(2)] by blast
next
  case (run_write st m off t old buf s r st')
  then obtain M where M: "disk_good st M" "written m M" by blast
  obtain pad where "M off = Some (t, old @ pad)" using writtenD [OF M(2) run_write.hyps(2)] by blast
  then have "disk_good st' (M(off \<mapsto> (s, buf @ drop (length buf) (old @ pad))))"
    using write_good [OF M(1), of off t "old @ pad" buf s] run_write.hyps(3-5) by auto
  then show ?case using written_upd [OF M(2)] by blast
next
  case (run_read st m off max_n r x st')
  then show ?case using read_state same_files_good by blast
next
  case (run_release st m off x r st')
  then obtain M where M: "disk_good st M" "written m M" by blast
  obtain pad where "M off = Some (fst x, snd x @ pad)" using writtenD [OF M(2), of off "fst x" "snd x"] run_release.hyps(2) by auto
  then have "disk_good st' (M(off := None))" using release_good [OF M(1)] run_release.hyps(3) by fastforce
  then show ?case using written_del [OF M(2)] by blast
next
  case (run_restart st m r st')
  then obtain M where M: "disk_good st M" "written m M" by blast
  then have "disk_good st' M" using restart_good [OF M(1)] run_restart.hyps(2) by auto
  then show ?case using M(2) by blast
qed

section \<open>Properties\<close>

text \<open>
  C27: After any sequence of additions, writes, reads, releases and restarts that starts with an empty
  store, reading a block in use returns the status and the bytes that were written last at its offset
  (followed by the rest of the block).\<close>

theorem disk_reads_last_write:
  assumes "disk_run st m" "m off = Some (s, buf)"
  shows "\<exists>pad st'. disk_storage_read_block st off (2 ^ 26) = Some (0, Some (s, buf @ pad), st')"
proof -
  obtain M where M: "disk_good st M" "written m M" using disk_run_good [OF assms(1)] by blast
  obtain pad where p: "M off = Some (s, buf @ pad)" using writtenD [OF M(2) assms(2)] by blast
  show ?thesis using ds.read_law [OF M(1) p ds.size_law [OF M(1) p]] by blast
qed

theorem disk_reads_last_write_witness:
  "\<exists>off st pad st'. disk_storage_reserve_and_write_block fresh_disk BLOCK_STATUS_ACTIVE [1, 2, 3] = Some (0, off, st) \<and>
     disk_storage_read_block st off (2 ^ 26) = Some (0, Some (BLOCK_STATUS_ACTIVE, [1, 2, 3] @ pad), st')"
proof -
  have r: "disk_run fresh_disk Map.empty" using open_empty run_open by (auto simp: fresh_disk_def)
  obtain off st where a: "disk_storage_reserve_and_write_block fresh_disk BLOCK_STATUS_ACTIVE [1, 2, 3] = Some (0, off, st)"
    using add_good [OF fresh_disk_good(1), of "[1, 2, 3]" BLOCK_STATUS_ACTIVE] fresh_disk_good(2) by auto
  have "disk_run st [off \<mapsto> (BLOCK_STATUS_ACTIVE, [1, 2, 3])]" using run_add [OF r _ _ _ _ a] fresh_disk_good(2) by simp
  from disk_reads_last_write [OF this, of off] show ?thesis using a by auto
qed

text \<open>
  Blocks can be added one after the other as long as the file stays below 2^62 bytes: each addition
  succeeds, the offsets are distinct, and after a restart every block is read back.\<close>

theorem disk_add_durable:
  assumes "disk_good st m" "\<forall>buf\<in>set bufs. 2 \<le> length buf \<and> length buf \<le> 2 ^ 26" "s = BLOCK_STATUS_VALID \<or> s = BLOCK_STATUS_ACTIVE"
    "disk_size st + length bufs * 2 ^ 27 < 2 ^ 62" "i < length bufs"
  shows "\<exists>offs st1 st2 pad st3. add_list disk_storage_reserve_and_write_block st s bufs = Some (offs, st1) \<and> distinct offs \<and>
    disk_storage_open (ds_file st1) (ds_scratch st1) = Some (0, st2) \<and>
    disk_storage_read_block st2 (offs ! i) (2 ^ 26) = Some (0, Some (s, bufs ! i @ pad), st3)"
  using ds.add_list_durable [OF assms] .

theorem disk_add_durable_witness:
  "\<exists>offs st1 st2 pad st3. add_list disk_storage_reserve_and_write_block fresh_disk BLOCK_STATUS_VALID [[1, 2], [3, 4, 5]] = Some (offs, st1) \<and>
    distinct offs \<and> disk_storage_open (ds_file st1) (ds_scratch st1) = Some (0, st2) \<and>
    disk_storage_read_block st2 (offs ! 1) (2 ^ 26) = Some (0, Some (BLOCK_STATUS_VALID, [3, 4, 5] @ pad), st3)"
  using disk_add_durable [OF fresh_disk_good(1), of "[[1, 2], [3, 4, 5]]" BLOCK_STATUS_VALID 1] fresh_disk_good(2) by simp

text \<open>
  C12: Writing a block is atomic. Wherever the process dies during \<^verbatim>\<open>disk_storage_write_block\<close> (after
  \<open>k\<close> of its five writes and \<open>j\<close> bytes of the next), the store can be opened again, and its blocks are those
  before the write or those after it; after the last write they are those after it.\<close>

theorem disk_write_crash_safe:
  assumes "disk_good st m" "m off = Some (t, d)" "length buf \<le> length d" "s = BLOCK_STATUS_VALID \<or> s = BLOCK_STATUS_ACTIVE"
  shows "\<exists>st'. disk_storage_write_block st off s buf = Some (0, st') \<and> disk_good st' (m(off \<mapsto> (s, buf @ drop (length buf) d))) \<and>
    (\<forall>k j. \<exists>st''. case_prod disk_storage_open (crash_image k j st st') = Some (0, st'') \<and>
      (disk_good st'' m \<and> k < 5 \<or> disk_good st'' (m(off \<mapsto> (s, buf @ drop (length buf) d)))))"
  using write_good [OF assms] by blast

theorem disk_write_crash_safe_witness:
  "\<exists>pad st'. disk_storage_write_block example_disk 64 BLOCK_STATUS_VALID [7] = Some (0, st') \<and>
     (\<exists>st''. case_prod disk_storage_open (crash_image 4 1 example_disk st') = Some (0, st'') \<and>
       (disk_good st'' [64 \<mapsto> (BLOCK_STATUS_ACTIVE, [1, 2, 3] @ pad)] \<or> disk_good st'' [64 \<mapsto> (BLOCK_STATUS_VALID, [7, 2, 3] @ pad)]))"
proof -
  obtain pad where "disk_good example_disk [64 \<mapsto> (BLOCK_STATUS_ACTIVE, [1, 2, 3] @ pad)]" using example_disk_good by blast
  from disk_write_crash_safe [OF this, of 64 BLOCK_STATUS_ACTIVE "[1, 2, 3] @ pad" "[7]" BLOCK_STATUS_VALID]
  obtain st' where a: "disk_storage_write_block example_disk 64 BLOCK_STATUS_VALID [7] = Some (0, st')" and
    b: "\<forall>k j. \<exists>st''. case_prod disk_storage_open (crash_image k j example_disk st') = Some (0, st'') \<and>
      (disk_good st'' [64 \<mapsto> (BLOCK_STATUS_ACTIVE, [1, 2, 3] @ pad)] \<and> k < 5 \<or> disk_good st'' [64 \<mapsto> (BLOCK_STATUS_VALID, [7, 2, 3] @ pad)])"
    by auto
  show ?thesis using a spec [OF spec [OF b, of 4], of 1] by blast
qed

text \<open>
  C31: Releasing a block is atomic too: wherever the process dies, after reopening the block is still
  there with its contents, or it is gone, and all other blocks are unchanged.\<close>

theorem disk_release_crash_safe:
  assumes "disk_good st m" "m off = Some x"
  shows "\<exists>st'. disk_storage_release_block st off = Some (0, st') \<and> disk_good st' (m(off := None)) \<and>
    (\<forall>k j. \<exists>st''. case_prod disk_storage_open (crash_image k j st st') = Some (0, st'') \<and>
      (disk_good st'' m \<and> k < 5 \<or> disk_good st'' (m(off := None))))"
  using release_good [OF assms] by blast

theorem disk_release_crash_safe_witness:
  "\<exists>st'. disk_storage_release_block example_disk 64 = Some (0, st') \<and> disk_good st' Map.empty"
proof -
  obtain pad where "disk_good example_disk [64 \<mapsto> (BLOCK_STATUS_ACTIVE, [1, 2, 3] @ pad)]" using example_disk_good by blast
  from disk_release_crash_safe [OF this, of 64] show ?thesis by auto
qed

text \<open>
  The scan with \<^verbatim>\<open>disk_storage_read_blocks_from_start\<close> ends, reports no error, and returns exactly the
  valid and active blocks, each once and in the order of their offsets.\<close>

theorem disk_scan_complete:
  assumes "disk_good st m" "disk_size st \<le> fuel"
  shows "\<exists>es st'. scan_blocks fuel st True (2 ^ 26) = Some (es, st') \<and> map_of es = m \<and> sorted_wrt (<) (map fst es) \<and> disk_good st' m"
proof -
  obtain bs frees where bs: "disk_inv st bs frees" "live bs = m" using assms(1) by (auto simp: disk_good_def disk_holds_def)
  then obtain r where r: "ds_file st = r @ enc_blocks bs" "length r = 64" "\<forall>b\<in>set bs. block_ok b"
    by (auto simp: disk_inv_def file_ok_def disk_defs)
  have ok: "\<forall>b\<in>set bs. block_ok b \<and> length (bdata b) \<le> 2 ^ 26"
  proof
    fix b assume "b \<in> set bs"
    then have b: "block_ok b" using r(3) by simp
    then have "(2::nat) ^ (unat (bpool b) + 7) \<le> 2 ^ 26" by (intro power_increasing) (simp_all add: block_ok_def disk_defs)
    then show "block_ok b \<and> length (bdata b) \<le> 2 ^ 26" using b by (simp add: block_ok_def disk_defs)
  qed
  have "2 * length (live_entries bs 64) \<le> length (enc_blocks bs)" by (rule length_live_entries)
  then have "length (live_entries bs 64) < fuel" using assms(2) r(1,2) by (simp add: disk_size_def)
  then obtain st' where s: "scan_blocks fuel st True (2 ^ 26) = Some (live_entries bs 64, st')" "ds_file st' = ds_file st"
    "ds_scratch st' = ds_scratch st" "eof_offset st' = eof_offset st" "next_free_block st' = next_free_block st"
    using scan_at_block [of "must_lseek st STORAGE_INITIAL_RESERVED" r bs "2 ^ 26" fuel] r ok
    by (auto simp: scan_initial must_lseek_def disk_defs)
  then show ?thesis using same_files_good [OF assms(1)] live_eq_map_of bs(2) live_entries_sorted by metis
qed

theorem disk_scan_complete_witness:
  "\<exists>pad es st'. scan_blocks (2 ^ 28) example_disk True (2 ^ 26) = Some (es, st') \<and>
     map_of es = [64 \<mapsto> (BLOCK_STATUS_ACTIVE, [1, 2, 3] @ pad)]"
proof -
  obtain pad where "disk_good example_disk [64 \<mapsto> (BLOCK_STATUS_ACTIVE, [1, 2, 3] @ pad)]" "disk_size example_disk \<le> 2 ^ 28"
    using example_disk_good by blast
  from disk_scan_complete [OF this] show ?thesis by blast
qed

text \<open>
  The space of a released block is used again: the next block of the same size class is stored at
  its offset, and the file does not grow.\<close>

theorem disk_reuses_released:
  assumes good: "disk_good st m" and off: "m off = Some (s, d)" and n: "get_pool_id (length buf) = get_pool_id (length d)"
    and t: "t = BLOCK_STATUS_VALID \<or> t = BLOCK_STATUS_ACTIVE" and len: "length buf \<le> length d"
  shows "\<exists>st1 st2. disk_storage_release_block st off = Some (0, st1) \<and>
    disk_storage_reserve_and_write_block st1 t buf = Some (0, off, st2) \<and> disk_size st2 = disk_size st"
proof -
  obtain bs frees where bs: "disk_inv st bs frees" "live bs = m" using good by (auto simp: disk_good_def disk_holds_def)
  then obtain p where b: "block_at bs off = Some (Block s p d)" using live_blockD off by blast
  have "file_ok (ds_file st) bs" using bs(1) by (simp add: disk_inv_def)
  from block_at_ok [OF this b] have p: "unat p < 20" "length d = 2 ^ (unat p + 7)" by (simp_all add: block_ok_def disk_defs)
  have off64: "off \<noteq> 0" using holds_bound [OF good_holds [OF good] off] by simp
  obtain st1 bs1 frees1 where r: "disk_storage_release_block st off = Some (0, st1)" "disk_inv st1 bs1 frees1"
    "length (ds_file st1) = length (ds_file st)" "frees1 = frees(unat p := off # frees (unat p))"
    using release_block_ok [OF bs(1) live_used] bs(2) off b by fastforce
  have "free_chain (block_at bs1) (unat p) (next_free_block st1 ! unat p) (off # frees (unat p))"
    using r(2,4) p(1) by (auto simp: disk_inv_def disk_defs dest: spec [of _ "unat p"])
  then have nf: "next_free_block st1 ! unat p = off" by simp
  have g: "get_pool_id (length buf) = Some (p, 2 ^ (unat p + 7))"
  proof -
    have "(2::nat) ^ 1 \<le> 2 ^ (unat p + 7)" by (rule power_increasing) simp_all
    then have "2 \<le> length d" "length d \<le> 2 ^ (unat p + 7)" using p(2) by simp_all
    then obtain q where q: "get_pool_id (length d) = Some (q, 2 ^ (unat q + 7))" "unat q + 7 \<le> unat p + 7" "length d \<le> 2 ^ (unat q + 7)"
      using get_pool_id_ok [OF _ _ le_add2, of "length d" "unat p"] p(1) by fastforce
    have "\<not> unat q < unat p"
    proof
      assume "unat q < unat p"
      then have "(2::nat) ^ (unat q + 7) < 2 ^ (unat p + 7)" by (intro power_strict_increasing) simp_all
      then show False using q(3) p(2) by simp
    qed
    then have "q = p" using q(2) by (simp add: word_unat_eq_iff)
    then show ?thesis using n q(1) by simp
  qed
  obtain st2 xs c where v: "disk_storage_reserve_block st1 (length buf) = Some (0, off, st2)" "frees1 (unat p) = off # xs"
    "disk_inv st2 bs1 (frees1(unat p := xs))" "ds_file st2 = ds_file st1" "block_at bs1 off = Some c" "bpool c = p"
    using reserve_reused [OF r(2) g p(1)] nf off64 r(4) by fastforce
  have cl: "length (bdata c) = length d"
    using block_at_ok [of "ds_file st1" bs1 off c] r(2) v(5,6) p(2) by (simp add: disk_inv_def block_ok_def disk_defs)
  obtain st3 where w: "disk_storage_write_block st2 off t buf = Some (0, st3)" "ds_file st3 = file_write (ds_file st2) off ([t, p] @ buf)"
    using write_block_result [OF v(3,5) _ t] len cl v(6) by metis
  have "length (ds_file st3) = length (ds_file st2)"
  proof -
    have f2: "file_ok (ds_file st2) bs1" using v(3) by (simp add: disk_inv_def)
    have "t < BLOCK_NUM_STATUSES" using t by (auto simp: disk_defs)
    from write_in_block [OF f2 v(5) _ this, of buf] show ?thesis using w(2) len cl v(6) by auto
  qed
  then show ?thesis using r(1,3) v(1,4) w(1) by (simp add: disk_storage_reserve_and_write_block_def disk_size_def)
qed

theorem disk_reuses_released_witness:
  "\<exists>buf st1 st2. disk_storage_release_block example_disk 64 = Some (0, st1) \<and>
     disk_storage_reserve_and_write_block st1 BLOCK_STATUS_VALID buf = Some (0, 64, st2) \<and> disk_size st2 = disk_size example_disk"
proof -
  obtain pad where "disk_good example_disk [64 \<mapsto> (BLOCK_STATUS_ACTIVE, [1, 2, 3] @ pad)]" using example_disk_good by blast
  from disk_reuses_released [OF this, of 64 BLOCK_STATUS_ACTIVE "[1, 2, 3] @ pad" "[1, 2, 3] @ pad" BLOCK_STATUS_VALID]
  show ?thesis by fastforce
qed

section \<open>A reservation that is cut short\<close>

text \<open>
  \<^verbatim>\<open>disk_storage_reserve_block\<close> extends the file with two writes, first the header and then the last byte.
  Neither goes through the scratch file. When the process dies between the two, the file ends behind the
  header. The next process takes the length of the file for the end of the last block and stores its
  next block there, inside the block that the header announces.
\<close>

definition torn_disk :: disk_storage where
  "torn_disk = (let reserved = (snd \<circ> snd) (the (disk_storage_reserve_block fresh_disk 200))
     in snd (the (case_prod disk_storage_open (crash_image 1 0 fresh_disk reserved))))"

definition torn_disk_after :: disk_storage where
  "torn_disk_after = (snd \<circ> snd) (the (disk_storage_reserve_and_write_block torn_disk BLOCK_STATUS_VALID [1, 2, 3]))"

lemma get_pool_id_examples: "get_pool_id 200 = Some (1, 256)" "get_pool_id 3 = Some (0, 128)"
  by code_simp+

lemma torn_disk_fields:
  "ds_file torn_disk = le_bytes disk_version @ replicate 56 0 @ [1, 1]" "ds_scratch torn_disk = le_bytes disk_version"
  "eof_offset torn_disk = 66" "next_free_block torn_disk = replicate NUM_DISK_POOLS 0"
proof -
  let ?f = "le_bytes disk_version @ replicate 56 0"
  have fr: "ds_file fresh_disk = ?f" "ds_scratch fresh_disk = le_bytes disk_version" "eof_offset fresh_disk = 64"
    "next_free_block fresh_disk = replicate NUM_DISK_POOLS 0" using open_empty_fields by (auto simp: fresh_disk_def)
  obtain st where st: "disk_storage_reserve_block fresh_disk 200 = Some (0, 64, st)"
    "ds_writes st = ds_writes fresh_disk @ [File_Write 64 [1, 1], File_Write 321 [0]]"
    by (simp add: disk_storage_reserve_block_def get_pool_id_examples fr must_write_def must_lseek_def disk_defs Let_def)
  have img: "crash_image 1 0 fresh_disk st = (?f @ [1, 1], le_bytes disk_version)"
    by (simp add: crash_image_def crash_writes_def st(2) fr file_write_def)
  obtain t where t: "disk_storage_open (?f @ [1, 1]) (le_bytes disk_version) = Some (0, t)"
    "ds_file t = replay (le_bytes disk_version) (?f @ [1, 1])" "ds_scratch t = recovered_scratch (le_bytes disk_version)"
    "eof_offset t = length (?f @ [1, 1])" "next_free_block t = replicate NUM_DISK_POOLS 0"
    using open_spec [of "?f @ [1, 1]" "le_bytes disk_version"] by auto
  have "torn_disk = t" using st(1) img t(1) by (simp add: torn_disk_def Let_def)
  then show "ds_file torn_disk = le_bytes disk_version @ replicate 56 0 @ [1, 1]" "ds_scratch torn_disk = le_bytes disk_version"
    "eof_offset torn_disk = 66" "next_free_block torn_disk = replicate NUM_DISK_POOLS 0"
    using t by (simp_all add: replay_def recovered_scratch_def pending_def le_bytes_u64)
qed

text \<open>The file with the block that is stored next.\<close>

definition torn_file :: mem where
  "torn_file = le_bytes disk_version @ replicate 56 0 @ [1, 1, 2, 0, 1, 2, 3] @ replicate 125 0"

lemma torn_disk_add:
  "disk_storage_reserve_and_write_block torn_disk BLOCK_STATUS_VALID [1, 2, 3] = Some (0, 66, torn_disk_after) \<and>
   ds_file torn_disk_after = torn_file \<and>
   ds_scratch torn_disk_after = snd (foldl apply_write (torn_file, le_bytes disk_version) (journal 66 [2, 0, 1, 2, 3]))"
proof -
  let ?f = "le_bytes disk_version @ replicate 56 0 @ [1, 1]"
  obtain st where r: "disk_storage_reserve_block torn_disk 3 = Some (0, 66, st)" "ds_scratch st = le_bytes disk_version"
    "ds_file st = file_write (file_write ?f 66 [1, 0]) 195 [0]"
    by (simp add: disk_storage_reserve_block_def get_pool_id_examples torn_disk_fields must_write_def must_lseek_def disk_defs Let_def)
  have f1: "ds_file st = ?f @ [1, 0] @ replicate 128 0"
    using r(3) by (simp add: file_write_def replicate_append_same replicate_Suc [symmetric] del: replicate_Suc)
  then have h: "file_read (ds_file st) 66 2 = [1, 0]" by (simp add: file_read_def)
  obtain st' where w: "disk_storage_write_block st 66 BLOCK_STATUS_VALID [1, 2, 3] = Some (0, st')"
    using h by (simp add: disk_storage_write_block_def must_lseek_def read_file_def get_pool_size_def disk_defs Let_def)
  have p: "ds_file st' = file_write (ds_file st) 66 [2, 0, 1, 2, 3]"
    "ds_scratch st' = snd (foldl apply_write (ds_file st, ds_scratch st) (journal 66 [2, 0, 1, 2, 3]))"
    using write_block_log [OF w] h by (auto simp: disk_defs)
  have "disk_storage_reserve_and_write_block torn_disk BLOCK_STATUS_VALID [1, 2, 3] = Some (0, 66, st')"
    using r(1) w by (simp add: disk_storage_reserve_and_write_block_def numeral_3_eq_3)
  moreover have "ds_file st' = torn_file" unfolding p(1) f1 by (simp add: torn_file_def file_write_def)
  moreover have "snd (foldl apply_write (f, sc) (journal 66 b)) = snd (foldl apply_write (g, sc) (journal 66 b))" for f g sc b
    by (simp add: journal_def)
  ultimately show ?thesis using p(2) r(2) by (simp add: torn_disk_after_def)
qed

text \<open>Behind the announced block there is nothing to read.\<close>

lemma torn_scan:
  assumes "ds_file st = torn_file"
  shows "map_option fst (scan_blocks 4 st True 1024) = Some []"
proof -
  let ?s = "must_lseek st 64"
  have h: "file_read torn_file 64 2 = [1, 1]" "length torn_file = 196" by (simp_all add: torn_file_def file_read_def)
  have "read_blocks_step ?s 1024 = Some (Skip, st\<lparr>ds_pos := 322\<rparr>)"
    by (simp add: read_blocks_step_def must_lseek_def read_file_def assms h get_pool_size_def disk_defs Let_def word_le_nat_alt)
  moreover have "read_blocks_step (st\<lparr>ds_pos := 322\<rparr>) 1024 = Some (Read_End, st\<lparr>ds_pos := 322\<rparr>)"
    by (simp add: read_blocks_step_def read_file_def file_read_def assms h Let_def)
  ultimately have "read_blocks_loop ?s 1024 = Some (Read_End, st\<lparr>ds_pos := 322\<rparr>)"
    by (simp add: read_blocks_loop.simps [of ?s] read_blocks_loop.simps [of "st\<lparr>ds_pos := 322\<rparr>"])
  then have "disk_storage_read_blocks_from_start st True 1024 = Some (0, None, st\<lparr>ds_pos := 322\<rparr>)"
    by (simp add: disk_storage_read_blocks_from_start_def STORAGE_INITIAL_RESERVED_def)
  moreover have "(4 :: nat) = Suc 3" by simp
  ultimately show ?thesis by (simp only: scan_blocks.simps) simp
qed


end
