(* ===== verification/Storage.thy ===== *)
theory Storage
  imports Storage_Item Disk_Properties
begin

unbundle bit_operations_syntax

text \<open>
  The storage of \<^verbatim>\<open>src/common/storage.c\<close>: the items, their indices and list, and the two block stores for
  keys and for data. One definition per function, in the order of the file.

  Items live at addresses, and \<open>items\<close> is the memory they are in. \<open>item_list\<close> is the doubly-linked list
  from \<^verbatim>\<open>list_root\<close> to \<^verbatim>\<open>list_root_last\<close>. The mutex is left out: every public function runs entirely inside
  it. So are metrics and log output. What the C library chooses is a parameter, \<open>c_env\<close>: the address of a
  new item, given those in use, and the contents of fresh memory. A value of a time series is the bit
  pattern of its \<^verbatim>\<open>double\<close>.
\<close>

section \<open>State\<close>

record c_env =
  env_malloc :: "ptr list \<Rightarrow> ptr"
  env_junk :: "nat \<Rightarrow> byte"
  env_header :: tsc_header

record the_storage =
  initial_tsc_buf_size :: nat
  retention_seconds :: int
  next_internal_id :: u64
  item_list :: "ptr list"
  indices :: "byte list list"
  root :: "item_tree list"
  key_disk_store :: disk_storage
  data_disk_store :: disk_storage
  items :: "ptr \<Rightarrow> storage_item"
  allocated :: "ptr list"

definition INVALID_KEY :: u16 where "INVALID_KEY = 0xFFFF"
definition STORAGE_GET_BUF_N :: nat where "STORAGE_GET_BUF_N = 1024 * 1024"
definition MAX_BUF :: nat where "MAX_BUF = 10240"
definition LOAD_MAX_N :: nat where "LOAD_MAX_N = 1048576"

definition num_roots :: "the_storage \<Rightarrow> nat" where
  "num_roots st = length (indices st) + NUM_SPECIAL_INDICES"

definition upd_item :: "the_storage \<Rightarrow> ptr \<Rightarrow> (storage_item \<Rightarrow> storage_item) \<Rightarrow> the_storage" where
  "upd_item st p f = st\<lparr>items := (items st)(p := f (items st p))\<rparr>"

section \<open>Items\<close>

text \<open>
  \<^verbatim>\<open>get_key_value\<close>: the strings of a key are its name, then labels and values in turn. The result is the
  rest of the key from the value on; \<open>None\<close> is the null pointer.
\<close>

function get_key_value_loop :: "byte list \<Rightarrow> nat \<Rightarrow> byte list \<Rightarrow> nat \<Rightarrow> nat \<Rightarrow> bool \<Rightarrow> byte list option" where
  "get_key_value_loop lfm n k off i found =
     (if n \<le> off then None
      else if found then Some (drop off lfm)
      else get_key_value_loop lfm n k (off + strlen (drop off lfm) + 1) (i + 1) (i mod 2 = 1 \<and> strcmp (drop off lfm) k = 0))"
  by pat_completeness auto

termination
  by (relation "measure (\<lambda>(lfm, n, k, off, i, found). n - off)") auto

declare get_key_value_loop.simps [simp del]

definition get_key_value :: "byte list \<Rightarrow> nat \<Rightarrow> byte list \<Rightarrow> byte list option" where
  "get_key_value lfm lfm_len k = get_key_value_loop lfm lfm_len k 0 0 False"

function grow_cap :: "nat \<Rightarrow> nat \<Rightarrow> nat" where
  "grow_cap cap n = (if 0 < cap \<and> cap < n then grow_cap (cap * 2) n else cap)"
  by pat_completeness auto

termination
  by (relation "measure (\<lambda>(cap, n). n - cap)") auto

declare grow_cap.simps [simp del]

definition storage_item_ensure_offset_room :: "storage_item \<Rightarrow> nat \<Rightarrow> storage_item" where
  "storage_item_ensure_offset_room item n =
     (if n \<le> cap_data_offsets item then item
      else let cap = (if cap_data_offsets item = 0 then 4 else cap_data_offsets item)
        in item\<lparr>cap_data_offsets := grow_cap cap n\<rparr>)"

text \<open>
  The memory of an item without a key ends where its key would start, so its key is empty; its
  \<^verbatim>\<open>index_val\<close> is not set. The result of \<^verbatim>\<open>tsc_init\<close> is ignored, as in the code.
\<close>

definition storage_item_new ::
  "c_env \<Rightarrow> u16 \<Rightarrow> byte list \<Rightarrow> nat \<Rightarrow> byte list list \<Rightarrow> u64 \<Rightarrow> storage_item option" where
  "storage_item_new env klen k buf_size inds iid = do {
     let k0 = (if klen = INVALID_KEY then [] else take (unat klen) k @ [0]);
     (_, d) \<leftarrow> tsc_init (env_junk env) (env_header env) buf_size;
     let item = \<lparr>internal_id = 0, key_len = klen, key = Some k0, item_data = d, key_storage_offset = 0,
       data_offsets = [], cap_data_offsets = 0, index_val = []\<rparr>;
     let item = storage_item_ensure_offset_room item 4;
     let item = (if klen \<noteq> INVALID_KEY then item\<lparr>index_val := map (get_key_value k0 (unat klen)) inds\<rparr> else item);
     Some (item\<lparr>internal_id := iid\<rparr>) }"

definition storage_item_free :: "the_storage \<Rightarrow> ptr \<Rightarrow> the_storage" where
  "storage_item_free st p = st\<lparr>allocated := remove1 p (allocated st)\<rparr>"

text \<open>\<^verbatim>\<open>store->root[i]\<close> is changed by \<^verbatim>\<open>sglib_StorageItem_add\<close> and \<^verbatim>\<open>sglib_StorageItem_delete\<close>.\<close>

definition root_add :: "ptr \<Rightarrow> nat \<Rightarrow> the_storage \<Rightarrow> the_storage option" where
  "root_add p i st = do {
     t \<leftarrow> tree_add (item_cmp (items st) i) (root st ! i) p;
     Some (st\<lparr>root := (root st)[i := t]\<rparr>) }"

definition root_delete :: "ptr \<Rightarrow> nat \<Rightarrow> the_storage \<Rightarrow> the_storage option" where
  "root_delete p i st = do {
     t \<leftarrow> tree_delete (item_cmp (items st) i) (root st ! i) p;
     Some (st\<lparr>root := (root st)[i := t]\<rparr>) }"

primrec for_each :: "('a \<Rightarrow> 's \<Rightarrow> 's option) \<Rightarrow> 'a list \<Rightarrow> 's \<Rightarrow> 's option" where
  "for_each f [] st = Some st"
| "for_each f (x # xs) st = do { st \<leftarrow> f x st; for_each f xs st }"

definition storage_insert_item ::
  "c_env \<Rightarrow> the_storage \<Rightarrow> byte list \<Rightarrow> u16 \<Rightarrow> u64 \<Rightarrow> (ptr \<times> the_storage) option" where
  "storage_insert_item env st k klen iid = do {
     item \<leftarrow> storage_item_new env klen k (initial_tsc_buf_size st) (indices st) iid;
     let p = env_malloc env (allocated st);
     let st = st\<lparr>items := (items st)(p := item), allocated := p # allocated st\<rparr>;
     if klen = INVALID_KEY then do {
       st \<leftarrow> root_add p INTERNAL_ID_INDEX st;
       Some (p, st) }
     else do {
       st \<leftarrow> for_each (root_add p) [0..<num_roots st] st;
       Some (p, st\<lparr>item_list := item_list st @ [p]\<rparr>) } }"

definition storage_write_key_and_internal_id :: "the_storage \<Rightarrow> ptr \<Rightarrow> (int \<times> the_storage) option" where
  "storage_write_key_and_internal_id st p =
     (let item = items st p; n = 2 + unat (key_len item) + 8
      in if n > MAX_BUF then Some (1, st)
      else do {
        let k = (case key item of None \<Rightarrow> [] | Some k \<Rightarrow> k);
        let buf = le_bytes (key_len item) @ take (unat (key_len item)) k @ le_bytes (internal_id item);
        (res, offset, ds) \<leftarrow> disk_storage_reserve_and_write_block (key_disk_store st) BLOCK_STATUS_VALID buf;
        Some (res, upd_item (st\<lparr>key_disk_store := ds\<rparr>) p (\<lambda>i. i\<lparr>key_storage_offset := of_nat offset\<rparr>)) })"

text \<open>The stack variables with which the trees are searched: only the compared fields are set.\<close>

definition blank_item :: storage_item where
  "blank_item = \<lparr>internal_id = 0, key_len = 0, key = None,
     item_data = \<lparr>last_timestamp = 0, last_timestamp_delta = 0, prev_value = 0, num_valid_bits = 0,
       last_leading = 0, last_sigbits = 0, tsc_data = [], data_len = 0\<rparr>,
     key_storage_offset = 0, data_offsets = [], cap_data_offsets = 0, index_val = []\<rparr>"

definition key_probe :: "byte list \<Rightarrow> u16 \<Rightarrow> storage_item" where
  "key_probe k klen = blank_item\<lparr>key_len := klen, key := Some k\<rparr>"

definition id_probe :: "u64 \<Rightarrow> storage_item" where
  "id_probe iid = blank_item\<lparr>internal_id := iid\<rparr>"

definition find_item :: "the_storage \<Rightarrow> nat \<Rightarrow> storage_item \<Rightarrow> ptr option" where
  "find_item st index probe = find_member (probe_cmp (items st) index probe) (root st ! index)"

text \<open>The result of \<^verbatim>\<open>storage_write_key_and_internal_id\<close> is ignored.\<close>

definition storage_get_item ::
  "c_env \<Rightarrow> the_storage \<Rightarrow> byte list \<Rightarrow> u16 \<Rightarrow> bool \<Rightarrow> (int \<times> ptr option \<times> the_storage) option" where
  "storage_get_item env st k klen ins =
     (case find_item st LFM_INDEX (key_probe k klen) of
        Some p \<Rightarrow> Some (ERR_OK, Some p, st)
      | None \<Rightarrow> if \<not> ins then Some (ERR_LOOKUP_FAILED, None, st)
        else do {
          _ \<leftarrow> c_assert (klen \<noteq> 0);
          (p, st) \<leftarrow> storage_insert_item env st k klen (next_internal_id st);
          let st = st\<lparr>next_internal_id := next_internal_id st + 1\<rparr>;
          (_, st) \<leftarrow> storage_write_key_and_internal_id st p;
          Some (ERR_OK, Some p, st) })"

section \<open>Writing\<close>

text \<open>Setting \<^verbatim>\<open>data_offsets[num_data_offsets]\<close> and counting it; the element must be inside the allocated array.\<close>

definition push_offset :: "offset_and_time \<Rightarrow> storage_item \<Rightarrow> storage_item option" where
  "push_offset e item = do {
     _ \<leftarrow> c_assert (length (data_offsets item) < cap_data_offsets item);
     Some (item\<lparr>data_offsets := data_offsets item @ [e]\<rparr>) }"

definition next_block :: "the_storage \<Rightarrow> ptr \<Rightarrow> the_storage option" where
  "next_block st p = do {
     let item = storage_item_ensure_offset_room (items st p) (length (data_offsets (items st p)) + 1);
     d \<leftarrow> tsc_clear (item_data item);
     item \<leftarrow> push_offset (0, 0) (item\<lparr>item_data := d\<rparr>);
     Some (upd_item st p (\<lambda>_. item)) }"

definition block_image :: "storage_item \<Rightarrow> bool \<Rightarrow> byte list" where
  "block_image item complete_block =
     (if complete_block then le_bytes (internal_id item) @ take (unat (data_len (item_data item))) (tsc_data (item_data item))
      else le_bytes (internal_id item) @ tsc_serialize_header (item_data item) @
        take (unat (data_len (item_data item))) (tsc_data (item_data item)))"

text \<open>
  The block is written to a new place when none is recorded yet (\<open>offset = 0\<close>), else over the old one, whose
  start time must be the same. Both branches of \<^verbatim>\<open>storage_write_disk\<close> end with the same code for a complete
  block, \<open>next_block\<close>.
\<close>

definition store_block :: "the_storage \<Rightarrow> ptr \<Rightarrow> bool \<Rightarrow> i64 \<Rightarrow> (int \<times> the_storage) option" where
  "store_block st p complete_block start_time = do {
     let item = items st p;
     let block_status = (if complete_block then BLOCK_STATUS_VALID else BLOCK_STATUS_ACTIVE);
     let buf = block_image item complete_block;
     item \<leftarrow> (if data_offsets item = [] then do {
         _ \<leftarrow> c_assert (cap_data_offsets item > 0);
         push_offset (0, 0) item }
       else Some item);
     let st = upd_item st p (\<lambda>_. item);
     let current = length (data_offsets item) - 1;
     let (offset, recorded) = data_offsets item ! current;
     if offset = 0 then do {
       (res, offset, ds) \<leftarrow> disk_storage_reserve_and_write_block (data_disk_store st) block_status buf;
       let st = st\<lparr>data_disk_store := ds\<rparr>;
       if res \<noteq> 0 then Some (res, st)
       else do {
         _ \<leftarrow> c_assert (offset > 0);
         Some (0, upd_item st p (\<lambda>i. i\<lparr>data_offsets := (data_offsets i)[current := (of_nat offset, start_time)]\<rparr>)) } }
     else do {
       _ \<leftarrow> c_assert (recorded = start_time);
       (res, ds) \<leftarrow> disk_storage_write_block (data_disk_store st) (unat offset) block_status buf;
       Some (res, st\<lparr>data_disk_store := ds\<rparr>) } }"

definition storage_write_disk :: "the_storage \<Rightarrow> ptr \<Rightarrow> bool \<Rightarrow> (int \<times> the_storage) option" where
  "storage_write_disk st p complete_block = do {
     num_pts \<leftarrow> TSC_NUM_PTS (tsc_data (item_data (items st p)));
     start_time \<leftarrow> TSC_START_TIME (tsc_data (item_data (items st p)));
     _ \<leftarrow> c_assert (num_pts > 0);
     _ \<leftarrow> c_assert (sint start_time > 0);
     (res, st) \<leftarrow> store_block st p complete_block start_time;
     if res \<noteq> 0 then Some (res, st)
     else do {
       st \<leftarrow> (if complete_block then next_block st p else Some st);
       Some (0, st) } }"

definition set_item_data :: "the_storage \<Rightarrow> ptr \<Rightarrow> tsc_header \<Rightarrow> the_storage" where
  "set_item_data st p d = upd_item st p (\<lambda>i. i\<lparr>item_data := d\<rparr>)"

primrec write_points :: "the_storage \<Rightarrow> ptr \<Rightarrow> (i64 \<times> u64) list \<Rightarrow> (int \<times> the_storage) option" where
  "write_points st p [] = Some (0, st)"
| "write_points st p (q # qs) = do {
     (res, d) \<leftarrow> tsc_add (item_data (items st p)) (fst q) (snd q);
     let st = set_item_data st p d;
     if res = ERR_TSC_OUT_OF_SPACE then do {
       (res, st) \<leftarrow> storage_write_disk st p True;
       if res \<noteq> 0 then Some (res, st)
       else do {
         (res, d) \<leftarrow> tsc_add (item_data (items st p)) (fst q) (snd q);
         _ \<leftarrow> c_assert (res = 0);
         write_points (set_item_data st p d) p qs } }
     else if res \<noteq> 0 then Some (res, st)
     else write_points st p qs }"

definition storage_write ::
  "c_env \<Rightarrow> the_storage \<Rightarrow> byte list \<Rightarrow> u16 \<Rightarrow> (i64 \<times> u64) list \<Rightarrow> (int \<times> the_storage) option" where
  "storage_write env st k klen pts = do {
     (res, p, st) \<leftarrow> storage_get_item env st k klen True;
     if res \<noteq> 0 then Some (res, st)
     else do {
       p \<leftarrow> p;
       write_points st p pts } }"

primrec sync_items :: "the_storage \<Rightarrow> ptr list \<Rightarrow> (int \<times> the_storage) option" where
  "sync_items st [] = Some (0, st)"
| "sync_items st (p # ps) = do {
     (res, st) \<leftarrow> storage_write_disk st p False;
     if res \<noteq> 0 then Some (res, st) else sync_items st ps }"

definition storage_sync :: "the_storage \<Rightarrow> (int \<times> the_storage) option" where
  "storage_sync st = sync_items st (item_list st)"

section \<open>Reading\<close>

text \<open>The loop over the points of one block: \<open>Inl\<close> when the caller's arrays are full.\<close>

function collect_points :: "mem \<Rightarrow> tsc_iter \<Rightarrow> (i64 \<times> u64) list \<Rightarrow> nat \<Rightarrow> (int + (i64 \<times> u64) list) option" where
  "collect_points d it acc max_num_pts = (case tsc_iter_next d it of None \<Rightarrow> None
     | Some (res, it') \<Rightarrow> if res \<noteq> ERR_OK then Some (Inr acc)
       else if length acc \<ge> max_num_pts then Some (Inl ERR_TOO_MANY_POINTS)
       else collect_points d it' (acc @ [(iter_t it', iter_y it')]) max_num_pts)"
  by pat_completeness auto

termination
  by (relation "measure (\<lambda>(d, it, acc, max_num_pts). max_num_pts - length acc)") auto

declare collect_points.simps [simp del]

text \<open>The blocks on disk; the second component of the result is the state of the file.\<close>

primrec read_offsets ::
  "storage_item \<Rightarrow> disk_storage \<Rightarrow> offset_and_time list \<Rightarrow> (i64 \<times> u64) list \<Rightarrow> nat \<Rightarrow>
     ((int + (i64 \<times> u64) list) \<times> disk_storage) option" where
  "read_offsets item ds [] acc max_num_pts = Some (Inr acc, ds)"
| "read_offsets item ds (e # es) acc max_num_pts =
     (if fst e = 0 then read_offsets item ds es acc max_num_pts
      else do {
        (res, blk, ds) \<leftarrow> disk_storage_read_block ds (unat (fst e)) STORAGE_GET_BUF_N;
        _ \<leftarrow> c_assert (res = 0);
        (status, buf) \<leftarrow> blk;
        if status = BLOCK_STATUS_ACTIVE then do {
          _ \<leftarrow> c_assert (es = []);
          Some (Inr acc, ds) }
        else do {
          _ \<leftarrow> c_assert (le_word (take 8 buf) = internal_id item);
          r \<leftarrow> collect_points (drop 8 buf) tsc_iter_init acc max_num_pts;
          case r of Inl err \<Rightarrow> Some (Inl err, ds)
            | Inr acc \<Rightarrow> read_offsets item ds es acc max_num_pts } })"

text \<open>The result is the code and, when it is zero, the points.\<close>

definition storage_get ::
  "c_env \<Rightarrow> the_storage \<Rightarrow> byte list \<Rightarrow> u16 \<Rightarrow> nat \<Rightarrow> (int \<times> (i64 \<times> u64) list \<times> the_storage) option" where
  "storage_get env st k klen max_num_pts = do {
     (res, p, st) \<leftarrow> storage_get_item env st k klen False;
     if res \<noteq> 0 then Some (res, [], st)
     else do {
       p \<leftarrow> p;
       let item = items st p;
       (r, ds) \<leftarrow> read_offsets item (data_disk_store st) (data_offsets item) [] max_num_pts;
       let st = st\<lparr>data_disk_store := ds\<rparr>;
       case r of Inl err \<Rightarrow> Some (err, [], st)
         | Inr acc \<Rightarrow> do {
             r \<leftarrow> collect_points (tsc_data (item_data item)) tsc_iter_init acc max_num_pts;
             case r of Inl err \<Rightarrow> Some (err, [], st) | Inr acc \<Rightarrow> Some (0, acc, st) } } }"

section \<open>Cleaning\<close>

text \<open>The first loop of \<^verbatim>\<open>storage_trim_and_write_to_disk\<close>: the last block whose start is too old.\<close>

primrec find_save_i :: "i64 \<Rightarrow> nat \<Rightarrow> offset_and_time list \<Rightarrow> nat \<Rightarrow> nat option" where
  "find_save_i t i [] save_i = Some save_i"
| "find_save_i t i (e # es) save_i =
     (if fst e = 0 then do {
        _ \<leftarrow> c_assert (es = []);
        Some save_i }
      else if sint (snd e) < sint t then find_save_i t (i + 1) es i
      else Some save_i)"

definition release_data :: "offset_and_time \<Rightarrow> the_storage \<Rightarrow> the_storage option" where
  "release_data e st = do {
     (_, ds) \<leftarrow> disk_storage_release_block (data_disk_store st) (unat (fst e));
     Some (st\<lparr>data_disk_store := ds\<rparr>) }"

text \<open>The result is \<^verbatim>\<open>should_delete\<close>. (\<^verbatim>\<open>num_pts_remaining\<close> is never set.)\<close>

definition storage_trim_and_write_to_disk :: "the_storage \<Rightarrow> ptr \<Rightarrow> i64 \<Rightarrow> (bool \<times> the_storage) option" where
  "storage_trim_and_write_to_disk st p t =
     (let item = items st p in
      if sint (last_timestamp (item_data item)) < sint t then Some (True, st)
      else do {
        save_i \<leftarrow> find_save_i t 0 (data_offsets item) 0;
        if save_i > 0 then do {
          _ \<leftarrow> c_assert (save_i < length (data_offsets item));
          st \<leftarrow> for_each release_data (take save_i (data_offsets item)) st;
          Some (False, upd_item st p (\<lambda>i. i\<lparr>data_offsets := drop save_i (data_offsets i)\<rparr>)) }
        else Some (False, st) })"

primrec release_offsets :: "offset_and_time list \<Rightarrow> the_storage \<Rightarrow> the_storage option" where
  "release_offsets [] st = Some st"
| "release_offsets (e # es) st =
     (if fst e = 0 then do {
        _ \<leftarrow> c_assert (es = []);
        Some st }
      else do {
        st \<leftarrow> release_data e st;
        release_offsets es st })"

definition storage_delete_item :: "the_storage \<Rightarrow> ptr \<Rightarrow> the_storage option" where
  "storage_delete_item st p = do {
     let st = st\<lparr>item_list := remove1 p (item_list st)\<rparr>;
     st \<leftarrow> for_each (root_delete p) [0..<num_roots st] st;
     st \<leftarrow> release_offsets (data_offsets (items st p)) st;
     (_, ds) \<leftarrow> disk_storage_release_block (key_disk_store st) (unat (key_storage_offset (items st p)));
     Some (storage_item_free (st\<lparr>key_disk_store := ds\<rparr>) p) }"

definition clean_item :: "i64 \<Rightarrow> ptr \<Rightarrow> the_storage \<Rightarrow> the_storage option" where
  "clean_item t p st = do {
     (should_delete, st) \<leftarrow> storage_trim_and_write_to_disk st p t;
     if should_delete then storage_delete_item st p else Some st }"

text \<open>
  The loop takes \<^verbatim>\<open>item->next\<close> before it changes anything else, and only ever removes the item it is at,
  so it visits the list as it was at the start. The current time is a parameter.
\<close>

definition clean_items :: "int \<Rightarrow> the_storage \<Rightarrow> the_storage option" where
  "clean_items now st = for_each (clean_item (word_of_int (now - retention_seconds st))) (item_list st) st"

text \<open>
  One round of the cleaning thread, \<^verbatim>\<open>storage_thread_run\<close>, while it holds the lock: it starts at the item
  where the last round ended, or at the beginning of the list, and handles at most \<^verbatim>\<open>max_num_items\<close> items.
\<close>

fun next_item :: "ptr list \<Rightarrow> ptr \<Rightarrow> ptr option" where
  "next_item (a # b # xs) p = (if a = p then Some b else next_item (b # xs) p)"
| "next_item xs p = None"

primrec thread_batch :: "nat \<Rightarrow> i64 \<Rightarrow> ptr option \<Rightarrow> the_storage \<Rightarrow> (ptr option \<times> the_storage) option" where
  "thread_batch 0 t item st = Some (item, st)"
| "thread_batch (Suc n) t item st = (case item of None \<Rightarrow> Some (None, st)
     | Some p \<Rightarrow> do {
         let next_p = next_item (item_list st) p;
         st \<leftarrow> clean_item t p st;
         thread_batch n t next_p st })"

definition max_num_items :: nat where "max_num_items = 50"

definition storage_thread_round :: "int \<Rightarrow> ptr option \<Rightarrow> the_storage \<Rightarrow> (ptr option \<times> the_storage) option" where
  "storage_thread_round now item st =
     (let item = (case item of None \<Rightarrow> (case item_list st of [] \<Rightarrow> None | p # _ \<Rightarrow> Some p) | Some p \<Rightarrow> Some p)
      in thread_batch max_num_items (word_of_int (now - retention_seconds st)) item st)"

section \<open>Lookups\<close>

text \<open>\<^verbatim>\<open>memmem\<close>: whether the second string of bytes occurs in the first.\<close>

fun memmem :: "byte list \<Rightarrow> byte list \<Rightarrow> bool" where
  "memmem [] ndl = (ndl = [])"
| "memmem (x # xs) ndl = (take (length ndl) (x # xs) = ndl \<or> memmem xs ndl)"

definition name_label :: "byte list" where
  "name_label = [95, 95, 110, 97, 109, 101, 95, 95, 0]"

primrec extra_matchers_match :: "byte list \<Rightarrow> u16 \<Rightarrow> byte list \<Rightarrow> nat \<Rightarrow> bool" where
  "extra_matchers_match k klen matchers 0 = True"
| "extra_matchers_match k klen matchers (Suc num) =
     (let match_key = matchers;
          match_val = drop (strlen match_key + 1) match_key;
          p = drop (strlen match_val + 1) match_val;
          n = strlen match_key + 1 + (strlen match_val + 1)
      in (if strcmp match_key name_label = 0 then strcmp k match_val = 0
          else memmem (take (unat klen + 1) k) (take n match_key)) \<and>
         extra_matchers_match k klen p num)"

definition item_key :: "storage_item \<Rightarrow> byte list" where
  "item_key item = (case key item of None \<Rightarrow> [] | Some k \<Rightarrow> k)"

definition item_matches :: "the_storage \<Rightarrow> byte list \<Rightarrow> nat \<Rightarrow> ptr \<Rightarrow> bool" where
  "item_matches st matchers num p =
     extra_matchers_match (item_key (items st p)) (key_len (items st p)) matchers num"

text \<open>Appending an item to the results: the code, the results and the room left.\<close>

definition put_result :: "storage_item \<Rightarrow> byte list \<Rightarrow> nat \<Rightarrow> (int \<times> byte list \<times> nat) option" where
  "put_result item results room =
     (let n = unat (key_len item) + 2
      in if room < n then Some (ERR_BUF_TOO_SMALL, results, room)
      else do {
        _ \<leftarrow> c_assert (key_len item > 0);
        Some (0, results @ le_bytes (key_len item) @ take (unat (key_len item)) (item_key item), room - n) })"

text \<open>The items that the scan visits: the list from some item on.\<close>

primrec scan_items ::
  "the_storage \<Rightarrow> byte list \<Rightarrow> nat \<Rightarrow> ptr list \<Rightarrow> byte list \<Rightarrow> nat \<Rightarrow> u64 \<Rightarrow> nat \<Rightarrow> (int \<times> byte list \<times> u64) option" where
  "scan_items st matchers num [] results room last_id limit = Some (0, results, last_id)"
| "scan_items st matchers num (p # ps) results room last_id limit =
     (if item_matches st matchers num p then
        if limit = 0 then Some (0, results, last_id)
        else do {
          (res, results, room) \<leftarrow> put_result (items st p) results room;
          if res \<noteq> 0 then Some (res, results, last_id)
          else scan_items st matchers num ps results room (internal_id (items st p)) (limit - 1) }
      else scan_items st matchers num ps results room last_id limit)"

definition items_after :: "ptr list \<Rightarrow> ptr \<Rightarrow> ptr list" where
  "items_after xs p = drop 1 (dropWhile (\<lambda>q. q \<noteq> p) xs)"

definition storage_lookup_without_index ::
  "the_storage \<Rightarrow> byte list \<Rightarrow> nat \<Rightarrow> nat \<Rightarrow> u64 \<Rightarrow> nat \<Rightarrow> (int \<times> byte list \<times> u64) option" where
  "storage_lookup_without_index st matchers num_matchers max_results_size last_internal_id limit =
     (let from = (if last_internal_id = 0 then item_list st
        else case find_member_or_nearest_lesser (probe_cmp (items st) INTERNAL_ID_INDEX (id_probe last_internal_id))
                    (root st ! INTERNAL_ID_INDEX) of
            None \<Rightarrow> []
          | Some p \<Rightarrow> items_after (item_list st) p)
      in scan_items st matchers num_matchers from [] max_results_size last_internal_id limit)"

primrec lookup_items ::
  "the_storage \<Rightarrow> byte list \<Rightarrow> nat \<Rightarrow> ptr list \<Rightarrow> byte list \<Rightarrow> nat \<Rightarrow> nat \<Rightarrow> nat \<Rightarrow> (int \<times> byte list) option" where
  "lookup_items st matchers num [] results room offset limit = Some (0, results)"
| "lookup_items st matchers num (p # ps) results room offset limit =
     (if item_matches st matchers num p then
        if offset > 0 then lookup_items st matchers num ps results room (offset - 1) limit
        else if limit = 0 then Some (0, results)
        else do {
          (res, results, room) \<leftarrow> put_result (items st p) results room;
          if res \<noteq> 0 then Some (res, results)
          else lookup_items st matchers num ps results room offset (limit - 1) }
      else lookup_items st matchers num ps results room offset limit)"

text \<open>
  The iterator over the items equal to the probe is run to its end first (\<open>it_all\<close>); the loop of the code
  may stop earlier.
\<close>

definition lookup_probe :: "the_storage \<Rightarrow> nat \<Rightarrow> byte list \<Rightarrow> storage_item option" where
  "lookup_probe st index_num label_value =
     (if index_num = NAME_INDEX then Some (blank_item\<lparr>key := Some label_value\<rparr>)
      else if NUM_SPECIAL_INDICES \<le> index_num \<and> index_num < num_roots st then
        Some (blank_item\<lparr>index_val := (replicate (length (indices st)) None)[index_num - NUM_SPECIAL_INDICES := Some label_value]\<rparr>)
      else None)"

definition storage_lookup ::
  "the_storage \<Rightarrow> nat \<Rightarrow> byte list \<Rightarrow> byte list \<Rightarrow> nat \<Rightarrow> nat \<Rightarrow> nat \<Rightarrow> nat \<Rightarrow> (int \<times> byte list) option" where
  "storage_lookup st index_num label_value matchers num_matchers max_results_size offset limit =
     (case lookup_probe st index_num label_value of
        None \<Rightarrow> Some (ERR_BAD_INDEX, [])
      | Some probe \<Rightarrow> do {
          it \<leftarrow> it_init_on_equal (root st ! index_num) (probe_cmp (items st) index_num probe);
          elems \<leftarrow> it_all it;
          lookup_items st matchers num_matchers elems [] max_results_size offset limit })"

end
