(* ===== verification/Storage_Load.thy ===== *)
theory Storage_Load
  imports Storage
begin

unbundle bit_operations_syntax

text \<open>
  Starting the storage: \<^verbatim>\<open>storage_init\<close> and \<^verbatim>\<open>storage_load\<close> of \<^verbatim>\<open>src/common/storage.c\<close>, which rebuild the items
  from the two block stores, and the cluster configuration. The loops over the blocks are recursive
  functions into \<open>option\<close>; that they end is part of the claims that loading gives a result.
\<close>

section \<open>Data blocks\<close>

text \<open>The position in the list, which is sorted by start time, and whether it is the end.\<close>

fun insert_offset :: "offset_and_time \<Rightarrow> offset_and_time list \<Rightarrow> offset_and_time list \<times> bool" where
  "insert_offset e [] = ([e], True)"
| "insert_offset e (x # xs) =
     (if sint (snd e) < sint (snd x) then (e # x # xs, False)
      else case insert_offset e xs of (ys, last_block) \<Rightarrow> (x # ys, last_block))"

definition storage_insert_data_block_during_initial_load ::
  "c_env \<Rightarrow> the_storage \<Rightarrow> u64 \<Rightarrow> nat \<Rightarrow> i64 \<Rightarrow> (ptr \<times> bool \<times> the_storage) option" where
  "storage_insert_data_block_during_initial_load env st iid offset start_time = do {
     (p, st) \<leftarrow> (case find_item st INTERNAL_ID_INDEX (id_probe iid) of
        Some p \<Rightarrow> Some (p, st)
      | None \<Rightarrow> storage_insert_item env st [] INVALID_KEY iid);
     let item = storage_item_ensure_offset_room (items st p) (length (data_offsets (items st p)) + 1);
     let (offs, last_block) = insert_offset (of_nat offset, start_time) (data_offsets item);
     _ \<leftarrow> c_assert (offset > 0);
     _ \<leftarrow> c_assert (length offs \<le> cap_data_offsets item);
     Some (p, last_block, upd_item st p (\<lambda>_. item\<lparr>data_offsets := offs\<rparr>)) }"

text \<open>The body of the first loop of \<^verbatim>\<open>storage_load\<close>.\<close>

definition load_data_block ::
  "c_env \<Rightarrow> the_storage \<Rightarrow> nat \<Rightarrow> u8 \<Rightarrow> byte list \<Rightarrow> (int \<times> the_storage) option" where
  "load_data_block env st offset block_status buf =
     (if length buf \<le> 8 + 2 + 8 then Some (1, st)
      else do {
        let iid = le_word (take 8 buf);
        let serialized_tsc_header = drop 8 buf;
        let data_buf = (if block_status = BLOCK_STATUS_ACTIVE then drop TSC_HEADER_SERIALIZATION_SIZE (drop 8 buf) else drop 8 buf);
        _ \<leftarrow> c_assert (block_status = BLOCK_STATUS_VALID \<or> block_status = BLOCK_STATUS_ACTIVE);
        start_time \<leftarrow> TSC_START_TIME data_buf;
        _ \<leftarrow> c_assert (start_time \<noteq> 0);
        (p, last_block, st) \<leftarrow> storage_insert_data_block_during_initial_load env st iid offset start_time;
        if block_status = BLOCK_STATUS_ACTIVE then do {
          _ \<leftarrow> c_assert last_block;
          let data_buf_len = length buf - 8 - TSC_HEADER_SERIALIZATION_SIZE;
          d \<leftarrow> tsc_load_block (item_data (items st p)) serialized_tsc_header data_buf data_buf_len;
          Some (0, set_item_data st p d) }
        else Some (0, st) })"

partial_function (option) load_data_loop :: "c_env \<Rightarrow> bool \<Rightarrow> the_storage \<Rightarrow> (int \<times> the_storage) option" where
  "load_data_loop env initial st = do {
     (res, blk, ds) \<leftarrow> disk_storage_read_blocks_from_start (data_disk_store st) initial LOAD_MAX_N;
     let st = st\<lparr>data_disk_store := ds\<rparr>;
     if res \<noteq> 0 then Some (res, st)
     else case blk of None \<Rightarrow> Some (0, st)
       | Some b \<Rightarrow> do {
           (res, st) \<leftarrow> load_data_block env st (fst b) (fst (snd b)) (snd (snd b));
           if res \<noteq> 0 then Some (res, st) else load_data_loop env False st } }"

declare load_data_loop.simps [code]

section \<open>Keys\<close>

definition storage_attach_key_to_item ::
  "c_env \<Rightarrow> the_storage \<Rightarrow> byte list \<Rightarrow> u16 \<Rightarrow> u64 \<Rightarrow> nat \<Rightarrow> (bool \<times> the_storage) option" where
  "storage_attach_key_to_item env st k klen iid offset =
     (case find_item st INTERNAL_ID_INDEX (id_probe iid) of
        None \<Rightarrow> Some (False, st)
      | Some p \<Rightarrow> do {
          _ \<leftarrow> c_assert (iid = internal_id (items st p));
          _ \<leftarrow> c_assert (key_len (items st p) = INVALID_KEY);
          st \<leftarrow> root_delete p INTERNAL_ID_INDEX st;
          (tmp, st) \<leftarrow> storage_insert_item env st k klen iid;
          let item = items st p;
          let st = upd_item st tmp (\<lambda>i. i\<lparr>key_storage_offset := of_nat offset, item_data := item_data item,
            data_offsets := data_offsets item, cap_data_offsets := cap_data_offsets item\<rparr>);
          Some (True, storage_item_free st p) })"

text \<open>
  The body of the second loop: a key without data is released; the position of the file is restored.
  The key and the identifier are read from the buffer of the block. The comparison of the identifiers, an
  \<^verbatim>\<open>uint64_t\<close> and an \<^verbatim>\<open>int64_t\<close>, is unsigned.
\<close>

definition load_key_block :: "c_env \<Rightarrow> the_storage \<Rightarrow> nat \<Rightarrow> byte list \<Rightarrow> the_storage option" where
  "load_key_block env st offset buf = do {
     _ \<leftarrow> c_assert (length buf > 2);
     let klen = (le_word (take 2 buf) :: u16);
     let k = drop 2 buf;
     idb \<leftarrow> mem_read k (unat klen) 8;
     let iid = (le_word idb :: u64);
     _ \<leftarrow> c_assert (klen \<noteq> 0 \<and> k ! 0 \<noteq> 0);
     let st = (if iid \<ge> next_internal_id st then st\<lparr>next_internal_id := iid + 1\<rparr> else st);
     (found, st) \<leftarrow> storage_attach_key_to_item env st k klen iid offset;
     if found then Some st
     else do {
       let off_restore = ds_pos (key_disk_store st);
       (res, ds) \<leftarrow> disk_storage_release_block (key_disk_store st) offset;
       _ \<leftarrow> c_assert (res = 0);
       Some (st\<lparr>key_disk_store := must_lseek ds off_restore\<rparr>) } }"

partial_function (option) load_key_loop :: "c_env \<Rightarrow> bool \<Rightarrow> the_storage \<Rightarrow> (int \<times> the_storage) option" where
  "load_key_loop env initial st = do {
     (res, blk, ds) \<leftarrow> disk_storage_read_blocks_from_start (key_disk_store st) initial LOAD_MAX_N;
     let st = st\<lparr>key_disk_store := ds\<rparr>;
     if res \<noteq> 0 then Some (res, st)
     else case blk of None \<Rightarrow> Some (0, st)
       | Some b \<Rightarrow> do {
           st \<leftarrow> load_key_block env st (fst b) (snd (snd b));
           load_key_loop env False st } }"

declare load_key_loop.simps [code]

section \<open>Loading\<close>

definition check_key :: "ptr \<Rightarrow> the_storage \<Rightarrow> the_storage option" where
  "check_key p st = do { _ \<leftarrow> c_assert (key_len (items st p) \<noteq> INVALID_KEY); Some st }"

text \<open>An item whose blocks are all complete gets a place for the next one.\<close>

definition check_last_block :: "ptr \<Rightarrow> the_storage \<Rightarrow> the_storage option" where
  "check_last_block p st = do {
     let item = items st p;
     _ \<leftarrow> c_assert (data_offsets item \<noteq> []);
     _ \<leftarrow> c_assert (fst (last (data_offsets item)) \<noteq> 0);
     clear \<leftarrow> tsc_is_clear (item_data item);
     if clear then do {
       item \<leftarrow> push_offset (0, 0) (storage_item_ensure_offset_room item (length (data_offsets item) + 1));
       Some (upd_item st p (\<lambda>_. item)) }
     else Some st }"

definition items_by_id :: "the_storage \<Rightarrow> ptr list option" where
  "items_by_id st = do {
     it \<leftarrow> it_init_inorder (root st ! INTERNAL_ID_INDEX);
     it_all it }"

definition storage_load :: "c_env \<Rightarrow> the_storage \<Rightarrow> (int \<times> the_storage) option" where
  "storage_load env st = do {
     (res, st) \<leftarrow> load_data_loop env True st;
     if res \<noteq> 0 then Some (res, st)
     else do {
       (res, st) \<leftarrow> load_key_loop env True st;
       if res \<noteq> 0 then Some (res, st)
       else do {
         ps \<leftarrow> items_by_id st;
         st \<leftarrow> for_each check_key ps st;
         ps \<leftarrow> items_by_id st;
         st \<leftarrow> for_each check_last_block ps st;
         Some (0, st) } } }"

text \<open>
  \<^verbatim>\<open>storage_init\<close> on the contents of the files \<^verbatim>\<open>key.store\<close> and \<^verbatim>\<open>data.store\<close> and their scratch files. The check
  of the length of the path and the cluster configuration are separate.
\<close>

definition storage_init ::
  "c_env \<Rightarrow> int \<Rightarrow> nat \<Rightarrow> byte list list \<Rightarrow> mem \<times> mem \<Rightarrow> mem \<times> mem \<Rightarrow> (int \<times> the_storage option) option" where
  "storage_init env retention buf_size inds key_files data_files = do {
     (res, key_ds) \<leftarrow> disk_storage_open (fst key_files) (snd key_files);
     if res \<noteq> 0 then Some (res, None)
     else do {
       (res, data_ds) \<leftarrow> disk_storage_open (fst data_files) (snd data_files);
       if res \<noteq> 0 then Some (res, None)
       else do {
         (res, st) \<leftarrow> storage_load env
           \<lparr>initial_tsc_buf_size = buf_size, retention_seconds = retention, next_internal_id = 1,
            item_list = [], indices = inds, root = replicate (NUM_SPECIAL_INDICES + length inds) Null,
            key_disk_store = key_ds, data_disk_store = data_ds, items = (\<lambda>_. blank_item), allocated = []\<rparr>;
         Some (res, Some st) } } }"

section \<open>Cluster configuration\<close>

text \<open>
  The configuration is a string in a file of its own, of which the storage keeps a copy and the SHA-1
  hash. \<^verbatim>\<open>SHA1\<close> is a function of OpenSSL and a parameter here. Reading copies the file and terminates the
  string; the hash and a later write stop at the first zero byte.
\<close>

record cluster_config =
  cc_config :: "byte list"
  cc_hash :: "byte list"
  cc_file :: mem

definition c_string :: "byte list \<Rightarrow> byte list" where
  "c_string s = take (strlen s) s"

definition read_or_create_cluster_config_from_disk :: "(byte list \<Rightarrow> byte list) \<Rightarrow> mem \<Rightarrow> cluster_config" where
  "read_or_create_cluster_config_from_disk sha1 file =
     (let config = file @ [0] in \<lparr>cc_config = config, cc_hash = sha1 (c_string config), cc_file = file\<rparr>)"

text \<open>\<^verbatim>\<open>write\<close> at the beginning of the file and \<^verbatim>\<open>ftruncate\<close> to the length of the string.\<close>

definition save_cluster_config_to_disk :: "(byte list \<Rightarrow> byte list) \<Rightarrow> cluster_config \<Rightarrow> cluster_config" where
  "save_cluster_config_to_disk sha1 c =
     (let l = strlen (cc_config c); file = take l (file_write (cc_file c) 0 (take l (cc_config c)))
      in c\<lparr>cc_file := file, cc_hash := sha1 (c_string (cc_config c))\<rparr>)"

end
