(* ===== verification/Conn_Handler.thy ===== *)
theory Conn_Handler
  imports Structured_Stream Storage_Load
begin

unbundle bit_operations_syntax

text \<open>
  The connections of the server, \<^verbatim>\<open>src/server/conn_handler.c\<close>: the pool of connections and the handlers of the
  requests. A handler is a program on the state of the server, for the connection with the number \<open>i\<close> in the
  pool. Every call of the storage runs inside the lock of the storage, and so do the accesses to the
  configuration of the cluster.

  The arguments that come from outside are a parameter, \<open>conn_env\<close>: what the storage needs of the C library, the
  time, SHA-1, and the strings that the build puts into the program. The model is that of a release build
  (\<^verbatim>\<open>DEBUG_BUILD\<close> is not defined). Metrics and log output are left out.
\<close>

section \<open>State\<close>

record conn_env =
  ce_env :: c_env
  ce_time :: int
  ce_sha1 :: "byte list \<Rightarrow> byte list"
  ce_git_commit :: "byte list"
  ce_build_time :: "byte list"

text \<open>\<open>conn_open\<close> says that \<^verbatim>\<open>fd\<close> is not -1.\<close>

record conn_data =
  has_valid_config :: bool
  conn_ss :: structured_stream
  conn_open :: bool

record server =
  srv_storage :: the_storage
  srv_config :: cluster_config
  conn_pool :: "conn_data list"
  conn_free :: "nat list"
  conn_free_i :: int

definition MAX_LFM_SIZE :: nat where "MAX_LFM_SIZE = 1024"
definition MAX_KEY_BUF :: nat where "MAX_KEY_BUF = (4 + 512) * 5000"
definition MAX_LABEL_MATCHES :: nat where "MAX_LABEL_MATCHES = 512 * 10"
definition MAX_LFM_RESULTS :: nat where "MAX_LFM_RESULTS = 1024 * 1024"
definition MAX_PTS_PER_SERIES :: nat where "MAX_PTS_PER_SERIES = 86400"
definition SHA_DIGEST_LENGTH :: nat where "SHA_DIGEST_LENGTH = 20"

definition STATUS_OK :: u8 where "STATUS_OK = 0"
definition STATUS_TOO_MANY_METRICS :: u8 where "STATUS_TOO_MANY_METRICS = 2"
definition STATUS_UNKNOWN_ERROR :: u8 where "STATUS_UNKNOWN_ERROR = 4"
definition STATUS_MISSING_INDEX :: u8 where "STATUS_MISSING_INDEX = 5"
definition STATUS_UNAUTHORIZED :: u8 where "STATUS_UNAUTHORIZED = 8"
definition CLUSTER_CONFIG_OUT_OF_DATE :: u8 where "CLUSTER_CONFIG_OUT_OF_DATE = 0x80"

lemmas status_defs = STATUS_OK_def STATUS_TOO_MANY_METRICS_def STATUS_UNKNOWN_ERROR_def STATUS_MISSING_INDEX_def
  STATUS_UNAUTHORIZED_def CLUSTER_CONFIG_OUT_OF_DATE_def

lemmas handler_limits = MAX_LFM_SIZE_def MAX_KEY_BUF_def MAX_LABEL_MATCHES_def MAX_LFM_RESULTS_def MAX_PTS_PER_SERIES_def SHA_DIGEST_LENGTH_def

definition get_conn :: "nat \<Rightarrow> server \<Rightarrow> conn_data" where
  "get_conn i sv = conn_pool sv ! i"

definition put_conn :: "nat \<Rightarrow> conn_data \<Rightarrow> server \<Rightarrow> server" where
  "put_conn i d sv = sv\<lparr>conn_pool := (conn_pool sv)[i := d]\<rparr>"

definition on_ss :: "nat \<Rightarrow> (structured_stream, 'a) prog \<Rightarrow> (server, 'a) prog" where
  "on_ss i = zoom (\<lambda>sv. conn_ss (get_conn i sv)) (\<lambda>ss sv. put_conn i ((get_conn i sv)\<lparr>conn_ss := ss\<rparr>) sv)"

text \<open>The bit in the response that tells the client that its configuration is out of date.\<close>

definition config_flag :: "nat \<Rightarrow> u8 \<Rightarrow> (server, u8) prog" where
  "config_flag i error_code = gets (\<lambda>sv. if \<not> has_valid_config (get_conn i sv) then error_code OR CLUSTER_CONFIG_OUT_OF_DATE else error_code)"

section \<open>The pool\<close>

definition new_conn :: "(nat \<Rightarrow> byte) \<Rightarrow> socket \<Rightarrow> nat \<Rightarrow> conn_data" where
  "new_conn junk s buf_size_per_conn = \<lparr>has_valid_config = False, conn_ss = structured_stream_new junk s buf_size_per_conn buf_size_per_conn, conn_open = False\<rparr>"

definition conn_data_pool_init :: "(nat \<Rightarrow> byte) \<Rightarrow> socket \<Rightarrow> nat \<Rightarrow> nat \<Rightarrow> the_storage \<Rightarrow> cluster_config \<Rightarrow> server" where
  "conn_data_pool_init junk s num_conns buf_size_per_conn st config =
     \<lparr>srv_storage = st, srv_config = config, conn_pool = replicate num_conns (new_conn junk s buf_size_per_conn),
      conn_free = [0..<num_conns], conn_free_i = int num_conns - 1\<rparr>"

definition conn_data_pool_get :: "(server, nat) prog" where
  "conn_data_pool_get sv =
     (if conn_free_i sv < 0 then Some (Inl 1, sv)
      else if nat (conn_free_i sv) < length (conn_free sv)
      then Some (Inr (conn_free sv ! nat (conn_free_i sv)), sv\<lparr>conn_free_i := conn_free_i sv - 1\<rparr>)
      else None)"

text \<open>A release beyond the end of the array would be an access outside its memory.\<close>

definition conn_data_pool_release :: "nat \<Rightarrow> (server, unit) prog" where
  "conn_data_pool_release i sv =
     (let k = nat (conn_free_i sv + 1)
      in if k < length (conn_free sv) then Some (Inr (), sv\<lparr>conn_free_i := conn_free_i sv + 1, conn_free := (conn_free sv)[k := i]\<rparr>) else None)"

text \<open>
  A new connection is given to a free slot. The thread of the slot initialises the stream with it when it
  wakes up, which is part of this step.
\<close>

definition conn_data_pool_handle_conn :: "socket \<Rightarrow> (server, nat) prog" where
  "conn_data_pool_handle_conn s =
     andthen conn_data_pool_get (\<lambda>i.
     andthen (modify (\<lambda>sv. put_conn i ((get_conn i sv)\<lparr>has_valid_config := False, conn_open := True,
       conn_ss := structured_stream_init (conn_ss (get_conn i sv)) s\<rparr>) sv)) (\<lambda>_.
     ret i))"

text \<open>The end of a connection in \<^verbatim>\<open>conn_handler_thread_run\<close>.\<close>

definition close_conn :: "nat \<Rightarrow> (server, unit) prog" where
  "close_conn i = andthen (modify (\<lambda>sv. put_conn i ((get_conn i sv)\<lparr>conn_open := False\<rparr>) sv)) (\<lambda>_. conn_data_pool_release i)"

section \<open>Writing points\<close>

definition store_point :: "conn_env \<Rightarrow> int \<Rightarrow> byte list \<Rightarrow> i64 \<Rightarrow> u64 \<Rightarrow> (server, unit) prog" where
  "store_point ce earliest_time k t y sv =
     (if sint t < earliest_time then Some (Inr (), sv)
      else do {
        (_, st) \<leftarrow> storage_write (ce_env ce) (srv_storage sv) k (of_nat (length k)) [(t, y)];
        Some (Inr (), sv\<lparr>srv_storage := st\<rparr>) })"

primrec put_points :: "conn_env \<Rightarrow> nat \<Rightarrow> int \<Rightarrow> byte list \<Rightarrow> nat \<Rightarrow> (server, unit) prog" where
  "put_points ce i earliest_time k 0 = ret ()"
| "put_points ce i earliest_time k (Suc num_pts) =
     andthen (on_ss i (structured_stream_ensure_read 16)) (\<lambda>_.
     andthen (on_ss i structured_stream_read_int64) (\<lambda>t.
     andthen (on_ss i structured_stream_read_double) (\<lambda>y.
     andthen (store_point ce earliest_time k t y) (\<lambda>_.
     put_points ce i earliest_time k num_pts))))"

text \<open>The loop over the keys ends with an empty one. That it ends is part of the claims about the handler.\<close>

partial_function (option) put_keys :: "conn_env \<Rightarrow> nat \<Rightarrow> int \<Rightarrow> (server, unit) prog" where
  "put_keys ce i earliest_time sv = do {
     (r, sv) \<leftarrow> on_ss i (structured_stream_read_uint16_prefixed_bytes MAX_LFM_SIZE) sv;
     case r of Inl res \<Rightarrow> Some (Inl res, sv)
     | Inr k \<Rightarrow> if k = [] then Some (Inr (), sv)
       else do {
         (r, sv) \<leftarrow> andthen (on_ss i structured_stream_read_uint32) (\<lambda>num_pts. put_points ce i earliest_time k (unat num_pts)) sv;
         case r of Inl res \<Rightarrow> Some (Inl res, sv) | Inr _ \<Rightarrow> put_keys ce i earliest_time sv } }"

declare put_keys.simps [code]

definition handle_conn_put_data :: "conn_env \<Rightarrow> nat \<Rightarrow> (server, unit) prog" where
  "handle_conn_put_data ce i =
     andthen (gets (\<lambda>sv. sint (word_of_int (ce_time ce - retention_seconds (srv_storage sv)) :: i64))) (\<lambda>earliest_time.
     andthen (put_keys ce i earliest_time) (\<lambda>_.
     andthen (on_ss i (structured_stream_ensure_write (1 + 4))) (\<lambda>_.
     andthen (config_flag i 0) (\<lambda>error_code.
     andthen (on_ss i (structured_stream_write_uint8 error_code)) (\<lambda>_.
     on_ss i structured_stream_flush)))))"

section \<open>Reading points\<close>

text \<open>The keys are first collected in a buffer, each with its length in front.\<close>

primrec collect_keys :: "nat \<Rightarrow> nat \<Rightarrow> byte list \<Rightarrow> u8 \<Rightarrow> (server, byte list \<times> u8) prog" where
  "collect_keys i 0 keys_buf error_code = ret (keys_buf, error_code)"
| "collect_keys i (Suc n) keys_buf error_code =
     andthen (on_ss i structured_stream_read_uint16_prefixed_bytes_inplace) (\<lambda>k.
     if length keys_buf + 8 + length k \<ge> MAX_KEY_BUF then collect_keys i n keys_buf STATUS_TOO_MANY_METRICS
     else collect_keys i n (keys_buf @ le_bytes (of_nat (length k) :: u16) @ k) error_code)"

definition write_point :: "nat \<Rightarrow> i64 \<times> u64 \<Rightarrow> (server, unit) prog" where
  "write_point i q = andthen (on_ss i (structured_stream_write_int64 (fst q))) (\<lambda>_. on_ss i (structured_stream_write_double (snd q)))"

definition get_series :: "conn_env \<Rightarrow> byte list \<Rightarrow> u16 \<Rightarrow> (server, int \<times> (i64 \<times> u64) list) prog" where
  "get_series ce k klen sv = do {
     (res, pts, st) \<leftarrow> storage_get (ce_env ce) (srv_storage sv) k klen MAX_PTS_PER_SERIES;
     Some (Inr (res, pts), sv\<lparr>srv_storage := st\<rparr>) }"

primrec send_series :: "conn_env \<Rightarrow> nat \<Rightarrow> nat \<Rightarrow> byte list \<Rightarrow> u8 \<Rightarrow> (server, u8) prog" where
  "send_series ce i 0 p error_code = ret error_code"
| "send_series ce i (Suc n) p error_code =
     (if error_code \<noteq> 0 then andthen (on_ss i (structured_stream_write_uint32 0)) (\<lambda>_. send_series ce i n p error_code)
      else let klen = (le_word (take 2 p) :: u16); k = drop 2 p; p = drop (unat klen) k in
        andthen (get_series ce k klen) (\<lambda>(res, pts).
        if res = 0 then
          andthen (on_ss i (structured_stream_write_uint32 (of_nat (length pts)))) (\<lambda>_.
          andthen (for_list (write_point i) pts) (\<lambda>_.
          send_series ce i n p error_code))
        else
          andthen (on_ss i (structured_stream_write_uint32 0)) (\<lambda>_.
          send_series ce i n p (if res \<noteq> ERR_LOOKUP_FAILED then STATUS_UNKNOWN_ERROR else error_code))))"

definition handle_conn_get_data :: "conn_env \<Rightarrow> nat \<Rightarrow> (server, unit) prog" where
  "handle_conn_get_data ce i =
     andthen (on_ss i structured_stream_read_uint16) (\<lambda>num_keys.
     andthen (collect_keys i (unat num_keys) [] 0) (\<lambda>(keys_buf, error_code).
     andthen (send_series ce i (unat num_keys) keys_buf error_code) (\<lambda>error_code.
     andthen (config_flag i error_code) (\<lambda>error_code.
     andthen (on_ss i (structured_stream_write_uint8 error_code)) (\<lambda>_.
     on_ss i structured_stream_flush)))))"

section \<open>Looking up keys\<close>

definition strncmp :: "byte list \<Rightarrow> byte list \<Rightarrow> nat \<Rightarrow> int" where
  "strncmp a b n = strcmp (take n a) (take n b)"

text \<open>
  The variables of the loop over the labels. \<^verbatim>\<open>index_num\<close> is -1 while no label with an index has been seen, and
  \<^verbatim>\<open>index_val\<close> is a pointer into \<^verbatim>\<open>label_matches\<close>, that is a position there, or null.
\<close>

record query_vars =
  index_num :: int
  index_val :: "nat option"
  label_matches :: "byte list"

fun find_index :: "byte list \<Rightarrow> byte list list \<Rightarrow> nat \<Rightarrow> nat option" where
  "find_index label [] j = None"
| "find_index label (ix # ixs) j =
     (if strlen ix = length label \<and> strncmp label ix (length label) = 0 then Some j else find_index label ixs (j + 1))"

definition choose_index :: "byte list list \<Rightarrow> byte list \<Rightarrow> query_vars \<Rightarrow> query_vars" where
  "choose_index inds label v =
     (if index_num v = - 1 \<and> length label = 8 \<and> strncmp label name_label 8 = 0 then v\<lparr>index_num := int NAME_INDEX\<rparr>
      else let j = (if index_num v \<ge> int NUM_SPECIAL_INDICES then nat (index_num v) - NUM_SPECIAL_INDICES + 1 else 0)
        in case find_index label (drop j inds) j of
          None \<Rightarrow> v
        | Some j \<Rightarrow> v\<lparr>index_num := int (j + NUM_SPECIAL_INDICES), index_val := None\<rparr>)"

definition add_match :: "byte list \<Rightarrow> query_vars \<Rightarrow> (server, query_vars) prog" where
  "add_match s v = (if length (label_matches v) + length s + 1 \<ge> MAX_LABEL_MATCHES then fail 1
     else ret (v\<lparr>label_matches := label_matches v @ s @ [0]\<rparr>))"

primrec read_labels :: "nat \<Rightarrow> nat \<Rightarrow> query_vars \<Rightarrow> (server, query_vars) prog" where
  "read_labels i 0 v = ret v"
| "read_labels i (Suc n) v =
     andthen (on_ss i structured_stream_read_uint16_prefixed_bytes_inplace) (\<lambda>label.
     andthen (gets (\<lambda>sv. choose_index (indices (srv_storage sv)) label v)) (\<lambda>v.
     andthen (add_match label v) (\<lambda>v.
     andthen (on_ss i structured_stream_read_uint16_prefixed_bytes_inplace) (\<lambda>val.
     andthen (add_match val (case index_val v of None \<Rightarrow> v\<lparr>index_val := Some (length (label_matches v))\<rparr> | Some _ \<Rightarrow> v)) (\<lambda>v.
     read_labels i n v)))))"

text \<open>The full scan or the indexed lookup: the code, the keys and the last identifier.\<close>

definition lookup_query :: "query_vars \<Rightarrow> int \<Rightarrow> nat \<Rightarrow> bool \<Rightarrow> u64 \<Rightarrow> u64 \<Rightarrow> u64 \<Rightarrow> (server, int \<times> byte list \<times> u64) prog" where
  "lookup_query v index num_labels allow_full_scan last_internal_id offset limit sv =
     (if index = - 1 then
        if allow_full_scan then do {
          r \<leftarrow> storage_lookup_without_index (srv_storage sv) (label_matches v) num_labels MAX_LFM_RESULTS last_internal_id (unat limit);
          Some (Inr r, sv) }
        else Some (Inr (ERR_BAD_INDEX, [], last_internal_id), sv)
      else do {
        pos \<leftarrow> index_val v;
        (res, results) \<leftarrow> storage_lookup (srv_storage sv) (nat index) (drop pos (label_matches v)) (label_matches v) num_labels
          MAX_LFM_RESULTS (unat offset) (unat limit);
        Some (Inr (res, results, last_internal_id), sv) })"

definition query_error :: "int \<Rightarrow> u8" where
  "query_error res = (if res = 0 then 0 else if res = ERR_BUF_TOO_SMALL then STATUS_TOO_MANY_METRICS
     else if res = ERR_BAD_INDEX then STATUS_MISSING_INDEX else STATUS_UNKNOWN_ERROR)"

definition handle_conn_query_lfms :: "conn_env \<Rightarrow> nat \<Rightarrow> (server, unit) prog" where
  "handle_conn_query_lfms ce i =
     andthen (on_ss i structured_stream_read_uint8) (\<lambda>flags.
     andthen (on_ss i structured_stream_read_uint8) (\<lambda>num_labels.
     andthen (read_labels i (unat num_labels) \<lparr>index_num = - 1, index_val = None, label_matches = []\<rparr>) (\<lambda>v.
     andthen (on_ss i structured_stream_read_uint64) (\<lambda>offset.
     andthen (on_ss i structured_stream_read_uint64) (\<lambda>limit.
     let force_full_scan = (flags AND 2 \<noteq> 0); allow_full_scan = (flags AND 1 \<noteq> 0 \<or> force_full_scan);
         index = (if force_full_scan then - 1 else index_num v); last_internal_id = (if force_full_scan then offset else 0)
     in if \<not> force_full_scan \<and> index_num v = - 1 \<and> offset > 0 then fail 1
     else
       andthen (lookup_query v index (unat num_labels) allow_full_scan last_internal_id offset limit) (\<lambda>(res, results, last_internal_id).
       andthen (if res \<noteq> 0 then ret () else on_ss i (structured_stream_write_bytes results)) (\<lambda>_.
       andthen (on_ss i (structured_stream_write_uint16_prefixed_string [0])) (\<lambda>_.
       andthen (if allow_full_scan then on_ss i (structured_stream_write_uint64 last_internal_id) else ret ()) (\<lambda>_.
       andthen (config_flag i (query_error res)) (\<lambda>error_code.
       andthen (on_ss i (structured_stream_write_uint8 error_code)) (\<lambda>_.
       on_ss i structured_stream_flush)))))))))))"

section \<open>The other requests\<close>

definition handle_conn_replication_data :: "nat \<Rightarrow> (server, unit) prog" where
  "handle_conn_replication_data i = fail 1"

definition handle_conn_set_clock :: "nat \<Rightarrow> (server, unit) prog" where
  "handle_conn_set_clock i = andthen (on_ss i structured_stream_read_int64) (\<lambda>_. fail 1)"

definition handle_conn_test_hook :: "nat \<Rightarrow> (server, unit) prog" where
  "handle_conn_test_hook i =
     andthen (on_ss i structured_stream_read_uint64) (\<lambda>_.
     andthen (on_ss i (structured_stream_write_uint8 STATUS_UNAUTHORIZED)) (\<lambda>_.
     on_ss i structured_stream_flush))"

definition handle_conn_get_status :: "nat \<Rightarrow> (server, unit) prog" where
  "handle_conn_get_status i =
     andthen (on_ss i (structured_stream_write_uint8 STATUS_OK)) (\<lambda>_. on_ss i structured_stream_flush)"

text \<open>The configuration is never a null pointer once the storage is initialised.\<close>

definition handle_conn_get_cluster_config :: "nat \<Rightarrow> (server, unit) prog" where
  "handle_conn_get_cluster_config i =
     andthen (gets srv_config) (\<lambda>c.
     andthen (on_ss i (structured_stream_write_bytes (take SHA_DIGEST_LENGTH (cc_hash c)))) (\<lambda>_.
     andthen (on_ss i (structured_stream_write_uint16_prefixed_string (cc_config c))) (\<lambda>_.
     andthen (on_ss i (structured_stream_write_uint8 STATUS_OK)) (\<lambda>_.
     on_ss i structured_stream_flush))))"

definition handle_conn_set_cluster_config :: "conn_env \<Rightarrow> nat \<Rightarrow> (server, unit) prog" where
  "handle_conn_set_cluster_config ce i =
     andthen (on_ss i structured_stream_read_uint16_prefixed_bytes_inplace) (\<lambda>s.
     andthen (modify (\<lambda>sv. sv\<lparr>srv_config := save_cluster_config_to_disk (ce_sha1 ce) ((srv_config sv)\<lparr>cc_config := s @ [0]\<rparr>),
       conn_pool := map (\<lambda>d. d\<lparr>has_valid_config := False\<rparr>) (conn_pool sv)\<rparr>)) (\<lambda>_.
     andthen (on_ss i (structured_stream_write_uint8 STATUS_OK)) (\<lambda>_.
     on_ss i structured_stream_flush)))"

definition handle_conn_register_client_cluster_config :: "nat \<Rightarrow> (server, unit) prog" where
  "handle_conn_register_client_cluster_config i =
     andthen (on_ss i (structured_stream_read_bytes_inplace SHA_DIGEST_LENGTH)) (\<lambda>s.
     andthen (gets (\<lambda>sv. memcmp s (cc_hash (srv_config sv)) SHA_DIGEST_LENGTH = 0)) (\<lambda>valid.
     andthen (modify (\<lambda>sv. put_conn i ((get_conn i sv)\<lparr>has_valid_config := valid\<rparr>) sv)) (\<lambda>_.
     andthen (on_ss i (structured_stream_write_uint8 (if valid then 0 else CLUSTER_CONFIG_OUT_OF_DATE))) (\<lambda>_.
     on_ss i structured_stream_flush))))"

definition handle_conn_get_version :: "conn_env \<Rightarrow> nat \<Rightarrow> (server, unit) prog" where
  "handle_conn_get_version ce i =
     andthen (on_ss i (structured_stream_write_uint16_prefixed_string (ce_git_commit ce))) (\<lambda>_.
     andthen (on_ss i (structured_stream_write_uint16_prefixed_string (ce_build_time ce))) (\<lambda>_.
     andthen (on_ss i (structured_stream_write_uint8 STATUS_OK)) (\<lambda>_.
     on_ss i structured_stream_flush)))"

section \<open>Connections\<close>

definition MENOETIUS_RPC_MAGIC_HEADER :: u64 where "MENOETIUS_RPC_MAGIC_HEADER = 1547675033"
definition RPC_PUT_DATA :: u8 where "RPC_PUT_DATA = 3"
definition RPC_GET_DATA :: u8 where "RPC_GET_DATA = 4"
definition RPC_REPLICATION_DATA :: u8 where "RPC_REPLICATION_DATA = 7"
definition RPC_QUERY_LFMS :: u8 where "RPC_QUERY_LFMS = 8"
definition RPC_GET_STATUS :: u8 where "RPC_GET_STATUS = 9"
definition RPC_GET_CLUSTER_CONFIG :: u8 where "RPC_GET_CLUSTER_CONFIG = 10"
definition RPC_SET_CLUSTER_CONFIG :: u8 where "RPC_SET_CLUSTER_CONFIG = 11"
definition RPC_REGISTER_CLIENT_CLUSTER_CONFIG :: u8 where "RPC_REGISTER_CLIENT_CLUSTER_CONFIG = 12"
definition RPC_GET_VERSION :: u8 where "RPC_GET_VERSION = 13"
definition RPC_SET_CLOCK :: u8 where "RPC_SET_CLOCK = 98"
definition RPC_TEST_HOOK :: u8 where "RPC_TEST_HOOK = 99"

lemmas rpc_defs = RPC_PUT_DATA_def RPC_GET_DATA_def RPC_REPLICATION_DATA_def RPC_QUERY_LFMS_def RPC_GET_STATUS_def
  RPC_GET_CLUSTER_CONFIG_def RPC_SET_CLUSTER_CONFIG_def RPC_REGISTER_CLIENT_CLUSTER_CONFIG_def RPC_GET_VERSION_def
  RPC_SET_CLOCK_def RPC_TEST_HOOK_def

definition handle_conn_rpc_entry :: "nat \<Rightarrow> (server, unit) prog" where
  "handle_conn_rpc_entry i =
     andthen (on_ss i structured_stream_read_uint64) (\<lambda>magic_header.
     if magic_header \<noteq> MENOETIUS_RPC_MAGIC_HEADER then fail 1 else ret ())"

definition dispatch :: "conn_env \<Rightarrow> nat \<Rightarrow> u8 \<Rightarrow> (server, unit) prog" where
  "dispatch ce i rpc_code =
     (if rpc_code = RPC_PUT_DATA then handle_conn_put_data ce i
      else if rpc_code = RPC_GET_DATA then handle_conn_get_data ce i
      else if rpc_code = RPC_REPLICATION_DATA then handle_conn_replication_data i
      else if rpc_code = RPC_QUERY_LFMS then handle_conn_query_lfms ce i
      else if rpc_code = RPC_SET_CLOCK then handle_conn_set_clock i
      else if rpc_code = RPC_TEST_HOOK then handle_conn_test_hook i
      else if rpc_code = RPC_GET_STATUS then handle_conn_get_status i
      else if rpc_code = RPC_GET_CLUSTER_CONFIG then handle_conn_get_cluster_config i
      else if rpc_code = RPC_SET_CLUSTER_CONFIG then handle_conn_set_cluster_config ce i
      else if rpc_code = RPC_GET_VERSION then handle_conn_get_version ce i
      else if rpc_code = RPC_REGISTER_CLIENT_CLUSTER_CONFIG then handle_conn_register_client_cluster_config i
      else fail (- 1))"

definition handle_conn_rpc_code :: "conn_env \<Rightarrow> nat \<Rightarrow> (server, unit) prog" where
  "handle_conn_rpc_code ce i = andthen (on_error (\<lambda>_. 1) (on_ss i structured_stream_read_uint8)) (dispatch ce i)"

text \<open>
  \<^verbatim>\<open>conn_handler_thread_run\<close> for one connection: the requests until one fails (at the latest at the end of the
  connection), then the connection is closed and its slot released.
\<close>

partial_function (option) rpc_loop :: "conn_env \<Rightarrow> nat \<Rightarrow> (server, unit) prog" where
  "rpc_loop ce i sv = do {
     (r, sv) \<leftarrow> handle_conn_rpc_code ce i sv;
     case r of Inl res \<Rightarrow> Some (Inl res, sv) | Inr _ \<Rightarrow> rpc_loop ce i sv }"

declare rpc_loop.simps [code]

definition conn_handler_thread_run :: "conn_env \<Rightarrow> nat \<Rightarrow> (server, unit) prog" where
  "conn_handler_thread_run ce i sv = do {
     (_, sv) \<leftarrow> andthen (handle_conn_rpc_entry i) (\<lambda>_. rpc_loop ce i) sv;
     close_conn i sv }"

end
