(* ===== verification/Client.thy ===== *)
theory Client
  imports Conn_Handler
begin

unbundle bit_operations_syntax

text \<open>
  The client library, \<^verbatim>\<open>src/client/client.c\<close>. What happens when the client connects is a parameter: \<open>dial\<close> is
  the new connection, or \<open>None\<close> if the host is unknown or refuses. A function returns \<open>Inl\<close> with the code of a
  call that failed, or \<open>Inr\<close> with what it returns otherwise, for example the status in the answer of the server.
\<close>

section \<open>State\<close>

record client_env =
  dial :: "socket option"
  dial_junk :: "nat \<Rightarrow> byte"

text \<open>
  \<open>client_ss\<close> is the stream while \<^verbatim>\<open>fd\<close> is not negative. \<^verbatim>\<open>queued_metrics_max_size\<close> is the length of the
  buffer.
\<close>

record menoetius_client =
  read_buf_size :: nat
  write_buf_size :: nat
  client_ss :: "structured_stream option"
  queued_metrics :: mem
  queued_metrics_len :: nat
  num_queued_metrics :: nat
  num_queued_metrics_flush :: nat

definition menoetius_client_init :: "client_env \<Rightarrow> menoetius_client" where
  "menoetius_client_init ve = \<lparr>read_buf_size = 1024, write_buf_size = 1024, client_ss = None, queued_metrics = fresh_mem (dial_junk ve) 16384,
     queued_metrics_len = 0, num_queued_metrics = 0, num_queued_metrics_flush = 1000\<rparr>"

definition menoetius_client_shutdown :: "menoetius_client \<Rightarrow> menoetius_client" where
  "menoetius_client_shutdown c = c\<lparr>client_ss := None\<rparr>"

text \<open>A call on the stream, which must be there; a failing call may close the connection.\<close>

definition on_stream :: "(structured_stream, 'a) prog \<Rightarrow> (menoetius_client, 'a) prog" where
  "on_stream p c = (case client_ss c of None \<Rightarrow> None
     | Some ss \<Rightarrow> (case p ss of None \<Rightarrow> None | Some (r, ss) \<Rightarrow> Some (r, c\<lparr>client_ss := Some ss\<rparr>)))"

definition or_shutdown :: "(menoetius_client, 'a) prog \<Rightarrow> (menoetius_client, 'a) prog" where
  "or_shutdown p c = (case p c of Some (Inl res, c) \<Rightarrow> Some (Inl res, menoetius_client_shutdown c) | r \<Rightarrow> r)"

abbreviation try_stream :: "(structured_stream, 'a) prog \<Rightarrow> (menoetius_client, 'a) prog" where
  "try_stream p \<equiv> or_shutdown (on_stream p)"

definition menoetius_client_ensure_connected :: "client_env \<Rightarrow> (menoetius_client, unit) prog" where
  "menoetius_client_ensure_connected ve c =
     (case client_ss c of Some _ \<Rightarrow> Some (Inr (), c)
      | None \<Rightarrow> (case dial ve of None \<Rightarrow> Some (Inl 1, c)
         | Some s \<Rightarrow> try_stream (structured_stream_write_uint64 1547675033)
             (c\<lparr>client_ss := Some (structured_stream_new (dial_junk ve) s (read_buf_size c) (write_buf_size c))\<rparr>)))"

text \<open>The status in an answer, without the flag for the configuration.\<close>

definition ignore_config_flag :: "u8 \<Rightarrow> u8" where
  "ignore_config_flag server_response = server_response AND NOT CLUSTER_CONFIG_OUT_OF_DATE"

section \<open>Points\<close>

definition menoetius_client_send_sync :: "client_env \<Rightarrow> byte list \<Rightarrow> nat \<Rightarrow> (i64 \<times> u64) list \<Rightarrow> (menoetius_client, u8) prog" where
  "menoetius_client_send_sync ve k klen pts =
     andthen (menoetius_client_ensure_connected ve) (\<lambda>_.
     andthen (try_stream (structured_stream_write_uint8 RPC_PUT_DATA)) (\<lambda>_.
     andthen (try_stream (structured_stream_write_uint16_prefixed_bytes k (of_nat klen))) (\<lambda>_.
     andthen (try_stream (structured_stream_write_uint32 (of_nat (length pts)))) (\<lambda>_.
     andthen (for_list (\<lambda>q. andthen (on_stream (structured_stream_write_uint64 (fst q))) (\<lambda>_. on_stream (structured_stream_write_double (snd q)))) pts) (\<lambda>_.
     andthen (on_stream (structured_stream_write_uint16_prefixed_bytes [] 0)) (\<lambda>_.
     andthen (try_stream structured_stream_flush) (\<lambda>_.
     andthen (on_stream structured_stream_read_uint8) (\<lambda>server_response.
     ret (ignore_config_flag server_response)))))))))"

text \<open>
  \<^verbatim>\<open>grow_size\<close> is the loop of \<^verbatim>\<open>menoetius_client_grow_queued_metrics\<close>. A size of zero would never grow; the
  buffer starts with 16384 bytes.
\<close>

function grow_size :: "nat \<Rightarrow> nat \<Rightarrow> nat \<Rightarrow> nat" where
  "grow_size new_size len min_growth = (if 0 < new_size \<and> new_size < len + min_growth then grow_size (new_size * 2) len min_growth else new_size)"
  by pat_completeness auto

termination
  by (relation "measure (\<lambda>(new_size, len, min_growth). len + min_growth - new_size)") auto

declare grow_size.simps [simp del]

definition menoetius_client_grow_queued_metrics :: "client_env \<Rightarrow> nat \<Rightarrow> menoetius_client \<Rightarrow> menoetius_client" where
  "menoetius_client_grow_queued_metrics ve min_growth c =
     (let new_size = grow_size (length (queued_metrics c)) (queued_metrics_len c) min_growth
      in c\<lparr>queued_metrics := take new_size (queued_metrics c) @ fresh_mem (dial_junk ve) (new_size - length (queued_metrics c))\<rparr>)"

text \<open>The chunks in which the queue is written.\<close>

function write_chunks :: "byte list \<Rightarrow> (menoetius_client, unit) prog" where
  "write_chunks s = (if s = [] then ret () else andthen (try_stream (structured_stream_write_bytes (take 32768 s))) (\<lambda>_. write_chunks (drop 32768 s)))"
  by pat_completeness auto

termination
  by (relation "measure length") auto

declare write_chunks.simps [simp del]

definition menoetius_client_flush :: "client_env \<Rightarrow> (menoetius_client, u8) prog" where
  "menoetius_client_flush ve =
     andthen (menoetius_client_ensure_connected ve) (\<lambda>_.
     andthen (try_stream (structured_stream_write_uint8 RPC_PUT_DATA)) (\<lambda>_.
     andthen (gets (\<lambda>c. take (queued_metrics_len c) (queued_metrics c))) (\<lambda>s.
     andthen (write_chunks s) (\<lambda>_.
     andthen (on_stream (structured_stream_write_uint16_prefixed_bytes [] 0)) (\<lambda>_.
     andthen (try_stream structured_stream_flush) (\<lambda>_.
     andthen (on_stream structured_stream_read_uint8) (\<lambda>server_response.
     let server_response = ignore_config_flag server_response in
     andthen (if server_response = 0 then modify (\<lambda>c. c\<lparr>queued_metrics_len := 0, num_queued_metrics := 0\<rparr>) else ret ()) (\<lambda>_.
     ret server_response))))))))"

text \<open>
  A message is put into the queue at once. Queues of more than \<open>2 ^ 30\<close> bytes, for which the doubled size of the
  buffer may not fit an \<^verbatim>\<open>int\<close>, are outside the model, and so is a write behind the end of the buffer: the result
  is \<open>None\<close>. Of \<^verbatim>\<open>my_realloc\<close> the model has what it leaves in the new buffer.
\<close>

definition queue_message :: "client_env \<Rightarrow> byte list \<Rightarrow> nat \<Rightarrow> (i64 \<times> u64) list \<Rightarrow> menoetius_client \<Rightarrow> menoetius_client option" where
  "queue_message ve k klen pts c = do {
     let n = 2 + klen + 4 + 16 * length pts;
     _ \<leftarrow> c_assert (queued_metrics_len c + n \<le> 2 ^ 30);
     let c = menoetius_client_grow_queued_metrics ve n c;
     buf \<leftarrow> mem_write (queued_metrics c) (queued_metrics_len c)
       (le_bytes (of_nat klen :: u16) @ take klen k @ le_bytes (of_nat (length pts) :: u32) @ concat (map (\<lambda>q. le_bytes (fst q) @ le_bytes (snd q)) pts));
     Some (c\<lparr>queued_metrics := buf, queued_metrics_len := queued_metrics_len c + n, num_queued_metrics := num_queued_metrics c + 1\<rparr>) }"

definition menoetius_client_send :: "client_env \<Rightarrow> byte list \<Rightarrow> nat \<Rightarrow> (i64 \<times> u64) list \<Rightarrow> (menoetius_client, u8) prog" where
  "menoetius_client_send ve k klen pts c =
     (case queue_message ve k klen pts c of None \<Rightarrow> None
      | Some c \<Rightarrow> if num_queued_metrics c \<ge> num_queued_metrics_flush c then menoetius_client_flush ve c else Some (Inr 0, c))"

text \<open>The number of points in the answer is compared with the room of the caller.\<close>

definition menoetius_client_get :: "client_env \<Rightarrow> byte list \<Rightarrow> nat \<Rightarrow> nat \<Rightarrow> (menoetius_client, u8 \<times> (i64 \<times> u64) list) prog" where
  "menoetius_client_get ve k klen max_num_pts =
     andthen (menoetius_client_ensure_connected ve) (\<lambda>_.
     andthen (try_stream (structured_stream_write_uint8 RPC_GET_DATA)) (\<lambda>_.
     andthen (try_stream (structured_stream_write_uint16 1)) (\<lambda>_.
     andthen (try_stream (structured_stream_write_uint16_prefixed_bytes k (of_nat klen))) (\<lambda>_.
     andthen (try_stream structured_stream_flush) (\<lambda>_.
     andthen (try_stream structured_stream_read_uint32) (\<lambda>num_pts_server.
     if unat num_pts_server > max_num_pts then or_shutdown (fail 1)
     else
       andthen (for_list (\<lambda>_. andthen (try_stream structured_stream_read_int64) (\<lambda>t. andthen (try_stream structured_stream_read_double) (\<lambda>y. ret (t, y))))
         [0..<unat num_pts_server]) (\<lambda>pts.
       andthen (try_stream structured_stream_read_uint8) (\<lambda>server_response.
       ret (ignore_config_flag server_response, pts)))))))))"

section \<open>Queries\<close>

definition MAX_BINARY_LFM_SIZE :: nat where "MAX_BINARY_LFM_SIZE = 1024"

text \<open>The loop over the results; \<open>room\<close> is how many of them the caller can still take.\<close>

primrec read_results :: "nat \<Rightarrow> (menoetius_client, byte list list) prog" where
  "read_results 0 =
     andthen (try_stream structured_stream_read_uint16_prefixed_bytes_inplace) (\<lambda>raw_lfm.
     if raw_lfm = [] then ret [] else fail (- 1))"
| "read_results (Suc room) =
     andthen (try_stream structured_stream_read_uint16_prefixed_bytes_inplace) (\<lambda>raw_lfm.
     if raw_lfm = [] then ret []
     else if length raw_lfm \<ge> MAX_BINARY_LFM_SIZE then fail (- 1)
     else andthen (read_results room) (\<lambda>results. ret (raw_lfm # results)))"

definition menoetius_client_query :: "client_env \<Rightarrow> (byte list \<times> byte list) list \<Rightarrow> bool \<Rightarrow> nat \<Rightarrow> (menoetius_client, u8 \<times> byte list list) prog" where
  "menoetius_client_query ve matchers allow_full_scan max_results =
     andthen (menoetius_client_ensure_connected ve) (\<lambda>_.
     andthen (try_stream (structured_stream_write_uint8 RPC_QUERY_LFMS)) (\<lambda>_.
     andthen (try_stream (structured_stream_write_uint8 (if allow_full_scan then 1 else 0))) (\<lambda>_.
     andthen (try_stream (structured_stream_write_uint8 (of_nat (length matchers)))) (\<lambda>_.
     andthen (for_list (\<lambda>m. andthen (try_stream (structured_stream_write_uint16_prefixed_string (fst m)))
       (\<lambda>_. try_stream (structured_stream_write_uint16_prefixed_string (snd m)))) matchers) (\<lambda>_.
     andthen (try_stream (structured_stream_write_uint64 0)) (\<lambda>_.
     andthen (try_stream (structured_stream_write_uint64 1000)) (\<lambda>_.
     andthen (try_stream structured_stream_flush) (\<lambda>_.
     andthen (read_results max_results) (\<lambda>results.
     andthen (if allow_full_scan then andthen (try_stream structured_stream_read_uint64) (\<lambda>_. ret ()) else ret ()) (\<lambda>_.
     andthen (try_stream structured_stream_read_uint8) (\<lambda>server_response.
     ret (ignore_config_flag server_response, results))))))))))))"

section \<open>The other requests\<close>

definition menoetius_client_get_status :: "client_env \<Rightarrow> (menoetius_client, u8) prog" where
  "menoetius_client_get_status ve =
     andthen (menoetius_client_ensure_connected ve) (\<lambda>_.
     andthen (try_stream (structured_stream_write_uint8 RPC_GET_STATUS)) (\<lambda>_.
     andthen (try_stream structured_stream_flush) (\<lambda>_.
     try_stream structured_stream_read_uint8)))"

definition HASH_LENGTH :: nat where "HASH_LENGTH = 20"

text \<open>
  The result is what the function leaves in the array of the caller, which has \<open>max_config_size\<close> bytes: the text
  and a zero behind it. A zero behind the end of the array is an access outside it.
\<close>

definition menoetius_client_get_config :: "client_env \<Rightarrow> nat \<Rightarrow> (menoetius_client, byte list) prog" where
  "menoetius_client_get_config ve max_config_size =
     andthen (menoetius_client_ensure_connected ve) (\<lambda>_.
     andthen (try_stream (structured_stream_write_uint8 RPC_GET_CLUSTER_CONFIG)) (\<lambda>_.
     andthen (try_stream structured_stream_flush) (\<lambda>_.
     andthen (try_stream (structured_stream_read_bytes_inplace HASH_LENGTH)) (\<lambda>_.
     andthen (try_stream structured_stream_read_uint16_prefixed_bytes_inplace) (\<lambda>cluster_config_tmp.
     if length cluster_config_tmp > max_config_size then fail 1
     else andthen (assertion (\<lambda>_. length cluster_config_tmp + 1 \<le> max_config_size)) (\<lambda>_.
     ret (cluster_config_tmp @ [0])))))))"

definition menoetius_client_set_config :: "client_env \<Rightarrow> byte list \<Rightarrow> (menoetius_client, unit) prog" where
  "menoetius_client_set_config ve cluster_config =
     andthen (menoetius_client_ensure_connected ve) (\<lambda>_.
     andthen (try_stream (structured_stream_write_uint8 RPC_SET_CLUSTER_CONFIG)) (\<lambda>_.
     andthen (try_stream (structured_stream_write_uint16_prefixed_string cluster_config)) (\<lambda>_.
     andthen (try_stream structured_stream_flush) (\<lambda>_.
     andthen (try_stream structured_stream_read_uint8) (\<lambda>server_status.
     if server_status \<noteq> STATUS_OK then or_shutdown (fail 1) else ret ())))))"

definition menoetius_client_test_hook :: "client_env \<Rightarrow> u64 \<Rightarrow> (menoetius_client, u8) prog" where
  "menoetius_client_test_hook ve flags =
     andthen (menoetius_client_ensure_connected ve) (\<lambda>_.
     andthen (try_stream (structured_stream_write_uint8 RPC_TEST_HOOK)) (\<lambda>_.
     andthen (try_stream (structured_stream_write_uint64 flags)) (\<lambda>_.
     andthen (try_stream structured_stream_flush) (\<lambda>_.
     try_stream structured_stream_read_uint8))))"

end
