(* ===== verification/Log.thy ===== *)
theory Log
  imports Prelude
begin

text \<open>
  The log, \<^verbatim>\<open>src/common/log.c\<close>: a line is made of fields, which the format names with the types of their values, and a
  message. The buffer is a list of bytes; a write outside it, a read behind the end of a string, a missing argument, the use
  of a variable that was not set and a failed assertion are \<open>None\<close>.

  A string that is a literal of the code (a format) is the list of its bytes without the zero at its end; a string that
  is an argument is memory, in which the zero is looked for. How \<^verbatim>\<open>printf\<close> shows a \<^verbatim>\<open>double\<close> and an address are parameters.
\<close>

definition bytes :: "string \<Rightarrow> byte list" where
  "bytes s = map of_char s"

definition LOG_BUF_SIZE :: nat where "LOG_BUF_SIZE = 1024"
definition LOG_OK :: int where "LOG_OK = 0"
definition LOG_ERROR_UNEXPECTED_CHAR :: int where "LOG_ERROR_UNEXPECTED_CHAR = 1"
definition LOG_ERROR_OUT_OF_SPACE :: int where "LOG_ERROR_OUT_OF_SPACE = 2"

lemmas log_defs = LOG_OK_def LOG_ERROR_UNEXPECTED_CHAR_def LOG_ERROR_OUT_OF_SPACE_def

section \<open>Strings\<close>

fun c_strlen :: "mem \<Rightarrow> nat option" where
  "c_strlen [] = None"
| "c_strlen (c # s) = (if c = 0 then Some 0 else map_option Suc (c_strlen s))"

lemma strlen_app: "0 \<notin> set s \<Longrightarrow> c_strlen (s @ 0 # x) = Some (length s)"
  by (induction s) auto

fun needs_quotes :: "mem \<Rightarrow> nat \<Rightarrow> bool option" where
  "needs_quotes s 0 = Some False"
| "needs_quotes [] (Suc n) = None"
| "needs_quotes (c # s) (Suc n) =
     (if c = 0 then Some False else if c = 32 \<or> c = 34 then Some True else needs_quotes s n)"

text \<open>The second byte of the escapes of backslash, tab, newline and quote (which is \<^verbatim>\<open>n\<close> for a quote, too).\<close>

definition short_escape :: "bool \<Rightarrow> byte \<Rightarrow> byte option" where
  "short_escape dq c = (if c = 92 then Some 92 else if c = 9 then Some 116 else if c = 10 then Some 110
     else if c = 34 \<and> dq then Some 110 else None)"

definition hex_digit :: "nat \<Rightarrow> byte" where
  "hex_digit d = of_nat (if d < 10 then 48 + d else 55 + d)"

definition hex2 :: "byte \<Rightarrow> byte list" where
  "hex2 c = [hex_digit (unat c div 16), hex_digit (unat c mod 16)]"

text \<open>
  The loop of \<^verbatim>\<open>escape_binary\<close>, with the position in the buffer and the number of bytes left. After a short escape
  the code does not move the position.
\<close>

fun escape_binary :: "mem \<Rightarrow> nat \<Rightarrow> int \<Rightarrow> mem \<Rightarrow> nat \<Rightarrow> bool \<Rightarrow> (int \<times> nat \<times> mem) option" where
  "escape_binary buf pos buf_size s 0 dq = Some (LOG_OK, pos, buf)"
| "escape_binary buf pos buf_size [] (Suc n) dq = None"
| "escape_binary buf pos buf_size (c # s) (Suc n) dq =
     (case short_escape dq c of
        Some e \<Rightarrow>
          if buf_size \<le> 1 then Some (LOG_ERROR_OUT_OF_SPACE, pos, buf)
          else do { buf \<leftarrow> mem_write buf pos [92, e]; escape_binary buf pos buf_size s n dq }
      | None \<Rightarrow>
          if 32 \<le> c \<and> c \<le> 126 then do {
            buf \<leftarrow> mem_write buf pos [c];
            if buf_size - 1 = 0 then Some (LOG_ERROR_OUT_OF_SPACE, pos + 1, buf)
            else escape_binary buf (pos + 1) (buf_size - 1) s n dq }
          else if buf_size \<le> 4 then Some (LOG_ERROR_OUT_OF_SPACE, pos, buf)
          else do {
            buf \<leftarrow> mem_write buf pos ([92, 120] @ hex2 c @ [0]);
            escape_binary buf (pos + 4) (buf_size - 4) s n dq })"

text \<open>\<open>num_written\<close> is the variable of the caller, which is not changed when there is no room at all.\<close>

definition append_quoted_string_n :: "mem \<Rightarrow> nat \<Rightarrow> int \<Rightarrow> mem \<Rightarrow> nat \<Rightarrow> nat option \<Rightarrow> (int \<times> nat option \<times> mem) option" where
  "append_quoted_string_n buf pos buf_size s n num_written =
     (if buf_size \<le> 0 then Some (0, num_written, buf)
      else do {
        q \<leftarrow> needs_quotes s n;
        if \<not> q then do {
          let n = (if int n > buf_size then nat buf_size else n);
          (err, p, buf) \<leftarrow> escape_binary buf pos buf_size s n False;
          Some (err, Some (p - pos), buf) }
        else do {
          buf \<leftarrow> mem_write buf pos [34];
          (err, p, buf) \<leftarrow> escape_binary buf (pos + 1) (buf_size - 1) s n True;
          let m = p - (pos + 1);
          _ \<leftarrow> c_assert (buf_size - 1 \<ge> int m);
          if buf_size - 1 - int m = 0 \<or> err = LOG_ERROR_OUT_OF_SPACE then Some (LOG_ERROR_OUT_OF_SPACE, Some (p - pos), buf)
          else do { buf \<leftarrow> mem_write buf p [34]; Some (0, Some (p + 1 - pos), buf) } } })"

definition append_quoted_string :: "mem \<Rightarrow> nat \<Rightarrow> int \<Rightarrow> mem \<Rightarrow> nat option \<Rightarrow> (int \<times> nat option \<times> mem) option" where
  "append_quoted_string buf pos buf_size s num_written = do {
     n \<leftarrow> c_strlen s;
     append_quoted_string_n buf pos buf_size s n num_written }"

section \<open>Formats\<close>

definition tokenize_key :: "byte list \<Rightarrow> int + byte list \<times> byte list" where
  "tokenize_key s =
     (let start = dropWhile (\<lambda>c. c = 32 \<or> c = 9) s;
          key = takeWhile (\<lambda>c. c \<noteq> 32 \<and> c \<noteq> 61) start
      in case dropWhile (\<lambda>c. c \<noteq> 32 \<and> c \<noteq> 61) start of
           [] \<Rightarrow> Inl LOG_ERROR_UNEXPECTED_CHAR
         | c # r \<Rightarrow> if c = 32 \<or> key = [] then Inl LOG_ERROR_UNEXPECTED_CHAR else Inr (key, c # r))"

definition tokenize_value_fmt :: "byte list \<Rightarrow> int + byte list \<times> byte list" where
  "tokenize_value_fmt s = (let v = takeWhile (\<lambda>c. c \<noteq> 32) s in
     if v = [] then Inl LOG_ERROR_UNEXPECTED_CHAR else Inr (v, dropWhile (\<lambda>c. c \<noteq> 32) s))"

lemma tokenize_key_length: "tokenize_key p = Inr (key, q) \<Longrightarrow> q \<noteq> [] \<and> length q < length p"
proof -
  assume a: "tokenize_key p = Inr (key, q)"
  define s where "s = dropWhile (\<lambda>c. c = 32 \<or> c = 9) p"
  define k where "k = takeWhile (\<lambda>c. c \<noteq> 32 \<and> c \<noteq> 61) s"
  obtain c r where r: "dropWhile (\<lambda>c. c \<noteq> 32 \<and> c \<noteq> 61) s = c # r"
    using a unfolding tokenize_key_def Let_def s_def [symmetric] by (cases "dropWhile (\<lambda>c. c \<noteq> 32 \<and> c \<noteq> 61) s") simp_all
  have q: "q = c # r" "k \<noteq> []"
    using a r unfolding tokenize_key_def Let_def s_def [symmetric] k_def [symmetric] by (simp_all split: if_splits)
  have "length s = length k + length (c # r)" unfolding k_def r [symmetric] by (metis length_append takeWhile_dropWhile_id)
  moreover have "length s \<le> length p" unfolding s_def by (rule length_dropWhile_le)
  ultimately show ?thesis using q by (cases k) auto
qed

lemma tokenize_value_length: "tokenize_value_fmt p = Inr (v, q) \<Longrightarrow> length q \<le> length p"
  using length_dropWhile_le by (auto simp: tokenize_value_fmt_def Let_def split: if_splits)

section \<open>Lines\<close>

text \<open>The arguments behind the format. A context is the list of its strings, each in an array of \<^verbatim>\<open>LOG_BUF_SIZE\<close> bytes.\<close>

datatype log_arg = Arg_s "mem option" | Arg_f u64 | Arg_d u32 | Arg_p u64 | Arg_ctx "mem list"

record log_env =
  fmt_f :: "u64 \<Rightarrow> byte list"
  fmt_p :: "u64 \<Rightarrow> byte list"
  log_junk :: mem
  log_pid :: u32
  log_file :: "byte list"
  log_line :: u32

fun dec_digits :: "nat \<Rightarrow> byte list" where
  "dec_digits n = (if n < 10 then [of_nat (48 + n)] else dec_digits (n div 10) @ [of_nat (48 + n mod 10)])"

declare dec_digits.simps [simp del]

definition fmt_d :: "u32 \<Rightarrow> byte list" where
  "fmt_d x = (if sint x < 0 then 45 # dec_digits (nat (- sint x)) else dec_digits (nat (sint x)))"

text \<open>The difference of two numbers of type \<^verbatim>\<open>size_t\<close>, and \<^verbatim>\<open>snprintf\<close> followed by the move to the end of the text.\<close>

definition room :: "nat \<Rightarrow> nat \<Rightarrow> nat" where
  "room buf_size buf_i = sz (buf_size + 2 ^ 64 - buf_i)"

definition snprintf :: "mem \<Rightarrow> nat \<Rightarrow> nat \<Rightarrow> byte list \<Rightarrow> mem option" where
  "snprintf buf pos n text = (if n = 0 then Some buf else mem_write buf pos (take (n - 1) text @ [0]))"

definition print_at :: "nat \<Rightarrow> byte list \<Rightarrow> mem \<times> nat \<Rightarrow> (mem \<times> nat) option" where
  "print_at buf_size text = (\<lambda>(buf, buf_i). do {
     buf \<leftarrow> snprintf buf buf_i (room buf_size buf_i) text;
     n \<leftarrow> c_strlen (drop buf_i buf);
     Some (buf, buf_i + n) })"

primrec print_ctx :: "nat \<Rightarrow> mem list \<Rightarrow> mem \<times> nat \<Rightarrow> (mem \<times> nat) option" where
  "print_ctx buf_size [] st = Some st"
| "print_ctx buf_size (s # ctx) st = do {
     n \<leftarrow> c_strlen s;
     st \<leftarrow> print_at buf_size (take n s) st;
     print_ctx buf_size ctx st }"

definition put_key :: "nat \<Rightarrow> byte list \<Rightarrow> mem \<times> nat \<Rightarrow> (mem \<times> nat) option" where
  "put_key buf_size key = (\<lambda>(buf, buf_i).
     if room buf_size buf_i > length key + 1 \<and> key \<noteq> bytes ''ctx'' then do {
       buf \<leftarrow> mem_write buf buf_i key;
       buf \<leftarrow> mem_write buf (buf_i + length key) [61];
       Some (buf, buf_i + length key + 1) }
     else Some (buf, buf_i))"

definition put_space :: "nat \<Rightarrow> mem \<times> nat \<Rightarrow> (mem \<times> nat) option" where
  "put_space buf_size = (\<lambda>(buf, buf_i).
     if room buf_size buf_i > 1 then do { buf \<leftarrow> mem_write buf buf_i [32]; Some (buf, buf_i + 1) } else Some (buf, buf_i))"

text \<open>
  The state of the loop is the buffer, the position and the variable \<^verbatim>\<open>m\<close>, which has no value at first. The loop is left
  with \<^verbatim>\<open>goto error\<close> (\<open>True\<close>) or with \<^verbatim>\<open>return 1\<close> (\<open>False\<close>).
\<close>

type_synonym slog_state = "(mem \<times> nat) \<times> nat option"

definition appended :: "int \<times> nat option \<times> mem \<Rightarrow> nat \<Rightarrow> ((bool \<times> mem \<times> nat) + slog_state) option" where
  "appended = (\<lambda>(err, m, buf) buf_i.
     if err = LOG_ERROR_OUT_OF_SPACE then do { w \<leftarrow> m; Some (Inl (True, buf, buf_i + w)) }
     else if err \<noteq> LOG_OK then Some (Inl (False, buf, buf_i))
     else do { w \<leftarrow> m; Some (Inr ((buf, buf_i + w), m)) })"

definition slog_value :: "log_env \<Rightarrow> nat \<Rightarrow> byte list \<Rightarrow> byte list \<Rightarrow> log_arg list \<Rightarrow> slog_state \<Rightarrow>
    (((bool \<times> mem \<times> nat) + slog_state) \<times> log_arg list) option" where
  "slog_value le buf_size key val_fmt args = (\<lambda>((buf, buf_i), m).
     if val_fmt = bytes ''s'' then (case args of Arg_s val # args \<Rightarrow> do {
         r \<leftarrow> append_quoted_string buf buf_i (size_to_int (room buf_size buf_i)) (case val of None \<Rightarrow> bytes ''<NULL>'' @ [0] | Some v \<Rightarrow> v) m;
         x \<leftarrow> appended r buf_i;
         Some (x, args) } | _ \<Rightarrow> None)
     else if val_fmt = bytes ''f'' then (case args of Arg_f x # args \<Rightarrow> do {
         st \<leftarrow> print_at buf_size (fmt_f le x) (buf, buf_i); Some (Inr (st, m), args) } | _ \<Rightarrow> None)
     else if val_fmt = bytes ''d'' then (case args of Arg_d x # args \<Rightarrow> do {
         st \<leftarrow> print_at buf_size (fmt_d x) (buf, buf_i); Some (Inr (st, m), args) } | _ \<Rightarrow> None)
     else if val_fmt = bytes ''p'' then (case args of Arg_p x # args \<Rightarrow> do {
         st \<leftarrow> print_at buf_size (fmt_p le x) (buf, buf_i); Some (Inr (st, m), args) } | _ \<Rightarrow> None)
     else if val_fmt = bytes ''*s'' then (case args of Arg_d n # Arg_s val # args \<Rightarrow> do {
         r \<leftarrow> append_quoted_string_n buf buf_i (size_to_int (room buf_size buf_i)) (case val of None \<Rightarrow> [] | Some v \<Rightarrow> v) (nat (sint n)) (Some 0);
         x \<leftarrow> appended r buf_i;
         Some (x, args) } | _ \<Rightarrow> None)
     else if key = bytes ''ctx'' then (case args of Arg_ctx ctx # args \<Rightarrow> do {
         st \<leftarrow> print_ctx buf_size ctx (buf, buf_i); Some (Inr (st, m), args) } | _ \<Rightarrow> None)
     else None)"

function slog_fields :: "log_env \<Rightarrow> nat \<Rightarrow> byte list \<Rightarrow> log_arg list \<Rightarrow> slog_state \<Rightarrow> ((bool \<times> mem \<times> nat) + byte list \<times> slog_state) option" where
  "slog_fields le buf_size p args st =
     (case tokenize_key p of
        Inl _ \<Rightarrow> Some (Inr (p, st))
      | Inr (key, q) \<Rightarrow>
          (case tokenize_value_fmt (tl q) of
             Inl _ \<Rightarrow> None
           | Inr (val_fmt, r) \<Rightarrow> do {
               pos \<leftarrow> put_key buf_size key (fst st);
               (x, args) \<leftarrow> slog_value le buf_size key val_fmt args (pos, snd st);
               case x of Inl e \<Rightarrow> Some (Inl e)
               | Inr st \<Rightarrow> do {
                   pos \<leftarrow> put_space buf_size (fst st);
                   slog_fields le buf_size r args (pos, snd st) } }))"
  by pat_completeness auto

termination
proof (relation "measure (\<lambda>(le, bs, p, args, st). length p)")
  fix p key q val_fmt r and le :: log_env and buf_size :: nat and args args' :: "log_arg list" and st st' :: slog_state and x pos pos'
  assume "tokenize_key p = Inr x" "(key, q) = x" "tokenize_value_fmt (tl q) = Inr pos" "(val_fmt, r) = pos"
  then have k: "tokenize_key p = Inr (key, q)" "tokenize_value_fmt (tl q) = Inr (val_fmt, r)" by auto
  from tokenize_key_length [OF k(1)] tokenize_value_length [OF k(2)] have "length r < length p" by auto
  then show "((le, buf_size, r, args', (pos', snd st')), (le, buf_size, p, args, st)) \<in> measure (\<lambda>(le, bs, p, args, st). length p)" by simp
qed simp

declare slog_fields.simps [simp del]

definition slog_message :: "nat \<Rightarrow> byte list \<Rightarrow> slog_state \<Rightarrow> ((bool \<times> mem \<times> nat) + mem \<times> nat) option" where
  "slog_message buf_size p = (\<lambda>((buf, buf_i), m).
     (let p = dropWhile (\<lambda>c. c = 32) p in
      if p = [] then Some (Inr (buf, buf_i))
      else do {
        (err, m, buf) \<leftarrow> append_quoted_string buf buf_i (size_to_int (room buf_size buf_i)) (bytes ''msg='' @ [0]) m;
        if err \<noteq> LOG_OK \<and> err \<noteq> LOG_ERROR_OUT_OF_SPACE then Some (Inl (False, buf, buf_i))
        else do {
          w \<leftarrow> m;
          let buf_i = buf_i + w;
          (err, m, buf) \<leftarrow> append_quoted_string buf buf_i (size_to_int (room buf_size buf_i)) (p @ [0]) m;
          if err \<noteq> LOG_OK \<and> err \<noteq> LOG_ERROR_OUT_OF_SPACE then Some (Inl (False, buf, buf_i))
          else do { w \<leftarrow> m; Some (Inr (buf, buf_i + w)) } } }))"

definition slog_end :: "nat \<Rightarrow> int \<Rightarrow> mem \<times> nat \<Rightarrow> (int \<times> mem) option" where
  "slog_end buf_size err = (\<lambda>(buf, buf_i). do {
     _ \<leftarrow> c_assert (buf_i + 1 < buf_size + 2);
     buf \<leftarrow> mem_write buf buf_i [10];
     buf \<leftarrow> mem_write buf (buf_i + 1) [0];
     Some (err, buf) })"

definition slog_exit :: "nat \<Rightarrow> bool \<times> mem \<times> nat \<Rightarrow> (int \<times> mem) option" where
  "slog_exit buf_size = (\<lambda>(to_error, st). if to_error then slog_end buf_size 1 st else Some (1, fst st))"

definition slog_args :: "log_env \<Rightarrow> mem \<Rightarrow> byte list \<Rightarrow> log_arg list \<Rightarrow> (int \<times> mem) option" where
  "slog_args le buf fmt args =
     (if length buf \<le> 2 then Some (1, buf)
      else do {
        let buf_size = length buf - 2;
        x \<leftarrow> slog_fields le buf_size fmt args ((buf, 0), None);
        case x of Inl e \<Rightarrow> slog_exit buf_size e
        | Inr (p, st) \<Rightarrow> do {
            y \<leftarrow> slog_message buf_size p st;
            case y of Inl e \<Rightarrow> slog_exit buf_size e | Inr st \<Rightarrow> slog_end buf_size 0 st } })"

section \<open>Levels and contexts\<close>

definition LOG_LEVEL_CRITICAL :: int where "LOG_LEVEL_CRITICAL = 1"
definition LOG_LEVEL_ERROR :: int where "LOG_LEVEL_ERROR = 2"
definition LOG_LEVEL_WARNING :: int where "LOG_LEVEL_WARNING = 3"
definition LOG_LEVEL_INFO :: int where "LOG_LEVEL_INFO = 4"
definition LOG_LEVEL_DEBUG :: int where "LOG_LEVEL_DEBUG = 5"
definition LOG_LEVEL_TRACE :: int where "LOG_LEVEL_TRACE = 6"

text \<open>
  The macro \<^verbatim>\<open>LOG\<close> with \<^verbatim>\<open>_log\<close>, for the current level \<open>cur\<close>: the line that is printed, if any. The array on the stack has
  the contents \<open>log_junk\<close> at first. The line is printed whatever \<^verbatim>\<open>_slog_args\<close> returns.
\<close>

definition LOG :: "log_env \<Rightarrow> int \<Rightarrow> int \<Rightarrow> byte list \<Rightarrow> byte list \<Rightarrow> log_arg list \<Rightarrow> byte list option option" where
  "LOG le cur level_num level_str fmt args =
     (if level_num \<le> cur then do {
        (_, buf) \<leftarrow> slog_args le (take LOG_BUF_SIZE (log_junk le)) (bytes ''level=s pid=d file=s line=d '' @ fmt)
          ([Arg_s (Some (level_str @ [0])), Arg_d (log_pid le), Arg_s (Some (log_file le @ [0])), Arg_d (log_line le)] @ args);
        n \<leftarrow> c_strlen buf;
        Some (Some (take n buf)) }
      else Some None)"

definition set_log_level :: "log_env \<Rightarrow> int \<Rightarrow> int \<Rightarrow> int option" where
  "set_log_level le cur level = do {
     _ \<leftarrow> LOG le cur LOG_LEVEL_INFO (bytes ''INFO'') (bytes ''level=d setting log level'') [Arg_d (of_int level)];
     Some level }"

definition tolower :: "byte \<Rightarrow> byte" where
  "tolower c = (if 65 \<le> c \<and> c \<le> 90 then c + 32 else c)"

definition same_nocase :: "byte list \<Rightarrow> byte list \<Rightarrow> bool" where
  "same_nocase a b \<longleftrightarrow> map tolower a = map tolower b"

definition set_log_level_from_string :: "log_env \<Rightarrow> int \<Rightarrow> byte list \<Rightarrow> int option" where
  "set_log_level_from_string le cur s =
     (if same_nocase s (bytes ''TRACE'') then set_log_level le cur LOG_LEVEL_TRACE
      else if same_nocase s (bytes ''DEBUG'') then set_log_level le cur LOG_LEVEL_DEBUG
      else if same_nocase s (bytes ''INFO'') then set_log_level le cur LOG_LEVEL_INFO
      else if same_nocase s (bytes ''WARN'') \<or> s = bytes ''WARNING'' then set_log_level le cur LOG_LEVEL_WARNING
      else if same_nocase s (bytes ''ERROR'') then set_log_level le cur LOG_LEVEL_ERROR
      else if same_nocase s (bytes ''CRIT'') \<or> same_nocase s (bytes ''CRITICAL'') then set_log_level le cur LOG_LEVEL_CRITICAL
      else do {
        _ \<leftarrow> LOG le cur LOG_LEVEL_WARNING (bytes ''WARN'') (bytes ''requested_level=s unknown log level; defaulting to INFO'') [Arg_s (Some (s @ [0]))];
        set_log_level le cur LOG_LEVEL_INFO })"

text \<open>The environment is a list of strings; the first one that sets the level counts.\<close>

fun set_log_level_from_env_variables :: "log_env \<Rightarrow> int \<Rightarrow> byte list list \<Rightarrow> int option" where
  "set_log_level_from_env_variables le cur [] = Some cur"
| "set_log_level_from_env_variables le cur (e # env) =
     (if take 10 e = bytes ''LOG_LEVEL='' then set_log_level_from_string le cur (drop 10 e)
      else set_log_level_from_env_variables le cur env)"

definition new_log_context :: "log_env \<Rightarrow> mem list \<Rightarrow> byte list \<Rightarrow> log_arg list \<Rightarrow> mem list option" where
  "new_log_context le ctx fmt args = do {
     (_, s) \<leftarrow> slog_args le (take LOG_BUF_SIZE (log_junk le)) fmt args;
     n \<leftarrow> c_strlen s;
     s \<leftarrow> (if n > 1 then mem_write s (n - 2) [0] else Some s);
     Some (s # ctx) }"

end
