(* ===== verification/Options.thy ===== *)
theory Options
  imports Log
begin

text \<open>
  The command line: \<^verbatim>\<open>src/common/option_parser.c\<close> and \<^verbatim>\<open>src/cli/main.c\<close>. The arguments are a list whose last
  element is \<open>None\<close>, the null pointer that ends the array; a read behind it is \<open>None\<close>, and so is the use of the null pointer as a
  string. The variables that options set are at addresses, which are numbers.
\<close>

section \<open>Numbers in strings\<close>

definition isspace :: "byte \<Rightarrow> bool" where
  "isspace c \<longleftrightarrow> c = 32 \<or> 9 \<le> c \<and> c \<le> 13"

definition is_dec_digit :: "byte \<Rightarrow> bool" where
  "is_dec_digit c \<longleftrightarrow> 48 \<le> c \<and> c \<le> 57"

definition digits_value :: "byte list \<Rightarrow> nat" where
  "digits_value = foldl (\<lambda>v c. 10 * v + (unat c - 48)) 0"

text \<open>\<^verbatim>\<open>atoi\<close> of the C library; the behaviour for a number that does not fit an \<^verbatim>\<open>int\<close> is undefined.\<close>

definition atoi :: "byte list \<Rightarrow> int option" where
  "atoi s =
     (let s = dropWhile isspace s;
          neg = (s \<noteq> [] \<and> hd s = 45);
          ds = (if s \<noteq> [] \<and> (hd s = 45 \<or> hd s = 43) then tl s else s);
          v = int (digits_value (takeWhile is_dec_digit ds));
          x = (if neg then - v else v)
      in if - (2 ^ 31) \<le> x \<and> x < 2 ^ 31 then Some x else None)"

section \<open>Options\<close>

datatype parse_opt_type = OPTION_INTEGER | OPTION_STRING | OPTION_FLAG

text \<open>An array of options ends with one of the type \<^verbatim>\<open>OPTION_END\<close>, which is the end of the list here. Help texts only are printed.\<close>

record cmd_option =
  short_name :: byte
  long_name :: "byte list"
  value_addr :: nat
  opt_type :: parse_opt_type
  choices :: "byte list list"

datatype opt_value = Int_value int | Str_value "byte list option"

type_synonym args = "byte list option list"
type_synonym opt_vars = "nat \<Rightarrow> opt_value"

text \<open>
  The functions test whether \<^verbatim>\<open>*argv\<close>, the address of the next argument, is null, which it never is; that the argument itself
  is null at the end of the line is not tested.
\<close>

definition apply_value_int :: "cmd_option \<Rightarrow> args \<Rightarrow> opt_vars \<Rightarrow> (int \<times> args \<times> opt_vars) option" where
  "apply_value_int opt argv vars = (case argv of
       Some s # argv \<Rightarrow> do {
         n \<leftarrow> atoi s;
         if n = 0 \<and> s \<noteq> bytes ''0'' then Some (- 1, argv, vars)
         else Some (0, argv, vars(value_addr opt := Int_value n)) }
     | _ \<Rightarrow> None)"

definition apply_value_string :: "cmd_option \<Rightarrow> args \<Rightarrow> opt_vars \<Rightarrow> (int \<times> args \<times> opt_vars) option" where
  "apply_value_string opt argv vars = (case argv of [] \<Rightarrow> None
     | a # argv' \<Rightarrow>
         if choices opt \<noteq> [] \<and> a = None then None
         else if choices opt \<noteq> [] \<and> the a \<notin> set (choices opt) then Some (1, argv, vars)
         else Some (0, argv', vars(value_addr opt := Str_value a)))"

definition apply_value_flag :: "cmd_option \<Rightarrow> args \<Rightarrow> opt_vars \<Rightarrow> (int \<times> args \<times> opt_vars) option" where
  "apply_value_flag opt argv vars = (case vars (value_addr opt) of Int_value n \<Rightarrow> Some (0, argv, vars(value_addr opt := Int_value (n + 1)))
     | Str_value _ \<Rightarrow> None)"

definition apply_value :: "cmd_option \<Rightarrow> args \<Rightarrow> opt_vars \<Rightarrow> (int \<times> args \<times> opt_vars) option" where
  "apply_value opt = (case opt_type opt of OPTION_INTEGER \<Rightarrow> apply_value_int opt | OPTION_STRING \<Rightarrow> apply_value_string opt | OPTION_FLAG \<Rightarrow> apply_value_flag opt)"

definition get_option_long :: "cmd_option list \<Rightarrow> byte list \<Rightarrow> cmd_option option" where
  "get_option_long options name = find (\<lambda>opt. long_name opt = name) options"

definition get_option_short :: "cmd_option list \<Rightarrow> byte \<Rightarrow> cmd_option option" where
  "get_option_short options name = (if name = 0 then None else find (\<lambda>opt. short_name opt = name) options)"

definition parse_long_arg :: "cmd_option list \<Rightarrow> byte list \<Rightarrow> args \<Rightarrow> opt_vars \<Rightarrow> (int \<times> args \<times> opt_vars) option" where
  "parse_long_arg options name argv vars = (case get_option_long options name of None \<Rightarrow> Some (- 1, argv, vars) | Some opt \<Rightarrow> apply_value opt argv vars)"

definition parse_short_arg :: "cmd_option list \<Rightarrow> byte \<Rightarrow> args \<Rightarrow> opt_vars \<Rightarrow> (int \<times> args \<times> opt_vars) option" where
  "parse_short_arg options name argv vars = (case get_option_short options name of None \<Rightarrow> Some (- 1, argv, vars) | Some opt \<Rightarrow> apply_value opt argv vars)"

text \<open>An argument is an option if it has more than one character and starts with a hyphen.\<close>

definition parse_arg :: "cmd_option list \<Rightarrow> byte list \<Rightarrow> args \<Rightarrow> opt_vars \<Rightarrow> (int \<times> args \<times> opt_vars) option" where
  "parse_arg options s argv vars =
     (if s ! 1 = 45 then parse_long_arg options (drop 2 s) argv vars else parse_short_arg options (s ! 1) argv vars)"

lemma apply_value_length: "apply_value opt argv vars = Some (res, argv', vars') \<Longrightarrow> length argv' \<le> length argv"
  by (auto simp: apply_value_def apply_value_int_def apply_value_string_def apply_value_flag_def
      split: parse_opt_type.splits list.splits option.splits opt_value.splits if_splits Option.bind_split_asm)

lemma parse_arg_length: "parse_arg options s argv vars = Some (res, argv', vars') \<Longrightarrow> length argv' \<le> length argv"
  using apply_value_length by (auto simp: parse_arg_def parse_long_arg_def parse_short_arg_def split: option.splits if_splits)

function parse_options :: "cmd_option list \<Rightarrow> args \<Rightarrow> opt_vars \<Rightarrow> (int \<times> args \<times> opt_vars) option" where
  "parse_options options [] vars = None"
| "parse_options options (None # argv) vars = Some (0, None # argv, vars)"
| "parse_options options (Some s # argv) vars =
     (if length s \<le> 1 \<or> hd s \<noteq> 45 then Some (0, Some s # argv, vars)
      else case parse_arg options s argv vars of None \<Rightarrow> None
        | Some (res, argv, vars) \<Rightarrow> if res \<noteq> 0 then Some (res, argv, vars) else parse_options options argv vars)"
  by pat_completeness auto

termination
proof (relation "measure (\<lambda>(options, argv, vars). length argv)")
  fix options s argv vars x res p argv' vars'
  assume "parse_arg options s argv vars = Some x" "(res, p) = x" "(argv', vars') = p"
  then have "length argv' \<le> length argv" using parse_arg_length by blast
  then show "((options, argv', vars'), options, Some s # argv, vars) \<in> measure (\<lambda>(options, argv, vars). length argv)" by simp
qed simp

section \<open>The command line tool\<close>

datatype command = Run_help | Run_put | Run_get | Run_get_config | Run_set_config | Run_query | Run_benchmark

definition get_command :: "(byte list \<times> command) list \<Rightarrow> byte list \<Rightarrow> command option" where
  "get_command commands name = map_option snd (find (\<lambda>c. fst c = name) commands)"

definition MAX_HOST :: nat where "MAX_HOST = 1024"
definition MENOETIUS_PORT :: int where "MENOETIUS_PORT = 9001"

text \<open>The loop looks for the colon and copies what is before it, without a test of the length; so does \<^verbatim>\<open>strcpy\<close>.\<close>

definition parse_host_and_port :: "byte list \<Rightarrow> mem \<Rightarrow> int \<Rightarrow> (int \<times> mem \<times> int) option" where
  "parse_host_and_port s host port =
     (let h = takeWhile (\<lambda>c. c \<noteq> 58) s in
      case dropWhile (\<lambda>c. c \<noteq> 58) s of
        [] \<Rightarrow> do { host \<leftarrow> mem_write host 0 (s @ [0]); Some (0, host, port) }
      | _ # p \<Rightarrow> do {
          host \<leftarrow> mem_write host 0 (h @ [0]);
          if p = [] then Some (1, host, port)
          else do {
            port \<leftarrow> atoi p;
            if port = 0 then Some (1, host, port) else Some (0, host, port) } })"

definition host_addr :: nat where "host_addr = 0"
definition help_addr :: nat where "help_addr = 1"

definition cli_options :: "cmd_option list" where
  "cli_options =
     [\<lparr>short_name = 72, long_name = bytes ''host'', value_addr = host_addr, opt_type = OPTION_STRING, choices = []\<rparr>,
      \<lparr>short_name = 104, long_name = bytes ''help'', value_addr = help_addr, opt_type = OPTION_FLAG, choices = []\<rparr>]"

definition cli_commands :: "(byte list \<times> command) list" where
  "cli_commands = [(bytes ''help'', Run_help), (bytes ''put'', Run_put), (bytes ''get'', Run_get), (bytes ''get-config'', Run_get_config),
     (bytes ''set-config'', Run_set_config), (bytes ''query'', Run_query), (bytes ''benchmark'', Run_benchmark)]"

text \<open>What \<^verbatim>\<open>main\<close> does: it prints the help, or a message, and ends with a code, or it runs a command for a host and a port.\<close>

datatype cli_action = Cli_Help int | Cli_Exit int | Cli_Run command mem int args

definition cli_main :: "args \<Rightarrow> cli_action option" where
  "cli_main argv = (case argv of [] \<Rightarrow> None
     | a # rest \<Rightarrow> do {
         let help = (if a = None then 1 else 0);
         (res, argv, vars) \<leftarrow> parse_options cli_options (if a = None then argv else rest)
           (\<lambda>x. if x = host_addr then Str_value (Some (bytes ''localhost'')) else Int_value help);
         if res \<noteq> 0 \<or> vars help_addr \<noteq> Int_value 0 \<or> hd argv = None then Some (Cli_Help (if res \<noteq> 0 then 1 else 0))
         else case (vars host_addr, hd argv) of
           (Str_value (Some h), Some name) \<Rightarrow> do {
             (res, host, port) \<leftarrow> parse_host_and_port h (replicate MAX_HOST 0) MENOETIUS_PORT;
             if res \<noteq> 0 then Some (Cli_Exit 1)
             else case get_command cli_commands name of None \<Rightarrow> Some (Cli_Exit 1)
               | Some cmd \<Rightarrow> Some (Cli_Run cmd host port (tl argv)) }
         | _ \<Rightarrow> None })"

section \<open>Properties of the parser\<close>

lemma dec_digit_char: "d < 10 \<Longrightarrow> is_dec_digit (of_nat (48 + d)) \<and> unat (of_nat (48 + d) :: byte) - 48 = d"
proof -
  assume "d < 10"
  then have "unat (of_nat (48 + d) :: byte) = 48 + d" by (simp only: unat_of_nat) simp
  then show ?thesis using \<open>d < 10\<close> by (simp add: is_dec_digit_def word_le_nat_alt)
qed

lemma dec_digits_ok: "(\<forall>c\<in>set (dec_digits n). is_dec_digit c) \<and> dec_digits n \<noteq> [] \<and> digits_value (dec_digits n) = n"
proof (induction n rule: dec_digits.induct)
  case (1 n)
  show ?case
  proof (cases "n < 10")
    case True
    then show ?thesis using dec_digit_char [of n] by (subst (1 2 3) dec_digits.simps) (simp add: digits_value_def)
  next
    case False
    then have "\<forall>c\<in>set (dec_digits (n div 10)). is_dec_digit c" "digits_value (dec_digits (n div 10)) = n div 10" using 1 by simp_all
    then show ?thesis using False dec_digit_char [of "n mod 10"] by (subst (1 2 3) dec_digits.simps) (auto simp: digits_value_def)
  qed
qed

lemma length_dec_digits: "n < 10 ^ k \<Longrightarrow> 0 < k \<Longrightarrow> length (dec_digits n) \<le> k"
proof (induction n arbitrary: k rule: dec_digits.induct)
  case (1 n)
  show ?case
  proof (cases "n < 10")
    case True
    then show ?thesis using 1(3) by (subst dec_digits.simps) simp
  next
    case False
    then obtain j where k: "k = Suc j" "0 < j" using 1(2,3) by (cases k; cases "k = 1") auto
    have "n div 10 < 10 ^ j" using 1(2) k(1) by (simp add: less_mult_imp_div_less mult.commute)
    then show ?thesis using 1(1) [OF False _ k(2)] False k(1) by (subst dec_digits.simps) simp
  qed
qed

definition int_text :: "int \<Rightarrow> byte list" where
  "int_text n = (if n < 0 then 45 # dec_digits (nat (- n)) else dec_digits (nat n))"

lemma digit_no_sign: "is_dec_digit c \<Longrightarrow> c \<noteq> 45 \<and> c \<noteq> 43 \<and> \<not> isspace c"
  by (auto simp: is_dec_digit_def isspace_def word_le_nat_alt word_unat_eq_iff)

lemma atoi_text:
  assumes "- (2 ^ 31) \<le> n" "n < 2 ^ 31" "\<forall>c\<in>set r. \<not> is_dec_digit c"
  shows "atoi (int_text n @ r) = Some n"
proof -
  have d: "\<forall>c\<in>set (dec_digits k). is_dec_digit c" "dec_digits k \<noteq> []" "digits_value (dec_digits k) = k" for k using dec_digits_ok [of k] by blast+
  have t: "takeWhile is_dec_digit (dec_digits k @ r) = dec_digits k" for k using d(1) assms(3) by (cases r) (simp_all add: takeWhile_append2)
  have h: "hd (dec_digits k) \<noteq> 45" "hd (dec_digits k) \<noteq> 43" "\<not> isspace (hd (dec_digits k))" for k using digit_no_sign d(1,2) hd_in_set by blast+
  have w: "dropWhile isspace (dec_digits k @ r) = dec_digits k @ r" for k using h(3) [of k] d(2) [of k] by (cases "dec_digits k") auto
  have m: "\<not> isspace 45" by (simp add: isspace_def)
  show ?thesis
  proof (cases "n < 0")
    case True
    then show ?thesis using assms(1,2) t d(3) m by (simp add: atoi_def int_text_def Let_def)
  next
    case False
    then show ?thesis using assms(1,2) t d(2,3) h w by (simp add: atoi_def int_text_def Let_def)
  qed
qed

end
