(* ===== verification/Time_Parser.thy ===== *)
theory Time_Parser
  imports Options
begin

text \<open>
  Times as text, \<^verbatim>\<open>src/client/time_parser.c\<close>, with what the tool prints for them (\<^verbatim>\<open>gmtime\<close> and \<^verbatim>\<open>strftime\<close> in
  \<^verbatim>\<open>src/cli/get.c\<close>). The functions of the C library are those of its GNU version for the one format that the
  code uses, year, month, day, hour, minute and second. Strings are without the zero at their end.
\<close>

section \<open>Dates\<close>

record tm =
  tm_year :: int
  tm_mon :: int
  tm_mday :: int
  tm_hour :: int
  tm_min :: int
  tm_sec :: int

definition leap :: "int \<Rightarrow> bool" where
  "leap y \<longleftrightarrow> y mod 4 = 0 \<and> (y mod 100 \<noteq> 0 \<or> y mod 400 = 0)"

definition year_len :: "int \<Rightarrow> int" where
  "year_len y = (if leap y then 366 else 365)"

definition month_lens :: "int \<Rightarrow> int list" where
  "month_lens y = [31, if leap y then 29 else 28, 31, 30, 31, 30, 31, 31, 30, 31, 30, 31]"

text \<open>The days from the first of January 1970 to the first of January of a year, and to the first day of a month in its year.\<close>

definition days_before_year :: "int \<Rightarrow> int" where
  "days_before_year y = 365 * y + (y - 1) div 4 - (y - 1) div 100 + (y - 1) div 400 - 719527"

definition days_before_month :: "int \<Rightarrow> nat \<Rightarrow> int" where
  "days_before_month y m = sum_list (take m (month_lens y))"

definition timegm :: "tm \<Rightarrow> i64" where
  "timegm t = of_int (((days_before_year (tm_year t + 1900) + days_before_month (tm_year t + 1900) (nat (tm_mon t)) + tm_mday t - 1) * 24
     + tm_hour t) * 3600 + tm_min t * 60 + tm_sec t)"

text \<open>The year of a day: from 1970 in the direction of the day.\<close>

function year_after :: "int \<Rightarrow> int \<Rightarrow> int \<times> int" where
  "year_after y d = (if d < year_len y then (y, d) else year_after (y + 1) (d - year_len y))"
  by pat_completeness auto

termination
  by (relation "measure (\<lambda>(y, d). nat d)") (auto simp: year_len_def split: if_splits)

function year_before :: "int \<Rightarrow> int \<Rightarrow> int \<times> int" where
  "year_before y d = (if 0 \<le> d then (y, d) else year_before (y - 1) (d + year_len (y - 1)))"
  by pat_completeness auto

termination
  by (relation "measure (\<lambda>(y, d). nat (- d))") (auto simp: year_len_def)

declare year_after.simps [simp del] year_before.simps [simp del]

fun month_after :: "nat \<Rightarrow> int \<Rightarrow> int list \<Rightarrow> nat \<times> int" where
  "month_after m d [] = (m, d)"
| "month_after m d (l # ls) = (if d < l then (m, d) else month_after (m + 1) (d - l) ls)"

text \<open>\<^verbatim>\<open>gmtime\<close> fails if the year is not an \<^verbatim>\<open>int\<close>.\<close>

definition gmtime :: "i64 \<Rightarrow> tm option" where
  "gmtime t =
     (let days = sint t div 86400; rest = sint t mod 86400;
          (y, yday) = (if 0 \<le> days then year_after 1970 days else year_before 1970 days);
          (m, mday) = month_after 0 yday (month_lens y)
      in if y - 1900 < - (2 ^ 31) \<or> 2 ^ 31 \<le> y - 1900 then None
         else Some \<lparr>tm_year = y - 1900, tm_mon = int m, tm_mday = mday + 1, tm_hour = rest div 3600, tm_min = rest mod 3600 div 60, tm_sec = rest mod 60\<rparr>)"

section \<open>Text\<close>

text \<open>
  A number of at most \<open>n\<close> digits between two limits, after spaces; no digit is read that would make the number larger than
  the limit for sure.
\<close>

fun more_digits :: "nat \<Rightarrow> nat \<Rightarrow> nat \<Rightarrow> byte list \<Rightarrow> nat \<times> byte list" where
  "more_digits to 0 val s = (val, s)"
| "more_digits to (Suc n) val [] = (val, [])"
| "more_digits to (Suc n) val (c # s) =
     (if val * 10 \<le> to \<and> is_dec_digit c then more_digits to n (val * 10 + (unat c - 48)) s else (val, c # s))"

definition get_number :: "nat \<Rightarrow> nat \<Rightarrow> nat \<Rightarrow> byte list \<Rightarrow> (int \<times> byte list) option" where
  "get_number from to n s = (case dropWhile (\<lambda>c. c = 32) s of [] \<Rightarrow> None
     | c # s \<Rightarrow> if \<not> is_dec_digit c then None
         else (case more_digits to (n - 1) (unat c - 48) s of (val, s) \<Rightarrow> if val < from \<or> to < val then None else Some (int val, s)))"

definition get_char :: "byte \<Rightarrow> byte list \<Rightarrow> byte list option" where
  "get_char c s = (if s \<noteq> [] \<and> hd s = c then Some (tl s) else None)"

definition strptime :: "byte list \<Rightarrow> tm option" where
  "strptime s = do {
     (y, s) \<leftarrow> get_number 0 9999 4 s;
     s \<leftarrow> get_char 45 s;
     (mon, s) \<leftarrow> get_number 1 12 2 s;
     s \<leftarrow> get_char 45 s;
     (d, s) \<leftarrow> get_number 1 31 2 s;
     s \<leftarrow> get_char 84 s;
     (h, s) \<leftarrow> get_number 0 23 2 s;
     s \<leftarrow> get_char 58 s;
     (mi, s) \<leftarrow> get_number 0 59 2 s;
     s \<leftarrow> get_char 58 s;
     (sec, s) \<leftarrow> get_number 0 61 2 s;
     Some \<lparr>tm_year = y - 1900, tm_mon = mon - 1, tm_mday = d, tm_hour = h, tm_min = mi, tm_sec = sec\<rparr> }"

definition parse_time :: "byte list \<Rightarrow> int + i64" where
  "parse_time s = (case strptime s of None \<Rightarrow> Inl 1 | Some t \<Rightarrow> Inr (timegm t))"

definition two_digits :: "int \<Rightarrow> byte list" where
  "two_digits n = [of_int (48 + n div 10), of_int (48 + n mod 10)]"

definition strftime :: "tm \<Rightarrow> byte list" where
  "strftime t = int_text (tm_year t + 1900) @ [45] @ two_digits (tm_mon t + 1) @ [45] @ two_digits (tm_mday t) @ [84] @
     two_digits (tm_hour t) @ [58] @ two_digits (tm_min t) @ [58] @ two_digits (tm_sec t)"

section \<open>The calendar\<close>

lemma div_pred:
  assumes "0 < (k :: int)"
  shows "y div k = (y - 1) div k + (if y mod k = 0 then 1 else 0)"
proof -
  have y: "y = k * (y div k) + y mod k" "0 \<le> y mod k" "y mod k < k" using assms by simp_all
  show ?thesis
  proof (cases "y mod k = 0")
    case True
    then have "(y - 1) div k = y div k - 1" using y assms by (intro int_div_pos_eq [of _ _ _ "k - 1"]) (auto simp: right_diff_distrib)
    then show ?thesis using True by simp
  next
    case False
    then have "(y - 1) div k = y div k" using y by (intro int_div_pos_eq [of _ _ _ "y mod k - 1"]) auto
    then show ?thesis using False by simp
  qed
qed

lemma leap_cases: "c \<longrightarrow> b \<Longrightarrow> b \<longrightarrow> a \<Longrightarrow> (if a \<and> (\<not> b \<or> c) then 366 else 365) = (365 :: int) + (if a then 1 else 0) - (if b then 1 else 0) + (if c then 1 else 0)"
  by (cases a; cases b; cases c) simp_all

lemma leap_sum: "a' = a + i \<Longrightarrow> b' = b + j \<Longrightarrow> c' = c + k \<Longrightarrow>
  365 * (y + 1) + a' - b' + c' - n = 365 * y + a - b + c - n + ((365 :: int) + i - j + k)"
  by simp

lemma days_next_year: "days_before_year (y + 1) = days_before_year y + year_len y"
proof -
  have "(100 :: int) dvd 400" "(4 :: int) dvd 100" by simp_all
  then have "y mod 400 = 0 \<longrightarrow> y mod 100 = 0" "y mod 100 = 0 \<longrightarrow> y mod 4 = 0"
    unfolding mod_eq_0_iff_dvd by (blast intro: dvd_trans)+
  then have l: "year_len y = 365 + (if y mod 4 = 0 then 1 else 0) - (if y mod 100 = 0 then 1 else 0) + (if y mod 400 = 0 then 1 else 0)"
    unfolding year_len_def leap_def by (rule leap_cases)
  show ?thesis unfolding days_before_year_def l add_diff_cancel_right' by (intro leap_sum div_pred) simp_all
qed

lemma year_len_pos: "0 < year_len y" "year_len y \<le> 366"
  by (simp_all add: year_len_def)

lemma days_mono: "x \<le> y \<Longrightarrow> days_before_year x \<le> days_before_year y"
proof (induction y rule: int_ge_induct)
  case (step y)
  then show ?case using days_next_year [of y] year_len_pos [of y] by linarith
qed simp

lemma year_after_ok: "0 \<le> d \<Longrightarrow> year_after y d = (z, e) \<Longrightarrow> days_before_year z + e = days_before_year y + d \<and> 0 \<le> e \<and> e < year_len z \<and> y \<le> z"
proof (induction y d arbitrary: z e rule: year_after.induct)
  case (1 y d)
  show ?case
  proof (cases "d < year_len y")
    case True
    then show ?thesis using "1.prems" by (simp add: year_after.simps [of y d])
  next
    case False
    then have "year_after (y + 1) (d - year_len y) = (z, e)" using "1.prems" by (simp add: year_after.simps [of y d])
    then show ?thesis using "1.IH" [OF False] False days_next_year [of y] by fastforce
  qed
qed

lemma month_sum: "sum_list (month_lens y) = year_len y"
  by (simp add: month_lens_def year_len_def)

lemma month_after_ok:
  assumes "month_after m d ls = (m', d')" "0 \<le> d" "d < sum_list ls"
  shows "\<exists>k<length ls. m' = m + k \<and> d = sum_list (take k ls) + d' \<and> 0 \<le> d' \<and> d' < ls ! k"
  using assms
proof (induction ls arbitrary: m d)
  case (Cons l ls)
  show ?case
  proof (cases "d < l")
    case True
    then show ?thesis using Cons.prems by auto
  next
    case False
    then obtain k where "k < length ls" "m' = m + 1 + k" "d - l = sum_list (take k ls) + d'" "0 \<le> d'" "d' < ls ! k"
      using Cons.IH [of "m + 1" "d - l"] Cons.prems by auto
    then show ?thesis by (intro exI [of _ "Suc k"]) auto
  qed
qed simp

lemma month_lens_le: "k < 12 \<Longrightarrow> month_lens y ! k \<le> 31" "length (month_lens y) = 12"
proof -
  have "\<forall>l\<in>set (month_lens y). l \<le> 31" by (simp add: month_lens_def)
  moreover have "length (month_lens y) = 12" by (simp add: month_lens_def)
  ultimately show "k < 12 \<Longrightarrow> month_lens y ! k \<le> 31" using nth_mem by metis
qed (simp add: month_lens_def)

text \<open>A date before the year 10000 and not before 1970, with fields in their ranges.\<close>

definition tm_ok :: "tm \<Rightarrow> bool" where
  "tm_ok t \<longleftrightarrow> 70 \<le> tm_year t \<and> tm_year t < 8100 \<and> 0 \<le> tm_mon t \<and> tm_mon t < 12 \<and> 1 \<le> tm_mday t \<and> tm_mday t \<le> 31 \<and>
     0 \<le> tm_hour t \<and> tm_hour t < 24 \<and> 0 \<le> tm_min t \<and> tm_min t < 60 \<and> 0 \<le> tm_sec t \<and> tm_sec t < 60"

lemma clock_parts:
  assumes "0 \<le> (r :: int)" "r < 86400"
  shows "0 \<le> r div 3600" "r div 3600 < 24" "0 \<le> r mod 3600 div 60" "r mod 3600 div 60 < 60" "0 \<le> r mod 60" "r mod 60 < 60"
    "r div 3600 * 3600 + r mod 3600 div 60 * 60 + r mod 60 = r"
proof -
  have "r div 3600 < 24" "r mod 3600 div 60 < 60" using assms by (simp_all add: div_less_iff_less_mult)
  moreover have "r mod 3600 mod 60 = r mod 60" by (simp add: mod_mod_cancel)
  then have "r mod 3600 div 60 * 60 + r mod 60 = r mod 3600" using div_mult_mod_eq [of "r mod 3600" 60] by simp
  then show "r div 3600 * 3600 + r mod 3600 div 60 * 60 + r mod 60 = r" using div_mult_mod_eq [of r 3600] by (simp only: add.assoc)
  ultimately show "0 \<le> r div 3600" "r div 3600 < 24" "0 \<le> r mod 3600 div 60" "r mod 3600 div 60 < 60" "0 \<le> r mod 60" "r mod 60 < 60"
    using assms by (simp_all add: pos_imp_zdiv_nonneg_iff)
qed

lemma gmtime_ok:
  assumes "0 \<le> sint t" "sint t < 253402300800"
  shows "\<exists>x. gmtime t = Some x \<and> tm_ok x \<and> timegm x = t"
proof -
  define days where "days = sint t div 86400"
  define r where "r = sint t mod 86400"
  have d: "0 \<le> days" "days < 2932897" "sint t = days * 86400 + r" "0 \<le> r" "r < 86400"
    using assms by (simp_all add: days_def r_def pos_imp_zdiv_nonneg_iff div_less_iff_less_mult)
  obtain y e where y: "year_after 1970 days = (y, e)" by fastforce
  have e: "days_before_year y + e = days" "0 \<le> e" "e < year_len y" "1970 \<le> y" using year_after_ok [OF d(1) y] by (simp_all add: days_before_year_def)
  have y2: "y < 10000"
  proof (rule ccontr)
    assume "\<not> y < 10000"
    then have "days_before_year 10000 \<le> days_before_year y" by (intro days_mono) simp
    then show False using e d(2) by (simp add: days_before_year_def [of 10000])
  qed
  obtain m f where m: "month_after 0 e (month_lens y) = (m, f)" by fastforce
  have "m < 12 \<and> e = days_before_month y m + f \<and> 0 \<le> f \<and> f < month_lens y ! m"
    using month_after_ok [OF m e(2)] e(3) month_sum [of y] month_lens_le(2) [of y] by (auto simp: days_before_month_def)
  then have f: "m < 12" "e = days_before_month y m + f" "0 \<le> f" "f < 31" using month_lens_le(1) [of m y] by auto
  let ?x = "\<lparr>tm_year = y - 1900, tm_mon = int m, tm_mday = f + 1, tm_hour = r div 3600, tm_min = r mod 3600 div 60, tm_sec = r mod 60\<rparr>"
  note c = clock_parts [OF d(4,5)]
  have "gmtime t = Some ?x" using d(1) y m e(4) y2 unfolding gmtime_def days_def [symmetric] r_def [symmetric] by simp
  moreover have "tm_ok ?x" using e(4) y2 f c by (simp add: tm_ok_def)
  moreover have s: "(days_before_year y + days_before_month y m + (f + 1) - 1) * 24 * 3600 + (r div 3600 * 3600 + r mod 3600 div 60 * 60 + r mod 60) = sint t"
    unfolding c(7) d(3) using e(1) f(2) by simp
  have "timegm ?x = of_int (sint t)" unfolding timegm_def s [symmetric] by (simp only: tm.select_convs diff_add_cancel nat_int distrib_right add.assoc)
  ultimately show ?thesis by simp
qed

section \<open>Reading what is printed\<close>

lemma digit_byte: "0 \<le> n \<Longrightarrow> n < 10 \<Longrightarrow> is_dec_digit (of_int (48 + n)) \<and> int (unat (of_int (48 + n) :: byte) - 48) = n"
  using dec_digit_char [of "nat n"] by (simp add: nat_less_iff)

lemma digit_not_space: "is_dec_digit c \<Longrightarrow> c \<noteq> 32"
  by (auto simp: is_dec_digit_def)

lemma get_two:
  assumes "int from \<le> n" "n \<le> int to" "to < 100" "10 \<le> to"
  shows "get_number from to 2 (two_digits n @ r) = Some (n, r)"
proof -
  define a where "a = n div 10"
  define b where "b = n mod 10"
  have n0: "0 \<le> n" "n < 100" using assms by linarith+
  have n: "0 \<le> a" "a < 10" "0 \<le> b" "b < 10"
    using n0 unfolding a_def b_def by (simp_all only: div_less_iff_less_mult pos_imp_zdiv_nonneg_iff pos_mod_sign pos_mod_bound zero_less_numeral)
  have ab: "n = a * 10 + b" by (simp add: a_def b_def)
  note da = digit_byte [OF n(1,2)] and db = digit_byte [OF n(3,4)]
  have s: "(of_int (48 + a) :: byte) \<noteq> 32" by (rule digit_not_space) (use da in blast)
  have v: "unat (of_int (48 + a) :: byte) - 48 = nat a" "unat (of_int (48 + b) :: byte) - 48 = nat b" using da db by linarith+
  have "nat a * 10 \<le> to" "\<not> nat a * 10 + nat b < from" "\<not> to < nat a * 10 + nat b" "int (nat a * 10 + nat b) = n" using assms n ab by linarith+
  then show ?thesis using da db s v unfolding get_number_def two_digits_def a_def [symmetric] b_def [symmetric] by (simp add: numeral_2_eq_2)
qed

lemma get_four:
  assumes "1000 \<le> n" "n \<le> 9999" "r = [] \<or> \<not> is_dec_digit (hd r)"
  shows "get_number 0 9999 4 (int_text n @ r) = Some (n, r) \<and> length (int_text n) = 4 \<and> (\<forall>c\<in>set (int_text n). is_dec_digit c)"
proof -
  define m where "m = nat n"
  define a where "a = m div 10 div 10 div 10"
  define b where "b = m div 10 div 10 mod 10"
  define c where "c = m div 10 mod 10"
  define d where "d = m mod 10"
  have m: "1000 \<le> m" "m \<le> 9999" "n = int m" using assms by (simp_all add: m_def)
  have e: "m div 10 = (m div 10 div 10) * 10 + c" "m = (m div 10) * 10 + d" "m div 10 div 10 = a * 10 + b" by (simp_all add: a_def b_def c_def d_def)
  have l: "a < 10" "b < 10" "c < 10" "d < 10" using m(2) by (simp_all add: a_def b_def c_def d_def)
  have t: "int_text n = [of_nat (48 + a), of_nat (48 + b), of_nat (48 + c), of_nat (48 + d)]"
  proof -
    have g: "\<not> m < 10" "\<not> m div 10 < 10" "\<not> m div 10 div 10 < 10" "m div 10 div 10 div 10 < 10" using m by simp_all
    have "dec_digits (m div 10 div 10 div 10) = [of_nat (48 + a)]" by (subst dec_digits.simps) (simp only: g(4) if_True a_def)
    then have "dec_digits (m div 10 div 10) = [of_nat (48 + a), of_nat (48 + b)]" by (subst dec_digits.simps) (simp only: g(3) if_False b_def append.simps)
    then have "dec_digits (m div 10) = [of_nat (48 + a), of_nat (48 + b), of_nat (48 + c)]" by (subst dec_digits.simps) (simp only: g(2) if_False c_def append.simps)
    then have "dec_digits m = [of_nat (48 + a), of_nat (48 + b), of_nat (48 + c), of_nat (48 + d)]" by (subst dec_digits.simps) (simp only: g(1) if_False d_def append.simps)
    then show ?thesis using m(1) by (simp only: int_text_def m(3) nat_int) simp
  qed
  note da = dec_digit_char [OF l(1)] and db = dec_digit_char [OF l(2)] and dc = dec_digit_char [OF l(3)] and dd = dec_digit_char [OF l(4)]
  have s: "(of_nat (48 + a) :: byte) \<noteq> 32" by (rule digit_not_space) (use da in blast)
  note p = e(1) [unfolded e(3)]
  have v: "((a * 10 + b) * 10 + c) * 10 + d = m" by (rule e(2) [unfolded p, symmetric])
  then have w: "a * 10 \<le> 9999" "(a * 10 + b) * 10 \<le> 9999" "((a * 10 + b) * 10 + c) * 10 \<le> 9999" using m(2) by simp_all
  have "get_number 0 9999 (Suc (Suc (Suc (Suc 0)))) (int_text n @ r) = Some (n, r)"
    unfolding get_number_def t append.simps dropWhile.simps using da db dc dd s v w m
    by (simp only: if_False if_True list.case diff_Suc_1 more_digits.simps prod.case simp_thms) simp
  moreover have "length (int_text n) = 4 \<and> (\<forall>c\<in>set (int_text n). is_dec_digit c)" unfolding t using da db dc dd by (simp only: list.set) simp
  moreover have "Suc (Suc (Suc (Suc 0))) = 4" by simp
  ultimately show ?thesis by metis
qed

lemma get_char_ok: "get_char c (c # s) = Some s"
  by (simp add: get_char_def)

lemma parse_printed:
  assumes "tm_ok t"
  shows "strptime (strftime t @ r) = Some t"
proof -
  have t: "1000 \<le> tm_year t + 1900" "tm_year t + 1900 \<le> 9999" "int 1 \<le> tm_mon t + 1" "tm_mon t + 1 \<le> int 12" "int 1 \<le> tm_mday t" "tm_mday t \<le> int 31"
    "int 0 \<le> tm_hour t" "tm_hour t \<le> int 23" "int 0 \<le> tm_min t" "tm_min t \<le> int 59" "int 0 \<le> tm_sec t" "tm_sec t \<le> int 61"
    using assms by (simp_all add: tm_ok_def)
  have y: "get_number 0 9999 4 (int_text (tm_year t + 1900) @ 45 # s) = Some (tm_year t + 1900, 45 # s)" for s
    using get_four [OF t(1,2), of "45 # s"] by (simp add: is_dec_digit_def)
  show ?thesis unfolding strptime_def strftime_def append_assoc append.simps
    using get_two [OF t(3,4)] get_two [OF t(5,6)] get_two [OF t(7,8)] get_two [OF t(9,10)] get_two [OF t(11,12)] by (simp add: y get_char_ok)
qed

text \<open>The text has four digits and ten pairs of digits with their separators.\<close>

lemma two_digits_ok: "0 \<le> n \<Longrightarrow> n < 100 \<Longrightarrow> \<exists>a b. two_digits n = [a, b] \<and> is_dec_digit a \<and> is_dec_digit b"
  using digit_byte [of "n div 10"] digit_byte [of "n mod 10"] by (simp add: two_digits_def pos_imp_zdiv_nonneg_iff div_less_iff_less_mult)

lemma printed_shape:
  assumes "tm_ok t"
  shows "\<exists>a b c d e f g h i j k l m n. strftime t = [a, b, c, d, 45, e, f, 45, g, h, 84, i, j, 58, k, l, 58, m, n] \<and>
    (\<forall>x\<in>{a, b, c, d, e, f, g, h, i, j, k, l, m, n}. is_dec_digit x)"
proof -
  have "length (int_text (tm_year t + 1900)) = 4 \<and> (\<forall>c\<in>set (int_text (tm_year t + 1900)). is_dec_digit c)"
    using get_four [of "tm_year t + 1900" "[]"] assms by (simp add: tm_ok_def)
  then obtain a b c d where y: "int_text (tm_year t + 1900) = [a, b, c, d]" "is_dec_digit a" "is_dec_digit b" "is_dec_digit c" "is_dec_digit d"
    by (auto simp: numeral_eq_Suc length_Suc_conv)
  obtain e f where m: "two_digits (tm_mon t + 1) = [e, f]" "is_dec_digit e" "is_dec_digit f" using two_digits_ok [of "tm_mon t + 1"] assms by (auto simp: tm_ok_def)
  obtain g h where dd: "two_digits (tm_mday t) = [g, h]" "is_dec_digit g" "is_dec_digit h" using two_digits_ok [of "tm_mday t"] assms by (auto simp: tm_ok_def)
  obtain i j where hh: "two_digits (tm_hour t) = [i, j]" "is_dec_digit i" "is_dec_digit j" using two_digits_ok [of "tm_hour t"] assms by (auto simp: tm_ok_def)
  obtain k l where mm: "two_digits (tm_min t) = [k, l]" "is_dec_digit k" "is_dec_digit l" using two_digits_ok [of "tm_min t"] assms by (auto simp: tm_ok_def)
  obtain s n where ss: "two_digits (tm_sec t) = [s, n]" "is_dec_digit s" "is_dec_digit n" using two_digits_ok [of "tm_sec t"] assms by (auto simp: tm_ok_def)
  show ?thesis unfolding strftime_def y(1) m(1) dd(1) hh(1) mm(1) ss(1) append.simps using y m dd hh mm ss by blast
qed

end
