(* ===== verification/Lfm.thy ===== *)
theory Lfm
  imports Storage_Item Time_Parser "HOL-Library.Multiset"
begin

text \<open>
  The label sets of the client, \<^verbatim>\<open>src/client/lfm.c\<close>, and their two formats: \<^verbatim>\<open>src/client/lfm_binary_parser.c\<close>, which makes
  the keys of the server, and \<^verbatim>\<open>src/client/lfm_human_parser.c\<close>, which is what users type.

  A string on the heap is the list of its bytes without the zero at its end. The text that is parsed is a list
  that ends with the zero; \<open>None\<close> stands for a read behind that zero, a write outside an array, or a failed
  assertion.
\<close>

section \<open>Label sets\<close>

record LFM =
  lfm_name :: "byte list option"
  labels :: "(byte list \<times> byte list) list"
  max_num_labels :: nat

definition key_value_cmp :: "byte list \<times> byte list \<Rightarrow> byte list \<times> byte list \<Rightarrow> int" where
  "key_value_cmp a b = strcmp (fst a) (fst b)"

definition lfm_new :: "byte list option \<Rightarrow> LFM" where
  "lfm_new name = \<lparr>lfm_name = name, labels = [], max_num_labels = 64\<rparr>"

text \<open>
  When the array of labels is full, the code gives a pointer to the C library's \<^verbatim>\<open>realloc\<close> that did not come from
  \<^verbatim>\<open>malloc\<close> (\<^verbatim>\<open>my_malloc\<close> returns an address eight bytes into a block), which ends the process.
\<close>

definition lfm_add_label_unsorted :: "LFM \<Rightarrow> byte list \<Rightarrow> byte list \<Rightarrow> LFM option" where
  "lfm_add_label_unsorted lfm k v = (if length (labels lfm) \<ge> max_num_labels lfm then None
     else Some (lfm\<lparr>labels := labels lfm @ [(k, v)]\<rparr>))"

text \<open>The C library's \<^verbatim>\<open>qsort\<close>, as an insertion sort. (It need not keep the order of equal elements.)\<close>

primrec qsort_insert :: "('a \<Rightarrow> 'a \<Rightarrow> int) \<Rightarrow> 'a \<Rightarrow> 'a list \<Rightarrow> 'a list" where
  "qsort_insert cmp x [] = [x]"
| "qsort_insert cmp x (y # ys) = (if cmp x y \<le> 0 then x # y # ys else y # qsort_insert cmp x ys)"

definition qsort :: "('a \<Rightarrow> 'a \<Rightarrow> int) \<Rightarrow> 'a list \<Rightarrow> 'a list" where
  "qsort cmp xs = foldr (qsort_insert cmp) xs []"

definition lfm_sort_labels :: "LFM \<Rightarrow> LFM" where
  "lfm_sort_labels lfm = lfm\<lparr>labels := qsort key_value_cmp (labels lfm)\<rparr>"

section \<open>The binary format\<close>

fun maxstrlen :: "byte list \<Rightarrow> nat" where
  "maxstrlen [] = 0"
| "maxstrlen (c # s) = (if c = 0 then 0 else Suc (maxstrlen s))"

text \<open>The loop over the strings of the key, from the \<open>i\<close>-th one on.\<close>

function parse_strings :: "nat \<Rightarrow> byte list \<Rightarrow> LFM option \<Rightarrow> byte list option \<Rightarrow> (LFM option \<times> byte list option) option" where
  "parse_strings i s lfm k =
     (if s = [] then Some (lfm, k)
      else let l = maxstrlen s; t = take l s; s = drop (l + 1) s in
        if i = 0 then parse_strings (i + 1) s (Some (lfm_new (Some t))) k
        else case lfm of None \<Rightarrow> None
          | Some tmp \<Rightarrow>
              if i mod 2 = 1 then parse_strings (i + 1) s (Some tmp) (Some t)
              else case k of None \<Rightarrow> None
                | Some ks \<Rightarrow> (case lfm_add_label_unsorted tmp ks t of None \<Rightarrow> None
                  | Some tmp \<Rightarrow> parse_strings (i + 1) s (Some tmp) None))"
  by pat_completeness auto

termination
  by (relation "measure (\<lambda>(i, s, lfm, k). length s)") auto

declare parse_strings.simps [simp del]

definition parse_binary_lfm :: "byte list \<Rightarrow> (int + LFM) option" where
  "parse_binary_lfm s = (case parse_strings 0 s None None of None \<Rightarrow> None
     | Some (lfm, k) \<Rightarrow> if k \<noteq> None then Some (Inl 1)
         else Some (Inr (lfm_sort_labels (case lfm of None \<Rightarrow> lfm_new None | Some lfm \<Rightarrow> lfm))))"

definition name_bytes :: "LFM \<Rightarrow> byte list" where
  "name_bytes lfm = (case lfm_name lfm of None \<Rightarrow> [] | Some s \<Rightarrow> s)"

definition encode_binary_lfm :: "LFM \<Rightarrow> byte list" where
  "encode_binary_lfm lfm = name_bytes lfm @ concat (map (\<lambda>m. 0 # fst m @ 0 # snd m) (labels lfm))"

section \<open>The text format: tokens\<close>

datatype lfm_token = EOF_TOKEN | IDENTIFIER_TOKEN | QUOTED_STRING_TOKEN | OPEN_BRACE_TOKEN | CLOSE_BRACE_TOKEN | COMMA_TOKEN | EQUAL_TOKEN
  | AT_TOKEN | INT_TOKEN | FLOAT_TOKEN | TIMESTAMP_TOKEN

definition isalpha :: "byte \<Rightarrow> bool" where "isalpha c \<longleftrightarrow> 65 \<le> c \<and> c \<le> 90 \<or> 97 \<le> c \<and> c \<le> 122"
definition isdigit :: "byte \<Rightarrow> bool" where "isdigit c \<longleftrightarrow> 48 \<le> c \<and> c \<le> 57"

definition ident_char :: "byte \<Rightarrow> bool" where "ident_char c \<longleftrightarrow> isalpha c \<or> isdigit c \<or> c = 95"

definition scanIdent :: "byte list \<Rightarrow> (int + byte list \<times> byte list) option" where
  "scanIdent s = (case s of [] \<Rightarrow> None
     | c # _ \<Rightarrow> if \<not> isalpha c \<and> c \<noteq> 95 then Some (Inl 1)
         else if dropWhile ident_char s = [] then None else Some (Inr (takeWhile ident_char s, dropWhile ident_char s)))"

fun quoted_loop :: "byte list \<Rightarrow> byte list \<Rightarrow> (int + byte list \<times> byte list) option" where
  "quoted_loop [] t = None"
| "quoted_loop (c # s) t =
     (if c = 0 then Some (Inl 1)
      else if c = 34 then Some (Inr (t, s))
      else if c = 92 then (case s of [] \<Rightarrow> None | d # s \<Rightarrow> quoted_loop s (t @ [d]))
      else quoted_loop s (t @ [c]))"

definition scanQuotedString :: "byte list \<Rightarrow> (int + byte list \<times> byte list) option" where
  "scanQuotedString s = (case s of [] \<Rightarrow> None | c # s \<Rightarrow> if c \<noteq> 34 then Some (Inl 1) else quoted_loop s [])"

record number_vars =
  decimal_found :: bool
  hyphens_found :: nat
  t_found :: bool
  colons_found :: nat

text \<open>A character in a number or time, at position \<open>i\<close>: whether it is refused, and what it changes.\<close>

definition number_refuses :: "byte \<Rightarrow> nat \<Rightarrow> number_vars \<Rightarrow> bool" where
  "number_refuses c i v \<longleftrightarrow>
     c = 46 \<and> (decimal_found v \<or> hyphens_found v \<noteq> 0) \<or>
     c = 45 \<and> (decimal_found v \<or> \<not> (hyphens_found v = 0 \<and> i = 4 \<or> hyphens_found v = 1 \<and> i = 7)) \<or>
     c = 84 \<and> (t_found v \<or> i \<noteq> 10 \<or> hyphens_found v \<noteq> 2) \<or>
     c = 58 \<and> (decimal_found v \<or> \<not> t_found v \<or> \<not> (colons_found v = 0 \<and> i = 13 \<or> colons_found v = 1 \<and> i = 16))"

definition number_takes :: "byte \<Rightarrow> number_vars \<Rightarrow> number_vars" where
  "number_takes c v = (if c = 46 then v\<lparr>decimal_found := True\<rparr> else if c = 45 then v\<lparr>hyphens_found := hyphens_found v + 1\<rparr>
     else if c = 84 then v\<lparr>t_found := True\<rparr> else if c = 58 then v\<lparr>colons_found := colons_found v + 1\<rparr> else v)"

fun number_loop :: "byte list \<Rightarrow> nat \<Rightarrow> number_vars \<Rightarrow> (int + nat \<times> number_vars) option" where
  "number_loop [] i v = None"
| "number_loop (c # s) i v =
     (if isdigit c then number_loop s (i + 1) v
      else if number_refuses c i v then Some (Inl 1)
      else if c = 32 \<or> c = 0 \<or> c = 64 then Some (Inr (i, v))
      else number_loop s (i + 1) (number_takes c v))"

definition number_token :: "nat \<Rightarrow> number_vars \<Rightarrow> int + lfm_token" where
  "number_token i v = (if decimal_found v then Inr FLOAT_TOKEN
     else if hyphens_found v \<noteq> 0 \<or> t_found v \<or> colons_found v \<noteq> 0
     then if hyphens_found v \<noteq> 2 \<or> \<not> t_found v \<or> colons_found v \<noteq> 2 then Inl 1 else if i \<noteq> 19 then Inl 1 else Inr TIMESTAMP_TOKEN
     else Inr INT_TOKEN)"

definition scanNumberOrTimestamp :: "byte list \<Rightarrow> (int + lfm_token \<times> byte list \<times> byte list) option" where
  "scanNumberOrTimestamp s =
     (case number_loop s 0 \<lparr>decimal_found = False, hyphens_found = 0, t_found = False, colons_found = 0\<rparr> of None \<Rightarrow> None
      | Some (Inl res) \<Rightarrow> Some (Inl res)
      | Some (Inr (i, v)) \<Rightarrow> (case number_token i v of Inl res \<Rightarrow> Some (Inl res) | Inr tok \<Rightarrow> Some (Inr (tok, take i s, drop i s))))"

text \<open>A token, its literal (empty if it has none) and the rest of the text.\<close>

definition with_token :: "lfm_token \<Rightarrow> (int + byte list \<times> byte list) option \<Rightarrow> (int + lfm_token \<times> byte list \<times> byte list) option" where
  "with_token tok = map_option (map_sum id (Pair tok))"

definition punctuation :: "byte \<Rightarrow> lfm_token option" where
  "punctuation c = (if c = 0 then Some EOF_TOKEN else if c = 123 then Some OPEN_BRACE_TOKEN else if c = 125 then Some CLOSE_BRACE_TOKEN
     else if c = 44 then Some COMMA_TOKEN else if c = 61 then Some EQUAL_TOKEN else if c = 64 then Some AT_TOKEN else None)"

definition scan :: "byte list \<Rightarrow> (int + lfm_token \<times> byte list \<times> byte list) option" where
  "scan s = (let s = dropWhile (\<lambda>c. c = 32) s in
     case s of [] \<Rightarrow> None
     | c # r \<Rightarrow>
         if isalpha c \<or> c = 95 then with_token IDENTIFIER_TOKEN (scanIdent s)
         else if isdigit c then scanNumberOrTimestamp s
         else if c = 34 then with_token QUOTED_STRING_TOKEN (scanQuotedString s)
         else case punctuation c of None \<Rightarrow> Some (Inl 1) | Some tok \<Rightarrow> Some (Inr (tok, [], r)))"

text \<open>Every token takes at least one character.\<close>

lemma quoted_loop_length: "quoted_loop s t = Some (Inr (lit, r)) \<Longrightarrow> length r < length s"
proof (induction s t rule: quoted_loop.induct)
  case (2 c s t)
  then show ?case by (cases s) (fastforce split: if_splits)+
qed simp

lemma number_loop_length: "number_loop s i v = Some (Inr (n, w)) \<Longrightarrow> i \<le> n \<and> n < i + length s"
proof (induction s i v rule: number_loop.induct)
  case (2 c s i v)
  then show ?case by (fastforce split: if_splits)
qed simp

lemma scan_length: "scan s = Some (Inr (tok, lit, r)) \<Longrightarrow> length r < length s"
proof -
  assume a: "scan s = Some (Inr (tok, lit, r))"
  obtain c s' where s: "dropWhile (\<lambda>c. c = 32) s = c # s'" using a by (cases "dropWhile (\<lambda>c. c = 32) s") (auto simp: scan_def)
  have l: "length (c # s') \<le> length s" unfolding s [symmetric] by (rule length_dropWhile_le)
  consider (ident) "isalpha c \<or> c = 95" | (number) "isdigit c" "\<not> (isalpha c \<or> c = 95)" | (quote) "c = 34" "\<not> isdigit c" "\<not> (isalpha c \<or> c = 95)"
    | (other) "c \<noteq> 34" "\<not> isdigit c" "\<not> (isalpha c \<or> c = 95)" by blast
  then show ?thesis
  proof cases
    case ident
    then have "dropWhile ident_char (c # s') = r" using a s by (auto simp: scan_def Let_def with_token_def scanIdent_def split: if_splits)
    moreover have "ident_char c" using ident by (auto simp: ident_char_def)
    ultimately have "dropWhile ident_char s' = r" by simp
    then show ?thesis using l length_dropWhile_le [of ident_char s'] by simp
  next
    case number
    then have n: "scanNumberOrTimestamp (c # s') = Some (Inr (tok, lit, r))" using a s by (simp add: scan_def Let_def)
    then obtain n w where nw: "number_loop (c # s') 0 \<lparr>decimal_found = False, hyphens_found = 0, t_found = False, colons_found = 0\<rparr> = Some (Inr (n, w))" "r = drop n (c # s')"
      by (auto simp: scanNumberOrTimestamp_def split: option.splits sum.splits)
    have "1 \<le> n" using nw(1) number(1) number_loop_length [of s' 1] by auto
    then show ?thesis using l nw(2) by auto
  next
    case quote
    then have "quoted_loop s' [] = Some (Inr (lit, r))" using a s by (cases "quoted_loop s' []") (auto simp: scan_def Let_def with_token_def scanQuotedString_def map_sum_def split: sum.splits)
    then show ?thesis using l quoted_loop_length by fastforce
  next
    case other
    then show ?thesis using a s l by (auto simp: scan_def Let_def split: option.splits)
  qed
qed

section \<open>The text format: label sets\<close>

text \<open>The loop over the labels, up to the closing brace.\<close>

function parse_labels :: "byte list \<Rightarrow> LFM \<Rightarrow> (int + LFM \<times> byte list) option" where
  "parse_labels s lfm = (case scan s of None \<Rightarrow> None | Some (Inl res) \<Rightarrow> Some (Inl res)
   | Some (Inr (tok, k, s1)) \<Rightarrow>
       if tok = CLOSE_BRACE_TOKEN then Some (Inr (lfm, s1))
       else if tok \<noteq> IDENTIFIER_TOKEN then Some (Inl 1)
       else (case scan s1 of None \<Rightarrow> None | Some (Inl res) \<Rightarrow> Some (Inl res)
       | Some (Inr (tok, _, s2)) \<Rightarrow>
           if tok \<noteq> EQUAL_TOKEN then Some (Inl 1)
           else (case scan s2 of None \<Rightarrow> None | Some (Inl res) \<Rightarrow> Some (Inl res)
           | Some (Inr (tok, v, s3)) \<Rightarrow>
               if tok \<noteq> QUOTED_STRING_TOKEN then Some (Inl 1)
               else (case lfm_add_label_unsorted lfm k v of None \<Rightarrow> None
               | Some lfm \<Rightarrow> (case scan s3 of None \<Rightarrow> None | Some (Inl res) \<Rightarrow> Some (Inl res)
                 | Some (Inr (tok, _, s4)) \<Rightarrow>
                     if tok = CLOSE_BRACE_TOKEN then Some (Inr (lfm, s4))
                     else if tok \<noteq> COMMA_TOKEN then Some (Inl 1)
                     else parse_labels s4 lfm)))))"
  by pat_completeness auto

termination
proof (relation "measure (\<lambda>(s, lfm). length s)", goal_cases)
  case (2 s lfm x res p tok k s1 y res1 q tok1 k1 s2 z res2 r tok2 v s3 lfm' w res3 u tok3 k3 s4)
  have "length s1 < length s" "length s2 < length s1" "length s3 < length s2" "length s4 < length s3" using 2 scan_length by (metis)+
  then show ?case by simp
qed simp

declare parse_labels.simps [simp del]

definition parse_human_lfm_helper :: "byte list \<Rightarrow> (int + LFM \<times> byte list) option" where
  "parse_human_lfm_helper s = (case scan s of None \<Rightarrow> None | Some (Inl res) \<Rightarrow> Some (Inl res)
   | Some (Inr (tok, name, s)) \<Rightarrow>
       let finish = map_option (map_sum id (map_prod lfm_sort_labels id)) in
       if tok = IDENTIFIER_TOKEN then
         (case scan s of None \<Rightarrow> None | Some (Inl res) \<Rightarrow> Some (Inl res)
          | Some (Inr (tok, _, s)) \<Rightarrow>
              if tok = OPEN_BRACE_TOKEN then finish (parse_labels s (lfm_new (Some name)))
              else if tok = EOF_TOKEN then finish (Some (Inr (lfm_new (Some name), s)))
              else Some (Inl 1))
       else if tok = OPEN_BRACE_TOKEN then finish (parse_labels s (lfm_new (Some [])))
       else Some (Inl 1))"

definition parse_human_lfm :: "byte list \<Rightarrow> (int + LFM) option" where
  "parse_human_lfm s = map_option (map_sum id fst) (parse_human_lfm_helper s)"

text \<open>
  \<^verbatim>\<open>strtod\<close> is a parameter. The result has the value and, if there is one, the time.
\<close>

definition parse_human_lfm_and_value ::
  "(byte list \<Rightarrow> u64) \<Rightarrow> byte list \<Rightarrow> (int + LFM \<times> u64 \<times> i64 option) option" where
  "parse_human_lfm_and_value strtod s =
     (case parse_human_lfm_helper s of None \<Rightarrow> None | Some (Inl res) \<Rightarrow> Some (Inl res)
      | Some (Inr (lfm, s)) \<Rightarrow> (case scan s of None \<Rightarrow> None | Some (Inl res) \<Rightarrow> Some (Inl res)
      | Some (Inr (tok, _, s)) \<Rightarrow>
          if tok \<noteq> EQUAL_TOKEN then Some (Inl 1)
          else (case scan s of None \<Rightarrow> None | Some (Inl res) \<Rightarrow> Some (Inl res)
          | Some (Inr (tok, lit, s)) \<Rightarrow>
              if tok \<noteq> FLOAT_TOKEN \<and> tok \<noteq> INT_TOKEN then Some (Inl 1)
              else (case scan s of None \<Rightarrow> None | Some (Inl res) \<Rightarrow> Some (Inl res)
              | Some (Inr (tok, _, s)) \<Rightarrow>
                  if tok = EOF_TOKEN then Some (Inr (lfm, strtod lit, None))
                  else if tok \<noteq> AT_TOKEN then Some (Inl 1)
                  else (case scan s of None \<Rightarrow> None | Some (Inl res) \<Rightarrow> Some (Inl res)
                  | Some (Inr (tok, tlit, s)) \<Rightarrow>
                      if tok \<noteq> TIMESTAMP_TOKEN then Some (Inl 1)
                      else (case parse_time tlit of Inl res \<Rightarrow> Some (Inl res)
                        | Inr t \<Rightarrow> Some (Inr (lfm, strtod lit, Some t))))))))"

text \<open>\<^verbatim>\<open>m\<close> is the size of the buffer that the text is written to.\<close>

fun human_labels :: "nat \<Rightarrow> (byte list \<times> byte list) list \<Rightarrow> byte list" where
  "human_labels i [] = []"
| "human_labels i (m # ms) = (if i = 0 then 123 else 44) # fst m @ [61, 34] @ snd m @ [34] @ human_labels (i + 1) ms"

definition encode_human_lfm :: "LFM \<Rightarrow> byte list option" where
  "encode_human_lfm lfm =
     (let m = length (name_bytes lfm) + sum_list (map (\<lambda>l. 10 + length (fst l) + length (snd l)) (labels lfm)) + 1;
          t = name_bytes lfm @ (if labels lfm = [] then [] else human_labels 0 (labels lfm) @ [125])
      in if length t + 1 \<le> m then Some t else None)"

end
