(* ===== verification/Cli.thy ===== *)
theory Cli
  imports Client Lfm
begin

text \<open>
  The commands of the tool, \<^verbatim>\<open>src/cli/put.c\<close>, \<^verbatim>\<open>get.c\<close>, \<^verbatim>\<open>query.c\<close>, \<^verbatim>\<open>get_config.c\<close>, \<^verbatim>\<open>set_config.c\<close> and \<^verbatim>\<open>benchmark.c\<close>. A command takes the
  arguments behind its name and gives its exit code, what it has printed and the client at its end, which shows what was
  sent. The texts of the help are not modelled.

  What \<^verbatim>\<open>strtod\<close> reads and \<^verbatim>\<open>printf\<close> shows for a \<^verbatim>\<open>double\<close>, the clock, the files and what connecting to a host gives are parameters.
\<close>

section \<open>The surroundings\<close>

text \<open>How much one \<^verbatim>\<open>read\<close> of a file gives; when nothing is said any more, it gives as much as it can.\<close>

datatype read_event = Read_Some nat | Read_Error

record cli_env =
  cli_dial :: "byte list \<Rightarrow> int \<Rightarrow> client_env"
  cli_strtod :: "byte list \<Rightarrow> u64"
  cli_fmt_f :: "u64 \<Rightarrow> byte list"
  cli_clock :: "nat \<Rightarrow> i64"
  cli_open :: "byte list \<Rightarrow> (byte list \<times> read_event list) option"
  cli_stdin :: "byte list \<times> read_event list"
  cli_strerror :: "byte list"
  cli_stack :: mem

datatype cli_event = Print_Help | Stdout "byte list" | Stderr "byte list"

type_synonym cli_result = "(int \<times> cli_event list \<times> menoetius_client option) option"

text \<open>The client of a command, with its sizes of the buffers.\<close>

definition cli_client :: "client_env \<Rightarrow> menoetius_client" where
  "cli_client ve = (menoetius_client_init ve)\<lparr>read_buf_size := 1023 + 111, write_buf_size := 1023 + 103\<rparr>"

definition cli_help :: cmd_option where
  "cli_help = \<lparr>short_name = 104, long_name = bytes ''help'', value_addr = help_addr, opt_type = OPTION_FLAG, choices = []\<rparr>"

text \<open>The variable of the second option of a command.\<close>

definition flag_addr :: nat where "flag_addr = 2"

text \<open>What every command does first: it parses its options, and ends with an error or with the help.\<close>

definition with_options :: "cmd_option list \<Rightarrow> args \<Rightarrow> (args \<Rightarrow> opt_vars \<Rightarrow> cli_result) \<Rightarrow> cli_result" where
  "with_options options argv run = (case parse_options options argv (\<lambda>_. Int_value 0) of None \<Rightarrow> None
     | Some (res, argv, vars) \<Rightarrow>
         if res \<noteq> 0 then Some (res, [], None)
         else if vars help_addr \<noteq> Int_value 0 then Some (0, [Print_Help], None)
         else run argv vars)"

definition failed_to_parse :: "byte list \<Rightarrow> cli_event" where
  "failed_to_parse raw_lfm = Stderr (bytes ''failed to parse '' @ raw_lfm @ [10])"

section \<open>Points\<close>

text \<open>An error of the server does not end the loop, and the result is zero then.\<close>

fun put_loop :: "cli_env \<Rightarrow> client_env \<Rightarrow> nat \<Rightarrow> args \<Rightarrow> cli_event list \<Rightarrow> menoetius_client \<Rightarrow> cli_result" where
  "put_loop ve de i [] out c = None"
| "put_loop ve de i (None # argv) out c = Some (0, out, Some c)"
| "put_loop ve de i (Some raw_lfm # argv) out c =
     (case parse_human_lfm_and_value (cli_strtod ve) (raw_lfm @ [0]) of None \<Rightarrow> None
      | Some (Inl res) \<Rightarrow> Some (res, out @ [failed_to_parse raw_lfm], Some c)
      | Some (Inr (lfm, y, t)) \<Rightarrow>
          let t = (case t of None \<Rightarrow> cli_clock ve i | Some t \<Rightarrow> t);
              lfm_binary = encode_binary_lfm lfm
          in case menoetius_client_send_sync de lfm_binary (length lfm_binary) [(t, y)] c of None \<Rightarrow> None
             | Some (r, c) \<Rightarrow> put_loop ve de (i + 1) argv (if r = Inr 0 then out else out @ [Stderr (bytes ''failed to send data'' @ [10])]) c)"

definition run_put :: "cli_env \<Rightarrow> client_env \<Rightarrow> args \<Rightarrow> cli_result" where
  "run_put ve de argv = with_options [cli_help] argv (\<lambda>argv vars. put_loop ve de 0 argv [] (cli_client de))"

definition MAX_PTS :: nat where "MAX_PTS = 1024"

text \<open>The line for a point; a time whose year is not an \<^verbatim>\<open>int\<close> makes \<^verbatim>\<open>strftime\<close> use a null pointer.\<close>

definition point_line :: "cli_env \<Rightarrow> bool \<Rightarrow> i64 \<times> u64 \<Rightarrow> byte list option" where
  "point_line ve human_time q =
     (if human_time then (case gmtime (fst q) of None \<Rightarrow> None | Some x \<Rightarrow> Some (strftime x @ [32] @ cli_fmt_f ve (snd q) @ [10]))
      else Some (int_text (sint (fst q)) @ [32] @ cli_fmt_f ve (snd q) @ [10]))"

primrec print_points :: "cli_env \<Rightarrow> bool \<Rightarrow> (i64 \<times> u64) list \<Rightarrow> cli_event list \<Rightarrow> cli_event list option" where
  "print_points ve human_time [] out = Some out"
| "print_points ve human_time (q # qs) out = (case point_line ve human_time q of None \<Rightarrow> None | Some s \<Rightarrow> print_points ve human_time qs (out @ [Stdout s]))"

fun get_loop :: "cli_env \<Rightarrow> client_env \<Rightarrow> bool \<Rightarrow> args \<Rightarrow> cli_event list \<Rightarrow> menoetius_client \<Rightarrow> cli_result" where
  "get_loop ve de human_time [] out c = None"
| "get_loop ve de human_time (None # argv) out c = Some (0, out, Some c)"
| "get_loop ve de human_time (Some raw_lfm # argv) out c =
     (case parse_human_lfm (raw_lfm @ [0]) of None \<Rightarrow> None
      | Some (Inl res) \<Rightarrow> Some (res, out @ [failed_to_parse raw_lfm], Some c)
      | Some (Inr lfm) \<Rightarrow>
          let lfm_binary = encode_binary_lfm lfm in
          (case menoetius_client_get de lfm_binary (length lfm_binary) MAX_PTS c of None \<Rightarrow> None
           | Some (Inr (res, pts), c) \<Rightarrow>
               if res \<noteq> 0 then get_loop ve de human_time argv (out @ [Stderr (bytes ''failed to get data'' @ [10])]) c
               else (case print_points ve human_time pts out of None \<Rightarrow> None | Some out \<Rightarrow> get_loop ve de human_time argv out c)
           | Some (Inl res, c) \<Rightarrow> get_loop ve de human_time argv (out @ [Stderr (bytes ''failed to get data'' @ [10])]) c))"

definition get_options :: "cmd_option list" where
  "get_options = [\<lparr>short_name = 116, long_name = bytes ''time'', value_addr = flag_addr, opt_type = OPTION_FLAG, choices = []\<rparr>, cli_help]"

definition run_get :: "cli_env \<Rightarrow> client_env \<Rightarrow> args \<Rightarrow> cli_result" where
  "run_get ve de argv = with_options get_options argv (\<lambda>argv vars. get_loop ve de (vars flag_addr \<noteq> Int_value 0) argv [] (cli_client de))"

section \<open>Queries\<close>

text \<open>The name of a query is one of its labels.\<close>

definition matcher_labels :: "LFM \<Rightarrow> (byte list \<times> byte list) list option" where
  "matcher_labels lfm = (case lfm_name lfm of None \<Rightarrow> Some (labels lfm)
     | Some name \<Rightarrow> if name = [] then Some (labels lfm)
         else (case lfm_add_label_unsorted lfm (bytes ''__name__'') name of None \<Rightarrow> None | Some lfm \<Rightarrow> Some (labels (lfm_sort_labels lfm))))"

primrec print_results :: "byte list list \<Rightarrow> cli_event list \<Rightarrow> cli_event list option" where
  "print_results [] out = Some out"
| "print_results (s # ss) out =
     (case parse_binary_lfm s of None \<Rightarrow> None
      | Some (Inl res) \<Rightarrow> print_results ss (out @ [Stderr (bytes ''failed to parse result'' @ [10])])
      | Some (Inr lfm_result) \<Rightarrow> (case encode_human_lfm lfm_result of None \<Rightarrow> None | Some human_lfm \<Rightarrow> print_results ss (out @ [Stdout (human_lfm @ [10])])))"

definition query_message :: "int \<Rightarrow> byte list" where
  "query_message res =
     (if res = uint STATUS_MISSING_INDEX
      then bytes ''failed to query data: no suitible index found, use the --fullscan to allow a full scan; WARNING: this can degrade the server performance)'' @ [10]
      else bytes ''failed to query data: server_err='' @ int_text res @ [10])"

fun query_loop :: "client_env \<Rightarrow> bool \<Rightarrow> args \<Rightarrow> cli_event list \<Rightarrow> menoetius_client \<Rightarrow> cli_result" where
  "query_loop de full_scan [] out c = None"
| "query_loop de full_scan (None # argv) out c = Some (0, out, Some c)"
| "query_loop de full_scan (Some raw_lfm # argv) out c =
     (case parse_human_lfm (raw_lfm @ [0]) of None \<Rightarrow> None
      | Some (Inl res) \<Rightarrow> Some (res, out @ [failed_to_parse raw_lfm], Some c)
      | Some (Inr lfm_input) \<Rightarrow>
          (case matcher_labels lfm_input of None \<Rightarrow> None
           | Some matchers \<Rightarrow>
               (case menoetius_client_query de matchers full_scan 1024 c of None \<Rightarrow> None
                | Some (Inl res, c) \<Rightarrow> query_loop de full_scan argv (out @ [Stderr (query_message res)]) c
                | Some (Inr (status, results), c) \<Rightarrow>
                    if status \<noteq> 0 then query_loop de full_scan argv (out @ [Stderr (query_message (uint status))]) c
                    else (case print_results results out of None \<Rightarrow> None | Some out \<Rightarrow> query_loop de full_scan argv out c))))"

definition query_options :: "cmd_option list" where
  "query_options = [\<lparr>short_name = 102, long_name = bytes ''fullscan'', value_addr = flag_addr, opt_type = OPTION_FLAG, choices = []\<rparr>, cli_help]"

definition run_query :: "client_env \<Rightarrow> args \<Rightarrow> cli_result" where
  "run_query de argv = with_options query_options argv (\<lambda>argv vars. query_loop de (vars flag_addr \<noteq> Int_value 0) argv [] (cli_client de))"

section \<open>The configuration\<close>

definition MAX_CLUSTER_CONFIG :: nat where "MAX_CLUSTER_CONFIG = 1024 * 1024"

text \<open>These commands use the sizes of the buffers that the library sets.\<close>

definition run_get_config :: "client_env \<Rightarrow> args \<Rightarrow> cli_result" where
  "run_get_config de argv = with_options [cli_help] argv (\<lambda>argv vars.
     case argv of [] \<Rightarrow> None
     | Some a # _ \<Rightarrow> Some (1, [Stderr (bytes ''error: unexpected argument '' @ a @ [10])], None)
     | None # _ \<Rightarrow>
         (case menoetius_client_get_config de MAX_CLUSTER_CONFIG (menoetius_client_init de) of None \<Rightarrow> None
          | Some (Inl res, c) \<Rightarrow> Some (res, [Stderr (bytes ''failed to get cluster-config'' @ [10])], Some c)
          | Some (Inr cluster_config, c) \<Rightarrow> Some (0, [Stdout (takeWhile (\<lambda>b. b \<noteq> 0) cluster_config)], Some c)))"

text \<open>
  The loop that reads the file: every read goes to the start of the buffer, while the terminating zero is put behind the sum of what was
  read. The result of \<^verbatim>\<open>read\<close> is unsigned in the code, so that an error moves the position back by one.
\<close>

primrec read_config :: "read_event list \<Rightarrow> byte list \<Rightarrow> mem \<Rightarrow> int \<Rightarrow> int \<Rightarrow> mem option" where
  "read_config [] file buf p buf_avail =
     (let n = min (nat buf_avail) (length file) in
      if n = 0 then Some buf
      else do {
        buf \<leftarrow> mem_write buf 0 (take n file);
        mem_write buf (nat (p + int n)) [0] })"
| "read_config (e # es) file buf p buf_avail = (case e of
     Read_Some k \<Rightarrow>
       let n = min (nat buf_avail) (min (max 1 k) (length file)) in
       if n = 0 then Some buf
       else do {
         buf \<leftarrow> mem_write buf 0 (take n file);
         buf \<leftarrow> mem_write buf (nat (p + int n)) [0];
         read_config es (drop n file) buf (p + int n) (buf_avail - int n) }
   | Read_Error \<Rightarrow>
       if p \<le> 0 then None
       else do {
         buf \<leftarrow> mem_write buf (nat (p - 1)) [0];
         read_config es file buf (p - 1) (buf_avail + 1) })"

definition run_set_config :: "cli_env \<Rightarrow> client_env \<Rightarrow> args \<Rightarrow> cli_result" where
  "run_set_config ve de argv = with_options [cli_help] argv (\<lambda>argv vars.
     case argv of [] \<Rightarrow> None
     | None # _ \<Rightarrow> Some (1, [Stderr (bytes ''missing <PATH>'' @ [10])], None)
     | Some pathname # argv \<Rightarrow>
         (case argv of [] \<Rightarrow> None
          | Some a # _ \<Rightarrow> Some (1, [Stderr (bytes ''unexpected arg: '' @ a @ [10])], None)
          | None # _ \<Rightarrow>
              (case (if pathname = bytes ''-'' then Some (cli_stdin ve) else cli_open ve pathname) of None \<Rightarrow> Some (1, [Stderr (bytes ''failed to open '' @ pathname @ bytes '': '' @ cli_strerror ve @ [10])], None)
               | Some (file, es) \<Rightarrow> do {
                   buf \<leftarrow> read_config es file (take MAX_CLUSTER_CONFIG (cli_stack ve)) 0 (int MAX_CLUSTER_CONFIG);
                   len \<leftarrow> c_strlen buf;
                   case menoetius_client_set_config de (take len buf) (menoetius_client_init de) of None \<Rightarrow> None
                   | Some (Inl res, c) \<Rightarrow> Some (res, [Stderr (bytes ''failed to get cluster-config'' @ [10])], Some c)
                   | Some (Inr _, c) \<Rightarrow> Some (0, [], Some c) })))"

section \<open>The benchmark\<close>

definition metrics_addr :: nat where "metrics_addr = 3"
definition points_addr :: nat where "points_addr = 4"
definition batch_addr :: nat where "batch_addr = 5"

definition benchmark_options :: "cmd_option list" where
  "benchmark_options =
     [\<lparr>short_name = 109, long_name = bytes ''metrics'', value_addr = metrics_addr, opt_type = OPTION_INTEGER, choices = []\<rparr>,
      \<lparr>short_name = 112, long_name = bytes ''points'', value_addr = points_addr, opt_type = OPTION_INTEGER, choices = []\<rparr>,
      \<lparr>short_name = 98, long_name = bytes ''batch'', value_addr = batch_addr, opt_type = OPTION_INTEGER, choices = []\<rparr>, cli_help]"

definition benchmark_key :: "nat \<Rightarrow> byte list" where
  "benchmark_key i = bytes ''benchmark'' @ [0] @ bytes ''i'' @ [0] @ int_text (int i)"

text \<open>The points that are sent, in their order: one for each series, then the next for each series one second later. The value is 3.14.\<close>

definition benchmark_value :: u64 where "benchmark_value = 0x40091EB851EB851F"

primrec benchmark_sends :: "client_env \<Rightarrow> (nat \<times> i64) list \<Rightarrow> menoetius_client \<Rightarrow> ((int \<times> menoetius_client) option)" where
  "benchmark_sends de [] c = Some (0, c)"
| "benchmark_sends de (q # qs) c =
     (let k = benchmark_key (fst q) in
      case menoetius_client_send de k (length k) [(snd q, benchmark_value)] c of None \<Rightarrow> None
      | Some (Inl res, c) \<Rightarrow> Some (res, c)
      | Some (Inr status, c) \<Rightarrow> if status \<noteq> 0 then Some (uint status, c) else benchmark_sends de qs c)"

definition benchmark_points :: "nat \<Rightarrow> nat \<Rightarrow> i64 \<Rightarrow> (nat \<times> i64) list" where
  "benchmark_points num_metrics num_points t = concat (map (\<lambda>p. map (\<lambda>m. (m, t + of_nat p)) [0..<num_metrics]) [0..<num_points])"

text \<open>The progress and the times that are printed are not modelled. The product of the numbers must be
  an \<^verbatim>\<open>int\<close>, and memory for a negative number of series cannot be had.\<close>

definition run_benchmark :: "cli_env \<Rightarrow> client_env \<Rightarrow> args \<Rightarrow> cli_result" where
  "run_benchmark ve de argv = (case parse_options benchmark_options argv
       (\<lambda>x. Int_value (if x = metrics_addr then 10000 else if x = points_addr then 24 * 60 else if x = batch_addr then 1 else 0)) of None \<Rightarrow> None
     | Some (res, argv, vars) \<Rightarrow>
         if res \<noteq> 0 then Some (res, [], None)
         else if vars help_addr \<noteq> Int_value 0 then Some (0, [Print_Help], None)
         else (case (vars metrics_addr, vars points_addr) of (Int_value num_metrics, Int_value num_points) \<Rightarrow> do {
           _ \<leftarrow> c_assert (vars batch_addr = Int_value 1);
           let c = (menoetius_client_init de)\<lparr>read_buf_size := 128 * 1024, write_buf_size := 128 * 1024\<rparr>;
           _ \<leftarrow> c_assert (0 \<le> num_metrics \<and> \<bar>num_points * num_metrics\<bar> < 2 ^ 31);
           (res, c) \<leftarrow> benchmark_sends de (benchmark_points (nat num_metrics) (nat num_points) (cli_clock ve 0)) c;
           if res \<noteq> 0 then Some (res, [Stderr (bytes ''failed to send data'' @ [10])], Some c)
           else (case menoetius_client_flush de c of None \<Rightarrow> None
             | Some (Inl res, c) \<Rightarrow> Some (res, [Stderr (bytes ''failed to send data'' @ [10])], Some c)
             | Some (Inr status, c) \<Rightarrow> if status \<noteq> 0 then Some (uint status, [Stderr (bytes ''failed to send data'' @ [10])], Some c) else Some (0, [], Some c)) }
         | _ \<Rightarrow> None))"

section \<open>The tool\<close>

text \<open>Of \<^verbatim>\<open>main\<close> the messages for a wrong host or command are not modelled.\<close>

definition cli_tool :: "cli_env \<Rightarrow> args \<Rightarrow> cli_result" where
  "cli_tool ve argv = (case cli_main argv of None \<Rightarrow> None
     | Some (Cli_Help res) \<Rightarrow> Some (res, [Print_Help], None)
     | Some (Cli_Exit res) \<Rightarrow> Some (res, [], None)
     | Some (Cli_Run cmd host port argv) \<Rightarrow>
         let de = cli_dial ve (takeWhile (\<lambda>b. b \<noteq> 0) host) port in
         (case cmd of Run_help \<Rightarrow> Some (0, [Print_Help], None)
          | Run_put \<Rightarrow> run_put ve de argv
          | Run_get \<Rightarrow> run_get ve de argv
          | Run_get_config \<Rightarrow> run_get_config de argv
          | Run_set_config \<Rightarrow> run_set_config ve de argv
          | Run_query \<Rightarrow> run_query de argv
          | Run_benchmark \<Rightarrow> run_benchmark ve de argv))"

end
