(* ===== verification/Stream_Contract.thy ===== *)
theory Stream_Contract
  imports Structured_Stream
begin

text \<open>
  What the streams promise: a stream is a sequence of bytes that are still to be read and a sequence of bytes
  that have been written. Reading takes bytes from the first one, however the network cuts it into pieces;
  writing appends to the second one.
\<close>

section \<open>The bytes of a stream\<close>

definition incoming :: "structured_stream \<Rightarrow> byte list" where
  "incoming ss = take (read_n ss - read_i ss) (drop (read_i ss) (read_buf ss)) @ inbox (fd ss)"

definition outgoing :: "structured_stream \<Rightarrow> byte list" where
  "outgoing ss = sent (fd ss) @ take (write_i ss) (write_buf ss)"

text \<open>
  A stream in normal use, on a connection that does not fail and whose writes are complete (they are, on a
  blocking socket, unless a signal interrupts them).
\<close>

definition full_write :: "nat \<Rightarrow> io_event \<Rightarrow> bool" where
  "full_write n e = (case e of Io_Some k \<Rightarrow> n \<le> k | Io_Again \<Rightarrow> True | Io_Error \<Rightarrow> False)"

definition stream_ok :: "nat \<Rightarrow> nat \<Rightarrow> structured_stream \<Rightarrow> bool" where
  "stream_ok rn wn ss \<longleftrightarrow> read_i ss \<le> read_n ss \<and> read_n ss \<le> rn \<and> write_i ss \<le> wn \<and>
     length (read_buf ss) = rn \<and> length (write_buf ss) = wn \<and> rn < 2 ^ 31 \<and> wn < 2 ^ 31 \<and>
     allowed_io ss \<and> allowed_discard ss \<and> Io_Error \<notin> set (rx (fd ss)) \<and> (\<forall>e\<in>set (tx (fd ss)). full_write wn e)"

definition at :: "nat \<Rightarrow> nat \<Rightarrow> byte list \<Rightarrow> byte list \<Rightarrow> structured_stream \<Rightarrow> bool" where
  "at rn wn inp out ss \<longleftrightarrow> stream_ok rn wn ss \<and> incoming ss = inp \<and> outgoing ss = out"

section \<open>Reading\<close>

lemma sock_read_ok:
  assumes "Io_Error \<notin> set (rx s)" "0 < n"
  obtains (retry) s' where "sock_read s n = (Io_Retry, s')" "inbox s' = inbox s" "sent s' = sent s" "tx s' = tx s" "set (rx s') \<subseteq> set (rx s)"
  | (data) d s' where "sock_read s n = (Io_Done d, s')" "inbox s = d @ inbox s'" "sent s' = sent s" "tx s' = tx s" "set (rx s') \<subseteq> set (rx s)"
      "length d \<le> n" "d = [] \<longleftrightarrow> inbox s = []"
proof (cases "rx s")
  case Nil
  then show thesis using assms by (intro data [of "take n (inbox s)" "s\<lparr>inbox := drop n (inbox s)\<rparr>"]) (auto simp: sock_read_def recv_up_to_def)
next
  case (Cons e es)
  show thesis
  proof (cases e)
    case (Io_Some k)
    let ?m = "min n (max 1 k)"
    show thesis using Cons Io_Some assms
      by (intro data [of "take ?m (inbox s)" "s\<lparr>rx := es, inbox := drop ?m (inbox s)\<rparr>"]) (auto simp: sock_read_def recv_up_to_def)
  qed (use Cons assms in \<open>auto intro: retry simp: sock_read_def\<close>)
qed

lemma read_loop_ok:
  assumes "stream_ok rn wn ss" "read_n ss + max_space = rn" "0 < needed" "needed \<le> max_space"
  shows "\<exists>r ss'. ensure_read_loop needed max_space ss = Some (r, ss') \<and> stream_ok rn wn ss' \<and> incoming ss' = incoming ss \<and> outgoing ss' = outgoing ss \<and>
    (if needed \<le> length (inbox (fd ss)) then r = Inr () \<and> read_i ss' = read_i ss \<and> read_n ss + needed \<le> read_n ss'
     else r = Inl ERR_STRUCTURED_STREAM_EOF)"
  using assms
proof (induction needed max_space ss rule: ensure_read_loop.induct)
  case (1 needed max_space ss)
  have ok: "Io_Error \<notin> set (rx (fd ss))" "0 < max_space" using "1.prems" by (auto simp: stream_ok_def)
  then have ms: "max_space \<noteq> 0" by simp
  show ?case
  proof (cases rule: sock_read_ok [OF ok, case_names retry data])
    case (retry s')
    have "stream_ok rn wn (ss\<lparr>fd := s'\<rparr>)" using "1.prems"(1) retry by (auto simp: stream_ok_def)
    note ih = "1.IH"(2) [OF ms retry(1) [symmetric] refl this]
    have "ensure_read_loop needed max_space ss = ensure_read_loop needed max_space (ss\<lparr>fd := s'\<rparr>)"
      using ok retry(1) by (subst ensure_read_loop.simps) simp
    moreover have "incoming (ss\<lparr>fd := s'\<rparr>) = incoming ss" "outgoing (ss\<lparr>fd := s'\<rparr>) = outgoing ss"
      using retry by (simp_all add: incoming_def outgoing_def)
    moreover have "read_n (ss\<lparr>fd := s'\<rparr>) = read_n ss" "read_i (ss\<lparr>fd := s'\<rparr>) = read_i ss" "inbox (fd (ss\<lparr>fd := s'\<rparr>)) = inbox (fd ss)"
      using retry(2) by simp_all
    ultimately show ?thesis using ih "1.prems"(2-4) by (simp only: simp_thms)
  next
    case (data d s')
    show ?thesis
    proof (cases "d = []")
      case True
      then have "stream_ok rn wn (ss\<lparr>fd := s'\<rparr>)" using "1.prems"(1) data(4,5) by (auto simp: stream_ok_def)
      moreover have e: "inbox (fd ss) = []" using True data(7) by simp
      moreover have "inbox s' = []" using data(2) unfolding e by simp
      moreover note data(3)
      ultimately show ?thesis using True ok data(1) "1.prems"(3) by (subst ensure_read_loop.simps) (simp add: incoming_def outgoing_def)
    next
      case False
      let ?buf = "take (read_n ss) (read_buf ss) @ d @ drop (read_n ss + length d) (read_buf ss)"
      define ss2 where "ss2 = ss\<lparr>fd := s', read_buf := ?buf, read_n := read_n ss + length d\<rparr>"
      have l: "read_n ss + length d \<le> length (read_buf ss)" using "1.prems"(1,2) data(6) by (simp add: stream_ok_def)
      then have g: "got_bytes d s' ss = Some ss2" by (simp add: got_bytes_def mem_write_def ss2_def)
      have f: "fd ss2 = s'" "read_n ss2 = read_n ss + length d" "read_i ss2 = read_i ss" by (simp_all add: ss2_def)
      have sok: "stream_ok rn wn ss2" using "1.prems"(1) data(4,5) l by (auto simp: stream_ok_def ss2_def)
      have inc: "incoming ss2 = incoming ss" "outgoing ss2 = outgoing ss"
        using "1.prems"(1) data(2,3) l by (simp_all add: incoming_def outgoing_def stream_ok_def drop_take ss2_def)
      show ?thesis
      proof (cases "length d < needed")
        case True
        have "read_n ss2 + (max_space - length d) = rn" "0 < needed - length d" "needed - length d \<le> max_space - length d"
          using True "1.prems"(2,4) f(2) data(6) by simp_all
        from "1.IH"(1) [OF ms data(1) [symmetric] refl False g True sok this]
        obtain r ss' where r: "ensure_read_loop (needed - length d) (max_space - length d) ss2 = Some (r, ss')" "stream_ok rn wn ss'"
          "incoming ss' = incoming ss" "outgoing ss' = outgoing ss"
          "if needed - length d \<le> length (inbox s') then r = Inr () \<and> read_i ss' = read_i ss \<and> read_n ss + length d + (needed - length d) \<le> read_n ss'
           else r = Inl ERR_STRUCTURED_STREAM_EOF" unfolding f inc by blast
        have "ensure_read_loop needed max_space ss = Some (r, ss')" using ok data(1) False g True r(1) by (subst ensure_read_loop.simps) simp
        moreover have "needed - length d \<le> length (inbox s') \<longleftrightarrow> needed \<le> length (inbox (fd ss))" using True data(2) by auto
        ultimately show ?thesis using r(2-5) True by (intro exI [of _ r] exI [of _ ss']) (auto split: if_splits)
      next
        case nl: False
        moreover have "needed \<le> length (inbox (fd ss))" using nl data(2) by simp
        ultimately show ?thesis using ok data(1) False g sok inc f by (subst ensure_read_loop.simps) simp
      qed
    qed
  qed
qed

lemma ensure_read_ok:
  assumes "stream_ok rn wn ss" "n \<le> rn"
  shows "\<exists>r ss'. structured_stream_ensure_read n ss = Some (r, ss') \<and> stream_ok rn wn ss' \<and> incoming ss' = incoming ss \<and> outgoing ss' = outgoing ss \<and>
    (if n \<le> length (incoming ss) then r = Inr () \<and> n \<le> read_n ss' - read_i ss' else r = Inl ERR_STRUCTURED_STREAM_EOF)"
proof -
  let ?avail = "read_n ss - read_i ss"
  have o: "read_i ss \<le> read_n ss" "read_n ss \<le> rn" "length (read_buf ss) = rn" "rn < 2 ^ 31" "allowed_io ss" "allowed_discard ss"
    using assms(1) by (simp_all add: stream_ok_def)
  have len: "length (incoming ss) = ?avail + length (inbox (fd ss))" using o by (simp add: incoming_def)
  show ?thesis
  proof (cases "n \<le> ?avail")
    case True
    then show ?thesis using assms(1) o len by (auto simp: structured_stream_ensure_read_def Let_def)
  next
    case False
    define ss1 where "ss1 = (if read_i ss > 0 \<and> allowed_discard ss
      then ss\<lparr>read_buf := take ?avail (drop (read_i ss) (read_buf ss)) @ drop ?avail (read_buf ss), read_n := ?avail, read_i := 0\<rparr> else ss)"
    have s1: "stream_ok rn wn ss1" "incoming ss1 = incoming ss" "outgoing ss1 = outgoing ss" "fd ss1 = fd ss" "read_i ss1 = 0" "read_n ss1 = ?avail"
      using assms(1) o by (auto simp: ss1_def stream_ok_def incoming_def outgoing_def)
    have sz: "sz_sub n (read_n ss1) = n - ?avail" "sz_sub (length (read_buf ss1)) (read_n ss1) = rn - ?avail"
      using s1(1,6) False assms(2) o by (auto simp: stream_ok_def)
    have pre: "read_n ss1 + (rn - ?avail) = rn" "0 < n - ?avail" "n - ?avail \<le> rn - ?avail" using s1(6) o False assms(2) by auto
    have "structured_stream_ensure_read n ss = ensure_read_loop (n - ?avail) (rn - ?avail) ss1"
      using False o(1,5) pre(3) unfolding structured_stream_ensure_read_def by (simp add: Let_def ss1_def [symmetric] sz)
    moreover have "n - ?avail \<le> length (inbox (fd ss1)) \<longleftrightarrow> n \<le> length (incoming ss)" using len s1(4) False by auto
    moreover obtain r ss' where "ensure_read_loop (n - ?avail) (rn - ?avail) ss1 = Some (r, ss')" "stream_ok rn wn ss'" "incoming ss' = incoming ss1"
      "outgoing ss' = outgoing ss1" "if n - ?avail \<le> length (inbox (fd ss1)) then r = Inr () \<and> read_i ss' = read_i ss1 \<and> read_n ss1 + (n - ?avail) \<le> read_n ss'
        else r = Inl ERR_STRUCTURED_STREAM_EOF" using read_loop_ok [OF s1(1) pre] by blast
    ultimately show ?thesis using s1 False by (intro exI [of _ r] exI [of _ ss']) (auto split: if_splits)
  qed
qed

lemma gives_read_bytes:
  assumes "length bs \<le> rn"
  shows "gives (at rn wn (bs @ inp) out) (structured_stream_read_bytes (length bs)) (Inr bs) (at rn wn inp out)"
proof (rule givesI)
  fix ss assume "at rn wn (bs @ inp) out ss"
  then have a: "stream_ok rn wn ss" "incoming ss = bs @ inp" "outgoing ss = out" by (simp_all add: at_def)
  from ensure_read_ok [OF a(1) assms] a(2) obtain ss' where e: "structured_stream_ensure_read (length bs) ss = Some (Inr (), ss')"
    "stream_ok rn wn ss'" "incoming ss' = bs @ inp" "outgoing ss' = outgoing ss" "length bs \<le> read_n ss' - read_i ss'" by auto
  let ?p = "take (read_n ss' - read_i ss') (drop (read_i ss') (read_buf ss'))" let ?ss = "ss'\<lparr>read_i := read_i ss' + length bs\<rparr>"
  have r: "read_i ss' + length bs \<le> read_n ss'" "read_n ss' \<le> length (read_buf ss')" using e(2,5) assms by (auto simp: stream_ok_def)
  have "take (length bs) (incoming ss') = bs" "drop (length bs) (incoming ss') = inp" using e(3) by simp_all
  then have b: "take (length bs) (drop (read_i ss') (read_buf ss')) = bs" "incoming ?ss = inp"
    using r by (simp_all add: incoming_def drop_take add.commute)
  have "advance_read (length bs) ss' = Some (Inr bs, ?ss)" using r b(1) by (simp add: advance_read_def mem_read_def)
  moreover have "at rn wn inp out ?ss" using e(2,4) a(3) b(2) r(1) by (simp add: at_def stream_ok_def outgoing_def)
  ultimately show "\<exists>s'. structured_stream_read_bytes (length bs) ss = Some (Inr bs, s') \<and> at rn wn inp out s'"
    using e(1) by (simp add: structured_stream_read_bytes_def andthen_def)
qed

lemma gives_ensure_read: "n \<le> rn \<Longrightarrow> n \<le> length inp \<Longrightarrow> gives (at rn wn inp out) (structured_stream_ensure_read n) (Inr ()) (at rn wn inp out)"
  using ensure_read_ok by (fastforce simp: gives_def at_def)

lemma gives_read_eof:
  assumes "n \<le> rn" "length inp < n"
  shows "gives (at rn wn inp out) (structured_stream_read_bytes n) (Inl ERR_STRUCTURED_STREAM_EOF) (at rn wn inp out)"
proof (unfold structured_stream_read_bytes_def, rule gives_andthen_error, rule givesI)
  fix ss assume a: "at rn wn inp out ss"
  then have "stream_ok rn wn ss" by (simp add: at_def)
  from ensure_read_ok [OF this assms(1)] a assms(2)
  show "\<exists>s'. structured_stream_ensure_read n ss = Some (Inl ERR_STRUCTURED_STREAM_EOF, s') \<and> at rn wn inp out s'" by (auto simp: at_def)
qed

text \<open>Bytes with their length in front.\<close>

definition prefixed :: "byte list \<Rightarrow> byte list" where
  "prefixed bs = le_bytes (of_nat (length bs) :: u16) @ bs"

lemma length_prefixed [simp]: "length (prefixed bs) = length bs + 2"
  by (simp add: prefixed_def)

lemma buffered:
  assumes "at rn wn (bs @ inp) out ss" "length bs \<le> read_n ss - read_i ss"
  shows "mem_read (read_buf ss) (read_i ss) (length bs) = Some bs" "read_i ss + length bs \<le> read_n ss"
    "at rn wn inp out (ss\<lparr>read_i := read_i ss + length bs\<rparr>)"
proof -
  have o: "stream_ok rn wn ss" "incoming ss = bs @ inp" using assms(1) by (simp_all add: at_def)
  show r: "read_i ss + length bs \<le> read_n ss" using o(1) assms(2) by (auto simp: stream_ok_def)
  have n: "read_n ss \<le> length (read_buf ss)" using o(1) by (simp add: stream_ok_def)
  have "take (length bs) (incoming ss) = bs" "drop (length bs) (incoming ss) = inp" using o(2) by simp_all
  then have b: "take (length bs) (drop (read_i ss) (read_buf ss)) = bs" "incoming (ss\<lparr>read_i := read_i ss + length bs\<rparr>) = inp"
    using r n by (simp_all add: incoming_def drop_take add.commute)
  then show "mem_read (read_buf ss) (read_i ss) (length bs) = Some bs" using r n by (simp add: mem_read_def)
  show "at rn wn inp out (ss\<lparr>read_i := read_i ss + length bs\<rparr>)" using o(1) assms(1) b(2) r by (simp add: at_def stream_ok_def outgoing_def)
qed

lemma ensure_then:
  assumes "at rn wn inp out ss" "n \<le> rn" "n \<le> length inp"
  obtains ss' where "structured_stream_ensure_read n ss = Some (Inr (), ss')" "at rn wn inp out ss'" "n \<le> read_n ss' - read_i ss'"
  using ensure_read_ok [of rn wn ss n] assms by (auto simp: at_def)

lemma gives_read_prefixed:
  assumes "length bs < 2 ^ 16" "length bs + 2 \<le> rn"
  shows "gives (at rn wn (prefixed bs @ inp) out) structured_stream_read_uint16_prefixed_bytes_inplace (Inr bs) (at rn wn inp out)"
proof (rule givesI)
  let ?w = "of_nat (length bs) :: u16"
  have w: "unat ?w = length bs" using assms(1) by (simp add: unat_of_nat)
  fix ss assume a: "at rn wn (prefixed bs @ inp) out ss"
  obtain s1 where s1: "structured_stream_ensure_read 2 ss = Some (Inr (), s1)" "at rn wn (le_bytes ?w @ bs @ inp) out s1" "2 \<le> read_n s1 - read_i s1"
    using ensure_then [OF a, of 2] assms(2) by (auto simp: prefixed_def)
  note b = buffered [OF s1(2)]
  have r1: "structured_stream_read_uint16 ss = Some (Inr ?w, s1\<lparr>read_i := read_i s1 + 2\<rparr>)"
    using s1 b by (simp add: structured_stream_read_uint16_def structured_stream_read_bytes_def advance_read_def andthen_def ret_def le_word_le_bytes)
  have "at rn wn (prefixed bs @ inp) out s1" using s1(2) by (simp add: prefixed_def)
  then obtain s2 where s2: "structured_stream_ensure_read (length bs + 2) s1 = Some (Inr (), s2)" "at rn wn (prefixed bs @ inp) out s2"
    "length (prefixed bs) \<le> read_n s2 - read_i s2" using ensure_then [of rn wn "prefixed bs @ inp" out s1 "length bs + 2"] assms(2) by auto
  have "at rn wn (le_bytes ?w @ bs @ inp) out s2" "length (le_bytes ?w) \<le> read_n s2 - read_i s2" using s2(2,3) by (simp_all add: prefixed_def)
  note c = buffered [OF this]
  have "length bs \<le> read_n (s2\<lparr>read_i := read_i s2 + 2\<rparr>) - read_i (s2\<lparr>read_i := read_i s2 + 2\<rparr>)" using s2(3) by simp
  note d = buffered [OF c(3), simplified, OF this [simplified]]
  have "advance_read (length bs) (s2\<lparr>read_i := read_i s2 + 2\<rparr>) = Some (Inr bs, s2\<lparr>read_i := read_i s2 + 2 + length bs\<rparr>)"
    using d by (simp add: advance_read_def)
  then have "structured_stream_read_uint16_prefixed_bytes_inplace ss = Some (Inr bs, s2\<lparr>read_i := read_i s2 + 2 + length bs\<rparr>)"
    using r1 s2(1) w by (simp add: structured_stream_read_uint16_prefixed_bytes_inplace_def andthen_def modify_def on_error_def)
  then show "\<exists>s'. structured_stream_read_uint16_prefixed_bytes_inplace ss = Some (Inr bs, s') \<and> at rn wn inp out s'" using d by simp
qed

section \<open>Writing\<close>

lemma flush_loop_ok:
  assumes "stream_ok rn wn ss"
  shows "\<exists>ss'. flush_loop ss = Some (Inr (), ss') \<and> stream_ok rn wn ss' \<and> incoming ss' = incoming ss \<and> outgoing ss' = outgoing ss \<and> write_i ss' = 0"
  using assms
proof (induction ss rule: flush_loop.induct)
  case (1 ss)
  show ?case
  proof (cases "write_i ss = 0")
    case True
    then show ?thesis using "1.prems" by (subst flush_loop.simps) simp
  next
    case False
    let ?bs = "take (write_i ss) (write_buf ss)" and ?s = "fd ss"
    have l: "\<not> write_i ss > length (write_buf ss)" "length ?bs = write_i ss" using "1.prems" by (simp_all add: stream_ok_def)
    show ?thesis
    proof (cases "\<exists>es. tx ?s = Io_Again # es")
      case True
      then obtain es where es: "tx ?s = Io_Again # es" by blast
      let ?ss = "ss\<lparr>fd := ?s\<lparr>tx := es\<rparr>\<rparr>"
      have w: "sock_write ?s ?bs = (Io_Retry, ?s\<lparr>tx := es\<rparr>)" using es by (simp add: sock_write_def)
      have "stream_ok rn wn ?ss" using "1.prems" es by (auto simp: stream_ok_def)
      moreover have "incoming ?ss = incoming ss" "outgoing ?ss = outgoing ss" by (simp_all add: incoming_def outgoing_def)
      moreover have "flush_loop ss = flush_loop ?ss" using False l(1) w by (subst flush_loop.simps) simp
      ultimately show ?thesis using "1.IH"(2) [OF False l(1) w [symmetric] refl] by metis
    next
      case na: False
      obtain es where w: "sock_write ?s ?bs = (Io_Done (write_i ss), ?s\<lparr>tx := es, sent := sent ?s @ ?bs\<rparr>)" "set es \<subseteq> set (tx ?s)"
      proof (cases "tx ?s")
        case Nil
        then show thesis using l(2) by (intro that [of "[]"]) (simp_all add: sock_write_def send_up_to_def)
      next
        case (Cons e es)
        then have "full_write wn e" "e \<noteq> Io_Again" "write_i ss \<le> wn" using "1.prems" na by (auto simp: stream_ok_def)
        then obtain k where "e = Io_Some k" "write_i ss \<le> max 1 k" by (cases e) (auto simp: full_write_def)
        then show thesis using Cons l(2) by (intro that [of es]) (auto simp: sock_write_def send_up_to_def)
      qed
      let ?ss = "ss\<lparr>fd := ?s\<lparr>tx := es, sent := sent ?s @ ?bs\<rparr>, write_i := 0\<rparr>"
      have "flush_loop ss = flush_loop ?ss" using False l(1) w(1) by (subst flush_loop.simps) simp
      also have "\<dots> = Some (Inr (), ?ss)" by (subst flush_loop.simps) simp
      finally show ?thesis using "1.prems" w(2) by (auto simp: stream_ok_def incoming_def outgoing_def)
    qed
  qed
qed

definition flushed :: "nat \<Rightarrow> nat \<Rightarrow> byte list \<Rightarrow> byte list \<Rightarrow> structured_stream \<Rightarrow> bool" where
  "flushed rn wn inp out ss \<longleftrightarrow> at rn wn inp out ss \<and> write_i ss = 0"

lemma gives_flush: "gives (at rn wn inp out) structured_stream_flush (Inr ()) (flushed rn wn inp out)"
proof (rule givesI)
  fix ss assume "at rn wn inp out ss"
  then have a: "stream_ok rn wn ss" "incoming ss = inp" "outgoing ss = out" "allowed_io ss" by (simp_all add: at_def stream_ok_def)
  from flush_loop_ok [OF a(1)] show "\<exists>s'. structured_stream_flush ss = Some (Inr (), s') \<and> flushed rn wn inp out s'"
    using a by (auto simp: structured_stream_flush_def flushed_def at_def)
qed

lemma gives_ensure_write:
  assumes "n \<le> wn"
  shows "gives (at rn wn inp out) (structured_stream_ensure_write n) (Inr ()) (\<lambda>ss. at rn wn inp out ss \<and> write_i ss + n \<le> wn)"
proof (rule givesI)
  fix ss assume a: "at rn wn inp out ss"
  then have s: "sz_sub (length (write_buf ss)) (write_i ss) = wn - write_i ss" "write_i ss \<le> wn" "length (write_buf ss) = wn"
    by (auto simp: at_def stream_ok_def)
  obtain s' where f: "structured_stream_flush ss = Some (Inr (), s')" "flushed rn wn inp out s'" using givesD [OF gives_flush a] by blast
  show "\<exists>s'. structured_stream_ensure_write n ss = Some (Inr (), s') \<and> at rn wn inp out s' \<and> write_i s' + n \<le> wn"
  proof (cases "n \<le> wn - write_i ss")
    case True
    then show ?thesis using s a by (auto simp: structured_stream_ensure_write_def Let_def)
  next
    case False
    then show ?thesis using s f assms by (simp add: structured_stream_ensure_write_def Let_def flushed_def)
  qed
qed

lemma gives_write_bytes:
  assumes "length bs \<le> wn"
  shows "gives (at rn wn inp out) (structured_stream_write_bytes bs) (Inr ()) (at rn wn inp (out @ bs))"
  unfolding structured_stream_write_bytes_def
proof (rule gives_andthen [OF gives_ensure_write [OF assms]], rule givesI)
  fix ss assume a: "at rn wn inp out ss \<and> write_i ss + length bs \<le> wn"
  then have l: "write_i ss + length bs \<le> length (write_buf ss)" "write_i ss \<le> length (write_buf ss)" by (simp_all add: at_def stream_ok_def)
  let ?buf = "take (write_i ss) (write_buf ss) @ bs @ drop (write_i ss + length bs) (write_buf ss)"
  have "mem_write (write_buf ss) (write_i ss) bs = Some ?buf" using l by (simp add: mem_write_def)
  moreover have "at rn wn inp (out @ bs) (ss\<lparr>write_buf := ?buf, write_i := write_i ss + length bs\<rparr>)"
    using a l by (auto simp: at_def stream_ok_def incoming_def outgoing_def)
  ultimately show "\<exists>s'. Option.bind (mem_write (write_buf ss) (write_i ss) bs)
      (\<lambda>buf. Some (Inr (), ss\<lparr>write_buf := buf, write_i := write_i ss + length bs\<rparr>)) = Some (Inr (), s') \<and> at rn wn inp (out @ bs) s'" by simp
qed

text \<open>A request or a response that does not fit the buffer cannot be written.\<close>

lemma gives_write_too_long:
  assumes "wn < length bs"
  shows "gives (at rn wn inp out) (structured_stream_write_bytes bs) (Inl ERR_STRUCTURED_STREAM_BUF_TOO_SMALL) (at rn wn inp out)"
  unfolding structured_stream_write_bytes_def
proof (rule gives_andthen_error, rule givesI)
  fix ss assume a: "at rn wn inp out ss"
  then have "sz_sub (length (write_buf ss)) (write_i ss) = wn - write_i ss" "length (write_buf ss) = wn" by (auto simp: at_def stream_ok_def)
  then show "\<exists>s'. structured_stream_ensure_write (length bs) ss = Some (Inl ERR_STRUCTURED_STREAM_BUF_TOO_SMALL, s') \<and> at rn wn inp out s'"
    using a assms by (auto simp: structured_stream_ensure_write_def Let_def)
qed

section \<open>The contract\<close>

text \<open>
  A stream of bytes in two directions: \<open>holds inp out\<close> says that \<open>inp\<close> is still to be read and \<open>out\<close> has been
  written so far. Values are read and written in the order of their bytes.
\<close>

locale byte_stream =
  fixes holds :: "byte list \<Rightarrow> byte list \<Rightarrow> 's \<Rightarrow> bool"
    and get :: "nat \<Rightarrow> ('s, byte list) prog"
    and put :: "byte list \<Rightarrow> ('s, unit) prog"
    and rcap :: nat
    and wcap :: nat
  assumes get_law: "length bs \<le> rcap \<Longrightarrow> gives (holds (bs @ inp) out) (get (length bs)) (Inr bs) (holds inp out)"
    and end_law: "length inp < n \<Longrightarrow> n \<le> rcap \<Longrightarrow> gives (holds inp out) (get n) (Inl ERR_STRUCTURED_STREAM_EOF) (holds inp out)"
    and put_law: "length bs \<le> wcap \<Longrightarrow> gives (holds inp out) (put bs) (Inr ()) (holds inp (out @ bs))"
begin

lemma get_word:
  fixes w :: "'a::len word"
  assumes "n = LENGTH('a) div 8" "8 dvd LENGTH('a)" "n \<le> rcap"
  shows "gives (holds (le_bytes w @ inp) out) (andthen (get n) (\<lambda>bs. ret (le_word bs))) (Inr w) (holds inp out)"
proof (rule gives_andthen)
  show "gives (holds (le_bytes w @ inp) out) (get n) (Inr (le_bytes w)) (holds inp out)"
    using get_law [of "le_bytes w" inp out] assms by simp
  show "gives (holds inp out) (ret (le_word (le_bytes w))) (Inr w) (holds inp out)"
    unfolding le_word_le_bytes [OF assms(2)] by (rule gives_ret)
qed

lemma put_word:
  fixes w :: "'a::len word"
  assumes "LENGTH('a) div 8 \<le> wcap"
  shows "gives (holds inp out) (put (le_bytes w)) (Inr ()) (holds inp (out @ le_bytes w))"
  by (rule put_law) (use assms in simp)

lemma put_all:
  assumes "\<forall>bs\<in>set bss. length bs \<le> wcap"
  shows "gives (holds inp out) (for_list put bss) (Inr (map (\<lambda>_. ()) bss)) (holds inp (out @ concat bss))"
  using assms
proof (induction bss arbitrary: out)
  case Nil
  show ?case by (simp add: gives_ret)
next
  case (Cons bs bss)
  have 1: "gives (holds inp (out @ bs)) (for_list put bss) (Inr (map (\<lambda>_. ()) bss)) (holds inp (out @ bs @ concat bss))"
    using Cons.IH [of "out @ bs"] Cons.prems by simp
  show ?case unfolding for_list.simps list.map concat.simps
  proof (rule gives_andthen)
    show "gives (holds inp out) (put bs) (Inr ()) (holds inp (out @ bs))" using put_law Cons.prems by simp
    show "gives (holds inp (out @ bs)) (andthen (for_list put bss) (\<lambda>ys. ret (() # ys))) (Inr (() # map (\<lambda>_. ()) bss)) (holds inp (out @ bs @ concat bss))"
      by (rule gives_andthen [OF 1]) (simp add: gives_ret)
  qed
qed

lemma get_all:
  assumes "\<forall>bs\<in>set bss. length bs \<le> rcap"
  shows "gives (holds (concat bss @ inp) out) (for_list (\<lambda>bs. get (length bs)) bss) (Inr bss) (holds inp out)"
  using assms
proof (induction bss)
  case Nil
  show ?case by (simp add: gives_ret)
next
  case (Cons bs bss)
  have 1: "gives (holds (concat bss @ inp) out) (for_list (\<lambda>bs. get (length bs)) bss) (Inr bss) (holds inp out)" using Cons by simp
  show ?case unfolding for_list.simps concat.simps append_assoc
  proof (rule gives_andthen)
    show "gives (holds (bs @ concat bss @ inp) out) (get (length bs)) (Inr bs) (holds (concat bss @ inp) out)" using get_law Cons.prems by simp
    show "gives (holds (concat bss @ inp) out) (andthen (for_list (\<lambda>bs. get (length bs)) bss) (\<lambda>ys. ret (bs # ys))) (Inr (bs # bss)) (holds inp out)"
      by (rule gives_andthen [OF 1]) (simp add: gives_ret)
  qed
qed

end

interpretation st: byte_stream "at rn wn" structured_stream_read_bytes structured_stream_write_bytes rn wn for rn wn
proof unfold_locales
  show "gives (at rn wn (bs @ inp) out) (structured_stream_read_bytes (length bs)) (Inr bs) (at rn wn inp out)"
    if "length bs \<le> rn" for bs inp out using that by (rule gives_read_bytes)
  show "gives (at rn wn inp out) (structured_stream_read_bytes n) (Inl ERR_STRUCTURED_STREAM_EOF) (at rn wn inp out)"
    if "length inp < n" "n \<le> rn" for inp n out using that(2,1) by (rule gives_read_eof)
  show "gives (at rn wn inp out) (structured_stream_write_bytes bs) (Inr ()) (at rn wn inp (out @ bs))"
    if "length bs \<le> wn" for bs inp out using that by (rule gives_write_bytes)
qed

lemma gives_read_uint8: "1 \<le> rn \<Longrightarrow> gives (at rn wn (le_bytes w @ inp) out) structured_stream_read_uint8 (Inr w) (at rn wn inp out)"
  unfolding structured_stream_read_uint8_def by (rule st.get_word) simp_all

lemma gives_read_uint16: "2 \<le> rn \<Longrightarrow> gives (at rn wn (le_bytes w @ inp) out) structured_stream_read_uint16 (Inr w) (at rn wn inp out)"
  unfolding structured_stream_read_uint16_def by (rule st.get_word) simp_all

lemma gives_read_uint32: "4 \<le> rn \<Longrightarrow> gives (at rn wn (le_bytes w @ inp) out) structured_stream_read_uint32 (Inr w) (at rn wn inp out)"
  unfolding structured_stream_read_uint32_def by (rule st.get_word) simp_all

lemma gives_read_uint64: "8 \<le> rn \<Longrightarrow> gives (at rn wn (le_bytes w @ inp) out) structured_stream_read_uint64 (Inr w) (at rn wn inp out)"
  unfolding structured_stream_read_uint64_def by (rule st.get_word) simp_all

lemma gives_read_int64: "8 \<le> rn \<Longrightarrow> gives (at rn wn (le_bytes w @ inp) out) structured_stream_read_int64 (Inr w) (at rn wn inp out)"
  unfolding structured_stream_read_int64_def by (rule st.get_word) simp_all

lemma gives_read_double: "8 \<le> rn \<Longrightarrow> gives (at rn wn (le_bytes w @ inp) out) structured_stream_read_double (Inr w) (at rn wn inp out)"
  unfolding structured_stream_read_double_def by (rule st.get_word) simp_all

lemma gives_write_uint8: "1 \<le> wn \<Longrightarrow> gives (at rn wn inp out) (structured_stream_write_uint8 w) (Inr ()) (at rn wn inp (out @ le_bytes w))"
  unfolding structured_stream_write_uint8_def by (rule st.put_word) simp

lemma gives_write_uint16: "2 \<le> wn \<Longrightarrow> gives (at rn wn inp out) (structured_stream_write_uint16 w) (Inr ()) (at rn wn inp (out @ le_bytes w))"
  unfolding structured_stream_write_uint16_def by (rule st.put_word) simp

lemma gives_write_uint32: "4 \<le> wn \<Longrightarrow> gives (at rn wn inp out) (structured_stream_write_uint32 w) (Inr ()) (at rn wn inp (out @ le_bytes w))"
  unfolding structured_stream_write_uint32_def by (rule st.put_word) simp

lemma gives_write_uint64: "8 \<le> wn \<Longrightarrow> gives (at rn wn inp out) (structured_stream_write_uint64 w) (Inr ()) (at rn wn inp (out @ le_bytes w))"
  unfolding structured_stream_write_uint64_def by (rule st.put_word) simp

lemma gives_write_int64: "8 \<le> wn \<Longrightarrow> gives (at rn wn inp out) (structured_stream_write_int64 w) (Inr ()) (at rn wn inp (out @ le_bytes w))"
  unfolding structured_stream_write_int64_def by (rule st.put_word) simp

lemma gives_write_double: "8 \<le> wn \<Longrightarrow> gives (at rn wn inp out) (structured_stream_write_double w) (Inr ()) (at rn wn inp (out @ le_bytes w))"
  unfolding structured_stream_write_double_def by (rule st.put_word) simp

lemma gives_write_prefixed:
  assumes "unat n = length bs" "2 \<le> wn" "length bs \<le> wn"
  shows "gives (at rn wn inp out) (structured_stream_write_uint16_prefixed_bytes (bs @ x) n) (Inr ()) (at rn wn inp (out @ prefixed bs))"
proof -
  have n: "n = of_nat (length bs)" unfolding assms(1) [symmetric] by simp
  have 2: "gives (at rn wn inp (out @ le_bytes n)) (if n = 0 then ret () else structured_stream_write_bytes (take (unat n) (bs @ x))) (Inr ())
      (at rn wn inp (out @ prefixed bs))"
  proof (cases "n = 0")
    case True
    then have "bs = []" using assms(1) by simp
    then show ?thesis using n True by (auto intro!: gives_ret simp: prefixed_def)
  next
    case False
    then show ?thesis using gives_write_bytes [OF assms(3), of rn inp "out @ le_bytes n"] assms(1) by (simp add: prefixed_def n [symmetric])
  qed
  show ?thesis unfolding structured_stream_write_uint16_prefixed_bytes_def by (rule gives_andthen [OF gives_write_uint16 [OF assms(2)]]) (rule 2)
qed

lemma gives_write_string:
  assumes "strlen s < 2 ^ 16" "2 \<le> wn" "strlen s \<le> wn"
  shows "gives (at rn wn inp out) (structured_stream_write_uint16_prefixed_string s) (Inr ()) (at rn wn inp (out @ prefixed (take (strlen s) s)))"
proof -
  have "strlen s \<le> length s" by (induction s) auto
  then have "unat (of_nat (strlen s) :: u16) = length (take (strlen s) s)" "length (take (strlen s) s) \<le> wn" using assms by (simp_all add: unat_of_nat)
  from gives_write_prefixed [OF this(1) assms(2) this(2), of rn inp out "drop (strlen s) s"] show ?thesis
    by (simp add: structured_stream_write_uint16_prefixed_string_def)
qed

section \<open>Properties\<close>

text \<open>A new stream on a connection.\<close>

lemma at_new:
  assumes "rn < 2 ^ 31" "wn < 2 ^ 31" "Io_Error \<notin> set (rx s)" "\<forall>e\<in>set (tx s). full_write wn e"
  shows "at rn wn (inbox s) (sent s) (structured_stream_new junk s rn wn)"
  using assms by (simp add: at_def stream_ok_def incoming_def outgoing_def structured_stream_new_def structured_stream_init_def fresh_mem_def)

lemma too_much:
  assumes "stream_ok rn wn ss" "rn < n" "n < 2 ^ 64"
  shows "\<exists>ss'. structured_stream_read_bytes n ss = Some (Inl ERR_STRUCTURED_STREAM_BUF_TOO_SMALL, ss') \<and> stream_ok rn wn ss' \<and>
    incoming ss' = incoming ss \<and> outgoing ss' = outgoing ss"
proof -
  let ?avail = "read_n ss - read_i ss"
  have o: "read_i ss \<le> read_n ss" "read_n ss \<le> rn" "length (read_buf ss) = rn" "rn < 2 ^ 31" "allowed_io ss" "allowed_discard ss"
    using assms(1) by (simp_all add: stream_ok_def)
  define ss1 where "ss1 = (if read_i ss > 0 \<and> allowed_discard ss
    then ss\<lparr>read_buf := take ?avail (drop (read_i ss) (read_buf ss)) @ drop ?avail (read_buf ss), read_n := ?avail, read_i := 0\<rparr> else ss)"
  have s1: "stream_ok rn wn ss1" "incoming ss1 = incoming ss" "outgoing ss1 = outgoing ss" "read_n ss1 = ?avail"
    using assms(1) o by (auto simp: ss1_def stream_ok_def incoming_def outgoing_def)
  have "sz_sub n (read_n ss1) = n - ?avail" "sz_sub (length (read_buf ss1)) (read_n ss1) = rn - ?avail" "\<not> n \<le> ?avail" "n - ?avail > rn - ?avail"
    using s1(1,4) assms(2,3) o by (auto simp: stream_ok_def)
  then have "structured_stream_ensure_read n ss = Some (Inl ERR_STRUCTURED_STREAM_BUF_TOO_SMALL, ss1)"
    using o(1,5) unfolding structured_stream_ensure_read_def by (simp add: Let_def ss1_def [symmetric])
  then show ?thesis using s1 by (simp add: structured_stream_read_bytes_def andthen_def)
qed

text \<open>
  C18: Reading from a stream is exact and stays within the buffer, whatever pieces the network delivers. A read of
  \<^verbatim>\<open>n\<close> bytes never fails an assertion and never leaves the buffer; it returns the next \<^verbatim>\<open>n\<close> bytes that the
  other side sent, or reports the end of the connection when fewer will come, or that \<^verbatim>\<open>n\<close> is larger than the
  buffer; in the last two cases no byte is lost.\<close>

theorem stream_read_exact:
  assumes "stream_ok rn wn ss" "n < 2 ^ 64"
  shows "\<exists>r ss'. structured_stream_read_bytes n ss = Some (r, ss') \<and> stream_ok rn wn ss' \<and> outgoing ss' = outgoing ss \<and>
    (if rn < n then r = Inl ERR_STRUCTURED_STREAM_BUF_TOO_SMALL \<and> incoming ss' = incoming ss
     else if n \<le> length (incoming ss) then r = Inr (take n (incoming ss)) \<and> incoming ss' = drop n (incoming ss)
     else r = Inl ERR_STRUCTURED_STREAM_EOF \<and> incoming ss' = incoming ss)"
proof (cases "rn < n")
  case True
  then show ?thesis using too_much [OF assms(1) _ assms(2)] by auto
next
  case le: False
  show ?thesis
  proof (cases "n \<le> length (incoming ss)")
    case True
    then have "at rn wn (take n (incoming ss) @ drop n (incoming ss)) (outgoing ss) ss" "length (take n (incoming ss)) = n" using assms(1) by (simp_all add: at_def)
    with givesD [OF gives_read_bytes, of "take n (incoming ss)" rn wn "drop n (incoming ss)" "outgoing ss" ss] True le show ?thesis by (auto simp: at_def)
  next
    case False
    then have "at rn wn (incoming ss) (outgoing ss) ss" using assms(1) by (simp add: at_def)
    with givesD [OF gives_read_eof, of n rn "incoming ss" wn "outgoing ss" ss] False le show ?thesis by (auto simp: at_def)
  qed
qed

definition example_socket :: socket where
  "example_socket = \<lparr>inbox = [1, 2, 3, 4, 5], rx = [Io_Some 1, Io_Again, Io_Some 2], sent = [], tx = []\<rparr>"

lemma example_stream: "stream_ok 8 8 (structured_stream_new (\<lambda>_. 0) example_socket 8 8)"
  "incoming (structured_stream_new (\<lambda>_. 0) example_socket 8 8) = [1, 2, 3, 4, 5]"
  using at_new [of 8 8 example_socket "\<lambda>_. 0"] by (simp_all add: at_def example_socket_def)

theorem stream_read_exact_witness:
  "\<exists>ss'. structured_stream_read_bytes 3 (structured_stream_new (\<lambda>_. 0) example_socket 8 8) = Some (Inr [1, 2, 3], ss') \<and> incoming ss' = [4, 5]"
  using stream_read_exact [OF example_stream(1), of 3] example_stream(2) by auto

text \<open>
  Messages arrive. Bytes that one side writes with their length and flushes are what the other side reads,
  if both have buffers that are large enough: whatever the sizes of the pieces in which they travel, the
  reader gets exactly these bytes and is left at the byte behind them.\<close>

theorem stream_message_roundtrip:
  assumes "stream_ok rn wn ss" "sent (fd ss) = []" "write_i ss = 0" "unat n = length bs" "length bs \<le> wn" "2 \<le> wn"
    and "length bs + 2 \<le> rn2" "rn2 < 2 ^ 31" "wn2 < 2 ^ 31" "Io_Error \<notin> set (rx s)" "\<forall>e\<in>set (tx s). full_write wn2 e"
  shows "\<exists>ss' rs. andthen (structured_stream_write_uint16_prefixed_bytes bs n) (\<lambda>_. structured_stream_flush) ss = Some (Inr (), ss') \<and>
    structured_stream_read_uint16_prefixed_bytes_inplace (structured_stream_new junk (s\<lparr>inbox := sent (fd ss') @ x\<rparr>) rn2 wn2) = Some (Inr bs, rs) \<and>
    incoming rs = x"
proof -
  have "at rn wn (incoming ss) [] ss" using assms(1-3) by (simp add: at_def outgoing_def)
  with givesD [OF gives_andthen [OF gives_write_prefixed [OF assms(4,6,5), of rn "incoming ss" "[]" "[]"] gives_flush]]
  obtain ss' where w: "andthen (structured_stream_write_uint16_prefixed_bytes bs n) (\<lambda>_. structured_stream_flush) ss = Some (Inr (), ss')"
    "flushed rn wn (incoming ss) ([] @ prefixed bs) ss'" unfolding append_Nil2 by blast
  have o: "sent (fd ss') = prefixed bs" using w(2) by (auto simp: flushed_def at_def outgoing_def)
  have "length bs < 2 ^ 16" using assms(4) unsigned_less [of n, where ?'a = nat] by simp
  moreover have "at rn2 wn2 (prefixed bs @ x) (sent s) (structured_stream_new junk (s\<lparr>inbox := sent (fd ss') @ x\<rparr>) rn2 wn2)"
    using at_new [OF assms(8,9), of "s\<lparr>inbox := sent (fd ss') @ x\<rparr>" junk] assms(10,11) o by simp
  ultimately obtain rs where "structured_stream_read_uint16_prefixed_bytes_inplace (structured_stream_new junk (s\<lparr>inbox := sent (fd ss') @ x\<rparr>) rn2 wn2) = Some (Inr bs, rs)"
    "at rn2 wn2 x (sent s) rs" using givesD [OF gives_read_prefixed [OF _ assms(7)]] by blast
  then show ?thesis using w(1) by (auto simp: at_def)
qed

theorem stream_message_roundtrip_witness:
  "\<exists>ss' rs. andthen (structured_stream_write_uint16_prefixed_bytes [7, 8] 2) (\<lambda>_. structured_stream_flush) (structured_stream_new (\<lambda>_. 0) example_socket 8 8) = Some (Inr (), ss') \<and>
    structured_stream_read_uint16_prefixed_bytes_inplace (structured_stream_new (\<lambda>_. 0) (example_socket\<lparr>inbox := sent (fd ss') @ [9]\<rparr>) 8 8) = Some (Inr [7, 8], rs) \<and>
    incoming rs = [9]"
  using stream_message_roundtrip [OF example_stream(1), of 2 "[7, 8]" 8 8 example_socket "\<lambda>_. 0" "[9]"]
  by (simp add: structured_stream_new_def structured_stream_init_def example_socket_def)

text \<open>
  A write that transfers only a part of the buffer corrupts the stream: the loop of \<^verbatim>\<open>structured_stream_flush\<close>
  starts again at the beginning of the buffer, so that the first bytes are sent twice and the last ones
  never, and the function reports success.\<close>

theorem flush_after_short_write:
  assumes "allowed_io ss" "tx (fd ss) = [Io_Some k]" "0 < k" "k < write_i ss" "write_i ss \<le> length (write_buf ss)"
  shows "\<exists>ss'. structured_stream_flush ss = Some (Inr (), ss') \<and>
    sent (fd ss') = sent (fd ss) @ take k (write_buf ss) @ take (write_i ss - k) (write_buf ss)"
proof -
  let ?s1 = "(fd ss)\<lparr>tx := [], sent := sent (fd ss) @ take k (write_buf ss)\<rparr>"
  let ?ss1 = "ss\<lparr>fd := ?s1, write_i := write_i ss - k\<rparr>"
  have "sock_write (fd ss) (take (write_i ss) (write_buf ss)) = (Io_Done k, ?s1)"
    using assms by (simp add: sock_write_def send_up_to_def min_def)
  then have 1: "flush_loop ss = flush_loop ?ss1" using assms by (subst flush_loop.simps) simp
  have "sock_write ?s1 (take (write_i ss - k) (write_buf ss)) = (Io_Done (write_i ss - k), ?s1\<lparr>sent := sent ?s1 @ take (write_i ss - k) (write_buf ss)\<rparr>)"
    using assms by (simp add: sock_write_def send_up_to_def)
  moreover have "\<not> length (write_buf ss) < write_i ss - k" using assms by simp
  ultimately have 2: "flush_loop ?ss1 = flush_loop (?ss1\<lparr>fd := ?s1\<lparr>sent := sent ?s1 @ take (write_i ss - k) (write_buf ss)\<rparr>, write_i := 0\<rparr>)"
    using assms by (subst flush_loop.simps) simp
  show ?thesis using assms(1) unfolding structured_stream_flush_def 1 2 by (simp add: flush_loop.simps)
qed

theorem flush_after_short_write_witness:
  "\<exists>ss'. structured_stream_flush ((structured_stream_new (\<lambda>_. 0) (example_socket\<lparr>tx := [Io_Some 1]\<rparr>) 3 3)\<lparr>write_buf := [1, 2, 3], write_i := 3\<rparr>) = Some (Inr (), ss') \<and>
    sent (fd ss') = [1, 1, 2]"
  using flush_after_short_write [of "(structured_stream_new (\<lambda>_. 0) (example_socket\<lparr>tx := [Io_Some 1]\<rparr>) 3 3)\<lparr>write_buf := [1, 2, 3], write_i := 3\<rparr>" 1]
  by (simp add: structured_stream_new_def structured_stream_init_def example_socket_def)

end
