(* ===== verification/Storage_Index.thy ===== *)
theory Storage_Index
  imports Storage_Load
begin

unbundle bit_operations_syntax

text \<open>
  The indices of the storage: \<open>indices_ok\<close> says that each tree of \<^verbatim>\<open>store->root\<close> is a red-black tree in the
  order of its index that holds exactly the items \<open>S\<close>. Adding an item to all indices, deleting one from
  all of them and changing an item without touching its key keep this.
\<close>

section \<open>Loops\<close>

lemma for_each_append: "for_each f (xs @ ys) st = Option.bind (for_each f xs st) (for_each f ys)"
proof (induction xs arbitrary: st)
  case (Cons x xs)
  then show ?case by (cases "f x st") simp_all
qed simp

text \<open>A loop whose body keeps an invariant and never fails.\<close>

lemma for_each_inv:
  assumes "P st" "\<And>x st. x \<in> set xs \<Longrightarrow> P st \<Longrightarrow> \<exists>st'. f x st = Some st' \<and> P st'"
  shows "\<exists>st'. for_each f xs st = Some st' \<and> P st'"
  using assms
proof (induction xs arbitrary: st)
  case (Cons x xs)
  then obtain st1 where "f x st = Some st1" "P st1" by (metis list.set_intros(1))
  then show ?case using Cons.IH [of st1] Cons.prems(2) by auto
qed simp

section \<open>Trees under a change of the items\<close>

lemma item_index_cong:
  assumes "item_index cmp t" "\<And>a b. a \<in> tree_set t \<Longrightarrow> b \<in> tree_set t \<Longrightarrow> cmp a b = cmp' a b"
  shows "item_index cmp' t"
proof -
  have "sorted_wrt (goes_left cmp') (inorder t)"
    by (rule sorted_wrt_mono_rel [of _ "goes_left cmp"])
      (use assms in \<open>auto simp: item_index_def tree_set_def goes_left_def\<close>)
  then show ?thesis using assms(1) by (simp add: item_index_def)
qed

definition same_key :: "storage_item \<Rightarrow> storage_item \<Rightarrow> bool" where
  "same_key a b \<longleftrightarrow> internal_id a = internal_id b \<and> key_len a = key_len b \<and> key a = key b \<and> index_val a = index_val b"

lemma same_key_cmp: "same_key a a' \<Longrightarrow> same_key b b' \<Longrightarrow> storage_item_cmp a b i = storage_item_cmp a' b' i"
  by (simp add: same_key_def storage_item_cmp_def index_val_at_def)

lemma same_key_refl [simp]: "same_key a a"
  by (simp add: same_key_def)

definition indices_ok :: "the_storage \<Rightarrow> ptr set \<Rightarrow> bool" where
  "indices_ok st S \<longleftrightarrow> length (root st) = num_roots st \<and>
     (\<forall>i < num_roots st. item_index (item_cmp (items st) i) (root st ! i) \<and> tree_set (root st ! i) = S)"

lemma indices_ok_cong:
  assumes "indices_ok st S" "root st' = root st" "indices st' = indices st" "\<And>p. p \<in> S \<Longrightarrow> same_key (items st p) (items st' p)"
  shows "indices_ok st' S"
  unfolding indices_ok_def
proof (intro conjI allI impI)
  show "length (root st') = num_roots st'" using assms by (simp add: indices_ok_def num_roots_def)
  fix i assume "i < num_roots st'"
  then have i: "item_index (item_cmp (items st) i) (root st ! i)" "tree_set (root st ! i) = S"
    using assms by (simp_all add: indices_ok_def num_roots_def)
  then show "tree_set (root st' ! i) = S" using assms by simp
  show "item_index (item_cmp (items st') i) (root st' ! i)"
    unfolding assms(2) by (rule item_index_cong [OF i(1)]) (use i(2) assms(4) same_key_cmp in \<open>auto simp: item_cmp_def\<close>)
qed

lemma indices_ok_upd:
  assumes "indices_ok st S" "same_key (items st p) (f (items st p))"
  shows "indices_ok (upd_item st p f) S"
  by (rule indices_ok_cong [OF assms(1)]) (use assms(2) in \<open>auto simp: upd_item_def\<close>)

section \<open>All indices\<close>

lemma each_root:
  assumes step: "\<And>st i. i < n \<Longrightarrow> items st = h \<Longrightarrow> n \<le> length (root st) \<Longrightarrow> P i (root st ! i) \<Longrightarrow>
      \<exists>t. f i st = Some (st\<lparr>root := (root st)[i := t]\<rparr>) \<and> Q i t"
    and "items st = h" "n \<le> length (root st)" "\<forall>i < n. P i (root st ! i)"
  shows "\<exists>r. for_each f [0..<n] st = Some (st\<lparr>root := r\<rparr>) \<and> length r = length (root st) \<and> (\<forall>i < n. Q i (r ! i))"
proof -
  have "\<exists>r. for_each f [0..<k] st = Some (st\<lparr>root := r\<rparr>) \<and> length r = length (root st) \<and> (\<forall>i < k. Q i (r ! i)) \<and>
      (\<forall>i. k \<le> i \<longrightarrow> r ! i = root st ! i)" if "k \<le> n" for k
    using that
  proof (induction k)
    case 0
    show ?case by (intro exI [of _ "root st"]) simp
  next
    case (Suc k)
    then obtain r where r: "for_each f [0..<k] st = Some (st\<lparr>root := r\<rparr>)" "length r = length (root st)"
      "\<forall>i < k. Q i (r ! i)" "\<forall>i. k \<le> i \<longrightarrow> r ! i = root st ! i" by auto
    obtain t where t: "f k (st\<lparr>root := r\<rparr>) = Some (st\<lparr>root := r[k := t]\<rparr>)" "Q k t"
      using step [of k "st\<lparr>root := r\<rparr>"] Suc.prems assms(2-4) r(2,4) by auto
    have "for_each f [0..<Suc k] st = Some (st\<lparr>root := r[k := t]\<rparr>)" using r(1) t(1) by (simp add: for_each_append)
    then show ?case using r t(2) Suc.prems assms(3)
      by (intro exI [of _ "r[k := t]"]) (auto simp: nth_list_update less_Suc_eq)
  qed
  from this [of n] show ?thesis by auto
qed

lemma add_all:
  assumes "indices_ok st S" "p \<notin> S"
  shows "\<exists>r. for_each (root_add p) [0..<num_roots st] st = Some (st\<lparr>root := r\<rparr>) \<and> indices_ok (st\<lparr>root := r\<rparr>) (insert p S)"
proof -
  let ?P = "\<lambda>S i t. item_index (item_cmp (items st) i) t \<and> tree_set t = S"
  have "\<exists>t. root_add p i st' = Some (st'\<lparr>root := (root st')[i := t]\<rparr>) \<and> ?P (insert p S) i t"
    if "items st' = items st" "?P S i (root st' ! i)" for st' i
    using that ix.add_ok [of "items st" i "root st' ! i" p] assms(2) by (auto simp: root_add_def)
  from each_root [of "num_roots st" "items st" "?P S" "root_add p" "?P (insert p S)" st, OF this]
  obtain r where "for_each (root_add p) [0..<num_roots st] st = Some (st\<lparr>root := r\<rparr>)" "length r = length (root st)"
    "\<forall>i < num_roots st. ?P (insert p S) i (r ! i)" using assms(1) by (auto simp: indices_ok_def)
  then show ?thesis using assms(1) by (auto simp: indices_ok_def num_roots_def)
qed

lemma delete_all:
  assumes "indices_ok st S" "p \<in> S"
  shows "\<exists>r. for_each (root_delete p) [0..<num_roots st] st = Some (st\<lparr>root := r\<rparr>) \<and> indices_ok (st\<lparr>root := r\<rparr>) (S - {p})"
proof -
  let ?P = "\<lambda>S i t. item_index (item_cmp (items st) i) t \<and> tree_set t = S"
  have "\<exists>t. root_delete p i st' = Some (st'\<lparr>root := (root st')[i := t]\<rparr>) \<and> ?P (S - {p}) i t"
    if "items st' = items st" "?P S i (root st' ! i)" for st' i
    using that ix.delete_ok [of "items st" i "root st' ! i" p] assms(2) by (auto simp: root_delete_def)
  from each_root [of "num_roots st" "items st" "?P S" "root_delete p" "?P (S - {p})" st, OF this]
  obtain r where "for_each (root_delete p) [0..<num_roots st] st = Some (st\<lparr>root := r\<rparr>)" "length r = length (root st)"
    "\<forall>i < num_roots st. ?P (S - {p}) i (r ! i)" using assms(1) by (auto simp: indices_ok_def)
  then show ?thesis using assms(1) by (auto simp: indices_ok_def num_roots_def)
qed

section \<open>Searching\<close>

lemma find_item_ok:
  assumes "indices_ok st S" "i < num_roots st"
  shows "case find_item st i probe of None \<Rightarrow> \<forall>a\<in>S. storage_item_cmp probe (items st a) i \<noteq> 0
    | Some a \<Rightarrow> a \<in> S \<and> storage_item_cmp probe (items st a) i = 0"
proof -
  have i: "sorted_wrt (goes_left (item_cmp (items st) i)) (inorder (root st ! i))" "tree_set (root st ! i) = S"
    using assms by (auto simp: indices_ok_def item_index_def)
  show ?thesis
    using ix.find_member_ok [OF i(1) search_key_probe, of probe] i(2)
    by (cases "find_item st i probe") (auto simp: find_item_def probe_cmp_def)
qed

lemma special_index: "INTERNAL_ID_INDEX < num_roots st" "LFM_INDEX < num_roots st" "NAME_INDEX < num_roots st"
  by (simp_all add: num_roots_def index_defs)

lemma memcmp_eq_0: "memcmp a b n = 0 \<longleftrightarrow> take n a = take n b"
proof (induction a b n rule: memcmp.induct)
  case (5 a as b bs n)
  then show ?case by (auto simp: word_uint_eq_iff)
qed auto

text \<open>A key: the bytes of the labels, and the terminating zero in memory.\<close>

definition key_is :: "storage_item \<Rightarrow> byte list \<Rightarrow> bool" where
  "key_is item k \<longleftrightarrow> key item = Some (k @ [0]) \<and> unat (key_len item) = length k"

lemma cmp_key_probe:
  assumes "key_is item k'" "unat klen = length k"
  shows "storage_item_cmp (key_probe (k @ x) klen) item LFM_INDEX = 0 \<longleftrightarrow> k = k'"
proof -
  have "uint klen = uint (key_len item) \<longleftrightarrow> length k = length k'" using assms unfolding key_is_def by (metis uint_nat of_nat_eq_iff)
  then show ?thesis using assms by (auto simp: storage_item_cmp_def key_probe_def blank_item_def key_is_def index_defs memcmp_eq_0 Let_def)
qed

lemma cmp_id_probe: "storage_item_cmp (id_probe iid) item INTERNAL_ID_INDEX = 0 \<longleftrightarrow> internal_id item = iid"
  by (auto simp: storage_item_cmp_def id_probe_def blank_item_def index_defs)

end
