(* ===== verification/Storage_Inv.thy ===== *)
theory Storage_Inv
  imports Storage_Index
begin

unbundle bit_operations_syntax

text \<open>
  The meaning of an item: the points of its complete blocks, which are on disk, followed by the points of
  the block in memory. \<open>item_ok\<close> relates an item and the contents \<open>m\<close> of the data store to these points;
  the lemmas show what writing out a block does to it.
\<close>

section \<open>Room for offsets\<close>

lemma grow_cap_ge: "0 < cap \<Longrightarrow> n \<le> grow_cap cap n \<and> cap \<le> grow_cap cap n"
proof (induction cap n rule: grow_cap.induct)
  case (1 cap n)
  show ?case
  proof (cases "cap < n")
    case True
    then show ?thesis using 1 by (subst (1 2) grow_cap.simps) force
  next
    case False
    then show ?thesis using 1 by (simp add: grow_cap.simps)
  qed
qed

lemma ensure_room:
  obtains c where "storage_item_ensure_offset_room item n = item\<lparr>cap_data_offsets := c\<rparr>" "n \<le> c" "cap_data_offsets item \<le> c"
proof (cases "n \<le> cap_data_offsets item")
  case True
  then show thesis using that [of "cap_data_offsets item"] by (simp add: storage_item_ensure_offset_room_def)
next
  case False
  let ?c = "if cap_data_offsets item = 0 then 4 else cap_data_offsets item"
  show thesis
    by (rule that [of "grow_cap ?c n"]) (use False grow_cap_ge [of ?c n] in \<open>auto simp: storage_item_ensure_offset_room_def Let_def\<close>)
qed

section \<open>Items and their points\<close>

definition valid_of :: "u64 \<Rightarrow> nat \<Rightarrow> (u8 \<times> byte list) option \<Rightarrow> point list \<Rightarrow> bool" where
  "valid_of iid n b pts \<longleftrightarrow> pts \<noteq> [] \<and> (\<exists>d x. b = Some (BLOCK_STATUS_VALID, le_bytes iid @ d @ x) \<and> data_inv d pts \<and>
     length d = n \<and> length (le_bytes iid @ d @ x) \<le> 2 ^ 20)"

definition active_of :: "nat \<Rightarrow> (u8 \<times> byte list) option \<Rightarrow> bool" where
  "active_of n b \<longleftrightarrow> (\<exists>d. b = Some (BLOCK_STATUS_ACTIVE, d) \<and> 38 + n \<le> length d \<and> length d \<le> 2 ^ 20)"

definition complete_ok :: "(nat \<Rightarrow> (u8 \<times> byte list) option) \<Rightarrow> u64 \<Rightarrow> nat \<Rightarrow> offset_and_time \<Rightarrow> point list \<Rightarrow> bool" where
  "complete_ok m iid n e pts \<longleftrightarrow> fst e \<noteq> 0 \<and> valid_of iid n (m (unat (fst e))) pts \<and> snd e = fst (hd pts)"

text \<open>
  The block in memory may have been written to disk before, when it held a prefix of its points: the header
  and the buffer from then are there.
\<close>

definition saved_of :: "u64 \<Rightarrow> nat \<Rightarrow> (u8 \<times> byte list) option \<Rightarrow> point list \<Rightarrow> bool" where
  "saved_of iid n b cur \<longleftrightarrow> cur \<noteq> [] \<and> (\<exists>d x. b = Some (BLOCK_STATUS_ACTIVE, le_bytes iid @ tsc_serialize_header d @ tsc_data d @ x) \<and>
     tsc_inv d cur \<and> unat (data_len d) = n \<and> length (le_bytes iid @ tsc_serialize_header d @ tsc_data d @ x) \<le> 2 ^ 20)"

definition last_ok :: "(nat \<Rightarrow> (u8 \<times> byte list) option) \<Rightarrow> u64 \<Rightarrow> nat \<Rightarrow> offset_and_time \<Rightarrow> point list \<Rightarrow> bool" where
  "last_ok m iid n e cur \<longleftrightarrow> fst e = 0 \<or> (\<exists>old new. cur = old @ new \<and> saved_of iid n (m (unat (fst e))) old) \<and> snd e = fst (hd cur)"

lemma saved_active: "saved_of iid n b cur \<Longrightarrow> active_of n b"
  by (auto simp: saved_of_def active_of_def tsc_inv_def TSC_HEADER_SERIALIZATION_SIZE_def)

lemma last_active:
  assumes "last_ok m iid n e cur" "fst e \<noteq> 0"
  shows "active_of n (m (unat (fst e)))" "cur \<noteq> []" "snd e = fst (hd cur)"
proof -
  obtain old new where o: "cur = old @ new" "saved_of iid n (m (unat (fst e))) old" "snd e = fst (hd cur)" using assms by (auto simp: last_ok_def)
  show "active_of n (m (unat (fst e)))" by (rule saved_active [OF o(2)])
  show "cur \<noteq> []" "snd e = fst (hd cur)" using o by (auto simp: saved_of_def)
qed

definition item_ok :: "(nat \<Rightarrow> (u8 \<times> byte list) option) \<Rightarrow> nat \<Rightarrow> storage_item \<Rightarrow> point list list \<Rightarrow> point list \<Rightarrow> bool" where
  "item_ok m n item blks cur \<longleftrightarrow> tsc_inv (item_data item) cur \<and> unat (data_len (item_data item)) = n \<and>
     length (data_offsets item) \<le> cap_data_offsets item \<and> 0 < cap_data_offsets item \<and>
     (data_offsets item = [] \<and> blks = [] \<or>
      (\<exists>os e. data_offsets item = os @ [e] \<and> list_all2 (complete_ok m (internal_id item) n) os blks \<and> last_ok m (internal_id item) n e cur))"

text \<open>All points of an item are on disk.\<close>

definition item_saved :: "(nat \<Rightarrow> (u8 \<times> byte list) option) \<Rightarrow> nat \<Rightarrow> storage_item \<Rightarrow> point list \<Rightarrow> bool" where
  "item_saved m n item cur \<longleftrightarrow> data_offsets item \<noteq> [] \<and> fst (last (data_offsets item)) \<noteq> 0 \<and>
     saved_of (internal_id item) n (m (unat (fst (last (data_offsets item))))) cur"

text \<open>The blocks that an item owns.\<close>

definition offs_of :: "storage_item \<Rightarrow> nat list" where
  "offs_of item = map (unat \<circ> fst) [e \<leftarrow> data_offsets item. fst e \<noteq> 0]"

lemma item_ok_frame:
  assumes "item_ok m n item blks cur" "\<And>off. off \<in> set (offs_of item) \<Longrightarrow> m' off = m off"
  shows "item_ok m' n item blks cur"
proof -
  have c: "complete_ok m' (internal_id item) n e pts"
    if "complete_ok m (internal_id item) n e pts" "e \<in> set (data_offsets item)" for e pts
    using that assms(2) [of "unat (fst e)"] by (auto simp: complete_ok_def offs_of_def)
  have l: "last_ok m' (internal_id item) n e cur" if "last_ok m (internal_id item) n e cur" "e \<in> set (data_offsets item)" for e
    using that assms(2) [of "unat (fst e)"] by (auto simp: last_ok_def offs_of_def)
  have "list_all2 (complete_ok m' (internal_id item) n) os blks \<and> last_ok m' (internal_id item) n e cur"
    if "data_offsets item = os @ [e]" "list_all2 (complete_ok m (internal_id item) n) os blks" "last_ok m (internal_id item) n e cur" for os e
    using list.rel_mono_strong [OF that(2), of "complete_ok m' (internal_id item) n"] c l that by auto
  then show ?thesis using assms(1) unfolding item_ok_def by blast
qed

lemma item_ok_mapped:
  assumes "item_ok m n item blks cur" "off \<in> set (offs_of item)"
  shows "\<exists>s d. m off = Some (s, d) \<and> length d \<le> 2 ^ 20"
proof -
  obtain e where e: "e \<in> set (data_offsets item)" "fst e \<noteq> 0" "off = unat (fst e)" using assms(2) by (auto simp: offs_of_def)
  then obtain os l where o: "data_offsets item = os @ [l]" "list_all2 (complete_ok m (internal_id item) n) os blks" "last_ok m (internal_id item) n l cur"
    using assms(1) by (auto simp: item_ok_def)
  then consider "e \<in> set os" | "e = l" using e(1) by auto
  then show ?thesis
  proof cases
    case 1
    then obtain pts where "complete_ok m (internal_id item) n e pts" using list_all2_mem [OF o(2)] by blast
    then show ?thesis using e by (auto simp: complete_ok_def valid_of_def)
  next
    case 2
    then show ?thesis using last_active(1) [OF o(3)] e by (auto simp: active_of_def)
  qed
qed

lemma block_image_length:
  assumes "tsc_inv (item_data item) cur" "unat (data_len (item_data item)) = n"
  shows "length (block_image item True) = 8 + n" "length (block_image item False) = 38 + n"
    "block_image item True = le_bytes (internal_id item) @ tsc_data (item_data item)"
  using assms by (simp_all add: block_image_def tsc_inv_def TSC_HEADER_SERIALIZATION_SIZE_def)

section \<open>Writing out a block\<close>

lemma next_block_ok:
  assumes "tsc_inv (item_data (items st p)) cur"
  shows "\<exists>d c. next_block st p = Some (upd_item st p (\<lambda>i. i\<lparr>cap_data_offsets := c, item_data := d, data_offsets := data_offsets i @ [(0, 0)]\<rparr>)) \<and>
    tsc_inv d [] \<and> data_len d = data_len (item_data (items st p)) \<and> Suc (length (data_offsets (items st p))) \<le> c"
proof -
  let ?i = "items st p"
  obtain c where c: "storage_item_ensure_offset_room ?i (Suc (length (data_offsets ?i))) = ?i\<lparr>cap_data_offsets := c\<rparr>"
    "Suc (length (data_offsets ?i)) \<le> c" by (rule ensure_room)
  obtain d where d: "tsc_clear (item_data ?i) = Some d" "tsc_inv d []" "data_len d = data_len (item_data ?i)"
    using tsc_clear_inv [OF assms] by blast
  show ?thesis using c d by (intro exI [of _ d] exI [of _ c]) (simp add: next_block_def push_offset_def upd_item_def Let_def)
qed

lemma start_of_block:
  assumes "tsc_inv p cur" "cur \<noteq> []"
  shows "TSC_NUM_PTS (tsc_data p) = Some (of_nat (length cur))" "(of_nat (length cur) :: u32) > 0"
    "TSC_START_TIME (tsc_data p) = Some (fst (hd cur))"
proof -
  have d: "data_inv (tsc_data p) cur" using assms by (simp add: tsc_inv_def)
  show "TSC_NUM_PTS (tsc_data p) = Some (of_nat (length cur))" using d by (simp add: data_inv_def)
  have "unat (of_nat (length cur) :: u32) = length cur" using num_pts_bound(1) [OF d] by (simp add: unat_of_nat)
  then show "(of_nat (length cur) :: u32) > 0" using assms(2) by (simp add: word_less_nat_alt)
  show "TSC_START_TIME (tsc_data p) = Some (fst (hd cur))"
    using start_time_data [of "tsc_data p" "fst (hd cur)" "snd (hd cur)" "tl cur"] d assms(2) by simp
qed

text \<open>
  \<open>store_block\<close>: the image of the block is in the data store, at the offset that is recorded last for the
  item, and all other blocks are as before.
\<close>

definition stored :: "storage_item \<Rightarrow> nat \<Rightarrow> i64 \<Rightarrow> storage_item \<Rightarrow> bool" where
  "stored item off t item' \<longleftrightarrow> (\<exists>os. item' = item\<lparr>data_offsets := os @ [(of_nat off, t)]\<rparr> \<and>
     (data_offsets item = [] \<and> os = [] \<or> (\<exists>e. data_offsets item = os @ [e] \<and> (fst e = 0 \<or> unat (fst e) = off))))"

lemma store_block_ok:
  fixes complete_block :: bool
  assumes good: "disk_ok (data_disk_store st) m" and ok: "item_ok m n (items st p) blks cur" and cur: "cur \<noteq> []"
    and n: "n + 38 \<le> 2 ^ 20" and room: "disk_size (data_disk_store st) + 2 ^ 27 < 2 ^ 62"
  defines "s \<equiv> (if complete_block then BLOCK_STATUS_VALID else BLOCK_STATUS_ACTIVE)"
    and "buf \<equiv> block_image (items st p) complete_block"
  shows "\<exists>ds off x item'. store_block st p complete_block (fst (hd cur)) =
      Some (0, st\<lparr>data_disk_store := ds, items := (items st)(p := item')\<rparr>) \<and>
    disk_ok ds (m(off \<mapsto> (s, buf @ x))) \<and> length (buf @ x) \<le> 2 ^ 20 \<and> 38 + n \<le> length (buf @ x) + (if complete_block then 30 else 0) \<and>
    0 < off \<and> off < 2 ^ 62 \<and> stored (items st p) off (fst (hd cur)) item' \<and> disk_size ds \<le> disk_size (data_disk_store st) + 2 ^ 27 \<and>
    (m off = None \<or> off \<in> set (offs_of (items st p)) \<and> active_of n (m off))"
proof -
  let ?i = "items st p" and ?t = "fst (hd cur)" and ?ds = "data_disk_store st"
  have s: "s = BLOCK_STATUS_VALID \<or> s = BLOCK_STATUS_ACTIVE" by (simp add: s_def)
  have inv: "tsc_inv (item_data ?i) cur" "unat (data_len (item_data ?i)) = n" "0 < cap_data_offsets ?i" using ok by (auto simp: item_ok_def)
  have len: "length buf = (if complete_block then 8 + n else 38 + n)" unfolding buf_def using block_image_length [OF inv(1,2)] by simp
  have b: "2 \<le> length buf" "length buf \<le> 2 ^ 20" using len n by (auto split: if_splits)
  show ?thesis
  proof (cases "data_offsets ?i = [] \<or> fst (last (data_offsets ?i)) = 0")
    case True
    obtain ds off x where a: "disk_storage_reserve_and_write_block ?ds s buf = Some (0, off, ds)" "m off = None"
      "disk_ok ds (m(off \<mapsto> (s, buf @ x)))" "disk_size ds \<le> disk_size ?ds + 2 ^ 27"
      using dk.add_law [OF good b(1,2) s room] by blast
    have sz20: "length (buf @ x) \<le> 2 ^ 20" using dk.size_law [OF a(3), of off] by simp
    have off: "0 < off" "off < 2 ^ 62" using holds_bound [OF good_holds [OF disk_ok_good [OF a(3)]], of off] by simp_all
    define os where "os = butlast (data_offsets ?i)"
    have d: "data_offsets ?i = [] \<and> os = [] \<or> data_offsets ?i = os @ [last (data_offsets ?i)] \<and> fst (last (data_offsets ?i)) = 0"
      using True unfolding os_def by (cases "data_offsets ?i") simp_all
    have "store_block st p complete_block ?t = Some (0, st\<lparr>data_disk_store := ds, items := (items st)(p := ?i\<lparr>data_offsets := os @ [(of_nat off, ?t)]\<rparr>)\<rparr>)"
    proof (cases "data_offsets ?i = []")
      case True
      then show ?thesis using a(1) inv(3) off(1) os_def
        by (simp add: store_block_def push_offset_def upd_item_def s_def [symmetric] buf_def [symmetric] Let_def)
    next
      case False
      then obtain t' where "data_offsets ?i = os @ [(0, t')]" using True d by (cases "last (data_offsets ?i)") auto
      then show ?thesis using a(1) off(1)
        by (simp add: store_block_def upd_item_def s_def [symmetric] buf_def [symmetric] nth_append Let_def)
    qed
    moreover have "stored ?i off ?t (?i\<lparr>data_offsets := os @ [(of_nat off, ?t)]\<rparr>)" using d unfolding stored_def by blast
    ultimately show ?thesis using a(2-4) off len sz20
      by (intro exI [of _ ds] exI [of _ off] exI [of _ x] exI) (auto split: if_splits)
  next
    case False
    then obtain os o' t' where o: "data_offsets ?i = os @ [(o', t')]" "o' \<noteq> 0" "last_ok m (internal_id ?i) n (o', t') cur"
      using ok by (auto simp: item_ok_def)
    then have act: "active_of n (m (unat o'))" "t' = ?t" using last_active [OF o(3)] by simp_all
    then obtain d where d: "m (unat o') = Some (BLOCK_STATUS_ACTIVE, d)" "38 + n \<le> length d" "length d \<le> 2 ^ 20" by (auto simp: active_of_def)
    have nb: "length buf \<le> length d" using len d(2) by (auto split: if_splits)
    obtain ds where w: "disk_storage_write_block ?ds (unat o') s buf = Some (0, ds)"
      "disk_ok ds (m(unat o' \<mapsto> (s, buf @ drop (length buf) d)))" "disk_size ds = disk_size ?ds"
      using dk.write_law [OF good d(1) nb s] by blast
    have off: "0 < unat o'" "unat o' < 2 ^ 62" using holds_bound [OF good_holds [OF disk_ok_good [OF w(2)]], of "unat o'"] by simp_all
    have "store_block st p complete_block ?t = Some (0, st\<lparr>data_disk_store := ds, items := (items st)(p := ?i)\<rparr>)"
      using o(1,2) act(2) w(1) by (simp add: store_block_def upd_item_def s_def [symmetric] buf_def [symmetric] nth_append Let_def)
    moreover have "stored ?i (unat o') ?t ?i" using o(1) act(2) by (auto simp: stored_def intro!: exI [of _ os])
    moreover have "unat o' \<in> set (offs_of ?i)" using o by (simp add: offs_of_def)
    ultimately show ?thesis using w(2,3) off d nb act(1)
      by (intro exI [of _ ds] exI [of _ "unat o'"] exI [of _ "drop (length buf) d"] exI [of _ ?i]) simp
  qed
qed

lemma complete_ok_upd:
  assumes "complete_ok m iid n e pts" "m off = None \<or> active_of n (m off)"
  shows "complete_ok (m(off \<mapsto> z)) iid n e pts"
proof -
  have "unat (fst e) \<noteq> off" using assms by (auto simp: complete_ok_def valid_of_def active_of_def disk_defs)
  then show ?thesis using assms(1) by (simp add: complete_ok_def)
qed

lemma u64_offset: "off < 2 ^ 62 \<Longrightarrow> unat (of_nat off :: u64) = off"
  by (simp add: unat_of_nat)

lemma storedD:
  assumes "stored item off t item'" "item_ok m n item blks cur" "m off = None \<or> active_of n (m off)"
  obtains os where "item' = item\<lparr>data_offsets := os @ [(of_nat off, t)]\<rparr>" "data_offsets item = [] \<and> os = [] \<or> (\<exists>e. data_offsets item = os @ [e] \<and> (fst e = 0 \<or> unat (fst e) = off))"
    "list_all2 (complete_ok (m(off \<mapsto> z)) (internal_id item) n) os blks" "Suc (length os) \<le> cap_data_offsets item"
proof -
  obtain os where os: "item' = item\<lparr>data_offsets := os @ [(of_nat off, t)]\<rparr>" "data_offsets item = [] \<and> os = [] \<or> (\<exists>e. data_offsets item = os @ [e] \<and> (fst e = 0 \<or> unat (fst e) = off))"
    using assms(1) by (auto simp: stored_def)
  have "list_all2 (complete_ok m (internal_id item) n) os blks" using os(2) assms(2) by (auto simp: item_ok_def)
  then have "list_all2 (complete_ok (m(off \<mapsto> z)) (internal_id item) n) os blks"
    by (rule list.rel_mono_strong) (use complete_ok_upd assms(3) in blast)
  moreover have "Suc (length os) \<le> cap_data_offsets item" using os(2) assms(2) by (auto simp: item_ok_def)
  ultimately show thesis using that os by blast
qed

text \<open>What writing out changes: one block of the item, which was free before or is its own.\<close>

definition only_changes :: "(nat \<Rightarrow> (u8 \<times> byte list) option) \<Rightarrow> (nat \<Rightarrow> (u8 \<times> byte list) option) \<Rightarrow> storage_item \<Rightarrow> storage_item \<Rightarrow> bool" where
  "only_changes m m' item item' \<longleftrightarrow> (\<exists>off. (\<forall>x. x \<noteq> off \<longrightarrow> m' x = m x) \<and> m' off \<noteq> None \<and> (m off = None \<or> off \<in> set (offs_of item)) \<and>
     set (offs_of item') = insert off (set (offs_of item)) \<and> (distinct (offs_of item) \<longrightarrow> distinct (offs_of item')))"

text \<open>What it leaves: the key of the item, and where the key is stored.\<close>

definition same_ident :: "storage_item \<Rightarrow> storage_item \<Rightarrow> bool" where
  "same_ident a b \<longleftrightarrow> same_key a b \<and> key_storage_offset a = key_storage_offset b"

lemma offs_of_store:
  assumes "data_offsets item = [] \<and> os = [] \<or> (\<exists>e. data_offsets item = os @ [e] \<and> (fst e = 0 \<or> unat (fst e) = off))" "0 < off" "off < 2 ^ 62"
    and m: "m off = None \<or> off \<in> set (offs_of item) \<and> active_of n (m off)" and ok: "item_ok m n item blks cur"
    and "data_offsets item' = os @ [(of_nat off, t)] @ zs" "\<forall>z\<in>set zs. fst z = 0"
  shows "set (offs_of item') = insert off (set (offs_of item)) \<and> (distinct (offs_of item) \<longrightarrow> distinct (offs_of item'))"
proof -
  have o0: "(of_nat off :: u64) \<noteq> 0" "unat (of_nat off :: u64) = off" using u64_offset [OF assms(3)] assms(2) by (auto simp: unat_eq_zero)
  define ys where "ys = map (unat \<circ> fst) [e \<leftarrow> os. fst e \<noteq> 0]"
  have new: "offs_of item' = ys @ [off]"
    using assms(6,7) o0 by (simp add: offs_of_def ys_def)
  have nin: "off \<notin> set ys"
  proof
    assume "off \<in> set ys"
    then obtain e where e: "e \<in> set os" "off = unat (fst e)" by (auto simp: ys_def)
    have "list_all2 (complete_ok m (internal_id item) n) os blks" using assms(1) ok e(1) by (auto simp: item_ok_def)
    from list_all2_mem [OF this e(1)] obtain pts where "complete_ok m (internal_id item) n e pts" by blast
    then show False using m e(2) by (auto simp: complete_ok_def valid_of_def active_of_def disk_defs)
  qed
  from assms(1) have "offs_of item = ys \<or> offs_of item = ys @ [off]"
  proof
    assume "\<exists>e. data_offsets item = os @ [e] \<and> (fst e = 0 \<or> unat (fst e) = off)"
    then obtain e where "data_offsets item = os @ [e]" "fst e = 0 \<or> unat (fst e) = off" by blast
    then show ?thesis by (cases "fst e = 0") (simp_all add: offs_of_def ys_def)
  qed (simp add: offs_of_def ys_def)
  then show ?thesis using new nin by auto
qed

lemma write_disk_ok:
  assumes good: "disk_ok (data_disk_store st) m" and ok: "item_ok m n (items st p) blks cur" and cur: "cur \<noteq> []" "0 < sint (fst (hd cur))"
    and n: "n + 38 \<le> 2 ^ 20" and room: "disk_size (data_disk_store st) + 2 ^ 27 < 2 ^ 62"
  shows "\<exists>ds m' item'. storage_write_disk st p complete_block = Some (0, st\<lparr>data_disk_store := ds, items := (items st)(p := item')\<rparr>) \<and>
    disk_ok ds m' \<and> item_ok m' n item' (if complete_block then blks @ [cur] else blks) (if complete_block then [] else cur) \<and>
    same_ident (items st p) item' \<and> only_changes m m' (items st p) item' \<and> (\<not> complete_block \<longrightarrow> item_saved m' n item' cur) \<and> disk_size ds \<le> disk_size (data_disk_store st) + 2 ^ 27"
proof -
  let ?i = "items st p" and ?t = "fst (hd cur)"
  define s where "s = (if complete_block then BLOCK_STATUS_VALID else BLOCK_STATUS_ACTIVE)"
  define buf where "buf = block_image ?i complete_block"
  have inv: "tsc_inv (item_data ?i) cur" "unat (data_len (item_data ?i)) = n" "0 < cap_data_offsets ?i" using ok by (auto simp: item_ok_def)
  obtain ds off x item1 where b: "store_block st p complete_block ?t = Some (0, st\<lparr>data_disk_store := ds, items := (items st)(p := item1)\<rparr>)"
    "disk_ok ds (m(off \<mapsto> (s, buf @ x)))" "length (buf @ x) \<le> 2 ^ 20" "38 + n \<le> length (buf @ x) + (if complete_block then 30 else 0)"
    "0 < off" "off < 2 ^ 62" "stored ?i off ?t item1" "disk_size ds \<le> disk_size (data_disk_store st) + 2 ^ 27"
    "m off = None \<or> off \<in> set (offs_of ?i) \<and> active_of n (m off)"
    using store_block_ok [OF good ok cur(1) n room, of complete_block] unfolding s_def buf_def by blast
  have off: "m off = None \<or> active_of n (m off)" "(of_nat off :: u64) \<noteq> 0" "unat (of_nat off :: u64) = off"
    using b(5,9) u64_offset [OF b(6)] by (auto simp: unat_eq_zero)
  obtain os where os: "item1 = ?i\<lparr>data_offsets := os @ [(of_nat off, ?t)]\<rparr>"
    "data_offsets ?i = [] \<and> os = [] \<or> (\<exists>e. data_offsets ?i = os @ [e] \<and> (fst e = 0 \<or> unat (fst e) = off))"
    "list_all2 (complete_ok (m(off \<mapsto> (s, buf @ x))) (internal_id ?i) n) os blks" "Suc (length os) \<le> cap_data_offsets ?i"
    by (rule storedD [OF b(7) ok off(1)])
  let ?st1 = "st\<lparr>data_disk_store := ds, items := (items st)(p := item1)\<rparr>" and ?m = "m(off \<mapsto> (s, buf @ x))"
  note f = offs_of_store [OF os(2) b(5,6,9) ok]
  note w = start_of_block [OF inv(1) cur(1)]
  show ?thesis
  proof (cases complete_block)
    case False
    have "storage_write_disk st p complete_block = Some (0, ?st1)" using w cur(2) b(1) False by (simp add: storage_write_disk_def)
    moreover have sv: "saved_of (internal_id ?i) n (?m off) cur" unfolding saved_of_def
    proof (intro conjI exI)
      have l: "unat (data_len (item_data ?i)) = length (tsc_data (item_data ?i))" using inv(1) by (simp add: tsc_inv_def)
      have "buf = le_bytes (internal_id ?i) @ tsc_serialize_header (item_data ?i) @ tsc_data (item_data ?i)"
        using False by (simp add: buf_def block_image_def l)
      then show "?m off = Some (BLOCK_STATUS_ACTIVE, le_bytes (internal_id ?i) @ tsc_serialize_header (item_data ?i) @ tsc_data (item_data ?i) @ x)"
        "length (le_bytes (internal_id ?i) @ tsc_serialize_header (item_data ?i) @ tsc_data (item_data ?i) @ x) \<le> 2 ^ 20"
        using False b(3) by (simp_all add: s_def)
    qed (use cur(1) inv in simp_all)
    then have "last_ok ?m (internal_id ?i) n (of_nat off, ?t) cur" using off(3) by (auto simp: last_ok_def)
    then have "item_ok ?m n item1 blks cur" using inv os(3,4) unfolding item_ok_def os(1) by auto
    moreover have "only_changes m ?m ?i item1" using f [of item1 ?t "[]"] b(9) os(1) unfolding only_changes_def by (intro exI [of _ off]) auto
    moreover have "item_saved ?m n item1 cur" using sv off(2,3) os(1) by (simp add: item_saved_def)
    ultimately show ?thesis using b(2,8) False os(1) by (intro exI [of _ ds] exI [of _ ?m] exI [of _ item1]) (simp add: same_ident_def same_key_def)
  next
    case True
    have i1: "items ?st1 p = item1" "tsc_inv (item_data item1) cur" using inv os(1) by simp_all
    obtain d c where nb: "next_block ?st1 p = Some (upd_item ?st1 p (\<lambda>i. i\<lparr>cap_data_offsets := c, item_data := d, data_offsets := data_offsets i @ [(0, 0)]\<rparr>))"
      "tsc_inv d []" "data_len d = data_len (item_data item1)" "Suc (length (data_offsets item1)) \<le> c"
      using next_block_ok [of ?st1 p cur] i1 by auto
    let ?i2 = "item1\<lparr>cap_data_offsets := c, item_data := d, data_offsets := data_offsets item1 @ [(0, 0)]\<rparr>"
    have "storage_write_disk st p complete_block = Some (0, st\<lparr>data_disk_store := ds, items := (items st)(p := ?i2)\<rparr>)"
      using w cur(2) b(1) nb(1) True by (simp add: storage_write_disk_def upd_item_def)
    moreover have "complete_ok ?m (internal_id ?i) n (of_nat off, ?t) cur"
      using off(2,3) True b(3) cur(1) inv(1,2) block_image_length(3) [OF inv(1,2)]
      by (auto simp: complete_ok_def valid_of_def s_def buf_def tsc_inv_def)
    then have "list_all2 (complete_ok ?m (internal_id ?i) n) (os @ [(of_nat off, ?t)]) (blks @ [cur])" using os(3) by (simp add: list_all2_appendI)
    then have "item_ok ?m n ?i2 (blks @ [cur]) []" using inv nb(2-4) os(1) unfolding item_ok_def by (auto simp: last_ok_def)
    moreover have "only_changes m ?m ?i ?i2" using f [of ?i2 ?t "[(0, 0)]"] b(9) os(1) unfolding only_changes_def by (intro exI [of _ off]) auto
    ultimately show ?thesis using b(2,8) True os(1) by (intro exI [of _ ds] exI [of _ ?m] exI [of _ ?i2]) (simp add: same_ident_def same_key_def)
  qed
qed

end
