(* ===== verification/Storage_Good.thy ===== *)
theory Storage_Good
  imports Storage_Inv
begin

unbundle bit_operations_syntax

text \<open>
  The invariant of the storage, \<open>store_ok\<close>, and the database it represents: \<open>storage_good st db\<close> says that
  the state is intact and that \<open>db\<close> maps each key to the points of its series. The lemmas follow the
  functions that read and write series.
\<close>

section \<open>The invariant\<close>

definition key_stored :: "(nat \<Rightarrow> (u8 \<times> byte list) option) \<Rightarrow> storage_item \<Rightarrow> bool" where
  "key_stored mk item \<longleftrightarrow> (\<exists>k x. key_is item k \<and> k \<noteq> [] \<and> length k + 10 \<le> MAX_BUF \<and> hd k \<noteq> 0 \<and> key_storage_offset item \<noteq> 0 \<and>
     mk (unat (key_storage_offset item)) = Some (BLOCK_STATUS_VALID, le_bytes (key_len item) @ k @ le_bytes (internal_id item) @ x))"

definition data_ok :: "the_storage \<Rightarrow> (nat \<Rightarrow> (u8 \<times> byte list) option) \<Rightarrow> (ptr \<Rightarrow> point list list \<times> point list) \<Rightarrow> bool" where
  "data_ok st m G \<longleftrightarrow> disk_ok (data_disk_store st) m \<and>
     (\<forall>p\<in>set (item_list st). item_ok m (initial_tsc_buf_size st) (items st p) (fst (G p)) (snd (G p)) \<and> distinct (offs_of (items st p))) \<and>
     (\<forall>p\<in>set (item_list st). \<forall>q\<in>set (item_list st). p \<noteq> q \<longrightarrow> set (offs_of (items st p)) \<inter> set (offs_of (items st q)) = {}) \<and>
     dom m = (\<Union>p\<in>set (item_list st). set (offs_of (items st p)))"

definition keys_ok :: "the_storage \<Rightarrow> (nat \<Rightarrow> (u8 \<times> byte list) option) \<Rightarrow> bool" where
  "keys_ok st mk \<longleftrightarrow> disk_ok (key_disk_store st) mk \<and> (\<forall>p\<in>set (item_list st). key_stored mk (items st p)) \<and>
     inj_on (\<lambda>p. key (items st p)) (set (item_list st)) \<and> inj_on (\<lambda>p. key_storage_offset (items st p)) (set (item_list st)) \<and>
     inj_on (\<lambda>p. internal_id (items st p)) (set (item_list st)) \<and>
     (\<forall>p\<in>set (item_list st). 0 < internal_id (items st p) \<and> internal_id (items st p) < next_internal_id st) \<and>
     0 < next_internal_id st \<and> dom mk = (\<lambda>p. unat (key_storage_offset (items st p))) ` set (item_list st)"

text \<open>The strings by which an item is found in the label indices are those of its key.\<close>

definition index_vals_ok :: "byte list list \<Rightarrow> storage_item \<Rightarrow> bool" where
  "index_vals_ok inds item \<longleftrightarrow> index_val item = map (get_key_value (item_key item) (unat (key_len item))) inds"

lemma index_vals_same: "same_key a b \<Longrightarrow> index_vals_ok inds a \<Longrightarrow> index_vals_ok inds b"
  by (simp add: index_vals_ok_def same_key_def item_key_def)

definition lists_ok :: "the_storage \<Rightarrow> bool" where
  "lists_ok st \<longleftrightarrow> distinct (item_list st) \<and> distinct (allocated st) \<and> set (allocated st) = set (item_list st) \<and>
     indices_ok st (set (item_list st)) \<and> (\<forall>p\<in>set (item_list st). index_vals_ok (indices st) (items st p)) \<and> 28 \<le> initial_tsc_buf_size st \<and> initial_tsc_buf_size st + 38 \<le> 2 ^ 20"

definition series :: "point list list \<times> point list \<Rightarrow> point list" where
  "series g = concat (fst g) @ snd g"

definition times_ok :: "the_storage \<Rightarrow> (ptr \<Rightarrow> point list list \<times> point list) \<Rightarrow> bool" where
  "times_ok st G \<longleftrightarrow> (\<forall>p\<in>set (item_list st). \<forall>q\<in>set (series (G p)). 0 < sint (fst q))"

definition store_ok :: "the_storage \<Rightarrow> (ptr \<Rightarrow> point list list \<times> point list) \<Rightarrow> bool" where
  "store_ok st G \<longleftrightarrow> lists_ok st \<and> times_ok st G \<and> (\<exists>m. data_ok st m G) \<and> (\<exists>mk. keys_ok st mk)"

definition db_of :: "the_storage \<Rightarrow> (ptr \<Rightarrow> point list list \<times> point list) \<Rightarrow> byte list \<Rightarrow> point list option" where
  "db_of st G k = map_option (series \<circ> G) (find (\<lambda>p. key (items st p) = Some (k @ [0])) (item_list st))"

definition storage_good :: "the_storage \<Rightarrow> (byte list \<Rightarrow> point list option) \<Rightarrow> bool" where
  "storage_good st db \<longleftrightarrow> (\<exists>G. store_ok st G \<and> db = db_of st G)"

text \<open>What the C library promises of \<^verbatim>\<open>malloc\<close>: a new object is at an address that is not in use.\<close>

definition env_ok :: "c_env \<Rightarrow> bool" where
  "env_ok env \<longleftrightarrow> (\<forall>ps. env_malloc env ps \<notin> set ps)"

lemma key_stored_is: "key_stored mk item \<Longrightarrow> \<exists>k. key_is item k"
  by (auto simp: key_stored_def)

lemma keys_is: "keys_ok st mk \<Longrightarrow> p \<in> set (item_list st) \<Longrightarrow> \<exists>k. key_is (items st p) k"
  using key_stored_is by (auto simp: keys_ok_def)

lemma key_unique:
  assumes "keys_ok st mk" "p \<in> set (item_list st)" "q \<in> set (item_list st)" "key_is (items st p) k" "key_is (items st q) k"
  shows "q = p"
proof -
  have "inj_on (\<lambda>p. key (items st p)) (set (item_list st))" using assms(1) by (simp add: keys_ok_def)
  from inj_onD [OF this, of q p] show ?thesis using assms(2-) by (simp add: key_is_def)
qed

lemma db_of_eq:
  assumes "keys_ok st mk" "p \<in> set (item_list st)" "key_is (items st p) k"
  shows "db_of st G k = Some (series (G p))"
proof -
  let ?P = "\<lambda>p. key (items st p) = Some (k @ [0])"
  have P: "?P p" using assms(3) by (simp add: key_is_def)
  then obtain q where q: "find ?P (item_list st) = Some q" using assms(2) by (cases "find ?P (item_list st)") (auto simp: find_None_iff)
  then have "?P q" "q \<in> set (item_list st)" by (auto simp: find_Some_iff)
  then have "q = p" using assms(1,2) P by (auto simp: keys_ok_def inj_on_def)
  then show ?thesis using q by (simp add: db_of_def)
qed

lemma db_of_None:
  assumes "\<And>p. p \<in> set (item_list st) \<Longrightarrow> \<not> key_is (items st p) k" "keys_ok st mk"
  shows "db_of st G k = None"
proof -
  have "key (items st p) \<noteq> Some (k @ [0])" if p: "p \<in> set (item_list st)" for p
  proof
    assume a: "key (items st p) = Some (k @ [0])"
    obtain k' where "key_is (items st p) k'" using keys_is [OF assms(2) p] by blast
    then have "key_is (items st p) k" using a by (simp add: key_is_def)
    then show False using assms(1) p by blast
  qed
  then show ?thesis by (simp add: db_of_def find_None_iff)
qed

section \<open>Finding an item\<close>

lemma find_key:
  assumes l: "lists_ok st" and k: "keys_ok st mk" and n: "unat klen = length k"
  shows "(\<exists>p\<in>set (item_list st). key_is (items st p) k \<and> find_item st LFM_INDEX (key_probe (k @ x) klen) = Some p) \<or>
    (\<forall>p\<in>set (item_list st). \<not> key_is (items st p) k) \<and> find_item st LFM_INDEX (key_probe (k @ x) klen) = None"
proof -
  let ?f = "find_item st LFM_INDEX (key_probe (k @ x) klen)"
  have i: "indices_ok st (set (item_list st))" using l by (simp add: lists_ok_def)
  have c: "storage_item_cmp (key_probe (k @ x) klen) (items st p) LFM_INDEX = 0 \<longleftrightarrow> key_is (items st p) k" if p: "p \<in> set (item_list st)" for p
  proof -
    obtain k' where k': "key_is (items st p) k'" using keys_is [OF k p] by blast
    then show ?thesis using cmp_key_probe [OF k' n] by (auto simp: key_is_def)
  qed
  show ?thesis using find_item_ok [OF i special_index(2), of "key_probe (k @ x) klen"] c by (cases ?f) auto
qed

lemma get_item_found:
  assumes "lists_ok st" "keys_ok st mk" "unat klen = length k" "p \<in> set (item_list st)" "key_is (items st p) k"
  shows "storage_get_item env st (k @ x) klen ins = Some (ERR_OK, Some p, st)"
proof -
  obtain q where q: "q \<in> set (item_list st)" "key_is (items st q) k" "find_item st LFM_INDEX (key_probe (k @ x) klen) = Some q"
    using find_key [OF assms(1-3)] assms(4,5) by blast
  have "q = p" by (rule key_unique [OF assms(2,4) q(1) assms(5) q(2)])
  then show ?thesis using q by (simp add: storage_get_item_def)
qed

section \<open>Inserting an item\<close>

lemma tsc_init_ok:
  assumes "28 \<le> n" "n + 38 \<le> 2 ^ 20"
  shows "\<exists>d. tsc_init junk p0 n = Some (ERR_OK, d) \<and> tsc_inv d [] \<and> unat (data_len d) = n"
proof -
  have "\<exists>d. tsc_init junk p0 n = Some (ERR_OK, d)"
    using assms by (simp add: tsc_init_def set_num_pts fresh_mem_def MAX_NUM_VALID_BITS_def sz_def)
  then show ?thesis using tsc_init_inv [of junk p0 n] assms by auto
qed

lemma insert_item_ok:
  assumes l: "lists_ok st" and env: "env_ok env" and n: "unat klen = length k" "klen \<noteq> INVALID_KEY"
  shows "\<exists>r item. storage_insert_item env st (k @ x) klen iid = Some (env_malloc env (allocated st),
      st\<lparr>items := (items st)(env_malloc env (allocated st) := item), allocated := env_malloc env (allocated st) # allocated st,
         root := r, item_list := item_list st @ [env_malloc env (allocated st)]\<rparr>) \<and>
    lists_ok (st\<lparr>items := (items st)(env_malloc env (allocated st) := item), allocated := env_malloc env (allocated st) # allocated st,
         root := r, item_list := item_list st @ [env_malloc env (allocated st)]\<rparr>) \<and>
    key_is item k \<and> internal_id item = iid \<and> item_ok m (initial_tsc_buf_size st) item [] [] \<and> offs_of item = []"
proof -
  let ?p = "env_malloc env (allocated st)" and ?n = "initial_tsc_buf_size st"
  have fresh: "?p \<notin> set (item_list st)" using env l by (auto simp: env_ok_def lists_ok_def)
  have n20: "28 \<le> ?n" "?n + 38 \<le> 2 ^ 20" using l by (simp_all add: lists_ok_def)
  obtain d where d: "tsc_init (env_junk env) (env_header env) ?n = Some (ERR_OK, d)" "tsc_inv d []" "unat (data_len d) = ?n"
    using tsc_init_ok [OF n20] by blast
  obtain item where item: "storage_item_new env klen (k @ x) ?n (indices st) iid = Some item" "key_is item k" "internal_id item = iid"
    "item_data item = d" "data_offsets item = []" "0 < cap_data_offsets item" "index_vals_ok (indices st) item"
  proof -
    let ?i = "\<lparr>internal_id = 0, key_len = klen, key = Some (k @ [0]), item_data = d, key_storage_offset = 0,
      data_offsets = [], cap_data_offsets = 0, index_val = []\<rparr>"
    obtain c where c: "storage_item_ensure_offset_room ?i 4 = ?i\<lparr>cap_data_offsets := c\<rparr>" "4 \<le> c" by (rule ensure_room)
    show thesis
      by (rule that) (use c d n in \<open>auto simp: storage_item_new_def key_is_def Let_def index_vals_ok_def item_key_def\<close>)
  qed
  let ?st1 = "st\<lparr>items := (items st)(?p := item), allocated := ?p # allocated st\<rparr>"
  have "indices_ok ?st1 (set (item_list st))"
    by (rule indices_ok_cong [of st]) (use l fresh in \<open>auto simp: lists_ok_def\<close>)
  from add_all [OF this fresh] obtain r where r: "for_each (root_add ?p) [0..<num_roots ?st1] ?st1 = Some (?st1\<lparr>root := r\<rparr>)"
    "indices_ok (?st1\<lparr>root := r\<rparr>) (insert ?p (set (item_list st)))" by blast
  have "lists_ok (?st1\<lparr>root := r, item_list := item_list st @ [?p]\<rparr>)"
    using l fresh item(7) indices_ok_cong [OF r(2), of "?st1\<lparr>root := r, item_list := item_list st @ [?p]\<rparr>"] by (auto simp: lists_ok_def)
  moreover have "storage_insert_item env st (k @ x) klen iid = Some (?p, ?st1\<lparr>root := r, item_list := item_list st @ [?p]\<rparr>)"
    using item(1) r(1) n(2) by (simp add: storage_insert_item_def Let_def)
  ultimately show ?thesis using item d by (intro exI [of _ r] exI [of _ item]) (simp add: item_ok_def offs_of_def)
qed

definition valid_key :: "byte list \<Rightarrow> bool" where
  "valid_key k \<longleftrightarrow> k \<noteq> [] \<and> hd k \<noteq> 0 \<and> length k + 10 \<le> MAX_BUF"

lemma valid_key_len: "valid_key k \<Longrightarrow> unat klen = length k \<Longrightarrow> klen \<noteq> INVALID_KEY \<and> klen \<noteq> 0"
  by (auto simp: valid_key_def MAX_BUF_def INVALID_KEY_def)

lemma key_stored_upd: "key_stored mk item \<Longrightarrow> mk off = None \<Longrightarrow> key_stored (mk(off \<mapsto> z)) item"
  by (auto simp: key_stored_def)

text \<open>The key of a new item is written to the key store.\<close>

lemma write_key_ok:
  assumes good: "disk_ok (key_disk_store st) mk" and k: "key_is (items st p) k" "valid_key k"
    and room: "disk_size (key_disk_store st) + 2 ^ 27 < 2 ^ 62"
  shows "\<exists>ds off z. storage_write_key_and_internal_id st p =
      Some (0, st\<lparr>key_disk_store := ds, items := (items st)(p := (items st p)\<lparr>key_storage_offset := of_nat off\<rparr>)\<rparr>) \<and>
    mk off = None \<and> disk_ok ds (mk(off \<mapsto> z)) \<and> key_stored (mk(off \<mapsto> z)) ((items st p)\<lparr>key_storage_offset := of_nat off\<rparr>) \<and>
    off < 2 ^ 62 \<and> disk_size ds \<le> disk_size (key_disk_store st) + 2 ^ 27"
proof -
  let ?i = "items st p"
  let ?buf = "le_bytes (key_len ?i) @ k @ le_bytes (internal_id ?i)"
  have ki: "key ?i = Some (k @ [0])" "unat (key_len ?i) = length k" using k(1) by (simp_all add: key_is_def)
  have len: "length k \<le> 10230" "k \<noteq> []" using k(2) by (simp_all add: valid_key_def MAX_BUF_def)
  have n: "2 \<le> length ?buf" "length ?buf \<le> 2 ^ 20" using len by simp_all
  obtain ds off pad where a: "disk_storage_reserve_and_write_block (key_disk_store st) BLOCK_STATUS_VALID ?buf = Some (0, off, ds)"
    "mk off = None" "disk_ok ds (mk(off \<mapsto> (BLOCK_STATUS_VALID, ?buf @ pad)))" "disk_size ds \<le> disk_size (key_disk_store st) + 2 ^ 27"
    using dk.add_law [OF good n _ room] by blast
  have off: "0 < off" "off < 2 ^ 62" using holds_bound [OF good_holds [OF disk_ok_good [OF a(3)]], of off] by simp_all
  then have "unat (of_nat off :: u64) = off" "(of_nat off :: u64) \<noteq> 0" using u64_offset [OF off(2)] by (auto simp: unat_eq_zero)
  then have "key_stored (mk(off \<mapsto> (BLOCK_STATUS_VALID, ?buf @ pad))) (?i\<lparr>key_storage_offset := of_nat off\<rparr>)"
    using k by (auto simp: key_stored_def valid_key_def key_is_def)
  moreover have "storage_write_key_and_internal_id st p =
      Some (0, st\<lparr>key_disk_store := ds, items := (items st)(p := ?i\<lparr>key_storage_offset := of_nat off\<rparr>)\<rparr>)"
    using a(1) ki len by (simp add: storage_write_key_and_internal_id_def upd_item_def MAX_BUF_def Let_def)
  ultimately show ?thesis using a(2-4) off(2) by blast
qed

lemma keys_ok_insert:
  assumes k: "keys_ok st mk" and new: "\<forall>q\<in>set (item_list st). \<not> key_is (items st q) k" and p: "p \<notin> set (item_list st)"
    and item: "key_stored (mk(off \<mapsto> z)) item" "key_is item k" "internal_id item = next_internal_id st" "key_storage_offset item = of_nat off"
    and off: "mk off = None" "off < 2 ^ 62" and ds: "disk_ok ds (mk(off \<mapsto> z))" and id: "unat (next_internal_id st) < 2 ^ 62"
    and st': "items st' = (items st)(p := item)" "item_list st' = item_list st @ [p]" "next_internal_id st' = next_internal_id st + 1"
      "key_disk_store st' = ds"
  shows "keys_ok st' (mk(off \<mapsto> z))"
proof -
  have other: "items st' q = items st q" if "q \<in> set (item_list st)" for q using that p st'(1) by auto
  have ids: "next_internal_id st < next_internal_id st + 1"
    using id by (simp add: word_less_nat_alt unat_word_ariths)
  have old: "key_stored mk (items st q)" "internal_id (items st q) < next_internal_id st" "0 < internal_id (items st q)"
    if "q \<in> set (item_list st)" for q using k that by (auto simp: keys_ok_def)
  have ne: "key (items st q) \<noteq> key item" "key_storage_offset (items st q) \<noteq> key_storage_offset item" "internal_id (items st q) \<noteq> internal_id item"
    if q: "q \<in> set (item_list st)" for q
  proof -
    show "key (items st q) \<noteq> key item"
    proof
      assume "key (items st q) = key item"
      then have "key_is (items st q) k" using item(2) keys_is [OF k q] by (auto simp: key_is_def)
      then show False using new q by blast
    qed
    show "key_storage_offset (items st q) \<noteq> key_storage_offset item"
      using old(1) [OF q] off u64_offset [OF off(2)] item(4) by (auto simp: key_stored_def)
    show "internal_id (items st q) \<noteq> internal_id item" using old(2) [OF q] item(3) by auto
  qed
  have inj: "inj_on (\<lambda>q. f (items st' q)) (set (item_list st'))"
    if "inj_on (\<lambda>q. f (items st q)) (set (item_list st))" "\<And>q. q \<in> set (item_list st) \<Longrightarrow> f (items st q) \<noteq> f item" for f
  proof -
    have "inj_on (\<lambda>q. f (items st' q)) (set (item_list st))" using that(1) other by (simp add: inj_on_def)
    moreover have "f (items st' p) \<notin> (\<lambda>q. f (items st' q)) ` set (item_list st)" using that(2) other st'(1) by fastforce
    ultimately show ?thesis using p st'(2) by (simp add: inj_on_insert)
  qed
  show ?thesis unfolding keys_ok_def
  proof (intro conjI)
    show "disk_ok (key_disk_store st') (mk(off \<mapsto> z))" using ds st'(4) by simp
    show "\<forall>q\<in>set (item_list st'). key_stored (mk(off \<mapsto> z)) (items st' q)"
      using old(1) key_stored_upd [of mk _ off z] off(1) item(1) st'(1,2) p by auto
    show "inj_on (\<lambda>q. key (items st' q)) (set (item_list st'))" "inj_on (\<lambda>q. key_storage_offset (items st' q)) (set (item_list st'))"
      "inj_on (\<lambda>q. internal_id (items st' q)) (set (item_list st'))"
      using k ne by (intro inj; simp add: keys_ok_def)+
    show "\<forall>q\<in>set (item_list st'). 0 < internal_id (items st' q) \<and> internal_id (items st' q) < next_internal_id st'"
    proof
      fix q assume q: "q \<in> set (item_list st')"
      show "0 < internal_id (items st' q) \<and> internal_id (items st' q) < next_internal_id st'"
      proof (cases "q = p")
        case True
        then show ?thesis using ids item(3) k st'(1,3) by (simp add: keys_ok_def)
      next
        case False
        then have "q \<in> set (item_list st)" using q st'(2) by simp
        then show ?thesis using other old(2,3) st'(3) less_trans [OF _ ids] by simp
      qed
    qed
    show "0 < next_internal_id st'" using ids k st'(3) less_trans [OF _ ids] by (simp add: keys_ok_def)
    have "(\<lambda>q. unat (key_storage_offset (items st' q))) ` set (item_list st) = (\<lambda>q. unat (key_storage_offset (items st q))) ` set (item_list st)"
      using other by (intro image_cong) simp_all
    then show "dom (mk(off \<mapsto> z)) = (\<lambda>q. unat (key_storage_offset (items st' q))) ` set (item_list st')"
      using k st'(1,2) item(4) u64_offset [OF off(2)] by (simp add: keys_ok_def)
  qed
qed

lemma data_ok_insert:
  assumes d: "data_ok st m G" and p: "p \<notin> set (item_list st)" and item: "item_ok m (initial_tsc_buf_size st) item [] []" "offs_of item = []"
    and st': "items st' = (items st)(p := item)" "item_list st' = item_list st @ [p]" "data_disk_store st' = data_disk_store st"
      "initial_tsc_buf_size st' = initial_tsc_buf_size st"
  shows "data_ok st' m (G(p := ([], [])))"
proof -
  have "(\<Union>q\<in>set (item_list st). set (offs_of (items st' q))) = (\<Union>q\<in>set (item_list st). set (offs_of (items st q)))"
    using p st'(1) by (intro SUP_cong) auto
  then have "dom m = (\<Union>q\<in>set (item_list st'). set (offs_of (items st' q)))" using d item(2) st'(1,2) by (simp add: data_ok_def)
  then show ?thesis using d p item st' unfolding data_ok_def by auto
qed

lemma get_item_new:
  assumes ok: "store_ok st G" and env: "env_ok env" and k: "valid_key k" "unat klen = length k"
    and new: "\<forall>q\<in>set (item_list st). \<not> key_is (items st q) k"
    and room: "disk_size (key_disk_store st) + 2 ^ 27 < 2 ^ 62" "unat (next_internal_id st) < 2 ^ 62"
  shows "\<exists>p st'. storage_get_item env st (k @ x) klen True = Some (ERR_OK, Some p, st') \<and> p \<in> set (item_list st') \<and>
    key_is (items st' p) k \<and> store_ok st' (G(p := ([], []))) \<and> db_of st' (G(p := ([], []))) = (db_of st G)(k \<mapsto> []) \<and>
    data_disk_store st' = data_disk_store st \<and> initial_tsc_buf_size st' = initial_tsc_buf_size st \<and> retention_seconds st' = retention_seconds st \<and>
    indices st' = indices st \<and>
    item_list st' = item_list st @ [p] \<and> next_internal_id st' = next_internal_id st + 1 \<and>
    disk_size (key_disk_store st') \<le> disk_size (key_disk_store st) + 2 ^ 27"
proof -
  let ?p = "env_malloc env (allocated st)"
  obtain m mk where m: "data_ok st m G" and mk: "keys_ok st mk" and l: "lists_ok st" using ok by (auto simp: store_ok_def)
  have fresh: "?p \<notin> set (item_list st)" using env l by (auto simp: env_ok_def lists_ok_def)
  have none: "find_item st LFM_INDEX (key_probe (k @ x) klen) = None" using find_key [OF l mk k(2)] new by blast
  note kl = valid_key_len [OF k]
  define st1 where "st1 r item = st\<lparr>items := (items st)(?p := item), allocated := ?p # allocated st, root := r, item_list := item_list st @ [?p]\<rparr>" for r item
  obtain r item where i: "storage_insert_item env st (k @ x) klen (next_internal_id st) = Some (?p, st1 r item)"
    "lists_ok (st1 r item)" "key_is item k" "internal_id item = next_internal_id st" "item_ok m (initial_tsc_buf_size st) item [] []" "offs_of item = []"
    using insert_item_ok [OF l env k(2), of x "next_internal_id st" m] kl unfolding st1_def by blast
  define s1 where "s1 = (st1 r item)\<lparr>next_internal_id := next_internal_id st + 1\<rparr>"
  have "disk_ok (key_disk_store s1) mk" "key_is (items s1 ?p) k" "disk_size (key_disk_store s1) + 2 ^ 27 < 2 ^ 62"
    using mk i(3) room by (simp_all add: keys_ok_def s1_def st1_def)
  from write_key_ok [OF this(1,2) k(1) this(3)]
  obtain ds off z where w: "storage_write_key_and_internal_id s1 ?p =
      Some (0, s1\<lparr>key_disk_store := ds, items := (items s1)(?p := (items s1 ?p)\<lparr>key_storage_offset := of_nat off\<rparr>)\<rparr>)"
    "mk off = None" "disk_ok ds (mk(off \<mapsto> z))" "key_stored (mk(off \<mapsto> z)) ((items s1 ?p)\<lparr>key_storage_offset := of_nat off\<rparr>)" "off < 2 ^ 62"
    "disk_size ds \<le> disk_size (key_disk_store s1) + 2 ^ 27" by blast
  define s2 where "s2 = s1\<lparr>key_disk_store := ds, items := (items s1)(?p := (items s1 ?p)\<lparr>key_storage_offset := of_nat off\<rparr>)\<rparr>"
  define i2 where "i2 = item\<lparr>key_storage_offset := of_nat off\<rparr>"
  have s2: "items s2 = (items st)(?p := i2)" "item_list s2 = item_list st @ [?p]" "next_internal_id s2 = next_internal_id st + 1"
    "key_disk_store s2 = ds" "data_disk_store s2 = data_disk_store st" "initial_tsc_buf_size s2 = initial_tsc_buf_size st"
    "retention_seconds s2 = retention_seconds st" "key_disk_store s1 = key_disk_store st" "indices s2 = indices st"
    by (simp_all add: s2_def s1_def st1_def i2_def)
  have i2: "key_stored (mk(off \<mapsto> z)) i2" "key_is i2 k" "internal_id i2 = next_internal_id st" "key_storage_offset i2 = of_nat off"
    "item_ok m (initial_tsc_buf_size st) i2 [] []" "offs_of i2 = []"
    using w(4) i(3-6) by (simp_all add: i2_def s1_def st1_def key_is_def item_ok_def offs_of_def)
  have "indices_ok s2 (set (item_list s2))"
    by (rule indices_ok_cong [of "st1 r item"]) (use i(2) in \<open>auto simp: lists_ok_def s2_def s1_def st1_def same_key_def\<close>)
  moreover have "index_vals_ok (indices st) i2" using i(2) index_vals_same [of item i2] by (simp add: lists_ok_def st1_def i2_def same_key_def)
  ultimately have "lists_ok s2" using i(2) s2 by (auto simp: lists_ok_def s2_def s1_def st1_def i2_def)
  moreover have "data_ok s2 m (G(?p := ([], [])))" by (rule data_ok_insert [OF m fresh i2(5,6) s2(1,2,5,6)])
  moreover have "keys_ok s2 (mk(off \<mapsto> z))"
    by (rule keys_ok_insert [OF mk new fresh i2(1-4) w(2,5,3) room(2) s2(1-4)])
  moreover have "storage_get_item env st (k @ x) klen True = Some (ERR_OK, Some ?p, s2)"
    using none kl i(1) w(1) by (simp add: storage_get_item_def s1_def st1_def s2_def Let_def)
  moreover have "db_of s2 (G(?p := ([], []))) = (db_of st G)(k \<mapsto> [])"
  proof
    fix k'
    have "find (\<lambda>q. key (items s2 q) = Some (k' @ [0])) (item_list st) = find (\<lambda>q. key (items st q) = Some (k' @ [0])) (item_list st)"
      by (rule find_cong_on) (use fresh s2(1) in auto)
    moreover have "find (\<lambda>q. key (items st q) = Some (k @ [0])) (item_list st) = None"
      using db_of_None [of st k mk G] new mk by (auto simp: db_of_def)
    moreover have "q \<noteq> ?p" if "find (\<lambda>q. key (items st q) = Some (k' @ [0])) (item_list st) = Some q" for q
      using find_SomeD [OF that] fresh by auto
    ultimately show "db_of s2 (G(?p := ([], []))) k' = ((db_of st G)(k \<mapsto> [])) k'"
      using i2(2) s2(1,2) by (auto simp: db_of_def find_append key_is_def series_def split: option.splits)
  qed
  moreover have "times_ok s2 (G(?p := ([], [])))" using ok s2(2) by (auto simp: store_ok_def times_ok_def series_def)
  ultimately show ?thesis using s2 i2(2) w(6) unfolding store_ok_def
    by (intro exI [of _ ?p] exI [of _ s2] conjI exI [of _ m] exI [of _ "mk(off \<mapsto> z)"]) auto
qed

end
