(* ===== verification/Storage_Write.thy ===== *)
theory Storage_Write
  imports Storage_Good
begin

unbundle bit_operations_syntax

text \<open>
  Writing and reading series: \<^verbatim>\<open>storage_write\<close>, \<^verbatim>\<open>storage_sync\<close> and \<^verbatim>\<open>storage_get\<close> of
  \<^verbatim>\<open>src/common/storage.c\<close> keep the invariant of the storage and do to the database what they should.
\<close>

section \<open>Changing one item\<close>

lemma UN_minus: "(\<And>q. q \<in> L \<Longrightarrow> q \<noteq> p \<Longrightarrow> f q \<inter> f p = {}) \<Longrightarrow> (\<Union>q\<in>L. f q) - f p = (\<Union>q\<in>L - {p}. f q)"
  by blast

text \<open>What a change of one item may do to the data store: all blocks of other items are as before.\<close>

definition footprint :: "(nat \<Rightarrow> (u8 \<times> byte list) option) \<Rightarrow> (nat \<Rightarrow> (u8 \<times> byte list) option) \<Rightarrow> storage_item \<Rightarrow> storage_item \<Rightarrow> bool" where
  "footprint m m' item item' \<longleftrightarrow> (\<forall>x. m x \<noteq> None \<longrightarrow> x \<notin> set (offs_of item) \<longrightarrow> m' x = m x) \<and>
     (\<forall>x\<in>set (offs_of item'). x \<in> set (offs_of item) \<or> m x = None) \<and>
     dom m' = dom m - set (offs_of item) \<union> set (offs_of item') \<and> (distinct (offs_of item) \<longrightarrow> distinct (offs_of item'))"

lemma item_ok_dom: "item_ok m n item blks cur \<Longrightarrow> set (offs_of item) \<subseteq> dom m"
  using item_ok_mapped by fastforce

lemma footprint_only_changes:
  assumes "only_changes m m' item item'" "item_ok m n item blks cur"
  shows "footprint m m' item item'"
proof -
  obtain off where o: "\<forall>x. x \<noteq> off \<longrightarrow> m' x = m x" "m' off \<noteq> None" "m off = None \<or> off \<in> set (offs_of item)"
    "set (offs_of item') = insert off (set (offs_of item))" "distinct (offs_of item) \<longrightarrow> distinct (offs_of item')"
    using assms(1) by (auto simp: only_changes_def)
  have "x \<in> dom m' \<longleftrightarrow> x = off \<or> x \<in> dom m" for x using o(1,2) by (cases "x = off") (auto simp: domIff)
  then have "dom m' = dom m - set (offs_of item) \<union> set (offs_of item')" using o(4) item_ok_dom [OF assms(2)] by blast
  moreover have "m' x = m x" if "m x \<noteq> None" "x \<notin> set (offs_of item)" for x using o(1,3) that by (cases "x = off") auto
  moreover have "\<forall>x\<in>set (offs_of item'). x \<in> set (offs_of item) \<or> m x = None" using o(3,4) by auto
  ultimately show ?thesis using o(5) by (simp add: footprint_def)
qed

lemma footprint_same: "offs_of item' = offs_of item \<Longrightarrow> item_ok m n item blks cur \<Longrightarrow> footprint m m item item'"
  using item_ok_dom [of m n item blks cur] by (auto simp: footprint_def)

lemma data_ok_upd:
  assumes d: "data_ok st m G" and p: "p \<in> set (item_list st)" and ds: "disk_ok ds m'"
    and item: "item_ok m' (initial_tsc_buf_size st) item' blks cur" "footprint m m' (items st p) item'"
  shows "data_ok (st\<lparr>data_disk_store := ds, items := (items st)(p := item')\<rparr>) m' (G(p := (blks, cur)))"
proof -
  let ?n = "initial_tsc_buf_size st" and ?L = "set (item_list st)"
  have ok: "item_ok m ?n (items st q) (fst (G q)) (snd (G q))" "distinct (offs_of (items st q))" if "q \<in> ?L" for q
    using d that by (auto simp: data_ok_def)
  have dis: "set (offs_of (items st q)) \<inter> set (offs_of (items st r)) = {}" if "q \<in> ?L" "r \<in> ?L" "q \<noteq> r" for q r
    using d that by (auto simp: data_ok_def)
  have old: "m x \<noteq> None" if "q \<in> ?L" "x \<in> set (offs_of (items st q))" for q x
    using item_ok_mapped [OF ok(1)] that by fastforce
  have other: "item_ok m' ?n (items st q) (fst (G q)) (snd (G q))" if q: "q \<in> ?L" "q \<noteq> p" for q
  proof (rule item_ok_frame [OF ok(1) [OF q(1)]])
    fix x assume x: "x \<in> set (offs_of (items st q))"
    then have "x \<notin> set (offs_of (items st p))" using dis [OF q(1) p q(2)] by blast
    then show "m' x = m x" using item(2) old [OF q(1) x] by (simp add: footprint_def)
  qed
  have apart: "set (offs_of item') \<inter> set (offs_of (items st q)) = {}" if q: "q \<in> ?L" "q \<noteq> p" for q
    using item(2) dis [OF p q(1)] q old [OF q(1)] unfolding footprint_def by blast
  have "distinct (offs_of item')" using item(2) ok(2) [OF p] by (simp add: footprint_def)
  moreover have "dom m' = (\<Union>q\<in>?L. set (offs_of (((items st)(p := item')) q)))"
  proof -
    have "dom m = (\<Union>q\<in>?L. set (offs_of (items st q)))" "dom m' = dom m - set (offs_of (items st p)) \<union> set (offs_of item')"
      using d item(2) by (simp_all add: data_ok_def footprint_def)
    moreover have "(\<Union>q\<in>?L. set (offs_of (items st q))) - set (offs_of (items st p)) = (\<Union>q\<in>?L - {p}. set (offs_of (items st q)))"
      by (rule UN_minus) (rule dis [OF _ p])
    moreover have "(\<Union>q\<in>insert p (?L - {p}). set (offs_of (((items st)(p := item')) q))) =
        set (offs_of item') \<union> (\<Union>q\<in>?L - {p}. set (offs_of (items st q)))"
      unfolding UN_insert by (intro arg_cong2 [where f = "(\<union>)"] SUP_cong) simp_all
    ultimately show ?thesis unfolding insert_Diff [OF p] by (metis Un_commute)
  qed
  ultimately show ?thesis using ds item(1) other apart dis ok(2) unfolding data_ok_def by (auto simp: Int_commute)
qed

lemma keys_ok_upd:
  assumes "keys_ok st mk" "same_ident (items st p) item'"
  shows "keys_ok (st\<lparr>data_disk_store := ds, items := (items st)(p := item')\<rparr>) mk"
proof -
  have s: "key item' = key (items st p)" "key_len item' = key_len (items st p)" "internal_id item' = internal_id (items st p)"
    "key_storage_offset item' = key_storage_offset (items st p)" using assms(2) by (simp_all add: same_ident_def same_key_def)
  then have f: "(\<lambda>q. key (((items st)(p := item')) q)) = (\<lambda>q. key (items st q))"
    "(\<lambda>q. key_storage_offset (((items st)(p := item')) q)) = (\<lambda>q. key_storage_offset (items st q))"
    "(\<lambda>q. internal_id (((items st)(p := item')) q)) = (\<lambda>q. internal_id (items st q))"
    "\<And>q. internal_id (((items st)(p := item')) q) = internal_id (items st q)"
    "\<And>q. key_storage_offset (((items st)(p := item')) q) = key_storage_offset (items st q)"
    "\<And>q. key_stored mk (((items st)(p := item')) q) = key_stored mk (items st q)"
    by (auto simp: key_stored_def key_is_def fun_eq_iff)
  show ?thesis using assms(1) unfolding keys_ok_def by (simp add: f del: fun_upd_apply)
qed

lemma lists_ok_upd:
  assumes "lists_ok st" "same_ident (items st p) item'"
  shows "lists_ok (st\<lparr>data_disk_store := ds, items := (items st)(p := item')\<rparr>)"
proof -
  have "indices_ok (st\<lparr>data_disk_store := ds, items := (items st)(p := item')\<rparr>) (set (item_list st))"
    by (rule indices_ok_cong [of st]) (use assms in \<open>auto simp: lists_ok_def same_ident_def\<close>)
  then show ?thesis using assms index_vals_same [of "items st p" item'] by (auto simp: lists_ok_def same_ident_def)
qed

text \<open>All of it together: the item at \<open>p\<close> is replaced by one with the same key and other points.\<close>

lemma store_ok_upd:
  assumes "lists_ok st" "times_ok st G" "data_ok st m G" "keys_ok st mk" and p: "p \<in> set (item_list st)" and ds: "disk_ok ds m'"
    and item: "item_ok m' (initial_tsc_buf_size st) item' blks cur" "footprint m m' (items st p) item'" "same_ident (items st p) item'"
    and pos: "\<forall>q\<in>set (series (blks, cur)). 0 < sint (fst q)"
  shows "store_ok (st\<lparr>data_disk_store := ds, items := (items st)(p := item')\<rparr>) (G(p := (blks, cur)))"
  unfolding store_ok_def
  using data_ok_upd [OF assms(3) p ds item(1,2)] keys_ok_upd [OF assms(4) item(3)] lists_ok_upd [OF assms(1) item(3)] assms(2) pos
  by (auto simp: times_ok_def)

lemma db_of_upd:
  assumes k: "keys_ok st mk" and p: "p \<in> set (item_list st)" "key_is (items st p) k"
    and st': "item_list st' = item_list st" "\<And>q. q \<in> set (item_list st) \<Longrightarrow> key (items st' q) = key (items st q)"
    and G: "\<And>q. q \<in> set (item_list st) \<Longrightarrow> q \<noteq> p \<Longrightarrow> series (G' q) = series (G q)"
  shows "db_of st' G' = (db_of st G)(k \<mapsto> series (G' p))"
proof
  fix k'
  have f: "find (\<lambda>q. key (items st' q) = Some (k' @ [0])) (item_list st') = find (\<lambda>q. key (items st q) = Some (k' @ [0])) (item_list st)"
    unfolding st'(1) by (rule find_cong_on) (simp add: st'(2))
  show "db_of st' G' k' = ((db_of st G)(k \<mapsto> series (G' p))) k'"
  proof (cases "k' = k")
    case True
    obtain q where q: "find (\<lambda>q. key (items st q) = Some (k @ [0])) (item_list st) = Some q"
      using db_of_eq [OF k p, of G] by (auto simp: db_of_def)
    then have "q = p" using find_SomeD [OF q] p k by (auto simp: keys_ok_def inj_on_def key_is_def)
    then show ?thesis using q f True by (simp add: db_of_def)
  next
    case False
    have "q \<noteq> p \<and> q \<in> set (item_list st)" if "find (\<lambda>q. key (items st q) = Some (k' @ [0])) (item_list st) = Some q" for q
      using find_SomeD [OF that] p False by (auto simp: key_is_def)
    then show ?thesis using f False G
      by (cases "find (\<lambda>q. key (items st q) = Some (k' @ [0])) (item_list st)") (auto simp: db_of_def)
  qed
qed

text \<open>The rest of the storage, which the operations on one item leave as it is.\<close>

definition same_shape :: "the_storage \<Rightarrow> the_storage \<Rightarrow> bool" where
  "same_shape st st' \<longleftrightarrow> item_list st' = item_list st \<and> indices st' = indices st \<and> root st' = root st \<and>
     key_disk_store st' = key_disk_store st \<and> next_internal_id st' = next_internal_id st \<and> retention_seconds st' = retention_seconds st \<and>
     initial_tsc_buf_size st' = initial_tsc_buf_size st \<and> allocated st' = allocated st \<and> (\<forall>q. same_ident (items st q) (items st' q))"

lemma same_ident_refl [simp]: "same_ident a a"
  by (simp add: same_ident_def)

lemma same_ident_trans: "same_ident a b \<Longrightarrow> same_ident b c \<Longrightarrow> same_ident a c"
  by (simp add: same_ident_def same_key_def)

lemma same_shape_refl [simp]: "same_shape st st"
  by (simp add: same_shape_def)

lemma same_shape_trans: "same_shape a b \<Longrightarrow> same_shape b c \<Longrightarrow> same_shape a c"
  using same_ident_trans by (fastforce simp: same_shape_def)

lemma same_shape_upd: "same_ident (items st p) item' \<Longrightarrow> same_shape st (st\<lparr>data_disk_store := ds, items := (items st)(p := item')\<rparr>)"
  by (simp add: same_shape_def)

lemma same_shape_db:
  assumes "store_ok st G" "p \<in> set (item_list st)" "key_is (items st p) k" "same_shape st st'"
  shows "db_of st' (G(p := g)) = (db_of st G)(k \<mapsto> series g)"
proof -
  obtain mk where "keys_ok st mk" using assms(1) by (auto simp: store_ok_def)
  from db_of_upd [OF this assms(2,3), of st' "G(p := g)" G] show ?thesis
    using assms(4) by (simp add: same_shape_def same_ident_def same_key_def)
qed

section \<open>Writing\<close>

lemma write_disk_step:
  assumes ok: "store_ok st G" and p: "p \<in> set (item_list st)" "snd (G p) \<noteq> []" and room: "disk_size (data_disk_store st) + 2 ^ 27 < 2 ^ 62"
  shows "\<exists>st'. storage_write_disk st p complete_block = Some (0, st') \<and>
    store_ok st' (G(p := if complete_block then (fst (G p) @ [snd (G p)], []) else G p)) \<and> same_shape st st' \<and>
    disk_size (data_disk_store st') \<le> disk_size (data_disk_store st) + 2 ^ 27"
proof -
  let ?n = "initial_tsc_buf_size st"
  obtain m mk where m: "data_ok st m G" and mk: "keys_ok st mk" and l: "lists_ok st" and t: "times_ok st G" using ok by (auto simp: store_ok_def)
  have i: "disk_ok (data_disk_store st) m" "item_ok m ?n (items st p) (fst (G p)) (snd (G p))" using m p by (auto simp: data_ok_def)
  have pos: "\<forall>q\<in>set (series (G p)). 0 < sint (fst q)" using t p by (simp add: times_ok_def)
  then have hd: "0 < sint (fst (hd (snd (G p))))" using p(2) by (simp add: series_def)
  obtain ds m' item' where w: "storage_write_disk st p complete_block = Some (0, st\<lparr>data_disk_store := ds, items := (items st)(p := item')\<rparr>)"
    "disk_ok ds m'" "item_ok m' ?n item' (if complete_block then fst (G p) @ [snd (G p)] else fst (G p)) (if complete_block then [] else snd (G p))"
    "same_ident (items st p) item'" "only_changes m m' (items st p) item'" "disk_size ds \<le> disk_size (data_disk_store st) + 2 ^ 27"
    using write_disk_ok [OF i p(2) hd _ room, of complete_block] l by (auto simp: lists_ok_def)
  have "\<forall>q\<in>set (series (if complete_block then fst (G p) @ [snd (G p)] else fst (G p), if complete_block then [] else snd (G p))). 0 < sint (fst q)"
    using pos by (auto simp: series_def)
  from store_ok_upd [OF l t m mk p(1) w(2,3) footprint_only_changes [OF w(5) i(2)] w(4) this] w(1,6) same_shape_upd [OF w(4)]
  show ?thesis by (cases complete_block) auto
qed

lemma last_ok_extend:
  assumes "last_ok m iid n e cur"
  shows "last_ok m iid n e (cur @ qs)"
proof (cases "fst e = 0")
  case False
  then obtain old new where o: "cur = old @ new" "saved_of iid n (m (unat (fst e))) old" "snd e = fst (hd cur)" using assms by (auto simp: last_ok_def)
  then have "cur @ qs = old @ (new @ qs)" "hd (cur @ qs) = hd cur" by (auto simp: saved_of_def)
  then show ?thesis using o unfolding last_ok_def by metis
qed (simp add: last_ok_def)

lemma set_data_step:
  assumes ok: "store_ok st G" and p: "p \<in> set (item_list st)"
    and d: "tsc_inv d (snd (G p) @ qs)" "data_len d = data_len (item_data (items st p))" and pos: "\<forall>q\<in>set qs. 0 < sint (fst q)"
  shows "store_ok (set_item_data st p d) (G(p := (fst (G p), snd (G p) @ qs)))" "same_shape st (set_item_data st p d)"
    "data_disk_store (set_item_data st p d) = data_disk_store st" "item_data (items (set_item_data st p d) p) = d"
proof -
  let ?n = "initial_tsc_buf_size st" and ?i = "(items st p)\<lparr>item_data := d\<rparr>"
  obtain m mk where m: "data_ok st m G" and mk: "keys_ok st mk" and l: "lists_ok st" and t: "times_ok st G" using ok by (auto simp: store_ok_def)
  have i: "disk_ok (data_disk_store st) m" "item_ok m ?n (items st p) (fst (G p)) (snd (G p))" using m p by (auto simp: data_ok_def)
  have i': "item_ok m ?n ?i (fst (G p)) (snd (G p) @ qs)" using i(2) d last_ok_extend unfolding item_ok_def by auto
  have e: "set_item_data st p d = st\<lparr>data_disk_store := data_disk_store st, items := (items st)(p := ?i)\<rparr>"
    by (simp add: set_item_data_def upd_item_def)
  have s: "same_ident (items st p) ?i" by (simp add: same_ident_def same_key_def)
  have "\<forall>q\<in>set (series (fst (G p), snd (G p) @ qs)). 0 < sint (fst q)" using t p pos by (auto simp: times_ok_def series_def)
  from store_ok_upd [OF l t m mk p i(1) i' footprint_same [OF _ i(2)] s this]
  show "store_ok (set_item_data st p d) (G(p := (fst (G p), snd (G p) @ qs)))" unfolding e by (simp add: offs_of_def)
  show "same_shape st (set_item_data st p d)" unfolding e by (rule same_shape_upd [OF s])
qed (simp_all add: set_item_data_def upd_item_def)

text \<open>The three outcomes of \<^verbatim>\<open>tsc_add\<close> that \<^verbatim>\<open>storage_write\<close> distinguishes; an empty block takes every point.\<close>

lemma add_outcome:
  assumes inv: "tsc_inv d cur" and n: "28 \<le> unat (data_len d)"
  obtains (ok) d' where "tsc_add d t y = Some (ERR_OK, d')" "tsc_inv d' (cur @ [(t, y)])" "data_len d' = data_len d"
    | (full) d' where "tsc_add d t y = Some (ERR_TSC_OUT_OF_SPACE, d')" "tsc_inv d' cur" "data_len d' = data_len d" "cur \<noteq> []"
    | (err) res d' where "tsc_add d t y = Some (res, d')" "res \<noteq> ERR_OK" "res \<noteq> ERR_TSC_OUT_OF_SPACE" "tsc_inv d' cur" "data_len d' = data_len d"
        "cur \<noteq> []" "\<not> follows (end_state None cur) (t, y) \<or> res = ERR_BITSTREAM_OUT_OF_SPACE \<and> unat (data_len d) mod 8 \<noteq> 4"
proof -
  have l: "length (tsc_data d) = unat (data_len d)" using inv by (simp add: tsc_inv_def)
  have empty: "point_fits d [] (t, y)" "18 * 8 \<le> 8 * (length (tsc_data d) - 4) - unat (num_valid_bits d)" if "cur = []"
  proof -
    have "length (point_bits None (t, y)) \<le> 64 * 3" using length_point_bits [of None "(t, y)"] by simp
    then have "word_ceil (length (point_bits None (t, y))) \<le> 64 * 3" by (rule word_ceil_le_words)
    then show "point_fits d [] (t, y)" using n l by (simp add: point_fits_def del: point_bits.simps)
    show "18 * 8 \<le> 8 * (length (tsc_data d) - 4) - unat (num_valid_bits d)" using inv n l that by (simp add: tsc_inv_def)
  qed
  show thesis
  proof (cases rule: tsc_add_cases [OF inv, of t y, case_names full order ok err])
    case full
    then show thesis using that(2) [of d] inv empty(2) by force
  next
    case (order r t0)
    then have "\<not> follows (end_state None cur) (t, y)" "cur \<noteq> []" by (cases r; auto)+
    then show thesis using that(3) [of ERR_OUT_OF_ORDER_TIMESTAMP d] order inv by (simp add: err_defs)
  next
    case ok
    then show thesis using that(1) by blast
  next
    case (err res d')
    have ne: "cur \<noteq> []" using err(5) empty(1) by blast
    show thesis
    proof (cases "res = ERR_TSC_OUT_OF_SPACE")
      case True
      then show thesis using that(2) err ne by blast
    next
      case False
      have "\<not> follows (end_state None cur) (t, y)" if w: "unat (data_len d) mod 8 = 4"
      proof
        assume f: "follows (end_state None cur) (t, y)"
        have "8 dvd length (tsc_data d) - 4" using w n l by (metis dvd_minus_mod)
        moreover have "18 * 8 \<le> 8 * (length (tsc_data d) - 4) - unat (num_valid_bits d)"
          using room_or_full [OF inv, of t y] err(1) False by force
        ultimately show False using point_fits_words [OF inv _ _ f] err(5) by blast
      qed
      then show thesis using that(3) [of res d'] err ne False by blast
    qed
  qed
qed

lemma item_facts:
  assumes "store_ok st G" "p \<in> set (item_list st)"
  shows "tsc_inv (item_data (items st p)) (snd (G p))" "28 \<le> unat (data_len (item_data (items st p)))"
    "unat (data_len (item_data (items st p))) = initial_tsc_buf_size st"
  using assms by (auto simp: store_ok_def data_ok_def item_ok_def lists_ok_def)

text \<open>A full block is written to disk, and the point goes into the next one.\<close>

lemma full_step:
  assumes ok: "store_ok st G" and p: "p \<in> set (item_list st)" and t: "0 < sint t" and room: "disk_size (data_disk_store st) + 2 ^ 27 < 2 ^ 62"
    and full: "tsc_add (item_data (items st p)) t y = Some (ERR_TSC_OUT_OF_SPACE, d)" "tsc_inv d (snd (G p))"
      "data_len d = data_len (item_data (items st p))" "snd (G p) \<noteq> []"
  shows "\<exists>st1 d2. storage_write_disk (set_item_data st p d) p True = Some (0, st1) \<and> tsc_add (item_data (items st1 p)) t y = Some (ERR_OK, d2) \<and>
    store_ok (set_item_data st1 p d2) (G(p := (fst (G p) @ [snd (G p)], [(t, y)]))) \<and> same_shape st (set_item_data st1 p d2) \<and>
    disk_size (data_disk_store (set_item_data st1 p d2)) \<le> disk_size (data_disk_store st) + 2 ^ 27"
proof -
  let ?st = "set_item_data st p d"
  note s = set_data_step [where qs = "[]", OF ok p]
  have pre: "store_ok ?st G" "same_shape st ?st" "data_disk_store ?st = data_disk_store st" using s [of d] full by simp_all
  have p1: "p \<in> set (item_list ?st)" using p pre(2) by (simp add: same_shape_def)
  obtain st1 where w: "storage_write_disk ?st p True = Some (0, st1)" "store_ok st1 (G(p := (fst (G p) @ [snd (G p)], [])))" "same_shape ?st st1"
    "disk_size (data_disk_store st1) \<le> disk_size (data_disk_store st) + 2 ^ 27"
    using write_disk_step [OF pre(1) p1 full(4), of True] pre(3) room by auto
  have p2: "p \<in> set (item_list st1)" using p1 w(3) by (simp add: same_shape_def)
  note j = item_facts [OF w(2) p2]
  obtain d2 where d2: "tsc_add (item_data (items st1 p)) t y = Some (ERR_OK, d2)" "tsc_inv d2 [(t, y)]"
    "data_len d2 = data_len (item_data (items st1 p))"
    by (cases rule: add_outcome [OF j(1,2), of t y, case_names ok full err]) auto
  note s2 = set_data_step [where qs = "[(t, y)]", OF w(2) p2, of d2]
  have "store_ok (set_item_data st1 p d2) (G(p := (fst (G p) @ [snd (G p)], [(t, y)])))" "same_shape st1 (set_item_data st1 p d2)"
    "data_disk_store (set_item_data st1 p d2) = data_disk_store st1"
    using s2 t d2 by simp_all
  then show ?thesis using w(1,4) d2(1) same_shape_trans [OF pre(2) same_shape_trans [OF w(3)]] by auto
qed

text \<open>
  The loop of \<^verbatim>\<open>storage_write\<close>: a prefix of the points is appended to the series. The code is zero exactly if
  it is all of them; the first point that was refused does not follow the point before it in its block,
  or ran into the end of a bit stream that is not a whole number of words.
\<close>

definition writes :: "the_storage \<Rightarrow> (ptr \<Rightarrow> point list list \<times> point list) \<Rightarrow> ptr \<Rightarrow> point list \<Rightarrow> int \<Rightarrow> the_storage \<Rightarrow> bool" where
  "writes st G p pts res st' \<longleftrightarrow> (\<exists>g acc rest. pts = acc @ rest \<and> store_ok st' (G(p := g)) \<and> same_shape st st' \<and>
     disk_size (data_disk_store st') \<le> disk_size (data_disk_store st) + length pts * 2 ^ 27 \<and>
     series g = series (G p) @ acc \<and> (snd (G p) \<noteq> [] \<or> pts \<noteq> [] \<longrightarrow> snd g \<noteq> []) \<and> (res = 0 \<longleftrightarrow> rest = []) \<and> (rest \<noteq> [] \<longrightarrow> snd g \<noteq> [] \<and>
       (\<not> follows (end_state None (snd g)) (hd rest) \<or> res = ERR_BITSTREAM_OUT_OF_SPACE \<and> initial_tsc_buf_size st mod 8 \<noteq> 4)))"

lemma writes_Cons:
  assumes "writes st1 (G(p := g1)) p pts res st'" "series g1 = series (G p) @ [q]" "same_shape st st1"
    "disk_size (data_disk_store st1) \<le> disk_size (data_disk_store st) + 2 ^ 27" "snd g1 \<noteq> []"
  shows "writes st G p (q # pts) res st'"
proof -
  obtain g acc rest where w: "pts = acc @ rest" "store_ok st' (G(p := g))" "same_shape st1 st'" "series g = series g1 @ acc"
    "res = 0 \<longleftrightarrow> rest = []" "rest \<noteq> [] \<longrightarrow> snd g \<noteq> [] \<and>
       (\<not> follows (end_state None (snd g)) (hd rest) \<or> res = ERR_BITSTREAM_OUT_OF_SPACE \<and> initial_tsc_buf_size st1 mod 8 \<noteq> 4)"
    "disk_size (data_disk_store st') \<le> disk_size (data_disk_store st1) + length pts * 2 ^ 27" "snd g1 \<noteq> [] \<or> pts \<noteq> [] \<longrightarrow> snd g \<noteq> []"
    using assms(1) unfolding writes_def fun_upd_upd fun_upd_same by blast
  have "initial_tsc_buf_size st1 = initial_tsc_buf_size st" using assms(3) by (simp add: same_shape_def)
  moreover have "disk_size (data_disk_store st') \<le> disk_size (data_disk_store st) + length (q # pts) * 2 ^ 27" using w(7) assms(4) by simp
  ultimately show ?thesis using w(1-6,8) assms(2,5) same_shape_trans [OF assms(3) w(3)] unfolding writes_def
    by (intro exI [of _ g] exI [of _ "q # acc"] exI [of _ rest]) simp
qed

lemma write_points_ok:
  assumes "store_ok st G" "p \<in> set (item_list st)" "\<forall>q\<in>set pts. 0 < sint (fst q)"
    and "disk_size (data_disk_store st) + length pts * 2 ^ 27 < 2 ^ 62"
  shows "\<exists>res st'. write_points st p pts = Some (res, st') \<and> writes st G p pts res st'"
  using assms
proof (induction pts arbitrary: st G)
  case Nil
  have "writes st G p [] 0 st" unfolding writes_def using Nil by (intro exI [of _ "G p"]) simp
  then show ?case by simp
next
  case (Cons q pts)
  obtain t y where q: "q = (t, y)" by (cases q)
  note i = item_facts [OF Cons.prems(1,2)]
  have room: "disk_size (data_disk_store st) + 2 ^ 27 < 2 ^ 62" using Cons.prems(4) by simp
  show ?case
  proof (cases rule: add_outcome [OF i(1,2), of t y, case_names ok full err])
    case (ok d)
    let ?st = "set_item_data st p d" and ?g = "(fst (G p), snd (G p) @ [(t, y)])"
    note s = set_data_step [OF Cons.prems(1,2) ok(2,3)]
    have pre: "store_ok ?st (G(p := ?g))" "same_shape st ?st" "data_disk_store ?st = data_disk_store st"
      using s Cons.prems(3) q by simp_all
    have "p \<in> set (item_list ?st)" "\<forall>q\<in>set pts. 0 < sint (fst q)" "disk_size (data_disk_store ?st) + length pts * 2 ^ 27 < 2 ^ 62"
      using Cons.prems pre(2,3) by (simp_all add: same_shape_def)
    then obtain res st' where r: "write_points ?st p pts = Some (res, st')" "writes ?st (G(p := ?g)) p pts res st'"
      using Cons.IH [OF pre(1)] by blast
    have "series ?g = series (G p) @ [q]" by (simp add: series_def q)
    from writes_Cons [OF r(2) this pre(2)] pre(3) show ?thesis using r(1) ok(1) by (simp add: q err_defs)
  next
    case (err res d)
    let ?st = "set_item_data st p d"
    note s = set_data_step [where qs = "[]", OF Cons.prems(1,2)]
    have "store_ok ?st G" "same_shape st ?st" "data_disk_store ?st = data_disk_store st" using s [of d] err(4,5) by simp_all
    then have "writes st G p (q # pts) res ?st"
      unfolding writes_def using err i(3) q by (intro exI [of _ "G p"] exI [of _ "[]"] exI [of _ "q # pts"]) (simp add: err_defs)
    then show ?thesis using err(1-3) q by (simp add: err_defs)
  next
    case (full d)
    let ?g = "(fst (G p) @ [snd (G p)], [(t, y)])"
    have "0 < sint t" using Cons.prems(3) q by simp
    from full_step [OF Cons.prems(1,2) this room full] obtain st1 d2 where
      w: "storage_write_disk (set_item_data st p d) p True = Some (0, st1)" "tsc_add (item_data (items st1 p)) t y = Some (ERR_OK, d2)"
      "store_ok (set_item_data st1 p d2) (G(p := ?g))" "same_shape st (set_item_data st1 p d2)"
      "disk_size (data_disk_store (set_item_data st1 p d2)) \<le> disk_size (data_disk_store st) + 2 ^ 27" by blast
    let ?st2 = "set_item_data st1 p d2"
    have "p \<in> set (item_list ?st2)" "\<forall>q\<in>set pts. 0 < sint (fst q)" "disk_size (data_disk_store ?st2) + length pts * 2 ^ 27 < 2 ^ 62"
      using Cons.prems w(4,5) by (simp_all add: same_shape_def)
    then obtain res st' where r: "write_points ?st2 p pts = Some (res, st')" "writes ?st2 (G(p := ?g)) p pts res st'"
      using Cons.IH [OF w(3)] by blast
    have "series ?g = series (G p) @ [q]" by (simp add: series_def q)
    from writes_Cons [OF r(2) this w(4,5)] show ?thesis using full(1) w(1,2) r(1) q by (simp add: err_defs)
  qed
qed

section \<open>\<^verbatim>\<open>storage_write\<close>\<close>

text \<open>There is room for \<open>n\<close> more keys and \<open>n\<close> more blocks of data, and the identifiers do not wrap around.\<close>

definition has_room :: "the_storage \<Rightarrow> nat \<Rightarrow> bool" where
  "has_room st n \<longleftrightarrow> disk_size (key_disk_store st) + n * 2 ^ 27 < 2 ^ 62 \<and> disk_size (data_disk_store st) + n * 2 ^ 27 < 2 ^ 62 \<and>
     unat (next_internal_id st) + n < 2 ^ 62"

definition points_of :: "(byte list \<Rightarrow> point list option) \<Rightarrow> byte list \<Rightarrow> point list" where
  "points_of db k = (case db k of None \<Rightarrow> [] | Some pts \<Rightarrow> pts)"

lemma unat_suc_le: "unat (x + 1 :: u64) \<le> unat x + 1"
  by (simp add: unat_word_ariths)

lemma get_item_ok:
  assumes ok: "store_ok st G" and env: "env_ok env" and k: "valid_key k" "unat klen = length k" and room: "has_room st (Suc n)"
  shows "\<exists>p st' G'. storage_get_item env st (k @ x) klen True = Some (ERR_OK, Some p, st') \<and> p \<in> set (item_list st') \<and>
    key_is (items st' p) k \<and> store_ok st' G' \<and> db_of st' G' = (db_of st G)(k \<mapsto> points_of (db_of st G) k) \<and>
    data_disk_store st' = data_disk_store st \<and> initial_tsc_buf_size st' = initial_tsc_buf_size st \<and> retention_seconds st' = retention_seconds st \<and>
    indices st' = indices st \<and> length (item_list st') \<le> Suc (length (item_list st)) \<and>
    (\<forall>q\<in>set (item_list st'). q \<noteq> p \<longrightarrow> q \<in> set (item_list st) \<and> G' q = G q) \<and> (\<forall>n. has_room st (Suc n) \<longrightarrow> has_room st' n)"
proof -
  obtain mk where mk: "keys_ok st mk" and l: "lists_ok st" using ok by (auto simp: store_ok_def)
  show ?thesis
  proof (cases "\<exists>p\<in>set (item_list st). key_is (items st p) k")
    case True
    then obtain p where p: "p \<in> set (item_list st)" "key_is (items st p) k" by blast
    have "(db_of st G)(k \<mapsto> points_of (db_of st G) k) = db_of st G" using db_of_eq [OF mk p, of G] by (auto simp: points_of_def)
    then show ?thesis using get_item_found [OF l mk k(2) p] p ok by (intro exI [of _ p] exI [of _ st] exI [of _ G]) (simp add: has_room_def)
  next
    case False
    then have new: "\<forall>q\<in>set (item_list st). \<not> key_is (items st q) k" by blast
    have "points_of (db_of st G) k = []" using db_of_None [of st k mk G] new mk by (simp add: points_of_def)
    moreover obtain p st' where st': "storage_get_item env st (k @ x) klen True = Some (ERR_OK, Some p, st')" "p \<in> set (item_list st')"
      "key_is (items st' p) k" "store_ok st' (G(p := ([], [])))" "db_of st' (G(p := ([], []))) = (db_of st G)(k \<mapsto> [])"
      "data_disk_store st' = data_disk_store st" "initial_tsc_buf_size st' = initial_tsc_buf_size st" "retention_seconds st' = retention_seconds st"
      "indices st' = indices st" "item_list st' = item_list st @ [p]" "next_internal_id st' = next_internal_id st + 1"
      "disk_size (key_disk_store st') \<le> disk_size (key_disk_store st) + 2 ^ 27"
      using get_item_new [OF ok env k new, of x] room by (auto simp: has_room_def)
    moreover have "has_room st' n" if "has_room st (Suc n)" for n
      using that st'(6,11,12) unat_suc_le [of "next_internal_id st"] by (auto simp: has_room_def)
    ultimately show ?thesis by (intro exI [of _ p] exI [of _ st'] exI [of _ "G(p := ([], []))"]) simp
  qed
qed

lemma num_pts_zero:
  assumes "store_ok st G" "p \<in> set (item_list st)"
  shows "TSC_NUM_PTS (tsc_data (item_data (items st p))) = Some 0 \<longleftrightarrow> snd (G p) = []"
proof -
  have d: "tsc_inv (item_data (items st p)) (snd (G p))" using item_facts(1) [OF assms] .
  show ?thesis
  proof (cases "snd (G p) = []")
    case True
    then show ?thesis using d by (simp add: tsc_inv_def data_inv_def)
  next
    case False
    then show ?thesis using start_of_block(1,2) [OF d False] by simp
  qed
qed

text \<open>An item has no points in memory.\<close>

definition some_block_empty :: "the_storage \<Rightarrow> bool" where
  "some_block_empty st \<longleftrightarrow> (\<exists>p\<in>set (item_list st). TSC_NUM_PTS (tsc_data (item_data (items st p))) = Some 0)"

lemma block_empty_iff:
  assumes "store_ok st G"
  shows "some_block_empty st \<longleftrightarrow> (\<exists>p\<in>set (item_list st). snd (G p) = [])"
  using num_pts_zero [OF assms] by (simp add: some_block_empty_def)

lemma storage_write_gen:
  assumes ok: "storage_good st db" and env: "env_ok env" and k: "valid_key k" "unat klen = length k" and room: "has_room st (Suc (length pts))"
    and pos: "\<forall>q\<in>set pts. 0 < sint (fst q)"
  shows "\<exists>res st' acc rest. storage_write env st (k @ x) klen pts = Some (res, st') \<and> pts = acc @ rest \<and> (res = 0 \<longleftrightarrow> rest = []) \<and>
    storage_good st' (db(k \<mapsto> points_of db k @ acc)) \<and> initial_tsc_buf_size st' = initial_tsc_buf_size st \<and>
    retention_seconds st' = retention_seconds st \<and> indices st' = indices st \<and> (pts \<noteq> [] \<longrightarrow> \<not> some_block_empty st \<longrightarrow> \<not> some_block_empty st') \<and>
    length (item_list st') \<le> Suc (length (item_list st)) \<and> (\<forall>n. has_room st (Suc (length pts + n)) \<longrightarrow> has_room st' n) \<and>
    (rest \<noteq> [] \<longrightarrow> (\<exists>old cur. points_of db k @ acc = old @ cur \<and> cur \<noteq> [] \<and> encodable None cur \<and>
      (\<not> follows (end_state None cur) (hd rest) \<or> res = ERR_BITSTREAM_OUT_OF_SPACE \<and> initial_tsc_buf_size st mod 8 \<noteq> 4)))"
proof -
  obtain G where G: "store_ok st G" "db = db_of st G" using ok by (auto simp: storage_good_def)
  obtain p st1 G1 where i: "storage_get_item env st (k @ x) klen True = Some (ERR_OK, Some p, st1)" "p \<in> set (item_list st1)"
    "key_is (items st1 p) k" "store_ok st1 G1" "db_of st1 G1 = (db_of st G)(k \<mapsto> points_of (db_of st G) k)"
    "data_disk_store st1 = data_disk_store st" "initial_tsc_buf_size st1 = initial_tsc_buf_size st" "retention_seconds st1 = retention_seconds st"
    "indices st1 = indices st" "length (item_list st1) \<le> Suc (length (item_list st))" "\<forall>n. has_room st (Suc n) \<longrightarrow> has_room st1 n"
    "\<forall>q\<in>set (item_list st1). q \<noteq> p \<longrightarrow> q \<in> set (item_list st) \<and> G1 q = G q"
    using get_item_ok [OF G(1) env k room, of x] by blast
  have sp: "series (G1 p) = points_of db k"
    using same_shape_db [OF i(4,2,3) same_shape_refl, of "G1 p"] i(5) G(2) by (auto dest: fun_cong [of _ _ k])
  have r1: "disk_size (data_disk_store st1) + length pts * 2 ^ 27 < 2 ^ 62" using room i(6) by (simp add: has_room_def)
  obtain res st' where w: "write_points st1 p pts = Some (res, st')" "writes st1 G1 p pts res st'"
    using write_points_ok [OF i(4,2) pos r1] by blast
  then obtain g acc rest where g: "pts = acc @ rest" "store_ok st' (G1(p := g))" "same_shape st1 st'" "series g = points_of db k @ acc"
    "res = 0 \<longleftrightarrow> rest = []" "rest \<noteq> [] \<longrightarrow> snd g \<noteq> [] \<and>
       (\<not> follows (end_state None (snd g)) (hd rest) \<or> res = ERR_BITSTREAM_OUT_OF_SPACE \<and> initial_tsc_buf_size st1 mod 8 \<noteq> 4)"
    "disk_size (data_disk_store st') \<le> disk_size (data_disk_store st1) + length pts * 2 ^ 27" "pts \<noteq> [] \<longrightarrow> snd g \<noteq> []"
    unfolding writes_def sp by blast
  have "p \<in> set (item_list st')" using i(2) g(3) by (simp add: same_shape_def)
  then have e: "encodable None (snd g)" using item_facts(1) [OF g(2), of p] by (simp add: tsc_inv_def data_inv_def)
  have "db_of st' (G1(p := g)) = db(k \<mapsto> points_of db k @ acc)"
    using same_shape_db [OF i(4,2,3) g(3), of g] i(5) G(2) g(4) by simp
  then have good: "storage_good st' (db(k \<mapsto> points_of db k @ acc))" using g(2) unfolding storage_good_def by metis
  have "storage_write env st (k @ x) klen pts = Some (res, st')" using i(1) w(1) by (simp add: storage_write_def err_defs)
  moreover have "points_of db k @ acc = concat (fst g) @ snd g" using g(4) by (simp add: series_def)
  moreover have "has_room st' n" if n: "has_room st (Suc (length pts + n))" for n
  proof -
    have "has_room st1 (length pts + n)" using i(11) n by simp
    then show ?thesis using g(3,7) by (auto simp: has_room_def same_shape_def algebra_simps)
  qed
  moreover have "\<not> some_block_empty st'" if "pts \<noteq> []" "\<not> some_block_empty st"
    using that g(3,8) i(12) unfolding block_empty_iff [OF g(2)] block_empty_iff [OF G(1)] by (auto simp: same_shape_def)
  ultimately show ?thesis using g(1,3,5,6) i(7-10) e good
    by (intro exI [of _ res] exI [of _ st'] exI [of _ acc] exI [of _ rest] conjI) (auto simp: same_shape_def)
qed

end
