(* ===== verification/Storage_Read.thy ===== *)
theory Storage_Read
  imports Storage_Write
begin

unbundle bit_operations_syntax

text \<open>
  Reading series, \<^verbatim>\<open>storage_get\<close>, and writing out all items, \<^verbatim>\<open>storage_sync\<close>.
\<close>

section \<open>Points of one block\<close>

lemma bit_at_append: "k < 8 * length m \<Longrightarrow> bit_at (m @ x) k = bit_at m k"
  by (auto simp: bit_at_def nth_append)

lemma data_inv_pad:
  assumes "data_inv d pts" "8 * length (d @ x) \<le> MAX_NUM_VALID_BITS"
  shows "data_inv (d @ x) pts"
proof -
  have l: "12 \<le> length d" "length (enc_all None pts) \<le> 8 * (length d - 4)" using assms(1) num_pts_bound(2) by (auto simp: data_inv_def)
  have "has_bits (drop 4 (d @ x)) 0 (enc_all None pts)"
    using assms(1) l bit_at_append [of _ "drop 4 d" x] by (auto simp: data_inv_def has_bits_def)
  moreover have "TSC_NUM_PTS (d @ x) = TSC_NUM_PTS d" using l(1) by (simp add: TSC_NUM_PTS_def mem_read_def)
  ultimately show ?thesis using assms by (auto simp: data_inv_def)
qed

lemma collect_points_from:
  assumes "data_inv d (ps @ qs)" "iter_at it ps" "length acc \<le> max_num_pts"
  shows "collect_points d it acc max_num_pts =
    Some (if length acc + length qs \<le> max_num_pts then Inr (acc @ qs) else Inl ERR_TOO_MANY_POINTS)"
  using assms
proof (induction qs arbitrary: ps it acc)
  case Nil
  then show ?case using tsc_iter_next_done [of d ps it] by (simp add: collect_points.simps done_not_ok)
next
  case (Cons q qs)
  obtain it' where it': "tsc_iter_next d it = Some (ERR_OK, it')" "iter_at it' (ps @ [q])" "(iter_t it', iter_y it') = q"
    using tsc_iter_next_point [OF Cons.prems(1,2)] by blast
  show ?case
  proof (cases "length acc < max_num_pts")
    case True
    have "collect_points d it' (acc @ [q]) max_num_pts =
        Some (if length (acc @ [q]) + length qs \<le> max_num_pts then Inr ((acc @ [q]) @ qs) else Inl ERR_TOO_MANY_POINTS)"
      using Cons.IH [of "ps @ [q]" it' "acc @ [q]"] Cons.prems(1) it'(2) True by simp
    then show ?thesis using it'(1,3) True by (subst collect_points.simps) simp
  next
    case False
    then show ?thesis using it'(1) by (subst collect_points.simps) simp
  qed
qed

lemma collect_points_all:
  "data_inv d pts \<Longrightarrow> length acc \<le> mx \<Longrightarrow>
     collect_points d tsc_iter_init acc mx = Some (if length (acc @ pts) \<le> mx then Inr (acc @ pts) else Inl ERR_TOO_MANY_POINTS)"
  using collect_points_from [of d "[]" pts tsc_iter_init acc mx] iter_at_init by simp

section \<open>Points of all blocks on disk\<close>

text \<open>
  The loop over the offsets of an item: the complete blocks, and the last one, which is either not on disk
  yet or an old copy of the block in memory and skipped.
\<close>

lemma read_offsets_ok:
  assumes "disk_ok ds m" "list_all2 (complete_ok m (internal_id item) n) os blks" "last_ok m (internal_id item) n e cur" "length acc \<le> mx"
  shows "\<exists>ds'. read_offsets item ds (os @ [e]) acc mx =
      Some (if length (acc @ concat blks) \<le> mx then Inr (acc @ concat blks) else Inl ERR_TOO_MANY_POINTS, ds') \<and>
    disk_ok ds' m \<and> disk_size ds' = disk_size ds"
  using assms
proof (induction os arbitrary: blks ds acc)
  case Nil
  then have b: "blks = []" by simp
  show ?case
  proof (cases "fst e = 0")
    case True
    then show ?thesis using Nil b by simp
  next
    case False
    then obtain d where d: "m (unat (fst e)) = Some (BLOCK_STATUS_ACTIVE, d)" "length d \<le> 2 ^ 20"
      using last_active(1) [OF Nil(3)] by (auto simp: active_of_def)
    have "length d \<le> STORAGE_GET_BUF_N" using d(2) by (simp add: STORAGE_GET_BUF_N_def)
    from dk.read_law [OF Nil(1) d(1) this] show ?thesis using False Nil(4) b by auto
  qed
next
  case (Cons o1 os)
  then obtain pts blks' where b: "blks = pts # blks'" "complete_ok m (internal_id item) n o1 pts"
    "list_all2 (complete_ok m (internal_id item) n) os blks'" by (auto simp: list_all2_Cons1)
  obtain d x where d: "fst o1 \<noteq> 0" "m (unat (fst o1)) = Some (BLOCK_STATUS_VALID, le_bytes (internal_id item) @ d @ x)" "data_inv d pts"
    "length (le_bytes (internal_id item) @ d @ x) \<le> 2 ^ 20"
    using b(2) by (auto simp: complete_ok_def valid_of_def)
  have "length (le_bytes (internal_id item) @ d @ x) \<le> STORAGE_GET_BUF_N" using d(4) by (simp add: STORAGE_GET_BUF_N_def)
  from dk.read_law [OF Cons.prems(1) d(2) this] obtain ds1 where r:
    "disk_storage_read_block ds (unat (fst o1)) STORAGE_GET_BUF_N = Some (0, Some (BLOCK_STATUS_VALID, le_bytes (internal_id item) @ d @ x), ds1)"
    "disk_ok ds1 m" "disk_size ds1 = disk_size ds" by blast
  have "data_inv (d @ x) pts" using d(3,4) by (intro data_inv_pad) (simp_all add: MAX_NUM_VALID_BITS_def)
  note c = collect_points_all [OF this Cons.prems(4)]
  have st: "read_offsets item ds ((o1 # os) @ [e]) acc mx = (if length (acc @ pts) \<le> mx then read_offsets item ds1 (os @ [e]) (acc @ pts) mx
      else Some (Inl ERR_TOO_MANY_POINTS, ds1))"
    using d(1) r(1) c by (simp add: disk_defs le_word_le_bytes)
  show ?case
  proof (cases "length (acc @ pts) \<le> mx")
    case True
    have e: "(acc @ pts) @ concat blks' = acc @ concat blks" using b(1) by simp
    show ?thesis using Cons.IH [OF r(2) b(3) Cons.prems(3) True] unfolding st if_P [OF True] e r(3) .
  next
    case False
    then show ?thesis using r b(1) unfolding st by simp
  qed
qed

section \<open>\<^verbatim>\<open>storage_get\<close>\<close>

lemma data_store_upd:
  assumes "store_ok st G" "data_ok st m G" "disk_ok ds m"
  shows "store_ok (st\<lparr>data_disk_store := ds\<rparr>) G" "db_of (st\<lparr>data_disk_store := ds\<rparr>) G = db_of st G"
proof -
  have "lists_ok (st\<lparr>data_disk_store := ds\<rparr>)" if "lists_ok st"
    using that indices_ok_cong [of st "set (item_list st)" "st\<lparr>data_disk_store := ds\<rparr>"] by (auto simp: lists_ok_def)
  then show "store_ok (st\<lparr>data_disk_store := ds\<rparr>) G"
    using assms by (auto simp: store_ok_def data_ok_def keys_ok_def times_ok_def)
  show "db_of (st\<lparr>data_disk_store := ds\<rparr>) G = db_of st G" by (simp add: db_of_def fun_eq_iff)
qed

lemma storage_get_ok:
  assumes ok: "storage_good st db" and k: "unat klen = length k"
  shows "\<exists>res pts st'. storage_get env st (k @ x) klen mx = Some (res, pts, st') \<and> storage_good st' db \<and>
    (res, pts) = (case db k of None \<Rightarrow> (ERR_LOOKUP_FAILED, [])
      | Some s \<Rightarrow> if length s \<le> mx then (0, s) else (ERR_TOO_MANY_POINTS, []))"
proof -
  obtain G where G: "store_ok st G" "db = db_of st G" using ok by (auto simp: storage_good_def)
  obtain m mk where m: "data_ok st m G" and mk: "keys_ok st mk" and l: "lists_ok st" using G(1) by (auto simp: store_ok_def)
  show ?thesis
  proof (cases "\<exists>p\<in>set (item_list st). key_is (items st p) k")
    case False
    then have "db k = None" using db_of_None [of st k mk G] mk G(2) by blast
    moreover have "find_item st LFM_INDEX (key_probe (k @ x) klen) = None" using find_key [OF l mk k, of x] False by blast
    ultimately show ?thesis using ok by (simp add: storage_get_def storage_get_item_def err_defs)
  next
    case True
    then obtain p where p: "p \<in> set (item_list st)" "key_is (items st p) k" by blast
    let ?i = "items st p"
    have db: "db k = Some (series (G p))" using db_of_eq [OF mk p] G(2) by simp
    have i: "disk_ok (data_disk_store st) m" "item_ok m (initial_tsc_buf_size st) ?i (fst (G p)) (snd (G p))" using m p by (auto simp: data_ok_def)
    have "\<exists>ds'. read_offsets ?i (data_disk_store st) (data_offsets ?i) [] mx =
        Some (if length (concat (fst (G p))) \<le> mx then Inr (concat (fst (G p))) else Inl ERR_TOO_MANY_POINTS, ds') \<and> disk_ok ds' m"
    proof (cases "data_offsets ?i = []")
      case True
      then show ?thesis using i by (auto simp: item_ok_def)
    next
      case False
      then obtain os e where "data_offsets ?i = os @ [e]" "list_all2 (complete_ok m (internal_id ?i) (initial_tsc_buf_size st)) os (fst (G p))"
        "last_ok m (internal_id ?i) (initial_tsc_buf_size st) e (snd (G p))" using i(2) by (auto simp: item_ok_def)
      then show ?thesis using read_offsets_ok [OF i(1), of ?i "initial_tsc_buf_size st" os "fst (G p)" e "snd (G p)" "[]" mx] by auto
    qed
    then obtain ds' where r: "read_offsets ?i (data_disk_store st) (data_offsets ?i) [] mx =
        Some (if length (concat (fst (G p))) \<le> mx then Inr (concat (fst (G p))) else Inl ERR_TOO_MANY_POINTS, ds')" "disk_ok ds' m" by blast
    let ?st = "st\<lparr>data_disk_store := ds'\<rparr>"
    have "data_inv (tsc_data (item_data ?i)) (snd (G p))" using i(2) by (simp add: item_ok_def tsc_inv_def)
    note c = collect_points_all [OF this]
    have "storage_get env st (k @ x) klen mx = Some (if length (series (G p)) \<le> mx then (0, series (G p), ?st) else (ERR_TOO_MANY_POINTS, [], ?st))"
      using get_item_found [OF l mk k p, of env x False] r(1) c [of "concat (fst (G p))" mx]
      by (simp add: storage_get_def err_defs series_def)
    moreover have "storage_good ?st db" using data_store_upd [OF G(1) m r(2)] G(2) by (auto simp: storage_good_def)
    ultimately show ?thesis using db by (cases "length (series (G p)) \<le> mx") auto
  qed
qed

section \<open>\<^verbatim>\<open>storage_sync\<close>\<close>

text \<open>Every item has points in memory; \<^verbatim>\<open>storage_write_disk\<close> asserts that.\<close>

lemma sync_items_ok:
  assumes "store_ok st G" "set ps \<subseteq> set (item_list st)" "\<forall>p\<in>set (item_list st). snd (G p) \<noteq> []"
    and "disk_size (data_disk_store st) + length ps * 2 ^ 27 < 2 ^ 62"
  shows "\<exists>st'. sync_items st ps = Some (0, st') \<and> store_ok st' G \<and> same_shape st st' \<and>
    disk_size (data_disk_store st') \<le> disk_size (data_disk_store st) + length ps * 2 ^ 27"
  using assms
proof (induction ps arbitrary: st)
  case (Cons p ps)
  have p: "p \<in> set (item_list st)" "snd (G p) \<noteq> []" "disk_size (data_disk_store st) + 2 ^ 27 < 2 ^ 62" using Cons.prems by auto
  obtain st1 where w: "storage_write_disk st p False = Some (0, st1)" "store_ok st1 G" "same_shape st st1"
    "disk_size (data_disk_store st1) \<le> disk_size (data_disk_store st) + 2 ^ 27"
    using write_disk_step [OF Cons.prems(1) p, of False] by auto
  have "set ps \<subseteq> set (item_list st1)" "\<forall>p\<in>set (item_list st1). snd (G p) \<noteq> []" "disk_size (data_disk_store st1) + length ps * 2 ^ 27 < 2 ^ 62"
    using Cons.prems w(3,4) by (auto simp: same_shape_def)
  from Cons.IH [OF w(2) this] obtain st' where "sync_items st1 ps = Some (0, st')" "store_ok st' G" "same_shape st1 st'"
    "disk_size (data_disk_store st') \<le> disk_size (data_disk_store st1) + length ps * 2 ^ 27" by blast
  then show ?case using w same_shape_trans [of st st1 st'] by auto
qed simp

lemma sync_items_abort:
  assumes "store_ok st G" "set ps \<subseteq> set (item_list st)" "\<exists>p\<in>set ps. snd (G p) = []"
    and "disk_size (data_disk_store st) + length ps * 2 ^ 27 < 2 ^ 62"
  shows "sync_items st ps = None"
  using assms
proof (induction ps arbitrary: st)
  case (Cons p ps)
  have p: "p \<in> set (item_list st)" "disk_size (data_disk_store st) + 2 ^ 27 < 2 ^ 62" using Cons.prems by auto
  show ?case
  proof (cases "snd (G p) = []")
    case True
    then have "TSC_NUM_PTS (tsc_data (item_data (items st p))) = Some 0" using num_pts_zero [OF Cons.prems(1) p(1)] by simp
    then have "storage_write_disk st p False = None" by (cases "TSC_START_TIME (tsc_data (item_data (items st p)))") (simp_all add: storage_write_disk_def)
    then show ?thesis by simp
  next
    case False
    obtain st1 where w: "storage_write_disk st p False = Some (0, st1)" "store_ok st1 G" "same_shape st st1"
      "disk_size (data_disk_store st1) \<le> disk_size (data_disk_store st) + 2 ^ 27"
      using write_disk_step [OF Cons.prems(1) p(1) False p(2), of False] by auto
    have "set ps \<subseteq> set (item_list st1)" "\<exists>p\<in>set ps. snd (G p) = []" "disk_size (data_disk_store st1) + length ps * 2 ^ 27 < 2 ^ 62"
      using Cons.prems w(3,4) False by (auto simp: same_shape_def)
    from Cons.IH [OF w(2) this] show ?thesis using w(1) by simp
  qed
qed simp

lemma same_shape_db_eq:
  assumes "same_shape st st'"
  shows "db_of st' G = db_of st G"
  using assms by (simp add: db_of_def same_shape_def same_ident_def same_key_def fun_eq_iff)

lemma sync_ok:
  assumes ok: "storage_good st db" and hr: "has_room st (length (item_list st))"
  shows "if some_block_empty st then storage_sync st = None else \<exists>st'. storage_sync st = Some (0, st') \<and> storage_good st' db \<and>
    same_shape st st' \<and> (\<forall>n. has_room st (length (item_list st) + n) \<longrightarrow> has_room st' n)"
proof -
  have room: "disk_size (data_disk_store st) + length (item_list st) * 2 ^ 27 < 2 ^ 62" using hr by (simp add: has_room_def)
  obtain G where G: "store_ok st G" "db = db_of st G" using ok by (auto simp: storage_good_def)
  note e = block_empty_iff [OF G(1)]
  show ?thesis
  proof (cases "some_block_empty st")
    case True
    then show ?thesis using sync_items_abort [OF G(1) _ _ room] e by (simp add: storage_sync_def)
  next
    case False
    then obtain st' where s: "sync_items st (item_list st) = Some (0, st')" "store_ok st' G" "same_shape st st'"
      "disk_size (data_disk_store st') \<le> disk_size (data_disk_store st) + length (item_list st) * 2 ^ 27"
      using sync_items_ok [OF G(1) _ _ room] e by auto
    then have "storage_good st' db" using same_shape_db_eq [OF s(3)] G(2) unfolding storage_good_def by metis
    moreover have "has_room st' n" if "has_room st (length (item_list st) + n)" for n
      using that s(3,4) by (auto simp: has_room_def same_shape_def algebra_simps)
    ultimately show ?thesis using False s(1,3) by (simp add: storage_sync_def)
  qed
qed

end
