(* ===== verification/Storage_Clean.thy ===== *)
theory Storage_Clean
  imports Storage_Read
begin

unbundle bit_operations_syntax

text \<open>
  Removing old data: \<^verbatim>\<open>storage_trim_and_write_to_disk\<close>, \<^verbatim>\<open>storage_delete_item\<close> and the loops that call them,
  \<^verbatim>\<open>storage_clean_items\<close> and the cleaning thread of \<^verbatim>\<open>src/common/storage.c\<close>.
\<close>

section \<open>Releasing blocks\<close>

lemma release_all:
  assumes "disk_ok (data_disk_store st) m" "distinct (map (unat \<circ> fst) es)" "\<forall>e\<in>set es. m (unat (fst e)) \<noteq> None"
  shows "\<exists>ds. for_each release_data es st = Some (st\<lparr>data_disk_store := ds\<rparr>) \<and>
    disk_ok ds (m |` (- set (map (unat \<circ> fst) es))) \<and> disk_size ds = disk_size (data_disk_store st)"
  using assms
proof (induction es arbitrary: st m)
  case Nil
  then show ?case by (intro exI [of _ "data_disk_store st"]) simp
next
  case (Cons e es)
  let ?o = "unat (fst e)"
  obtain x where "m ?o = Some x" using Cons.prems(3) by auto
  from dk.release_law [OF Cons.prems(1) this] obtain ds1 where
    d: "disk_storage_release_block (data_disk_store st) ?o = Some (0, ds1)" "disk_ok ds1 (m(?o := None))"
      "disk_size ds1 = disk_size (data_disk_store st)" by blast
  have nin: "?o \<notin> set (map (unat \<circ> fst) es)" using Cons.prems(2) by simp
  have live: "\<forall>f\<in>set es. (m(?o := None)) (unat (fst f)) \<noteq> None"
  proof
    fix f assume f: "f \<in> set es"
    then have "(unat \<circ> fst) f \<in> set (map (unat \<circ> fst) es)" by (simp only: set_map imageI)
    then have "unat (fst f) \<noteq> ?o" using nin by (metis comp_apply)
    then show "(m(?o := None)) (unat (fst f)) \<noteq> None" using f Cons.prems(3) by simp
  qed
  have "disk_ok (data_disk_store (st\<lparr>data_disk_store := ds1\<rparr>)) (m(?o := None))" "distinct (map (unat \<circ> fst) es)"
    using d(2) Cons.prems(2) by (simp_all add: comp_def)
  from Cons.IH [OF this live] obtain ds where
    r: "for_each release_data es (st\<lparr>data_disk_store := ds1\<rparr>) = Some (st\<lparr>data_disk_store := ds\<rparr>)"
      "disk_ok ds ((m(?o := None)) |` (- set (map (unat \<circ> fst) es)))" "disk_size ds = disk_size ds1" by (auto simp del: fun_upd_apply)
  have eq: "(m(?o := None)) |` (- set (map (unat \<circ> fst) es)) = m |` (- set (map (unat \<circ> fst) (e # es)))"
    by (auto simp: restrict_map_def fun_eq_iff)
  have "release_data e st = Some (st\<lparr>data_disk_store := ds1\<rparr>)" using d(1) by (simp add: release_data_def)
  then show ?case using d(3) r(1,3) r(2) [unfolded eq] by (intro exI [of _ ds]) simp
qed

lemma release_offsets_nonzero:
  assumes "\<forall>e\<in>set es. fst e \<noteq> 0"
  shows "release_offsets es st = for_each release_data es st"
    "release_offsets (es @ [(0, t)]) st = for_each release_data es st"
proof -
  have "release_offsets es = for_each release_data es \<and> release_offsets (es @ [(0, t)]) = for_each release_data es"
    using assms
  proof (induction es)
    case (Cons e es)
    then have "release_offsets es = for_each release_data es" "release_offsets (es @ [(0, t)]) = for_each release_data es" by simp_all
    then show ?case using Cons.prems by (intro conjI ext) simp_all
  qed (simp add: fun_eq_iff)
  then show "release_offsets es st = for_each release_data es st"
    "release_offsets (es @ [(0, t)]) st = for_each release_data es st" by simp_all
qed

text \<open>The offsets of an item: those of its blocks on disk, possibly followed by a zero.\<close>

lemma item_offsets:
  assumes "item_ok m n item blks cur"
  obtains es zs where "data_offsets item = es @ zs" "\<forall>e\<in>set es. fst e \<noteq> 0" "zs = [] \<or> (\<exists>t. zs = [(0, t)])"
    "offs_of item = map (unat \<circ> fst) es" "length blks \<le> length es"
proof (cases "data_offsets item = []")
  case True
  then show thesis using that [of "[]" "[]"] assms by (simp add: offs_of_def item_ok_def)
next
  case False
  then obtain os e where o: "data_offsets item = os @ [e]" "list_all2 (complete_ok m (internal_id item) n) os blks"
    using assms by (auto simp: item_ok_def)
  have nz: "\<forall>e\<in>set os. fst e \<noteq> 0" using list_all2_mem [OF o(2)] by (auto simp: complete_ok_def)
  then have f: "[e \<leftarrow> os. fst e \<noteq> 0] = os" by simp
  have l: "length blks = length os" using o(2) by (auto dest: list_all2_lengthD)
  show thesis
  proof (cases "fst e = 0")
    case True
    then show thesis using that [of os "[e]"] o(1) nz f l by (cases e) (simp add: offs_of_def)
  next
    case False
    then show thesis using that [of "os @ [e]" "[]"] o(1) nz f l by (simp add: offs_of_def)
  qed
qed

section \<open>Trimming\<close>

text \<open>
  The index found by the first loop: everything before it belongs to complete blocks, and the block at
  the index started before the limit.
\<close>

lemma find_save_i_ok:
  assumes "\<forall>e\<in>set es. fst e \<noteq> 0" "zs = [] \<or> (\<exists>t. zs = [(0, t)])" "save_i = 0 \<or> save_i < i"
  shows "\<exists>j. find_save_i t i (es @ zs) save_i = Some j \<and> (j = save_i \<or> i \<le> j \<and> j < i + length es \<and> sint (snd (es ! (j - i))) < sint t)"
  using assms
proof (induction es arbitrary: i save_i)
  case Nil
  then show ?case by auto
next
  case (Cons e es)
  show ?case
  proof (cases "sint (snd e) < sint t")
    case True
    obtain j where j: "find_save_i t (i + 1) (es @ zs) i = Some j"
      "j = i \<or> i + 1 \<le> j \<and> j < i + 1 + length es \<and> sint (snd (es ! (j - (i + 1)))) < sint t"
      using Cons.IH [of i "i + 1"] Cons.prems by auto
    then show ?thesis using True Cons.prems(1) by (auto simp: nth_Cons' )
  next
    case False
    then show ?thesis using Cons.prems(1) by auto
  qed
qed

text \<open>What is left of an item whose first blocks are released.\<close>

lemma item_ok_trim:
  assumes ok: "item_ok m n item blks cur" and i: "i < length (data_offsets item)" "i \<le> length blks" and d: "distinct (offs_of item)"
    and es: "\<forall>e\<in>set (take i (data_offsets item)). fst e \<noteq> 0"
  defines "m' \<equiv> m |` (- set (map (unat \<circ> fst) (take i (data_offsets item))))"
  defines "item' \<equiv> item\<lparr>data_offsets := drop i (data_offsets item)\<rparr>"
  shows "item_ok m' n item' (drop i blks) cur" "footprint m m' item item'"
proof -
  let ?es = "take i (data_offsets item)"
  have "offs_of item = map (unat \<circ> fst) [e \<leftarrow> ?es @ drop i (data_offsets item). fst e \<noteq> 0]" by (simp add: offs_of_def)
  also have "\<dots> = map (unat \<circ> fst) ?es @ offs_of item'" using es by (simp add: offs_of_def item'_def del: append_take_drop_id)
  finally have o: "offs_of item = map (unat \<circ> fst) ?es @ offs_of item'" .
  have dis: "set (map (unat \<circ> fst) ?es) \<inter> set (offs_of item') = {}" "distinct (offs_of item')" using d o by (metis distinct_append)+
  obtain os e where oe: "data_offsets item = os @ [e]" "list_all2 (complete_ok m (internal_id item) n) os blks" "last_ok m (internal_id item) n e cur"
    using ok i(1) by (auto simp: item_ok_def)
  have "i \<le> length os" using i(1) oe(1) by simp
  then have "item_ok m n item' (drop i blks) cur"
    using ok oe list_all2_drop [OF oe(2), of i] unfolding item_ok_def item'_def by auto
  then show "item_ok m' n item' (drop i blks) cur"
    by (rule item_ok_frame) (use dis(1) in \<open>auto simp: m'_def restrict_map_def\<close>)
  have dm: "dom m' = dom m - set (map (unat \<circ> fst) ?es)" by (auto simp: m'_def)
  have "set (offs_of item) \<subseteq> dom m" by (rule item_ok_dom [OF ok])
  then have "dom m' = dom m - set (offs_of item) \<union> set (offs_of item')" unfolding dm o using dis(1) by auto
  moreover have "m' x = m x" if "x \<notin> set (offs_of item)" for x using that o by (auto simp: m'_def restrict_map_def)
  ultimately show "footprint m m' item item'" using o dis(2) by (simp add: footprint_def)
qed

lemma trim_ok:
  assumes ok: "store_ok st G" and p: "p \<in> set (item_list st)" and t: "\<not> sint (last_timestamp (item_data (items st p))) < sint t"
  shows "\<exists>st' i. storage_trim_and_write_to_disk st p t = Some (False, st') \<and> store_ok st' (G(p := (drop i (fst (G p)), snd (G p)))) \<and>
    same_shape st st' \<and> i \<le> length (fst (G p)) \<and> disk_size (data_disk_store st') = disk_size (data_disk_store st) \<and>
    (0 < i \<longrightarrow> sint (fst (hd ((fst (G p) @ [snd (G p)]) ! i))) < sint t)"
proof -
  let ?n = "initial_tsc_buf_size st" and ?i = "items st p"
  obtain m mk where m: "data_ok st m G" and mk: "keys_ok st mk" and l: "lists_ok st" and tm: "times_ok st G" using ok by (auto simp: store_ok_def)
  have i: "disk_ok (data_disk_store st) m" "item_ok m ?n ?i (fst (G p)) (snd (G p))" "distinct (offs_of ?i)" using m p by (auto simp: data_ok_def)
  obtain es zs where es: "data_offsets ?i = es @ zs" "\<forall>e\<in>set es. fst e \<noteq> 0" "zs = [] \<or> (\<exists>t. zs = [(0, t)])"
    "offs_of ?i = map (unat \<circ> fst) es" by (rule item_offsets [OF i(2)])
  obtain j where j: "find_save_i t 0 (data_offsets ?i) 0 = Some j" "j = 0 \<or> j < length es \<and> sint (snd (es ! j)) < sint t"
    using find_save_i_ok [OF es(2,3), of 0 0 t] es(1) by auto
  show ?thesis
  proof (cases "j = 0")
    case True
    then show ?thesis using j(1) t ok by (intro exI [of _ st] exI [of _ 0]) (simp add: storage_trim_and_write_to_disk_def)
  next
    case False
    then have jl: "j < length es" "sint (snd (es ! j)) < sint t" using j(2) by auto
    then have ne: "data_offsets ?i \<noteq> []" using es(1) by auto
    then obtain os e where oe: "data_offsets ?i = os @ [e]" "list_all2 (complete_ok m (internal_id ?i) ?n) os (fst (G p))" "last_ok m (internal_id ?i) ?n e (snd (G p))"
      using i(2) by (auto simp: item_ok_def)
    have lo: "length os = length (fst (G p))" using oe(2) by (rule list_all2_lengthD)
    have jb: "j < length (data_offsets ?i)" "j \<le> length (fst (G p))" using jl(1) es(1) arg_cong [OF oe(1), of length] lo by simp_all
    let ?es = "take j (data_offsets ?i)"
    have tk: "?es = take j es" using jl(1) es(1) by simp
    have nz: "\<forall>e\<in>set ?es. fst e \<noteq> 0" using es(2) tk set_take_subset by force
    have "distinct (map (unat \<circ> fst) ?es)" using i(3) unfolding tk es(4) take_map [symmetric] by (rule distinct_take)
    moreover have "\<forall>e\<in>set ?es. m (unat (fst e)) \<noteq> None"
      using item_ok_mapped [OF i(2)] set_take_subset [of j es] unfolding es(4) tk by fastforce
    ultimately obtain ds where ds: "for_each release_data ?es st = Some (st\<lparr>data_disk_store := ds\<rparr>)"
      "disk_ok ds (m |` (- set (map (unat \<circ> fst) ?es)))" "disk_size ds = disk_size (data_disk_store st)" using release_all [OF i(1)] by blast
    let ?item = "?i\<lparr>data_offsets := drop j (data_offsets ?i)\<rparr>"
    note tr = item_ok_trim [OF i(2) jb i(3) nz]
    have s: "same_ident ?i ?item" by (simp add: same_ident_def same_key_def)
    have pos: "\<forall>q\<in>set (series (drop j (fst (G p)), snd (G p))). 0 < sint (fst q)"
      using tm p set_drop_subset [of j "fst (G p)"] by (force simp: times_ok_def series_def)
    have eq: "storage_trim_and_write_to_disk st p t = Some (False, st\<lparr>data_disk_store := ds, items := (items st)(p := ?item)\<rparr>)"
      using t j(1) False jb(1) ds(1) by (simp add: storage_trim_and_write_to_disk_def upd_item_def Let_def)
    have "sint (fst (hd ((fst (G p) @ [snd (G p)]) ! j))) < sint t"
    proof (cases "j < length os")
      case True
      then have "complete_ok m (internal_id ?i) ?n (os ! j) (fst (G p) ! j)" using oe(2) by (simp add: list_all2_conv_all_nth)
      moreover have "es ! j = os ! j" using es(1) oe(1) jl(1) True by (metis nth_append)
      ultimately show ?thesis using jl(2) True lo by (simp add: complete_ok_def nth_append)
    next
      case False
      then have "es ! j = e" "j = length os" using es(1) oe(1) jl(1) jb(2) lo by (metis append_Nil2 le_antisym linorder_not_less nth_append nth_append_length)+
      moreover have "fst e \<noteq> 0" using calculation(1) es(2) jl(1) by (metis nth_mem)
      ultimately show ?thesis using last_active(3) [OF oe(3)] jl(2) lo by (simp add: nth_append)
    qed
    then show ?thesis using store_ok_upd [OF l tm m mk p ds(2) tr s pos] same_shape_upd [OF s] eq jb(2) ds(3)
      by (intro exI [of _ "st\<lparr>data_disk_store := ds, items := (items st)(p := ?item)\<rparr>"] exI [of _ j]) simp
  qed
qed

section \<open>Deleting\<close>

lemma data_ok_delete:
  assumes d: "data_ok st m G" and p: "p \<in> set (item_list st)" and ds: "disk_ok ds (m |` (- set (offs_of (items st p))))"
    and st': "items st' = items st" "set (item_list st') = set (item_list st) - {p}" "data_disk_store st' = ds"
      "initial_tsc_buf_size st' = initial_tsc_buf_size st"
  shows "data_ok st' (m |` (- set (offs_of (items st p)))) G"
proof -
  let ?L = "set (item_list st)" and ?m = "m |` (- set (offs_of (items st p)))"
  have ok: "item_ok m (initial_tsc_buf_size st) (items st q) (fst (G q)) (snd (G q))" "distinct (offs_of (items st q))" if "q \<in> ?L" for q
    using d that by (auto simp: data_ok_def)
  have dis: "set (offs_of (items st q)) \<inter> set (offs_of (items st r)) = {}" if "q \<in> ?L" "r \<in> ?L" "q \<noteq> r" for q r
    using d that by (auto simp: data_ok_def)
  have "item_ok ?m (initial_tsc_buf_size st) (items st q) (fst (G q)) (snd (G q))" if q: "q \<in> ?L" "q \<noteq> p" for q
    by (rule item_ok_frame [OF ok(1) [OF q(1)]]) (use dis [OF q(1) p q(2)] in \<open>auto simp: restrict_map_def\<close>)
  moreover have "dom ?m = (\<Union>q\<in>?L - {p}. set (offs_of (items st q)))"
  proof -
    have "dom ?m = (\<Union>q\<in>?L. set (offs_of (items st q))) - set (offs_of (items st p))" using d by (auto simp: data_ok_def)
    also have "\<dots> = (\<Union>q\<in>?L - {p}. set (offs_of (items st q)))" by (rule UN_minus) (rule dis [OF _ p])
    finally show ?thesis .
  qed
  ultimately show ?thesis using ok(2) dis ds unfolding data_ok_def st' by auto
qed

lemma keys_ok_delete:
  assumes k: "keys_ok st mk" and p: "p \<in> set (item_list st)"
    and ds: "disk_ok ds (mk(unat (key_storage_offset (items st p)) := None))"
    and st': "items st' = items st" "set (item_list st') = set (item_list st) - {p}" "key_disk_store st' = ds" "next_internal_id st' = next_internal_id st"
  shows "keys_ok st' (mk(unat (key_storage_offset (items st p)) := None))"
proof -
  let ?L = "set (item_list st)" and ?o = "\<lambda>q. unat (key_storage_offset (items st q))"
  have inj: "inj_on (\<lambda>q. key (items st q)) ?L" "inj_on (\<lambda>q. key_storage_offset (items st q)) ?L" "inj_on (\<lambda>q. internal_id (items st q)) ?L"
    using k by (simp_all add: keys_ok_def)
  have io: "inj_on ?o ?L"
  proof (rule inj_onI)
    fix q r assume "q \<in> ?L" "r \<in> ?L" "?o q = ?o r"
    then show "q = r" using inj_onD [OF inj(2)] by (simp add: word_unat_eq_iff)
  qed
  then have ne: "?o q \<noteq> ?o p" if "q \<in> ?L" "q \<noteq> p" for q using that p inj_onD [OF io] by blast
  have "key_stored (mk(?o p := None)) (items st q)" if "q \<in> ?L" "q \<noteq> p" for q
    using k that ne [OF that] by (auto simp: keys_ok_def key_stored_def)
  moreover have "dom (mk(?o p := None)) = ?o ` (?L - {p})"
  proof -
    have "dom mk = ?o ` ?L" using k by (simp add: keys_ok_def)
    then have "dom (mk(?o p := None)) = ?o ` ?L - {?o p}" by (simp add: dom_fun_upd)
    also have "\<dots> = ?o ` (?L - {p})" using inj_on_image_set_diff [OF io, of ?L "{p}"] p by simp
    finally show ?thesis .
  qed
  moreover note inj [THEN inj_on_diff, of "{p}"]
  ultimately show ?thesis using k ds unfolding keys_ok_def st' by simp
qed

lemma db_of_delete:
  assumes k: "keys_ok st mk" and p: "p \<in> set (item_list st)" "key_is (items st p) k"
    and st': "items st' = items st" "item_list st' = remove1 p (item_list st)" "distinct (item_list st)"
  shows "db_of st' G = (db_of st G)(k := None)"
proof
  fix k'
  have f: "find P (remove1 p xs) = find P xs" if "\<not> P p" for P and xs :: "ptr list" using that by (induction xs) auto
  have inj: "inj_on (\<lambda>q. key (items st q)) (set (item_list st))" using k by (simp add: keys_ok_def)
  have pk: "key (items st p) = Some (k @ [0])" using p by (simp add: key_is_def)
  show "db_of st' G k' = ((db_of st G)(k := None)) k'"
  proof (cases "k' = k")
    case True
    have "key (items st q) \<noteq> Some (k @ [0])" if "q \<in> set (remove1 p (item_list st))" for q
      using that st'(3) inj p(1) pk by (auto simp: inj_on_def)
    then show ?thesis using True st'(1,2) by (simp add: db_of_def find_None_iff del: set_remove1_eq)
  next
    case False
    then show ?thesis using f [of "\<lambda>q. key (items st q) = Some (k' @ [0])" "item_list st"] pk st' by (simp add: db_of_def)
  qed
qed

lemma delete_item_ok:
  assumes ok: "store_ok st G" and p: "p \<in> set (item_list st)" "key_is (items st p) k"
  shows "\<exists>st'. storage_delete_item st p = Some st' \<and> store_ok st' G \<and> db_of st' G = (db_of st G)(k := None) \<and>
    item_list st' = remove1 p (item_list st) \<and> items st' = items st \<and> retention_seconds st' = retention_seconds st \<and>
    (\<forall>n. has_room st n \<longrightarrow> has_room st' n)"
proof -
  let ?i = "items st p"
  obtain m mk where m: "data_ok st m G" and mk: "keys_ok st mk" and l: "lists_ok st" and tm: "times_ok st G" using ok by (auto simp: store_ok_def)
  have i: "disk_ok (data_disk_store st) m" "item_ok m (initial_tsc_buf_size st) ?i (fst (G p)) (snd (G p))" "distinct (offs_of ?i)"
    using m p by (auto simp: data_ok_def)
  have ll: "distinct (item_list st)" "distinct (allocated st)" "set (allocated st) = set (item_list st)" "indices_ok st (set (item_list st))"
    using l by (simp_all add: lists_ok_def)
  define st1 where "st1 = st\<lparr>item_list := remove1 p (item_list st)\<rparr>"
  have "indices_ok st1 (set (item_list st))" by (rule indices_ok_cong [OF ll(4)]) (simp_all add: st1_def)
  from delete_all [OF this p(1)] obtain r where r: "for_each (root_delete p) [0..<num_roots st1] st1 = Some (st1\<lparr>root := r\<rparr>)"
    "indices_ok (st1\<lparr>root := r\<rparr>) (set (item_list st) - {p})" by blast
  define st2 where "st2 = st1\<lparr>root := r\<rparr>"
  have it: "items st2 = items st" "data_disk_store st2 = data_disk_store st" "key_disk_store st2 = key_disk_store st"
    by (simp_all add: st2_def st1_def)
  obtain es zs where es: "data_offsets ?i = es @ zs" "\<forall>e\<in>set es. fst e \<noteq> 0" "zs = [] \<or> (\<exists>t. zs = [(0, t)])"
    "offs_of ?i = map (unat \<circ> fst) es" by (rule item_offsets [OF i(2)])
  have live: "\<forall>e\<in>set es. m (unat (fst e)) \<noteq> None" using item_ok_mapped [OF i(2)] unfolding es(4) by fastforce
  obtain ds where ds: "for_each release_data es st2 = Some (st2\<lparr>data_disk_store := ds\<rparr>)" "disk_ok ds (m |` (- set (offs_of ?i)))"
    "disk_size ds = disk_size (data_disk_store st)" using release_all [of st2 m es] i(1,3) live it(2) unfolding es(4) by auto
  have ro: "release_offsets (data_offsets ?i) st2 = Some (st2\<lparr>data_disk_store := ds\<rparr>)"
    using es(1,3) release_offsets_nonzero [OF es(2)] ds(1) by auto
  obtain z where z: "mk (unat (key_storage_offset ?i)) = Some z" using mk p(1) by (auto simp: keys_ok_def key_stored_def)
  have "disk_ok (key_disk_store st) mk" using mk by (simp add: keys_ok_def)
  from dk.release_law [OF this z] obtain ks where ks: "disk_storage_release_block (key_disk_store st) (unat (key_storage_offset ?i)) = Some (0, ks)"
    "disk_ok ks (mk(unat (key_storage_offset ?i) := None))" "disk_size ks = disk_size (key_disk_store st)" by blast
  define st3 where "st3 = storage_item_free (st2\<lparr>data_disk_store := ds, key_disk_store := ks\<rparr>) p"
  have s3: "items st3 = items st" "item_list st3 = remove1 p (item_list st)" "data_disk_store st3 = ds" "key_disk_store st3 = ks"
    "initial_tsc_buf_size st3 = initial_tsc_buf_size st" "next_internal_id st3 = next_internal_id st" "allocated st3 = remove1 p (allocated st)"
    "retention_seconds st3 = retention_seconds st" "root st3 = r" "indices st3 = indices st"
    by (simp_all add: st3_def st2_def st1_def storage_item_free_def)
  have set3: "set (item_list st3) = set (item_list st) - {p}" using s3(2) ll(1) by simp
  have "storage_delete_item st p = Some st3"
    using r(1) ro ks(1) it unfolding storage_delete_item_def by (simp add: st3_def st2_def st1_def Let_def)
  moreover have "indices_ok st3 (set (item_list st3))"
    unfolding set3 by (rule indices_ok_cong [OF r(2)]) (simp_all add: s3 st1_def)
  then have "lists_ok st3" using l ll s3 set3 by (simp add: lists_ok_def)
  moreover have "data_ok st3 (m |` (- set (offs_of ?i))) G" by (rule data_ok_delete [OF m p(1) ds(2) s3(1) set3 s3(3,5)])
  moreover have "keys_ok st3 (mk(unat (key_storage_offset ?i) := None))" by (rule keys_ok_delete [OF mk p(1) ks(2) s3(1) set3 s3(4,6)])
  moreover have "times_ok st3 G" using tm unfolding times_ok_def set3 by blast
  moreover have "db_of st3 G = (db_of st G)(k := None)" by (rule db_of_delete [OF mk p s3(1,2) ll(1)])
  moreover have "\<forall>n. has_room st n \<longrightarrow> has_room st3 n" using s3(3,4,6) ds(3) ks(3) by (simp add: has_room_def)
  ultimately show ?thesis using s3(1,2,8) unfolding store_ok_def by blast
qed

section \<open>Cleaning\<close>

definition increasing :: "point list \<Rightarrow> bool" where
  "increasing pts \<longleftrightarrow> sorted_wrt (\<lambda>a b. sint (fst a) < sint (fst b)) pts"

text \<open>
  What cleaning does to a series: it goes when its last point is before the limit, and otherwise loses
  a prefix of points that are all before the limit.
\<close>

definition cleaned :: "i64 \<Rightarrow> point list \<Rightarrow> point list option \<Rightarrow> bool" where
  "cleaned t s r \<longleftrightarrow> (case r of None \<Rightarrow> sint (fst (last s)) < sint t
     | Some s' \<Rightarrow> \<not> sint (fst (last s)) < sint t \<and> (\<exists>old. s = old @ s' \<and> (\<forall>q\<in>set old. sint (fst q) < sint t)))"

lemma last_time:
  assumes "tsc_inv d cur" "cur \<noteq> []"
  shows "last_timestamp d = fst (last cur)"
proof -
  obtain ps t y where c: "cur = ps @ [(t, y)]" using assms(2) by (metis append_butlast_last_id surj_pair)
  obtain r where r: "end_state None cur = Some r" using end_state_None [of None cur] assms(2) by blast
  obtain t0 dt y0 ll ls where e: "end_state None cur = Some (t0, dt, y0, ll, ls)" using r by (cases r) auto
  then have "t0 = t" using end_state_last [of ps t y] c by blast
  then show ?thesis using assms(1) e c by (simp add: tsc_inv_def)
qed

lemma dropped_old:
  assumes inc: "increasing (concat blks @ cur)" and i: "0 < i" "i \<le> length blks" and ne: "(blks @ [cur]) ! i \<noteq> []"
    and t: "sint (fst (hd ((blks @ [cur]) ! i))) < sint t"
  shows "\<forall>q\<in>set (concat (take i blks)). sint (fst q) < sint t"
proof
  fix q assume q: "q \<in> set (concat (take i blks))"
  let ?h = "hd ((blks @ [cur]) ! i)"
  have "?h \<in> set (concat (drop i blks) @ cur)"
  proof (cases "i < length blks")
    case True
    then have "drop i blks = blks ! i # drop (Suc i) blks" by (simp add: Cons_nth_drop_Suc)
    then show ?thesis using ne True by (simp add: nth_append)
  next
    case False
    then show ?thesis using ne i(2) by (simp add: nth_append)
  qed
  moreover have "concat blks @ cur = concat (take i blks) @ (concat (drop i blks) @ cur)"
    by (simp flip: concat_append add: append_assoc [symmetric] del: append_assoc)
  ultimately have "sint (fst q) < sint (fst ?h)"
    using inc q unfolding increasing_def by (metis (no_types, lifting) sorted_wrt_append)
  then show "sint (fst q) < sint t" using t by simp
qed

lemma clean_item_ok:
  assumes ok: "store_ok st G" and p: "p \<in> set (item_list st)" "key_is (items st p) k" "snd (G p) \<noteq> []" "increasing (series (G p))"
  shows "\<exists>st' G' r. clean_item t p st = Some st' \<and> store_ok st' G' \<and> db_of st' G' = (db_of st G)(k := r) \<and> cleaned t (series (G p)) r \<and>
    (\<forall>q. q \<noteq> p \<longrightarrow> G' q = G q \<and> same_key (items st q) (items st' q)) \<and> set (item_list st) - {p} \<subseteq> set (item_list st') \<and>
    retention_seconds st' = retention_seconds st \<and> (\<forall>n. has_room st n \<longrightarrow> has_room st' n)"
proof -
  have lt: "last_timestamp (item_data (items st p)) = fst (last (series (G p)))"
    using last_time [OF item_facts(1) [OF ok p(1)] p(3)] p(3) by (simp add: series_def)
  obtain m where m: "data_ok st m G" using ok by (auto simp: store_ok_def)
  show ?thesis
  proof (cases "sint (last_timestamp (item_data (items st p))) < sint t")
    case True
    obtain st' where d: "storage_delete_item st p = Some st'" "store_ok st' G" "db_of st' G = (db_of st G)(k := None)"
      "item_list st' = remove1 p (item_list st)" "items st' = items st" "retention_seconds st' = retention_seconds st"
      "\<forall>n. has_room st n \<longrightarrow> has_room st' n" using delete_item_ok [OF ok p(1,2)] by blast
    have "distinct (item_list st)" using ok by (simp add: store_ok_def lists_ok_def)
    moreover have "clean_item t p st = Some st'" using True d(1) by (simp add: clean_item_def storage_trim_and_write_to_disk_def Let_def)
    moreover have "cleaned t (series (G p)) None" using True lt by (simp add: cleaned_def)
    ultimately show ?thesis using d by (intro exI [of _ st'] exI [of _ G] exI [of _ None]) simp
  next
    case False
    obtain st' i where tr: "storage_trim_and_write_to_disk st p t = Some (False, st')" "store_ok st' (G(p := (drop i (fst (G p)), snd (G p))))"
      "same_shape st st'" "i \<le> length (fst (G p))" "disk_size (data_disk_store st') = disk_size (data_disk_store st)" "0 < i \<longrightarrow> sint (fst (hd ((fst (G p) @ [snd (G p)]) ! i))) < sint t"
      using trim_ok [OF ok p(1) False] by blast
    let ?g = "(drop i (fst (G p)), snd (G p))" and ?old = "concat (take i (fst (G p)))"
    have blk: "b \<noteq> []" if "b \<in> set (fst (G p))" for b
    proof -
      have "item_ok m (initial_tsc_buf_size st) (items st p) (fst (G p)) (snd (G p))" using m p(1) by (simp add: data_ok_def)
      then obtain os where "list_all2 (complete_ok m (internal_id (items st p)) (initial_tsc_buf_size st)) os (fst (G p))"
        by (auto simp: item_ok_def)
      then show ?thesis using that by (auto simp: list_all2_conv_all_nth in_set_conv_nth complete_ok_def valid_of_def)
    qed
    have "(fst (G p) @ [snd (G p)]) ! i \<noteq> []" using blk p(3) tr(4) by (cases "i < length (fst (G p))") (auto simp: nth_append)
    then have "\<forall>q\<in>set ?old. sint (fst q) < sint t"
      using dropped_old [of "fst (G p)" "snd (G p)" i t] p(4) tr(4,6) by (cases "i = 0") (auto simp: series_def)
    moreover have "series (G p) = ?old @ series ?g" by (simp add: series_def flip: concat_append append_assoc)
    ultimately have "cleaned t (series (G p)) (Some (series ?g))" using False lt by (auto simp: cleaned_def)
    moreover have "clean_item t p st = Some st'" using tr(1) by (simp add: clean_item_def)
    moreover have "\<forall>n. has_room st n \<longrightarrow> has_room st' n" using tr(3,5) by (simp add: has_room_def same_shape_def)
    ultimately show ?thesis using tr(2,3) same_shape_db [OF ok p(1,2) tr(3), of ?g]
      by (intro exI [of _ st'] exI [of _ "G(p := ?g)"] exI [of _ "Some (series ?g)"]) (auto simp: same_shape_def same_ident_def)
  qed
qed

lemma clean_list_ok:
  assumes "store_ok st G" "set ps \<subseteq> set (item_list st)" "distinct ps" "\<forall>p\<in>set ps. snd (G p) \<noteq> [] \<and> increasing (series (G p))"
  shows "\<exists>st' G'. for_each (clean_item t) ps st = Some st' \<and> store_ok st' G' \<and>
    retention_seconds st' = retention_seconds st \<and> (\<forall>n. has_room st n \<longrightarrow> has_room st' n) \<and>
    (\<forall>k. if \<exists>p\<in>set ps. key_is (items st p) k then cleaned t (the (db_of st G k)) (db_of st' G' k) else db_of st' G' k = db_of st G k)"
  using assms
proof (induction ps arbitrary: st G)
  case Nil
  then show ?case by auto
next
  case (Cons p ps)
  obtain mk where mk: "keys_ok st mk" using Cons.prems(1) by (auto simp: store_ok_def)
  have p: "p \<in> set (item_list st)" "snd (G p) \<noteq> []" "increasing (series (G p))" "p \<notin> set ps" using Cons.prems by auto
  obtain k where k: "key_is (items st p) k" using keys_is [OF mk p(1)] by blast
  obtain st1 G1 r where c: "clean_item t p st = Some st1" "store_ok st1 G1" "db_of st1 G1 = (db_of st G)(k := r)" "cleaned t (series (G p)) r"
    "\<forall>q. q \<noteq> p \<longrightarrow> G1 q = G q \<and> same_key (items st q) (items st1 q)" "set (item_list st) - {p} \<subseteq> set (item_list st1)"
    "retention_seconds st1 = retention_seconds st" "\<forall>n. has_room st n \<longrightarrow> has_room st1 n"
    using clean_item_ok [OF Cons.prems(1) p(1) k p(2,3), of t] by blast
  have other: "key_is (items st1 q) k' = key_is (items st q) k'" "G1 q = G q" if "q \<in> set ps" for q k'
    using c(5) that p(4) by (auto simp: same_key_def key_is_def)
  have "set ps \<subseteq> set (item_list st1)" "\<forall>q\<in>set ps. snd (G1 q) \<noteq> [] \<and> increasing (series (G1 q))"
    using Cons.prems(2,4) p(4) c(6) other by auto
  with Cons.IH [OF c(2)] Cons.prems(3) obtain st' G' where i: "for_each (clean_item t) ps st1 = Some st'" "store_ok st' G'"
    "retention_seconds st' = retention_seconds st1" "\<forall>n. has_room st1 n \<longrightarrow> has_room st' n"
    "\<forall>k. if \<exists>p\<in>set ps. key_is (items st1 p) k then cleaned t (the (db_of st1 G1 k)) (db_of st' G' k) else db_of st' G' k = db_of st1 G1 k"
    by auto
  have nk: "\<not> key_is (items st q) k" if "q \<in> set ps" for q
    using that key_unique [OF mk p(1) _ k] p(4) Cons.prems(2) by auto
  have dk: "db_of st G k = Some (series (G p))" by (rule db_of_eq [OF mk p(1) k])
  have "if \<exists>p\<in>set (p # ps). key_is (items st p) k' then cleaned t (the (db_of st G k')) (db_of st' G' k') else db_of st' G' k' = db_of st G k'" for k'
  proof (cases "k' = k")
    case True
    then show ?thesis using spec [OF i(5), of k] nk other(1) c(3,4) dk k by auto
  next
    case False
    then have "\<not> key_is (items st p) k'" using k by (auto simp: key_is_def)
    moreover have "db_of st1 G1 k' = db_of st G k'" using c(3) False by simp
    moreover have "(\<exists>q\<in>set ps. key_is (items st1 q) k') = (\<exists>q\<in>set ps. key_is (items st q) k')" using other(1) by auto
    ultimately show ?thesis using spec [OF i(5), of k'] by (simp split: if_splits)
  qed
  then show ?case using c(1,7,8) i(1-4) by (intro exI [of _ st'] exI [of _ G']) simp
qed

text \<open>The cleaning thread cleans the next items of the list and remembers where it stopped.\<close>

lemma next_item_ok: "distinct (xs @ p # ys) \<Longrightarrow> next_item (xs @ p # ys) p = (case ys of [] \<Rightarrow> None | q # _ \<Rightarrow> Some q)"
proof (induction xs)
  case Nil
  then show ?case by (cases ys) simp_all
next
  case (Cons a xs)
  have "a \<noteq> p" using Cons.prems by auto
  obtain b zs where "xs @ p # ys = b # zs" by (cases "xs @ p # ys") auto
  then show ?case using Cons \<open>a \<noteq> p\<close> by auto
qed

lemma clean_items_ok:
  assumes ok: "storage_good st db" and ne: "\<not> some_block_empty st" and inc: "\<forall>k s. db k = Some s \<longrightarrow> increasing s"
  shows "\<exists>st' db'. clean_items now st = Some st' \<and> storage_good st' db' \<and> (\<forall>n. has_room st n \<longrightarrow> has_room st' n) \<and>
    (\<forall>k. case db k of None \<Rightarrow> db' k = None | Some s \<Rightarrow> cleaned (word_of_int (now - retention_seconds st)) s (db' k))"
proof -
  let ?t = "word_of_int (now - retention_seconds st) :: i64"
  obtain G where G: "store_ok st G" "db = db_of st G" using ok by (auto simp: storage_good_def)
  obtain mk where mk: "keys_ok st mk" using G(1) by (auto simp: store_ok_def)
  have "snd (G p) \<noteq> [] \<and> increasing (series (G p))" if p: "p \<in> set (item_list st)" for p
  proof -
    obtain k where "key_is (items st p) k" using keys_is [OF mk p] by blast
    then have "db k = Some (series (G p))" using db_of_eq [OF mk p] G(2) by simp
    then show ?thesis using inc ne num_pts_zero [OF G(1) p] p by (auto simp: some_block_empty_def)
  qed
  moreover have "distinct (item_list st)" using G(1) by (simp add: store_ok_def lists_ok_def)
  ultimately obtain st' G' where c: "for_each (clean_item ?t) (item_list st) st = Some st'" "store_ok st' G'"
    "\<forall>k. if \<exists>p\<in>set (item_list st). key_is (items st p) k then cleaned ?t (the (db_of st G k)) (db_of st' G' k) else db_of st' G' k = db_of st G k"
    "\<forall>n. has_room st n \<longrightarrow> has_room st' n" using clean_list_ok [OF G(1), of "item_list st" ?t] by blast
  have "case db k of None \<Rightarrow> db_of st' G' k = None | Some s \<Rightarrow> cleaned ?t s (db_of st' G' k)" for k
  proof (cases "\<exists>p\<in>set (item_list st). key_is (items st p) k")
    case True
    then obtain p where p: "p \<in> set (item_list st)" "key_is (items st p) k" by blast
    then have "db k = Some (series (G p))" using db_of_eq [OF mk p] G(2) by simp
    then show ?thesis using spec [OF c(3), of k] True G(2) by auto
  next
    case False
    then have "db k = None" using db_of_None [of st k mk G] mk G(2) by blast
    then show ?thesis using spec [OF c(3), of k] False G(2) by simp
  qed
  then show ?thesis using c(1,2,4) by (auto simp: clean_items_def storage_good_def intro!: exI [of _ "db_of st' G'"])
qed

text \<open>Cleaning an item takes at most this item out of the list.\<close>

lemma for_each_keeps:
  assumes "for_each f xs st = Some st'" "\<And>x st st'. f x st = Some st' \<Longrightarrow> h st' = h st"
  shows "h st' = h st"
  using assms(1)
proof (induction xs arbitrary: st)
  case (Cons x xs)
  then obtain st1 where "f x st = Some st1" "for_each f xs st1 = Some st'" by (auto split: Option.bind_split_asm)
  then show ?case using Cons.IH assms(2) by metis
qed simp

lemma release_data_list: "release_data e st = Some st' \<Longrightarrow> item_list st' = item_list st"
  by (auto simp: release_data_def split: Option.bind_split_asm)

lemma release_offsets_list: "release_offsets es st = Some st' \<Longrightarrow> item_list st' = item_list st"
proof (induction es arbitrary: st)
  case (Cons e es)
  then show ?case using release_data_list by (fastforce split: if_split_asm Option.bind_split_asm)
qed simp

lemma root_delete_list: "root_delete p i st = Some st' \<Longrightarrow> item_list st' = item_list st"
  by (auto simp: root_delete_def split: Option.bind_split_asm)

lemma clean_item_list:
  assumes "clean_item t p st = Some st'"
  shows "item_list st' = item_list st \<or> item_list st' = remove1 p (item_list st)"
proof -
  obtain del st1 where d: "storage_trim_and_write_to_disk st p t = Some (del, st1)" "(if del then storage_delete_item st1 p else Some st1) = Some st'"
    using assms by (auto simp: clean_item_def split: Option.bind_split_asm)
  have st1: "item_list st1 = item_list st" using d(1) for_each_keeps [of release_data _ st _ item_list] release_data_list
    by (auto simp: storage_trim_and_write_to_disk_def upd_item_def Let_def split: if_split_asm Option.bind_split_asm)
  show ?thesis
  proof (cases del)
    case True
    then obtain st2 st3 where r: "for_each (root_delete p) [0..<num_roots (st1\<lparr>item_list := remove1 p (item_list st1)\<rparr>)]
        (st1\<lparr>item_list := remove1 p (item_list st1)\<rparr>) = Some st2" "release_offsets (data_offsets (items st2 p)) st2 = Some st3"
      "item_list st' = item_list st3"
      using d(2) by (auto simp: storage_delete_item_def storage_item_free_def Let_def split: Option.bind_split_asm)
    from for_each_keeps [OF r(1), of item_list] root_delete_list have "item_list st2 = remove1 p (item_list st)" using st1 by simp
    then show ?thesis using release_offsets_list [OF r(2)] r(3) by simp
  qed (use d(2) st1 in simp)
qed

text \<open>
  The batch of the cleaning thread, from the item \<open>ys\<close> starts with: it is the loop over the next \<open>n\<close> items, and
  the thread continues with the item behind them.
\<close>

definition first_item :: "ptr list \<Rightarrow> ptr option" where
  "first_item ps = (case ps of [] \<Rightarrow> None | p # _ \<Rightarrow> Some p)"

lemma thread_batch_ok:
  assumes "item_list st = xs @ ys" "distinct (item_list st)"
  shows "thread_batch n t (first_item ys) st = map_option (Pair (first_item (drop n ys))) (for_each (clean_item t) (take n ys) st)"
  using assms
proof (induction n arbitrary: st xs ys)
  case (Suc n)
  show ?case
  proof (cases ys)
    case (Cons p ps)
    have nx: "next_item (item_list st) p = first_item ps"
      using next_item_ok [of xs p ps] Suc.prems(1,2) Cons by (simp add: first_item_def)
    show ?thesis
    proof (cases "clean_item t p st")
      case None
      then show ?thesis using Cons by (simp add: first_item_def)
    next
      case (Some st1)
      note c = clean_item_list [OF Some]
      have "p \<notin> set xs" using Suc.prems(1,2) Cons by auto
      then obtain xs' where xs': "item_list st1 = xs' @ ps" using c Suc.prems(1) Cons by (auto simp: remove1_append)
      have "distinct (item_list st1)" using c Suc.prems(2) by auto
      from Suc.IH [OF xs' this] show ?thesis using Cons Some nx by (simp add: first_item_def Let_def)
    qed
  qed (simp add: first_item_def)
qed simp

end
