(* ===== verification/Storage_Properties.thy ===== *)
theory Storage_Properties
  imports Storage_Clean
begin

unbundle bit_operations_syntax

text \<open>
  The storage as a database of time series: the contract that the server relies on, its interpretation on
  the functions of \<^verbatim>\<open>src/common/storage.c\<close>, and the properties of the single functions.
\<close>

section \<open>An empty storage\<close>

lemma scan_empty:
  assumes "ds_file ds = u" "length u = 64"
  shows "\<exists>ds'. disk_storage_read_blocks_from_start ds True n = Some (0, None, ds') \<and> ds_file ds' = ds_file ds \<and>
    ds_scratch ds' = ds_scratch ds \<and> eof_offset ds' = eof_offset ds \<and> next_free_block ds' = next_free_block ds"
  using loop_at_block [of "must_lseek ds STORAGE_INITIAL_RESERVED" u "[]" n] assms
  by (auto simp: disk_storage_read_blocks_from_start_def must_lseek_def disk_defs)

lemma init_empty:
  assumes n: "28 \<le> n" "n + 38 \<le> 2 ^ 20"
  shows "\<exists>st. storage_init env retention n inds ([], []) ([], []) = Some (0, Some st) \<and> storage_good st Map.empty \<and>
    disk_size (key_disk_store st) = 64 \<and> disk_size (data_disk_store st) = 64 \<and> next_internal_id st = 1 \<and> initial_tsc_buf_size st = n \<and>
    retention_seconds st = retention \<and> item_list st = [] \<and> indices st = inds"
proof -
  obtain ds where ds: "disk_storage_open [] [] = Some (0, ds)" "disk_ok ds Map.empty" "disk_size ds = 64" using open_empty_ok by blast
  obtain ds' where ds': "disk_storage_read_blocks_from_start ds True LOAD_MAX_N = Some (0, None, ds')" "ds_file ds' = ds_file ds"
    "ds_scratch ds' = ds_scratch ds" "eof_offset ds' = eof_offset ds" "next_free_block ds' = next_free_block ds"
    using scan_empty [of ds "ds_file ds" LOAD_MAX_N] ds(3) by (auto simp: disk_size_def)
  have good: "disk_ok ds' Map.empty" "disk_size ds' = 64" using same_files_ok [OF ds(2) ds'(2-5)] ds'(2) ds(3) by (simp_all add: disk_size_def)
  define st where "st a b = \<lparr>initial_tsc_buf_size = n, retention_seconds = retention, next_internal_id = 1,
     item_list = [], indices = inds, root = replicate (NUM_SPECIAL_INDICES + length inds) Null,
     key_disk_store = a, data_disk_store = b, items = (\<lambda>_. blank_item), allocated = []\<rparr>" for a b
  have l: "load_data_loop env True (st ds ds) = Some (0, st ds ds')" "load_key_loop env True (st ds ds') = Some (0, st ds' ds')"
    using ds'(1) by (simp_all add: load_data_loop.simps load_key_loop.simps st_def)
  have i: "items_by_id (st ds' ds') = Some []"
    by (simp add: items_by_id_def st_def it_init_inorder_def it_init_full_def it_all.simps it_current_def index_defs)
  have "storage_load env (st ds ds) = Some (0, st ds' ds')" using l i by (simp add: storage_load_def)
  then have "storage_init env retention n inds ([], []) ([], []) = Some (0, Some (st ds' ds'))"
    using ds(1) by (simp add: storage_init_def st_def)
  moreover have "indices_ok (st ds' ds') {}"
    by (simp add: indices_ok_def num_roots_def st_def item_index_def tree_set_def rb_tree_def)
  then have "lists_ok (st ds' ds')" using n by (simp add: lists_ok_def st_def)
  then have "store_ok (st ds' ds') G" for G using good(1) unfolding store_ok_def
    by (auto simp: data_ok_def keys_ok_def times_ok_def st_def)
  then have "storage_good (st ds' ds') Map.empty" unfolding storage_good_def by (auto simp: db_of_def st_def fun_eq_iff)
  ultimately show ?thesis using good(2) by (intro exI [of _ "st ds' ds'"]) (simp add: st_def)
qed

section \<open>The contract\<close>

text \<open>
  A database of time series: a state stands for a map from keys to lists of points. Writing appends a
  prefix of the points to one series; reading returns a series.
\<close>

definition get_result :: "(byte list \<Rightarrow> point list option) \<Rightarrow> byte list \<Rightarrow> nat \<Rightarrow> int \<times> point list" where
  "get_result db k mx = (case db k of None \<Rightarrow> (ERR_LOOKUP_FAILED, [])
     | Some s \<Rightarrow> if length s \<le> mx then (0, s) else (ERR_TOO_MANY_POINTS, []))"

locale series_db =
  fixes good :: "'s \<Rightarrow> (byte list \<Rightarrow> point list option) \<Rightarrow> bool"
    and room :: "'s \<Rightarrow> nat \<Rightarrow> bool"
    and valid :: "byte list \<Rightarrow> bool"
    and write_op :: "'s \<Rightarrow> byte list \<Rightarrow> point list \<Rightarrow> (int \<times> 's) option"
    and get_op :: "'s \<Rightarrow> byte list \<Rightarrow> nat \<Rightarrow> (int \<times> point list \<times> 's) option"
  assumes write_law: "good st db \<Longrightarrow> valid k \<Longrightarrow> room st (Suc (length pts)) \<Longrightarrow> \<forall>q\<in>set pts. 0 < sint (fst q) \<Longrightarrow>
      \<exists>res st' acc rest. write_op st k pts = Some (res, st') \<and> pts = acc @ rest \<and> (res = 0 \<longleftrightarrow> rest = []) \<and>
        good st' (db(k \<mapsto> points_of db k @ acc))"
    and get_law: "good st db \<Longrightarrow> valid k \<Longrightarrow>
      \<exists>res pts st'. get_op st k mx = Some (res, pts, st') \<and> good st' db \<and> (res, pts) = get_result db k mx"
begin

lemma write_then_get:
  assumes "good st db" "valid k" "room st (Suc (length pts))" "\<forall>q\<in>set pts. 0 < sint (fst q)" "write_op st k pts = Some (0, st1)"
    and "length (points_of db k @ pts) \<le> mx"
  shows "\<exists>st2. get_op st1 k mx = Some (0, points_of db k @ pts, st2)"
proof -
  have "good st1 (db(k \<mapsto> points_of db k @ pts))" using write_law [OF assms(1-4)] assms(5) by auto
  from get_law [OF this assms(2), of mx] show ?thesis using assms(6) by (auto simp: get_result_def)
qed

lemma write_keeps_others:
  assumes "good st db" "valid k" "room st (Suc (length pts))" "\<forall>q\<in>set pts. 0 < sint (fst q)" "write_op st k pts = Some (res, st1)"
    and "valid k'" "k' \<noteq> k"
  shows "\<exists>r s st2 st3. get_op st k' mx = Some (r, s, st2) \<and> get_op st1 k' mx = Some (r, s, st3)"
proof -
  obtain acc where "good st1 (db(k \<mapsto> points_of db k @ acc))" using write_law [OF assms(1-4)] assms(5) by auto
  moreover have "get_result (db(k \<mapsto> points_of db k @ acc)) k' mx = get_result db k' mx" using assms(7) by (simp add: get_result_def)
  ultimately show ?thesis using get_law [OF _ assms(6), of st1 _ mx] get_law [OF assms(1,6), of mx] by (metis prod.inject)
qed

end

definition write_key :: "c_env \<Rightarrow> the_storage \<Rightarrow> byte list \<Rightarrow> point list \<Rightarrow> (int \<times> the_storage) option" where
  "write_key env st k pts = storage_write env st k (of_nat (length k)) pts"

definition get_key :: "c_env \<Rightarrow> the_storage \<Rightarrow> byte list \<Rightarrow> nat \<Rightarrow> (int \<times> point list \<times> the_storage) option" where
  "get_key env st k mx = storage_get env st k (of_nat (length k)) mx"

lemma key_length: "valid_key k \<Longrightarrow> unat (of_nat (length k) :: u16) = length k"
  by (simp add: valid_key_def MAX_BUF_def unat_of_nat)

interpretation sdb: series_db "\<lambda>st db. env_ok env \<and> storage_good st db" has_room valid_key "write_key env" "get_key env" for env
proof unfold_locales
  fix st db k and pts :: "point list"
  assume a: "env_ok env \<and> storage_good st db" "valid_key k" "has_room st (Suc (length pts))" "\<forall>q\<in>set pts. 0 < sint (fst q)"
  show "\<exists>res st' acc rest. write_key env st k pts = Some (res, st') \<and> pts = acc @ rest \<and> (res = 0 \<longleftrightarrow> rest = []) \<and>
    env_ok env \<and> storage_good st' (db(k \<mapsto> points_of db k @ acc))"
    using storage_write_gen [of st db env k "of_nat (length k)" pts "[]"] a key_length [OF a(2)] unfolding write_key_def append_Nil2 by blast
next
  fix st db k mx assume a: "env_ok env \<and> storage_good st db" "valid_key k"
  show "\<exists>res pts st'. get_key env st k mx = Some (res, pts, st') \<and> (env_ok env \<and> storage_good st' db) \<and> (res, pts) = get_result db k mx"
    using storage_get_ok [of st db "of_nat (length k)" k env "[]" mx] a key_length [OF a(2)] unfolding get_key_def get_result_def append_Nil2 by blast
qed

section \<open>Example\<close>

definition example_env :: c_env where
  "example_env = \<lparr>env_malloc = (\<lambda>ps. Suc (foldr max ps 0)), env_junk = (\<lambda>_. 0), env_header = item_data blank_item\<rparr>"

definition example_storage :: the_storage where
  "example_storage = the (snd (the (storage_init example_env 1000 100 [] ([], []) ([], []))))"

definition example_key :: "byte list" where
  "example_key = [99, 112, 117]"

lemma example_env_ok: "env_ok example_env"
proof -
  have "foldr max ps 0 \<ge> p" if "p \<in> set ps" for ps :: "nat list" and p using that by (induction ps) (auto simp: le_max_iff_disj)
  then show ?thesis by (fastforce simp: env_ok_def example_env_def)
qed

lemma example_key_ok: "valid_key example_key" "unat (3 :: u16) = length example_key"
  by (simp_all add: example_key_def valid_key_def MAX_BUF_def)

lemma example_storage_ok:
  "storage_init example_env 1000 100 [] ([], []) ([], []) = Some (0, Some example_storage)" "storage_good example_storage Map.empty"
  "initial_tsc_buf_size example_storage = 100" "retention_seconds example_storage = 1000" "k < 1000 \<Longrightarrow> has_room example_storage k" "item_list example_storage = []"
  "indices example_storage = []"
  using init_empty [of 100 example_env 1000 "[]"] by (auto simp: example_storage_def has_room_def)

text \<open>One series with two points.\<close>

definition example_points :: "point list" where
  "example_points = [(100, 5), (110, 7)]"

lemma example_points_ok: "has_room example_storage (Suc (length example_points))" "\<forall>q\<in>set example_points. 0 < sint (fst q)"
  using example_storage_ok(5) [of "Suc (length example_points)"] by (simp_all add: example_points_def)

section \<open>Points that follow\<close>

lemma sint_diff: "0 \<le> sint a \<Longrightarrow> sint a < 2 ^ 32 \<Longrightarrow> 0 \<le> sint b \<Longrightarrow> sint b < 2 ^ 32 \<Longrightarrow> sint (a - b :: i64) = sint a - sint b"
  by (simp add: sint_word_ariths signed_take_bit_int_eq_self)

text \<open>Time stamps in seconds below 2^31: the change of the delta of an increasing series fits 32 bits.\<close>

lemma end_state_delta:
  assumes "increasing ps" "\<forall>q\<in>set ps. 0 < sint (fst q) \<and> sint (fst q) < 2 ^ 31" "end_state None ps = Some (t, dt, y, w)"
  shows "t = fst (last ps) \<and> 0 \<le> sint dt \<and> sint dt < 2 ^ 31"
  using assms
proof (induction ps arbitrary: t dt y w rule: rev_induct)
  case (snoc q ps)
  obtain t1 y1 where q: "q = (t1, y1)" by (cases q)
  show ?case
  proof (cases "end_state None ps")
    case None
    then show ?thesis using snoc.prems(3) q by (auto simp: end_state_None)
  next
    case (Some s)
    then obtain t0 d0 y0 w0 where s: "end_state None ps = Some (t0, d0, y0, w0)" by (cases s) auto
    have inc: "increasing ps" "\<forall>q\<in>set ps. 0 < sint (fst q) \<and> sint (fst q) < 2 ^ 31" "\<forall>p\<in>set ps. sint (fst p) < sint t1"
      using snoc.prems(1,2) q by (auto simp: increasing_def sorted_wrt_append)
    have "ps \<noteq> []" using s by auto
    then have t0: "t0 = fst (last ps)" "last ps \<in> set ps" using snoc.IH [OF inc(1,2) s] by auto
    then have r: "0 < sint t0" "sint t0 < sint t1" "sint t1 < 2 ^ 31" using inc snoc.prems(2) q by auto
    then have "sint (t1 - t0) = sint t1 - sint t0" by (intro sint_diff) simp_all
    then show ?thesis using snoc.prems(3) s q r by auto
  qed
qed simp

lemma increasing_follows:
  assumes "increasing (ps @ [q])" "\<forall>q\<in>set (ps @ [q]). 0 < sint (fst q) \<and> sint (fst q) < 2 ^ 31"
  shows "follows (end_state None ps) q"
proof (cases "end_state None ps")
  case None
  then show ?thesis by (cases q) simp
next
  case (Some s)
  then obtain t0 dt y0 w where s: "end_state None ps = Some (t0, dt, y0, w)" by (cases s) auto
  obtain t y where q: "q = (t, y)" by (cases q)
  have "increasing ps" "\<forall>q\<in>set ps. 0 < sint (fst q) \<and> sint (fst q) < 2 ^ 31"
    using assms by (simp_all add: increasing_def sorted_wrt_append)
  from end_state_delta [OF this s] have d: "t0 = fst (last ps)" "0 \<le> sint dt" "sint dt < 2 ^ 31" by simp_all
  have "ps \<noteq> []" using s by auto
  then have t: "0 < sint t0" "sint t0 < sint t" "sint t < 2 ^ 31" using assms q d(1) by (auto simp: increasing_def sorted_wrt_append)
  then have e: "sint (t - t0) = sint t - sint t0" by (intro sint_diff) simp_all
  then have "sint (t - t0 - dt) = sint (t - t0) - sint dt" using d(2,3) t by (intro sint_diff) simp_all
  then show ?thesis using s q t e d(2,3) by (simp add: int_fits_def)
qed

lemma storage_write_all:
  assumes "storage_good st db" "env_ok env" "valid_key k" "unat klen = length k" "has_room st (Suc (length pts))"
    and n: "initial_tsc_buf_size st mod 8 = 4" and inc: "increasing (points_of db k @ pts)"
    and pos: "\<forall>q\<in>set (points_of db k @ pts). 0 < sint (fst q) \<and> sint (fst q) < 2 ^ 31"
  shows "\<exists>st'. storage_write env st (k @ x) klen pts = Some (0, st') \<and> storage_good st' (db(k \<mapsto> points_of db k @ pts)) \<and> retention_seconds st' = retention_seconds st \<and>
    initial_tsc_buf_size st' = initial_tsc_buf_size st \<and> (pts \<noteq> [] \<longrightarrow> \<not> some_block_empty st \<longrightarrow> \<not> some_block_empty st') \<and>
    length (item_list st') \<le> Suc (length (item_list st)) \<and> (\<forall>n. has_room st (Suc (length pts + n)) \<longrightarrow> has_room st' n)"
proof -
  have "\<forall>q\<in>set pts. 0 < sint (fst q)" using pos by auto
  from storage_write_gen [OF assms(1-5) this, of x]
  obtain res st' acc rest where w: "storage_write env st (k @ x) klen pts = Some (res, st')" "pts = acc @ rest" "res = 0 \<longleftrightarrow> rest = []"
    "storage_good st' (db(k \<mapsto> points_of db k @ acc))" "retention_seconds st' = retention_seconds st" "initial_tsc_buf_size st' = initial_tsc_buf_size st"
    "pts \<noteq> [] \<longrightarrow> \<not> some_block_empty st \<longrightarrow> \<not> some_block_empty st'" "length (item_list st') \<le> Suc (length (item_list st))"
    "\<forall>n. has_room st (Suc (length pts + n)) \<longrightarrow> has_room st' n" and r: "rest \<noteq> [] \<longrightarrow> (\<exists>old cur. points_of db k @ acc = old @ cur \<and> cur \<noteq> [] \<and>
      (\<not> follows (end_state None cur) (hd rest) \<or> res = ERR_BITSTREAM_OUT_OF_SPACE \<and> initial_tsc_buf_size st mod 8 \<noteq> 4))" by blast
  have "rest = []"
  proof (rule ccontr)
    assume ne: "rest \<noteq> []"
    then obtain old cur where c: "points_of db k @ acc = old @ cur" "\<not> follows (end_state None cur) (hd rest)" using r n by blast
    obtain q qs where q: "rest = q # qs" using ne by (cases rest) auto
    have e: "points_of db k @ pts = old @ (cur @ [q]) @ qs" using w(2) c(1) q by (metis append.assoc append_Cons append_Nil)
    have "increasing (cur @ [q])" using inc unfolding e increasing_def by (simp add: sorted_wrt_append)
    moreover have "\<forall>q\<in>set (cur @ [q]). 0 < sint (fst q) \<and> sint (fst q) < 2 ^ 31" using pos unfolding e by auto
    ultimately show False using increasing_follows [of cur q] c(2) q by simp
  qed
  then show ?thesis using w by auto
qed

lemma example_increasing: "increasing (points_of Map.empty example_key @ example_points)"
  "\<forall>q\<in>set (points_of Map.empty example_key @ example_points). 0 < sint (fst q) \<and> sint (fst q) < 2 ^ 31"
  by (simp_all add: points_of_def example_points_def increasing_def)

lemma example_written:
  "\<exists>st'. storage_write example_env example_storage example_key 3 example_points = Some (0, st') \<and>
     storage_good st' [example_key \<mapsto> example_points] \<and> retention_seconds st' = 1000 \<and> \<not> some_block_empty st' \<and>
     length (item_list st') \<le> 1 \<and> (\<forall>n<900. has_room st' n)"
proof -
  have "example_points \<noteq> []" "\<not> some_block_empty example_storage" "\<forall>n<900. has_room example_storage (Suc (length example_points + n))"
    using example_storage_ok(5,6) by (simp_all add: some_block_empty_def example_points_def)
  with storage_write_all [OF example_storage_ok(2) example_env_ok example_key_ok example_points_ok(1) _ example_increasing, of "[]"]
    example_storage_ok(3,4,6) show ?thesis by (auto simp: points_of_def)
qed

section \<open>Properties\<close>

text \<open>
  C7: \<^verbatim>\<open>storage_write\<close> refines the database: it never fails an assertion, appends a prefix of the given points
  to the series of the key (which is created if there is none), leaves all other series alone, and
  returns zero exactly if the prefix is all of the points. The key has at most 10230 bytes and does not
  start with a zero, the time stamps are positive, and the files are below 2^62 bytes.\<close>

theorem storage_write_appends:
  assumes "storage_good st db" "env_ok env" "valid_key k" "unat klen = length k" "has_room st (Suc (length pts))" "\<forall>q\<in>set pts. 0 < sint (fst q)"
  shows "\<exists>res st' acc rest. storage_write env st (k @ x) klen pts = Some (res, st') \<and> pts = acc @ rest \<and> (res = 0 \<longleftrightarrow> rest = []) \<and>
    storage_good st' (db(k \<mapsto> points_of db k @ acc))"
  using storage_write_gen [OF assms] by blast

theorem storage_write_appends_witness:
  "\<exists>res st' acc rest. storage_write example_env example_storage example_key 3 example_points = Some (res, st') \<and>
     example_points = acc @ rest \<and> storage_good st' [example_key \<mapsto> acc]"
  using storage_write_appends [OF example_storage_ok(2) example_env_ok example_key_ok example_points_ok, of "[]"]
  by (auto simp: points_of_def)

text \<open>
  C11: With a block size that makes the bit stream a whole number of words, \<^verbatim>\<open>storage_write\<close> accepts every point
  of an increasing series with time stamps below 2^31 (seconds until 2038): the code is zero and the series
  is extended by all points, however many blocks that takes.\<close>

theorem storage_write_accepts:
  assumes "storage_good st db" "env_ok env" "valid_key k" "unat klen = length k" "has_room st (Suc (length pts))"
    and n: "initial_tsc_buf_size st mod 8 = 4" and inc: "increasing (points_of db k @ pts)"
    and pos: "\<forall>q\<in>set (points_of db k @ pts). 0 < sint (fst q) \<and> sint (fst q) < 2 ^ 31"
  shows "\<exists>st'. storage_write env st (k @ x) klen pts = Some (0, st') \<and> storage_good st' (db(k \<mapsto> points_of db k @ pts))"
  using storage_write_all [OF assms] by blast

theorem storage_write_accepts_witness:
  "\<exists>st'. storage_write example_env example_storage example_key 3 example_points = Some (0, st') \<and>
     storage_good st' [example_key \<mapsto> example_points]"
  using storage_write_accepts [OF example_storage_ok(2) example_env_ok example_key_ok example_points_ok(1) _ example_increasing, of "[]"]
    example_storage_ok(3) by (simp add: points_of_def)

text \<open>
  C10: \<^verbatim>\<open>storage_get\<close> returns exactly the series of the key, oldest point first, from the blocks on disk and the
  block in memory; it reports an unknown key and a result that does not fit the caller's arrays, and it
  never fails an assertion. The database does not change.\<close>

theorem storage_get_correct:
  assumes "storage_good st db" "unat klen = length k"
  shows "\<exists>res pts st'. storage_get env st (k @ x) klen max_num_pts = Some (res, pts, st') \<and> storage_good st' db \<and>
    (res, pts) = (case db k of None \<Rightarrow> (ERR_LOOKUP_FAILED, [])
      | Some s \<Rightarrow> if length s \<le> max_num_pts then (0, s) else (ERR_TOO_MANY_POINTS, []))"
  using storage_get_ok [OF assms] .

theorem storage_get_correct_witness:
  "\<exists>st1 st2. storage_write example_env example_storage example_key 3 example_points = Some (0, st1) \<and>
     storage_get example_env st1 example_key 3 10 = Some (0, example_points, st2)"
proof -
  obtain st1 where st1: "storage_write example_env example_storage example_key 3 example_points = Some (0, st1)"
    "storage_good st1 [example_key \<mapsto> example_points]" using example_written by blast
  have "length example_points \<le> 10" by (simp add: example_points_def)
  with storage_get_correct [OF st1(2) example_key_ok(2), of example_env "[]" 10] st1(1) show ?thesis by auto
qed

text \<open>
  C26: \<^verbatim>\<open>storage_sync\<close> writes the block in memory of every item to disk without changing the database, unless an
  item has no points in memory: then the assertion on the number of points in \<^verbatim>\<open>storage_write_disk\<close> ends the
  process. (An item without points exists after \<^verbatim>\<open>storage_write\<close> with an empty list of points.)\<close>

theorem storage_sync_outcome:
  assumes "storage_good st db" "has_room st (length (item_list st))"
  shows "if some_block_empty st then storage_sync st = None else \<exists>st'. storage_sync st = Some (0, st') \<and> storage_good st' db"
  using sync_ok [OF assms] by (auto split: if_splits)

theorem storage_sync_outcome_witness:
  "\<exists>st1 st2. storage_write example_env example_storage example_key 3 example_points = Some (0, st1) \<and>
     storage_sync st1 = Some (0, st2) \<and> storage_good st2 [example_key \<mapsto> example_points]"
proof -
  obtain st1 where w: "storage_write example_env example_storage example_key 3 example_points = Some (0, st1)"
    "storage_good st1 [example_key \<mapsto> example_points]" "\<not> some_block_empty st1" "length (item_list st1) \<le> 1" "\<forall>n<900. has_room st1 n"
    using example_written by blast
  have "has_room st1 (length (item_list st1))" using w(4,5) by simp
  from storage_sync_outcome [OF w(2) this] show ?thesis using w(1,3) by auto
qed





section \<open>Points that are out of order\<close>

text \<open>The room test of \<^verbatim>\<open>tsc_add\<close> fails for the block in memory.\<close>

definition item_full :: "storage_item \<Rightarrow> bool" where
  "item_full item \<longleftrightarrow> 8 * (unat (data_len (item_data item)) - 4) - unat (num_valid_bits (item_data item)) < 18 * 8"

lemma write_full:
  assumes ok: "store_ok st G" and p: "p \<in> set (item_list st)" "key_is (items st p) k" "item_full (items st p)"
    and k: "unat klen = length k" and t: "0 < sint t" and room: "has_room st 1"
  shows "\<exists>st'. storage_write env st (k @ x) klen [(t, y)] = Some (0, st') \<and> storage_good st' ((db_of st G)(k \<mapsto> points_of (db_of st G) k @ [(t, y)]))"
proof -
  obtain mk where mk: "keys_ok st mk" and l: "lists_ok st" using ok by (auto simp: store_ok_def)
  note i = item_facts [OF ok p(1)]
  have full: "tsc_add (item_data (items st p)) t y = Some (ERR_TSC_OUT_OF_SPACE, item_data (items st p))"
    using room_or_full [OF i(1), of t y] p(3) i(1) by (simp add: item_full_def tsc_inv_def)
  then have ne: "snd (G p) \<noteq> []"
    by (cases rule: add_outcome [OF i(1,2), of t y, case_names ok full err]) (auto simp: err_defs)
  have r: "disk_size (data_disk_store st) + 2 ^ 27 < 2 ^ 62" using room by (simp add: has_room_def)
  let ?g = "(fst (G p) @ [snd (G p)], [(t, y)])"
  obtain st1 d2 where w: "storage_write_disk (set_item_data st p (item_data (items st p))) p True = Some (0, st1)"
    "tsc_add (item_data (items st1 p)) t y = Some (ERR_OK, d2)" "store_ok (set_item_data st1 p d2) (G(p := ?g))" "same_shape st (set_item_data st1 p d2)"
    using full_step [OF ok p(1) t r full i(1) refl ne] by blast
  have "write_points st p [(t, y)] = Some (0, set_item_data st1 p d2)" using full w(1,2) by (simp add: err_defs)
  then have "storage_write env st (k @ x) klen [(t, y)] = Some (0, set_item_data st1 p d2)"
    using get_item_found [OF l mk k p(1,2), of env x True] by (simp add: storage_write_def err_defs)
  moreover have "db_of (set_item_data st1 p d2) (G(p := ?g)) = (db_of st G)(k \<mapsto> points_of (db_of st G) k @ [(t, y)])"
    using same_shape_db [OF ok p(1,2) w(4), of ?g] db_of_eq [OF mk p(1,2), of G] by (simp add: points_of_def series_def)
  ultimately show ?thesis using w(3) unfolding storage_good_def by metis
qed

lemma enc_all_first: "ps \<noteq> [] \<Longrightarrow> 64 \<le> length (enc_all None ps)"
  by (cases ps) (auto simp: nbits_def split: prod.splits)

text \<open>
  C37: The order of the time stamps is only checked inside a block. When the block in memory is full,
  \<^verbatim>\<open>storage_write\<close> accepts the next point of the series whatever its time stamp is, because \<^verbatim>\<open>tsc_add\<close> tests the
  room first and then the point goes into an empty block: a point older than all others is stored as the
  last one of the series.\<close>

theorem full_block_takes_any_time:
  assumes "storage_good st db" "p \<in> set (item_list st)" "key_is (items st p) k" "item_full (items st p)"
    and "unat klen = length k" "0 < sint t" "has_room st 1"
  shows "\<exists>st'. storage_write env st (k @ x) klen [(t, y)] = Some (0, st') \<and> storage_good st' (db(k \<mapsto> points_of db k @ [(t, y)]))"
  using write_full [OF _ assms(2-)] assms(1) by (auto simp: storage_good_def)

theorem full_block_takes_any_time_witness:
  "\<exists>st0 st1 st2. storage_init example_env 1000 28 [] ([], []) ([], []) = Some (0, Some st0) \<and>
     storage_write example_env st0 example_key 3 [(200, 5)] = Some (0, st1) \<and>
     storage_write example_env st1 example_key 3 [(100, 7)] = Some (0, st2) \<and> storage_good st2 [example_key \<mapsto> [(200, 5), (100, 7)]]"
proof -
  obtain st0 where st0: "storage_init example_env 1000 28 [] ([], []) ([], []) = Some (0, Some st0)" "storage_good st0 Map.empty"
    "initial_tsc_buf_size st0 = 28" "\<not> some_block_empty st0" "\<forall>n<1000. has_room st0 n"
    using init_empty [of 28 example_env 1000 "[]"] by (auto simp: has_room_def some_block_empty_def)
  have inc: "increasing (points_of Map.empty example_key @ [(200, 5)])"
    "\<forall>q\<in>set (points_of Map.empty example_key @ [(200, 5)]). 0 < sint (fst q) \<and> sint (fst q) < 2 ^ 31"
    by (simp_all add: points_of_def increasing_def)
  obtain st1 where st1: "storage_write example_env st0 example_key 3 [(200, 5)] = Some (0, st1)" "storage_good st1 [example_key \<mapsto> [(200, 5)]]"
    "\<not> some_block_empty st1" "has_room st1 1" "initial_tsc_buf_size st1 = 28"
    using storage_write_all [OF st0(2) example_env_ok example_key_ok _ _ inc, of "[]"] st0(3-5) by (auto simp: points_of_def)
  obtain G where G: "store_ok st1 G" "[example_key \<mapsto> [(200, 5)]] = db_of st1 G" using st1(2) by (auto simp: storage_good_def)
  obtain mk where mk: "keys_ok st1 mk" using G(1) by (auto simp: store_ok_def)
  have "db_of st1 G example_key \<noteq> None" unfolding G(2) [symmetric] by simp
  then obtain p where p: "p \<in> set (item_list st1)" "key_is (items st1 p) example_key"
    using db_of_None [of st1 example_key mk G] mk by metis
  have "snd (G p) \<noteq> []" using st1(3) p(1) block_empty_iff [OF G(1)] by blast
  from enc_all_first [OF this] have "item_full (items st1 p)" using item_facts [OF G(1) p(1)] st1(5) by (auto simp: item_full_def tsc_inv_def)
  from full_block_takes_any_time [OF st1(2) p this example_key_ok(2) _ st1(4), of 100 example_env "[]" 7]
  obtain st2 where "storage_write example_env st1 example_key 3 [(100, 7)] = Some (0, st2)" "storage_good st2 [example_key \<mapsto> [(200, 5), (100, 7)]]"
    by (auto simp: points_of_def)
  then show ?thesis using st0(1) st1(1) by blast
qed

end
