(* ===== verification/Storage_Lookup.thy ===== *)
theory Storage_Lookup
  imports Storage_Properties
begin

unbundle bit_operations_syntax

text \<open>
  The lookups of the storage: which keys an indexed lookup and a scan return, in terms of the keys of the
  database, and what the index of a label finds in a key.
\<close>

section \<open>Strings\<close>

lemma strlen_le: "strlen s \<le> length s"
  by (induction s) auto

lemma strcmp_eq_0: "strcmp a b = 0 \<longleftrightarrow> c_string a = c_string b"
proof (induction a b rule: strcmp.induct)
  case (2 b bs)
  then show ?case using uint_0_iff [of b] strlen_le [of bs] by (auto simp: c_string_def)
next
  case (3 a as)
  then show ?case using uint_0_iff [of a] strlen_le [of as] by (auto simp: c_string_def)
next
  case (4 a as b bs)
  then show ?case by (auto simp: c_string_def word_uint_eq_iff)
qed (simp add: c_string_def)

lemma strlen_zero: "0 \<notin> set s \<Longrightarrow> strlen (s @ 0 # x) = length s"
  by (induction s) auto

lemma c_string_zero: "0 \<notin> set s \<Longrightarrow> c_string (s @ 0 # x) = s"
  by (simp add: c_string_def strlen_zero)

section \<open>Results\<close>

text \<open>The encoding of a list of keys, and the keys that fit into a buffer.\<close>

definition enc_key :: "byte list \<Rightarrow> byte list" where
  "enc_key k = le_bytes (of_nat (length k) :: u16) @ k"

lemma enc_key_length [simp]: "length (enc_key k) = length k + 2"
  by (simp add: enc_key_def)

primrec fit :: "nat \<Rightarrow> byte list list \<Rightarrow> byte list list" where
  "fit n [] = []"
| "fit n (k # ks) = (if n < length k + 2 then [] else k # fit (n - (length k + 2)) ks)"

lemma fit_length: "length (concat (map enc_key (fit n ks))) \<le> n"
proof (induction ks arbitrary: n)
  case (Cons k ks)
  have "length (concat (map enc_key (fit (n - (length k + 2)) ks))) \<le> n - (length k + 2)" by (rule Cons)
  then show ?case by auto
qed simp

lemma fit_all: "length (concat (map enc_key ks)) \<le> n \<Longrightarrow> fit n ks = ks"
  by (induction ks arbitrary: n) auto

lemma fit_prefix: "fit n ks = take (length (fit n ks)) ks"
proof (induction ks arbitrary: n)
  case (Cons k ks)
  have "fit (n - (length k + 2)) ks = take (length (fit (n - (length k + 2)) ks)) ks" by (rule Cons)
  then show ?case by simp
qed simp

definition key_of :: "the_storage \<Rightarrow> ptr \<Rightarrow> byte list" where
  "key_of st p = take (unat (key_len (items st p))) (item_key (items st p))"

definition keyed :: "the_storage \<Rightarrow> ptr \<Rightarrow> bool" where
  "keyed st p \<longleftrightarrow> key_is (items st p) (key_of st p) \<and> key_of st p \<noteq> []"

lemma keyed_item:
  assumes "keys_ok st mk" "p \<in> set (item_list st)"
  shows "keyed st p"
  using assms by (auto simp: keys_ok_def key_stored_def keyed_def key_of_def key_is_def item_key_def)

lemma put_result_ok:
  assumes "keyed st p"
  shows "put_result (items st p) results room = Some (if room < length (key_of st p) + 2 then (ERR_BUF_TOO_SMALL, results, room)
    else (0, results @ enc_key (key_of st p), room - (length (key_of st p) + 2)))"
proof -
  have k: "item_key (items st p) = key_of st p @ [0]" "unat (key_len (items st p)) = length (key_of st p)" "key_of st p \<noteq> []"
    using assms by (auto simp: keyed_def key_is_def item_key_def)
  have "key_len (items st p) > 0" using k(2,3) by (metis length_greater_0_conv unat_gt_0 word_neq_0_conv)
  moreover have "(of_nat (length (key_of st p)) :: u16) = key_len (items st p)" unfolding k(2) [symmetric] by simp
  ultimately show ?thesis using k by (simp add: put_result_def enc_key_def Let_def)
qed

definition page_code :: "nat \<Rightarrow> byte list list \<Rightarrow> int" where
  "page_code n ks = (if fit n ks = ks then 0 else ERR_BUF_TOO_SMALL)"

lemma lookup_items_ok:
  assumes "\<forall>p\<in>set ps. keyed st p" and "ks = map (key_of st) (take limit (drop offset (filter (item_matches st matchers num) ps)))"
  shows "lookup_items st matchers num ps results room offset limit = Some (page_code room ks, results @ concat (map enc_key (fit room ks)))"
  using assms
proof (induction ps arbitrary: results room offset limit ks)
  case (Cons p ps)
  show ?case
  proof (cases "item_matches st matchers num p \<and> offset = 0 \<and> limit \<noteq> 0")
    case True
    then obtain l where l: "limit = Suc l" by (cases limit) auto
    let ?ks = "map (key_of st) (take l (filter (item_matches st matchers num) ps))" and ?k = "key_of st p"
    have ks: "ks = ?k # ?ks" using Cons.prems(2) True l by simp
    show ?thesis
    proof (cases "room < length ?k + 2")
      case False
      then show ?thesis using Cons.IH [of ?ks l 0 "results @ enc_key ?k" "room - (length ?k + 2)"] Cons.prems(1) True l ks
        put_result_ok [of st p results room] by (simp add: page_code_def)
    qed (use Cons.prems(1) True ks put_result_ok [of st p results room] in \<open>simp add: page_code_def err_defs\<close>)
  next
    case False
    then show ?thesis using Cons.IH [of _ limit "offset - 1"] Cons.IH [of _ limit offset] Cons.prems
      by (cases offset) (auto simp: page_code_def)
  qed
qed (simp add: page_code_def)

lemma scan_items_ok:
  assumes "\<forall>p\<in>set ps. keyed st p" and "qs = take limit (filter (item_matches st matchers num) ps)" "ks = map (key_of st) qs"
  shows "scan_items st matchers num ps results room last_id limit = Some (page_code room ks, results @ concat (map enc_key (fit room ks)),
    last (last_id # map (\<lambda>p. internal_id (items st p)) (take (length (fit room ks)) qs)))"
  using assms
proof (induction ps arbitrary: results room last_id limit ks qs)
  case (Cons p ps)
  show ?case
  proof (cases "item_matches st matchers num p \<and> limit \<noteq> 0")
    case True
    then obtain l where l: "limit = Suc l" by (cases limit) auto
    let ?qs = "take l (filter (item_matches st matchers num) ps)" and ?k = "key_of st p"
    have qs: "qs = p # ?qs" "ks = ?k # map (key_of st) ?qs" using Cons.prems(2,3) True l by simp_all
    show ?thesis
    proof (cases "room < length ?k + 2")
      case False
      then show ?thesis using Cons.IH [of ?qs l _ "results @ enc_key ?k" "room - (length ?k + 2)"] Cons.prems(1) True l qs
        put_result_ok [of st p results room] by (simp add: page_code_def)
    qed (use Cons.prems(1) True qs put_result_ok [of st p results room] in \<open>simp add: page_code_def err_defs\<close>)
  next
    case False
    then show ?thesis
    proof (cases "item_matches st matchers num p")
      case False
      then show ?thesis using Cons.IH [of qs limit ks results room last_id] Cons.prems by simp
    qed (use Cons.prems in \<open>simp add: page_code_def\<close>)
  qed
qed (simp add: page_code_def)

section \<open>The keys of the database\<close>

definition key_matches :: "byte list \<Rightarrow> nat \<Rightarrow> byte list \<Rightarrow> bool" where
  "key_matches matchers num k = extra_matchers_match (k @ [0]) (of_nat (length k)) matchers num"

text \<open>Whether a key has the given value in an index: its name, or the value of a label.\<close>

definition in_index :: "byte list list \<Rightarrow> nat \<Rightarrow> byte list \<Rightarrow> byte list \<Rightarrow> bool" where
  "in_index inds i v k = (if i = NAME_INDEX then c_string (k @ [0]) = c_string v
     else case get_key_value (k @ [0]) (length k) (inds ! (i - NUM_SPECIAL_INDICES)) of None \<Rightarrow> False | Some x \<Rightarrow> c_string x = c_string v)"

lemma dom_keys:
  assumes "keys_ok st mk"
  shows "dom (db_of st G) = key_of st ` set (item_list st)"
proof (intro set_eqI iffI)
  fix k assume "k \<in> dom (db_of st G)"
  then have "db_of st G k \<noteq> None" by blast
  then obtain p where "p \<in> set (item_list st)" "key_is (items st p) k" using db_of_None [of st k mk G] assms by metis
  then show "k \<in> key_of st ` set (item_list st)" by (intro image_eqI [of _ _ p]) (simp_all add: key_of_def key_is_def item_key_def)
next
  fix k assume "k \<in> key_of st ` set (item_list st)"
  then obtain p where "p \<in> set (item_list st)" "k = key_of st p" by blast
  then show "k \<in> dom (db_of st G)" using db_of_eq [OF assms] keyed_item [OF assms] by (auto simp: keyed_def)
qed

lemma inj_keys: "keys_ok st mk \<Longrightarrow> inj_on (key_of st) (set (item_list st))"
  using key_unique keyed_item by (intro inj_onI) (metis keyed_def)

lemma item_matches_key:
  assumes "keyed st p"
  shows "item_matches st matchers num p = key_matches matchers num (key_of st p)"
proof -
  have "item_key (items st p) = key_of st p @ [0]" "unat (key_len (items st p)) = length (key_of st p)"
    using assms by (auto simp: keyed_def key_is_def item_key_def)
  moreover from this(2) have "(of_nat (length (key_of st p)) :: u16) = key_len (items st p)" by (metis word_of_nat_eq_iff unsigned_of_nat ucast_id of_nat_unat)
  ultimately show ?thesis by (simp add: item_matches_def key_matches_def)
qed

lemma index_probe:
  assumes "keyed st p" "index_vals_ok (indices st) (items st p)" "lookup_probe st i v = Some probe"
  shows "storage_item_cmp probe (items st p) i = 0 \<longleftrightarrow> in_index (indices st) i v (key_of st p)"
proof -
  have k: "key (items st p) = Some (key_of st p @ [0])" "item_key (items st p) = key_of st p @ [0]" "unat (key_len (items st p)) = length (key_of st p)"
    using assms(1) by (auto simp: keyed_def key_is_def item_key_def)
  show ?thesis
  proof (cases "i = NAME_INDEX")
    case True
    then show ?thesis using k(1) assms(3) by (auto simp: lookup_probe_def storage_item_cmp_def in_index_def nullstrcmp_def strcmp_eq_0 index_defs)
  next
    case False
    then have i: "NUM_SPECIAL_INDICES \<le> i" "i - NUM_SPECIAL_INDICES < length (indices st)" using assms(3) by (auto simp: lookup_probe_def num_roots_def split: if_splits)
    have "index_val_at (items st p) (i - NUM_SPECIAL_INDICES) = get_key_value (key_of st p @ [0]) (length (key_of st p)) (indices st ! (i - NUM_SPECIAL_INDICES))"
      using assms(2) i k by (simp add: index_val_at_def index_vals_ok_def)
    moreover have "index_val probe = (replicate (length (indices st)) None)[i - NUM_SPECIAL_INDICES := Some v]"
      using assms(3) False i by (auto simp: lookup_probe_def split: if_splits)
    then have "index_val_at probe (i - NUM_SPECIAL_INDICES) = Some v" using i(2) by (simp add: index_val_at_def)
    moreover have "i \<noteq> INTERNAL_ID_INDEX" "i \<noteq> LFM_INDEX" using i(1) by (auto simp: index_defs)
    ultimately show ?thesis using False
      by (simp add: storage_item_cmp_def in_index_def nullstrcmp_def strcmp_eq_0 eq_commute [of "c_string v"] split: option.splits)
  qed
qed

section \<open>The lookups\<close>

lemma lookup_ok:
  assumes ok: "store_ok st G" and n: "length (item_list st) < 2 ^ 63" and i: "i = NAME_INDEX \<or> NUM_SPECIAL_INDICES \<le> i \<and> i < num_roots st"
  shows "\<exists>ks. distinct ks \<and> set ks = {k \<in> dom (db_of st G). in_index (indices st) i v k \<and> key_matches matchers num k} \<and>
    (\<forall>room offset limit. storage_lookup st i v matchers num room offset limit =
       Some (page_code room (take limit (drop offset ks)), concat (map enc_key (fit room (take limit (drop offset ks))))))"
proof -
  obtain mk where mk: "keys_ok st mk" and l: "lists_ok st" using ok by (auto simp: store_ok_def)
  have "lookup_probe st i v \<noteq> None" using i by (auto simp: lookup_probe_def)
  then obtain probe where pr: "lookup_probe st i v = Some probe" by blast
  have "i < num_roots st" using i special_index(3) by auto
  then have t: "item_index (item_cmp (items st) i) (root st ! i)" "tree_set (root st ! i) = set (item_list st)"
    using l by (simp_all add: lists_ok_def indices_ok_def)
  have d: "distinct (inorder (root st ! i))" using t(1) ix.sorted_distinct [of "items st" i "inorder (root st ! i)"] by (simp add: item_index_def)
  have "length (inorder (root st ! i)) = length (item_list st)"
    using t(2) d l distinct_card [of "inorder (root st ! i)"] distinct_card [of "item_list st"] by (simp add: tree_set_def lists_ok_def)
  then obtain it where it: "it_init_full (root st ! i) 1 (Some (probe_cmp (items st) i probe)) = Some it"
    "it_all it = Some [x \<leftarrow> inorder (root st ! i). probe_cmp (items st) i probe x = 0]"
    using ix.walk_ok [OF t(1), of "Some (probe_cmp (items st) i probe)"] n search_key_probe by (auto simp: key_ok_def visit_def)
  define ps where "ps = [x \<leftarrow> inorder (root st ! i). probe_cmp (items st) i probe x = 0]"
  define qs where "qs = filter (item_matches st matchers num) ps"
  have keyed: "\<forall>p\<in>set ps. keyed st p" using keyed_item [OF mk] t(2) by (auto simp: ps_def tree_set_def)
  have sub: "set qs \<subseteq> set (item_list st)" using t(2) by (auto simp: qs_def ps_def tree_set_def)
  have "set qs = {p \<in> set (item_list st). in_index (indices st) i v (key_of st p) \<and> key_matches matchers num (key_of st p)}"
    using t(2) l index_probe [OF keyed_item [OF mk] _ pr] item_matches_key [OF keyed_item [OF mk]]
    by (auto simp: qs_def ps_def tree_set_def lists_ok_def probe_cmp_def)
  then have "set (map (key_of st) qs) = {k \<in> dom (db_of st G). in_index (indices st) i v k \<and> key_matches matchers num k}"
    unfolding dom_keys [OF mk] by auto
  moreover have "distinct (map (key_of st) qs)"
    using d inj_on_subset [OF inj_keys [OF mk] sub] by (simp add: distinct_map qs_def ps_def)
  moreover have "storage_lookup st i v matchers num room offset limit = Some (page_code room (take limit (drop offset (map (key_of st) qs))),
      concat (map enc_key (fit room (take limit (drop offset (map (key_of st) qs))))))" for room offset limit
    using lookup_items_ok [OF keyed refl, of matchers num "[]" room offset limit] pr it
    by (simp add: storage_lookup_def it_init_on_equal_def ps_def [symmetric] qs_def take_map drop_map)
  ultimately show ?thesis by blast
qed

lemma find_id:
  assumes l: "lists_ok st" and mk: "keys_ok st mk" and p: "p \<in> set (item_list st)"
  shows "find_member_or_nearest_lesser (probe_cmp (items st) INTERNAL_ID_INDEX (id_probe (internal_id (items st p)))) (root st ! INTERNAL_ID_INDEX) = Some p"
proof -
  let ?i = INTERNAL_ID_INDEX and ?probe = "id_probe (internal_id (items st p))"
  have t: "sorted_wrt (goes_left (item_cmp (items st) ?i)) (inorder (root st ! ?i))" "tree_set (root st ! ?i) = set (item_list st)"
    using l special_index(1) by (auto simp: lists_ok_def indices_ok_def item_index_def)
  have c: "storage_item_cmp ?probe (items st p) ?i = 0" using cmp_id_probe by blast
  note nl = ix.nearest_lesser_loop_ok [OF t(1) search_key_probe, of ?probe None]
  show ?thesis
  proof (cases "find_member_or_nearest_lesser (probe_cmp (items st) ?i ?probe) (root st ! ?i)")
    case None
    then show ?thesis using nl c t(2) p by (auto simp: find_member_or_nearest_lesser_def probe_cmp_def)
  next
    case (Some q)
    then have "nearest (item_cmp (items st) ?i) (probe_cmp (items st) ?i ?probe) (set (item_list st)) q"
      using nl t(2) by (auto simp: find_member_or_nearest_lesser_def)
    then have q: "q \<in> set (item_list st)" "storage_item_cmp ?probe (items st q) ?i = 0" using p c by (auto simp: nearest_def probe_cmp_def)
    then have "internal_id (items st q) = internal_id (items st p)" by (simp add: cmp_id_probe)
    moreover have "inj_on (\<lambda>p. internal_id (items st p)) (set (item_list st))" using mk by (simp add: keys_ok_def)
    ultimately have "q = p" using q(1) p by (simp add: inj_on_def)
    then show ?thesis using Some by simp
  qed
qed

lemma items_after_append: "p \<notin> set xs \<Longrightarrow> items_after (xs @ p # ys) p = ys"
  by (induction xs) (auto simp: items_after_def)

lemma filter_after:
  assumes "distinct xs" "j < length (filter P xs)"
  obtains us vs where "xs = us @ filter P xs ! j # vs" "filter P xs ! j \<notin> set us" "filter P vs = drop (Suc j) (filter P xs)"
proof -
  define q where "q = filter P xs ! j"
  have q: "q \<in> set xs" "P q" using nth_mem [OF assms(2)] by (auto simp: q_def)
  obtain us vs where u: "xs = us @ q # vs" using split_list [OF q(1)] by blast
  then have f: "filter P xs = filter P us @ q # filter P vs" using q(2) by simp
  then have "filter P xs ! length (filter P us) = q" "length (filter P us) < length (filter P xs)" by simp_all
  then have j: "length (filter P us) = j" using assms unfolding q_def by (simp add: nth_eq_iff_index_eq)
  have "q \<notin> set us" using assms(1) u by simp
  moreover have "filter P vs = drop (Suc j) (filter P xs)" unfolding j [symmetric] f by simp
  ultimately show thesis using that u unfolding q_def by blast
qed

lemma last_of_page:
  assumes "m \<le> length (take l (drop i xs))"
  shows "last ((c # map f xs) ! i # map f (take m (take l (drop i xs)))) = (c # map f xs) ! (i + m)"
proof (cases m)
  case (Suc n)
  let ?ys = "take m (take l (drop i xs))"
  have n: "i + n < length xs" "n < l" "?ys \<noteq> []" "length ?ys = Suc n" using assms Suc by auto
  then have "last (map f ?ys) = f (?ys ! n)" by (simp add: last_map last_conv_nth)
  also have "\<dots> = f (xs ! (i + n))" using n Suc by simp
  finally show ?thesis using n Suc by simp
qed simp

lemma scan_ok:
  assumes ok: "store_ok st G"
  shows "\<exists>ks ids. distinct ks \<and> set ks = {k \<in> dom (db_of st G). key_matches matchers num k} \<and> length ids = length ks \<and> 0 \<notin> set ids \<and>
    (\<forall>i room limit. i \<le> length ks \<longrightarrow> storage_lookup_without_index st matchers num room ((0 # ids) ! i) limit =
       Some (page_code room (take limit (drop i ks)), concat (map enc_key (fit room (take limit (drop i ks)))),
         (0 # ids) ! (i + length (fit room (take limit (drop i ks))))))"
proof -
  obtain mk where mk: "keys_ok st mk" and l: "lists_ok st" using ok by (auto simp: store_ok_def)
  have keyed: "keyed st p" if "p \<in> set (item_list st)" for p by (rule keyed_item [OF mk that])
  let ?f = "filter (item_matches st matchers num)"
  define qs where "qs = ?f (item_list st)"
  define ids where "ids = map (\<lambda>p. internal_id (items st p)) qs"
  have "set qs = {p \<in> set (item_list st). key_matches matchers num (key_of st p)}" using item_matches_key [OF keyed] by (auto simp: qs_def)
  then have "set (map (key_of st) qs) = {k \<in> dom (db_of st G). key_matches matchers num k}" unfolding dom_keys [OF mk] by auto
  moreover have "inj_on (key_of st) (set qs)" by (rule inj_on_subset [OF inj_keys [OF mk]]) (auto simp: qs_def)
  then have "distinct (map (key_of st) qs)" using l by (simp add: distinct_map qs_def lists_ok_def)
  moreover have "0 \<notin> set ids" using mk by (auto simp: ids_def qs_def keys_ok_def)
  moreover have "storage_lookup_without_index st matchers num room ((0 # ids) ! i) limit =
       Some (page_code room (take limit (drop i (map (key_of st) qs))), concat (map enc_key (fit room (take limit (drop i (map (key_of st) qs))))),
         (0 # ids) ! (i + length (fit room (take limit (drop i (map (key_of st) qs))))))" if i: "i \<le> length qs" for i room limit
  proof -
    obtain ps where ps: "?f ps = drop i qs" "set ps \<subseteq> set (item_list st)"
      "storage_lookup_without_index st matchers num room ((0 # ids) ! i) limit = scan_items st matchers num ps [] room ((0 # ids) ! i) limit"
    proof (cases i)
      case 0
      then show thesis by (intro that [of "item_list st"]) (simp_all add: qs_def storage_lookup_without_index_def)
    next
      case (Suc j)
      then have j: "j < length qs" "qs ! j \<in> set (item_list st)" using i nth_mem [of j qs] by (auto simp: qs_def)
      obtain us vs where u: "item_list st = us @ qs ! j # vs" "qs ! j \<notin> set us" "?f vs = drop i qs"
        using filter_after [of "item_list st" j "item_matches st matchers num"] j(1) l Suc unfolding qs_def lists_ok_def by blast
      have "ids ! j = internal_id (items st (qs ! j))" "internal_id (items st (qs ! j)) \<noteq> 0"
        using j mk by (auto simp: ids_def keys_ok_def)
      then have "storage_lookup_without_index st matchers num room ((0 # ids) ! i) limit = scan_items st matchers num vs [] room ((0 # ids) ! i) limit"
        using Suc find_id [OF l mk j(2)] items_after_append [OF u(2), of vs] unfolding u(1) [symmetric] by (simp add: storage_lookup_without_index_def)
      moreover have "set vs \<subseteq> set (item_list st)" by (subst u(1)) auto
      ultimately show thesis using u(3) by (intro that [of vs]) simp_all
    qed
    let ?qs = "take limit (drop i qs)" let ?n = "length (fit room (map (key_of st) ?qs))"
    have "?n \<le> length ?qs" using fit_prefix [of room "map (key_of st) ?qs"] by (metis length_map length_take min.cobounded1 min.commute)
    then have "last ((0 # ids) ! i # map (\<lambda>p. internal_id (items st p)) (take ?n ?qs)) = (0 # ids) ! (i + ?n)"
      unfolding ids_def by (rule last_of_page)
    then show ?thesis using ps scan_items_ok [OF _ refl refl, of ps st matchers num "[]" room "(0 # ids) ! i"] keyed
      by (simp add: take_map drop_map subset_iff)
  qed
  ultimately show ?thesis by (intro exI [of _ "map (key_of st) qs"] exI [of _ ids]) (simp add: ids_def)
qed

section \<open>Labels\<close>

text \<open>
  The keys that clients build: a name and pairs of a label and a value, the strings separated by zero bytes.
  Behind the last one the item has a zero byte, too.
\<close>

definition enc_strs :: "byte list list \<Rightarrow> byte list" where
  "enc_strs ss = concat (map (\<lambda>s. s @ [0]) ss)"

lemma enc_strs_simps [simp]: "enc_strs [] = []" "enc_strs (s # ss) = s @ 0 # enc_strs ss"
  by (simp_all add: enc_strs_def)

primrec label_strs :: "(byte list \<times> byte list) list \<Rightarrow> byte list list" where
  "label_strs [] = []"
| "label_strs (e # es) = fst e # snd e # label_strs es"

definition key_strs :: "byte list \<Rightarrow> (byte list \<times> byte list) list \<Rightarrow> byte list list" where
  "key_strs name ls = name # label_strs ls"

definition labels_key :: "byte list \<Rightarrow> (byte list \<times> byte list) list \<Rightarrow> byte list" where
  "labels_key name ls = butlast (enc_strs (key_strs name ls))"

definition plain :: "byte list \<Rightarrow> bool" where
  "plain s \<longleftrightarrow> 0 \<notin> set s"

lemma enc_last: "ss \<noteq> [] \<Longrightarrow> enc_strs ss \<noteq> [] \<and> last (enc_strs ss) = 0"
proof (induction ss)
  case (Cons s ss)
  then show ?case by (cases ss) auto
qed simp

lemma labels_key_zero: "labels_key name ls @ [0] = enc_strs (key_strs name ls)"
  using enc_last [of "key_strs name ls"] append_butlast_last_id [of "enc_strs (key_strs name ls)"]
  by (simp add: labels_key_def key_strs_def)

lemma c_string_plain: "plain s \<Longrightarrow> c_string s = s"
  by (induction s) (auto simp: c_string_def plain_def)

lemma c_string_str: "plain s \<Longrightarrow> c_string (s @ 0 # x) = s" "plain s \<Longrightarrow> strlen (s @ 0 # x) = length s"
  by (simp_all add: plain_def c_string_zero strlen_zero)

lemma get_key_value_labels:
  assumes "lfm = u @ enc_strs (label_strs ls)" "length u = off" "Suc n = length lfm" "odd i" "plain l"
    and "\<forall>(l, v)\<in>set ls. plain l \<and> plain v \<and> v \<noteq> []"
  shows "case map_of ls l of None \<Rightarrow> get_key_value_loop lfm n l off i False = None
    | Some v \<Rightarrow> \<exists>x. get_key_value_loop lfm n l off i False = Some x \<and> c_string x = v"
  using assms
proof (induction ls arbitrary: u off i)
  case Nil
  then show ?case by (simp add: get_key_value_loop.simps)
next
  case (Cons e ls)
  obtain l' v where e: "e = (l', v)" by (cases e)
  let ?off = "off + length l' + 1"
  have p: "plain l'" "plain v" "v \<noteq> []" using Cons.prems(6) e by auto
  have d: "drop off lfm = l' @ 0 # v @ 0 # enc_strs (label_strs ls)" "drop ?off lfm = v @ 0 # enc_strs (label_strs ls)"
    using Cons.prems(1,2) e by simp_all
  have n: "\<not> n \<le> off" "\<not> n \<le> ?off" using Cons.prems(1-3) e p(3) by (cases v; simp)+
  have 1: "get_key_value_loop lfm n l off i False = get_key_value_loop lfm n l ?off (i + 1) (l' = l)"
    using n(1) d(1) Cons.prems(4,5) p(1)
    by (subst get_key_value_loop.simps) (simp add: c_string_str c_string_plain strcmp_eq_0 odd_iff_mod_2_eq_one)
  show ?case
  proof (cases "l' = l")
    case True
    have "get_key_value_loop lfm n l ?off (i + 1) True = Some (drop ?off lfm)" using n(2) by (subst get_key_value_loop.simps) simp
    then show ?thesis using 1 d(2) True e p(2) by (simp add: c_string_str)
  next
    case False
    have "\<not> (i + 1) mod 2 = 1" using Cons.prems(4) by presburger
    then have "get_key_value_loop lfm n l ?off (i + 1) False = get_key_value_loop lfm n l (?off + length v + 1) (i + 2) False"
      using n(2) d(2) p(2) by (subst get_key_value_loop.simps) (simp add: c_string_str)
    then have eq: "get_key_value_loop lfm n l off i False = get_key_value_loop lfm n l (?off + length v + 1) (i + 2) False" using 1 False by simp
    have "case map_of ls l of None \<Rightarrow> get_key_value_loop lfm n l (?off + length v + 1) (i + 2) False = None
      | Some v' \<Rightarrow> \<exists>x. get_key_value_loop lfm n l (?off + length v + 1) (i + 2) False = Some x \<and> c_string x = v'"
      by (rule Cons.IH [of "u @ l' @ 0 # v @ [0]"]) (use Cons.prems e in auto)
    then show ?thesis unfolding eq using False e by simp
  qed
qed

lemma get_key_value_ok:
  assumes "plain name" "name \<noteq> []" "\<forall>(l, v)\<in>set ls. plain l \<and> plain v \<and> v \<noteq> []" "plain l"
  shows "map_option c_string (get_key_value (labels_key name ls @ [0]) (length (labels_key name ls)) l) = map_of ls l"
proof -
  let ?k = "labels_key name ls" let ?lfm = "?k @ [0]"
  have k: "?lfm = (name @ [0]) @ enc_strs (label_strs ls)" by (simp add: labels_key_zero key_strs_def)
  have n: "\<not> length ?k \<le> 0" using arg_cong [OF k, of length] assms(2) by simp
  have d: "strlen ?lfm = length name" using assms(1) unfolding k by (simp add: c_string_str)
  have "get_key_value ?lfm (length ?k) l = get_key_value_loop ?lfm (length ?k) l (length (name @ [0])) 1 False"
    unfolding get_key_value_def using n d by (subst get_key_value_loop.simps) simp
  then show ?thesis using get_key_value_labels [OF k refl _ _ assms(4,3), of "length ?k" 1] by (auto split: option.splits)
qed

section \<open>Matchers\<close>

lemma first_zero:
  assumes "plain l" "plain s"
  shows "l @ 0 # x = s @ 0 # y \<longleftrightarrow> l = s \<and> x = y"
  using assms
proof (induction l arbitrary: s)
  case Nil
  then show ?case by (cases s) (auto simp: plain_def)
next
  case (Cons a l)
  then show ?case by (cases s) (auto simp: plain_def)
qed

lemma starts_with: "take (length ndl) hs = ndl \<longleftrightarrow> (\<exists>z. hs = ndl @ z)"
  by (metis append_eq_conv_conj append_take_drop_id)

lemma zero_prefix:
  assumes "plain l" "plain s"
  shows "(\<exists>z. s @ 0 # x = (l @ 0 # v @ [0]) @ z) \<longleftrightarrow> l = s \<and> (\<exists>z. x = v @ 0 # z)"
proof -
  have "s @ 0 # x = (l @ 0 # v @ [0]) @ z \<longleftrightarrow> l = s \<and> x = v @ 0 # z" for z
    using first_zero [OF assms, of "v @ 0 # z" x] by (simp add: eq_commute)
  then show ?thesis by simp
qed

text \<open>Where \<^verbatim>\<open>memmem\<close> finds a label and a value, each followed by a zero, in a sequence of strings.\<close>

lemma memmem_string:
  assumes "plain l" "plain s"
  shows "memmem (s @ 0 # x) (l @ 0 # v @ [0]) \<longleftrightarrow> (\<exists>a. s = a @ l) \<and> (\<exists>z. x = v @ 0 # z) \<or> memmem x (l @ 0 # v @ [0])"
  using assms(2)
proof (induction s)
  case Nil
  have "(\<exists>z. 0 # x = (l @ 0 # v @ [0]) @ z) \<longleftrightarrow> l = [] \<and> (\<exists>z. x = v @ 0 # z)"
    using zero_prefix [OF assms(1) Nil, of x v] by (simp only: append_Nil)
  then show ?case unfolding append_Nil memmem.simps starts_with by auto
next
  case (Cons c s)
  have "plain s" using Cons.prems by (simp add: plain_def)
  moreover have "(\<exists>z. c # s @ 0 # x = (l @ 0 # v @ [0]) @ z) \<longleftrightarrow> l = c # s \<and> (\<exists>z. x = v @ 0 # z)"
    using zero_prefix [OF assms(1) Cons.prems, of x v] by (simp only: append_Cons)
  moreover have "(\<exists>a. c # s = a @ l) \<longleftrightarrow> l = c # s \<or> (\<exists>a. s = a @ l)" by (auto simp: Cons_eq_append_conv)
  ultimately show ?case using Cons.IH unfolding append_Cons memmem.simps starts_with by blast
qed

lemma enc_starts:
  assumes "plain v" "\<forall>s\<in>set ss. plain s"
  shows "(\<exists>z. enc_strs ss = v @ 0 # z) \<longleftrightarrow> (\<exists>post. ss = v # post)"
proof (cases ss)
  case (Cons s post)
  then have s: "plain s" using assms(2) by simp
  have "enc_strs ss = v @ 0 # z \<longleftrightarrow> s = v \<and> z = enc_strs post" for z
    using Cons first_zero [OF s assms(1), of "enc_strs post" z] by auto
  then show ?thesis using Cons by simp
qed simp

definition adjacent :: "byte list list \<Rightarrow> byte list \<Rightarrow> byte list \<Rightarrow> bool" where
  "adjacent ss l v \<longleftrightarrow> (\<exists>pre s a post. ss = pre @ s # v # post \<and> s = a @ l)"

lemma adjacent_Cons: "adjacent (s # ss) l v \<longleftrightarrow> (\<exists>a. s = a @ l) \<and> (\<exists>post. ss = v # post) \<or> adjacent ss l v"
  by (auto simp: adjacent_def Cons_eq_append_conv)

lemma memmem_strings:
  assumes "plain l" "plain v" "\<forall>s\<in>set ss. plain s"
  shows "memmem (enc_strs ss) (l @ 0 # v @ [0]) \<longleftrightarrow> adjacent ss l v"
  using assms(3)
proof (induction ss)
  case Nil
  then show ?case by (simp add: adjacent_def)
next
  case (Cons s ss)
  then show ?case using memmem_string [OF assms(1), of s "enc_strs ss" v] enc_starts [OF assms(2), of ss] by (simp add: adjacent_Cons)
qed

text \<open>A matcher on a key: \<open>__name__\<close> stands for the name.\<close>

definition matcher_holds :: "byte list \<Rightarrow> (byte list \<times> byte list) list \<Rightarrow> byte list \<times> byte list \<Rightarrow> bool" where
  "matcher_holds name ls m = (if fst m = c_string name_label then snd m = name else adjacent (key_strs name ls) (fst m) (snd m))"

lemma matchers_ok:
  assumes "plain name" "\<forall>(l, v)\<in>set ls. plain l \<and> plain v" "\<forall>(l, v)\<in>set ms. plain l \<and> plain v" "unat klen = length (labels_key name ls)"
  shows "extra_matchers_match (labels_key name ls @ [0]) klen (enc_strs (label_strs ms) @ x) (length ms) \<longleftrightarrow> (\<forall>m\<in>set ms. matcher_holds name ls m)"
  using assms(3)
proof (induction ms)
  case (Cons m ms)
  obtain l v where m: "m = (l, v)" "plain l" "plain v" using Cons.prems by (cases m) auto
  have ss: "\<forall>s\<in>set (key_strs name ls). plain s" using assms(1,2) by (induction ls) (auto simp: key_strs_def)
  have name: "c_string (labels_key name ls @ [0]) = name" unfolding labels_key_zero using assms(1) by (simp add: key_strs_def c_string_str)
  have "take (unat klen + 1) (labels_key name ls @ [0]) = enc_strs (key_strs name ls)" unfolding labels_key_zero [symmetric] using assms(4) by simp
  then have mm: "memmem (take (unat klen + 1) (labels_key name ls @ [0])) (l @ 0 # v @ [0]) \<longleftrightarrow> adjacent (key_strs name ls) l v"
    using memmem_strings [OF m(2,3) ss] by simp
  let ?r = "enc_strs (label_strs ms) @ x"
  have str: "strcmp (l @ 0 # v @ 0 # ?r) name_label = 0 \<longleftrightarrow> l = c_string name_label"
    "strcmp (labels_key name ls @ [0]) (v @ 0 # ?r) = 0 \<longleftrightarrow> v = name" "strlen (l @ 0 # v @ 0 # ?r) = length l" "strlen (v @ 0 # ?r) = length v"
    using m name by (auto simp: c_string_str strcmp_eq_0)
  have "enc_strs (label_strs (m # ms)) @ x = l @ 0 # v @ 0 # ?r" "drop (length l + 1) (l @ 0 # v @ 0 # ?r) = v @ 0 # ?r"
    "drop (length v + 1) (v @ 0 # ?r) = ?r" "take (length l + 1 + (length v + 1)) (l @ 0 # v @ 0 # ?r) = l @ 0 # v @ [0]" using m(1) by simp_all
  then have "extra_matchers_match (labels_key name ls @ [0]) klen (enc_strs (label_strs (m # ms)) @ x) (length (m # ms)) \<longleftrightarrow>
      matcher_holds name ls m \<and> extra_matchers_match (labels_key name ls @ [0]) klen ?r (length ms)"
    using m(1) by (simp only: list.size add_Suc_right add_0_right extra_matchers_match.simps Let_def str mm matcher_holds_def fst_conv snd_conv)
  then show ?case using Cons by simp
qed simp

section \<open>Properties\<close>

lemma only_element:
  assumes "distinct xs" "set xs = {x}"
  shows "xs = [x]"
proof (cases xs)
  case (Cons y ys)
  then have "y = x" "set ys \<subseteq> {x}" "x \<notin> set ys" using assms by auto
  then have "set ys = {}" using subset_singletonD by fastforce
  then show ?thesis using Cons \<open>y = x\<close> by simp
qed (use assms in simp)

text \<open>
  C28: An indexed lookup is exact. For the name index and every label index there is one list of keys, without
  duplicates, of exactly those keys of the database that have the value in the index and satisfy the
  matchers; each call returns the encoding of its part from \<^verbatim>\<open>offset\<close>, of at most \<^verbatim>\<open>limit\<close> keys, so that successive
  calls page through all of them. When the buffer is too small, the keys that fit and
  \<^verbatim>\<open>ERR_BUF_TOO_SMALL\<close> are returned. Any other index is reported as \<^verbatim>\<open>ERR_BAD_INDEX\<close>.\<close>

theorem storage_lookup_correct:
  assumes "storage_good st db" "length (item_list st) < 2 ^ 63"
  shows "if index_num = NAME_INDEX \<or> NUM_SPECIAL_INDICES \<le> index_num \<and> index_num < num_roots st
    then \<exists>ks. distinct ks \<and> set ks = {k \<in> dom db. in_index (indices st) index_num v k \<and> key_matches matchers num k} \<and>
      (\<forall>room offset limit. storage_lookup st index_num v matchers num room offset limit =
         Some (page_code room (take limit (drop offset ks)), concat (map enc_key (fit room (take limit (drop offset ks))))))
    else storage_lookup st index_num v matchers num room offset limit = Some (ERR_BAD_INDEX, [])"
proof -
  obtain G where "store_ok st G" "db = db_of st G" using assms(1) by (auto simp: storage_good_def)
  then show ?thesis using lookup_ok [of st G index_num v matchers num] assms(2) by (auto simp: storage_lookup_def lookup_probe_def)
qed

theorem storage_lookup_correct_witness:
  "\<exists>st1. storage_write example_env example_storage example_key 3 example_points = Some (0, st1) \<and>
     storage_lookup st1 NAME_INDEX (example_key @ [0]) [] 0 100 0 10 = Some (0, [3, 0, 99, 112, 117])"
proof -
  obtain st1 where w: "storage_write example_env example_storage example_key 3 example_points = Some (0, st1)"
    "storage_good st1 [example_key \<mapsto> example_points]" "length (item_list st1) \<le> 1" using example_written by blast
  have "length (item_list st1) < 2 ^ 63" using w(3) by simp
  note c = storage_lookup_correct [OF w(2) this, of NAME_INDEX "example_key @ [0]" "[]" 0 100 0 10]
  have "{k \<in> dom [example_key \<mapsto> example_points]. in_index (indices st1) NAME_INDEX (example_key @ [0]) k \<and> key_matches [] 0 k} = {example_key}"
    by (auto simp: in_index_def key_matches_def)
  with c obtain ks where ks: "distinct ks" "set ks = {example_key}"
    "storage_lookup st1 NAME_INDEX (example_key @ [0]) [] 0 100 0 10 = Some (page_code 100 (take 10 ks), concat (map enc_key (fit 100 (take 10 ks))))"
    by auto
  have "ks = [example_key]" by (rule only_element [OF ks(1,2)])
  moreover have "le_bytes (3 :: u16) = [3, 0]" by code_simp
  ultimately show ?thesis using w(1) ks(3) by (simp add: example_key_def page_code_def enc_key_def)
qed

text \<open>
  C29: A scan without an index is exact and can be continued. There is one list of all keys that satisfy the
  matchers, without duplicates, and a list of identifiers for the positions in it; a call with
  identifier zero starts at the beginning, and a call with the identifier that another one returned
  continues behind the last key that one returned.\<close>

theorem storage_scan_correct:
  assumes "storage_good st db"
  shows "\<exists>ks ids. distinct ks \<and> set ks = {k \<in> dom db. key_matches matchers num k} \<and> length ids = length ks \<and> 0 \<notin> set ids \<and>
    (\<forall>i room limit. i \<le> length ks \<longrightarrow> storage_lookup_without_index st matchers num room ((0 # ids) ! i) limit =
       Some (page_code room (take limit (drop i ks)), concat (map enc_key (fit room (take limit (drop i ks)))),
         (0 # ids) ! (i + length (fit room (take limit (drop i ks))))))"
proof -
  obtain G where "store_ok st G" "db = db_of st G" using assms by (auto simp: storage_good_def)
  then show ?thesis using scan_ok [of st G matchers num] by simp
qed

theorem storage_scan_correct_witness:
  "\<exists>st1 iid. storage_write example_env example_storage example_key 3 example_points = Some (0, st1) \<and>
     storage_lookup_without_index st1 [] 0 100 0 10 = Some (0, [3, 0, 99, 112, 117], iid) \<and>
     storage_lookup_without_index st1 [] 0 100 iid 10 = Some (0, [], iid)"
proof -
  obtain st1 where w: "storage_write example_env example_storage example_key 3 example_points = Some (0, st1)"
    "storage_good st1 [example_key \<mapsto> example_points]" using example_written by blast
  have "{k \<in> dom [example_key \<mapsto> example_points]. key_matches [] 0 k} = {example_key}" by (auto simp: key_matches_def)
  then obtain ks ids where ks: "distinct ks" "set ks = {example_key}" "length ids = length ks"
    "\<forall>i room limit. i \<le> length ks \<longrightarrow> storage_lookup_without_index st1 [] 0 room ((0 # ids) ! i) limit =
       Some (page_code room (take limit (drop i ks)), concat (map enc_key (fit room (take limit (drop i ks)))),
         (0 # ids) ! (i + length (fit room (take limit (drop i ks)))))"
    using storage_scan_correct [OF w(2), of "[]" 0] by auto
  have k: "ks = [example_key]" by (rule only_element [OF ks(1,2)])
  have "le_bytes (3 :: u16) = [3, 0]" by code_simp
  then have "storage_lookup_without_index st1 [] 0 100 0 10 = Some (0, [3, 0, 99, 112, 117], ids ! 0)"
    using ks(4) [rule_format, of 0 100 10] k by (simp add: example_key_def page_code_def enc_key_def)
  moreover have "storage_lookup_without_index st1 [] 0 100 (ids ! 0) 10 = Some (0, [], ids ! 0)"
    using ks(4) [rule_format, of 1 100 10] k by (simp add: page_code_def)
  ultimately show ?thesis using w(1) by blast
qed

text \<open>
  \<^verbatim>\<open>get_key_value\<close>, which fills the label indices, finds in a key with a name and non-empty values the value of
  the first label of the given name, and nothing if there is none.\<close>

theorem get_key_value_correct:
  assumes "plain name" "name \<noteq> []" "\<forall>(l, v)\<in>set ls. plain l \<and> plain v \<and> v \<noteq> []" "plain l"
  shows "map_option c_string (get_key_value (labels_key name ls @ [0]) (length (labels_key name ls)) l) = map_of ls l"
  by (rule get_key_value_ok [OF assms])

definition example_labels :: "(byte list \<times> byte list) list" where
  "example_labels = [([109, 121, 104, 111, 115, 116], [119, 101, 98])]"

theorem get_key_value_correct_witness:
  "map_option c_string (get_key_value [99, 112, 117, 0, 109, 121, 104, 111, 115, 116, 0, 119, 101, 98, 0] 14 [109, 121, 104, 111, 115, 116]) = Some [119, 101, 98]"
proof -
  have k: "labels_key [99, 112, 117] example_labels @ [0] = [99, 112, 117, 0, 109, 121, 104, 111, 115, 116, 0, 119, 101, 98, 0]"
    "length (labels_key [99, 112, 117] example_labels) = 14"
    by (simp_all add: example_labels_def labels_key_def key_strs_def)
  show ?thesis using get_key_value_correct [of "[99, 112, 117]" example_labels "[109, 121, 104, 111, 115, 116]"] unfolding k
    by (simp add: plain_def example_labels_def)
qed

text \<open>
  What the matchers of a lookup select. A key satisfies all matchers exactly if for each of them, either its
  label is \<^verbatim>\<open>__name__\<close> and its value is the name of the key, or there are two adjacent strings in the
  key of which the first ends with the label and the second is the value. So a matcher for a label also
  accepts keys with another label that merely ends in the same way (the witness: \<^verbatim>\<open>host=web\<close> accepts a
  key with \<^verbatim>\<open>myhost=web\<close> only), or with a value in the place of the label.\<close>

theorem extra_matchers_correct:
  assumes "plain name" "\<forall>(l, v)\<in>set ls. plain l \<and> plain v" "\<forall>(l, v)\<in>set ms. plain l \<and> plain v" "unat klen = length (labels_key name ls)"
  shows "extra_matchers_match (labels_key name ls @ [0]) klen (enc_strs (label_strs ms) @ x) (length ms) \<longleftrightarrow>
    (\<forall>(l, v)\<in>set ms. if l = c_string name_label then v = name
       else \<exists>pre s a post. key_strs name ls = pre @ s # v # post \<and> s = a @ l)"
  using matchers_ok [OF assms] by (simp add: matcher_holds_def adjacent_def case_prod_beta)

theorem extra_matchers_correct_witness:
  "extra_matchers_match [99, 112, 117, 0, 109, 121, 104, 111, 115, 116, 0, 119, 101, 98, 0] 14 [104, 111, 115, 116, 0, 119, 101, 98, 0] 1"
proof -
  have "\<exists>pre s a post. key_strs [99, 112, 117] example_labels = pre @ s # [119, 101, 98] # post \<and> s = a @ [104, 111, 115, 116]"
    by (intro exI [of _ "[[99, 112, 117]]"] exI [of _ "[109, 121, 104, 111, 115, 116]"] exI [of _ "[109, 121]"] exI [of _ "[]"])
      (simp add: key_strs_def example_labels_def)
  moreover have "[104, 111, 115, 116] \<noteq> c_string name_label" by (simp add: name_label_def c_string_def)
  ultimately show ?thesis
    using extra_matchers_correct [of "[99, 112, 117]" example_labels "[([104, 111, 115, 116], [119, 101, 98])]" 14 "[]"]
    by (simp add: plain_def example_labels_def labels_key_def key_strs_def)
qed

end
