(* ===== verification/Conn_Data.thy ===== *)
theory Conn_Data
  imports Conn_Handler Stream_Contract Storage_Lookup "HOL-Library.Sublist"
begin

unbundle bit_operations_syntax

text \<open>
  The requests that write and read points: what \<^verbatim>\<open>handle_conn_put_data\<close> and \<^verbatim>\<open>handle_conn_get_data\<close> do to the
  database of the storage and what they answer, for every request that is encoded as the clients do it and
  however it arrives.
\<close>

section \<open>Connections as parts of the server\<close>

text \<open>The stream of connection \<open>i\<close> satisfies \<open>P\<close>, and the rest of the server \<open>F\<close>.\<close>

definition serving :: "nat \<Rightarrow> (structured_stream \<Rightarrow> bool) \<Rightarrow> (server \<Rightarrow> bool) \<Rightarrow> server \<Rightarrow> bool" where
  "serving i P F sv \<longleftrightarrow> i < length (conn_pool sv) \<and> P (conn_ss (get_conn i sv)) \<and> F sv"

definition ss_frame :: "nat \<Rightarrow> (server \<Rightarrow> bool) \<Rightarrow> bool" where
  "ss_frame i F \<longleftrightarrow> (\<forall>sv ss. i < length (conn_pool sv) \<longrightarrow> F sv \<longrightarrow> F (put_conn i ((get_conn i sv)\<lparr>conn_ss := ss\<rparr>) sv))"

lemma put_conn_simps [simp]:
  "length (conn_pool (put_conn i d sv)) = length (conn_pool sv)" "srv_storage (put_conn i d sv) = srv_storage sv"
  "srv_config (put_conn i d sv) = srv_config sv" "i < length (conn_pool sv) \<Longrightarrow> get_conn i (put_conn i d sv) = d"
  "j \<noteq> i \<Longrightarrow> get_conn j (put_conn i d sv) = get_conn j sv"
  by (simp_all add: put_conn_def get_conn_def)

lemma gives_on_ss:
  assumes "gives P p r Q" "ss_frame i F"
  shows "gives (serving i P F) (on_ss i p) r (serving i Q F)"
  unfolding on_ss_def by (rule gives_zoom [OF assms(1)]) (use assms(2) in \<open>auto simp: serving_def ss_frame_def\<close>)

text \<open>Programs that do not touch the connections.\<close>

lemma gives_serving:
  assumes "gives F p r G" "\<And>sv r sv'. p sv = Some (r, sv') \<Longrightarrow> conn_pool sv' = conn_pool sv"
  shows "gives (serving i P F) p r (serving i P G)"
  unfolding gives_def
proof (intro allI impI)
  fix sv assume s: "serving i P F sv"
  then obtain sv' where p: "p sv = Some (r, sv')" "G sv'" using givesD [OF assms(1)] by (auto simp: serving_def)
  then show "\<exists>s'. p sv = Some (r, s') \<and> serving i P G s'" using s assms(2) [OF p(1)] by (simp add: serving_def get_conn_def)
qed

lemma gives_config_flag:
  assumes "\<And>sv. F sv \<Longrightarrow> has_valid_config (get_conn i sv) = v"
  shows "gives (serving i P F) (config_flag i e) (Inr (if v then e else e OR CLUSTER_CONFIG_OUT_OF_DATE)) (serving i P F)"
  unfolding config_flag_def by (rule gives_gets) (use assms in \<open>auto simp: serving_def\<close>)

text \<open>The end of every handler: the status is written and the answer sent.\<close>

lemma gives_answer:
  assumes "ss_frame i F" "\<And>sv. F sv \<Longrightarrow> has_valid_config (get_conn i sv) = v" "1 \<le> wn"
  shows "gives (serving i (at rn wn inp out) F)
    (andthen (config_flag i e) (\<lambda>e. andthen (on_ss i (structured_stream_write_uint8 e)) (\<lambda>_. on_ss i structured_stream_flush))) (Inr ())
    (serving i (flushed rn wn inp (out @ [if v then e else e OR CLUSTER_CONFIG_OUT_OF_DATE])) F)"
proof (rule gives_andthen [OF gives_config_flag [OF assms(2)]])
  let ?e = "if v then e else e OR CLUSTER_CONFIG_OUT_OF_DATE"
  have b: "le_bytes ?e = [?e]" by (simp add: le_bytes_def)
  have "gives (serving i (at rn wn inp out) F) (on_ss i (structured_stream_write_uint8 ?e)) (Inr ()) (serving i (at rn wn inp (out @ [?e])) F)"
    using gives_on_ss [OF gives_write_uint8 [OF assms(3)] assms(1), of rn inp out ?e] unfolding b .
  then show "gives (serving i (at rn wn inp out) F) (andthen (on_ss i (structured_stream_write_uint8 ?e)) (\<lambda>_. on_ss i structured_stream_flush)) (Inr ())
      (serving i (flushed rn wn inp (out @ [?e])) F)"
    by (rule gives_andthen) (rule gives_on_ss [OF gives_flush assms(1)])
qed

section \<open>Writing points\<close>

definition enc_points :: "point list \<Rightarrow> byte list" where
  "enc_points pts = concat (map (\<lambda>q. le_bytes (fst q) @ le_bytes (snd q)) pts)"

lemma enc_points_simps [simp]: "enc_points [] = []" "enc_points (q # qs) = le_bytes (fst q) @ le_bytes (snd q) @ enc_points qs"
  by (simp_all add: enc_points_def)

definition enc_series :: "byte list \<times> point list \<Rightarrow> byte list" where
  "enc_series b = prefixed (fst b) @ le_bytes (of_nat (length (snd b)) :: u32) @ enc_points (snd b)"

definition enc_batch :: "(byte list \<times> point list) list \<Rightarrow> byte list" where
  "enc_batch bs = concat (map enc_series bs) @ prefixed []"

definition points_with_keys :: "(byte list \<times> point list) list \<Rightarrow> (byte list \<times> point) list" where
  "points_with_keys bs = concat (map (\<lambda>b. map (Pair (fst b)) (snd b)) bs)"

text \<open>The loops, for an invariant \<open>F\<close> that depends on the points stored so far.\<close>

lemma gives_put_points:
  assumes frame: "\<And>done. ss_frame i (F done)" and rn: "16 \<le> rn"
    and step: "\<And>done q P. V (done @ [(k, q)]) \<Longrightarrow> gives (serving i P (F done)) (store_point ce e k (fst q) (snd q)) (Inr ()) (serving i P (F (done @ [(k, q)])))"
    and V: "\<And>a b. V (a @ b) \<Longrightarrow> V a" and "V (done @ map (Pair k) pts)"
  shows "gives (serving i (at rn wn (enc_points pts @ inp) out) (F done)) (put_points ce i e k (length pts)) (Inr ())
    (serving i (at rn wn inp out) (F (done @ map (Pair k) pts)))"
  using assms(5)
proof (induction pts arbitrary: "done")
  case Nil
  show ?case by (simp add: gives_ret)
next
  case (Cons q pts)
  let ?t = "le_bytes (fst q)" and ?y = "le_bytes (snd q)" and ?r = "enc_points pts @ inp"
  have rn8: "8 \<le> rn" using rn by simp
  show ?case unfolding length_Cons put_points.simps enc_points_simps append_assoc
  proof (rule gives_andthen)
    show "gives (serving i (at rn wn (?t @ ?y @ ?r) out) (F done)) (on_ss i (structured_stream_ensure_read 16)) (Inr ()) (serving i (at rn wn (?t @ ?y @ ?r) out) (F done))"
      by (rule gives_on_ss [OF gives_ensure_read [OF rn] frame]) simp
    show "gives (serving i (at rn wn (?t @ ?y @ ?r) out) (F done))
        (andthen (on_ss i structured_stream_read_int64) (\<lambda>t. andthen (on_ss i structured_stream_read_double) (\<lambda>y.
          andthen (store_point ce e k t y) (\<lambda>_. put_points ce i e k (length pts))))) (Inr ())
        (serving i (at rn wn inp out) (F (done @ map (Pair k) (q # pts))))"
    proof (rule gives_andthen [OF gives_on_ss [OF gives_read_int64 [OF rn8] frame]], rule gives_andthen [OF gives_on_ss [OF gives_read_double [OF rn8] frame]],
        rule gives_andthen)
      show "gives (serving i (at rn wn ?r out) (F done)) (store_point ce e k (fst q) (snd q)) (Inr ()) (serving i (at rn wn ?r out) (F (done @ [(k, q)])))"
        using step V [of "done @ [(k, q)]" "map (Pair k) pts"] Cons.prems by simp
      show "gives (serving i (at rn wn ?r out) (F (done @ [(k, q)]))) (put_points ce i e k (length pts)) (Inr ())
          (serving i (at rn wn inp out) (F (done @ map (Pair k) (q # pts))))"
        using Cons.IH [of "done @ [(k, q)]"] Cons.prems by simp
    qed
  qed
qed

lemma gives_read_key:
  assumes "length k \<le> MAX_LFM_SIZE" "MAX_LFM_SIZE + 2 \<le> rn"
  shows "gives (at rn wn (prefixed k @ inp) out) (structured_stream_read_uint16_prefixed_bytes MAX_LFM_SIZE) (Inr k) (at rn wn inp out)"
  unfolding structured_stream_read_uint16_prefixed_bytes_def
  by (rule gives_andthen [OF gives_read_prefixed]) (use assms in \<open>auto intro: gives_ret simp: MAX_LFM_SIZE_def\<close>)

lemma gives_put_keys:
  assumes frame: "\<And>done. ss_frame i (F done)" and rn: "MAX_LFM_SIZE + 2 \<le> rn"
    and step: "\<And>done k q P. V (done @ [(k, q)]) \<Longrightarrow> gives (serving i P (F done)) (store_point ce e k (fst q) (snd q)) (Inr ()) (serving i P (F (done @ [(k, q)])))"
    and V: "\<And>a b. V (a @ b) \<Longrightarrow> V a"
    and "\<forall>b\<in>set bs. fst b \<noteq> [] \<and> length (fst b) \<le> MAX_LFM_SIZE \<and> length (snd b) < 2 ^ 32" "V (done @ points_with_keys bs)"
  shows "gives (serving i (at rn wn (enc_batch bs @ inp) out) (F done)) (put_keys ce i e) (Inr ())
    (serving i (at rn wn inp out) (F (done @ points_with_keys bs)))"
  using assms(5,6)
proof (induction bs arbitrary: "done")
  case Nil
  show ?case
  proof (rule givesI)
    have e: "length ([] :: byte list) \<le> MAX_LFM_SIZE" by simp
    fix sv assume "serving i (at rn wn (enc_batch [] @ inp) out) (F done) sv"
    then have "serving i (at rn wn (prefixed [] @ inp) out) (F done) sv" by (simp add: enc_batch_def)
    then obtain sv' where "on_ss i (structured_stream_read_uint16_prefixed_bytes MAX_LFM_SIZE) sv = Some (Inr [], sv')" "serving i (at rn wn inp out) (F done) sv'"
      using givesD [OF gives_on_ss [OF gives_read_key [OF e rn] frame]] by blast
    then show "\<exists>s'. put_keys ce i e sv = Some (Inr (), s') \<and> serving i (at rn wn inp out) (F (done @ points_with_keys [])) s'"
      by (simp add: put_keys.simps points_with_keys_def)
  qed
next
  case (Cons b bs)
  obtain k pts where b: "b = (k, pts)" by (cases b)
  have k: "k \<noteq> []" "length k \<le> MAX_LFM_SIZE" "length pts < 2 ^ 32" using Cons.prems(1) b by auto
  have v: "V ((done @ map (Pair k) pts) @ points_with_keys bs)" using Cons.prems(2) by (simp add: points_with_keys_def b)
  let ?n = "of_nat (length pts) :: u32" let ?r = "le_bytes ?n @ enc_points pts @ enc_batch bs @ inp"
  have n: "unat ?n = length pts" using k(3) by (simp add: unat_of_nat)
  have rn': "4 \<le> rn" "16 \<le> rn" using rn by (simp_all add: MAX_LFM_SIZE_def)
  show ?case
  proof (rule givesI)
    fix sv assume "serving i (at rn wn (enc_batch (b # bs) @ inp) out) (F done) sv"
    then have "serving i (at rn wn (prefixed k @ ?r) out) (F done) sv" by (simp add: enc_batch_def enc_series_def b)
    then obtain s1 where s1: "on_ss i (structured_stream_read_uint16_prefixed_bytes MAX_LFM_SIZE) sv = Some (Inr k, s1)" "serving i (at rn wn ?r out) (F done) s1"
      using givesD [OF gives_on_ss [OF gives_read_key [OF k(2) rn] frame]] by blast
    have "gives (serving i (at rn wn ?r out) (F done)) (andthen (on_ss i structured_stream_read_uint32) (\<lambda>num_pts. put_points ce i e k (unat num_pts))) (Inr ())
        (serving i (at rn wn (enc_batch bs @ inp) out) (F (done @ map (Pair k) pts)))"
      by (rule gives_andthen [OF gives_on_ss [OF gives_read_uint32 [OF rn'(1)] frame]]) (unfold n, rule gives_put_points [where V = V, OF frame rn'(2) _ V V [OF v]], rule step)
    from givesD [OF this s1(2)] obtain s2 where s2: "andthen (on_ss i structured_stream_read_uint32) (\<lambda>num_pts. put_points ce i e k (unat num_pts)) s1 = Some (Inr (), s2)"
      "serving i (at rn wn (enc_batch bs @ inp) out) (F (done @ map (Pair k) pts)) s2" by blast
    have "\<forall>b\<in>set bs. fst b \<noteq> [] \<and> length (fst b) \<le> MAX_LFM_SIZE \<and> length (snd b) < 2 ^ 32" using Cons.prems(1) by simp
    then obtain s3 where "put_keys ce i e s2 = Some (Inr (), s3)" "serving i (at rn wn inp out) (F ((done @ map (Pair k) pts) @ points_with_keys bs)) s3"
      using givesD [OF Cons.IH [OF _ v] s2(2)] by blast
    then show "\<exists>s'. put_keys ce i e sv = Some (Inr (), s') \<and> serving i (at rn wn inp out) (F (done @ points_with_keys (b # bs))) s'"
      using s1(1) s2(1) k(1) by (subst put_keys.simps) (simp add: points_with_keys_def b)
  qed
qed


text \<open>The points of a request for the key \<open>k\<close> that are not before \<open>e\<close>.\<close>

definition fresh :: "int \<Rightarrow> byte list \<Rightarrow> (byte list \<times> point) list \<Rightarrow> point list" where
  "fresh e k ps = map snd (filter (\<lambda>(k', q). k' = k \<and> e \<le> sint (fst q)) ps)"

lemma fresh_simps [simp]: "fresh e k [] = []" "fresh e k (xs @ ys) = fresh e k xs @ fresh e k ys"
  "fresh e k [(k', q)] = (if k' = k \<and> e \<le> sint (fst q) then [q] else [])"
  by (simp_all add: fresh_def)

text \<open>The series that are certain to be stored completely.\<close>

definition in_order :: "point list \<Rightarrow> bool" where
  "in_order pts \<longleftrightarrow> increasing pts \<and> (\<forall>q\<in>set pts. 0 < sint (fst q) \<and> sint (fst q) < 2 ^ 31)"

lemma in_order_append: "in_order (xs @ ys) \<Longrightarrow> in_order xs"
  by (auto simp: in_order_def increasing_def sorted_wrt_append)

text \<open>
  The series after the points \<open>ps\<close> were handled: some of them are appended in their order, and all of them if
  that keeps the series in order.
\<close>

definition appended :: "bool \<Rightarrow> point list \<Rightarrow> point list \<Rightarrow> point list \<Rightarrow> bool" where
  "appended whole old new s \<longleftrightarrow> (\<exists>acc. s = old @ acc \<and> subseq acc new \<and> (whole \<and> in_order (old @ new) \<longrightarrow> acc = new))"

lemma appended_refl: "appended w old [] old"
  by (simp add: appended_def)

lemma appended_extend:
  assumes "appended w old new s" "a = [] \<or> a = [q]" "w \<and> in_order (old @ new @ [q]) \<longrightarrow> a = [q]"
  shows "appended w old (new @ [q]) (s @ a)"
proof -
  obtain acc where acc: "s = old @ acc" "subseq acc new" "w \<and> in_order (old @ new) \<longrightarrow> acc = new" using assms(1) by (auto simp: appended_def)
  have "subseq (acc @ a) (new @ [q])" by (rule list_emb_append_mono [OF acc(2)]) (use assms(2) in auto)
  moreover have "w \<and> in_order (old @ new @ [q]) \<longrightarrow> acc @ a = new @ [q]" using acc(3) assms(3) in_order_append [of "old @ new" "[q]"] by auto
  ultimately show ?thesis using acc(1) by (auto simp: appended_def)
qed

definition stored :: "nat \<Rightarrow> (byte list \<Rightarrow> point list option) \<Rightarrow> int \<Rightarrow> bool \<Rightarrow> bool \<Rightarrow> nat \<Rightarrow> (byte list \<times> point) list \<Rightarrow> server \<Rightarrow> bool" where
  "stored i db e whole v N ps sv \<longleftrightarrow> has_valid_config (get_conn i sv) = v \<and> (whole \<longrightarrow> initial_tsc_buf_size (srv_storage sv) mod 8 = 4) \<and>
     has_room (srv_storage sv) (2 * (N - length ps)) \<and>
     (\<exists>db'. storage_good (srv_storage sv) db' \<and> (\<forall>k. appended whole (points_of db k) (fresh e k ps) (points_of db' k)))"

lemma stored_frame: "ss_frame i (stored i db e w v N ps)"
  by (simp add: ss_frame_def stored_def)

lemma write_one:
  assumes "storage_good st db'" "env_ok env" "valid_key k" "has_room st (2 * Suc n)" "0 < sint (fst q)"
    and "w \<longrightarrow> initial_tsc_buf_size st mod 8 = 4" "appended w old new (points_of db' k)"
  shows "\<exists>res st' a. storage_write env st k (of_nat (length k)) [q] = Some (res, st') \<and> storage_good st' (db'(k \<mapsto> points_of db' k @ a)) \<and>
    initial_tsc_buf_size st' = initial_tsc_buf_size st \<and> has_room st' (2 * n) \<and> appended w old (new @ [q]) (points_of db' k @ a)"
proof -
  have k: "unat (of_nat (length k) :: u16) = length k" using assms(3) by (rule key_length)
  have r: "has_room st (Suc (length [q]))" using assms(4) by (simp add: has_room_def)
  have p: "\<forall>q'\<in>set [q]. 0 < sint (fst q')" using assms(5) by simp
  from storage_write_gen [OF assms(1-3) k r p, of "[]"]
  obtain res st' acc rest where g: "storage_write env st k (of_nat (length k)) [q] = Some (res, st')" "[q] = acc @ rest"
    "storage_good st' (db'(k \<mapsto> points_of db' k @ acc))" "initial_tsc_buf_size st' = initial_tsc_buf_size st"
    "\<forall>n. has_room st (Suc (length [q] + n)) \<longrightarrow> has_room st' n" and b: "res = 0 \<longleftrightarrow> rest = []" unfolding append_Nil2 by blast
  have "acc = [q]" if o: "w" "in_order (old @ new @ [q])"
  proof -
    have "points_of db' k = old @ new" using assms(7) o in_order_append [of "old @ new" "[q]"] by (auto simp: appended_def)
    then have "increasing (points_of db' k @ [q])" "\<forall>q\<in>set (points_of db' k @ [q]). 0 < sint (fst q) \<and> sint (fst q) < 2 ^ 31"
      using o(2) by (auto simp: in_order_def)
    from storage_write_all [OF assms(1-3) k r _ this, of "[]"] have "res = 0" using assms(6) o(1) g(1) by auto
    then show ?thesis using b g(2) by simp
  qed
  moreover have "acc = [] \<or> acc = [q]" using g(2) by (cases acc) auto
  moreover have "has_room st' (2 * n)" using g(5) assms(4) by simp
  ultimately show ?thesis using g(1,3,4) appended_extend [OF assms(7)] by blast
qed

lemma gives_store_point:
  assumes "env_ok (ce_env ce)" "valid_key k" "0 < sint (fst q)" "length ps < N"
  shows "gives (stored i db e w v N ps) (store_point ce e k (fst q) (snd q)) (Inr ()) (stored i db e w v N (ps @ [(k, q)]))"
proof (rule givesI)
  let ?ps = "ps @ [(k, q)]"
  fix sv assume s: "stored i db e w v N ps sv"
  then obtain db' where db': "storage_good (srv_storage sv) db'" "\<And>k. appended w (points_of db k) (fresh e k ps) (points_of db' k)" by (auto simp: stored_def)
  have r: "has_room (srv_storage sv) (2 * Suc (N - length ?ps))" using s assms(4) by (simp add: stored_def Suc_diff_Suc)
  show "\<exists>s'. store_point ce e k (fst q) (snd q) sv = Some (Inr (), s') \<and> stored i db e w v N ?ps s'"
  proof (cases "sint (fst q) < e")
    case True
    moreover have "has_room (srv_storage sv) (2 * (N - length ?ps))" using r by (simp add: has_room_def)
    ultimately show ?thesis using s db' by (auto simp: stored_def store_point_def)
  next
    case False
    have w: "w \<longrightarrow> initial_tsc_buf_size (srv_storage sv) mod 8 = 4" using s by (simp add: stored_def)
    from write_one [OF db'(1) assms(1,2) r assms(3) w db'(2) [of k]]
    obtain res st' a where g: "storage_write (ce_env ce) (srv_storage sv) k (of_nat (length k)) [q] = Some (res, st')"
      "storage_good st' (db'(k \<mapsto> points_of db' k @ a))" "initial_tsc_buf_size st' = initial_tsc_buf_size (srv_storage sv)"
      "has_room st' (2 * (N - length ?ps))" "appended w (points_of db k) (fresh e k ps @ [q]) (points_of db' k @ a)" by blast
    have "\<forall>j. appended w (points_of db j) (fresh e j ?ps) (points_of (db'(k \<mapsto> points_of db' k @ a)) j)"
    proof
      fix j show "appended w (points_of db j) (fresh e j ?ps) (points_of (db'(k \<mapsto> points_of db' k @ a)) j)"
        using g(5) db'(2) [of j] False by (cases "j = k") (simp_all add: points_of_def)
    qed
    then have "\<exists>db'. storage_good st' db' \<and> (\<forall>j. appended w (points_of db j) (fresh e j ?ps) (points_of db' j))" using g(2) by blast
    moreover have "store_point ce e k (fst q) (snd q) sv = Some (Inr (), sv\<lparr>srv_storage := st'\<rparr>)" using g(1) False by (simp add: store_point_def)
    ultimately show ?thesis using s g(3,4) by (simp add: stored_def get_conn_def del: fresh_simps)
  qed
qed


lemma store_point_pool: "store_point ce e k t y sv = Some (r, sv') \<Longrightarrow> conn_pool sv' = conn_pool sv"
  by (auto simp: store_point_def split: if_splits bind_splits)

text \<open>The points before which none is accepted.\<close>

definition earliest :: "conn_env \<Rightarrow> server \<Rightarrow> int" where
  "earliest ce sv = sint (word_of_int (ce_time ce - retention_seconds (srv_storage sv)) :: i64)"

definition batch_ok :: "(byte list \<times> point list) list \<Rightarrow> bool" where
  "batch_ok bs \<longleftrightarrow> (\<forall>(k, pts)\<in>set bs. k \<noteq> [] \<and> hd k \<noteq> 0 \<and> length k \<le> MAX_LFM_SIZE \<and> length pts < 2 ^ 32 \<and> (\<forall>q\<in>set pts. 0 < sint (fst q)))"

lemma batch_ok_points:
  assumes "batch_ok bs"
  shows "\<forall>(k, q)\<in>set (points_with_keys bs). valid_key k \<and> 0 < sint (fst q)"
  using assms by (fastforce simp: batch_ok_def points_with_keys_def valid_key_def MAX_LFM_SIZE_def MAX_BUF_def)

lemma gives_put_data:
  assumes "env_ok (ce_env ce)" "batch_ok bs" "MAX_LFM_SIZE + 2 \<le> rn" "5 \<le> wn"
  shows "gives (serving i (at rn wn (enc_batch bs @ inp) out) (\<lambda>sv. stored i db (earliest ce sv) w v (length (points_with_keys bs)) [] sv \<and> earliest ce sv = e))
    (handle_conn_put_data ce i) (Inr ())
    (serving i (flushed rn wn inp (out @ [if v then STATUS_OK else STATUS_OK OR CLUSTER_CONFIG_OUT_OF_DATE])) (stored i db e w v (length (points_with_keys bs)) (points_with_keys bs)))"
proof -
  let ?N = "length (points_with_keys bs)"
  let ?F = "stored i db e w v ?N" and ?V = "\<lambda>ps. length ps \<le> ?N \<and> (\<forall>(k, q)\<in>set ps. valid_key k \<and> 0 < sint (fst q))"
  have step: "gives (serving i P (?F done)) (store_point ce e k (fst q) (snd q)) (Inr ()) (serving i P (?F (done @ [(k, q)])))" if "?V (done @ [(k, q)])" for "done" k q P
    by (rule gives_serving [OF gives_store_point [OF assms(1)] store_point_pool]) (use that in auto)
  have b: "\<forall>b\<in>set bs. fst b \<noteq> [] \<and> length (fst b) \<le> MAX_LFM_SIZE \<and> length (snd b) < 2 ^ 32" using assms(2) by (auto simp: batch_ok_def)
  have puts: "gives (serving i (at rn wn (enc_batch bs @ inp) out) (?F [])) (put_keys ce i e) (Inr ()) (serving i (at rn wn inp out) (?F ([] @ points_with_keys bs)))"
    by (rule gives_put_keys [where V = ?V, OF stored_frame assms(3) step _ b]) (use batch_ok_points [OF assms(2)] in auto)
  have e: "gives (serving i (at rn wn (enc_batch bs @ inp) out) (\<lambda>sv. stored i db (earliest ce sv) w v ?N [] sv \<and> earliest ce sv = e))
      (gets (\<lambda>sv. sint (word_of_int (ce_time ce - retention_seconds (srv_storage sv)) :: i64))) (Inr e) (serving i (at rn wn (enc_batch bs @ inp) out) (?F []))"
    by (rule gives_gets) (auto simp: serving_def earliest_def)
  have ew: "gives (serving i (at rn wn inp out) (?F (points_with_keys bs))) (on_ss i (structured_stream_ensure_write (1 + 4))) (Inr ()) (serving i (at rn wn inp out) (?F (points_with_keys bs)))"
    by (rule gives_on_ss [OF gives_weaken [OF gives_ensure_write] stored_frame]) (use assms(4) in auto)
  have cfg: "has_valid_config (get_conn i sv) = v" if "?F (points_with_keys bs) sv" for sv using that by (simp add: stored_def)
  show ?thesis unfolding handle_conn_put_data_def
    by (rule gives_andthen [OF e], rule gives_andthen [OF puts], unfold append_Nil, rule gives_andthen [OF ew], unfold STATUS_OK_def, rule gives_answer [OF stored_frame cfg])
      (use assms(4) in simp_all)
qed


section \<open>Reading points\<close>

text \<open>The answer to one key, and to a list of them: after an error that is not a failed lookup there are no more points.\<close>

definition enc_answer :: "point list \<Rightarrow> byte list" where
  "enc_answer pts = le_bytes (of_nat (length pts) :: u32) @ enc_points pts"

fun answers :: "(byte list \<Rightarrow> point list option) \<Rightarrow> byte list list \<Rightarrow> u8 \<Rightarrow> byte list \<times> u8" where
  "answers db [] e = ([], e)"
| "answers db (k # ks) e =
     (if e \<noteq> 0 then map_prod (\<lambda>bs. enc_answer [] @ bs) id (answers db ks e)
      else let (res, pts) = get_result db k MAX_PTS_PER_SERIES
        in map_prod (\<lambda>bs. enc_answer pts @ bs) id (answers db ks (if res = 0 \<or> res = ERR_LOOKUP_FAILED then e else STATUS_UNKNOWN_ERROR)))"

text \<open>The request fits the buffer of the handler.\<close>

fun keys_fit :: "nat \<Rightarrow> byte list list \<Rightarrow> bool" where
  "keys_fit n [] = True"
| "keys_fit n (k # ks) = (n + 8 + length k < MAX_KEY_BUF \<and> keys_fit (n + 2 + length k) ks)"

lemma gives_read_key_inplace:
  assumes "length k + 2 \<le> rn" "length k < 2 ^ 16" "ss_frame i F"
  shows "gives (serving i (at rn wn (prefixed k @ inp) out) F) (on_ss i structured_stream_read_uint16_prefixed_bytes_inplace) (Inr k) (serving i (at rn wn inp out) F)"
  by (rule gives_on_ss [OF gives_read_prefixed [OF assms(2,1)] assms(3)])

lemma gives_collect_error:
  assumes "ss_frame i F" "\<forall>k\<in>set ks. length k + 2 \<le> rn \<and> length k < 2 ^ 16" "e \<noteq> 0"
  shows "\<exists>buf e'. e' \<in> {e, STATUS_TOO_MANY_METRICS} \<and> gives (serving i (at rn wn (concat (map prefixed ks) @ inp) out) F) (collect_keys i (length ks) acc e) (Inr (buf, e'))
    (serving i (at rn wn inp out) F)"
  using assms(2,3)
proof (induction ks arbitrary: acc e)
  case Nil
  have "gives (serving i (at rn wn inp out) F) (ret (acc, e)) (Inr (acc, e)) (serving i (at rn wn inp out) F)" by (rule gives_ret)
  then show ?case by (intro exI [of _ acc] exI [of _ e]) simp
next
  case (Cons k ks)
  have k: "length k + 2 \<le> rn" "length k < 2 ^ 16" using Cons.prems(1) by simp_all
  note r = gives_andthen [OF gives_read_key_inplace [OF k assms(1)]]
  let ?big = "length acc + 8 + length k \<ge> MAX_KEY_BUF" let ?acc = "if ?big then acc else acc @ le_bytes (of_nat (length k) :: u16) @ k"
  let ?e = "if ?big then STATUS_TOO_MANY_METRICS else e"
  have "?e \<noteq> 0" using Cons.prems(2) by (simp add: STATUS_TOO_MANY_METRICS_def)
  with Cons.IH [of ?e ?acc] Cons.prems(1) obtain buf e' where ih: "e' \<in> {?e, STATUS_TOO_MANY_METRICS}"
    "gives (serving i (at rn wn (concat (map prefixed ks) @ inp) out) F) (collect_keys i (length ks) ?acc ?e) (Inr (buf, e')) (serving i (at rn wn inp out) F)" by auto
  have "gives (serving i (at rn wn (concat (map prefixed (k # ks)) @ inp) out) F) (collect_keys i (length (k # ks)) acc e) (Inr (buf, e')) (serving i (at rn wn inp out) F)"
    unfolding length_Cons collect_keys.simps list.map concat.simps append_assoc by (rule r) (use ih(2) in \<open>auto split: if_splits\<close>)
  then show ?case using ih(1) by (intro exI [of _ buf] exI [of _ e']) (auto split: if_splits)
qed

lemma gives_collect_keys:
  assumes "ss_frame i F" "\<forall>k\<in>set ks. length k + 2 \<le> rn \<and> length k < 2 ^ 16"
  shows "\<exists>buf e. (if keys_fit (length acc) ks then buf = acc @ concat (map prefixed ks) \<and> e = 0 else e = STATUS_TOO_MANY_METRICS) \<and>
    gives (serving i (at rn wn (concat (map prefixed ks) @ inp) out) F) (collect_keys i (length ks) acc 0) (Inr (buf, e)) (serving i (at rn wn inp out) F)"
  using assms(2)
proof (induction ks arbitrary: acc)
  case Nil
  have "gives (serving i (at rn wn inp out) F) (ret (acc, 0)) (Inr (acc, 0)) (serving i (at rn wn inp out) F)" by (rule gives_ret)
  then show ?case by (intro exI [of _ acc] exI [of _ 0]) simp
next
  case (Cons k ks)
  have k: "length k + 2 \<le> rn" "length k < 2 ^ 16" "\<forall>k\<in>set ks. length k + 2 \<le> rn \<and> length k < 2 ^ 16" using Cons.prems by simp_all
  note r = gives_andthen [OF gives_read_key_inplace [OF k(1,2) assms(1)]]
  show ?case
  proof (cases "length acc + 8 + length k \<ge> MAX_KEY_BUF")
    case True
    obtain buf e where g: "e \<in> {STATUS_TOO_MANY_METRICS, STATUS_TOO_MANY_METRICS}" "gives (serving i (at rn wn (concat (map prefixed ks) @ inp) out) F)
        (collect_keys i (length ks) acc STATUS_TOO_MANY_METRICS) (Inr (buf, e)) (serving i (at rn wn inp out) F)"
      using gives_collect_error [OF assms(1) k(3), of STATUS_TOO_MANY_METRICS wn inp out acc] by (auto simp: STATUS_TOO_MANY_METRICS_def)
    have "gives (serving i (at rn wn (concat (map prefixed (k # ks)) @ inp) out) F) (collect_keys i (length (k # ks)) acc 0) (Inr (buf, e)) (serving i (at rn wn inp out) F)"
      unfolding length_Cons collect_keys.simps list.map concat.simps append_assoc by (rule r) (use g(2) True in simp)
    then show ?thesis using g(1) True by (intro exI [of _ buf] exI [of _ e]) simp
  next
    case False
    have l: "length (acc @ prefixed k) = length acc + 2 + length k" by simp
    from Cons.IH [OF k(3), of "acc @ prefixed k"] obtain buf e where g: "if keys_fit (length acc + 2 + length k) ks then buf = acc @ prefixed k @ concat (map prefixed ks) \<and> e = 0 else e = STATUS_TOO_MANY_METRICS"
      "gives (serving i (at rn wn (concat (map prefixed ks) @ inp) out) F) (collect_keys i (length ks) (acc @ prefixed k) 0) (Inr (buf, e)) (serving i (at rn wn inp out) F)"
      unfolding l append_assoc by blast
    have "gives (serving i (at rn wn (concat (map prefixed (k # ks)) @ inp) out) F) (collect_keys i (length (k # ks)) acc 0) (Inr (buf, e)) (serving i (at rn wn inp out) F)"
      unfolding length_Cons collect_keys.simps list.map concat.simps append_assoc by (rule r) (use g(2) False in \<open>simp add: prefixed_def\<close>)
    then show ?thesis using g(1) False by (intro exI [of _ buf] exI [of _ e]) simp
  qed
qed


definition reading :: "nat \<Rightarrow> (byte list \<Rightarrow> point list option) \<Rightarrow> bool \<Rightarrow> server \<Rightarrow> bool" where
  "reading i db v sv \<longleftrightarrow> storage_good (srv_storage sv) db \<and> has_valid_config (get_conn i sv) = v"

lemma reading_frame: "ss_frame i (reading i db v)"
  by (simp add: ss_frame_def reading_def)

lemma gives_get_series:
  assumes "length k < 2 ^ 16"
  shows "gives (serving i P (reading i db v)) (get_series ce (k @ x) (of_nat (length k))) (Inr (get_result db k MAX_PTS_PER_SERIES)) (serving i P (reading i db v))"
proof (rule gives_serving, rule givesI)
  have l: "unat (of_nat (length k) :: u16) = length k" using assms by (simp add: unat_of_nat)
  fix sv assume r: "reading i db v sv"
  then have "storage_good (srv_storage sv) db" by (simp add: reading_def)
  from storage_get_ok [OF this l, of "ce_env ce" x MAX_PTS_PER_SERIES] obtain res pts st'
    where g: "storage_get (ce_env ce) (srv_storage sv) (k @ x) (of_nat (length k)) MAX_PTS_PER_SERIES = Some (res, pts, st')" "storage_good st' db"
      "(res, pts) = get_result db k MAX_PTS_PER_SERIES" unfolding get_result_def by blast
  then show "\<exists>s'. get_series ce (k @ x) (of_nat (length k)) sv = Some (Inr (get_result db k MAX_PTS_PER_SERIES), s') \<and> reading i db v s'"
    using r by (auto simp: get_series_def reading_def get_conn_def)
qed (auto simp: get_series_def split: bind_splits)

lemma gives_write_points:
  assumes "ss_frame i F" "8 \<le> wn"
  shows "gives (serving i (at rn wn inp out) F) (for_list (write_point i) pts) (Inr (map (\<lambda>_. ()) pts)) (serving i (at rn wn inp (out @ enc_points pts)) F)"
proof (induction pts arbitrary: out)
  case Nil
  show ?case by (simp add: gives_ret)
next
  case (Cons q pts)
  note w = gives_on_ss [OF gives_write_int64 [OF assms(2)] assms(1)] gives_on_ss [OF gives_write_double [OF assms(2)] assms(1)]
  have 1: "gives (serving i (at rn wn inp out) F) (write_point i q) (Inr ()) (serving i (at rn wn inp ((out @ le_bytes (fst q)) @ le_bytes (snd q))) F)"
    unfolding write_point_def by (rule gives_andthen [OF w(1)]) (rule w(2))
  show ?case unfolding for_list.simps list.map enc_points_simps
    by (rule gives_andthen [OF 1], rule gives_andthen [OF Cons]) (simp add: gives_ret)
qed

lemma gives_write_count:
  assumes "ss_frame i F" "4 \<le> wn"
  shows "gives (serving i (at rn wn inp out) F) (on_ss i (structured_stream_write_uint32 n)) (Inr ()) (serving i (at rn wn inp (out @ le_bytes n)) F)"
  by (rule gives_on_ss [OF gives_write_uint32 [OF assms(2)] assms(1)])

text \<open>While there is an error, the buffer with the keys is not read.\<close>

lemma gives_send_error:
  assumes "ss_frame i F" "8 \<le> wn" "e \<noteq> 0"
  shows "gives (serving i (at rn wn inp out) F) (send_series ce i (length ks) p e) (Inr e) (serving i (at rn wn inp (out @ fst (answers db ks e))) F) \<and> snd (answers db ks e) = e"
proof (induction ks arbitrary: out)
  case Nil
  show ?case by (simp add: gives_ret)
next
  case (Cons k ks)
  have "4 \<le> wn" using assms(2) by simp
  from gives_andthen [OF gives_write_count [OF assms(1) this, of rn inp out "0 :: u32"], of "\<lambda>_. send_series ce i (length ks) p e" "Inr e"]
    Cons [of "out @ le_bytes (0 :: u32)"] assms(3) show ?case by (auto simp: enc_answer_def)
qed

lemma gives_send_series:
  assumes "8 \<le> wn" "\<forall>k\<in>set ks. length k < 2 ^ 16"
  shows "gives (serving i (at rn wn inp out) (reading i db v)) (send_series ce i (length ks) (concat (map prefixed ks) @ x) 0) (Inr (snd (answers db ks 0)))
    (serving i (at rn wn inp (out @ fst (answers db ks 0))) (reading i db v))"
  using assms(2)
proof (induction ks arbitrary: out)
  case Nil
  show ?case by (simp add: gives_ret)
next
  case (Cons k ks)
  have wn: "4 \<le> wn" using assms(1) by simp
  have k: "length k < 2 ^ 16" "\<forall>k\<in>set ks. length k < 2 ^ 16" using Cons.prems by simp_all
  obtain res pts where r: "get_result db k MAX_PTS_PER_SERIES = (res, pts)" by force
  let ?p = "concat (map prefixed (k # ks)) @ x" and ?rest = "concat (map prefixed ks) @ x"
  have p: "take 2 ?p = le_bytes (of_nat (length k) :: u16)" "drop 2 ?p = k @ ?rest" by (simp_all add: prefixed_def)
  have l: "unat (of_nat (length k) :: u16) = length k" using k(1) by (simp add: unat_of_nat)
  let ?cnt = "on_ss i (structured_stream_write_uint32 (of_nat (length pts)))"
  let ?e = "if res = 0 \<or> res = ERR_LOOKUP_FAILED then 0 else STATUS_UNKNOWN_ERROR"
  note cnt = gives_write_count [OF reading_frame wn]
  have rest: "gives (serving i (at rn wn inp out') (reading i db v)) (send_series ce i (length ks) ?rest ?e) (Inr (snd (answers db ks ?e)))
      (serving i (at rn wn inp (out' @ fst (answers db ks ?e))) (reading i db v))" for out'
    using Cons.IH [OF k(2)] gives_send_error [OF reading_frame assms(1), of STATUS_UNKNOWN_ERROR] by (auto simp: STATUS_UNKNOWN_ERROR_def)
  have step: "gives (serving i (at rn wn inp out) (reading i db v)) (if res = 0 then andthen ?cnt (\<lambda>_. andthen (for_list (write_point i) pts) (\<lambda>_. send_series ce i (length ks) ?rest 0))
      else andthen (on_ss i (structured_stream_write_uint32 0)) (\<lambda>_. send_series ce i (length ks) ?rest (if res \<noteq> ERR_LOOKUP_FAILED then STATUS_UNKNOWN_ERROR else 0)))
      (Inr (snd (answers db ks ?e))) (serving i (at rn wn inp (out @ enc_answer pts @ fst (answers db ks ?e))) (reading i db v))"
  proof (cases "res = 0")
    case True
    show ?thesis using gives_andthen [OF cnt gives_andthen [OF gives_write_points [OF reading_frame assms(1)] rest]] True by (simp add: enc_answer_def)
  next
    case False
    then have "pts = []" using r by (auto simp: get_result_def split: option.splits if_splits)
    then show ?thesis using gives_andthen [OF cnt [of i rn inp out db v 0] rest] False by (auto simp: enc_answer_def)
  qed
  have lw: "le_word (le_bytes (of_nat (length k) :: u16)) = (of_nat (length k) :: u16)" by (simp add: le_word_le_bytes)
  have d: "drop (length k) (k @ ?rest) = ?rest" by simp
  have a: "fst (answers db (k # ks) 0) = enc_answer pts @ fst (answers db ks ?e)" "snd (answers db (k # ks) 0) = snd (answers db ks ?e)" using r by simp_all
  have z: "(if (0 :: u8) \<noteq> 0 then a else b) = b" for a b :: "(server, u8) prog" by simp
  show ?case unfolding length_Cons send_series.simps Let_def p lw l d a z
    by (rule gives_andthen [OF gives_get_series [OF k(1)]], unfold r prod.case) (rule step)
qed


definition enc_keys :: "byte list list \<Rightarrow> byte list" where
  "enc_keys ks = le_bytes (of_nat (length ks) :: u16) @ concat (map prefixed ks)"

lemma gives_get_data:
  assumes "length ks < 2 ^ 16" "\<forall>k\<in>set ks. length k + 2 \<le> rn \<and> length k < 2 ^ 16" "2 \<le> rn" "8 \<le> wn"
    and a_def: "a = answers db ks (if keys_fit 0 ks then STATUS_OK else STATUS_TOO_MANY_METRICS)"
  shows "gives (serving i (at rn wn (enc_keys ks @ inp) out) (reading i db v)) (handle_conn_get_data ce i) (Inr ())
    (serving i (flushed rn wn inp (out @ fst a @ [if v then snd a else snd a OR CLUSTER_CONFIG_OUT_OF_DATE])) (reading i db v))"
proof -
  let ?e = "if keys_fit 0 ks then STATUS_OK else STATUS_TOO_MANY_METRICS"
  note fr = reading_frame [of i db v]
  have l: "unat (of_nat (length ks) :: u16) = length ks" using assms(1) by (simp add: unat_of_nat)
  obtain buf e where g: "if keys_fit 0 ks then buf = concat (map prefixed ks) \<and> e = 0 else e = STATUS_TOO_MANY_METRICS"
    "gives (serving i (at rn wn (concat (map prefixed ks) @ inp) out) (reading i db v)) (collect_keys i (length ks) [] 0) (Inr (buf, e)) (serving i (at rn wn inp out) (reading i db v))"
    using gives_collect_keys [OF fr assms(2), of "[]" wn inp out] unfolding list.size append_Nil by blast
  have send: "gives (serving i (at rn wn inp out) (reading i db v)) (send_series ce i (length ks) buf e) (Inr (snd a)) (serving i (at rn wn inp (out @ fst a)) (reading i db v))"
  proof (cases "keys_fit 0 ks")
    case True
    then show ?thesis using gives_send_series [OF assms(4), of ks i rn inp out db v ce "[]"] g(1) assms(2) by (simp add: a_def STATUS_OK_def)
  next
    case False
    then show ?thesis using gives_send_error [OF fr assms(4), of e rn inp out ce ks buf db] g(1) by (auto simp: a_def STATUS_TOO_MANY_METRICS_def)
  qed
  have cfg: "has_valid_config (get_conn i sv) = v" if "reading i db v sv" for sv using that by (simp add: reading_def)
  note ans = gives_answer [OF fr cfg, of wn rn inp "out @ fst a" "snd a", unfolded append_assoc]
  show ?thesis unfolding handle_conn_get_data_def enc_keys_def append_assoc
    by (rule gives_andthen [OF gives_on_ss [OF gives_read_uint16 [OF assms(3)] reading_frame]], unfold l, rule gives_andthen [OF g(2)], unfold prod.case,
      rule gives_andthen [OF send], rule ans) (use assms(4) in simp_all)
qed

end
