(* ===== verification/Conn_Pool.thy ===== *)
theory Conn_Pool
  imports Conn_Handler Stream_Contract Storage_Properties
begin

text \<open>
  The pool of connections: at every moment the free slots are exactly those that serve no connection, through any
  interleaving of new connections, requests and ends of connections. So a new connection is refused only
  when all slots are busy, and the array of free slots never overflows.
\<close>

section \<open>What programs keep\<close>

definition keeps :: "('s \<Rightarrow> 'b) \<Rightarrow> ('s, 'a) prog \<Rightarrow> bool" where
  "keeps f p \<longleftrightarrow> (\<forall>s r s'. p s = Some (r, s') \<longrightarrow> f s' = f s)"

named_theorems keeps_intros

lemma keepsD: "keeps f p \<Longrightarrow> p s = Some (r, s') \<Longrightarrow> f s' = f s"
  by (simp add: keeps_def)

lemma keeps_simple [keeps_intros]: "keeps f (ret x)" "keeps f (fail e)" "keeps f (gets g)"
  by (simp_all add: keeps_def ret_def fail_def gets_def)

lemma keeps_andthen [keeps_intros]: "keeps f p \<Longrightarrow> (\<And>x. keeps f (q x)) \<Longrightarrow> keeps f (andthen p q)"
  unfolding keeps_def andthen_def by (fastforce split: option.splits sum.splits)

lemma keeps_on_error [keeps_intros]: "keeps f p \<Longrightarrow> keeps f (on_error h p)"
  unfolding keeps_def on_error_def by (fastforce split: option.splits sum.splits)

lemma keeps_modify: "(\<And>s. f (g s) = f s) \<Longrightarrow> keeps f (modify g)"
  by (simp add: keeps_def modify_def)

lemma keeps_if [keeps_intros]: "keeps f p \<Longrightarrow> keeps f q \<Longrightarrow> keeps f (if b then p else q)"
  by simp

lemma keeps_prod [keeps_intros]: "(\<And>x y. keeps f (q x y)) \<Longrightarrow> keeps f (case z of (x, y) \<Rightarrow> q x y)"
  by (simp split: prod.splits)

lemma keeps_for_list [keeps_intros]: "(\<And>x. keeps f (p x)) \<Longrightarrow> keeps f (for_list p xs)"
  by (induction xs) (auto intro: keeps_intros)

text \<open>Which slots are open and which are on the list of free ones.\<close>

definition pool_shape :: "server \<Rightarrow> nat list \<times> int \<times> bool list" where
  "pool_shape sv = (conn_free sv, conn_free_i sv, map conn_open (conn_pool sv))"

lemma shape_same: "conn_free sv' = conn_free sv \<Longrightarrow> conn_free_i sv' = conn_free_i sv \<Longrightarrow> conn_pool sv' = conn_pool sv \<Longrightarrow> pool_shape sv' = pool_shape sv"
  by (simp add: pool_shape_def)

lemma shape_put_conn: "conn_open d = conn_open (get_conn i sv) \<Longrightarrow> pool_shape (put_conn i d sv) = pool_shape sv"
  by (cases "i < length (conn_pool sv)") (auto simp: pool_shape_def put_conn_def get_conn_def map_update list_update_same_conv list_update_beyond)

lemma keeps_on_ss [keeps_intros]: "keeps pool_shape (on_ss i p)"
  by (auto simp: keeps_def on_ss_def zoom_def shape_put_conn split: option.splits)

lemma keeps_config_flag [keeps_intros]: "keeps pool_shape (config_flag i e)"
  by (simp add: config_flag_def keeps_simple)

lemma keeps_storage [keeps_intros]: "keeps pool_shape (store_point ce e k t y)" "keeps pool_shape (get_series ce k klen)" "keeps pool_shape (lookup_query v ix n b l off lim)"
  by (auto simp: keeps_def store_point_def get_series_def lookup_query_def intro!: shape_same split: if_splits bind_splits)

lemma keeps_put_points [keeps_intros]: "keeps pool_shape (put_points ce i e k n)"
  by (induction n) (auto intro!: keeps_intros)

lemma keeps_put_keys [keeps_intros]: "keeps pool_shape (put_keys ce i e)"
proof -
  have "pool_shape (snd x) = pool_shape sv" if "put_keys ce i e sv = Some x" for sv x
  proof (rule put_keys.raw_induct [where P = "\<lambda>ce i e sv x. pool_shape (snd x) = pool_shape sv", OF _ that], goal_cases)
    case (1 put_keys ce i e sv x)
    obtain r s1 where s1: "on_ss i (structured_stream_read_uint16_prefixed_bytes MAX_LFM_SIZE) sv = Some (r, s1)" using 1(2) by (auto split: bind_splits)
    have k1: "pool_shape s1 = pool_shape sv" by (rule keepsD [OF keeps_on_ss s1])
    show ?case
    proof (cases r)
      case (Inl res)
      then show ?thesis using 1(2) s1 k1 by auto
    next
      case (Inr k)
      let ?p = "andthen (on_ss i structured_stream_read_uint32) (\<lambda>num_pts. put_points ce i e k (unat num_pts))"
      have kp: "keeps pool_shape ?p" by (intro keeps_intros)
      show ?thesis
      proof (cases "k = []")
        case True
        then show ?thesis using 1(2) s1 k1 Inr by auto
      next
        case False
        then obtain r2 s2 where s2: "?p s1 = Some (r2, s2)" using 1(2) s1 Inr by (auto split: bind_splits)
        then show ?thesis using 1 s1 k1 Inr False keepsD [OF kp s2] by (cases r2) auto
      qed
    qed
  qed
  then show ?thesis by (auto simp: keeps_def)
qed

lemma keeps_loops [keeps_intros]:
  "keeps pool_shape (collect_keys i n buf e)" "keeps pool_shape (send_series ce i n p e)" "keeps pool_shape (read_labels i n v)"
proof -
  show "keeps pool_shape (collect_keys i n buf e)" by (induction n arbitrary: buf e) (auto intro!: keeps_intros)
  have [keeps_intros]: "keeps pool_shape (write_point i q)" for q unfolding write_point_def by (intro keeps_intros)
  show "keeps pool_shape (send_series ce i n p e)" by (induction n arbitrary: p e) (auto simp: Let_def intro!: keeps_intros)
  have [keeps_intros]: "keeps pool_shape (add_match s v)" for s v unfolding add_match_def by (intro keeps_intros)
  show "keeps pool_shape (read_labels i n v)" by (induction n arbitrary: v) (auto intro!: keeps_intros)
qed

lemma keeps_set_config: "keeps pool_shape (modify (\<lambda>sv. sv\<lparr>srv_config := c sv, conn_pool := map (\<lambda>d. d\<lparr>has_valid_config := False\<rparr>) (conn_pool sv)\<rparr>))"
  by (rule keeps_modify) (simp add: pool_shape_def comp_def)

lemma keeps_register: "keeps pool_shape (modify (\<lambda>sv. put_conn i ((get_conn i sv)\<lparr>has_valid_config := b\<rparr>) sv))"
  by (rule keeps_modify) (simp add: shape_put_conn)

lemmas handler_defs = handle_conn_put_data_def handle_conn_get_data_def handle_conn_query_lfms_def handle_conn_replication_data_def handle_conn_set_clock_def
  handle_conn_test_hook_def handle_conn_get_status_def handle_conn_get_cluster_config_def handle_conn_set_cluster_config_def
  handle_conn_register_client_cluster_config_def handle_conn_get_version_def

text \<open>No request changes the pool, whatever it contains and however it ends.\<close>

lemma keeps_rpc_code: "keeps pool_shape (handle_conn_rpc_code ce i)"
  unfolding handle_conn_rpc_code_def dispatch_def handler_defs Let_def by (intro keeps_intros keeps_set_config keeps_register)

lemma keeps_rpc_loop: "keeps pool_shape (rpc_loop ce i)"
proof -
  have "pool_shape (snd x) = pool_shape sv" if "rpc_loop ce i sv = Some x" for sv x
  proof (rule rpc_loop.raw_induct [where P = "\<lambda>ce i sv x. pool_shape (snd x) = pool_shape sv", OF _ that], goal_cases)
    case (1 rpc_loop ce i sv x)
    then obtain r s1 where s1: "handle_conn_rpc_code ce i sv = Some (r, s1)" by (auto split: bind_splits)
    then show ?case using 1 keepsD [OF keeps_rpc_code s1] by (cases r) auto
  qed
  then show ?thesis by (auto simp: keeps_def)
qed

section \<open>The pool\<close>

definition pool_ok :: "server \<Rightarrow> bool" where
  "pool_ok sv \<longleftrightarrow> length (conn_free sv) = length (conn_pool sv) \<and> - 1 \<le> conn_free_i sv \<and> conn_free_i sv < int (length (conn_pool sv)) \<and>
     (let free = take (nat (conn_free_i sv + 1)) (conn_free sv) in distinct free \<and> set free = {i. i < length (conn_pool sv) \<and> \<not> conn_open (get_conn i sv)})"

lemma shape_pool_ok:
  assumes "pool_shape sv' = pool_shape sv"
  shows "pool_ok sv' = pool_ok sv" "length (conn_pool sv') = length (conn_pool sv)" "i < length (conn_pool sv) \<Longrightarrow> conn_open (get_conn i sv') = conn_open (get_conn i sv)"
proof -
  have m: "map conn_open (conn_pool sv') = map conn_open (conn_pool sv)" "conn_free sv' = conn_free sv" "conn_free_i sv' = conn_free_i sv"
    using assms by (simp_all add: pool_shape_def)
  show l: "length (conn_pool sv') = length (conn_pool sv)" using arg_cong [OF m(1), of length] by simp
  have o: "conn_open (get_conn i sv') = conn_open (get_conn i sv)" if "i < length (conn_pool sv)" for i
    using arg_cong [OF m(1), of "\<lambda>xs. xs ! i"] that l by (simp add: get_conn_def)
  then show "i < length (conn_pool sv) \<Longrightarrow> conn_open (get_conn i sv') = conn_open (get_conn i sv)" .
  have "{i. i < length (conn_pool sv') \<and> \<not> conn_open (get_conn i sv')} = {i. i < length (conn_pool sv) \<and> \<not> conn_open (get_conn i sv)}" using l o by auto
  then show "pool_ok sv' = pool_ok sv" using m(2,3) l by (simp add: pool_ok_def)
qed


lemma pool_ok_free:
  assumes "pool_ok sv"
  shows "nat (conn_free_i sv + 1) = card {i. i < length (conn_pool sv) \<and> \<not> conn_open (get_conn i sv)}"
proof -
  let ?n = "nat (conn_free_i sv + 1)"
  have o: "length (conn_free sv) = length (conn_pool sv)" "conn_free_i sv < int (length (conn_pool sv))" "distinct (take ?n (conn_free sv))"
    "set (take ?n (conn_free sv)) = {i. i < length (conn_pool sv) \<and> \<not> conn_open (get_conn i sv)}" using assms by (simp_all add: pool_ok_def Let_def)
  have "?n \<le> length (conn_free sv)" using o(1,2) by simp
  then show ?thesis using distinct_card [OF o(3)] unfolding o(4) by simp
qed

lemma pool_init_ok: "pool_ok (conn_data_pool_init junk s n buf_size st config)"
  by (auto simp: pool_ok_def conn_data_pool_init_def get_conn_def new_conn_def)

text \<open>A new connection takes a slot that was free; without one it is refused and nothing changes.\<close>

lemma handle_conn_ok:
  assumes "pool_ok sv"
  shows "if \<forall>i<length (conn_pool sv). conn_open (get_conn i sv) then conn_data_pool_handle_conn s sv = Some (Inl 1, sv)
    else \<exists>i sv'. conn_data_pool_handle_conn s sv = Some (Inr i, sv') \<and> i < length (conn_pool sv) \<and> \<not> conn_open (get_conn i sv) \<and> pool_ok sv' \<and>
      length (conn_pool sv') = length (conn_pool sv) \<and> conn_open (get_conn i sv') \<and> conn_ss (get_conn i sv') = structured_stream_init (conn_ss (get_conn i sv)) s \<and>
      \<not> has_valid_config (get_conn i sv') \<and> (\<forall>j. j \<noteq> i \<longrightarrow> get_conn j sv' = get_conn j sv) \<and> srv_storage sv' = srv_storage sv"
proof -
  let ?n = "length (conn_pool sv)" and ?f = "conn_free_i sv" and ?closed = "{i. i < length (conn_pool sv) \<and> \<not> conn_open (get_conn i sv)}"
  let ?free = "take (nat (?f + 1)) (conn_free sv)"
  have o: "length (conn_free sv) = ?n" "- 1 \<le> ?f" "?f < int ?n" "distinct ?free" "set ?free = ?closed" using assms by (simp_all add: pool_ok_def Let_def)
  show ?thesis
  proof (cases "?f < 0")
    case True
    then have "nat (?f + 1) = 0" by simp
    then have "?closed = {}" using o(5) by simp
    then show ?thesis using True by (auto simp: conn_data_pool_handle_conn_def conn_data_pool_get_def andthen_def)
  next
    case False
    define m where "m = nat ?f"
    have f: "?f = int m" "nat (?f + 1) = Suc m" "m < ?n" using False o(3) by (auto simp: m_def)
    let ?i = "conn_free sv ! m"
    have t: "?free = take m (conn_free sv) @ [?i]" using f o(1) by (simp add: take_Suc_conv_app_nth)
    have i: "?i < ?n" "\<not> conn_open (get_conn ?i sv)" using o(5) t by auto
    define sv' where "sv' = put_conn ?i ((get_conn ?i sv)\<lparr>has_valid_config := False, conn_open := True, conn_ss := structured_stream_init (conn_ss (get_conn ?i sv)) s\<rparr>) (sv\<lparr>conn_free_i := ?f - 1\<rparr>)"
    have h: "conn_data_pool_handle_conn s sv = Some (Inr ?i, sv')" using False f o(1)
      by (simp add: conn_data_pool_handle_conn_def conn_data_pool_get_def andthen_def modify_def ret_def sv'_def get_conn_def)
    have c: "conn_free sv' = conn_free sv" "conn_free_i sv' = ?f - 1" "length (conn_pool sv') = ?n" "\<And>j. j \<noteq> ?i \<Longrightarrow> get_conn j sv' = get_conn j sv"
      "get_conn ?i sv' = (get_conn ?i sv)\<lparr>has_valid_config := False, conn_open := True, conn_ss := structured_stream_init (conn_ss (get_conn ?i sv)) s\<rparr>"
      "srv_storage sv' = srv_storage sv" using i(1) by (simp_all add: sv'_def put_conn_def get_conn_def)
    have "set (take m (conn_free sv)) = ?closed - {?i}" using o(4,5) unfolding t by auto
    also have "\<dots> = {j. j < ?n \<and> \<not> conn_open (get_conn j sv')}" using c(4,5) by (auto, metis conn_data.select_convs(3) conn_data.surjective conn_data.update_convs(1-3))
    finally have "pool_ok sv'" using c(1-3) o f unfolding t by (simp add: pool_ok_def)
    then show ?thesis using h i c by auto
  qed
qed

text \<open>The end of a connection never writes outside the array of the free slots.\<close>

lemma close_conn_ok:
  assumes "pool_ok sv" "i < length (conn_pool sv)" "conn_open (get_conn i sv)"
  shows "\<exists>sv'. close_conn i sv = Some (Inr (), sv') \<and> pool_ok sv' \<and> get_conn i sv' = (get_conn i sv)\<lparr>conn_open := False\<rparr> \<and>
    (\<forall>j. j \<noteq> i \<longrightarrow> get_conn j sv' = get_conn j sv) \<and> srv_storage sv' = srv_storage sv \<and> length (conn_pool sv') = length (conn_pool sv)"
proof -
  let ?n = "length (conn_pool sv)" and ?f = "conn_free_i sv" and ?closed = "{i. i < length (conn_pool sv) \<and> \<not> conn_open (get_conn i sv)}"
  define m where "m = nat (?f + 1)"
  have o: "length (conn_free sv) = ?n" "- 1 \<le> ?f" "distinct (take m (conn_free sv))" "set (take m (conn_free sv)) = ?closed"
    using assms(1) by (simp_all add: pool_ok_def Let_def m_def)
  have "?closed \<subset> {..<?n}" using assms(2,3) by auto
  then have m: "m < ?n" using pool_ok_free [OF assms(1)] psubset_card_mono [of "{..<?n}" ?closed] by (simp add: m_def)
  define sv' where "sv' = (put_conn i ((get_conn i sv)\<lparr>conn_open := False\<rparr>) sv)\<lparr>conn_free_i := ?f + 1, conn_free := (conn_free sv)[m := i]\<rparr>"
  have h: "close_conn i sv = Some (Inr (), sv')" using m o(1)
    by (simp add: close_conn_def andthen_def modify_def conn_data_pool_release_def put_conn_def sv'_def m_def Let_def)
  have c: "conn_free sv' = (conn_free sv)[m := i]" "conn_free_i sv' = ?f + 1" "length (conn_pool sv') = ?n" "\<And>j. j \<noteq> i \<Longrightarrow> get_conn j sv' = get_conn j sv"
    "get_conn i sv' = (get_conn i sv)\<lparr>conn_open := False\<rparr>" "srv_storage sv' = srv_storage sv" using assms(2) by (simp_all add: sv'_def put_conn_def get_conn_def)
  have n: "nat (?f + 1 + 1) = Suc m" using o(2) by (simp add: m_def)
  have t: "take (Suc m) ((conn_free sv)[m := i]) = take m (conn_free sv) @ [i]" using m o(1) by (simp add: take_Suc_conv_app_nth)
  have "set (take m (conn_free sv)) \<union> {i} = {j. j < ?n \<and> \<not> conn_open (get_conn j sv')}"
    unfolding o(4) using c(4,5) assms(2) by auto (metis conn_data.select_convs(3) conn_data.surjective conn_data.update_convs(3))+
  moreover have "i \<notin> set (take m (conn_free sv))" unfolding o(4) using assms(3) by simp
  moreover have "?f + 1 < int ?n" using m by (simp add: m_def)
  ultimately have "pool_ok sv'" using c(1-3) o(1-3) n t by (auto simp: pool_ok_def)
  then show ?thesis using h c by blast
qed

section \<open>Interleavings\<close>

text \<open>
  The states of the server that the accepting thread and the threads of the connections reach: new
  connections, requests on open connections, and the ends of open connections, in any order.
\<close>

inductive serves :: "server \<Rightarrow> bool" where
  start: "serves (conn_data_pool_init junk s n buf_size st config)"
| accept: "serves sv \<Longrightarrow> conn_data_pool_handle_conn s sv = Some (r, sv') \<Longrightarrow> serves sv'"
| request: "serves sv \<Longrightarrow> i < length (conn_pool sv) \<Longrightarrow> conn_open (get_conn i sv) \<Longrightarrow> handle_conn_rpc_code ce i sv = Some (r, sv') \<Longrightarrow> serves sv'"
| finish: "serves sv \<Longrightarrow> i < length (conn_pool sv) \<Longrightarrow> conn_open (get_conn i sv) \<Longrightarrow> close_conn i sv = Some (r, sv') \<Longrightarrow> serves sv'"

lemma serves_pool_ok: "serves sv \<Longrightarrow> pool_ok sv"
proof (induction rule: serves.induct)
  case (accept sv s r sv')
  then show ?case using handle_conn_ok [OF accept.IH, of s] by (auto split: if_splits)
next
  case (request sv i ce r sv')
  then show ?case using shape_pool_ok(1) [OF keepsD [OF keeps_rpc_code]] by blast
next
  case (finish sv i r sv')
  then show ?case using close_conn_ok [of sv i] by auto
qed (rule pool_init_ok)

text \<open>
  C17: The pool of connections is consistent in every state that the server reaches, whatever the clients send: a
  new connection is refused exactly if all slots are in use and otherwise gets a slot that serves no
  other connection, whose state stays untouched, and the end of a connection always has room to put its slot
  back.\<close>

theorem conn_pool_safe:
  assumes "serves sv"
  shows "(if \<forall>i<length (conn_pool sv). conn_open (get_conn i sv) then conn_data_pool_handle_conn s sv = Some (Inl 1, sv)
      else \<exists>i sv'. conn_data_pool_handle_conn s sv = Some (Inr i, sv') \<and> i < length (conn_pool sv) \<and> \<not> conn_open (get_conn i sv) \<and>
        conn_open (get_conn i sv') \<and> (\<forall>j. j \<noteq> i \<longrightarrow> get_conn j sv' = get_conn j sv)) \<and>
    (\<forall>i<length (conn_pool sv). conn_open (get_conn i sv) \<longrightarrow> (\<exists>sv'. close_conn i sv = Some (Inr (), sv') \<and> \<not> conn_open (get_conn i sv')))"
proof
  note ok = serves_pool_ok [OF assms]
  show "if \<forall>i<length (conn_pool sv). conn_open (get_conn i sv) then conn_data_pool_handle_conn s sv = Some (Inl 1, sv)
      else \<exists>i sv'. conn_data_pool_handle_conn s sv = Some (Inr i, sv') \<and> i < length (conn_pool sv) \<and> \<not> conn_open (get_conn i sv) \<and>
        conn_open (get_conn i sv') \<and> (\<forall>j. j \<noteq> i \<longrightarrow> get_conn j sv' = get_conn j sv)"
    using handle_conn_ok [OF ok, of s] by (auto split: if_splits)
  show "\<forall>i<length (conn_pool sv). conn_open (get_conn i sv) \<longrightarrow> (\<exists>sv'. close_conn i sv = Some (Inr (), sv') \<and> \<not> conn_open (get_conn i sv'))"
    using close_conn_ok [OF ok] by fastforce
qed


text \<open>A server with one slot, for examples.\<close>

definition example_config :: cluster_config where
  "example_config = \<lparr>cc_config = [0], cc_hash = replicate 20 0, cc_file = []\<rparr>"

definition idle_server :: "nat \<Rightarrow> server" where
  "idle_server buf_size = conn_data_pool_init (\<lambda>_. 0) example_socket 1 buf_size example_storage example_config"

text \<open>The server when its slot has taken the connection \<open>s\<close>.\<close>

definition busy_server :: "nat \<Rightarrow> socket \<Rightarrow> server" where
  "busy_server buf_size s = snd (the (conn_data_pool_handle_conn s (idle_server buf_size)))"

lemma busy_server_ok:
  "conn_data_pool_handle_conn s (idle_server buf_size) = Some (Inr 0, busy_server buf_size s)"
  "serves (busy_server buf_size s)" "length (conn_pool (busy_server buf_size s)) = 1" "conn_open (get_conn 0 (busy_server buf_size s))"
  "srv_storage (busy_server buf_size s) = example_storage" "conn_ss (get_conn 0 (busy_server buf_size s)) = structured_stream_new (\<lambda>_. 0) s buf_size buf_size"
  "\<not> has_valid_config (get_conn 0 (busy_server buf_size s))"
proof -
  have i: "serves (idle_server buf_size)" unfolding idle_server_def by (rule serves.start)
  show h: "conn_data_pool_handle_conn s (idle_server buf_size) = Some (Inr 0, busy_server buf_size s)"
    by (simp add: busy_server_def idle_server_def conn_data_pool_handle_conn_def conn_data_pool_get_def conn_data_pool_init_def andthen_def modify_def ret_def)
  show "serves (busy_server buf_size s)" by (rule serves.accept [OF i h])
  show "length (conn_pool (busy_server buf_size s)) = 1" "conn_open (get_conn 0 (busy_server buf_size s))" "srv_storage (busy_server buf_size s) = example_storage"
    "conn_ss (get_conn 0 (busy_server buf_size s)) = structured_stream_new (\<lambda>_. 0) s buf_size buf_size" "\<not> has_valid_config (get_conn 0 (busy_server buf_size s))"
    by (simp_all add: busy_server_def idle_server_def conn_data_pool_handle_conn_def conn_data_pool_get_def conn_data_pool_init_def andthen_def modify_def ret_def
      put_conn_def get_conn_def new_conn_def structured_stream_new_def structured_stream_init_def)
qed

theorem conn_pool_safe_witness:
  "conn_data_pool_handle_conn example_socket (busy_server 8 example_socket) = Some (Inl 1, busy_server 8 example_socket) \<and>
   (\<exists>sv'. close_conn 0 (busy_server 8 example_socket) = Some (Inr (), sv') \<and> \<not> conn_open (get_conn 0 sv'))"
  using conn_pool_safe [OF busy_server_ok(2) [of 8 example_socket], of example_socket] busy_server_ok(3,4) [of 8 example_socket] by auto

end
