(* ===== verification/Conn_Session.thy ===== *)
theory Conn_Session
  imports Conn_Data Conn_Pool
begin

unbundle bit_operations_syntax

text \<open>
  Whole requests and whole connections: the header, the code of a request, its handler, the loop over the
  requests and the end of the connection.
\<close>

section \<open>Requests\<close>

lemma gives_rpc:
  assumes "gives (serving i (at rn wn inp out) F) (dispatch ce i c) r Q" "ss_frame i F" "1 \<le> rn"
  shows "gives (serving i (at rn wn (c # inp) out) F) (handle_conn_rpc_code ce i) r Q"
proof -
  have b: "c # inp = le_bytes c @ inp" by (simp add: le_bytes_def)
  show ?thesis unfolding handle_conn_rpc_code_def b
    by (rule gives_andthen [OF gives_on_error(1) [OF gives_on_ss [OF gives_read_uint8 [OF assms(3)] assms(2)]]]) (rule assms(1))
qed

text \<open>At the end of the input: reading does not touch what was written.\<close>

lemma read_loop_writes: "ensure_read_loop n m ss = Some (r, ss') \<Longrightarrow> write_i ss' = write_i ss"
proof (induction n m ss arbitrary: r ss' rule: ensure_read_loop.induct)
  case (1 needed max_space ss)
  have g: "write_i ss2 = write_i ss" if "got_bytes d s' ss = Some ss2" for d s' ss2 using that by (auto simp: got_bytes_def split: bind_splits)
  obtain x s' where x: "sock_read (fd ss) max_space = (x, s')" by force
  note p = "1.prems" [unfolded ensure_read_loop.simps [of needed max_space ss] x prod.case]
  show ?case
  proof (cases x)
    case (Io_Done d)
    show ?thesis
    proof (cases "got_bytes d s' ss")
      case (Some ss2)
      show ?thesis using p Io_Done Some g [OF Some] "1.IH"(1) [OF _ x [symmetric] Io_Done _ Some, of r ss'] by (auto split: if_splits)
    qed (use p Io_Done in \<open>auto split: if_splits\<close>)
  next
    case Io_Retry
    then show ?thesis using p "1.IH"(2) [OF _ x [symmetric] Io_Retry] by (auto split: if_splits)
  qed (use p in \<open>auto split: if_splits\<close>)
qed

lemma keeps_writes: "keeps write_i (structured_stream_ensure_read n)"
  by (auto simp: keeps_def structured_stream_ensure_read_def Let_def c_assert_def split: if_splits bind_splits dest: read_loop_writes)

lemma gives_read_end:
  assumes "1 \<le> rn"
  shows "gives (flushed rn wn [] out) structured_stream_read_uint8 (Inl ERR_STRUCTURED_STREAM_EOF) (flushed rn wn [] out)"
proof (rule givesI)
  fix ss assume f: "flushed rn wn [] out ss"
  have "length ([] :: byte list) < 1" by simp
  from givesD [OF gives_read_eof [OF assms this], of wn out ss] f obtain ss' where
    r: "structured_stream_read_bytes 1 ss = Some (Inl ERR_STRUCTURED_STREAM_EOF, ss')" "at rn wn [] out ss'" by (auto simp: flushed_def)
  have "keeps write_i (structured_stream_read_bytes 1)" unfolding structured_stream_read_bytes_def
    by (intro keeps_andthen keeps_writes) (auto simp: keeps_def advance_read_def split: if_splits bind_splits)
  from keepsD [OF this r(1)] show "\<exists>s'. structured_stream_read_uint8 ss = Some (Inl ERR_STRUCTURED_STREAM_EOF, s') \<and> flushed rn wn [] out s'"
    using f r by (simp add: structured_stream_read_uint8_def andthen_def flushed_def)
qed

lemma gives_rpc_end:
  assumes "ss_frame i F" "1 \<le> rn"
  shows "gives (serving i (flushed rn wn [] out) F) (handle_conn_rpc_code ce i) (Inl 1) (serving i (flushed rn wn [] out) F)"
proof -
  note gives_on_ss [OF gives_read_end [OF assms(2)] assms(1), of wn out]
  from gives_andthen_error [OF gives_on_error(2) [OF this, of "\<lambda>_. 1"]] show ?thesis unfolding handle_conn_rpc_code_def .
qed

lemma gives_rpc_loop_end:
  assumes "ss_frame i F" "1 \<le> rn"
  shows "gives (serving i (flushed rn wn [] out) F) (rpc_loop ce i) (Inl 1) (serving i (flushed rn wn [] out) F)"
proof (rule givesI)
  fix sv assume "serving i (flushed rn wn [] out) F sv"
  from givesD [OF gives_rpc_end [OF assms] this, of ce] show "\<exists>s'. rpc_loop ce i sv = Some (Inl 1, s') \<and> serving i (flushed rn wn [] out) F s'"
    by (auto simp: rpc_loop.simps)
qed

lemma rpc_loop_step:
  assumes "handle_conn_rpc_code ce i sv = Some (Inr (), sv')"
  shows "rpc_loop ce i sv = rpc_loop ce i sv'"
  using assms by (subst rpc_loop.simps) simp

lemma serving_flushed: "serving i (flushed rn wn inp out) F sv \<Longrightarrow> serving i (at rn wn inp out) F sv"
  by (simp add: serving_def flushed_def)

lemma dispatch_simps:
  "dispatch ce i RPC_PUT_DATA = handle_conn_put_data ce i" "dispatch ce i RPC_GET_DATA = handle_conn_get_data ce i"
  "dispatch ce i RPC_QUERY_LFMS = handle_conn_query_lfms ce i" "dispatch ce i RPC_GET_STATUS = handle_conn_get_status i"
  "dispatch ce i RPC_GET_CLUSTER_CONFIG = handle_conn_get_cluster_config i" "dispatch ce i RPC_SET_CLUSTER_CONFIG = handle_conn_set_cluster_config ce i"
  "dispatch ce i RPC_REGISTER_CLIENT_CLUSTER_CONFIG = handle_conn_register_client_cluster_config i" "dispatch ce i RPC_GET_VERSION = handle_conn_get_version ce i"
  by (simp_all add: dispatch_def rpc_defs)

section \<open>Putting and getting points\<close>

definition request_ok :: "nat \<Rightarrow> byte list list \<Rightarrow> bool" where
  "request_ok rn ks \<longleftrightarrow> length ks < 2 ^ 16 \<and> (\<forall>k\<in>set ks. length k + 2 \<le> rn \<and> length k < 2 ^ 16)"

definition flag :: "bool \<Rightarrow> u8 \<Rightarrow> u8" where
  "flag v e = (if v then e else e OR CLUSTER_CONFIG_OUT_OF_DATE)"

lemma rpc_put:
  assumes "env_ok (ce_env ce)" "batch_ok bs" "MAX_LFM_SIZE + 2 \<le> rn" "5 \<le> wn"
    and sv: "i < length (conn_pool sv)" "at rn wn (RPC_PUT_DATA # enc_batch bs @ inp) out (conn_ss (get_conn i sv))"
    and st: "storage_good (srv_storage sv) db" "has_room (srv_storage sv) (2 * length (points_with_keys bs))" "w \<longrightarrow> initial_tsc_buf_size (srv_storage sv) mod 8 = 4"
  shows "\<exists>sv' db'. handle_conn_rpc_code ce i sv = Some (Inr (), sv') \<and> i < length (conn_pool sv') \<and>
    flushed rn wn inp (out @ [flag (has_valid_config (get_conn i sv)) STATUS_OK]) (conn_ss (get_conn i sv')) \<and>
    has_valid_config (get_conn i sv') = has_valid_config (get_conn i sv) \<and> storage_good (srv_storage sv') db' \<and>
    (\<forall>k. appended w (points_of db k) (fresh (earliest ce sv) k (points_with_keys bs)) (points_of db' k))"
proof -
  let ?v = "has_valid_config (get_conn i sv)" and ?ps = "points_with_keys bs" and ?e = "earliest ce sv"
  let ?F = "\<lambda>sv. stored i db (earliest ce sv) w ?v (length ?ps) [] sv \<and> earliest ce sv = ?e"
  have 1: "1 \<le> rn" using assms(3) by simp
  have fr: "ss_frame i ?F" using stored_frame by (auto simp: ss_frame_def stored_def earliest_def)
  have "stored i db ?e w ?v (length ?ps) [] sv" using st by (auto simp: stored_def appended_refl)
  then have s: "serving i (at rn wn (RPC_PUT_DATA # enc_batch bs @ inp) out) ?F sv" using sv by (simp add: serving_def)
  have "gives (serving i (at rn wn (enc_batch bs @ inp) out) ?F) (dispatch ce i RPC_PUT_DATA) (Inr ())
      (serving i (flushed rn wn inp (out @ [flag ?v STATUS_OK])) (stored i db ?e w ?v (length ?ps) ?ps))"
    unfolding dispatch_simps flag_def by (rule gives_put_data [OF assms(1-4)])
  from givesD [OF gives_rpc [OF this fr 1] s] obtain sv' where "handle_conn_rpc_code ce i sv = Some (Inr (), sv')"
    "serving i (flushed rn wn inp (out @ [flag ?v STATUS_OK])) (stored i db ?e w ?v (length ?ps) ?ps) sv'" by blast
  then show ?thesis by (auto simp: serving_def stored_def)
qed

lemma rpc_get:
  assumes "request_ok rn ks" "2 \<le> rn" "8 \<le> wn"
    and sv: "i < length (conn_pool sv)" "at rn wn (RPC_GET_DATA # enc_keys ks @ inp) out (conn_ss (get_conn i sv))" "storage_good (srv_storage sv) db"
    and a: "a = answers db ks (if keys_fit 0 ks then STATUS_OK else STATUS_TOO_MANY_METRICS)"
  shows "\<exists>sv'. handle_conn_rpc_code ce i sv = Some (Inr (), sv') \<and> i < length (conn_pool sv') \<and>
    flushed rn wn inp (out @ fst a @ [flag (has_valid_config (get_conn i sv)) (snd a)]) (conn_ss (get_conn i sv')) \<and>
    has_valid_config (get_conn i sv') = has_valid_config (get_conn i sv) \<and> storage_good (srv_storage sv') db"
proof -
  let ?v = "has_valid_config (get_conn i sv)"
  have s: "serving i (at rn wn (RPC_GET_DATA # enc_keys ks @ inp) out) (reading i db ?v) sv" using sv by (simp add: serving_def reading_def)
  have k: "length ks < 2 ^ 16" "\<forall>k\<in>set ks. length k + 2 \<le> rn \<and> length k < 2 ^ 16" and 1: "1 \<le> rn" using assms(1,2) by (simp_all add: request_ok_def)
  have "gives (serving i (at rn wn (enc_keys ks @ inp) out) (reading i db ?v)) (dispatch ce i RPC_GET_DATA) (Inr ())
      (serving i (flushed rn wn inp (out @ fst a @ [flag ?v (snd a)])) (reading i db ?v))"
    unfolding dispatch_simps flag_def by (rule gives_get_data [OF k assms(2,3) a])
  from givesD [OF gives_rpc [OF this reading_frame 1] s] show ?thesis by (auto simp: serving_def reading_def)
qed

text \<open>When all series fit the answer.\<close>

lemma answers_points:
  assumes "\<forall>k\<in>set ks. length (points_of db k) \<le> MAX_PTS_PER_SERIES"
  shows "answers db ks 0 = (concat (map (\<lambda>k. enc_answer (points_of db k)) ks), 0)"
  using assms by (induction ks) (auto simp: get_result_def points_of_def split: option.splits)


section \<open>Example\<close>

text \<open>A connection that sends \<open>inp\<close>, of which the first byte arrives alone, and the request of the examples: two points for one key.\<close>

definition conn_with :: "byte list \<Rightarrow> socket" where
  "conn_with inp = \<lparr>inbox = inp, rx = [Io_Some 1, Io_Again], sent = [], tx = []\<rparr>"

definition example_conn_env :: conn_env where
  "example_conn_env = \<lparr>ce_env = example_env, ce_time = 200, ce_sha1 = (\<lambda>_. replicate 20 0), ce_git_commit = [0], ce_build_time = [0]\<rparr>"

definition example_batch :: "(byte list \<times> point list) list" where
  "example_batch = [(example_key, example_points)]"

lemma conn_with_at: "at 2048 2048 inp [] (conn_ss (get_conn 0 (busy_server 2048 (conn_with inp))))"
  using at_new [of 2048 2048 "conn_with inp" "\<lambda>_. 0"] unfolding busy_server_ok(6) by (simp add: conn_with_def)

lemma conn_with_ok: "0 < length (conn_pool (busy_server 2048 (conn_with inp)))" "storage_good (srv_storage (busy_server 2048 (conn_with inp))) Map.empty"
  "earliest example_conn_env (busy_server 2048 (conn_with inp)) = - 800"
  using busy_server_ok(3,5) [of 2048 "conn_with inp"] example_storage_ok(2,4) by (simp_all add: earliest_def example_conn_env_def)

lemma example_batch_ok: "env_ok (ce_env example_conn_env)" "batch_ok example_batch" "length (points_with_keys example_batch) = 2"
  "request_ok 2048 [example_key]" "keys_fit 0 [example_key]" "MAX_LFM_SIZE + 2 \<le> 2048"
  using example_env_ok by (simp_all add: example_conn_env_def example_batch_def batch_ok_def points_with_keys_def example_key_def example_points_def request_ok_def handler_limits)

lemma example_new: "map snd (filter (\<lambda>q. fst q = example_key) (points_with_keys example_batch)) = example_points"
  "fresh (- 800) example_key (points_with_keys example_batch) = example_points"
  by (simp_all add: example_batch_def points_with_keys_def example_points_def fresh_def)

lemma example_in_order: "in_order (points_of Map.empty example_key @ example_points)"
  using example_increasing by (simp add: in_order_def)

section \<open>Properties\<close>

text \<open>
  C14: The request that writes points. For every batch of series that a client encodes, the handler never fails an
  assertion, consumes exactly the request, and answers with one byte. Afterwards each series of the
  database is extended by some of the points that were sent for its key and are not before the retention
  limit, in their order; by all of them if that keeps the series in increasing order (with time stamps below
  2^31 and a block size that is a whole number of words). The answer does not depend on it.\<close>

theorem put_data_request:
  assumes "env_ok (ce_env ce)" "batch_ok bs" "MAX_LFM_SIZE + 2 \<le> rn" "5 \<le> wn"
    and "i < length (conn_pool sv)" "at rn wn (RPC_PUT_DATA # enc_batch bs @ inp) out (conn_ss (get_conn i sv))"
    and "storage_good (srv_storage sv) db" "has_room (srv_storage sv) (2 * length (points_with_keys bs))"
  shows "\<exists>sv' db'. handle_conn_rpc_code ce i sv = Some (Inr (), sv') \<and>
    at rn wn inp (out @ [flag (has_valid_config (get_conn i sv)) STATUS_OK]) (conn_ss (get_conn i sv')) \<and> storage_good (srv_storage sv') db' \<and>
    (\<forall>k. \<exists>acc. points_of db' k = points_of db k @ acc \<and> subseq acc (fresh (earliest ce sv) k (points_with_keys bs)) \<and>
      (initial_tsc_buf_size (srv_storage sv) mod 8 = 4 \<and> in_order (points_of db k @ fresh (earliest ce sv) k (points_with_keys bs)) \<longrightarrow>
        acc = fresh (earliest ce sv) k (points_with_keys bs)))"
proof -
  have "initial_tsc_buf_size (srv_storage sv) mod 8 = 4 \<longrightarrow> initial_tsc_buf_size (srv_storage sv) mod 8 = 4" by simp
  from rpc_put [OF assms this] show ?thesis unfolding appended_def flushed_def by blast
qed

theorem put_data_request_witness:
  "\<exists>sv' db'. handle_conn_rpc_code example_conn_env 0 (busy_server 2048 (conn_with (RPC_PUT_DATA # enc_batch example_batch))) = Some (Inr (), sv') \<and>
     storage_good (srv_storage sv') db' \<and> points_of db' example_key = example_points"
proof -
  let ?sv = "busy_server 2048 (conn_with (RPC_PUT_DATA # enc_batch example_batch @ []))"
  have r: "has_room (srv_storage ?sv) (2 * length (points_with_keys example_batch))" "initial_tsc_buf_size (srv_storage ?sv) mod 8 = 4"
    unfolding busy_server_ok(5) example_batch_ok(3) using example_storage_ok(3,5) by simp_all
  have "5 \<le> (2048 :: nat)" by simp
  from put_data_request [OF example_batch_ok(1,2,6) this conn_with_ok(1) conn_with_at conn_with_ok(2) r(1)] r(2)
  obtain sv' db' acc where "handle_conn_rpc_code example_conn_env 0 ?sv = Some (Inr (), sv')" "storage_good (srv_storage sv') db'"
    "points_of db' example_key = points_of Map.empty example_key @ acc"
    "in_order (points_of Map.empty example_key @ fresh (earliest example_conn_env ?sv) example_key (points_with_keys example_batch)) \<longrightarrow>
       acc = fresh (earliest example_conn_env ?sv) example_key (points_with_keys example_batch)" by metis
  then show ?thesis unfolding conn_with_ok(3) example_new using example_in_order by (auto simp: points_of_def)
qed

text \<open>
  C15: The request that reads points. It never fails an assertion and consumes exactly the request. The answer has for
  each key, in the order of the request, the number of points and the points of its series; none for an
  unknown key. If the keys do not fit the buffer of the handler, all counts are zero and the status says so; after a
  series that is too long the remaining counts are zero and the status is an unknown error.\<close>

theorem get_data_request:
  assumes "request_ok rn ks" "2 \<le> rn" "8 \<le> wn"
    and "i < length (conn_pool sv)" "at rn wn (RPC_GET_DATA # enc_keys ks @ inp) out (conn_ss (get_conn i sv))" "storage_good (srv_storage sv) db"
  shows "\<exists>sv' bs e. answers db ks (if keys_fit 0 ks then STATUS_OK else STATUS_TOO_MANY_METRICS) = (bs, e) \<and> handle_conn_rpc_code ce i sv = Some (Inr (), sv') \<and>
    at rn wn inp (out @ bs @ [flag (has_valid_config (get_conn i sv)) e]) (conn_ss (get_conn i sv')) \<and> storage_good (srv_storage sv') db"
  using rpc_get [OF assms refl] unfolding flushed_def by (metis prod.collapse)

theorem get_data_request_witness:
  "\<exists>sv'. handle_conn_rpc_code example_conn_env 0 (busy_server 2048 (conn_with (RPC_GET_DATA # enc_keys [example_key]))) = Some (Inr (), sv') \<and>
     outgoing (conn_ss (get_conn 0 sv')) = le_bytes (0 :: u32) @ [STATUS_OK OR CLUSTER_CONFIG_OUT_OF_DATE]"
proof -
  have n: "2 \<le> (2048 :: nat)" "8 \<le> (2048 :: nat)" by simp_all
  have "answers Map.empty [example_key] STATUS_OK = (le_bytes (0 :: u32), STATUS_OK)"
    by (simp add: get_result_def enc_answer_def STATUS_OK_def)
  then have a: "answers Map.empty [example_key] (if keys_fit 0 [example_key] then STATUS_OK else STATUS_TOO_MANY_METRICS) = (le_bytes (0 :: u32), STATUS_OK)"
    using example_batch_ok(5) by (simp only: if_True)
  from get_data_request [OF example_batch_ok(4) n conn_with_ok(1) conn_with_at [of "RPC_GET_DATA # enc_keys [example_key] @ []"] conn_with_ok(2), of example_conn_env, unfolded a]
  show ?thesis using busy_server_ok(7) by (auto simp: at_def flag_def)
qed

lemma session_put_get:
  assumes "pool_ok sv" "i < length (conn_pool sv)" "conn_open (get_conn i sv)" "env_ok (ce_env ce)" "batch_ok bs" "request_ok rn ks" "keys_fit 0 ks"
    and "at rn wn (le_bytes MENOETIUS_RPC_MAGIC_HEADER @ RPC_PUT_DATA # enc_batch bs @ RPC_GET_DATA # enc_keys ks) [] (conn_ss (get_conn i sv))"
    and "MAX_LFM_SIZE + 2 \<le> rn" "8 \<le> wn" "storage_good (srv_storage sv) db" "has_room (srv_storage sv) (2 * length (points_with_keys bs))"
    and "initial_tsc_buf_size (srv_storage sv) mod 8 = 4"
    and series: "\<forall>k\<in>set ks. new k = map snd (filter (\<lambda>q. fst q = k) (points_with_keys bs)) \<and> in_order (points_of db k @ new k) \<and>
      length (points_of db k @ new k) \<le> MAX_PTS_PER_SERIES \<and> (\<forall>q\<in>set (new k). earliest ce sv \<le> sint (fst q))"
  shows "\<exists>sv'. conn_handler_thread_run ce i sv = Some (Inr (), sv') \<and> pool_ok sv' \<and> \<not> conn_open (get_conn i sv') \<and>
    sent (fd (conn_ss (get_conn i sv'))) = [flag (has_valid_config (get_conn i sv)) STATUS_OK] @
      concat (map (\<lambda>k. enc_answer (points_of db k @ new k)) ks) @ [flag (has_valid_config (get_conn i sv)) STATUS_OK]"
proof -
  let ?v = "has_valid_config (get_conn i sv)" and ?n = "length (conn_pool sv)" and ?req = "RPC_PUT_DATA # enc_batch bs @ RPC_GET_DATA # enc_keys ks"
  let ?F = "\<lambda>sv'. srv_storage sv' = srv_storage sv \<and> has_valid_config (get_conn i sv') = ?v"
  have rn: "8 \<le> rn" "1 \<le> rn" "2 \<le> rn" and wn: "5 \<le> wn" using assms(9,10) by (simp_all add: MAX_LFM_SIZE_def)
  have "ss_frame i ?F" by (simp add: ss_frame_def)
  moreover have "serving i (at rn wn (le_bytes MENOETIUS_RPC_MAGIC_HEADER @ ?req) []) ?F sv" using assms(2,8) by (simp add: serving_def)
  ultimately obtain s1 where r1: "on_ss i structured_stream_read_uint64 sv = Some (Inr MENOETIUS_RPC_MAGIC_HEADER, s1)" and "serving i (at rn wn ?req []) ?F s1"
    using givesD [OF gives_on_ss [OF gives_read_uint64 [OF rn(1)]]] by blast
  then have s1: "i < length (conn_pool s1)" "at rn wn ?req [] (conn_ss (get_conn i s1))" "srv_storage s1 = srv_storage sv" "has_valid_config (get_conn i s1) = ?v"
    by (simp_all add: serving_def)
  have e1: "handle_conn_rpc_entry i sv = Some (Inr (), s1)" using r1 by (simp add: handle_conn_rpc_entry_def andthen_def ret_def)
  have "storage_good (srv_storage s1) db" "has_room (srv_storage s1) (2 * length (points_with_keys bs))" "True \<longrightarrow> initial_tsc_buf_size (srv_storage s1) mod 8 = 4"
    unfolding s1(3) using assms(11-13) by simp_all
  from rpc_put [OF assms(4,5,9) wn s1(1,2) this] obtain s2 db' where s2: "handle_conn_rpc_code ce i s1 = Some (Inr (), s2)" "i < length (conn_pool s2)"
    "flushed rn wn (RPC_GET_DATA # enc_keys ks) ([] @ [flag ?v STATUS_OK]) (conn_ss (get_conn i s2))" "has_valid_config (get_conn i s2) = ?v" "storage_good (srv_storage s2) db'"
    "\<forall>k. appended True (points_of db k) (fresh (earliest ce s1) k (points_with_keys bs)) (points_of db' k)" unfolding s1(4) by blast
  have es: "earliest ce s1 = earliest ce sv" unfolding earliest_def s1(3) ..
  have pts: "points_of db' k = points_of db k @ new k" if "k \<in> set ks" for k
  proof -
    have n: "new k = map snd (filter (\<lambda>q. fst q = k) (points_with_keys bs))" "in_order (points_of db k @ new k)" "\<forall>q\<in>set (new k). earliest ce sv \<le> sint (fst q)"
      using series that by blast+
    have "fresh (earliest ce s1) k (points_with_keys bs) = new k"
      using n(3) unfolding n(1) es fresh_def by (fastforce intro!: arg_cong [of _ _ "map snd"] filter_cong)
    then show ?thesis using s2(6) n(2) by (auto simp: appended_def dest!: spec [of _ k])
  qed
  define a where "a = answers db' ks (if keys_fit 0 ks then STATUS_OK else STATUS_TOO_MANY_METRICS)"
  have "\<forall>k\<in>set ks. length (points_of db' k) \<le> MAX_PTS_PER_SERIES" using pts series by auto
  from answers_points [OF this] have a: "a = (concat (map (\<lambda>k. enc_answer (points_of db k @ new k)) ks), STATUS_OK)"
    using assms(7) pts by (simp add: a_def STATUS_OK_def cong: map_cong)
  let ?out = "[flag ?v STATUS_OK] @ fst a @ [flag ?v (snd a)]"
  have "at rn wn (RPC_GET_DATA # enc_keys ks @ []) [flag ?v STATUS_OK] (conn_ss (get_conn i s2))" using s2(3) by (simp add: flushed_def)
  from rpc_get [OF assms(6) rn(3) assms(10) s2(2) this s2(5) a_def] obtain s3 where s3: "handle_conn_rpc_code ce i s2 = Some (Inr (), s3)"
    "serving i (flushed rn wn [] ?out) (\<lambda>_. True) s3" unfolding s2(4) serving_def by blast
  have "ss_frame i (\<lambda>_. True)" by (simp add: ss_frame_def)
  from givesD [OF gives_rpc_loop_end [OF this rn(2)] s3(2), of ce] obtain s4 where s4: "rpc_loop ce i s3 = Some (Inl 1, s4)" "serving i (flushed rn wn [] ?out) (\<lambda>_. True) s4" by blast
  have loop: "rpc_loop ce i s1 = Some (Inl 1, s4)" using rpc_loop_step [OF s2(1)] rpc_loop_step [OF s3(1)] s4(1) by simp
  have "pool_shape s4 = pool_shape sv"
    using keepsD [OF keeps_on_ss r1] keepsD [OF keeps_rpc_code s2(1)] keepsD [OF keeps_rpc_code s3(1)] keepsD [OF keeps_rpc_loop s4(1)] by simp
  note sh = shape_pool_ok [OF this]
  have "pool_ok s4" "i < length (conn_pool s4)" "conn_open (get_conn i s4)" using sh assms(1-3) by simp_all
  from close_conn_ok [OF this] obtain sv' where c: "close_conn i s4 = Some (Inr (), sv')" "pool_ok sv'" "get_conn i sv' = (get_conn i s4)\<lparr>conn_open := False\<rparr>" by blast
  have "conn_handler_thread_run ce i sv = Some (Inr (), sv')" using e1 loop c(1) by (simp add: conn_handler_thread_run_def andthen_def)
  moreover have "sent (fd (conn_ss (get_conn i sv'))) = ?out" using s4(2) c(3) by (auto simp: serving_def flushed_def at_def outgoing_def)
  ultimately show ?thesis using c(2,3) a by simp
qed



section \<open>Connections with one request\<close>

text \<open>The header, one request and the end of the connection; \<open>F\<close> is what the request makes of the server.\<close>

lemma session_one:
  assumes "pool_ok sv" "i < length (conn_pool sv)" "conn_open (get_conn i sv)" "8 \<le> rn" "ss_frame i F"
    and "at rn wn (le_bytes MENOETIUS_RPC_MAGIC_HEADER @ req) [] (conn_ss (get_conn i sv))"
    and step: "\<forall>s1. i < length (conn_pool s1) \<and> at rn wn req [] (conn_ss (get_conn i s1)) \<and> srv_storage s1 = srv_storage sv \<and>
      has_valid_config (get_conn i s1) = has_valid_config (get_conn i sv) \<longrightarrow> (\<exists>s2. handle_conn_rpc_code ce i s1 = Some (Inr (), s2) \<and> serving i (flushed rn wn [] out) F s2)"
  shows "\<exists>sv' s4. conn_handler_thread_run ce i sv = Some (Inr (), sv') \<and> pool_ok sv' \<and> \<not> conn_open (get_conn i sv') \<and> sent (fd (conn_ss (get_conn i sv'))) = out \<and>
    F s4 \<and> srv_storage sv' = srv_storage s4"
proof -
  let ?G = "\<lambda>sv'. srv_storage sv' = srv_storage sv \<and> has_valid_config (get_conn i sv') = has_valid_config (get_conn i sv)"
  have "ss_frame i ?G" by (simp add: ss_frame_def)
  moreover have "serving i (at rn wn (le_bytes MENOETIUS_RPC_MAGIC_HEADER @ req) []) ?G sv" using assms(2,6) by (simp add: serving_def)
  ultimately obtain s1 where r1: "on_ss i structured_stream_read_uint64 sv = Some (Inr MENOETIUS_RPC_MAGIC_HEADER, s1)" and "serving i (at rn wn req []) ?G s1"
    using givesD [OF gives_on_ss [OF gives_read_uint64 [OF assms(4)]]] by blast
  then obtain s2 where s2: "handle_conn_rpc_code ce i s1 = Some (Inr (), s2)" "serving i (flushed rn wn [] out) F s2" using step unfolding serving_def by blast
  have e1: "handle_conn_rpc_entry i sv = Some (Inr (), s1)" using r1 by (simp add: handle_conn_rpc_entry_def andthen_def ret_def)
  have "1 \<le> rn" using assms(4) by simp
  from givesD [OF gives_rpc_loop_end [OF assms(5) this] s2(2), of ce] obtain s4 where s4: "rpc_loop ce i s2 = Some (Inl 1, s4)" "serving i (flushed rn wn [] out) F s4" by blast
  have loop: "rpc_loop ce i s1 = Some (Inl 1, s4)" using rpc_loop_step [OF s2(1)] s4(1) by simp
  have "pool_shape s4 = pool_shape sv" using keepsD [OF keeps_on_ss r1] keepsD [OF keeps_rpc_code s2(1)] keepsD [OF keeps_rpc_loop s4(1)] by simp
  note sh = shape_pool_ok [OF this]
  have "pool_ok s4" "i < length (conn_pool s4)" "conn_open (get_conn i s4)" using sh assms(1-3) by simp_all
  from close_conn_ok [OF this] obtain sv' where c: "close_conn i s4 = Some (Inr (), sv')" "pool_ok sv'" "get_conn i sv' = (get_conn i s4)\<lparr>conn_open := False\<rparr>"
    "srv_storage sv' = srv_storage s4" by blast
  have "conn_handler_thread_run ce i sv = Some (Inr (), sv')" using e1 loop c(1) by (simp add: conn_handler_thread_run_def andthen_def)
  then show ?thesis using s4(2) c by (auto simp: serving_def flushed_def at_def outgoing_def)
qed

lemma session_put:
  assumes "pool_ok sv" "i < length (conn_pool sv)" "conn_open (get_conn i sv)" "env_ok (ce_env ce)" "batch_ok bs"
    and "at rn wn (le_bytes MENOETIUS_RPC_MAGIC_HEADER @ RPC_PUT_DATA # enc_batch bs) [] (conn_ss (get_conn i sv))" "MAX_LFM_SIZE + 2 \<le> rn" "5 \<le> wn"
    and "storage_good (srv_storage sv) db" "has_room (srv_storage sv) (2 * length (points_with_keys bs))" "w \<longrightarrow> initial_tsc_buf_size (srv_storage sv) mod 8 = 4"
  shows "\<exists>sv' db'. conn_handler_thread_run ce i sv = Some (Inr (), sv') \<and> pool_ok sv' \<and> \<not> conn_open (get_conn i sv') \<and>
    sent (fd (conn_ss (get_conn i sv'))) = [flag (has_valid_config (get_conn i sv)) STATUS_OK] \<and> storage_good (srv_storage sv') db' \<and>
    (\<forall>k. appended w (points_of db k) (fresh (earliest ce sv) k (points_with_keys bs)) (points_of db' k))"
proof -
  let ?F = "\<lambda>sv' :: server. \<exists>db'. storage_good (srv_storage sv') db' \<and> (\<forall>k. appended w (points_of db k) (fresh (earliest ce sv) k (points_with_keys bs)) (points_of db' k))"
  let ?out = "[flag (has_valid_config (get_conn i sv)) STATUS_OK]"
  have fr: "ss_frame i ?F" by (simp add: ss_frame_def)
  have step: "\<forall>s1. i < length (conn_pool s1) \<and> at rn wn (RPC_PUT_DATA # enc_batch bs) [] (conn_ss (get_conn i s1)) \<and> srv_storage s1 = srv_storage sv \<and>
      has_valid_config (get_conn i s1) = has_valid_config (get_conn i sv) \<longrightarrow> (\<exists>s2. handle_conn_rpc_code ce i s1 = Some (Inr (), s2) \<and> serving i (flushed rn wn [] ?out) ?F s2)"
  proof (intro allI impI, elim conjE)
    fix s1
    assume s1: "i < length (conn_pool s1)" "at rn wn (RPC_PUT_DATA # enc_batch bs) [] (conn_ss (get_conn i s1))" "srv_storage s1 = srv_storage sv"
      "has_valid_config (get_conn i s1) = has_valid_config (get_conn i sv)"
    have e: "earliest ce s1 = earliest ce sv" unfolding earliest_def s1(3) ..
    from rpc_put [OF assms(4,5,7,8) s1(1), of "[]" "[]" db w] show "\<exists>s2. handle_conn_rpc_code ce i s1 = Some (Inr (), s2) \<and> serving i (flushed rn wn [] ?out) ?F s2" using s1 assms(9-11) e by (auto simp: serving_def)
  qed
  have "8 \<le> rn" using assms(7) by (simp add: MAX_LFM_SIZE_def)
  from session_one [OF assms(1-3) this fr assms(6) step] obtain sv' s4 where
    s: "conn_handler_thread_run ce i sv = Some (Inr (), sv') \<and> pool_ok sv' \<and> \<not> conn_open (get_conn i sv') \<and> sent (fd (conn_ss (get_conn i sv'))) = ?out \<and> ?F s4 \<and> srv_storage sv' = srv_storage s4"
    by (elim exE)
  then obtain db' where "storage_good (srv_storage s4) db'" "\<forall>k. appended w (points_of db k) (fresh (earliest ce sv) k (points_with_keys bs)) (points_of db' k)" by (elim conjE exE)
  with s show ?thesis by (intro exI [of _ sv'] exI [of _ db']) simp
qed

lemma session_get:
  assumes "pool_ok sv" "i < length (conn_pool sv)" "conn_open (get_conn i sv)" "request_ok rn ks" "keys_fit 0 ks"
    and "at rn wn (le_bytes MENOETIUS_RPC_MAGIC_HEADER @ RPC_GET_DATA # enc_keys ks) [] (conn_ss (get_conn i sv))" "8 \<le> rn" "8 \<le> wn"
    and "storage_good (srv_storage sv) db" "\<forall>k\<in>set ks. length (points_of db k) \<le> MAX_PTS_PER_SERIES"
  shows "\<exists>sv'. conn_handler_thread_run ce i sv = Some (Inr (), sv') \<and> pool_ok sv' \<and> \<not> conn_open (get_conn i sv') \<and>
    sent (fd (conn_ss (get_conn i sv'))) = concat (map (\<lambda>k. enc_answer (points_of db k)) ks) @ [flag (has_valid_config (get_conn i sv)) STATUS_OK] \<and>
    storage_good (srv_storage sv') db"
proof -
  let ?F = "\<lambda>sv' :: server. storage_good (srv_storage sv') db"
  let ?out = "concat (map (\<lambda>k. enc_answer (points_of db k)) ks) @ [flag (has_valid_config (get_conn i sv)) STATUS_OK]"
  have a: "(concat (map (\<lambda>k. enc_answer (points_of db k)) ks), 0) = answers db ks (if keys_fit 0 ks then STATUS_OK else STATUS_TOO_MANY_METRICS)"
    using answers_points [OF assms(10)] assms(5) by (simp add: STATUS_OK_def)
  have fr: "ss_frame i ?F" by (simp add: ss_frame_def)
  have step: "\<forall>s1. i < length (conn_pool s1) \<and> at rn wn (RPC_GET_DATA # enc_keys ks) [] (conn_ss (get_conn i s1)) \<and> srv_storage s1 = srv_storage sv \<and>
      has_valid_config (get_conn i s1) = has_valid_config (get_conn i sv) \<longrightarrow> (\<exists>s2. handle_conn_rpc_code ce i s1 = Some (Inr (), s2) \<and> serving i (flushed rn wn [] ?out) ?F s2)"
  proof (intro allI impI, elim conjE)
    fix s1
    assume s1: "i < length (conn_pool s1)" "at rn wn (RPC_GET_DATA # enc_keys ks) [] (conn_ss (get_conn i s1))" "srv_storage s1 = srv_storage sv"
      "has_valid_config (get_conn i s1) = has_valid_config (get_conn i sv)"
    have "2 \<le> rn" using assms(7) by simp
    from rpc_get [OF assms(4) this assms(8) s1(1) _ _ a, of "[]" "[]"] show "\<exists>s2. handle_conn_rpc_code ce i s1 = Some (Inr (), s2) \<and> serving i (flushed rn wn [] ?out) ?F s2" using s1 assms(9) by (auto simp: serving_def STATUS_OK_def)
  qed
  from session_one [OF assms(1-3,7) fr assms(6) step] show ?thesis by auto
qed

end
