(* ===== verification/Conn_Config.thy ===== *)
theory Conn_Config
  imports Conn_Session
begin

unbundle bit_operations_syntax

text \<open>
  The configuration of the cluster: a client sets it, other clients read it together with its hash and register
  the hash; every answer to a client that has not registered the current hash carries a flag.
\<close>

section \<open>The requests\<close>

definition config_is :: "(byte list \<Rightarrow> byte list) \<Rightarrow> byte list \<Rightarrow> server \<Rightarrow> bool" where
  "config_is sha1 s sv \<longleftrightarrow> cc_config (srv_config sv) = s @ [0] \<and> cc_hash (srv_config sv) = sha1 s \<and> cc_file (srv_config sv) = s"

lemma gives_status:
  assumes "ss_frame i F" "1 \<le> wn"
  shows "gives (serving i (at rn wn inp out) F) (andthen (on_ss i (structured_stream_write_uint8 e)) (\<lambda>_. on_ss i structured_stream_flush)) (Inr ())
    (serving i (flushed rn wn inp (out @ [e])) F)"
proof -
  have b: "le_bytes e = [e]" by (simp add: le_bytes_def)
  show ?thesis using gives_andthen [OF gives_on_ss [OF gives_write_uint8 [OF assms(2)] assms(1)] gives_on_ss [OF gives_flush assms(1)], of rn inp out e] unfolding b .
qed

definition none_valid :: "server \<Rightarrow> bool" where
  "none_valid sv \<longleftrightarrow> (\<forall>d\<in>set (conn_pool sv). \<not> has_valid_config d)"

lemma none_valid_put: "none_valid sv \<Longrightarrow> \<not> has_valid_config d \<Longrightarrow> none_valid (put_conn i d sv)"
  by (auto simp: none_valid_def put_conn_def dest: set_update_subset_insert [THEN subsetD])

lemma config_saved:
  assumes "plain s"
  shows "config_is sha1 s (sv\<lparr>srv_config := save_cluster_config_to_disk sha1 (c\<lparr>cc_config := s @ [0]\<rparr>), conn_pool := p\<rparr>)"
  using assms c_string_zero [of s "[]"] strlen_zero [of s "[]"] by (simp add: plain_def config_is_def save_cluster_config_to_disk_def Let_def file_write_def)

lemma gives_set_config:
  assumes "plain s" "length s + 2 \<le> rn" "length s < 2 ^ 16" "1 \<le> wn"
  shows "gives (serving i (at rn wn (RPC_SET_CLUSTER_CONFIG # prefixed s @ inp) out) (\<lambda>_. True)) (handle_conn_rpc_code ce i) (Inr ())
    (serving i (flushed rn wn inp (out @ [STATUS_OK])) (\<lambda>sv. config_is (ce_sha1 ce) s sv \<and> none_valid sv))"
proof (rule gives_rpc)
  show t: "ss_frame i (\<lambda>_. True)" by (simp add: ss_frame_def)
  show "1 \<le> rn" using assms(2) by simp
  let ?F = "\<lambda>sv. config_is (ce_sha1 ce) s sv \<and> none_valid sv"
  let ?m = "modify (\<lambda>sv. sv\<lparr>srv_config := save_cluster_config_to_disk (ce_sha1 ce) ((srv_config sv)\<lparr>cc_config := s @ [0]\<rparr>),
    conn_pool := map (\<lambda>d. d\<lparr>has_valid_config := False\<rparr>) (conn_pool sv)\<rparr>)"
  have m: "gives (serving i (at rn wn inp out) (\<lambda>_. True)) ?m (Inr ()) (serving i (at rn wn inp out) ?F)"
    by (rule gives_modify) (auto simp: serving_def get_conn_def none_valid_def config_saved [OF assms(1)])
  have nv: "\<not> has_valid_config (get_conn i sv)" if "i < length (conn_pool sv)" "none_valid sv" for sv using that by (simp add: none_valid_def get_conn_def)
  have fr: "ss_frame i ?F" unfolding ss_frame_def using none_valid_put nv by (auto simp: config_is_def)
  show "gives (serving i (at rn wn (prefixed s @ inp) out) (\<lambda>_. True)) (dispatch ce i RPC_SET_CLUSTER_CONFIG) (Inr ())
      (serving i (flushed rn wn inp (out @ [STATUS_OK])) ?F)"
    unfolding dispatch_simps handle_conn_set_cluster_config_def
    by (rule gives_andthen [OF gives_read_key_inplace [OF assms(2,3) t]], rule gives_andthen [OF m], rule gives_status [OF fr assms(4)])
qed

lemma gives_get_config:
  assumes "plain s" "length s < 2 ^ 16" "length s \<le> wn" "20 \<le> wn" "length (sha1 s) = SHA_DIGEST_LENGTH" "1 \<le> rn"
  shows "gives (serving i (at rn wn (RPC_GET_CLUSTER_CONFIG # inp) out) (config_is sha1 s)) (handle_conn_rpc_code ce i) (Inr ())
    (serving i (flushed rn wn inp (out @ sha1 s @ prefixed s @ [STATUS_OK])) (config_is sha1 s))"
proof (rule gives_rpc [OF _ _ assms(6)])
  show fr: "ss_frame i (config_is sha1 s)" by (simp add: ss_frame_def config_is_def)
  let ?S = "\<lambda>out. serving i (at rn wn inp out) (config_is sha1 s)"
  let ?send = "\<lambda>c. andthen (on_ss i (structured_stream_write_bytes (take SHA_DIGEST_LENGTH (cc_hash c)))) (\<lambda>_.
     andthen (on_ss i (structured_stream_write_uint16_prefixed_string (cc_config c))) (\<lambda>_.
     andthen (on_ss i (structured_stream_write_uint8 STATUS_OK)) (\<lambda>_. on_ss i structured_stream_flush)))"
  have z: "strlen (s @ [0]) = length s" "take (strlen (s @ [0])) (s @ [0]) = s" using assms(1) strlen_zero [of s "[]"] by (simp_all add: plain_def)
  have l: "length (sha1 s) \<le> wn" "1 \<le> wn" "strlen (s @ [0]) < 2 ^ 16" "2 \<le> wn" "strlen (s @ [0]) \<le> wn" unfolding z(1) using assms by (simp_all add: SHA_DIGEST_LENGTH_def)
  have send: "gives (?S out) (?send c) (Inr ()) (serving i (flushed rn wn inp (out @ sha1 s @ prefixed s @ [STATUS_OK])) (config_is sha1 s))"
    if "cc_config c = s @ [0]" "cc_hash c = sha1 s" for c
  proof -
    have t: "take SHA_DIGEST_LENGTH (cc_hash c) = sha1 s" using that(2) assms(5) by simp
    have w: "gives (?S (out @ sha1 s)) (on_ss i (structured_stream_write_uint16_prefixed_string (s @ [0]))) (Inr ()) (?S (out @ sha1 s @ prefixed s))"
      using gives_on_ss [OF gives_write_string [OF l(3-5)] fr, of rn inp "out @ sha1 s"] unfolding z(2) append_assoc .
    show ?thesis unfolding t that(1)
      by (rule gives_andthen [OF gives_on_ss [OF gives_write_bytes [OF l(1)] fr]], rule gives_andthen [OF w])
        (use gives_status [OF fr l(2), of rn inp "out @ sha1 s @ prefixed s" STATUS_OK] in simp)
  qed
  show "gives (?S out) (dispatch ce i RPC_GET_CLUSTER_CONFIG) (Inr ()) (serving i (flushed rn wn inp (out @ sha1 s @ prefixed s @ [STATUS_OK])) (config_is sha1 s))"
    unfolding dispatch_simps handle_conn_get_cluster_config_def
  proof (rule givesI)
    fix sv assume s: "?S out sv"
    then have "cc_config (srv_config sv) = s @ [0]" "cc_hash (srv_config sv) = sha1 s" by (simp_all add: serving_def config_is_def)
    from givesD [OF send [OF this] s] show "\<exists>s'. andthen (gets srv_config) ?send sv = Some (Inr (), s') \<and>
        serving i (flushed rn wn inp (out @ sha1 s @ prefixed s @ [STATUS_OK])) (config_is sha1 s) s'" by (simp add: andthen_def gets_def)
  qed
qed


lemma gives_read_inplace:
  assumes "length bs \<le> rn"
  shows "gives (at rn wn (bs @ inp) out) (structured_stream_read_bytes_inplace (length bs)) (Inr bs) (at rn wn inp out)"
proof -
  have "structured_stream_read_bytes_inplace n ss = Some (Inr x, s')" if "structured_stream_read_bytes n ss = Some (Inr x, s')" for n ss x s'
    using that unfolding structured_stream_read_bytes_def structured_stream_read_bytes_inplace_def andthen_def on_error_def
    by (auto split: option.splits sum.splits)
  then show ?thesis using gives_read_bytes [OF assms, of wn inp out] unfolding gives_def by blast
qed

lemma gives_register:
  assumes "length h = SHA_DIGEST_LENGTH" "length (sha1 s) = SHA_DIGEST_LENGTH" "SHA_DIGEST_LENGTH \<le> rn" "1 \<le> wn"
  shows "gives (serving i (at rn wn (RPC_REGISTER_CLIENT_CLUSTER_CONFIG # h @ inp) out) (config_is sha1 s)) (handle_conn_rpc_code ce i) (Inr ())
    (serving i (flushed rn wn inp (out @ [flag (h = sha1 s) STATUS_OK])) (\<lambda>sv. config_is sha1 s sv \<and> has_valid_config (get_conn i sv) = (h = sha1 s)))"
proof (rule gives_rpc)
  show fr: "ss_frame i (config_is sha1 s)" by (simp add: ss_frame_def config_is_def)
  show "1 \<le> rn" using assms(3) by (simp add: SHA_DIGEST_LENGTH_def)
  let ?v = "h = sha1 s" and ?S = "\<lambda>inp F. serving i (at rn wn inp out) F"
  let ?F = "\<lambda>sv. config_is sha1 s sv \<and> has_valid_config (get_conn i sv) = ?v"
  have r: "gives (?S (h @ inp) (config_is sha1 s)) (on_ss i (structured_stream_read_bytes_inplace SHA_DIGEST_LENGTH)) (Inr h) (?S inp (config_is sha1 s))"
    using gives_on_ss [OF gives_read_inplace [of h rn] fr, of wn inp out] assms(1,3) by simp
  have c: "gives (?S inp (config_is sha1 s)) (gets (\<lambda>sv. memcmp h (cc_hash (srv_config sv)) SHA_DIGEST_LENGTH = 0)) (Inr ?v) (?S inp (config_is sha1 s))"
    by (rule gives_gets) (use assms(1,2) in \<open>auto simp: serving_def config_is_def memcmp_eq_0\<close>)
  have m: "gives (?S inp (config_is sha1 s)) (modify (\<lambda>sv. put_conn i ((get_conn i sv)\<lparr>has_valid_config := ?v\<rparr>) sv)) (Inr ()) (?S inp ?F)"
    by (rule gives_modify) (auto simp: serving_def config_is_def)
  have f: "flag ?v STATUS_OK = (if ?v then 0 else CLUSTER_CONFIG_OUT_OF_DATE)" by (simp add: flag_def STATUS_OK_def)
  have "ss_frame i ?F" by (simp add: ss_frame_def config_is_def)
  note st = gives_status [OF this assms(4), of rn inp out "flag ?v STATUS_OK", unfolded f]
  show "gives (?S (h @ inp) (config_is sha1 s)) (dispatch ce i RPC_REGISTER_CLIENT_CLUSTER_CONFIG) (Inr ()) (serving i (flushed rn wn inp (out @ [flag ?v STATUS_OK])) ?F)"
    unfolding dispatch_simps handle_conn_register_client_cluster_config_def f
    by (rule gives_andthen [OF r], rule gives_andthen [OF c], rule gives_andthen [OF m], rule st)
qed

section \<open>Properties\<close>

text \<open>
  C19: The configuration of the cluster. A client that sets the configuration, reads it back and registers a hash
  gets the SHA-1 hash of the new configuration and the configuration itself, and is told that its
  configuration is out of date exactly if the hash it registers is not that of the new configuration. Setting
  it saves it to disk and marks all other connections as out of date. (SHA-1 gives 20 bytes; the
  configuration has no zero byte and fits the buffers.)\<close>

theorem cluster_config_protocol:
  assumes "\<forall>x. length (ce_sha1 ce x) = SHA_DIGEST_LENGTH" "plain s" "length s + 20 \<le> rn" "length s < 2 ^ 16" "length s + 20 \<le> wn" "length h = SHA_DIGEST_LENGTH"
    and "i < length (conn_pool sv)"
    and "at rn wn (RPC_SET_CLUSTER_CONFIG # prefixed s @ RPC_GET_CLUSTER_CONFIG # RPC_REGISTER_CLIENT_CLUSTER_CONFIG # h @ inp) out (conn_ss (get_conn i sv))"
  shows "\<exists>sv1 sv2 sv3. handle_conn_rpc_code ce i sv = Some (Inr (), sv1) \<and> handle_conn_rpc_code ce i sv1 = Some (Inr (), sv2) \<and>
    handle_conn_rpc_code ce i sv2 = Some (Inr (), sv3) \<and>
    cc_file (srv_config sv1) = s \<and> (\<forall>j<length (conn_pool sv1). \<not> has_valid_config (get_conn j sv1)) \<and>
    at rn wn inp (out @ [STATUS_OK] @ ce_sha1 ce s @ prefixed s @ [STATUS_OK, if h = ce_sha1 ce s then STATUS_OK else CLUSTER_CONFIG_OUT_OF_DATE]) (conn_ss (get_conn i sv3)) \<and>
    has_valid_config (get_conn i sv3) = (h = ce_sha1 ce s)"
proof -
  let ?sha1 = "ce_sha1 ce" and ?reg = "RPC_REGISTER_CLIENT_CLUSTER_CONFIG # h @ inp"
  have l: "length s + 2 \<le> rn" "1 \<le> wn" "length s \<le> wn" "20 \<le> wn" "1 \<le> rn" "SHA_DIGEST_LENGTH \<le> rn" "length (?sha1 s) = SHA_DIGEST_LENGTH"
    using assms(1,3,5) by (simp_all add: SHA_DIGEST_LENGTH_def)
  have "serving i (at rn wn (RPC_SET_CLUSTER_CONFIG # prefixed s @ RPC_GET_CLUSTER_CONFIG # ?reg) out) (\<lambda>_. True) sv" using assms(7,8) by (simp add: serving_def)
  from givesD [OF gives_set_config [OF assms(2) l(1) assms(4) l(2)] this, of ce] obtain sv1 where s1: "handle_conn_rpc_code ce i sv = Some (Inr (), sv1)"
    "serving i (flushed rn wn (RPC_GET_CLUSTER_CONFIG # ?reg) (out @ [STATUS_OK])) (\<lambda>sv. config_is ?sha1 s sv \<and> none_valid sv) sv1" by blast
  then have c1: "config_is ?sha1 s sv1" "none_valid sv1" and "serving i (at rn wn (RPC_GET_CLUSTER_CONFIG # ?reg) (out @ [STATUS_OK])) (config_is ?sha1 s) sv1"
    by (simp_all add: serving_def flushed_def)
  from givesD [OF gives_get_config [where ?sha1.0 = ?sha1, OF assms(2,4) l(3,4,7,5)] this(3), of ce] obtain sv2 where s2: "handle_conn_rpc_code ce i sv1 = Some (Inr (), sv2)"
    "serving i (flushed rn wn ?reg ((out @ [STATUS_OK]) @ ?sha1 s @ prefixed s @ [STATUS_OK])) (config_is ?sha1 s) sv2" by blast
  from givesD [OF gives_register [where ?sha1.0 = ?sha1, OF assms(6) l(7,6,2)] serving_flushed [OF s2(2)], of ce] obtain sv3 where s3: "handle_conn_rpc_code ce i sv2 = Some (Inr (), sv3)"
    "serving i (flushed rn wn inp (((out @ [STATUS_OK]) @ ?sha1 s @ prefixed s @ [STATUS_OK]) @ [flag (h = ?sha1 s) STATUS_OK]))
      (\<lambda>sv. config_is ?sha1 s sv \<and> has_valid_config (get_conn i sv) = (h = ?sha1 s)) sv3" by blast
  have "flag (h = ?sha1 s) STATUS_OK = (if h = ?sha1 s then STATUS_OK else CLUSTER_CONFIG_OUT_OF_DATE)" by (simp add: flag_def STATUS_OK_def)
  then show ?thesis using s1(1) s2(1) s3 c1 by (auto simp: serving_def flushed_def config_is_def none_valid_def get_conn_def)
qed

theorem cluster_config_protocol_witness:
  "\<exists>sv1 sv2 sv3. handle_conn_rpc_code example_conn_env 0 (busy_server 2048 (conn_with (RPC_SET_CLUSTER_CONFIG # prefixed [97] @ RPC_GET_CLUSTER_CONFIG #
       RPC_REGISTER_CLIENT_CLUSTER_CONFIG # replicate 20 1))) = Some (Inr (), sv1) \<and>
     handle_conn_rpc_code example_conn_env 0 sv1 = Some (Inr (), sv2) \<and> handle_conn_rpc_code example_conn_env 0 sv2 = Some (Inr (), sv3) \<and>
     outgoing (conn_ss (get_conn 0 sv3)) = [0] @ replicate 20 0 @ prefixed [97] @ [0, 128]"
proof -
  have 1: "\<forall>x. length (ce_sha1 example_conn_env x) = SHA_DIGEST_LENGTH" "plain [97]" "length ([97] :: byte list) + 20 \<le> 2048" "length ([97] :: byte list) < 2 ^ 16"
    "length ([97] :: byte list) + 20 \<le> 2048" "length (replicate 20 (1 :: byte)) = SHA_DIGEST_LENGTH"
    by (simp_all add: example_conn_env_def SHA_DIGEST_LENGTH_def plain_def)
  have e: "ce_sha1 example_conn_env [97] = replicate 20 0" "(replicate 20 1 = replicate 20 (0 :: byte)) = False" by (simp_all add: example_conn_env_def)
  from cluster_config_protocol [OF 1 conn_with_ok(1) conn_with_at, of "[]"] show ?thesis
    unfolding e at_def STATUS_OK_def CLUSTER_CONFIG_OUT_OF_DATE_def append_Nil2 append_Nil if_False by blast
qed

end
