(* ===== verification/Client_Properties.thy ===== *)
theory Client_Properties
  imports Client Conn_Config
begin

unbundle bit_operations_syntax

text \<open>
  What the client sends and what it makes of the answers, and that client and server understand each other.
\<close>

section \<open>Calls on the stream\<close>

text \<open>The client is connected, with a stream that satisfies \<open>P\<close>, and its queue satisfies \<open>F\<close>.\<close>

definition linked :: "(structured_stream \<Rightarrow> bool) \<Rightarrow> (menoetius_client \<Rightarrow> bool) \<Rightarrow> menoetius_client \<Rightarrow> bool" where
  "linked P F c \<longleftrightarrow> (\<exists>ss. client_ss c = Some ss \<and> P ss) \<and> F c"

definition unlinked :: "(menoetius_client \<Rightarrow> bool) \<Rightarrow> menoetius_client \<Rightarrow> bool" where
  "unlinked F c \<longleftrightarrow> client_ss c = None \<and> F c"

definition queue_frame :: "(menoetius_client \<Rightarrow> bool) \<Rightarrow> bool" where
  "queue_frame F \<longleftrightarrow> (\<forall>c x. F c \<longrightarrow> F (c\<lparr>client_ss := x\<rparr>))"

lemma gives_on_stream:
  assumes "gives P p r Q" "queue_frame F"
  shows "gives (linked P F) (on_stream p) r (linked Q F)"
proof (rule givesI)
  fix c assume "linked P F c"
  then obtain ss where ss: "client_ss c = Some ss" "P ss" "F c" by (auto simp: linked_def)
  from givesD [OF assms(1) ss(2)] obtain ss' where "p ss = Some (r, ss')" "Q ss'" by blast
  then show "\<exists>c'. on_stream p c = Some (r, c') \<and> linked Q F c'" using ss assms(2) by (simp add: on_stream_def linked_def queue_frame_def)
qed

lemma gives_or_shutdown: "gives P p (Inr x) Q \<Longrightarrow> gives P (or_shutdown p) (Inr x) Q"
  by (fastforce simp: gives_def or_shutdown_def)

lemma gives_try:
  assumes "gives P p (Inr x) Q" "queue_frame F"
  shows "gives (linked P F) (try_stream p) (Inr x) (linked Q F)"
  by (rule gives_or_shutdown [OF gives_on_stream [OF assms]])

lemma gives_try_error:
  assumes "gives P p (Inl e) Q" "queue_frame F"
  shows "gives (linked P F) (try_stream p) (Inl e) (unlinked F)"
proof (rule givesI)
  fix c assume "linked P F c"
  from givesD [OF gives_on_stream [OF assms] this] show "\<exists>c'. try_stream p c = Some (Inl e, c') \<and> unlinked F c'"
    using assms(2) by (auto simp: or_shutdown_def menoetius_client_shutdown_def linked_def unlinked_def queue_frame_def)
qed

text \<open>Connected, or about to connect.\<close>

definition reaches :: "client_env \<Rightarrow> nat \<Rightarrow> nat \<Rightarrow> byte list \<Rightarrow> byte list \<Rightarrow> (menoetius_client \<Rightarrow> bool) \<Rightarrow> menoetius_client \<Rightarrow> bool" where
  "reaches ve rn wn inp out F c \<longleftrightarrow> F c \<and> (case client_ss c of Some ss \<Rightarrow> at rn wn inp out ss
     | None \<Rightarrow> read_buf_size c = rn \<and> write_buf_size c = wn \<and> rn < 2 ^ 31 \<and> wn < 2 ^ 31 \<and> 8 \<le> wn \<and> out = le_bytes MENOETIUS_RPC_MAGIC_HEADER \<and>
         (\<exists>s. dial ve = Some s \<and> inbox s = inp \<and> sent s = [] \<and> Io_Error \<notin> set (rx s) \<and> (\<forall>e\<in>set (tx s). full_write wn e)))"

lemma reaches_linked: "linked (at rn wn inp out) F c \<Longrightarrow> reaches ve rn wn inp out F c"
  by (auto simp: linked_def reaches_def)

lemma gives_connect:
  assumes "queue_frame F"
  shows "gives (reaches ve rn wn inp out F) (menoetius_client_ensure_connected ve) (Inr ()) (linked (at rn wn inp out) F)"
proof (rule givesI)
  fix c assume r: "reaches ve rn wn inp out F c"
  show "\<exists>c'. menoetius_client_ensure_connected ve c = Some (Inr (), c') \<and> linked (at rn wn inp out) F c'"
  proof (cases "client_ss c")
    case (Some ss)
    then show ?thesis using r by (auto simp: reaches_def menoetius_client_ensure_connected_def linked_def)
  next
    case None
    then obtain s where s: "read_buf_size c = rn" "write_buf_size c = wn" "rn < 2 ^ 31" "wn < 2 ^ 31" "8 \<le> wn" "out = le_bytes MENOETIUS_RPC_MAGIC_HEADER"
      "dial ve = Some s" "inbox s = inp" "sent s = []" "Io_Error \<notin> set (rx s)" "\<forall>e\<in>set (tx s). full_write wn e" "F c" using r by (auto simp: reaches_def)
    let ?c = "c\<lparr>client_ss := Some (structured_stream_new (dial_junk ve) s rn wn)\<rparr>"
    have l: "linked (at rn wn inp []) F ?c" using at_new [OF s(3,4,10,11), of "dial_junk ve"] s(8,9,12) assms by (auto simp: linked_def queue_frame_def)
    have "gives (linked (at rn wn inp []) F) (try_stream (structured_stream_write_uint64 MENOETIUS_RPC_MAGIC_HEADER)) (Inr ()) (linked (at rn wn inp ([] @ out)) F)"
      unfolding s(6) by (rule gives_try [OF gives_write_uint64 [OF s(5)] assms])
    from givesD [OF this l] obtain c' where "try_stream (structured_stream_write_uint64 MENOETIUS_RPC_MAGIC_HEADER) ?c = Some (Inr (), c')" "linked (at rn wn inp out) F c'"
      unfolding append_Nil by blast
    then show ?thesis using None s(1,2,7) by (simp add: menoetius_client_ensure_connected_def MENOETIUS_RPC_MAGIC_HEADER_def)
  qed
qed

text \<open>Reading an answer does not touch what was sent.\<close>

lemma flushed_read:
  assumes "gives (at rn wn inp out) p r (at rn wn inp' out)" "keeps write_i p"
  shows "gives (flushed rn wn inp out) p r (flushed rn wn inp' out)"
proof (rule givesI)
  fix ss assume f: "flushed rn wn inp out ss"
  then obtain ss' where s: "p ss = Some (r, ss')" "at rn wn inp' out ss'" using givesD [OF assms(1)] by (auto simp: flushed_def)
  then show "\<exists>ss'. p ss = Some (r, ss') \<and> flushed rn wn inp' out ss'" using f keepsD [OF assms(2) s(1)] by (simp add: flushed_def)
qed

lemma keeps_advance [keeps_intros]: "keeps write_i (advance_read n)"
  by (auto simp: keeps_def advance_read_def split: if_splits bind_splits)

lemma keeps_modify_read [keeps_intros]: "keeps write_i (modify (\<lambda>ss. ss\<lparr>read_i := f ss\<rparr>))"
  by (rule keeps_modify) simp

lemmas keeps_ensure_read [keeps_intros] = keeps_writes

lemma keeps_read_bytes [keeps_intros]: "keeps write_i (structured_stream_read_bytes n)"
  unfolding structured_stream_read_bytes_def by (intro keeps_intros)

lemma keeps_reads [keeps_intros]:
  "keeps write_i structured_stream_read_uint8" "keeps write_i structured_stream_read_uint16" "keeps write_i structured_stream_read_uint32"
  "keeps write_i structured_stream_read_uint64" "keeps write_i structured_stream_read_int64" "keeps write_i structured_stream_read_double"
  unfolding structured_stream_read_uint8_def structured_stream_read_uint16_def structured_stream_read_uint32_def structured_stream_read_uint64_def
    structured_stream_read_int64_def structured_stream_read_double_def by (intro keeps_intros)+

lemma keeps_reads_inplace [keeps_intros]:
  "keeps write_i (structured_stream_read_bytes_inplace n)" "keeps write_i structured_stream_read_uint16_prefixed_bytes_inplace"
  unfolding structured_stream_read_bytes_inplace_def structured_stream_read_uint16_prefixed_bytes_inplace_def by (intro keeps_intros)+

lemmas flushed_reads = flushed_read [OF gives_read_uint8 keeps_reads(1)] flushed_read [OF gives_read_uint32 keeps_reads(3)] flushed_read [OF gives_read_uint64 keeps_reads(4)]
  flushed_read [OF gives_read_int64 keeps_reads(5)] flushed_read [OF gives_read_double keeps_reads(6)] flushed_read [OF gives_read_inplace keeps_reads_inplace(1)]
  flushed_read [OF gives_read_prefixed keeps_reads_inplace(2)]


section \<open>Sending points\<close>

lemma byte_enc: "le_bytes (b :: u8) = [b]"
  by (simp add: le_bytes_def)

lemma gives_send_code:
  assumes "queue_frame F" "1 \<le> wn"
  shows "gives (linked (at rn wn inp out) F) (try_stream (structured_stream_write_uint8 code)) (Inr ()) (linked (at rn wn inp (out @ [code])) F)"
  using gives_try [OF gives_write_uint8 [OF assms(2)] assms(1), of rn inp out code] unfolding byte_enc .

lemma gives_send_points:
  assumes "queue_frame F" "8 \<le> wn"
  shows "gives (linked (at rn wn inp out) F)
    (for_list (\<lambda>q. andthen (on_stream (structured_stream_write_uint64 (fst q))) (\<lambda>_. on_stream (structured_stream_write_double (snd q)))) pts)
    (Inr (map (\<lambda>_. ()) pts)) (linked (at rn wn inp (out @ enc_points pts)) F)"
proof (induction pts arbitrary: out)
  case Nil
  show ?case by (simp add: gives_ret)
next
  case (Cons q pts)
  note w = gives_on_stream [OF gives_write_uint64 [OF assms(2)] assms(1)] gives_on_stream [OF gives_write_double [OF assms(2)] assms(1)]
  have 1: "gives (linked (at rn wn inp out) F) (andthen (on_stream (structured_stream_write_uint64 (fst q))) (\<lambda>_. on_stream (structured_stream_write_double (snd q)))) (Inr ())
      (linked (at rn wn inp ((out @ le_bytes (fst q)) @ le_bytes (snd q))) F)" by (rule gives_andthen [OF w(1)]) (rule w(2))
  show ?case unfolding for_list.simps list.map enc_points_simps
    by (rule gives_andthen [OF 1], rule gives_andthen [OF Cons]) (simp add: gives_ret)
qed

lemma gives_status_answer:
  assumes "queue_frame F" "1 \<le> rn"
  shows "gives (linked (flushed rn wn (st # inp) out) F) (on_stream structured_stream_read_uint8) (Inr st) (linked (flushed rn wn inp out) F)"
    and "gives (linked (flushed rn wn (st # inp) out) F) (try_stream structured_stream_read_uint8) (Inr st) (linked (flushed rn wn inp out) F)"
  using gives_on_stream [OF flushed_reads(1) [OF assms(2), of wn st inp out] assms(1)] gives_try [OF flushed_reads(1) [OF assms(2), of wn st inp out] assms(1)]
  unfolding byte_enc by simp_all

lemma gives_send_sync:
  assumes F: "queue_frame F" and k: "length k < 2 ^ 16" "length k \<le> wn" and wn: "8 \<le> wn" and rn: "1 \<le> rn"
  shows "gives (reaches ve rn wn (st # inp) out F) (menoetius_client_send_sync ve (k @ x) (length k) pts) (Inr (ignore_config_flag st))
    (linked (flushed rn wn inp (out @ RPC_PUT_DATA # enc_batch [(k, pts)])) F)"
proof -
  let ?L = "\<lambda>out. linked (at rn wn (st # inp) out) F"
  have w: "1 \<le> wn" "2 \<le> wn" "4 \<le> wn" "unat (of_nat (length k) :: u16) = length k" using wn k(1) by (simp_all add: unat_of_nat)
  let ?o1 = "out @ [RPC_PUT_DATA]" let ?o2 = "?o1 @ prefixed k" let ?o3 = "?o2 @ le_bytes (of_nat (length pts) :: u32)" let ?o4 = "?o3 @ enc_points pts" let ?o5 = "?o4 @ prefixed []"
  have e: "?o5 = out @ RPC_PUT_DATA # enc_batch [(k, pts)]" by (simp add: enc_batch_def enc_series_def)
  have 2: "gives (?L ?o1) (try_stream (structured_stream_write_uint16_prefixed_bytes (k @ x) (of_nat (length k)))) (Inr ()) (?L ?o2)"
    by (rule gives_try [OF gives_write_prefixed [OF w(4,2) k(2)] F])
  have 3: "gives (?L ?o2) (try_stream (structured_stream_write_uint32 (of_nat (length pts)))) (Inr ()) (?L ?o3)" by (rule gives_try [OF gives_write_uint32 [OF w(3)] F])
  have 5: "gives (?L ?o4) (on_stream (structured_stream_write_uint16_prefixed_bytes [] 0)) (Inr ()) (?L ?o5)"
    using gives_on_stream [OF gives_write_prefixed [of 0 "[]" wn rn "st # inp" ?o4 "[]"] F] w(2) by simp
  have 7: "gives (linked (flushed rn wn inp ?o5) F) (ret (ignore_config_flag st)) (Inr (ignore_config_flag st)) (linked (flushed rn wn inp ?o5) F)" by (rule gives_ret)
  show ?thesis unfolding menoetius_client_send_sync_def e [symmetric]
    by (rule gives_andthen [OF gives_connect [OF F]], rule gives_andthen [OF gives_send_code [OF F w(1)]], rule gives_andthen [OF 2], rule gives_andthen [OF 3],
      rule gives_andthen [OF gives_send_points [OF F wn]], rule gives_andthen [OF 5], rule gives_andthen [OF gives_try [OF gives_flush F]],
      rule gives_andthen [OF gives_status_answer(1) [OF F rn]], rule 7)
qed

section \<open>Reading points\<close>

lemma gives_read_points:
  assumes "queue_frame F" "8 \<le> rn"
  shows "gives (linked (flushed rn wn (enc_points pts @ inp) out) F)
    (for_list (\<lambda>_. andthen (try_stream structured_stream_read_int64) (\<lambda>t. andthen (try_stream structured_stream_read_double) (\<lambda>y. ret (t, y)))) [n..<n + length pts])
    (Inr pts) (linked (flushed rn wn inp out) F)"
proof (induction pts arbitrary: n)
  case Nil
  show ?case by (simp add: gives_ret)
next
  case (Cons q pts)
  let ?S = "\<lambda>inp. linked (flushed rn wn inp out) F"
  note r = gives_try [OF flushed_reads(4) [OF assms(2)] assms(1)] gives_try [OF flushed_reads(5) [OF assms(2)] assms(1)]
  have q: "gives (?S (le_bytes (fst q) @ le_bytes (snd q) @ enc_points pts @ inp))
      (andthen (try_stream structured_stream_read_int64) (\<lambda>t. andthen (try_stream structured_stream_read_double) (\<lambda>y. ret (t, y)))) (Inr q) (?S (enc_points pts @ inp))"
    by (rule gives_andthen [OF r(1)], rule gives_andthen [OF r(2)]) (simp add: gives_ret)
  have u: "[n..<n + length (q # pts)] = n # [Suc n..<Suc n + length pts]" by (simp add: upt_rec)
  show ?case unfolding u for_list.simps enc_points_simps append_assoc
    by (rule gives_andthen [OF q], rule gives_andthen [OF Cons]) (simp add: gives_ret)
qed

lemma gives_get:
  assumes F: "queue_frame F" and k: "length k < 2 ^ 16" "length k \<le> wn" and wn: "8 \<le> wn" and rn: "8 \<le> rn" and pts: "length pts \<le> max_num_pts" "length pts < 2 ^ 32"
  shows "gives (reaches ve rn wn (enc_answer pts @ st # inp) out F) (menoetius_client_get ve (k @ x) (length k) max_num_pts) (Inr (ignore_config_flag st, pts))
    (linked (flushed rn wn inp (out @ RPC_GET_DATA # enc_keys [k])) F)"
proof -
  let ?i = "enc_answer pts @ st # inp" let ?L = "\<lambda>out. linked (at rn wn ?i out) F" let ?n = "of_nat (length pts) :: u32"
  have w: "1 \<le> wn" "2 \<le> wn" "4 \<le> rn" "1 \<le> rn" "unat (of_nat (length k) :: u16) = length k" using wn rn k(1) by (simp_all add: unat_of_nat)
  have n: "unat ?n = length pts" using pts(2) by (simp add: unat_of_nat)
  let ?o1 = "out @ [RPC_GET_DATA]" let ?o2 = "?o1 @ le_bytes (1 :: u16)" let ?o3 = "?o2 @ prefixed k"
  have e: "?o3 = out @ RPC_GET_DATA # enc_keys [k]" by (simp add: enc_keys_def)
  have 2: "gives (?L ?o1) (try_stream (structured_stream_write_uint16 1)) (Inr ()) (?L ?o2)" by (rule gives_try [OF gives_write_uint16 [OF w(2)] F])
  have 3: "gives (?L ?o2) (try_stream (structured_stream_write_uint16_prefixed_bytes (k @ x) (of_nat (length k)))) (Inr ()) (?L ?o3)"
    by (rule gives_try [OF gives_write_prefixed [OF w(5,2) k(2)] F])
  have i: "?i = le_bytes ?n @ enc_points pts @ st # inp" by (simp add: enc_answer_def)
  have 5: "gives (linked (flushed rn wn ?i ?o3) F) (try_stream structured_stream_read_uint32) (Inr ?n) (linked (flushed rn wn (enc_points pts @ st # inp) ?o3) F)"
    unfolding i by (rule gives_try [OF flushed_reads(2) [OF w(3)] F])
  note 6 = gives_read_points [OF F rn, of wn pts "st # inp" ?o3 0, unfolded add_0]
  have "gives (linked (flushed rn wn (enc_points pts @ st # inp) ?o3) F)
      (andthen (for_list (\<lambda>_. andthen (try_stream structured_stream_read_int64) (\<lambda>t. andthen (try_stream structured_stream_read_double) (\<lambda>y. ret (t, y)))) [0..<length pts]) (\<lambda>pts.
       andthen (try_stream structured_stream_read_uint8) (\<lambda>server_response. ret (ignore_config_flag server_response, pts))))
      (Inr (ignore_config_flag st, pts)) (linked (flushed rn wn inp ?o3) F)"
    by (rule gives_andthen [OF 6], rule gives_andthen [OF gives_status_answer(2) [OF F w(4)]]) (simp add: gives_ret)
  then have 7: "gives (linked (flushed rn wn (enc_points pts @ st # inp) ?o3) F) (if max_num_pts < unat ?n then or_shutdown (fail 1)
      else andthen (for_list (\<lambda>_. andthen (try_stream structured_stream_read_int64) (\<lambda>t. andthen (try_stream structured_stream_read_double) (\<lambda>y. ret (t, y)))) [0..<unat ?n]) (\<lambda>pts.
       andthen (try_stream structured_stream_read_uint8) (\<lambda>server_response. ret (ignore_config_flag server_response, pts))))
      (Inr (ignore_config_flag st, pts)) (linked (flushed rn wn inp ?o3) F)" using pts(1) unfolding n by simp
  show ?thesis unfolding menoetius_client_get_def e [symmetric]
    by (rule gives_andthen [OF gives_connect [OF F]], rule gives_andthen [OF gives_send_code [OF F w(1)]], rule gives_andthen [OF 2], rule gives_andthen [OF 3],
      rule gives_andthen [OF gives_try [OF gives_flush F]], rule gives_andthen [OF 5], rule 7)
qed


section \<open>The queue\<close>

definition queued :: "(byte list \<times> point list) list \<Rightarrow> menoetius_client \<Rightarrow> bool" where
  "queued bs c \<longleftrightarrow> queued_metrics_len c = length (concat (map enc_series bs)) \<and> queued_metrics_len c \<le> length (queued_metrics c) \<and>
     take (queued_metrics_len c) (queued_metrics c) = concat (map enc_series bs) \<and> num_queued_metrics c = length bs \<and> 0 < length (queued_metrics c)"

lemma queued_frame: "queue_frame (queued bs)"
  by (auto simp: queue_frame_def queued_def)

lemma grow_size_ok: "0 < n \<Longrightarrow> len + g \<le> grow_size n len g \<and> n \<le> grow_size n len g"
proof (induction n len g rule: grow_size.induct)
  case (1 n len g)
  show ?case using 1 by (subst (1 2) grow_size.simps) fastforce
qed

text \<open>A message always fits the buffer after it has grown.\<close>

lemma queue_message_ok:
  assumes "queued bs c" "length (concat (map enc_series (bs @ [(k, pts)]))) \<le> 2 ^ 30"
  shows "\<exists>c'. queue_message ve (k @ x) (length k) pts c = Some c' \<and> queued (bs @ [(k, pts)]) c' \<and> client_ss c' = client_ss c \<and>
    num_queued_metrics_flush c' = num_queued_metrics_flush c \<and> read_buf_size c' = read_buf_size c \<and> write_buf_size c' = write_buf_size c"
proof -
  let ?m = "enc_series (k, pts)" let ?len = "queued_metrics_len c"
  define n where "n = 2 + length k + 4 + 16 * length pts"
  have pts: "length (enc_points pts) = 16 * length pts" by (induction pts) auto
  have m: "length ?m = n" using pts by (simp add: enc_series_def n_def)
  define sz where "sz = grow_size (length (queued_metrics c)) ?len n"
  have q: "?len = length (concat (map enc_series bs))" "?len \<le> length (queued_metrics c)" "take ?len (queued_metrics c) = concat (map enc_series bs)" "0 < length (queued_metrics c)"
    "num_queued_metrics c = length bs" using assms(1) unfolding queued_def by blast+
  have g: "?len + n \<le> sz" "length (queued_metrics c) \<le> sz" using grow_size_ok [OF q(4), of ?len n] by (simp_all add: sz_def)
  define buf where "buf = queued_metrics c @ fresh_mem (dial_junk ve) (sz - length (queued_metrics c))"
  have b: "length buf = sz" "take ?len buf = concat (map enc_series bs)" using g q(2,3) by (simp_all add: buf_def fresh_mem_def)
  have e: "le_bytes (of_nat (length k) :: u16) @ take (length k) (k @ x) @ le_bytes (of_nat (length pts) :: u32) @ concat (map (\<lambda>q. le_bytes (fst q) @ le_bytes (snd q)) pts) = ?m"
    by (simp add: enc_series_def prefixed_def enc_points_def)
  let ?c = "c\<lparr>queued_metrics := take ?len buf @ ?m @ drop (?len + n) buf, queued_metrics_len := ?len + n, num_queued_metrics := num_queued_metrics c + 1\<rparr>"
  have l: "?len + n \<le> 2 ^ 30" using assms(2) unfolding q(1) m [symmetric] by (simp only: map_append list.map concat_append concat.simps append_Nil2 length_append)
  have gr: "menoetius_client_grow_queued_metrics ve n c = c\<lparr>queued_metrics := buf\<rparr>"
    using g(2) unfolding menoetius_client_grow_queued_metrics_def sz_def [symmetric] Let_def by (simp add: buf_def)
  have "mem_write buf ?len ?m = Some (take ?len buf @ ?m @ drop (?len + n) buf)" using g(1) b(1) m by (simp add: mem_write_def)
  then have "queue_message ve (k @ x) (length k) pts c = Some ?c" unfolding queue_message_def e n_def [symmetric] Let_def gr using l by (simp add: c_assert_def)
  moreover have "0 < n" by (simp add: n_def)
  then have "queued (bs @ [(k, pts)]) ?c" using g m b q(1,5) unfolding queued_def by simp
  ultimately show ?thesis by (intro exI [of _ ?c]) simp
qed

lemma gives_write_chunks:
  assumes "queue_frame F"
  shows "min 32768 (length s) \<le> wn \<Longrightarrow> gives (linked (at rn wn inp out) F) (write_chunks s) (Inr ()) (linked (at rn wn inp (out @ s)) F)"
    and "wn < min 32768 (length s) \<Longrightarrow> gives (linked (at rn wn inp out) F) (write_chunks s) (Inl ERR_STRUCTURED_STREAM_BUF_TOO_SMALL) (unlinked F)"
proof -
  show "gives (linked (at rn wn inp out) F) (write_chunks s) (Inr ()) (linked (at rn wn inp (out @ s)) F)" if "min 32768 (length s) \<le> wn"
    using that
  proof (induction s arbitrary: out rule: write_chunks.induct)
    case (1 s)
    show ?case
    proof (cases "s = []")
      case False
      have "length (take 32768 s) \<le> wn" using "1.prems" by simp
      note w = gives_try [OF gives_write_bytes [OF this] assms, of rn inp out]
      have "gives (linked (at rn wn inp (out @ take 32768 s)) F) (write_chunks (drop 32768 s)) (Inr ()) (linked (at rn wn inp (out @ s)) F)"
        using "1.IH" [OF False, of "out @ take 32768 s"] "1.prems" by (simp add: min_def split: if_splits)
      from gives_andthen [OF w this] show ?thesis using False by (subst write_chunks.simps) simp
    qed (simp add: write_chunks.simps gives_ret)
  qed
  show "gives (linked (at rn wn inp out) F) (write_chunks s) (Inl ERR_STRUCTURED_STREAM_BUF_TOO_SMALL) (unlinked F)" if "wn < min 32768 (length s)"
  proof -
    have "wn < length (take 32768 s)" "s \<noteq> []" using that by auto
    from gives_andthen_error [OF gives_try_error [OF gives_write_too_long [OF this(1)] assms]] this(2) show ?thesis by (subst write_chunks.simps) simp
  qed
qed

lemma client_flush_ok:
  assumes "8 \<le> wn" "1 \<le> rn"
  shows "min 32768 (length (concat (map enc_series bs))) \<le> wn \<Longrightarrow>
      gives (reaches ve rn wn (st # inp) out (queued bs)) (menoetius_client_flush ve) (Inr (ignore_config_flag st))
        (linked (flushed rn wn inp (out @ RPC_PUT_DATA # enc_batch bs)) (queued (if ignore_config_flag st = 0 then [] else bs)))"
    and "wn < min 32768 (length (concat (map enc_series bs))) \<Longrightarrow>
      gives (reaches ve rn wn (st # inp) out (queued bs)) (menoetius_client_flush ve) (Inl ERR_STRUCTURED_STREAM_BUF_TOO_SMALL) (unlinked (queued bs))"
proof -
  let ?s = "concat (map enc_series bs)" let ?L = "\<lambda>out. linked (at rn wn (st # inp) out) (queued bs)" let ?o1 = "out @ [RPC_PUT_DATA]" let ?o2 = "?o1 @ ?s @ prefixed []"
  have F: "queue_frame (queued bs)" by (rule queued_frame)
  have w: "1 \<le> wn" "2 \<le> wn" using assms(1) by simp_all
  have g: "gives (?L ?o1) (gets (\<lambda>c. take (queued_metrics_len c) (queued_metrics c))) (Inr ?s) (?L ?o1)" by (rule gives_gets) (auto simp: linked_def queued_def)
  have p: "gives (?L (?o1 @ ?s)) (on_stream (structured_stream_write_uint16_prefixed_bytes [] 0)) (Inr ()) (?L ?o2)"
    using gives_on_stream [OF gives_write_prefixed [of 0 "[]" wn rn "st # inp" "?o1 @ ?s" "[]"] F] w(2) by simp
  let ?r = "ignore_config_flag st"
  have m: "gives (linked (flushed rn wn inp ?o2) (queued bs)) (if ?r = 0 then modify (\<lambda>c. c\<lparr>queued_metrics_len := 0, num_queued_metrics := 0\<rparr>) else ret ()) (Inr ())
      (linked (flushed rn wn inp ?o2) (queued (if ?r = 0 then [] else bs)))"
    by (auto intro!: gives_modify gives_ret simp: linked_def queued_def)
  have e: "?o2 = out @ RPC_PUT_DATA # enc_batch bs" by (simp add: enc_batch_def)
  have 7: "gives (linked (flushed rn wn inp ?o2) (queued (if ?r = 0 then [] else bs))) (ret ?r) (Inr ?r) (linked (flushed rn wn inp ?o2) (queued (if ?r = 0 then [] else bs)))" by (rule gives_ret)
  show "gives (reaches ve rn wn (st # inp) out (queued bs)) (menoetius_client_flush ve) (Inr ?r)
      (linked (flushed rn wn inp (out @ RPC_PUT_DATA # enc_batch bs)) (queued (if ?r = 0 then [] else bs)))" if "min 32768 (length ?s) \<le> wn"
    unfolding menoetius_client_flush_def e [symmetric] Let_def
    by (rule gives_andthen [OF gives_connect [OF F]], rule gives_andthen [OF gives_send_code [OF F w(1)]], rule gives_andthen [OF g], rule gives_andthen [OF gives_write_chunks(1) [OF F that]],
      rule gives_andthen [OF p], rule gives_andthen [OF gives_try [OF gives_flush F]], rule gives_andthen [OF gives_status_answer(1) [OF F assms(2)]],
      rule gives_andthen [OF m], rule 7)
  show "gives (reaches ve rn wn (st # inp) out (queued bs)) (menoetius_client_flush ve) (Inl ERR_STRUCTURED_STREAM_BUF_TOO_SMALL) (unlinked (queued bs))" if "wn < min 32768 (length ?s)"
    unfolding menoetius_client_flush_def Let_def
    by (rule gives_andthen [OF gives_connect [OF F]], rule gives_andthen [OF gives_send_code [OF F w(1)]], rule gives_andthen [OF g],
      rule gives_andthen_error [OF gives_write_chunks(2) [OF F that]])
qed


section \<open>The configuration\<close>

lemma gives_get_config_client:
  assumes F: "queue_frame F" and wn: "1 \<le> wn" and h: "length h = HASH_LENGTH" and n: "length s < 2 ^ 16" "length s + 20 \<le> rn" "length s < max_config_size"
  shows "gives (reaches ve rn wn (h @ prefixed s @ inp) out F) (menoetius_client_get_config ve max_config_size) (Inr (s @ [0]))
    (linked (flushed rn wn inp (out @ [RPC_GET_CLUSTER_CONFIG])) F)"
proof -
  let ?o = "out @ [RPC_GET_CLUSTER_CONFIG]"
  have l: "length h \<le> rn" "length s + 2 \<le> rn" using h n by (simp_all add: HASH_LENGTH_def)
  have 4: "gives (linked (flushed rn wn (h @ prefixed s @ inp) ?o) F) (try_stream (structured_stream_read_bytes_inplace HASH_LENGTH)) (Inr h) (linked (flushed rn wn (prefixed s @ inp) ?o) F)"
    using gives_try [OF flushed_reads(6) [OF l(1)] F, of wn "prefixed s @ inp" ?o] unfolding h .
  have 5: "gives (linked (flushed rn wn inp ?o) F) (if length s > max_config_size then fail 1
      else andthen (assertion (\<lambda>_. length s + 1 \<le> max_config_size)) (\<lambda>_. ret (s @ [0]))) (Inr (s @ [0])) (linked (flushed rn wn inp ?o) F)"
    using n(3) by (simp add: gives_def andthen_def assertion_def ret_def)
  show ?thesis unfolding menoetius_client_get_config_def
    by (rule gives_andthen [OF gives_connect [OF F]], rule gives_andthen [OF gives_send_code [OF F wn]], rule gives_andthen [OF gives_try [OF gives_flush F]], rule gives_andthen [OF 4],
      rule gives_andthen [OF gives_try [OF flushed_reads(7) [OF n(1) l(2)] F]], rule 5)
qed

lemma gives_get_status_client:
  assumes F: "queue_frame F" and "1 \<le> wn" "1 \<le> rn"
  shows "gives (reaches ve rn wn (st # inp) out F) (menoetius_client_get_status ve) (Inr st) (linked (flushed rn wn inp (out @ [RPC_GET_STATUS])) F)"
  unfolding menoetius_client_get_status_def
  by (rule gives_andthen [OF gives_connect [OF F]], rule gives_andthen [OF gives_send_code [OF F assms(2)]], rule gives_andthen [OF gives_try [OF gives_flush F]],
    rule gives_status_answer(2) [OF F assms(3)])

section \<open>Properties\<close>

lemma any_queue: "queue_frame (\<lambda>_. True)"
  by (simp add: queue_frame_def)

lemma flag_ignored: "ignore_config_flag (flag v STATUS_OK) = 0"
  by (simp add: ignore_config_flag_def flag_def STATUS_OK_def CLUSTER_CONFIG_OUT_OF_DATE_def)

lemma linked_reaches: "linked (flushed rn wn inp out) F c \<Longrightarrow> reaches ve rn wn inp out F c"
  by (rule reaches_linked) (auto simp: linked_def flushed_def)

text \<open>A client of the example server.\<close>

definition example_client_env :: "byte list \<Rightarrow> client_env" where
  "example_client_env answer = \<lparr>dial = Some \<lparr>inbox = answer, rx = [Io_Again, Io_Some 3], sent = [], tx = []\<rparr>, dial_junk = (\<lambda>_. 0)\<rparr>"

lemma example_reaches: "F (menoetius_client_init (example_client_env answer)) \<Longrightarrow>
  reaches (example_client_env answer) 1024 1024 answer (le_bytes MENOETIUS_RPC_MAGIC_HEADER) F (menoetius_client_init (example_client_env answer))"
  by (simp add: reaches_def menoetius_client_init_def example_client_env_def)

lemma new_queue: "queued [] (menoetius_client_init ve)"
  by (simp add: queued_def menoetius_client_init_def fresh_mem_def)



text \<open>
  C23: Sending the queue. If the queue fits the write buffer of the client, or that buffer has at least 32768 bytes, all
  messages are sent as one request and the queue is empty after a positive answer. Otherwise the first
  chunk is refused, the connection is closed and the queue stays as it was, so that the next attempt fails in
  the same way. \<^verbatim>\<open>menoetius_client_init\<close> sets the buffer to 1024 bytes and \<^verbatim>\<open>menoetius_client_send\<close> sends the queue
  when it has 1000 messages, which have more than 1024 bytes.\<close>

theorem client_flush_outcome:
  assumes "reaches ve rn wn (st # inp) out (queued bs) c" "8 \<le> wn" "1 \<le> rn"
  shows "if min 32768 (length (concat (map enc_series bs))) \<le> wn
    then \<exists>c'. menoetius_client_flush ve c = Some (Inr (ignore_config_flag st), c') \<and>
      linked (flushed rn wn inp (out @ RPC_PUT_DATA # enc_batch bs)) (queued (if ignore_config_flag st = 0 then [] else bs)) c'
    else \<exists>c'. menoetius_client_flush ve c = Some (Inl ERR_STRUCTURED_STREAM_BUF_TOO_SMALL, c') \<and> client_ss c' = None \<and> queued bs c'"
proof (cases "min 32768 (length (concat (map enc_series bs))) \<le> wn")
  case True
  then show ?thesis using givesD [OF client_flush_ok(1) [OF assms(2,3) True] assms(1)] by simp
next
  case False
  then have "wn < min 32768 (length (concat (map enc_series bs)))" by (simp only: not_le)
  from givesD [OF client_flush_ok(2) [OF assms(2,3) this] assms(1)] False show ?thesis by (auto simp: unlinked_def)
qed

theorem client_flush_outcome_witness:
  "\<exists>c c'. queue_message (example_client_env [0]) (replicate 1100 97) 1100 [] (menoetius_client_init (example_client_env [0])) = Some c \<and>
     menoetius_client_flush (example_client_env [0]) c = Some (Inl ERR_STRUCTURED_STREAM_BUF_TOO_SMALL, c') \<and> queued [(replicate 1100 97, [])] c'"
proof -
  let ?ve = "example_client_env [0]" let ?k = "replicate 1100 97 :: byte list" let ?c = "menoetius_client_init ?ve"
  have n: "length (concat (map enc_series ([] @ [(?k, [])]))) = 1106" by (simp add: enc_series_def)
  have "length (concat (map enc_series ([] @ [(?k, [])]))) \<le> 2 ^ 30" unfolding n by simp
  from queue_message_ok [OF new_queue this, of ?ve "[]" ?ve] obtain c where c: "queue_message ?ve ?k 1100 [] ?c = Some c" "queued [(?k, [])] c" "client_ss c = client_ss ?c"
    "read_buf_size c = read_buf_size ?c" "write_buf_size c = write_buf_size ?c" by auto
  have r: "reaches ?ve 1024 1024 [0] (le_bytes MENOETIUS_RPC_MAGIC_HEADER) (queued [(?k, [])]) c"
    using example_reaches [of "\<lambda>_. True" "[0]"] c(2-5) by (simp add: reaches_def menoetius_client_init_def)
  have m: "(min 32768 (length (concat (map enc_series [(?k, [])]))) \<le> 1024) = False" using n by simp
  have "8 \<le> (1024 :: nat)" "1 \<le> (1024 :: nat)" by simp_all
  from client_flush_outcome [OF r this, unfolded m if_False] c(1) show ?thesis by blast
qed

text \<open>
  \<^verbatim>\<open>menoetius_client_get_config\<close> does not read the status at the end of the answer, so that the answers of the
  connection are off by one byte from then on: the next call takes that byte for its own answer and returns
  before the server has answered it.\<close>

theorem client_get_config_leaves_status:
  assumes "reaches ve rn wn (h @ prefixed s @ [st]) out F c" "queue_frame F" "1 \<le> wn" "length h = HASH_LENGTH" "length s < 2 ^ 16" "length s + 20 \<le> rn" "length s < max_config_size"
  shows "\<exists>c1 c2 ss. menoetius_client_get_config ve max_config_size c = Some (Inr (s @ [0]), c1) \<and> menoetius_client_get_status ve c1 = Some (Inr st, c2) \<and>
    client_ss c2 = Some ss \<and> sent (fd ss) = out @ [RPC_GET_CLUSTER_CONFIG, RPC_GET_STATUS] \<and> incoming ss = []"
proof -
  have rn: "1 \<le> rn" using assms(6) by simp
  from givesD [OF gives_get_config_client [OF assms(2-7)] assms(1)] obtain c1 where c1: "menoetius_client_get_config ve max_config_size c = Some (Inr (s @ [0]), c1)"
    "linked (flushed rn wn [st] (out @ [RPC_GET_CLUSTER_CONFIG])) F c1" by blast
  from givesD [OF gives_get_status_client [OF assms(2,3) rn] linked_reaches [OF c1(2)]] obtain c2 where "menoetius_client_get_status ve c1 = Some (Inr st, c2)"
    "linked (flushed rn wn [] ((out @ [RPC_GET_CLUSTER_CONFIG]) @ [RPC_GET_STATUS])) F c2" by blast
  then show ?thesis using c1(1) by (auto simp: linked_def flushed_def at_def outgoing_def)
qed

theorem client_get_config_leaves_status_witness:
  "\<exists>c1 c2. menoetius_client_get_config (example_client_env (replicate 20 0 @ prefixed [97] @ [STATUS_OK])) 100
       (menoetius_client_init (example_client_env (replicate 20 0 @ prefixed [97] @ [STATUS_OK]))) = Some (Inr [97, 0], c1) \<and>
     menoetius_client_get_status (example_client_env (replicate 20 0 @ prefixed [97] @ [STATUS_OK])) c1 = Some (Inr STATUS_OK, c2)"
proof -
  let ?a = "replicate 20 0 @ prefixed [97] @ [STATUS_OK]" let ?ve = "example_client_env ?a"
  have r: "reaches ?ve 1024 1024 ?a (le_bytes MENOETIUS_RPC_MAGIC_HEADER) (\<lambda>_. True) (menoetius_client_init ?ve)" by (rule example_reaches) simp
  have "1 \<le> (1024 :: nat)" "length (replicate 20 (0 :: byte)) = HASH_LENGTH" "length ([97] :: byte list) < 2 ^ 16" "length ([97] :: byte list) + 20 \<le> 1024" "length ([97] :: byte list) < 100"
    by (simp_all add: HASH_LENGTH_def)
  from client_get_config_leaves_status [OF r any_queue this] show ?thesis by auto
qed

end
