(* ===== verification/Lfm_Properties.thy ===== *)
theory Lfm_Properties
  imports Lfm Storage_Lookup
begin

text \<open>
  The formats of label sets: what is encoded is parsed back, within stated conditions, and what happens outside of
  them.
\<close>

section \<open>Sorting\<close>

definition cmp_sorted :: "('a \<Rightarrow> 'a \<Rightarrow> int) \<Rightarrow> 'a list \<Rightarrow> bool" where
  "cmp_sorted cmp = sorted_wrt (\<lambda>x y. cmp x y \<le> 0)"

locale comparator =
  fixes cmp :: "'a \<Rightarrow> 'a \<Rightarrow> int"
  assumes total: "\<not> cmp x y \<le> 0 \<Longrightarrow> cmp y x \<le> 0"
    and trans: "cmp x y \<le> 0 \<Longrightarrow> cmp y z \<le> 0 \<Longrightarrow> cmp x z \<le> 0"
begin

lemma insert_set: "set (qsort_insert cmp x ys) = insert x (set ys)"
  by (induction ys) auto

lemma insert_sorted: "cmp_sorted cmp ys \<Longrightarrow> cmp_sorted cmp (qsort_insert cmp x ys)"
proof (induction ys)
  case (Cons y ys)
  show ?case
  proof (cases "cmp x y \<le> 0")
    case True
    then have "\<forall>z\<in>set ys. cmp x z \<le> 0" using Cons.prems trans [OF True] by (simp add: cmp_sorted_def)
    then show ?thesis using True Cons.prems by (simp add: cmp_sorted_def)
  next
    case False
    then show ?thesis using Cons total [OF False] by (simp add: cmp_sorted_def insert_set)
  qed
qed (simp add: cmp_sorted_def)

lemma insert_mset: "mset (qsort_insert cmp x ys) = add_mset x (mset ys)"
  by (induction ys) auto

lemma qsort_sorted: "cmp_sorted cmp (qsort cmp xs)"
  unfolding qsort_def by (induction xs) (simp_all add: insert_sorted, simp add: cmp_sorted_def)

lemma qsort_mset: "mset (qsort cmp xs) = mset xs"
  unfolding qsort_def by (induction xs) (simp_all add: insert_mset)

lemma qsort_idem: "cmp_sorted cmp xs \<Longrightarrow> qsort cmp xs = xs"
proof (induction xs)
  case (Cons x xs)
  then have "qsort cmp (x # xs) = qsort_insert cmp x xs" by (simp add: qsort_def cmp_sorted_def)
  then show ?case using Cons.prems by (cases xs) (simp_all add: cmp_sorted_def)
qed (simp add: qsort_def)

end

interpretation kv: comparator key_value_cmp
proof unfold_locales
  show "key_value_cmp y x \<le> 0" if "\<not> key_value_cmp x y \<le> 0" for x y using that strcmp_swap [of "fst y" "fst x"] by (simp add: key_value_cmp_def)
  show "key_value_cmp x z \<le> 0" if "key_value_cmp x y \<le> 0" "key_value_cmp y z \<le> 0" for x y z using that strcmp_trans unfolding key_value_cmp_def by blast
qed


section \<open>The binary format\<close>

text \<open>Strings with zero bytes between them.\<close>

fun joined :: "byte list list \<Rightarrow> byte list" where
  "joined [] = []"
| "joined [s] = s"
| "joined (s # ss) = s @ 0 # joined ss"

lemma maxstrlen_plain: "plain s \<Longrightarrow> maxstrlen s = length s" "plain s \<Longrightarrow> maxstrlen (s @ 0 # x) = length s"
  by (induction s) (auto simp: plain_def)

lemma joined_enc: "ss \<noteq> [] \<Longrightarrow> joined ss @ [0] = enc_strs ss"
  by (induction ss rule: joined.induct) auto

lemma joined_labels: "joined (s # label_strs ls) = s @ concat (map (\<lambda>m. 0 # fst m @ 0 # snd m) ls)"
  by (induction ls arbitrary: s) auto

lemma labels_key_joined: "labels_key name ls = joined (name # label_strs ls)"
proof -
  have "labels_key name ls @ [0] = joined (name # label_strs ls) @ [0]"
    using joined_enc [of "name # label_strs ls"] labels_key_zero [of name ls] unfolding key_strs_def by simp
  then show ?thesis by (rule append_same_eq [THEN iffD1])
qed

text \<open>The binary format is the one of the keys of the server.\<close>

lemma encode_binary: "encode_binary_lfm lfm = labels_key (name_bytes lfm) (labels lfm)"
  unfolding labels_key_joined by (simp add: encode_binary_lfm_def joined_labels)

text \<open>One step of the parser: a string and a zero behind it, or the last string.\<close>

lemma parse_string:
  assumes "plain t" "s = t \<and> t \<noteq> [] \<and> r = [] \<or> s = t @ 0 # r"
  shows "s \<noteq> [] \<and> take (maxstrlen s) s = t \<and> drop (maxstrlen s + 1) s = r"
  using assms by (auto simp: maxstrlen_plain)

lemma parse_key:
  assumes "plain t" "s = t \<and> t \<noteq> [] \<and> r = [] \<or> s = t @ 0 # r" "i mod 2 = 1"
  shows "parse_strings i s (Some lfm) k = parse_strings (i + 1) r (Some lfm) (Some t)"
  using parse_string [OF assms(1,2)] assms(3) by (subst parse_strings.simps) (auto simp: Let_def)

lemma parse_value:
  assumes "plain t" "s = t \<and> t \<noteq> [] \<and> r = [] \<or> s = t @ 0 # r" "i mod 2 = 0" "0 < i" "length (labels lfm) < max_num_labels lfm"
  shows "parse_strings i s (Some lfm) (Some k) = parse_strings (i + 1) r (Some (lfm\<lparr>labels := labels lfm @ [(k, t)]\<rparr>)) None"
  using parse_string [OF assms(1,2)] assms(3-5) by (subst parse_strings.simps) (auto simp: Let_def lfm_add_label_unsorted_def)

lemma parse_pairs:
  assumes "\<forall>m\<in>set ls. plain (fst m) \<and> plain (snd m)" "length (labels lfm) + length ls \<le> max_num_labels lfm" "i mod 2 = 1" "r \<noteq> [] \<or> ls = [] \<or> snd (last ls) \<noteq> []"
  shows "parse_strings i (joined (label_strs ls @ r)) (Some lfm) None = parse_strings (i + 2 * length ls) (joined r) (Some (lfm\<lparr>labels := labels lfm @ ls\<rparr>)) None"
  using assms
proof (induction ls arbitrary: lfm i)
  case (Cons m ls)
  obtain k v where m: "m = (k, v)" by (cases m)
  have p: "plain k" "plain v" using Cons.prems(1) m by auto
  let ?rest = "label_strs ls @ r" and ?tail = "joined (label_strs ls @ r)"
  have s: "joined (label_strs (m # ls) @ r) = k @ 0 # joined (v # ?rest)" by (simp add: m)
  have v: "joined (v # ?rest) = v \<and> v \<noteq> [] \<and> ?tail = [] \<or> joined (v # ?rest) = v @ 0 # ?tail"
    using Cons.prems(4) by (cases ls; cases r) (auto simp: m)
  have e: "i mod 2 = 1" "(i + 1) mod 2 = 0" "(i + 1 + 1) mod 2 = 1" using Cons.prems(3) by presburger+
  let ?lfm = "lfm\<lparr>labels := labels lfm @ [(k, v)]\<rparr>"
  have ih: "parse_strings (i + 1 + 1) ?tail (Some ?lfm) None = parse_strings (i + 1 + 1 + 2 * length ls) (joined r) (Some (?lfm\<lparr>labels := labels ?lfm @ ls\<rparr>)) None"
    by (rule Cons.IH) (use Cons.prems e in \<open>auto split: if_splits\<close>)
  have "parse_strings i (joined (label_strs (m # ls) @ r)) (Some lfm) None = parse_strings (i + 1) (joined (v # ?rest)) (Some lfm) (Some k)"
    unfolding s by (rule parse_key [OF p(1) _ e(1)]) simp
  also have "\<dots> = parse_strings (i + 1 + 1) ?tail (Some ?lfm) None" by (rule parse_value [OF p(2) v e(2)]) (use Cons.prems(2) in simp_all)
  finally show ?case unfolding ih by (simp add: m)
qed simp

lemma parse_name:
  assumes "plain t" "s = t \<and> t \<noteq> [] \<and> r = [] \<or> s = t @ 0 # r"
  shows "parse_strings 0 s None None = parse_strings 1 r (Some (lfm_new (Some t))) None"
  using parse_string [OF assms] by (subst parse_strings.simps) (auto simp: Let_def)

text \<open>Sets of labels that both formats can hold.\<close>

definition lfm_ok :: "byte list \<Rightarrow> (byte list \<times> byte list) list \<Rightarrow> bool" where
  "lfm_ok name ls \<longleftrightarrow> plain name \<and> (\<forall>m\<in>set ls. plain (fst m) \<and> plain (snd m)) \<and> length ls \<le> 64"

lemma parse_labels_key:
  assumes "lfm_ok name ls" "if ls = [] then name \<noteq> [] else snd (last ls) \<noteq> []"
  shows "parse_binary_lfm (labels_key name ls) = Some (Inr (lfm_sort_labels ((lfm_new (Some name))\<lparr>labels := ls\<rparr>)))"
proof -
  note k = labels_key_joined [of name ls]
  have "joined (name # label_strs ls) = name \<and> name \<noteq> [] \<and> joined (label_strs ls) = [] \<or> joined (name # label_strs ls) = name @ 0 # joined (label_strs ls)"
    using assms(2) by (cases ls) auto
  then have 0: "parse_strings 0 (labels_key name ls) None None = parse_strings 1 (joined (label_strs ls)) (Some (lfm_new (Some name))) None"
    unfolding k using assms(1) by (intro parse_name) (auto simp: lfm_ok_def)
  have "parse_strings 1 (joined (label_strs ls @ [])) (Some (lfm_new (Some name))) None =
      parse_strings (1 + 2 * length ls) (joined []) (Some ((lfm_new (Some name))\<lparr>labels := labels (lfm_new (Some name)) @ ls\<rparr>)) None"
    by (rule parse_pairs) (use assms in \<open>auto simp: lfm_ok_def lfm_new_def split: if_splits\<close>)
  then show ?thesis unfolding parse_binary_lfm_def 0 by (simp add: parse_strings.simps [of _ "[]"] lfm_new_def)
qed

lemma parse_empty_value:
  assumes "lfm_ok name (ls @ [(k, [])])"
  shows "parse_binary_lfm (labels_key name (ls @ [(k, [])])) = Some (Inl 1)"
proof -
  let ?ls = "ls @ [(k, [])]"
  note k = labels_key_joined [of name ?ls]
  have a: "label_strs ?ls = label_strs ls @ [k, []]" by (induction ls) auto
  have "joined (name # ss) = name @ 0 # joined ss" if "ss \<noteq> []" for ss using that by (cases ss) auto
  then have "joined (name # label_strs ?ls) = name @ 0 # joined (label_strs ?ls)" unfolding a by blast
  then have 0: "parse_strings 0 (labels_key name ?ls) None None = parse_strings 1 (joined (label_strs ls @ [k, []])) (Some (lfm_new (Some name))) None"
    unfolding k a using assms by (intro parse_name) (auto simp: lfm_ok_def)
  let ?lfm = "(lfm_new (Some name))\<lparr>labels := labels (lfm_new (Some name)) @ ls\<rparr>"
  have 1: "parse_strings 1 (joined (label_strs ls @ [k, []])) (Some (lfm_new (Some name))) None = parse_strings (1 + 2 * length ls) (joined [k, []]) (Some ?lfm) None"
    by (rule parse_pairs) (use assms in \<open>auto simp: lfm_ok_def lfm_new_def\<close>)
  have "parse_strings (1 + 2 * length ls) (k @ 0 # []) (Some ?lfm) None = parse_strings (1 + 2 * length ls + 1) [] (Some ?lfm) (Some k)"
    by (rule parse_key) (use assms in \<open>auto simp: lfm_ok_def\<close>)
  then show ?thesis unfolding parse_binary_lfm_def 0 1 by (simp add: parse_strings.simps [of _ "[]"])
qed


section \<open>The text format\<close>

definition ident :: "byte list \<Rightarrow> bool" where
  "ident s \<longleftrightarrow> s \<noteq> [] \<and> (isalpha (hd s) \<or> hd s = 95) \<and> (\<forall>c\<in>set s. ident_char c)"

definition unquoted :: "byte list \<Rightarrow> bool" where
  "unquoted s \<longleftrightarrow> 0 \<notin> set s \<and> 34 \<notin> set s \<and> 92 \<notin> set s"

lemma not_letters: "\<not> isalpha 32" "\<not> isalpha 34" "\<not> isalpha 61" "\<not> isalpha 123" "\<not> isalpha 125" "\<not> isalpha 44" "\<not> isalpha 0" "\<not> isalpha 95"
  "\<not> isdigit 34" "\<not> isdigit 61" "\<not> isdigit 123" "\<not> isdigit 125" "\<not> isdigit 44" "\<not> isdigit 0"
  "\<not> ident_char 61" "\<not> ident_char 123" "\<not> ident_char 0"
  by (simp_all add: isalpha_def isdigit_def ident_char_def)

lemma scan_ident:
  assumes "ident s" "\<not> ident_char c"
  shows "scan (s @ c # r) = Some (Inr (IDENTIFIER_TOKEN, s, c # r))"
proof -
  obtain d s' where s: "s = d # s'" "isalpha d \<or> d = 95" using assms(1) by (cases s) (auto simp: ident_def)
  have "d \<noteq> 32" using s(2) not_letters(1) by auto
  moreover have "takeWhile ident_char (s @ c # r) = s" "dropWhile ident_char (s @ c # r) = c # r" using assms by (simp_all add: ident_def)
  ultimately show ?thesis using s by (simp add: scan_def Let_def scanIdent_def with_token_def)
qed

lemma scan_punctuation:
  "scan (123 # r) = Some (Inr (OPEN_BRACE_TOKEN, [], r))" "scan (125 # r) = Some (Inr (CLOSE_BRACE_TOKEN, [], r))" "scan (44 # r) = Some (Inr (COMMA_TOKEN, [], r))"
  "scan (61 # r) = Some (Inr (EQUAL_TOKEN, [], r))" "scan (0 # r) = Some (Inr (EOF_TOKEN, [], r))"
  by (simp_all add: scan_def punctuation_def not_letters)

lemma quoted_loop_plain: "unquoted v \<Longrightarrow> quoted_loop (v @ 34 # r) t = Some (Inr (t @ v, r))"
  by (induction v arbitrary: t) (auto simp: unquoted_def)

lemma scan_quoted: "unquoted v \<Longrightarrow> scan (34 # v @ 34 # r) = Some (Inr (QUOTED_STRING_TOKEN, v, r))"
  by (simp add: scan_def scanQuotedString_def quoted_loop_plain with_token_def not_letters)

text \<open>The labels behind the brace or comma.\<close>

lemma human_labels_later: "human_labels (Suc i) ls = human_labels (Suc j) ls"
proof (induction ls arbitrary: i j)
  case (Cons m ls)
  show ?case using Cons [of "Suc i" "Suc j"] by simp
qed simp

lemma parse_human_labels:
  assumes "\<forall>m\<in>set (m # ms). ident (fst m) \<and> unquoted (snd m)" "length (labels lfm) + length (m # ms) \<le> max_num_labels lfm"
  shows "parse_labels (fst m @ 61 # 34 # snd m @ 34 # human_labels 1 ms @ 125 # r) lfm = Some (Inr (lfm\<lparr>labels := labels lfm @ m # ms\<rparr>, r))"
  using assms
proof (induction ms arbitrary: m lfm)
  case Nil
  then show ?case by (subst parse_labels.simps)
    (simp add: scan_ident not_letters scan_punctuation scan_quoted lfm_add_label_unsorted_def)
next
  case (Cons n ms)
  have m: "ident (fst m)" "unquoted (snd m)" using Cons.prems(1) by simp_all
  let ?lfm = "lfm\<lparr>labels := labels lfm @ [(fst m, snd m)]\<rparr>"
  let ?t = "fst n @ 61 # 34 # snd n @ 34 # human_labels 1 ms @ 125 # r"
  have h: "human_labels 1 (n # ms) @ 125 # r = 44 # ?t" using human_labels_later [of 1 ms 0] by simp
  have "parse_labels ?t ?lfm = Some (Inr (?lfm\<lparr>labels := labels ?lfm @ n # ms\<rparr>, r))" by (rule Cons.IH) (use Cons.prems in auto)
  moreover have "lfm_add_label_unsorted lfm (fst m) (snd m) = Some ?lfm" using Cons.prems(2) by (simp add: lfm_add_label_unsorted_def)
  ultimately show ?case unfolding h using m by (subst parse_labels.simps) (simp add: scan_ident not_letters scan_punctuation scan_quoted)
qed

text \<open>Label sets in the text format: identifiers, and values without quotes and backslashes.\<close>

definition human_ok :: "byte list \<Rightarrow> (byte list \<times> byte list) list \<Rightarrow> bool" where
  "human_ok name ls \<longleftrightarrow> (ident name \<or> name = [] \<and> ls \<noteq> []) \<and> (\<forall>m\<in>set ls. ident (fst m) \<and> unquoted (snd m)) \<and> length ls \<le> 64"

lemma encode_human_ok: "encode_human_lfm lfm = Some (name_bytes lfm @ (if labels lfm = [] then [] else human_labels 0 (labels lfm) @ [125]))"
proof -
  have "length (human_labels i ls) = sum_list (map (\<lambda>l. 4 + length (fst l) + length (snd l)) ls)" for i ls by (induction ls arbitrary: i) auto
  moreover have "sum_list (map (\<lambda>l. 4 + length (fst l) + length (snd l)) ls) + (if ls = [] then 0 else 6) \<le> sum_list (map (\<lambda>l. 10 + length (fst l) + length (snd l)) ls)"
    for ls :: "(byte list \<times> byte list) list" by (induction ls) auto
  from this [of "labels lfm"] have "labels lfm \<noteq> [] \<Longrightarrow> sum_list (map (\<lambda>l. 4 + length (fst l) + length (snd l)) (labels lfm)) + 6 \<le> sum_list (map (\<lambda>l. 10 + length (fst l) + length (snd l)) (labels lfm))"
    by simp
  ultimately show ?thesis by (auto simp: encode_human_lfm_def Let_def)
qed

lemma parse_helper_ok:
  assumes "human_ok name ls" "ls \<noteq> []"
  shows "parse_human_lfm_helper (name @ human_labels 0 ls @ 125 # r) = Some (Inr (lfm_sort_labels ((lfm_new (Some name))\<lparr>labels := ls\<rparr>), r))"
proof -
  obtain m ms where ls: "ls = m # ms" using assms(2) by (cases ls) auto
  have "parse_labels (fst m @ 61 # 34 # snd m @ 34 # human_labels 1 ms @ 125 # r) (lfm_new (Some name)) = Some (Inr ((lfm_new (Some name))\<lparr>labels := labels (lfm_new (Some name)) @ m # ms\<rparr>, r))"
    by (rule parse_human_labels) (use assms ls in \<open>auto simp: human_ok_def lfm_new_def\<close>)
  then have p: "parse_labels (fst m @ 61 # 34 # snd m @ 34 # human_labels 1 ms @ 125 # r) (lfm_new (Some name)) = Some (Inr ((lfm_new (Some name))\<lparr>labels := ls\<rparr>, r))"
    using ls by (simp add: lfm_new_def)
  have t: "name @ human_labels 0 ls @ 125 # r = name @ 123 # fst m @ 61 # 34 # snd m @ 34 # human_labels 1 ms @ 125 # r" using ls by simp
  show ?thesis
  proof (cases "name = []")
    case True
    then show ?thesis unfolding t parse_human_lfm_helper_def using p by (simp add: scan_punctuation)
  next
    case False
    then have "ident name" using assms(1) by (auto simp: human_ok_def)
    then show ?thesis unfolding t parse_human_lfm_helper_def using p by (simp add: scan_punctuation scan_ident not_letters)
  qed
qed

lemma parse_human_ok:
  assumes "human_ok name ls"
  shows "parse_human_lfm (name @ (if ls = [] then [] else human_labels 0 ls @ [125]) @ [0]) = Some (Inr (lfm_sort_labels ((lfm_new (Some name))\<lparr>labels := ls\<rparr>)))"
proof (cases "ls = []")
  case True
  then have "ident name" using assms by (simp add: human_ok_def)
  then show ?thesis using True scan_ident [of name 0 "[]"]
    by (simp add: parse_human_lfm_def parse_human_lfm_helper_def scan_punctuation not_letters lfm_new_def)
next
  case False
  then show ?thesis using parse_helper_ok [OF assms False, of "[0]"] by (simp add: parse_human_lfm_def)
qed


section \<open>Properties\<close>

definition lfm_of :: "byte list \<Rightarrow> (byte list \<times> byte list) list \<Rightarrow> LFM" where
  "lfm_of name ls = (lfm_new (Some name))\<lparr>labels := ls\<rparr>"

text \<open>The labels of a result: the same ones, in the order of their names.\<close>

definition ordered_lfm :: "byte list \<Rightarrow> (byte list \<times> byte list) list \<Rightarrow> LFM \<Rightarrow> bool" where
  "ordered_lfm name ls lfm \<longleftrightarrow> lfm_name lfm = Some name \<and> mset (labels lfm) = mset ls \<and> cmp_sorted key_value_cmp (labels lfm) \<and>
     (cmp_sorted key_value_cmp ls \<longrightarrow> labels lfm = ls)"

lemma sorted_lfm: "ordered_lfm name ls (lfm_sort_labels (lfm_of name ls))"
  by (simp add: ordered_lfm_def lfm_sort_labels_def lfm_of_def lfm_new_def kv.qsort_mset kv.qsort_sorted kv.qsort_idem)

text \<open>
  C20: The binary format is loss-free. A set of at most 64 labels without zero bytes is parsed back from its encoding with
  the same name and labels, in the order of the labels' names, if the last value is not empty and there is
  a name or a label.\<close>

theorem lfm_binary_roundtrip:
  assumes "lfm_ok name ls" "if ls = [] then name \<noteq> [] else snd (last ls) \<noteq> []"
  shows "\<exists>lfm. parse_binary_lfm (encode_binary_lfm (lfm_of name ls)) = Some (Inr lfm) \<and> ordered_lfm name ls lfm"
proof -
  have "encode_binary_lfm (lfm_of name ls) = labels_key name ls" by (simp add: encode_binary lfm_of_def lfm_new_def name_bytes_def)
  then show ?thesis using parse_labels_key [OF assms] sorted_lfm [of name ls] by (simp add: lfm_of_def)
qed

theorem lfm_binary_roundtrip_witness:
  "\<exists>lfm. parse_binary_lfm (encode_binary_lfm (lfm_of [99] [([98], [50]), ([97], [49])])) = Some (Inr lfm) \<and> labels lfm = [([97], [49]), ([98], [50])]"
proof -
  have "lfm_ok [99] [([98], [50]), ([97], [49])]" by (simp add: lfm_ok_def plain_def)
  from lfm_binary_roundtrip [OF this] obtain lfm where l: "parse_binary_lfm (encode_binary_lfm (lfm_of [99] [([98], [50]), ([97], [49])])) = Some (Inr lfm)"
    "ordered_lfm [99] [([98], [50]), ([97], [49])] lfm" by auto
  then have m: "mset (labels lfm) = {#([97], [49]), ([98], [50])#}" "cmp_sorted key_value_cmp (labels lfm)" by (simp_all add: ordered_lfm_def add_mset_commute)
  have "length (labels lfm) = Suc (Suc 0)" using arg_cong [OF m(1), of size] by simp
  then obtain x y where xy: "labels lfm = [x, y]" by (auto simp: length_Suc_conv)
  then have "(x, y) = (([97], [49]), ([98], [50])) \<or> (x, y) = (([98], [50]), ([97], [49]))" using m(1) by (auto simp: add_eq_conv_ex)
  then show ?thesis using l(1) m(2) xy by (auto simp: cmp_sorted_def key_value_cmp_def)
qed

text \<open>
  C21: The text format is loss-free, and encoding stays within its buffer. A set of at most 64 labels whose names are
  identifiers and whose values have no quotes and backslashes is written without overrunning the buffer, and the
  text is parsed back to the same name and labels, in the order of the labels' names.\<close>

theorem lfm_human_roundtrip:
  assumes "human_ok name ls"
  shows "\<exists>t lfm. encode_human_lfm (lfm_of name ls) = Some t \<and> parse_human_lfm (t @ [0]) = Some (Inr lfm) \<and> ordered_lfm name ls lfm"
proof -
  have "name_bytes (lfm_of name ls) = name" "labels (lfm_of name ls) = ls" by (simp_all add: lfm_of_def lfm_new_def name_bytes_def)
  then show ?thesis using encode_human_ok [of "lfm_of name ls"] parse_human_ok [OF assms] sorted_lfm [of name ls] unfolding lfm_of_def [symmetric] by auto
qed

theorem lfm_human_roundtrip_witness:
  "\<exists>t lfm. encode_human_lfm (lfm_of [99] [([97], [49])]) = Some t \<and> t = [99, 123, 97, 61, 34, 49, 34, 125] \<and> parse_human_lfm (t @ [0]) = Some (Inr lfm) \<and> labels lfm = [([97], [49])]"
proof -
  have "human_ok [99] [([97], [49])]" by (simp add: human_ok_def ident_def unquoted_def isalpha_def ident_char_def)
  from lfm_human_roundtrip [OF this] obtain t lfm where t: "encode_human_lfm (lfm_of [99] [([97], [49])]) = Some t" "parse_human_lfm (t @ [0]) = Some (Inr lfm)"
    "ordered_lfm [99] [([97], [49])] lfm" by blast
  moreover have "encode_human_lfm (lfm_of [99] [([97], [49])]) = Some [99, 123, 97, 61, 34, 49, 34, 125]" by (simp add: encode_human_lfm_def lfm_of_def lfm_new_def name_bytes_def)
  ultimately show ?thesis by (auto simp: ordered_lfm_def cmp_sorted_def)
qed

text \<open>
  The binary format cannot hold an empty last value. The encoding of a set of labels that ends with an empty
  value, which the text format accepts, is refused by the parser: the zero byte behind the last name is taken
  for the end of the key.\<close>

theorem lfm_empty_value_refused:
  assumes "lfm_ok name (ls @ [(k, [])])"
  shows "parse_binary_lfm (encode_binary_lfm (lfm_of name (ls @ [(k, [])]))) = Some (Inl 1)"
  using parse_empty_value [OF assms] by (simp add: encode_binary lfm_of_def lfm_new_def name_bytes_def)

theorem lfm_empty_value_refused_witness: "parse_binary_lfm (encode_binary_lfm (lfm_of [99] [([97], [])])) = Some (Inl 1)"
proof -
  have "lfm_ok [99] ([] @ [([97], [])])" by (simp add: lfm_ok_def plain_def)
  from lfm_empty_value_refused [OF this] show ?thesis by simp
qed

text \<open>
  \<^verbatim>\<open>parse_human_lfm_and_value\<close> reads behind the end of its text when the text is only a name: the scanner moves
  behind the zero when it returns the token for the end, and the next call of it reads from there.\<close>

theorem lfm_value_overread:
  assumes "ident name"
  shows "parse_human_lfm_and_value strtod (name @ [0]) = None"
proof -
  have "scan [] = None" by (simp add: scan_def)
  then show ?thesis using scan_ident [OF assms not_letters(17), of "[]"] by (simp add: parse_human_lfm_and_value_def parse_human_lfm_helper_def scan_punctuation)
qed

theorem lfm_value_overread_witness: "parse_human_lfm_and_value (\<lambda>_. 0) [99, 112, 117, 0] = None"
  using lfm_value_overread [of "[99, 112, 117]" "\<lambda>_. 0"] by (simp add: ident_def isalpha_def ident_char_def)

section \<open>Values and times\<close>

lemma digit_no_letter: "isdigit c \<Longrightarrow> c \<noteq> 32 \<and> \<not> isalpha c \<and> c \<noteq> 95"
  by (auto simp: isdigit_def isalpha_def word_le_nat_alt)

lemma scan_time:
  assumes "tm_ok t"
  shows "scan (strftime t @ 0 # r) = Some (Inr (TIMESTAMP_TOKEN, strftime t, 0 # r))"
proof -
  obtain a b c d e f g h i j k l m n where s: "strftime t = [a, b, c, d, 45, e, f, 45, g, h, 84, i, j, 58, k, l, 58, m, n]"
    "\<forall>x\<in>{a, b, c, d, e, f, g, h, i, j, k, l, m, n}. isdigit x" using printed_shape [OF assms] by (auto simp: is_dec_digit_def isdigit_def)
  have a: "a \<noteq> 32" "\<not> isalpha a" "a \<noteq> 95" using s(2) digit_no_letter by simp_all
  have z: "\<not> isdigit 45" "\<not> isdigit 84" "\<not> isdigit 58" by (simp_all add: isdigit_def)
  show ?thesis unfolding s(1) scan_def using s(2) a
    by (simp add: scanNumberOrTimestamp_def number_token_def number_refuses_def number_takes_def z not_letters)
qed

text \<open>What may stand between the equal sign and the time: a number with at most one point.\<close>

definition number_lit :: "byte list \<Rightarrow> bool" where
  "number_lit v \<longleftrightarrow> v \<noteq> [] \<and> isdigit (hd v) \<and> (\<forall>c\<in>set v. isdigit c \<or> c = 46) \<and> length (filter (\<lambda>c. c = 46) v) \<le> 1"

lemma number_loop_lit:
  assumes "\<forall>c\<in>set v. isdigit c \<or> c = 46" "length (filter (\<lambda>c. c = 46) v) \<le> (if decimal_found w then 0 else 1)"
    and "hyphens_found w = 0" "\<not> t_found w" "colons_found w = 0" "x = 0 \<or> x = 64"
  shows "\<exists>b. number_loop (v @ x # r) i w = Some (Inr (i + length v, w\<lparr>decimal_found := b\<rparr>))"
  using assms
proof (induction v arbitrary: i w)
  case Nil
  then show ?case by (intro exI [of _ "decimal_found w"]) (auto simp: isdigit_def number_refuses_def)
next
  case (Cons c v)
  have z: "\<not> isdigit 46" by (simp add: isdigit_def)
  show ?case
  proof (cases "c = 46")
    case True
    then have "\<exists>b. number_loop (v @ x # r) (i + 1) (w\<lparr>decimal_found := True\<rparr>) = Some (Inr (i + 1 + length v, w\<lparr>decimal_found := True\<rparr>\<lparr>decimal_found := b\<rparr>))"
      by (intro Cons.IH) (use Cons.prems in \<open>auto split: if_splits\<close>)
    then show ?thesis using True z Cons.prems by (auto simp: number_refuses_def number_takes_def split: if_splits)
  next
    case False
    then have "\<exists>b. number_loop (v @ x # r) (i + 1) w = Some (Inr (i + 1 + length v, w\<lparr>decimal_found := b\<rparr>))" by (intro Cons.IH) (use Cons.prems in auto)
    then show ?thesis using False Cons.prems(1) by auto
  qed
qed

lemma scan_number:
  assumes "number_lit v" "x = 0 \<or> x = 64"
  shows "\<exists>tok. scan (v @ x # r) = Some (Inr (tok, v, x # r)) \<and> (tok = INT_TOKEN \<or> tok = FLOAT_TOKEN)"
proof -
  let ?w = "\<lparr>decimal_found = False, hyphens_found = 0, t_found = False, colons_found = 0\<rparr>"
  obtain b where b: "number_loop (v @ x # r) 0 ?w = Some (Inr (length v, ?w\<lparr>decimal_found := b\<rparr>))"
    using number_loop_lit [of v ?w x r 0] assms by (auto simp: number_lit_def)
  obtain c u where v: "v = c # u" "isdigit c" using assms(1) by (cases v) (auto simp: number_lit_def)
  have c: "c \<noteq> 32" "\<not> isalpha c" "c \<noteq> 95" using v(2) digit_no_letter by simp_all
  have "scan (v @ x # r) = scanNumberOrTimestamp (v @ x # r)" using v c by (simp add: scan_def)
  then show ?thesis using b by (auto simp: scanNumberOrTimestamp_def number_token_def)
qed

text \<open>A series with a value and, behind a sign, a time; the labels are in braces.\<close>

definition point_text :: "byte list \<Rightarrow> (byte list \<times> byte list) list \<Rightarrow> byte list \<Rightarrow> tm option \<Rightarrow> byte list" where
  "point_text name ls v t = name @ human_labels 0 ls @ [125, 61] @ v @ (case t of None \<Rightarrow> [] | Some t \<Rightarrow> 64 # strftime t)"

lemma parse_point_text:
  assumes "human_ok name ls" "ls \<noteq> []" "number_lit v" "\<forall>x. t = Some x \<longrightarrow> tm_ok x"
  shows "parse_human_lfm_and_value strtod (point_text name ls v t @ [0]) =
    Some (Inr (lfm_sort_labels (lfm_of name ls), strtod v, map_option timegm t))"
proof (cases t)
  case None
  obtain tok where "scan (v @ [0]) = Some (Inr (tok, v, [0]))" "tok = INT_TOKEN \<or> tok = FLOAT_TOKEN" using scan_number [OF assms(3), of 0 "[]"] by auto
  then show ?thesis using parse_helper_ok [OF assms(1,2), of "61 # v @ [0]"] None
    by (auto simp: point_text_def parse_human_lfm_and_value_def scan_punctuation lfm_of_def)
next
  case (Some x)
  then have x: "tm_ok x" using assms(4) by simp
  obtain tok where "scan (v @ 64 # strftime x @ [0]) = Some (Inr (tok, v, 64 # strftime x @ [0]))" "tok = INT_TOKEN \<or> tok = FLOAT_TOKEN"
    using scan_number [OF assms(3), of 64 "strftime x @ [0]"] by auto
  moreover have "scan (64 # strftime x @ [0]) = Some (Inr (AT_TOKEN, [], strftime x @ [0]))" by (simp add: scan_def punctuation_def isalpha_def isdigit_def)
  moreover have "parse_time (strftime x) = Inr (timegm x)" using parse_printed [OF x, of "[]"] by (simp add: parse_time_def)
  ultimately show ?thesis using parse_helper_ok [OF assms(1,2), of "61 # v @ 64 # strftime x @ [0]"] Some scan_time [OF x, of "[]"]
    by (auto simp: point_text_def parse_human_lfm_and_value_def scan_punctuation lfm_of_def)
qed

text \<open>
  C22: A time that the tool prints is a time that it reads. From 1970 to the end of the year 9999, the text that \<^verbatim>\<open>gmtime\<close> and \<^verbatim>\<open>strftime\<close> make
  of a time stamp is one token of the text format, also behind a value, and \<^verbatim>\<open>parse_time\<close> gives the time stamp back.\<close>

theorem time_text_roundtrip:
  assumes "0 \<le> sint t" "sint t < 253402300800" "human_ok name ls" "ls \<noteq> []" "number_lit v"
  shows "\<exists>x. gmtime t = Some x \<and> parse_time (strftime x) = Inr t \<and>
    parse_human_lfm_and_value strtod (point_text name ls v (Some x) @ [0]) = Some (Inr (lfm_sort_labels (lfm_of name ls), strtod v, Some t))"
proof -
  obtain x where x: "gmtime t = Some x" "tm_ok x" "timegm x = t" using gmtime_ok [OF assms(1,2)] by blast
  then have "parse_time (strftime x) = Inr t" using parse_printed [OF x(2), of "[]"] by (simp add: parse_time_def)
  then show ?thesis using parse_point_text [OF assms(3-5), of "Some x"] x by auto
qed

theorem time_text_roundtrip_witness:
  "\<exists>x. gmtime 1571850602 = Some x \<and> strftime x = bytes ''2019-10-23T17:10:02'' \<and> parse_time (bytes ''2019-10-23T17:10:02'') = Inr 1571850602"
proof -
  have ok: "human_ok [99] [([97], [49])]" "number_lit [53]" by (simp_all add: human_ok_def ident_def unquoted_def isalpha_def ident_char_def number_lit_def isdigit_def)
  have t: "0 \<le> sint (1571850602 :: i64)" "sint (1571850602 :: i64) < 253402300800" by simp_all
  obtain x where x: "gmtime 1571850602 = Some x" "parse_time (strftime x) = Inr 1571850602"
    using time_text_roundtrip [OF t ok(1) _ ok(2), of "\<lambda>_. 0"] by auto
  have "gmtime 1571850602 = Some \<lparr>tm_year = 119, tm_mon = 9, tm_mday = 23, tm_hour = 17, tm_min = 10, tm_sec = 2\<rparr>"
    by (simp add: gmtime_def year_after.simps year_len_def leap_def month_lens_def)
  then have "strftime x = bytes ''2019-10-23T17:10:02''" using x(1) by (simp add: strftime_def two_digits_def int_text_def dec_digits.simps bytes_def)
  then show ?thesis using x by auto
qed

end
