(* ===== verification/Conn_Query.thy ===== *)
theory Conn_Query
  imports Conn_Session
begin

unbundle bit_operations_syntax

text \<open>
  The request that looks up keys by their labels: how the handler chooses an index, and what it answers.
\<close>

section \<open>Reading the labels\<close>

definition enc_labels :: "(byte list \<times> byte list) list \<Rightarrow> byte list" where
  "enc_labels ls = concat (map (\<lambda>m. prefixed (fst m) @ prefixed (snd m)) ls)"

text \<open>What the loop does with one label.\<close>

definition label_step :: "byte list list \<Rightarrow> byte list \<times> byte list \<Rightarrow> query_vars \<Rightarrow> query_vars" where
  "label_step inds m v = (let v = choose_index inds (fst m) v; n = length (label_matches v) + length (fst m) + 1
     in v\<lparr>label_matches := label_matches v @ fst m @ 0 # snd m @ [0], index_val := (case index_val v of None \<Rightarrow> Some n | Some p \<Rightarrow> Some p)\<rparr>)"

definition no_labels :: query_vars where
  "no_labels = \<lparr>index_num = - 1, index_val = None, label_matches = []\<rparr>"

definition query_labels :: "byte list list \<Rightarrow> (byte list \<times> byte list) list \<Rightarrow> query_vars" where
  "query_labels inds ls = fold (label_step inds) ls no_labels"

lemma choose_index_matches [simp]: "label_matches (choose_index inds l v) = label_matches v"
  by (auto simp: choose_index_def Let_def split: option.splits)

lemma label_step_matches [simp]: "label_matches (label_step inds m v) = label_matches v @ fst m @ 0 # snd m @ [0]"
  by (simp add: label_step_def Let_def)

lemma fold_matches: "label_matches (fold (label_step inds) ls v) = label_matches v @ enc_strs (label_strs ls)"
  by (induction ls arbitrary: v) simp_all

lemma query_labels_matches: "label_matches (query_labels inds ls) = enc_strs (label_strs ls)"
  by (simp add: query_labels_def fold_matches no_labels_def)

lemma gives_read_labels:
  assumes "ss_frame i F" "\<And>sv. F sv \<Longrightarrow> indices (srv_storage sv) = inds"
    and "\<forall>m\<in>set ls. length (fst m) + 2 \<le> rn \<and> length (fst m) < 2 ^ 16 \<and> length (snd m) + 2 \<le> rn \<and> length (snd m) < 2 ^ 16"
    and "length (label_matches v) + length (enc_strs (label_strs ls)) < MAX_LABEL_MATCHES"
  shows "gives (serving i (at rn wn (enc_labels ls @ inp) out) F) (read_labels i (length ls) v) (Inr (fold (label_step inds) ls v)) (serving i (at rn wn inp out) F)"
  using assms(3,4)
proof (induction ls arbitrary: v)
  case Nil
  show ?case by (simp add: enc_labels_def gives_ret)
next
  case (Cons m ls)
  have l: "length (fst m) + 2 \<le> rn" "length (fst m) < 2 ^ 16" "length (snd m) + 2 \<le> rn" "length (snd m) < 2 ^ 16" using Cons.prems(1) by auto
  let ?v1 = "choose_index inds (fst m) v" let ?v2 = "?v1\<lparr>label_matches := label_matches v @ fst m @ [0]\<rparr>"
  let ?v3 = "case index_val ?v2 of None \<Rightarrow> ?v2\<lparr>index_val := Some (length (label_matches ?v2))\<rparr> | Some _ \<Rightarrow> ?v2"
  let ?S = "\<lambda>inp. serving i (at rn wn inp out) F" and ?r = "enc_labels ls @ inp"
  have c: "gives (?S x) (gets (\<lambda>sv. choose_index (indices (srv_storage sv)) (fst m) v)) (Inr ?v1) (?S x)" for x
    by (rule gives_gets) (use assms(2) in \<open>auto simp: serving_def\<close>)
  have a: "gives (?S x) (add_match (fst m) ?v1) (Inr ?v2) (?S x)" for x using Cons.prems(2) by (simp add: add_match_def gives_ret)
  have lm: "label_matches ?v3 = label_matches v @ fst m @ [0]" by (simp split: option.splits)
  have st: "?v3\<lparr>label_matches := label_matches ?v3 @ snd m @ [0]\<rparr> = label_step inds m v"
    unfolding lm by (simp add: label_step_def Let_def split: option.splits)
  have b: "gives (?S x) (add_match (snd m) ?v3) (Inr (label_step inds m v)) (?S x)" for x
    using Cons.prems(2) unfolding add_match_def st unfolding lm by (simp add: gives_ret)
  have e: "enc_labels (m # ls) @ inp = prefixed (fst m) @ prefixed (snd m) @ ?r" by (simp add: enc_labels_def)
  have ih: "gives (?S ?r) (read_labels i (length ls) (label_step inds m v)) (Inr (fold (label_step inds) ls (label_step inds m v))) (?S inp)"
    using Cons.IH [of "label_step inds m v"] Cons.prems by simp
  show ?case unfolding length_Cons read_labels.simps e fold_Cons comp_apply
    by (rule gives_andthen [OF gives_read_key_inplace [OF l(1,2) assms(1)]], rule gives_andthen [OF c], rule gives_andthen [OF a],
      rule gives_andthen [OF gives_read_key_inplace [OF l(3,4) assms(1)]], rule gives_andthen [OF b], rule ih)
qed

section \<open>The choice of the index\<close>

lemma strncmp_zero:
  assumes "plain l"
  shows "strlen ix = length l \<and> strncmp l ix (length l) = 0 \<longleftrightarrow> c_string ix = l"
proof
  assume a: "strlen ix = length l \<and> strncmp l ix (length l) = 0"
  have "strlen (take (strlen ix) ix) = strlen ix" by (induction ix) auto
  then show "c_string ix = l" using a c_string_plain [OF assms] by (simp add: strncmp_def strcmp_eq_0 c_string_def)
next
  assume c: "c_string ix = l"
  then have "strlen ix = length l" using strlen_le [of ix] by (auto simp: c_string_def)
  moreover have "take (length l) ix = l" using c calculation by (simp add: c_string_def)
  ultimately show "strlen ix = length l \<and> strncmp l ix (length l) = 0" by (simp add: strncmp_def strcmp_eq_0)
qed

lemma find_index_ok:
  assumes "plain l"
  shows "case find_index l ixs j of None \<Rightarrow> l \<notin> c_string ` set ixs | Some n \<Rightarrow> j \<le> n \<and> n < j + length ixs \<and> c_string (ixs ! (n - j)) = l"
proof (induction ixs arbitrary: j)
  case (Cons ix ixs)
  show ?case unfolding find_index.simps strncmp_zero [OF assms] using Cons.IH [of "j + 1"]
    by (cases "c_string ix = l") (auto split: option.splits simp: nth_Cons')
qed simp


text \<open>The value that the handler looks for is \<open>x\<close>.\<close>

definition value_at :: "query_vars \<Rightarrow> byte list \<Rightarrow> bool" where
  "value_at v x \<longleftrightarrow> (\<exists>p y. index_val v = Some p \<and> p \<le> length (label_matches v) \<and> drop p (label_matches v) = x @ 0 # y)"

lemma value_at_keep:
  assumes "value_at v x" "index_val (choose_index inds (fst m) v) = index_val v"
  shows "value_at (label_step inds m v) x"
  using assms by (fastforce simp: value_at_def label_step_def Let_def)

lemma value_at_new:
  assumes "index_val (choose_index inds (fst m) v) = None"
  shows "value_at (label_step inds m v) (snd m)"
  using assms by (simp add: value_at_def label_step_def Let_def)

abbreviation (input) the_name :: "byte list" where
  "the_name \<equiv> c_string name_label"

definition indexed :: "byte list list \<Rightarrow> byte list \<Rightarrow> bool" where
  "indexed inds l \<longleftrightarrow> l \<in> c_string ` set inds"

text \<open>
  The three outcomes: no label has an index; the index of the names, with the value of the \<^emph>\<open>first\<close> label; or the
  index of one of the labels with its value.
\<close>

definition chosen :: "byte list list \<Rightarrow> (byte list \<times> byte list) list \<Rightarrow> query_vars \<Rightarrow> bool" where
  "chosen inds ls v \<longleftrightarrow>
     (index_num v = - 1 \<and> (\<forall>m\<in>set ls. fst m \<noteq> the_name \<and> \<not> indexed inds (fst m)) \<and> (if ls = [] then index_val v = None else value_at v (snd (hd ls)))) \<or>
     (index_num v = int NAME_INDEX \<and> (\<forall>m\<in>set ls. fst m = the_name \<or> \<not> indexed inds (fst m)) \<and> (\<exists>m\<in>set ls. fst m = the_name) \<and> value_at v (snd (hd ls))) \<or>
     (\<exists>j<length inds. index_num v = int (j + NUM_SPECIAL_INDICES) \<and> (\<exists>m\<in>set ls. c_string (inds ! j) = fst m \<and> value_at v (snd m)))"

lemma step_num [simp]: "index_num (label_step inds m v) = index_num (choose_index inds (fst m) v)"
  by (simp add: label_step_def Let_def)

lemma is_name:
  assumes "plain l"
  shows "length l = 8 \<and> strncmp l name_label 8 = 0 \<longleftrightarrow> l = the_name"
proof -
  have "strlen name_label = 8" by (simp add: name_label_def)
  then show ?thesis using strncmp_zero [OF assms, of name_label] by auto
qed

lemma search_ok:
  assumes "plain l" "j \<le> length inds"
  shows "case find_index l (drop j inds) j of None \<Rightarrow> l \<notin> c_string ` set (drop j inds) | Some n \<Rightarrow> j \<le> n \<and> n < length inds \<and> c_string (inds ! n) = l"
  using find_index_ok [OF assms(1), of "drop j inds" j] assms(2) by (auto split: option.splits)

lemma chosen_step:
  assumes "chosen inds ls v" "plain (fst m)"
  shows "chosen inds (ls @ [m]) (label_step inds m v)"
proof -
  let ?l = "fst m" and ?v = "choose_index inds (fst m) v"
  let ?j = "if index_num v \<ge> int NUM_SPECIAL_INDICES then nat (index_num v) - NUM_SPECIAL_INDICES + 1 else 0"
  have sp: "int NAME_INDEX = 2" "NUM_SPECIAL_INDICES = 3" by (simp_all add: NAME_INDEX_def NUM_SPECIAL_INDICES_def)
  have j: "?j \<le> length inds" using assms(1) by (auto simp: chosen_def sp)
  show ?thesis
  proof (cases "index_num v = - 1 \<and> ?l = the_name")
    case True
    then have v: "?v = v\<lparr>index_num := int NAME_INDEX\<rparr>" using is_name [OF assms(2)] by (simp add: choose_index_def)
    have c: "\<forall>m\<in>set ls. \<not> indexed inds (fst m)" "if ls = [] then index_val v = None else value_at v (snd (hd ls))"
      using assms(1) True by (auto simp: chosen_def sp)
    have "value_at (label_step inds m v) (snd (hd (ls @ [m])))"
      using c(2) value_at_keep [of v _ inds m] value_at_new [of inds m v] unfolding v by (auto split: if_splits)
    then show ?thesis using True c(1) v by (auto simp: chosen_def)
  next
    case nn: False
    then have v: "?v = (case find_index ?l (drop ?j inds) ?j of None \<Rightarrow> v | Some j \<Rightarrow> v\<lparr>index_num := int (j + NUM_SPECIAL_INDICES), index_val := None\<rparr>)"
      using is_name [OF assms(2)] by (auto simp: choose_index_def Let_def)
    show ?thesis
    proof (cases "find_index ?l (drop ?j inds) ?j")
      case (Some n)
      then have n: "n < length inds" "c_string (inds ! n) = ?l" using search_ok [OF assms(2) j] by (simp_all only: option.case)
      have v2: "?v = v\<lparr>index_num := int (n + NUM_SPECIAL_INDICES), index_val := None\<rparr>" unfolding v Some by simp
      have "value_at (label_step inds m v) (snd m)" by (rule value_at_new) (simp add: v2)
      then show ?thesis unfolding chosen_def step_num v2 using n by auto
    next
      case None
      then have n: "?l \<notin> c_string ` set (drop ?j inds)" using search_ok [OF assms(2) j] by (simp only: option.case not_False_eq_True)
      have v2: "?v = v" unfolding v None by simp
      have keep: "value_at (label_step inds m v) x" if "value_at v x" for x by (rule value_at_keep [OF that]) (simp add: v2)
      have new: "value_at (label_step inds m v) (snd m)" if "index_val v = None" by (rule value_at_new) (simp add: v2 that)
      consider (none) "index_num v = - 1" | (name) "index_num v = int NAME_INDEX" | (ix) "index_num v \<ge> int NUM_SPECIAL_INDICES" using assms(1) by (auto simp: chosen_def)
      then show ?thesis
      proof cases
        case none
        then have "\<not> indexed inds ?l" "?l \<noteq> the_name" using n nn by (auto simp: indexed_def sp)
        then show ?thesis using assms(1) none keep new unfolding chosen_def step_num v2 by (cases "ls = []") (auto simp: sp)
      next
        case name
        then have "\<not> indexed inds ?l" using n by (auto simp: indexed_def sp)
        moreover have "ls \<noteq> []" using assms(1) name by (auto simp: chosen_def sp)
        ultimately show ?thesis using assms(1) name keep unfolding chosen_def step_num v2 by (auto simp: sp)
      next
        case ix
        then show ?thesis using assms(1) keep unfolding chosen_def step_num v2 by (auto simp: sp)
      qed
    qed
  qed
qed

lemma query_labels_chosen:
  assumes "\<forall>m\<in>set ls. plain (fst m)"
  shows "chosen inds ls (query_labels inds ls)"
  using assms
proof (induction ls rule: rev_induct)
  case Nil
  show ?case by (simp add: chosen_def query_labels_def no_labels_def)
next
  case (snoc m ls)
  then show ?case using chosen_step [of inds ls "query_labels inds ls" m] by (simp add: query_labels_def)
qed


section \<open>The handler\<close>

definition enc_query :: "u8 \<Rightarrow> (byte list \<times> byte list) list \<Rightarrow> u64 \<Rightarrow> u64 \<Rightarrow> byte list" where
  "enc_query flags ls offset limit = flags # of_nat (length ls) # enc_labels ls @ le_bytes offset @ le_bytes limit"

definition query_ok :: "nat \<Rightarrow> (byte list \<times> byte list) list \<Rightarrow> bool" where
  "query_ok rn ls \<longleftrightarrow> length ls < 2 ^ 8 \<and> length (enc_strs (label_strs ls)) < MAX_LABEL_MATCHES \<and>
     (\<forall>m\<in>set ls. plain (fst m) \<and> plain (snd m) \<and> length (fst m) + 2 \<le> rn \<and> length (snd m) + 2 \<le> rn)"

definition asked :: "nat \<Rightarrow> the_storage \<Rightarrow> bool \<Rightarrow> server \<Rightarrow> bool" where
  "asked i st v sv \<longleftrightarrow> srv_storage sv = st \<and> has_valid_config (get_conn i sv) = v"

lemma asked_frame: "ss_frame i (asked i st v)"
  by (simp add: ss_frame_def asked_def)

lemma short_strings: "m \<in> set ls \<Longrightarrow> length (fst m) < length (enc_strs (label_strs ls)) \<and> length (snd m) < length (enc_strs (label_strs ls))"
  by (induction ls) auto

text \<open>The end of the handler, when the lookup has returned.\<close>

definition query_answer :: "bool \<Rightarrow> bool \<Rightarrow> int \<Rightarrow> byte list \<Rightarrow> u64 \<Rightarrow> byte list" where
  "query_answer v scan res results lid = (if res = 0 then results else []) @ prefixed [] @ (if scan then le_bytes lid else []) @ [flag v (query_error res)]"

lemma gives_query_answer:
  assumes "res = 0 \<longrightarrow> length results \<le> wn" "8 \<le> wn"
  shows "gives (serving i (at rn wn inp out) (asked i st v)) (andthen (if res \<noteq> 0 then ret () else on_ss i (structured_stream_write_bytes results)) (\<lambda>_.
       andthen (on_ss i (structured_stream_write_uint16_prefixed_string [0])) (\<lambda>_.
       andthen (if scan then on_ss i (structured_stream_write_uint64 lid) else ret ()) (\<lambda>_.
       andthen (config_flag i (query_error res)) (\<lambda>error_code.
       andthen (on_ss i (structured_stream_write_uint8 error_code)) (\<lambda>_.
       on_ss i structured_stream_flush)))))) (Inr ())
     (serving i (flushed rn wn inp (out @ query_answer v scan res results lid)) (asked i st v))"
proof -
  let ?S = "\<lambda>out. serving i (at rn wn inp out) (asked i st v)"
  let ?o1 = "out @ (if res = 0 then results else [])" let ?o2 = "?o1 @ prefixed []" let ?o3 = "?o2 @ (if scan then le_bytes lid else [])"
  note fr = asked_frame [of i st v]
  have w: "2 \<le> wn" "1 \<le> wn" using assms(2) by simp_all
  have 1: "gives (?S out) (if res \<noteq> 0 then ret () else on_ss i (structured_stream_write_bytes results)) (Inr ()) (?S ?o1)"
    using gives_on_ss [OF gives_write_bytes fr, of results wn rn inp out] assms(1) by (simp add: gives_ret)
  have 2: "gives (?S ?o1) (on_ss i (structured_stream_write_uint16_prefixed_string [0])) (Inr ()) (?S ?o2)"
    using gives_on_ss [OF gives_write_string [of "[0]" wn] fr, of rn inp ?o1] w by simp
  have 3: "gives (?S ?o2) (if scan then on_ss i (structured_stream_write_uint64 lid) else ret ()) (Inr ()) (?S ?o3)"
    using gives_on_ss [OF gives_write_uint64 [OF assms(2)] fr, of rn inp ?o2 lid] by (simp add: gives_ret)
  have o: "?o3 @ [flag v (query_error res)] = out @ query_answer v scan res results lid" by (simp add: query_answer_def)
  have c: "has_valid_config (get_conn i sv) = v" if "asked i st v sv" for sv using that by (simp add: asked_def)
  note 4 = gives_answer [OF fr c w(2), of rn inp ?o3 "query_error res", folded flag_def, unfolded o]
  show ?thesis by (rule gives_andthen [OF 1], rule gives_andthen [OF 2], rule gives_andthen [OF 3], rule 4)
qed


text \<open>The part of the handler behind the request, as it is written there.\<close>

definition answer_query :: "nat \<Rightarrow> (byte list \<times> byte list) list \<Rightarrow> query_vars \<Rightarrow> u8 \<Rightarrow> u64 \<Rightarrow> u64 \<Rightarrow> (server, unit) prog" where
  "answer_query i ls vq flags offset limit =
     (let force = (flags AND 2 \<noteq> 0); scan = (flags AND 1 \<noteq> 0 \<or> force);
         index = (if force then - 1 else index_num vq); lid = (if force then offset else 0)
     in if \<not> force \<and> index_num vq = - 1 \<and> offset > 0 then fail 1
     else
       andthen (lookup_query vq index (length ls) scan lid offset limit) (\<lambda>(res, results, lid).
       andthen (if res \<noteq> 0 then ret () else on_ss i (structured_stream_write_bytes results)) (\<lambda>_.
       andthen (on_ss i (structured_stream_write_uint16_prefixed_string [0])) (\<lambda>_.
       andthen (if scan then on_ss i (structured_stream_write_uint64 lid) else ret ()) (\<lambda>_.
       andthen (config_flag i (query_error res)) (\<lambda>error_code.
       andthen (on_ss i (structured_stream_write_uint8 error_code)) (\<lambda>_.
       on_ss i structured_stream_flush)))))))"

lemma gives_query:
  assumes "query_ok rn ls" "8 \<le> rn" "indices st = inds"
    and "gives (serving i (at rn wn inp out) (asked i st v)) (answer_query i ls (query_labels inds ls) flags offset limit) r Q"
  shows "gives (serving i (at rn wn (RPC_QUERY_LFMS # enc_query flags ls offset limit @ inp) out) (asked i st v)) (handle_conn_rpc_code ce i) r Q"
proof (rule gives_rpc [OF _ asked_frame])
  note fr = asked_frame [of i st v]
  have q: "length ls < 2 ^ 8" "\<forall>m\<in>set ls. length (fst m) + 2 \<le> rn \<and> length (fst m) < 2 ^ 16 \<and> length (snd m) + 2 \<le> rn \<and> length (snd m) < 2 ^ 16"
    "length (label_matches no_labels) + length (enc_strs (label_strs ls)) < MAX_LABEL_MATCHES" "\<And>sv. asked i st v sv \<Longrightarrow> indices (srv_storage sv) = inds"
    using assms(1,3) short_strings by (fastforce simp: query_ok_def no_labels_def asked_def handler_limits)+
  show rn: "1 \<le> rn" using assms(2) by simp
  have n: "unat (of_nat (length ls) :: u8) = length ls" using q(1) by (simp add: unat_of_nat)
  have e: "enc_query flags ls offset limit @ inp = le_bytes flags @ le_bytes (of_nat (length ls) :: u8) @ enc_labels ls @ le_bytes offset @ le_bytes limit @ inp"
    by (simp add: enc_query_def le_bytes_def)
  note labels = gives_read_labels [OF fr q(4,2,3), folded query_labels_def]
  show "gives (serving i (at rn wn (enc_query flags ls offset limit @ inp) out) (asked i st v)) (dispatch ce i RPC_QUERY_LFMS) r Q"
    unfolding dispatch_simps handle_conn_query_lfms_def e Let_def
    by (rule gives_andthen [OF gives_on_ss [OF gives_read_uint8 [OF rn] fr]], rule gives_andthen [OF gives_on_ss [OF gives_read_uint8 [OF rn] fr]],
      unfold n, fold no_labels_def, rule gives_andthen [OF labels], assumption, rule gives_andthen [OF gives_on_ss [OF gives_read_uint64 [OF assms(2)] fr]],
      rule gives_andthen [OF gives_on_ss [OF gives_read_uint64 [OF assms(2)] fr]], rule assms(4) [unfolded answer_query_def Let_def])
qed


text \<open>The lookup through an index.\<close>

lemma answer_indexed:
  assumes "\<forall>sv. asked i st v sv \<longrightarrow> lookup_query vq (index_num vq) (length ls) (flags AND 1 \<noteq> 0) 0 offset limit sv = Some (Inr (res, results, 0), sv)"
    and "flags AND 2 = 0" "index_num vq \<noteq> - 1" "8 \<le> wn"
  shows "res = 0 \<longrightarrow> length results \<le> wn \<Longrightarrow> gives (serving i (at rn wn inp out) (asked i st v)) (answer_query i ls vq flags offset limit) (Inr ())
      (serving i (flushed rn wn inp (out @ query_answer v (flags AND 1 \<noteq> 0) res results 0)) (asked i st v))"
    and "res = 0 \<Longrightarrow> wn < length results \<Longrightarrow> gives (serving i (at rn wn inp out) (asked i st v)) (answer_query i ls vq flags offset limit) (Inl ERR_STRUCTURED_STREAM_BUF_TOO_SMALL)
      (serving i (at rn wn inp out) (asked i st v))"
proof -
  let ?S = "serving i (at rn wn inp out) (asked i st v)"
  have r: "gives ?S (lookup_query vq (index_num vq) (length ls) (flags AND 1 \<noteq> 0) 0 offset limit) (Inr (res, results, 0)) ?S"
    using assms(1) by (auto simp: gives_def serving_def)
  have a: "answer_query i ls vq flags offset limit = andthen (lookup_query vq (index_num vq) (length ls) (flags AND 1 \<noteq> 0) 0 offset limit) (\<lambda>(res, results, lid).
       andthen (if res \<noteq> 0 then ret () else on_ss i (structured_stream_write_bytes results)) (\<lambda>_.
       andthen (on_ss i (structured_stream_write_uint16_prefixed_string [0])) (\<lambda>_.
       andthen (if flags AND 1 \<noteq> 0 then on_ss i (structured_stream_write_uint64 lid) else ret ()) (\<lambda>_.
       andthen (config_flag i (query_error res)) (\<lambda>error_code.
       andthen (on_ss i (structured_stream_write_uint8 error_code)) (\<lambda>_.
       on_ss i structured_stream_flush))))))" using assms(2,3) by (simp add: answer_query_def Let_def)
  show "gives ?S (answer_query i ls vq flags offset limit) (Inr ())
      (serving i (flushed rn wn inp (out @ query_answer v (flags AND 1 \<noteq> 0) res results 0)) (asked i st v))" if "res = 0 \<longrightarrow> length results \<le> wn"
    unfolding a by (rule gives_andthen [OF r], unfold prod.case, rule gives_query_answer [OF that assms(4)])
  show "gives ?S (answer_query i ls vq flags offset limit) (Inl ERR_STRUCTURED_STREAM_BUF_TOO_SMALL) ?S" if "res = 0" "wn < length results"
    unfolding a by (rule gives_andthen [OF r], unfold prod.case, rule gives_andthen_error)
      (use that gives_on_ss [OF gives_write_too_long [OF that(2)] asked_frame] in simp)
qed

text \<open>The value that is looked up, and what the answer can contain.\<close>

lemma in_index_value:
  assumes "plain x"
  shows "in_index inds ix (x @ 0 # y) k = in_index inds ix x k"
  unfolding in_index_def c_string_str(1) [OF assms] c_string_plain [OF assms] ..

lemma name_matcher:
  assumes "key_matches (enc_strs (label_strs ms)) (length ms) k" "(the_name, n) \<in> set ms" "\<forall>m\<in>set ms. plain (fst m) \<and> plain (snd m)"
  shows "c_string (k @ [0]) = n"
  using assms unfolding key_matches_def
proof (induction ms)
  case (Cons m ms)
  have m: "plain (fst m)" "plain (snd m)" using Cons.prems(3) by auto
  then show ?case using Cons by (cases "m = (the_name, n)") (auto simp: strcmp_eq_0 c_string_str Let_def)
qed simp

definition index_for :: "byte list list \<Rightarrow> byte list \<Rightarrow> nat \<Rightarrow> bool" where
  "index_for inds l ix \<longleftrightarrow> ix = NAME_INDEX \<and> l = the_name \<or> (\<exists>j<length inds. ix = j + NUM_SPECIAL_INDICES \<and> c_string (inds ! j) = l)"

lemma query_indexed:
  assumes "query_ok rn ls" "8 \<le> rn" "8 \<le> wn" "storage_good st db" "length (item_list st) < 2 ^ 63" "flags AND 2 = 0"
    and ix: "index_num (query_labels (indices st) ls) = int ix" "ix = NAME_INDEX \<or> NUM_SPECIAL_INDICES \<le> ix \<and> ix < num_roots st"
    and x: "value_at (query_labels (indices st) ls) x" "plain x"
  shows "\<exists>ks. distinct ks \<and> set ks = {k \<in> dom db. in_index (indices st) ix x k \<and> key_matches (enc_strs (label_strs ls)) (length ls) k} \<and>
    (\<forall>offset limit page results sv inp out v ce i. page = take (unat limit) (drop (unat offset) ks) \<and> results = concat (map enc_key (fit MAX_LFM_RESULTS page)) \<and>
       serving i (at rn wn (RPC_QUERY_LFMS # enc_query flags ls offset limit @ inp) out) (asked i st v) sv \<longrightarrow>
      (if page_code MAX_LFM_RESULTS page = 0 \<and> wn < length results then \<exists>sv'. handle_conn_rpc_code ce i sv = Some (Inl ERR_STRUCTURED_STREAM_BUF_TOO_SMALL, sv')
       else \<exists>sv'. handle_conn_rpc_code ce i sv = Some (Inr (), sv') \<and>
         serving i (flushed rn wn inp (out @ query_answer v (flags AND 1 \<noteq> 0) (page_code MAX_LFM_RESULTS page) results 0)) (asked i st v) sv'))"
proof -
  let ?vq = "query_labels (indices st) ls"
  obtain p y where p: "index_val ?vq = Some p" "drop p (label_matches ?vq) = x @ 0 # y" using x(1) by (auto simp: value_at_def)
  obtain G where G: "store_ok st G" "db = db_of st G" using assms(4) by (auto simp: storage_good_def)
  from lookup_ok [OF G(1) assms(5) ix(2), of "x @ 0 # y" "enc_strs (label_strs ls)" "length ls"] obtain ks where
    ks: "distinct ks" "set ks = {k \<in> dom db. in_index (indices st) ix x k \<and> key_matches (enc_strs (label_strs ls)) (length ls) k}"
      "\<And>room offset limit. storage_lookup st ix (x @ 0 # y) (enc_strs (label_strs ls)) (length ls) room offset limit =
         Some (page_code room (take limit (drop offset ks)), concat (map enc_key (fit room (take limit (drop offset ks)))))"
    unfolding in_index_value [OF x(2)] G(2) by blast
  have run: "lookup_query ?vq (index_num ?vq) (length ls) scan 0 offset limit sv =
      Some (Inr (page_code MAX_LFM_RESULTS (take (unat limit) (drop (unat offset) ks)), concat (map enc_key (fit MAX_LFM_RESULTS (take (unat limit) (drop (unat offset) ks)))), 0), sv)"
    if "asked i st v sv" for i v sv scan offset limit
    using that p ix(1) ks(3) by (simp add: lookup_query_def asked_def query_labels_matches)
  have n1: "index_num ?vq \<noteq> - 1" using ix(1) by simp
  show ?thesis
  proof (intro exI [of _ ks] conjI ks(1,2) allI impI, elim conjE, goal_cases)
    case (1 offset limit page results sv inp out v ce i)
    let ?code = "page_code MAX_LFM_RESULTS page"
    have r: "\<forall>sv. asked i st v sv \<longrightarrow> lookup_query ?vq (index_num ?vq) (length ls) (flags AND 1 \<noteq> 0) 0 offset limit sv = Some (Inr (?code, results, 0), sv)"
      using run unfolding 1(1,2) by blast
    note a = answer_indexed [OF r assms(6) n1 assms(3), of rn inp out]
    note q = gives_query [OF assms(1,2) refl]
    show ?case
    proof (cases "?code = 0 \<and> wn < length results")
      case True
      then show ?thesis using givesD [OF q [OF a(2)] 1(3), of ce] by auto
    next
      case False
      then have "?code = 0 \<longrightarrow> length results \<le> wn" by auto
      then show ?thesis using givesD [OF q [OF a(1)] 1(3), of ce] False by (simp only: if_False)
    qed
  qed
qed


lemma query_found:
  assumes "query_ok rn ls" "8 \<le> rn" "8 \<le> wn" "storage_good st db" "length (item_list st) < 2 ^ 63" "flags AND 2 = 0"
    and "(\<exists>m\<in>set ls. fst m \<noteq> the_name \<and> indexed (indices st) (fst m)) \<or> ls \<noteq> [] \<and> fst (hd ls) = the_name"
  shows "\<exists>m ix ks. m \<in> set ls \<and> index_for (indices st) (fst m) ix \<and> distinct ks \<and>
    set ks = {k \<in> dom db. in_index (indices st) ix (snd m) k \<and> key_matches (enc_strs (label_strs ls)) (length ls) k} \<and>
    (\<forall>offset limit page results sv inp out v ce i. page = take (unat limit) (drop (unat offset) ks) \<and> results = concat (map enc_key (fit MAX_LFM_RESULTS page)) \<and>
       serving i (at rn wn (RPC_QUERY_LFMS # enc_query flags ls offset limit @ inp) out) (asked i st v) sv \<longrightarrow>
      (if page_code MAX_LFM_RESULTS page = 0 \<and> wn < length results then \<exists>sv'. handle_conn_rpc_code ce i sv = Some (Inl ERR_STRUCTURED_STREAM_BUF_TOO_SMALL, sv')
       else \<exists>sv'. handle_conn_rpc_code ce i sv = Some (Inr (), sv') \<and>
         serving i (flushed rn wn inp (out @ query_answer v (flags AND 1 \<noteq> 0) (page_code MAX_LFM_RESULTS page) results 0)) (asked i st v) sv'))"
proof -
  let ?vq = "query_labels (indices st) ls"
  have pl: "\<forall>m\<in>set ls. plain (fst m)" "\<forall>m\<in>set ls. plain (snd m)" using assms(1) by (simp_all add: query_ok_def)
  have "\<exists>m ix. m \<in> set ls \<and> index_for (indices st) (fst m) ix \<and> index_num ?vq = int ix \<and> (ix = NAME_INDEX \<or> NUM_SPECIAL_INDICES \<le> ix \<and> ix < num_roots st) \<and> value_at ?vq (snd m)"
    using query_labels_chosen [OF pl(1), of "indices st"] unfolding chosen_def
  proof (elim disjE exE conjE bexE, goal_cases)
    case (3 j m)
    then show ?case by (intro exI [of _ m] exI [of _ "j + NUM_SPECIAL_INDICES"]) (auto simp: index_for_def num_roots_def)
  next
    case (2 m)
    then show ?case using assms(7) hd_in_set [of ls] by (intro exI [of _ "hd ls"] exI [of _ NAME_INDEX]) (auto simp: index_for_def)
  qed (use assms(7) hd_in_set [of ls] in auto)
  then obtain m ix where m: "m \<in> set ls" "index_for (indices st) (fst m) ix" "index_num ?vq = int ix" "ix = NAME_INDEX \<or> NUM_SPECIAL_INDICES \<le> ix \<and> ix < num_roots st"
    "value_at ?vq (snd m)" by blast
  have "plain (snd m)" using pl(2) m(1) by simp
  from query_indexed [OF assms(1-6) m(3-5) this] m(1,2) show ?thesis by blast
qed


section \<open>Example\<close>

text \<open>A server that stores the points of the examples under one key.\<close>

lemma example_written_key:
  assumes "valid_key k"
  shows "\<exists>st'. storage_write example_env example_storage k (of_nat (length k)) example_points = Some (0, st') \<and> storage_good st' [k \<mapsto> example_points] \<and>
    indices st' = [] \<and> length (item_list st') < 2 ^ 63"
proof -
  have k: "unat (of_nat (length k) :: u16) = length k" using assms by (rule key_length)
  have o: "increasing (points_of Map.empty k @ example_points)" "\<forall>q\<in>set (points_of Map.empty k @ example_points). 0 < sint (fst q) \<and> sint (fst q) < 2 ^ 31"
    using example_increasing by (simp_all add: points_of_def)
  have m: "initial_tsc_buf_size example_storage mod 8 = 4" using example_storage_ok(3) by simp
  from storage_write_all [OF example_storage_ok(2) example_env_ok assms k example_points_ok(1) m o, of "[]"]
    storage_write_gen [OF example_storage_ok(2) example_env_ok assms k example_points_ok, of "[]"] example_storage_ok(6,7)
  show ?thesis by (auto simp: points_of_def)
qed

definition storing :: "the_storage \<Rightarrow> byte list \<Rightarrow> server" where
  "storing st inp = (busy_server 2048 (conn_with inp))\<lparr>srv_storage := st\<rparr>"

lemma storing_ok: "0 < length (conn_pool (storing st inp))" "srv_storage (storing st inp) = st" "at 2048 2048 inp [] (conn_ss (get_conn 0 (storing st inp)))"
  "\<not> has_valid_config (get_conn 0 (storing st inp))"
  using conn_with_ok(1) conn_with_at [of inp] busy_server_ok(7) [of 2048 "conn_with inp"] by (simp_all add: storing_def get_conn_def)

section \<open>Properties\<close>

text \<open>
  C16: The request that looks up keys. If one of the labels has an index, or the first label is \<^verbatim>\<open>__name__\<close>, the
  handler uses an index that belongs to one of the labels, with the value of that label. The answers are the
  pages of one list, without duplicates, of exactly the keys in the database with that value in the
  index that satisfy all matchers; each request returns the keys from its offset, at most \<^verbatim>\<open>limit\<close> of them, then an empty
  key and the status. If the keys do not fit the buffer for the results, none is returned and the status
  says so; if they fit that buffer but not the one of the connection, the connection ends without an
  answer.\<close>

theorem query_request:
  assumes "query_ok rn ls" "8 \<le> rn" "8 \<le> wn" "storage_good st db" "length (item_list st) < 2 ^ 63" "flags AND 2 = 0"
    and "(\<exists>m\<in>set ls. fst m \<noteq> the_name \<and> indexed (indices st) (fst m)) \<or> ls \<noteq> [] \<and> fst (hd ls) = the_name"
  shows "\<exists>m ix ks. m \<in> set ls \<and> index_for (indices st) (fst m) ix \<and> distinct ks \<and>
    set ks = {k \<in> dom db. in_index (indices st) ix (snd m) k \<and> key_matches (enc_strs (label_strs ls)) (length ls) k} \<and>
    (\<forall>offset limit page results sv inp out ce i. page = take (unat limit) (drop (unat offset) ks) \<and> results = concat (map enc_key (fit MAX_LFM_RESULTS page)) \<and>
       i < length (conn_pool sv) \<and> srv_storage sv = st \<and> at rn wn (RPC_QUERY_LFMS # enc_query flags ls offset limit @ inp) out (conn_ss (get_conn i sv)) \<longrightarrow>
      (if page_code MAX_LFM_RESULTS page = 0 \<and> wn < length results then \<exists>sv'. handle_conn_rpc_code ce i sv = Some (Inl ERR_STRUCTURED_STREAM_BUF_TOO_SMALL, sv')
       else \<exists>sv'. handle_conn_rpc_code ce i sv = Some (Inr (), sv') \<and> srv_storage sv' = st \<and>
         at rn wn inp (out @ query_answer (has_valid_config (get_conn i sv)) (flags AND 1 \<noteq> 0) (page_code MAX_LFM_RESULTS page) results 0) (conn_ss (get_conn i sv'))))"
proof -
  from query_found [OF assms] obtain m ix ks where m: "m \<in> set ls" "index_for (indices st) (fst m) ix" and ks: "distinct ks"
    "set ks = {k \<in> dom db. in_index (indices st) ix (snd m) k \<and> key_matches (enc_strs (label_strs ls)) (length ls) k}"
    "\<And>offset limit page results sv inp out v ce i. page = take (unat limit) (drop (unat offset) ks) \<and> results = concat (map enc_key (fit MAX_LFM_RESULTS page)) \<and>
       serving i (at rn wn (RPC_QUERY_LFMS # enc_query flags ls offset limit @ inp) out) (asked i st v) sv \<Longrightarrow>
      (if page_code MAX_LFM_RESULTS page = 0 \<and> wn < length results then \<exists>sv'. handle_conn_rpc_code ce i sv = Some (Inl ERR_STRUCTURED_STREAM_BUF_TOO_SMALL, sv')
       else \<exists>sv'. handle_conn_rpc_code ce i sv = Some (Inr (), sv') \<and>
         serving i (flushed rn wn inp (out @ query_answer v (flags AND 1 \<noteq> 0) (page_code MAX_LFM_RESULTS page) results 0)) (asked i st v) sv')" by blast
  show ?thesis
  proof (intro exI [of _ m] exI [of _ ix] exI [of _ ks] conjI m(1,2) ks(1,2) allI impI, goal_cases)
    case (1 offset limit page results sv inp out ce i)
    then have "serving i (at rn wn (RPC_QUERY_LFMS # enc_query flags ls offset limit @ inp) out) (asked i st (has_valid_config (get_conn i sv))) sv"
      by (simp add: serving_def asked_def)
    with ks(3) [of page limit offset results i inp out _ sv ce] 1 show ?case by (auto simp: serving_def asked_def flushed_def split: if_splits)
  qed
qed

theorem query_request_witness:
  "\<exists>st1 sv'. storage_write example_env example_storage example_key 3 example_points = Some (0, st1) \<and>
     handle_conn_rpc_code example_conn_env 0 (storing st1 (RPC_QUERY_LFMS # enc_query 0 [(the_name, example_key)] 0 10)) = Some (Inr (), sv') \<and>
     outgoing (conn_ss (get_conn 0 sv')) = enc_key example_key @ prefixed [] @ [STATUS_OK OR CLUSTER_CONFIG_OUT_OF_DATE]"
proof -
  let ?ls = "[(the_name, example_key)]"
  obtain st1 where w: "storage_write example_env example_storage example_key 3 example_points = Some (0, st1)" "storage_good st1 [example_key \<mapsto> example_points]"
    "indices st1 = []" "length (item_list st1) < 2 ^ 63" using example_written_key [OF example_key_ok(1)] by (auto simp: example_key_def)
  have n: "the_name = [95, 95, 110, 97, 109, 101, 95, 95]" by (simp add: c_string_def name_label_def)
  have q: "query_ok 2048 ?ls" by (simp add: query_ok_def plain_def n example_key_def MAX_LABEL_MATCHES_def)
  have "(0 :: u8) AND 2 = 0" "(\<exists>m\<in>set ?ls. fst m \<noteq> the_name \<and> indexed (indices st1) (fst m)) \<or> ?ls \<noteq> [] \<and> fst (hd ?ls) = the_name" "8 \<le> (2048 :: nat)" by simp_all
  from query_request [OF q this(3,3) w(2,4) this(1,2)] obtain m ix ks where k: "m \<in> set ?ls" "index_for [] (fst m) ix" "distinct ks"
    "set ks = {k \<in> dom [example_key \<mapsto> example_points]. in_index [] ix (snd m) k \<and> key_matches (enc_strs (label_strs ?ls)) (length ?ls) k}"
    "\<And>offset limit page results sv inp out ce i. page = take (unat limit) (drop (unat offset) ks) \<and> results = concat (map enc_key (fit MAX_LFM_RESULTS page)) \<and>
       i < length (conn_pool sv) \<and> srv_storage sv = st1 \<and> at 2048 2048 (RPC_QUERY_LFMS # enc_query 0 ?ls offset limit @ inp) out (conn_ss (get_conn i sv)) \<Longrightarrow>
      (if page_code MAX_LFM_RESULTS page = 0 \<and> 2048 < length results then \<exists>sv'. handle_conn_rpc_code ce i sv = Some (Inl ERR_STRUCTURED_STREAM_BUF_TOO_SMALL, sv')
       else \<exists>sv'. handle_conn_rpc_code ce i sv = Some (Inr (), sv') \<and> srv_storage sv' = st1 \<and>
         at 2048 2048 inp (out @ query_answer (has_valid_config (get_conn i sv)) ((0 :: u8) AND 1 \<noteq> 0) (page_code MAX_LFM_RESULTS page) results 0) (conn_ss (get_conn i sv')))"
    unfolding w(3) by blast
  have m: "m = (the_name, example_key)" "ix = NAME_INDEX" using k(1,2) by (simp_all add: index_for_def)
  have "key_matches (enc_strs (label_strs ?ls)) (length ?ls) example_key" "in_index [] NAME_INDEX example_key example_key"
    by (simp_all add: key_matches_def in_index_def n example_key_def name_label_def c_string_def)
  then have "set ks = {example_key}" unfolding k(4) m by auto
  then have ks: "ks = [example_key]" by (rule only_element [OF k(3)])
  have f: "fit MAX_LFM_RESULTS [example_key] = [example_key]" by (simp add: example_key_def MAX_LFM_RESULTS_def)
  let ?sv = "storing st1 (RPC_QUERY_LFMS # enc_query 0 ?ls 0 10 @ [])"
  have "\<exists>sv'. handle_conn_rpc_code example_conn_env 0 ?sv = Some (Inr (), sv') \<and>
      at 2048 2048 [] ([] @ query_answer (has_valid_config (get_conn 0 ?sv)) ((0 :: u8) AND 1 \<noteq> 0) 0 (enc_key example_key) 0) (conn_ss (get_conn 0 sv'))"
    using k(5) [of "[example_key]" 10 0 "enc_key example_key" 0 ?sv "[]" "[]" example_conn_env] storing_ok(1-3) f unfolding ks
    by (auto simp: page_code_def example_key_def)
  then show ?thesis using w(1) storing_ok(4) by (auto simp: at_def query_answer_def flag_def query_error_def STATUS_OK_def)
qed

text \<open>
  C36: A query by name misses its keys when another label comes first. If \<^verbatim>\<open>__name__\<close> is among the labels but not the
  first one, and no label has an index, the handler chooses the index of the names and looks in it for the
  value of the first label. Unless that happens to be the requested name, the answer is empty with the
  status OK, whatever keys match.\<close>

theorem query_misses_name:
  assumes "query_ok rn ls" "8 \<le> rn" "8 \<le> wn" "storage_good (srv_storage sv) db" "length (item_list (srv_storage sv)) < 2 ^ 63" "flags AND 2 = 0"
    and "(the_name, n) \<in> set ls" "snd (hd ls) \<noteq> n" "\<forall>m\<in>set ls. \<not> indexed (indices (srv_storage sv)) (fst m)"
    and "i < length (conn_pool sv)" "at rn wn (RPC_QUERY_LFMS # enc_query flags ls offset limit @ inp) out (conn_ss (get_conn i sv))"
  shows "\<exists>sv'. handle_conn_rpc_code ce i sv = Some (Inr (), sv') \<and>
    at rn wn inp (out @ query_answer (has_valid_config (get_conn i sv)) (flags AND 1 \<noteq> 0) 0 [] 0) (conn_ss (get_conn i sv'))"
proof -
  let ?st = "srv_storage sv" let ?vq = "query_labels (indices ?st) ls"
  have pl: "\<forall>m\<in>set ls. plain (fst m) \<and> plain (snd m)" and ne: "ls \<noteq> []" using assms(1,7) by (auto simp: query_ok_def)
  then have x: "plain (snd (hd ls))" by simp
  have "chosen (indices ?st) ls ?vq" using pl by (intro query_labels_chosen) simp
  then have ix: "index_num ?vq = int NAME_INDEX" "value_at ?vq (snd (hd ls))" using assms(7,9) unfolding chosen_def indexed_def by (force simp: image_iff)+
  from query_indexed [OF assms(1-6) ix(1) _ ix(2) x] obtain ks where
    ks: "set ks = {k \<in> dom db. in_index (indices ?st) NAME_INDEX (snd (hd ls)) k \<and> key_matches (enc_strs (label_strs ls)) (length ls) k}"
    "\<And>offset limit page results sv inp out v ce i. page = take (unat limit) (drop (unat offset) ks) \<and> results = concat (map enc_key (fit MAX_LFM_RESULTS page)) \<and>
       serving i (at rn wn (RPC_QUERY_LFMS # enc_query flags ls offset limit @ inp) out) (asked i ?st v) sv \<Longrightarrow>
      (if page_code MAX_LFM_RESULTS page = 0 \<and> wn < length results then \<exists>sv'. handle_conn_rpc_code ce i sv = Some (Inl ERR_STRUCTURED_STREAM_BUF_TOO_SMALL, sv')
       else \<exists>sv'. handle_conn_rpc_code ce i sv = Some (Inr (), sv') \<and>
         serving i (flushed rn wn inp (out @ query_answer v (flags AND 1 \<noteq> 0) (page_code MAX_LFM_RESULTS page) results 0)) (asked i ?st v) sv')" by blast
  have "set ks = {}" unfolding ks(1) using name_matcher [OF _ assms(7) pl] assms(8) x by (auto simp: in_index_def c_string_plain)
  then have k: "ks = []" by simp
  have "serving i (at rn wn (RPC_QUERY_LFMS # enc_query flags ls offset limit @ inp) out) (asked i ?st (has_valid_config (get_conn i sv))) sv"
    using assms(10,11) by (simp add: serving_def asked_def)
  then show ?thesis using ks(2) [of "[]" limit offset "[]" i inp out _ sv ce] unfolding k by (auto simp: serving_def flushed_def page_code_def)
qed

theorem query_misses_name_witness:
  "\<exists>st1 sv'. storage_write example_env example_storage [99, 0, 97, 0, 98] 5 example_points = Some (0, st1) \<and>
     key_matches (enc_strs (label_strs [([97], [98]), (the_name, [99])])) 2 [99, 0, 97, 0, 98] \<and>
     handle_conn_rpc_code example_conn_env 0 (storing st1 (RPC_QUERY_LFMS # enc_query 0 [([97], [98]), (the_name, [99])] 0 10)) = Some (Inr (), sv') \<and>
     outgoing (conn_ss (get_conn 0 sv')) = prefixed [] @ [STATUS_OK OR CLUSTER_CONFIG_OUT_OF_DATE]"
proof -
  let ?ls = "[([97], [98]), (the_name, [99])] :: (byte list \<times> byte list) list" and ?k = "[99, 0, 97, 0, 98] :: byte list"
  have "valid_key ?k" by (simp add: valid_key_def MAX_BUF_def)
  then obtain st1 where w: "storage_write example_env example_storage ?k 5 example_points = Some (0, st1)" "storage_good st1 [?k \<mapsto> example_points]"
    "indices st1 = []" "length (item_list st1) < 2 ^ 63" using example_written_key [of ?k] by auto
  let ?sv = "storing st1 (RPC_QUERY_LFMS # enc_query 0 ?ls 0 10 @ [])"
  have n: "the_name = [95, 95, 110, 97, 109, 101, 95, 95]" by (simp add: c_string_def name_label_def)
  have q: "query_ok 2048 ?ls" by (simp add: query_ok_def plain_def n MAX_LABEL_MATCHES_def)
  have p: "8 \<le> (2048 :: nat)" "(0 :: u8) AND 2 = 0" "(the_name, [99]) \<in> set ?ls" "snd (hd ?ls) \<noteq> [99]" "\<forall>m\<in>set ?ls. \<not> indexed (indices (srv_storage ?sv)) (fst m)"
    using storing_ok(2) w(3) by (simp_all add: indexed_def)
  have s: "storage_good (srv_storage ?sv) [?k \<mapsto> example_points]" "length (item_list (srv_storage ?sv)) < 2 ^ 63" using w(2,4) storing_ok(2) by simp_all
  have "key_matches (enc_strs (label_strs ?ls)) 2 ?k" unfolding key_matches_def n by code_simp
  then show ?thesis using query_misses_name [OF q p(1,1) s p(2-5) storing_ok(1,3), of example_conn_env] w(1) storing_ok(4)
    by (auto simp: at_def query_answer_def flag_def query_error_def STATUS_OK_def)
qed

end
