(* ===== verification/Cli_Properties.thy ===== *)
theory Cli_Properties
  imports Cli Client_Properties Lfm_Properties Conn_Query
begin

text \<open>
  The tool and the server together: what a user types is what the server stores, and what the server stores is what the tool prints.
\<close>

section \<open>Command lines\<close>

definition prefix_host :: mem where
  "prefix_host = bytes ''localhost'' @ replicate (MAX_HOST - 9) 0"

lemma default_host: "parse_host_and_port (bytes ''localhost'') (replicate MAX_HOST 0) MENOETIUS_PORT = Some (0, prefix_host, MENOETIUS_PORT)"
proof -
  have "(0 :: byte) # replicate 1014 0 = replicate 1015 0" by (simp add: numeral_eq_Suc)
  then show ?thesis by (simp add: parse_host_and_port_def bytes_def prefix_host_def MAX_HOST_def mem_write_def drop_replicate)
qed

text \<open>A word that is not an option.\<close>

definition word_ok :: "byte list \<Rightarrow> bool" where
  "word_ok w \<longleftrightarrow> w \<noteq> [] \<and> hd w \<noteq> 45"

lemma stop_at_word: "word_ok w \<Longrightarrow> parse_options options (Some w # argv) vars = Some (0, Some w # argv, vars)"
  by (simp add: word_ok_def)

lemma commands_ok:
  "word_ok (bytes ''put'')" "word_ok (bytes ''get'')"
  "get_command cli_commands (bytes ''put'') = Some Run_put" "get_command cli_commands (bytes ''get'') = Some Run_get"
  "word_ok (bytes ''query'')" "get_command cli_commands (bytes ''query'') = Some Run_query"
  by (simp_all add: word_ok_def get_command_def cli_commands_def bytes_def)

lemma cli_main_runs:
  assumes "word_ok name" "get_command cli_commands name = Some cmd"
  shows "cli_main (Some prog # Some name # argv) = Some (Cli_Run cmd prefix_host MENOETIUS_PORT argv)"
  using stop_at_word [OF assms(1)] assms(2) default_host by (simp add: cli_main_def host_addr_def help_addr_def)

lemma host_text: "takeWhile (\<lambda>b. b \<noteq> 0) prefix_host = bytes ''localhost''"
  by (simp add: prefix_host_def bytes_def MAX_HOST_def takeWhile_replicate)

lemma lfm_word: "human_ok name ls \<Longrightarrow> word_ok (name @ (if ls = [] then [] else human_labels 0 ls @ [125]) @ r)"
proof -
  assume h: "human_ok name ls"
  show ?thesis
  proof (cases "name = []")
    case True
    then obtain m ms where "ls = m # ms" using h by (cases ls) (auto simp: human_ok_def ident_def)
    then show ?thesis using True by (simp add: word_ok_def)
  next
    case False
    then have "isalpha (hd name) \<or> hd name = 95" using h by (auto simp: human_ok_def ident_def)
    moreover have "\<not> isalpha 45" by (simp add: isalpha_def)
    ultimately show ?thesis using False by (auto simp: word_ok_def)
  qed
qed

section \<open>The client of a command\<close>

lemma cli_reaches:
  assumes "dial de = Some s" "sent s = []" "Io_Error \<notin> set (rx s)" "\<forall>e\<in>set (tx s). full_write 1126 e"
  shows "reaches de 1134 1126 (inbox s) (le_bytes MENOETIUS_RPC_MAGIC_HEADER) (\<lambda>_. True) (cli_client de)"
  using assms by (simp add: reaches_def cli_client_def menoetius_client_init_def)

text \<open>The key of a label set.\<close>

definition typed_key :: "byte list \<Rightarrow> (byte list \<times> byte list) list \<Rightarrow> byte list" where
  "typed_key name ls = encode_binary_lfm (lfm_sort_labels (lfm_of name ls))"

lemma typed_key_start: "ident name \<Longrightarrow> typed_key name ls \<noteq> [] \<and> hd (typed_key name ls) \<noteq> 0"
proof -
  assume "ident name"
  then obtain c s where "name = c # s" "isalpha c \<or> c = 95" by (cases name) (auto simp: ident_def)
  moreover have "\<not> isalpha 0" by (simp add: isalpha_def)
  ultimately show ?thesis by (auto simp: typed_key_def encode_binary_lfm_def name_bytes_def lfm_sort_labels_def lfm_of_def lfm_new_def)
qed

lemma put_sends:
  assumes "dial de = Some s" "sent s = []" "Io_Error \<notin> set (rx s)" "\<forall>e\<in>set (tx s). full_write 1126 e" "inbox s = [flag v STATUS_OK]"
    and "human_ok name ls" "ls \<noteq> []" "number_lit y" "\<forall>x. t = Some x \<longrightarrow> tm_ok x" "length (typed_key name ls) \<le> MAX_LFM_SIZE"
  shows "\<exists>c ss. run_put ve de [Some (point_text name ls y t), None] = Some (0, [], Some c) \<and> client_ss c = Some ss \<and>
    sent (fd ss) = le_bytes MENOETIUS_RPC_MAGIC_HEADER @ RPC_PUT_DATA #
      enc_batch [(typed_key name ls, [(case t of None \<Rightarrow> cli_clock ve 0 | Some x \<Rightarrow> timegm x, cli_strtod ve y)])]"
proof -
  let ?k = "typed_key name ls" and ?w = "point_text name ls y t" and ?q = "(case t of None \<Rightarrow> cli_clock ve 0 | Some x \<Rightarrow> timegm x, cli_strtod ve y)"
  have k: "length ?k < 2 ^ 16" "length ?k \<le> 1126" using assms(10) by (simp_all add: MAX_LFM_SIZE_def)
  have w: "word_ok ?w" using lfm_word [OF assms(6), of "[61] @ y @ (case t of None \<Rightarrow> [] | Some x \<Rightarrow> 64 # strftime x)"] assms(7) by (simp add: point_text_def)
  from givesD [OF gives_send_sync [OF any_queue k] cli_reaches [OF assms(1-4), unfolded assms(5)], of "[]" "[?q]"]
  obtain c where c: "menoetius_client_send_sync de ?k (length ?k) [?q] (cli_client de) = Some (Inr 0, c)"
    "linked (flushed 1134 1126 [] (le_bytes MENOETIUS_RPC_MAGIC_HEADER @ RPC_PUT_DATA # enc_batch [(?k, [?q])])) (\<lambda>_. True) c" by (auto simp: flag_ignored)
  have p: "parse_human_lfm_and_value (cli_strtod ve) (?w @ [0]) = Some (Inr (lfm_sort_labels (lfm_of name ls), cli_strtod ve y, map_option timegm t))"
    by (rule parse_point_text [OF assms(6-9)])
  have "(case map_option timegm t of None \<Rightarrow> cli_clock ve 0 | Some t \<Rightarrow> t) = (case t of None \<Rightarrow> cli_clock ve 0 | Some x \<Rightarrow> timegm x)" by (cases t) simp_all
  then have "run_put ve de [Some ?w, None] = Some (0, [], Some c)" using p c(1)
    by (simp add: run_put_def with_options_def stop_at_word [OF w] help_addr_def typed_key_def [symmetric] del: parse_options.simps)
  then show ?thesis using c(2) by (auto simp: linked_def flushed_def at_def outgoing_def)
qed

lemma print_points_ok: "\<forall>q\<in>set qs. point_line ve h q = Some (line q) \<Longrightarrow> print_points ve h qs out = Some (out @ map (\<lambda>q. Stdout (line q)) qs)"
  by (induction qs arbitrary: out) auto

lemma get_prints:
  assumes "dial de = Some s" "sent s = []" "Io_Error \<notin> set (rx s)" "\<forall>e\<in>set (tx s). full_write 1126 e" "inbox s = enc_answer pts @ [flag v STATUS_OK]"
    and "human_ok name ls" "length (typed_key name ls) \<le> MAX_LFM_SIZE" "length pts \<le> MAX_PTS"
    and "w = name @ (if ls = [] then [] else human_labels 0 ls @ [125])" "h = [] \<or> h = [Some (bytes ''-t'')]" "\<forall>q\<in>set pts. point_line ve (h \<noteq> []) q = Some (line q)"
  shows "\<exists>c ss. run_get ve de (h @ [Some w, None]) = Some (0, map (\<lambda>q. Stdout (line q)) pts, Some c) \<and> client_ss c = Some ss \<and>
    sent (fd ss) = le_bytes MENOETIUS_RPC_MAGIC_HEADER @ RPC_GET_DATA # enc_keys [typed_key name ls]"
proof -
  let ?k = "typed_key name ls"
  have k: "length ?k < 2 ^ 16" "length ?k \<le> 1126" using assms(7) by (simp_all add: MAX_LFM_SIZE_def)
  have n: "length pts < 2 ^ 32" using assms(8) by (simp add: MAX_PTS_def)
  have w: "word_ok w" using lfm_word [OF assms(6), of "[]"] by (simp add: assms(9))
  from givesD [OF gives_get [OF any_queue k _ _ assms(8) n] cli_reaches [OF assms(1-4), unfolded assms(5)], of "[]"]
  obtain c where c: "menoetius_client_get de ?k (length ?k) MAX_PTS (cli_client de) = Some (Inr (0, pts), c)"
    "linked (flushed 1134 1126 [] (le_bytes MENOETIUS_RPC_MAGIC_HEADER @ RPC_GET_DATA # enc_keys [?k])) (\<lambda>_. True) c" by (auto simp: flag_ignored)
  have p: "parse_human_lfm (w @ [0]) = Some (Inr (lfm_sort_labels (lfm_of name ls)))" using parse_human_ok [OF assms(6)] by (simp add: assms(9) lfm_of_def)
  have o: "parse_options get_options (h @ [Some w, None]) (\<lambda>_. Int_value 0) = Some (0, [Some w, None], (\<lambda>_. Int_value 0)(flag_addr := Int_value (if h = [] then 0 else 1)))"
    using assms(10) stop_at_word [OF w]
    by (auto simp: parse_arg_def parse_short_arg_def get_option_short_def get_options_def bytes_def apply_value_def apply_value_flag_def)
  have "run_get ve de (h @ [Some w, None]) = Some (0, map (\<lambda>q. Stdout (line q)) pts, Some c)"
    using p c(1) o print_points_ok [OF assms(11), of "[]"]
    by (cases "h = []") (simp_all add: run_get_def with_options_def help_addr_def flag_addr_def typed_key_def [symmetric] del: parse_options.simps)
  then show ?thesis using c(2) by (auto simp: linked_def flushed_def at_def outgoing_def)
qed

section \<open>Queries of the client\<close>

lemma gives_write_plain:
  assumes "plain s" "length s < 2 ^ 16" "2 \<le> wn" "length s \<le> wn" "queue_frame F"
  shows "gives (linked (at rn wn inp out) F) (try_stream (structured_stream_write_uint16_prefixed_string s)) (Inr ()) (linked (at rn wn inp (out @ prefixed s)) F)"
proof -
  have "strlen s = length s" using assms(1) by (induction s) (auto simp: plain_def)
  then show ?thesis using gives_try [OF gives_write_string [of s wn rn inp out] assms(5)] assms(2-4) by simp
qed

lemma gives_write_labels:
  assumes "\<forall>m\<in>set ls. plain (fst m) \<and> plain (snd m) \<and> length (fst m) < 2 ^ 16 \<and> length (snd m) < 2 ^ 16 \<and> length (fst m) \<le> wn \<and> length (snd m) \<le> wn" "2 \<le> wn" "queue_frame F"
  shows "gives (linked (at rn wn inp out) F) (for_list (\<lambda>m. andthen (try_stream (structured_stream_write_uint16_prefixed_string (fst m)))
       (\<lambda>_. try_stream (structured_stream_write_uint16_prefixed_string (snd m)))) ls) (Inr (map (\<lambda>_. ()) ls)) (linked (at rn wn inp (out @ enc_labels ls)) F)"
  using assms(1)
proof (induction ls arbitrary: out)
  case Nil
  show ?case by (simp add: gives_ret enc_labels_def)
next
  case (Cons m ls)
  have m: "plain (fst m)" "plain (snd m)" "length (fst m) < 2 ^ 16" "length (snd m) < 2 ^ 16" "length (fst m) \<le> wn" "length (snd m) \<le> wn" using Cons.prems by simp_all
  note w = gives_write_plain [OF m(1,3) assms(2) m(5) assms(3)] gives_write_plain [OF m(2,4) assms(2) m(6) assms(3)]
  have 1: "gives (linked (at rn wn inp out) F) (andthen (try_stream (structured_stream_write_uint16_prefixed_string (fst m)))
       (\<lambda>_. try_stream (structured_stream_write_uint16_prefixed_string (snd m)))) (Inr ()) (linked (at rn wn inp ((out @ prefixed (fst m)) @ prefixed (snd m))) F)"
    by (rule gives_andthen [OF w(1)]) (rule w(2))
  have e: "out @ enc_labels (m # ls) = ((out @ prefixed (fst m)) @ prefixed (snd m)) @ enc_labels ls" by (simp add: enc_labels_def)
  have "gives (linked (at rn wn inp ((out @ prefixed (fst m)) @ prefixed (snd m))) F) (for_list (\<lambda>m. andthen (try_stream (structured_stream_write_uint16_prefixed_string (fst m)))
       (\<lambda>_. try_stream (structured_stream_write_uint16_prefixed_string (snd m)))) ls) (Inr (map (\<lambda>_. ()) ls)) (linked (at rn wn inp (out @ enc_labels (m # ls))) F)"
    unfolding e by (rule Cons.IH) (use Cons.prems in simp)
  from gives_andthen [OF 1 gives_andthen [OF this gives_ret]] show ?case by simp
qed

lemma gives_read_results:
  assumes "\<forall>k\<in>set ks. k \<noteq> [] \<and> length k < MAX_BINARY_LFM_SIZE \<and> length k + 2 \<le> rn" "length ks \<le> n" "2 \<le> rn" "queue_frame F"
  shows "gives (linked (flushed rn wn (concat (map enc_key ks) @ prefixed [] @ inp) out) F) (read_results n) (Inr ks) (linked (flushed rn wn inp out) F)"
  using assms(1,2)
proof (induction ks arbitrary: n)
  case Nil
  have r: "gives (linked (flushed rn wn (prefixed [] @ inp) out) F) (try_stream structured_stream_read_uint16_prefixed_bytes_inplace) (Inr []) (linked (flushed rn wn inp out) F)"
    by (rule gives_try [OF flushed_reads(7) assms(4)]) (use assms(3) in simp_all)
  have "gives (linked (flushed rn wn inp out) F) (ret []) (Inr []) (linked (flushed rn wn inp out) F)" by (rule gives_ret)
  then show ?case by (cases n) (simp_all, (rule gives_andthen [OF r], simp)+)
next
  case (Cons k ks)
  obtain n' where n: "n = Suc n'" "length ks \<le> n'" using Cons.prems(2) by (cases n) auto
  have k: "k \<noteq> []" "length k < MAX_BINARY_LFM_SIZE" "length k + 2 \<le> rn" using Cons.prems(1) by simp_all
  let ?i = "concat (map enc_key ks) @ prefixed [] @ inp"
  have r: "gives (linked (flushed rn wn (prefixed k @ ?i) out) F) (try_stream structured_stream_read_uint16_prefixed_bytes_inplace) (Inr k) (linked (flushed rn wn ?i out) F)"
    by (rule gives_try [OF flushed_reads(7) assms(4)]) (use k in \<open>simp_all add: MAX_BINARY_LFM_SIZE_def\<close>)
  have ih: "gives (linked (flushed rn wn ?i out) F) (read_results n') (Inr ks) (linked (flushed rn wn inp out) F)" by (rule Cons.IH) (use Cons.prems n in simp_all)
  have e: "concat (map enc_key (k # ks)) @ prefixed [] @ inp = prefixed k @ ?i" by (simp add: enc_key_def prefixed_def)
  have "gives (linked (flushed rn wn ?i out) F) (andthen (read_results n') (\<lambda>results. ret (k # results))) (Inr (k # ks)) (linked (flushed rn wn inp out) F)"
    by (rule gives_andthen [OF ih]) (simp add: gives_ret)
  from gives_andthen [OF r, of "\<lambda>raw_lfm. if raw_lfm = [] then ret [] else if length raw_lfm \<ge> MAX_BINARY_LFM_SIZE then fail (- 1) else andthen (read_results n') (\<lambda>results. ret (raw_lfm # results))"] this
  show ?case unfolding e n(1) using k by simp
qed

definition client_query_ok :: "nat \<Rightarrow> (byte list \<times> byte list) list \<Rightarrow> bool" where
  "client_query_ok wn ls \<longleftrightarrow> (\<forall>m\<in>set ls. plain (fst m) \<and> plain (snd m) \<and> length (fst m) < 2 ^ 16 \<and> length (snd m) < 2 ^ 16 \<and> length (fst m) \<le> wn \<and> length (snd m) \<le> wn)"

lemma gives_client_query:
  assumes F: "queue_frame F" and ls: "client_query_ok wn ls" and wn: "8 \<le> wn" and rn: "2 \<le> rn"
    and ks: "\<forall>k\<in>set ks. k \<noteq> [] \<and> length k < MAX_BINARY_LFM_SIZE \<and> length k + 2 \<le> rn" "length ks \<le> n"
  shows "gives (reaches ve rn wn (concat (map enc_key ks) @ prefixed [] @ st # inp) out F) (menoetius_client_query ve ls False n) (Inr (ignore_config_flag st, ks))
    (linked (flushed rn wn inp (out @ RPC_QUERY_LFMS # enc_query 0 ls 0 1000)) F)"
proof -
  let ?i = "concat (map enc_key ks) @ prefixed [] @ st # inp" let ?L = "\<lambda>out. linked (at rn wn ?i out) F"
  have w: "1 \<le> wn" "2 \<le> wn" "1 \<le> rn" using wn rn by simp_all
  let ?o1 = "out @ [RPC_QUERY_LFMS]" let ?o2 = "?o1 @ [0]" let ?o3 = "?o2 @ [of_nat (length ls)]" let ?o4 = "?o3 @ enc_labels ls" let ?o5 = "?o4 @ le_bytes (0 :: u64)" let ?o6 = "?o5 @ le_bytes (1000 :: u64)"
  have e: "?o6 = out @ RPC_QUERY_LFMS # enc_query 0 ls 0 1000" by (simp add: enc_query_def)
  have 1: "gives (?L ?o1) (try_stream (structured_stream_write_uint8 (if False then 1 else 0))) (Inr ()) (?L ?o2)" unfolding if_False by (rule gives_send_code [OF F w(1)])
  have 8: "gives (linked (flushed rn wn (st # inp) ?o6) F) (if False then andthen (try_stream structured_stream_read_uint64) (\<lambda>_. ret ()) else ret ()) (Inr ()) (linked (flushed rn wn (st # inp) ?o6) F)"
    by (simp add: gives_ret)
  have 9: "gives (linked (flushed rn wn inp ?o6) F) (ret (ignore_config_flag st, ks)) (Inr (ignore_config_flag st, ks)) (linked (flushed rn wn inp ?o6) F)" by (rule gives_ret)
  show ?thesis unfolding menoetius_client_query_def e [symmetric]
    by (rule gives_andthen [OF gives_connect [OF F]], rule gives_andthen [OF gives_send_code [OF F w(1)]], rule gives_andthen [OF 1], rule gives_andthen [OF gives_send_code [OF F w(1)]],
      rule gives_andthen [OF gives_write_labels [OF ls [unfolded client_query_ok_def] w(2) F]], rule gives_andthen [OF gives_try [OF gives_write_uint64 [OF wn] F]],
      rule gives_andthen [OF gives_try [OF gives_write_uint64 [OF wn] F]], rule gives_andthen [OF gives_try [OF gives_flush F]],
      rule gives_andthen [OF gives_read_results [OF ks rn F]], rule gives_andthen [OF 8], rule gives_andthen [OF gives_status_answer(2) [OF F w(3)]], rule 9)
qed

lemma print_results_ok:
  "\<forall>k\<in>set ks. parse_binary_lfm k = Some (Inr (g k)) \<Longrightarrow> print_results ks out = Some (out @ map (\<lambda>k. Stdout (the (encode_human_lfm (g k)) @ [10])) ks)"
  by (induction ks arbitrary: out) (auto simp: encode_human_ok)

lemma query_prints:
  assumes "dial de = Some s" "sent s = []" "Io_Error \<notin> set (rx s)" "\<forall>e\<in>set (tx s). full_write 1126 e" "inbox s = concat (map enc_key ks) @ prefixed [] @ [flag v STATUS_OK]"
    and "human_ok name ls" "matcher_labels (lfm_sort_labels (lfm_of name ls)) = Some ms" "client_query_ok 1126 ms"
    and "\<forall>k\<in>set ks. k \<noteq> [] \<and> length k < MAX_BINARY_LFM_SIZE \<and> parse_binary_lfm k = Some (Inr (g k))" "length ks \<le> 1024"
    and "w = name @ (if ls = [] then [] else human_labels 0 ls @ [125])"
  shows "\<exists>c ss. run_query de [Some w, None] = Some (0, map (\<lambda>k. Stdout (the (encode_human_lfm (g k)) @ [10])) ks, Some c) \<and> client_ss c = Some ss \<and>
    sent (fd ss) = le_bytes MENOETIUS_RPC_MAGIC_HEADER @ RPC_QUERY_LFMS # enc_query 0 ms 0 1000"
proof -
  have w: "word_ok w" using lfm_word [OF assms(6), of "[]"] by (simp add: assms(11))
  have ks: "\<forall>k\<in>set ks. k \<noteq> [] \<and> length k < MAX_BINARY_LFM_SIZE \<and> length k + 2 \<le> 1134" "\<forall>k\<in>set ks. parse_binary_lfm k = Some (Inr (g k))"
    using assms(9) by (auto simp: MAX_BINARY_LFM_SIZE_def)
  from givesD [OF gives_client_query [OF any_queue assms(8) _ _ ks(1) assms(10)] cli_reaches [OF assms(1-4), unfolded assms(5)]]
  obtain c where c: "menoetius_client_query de ms False 1024 (cli_client de) = Some (Inr (0, ks), c)"
    "linked (flushed 1134 1126 [] (le_bytes MENOETIUS_RPC_MAGIC_HEADER @ RPC_QUERY_LFMS # enc_query 0 ms 0 1000)) (\<lambda>_. True) c" by (auto simp: flag_ignored)
  have p: "parse_human_lfm (w @ [0]) = Some (Inr (lfm_sort_labels (lfm_of name ls)))" using parse_human_ok [OF assms(6)] by (simp add: assms(11) lfm_of_def)
  have "run_query de [Some w, None] = Some (0, map (\<lambda>k. Stdout (the (encode_human_lfm (g k)) @ [10])) ks, Some c)"
    using p c(1) assms(7) print_results_ok [OF ks(2), of "[]"] by (simp add: run_query_def with_options_def stop_at_word [OF w] del: parse_options.simps)
  then show ?thesis using c(2) by (auto simp: linked_def flushed_def at_def outgoing_def)
qed

section \<open>Properties\<close>


text \<open>Surroundings in which every connection gets the same answer, and every number is five.\<close>

definition example_cli :: "byte list \<Rightarrow> cli_env" where
  "example_cli answer = \<lparr>cli_dial = (\<lambda>_ _. example_client_env answer), cli_strtod = (\<lambda>_. 5), cli_fmt_f = (\<lambda>_. bytes ''5''), cli_clock = (\<lambda>_. 100),
     cli_open = (\<lambda>_. None), cli_stdin = ([], []), cli_strerror = [], cli_stack = []\<rparr>"

lemma example_dial:
  "\<exists>s. dial (cli_dial (example_cli answer) h p) = Some s \<and> sent s = [] \<and> Io_Error \<notin> set (rx s) \<and> (\<forall>e\<in>set (tx s). full_write 1126 e) \<and> inbox s = answer"
  by (simp add: example_cli_def example_client_env_def)


text \<open>
  C4: What the server has stored is what the tool prints. The tool, called with \<^verbatim>\<open>get\<close> and a series of at most 1024 points, with or without the option for
  readable times, sends a request that changes nothing, and the answer of the server makes it print one line for each point of the series, in order,
  with its time and its value, and end with the code zero.
\<close>

theorem cli_get_prints:
  assumes "human_ok name ls" "k = typed_key name ls" "length k \<le> MAX_LFM_SIZE" "w = name @ (if ls = [] then [] else human_labels 0 ls @ [125])"
    and "pool_ok sv" "i < length (conn_pool sv)" "conn_open (get_conn i sv)"
    and bytes: "request = le_bytes MENOETIUS_RPC_MAGIC_HEADER @ RPC_GET_DATA # enc_keys [k]"
    and "at rn wn request [] (conn_ss (get_conn i sv))" "MAX_LFM_SIZE + 2 \<le> rn" "8 \<le> wn"
    and "storage_good (srv_storage sv) db" "length (points_of db k) \<le> MAX_PTS" "h = [] \<or> h = [Some (bytes ''-t'')]"
    and "\<forall>q\<in>set (points_of db k). 0 \<le> sint (fst q) \<and> sint (fst q) < 253402300800"
    and "dial (cli_dial ve (bytes ''localhost'') MENOETIUS_PORT) = Some s" "sent s = []" "Io_Error \<notin> set (rx s)" "\<forall>e\<in>set (tx s). full_write 1126 e"
  shows "\<exists>sv'. conn_handler_thread_run ce i sv = Some (Inr (), sv') \<and> storage_good (srv_storage sv') db \<and>
    sent (fd (conn_ss (get_conn i sv'))) = enc_answer (points_of db k) @ [flag (has_valid_config (get_conn i sv)) STATUS_OK] \<and>
    (inbox s = sent (fd (conn_ss (get_conn i sv'))) \<longrightarrow> (\<exists>c ss. cli_tool ve (Some prog # Some (bytes ''get'') # h @ [Some w, None]) =
        Some (0, map (\<lambda>q. Stdout ((if h = [] then int_text (sint (fst q)) else strftime (the (gmtime (fst q)))) @ [32] @ cli_fmt_f ve (snd q) @ [10])) (points_of db k), Some c) \<and>
      client_ss c = Some ss \<and> sent (fd ss) = request))"
proof -
  let ?pts = "points_of db k"
  let ?line = "\<lambda>q. (if h = [] then int_text (sint (fst q)) else strftime (the (gmtime (fst q)))) @ [32] @ cli_fmt_f ve (snd q) @ [10]"
  have r: "request_ok rn [k]" "keys_fit 0 [k]" "8 \<le> rn" using assms(3,10) by (simp_all add: request_ok_def handler_limits)
  have n: "\<forall>k'\<in>set [k]. length (points_of db k') \<le> MAX_PTS_PER_SERIES" using assms(13) by (simp add: MAX_PTS_def MAX_PTS_PER_SERIES_def)
  obtain sv' where sv': "conn_handler_thread_run ce i sv = Some (Inr (), sv')" "sent (fd (conn_ss (get_conn i sv'))) = enc_answer ?pts @ [flag (has_valid_config (get_conn i sv)) STATUS_OK]"
    "storage_good (srv_storage sv') db" using session_get [OF assms(5-7) r(1,2) assms(9) [unfolded bytes] r(3) assms(11,12) n, of ce] by auto
  have l: "\<forall>q\<in>set ?pts. point_line ve (h \<noteq> []) q = Some (?line q)" using assms(15) gmtime_ok by (fastforce simp: point_line_def)
  have "\<exists>c ss. cli_tool ve (Some prog # Some (bytes ''get'') # h @ [Some w, None]) = Some (0, map (\<lambda>q. Stdout (?line q)) ?pts, Some c) \<and> client_ss c = Some ss \<and> sent (fd ss) = request"
    if "inbox s = sent (fd (conn_ss (get_conn i sv')))"
    using get_prints [OF assms(16-19) that [unfolded sv'(2)] assms(1) assms(3) [unfolded assms(2)] assms(13,4,14) l] cli_main_runs [OF commands_ok(2,4), of prog]
    by (simp add: cli_tool_def host_text bytes assms(2))
  then show ?thesis using sv'(1-3) by blast
qed

theorem cli_get_prints_witness:
  "\<exists>st1 sv' ve c. storage_write example_env example_storage example_key 3 example_points = Some (0, st1) \<and>
     conn_handler_thread_run example_conn_env 0 (storing st1 (le_bytes MENOETIUS_RPC_MAGIC_HEADER @ RPC_GET_DATA # enc_keys [example_key])) = Some (Inr (), sv') \<and>
     cli_tool ve [Some (bytes ''menoetius-cli''), Some (bytes ''get''), Some (bytes ''-t''), Some (bytes ''cpu''), None] =
       Some (0, [Stdout (bytes ''1970-01-01T00:01:40 5'' @ [10]), Stdout (bytes ''1970-01-01T00:01:50 5'' @ [10])], Some c)"
proof -
  have vk: "valid_key example_key" "length example_key = 3" "example_key = bytes ''cpu''" by (simp_all add: valid_key_def example_key_def bytes_def MAX_BUF_def)
  obtain st1 where w: "storage_write example_env example_storage example_key 3 example_points = Some (0, st1)" "storage_good st1 [example_key \<mapsto> example_points]"
    using example_written_key [OF vk(1)] vk(2) by auto
  let ?req = "le_bytes MENOETIUS_RPC_MAGIC_HEADER @ RPC_GET_DATA # enc_keys [example_key]" let ?db = "[example_key \<mapsto> example_points]"
  let ?sv = "storing st1 ?req" let ?f = "flag (has_valid_config (get_conn 0 ?sv)) STATUS_OK" let ?a = "enc_answer example_points @ [?f]" let ?ve = "example_cli ?a" let ?h = "[Some (bytes ''-t'')]"
  have p: "pool_ok ?sv" "conn_open (get_conn 0 ?sv)" using serves_pool_ok [OF busy_server_ok(2)] busy_server_ok(4) [of 2048 "conn_with ?req"] by (simp_all add: storing_def pool_ok_def get_conn_def)
  have k: "human_ok example_key []" "example_key = typed_key example_key []" "length example_key \<le> MAX_LFM_SIZE" "example_key = example_key @ (if [] = [] then [] else human_labels 0 [] @ [125])"
    by (simp_all add: example_key_def human_ok_def ident_def isalpha_def ident_char_def typed_key_def encode_binary_lfm_def name_bytes_def lfm_sort_labels_def lfm_of_def lfm_new_def qsort_def MAX_LFM_SIZE_def)
  have d: "points_of ?db example_key = example_points" by (simp add: points_of_def)
  have n: "length (points_of ?db example_key) \<le> MAX_PTS" "?h = [] \<or> ?h = [Some (bytes ''-t'')]" "\<forall>q\<in>set (points_of ?db example_key). 0 \<le> sint (fst q) \<and> sint (fst q) < 253402300800" "8 \<le> (2048 :: nat)"
    unfolding d by (simp_all add: example_points_def MAX_PTS_def)
  have g: "storage_good (srv_storage ?sv) ?db" using w(2) storing_ok(2) by simp
  obtain s where s: "dial (cli_dial ?ve (bytes ''localhost'') MENOETIUS_PORT) = Some s" "sent s = []" "Io_Error \<notin> set (rx s)" "\<forall>e\<in>set (tx s). full_write 1126 e" "inbox s = ?a"
    using example_dial by blast
  from cli_get_prints [OF k p(1) storing_ok(1) p(2) refl storing_ok(3) example_batch_ok(6) n(4) g n(1-3) s(1-4), of example_conn_env "bytes ''menoetius-cli''", unfolded d]
  obtain sv' c where r: "conn_handler_thread_run example_conn_env 0 ?sv = Some (Inr (), sv')"
    "cli_tool ?ve (Some (bytes ''menoetius-cli'') # Some (bytes ''get'') # ?h @ [Some example_key, None]) =
        Some (0, map (\<lambda>q. Stdout ((if ?h = [] then int_text (sint (fst q)) else strftime (the (gmtime (fst q)))) @ [32] @ cli_fmt_f ?ve (snd q) @ [10])) example_points, Some c)"
    using s(5) by (elim exE conjE) auto
  have x: "gmtime 100 = Some \<lparr>tm_year = 70, tm_mon = 0, tm_mday = 1, tm_hour = 0, tm_min = 1, tm_sec = 40\<rparr>" "gmtime 110 = Some \<lparr>tm_year = 70, tm_mon = 0, tm_mday = 1, tm_hour = 0, tm_min = 1, tm_sec = 50\<rparr>"
    by (simp_all add: gmtime_def year_after.simps year_len_def leap_def month_lens_def)
  have "map (\<lambda>q. Stdout ((if ?h = [] then int_text (sint (fst q)) else strftime (the (gmtime (fst q)))) @ [32] @ cli_fmt_f ?ve (snd q) @ [10])) example_points =
      [Stdout (bytes ''1970-01-01T00:01:40 5'' @ [10]), Stdout (bytes ''1970-01-01T00:01:50 5'' @ [10])]"
    by (simp add: example_points_def x strftime_def two_digits_def int_text_def dec_digits.simps bytes_def example_cli_def)
  then show ?thesis using w(1) r vk(3) by auto
qed



section \<open>Defects\<close>

lemma write_front: "length s \<le> length buf \<Longrightarrow> mem_write buf 0 s = Some (s @ drop (length s) buf)"
  by (simp add: mem_write_def)

text \<open>The file arrives in two pieces: the second one overwrites the beginning of the first.\<close>

lemma read_two_pieces:
  assumes "0 < length b" "length b \<le> length a" "length a + length b < n" "n \<le> length buf"
  shows "\<exists>rest. read_config [Read_Some (length a)] (a @ b) buf 0 (int n) = Some (b @ drop (length b) a @ 0 # rest)"
proof -
  let ?a = "length a" and ?b = "length b"
  have n: "min n (min (max 1 ?a) (length (a @ b))) = ?a" "?a \<noteq> 0" "min (n - ?a) ?b = ?b" "?b \<noteq> 0" "nat (int n) = n" "nat (int n - int ?a) = n - ?a" using assms by auto
  let ?r = "drop (?a + 1) buf" let ?b1 = "a @ drop ?a buf" let ?b2 = "a @ 0 # ?r"
  have 1: "mem_write buf 0 a = Some ?b1" using assms by (intro write_front) simp
  have 2: "mem_write ?b1 ?a [0] = Some ?b2" using assms by (simp add: mem_write_def)
  have 3: "mem_write ?b2 0 b = Some (b @ drop ?b ?b2)" using assms by (intro write_front) simp
  let ?b3 = "b @ drop ?b a @ 0 # ?r"
  have e: "b @ drop ?b ?b2 = ?b3" using assms(2) by simp
  have l: "length ?b3 = length buf" using assms by simp
  have "mem_write ?b3 (?a + ?b) [0] = Some (take (?a + ?b) ?b3 @ 0 # drop (?a + ?b + 1) ?b3)" using assms l by (simp add: mem_write_def)
  moreover have "take (?a + ?b) ?b3 = b @ drop ?b a @ 0 # take (?b - 1) ?r" using assms by (simp add: take_Cons')
  ultimately have 4: "mem_write ?b3 (?a + ?b) [0] = Some (b @ drop ?b a @ 0 # (take (?b - 1) ?r @ 0 # drop (?a + ?b + 1) ?b3))" by simp
  let ?e = "b @ drop ?b a @ 0 # (take (?b - 1) ?r @ 0 # drop (?a + ?b + 1) ?b3)"
  have p: "nat (0 + int ?a) = ?a" "nat (0 + int ?a + int ?b) = ?a + ?b" "take ?a (a @ b) = a" "drop ?a (a @ b) = b" "take ?b b = b" by simp_all
  have "read_config [] b ?b2 (0 + int ?a) (int n - int ?a) = Some ?e"
    unfolding read_config.simps n(3,6) p Let_def 3 e bind.simps using n(4) 4 by (simp only: if_False)
  then have "read_config [Read_Some ?a] (a @ b) buf 0 (int n) = Some ?e"
    unfolding read_config.simps read_event.case n(1,5) p Let_def 1 bind.simps 2 using n(2) by (simp only: if_False)
  then show ?thesis by blast
qed

lemma gives_client_set_config:
  assumes F: "queue_frame F" and "plain t" "length t < 2 ^ 16" "length t \<le> wn" and wn: "8 \<le> wn" and rn: "1 \<le> rn"
  shows "gives (reaches ve rn wn (STATUS_OK # inp) out F) (menoetius_client_set_config ve t) (Inr ()) (linked (flushed rn wn inp (out @ RPC_SET_CLUSTER_CONFIG # prefixed t)) F)"
proof -
  have w: "1 \<le> wn" "2 \<le> wn" using wn by simp_all
  let ?o = "(out @ [RPC_SET_CLUSTER_CONFIG]) @ prefixed t"
  have e: "?o = out @ RPC_SET_CLUSTER_CONFIG # prefixed t" by simp
  have 6: "gives (linked (flushed rn wn inp ?o) F) (if STATUS_OK \<noteq> STATUS_OK then or_shutdown (fail 1) else ret ()) (Inr ()) (linked (flushed rn wn inp ?o) F)" by (simp add: gives_ret)
  show ?thesis unfolding menoetius_client_set_config_def e [symmetric]
    by (rule gives_andthen [OF gives_connect [OF F]], rule gives_andthen [OF gives_send_code [OF F w(1)]], rule gives_andthen [OF gives_write_plain [OF assms(2,3) w(2) assms(4) F]],
      rule gives_andthen [OF gives_try [OF gives_flush F]], rule gives_andthen [OF gives_status_answer(2) [OF F rn]], rule 6)
qed

text \<open>
  A configuration that is read in two pieces is sent wrong. When the file of \<^verbatim>\<open>set-config\<close> arrives in two reads, of which the second is not longer than the first, the tool sends the second
  piece followed by what it does not cover of the first, and ends with success.
\<close>

theorem set_config_mixes_pieces:
  assumes "0 < length b" "length b \<le> length a" "plain a" "plain b" "length a \<le> 1024"
    and "MAX_CLUSTER_CONFIG \<le> length (cli_stack ve)" "word_ok f" "f \<noteq> bytes ''-''" "cli_open ve f = Some (a @ b, [Read_Some (length a)])"
    and "dial de = Some s" "sent s = []" "Io_Error \<notin> set (rx s)" "\<forall>e\<in>set (tx s). full_write 1024 e" "inbox s = [STATUS_OK]"
  shows "\<exists>c ss. run_set_config ve de [Some f, None] = Some (0, [], Some c) \<and> client_ss c = Some ss \<and>
    sent (fd ss) = le_bytes MENOETIUS_RPC_MAGIC_HEADER @ RPC_SET_CLUSTER_CONFIG # prefixed (b @ drop (length b) a)"
proof -
  let ?t = "b @ drop (length b) a" let ?stack = "take MAX_CLUSTER_CONFIG (cli_stack ve)"
  have n: "length a + length b < MAX_CLUSTER_CONFIG" "MAX_CLUSTER_CONFIG \<le> length ?stack" using assms(1,2,5,6) by (simp_all add: MAX_CLUSTER_CONFIG_def)
  obtain rest where r: "read_config [Read_Some (length a)] (a @ b) ?stack 0 (int MAX_CLUSTER_CONFIG) = Some (?t @ 0 # rest)" using read_two_pieces [OF assms(1,2) n] by auto
  have t: "plain ?t" "length ?t < 2 ^ 16" "length ?t \<le> 1024" using assms(2-5) by (auto simp: plain_def dest: in_set_dropD)
  have len: "c_strlen (?t @ 0 # rest) = Some (length ?t)" using t(1) by (intro strlen_app) (simp add: plain_def)
  have "reaches de 1024 1024 [STATUS_OK] (le_bytes MENOETIUS_RPC_MAGIC_HEADER) (\<lambda>_. True) (menoetius_client_init de)"
    using assms(10-14) by (simp add: reaches_def menoetius_client_init_def)
  from givesD [OF gives_client_set_config [OF any_queue t] this] obtain c where c: "menoetius_client_set_config de ?t (menoetius_client_init de) = Some (Inr (), c)"
    "linked (flushed 1024 1024 [] (le_bytes MENOETIUS_RPC_MAGIC_HEADER @ RPC_SET_CLUSTER_CONFIG # prefixed ?t)) (\<lambda>_. True) c" by auto
  have "take (length ?t) (?t @ 0 # rest) = ?t" by simp
  then have "run_set_config ve de [Some f, None] = Some (0, [], Some c)" using r len c(1) assms(8,9)
    by (simp only: run_set_config_def with_options_def stop_at_word [OF assms(7)]) simp
  then show ?thesis using c(2) by (auto simp: linked_def flushed_def at_def outgoing_def)
qed

theorem set_config_mixes_pieces_witness:
  "\<exists>ve c ss. cli_open ve [120] = Some ([49, 50, 51], [Read_Some 2]) \<and> run_set_config ve (example_client_env [STATUS_OK]) [Some [120], None] = Some (0, [], Some c) \<and>
     client_ss c = Some ss \<and> sent (fd ss) = le_bytes MENOETIUS_RPC_MAGIC_HEADER @ RPC_SET_CLUSTER_CONFIG # prefixed [51, 50]"
proof -
  let ?ve = "(example_cli [])\<lparr>cli_open := (\<lambda>_. Some ([49, 50] @ [51], [Read_Some (length [49 :: byte, 50])])), cli_stack := replicate MAX_CLUSTER_CONFIG 0\<rparr>"
  have a: "0 < length [51 :: byte]" "length [51 :: byte] \<le> length [49 :: byte, 50]" "plain [49, 50]" "plain [51]" "length [49 :: byte, 50] \<le> 1024" "MAX_CLUSTER_CONFIG \<le> length (cli_stack ?ve)"
    "word_ok [120]" "[120] \<noteq> bytes ''-''" "cli_open ?ve [120] = Some ([49, 50] @ [51], [Read_Some (length [49 :: byte, 50])])" by (simp_all add: plain_def word_ok_def bytes_def)
  obtain s where s: "dial (example_client_env [STATUS_OK]) = Some s" "sent s = []" "Io_Error \<notin> set (rx s)" "\<forall>e\<in>set (tx s). full_write 1024 e" "inbox s = [STATUS_OK]"
    by (simp add: example_client_env_def)
  from set_config_mixes_pieces [OF a s] a(9) show ?thesis by (intro exI [of _ ?ve]) (simp add: numeral_2_eq_2)
qed

end
