(* ===== verification/Metrics.thy ===== *)
theory Metrics
  imports Options
begin

text \<open>
  The metrics that the server publishes over HTTP: \<^verbatim>\<open>src/common/metrics.c\<close> and \<^verbatim>\<open>src/common/http_metrics.c\<close>. The counters
  are at addresses; a registered metric has a name and the address of its counter. What is given to the HTTP library is the
  result of a handler: the status code and the text.
\<close>

section \<open>Counters\<close>

type_synonym counters = "nat \<Rightarrow> i64"

definition add_metric :: "nat \<Rightarrow> i64 \<Rightarrow> counters \<Rightarrow> counters" where
  "add_metric a x c = c(a := c a + x)"

definition incr_metric :: "nat \<Rightarrow> counters \<Rightarrow> counters" where
  "incr_metric a = add_metric a 1"

definition decr_metric :: "nat \<Rightarrow> counters \<Rightarrow> counters" where
  "decr_metric a = add_metric a (- 1)"

definition set_metric :: "nat \<Rightarrow> i64 \<Rightarrow> counters \<Rightarrow> counters" where
  "set_metric a x c = c(a := x)"

section \<open>Registering\<close>

definition MAX_METRIC_NAME :: nat where "MAX_METRIC_NAME = 128"

record registered_metric =
  metric_name :: "byte list"
  metric_data :: nat

definition http_metrics_register :: "registered_metric list \<Rightarrow> byte list \<Rightarrow> nat \<Rightarrow> registered_metric list option" where
  "http_metrics_register metrics name val = do {
     _ \<leftarrow> c_assert (length name < MAX_METRIC_NAME);
     Some (\<lparr>metric_name = name, metric_data = val\<rparr> # metrics) }"

definition pool_name :: "byte list \<Rightarrow> nat \<Rightarrow> byte list" where
  "pool_name name k = name @ bytes ''{pool='' @ [34] @ dec_digits k @ [34] @ bytes ''}''"

definition call_name :: "byte list \<Rightarrow> byte list" where
  "call_name name = bytes ''num_call{rpc='' @ [34] @ name @ [34] @ bytes ''}''"

text \<open>The names of the metrics, in the order in which they are registered.\<close>

definition metric_names :: "byte list list" where
  "metric_names =
      [bytes ''cleaning_item'', bytes ''cleaning_loop_duration'', bytes ''cleaning_loop_sleep'', bytes ''num_cleaning_cycles'', bytes ''num_connections'', bytes ''num_connections_accepted'', bytes ''num_connections_rejected'', bytes ''num_full_lookups'', bytes ''num_index_lookups'', bytes ''num_points'', bytes ''num_points_rejected'', bytes ''num_points_written'', bytes ''num_timeseries'', bytes ''start_time'', bytes ''num_disk_reads'', bytes ''num_disk_writes'', bytes ''bytes_loaded'', bytes ''num_malloc_no_pool'', bytes ''num_free_no_pool''] @
      map (pool_name (bytes ''num_malloc'')) [0..<15] @
      map (pool_name (bytes ''num_free'')) [0..<15] @
      map (pool_name (bytes ''num_reuse'')) [0..<15] @
      [bytes ''num_resizes'', bytes ''num_out_of_order''] @
      map (pool_name (bytes ''num_disk_reserve'')) [0..<11] @
      map (pool_name (bytes ''num_disk_release'')) [0..<11] @
      map (pool_name (bytes ''num_disk_reuse'')) [0..<11] @
      map call_name [bytes ''put_data'', bytes ''get_data'', bytes ''replication_data'', bytes ''query_lfms'', bytes ''set_clock'', bytes ''test_hook'', bytes ''get_status'', bytes ''get_cluster_config'', bytes ''set_cluster_config'', bytes ''register_cluster_config'', bytes ''get_version'', bytes ''unhandled'']"

text \<open>The counter of the \<open>i\<close>-th metric is at the address \<open>i\<close>.\<close>

primrec register_from :: "nat \<Rightarrow> byte list list \<Rightarrow> registered_metric list \<Rightarrow> registered_metric list option" where
  "register_from i [] metrics = Some metrics"
| "register_from i (name # names) metrics = do {
     metrics \<leftarrow> http_metrics_register metrics name i;
     register_from (Suc i) names metrics }"

definition START_TIME :: nat where "START_TIME = 13"

definition register_metrics :: "i64 \<Rightarrow> registered_metric list \<Rightarrow> counters \<Rightarrow> (registered_metric list \<times> counters) option" where
  "register_metrics now metrics c = do {
     metrics \<leftarrow> register_from 0 metric_names metrics;
     Some (metrics, set_metric START_TIME now c) }"

section \<open>Answers\<close>

definition MAX_BUF_SIZE :: nat where "MAX_BUF_SIZE = 5 * 1024"

definition metric_line :: "counters \<Rightarrow> registered_metric \<Rightarrow> byte list" where
  "metric_line c m = metric_name m @ [32] @ int_text (sint (c (metric_data m))) @ [10]"

text \<open>
  \<^verbatim>\<open>snprintf\<close> returns the length of the whole text, also when it does not fit. The number of bytes that are left is converted to
  \<^verbatim>\<open>size_t\<close>, also when it is negative.
\<close>

primrec metrics_loop :: "counters \<Rightarrow> registered_metric list \<Rightarrow> mem \<Rightarrow> nat \<Rightarrow> mem option" where
  "metrics_loop c [] buf i = Some buf"
| "metrics_loop c (m # metrics) buf i = do {
     buf \<leftarrow> snprintf buf i (nat ((int MAX_BUF_SIZE - int i) mod 2 ^ 64)) (metric_line c m);
     metrics_loop c metrics buf (i + length (metric_line c m)) }"

definition metrics_handler :: "mem \<Rightarrow> counters \<Rightarrow> registered_metric list \<Rightarrow> (nat \<times> byte list) option" where
  "metrics_handler junk c metrics = do {
     buf \<leftarrow> metrics_loop c metrics (take MAX_BUF_SIZE junk) 0;
     buf \<leftarrow> mem_write buf (MAX_BUF_SIZE - 1) [0];
     n \<leftarrow> c_strlen buf;
     Some (200, take n buf) }"

text \<open>A text for \<^verbatim>\<open>vsnprintf\<close> with an array of 1024 bytes.\<close>

definition status_handler :: "nat \<Rightarrow> byte list \<Rightarrow> (nat \<times> byte list) option" where
  "status_handler status_code text = Some (status_code, take 1023 text)"

definition web_handler :: "byte list \<Rightarrow> byte list \<Rightarrow> int \<Rightarrow> int \<Rightarrow> mem \<Rightarrow> counters \<Rightarrow> registered_metric list \<Rightarrow> byte list \<Rightarrow> byte list \<Rightarrow> (nat \<times> byte list) option" where
  "web_handler build_time git_commit now start_time junk c metrics meth url =
     (if meth = bytes ''GET'' \<and> url = bytes ''/metrics'' then metrics_handler junk c metrics
      else if meth = bytes ''GET'' \<and> url = bytes ''/'' then
        status_handler 200 (bytes ''build type: release'' @ [10] @ bytes ''build time: '' @ build_time @ [10] @ bytes ''build version: '' @ git_commit @ [10] @
          bytes ''uptime seconds: '' @ int_text (now - start_time) @ [10])
      else status_handler 400 (bytes ''failed to dispatch: '' @ url))"

section \<open>The page\<close>

lemma write_text:
  assumes "i + length x + 1 \<le> length m"
  shows "\<exists>m'. mem_write m i (x @ [0]) = Some m' \<and> length m' = length m \<and> take (i + length x) m' = take i m @ x \<and> m' ! (i + length x) = 0"
  using assms by (intro exI [of _ "take i m @ (x @ [0]) @ drop (i + length (x @ [0])) m"]) (simp add: mem_write_def nth_append)

abbreviation page_size :: "counters \<Rightarrow> registered_metric list \<Rightarrow> nat" where
  "page_size c metrics \<equiv> length (concat (map (metric_line c) metrics))"

lemma metrics_loop_ok:
  assumes "length buf = MAX_BUF_SIZE" "i + page_size c metrics < MAX_BUF_SIZE" "take i buf = t" "length t = i"
  shows "\<exists>buf'. metrics_loop c metrics buf i = Some buf' \<and> length buf' = MAX_BUF_SIZE \<and>
    take (i + page_size c metrics) buf' = t @ concat (map (metric_line c) metrics) \<and> (metrics \<noteq> [] \<longrightarrow> buf' ! (i + page_size c metrics) = 0)"
  using assms
proof (induction metrics arbitrary: buf i t)
  case (Cons m metrics)
  let ?l = "metric_line c m"
  have l: "i + length ?l < MAX_BUF_SIZE" "i + length ?l + page_size c metrics < MAX_BUF_SIZE" using Cons.prems(2) by simp_all
  have n: "nat ((int MAX_BUF_SIZE - int i) mod 2 ^ 64) = MAX_BUF_SIZE - i" using l(1) by (simp add: MAX_BUF_SIZE_def nat_diff_distrib)
  obtain b where b: "mem_write buf i (?l @ [0]) = Some b" "length b = MAX_BUF_SIZE" "take (i + length ?l) b = t @ ?l" "b ! (i + length ?l) = 0"
    using write_text [of i ?l buf] Cons.prems(1,3) l(1) by auto
  have s: "snprintf buf i (nat ((int MAX_BUF_SIZE - int i) mod 2 ^ 64)) ?l = Some b" unfolding n snprintf_def using b(1) l(1) by simp
  have lt: "length (t @ ?l) = i + length ?l" using Cons.prems(4) by simp
  obtain b' where "metrics_loop c metrics b (i + length ?l) = Some b'" "length b' = MAX_BUF_SIZE"
    "take (i + length ?l + page_size c metrics) b' = (t @ ?l) @ concat (map (metric_line c) metrics)" "metrics \<noteq> [] \<longrightarrow> b' ! (i + length ?l + page_size c metrics) = 0"
    using Cons.IH [OF b(2) l(2) b(3) lt] by blast
  moreover have "metrics = [] \<Longrightarrow> metrics_loop c metrics b (i + length ?l) = Some b" by simp
  ultimately show ?case using s b(4) by (cases "metrics = []") (simp_all add: add.assoc)
qed simp

lemma metrics_handler_ok:
  assumes "page_size c metrics < MAX_BUF_SIZE" "metrics \<noteq> []" "\<forall>m\<in>set metrics. 0 \<notin> set (metric_line c m)" "MAX_BUF_SIZE \<le> length junk"
  shows "metrics_handler junk c metrics = Some (200, concat (map (metric_line c) metrics))"
proof -
  let ?t = "concat (map (metric_line c) metrics)"
  obtain buf where b: "metrics_loop c metrics (take MAX_BUF_SIZE junk) 0 = Some buf" "length buf = MAX_BUF_SIZE" "take (length ?t) buf = ?t" "buf ! length ?t = 0"
    using metrics_loop_ok [of "take MAX_BUF_SIZE junk" 0 c metrics "[]"] assms(1,2,4) by auto
  define buf' where "buf' = buf[MAX_BUF_SIZE - 1 := 0]"
  have w: "mem_write buf (MAX_BUF_SIZE - 1) [0] = Some buf'"
    using b(2) upd_conv_take_nth_drop [of "MAX_BUF_SIZE - 1" buf 0] by (simp add: mem_write_def buf'_def MAX_BUF_SIZE_def)
  have z: "buf' ! length ?t = 0" "length buf' = MAX_BUF_SIZE" using b(2,4) assms(1) by (auto simp: buf'_def nth_list_update)
  have "take (length ?t) buf' = ?t" using b(3) assms(1) by (simp add: buf'_def take_update_cancel)
  then have "buf' = ?t @ 0 # drop (Suc (length ?t)) buf'" using z assms(1) by (metis id_take_nth_drop)
  then obtain r where r: "buf' = ?t @ 0 # r" by blast
  have "0 \<notin> set ?t" using assms(3) by auto
  from strlen_app [OF this, of r] show ?thesis using b(1) w r by (simp add: metrics_handler_def)
qed

section \<open>All metrics fit\<close>

lemma length_int_text: "length (int_text (sint (x :: i64))) \<le> 20"
proof -
  have b: "- (2 ^ 63) \<le> sint x" "sint x < 2 ^ 63" using sint_range_size [of x] by (simp_all add: word_size)
  have "length (dec_digits (nat (- sint x))) \<le> 19" using b(1) by (intro length_dec_digits) (auto simp: nat_less_iff)
  moreover have "length (dec_digits (nat (sint x))) \<le> 19" using b(2) by (intro length_dec_digits) (auto simp: nat_less_iff)
  ultimately show ?thesis by (simp add: int_text_def)
qed

lemma int_text_nonzero: "0 \<notin> set (int_text n)"
proof -
  have "0 \<notin> set (dec_digits k)" for k using dec_digits_ok [of k] by (auto simp: is_dec_digit_def word_le_nat_alt)
  then show ?thesis by (simp add: int_text_def)
qed

text \<open>The names: there are 111, they have 2392 bytes together, and none has a zero or is too long.\<close>

lemma length_names: "length (bytes s) = length s" "length (pool_name n k) = length n + 9 + length (dec_digits k)" "length (call_name n) = length n + 16"
  by (simp_all add: pool_name_def call_name_def bytes_def)

lemma names_nonzero: "0 \<notin> set (pool_name n k) \<longleftrightarrow> 0 \<notin> set n" "0 \<notin> set (call_name n) \<longleftrightarrow> 0 \<notin> set n"
proof -
  have "0 \<notin> set (dec_digits k)" for k using dec_digits_ok [of k] by (auto simp: is_dec_digit_def word_le_nat_alt)
  then show "0 \<notin> set (pool_name n k) \<longleftrightarrow> 0 \<notin> set n" "0 \<notin> set (call_name n) \<longleftrightarrow> 0 \<notin> set n" by (simp_all add: pool_name_def call_name_def bytes_def)
qed

lemma length_digits: "length (dec_digits k) = (if k < 10 then 1 else Suc (length (dec_digits (k div 10))))"
  by (subst dec_digits.simps) simp

lemma metric_names_facts: "sum_list (map length metric_names) = 2392" "length metric_names = 111" "\<forall>n\<in>set metric_names. length n < MAX_METRIC_NAME \<and> 0 \<notin> set n"
proof -
  show "length metric_names = 111" by (simp add: metric_names_def)
  show "sum_list (map length metric_names) = 2392" by (simp add: metric_names_def length_names length_digits upt_rec)
  have "length n < 128 \<and> 0 \<notin> set n" if "n \<in> set metric_names" for n
  proof -
    have d: "length (dec_digits k) \<le> 2" if "k < 100" for k using that length_dec_digits [of k 2] by simp
    have p: "length (pool_name x k) < 128 \<and> 0 \<notin> set (pool_name x k)" if "k < 100" "length x < 100" "0 \<notin> set x" for x k
      using d [OF that(1)] that(2,3) names_nonzero(1) by (simp add: length_names)
    have c: "length (call_name x) < 128 \<and> 0 \<notin> set (call_name x)" if "length x < 100" "0 \<notin> set x" for x using that names_nonzero(2) by (simp add: length_names)
    show ?thesis using \<open>n \<in> set metric_names\<close> p c unfolding metric_names_def by (auto simp: bytes_def)
  qed
  then show "\<forall>n\<in>set metric_names. length n < MAX_METRIC_NAME \<and> 0 \<notin> set n" by (simp add: MAX_METRIC_NAME_def)
qed

lemma register_from_ok:
  assumes "\<forall>n\<in>set names. length n < MAX_METRIC_NAME"
  shows "\<exists>ms. register_from i names metrics = Some (ms @ metrics) \<and> map metric_name ms = rev names \<and> map metric_data ms = rev [i..<i + length names]"
  using assms
proof (induction names arbitrary: i metrics)
  case (Cons n names)
  obtain ms where "register_from (Suc i) names (\<lparr>metric_name = n, metric_data = i\<rparr> # metrics) = Some (ms @ \<lparr>metric_name = n, metric_data = i\<rparr> # metrics)"
    "map metric_name ms = rev names" "map metric_data ms = rev [Suc i..<Suc i + length names]" using Cons.IH [of "Suc i" "\<lparr>metric_name = n, metric_data = i\<rparr> # metrics"] Cons.prems by auto
  then show ?case using Cons.prems by (intro exI [of _ "ms @ [\<lparr>metric_name = n, metric_data = i\<rparr>]"]) (simp add: http_metrics_register_def upt_conv_Cons del: upt_Suc)
qed simp

text \<open>
  The page of the metrics is complete. The server registers all its metrics without a failed assertion, and whatever the values of the
  counters are, the answer to \<^verbatim>\<open>GET /metrics\<close> has one line for each of them, the last registered first, and fits the array of 5120 bytes on
  the stack, which nothing else in the code makes sure of.
\<close>

theorem metrics_page_complete:
  assumes "MAX_BUF_SIZE \<le> length junk"
  shows "\<exists>metrics c1. register_metrics now [] c0 = Some (metrics, c1) \<and> map metric_name metrics = rev metric_names \<and> map metric_data metrics = rev [0..<111] \<and>
    web_handler build_time git_commit t t0 junk c (metrics) (bytes ''GET'') (bytes ''/metrics'') = Some (200, concat (map (metric_line c) metrics))"
proof -
  obtain ms where m: "register_from 0 metric_names [] = Some ms" "map metric_name ms = rev metric_names" "map metric_data ms = rev [0..<111]"
    using register_from_ok [of metric_names 0 "[]"] metric_names_facts(2,3) by auto
  have "page_size c ms \<le> sum_list (map (\<lambda>m. length (metric_name m) + 22) ms)"
    unfolding length_concat map_map o_def
    by (rule sum_list_mono) (use length_int_text in \<open>simp add: metric_line_def add.commute\<close>)
  also have "\<dots> = sum_list (map length (map metric_name ms)) + 22 * length ms" by (simp add: sum_list_addf sum_list_triv o_def)
  also have "length ms = 111" using arg_cong [OF m(2), of length] metric_names_facts(2) by simp
  also have "sum_list (map length (map metric_name ms)) = 2392" unfolding m(2) using metric_names_facts(1) by (simp add: rev_map [symmetric] sum_list_rev)
  finally have s: "page_size c ms < MAX_BUF_SIZE" by (simp add: MAX_BUF_SIZE_def)
  have ne: "ms \<noteq> []" using arg_cong [OF m(2), of length] metric_names_facts(2) by auto
  have "0 \<notin> set (metric_line c x)" if "x \<in> set ms" for x
  proof -
    have "metric_name x \<in> set (map metric_name ms)" using that by simp
    then have "0 \<notin> set (metric_name x)" unfolding m(2) using metric_names_facts(3) by simp
    then show ?thesis using int_text_nonzero by (simp add: metric_line_def)
  qed
  then have "metrics_handler junk c ms = Some (200, concat (map (metric_line c) ms))" using metrics_handler_ok [OF s ne _ assms] by blast
  then show ?thesis using m by (simp add: register_metrics_def web_handler_def)
qed

theorem metrics_page_complete_witness:
  "\<exists>metrics c1. register_metrics 5 [] (\<lambda>_. 0) = Some (metrics, c1) \<and>
     web_handler [] [] 7 5 (replicate 5120 0) (\<lambda>_. 0) metrics (bytes ''GET'') (bytes ''/metrics'') = Some (200, concat (map (metric_line (\<lambda>_. 0)) metrics))"
proof -
  have "MAX_BUF_SIZE \<le> length (replicate 5120 (0 :: byte))" by (simp add: MAX_BUF_SIZE_def)
  from metrics_page_complete [OF this, of 5 "\<lambda>_. 0" "[]" "[]" 7 5 "\<lambda>_. 0"] show ?thesis by blast
qed

end
