(* ===== verification/My_Malloc.thy ===== *)
theory My_Malloc
  imports Disk_Blocks
begin

text \<open>
  The allocator of \<^verbatim>\<open>src/common/my_malloc.c\<close>: blocks whose sizes are powers of two, with the number of their pool
  in the first eight bytes. Blocks that are given back are kept in one list per pool, which is linked through the
  blocks themselves. The counters are in \<open>Counters\<close>.

  The heap has the blocks that the C library has given out, by address. Which address \<^verbatim>\<open>malloc\<close> and \<^verbatim>\<open>realloc\<close>
  return is a parameter; zero is \<^verbatim>\<open>NULL\<close>. An access outside a block gives \<open>None\<close>.
\<close>

section \<open>The heap\<close>

record malloc_env =
  new_address :: "(u64 \<rightharpoonup> mem) \<Rightarrow> nat \<Rightarrow> u64"
  move_address :: "(u64 \<rightharpoonup> mem) \<Rightarrow> u64 \<Rightarrow> nat \<Rightarrow> u64"
  heap_junk :: "nat \<Rightarrow> byte"

record heap =
  heap_blocks :: "u64 \<rightharpoonup> mem"
  pools :: "u64 list option"

definition min_size_pow :: nat where "min_size_pow = 5"
definition num_pools :: nat where "num_pools = 14"
definition NO_POOL :: nat where "NO_POOL = 65535"

lemmas malloc_defs = min_size_pow_def num_pools_def NO_POOL_def

text \<open>Memory at a pointer that \<^verbatim>\<open>my_malloc\<close> has returned, eight bytes behind the beginning of its block.\<close>

definition heap_read :: "heap \<Rightarrow> u64 \<Rightarrow> nat \<Rightarrow> byte list option" where
  "heap_read h p n = do { blk \<leftarrow> heap_blocks h (p - 8); mem_read blk 8 n }"

definition heap_write :: "heap \<Rightarrow> u64 \<Rightarrow> byte list \<Rightarrow> heap option" where
  "heap_write h p bs = do { blk \<leftarrow> heap_blocks h (p - 8); blk \<leftarrow> mem_write blk 8 bs; Some (h\<lparr>heap_blocks := (heap_blocks h)(p - 8 \<mapsto> blk)\<rparr>) }"

text \<open>The number of the pool in front of a pointer, as an \<^verbatim>\<open>int\<close>, and an element of the array of pools.\<close>

definition pool_number :: "heap \<Rightarrow> u64 \<Rightarrow> int option" where
  "pool_number h p = do { blk \<leftarrow> heap_blocks h (p - 8); bs \<leftarrow> mem_read blk 0 8; Some (sint (ucast (le_word bs :: u64) :: u32)) }"

definition get_pool :: "heap \<Rightarrow> int \<Rightarrow> u64 option" where
  "get_pool h i = do { ps \<leftarrow> pools h; _ \<leftarrow> c_assert (0 \<le> i \<and> nat i < length ps); Some (ps ! nat i) }"

definition set_pool :: "heap \<Rightarrow> int \<Rightarrow> u64 \<Rightarrow> heap" where
  "set_pool h i p = h\<lparr>pools := map_option (\<lambda>ps. ps[nat i := p]) (pools h)\<rparr>"

section \<open>The operations\<close>

definition my_malloc_init :: "heap \<Rightarrow> heap option" where
  "my_malloc_init h = do { _ \<leftarrow> c_assert (pools h = None); Some (h\<lparr>pools := Some (replicate num_pools 0)\<rparr>) }"

text \<open>A block of the C library with the number of a pool in it; writing through \<^verbatim>\<open>NULL\<close> ends the process.\<close>

definition malloc_block :: "malloc_env \<Rightarrow> heap \<Rightarrow> nat \<Rightarrow> nat \<Rightarrow> (u64 \<times> heap) option" where
  "malloc_block me h n i = do {
     let p = new_address me (heap_blocks h) n;
     _ \<leftarrow> c_assert (p \<noteq> 0);
     blk \<leftarrow> mem_write (fresh_mem (heap_junk me) n) 0 (le_bytes (of_nat i :: u64));
     Some (p + 8, h\<lparr>heap_blocks := (heap_blocks h)(p \<mapsto> blk)\<rparr>) }"

definition my_malloc :: "malloc_env \<Rightarrow> heap \<Rightarrow> u64 \<Rightarrow> (u64 \<times> heap) option" where
  "my_malloc me h n = do {
     let n = n + 8;
     let n = (if n < 32 then 32 else n);
     let pow = 64 - clzll (n - 1);
     _ \<leftarrow> c_assert (pow < 63);
     let i = pow - min_size_pow;
     if num_pools \<le> i then malloc_block me h (2 ^ pow) NO_POOL
     else do {
       p \<leftarrow> get_pool h (int i);
       if p \<noteq> 0 then do { bs \<leftarrow> heap_read h p 8; Some (p, set_pool h (int i) (le_word bs)) }
       else malloc_block me h (2 ^ pow) i } }"

definition my_free :: "heap \<Rightarrow> u64 \<Rightarrow> heap option" where
  "my_free h p = do {
     i \<leftarrow> pool_number h p;
     if int num_pools \<le> i then do {
       _ \<leftarrow> c_assert (i = int NO_POOL);
       Some (h\<lparr>heap_blocks := (heap_blocks h)(p - 8 := None)\<rparr>) }
     else do {
       next \<leftarrow> get_pool h i;
       h \<leftarrow> heap_write h p (le_bytes next);
       Some (set_pool h i p) } }"

text \<open>
  \<^verbatim>\<open>my_realloc\<close> copies as many bytes as the whole old block has, from the address behind its first eight bytes. For
  blocks without a pool it leaves the copying to \<^verbatim>\<open>realloc\<close>; when that fails the code returns an address near
  zero.
\<close>

definition my_realloc :: "malloc_env \<Rightarrow> heap \<Rightarrow> u64 \<Rightarrow> u64 \<Rightarrow> (u64 \<times> heap) option" where
  "my_realloc me h p n = do {
     i \<leftarrow> pool_number h p;
     if int num_pools \<le> i then do {
       blk \<leftarrow> heap_blocks h (p - 8);
       let k = unat (n + 8);
       let q = move_address me (heap_blocks h) (p - 8) k;
       if q = 0 then Some (q + 8, h)
       else Some (q + 8, h\<lparr>heap_blocks := (heap_blocks h)(p - 8 := None, q \<mapsto> take k blk @ drop (length blk) (fresh_mem (heap_junk me) k))\<rparr>) }
     else do {
       _ \<leftarrow> c_assert (0 \<le> int min_size_pow + i);
       (q, h) \<leftarrow> my_malloc me h n;
       _ \<leftarrow> c_assert (q \<noteq> 0);
       bs \<leftarrow> heap_read h p (2 ^ nat (int min_size_pow + i));
       h \<leftarrow> heap_write h q bs;
       h \<leftarrow> my_free h p;
       Some (q, h) } }"

definition my_strdup :: "malloc_env \<Rightarrow> heap \<Rightarrow> byte list \<Rightarrow> (u64 \<times> heap) option" where
  "my_strdup me h s = do {
     _ \<leftarrow> c_assert (length s + 1 < 2 ^ 31);
     (t, h) \<leftarrow> my_malloc me h (of_nat (length s) + 1);
     h \<leftarrow> heap_write h t (s @ [0]);
     Some (t, h) }"

text \<open>The loops of \<^verbatim>\<open>my_malloc_free\<close>. Every round frees a block, so that they end.\<close>

function free_chain :: "(u64 \<rightharpoonup> mem) \<Rightarrow> u64 \<Rightarrow> (u64 \<rightharpoonup> mem) option" where
  "free_chain b p = (if p = 0 then Some b
     else case b (p - 8) of None \<Rightarrow> None
       | Some blk \<Rightarrow> (case mem_read blk 8 8 of None \<Rightarrow> None
         | Some bs \<Rightarrow> free_chain (b(p - 8 := None)) (le_word bs)))"
  by pat_completeness auto

termination
proof (relation "measure (\<lambda>(b, p). card (dom b))", goal_cases)
  case (2 b p blk bs)
  then have "p - 8 \<in> dom b" by blast
  then have "card (dom b - {p - 8}) < card (dom b)" by (intro card_Diff1_less) auto
  then show ?case by (simp add: dom_fun_upd)
qed simp

declare free_chain.simps [simp del]

primrec free_pools :: "(u64 \<rightharpoonup> mem) \<Rightarrow> u64 list \<Rightarrow> (u64 \<rightharpoonup> mem) option" where
  "free_pools b [] = Some b"
| "free_pools b (p # ps) = do { b \<leftarrow> free_chain b p; free_pools b ps }"

definition my_malloc_free :: "heap \<Rightarrow> heap option" where
  "my_malloc_free h = do { ps \<leftarrow> pools h; b \<leftarrow> free_pools (heap_blocks h) (take num_pools ps); Some \<lparr>heap_blocks = b, pools = None\<rparr> }"

end
