(* ===== verification/My_Malloc_Properties.thy ===== *)
theory My_Malloc_Properties
  imports My_Malloc
begin

text \<open>
  What the allocator promises: blocks in use never overlap and keep their contents, released blocks are used again,
  and at the end everything that was given back is freed. The locale \<open>allocator\<close> states the contract on the
  contents of the blocks in use, and the functions of \<^verbatim>\<open>my_malloc.c\<close> interpret it.
\<close>

section \<open>The contract\<close>

locale allocator =
  fixes inv :: "'h \<Rightarrow> (u64 \<rightharpoonup> mem) \<Rightarrow> bool"
    and alloc :: "'h \<Rightarrow> u64 \<Rightarrow> (u64 \<times> 'h) option"
    and release :: "'h \<Rightarrow> u64 \<Rightarrow> 'h option"
    and put :: "'h \<Rightarrow> u64 \<Rightarrow> byte list \<Rightarrow> 'h option"
    and limit :: nat
  assumes alloc_law: "inv h m \<Longrightarrow> unat n \<le> limit \<Longrightarrow> alloc h n = Some (p, h') \<Longrightarrow> p \<noteq> 0 \<and> m p = None \<and> (\<exists>c. unat n \<le> length c \<and> inv h' (m(p \<mapsto> c)))"
    and release_law: "inv h m \<Longrightarrow> m p = Some c \<Longrightarrow> \<exists>h'. release h p = Some h' \<and> inv h' (m(p := None))"
    and put_law: "inv h m \<Longrightarrow> m p = Some c \<Longrightarrow> length bs \<le> length c \<Longrightarrow> \<exists>h'. put h p bs = Some h' \<and> inv h' (m(p \<mapsto> bs @ drop (length bs) c))"
begin

text \<open>Storing bytes in a new block leaves the other blocks alone, and the block can be released again.\<close>

lemma store_new:
  assumes "inv h m" "length bs \<le> limit" "limit < 2 ^ 64" "alloc h (of_nat (length bs)) = Some (p, h1)"
  shows "\<exists>h2 c. put h1 p bs = Some h2 \<and> p \<noteq> 0 \<and> m p = None \<and> take (length bs) c = bs \<and> inv h2 (m(p \<mapsto> c))"
proof -
  have n: "unat (of_nat (length bs) :: u64) = length bs" using assms(2,3) by (simp add: unat_of_nat)
  then obtain c where c: "p \<noteq> 0" "m p = None" "length bs \<le> length c" "inv h1 (m(p \<mapsto> c))" using alloc_law [OF assms(1) _ assms(4)] assms(2) by auto
  then show ?thesis using put_law [OF c(4), of p c bs] by (intro exI [of _ "the (put h1 p bs)"] exI [of _ "bs @ drop (length bs) c"]) auto
qed

lemma alloc_release:
  assumes "inv h m" "unat n \<le> limit" "alloc h n = Some (p, h1)"
  shows "\<exists>h2. release h1 p = Some h2 \<and> inv h2 m"
proof -
  obtain c where c: "m p = None" "inv h1 (m(p \<mapsto> c))" using alloc_law [OF assms] by blast
  then show ?thesis using release_law [OF c(2), of p c] by (simp add: fun_upd_idem)
qed

end

section \<open>Sizes\<close>

lemma clzll_pow:
  assumes "x \<noteq> 0"
  shows "unat x < 2 ^ (64 - clzll x)" "unat x < 2 ^ k \<Longrightarrow> 64 - clzll x \<le> k"
proof -
  show "unat x < 2 ^ (64 - clzll x)" using no_bits_clzll [of x _ "clzll x"] clzll_ctzll_sum [OF assms] by (auto simp: unat_less_exp_bit)
  assume "unat x < 2 ^ k"
  then have "63 - clzll x < k" using clzll_bit [OF assms] by (simp add: unat_less_exp_bit)
  then show "64 - clzll x \<le> k" by simp
qed

text \<open>The power of two of the block for a request.\<close>

definition size_pow :: "u64 \<Rightarrow> nat" where
  "size_pow n = 64 - clzll ((if n + 8 < 32 then 32 else n + 8) - 1)"

lemma size_pow:
  assumes "unat n \<le> 2 ^ 61"
  shows "5 \<le> size_pow n" "size_pow n < 63" "unat n + 8 \<le> 2 ^ size_pow n"
proof -
  define k where "k = (if n + 8 < 32 then 32 else n + 8)"
  have n8: "unat (n + 8) = unat n + 8" using assms by (simp add: unat_word_ariths)
  have k: "32 \<le> unat k" "unat n + 8 \<le> unat k" "unat k \<le> 2 ^ 61 + 8"
    using n8 assms by (auto simp: k_def word_less_nat_alt)
  have k1: "unat (k - 1) = unat k - 1" using k(1) by (subst unat_minus_one) auto
  then have "unat (k - 1) \<noteq> 0" using k(1) by simp
  then have nz: "k - 1 \<noteq> 0" by (auto simp del: right_minus_eq)
  have p: "size_pow n = 64 - clzll (k - 1)" by (simp add: size_pow_def k_def)
  have up: "unat (k - 1) < 2 ^ size_pow n" unfolding p by (rule clzll_pow(1) [OF nz])
  then show "unat n + 8 \<le> 2 ^ size_pow n" using k(2) k1 by linarith
  have "unat (k - 1) < 2 ^ 62" using k(3) k1 by simp
  then show "size_pow n < 63" using clzll_pow(2) [OF nz, of 62] p by simp
  show "5 \<le> size_pow n"
  proof (rule ccontr)
    assume "\<not> 5 \<le> size_pow n"
    then have "(2 :: nat) ^ size_pow n \<le> 2 ^ 4" by (intro power_increasing) auto
    then show False using up k(1) k1 by simp
  qed
qed

lemma my_malloc_pow:
  "my_malloc me h n = (if size_pow n < 63 then
     if 19 \<le> size_pow n then malloc_block me h (2 ^ size_pow n) NO_POOL
     else do { p \<leftarrow> get_pool h (int (size_pow n - 5));
       if p \<noteq> 0 then do { bs \<leftarrow> heap_read h p 8; Some (p, set_pool h (int (size_pow n - 5)) (le_word bs)) }
       else malloc_block me h (2 ^ size_pow n) (size_pow n - 5) }
   else None)"
proof -
  have "(14 \<le> size_pow n - 5) = (19 \<le> size_pow n)" by linarith
  then show ?thesis unfolding my_malloc_def Let_def size_pow_def [symmetric] malloc_defs by (simp add: c_assert_def)
qed

section \<open>The invariant\<close>

text \<open>A block of a pool has the size of the pool; both kinds of blocks begin with their number.\<close>

definition pooled :: "nat \<Rightarrow> mem \<Rightarrow> bool" where
  "pooled i blk \<longleftrightarrow> i < 14 \<and> length blk = 2 ^ (5 + i) \<and> take 8 blk = le_bytes (of_nat i :: u64)"

definition unpooled :: "mem \<Rightarrow> bool" where
  "unpooled blk \<longleftrightarrow> 8 \<le> length blk \<and> take 8 blk = le_bytes (of_nat NO_POOL :: u64)"

text \<open>The blocks of a list that is linked through the blocks.\<close>

primrec chain :: "(u64 \<rightharpoonup> mem) \<Rightarrow> u64 \<Rightarrow> u64 list \<Rightarrow> bool" where
  "chain b x [] \<longleftrightarrow> x = 0"
| "chain b x (p # ps) \<longleftrightarrow> x = p \<and> p \<noteq> 0 \<and> (\<exists>blk. b (p - 8) = Some blk \<and> 16 \<le> length blk \<and> chain b (le_word (take 8 (drop 8 blk))) ps)"

lemma chain_upd [simp]: "p \<notin> set ps \<Longrightarrow> chain (b(p - 8 := v)) x ps = chain b x ps"
  by (induction ps arbitrary: x) auto

lemma chain_0 [simp]: "chain b 0 ps \<longleftrightarrow> ps = []"
  by (cases ps) auto

lemma chain_nonzero: "x \<noteq> 0 \<Longrightarrow> chain b x ps \<longleftrightarrow>
    (\<exists>qs blk. ps = x # qs \<and> b (x - 8) = Some blk \<and> 16 \<le> length blk \<and> chain b (le_word (take 8 (drop 8 blk))) qs)"
  by (cases ps) auto

text \<open>\<open>fl i\<close> are the blocks in the list of pool \<open>i\<close>; every other block is in use.\<close>

definition free_set :: "(nat \<Rightarrow> u64 list) \<Rightarrow> u64 set" where
  "free_set fl = (\<Union>i<14. set (fl i))"

definition in_use :: "(u64 \<rightharpoonup> mem) \<Rightarrow> (nat \<Rightarrow> u64 list) \<Rightarrow> u64 \<rightharpoonup> mem" where
  "in_use b fl p = (if p \<in> free_set fl then None else map_option (drop 8) (b (p - 8)))"

definition blocks_fine :: "(u64 \<rightharpoonup> mem) \<Rightarrow> bool" where
  "blocks_fine b \<longleftrightarrow> (\<forall>a blk. b a = Some blk \<longrightarrow> a + 8 \<noteq> 0 \<and> (unpooled blk \<or> (\<exists>i. pooled i blk)))"

definition lists_fine :: "(u64 \<rightharpoonup> mem) \<Rightarrow> u64 list \<Rightarrow> (nat \<Rightarrow> u64 list) \<Rightarrow> bool" where
  "lists_fine b ps fl \<longleftrightarrow> length ps = 14 \<and>
     (\<forall>i<14. chain b (ps ! i) (fl i) \<and> distinct (fl i) \<and> (\<forall>p\<in>set (fl i). \<exists>blk. b (p - 8) = Some blk \<and> pooled i blk))"

definition heap_inv :: "heap \<Rightarrow> (u64 \<rightharpoonup> mem) \<Rightarrow> bool" where
  "heap_inv h m \<longleftrightarrow> (\<exists>ps fl. pools h = Some ps \<and> lists_fine (heap_blocks h) ps fl \<and> blocks_fine (heap_blocks h) \<and> m = in_use (heap_blocks h) fl)"

text \<open>What is known of the addresses of the C library: they are new, and not at the end of the address space.\<close>

definition addresses_ok :: "malloc_env \<Rightarrow> bool" where
  "addresses_ok me \<longleftrightarrow> (\<forall>b n. new_address me b n = 0 \<or> b (new_address me b n) = None \<and> new_address me b n + 8 \<noteq> 0)"

lemma header_number: "x < 2 ^ 31 \<Longrightarrow> sint (ucast (of_nat x :: u64) :: u32) = int x"
proof -
  assume x: "x < 2 ^ 31"
  have "(ucast (of_nat x :: u64) :: u32) = of_nat x" using x by (simp add: unsigned_of_nat take_bit_nat_eq_self)
  then show ?thesis using x by (simp add: signed_of_nat signed_take_bit_int_eq_self)
qed

lemma pool_number_ok:
  assumes "heap_blocks h (p - 8) = Some blk"
  shows "pooled i blk \<Longrightarrow> pool_number h p = Some (int i)" "unpooled blk \<Longrightarrow> pool_number h p = Some 65535"
proof -
  have le: "(le_word (le_bytes w) :: u64) = w" for w :: u64 by (rule le_word_le_bytes) simp
  show "pool_number h p = Some (int i)" if "pooled i blk"
  proof -
    have "(2 :: nat) ^ 5 \<le> 2 ^ (5 + i)" by (rule power_increasing) auto
    then have "8 \<le> length blk" "take 8 blk = le_bytes (of_nat i :: u64)" "i < 2 ^ 31" using that by (auto simp: pooled_def)
    then show ?thesis using assms by (simp add: pool_number_def mem_read_def le header_number)
  qed
  show "pool_number h p = Some 65535" if "unpooled blk"
    using that assms header_number [of 65535] by (simp add: pool_number_def mem_read_def unpooled_def le NO_POOL_def)
qed

lemma pooled_unique: "pooled i blk \<Longrightarrow> pooled j blk \<Longrightarrow> i = j"
  by (auto simp: pooled_def)

lemma pooled_length: "pooled i blk \<Longrightarrow> 32 \<le> length blk"
proof -
  assume "pooled i blk"
  moreover have "(2 :: nat) ^ 5 \<le> 2 ^ (5 + i)" by (rule power_increasing) auto
  ultimately show ?thesis by (simp add: pooled_def)
qed

lemma free_set_upd: "i < 14 \<Longrightarrow> free_set (fl(i := p # qs)) = insert p (free_set (fl(i := qs)))"
  by (auto simp: free_set_def split: if_splits)

text \<open>Blocks in the lists are blocks of the heap.\<close>

lemma free_set_dom:
  assumes "lists_fine b ps fl" "p \<in> free_set fl"
  shows "\<exists>i blk. i < 14 \<and> p \<in> set (fl i) \<and> b (p - 8) = Some blk \<and> pooled i blk"
  using assms by (auto simp: lists_fine_def free_set_def)

lemma in_useD:
  assumes "in_use b fl p = Some c"
  obtains blk where "b (p - 8) = Some blk" "c = drop 8 blk" "p \<notin> free_set fl"
  using assms by (auto simp: in_use_def split: if_splits)

text \<open>A block that is not in a list may change, as long as it stays a block.\<close>

lemma lists_fine_upd:
  assumes "lists_fine b ps fl" "p \<notin> free_set fl"
  shows "lists_fine (b(p - 8 := v)) ps fl"
proof -
  have "p \<notin> set (fl i)" if "i < 14" for i using assms(2) that by (auto simp: free_set_def)
  then show ?thesis using assms(1) by (auto simp: lists_fine_def)
qed

lemma in_use_upd: "p \<notin> free_set fl \<Longrightarrow> in_use (b(p - 8 := v)) fl = (in_use b fl)(p := map_option (drop 8) v)"
  by (auto simp: in_use_def fun_eq_iff)

section \<open>Allocating and releasing\<close>

lemma heap_invE:
  assumes "heap_inv h m"
  obtains ps fl where "pools h = Some ps" "lists_fine (heap_blocks h) ps fl" "blocks_fine (heap_blocks h)" "m = in_use (heap_blocks h) fl"
  using assms by (auto simp: heap_inv_def)

lemma heap_invI:
  assumes "pools h = Some ps" "lists_fine (heap_blocks h) ps fl" "blocks_fine (heap_blocks h)"
  shows "heap_inv h (in_use (heap_blocks h) fl)"
  using assms by (auto simp: heap_inv_def)

lemma malloc_block_ok:
  assumes "addresses_ok me" "heap_inv h m" "malloc_block me h n i = Some (p, h')" and kind: "\<And>blk. length blk = n \<Longrightarrow> take 8 blk = le_bytes (of_nat i :: u64) \<Longrightarrow> unpooled blk \<or> (\<exists>j. pooled j blk)"
  shows "p \<noteq> 0 \<and> m p = None \<and> (\<exists>c. n \<le> length c + 8 \<and> heap_inv h' (m(p \<mapsto> c)))"
proof -
  let ?b = "heap_blocks h" and ?a = "new_address me (heap_blocks h) n"
  obtain ps fl where i: "pools h = Some ps" "lists_fine ?b ps fl" "blocks_fine ?b" "m = in_use ?b fl" by (rule heap_invE [OF assms(2)])
  obtain blk where blk: "?a \<noteq> 0" "mem_write (fresh_mem (heap_junk me) n) 0 (le_bytes (of_nat i :: u64)) = Some blk" "p = ?a + 8" "h' = h\<lparr>heap_blocks := ?b(?a \<mapsto> blk)\<rparr>"
    using assms(3) by (auto simp: malloc_block_def Let_def split: bind_splits)
  have a: "?b (p - 8) = None" "p \<noteq> 0" "p - 8 = ?a" using assms(1) blk(1,3) by (auto simp: addresses_ok_def)
  have k: "length blk = n" "take 8 blk = le_bytes (of_nat i :: u64)" using blk(2) by (auto simp: mem_write_def fresh_mem_def split: if_splits)
  have nf: "p \<notin> free_set fl" using free_set_dom [OF i(2)] a(1) by fastforce
  have "lists_fine (?b(p - 8 \<mapsto> blk)) ps fl" by (rule lists_fine_upd [OF i(2) nf])
  moreover have "blocks_fine (?b(p - 8 \<mapsto> blk))" using i(3) kind [OF k] a(2) by (auto simp: blocks_fine_def)
  ultimately have "heap_inv h' (in_use (?b(p - 8 \<mapsto> blk)) fl)" using i(1) blk(4) a(3) heap_invI [of h' ps fl] by simp
  moreover have "m p = None" using i(4) a(1) by (simp add: in_use_def)
  ultimately show ?thesis using in_use_upd [OF nf] i(4) a(2) k(1) by (intro conjI exI [of _ "drop 8 blk"]) auto
qed

lemma reuse_ok:
  assumes "heap_inv h m" "i < 14" "get_pool h (int i) = Some p" "p \<noteq> 0" "heap_read h p 8 = Some bs"
  shows "m p = None \<and> (\<exists>c. 2 ^ (5 + i) \<le> length c + 8 \<and> heap_inv (set_pool h (int i) (le_word bs)) (m(p \<mapsto> c)))"
proof -
  let ?b = "heap_blocks h"
  obtain ps fl where v: "pools h = Some ps" "lists_fine ?b ps fl" "blocks_fine ?b" "m = in_use ?b fl" by (rule heap_invE [OF assms(1)])
  have p: "p = ps ! i" "length ps = 14" using assms(2,3) v(1,2) by (auto simp: get_pool_def lists_fine_def split: bind_splits)
  have c: "chain ?b p (fl i)" "distinct (fl i)" "\<forall>q\<in>set (fl i). \<exists>blk. ?b (q - 8) = Some blk \<and> pooled i blk" using v(2) assms(2) p(1) by (auto simp: lists_fine_def)
  obtain qs blk where q: "fl i = p # qs" "?b (p - 8) = Some blk" "chain ?b (le_word (take 8 (drop 8 blk))) qs" using c(1) chain_nonzero [OF assms(4)] by blast
  have bs: "bs = take 8 (drop 8 blk)" using assms(5) q(2) by (auto simp: heap_read_def mem_read_def split: if_splits)
  have pl: "pooled i blk" using c(3) q(1,2) by auto
  let ?fl = "fl(i := qs)" and ?ps = "ps[i := le_word bs]"
  have only: "j = i" if j: "j < 14" "p \<in> set (fl j)" for j
  proof -
    obtain blk' where "?b (p - 8) = Some blk'" "pooled j blk'" using v(2) j unfolding lists_fine_def by blast
    then show ?thesis using q(2) pl pooled_unique by simp
  qed
  have fs: "free_set fl = insert p (free_set ?fl)" "p \<notin> free_set ?fl"
  proof -
    show "free_set fl = insert p (free_set ?fl)" using free_set_upd [OF assms(2), of fl p qs] unfolding q(1) [symmetric] fun_upd_triv .
    show "p \<notin> free_set ?fl"
    proof
      assume "p \<in> free_set ?fl"
      then obtain j where j: "j < 14" "p \<in> set (?fl j)" by (auto simp: free_set_def)
      have "p \<notin> set qs" using c(2) q(1) by simp
      then have "j \<noteq> i" using j(2) by auto
      then show False using only [of j] j by simp
    qed
  qed
  have "lists_fine ?b ?ps ?fl" using v(2) c(2,3) q(1,3) bs by (auto simp: lists_fine_def nth_list_update)
  then have "heap_inv (set_pool h (int i) (le_word bs)) (in_use ?b ?fl)" using heap_invI [of "set_pool h (int i) (le_word bs)" ?ps ?fl] v(1,3) by (simp add: set_pool_def)
  moreover have "in_use ?b ?fl = m(p \<mapsto> drop 8 blk)" using fs q(2) v(4) by (auto simp: in_use_def fun_eq_iff)
  moreover have "m p = None" using fs v(4) by (auto simp: in_use_def)
  ultimately show ?thesis using pl by (intro conjI exI [of _ "drop 8 blk"]) (simp_all add: pooled_def)
qed

lemma my_malloc_ok:
  assumes "addresses_ok me" "heap_inv h m" "unat n \<le> 2 ^ 61" "my_malloc me h n = Some (p, h')"
  shows "p \<noteq> 0 \<and> m p = None \<and> (\<exists>c. unat n \<le> length c \<and> heap_inv h' (m(p \<mapsto> c)))"
proof -
  let ?k = "size_pow n"
  note sp = size_pow [OF assms(3)]
  have "p \<noteq> 0 \<and> m p = None \<and> (\<exists>c. 2 ^ ?k \<le> length c + 8 \<and> heap_inv h' (m(p \<mapsto> c)))"
  proof (cases "19 \<le> ?k")
    case True
    have "(2 :: nat) ^ 5 \<le> 2 ^ ?k" by (rule power_increasing) (use sp in auto)
    then show ?thesis using assms(4) True sp(2) by (intro malloc_block_ok [OF assms(1,2), of _ NO_POOL]) (auto simp: my_malloc_pow unpooled_def)
  next
    case False
    then have i: "?k - 5 < 14" "5 + (?k - 5) = ?k" using sp(1) by auto
    obtain q where q: "get_pool h (int (?k - 5)) = Some q" using assms(4) False by (auto simp: my_malloc_pow split: if_splits bind_splits)
    show ?thesis
    proof (cases "q = 0")
      case True
      then show ?thesis using assms(4) False q sp(2) i by (intro malloc_block_ok [OF assms(1,2), of _ "?k - 5"]) (auto simp: my_malloc_pow pooled_def)
    next
      case n0: False
      then obtain bs where "heap_read h q 8 = Some bs" "p = q" "h' = set_pool h (int (?k - 5)) (le_word bs)"
        using assms(4) False q sp(2) by (auto simp: my_malloc_pow split: bind_splits)
      then show ?thesis using reuse_ok [OF assms(2) i(1) q n0] i(2) n0 by simp
    qed
  qed
  then obtain c where c: "p \<noteq> 0" "m p = None" "2 ^ ?k \<le> length c + 8" "heap_inv h' (m(p \<mapsto> c))" by blast
  have "unat n \<le> length c" using c(3) sp(3) by linarith
  then show ?thesis using c by blast
qed

lemma block_kind:
  assumes "blocks_fine b" "b a = Some blk"
  obtains (big) "unpooled blk" | (pool) i where "pooled i blk" "i < 14" "32 \<le> length blk"
proof -
  have "i < 14" "32 \<le> length blk" if "pooled i blk" for i using that pooled_length [OF that] by (simp_all add: pooled_def)
  then show thesis using assms big pool unfolding blocks_fine_def by metis
qed

lemma write_behind_header:
  assumes "mem_write blk 8 bs = Some blk'"
  shows "length blk' = length blk" "take 8 blk' = take 8 blk" "drop 8 blk' = bs @ drop (8 + length bs) blk" "unpooled blk' = unpooled blk" "pooled i blk' = pooled i blk"
  using assms by (auto simp: mem_write_def unpooled_def pooled_def split: if_splits)

lemma blocks_fine_upd:
  assumes "blocks_fine b" "b a = Some blk" "unpooled blk' = unpooled blk" "\<And>i. pooled i blk' = pooled i blk"
  shows "blocks_fine (b(a \<mapsto> blk'))"
  using assms by (auto simp: blocks_fine_def)

lemma my_free_ok:
  assumes "heap_inv h m" "m p = Some c"
  shows "\<exists>h'. my_free h p = Some h' \<and> heap_inv h' (m(p := None))"
proof -
  let ?b = "heap_blocks h"
  obtain ps fl where v: "pools h = Some ps" "lists_fine ?b ps fl" "blocks_fine ?b" "m = in_use ?b fl" by (rule heap_invE [OF assms(1)])
  obtain blk where blk: "?b (p - 8) = Some blk" "p \<notin> free_set fl" using in_useD assms(2) unfolding v(4) by metis
  from v(3) blk(1) show ?thesis
  proof (cases rule: block_kind)
    case big
    let ?h = "h\<lparr>heap_blocks := ?b(p - 8 := None)\<rparr>"
    have f: "my_free h p = Some ?h" using pool_number_ok(2) [OF blk(1) big] by (simp add: my_free_def malloc_defs)
    have "blocks_fine (?b(p - 8 := None))" using v(3) by (auto simp: blocks_fine_def)
    then have "heap_inv ?h (in_use (?b(p - 8 := None)) fl)" using heap_invI [of ?h ps fl] v(1) lists_fine_upd [OF v(2) blk(2)] by simp
    then show ?thesis using f in_use_upd [OF blk(2)] v(4) by auto
  next
    case (pool i)
    have len: "length ps = 14" using v(2) by (simp add: lists_fine_def)
    obtain blk' where w: "mem_write blk 8 (le_bytes (ps ! i)) = Some blk'" using pool(3) by (simp add: mem_write_def)
    note wb = write_behind_header [OF w]
    let ?b' = "?b(p - 8 \<mapsto> blk')" and ?fl = "fl(i := p # fl i)"
    let ?h = "set_pool (h\<lparr>heap_blocks := ?b'\<rparr>) (int i) p"
    have f: "my_free h p = Some ?h"
      using pool_number_ok(1) [OF blk(1) pool(1)] pool(2) v(1) len w blk(1) by (simp add: my_free_def malloc_defs get_pool_def heap_write_def)
    have n: "(le_word (take 8 (drop 8 blk')) :: u64) = ps ! i" unfolding wb(3) using le_word_le_bytes [of "ps ! i"] by simp
    have l: "lists_fine ?b' ps fl" by (rule lists_fine_upd [OF v(2) blk(2)])
    have "p - 8 + 8 \<noteq> 0" using v(3) blk(1) unfolding blocks_fine_def by blast
    then have p0: "p \<noteq> 0" "p \<notin> set (fl i)" using blk(2) pool(2) by (auto simp: free_set_def)
    have "lists_fine ?b' (ps[i := p]) ?fl" unfolding lists_fine_def
    proof (intro conjI allI impI)
      fix j :: nat assume j: "j < 14"
      have lj: "chain ?b' (ps ! j) (fl j)" "distinct (fl j)" "\<forall>q\<in>set (fl j). \<exists>blk. ?b' (q - 8) = Some blk \<and> pooled j blk" using l j by (simp_all add: lists_fine_def)
      have pj: "pooled i blk'" "16 \<le> length blk'" using pool(1,3) wb(1,5) by simp_all
      show "chain ?b' (ps[i := p] ! j) (?fl j)" "distinct (?fl j)" "\<forall>q\<in>set (?fl j). \<exists>blk. ?b' (q - 8) = Some blk \<and> pooled j blk"
        using lj pj p0 n len pool(2) by (cases "j = i"; simp)+
    qed (use len in simp)
    moreover have "blocks_fine ?b'" by (rule blocks_fine_upd [OF v(3) blk(1) wb(4,5)])
    ultimately have "heap_inv ?h (in_use ?b' ?fl)" using heap_invI [of ?h "ps[i := p]" ?fl] v(1) by (simp add: set_pool_def)
    moreover have "in_use ?b' ?fl = m(p := None)" using free_set_upd [OF pool(2), of fl p "fl i"] v(4) by (auto simp: in_use_def fun_eq_iff)
    ultimately show ?thesis using f by simp
  qed
qed

lemma heap_write_ok:
  assumes "heap_inv h m" "m p = Some c" "length bs \<le> length c"
  shows "\<exists>h'. heap_write h p bs = Some h' \<and> heap_inv h' (m(p \<mapsto> bs @ drop (length bs) c))"
proof -
  let ?b = "heap_blocks h"
  obtain ps fl where v: "pools h = Some ps" "lists_fine ?b ps fl" "blocks_fine ?b" "m = in_use ?b fl" by (rule heap_invE [OF assms(1)])
  obtain blk where blk: "?b (p - 8) = Some blk" "c = drop 8 blk" "p \<notin> free_set fl" using in_useD assms(2) unfolding v(4) by metis
  have "8 \<le> length blk" using v(3) blk(1) by (cases rule: block_kind) (auto simp: unpooled_def)
  then have "8 + length bs \<le> length blk" using assms(3) blk(2) by simp
  then obtain blk' where w: "mem_write blk 8 bs = Some blk'" by (simp add: mem_write_def)
  note wb = write_behind_header [OF w]
  let ?h = "h\<lparr>heap_blocks := ?b(p - 8 \<mapsto> blk')\<rparr>"
  have "blocks_fine (?b(p - 8 \<mapsto> blk'))" by (rule blocks_fine_upd [OF v(3) blk(1) wb(4,5)])
  then have "heap_inv ?h (in_use (?b(p - 8 \<mapsto> blk')) fl)" using heap_invI [of ?h ps fl] v(1) lists_fine_upd [OF v(2) blk(3)] by simp
  moreover have "heap_write h p bs = Some ?h" using blk(1) w by (simp add: heap_write_def)
  ultimately show ?thesis using in_use_upd [OF blk(3)] v(4) wb(3) blk(2) by (auto simp: add.commute)
qed

interpretation ma: allocator "\<lambda>h m. addresses_ok me \<and> heap_inv h m" "my_malloc me" my_free heap_write "2 ^ 61" for me
proof (unfold_locales, goal_cases)
  case (1 h m n p h')
  then show ?case using my_malloc_ok by blast
next
  case (2 h m p c)
  then show ?case using my_free_ok by blast
next
  case (3 h m p c bs)
  then show ?case using heap_write_ok by blast
qed

section \<open>Runs\<close>

text \<open>
  What a program may do with the allocator, from its start. \<open>m\<close> has the contents of the blocks that the program
  has received and not given back; a block that it receives has whatever bytes are in it.
\<close>

inductive heap_run :: "malloc_env \<Rightarrow> heap \<Rightarrow> (u64 \<rightharpoonup> mem) \<Rightarrow> bool" for me where
  start: "heap_blocks h0 = Map.empty \<Longrightarrow> my_malloc_init h0 = Some h \<Longrightarrow> heap_run me h Map.empty"
| malloc: "heap_run me h m \<Longrightarrow> unat n \<le> 2 ^ 61 \<Longrightarrow> my_malloc me h n = Some (p, h') \<Longrightarrow> map_option (drop 8) (heap_blocks h' (p - 8)) = Some c \<Longrightarrow> heap_run me h' (m(p \<mapsto> c))"
| free: "heap_run me h m \<Longrightarrow> m p = Some c \<Longrightarrow> my_free h p = Some h' \<Longrightarrow> heap_run me h' (m(p := None))"
| put: "heap_run me h m \<Longrightarrow> m p = Some c \<Longrightarrow> length bs \<le> length c \<Longrightarrow> heap_write h p bs = Some h' \<Longrightarrow> heap_run me h' (m(p \<mapsto> bs @ drop (length bs) c))"

lemma init_inv:
  assumes "heap_blocks h0 = Map.empty" "my_malloc_init h0 = Some h"
  shows "heap_inv h Map.empty"
proof -
  have "h = h0\<lparr>pools := Some (replicate 14 0)\<rparr>" using assms(2) by (auto simp: my_malloc_init_def num_pools_def split: bind_splits)
  moreover have "in_use Map.empty (\<lambda>_. []) = Map.empty" by (auto simp: in_use_def fun_eq_iff)
  ultimately show ?thesis using heap_invI [of h "replicate 14 0" "\<lambda>_. []"] assms(1) by (simp add: lists_fine_def blocks_fine_def)
qed

lemma in_use_content: "heap_inv h m \<Longrightarrow> m p = Some c \<Longrightarrow> map_option (drop 8) (heap_blocks h (p - 8)) = Some c"
  by (auto simp: heap_inv_def in_use_def split: if_splits)

lemma heap_inv_length: "heap_inv h m \<Longrightarrow> heap_blocks h a = Some blk \<Longrightarrow> 8 \<le> length blk"
  using pooled_length by (fastforce simp: heap_inv_def blocks_fine_def unpooled_def)

lemma heap_run_inv: "heap_run me h m \<Longrightarrow> addresses_ok me \<Longrightarrow> heap_inv h m"
proof (induction rule: heap_run.induct)
  case (start h0 h)
  then show ?case using init_inv by blast
next
  case (malloc h m n p h' c)
  then obtain c' where "heap_inv h' (m(p \<mapsto> c'))" using my_malloc_ok by blast
  moreover from in_use_content [OF this, of p] have "c' = c" using malloc.hyps(4) by simp
  ultimately show ?case by (simp add: fun_upd_def)
next
  case (free h m p c h')
  then show ?case using my_free_ok [of h m p c] by (simp add: fun_upd_def)
next
  case (put h m p c bs h')
  then show ?case using heap_write_ok [of h m p c bs] by (simp add: fun_upd_def)
qed

text \<open>Allocating ends the process only when the C library has no memory.\<close>

lemma my_malloc_total:
  assumes "heap_inv h m" "unat n \<le> 2 ^ 61" "my_malloc me h n = None"
  shows "new_address me (heap_blocks h) (2 ^ size_pow n) = 0"
proof -
  let ?b = "heap_blocks h"
  obtain ps fl where v: "pools h = Some ps" "lists_fine ?b ps fl" by (rule heap_invE [OF assms(1)])
  note sp = size_pow [OF assms(2)]
  have "8 \<le> (2 :: nat) ^ size_pow n" using power_increasing [OF sp(1), of "2 :: nat"] by simp
  then have mb: "malloc_block me h (2 ^ size_pow n) i = None \<longleftrightarrow> new_address me ?b (2 ^ size_pow n) = 0" for i
    by (auto simp: malloc_block_def Let_def mem_write_def fresh_mem_def c_assert_def)
  show ?thesis
  proof (cases "19 \<le> size_pow n")
    case True
    then show ?thesis using assms(3) sp(2) mb by (simp add: my_malloc_pow)
  next
    case False
    then have i: "size_pow n - 5 < 14" by auto
    then have g: "get_pool h (int (size_pow n - 5)) = Some (ps ! (size_pow n - 5))" using v by (simp add: get_pool_def lists_fine_def)
    have "\<exists>bs. heap_read h (ps ! (size_pow n - 5)) 8 = Some bs" if "ps ! (size_pow n - 5) \<noteq> 0"
    proof -
      have "chain ?b (ps ! (size_pow n - 5)) (fl (size_pow n - 5))" using v(2) i by (simp add: lists_fine_def)
      then show ?thesis using that by (auto simp: chain_nonzero heap_read_def mem_read_def)
    qed
    then show ?thesis using assms(3) sp(2) mb g False by (auto simp: my_malloc_pow split: if_splits)
  qed
qed

section \<open>Giving everything back\<close>

lemma free_chain_ok:
  "chain b p ps \<Longrightarrow> distinct ps \<Longrightarrow> free_chain b p = Some (\<lambda>a. if a + 8 \<in> set ps then None else b a)"
proof (induction ps arbitrary: b p)
  case Nil
  then show ?case by (simp add: free_chain.simps)
next
  case (Cons q qs)
  then obtain blk where c: "p = q" "q \<noteq> 0" "b (q - 8) = Some blk" "16 \<le> length blk" "chain b (le_word (take 8 (drop 8 blk))) qs" by auto
  have "free_chain b p = free_chain (b(q - 8 := None)) (le_word (take 8 (drop 8 blk)))" using c(1-4) by (subst free_chain.simps) (simp add: mem_read_def)
  also have "\<dots> = Some (\<lambda>a. if a + 8 \<in> set qs then None else (b(q - 8 := None)) a)"
  proof (rule Cons.IH)
    have "q \<notin> set qs" using Cons.prems(2) by simp
    from chain_upd [OF this] c(5) show "chain (b(q - 8 := None)) (le_word (take 8 (drop 8 blk))) qs" by (rule iffD2)
  qed (use Cons.prems(2) in simp)
  also have "\<dots> = Some (\<lambda>a. if a + 8 \<in> set (q # qs) then None else b a)" by (auto simp: fun_eq_iff)
  finally show ?case .
qed

text \<open>Freeing the lists of the pools from the \<open>k\<close>-th one on; those before have been freed.\<close>

lemma free_pools_ok:
  assumes "lists_fine b ps fl" "k \<le> 14"
  shows "free_pools (\<lambda>a. if \<exists>i<k. a + 8 \<in> set (fl i) then None else b a) (drop k ps) = Some (\<lambda>a. if a + 8 \<in> free_set fl then None else b a)"
  using assms(2)
proof (induction k rule: inc_induct)
  case base
  have "(\<exists>i<14. a + 8 \<in> set (fl i)) \<longleftrightarrow> a + 8 \<in> free_set fl" for a by (auto simp: free_set_def)
  then show ?case using assms(1) by (simp add: lists_fine_def)
next
  case (step k)
  let ?b = "\<lambda>a. if \<exists>i<k. a + 8 \<in> set (fl i) then None else b a"
  have l: "length ps = 14" "chain b (ps ! k) (fl k)" "distinct (fl k)" using assms(1) step.hyps by (auto simp: lists_fine_def)
  have same: "?b (q - 8) = b (q - 8)" if q: "q \<in> set (fl k)" for q
  proof -
    have "i = k" if i: "i < k" "q \<in> set (fl i)" for i
    proof -
      obtain blk where "b (q - 8) = Some blk" "pooled k blk" using assms(1) q step.hyps unfolding lists_fine_def by blast
      moreover obtain blk' where "b (q - 8) = Some blk'" "pooled i blk'" using assms(1) i step.hyps unfolding lists_fine_def by (meson order_less_trans)
      ultimately show ?thesis using pooled_unique by simp
    qed
    then show ?thesis by auto
  qed
  have "chain ?b x qs = chain b x qs" if "set qs \<subseteq> set (fl k)" for x qs using that same by (induction qs arbitrary: x) auto
  then have "free_chain ?b (ps ! k) = Some (\<lambda>a. if a + 8 \<in> set (fl k) then None else ?b a)" using free_chain_ok l(2,3) by simp
  moreover have "(\<lambda>a. if a + 8 \<in> set (fl k) then None else ?b a) = (\<lambda>a. if \<exists>i<Suc k. a + 8 \<in> set (fl i) then None else b a)" by (auto simp: fun_eq_iff less_Suc_eq)
  moreover have "drop k ps = ps ! k # drop (Suc k) ps" using l(1) step.hyps by (simp add: Cons_nth_drop_Suc)
  ultimately show ?case using step.IH by simp
qed

lemma my_malloc_free_ok:
  assumes "heap_inv h m"
  shows "\<exists>h'. my_malloc_free h = Some h' \<and> pools h' = None \<and> (\<forall>p. map_option (drop 8) (heap_blocks h' (p - 8)) = m p)"
proof -
  obtain ps fl where v: "pools h = Some ps" "lists_fine (heap_blocks h) ps fl" "m = in_use (heap_blocks h) fl" by (rule heap_invE [OF assms])
  have "length ps = 14" using v(2) by (simp add: lists_fine_def)
  then show ?thesis using free_pools_ok [OF v(2), of 0] v(1,3) by (simp add: my_malloc_free_def num_pools_def in_use_def)
qed

text \<open>The block that was given back last is the next one of its size to be given out.\<close>

lemma my_malloc_reuses:
  assumes "heap_inv h m" "m p = Some c" "my_free h p = Some h1" "pool_number h p = Some (int i)" "i < 14" "size_pow n = 5 + i"
  shows "\<exists>h2. my_malloc me h1 n = Some (p, h2)"
proof -
  obtain ps fl where v: "pools h = Some ps" "lists_fine (heap_blocks h) ps fl" by (rule heap_invE [OF assms(1)])
  obtain hw where w: "heap_write h p (le_bytes (ps ! i)) = Some hw" "h1 = set_pool hw (int i) p"
    using assms(3,4,5) v by (auto simp: my_free_def malloc_defs get_pool_def lists_fine_def split: bind_splits)
  then obtain blk where blk: "mem_write blk 8 (le_bytes (ps ! i)) = Some (the (heap_blocks hw (p - 8)))" "pools hw = Some ps" "heap_blocks hw (p - 8) \<noteq> None"
    using v(1) by (auto simp: heap_write_def split: bind_splits)
  obtain b where b: "heap_blocks hw (p - 8) = Some b" using blk(3) by blast
  have "16 \<le> length b" using blk(1) b write_behind_header(1) [OF blk(1)] by (auto simp: mem_write_def split: if_splits)
  then have "heap_read h1 p 8 = Some (take 8 (drop 8 b))" using b w(2) by (simp add: heap_read_def mem_read_def set_pool_def)
  moreover have "get_pool h1 (int i) = Some p" using w(2) blk(2) v(2) assms(5) by (simp add: get_pool_def set_pool_def lists_fine_def)
  moreover have "p \<noteq> 0" using assms(1,2) in_use_content [OF assms(1,2)] unfolding heap_inv_def blocks_fine_def by fastforce
  ultimately show ?thesis using assms(5,6) by (simp add: my_malloc_pow)
qed

text \<open>A copied string is in a block of its own.\<close>

lemma my_strdup_ok:
  assumes "addresses_ok me" "heap_inv h m" "my_strdup me h s = Some (p, h')"
  shows "m p = None \<and> (\<exists>c. take (length s + 1) c = s @ [0] \<and> heap_inv h' (m(p \<mapsto> c)))"
proof -
  have l: "length s + 1 < 2 ^ 31" using assms(3) by (auto simp: my_strdup_def split: bind_splits)
  obtain h1 where h1: "my_malloc me h (of_nat (length s) + 1) = Some (p, h1)" "heap_write h1 p (s @ [0]) = Some h'" using assms(3) by (auto simp: my_strdup_def split: bind_splits)
  have "my_malloc me h (of_nat (length (s @ [0]))) = Some (p, h1)" using h1(1) by (simp add: add.commute)
  from ma.store_new [OF conjI [OF assms(1,2)] _ _ this] l h1(2) show ?thesis by auto
qed

text \<open>A block without a pool keeps its bytes when it grows.\<close>

lemma my_realloc_keeps:
  assumes "heap_inv h m" "m p = Some c" "pool_number h p = Some (int NO_POOL)" "unat n < 2 ^ 63" "my_realloc me h p n = Some (q + 8, h')"
    and "q = move_address me (heap_blocks h) (p - 8) (unat n + 8)" "q \<noteq> 0"
  shows "\<exists>c'. map_option (drop 8) (heap_blocks h' q) = Some c' \<and> length c' = unat n \<and> take (length c) c' = take (unat n) c"
proof -
  obtain blk where blk: "heap_blocks h (p - 8) = Some blk" "c = drop 8 blk" "8 \<le> length blk" using in_use_content [OF assms(1,2)] heap_inv_length [OF assms(1)] by auto
  have k: "unat (n + 8) = unat n + 8" using assms(4) by (simp add: unat_word_ariths)
  have "heap_blocks h' q = Some (take (unat n + 8) blk @ drop (length blk) (fresh_mem (heap_junk me) (unat n + 8)))"
    using assms(3,5-7) blk(1) k by (auto simp: my_realloc_def malloc_defs Let_def)
  moreover have "take (length blk - min (length blk) (unat n + 8)) (drop (length blk) (fresh_mem (heap_junk me) (unat n + 8))) = []"
    by (cases "length blk \<le> unat n + 8") (simp_all add: fresh_mem_def)
  ultimately show ?thesis using blk(2,3) by (auto simp: fresh_mem_def drop_take)
qed

section \<open>Properties\<close>

text \<open>
  C24: The allocator is memory safe. In every run of a program that allocates, writes to its blocks and gives them
  back, a block in use has exactly the bytes that the program has put there, whatever happens to other
  blocks; a new block has the requested size, is not in use already, and allocating fails only if the C library
  is out of memory; a block in use can be given back.\<close>

theorem my_malloc_safe:
  assumes "addresses_ok me" "heap_run me h m"
  shows "(\<forall>p c. m p = Some c \<longrightarrow> heap_read h p (length c) = Some c) \<and>
    (\<forall>n. unat n \<le> 2 ^ 61 \<longrightarrow> (case my_malloc me h n of None \<Rightarrow> \<exists>k. new_address me (heap_blocks h) k = 0
       | Some (p, h') \<Rightarrow> p \<noteq> 0 \<and> m p = None \<and> (\<exists>c. unat n \<le> length c \<and> heap_run me h' (m(p \<mapsto> c))))) \<and>
    (\<forall>p. m p \<noteq> None \<longrightarrow> (\<exists>h'. my_free h p = Some h' \<and> heap_run me h' (m(p := None))))"
proof (intro conjI allI impI)
  note inv = heap_run_inv [OF assms(2,1)]
  fix p c assume "m p = Some c"
  from in_use_content [OF inv this] show "heap_read h p (length c) = Some c" using heap_inv_length [OF inv] by (fastforce simp: heap_read_def mem_read_def)
next
  note inv = heap_run_inv [OF assms(2,1)]
  fix n :: u64 assume n: "unat n \<le> 2 ^ 61"
  show "case my_malloc me h n of None \<Rightarrow> \<exists>k. new_address me (heap_blocks h) k = 0
       | Some (p, h') \<Rightarrow> p \<noteq> 0 \<and> m p = None \<and> (\<exists>c. unat n \<le> length c \<and> heap_run me h' (m(p \<mapsto> c)))"
  proof (cases "my_malloc me h n")
    case None
    then show ?thesis using my_malloc_total [OF inv n] by auto
  next
    case (Some r)
    then obtain p h' where r: "my_malloc me h n = Some (p, h')" "r = (p, h')" by (cases r) auto
    obtain c where c: "p \<noteq> 0" "m p = None" "unat n \<le> length c" "heap_inv h' (m(p \<mapsto> c))" using ma.alloc_law [of me h m n p h'] assms(1) inv n r(1) by auto
    have "map_option (drop 8) (heap_blocks h' (p - 8)) = Some c" using in_use_content [OF c(4), of p] by simp
    then show ?thesis using heap_run.malloc [OF assms(2) n r(1)] c r by auto
  qed
next
  note inv = heap_run_inv [OF assms(2,1)]
  fix p assume "m p \<noteq> None"
  then obtain c where c: "m p = Some c" by blast
  with ma.release_law [of me h m p c] assms(1) inv obtain h' where "my_free h p = Some h'" by blast
  then show "\<exists>h'. my_free h p = Some h' \<and> heap_run me h' (m(p := None))" using heap_run.free [OF assms(2) c] by blast
qed

definition example_malloc_env :: malloc_env where
  "example_malloc_env = \<lparr>new_address = (\<lambda>b n. if b 4096 = None then 4096 else if b 8192 = None then 8192 else 0), move_address = (\<lambda>b p n. 0), heap_junk = (\<lambda>_. 0)\<rparr>"

definition example_heap :: heap where
  "example_heap = \<lparr>heap_blocks = Map.empty, pools = Some (replicate num_pools 0)\<rparr>"

lemma example_addresses: "addresses_ok example_malloc_env"
  by (simp add: addresses_ok_def example_malloc_env_def)

lemma example_run: "heap_run example_malloc_env example_heap Map.empty"
  by (rule heap_run.start [of "\<lparr>heap_blocks = Map.empty, pools = None\<rparr>"]) (simp_all add: my_malloc_init_def example_heap_def)

lemma example_malloc: "\<exists>p h'. my_malloc example_malloc_env example_heap 10 = Some (p, h')"
proof (cases "my_malloc example_malloc_env example_heap 10")
  case None
  from my_malloc_total [OF heap_run_inv [OF example_run example_addresses] _ this] show ?thesis by (simp add: example_malloc_env_def example_heap_def)
qed auto

theorem my_malloc_safe_witness:
  "\<exists>h p c h'. my_malloc example_malloc_env example_heap 10 = Some (p, h) \<and> heap_run example_malloc_env h [p \<mapsto> c] \<and> 10 \<le> length c \<and> heap_read h p (length c) = Some c \<and>
     my_free h p = Some h' \<and> heap_run example_malloc_env h' Map.empty"
proof -
  obtain p h where ph: "my_malloc example_malloc_env example_heap 10 = Some (p, h)" using example_malloc by blast
  have "unat (10 :: u64) \<le> 2 ^ 61" by simp
  with my_malloc_safe [OF example_addresses example_run] ph obtain c where c: "10 \<le> length c" "heap_run example_malloc_env h [p \<mapsto> c]" by fastforce
  note s = my_malloc_safe [OF example_addresses c(2)]
  have "heap_read h p (length c) = Some c" using conjunct1 [OF s] by simp
  moreover obtain h' where "my_free h p = Some h'" "heap_run example_malloc_env h' ([p \<mapsto> c](p := None))" using spec [OF conjunct2 [OF conjunct2 [OF s]], of p] by auto
  ultimately show ?thesis using ph c by auto
qed

text \<open>
  Nothing is lost. When a program has given back all its blocks, \<^verbatim>\<open>my_malloc_free\<close> ends and leaves no block of the
  C library behind.\<close>

theorem my_malloc_no_leak:
  assumes "addresses_ok me" "heap_run me h Map.empty"
  shows "\<exists>h'. my_malloc_free h = Some h' \<and> heap_blocks h' = Map.empty \<and> pools h' = None"
proof -
  obtain h' where h': "my_malloc_free h = Some h'" "pools h' = None" "\<forall>p. map_option (drop 8) (heap_blocks h' (p - 8)) = None" using my_malloc_free_ok [OF heap_run_inv [OF assms(2,1)]] by auto
  have "heap_blocks h' a = None" for a using spec [OF h'(3), of "a + 8"] by simp
  then show ?thesis using h'(1,2) by auto
qed

theorem my_malloc_no_leak_witness: "\<exists>h. my_malloc_free example_heap = Some h \<and> heap_blocks h = Map.empty"
  using my_malloc_no_leak [OF example_addresses example_run] by blast

text \<open>
  Growing a block of a pool always leaves the block. \<^verbatim>\<open>my_realloc\<close> copies the whole size of the old block, but from
  the address behind the number of the pool, so that it reads eight bytes behind the end of the block, for
  every block of a pool and every new size.\<close>

theorem my_realloc_overruns:
  assumes "addresses_ok me" "heap_run me h m" "m p = Some c" "pool_number h p \<noteq> Some (int NO_POOL)" "unat n \<le> 2 ^ 61"
  shows "my_realloc me h p n = None"
proof -
  note inv = heap_run_inv [OF assms(2,1)]
  obtain blk where blk: "heap_blocks h (p - 8) = Some blk" "c = drop 8 blk" using in_use_content [OF inv assms(3)] by auto
  have "blocks_fine (heap_blocks h)" using inv by (auto simp: heap_inv_def)
  moreover have "\<not> unpooled blk" using assms(4) pool_number_ok(2) [OF blk(1)] by (auto simp: NO_POOL_def)
  ultimately obtain i where i: "pooled i blk" "i < 14" using blk(1) block_kind by metis
  have "heap_read h1 p (2 ^ (5 + i)) = None" if mq: "my_malloc me h n = Some (q, h1)" for q h1
  proof -
    obtain d where d: "m q = None" "heap_inv h1 (m(q \<mapsto> d))" using my_malloc_ok [OF assms(1) inv assms(5) mq] by blast
    then have "(m(q \<mapsto> d)) p = Some c" using assms(3) by auto
    from in_use_content [OF d(2) this] obtain blk1 where b1: "heap_blocks h1 (p - 8) = Some blk1" "drop 8 blk1 = drop 8 blk" using blk(2) by auto
    have "length blk1 = length blk" using arg_cong [OF b1(2), of length] heap_inv_length [OF d(2) b1(1)] pooled_length [OF i(1)] by simp
    then show ?thesis using b1(1) i(1) by (simp add: heap_read_def mem_read_def pooled_def)
  qed
  then have "(my_malloc me h n \<bind> (\<lambda>(q, h1). c_assert (q \<noteq> 0) \<bind> (\<lambda>_. heap_read h1 p (2 ^ (5 + i)) \<bind> (\<lambda>bs. F q h1 bs)))) = None" for F
    by (cases "my_malloc me h n") (auto split: bind_splits)
  moreover have "nat (5 + int i) = 5 + i" by simp
  ultimately show ?thesis using pool_number_ok(1) [OF blk(1) i(1)] i(2) by (simp add: my_realloc_def malloc_defs split_def)
qed

theorem my_realloc_overruns_witness: "\<exists>p h. my_malloc example_malloc_env example_heap 10 = Some (p, h) \<and> my_realloc example_malloc_env h p 100 = None"
proof -
  obtain p h where ph: "my_malloc example_malloc_env example_heap 10 = Some (p, h)" using example_malloc by blast
  have n: "unat (10 :: u64) \<le> 2 ^ 61" "unat (100 :: u64) \<le> 2 ^ 61" by simp_all
  obtain c where c: "heap_inv h [p \<mapsto> c]" using my_malloc_ok [OF example_addresses heap_run_inv [OF example_run example_addresses] n(1) ph] by blast
  have "map_option (drop 8) (heap_blocks h (p - 8)) = Some c" using in_use_content [OF c, of p] by simp
  from heap_run.malloc [OF example_run n(1) ph this] have r: "heap_run example_malloc_env h [p \<mapsto> c]" .
  have s: "size_pow 10 = 5" by (simp add: size_pow_def clzll_def upt_conv_Cons)
  have "malloc_block example_malloc_env example_heap 32 0 = Some (p, h)" using ph unfolding my_malloc_pow s by (simp add: get_pool_def example_heap_def malloc_defs)
  then have "heap_blocks h (p - 8) = Some (le_bytes (0 :: u64) @ replicate 24 0)"
    by (auto simp: malloc_block_def Let_def mem_write_def fresh_mem_def example_malloc_env_def example_heap_def map_replicate_const split: bind_splits if_splits)
  then have "pool_number h p \<noteq> Some (int NO_POOL)" by (simp add: pool_number_def mem_read_def NO_POOL_def le_word_le_bytes)
  from my_realloc_overruns [OF example_addresses r _ this n(2)] ph show ?thesis by auto
qed

end
