(* ===== verification/Counters.thy ===== *)
theory Counters
  imports Metrics My_Malloc_Properties
begin

text \<open>
  The counters that the allocator and the block store publish: \<^verbatim>\<open>increment_malloc_counter\<close> and its like in \<^verbatim>\<open>src/common/my_malloc.c\<close> and
  \<^verbatim>\<open>src/common/disk_storage.c\<close>, and the operations that call them. A counter is named by its position in the list of metrics.
\<close>

section \<open>Positions\<close>

definition NUM_MALLOC_NO_POOL :: nat where "NUM_MALLOC_NO_POOL = 17"
definition NUM_FREE_NO_POOL :: nat where "NUM_FREE_NO_POOL = 18"
definition NUM_MALLOC :: nat where "NUM_MALLOC = 19"
definition NUM_FREE :: nat where "NUM_FREE = 34"
definition NUM_REUSE :: nat where "NUM_REUSE = 49"
definition NUM_DISK_RESERVE :: nat where "NUM_DISK_RESERVE = 66"
definition NUM_DISK_RELEASE :: nat where "NUM_DISK_RELEASE = 77"
definition NUM_DISK_REUSE :: nat where "NUM_DISK_REUSE = 88"

lemmas counter_defs = NUM_MALLOC_NO_POOL_def NUM_FREE_NO_POOL_def NUM_MALLOC_def NUM_FREE_def NUM_REUSE_def NUM_DISK_RESERVE_def NUM_DISK_RELEASE_def NUM_DISK_REUSE_def

section \<open>The switches\<close>

text \<open>The default of the first three prints a message only.\<close>

definition increment_malloc_counter :: "int \<Rightarrow> counters \<Rightarrow> counters" where
  "increment_malloc_counter i c =
     (if 0 \<le> i \<and> i \<le> 14 then incr_metric (NUM_MALLOC + nat i) c
      else if i = int NO_POOL then incr_metric NUM_MALLOC_NO_POOL c
      else c)"

definition increment_free_counter :: "int \<Rightarrow> counters \<Rightarrow> counters" where
  "increment_free_counter i c =
     (if 0 \<le> i \<and> i \<le> 14 then incr_metric (NUM_FREE + nat i) c
      else if i = int NO_POOL then incr_metric NUM_FREE_NO_POOL c
      else c)"

definition increment_reuse_counter :: "int \<Rightarrow> counters \<Rightarrow> counters" where
  "increment_reuse_counter i c = (if 0 \<le> i \<and> i \<le> 14 then incr_metric (NUM_REUSE + nat i) c else c)"

definition num_disk_reserve_counter :: "int \<Rightarrow> counters \<Rightarrow> counters" where
  "num_disk_reserve_counter i c = (if 0 \<le> i \<and> i \<le> 9 then incr_metric (NUM_DISK_RESERVE + nat i) c else incr_metric (NUM_DISK_RESERVE + 10) c)"

definition increment_disk_release_counter :: "int \<Rightarrow> counters \<Rightarrow> counters" where
  "increment_disk_release_counter i c = (if 0 \<le> i \<and> i \<le> 9 then incr_metric (NUM_DISK_RELEASE + nat i) c else incr_metric (NUM_DISK_RELEASE + 10) c)"

definition increment_disk_reuse_counter :: "int \<Rightarrow> counters \<Rightarrow> counters" where
  "increment_disk_reuse_counter i c = (if 0 \<le> i \<and> i \<le> 9 then incr_metric (NUM_DISK_REUSE + nat i) c else incr_metric (NUM_DISK_REUSE + 10) c)"

text \<open>Every counter is published under the name of its pool.\<close>

lemma counter_names:
  "i < 15 \<Longrightarrow> metric_names ! (NUM_MALLOC + i) = pool_name (bytes ''num_malloc'') i"
  "i < 15 \<Longrightarrow> metric_names ! (NUM_FREE + i) = pool_name (bytes ''num_free'') i"
  "i < 15 \<Longrightarrow> metric_names ! (NUM_REUSE + i) = pool_name (bytes ''num_reuse'') i"
  "j < 11 \<Longrightarrow> metric_names ! (NUM_DISK_RESERVE + j) = pool_name (bytes ''num_disk_reserve'') j"
  "j < 11 \<Longrightarrow> metric_names ! (NUM_DISK_RELEASE + j) = pool_name (bytes ''num_disk_release'') j"
  "j < 11 \<Longrightarrow> metric_names ! (NUM_DISK_REUSE + j) = pool_name (bytes ''num_disk_reuse'') j"
  "metric_names ! NUM_MALLOC_NO_POOL = bytes ''num_malloc_no_pool''" "metric_names ! NUM_FREE_NO_POOL = bytes ''num_free_no_pool''"
  by (simp_all add: metric_names_def counter_defs nth_append)

section \<open>Counting allocations\<close>

text \<open>\<^verbatim>\<open>my_malloc\<close> and \<^verbatim>\<open>my_free\<close> with their counters. A block without a pool is counted by \<^verbatim>\<open>my_malloc\<close> itself.\<close>

definition my_malloc_counted :: "malloc_env \<Rightarrow> heap \<Rightarrow> counters \<Rightarrow> u64 \<Rightarrow> (u64 \<times> heap \<times> counters) option" where
  "my_malloc_counted me h c n = do {
     (p, h') \<leftarrow> my_malloc me h n;
     let n = n + 8;
     let n = (if n < 32 then 32 else n);
     let i = 64 - clzll (n - 1) - min_size_pow;
     if num_pools \<le> i then Some (p, h', incr_metric NUM_MALLOC_NO_POOL c)
     else do {
       q \<leftarrow> get_pool h (int i);
       Some (p, h', if q \<noteq> 0 then increment_reuse_counter (int i) c else increment_malloc_counter (int i) c) } }"

definition my_free_counted :: "heap \<Rightarrow> counters \<Rightarrow> u64 \<Rightarrow> (heap \<times> counters) option" where
  "my_free_counted h c p = do {
     i \<leftarrow> pool_number h p;
     h \<leftarrow> my_free h p;
     Some (h, if int num_pools \<le> i then incr_metric NUM_FREE_NO_POOL c else increment_free_counter i c) }"

text \<open>Runs of the allocator, with the blocks in use and the counters.\<close>

inductive counted_run :: "malloc_env \<Rightarrow> heap \<Rightarrow> (u64 \<rightharpoonup> mem) \<Rightarrow> counters \<Rightarrow> bool" for me where
  start: "heap_blocks h0 = Map.empty \<Longrightarrow> my_malloc_init h0 = Some h \<Longrightarrow> counted_run me h Map.empty (\<lambda>_. 0)"
| malloc: "counted_run me h m c \<Longrightarrow> unat n \<le> 2 ^ 61 \<Longrightarrow> my_malloc_counted me h c n = Some (p, h', c') \<Longrightarrow>
    map_option (drop 8) (heap_blocks h' (p - 8)) = Some x \<Longrightarrow> counted_run me h' (m(p \<mapsto> x)) c'"
| free: "counted_run me h m c \<Longrightarrow> m p = Some x \<Longrightarrow> my_free_counted h c p = Some (h', c') \<Longrightarrow> counted_run me h' (m(p := None)) c'"
| put: "counted_run me h m c \<Longrightarrow> m p = Some x \<Longrightarrow> length bs \<le> length x \<Longrightarrow> heap_write h p bs = Some h' \<Longrightarrow> counted_run me h' (m(p \<mapsto> bs @ drop (length bs) x)) c"

lemma counted_run_heap: "counted_run me h m c \<Longrightarrow> heap_run me h m"
proof (induction rule: counted_run.induct)
  case (malloc h m c n p h' c' x)
  then have "my_malloc me h n = Some (p, h')" by (auto simp: my_malloc_counted_def Let_def split: bind_splits if_splits)
  then show ?case using heap_run.malloc malloc by blast
next
  case (free h m c p x h' c')
  then have "my_free h p = Some h'" by (auto simp: my_free_counted_def split: bind_splits)
  then show ?case using heap_run.free free by blast
qed (blast intro: heap_run.intros)+

text \<open>The blocks in use of a pool.\<close>

definition pool_used :: "heap \<Rightarrow> (u64 \<rightharpoonup> mem) \<Rightarrow> int \<Rightarrow> u64 set" where
  "pool_used h m i = {p \<in> dom m. pool_number h p = Some i}"

text \<open>What the counters say: blocks that were allocated or taken from the list of the pool, less those that were given back.\<close>

definition balance :: "counters \<Rightarrow> int \<Rightarrow> i64" where
  "balance c i = (if i = int NO_POOL then c NUM_MALLOC_NO_POOL - c NUM_FREE_NO_POOL
     else c (NUM_MALLOC + nat i) + c (NUM_REUSE + nat i) - c (NUM_FREE + nat i))"

definition pool_ids :: "int set" where
  "pool_ids = insert (int NO_POOL) {0..<14}"

lemma balance_malloc:
  assumes "j \<in> pool_ids"
  shows "i < 14 \<Longrightarrow> balance (increment_malloc_counter (int i) c) j = balance c j + (if j = int i then 1 else 0)"
    "i < 14 \<Longrightarrow> balance (increment_reuse_counter (int i) c) j = balance c j + (if j = int i then 1 else 0)"
    "i < 14 \<Longrightarrow> balance (increment_free_counter (int i) c) j = balance c j - (if j = int i then 1 else 0)"
    "balance (incr_metric NUM_MALLOC_NO_POOL c) j = balance c j + (if j = int NO_POOL then 1 else 0)"
    "balance (incr_metric NUM_FREE_NO_POOL c) j = balance c j - (if j = int NO_POOL then 1 else 0)"
  using assms
  by (auto simp: pool_ids_def balance_def increment_malloc_counter_def increment_reuse_counter_def increment_free_counter_def incr_metric_def add_metric_def counter_defs NO_POOL_def)

lemma pool_number_of_block: "heap_blocks h' (q - 8) = heap_blocks h (q - 8) \<Longrightarrow> pool_number h' q = pool_number h q"
  by (simp add: pool_number_def)

lemma malloc_block_number:
  assumes "addresses_ok me" "heap_inv h m" "malloc_block me h n i = Some (p, h')" "8 \<le> n" "i < 2 ^ 31"
  shows "pool_number h' p = Some (int i)" "m q \<noteq> None \<Longrightarrow> pool_number h' q = pool_number h q"
proof -
  let ?b = "heap_blocks h" and ?a = "new_address me (heap_blocks h) n"
  obtain blk where blk: "?a \<noteq> 0" "mem_write (fresh_mem (heap_junk me) n) 0 (le_bytes (of_nat i :: u64)) = Some blk" "p = ?a + 8" "h' = h\<lparr>heap_blocks := ?b(?a \<mapsto> blk)\<rparr>"
    using assms(3) by (auto simp: malloc_block_def Let_def split: bind_splits)
  have "mem_read blk 0 8 = Some (le_bytes (of_nat i :: u64))" using blk(2) assms(4) by (auto simp: mem_write_def mem_read_def split: if_splits)
  moreover have "(le_word (le_bytes w) :: u64) = w" for w :: u64 by (rule le_word_le_bytes) simp
  ultimately show "pool_number h' p = Some (int i)" using header_number [OF assms(5)] blk(3,4) by (simp add: pool_number_def)
  assume "m q \<noteq> None"
  then have "?b (q - 8) \<noteq> None" using in_use_content [OF assms(2)] by fastforce
  then have "q - 8 \<noteq> ?a" using assms(1) blk(1) unfolding addresses_ok_def by metis
  then show "pool_number h' q = pool_number h q" using blk(4) by (intro pool_number_of_block) simp
qed

lemma listed_block:
  assumes "heap_inv h m" "i < 14" "get_pool h (int i) = Some p" "p \<noteq> 0"
  obtains blk where "heap_blocks h (p - 8) = Some blk" "pooled i blk"
proof -
  obtain ps fl where v: "pools h = Some ps" "lists_fine (heap_blocks h) ps fl" by (rule heap_invE [OF assms(1)])
  have "p = ps ! i" using assms(2,3) v by (auto simp: get_pool_def lists_fine_def split: bind_splits)
  then have "chain (heap_blocks h) p (fl i)" "\<forall>q\<in>set (fl i). \<exists>blk. heap_blocks h (q - 8) = Some blk \<and> pooled i blk" using v(2) assms(2) by (auto simp: lists_fine_def)
  then show thesis using chain_nonzero [OF assms(4)] that by fastforce
qed

lemma malloc_counts:
  assumes "addresses_ok me" "heap_inv h m" "unat n \<le> 2 ^ 61" "my_malloc_counted me h c n = Some (p, h', c')"
  shows "\<exists>k\<in>pool_ids. pool_number h' p = Some k \<and> (\<forall>j\<in>pool_ids. balance c' j = balance c j + (if j = k then 1 else 0)) \<and>
    (\<forall>q. m q \<noteq> None \<longrightarrow> pool_number h' q = pool_number h q)"
proof -
  let ?k = "size_pow n"
  note sp = size_pow [OF assms(3)]
  have m: "my_malloc me h n = Some (p, h')" using assms(4) by (auto simp: my_malloc_counted_def Let_def split: bind_splits if_splits)
  have e: "my_malloc_counted me h c n = (if 19 \<le> ?k then Some (p, h', incr_metric NUM_MALLOC_NO_POOL c)
    else do { q \<leftarrow> get_pool h (int (?k - 5)); Some (p, h', if q \<noteq> 0 then increment_reuse_counter (int (?k - 5)) c else increment_malloc_counter (int (?k - 5)) c) })"
  proof -
    have "14 \<le> ?k - 5 \<longleftrightarrow> 19 \<le> ?k" by auto
    then show ?thesis unfolding my_malloc_counted_def m Let_def size_pow_def [symmetric] malloc_defs by simp
  qed
  have n8: "8 \<le> (2 :: nat) ^ ?k" using power_increasing [OF sp(1), of "2 :: nat"] by simp
  show ?thesis
  proof (cases "19 \<le> ?k")
    case True
    then have c': "c' = incr_metric NUM_MALLOC_NO_POOL c" and b: "malloc_block me h (2 ^ ?k) NO_POOL = Some (p, h')" using assms(4) m sp(2) by (auto simp: e my_malloc_pow)
    show ?thesis unfolding c' using malloc_block_number [OF assms(1,2) b n8] balance_malloc(4) by (intro bexI [of _ "int NO_POOL"]) (auto simp: NO_POOL_def pool_ids_def)
  next
    case False
    then have i: "?k - 5 < 14" "int (?k - 5) \<in> pool_ids" using sp(1) by (auto simp: pool_ids_def)
    obtain q where q: "get_pool h (int (?k - 5)) = Some q" using m False by (auto simp: my_malloc_pow split: if_splits bind_splits)
    show ?thesis
    proof (cases "q = 0")
      case True
      then have c': "c' = increment_malloc_counter (int (?k - 5)) c" and b: "malloc_block me h (2 ^ ?k) (?k - 5) = Some (p, h')" using assms(4) m False q sp(2) by (auto simp: e my_malloc_pow)
      show ?thesis unfolding c' using malloc_block_number [OF assms(1,2) b n8] balance_malloc(1) [OF _ i(1)] i by (intro bexI [OF _ i(2)]) auto
    next
      case n0: False
      then obtain bs where r: "heap_read h q 8 = Some bs" "p = q" "h' = set_pool h (int (?k - 5)) (le_word bs)" and c': "c' = increment_reuse_counter (int (?k - 5)) c"
        using assms(4) m False q sp(2) by (auto simp: e my_malloc_pow split: bind_splits)
      obtain blk where "heap_blocks h (p - 8) = Some blk" "pooled (?k - 5) blk" by (rule listed_block [OF assms(2) i(1)]) (use q r(2) n0 in auto)
      then have "pool_number h' p = Some (int (?k - 5))" using pool_number_ok(1) [of h' p] r(3) by (simp add: set_pool_def)
      moreover have "pool_number h' x = pool_number h x" for x using r(3) by (intro pool_number_of_block) (simp add: set_pool_def)
      ultimately show ?thesis unfolding c' using balance_malloc(2) [OF _ i(1)] by (intro bexI [OF _ i(2)]) auto
    qed
  qed
qed

lemma free_counts:
  assumes "heap_inv h m" "m p = Some x" "my_free_counted h c p = Some (h', c')"
  shows "\<exists>k\<in>pool_ids. pool_number h p = Some k \<and> (\<forall>j\<in>pool_ids. balance c' j = balance c j - (if j = k then 1 else 0)) \<and>
    (\<forall>q. q \<noteq> p \<longrightarrow> pool_number h' q = pool_number h q)"
proof -
  obtain ps fl where v: "blocks_fine (heap_blocks h)" by (rule heap_invE [OF assms(1)])
  obtain blk where blk: "heap_blocks h (p - 8) = Some blk" using in_use_content [OF assms(1,2)] by auto
  obtain k where k: "pool_number h p = Some k" "my_free h p = Some h'" "c' = (if int num_pools \<le> k then incr_metric NUM_FREE_NO_POOL c else increment_free_counter k c)"
    using assms(3) by (auto simp: my_free_counted_def split: bind_splits)
  have "heap_blocks h' (q - 8) = heap_blocks h (q - 8)" if "q \<noteq> p" for q
    using k(2) that by (auto simp: my_free_def heap_write_def set_pool_def split: bind_splits if_splits)
  then have o: "\<forall>q. q \<noteq> p \<longrightarrow> pool_number h' q = pool_number h q" using pool_number_of_block by blast
  from v blk show ?thesis
  proof (cases rule: block_kind)
    case big
    then have "k = int NO_POOL" using pool_number_ok(2) [OF blk] k(1) by (simp add: NO_POOL_def)
    then show ?thesis using k o balance_malloc(5) by (intro bexI [of _ k]) (auto simp: pool_ids_def malloc_defs)
  next
    case (pool i)
    then have "k = int i" using pool_number_ok(1) [OF blk] k(1) by simp
    then show ?thesis using k o pool(2) balance_malloc(3) [OF _ pool(2)] by (intro bexI [of _ k]) (auto simp: pool_ids_def malloc_defs)
  qed
qed



section \<open>Counting blocks on disk\<close>

text \<open>\<^verbatim>\<open>disk_storage_reserve_block\<close> and \<^verbatim>\<open>disk_storage_release_block\<close> with their counters.\<close>

definition disk_reserve_counted :: "disk_storage \<Rightarrow> counters \<Rightarrow> nat \<Rightarrow> (int \<times> nat \<times> disk_storage \<times> counters) option" where
  "disk_reserve_counted st c n = do {
     (pool_id, _) \<leftarrow> get_pool_id n;
     (res, offset, st') \<leftarrow> disk_storage_reserve_block st n;
     Some (res, offset, st',
       if unat pool_id \<ge> NUM_DISK_POOLS then c
       else if next_free_block st ! unat pool_id \<noteq> 0 then increment_disk_reuse_counter (uint pool_id) c
       else num_disk_reserve_counter (uint pool_id) c) }"

definition disk_release_counted :: "disk_storage \<Rightarrow> counters \<Rightarrow> nat \<Rightarrow> (int \<times> disk_storage \<times> counters) option" where
  "disk_release_counted st c offset = do {
     (header, _) \<leftarrow> must_read (must_lseek st offset) BLOCK_HEADER_SIZE;
     (res, st) \<leftarrow> disk_storage_release_block st offset;
     Some (res, st, if res \<noteq> 0 then c else increment_disk_release_counter (uint (header ! 1)) c) }"

text \<open>Runs of reservations of blocks of at most 64 kB and of releases, from a store and the values of the counters there.\<close>

inductive disk_counted_run :: "disk_storage \<Rightarrow> counters \<Rightarrow> disk_storage \<Rightarrow> counters \<Rightarrow> bool" for st0 c0 where
  start: "disk_counted_run st0 c0 st0 c0"
| reserve: "disk_counted_run st0 c0 st c \<Longrightarrow> 2 \<le> n \<Longrightarrow> n \<le> 2 ^ 16 \<Longrightarrow> disk_reserve_counted st c n = Some (res, offset, st', c') \<Longrightarrow> disk_counted_run st0 c0 st' c'"
| release: "disk_counted_run st0 c0 st c \<Longrightarrow> disk_release_counted st c offset = Some (res, st', c') \<Longrightarrow> disk_counted_run st0 c0 st' c'"

definition reserved_bytes :: "counters \<Rightarrow> i64" where
  "reserved_bytes c = (\<Sum>i<10. c (NUM_DISK_RESERVE + i) * (2 + 2 ^ (i + 7)))"

lemma reserved_bytes_frame: "(\<And>i. i < 10 \<Longrightarrow> c' (NUM_DISK_RESERVE + i) = c (NUM_DISK_RESERVE + i)) \<Longrightarrow> reserved_bytes c' = reserved_bytes c"
  by (simp add: reserved_bytes_def)

lemma reserved_bytes_count:
  assumes "k < 10"
  shows "reserved_bytes (num_disk_reserve_counter (int k) c) = reserved_bytes c + (2 + 2 ^ (k + 7))"
proof -
  have "reserved_bytes (num_disk_reserve_counter (int k) c) = (\<Sum>i<10. c (NUM_DISK_RESERVE + i) * (2 + 2 ^ (i + 7)) + (if i = k then 2 + 2 ^ (i + 7) else 0))"
    unfolding reserved_bytes_def
    by (rule sum.cong) (use assms in \<open>auto simp: num_disk_reserve_counter_def incr_metric_def add_metric_def algebra_simps\<close>)
  also have "\<dots> = reserved_bytes c + (2 + 2 ^ (k + 7))" unfolding sum.distrib reserved_bytes_def using assms by simp
  finally show ?thesis .
qed

lemma reserve_eof:
  assumes "disk_storage_reserve_block st n = Some (res, offset, st')" "get_pool_id n = Some (k, b)" "unat k < NUM_DISK_POOLS"
  shows "eof_offset st' = eof_offset st + (if next_free_block st ! unat k \<noteq> 0 then 0 else 2 + b)"
  using assms by (auto simp: disk_storage_reserve_block_def must_read_def must_lseek_def must_write_def read_file_def Let_def BLOCK_HEADER_SIZE_def split: bind_splits if_splits)

lemma release_eof: "disk_storage_release_block st offset = Some (res, st') \<Longrightarrow> eof_offset st' = eof_offset st"
  by (auto simp: disk_storage_release_block_def must_read_def must_lseek_def read_file_def Let_def split: bind_splits if_splits)

text \<open>
  The published numbers of reserved blocks account for the file: in every run of reservations and releases, the file grows by the size of each new block of a pool times
  the growth of its counter, up to the wrap-around of the counters. (The counter of pool 10 is for all larger pools together.)
\<close>

theorem disk_counters_account:
  assumes "disk_counted_run st0 c0 st c"
  shows "of_nat (eof_offset st) - reserved_bytes c = of_nat (eof_offset st0) - reserved_bytes c0"
  using assms
proof (induction rule: disk_counted_run.induct)
  case (reserve st c n res offset st' c')
  obtain k where k: "get_pool_id n = Some (k, 2 ^ (unat k + 7))" "unat k + 7 \<le> 16" using get_pool_id_ok [of n 16] reserve.hyps(2,3) by auto
  have l: "unat k < NUM_DISK_POOLS" "unat k < 10" using k(2) by (simp_all add: NUM_DISK_POOLS_def)
  have r: "disk_storage_reserve_block st n = Some (res, offset, st')"
    and c': "c' = (if next_free_block st ! unat k \<noteq> 0 then increment_disk_reuse_counter (int (unat k)) c else num_disk_reserve_counter (int (unat k)) c)"
    using reserve.hyps(4) k(1) l by (auto simp: disk_reserve_counted_def split: bind_splits)
  have "reserved_bytes (increment_disk_reuse_counter i c) = reserved_bytes c" for i
    by (rule reserved_bytes_frame) (auto simp: increment_disk_reuse_counter_def incr_metric_def add_metric_def counter_defs)
  then show ?case using reserve.IH reserve_eof [OF r k(1) l(1)] reserved_bytes_count [OF l(2), of c] unfolding c' by auto
next
  case (release st c offset res st' c')
  have r: "disk_storage_release_block st offset = Some (res, st')" and c': "\<exists>i. c' = (if res \<noteq> 0 then c else increment_disk_release_counter i c)"
    using release.hyps(2) by (force simp: disk_release_counted_def split: bind_splits)+
  have "reserved_bytes (increment_disk_release_counter i c) = reserved_bytes c" for i
    by (rule reserved_bytes_frame) (auto simp: increment_disk_release_counter_def incr_metric_def add_metric_def counter_defs)
  then show ?case using release.IH release_eof [OF r] c' by auto
qed simp

end
