(* ===== verification/Log_Properties.thy ===== *)
theory Log_Properties
  imports Log
begin

text \<open>
  What the log prints: a line whose strings are short enough is exactly its fields and its message. What is lost: characters
  with short escapes. And what happens when a line fills the buffer.
\<close>

section \<open>Writing\<close>

lemma mem_write_ok:
  assumes "pos + length bs \<le> length m"
  shows "\<exists>m'. mem_write m pos bs = Some m' \<and> length m' = length m \<and> take (pos + length bs) m' = take pos m @ bs"
  using assms by (intro exI [of _ "take pos m @ bs @ drop (pos + length bs) m"]) (simp add: mem_write_def)

text \<open>What \<^verbatim>\<open>escape_binary\<close> leaves of a character: nothing if it has a short escape, since the position does not move.\<close>

definition esc_char :: "bool \<Rightarrow> byte \<Rightarrow> byte list" where
  "esc_char dq c = (if short_escape dq c \<noteq> None then [] else if 32 \<le> c \<and> c \<le> 126 then [c] else [92, 120] @ hex2 c)"

definition esc :: "bool \<Rightarrow> byte list \<Rightarrow> byte list" where
  "esc dq s = concat (map (esc_char dq) s)"

lemma esc_simps [simp]: "esc dq [] = []" "esc dq (c # s) = esc_char dq c @ esc dq s"
  by (simp_all add: esc_def)

lemma length_esc_char: "length (esc_char dq c) \<le> 4"
  by (simp add: esc_char_def hex2_def)

lemma length_esc: "length (esc dq s) \<le> 4 * length s"
proof (induction s)
  case (Cons c s)
  then show ?case using length_esc_char [of dq c] by simp
qed simp

lemma take_prefix: "take (a + b) m = x @ y \<Longrightarrow> length x = a \<Longrightarrow> a + b \<le> length m \<Longrightarrow> take a m = x"
  by (metis append_eq_conv_conj le_add1 min.absorb1 take_take)

lemma escape_fits:
  assumes "int (length (esc dq s)) + 1 < bsz" "int pos + bsz \<le> int (length m)"
  shows "\<exists>m'. escape_binary m pos bsz (s @ x) (length s) dq = Some (LOG_OK, pos + length (esc dq s), m') \<and> length m' = length m \<and>
    take (pos + length (esc dq s)) m' = take pos m @ esc dq s"
  using assms
proof (induction s arbitrary: m pos bsz)
  case Nil
  then show ?case by simp
next
  case (Cons c s)
  show ?case
  proof (cases "short_escape dq c")
    case (Some e)
    then have e: "esc_char dq c = []" by (simp add: esc_char_def)
    obtain m1 where w: "mem_write m pos [92, e] = Some m1" "length m1 = length m" "take (pos + 2) m1 = take pos m @ [92, e]"
      using mem_write_ok [of pos "[92, e]" m] Cons.prems by auto
    have "take pos m1 = take pos m" by (rule take_prefix [OF w(3)]) (use Cons.prems w(2) in simp_all)
    moreover obtain m' where "escape_binary m1 pos bsz (s @ x) (length s) dq = Some (LOG_OK, pos + length (esc dq s), m')" "length m' = length m1"
      "take (pos + length (esc dq s)) m' = take pos m1 @ esc dq s" using Cons.IH [of bsz pos m1] Cons.prems e w(2) by auto
    ultimately show ?thesis using Some e w Cons.prems by simp
  next
    case None
    show ?thesis
    proof (cases "32 \<le> c \<and> c \<le> 126")
      case True
      then have e: "esc_char dq c = [c]" using None by (simp add: esc_char_def)
      obtain m1 where w: "mem_write m pos [c] = Some m1" "length m1 = length m" "take (pos + 1) m1 = take pos m @ [c]"
        using mem_write_ok [of pos "[c]" m] Cons.prems by auto
      obtain m' where "escape_binary m1 (pos + 1) (bsz - 1) (s @ x) (length s) dq = Some (LOG_OK, pos + 1 + length (esc dq s), m')" "length m' = length m1"
        "take (pos + 1 + length (esc dq s)) m' = take (pos + 1) m1 @ esc dq s" using Cons.IH [of "bsz - 1" "pos + 1" m1] Cons.prems e w(2) by auto
      then show ?thesis using None True e w Cons.prems by simp
    next
      case False
      then have e: "esc_char dq c = [92, 120] @ hex2 c" using None by (simp add: esc_char_def)
      have l: "length (hex2 c) = 2" by (simp add: hex2_def)
      obtain m1 where w: "mem_write m pos ([92, 120] @ hex2 c @ [0]) = Some m1" "length m1 = length m" "take (pos + 5) m1 = (take pos m @ [92, 120] @ hex2 c) @ [0]"
        using mem_write_ok [of pos "[92, 120] @ hex2 c @ [0]" m] Cons.prems e l by auto
      have "take (pos + 4 + 1) m1 = (take pos m @ [92, 120] @ hex2 c) @ [0]" using w(3) by (simp add: add.commute)
      then have t: "take (pos + 4) m1 = take pos m @ [92, 120] @ hex2 c" by (rule take_prefix) (use Cons.prems e l w(2) in simp_all)
      obtain m' where m': "escape_binary m1 (pos + 4) (bsz - 4) (s @ x) (length s) dq = Some (LOG_OK, pos + 4 + length (esc dq s), m')" "length m' = length m1"
        "take (pos + 4 + length (esc dq s)) m' = take (pos + 4) m1 @ esc dq s" using Cons.IH [of "bsz - 4" "pos + 4" m1] Cons.prems e l w(2) by auto
      have s: "escape_binary m pos bsz ((c # s) @ x) (length (c # s)) dq = escape_binary m1 (pos + 4) (bsz - 4) (s @ x) (length s) dq"
        using None False w(1) Cons.prems e l by auto
      have p: "pos + length (esc dq (c # s)) = pos + 4 + length (esc dq s)" using e l by simp
      have "take (pos + 4) m1 @ esc dq s = take pos m @ esc dq (c # s)" using e t by simp
      then show ?thesis unfolding s p using m' w(2) by auto
    qed
  qed
qed


text \<open>The text of a value: in quotes if it has a space or a quote before its end.\<close>

definition quoted :: "byte list \<Rightarrow> bool" where
  "quoted s \<longleftrightarrow> (\<exists>c\<in>set (takeWhile (\<lambda>c. c \<noteq> 0) s). c = 32 \<or> c = 34)"

definition value_text :: "byte list \<Rightarrow> byte list" where
  "value_text s = (if quoted s then 34 # esc True s @ [34] else esc False s)"

lemma needs_quotes_eq: "needs_quotes (s @ x) (length s) = Some (quoted s)"
  by (induction s) (auto simp: quoted_def)

lemma length_value_text: "length (value_text s) \<le> 4 * length s + 2"
  using length_esc [of True s] length_esc [of False s] by (simp add: value_text_def)

lemma append_fits:
  assumes "4 * int (length s) + 3 < bsz" "int pos + bsz \<le> int (length m)"
  shows "\<exists>m'. append_quoted_string_n m pos bsz (s @ x) (length s) mv = Some (0, Some (length (value_text s)), m') \<and> length m' = length m \<and>
    take (pos + length (value_text s)) m' = take pos m @ value_text s"
proof (cases "quoted s")
  case False
  have l: "int (length (esc False s)) + 1 < bsz" using length_esc [of False s] assms(1) by linarith
  from escape_fits [OF l assms(2), of x] obtain m' where
    m: "escape_binary m pos bsz (s @ x) (length s) False = Some (LOG_OK, pos + length (esc False s), m')" "length m' = length m"
    "take (pos + length (esc False s)) m' = take pos m @ esc False s" by blast
  have "\<not> bsz \<le> 0" "\<not> bsz < int (length s)" using assms(1) by linarith+
  then show ?thesis using False m needs_quotes_eq by (simp add: append_quoted_string_n_def value_text_def LOG_OK_def Let_def)
next
  case True
  obtain m1 where w: "mem_write m pos [34] = Some m1" "length m1 = length m" "take (pos + 1) m1 = take pos m @ [34]"
    using mem_write_ok [of pos "[34]" m] assms by auto
  have l: "int (length (esc True s)) + 1 < bsz - 1" "int (pos + 1) + (bsz - 1) \<le> int (length m1)" using length_esc [of True s] assms w(2) by linarith+
  from escape_fits [OF l, of x] obtain m2 where
    m: "escape_binary m1 (pos + 1) (bsz - 1) (s @ x) (length s) True = Some (LOG_OK, pos + 1 + length (esc True s), m2)" "length m2 = length m1"
    "take (pos + 1 + length (esc True s)) m2 = take (pos + 1) m1 @ esc True s" by blast
  obtain m3 where w3: "mem_write m2 (pos + 1 + length (esc True s)) [34] = Some m3" "length m3 = length m2"
    "take (pos + 1 + length (esc True s) + 1) m3 = take (pos + 1 + length (esc True s)) m2 @ [34]"
    using mem_write_ok [of "pos + 1 + length (esc True s)" "[34]" m2] l m(2) by auto
  have "\<not> bsz \<le> 0" "int (length (esc True s)) \<le> bsz - 1" "bsz - 1 - int (length (esc True s)) \<noteq> 0" using l by linarith+
  then have "append_quoted_string_n m pos bsz (s @ x) (length s) mv = Some (0, Some (length (value_text s)), m3)"
    using True w(1) m(1) w3(1) needs_quotes_eq by (simp add: append_quoted_string_n_def value_text_def log_defs Let_def)
  moreover have "take (pos + length (value_text s)) m3 = take pos m @ value_text s" using w3(3) m(3) w(3) True by (simp add: value_text_def)
  ultimately show ?thesis using w(2) m(2) w3(2) by simp
qed

section \<open>The line so far\<close>

definition holds :: "nat \<Rightarrow> byte list \<Rightarrow> mem \<times> nat \<Rightarrow> bool" where
  "holds bs t st \<longleftrightarrow> length (fst st) = bs + 2 \<and> snd st = length t \<and> take (length t) (fst st) = t \<and> bs < 2 ^ 31"

lemma room_eq: "i \<le> bs \<Longrightarrow> bs < 2 ^ 31 \<Longrightarrow> room bs i = bs - i"
proof -
  assume a: "i \<le> bs" "bs < 2 ^ 31"
  then have "bs + 2 ^ 64 - i = (bs - i) + 2 ^ 64" by simp
  then have "room bs i = (bs - i) mod 2 ^ 64" unfolding room_def sz_def by (simp only: mod_add_self2)
  moreover have "bs - i < 2 ^ 64" using a(2) by (simp add: less_imp_diff_less)
  ultimately show ?thesis by simp
qed

lemma holds_size:
  assumes "holds bs t (buf, i)" "length t \<le> bs"
  shows "room bs i = bs - length t" "size_to_int (room bs i) = int (bs - length t)" "i = length t" "length buf = bs + 2" "take (length t) buf = t"
  using assms by (auto simp: holds_def room_eq size_to_int_small)

lemma holds_write:
  assumes "holds bs t (buf, i)" "length t + length x \<le> bs + 2"
  shows "\<exists>buf'. mem_write buf i x = Some buf' \<and> holds bs (t @ x) (buf', i + length x)"
  using mem_write_ok [of i x buf] assms by (auto simp: holds_def)

lemma holds_append:
  assumes "holds bs t (buf, i)" "length t + 4 * length s + 3 < bs"
  shows "\<exists>buf'. append_quoted_string_n buf i (size_to_int (room bs i)) (s @ x) (length s) mv = Some (0, Some (length (value_text s)), buf') \<and>
    holds bs (t @ value_text s) (buf', i + length (value_text s))"
proof -
  note h = holds_size [OF assms(1)]
  have "4 * int (length s) + 3 < int (bs - length t)" "int i + int (bs - length t) \<le> int (length buf)" using assms(2) h by linarith+
  from append_fits [OF this, of x mv] show ?thesis using h assms by (auto simp: holds_def)
qed

lemma holds_append_string:
  assumes "holds bs t (buf, i)" "length t + 4 * length s + 3 < bs" "0 \<notin> set s"
  shows "\<exists>buf'. append_quoted_string buf i (size_to_int (room bs i)) (s @ [0]) mv = Some (0, Some (length (value_text s)), buf') \<and>
    holds bs (t @ value_text s) (buf', i + length (value_text s))"
  using holds_append [OF assms(1,2), of "[0]" mv] strlen_app [OF assms(3), of "[]"] by (simp add: append_quoted_string_def)

lemma holds_print:
  assumes "holds bs t (buf, i)" "length t + length x < bs" "0 \<notin> set x"
  shows "\<exists>st. print_at bs x (buf, i) = Some st \<and> holds bs (t @ x) st"
proof -
  note h = holds_size [OF assms(1)]
  have r: "room bs i = bs - length t" using h(1) assms(2) by simp
  have x: "take (room bs i - 1) x = x" using r assms(2) by simp
  have nz: "room bs i \<noteq> 0" using r assms(2) by simp
  have "\<exists>buf'. mem_write buf i (x @ [0]) = Some buf' \<and> holds bs (t @ x @ [0]) (buf', i + length (x @ [0]))" by (rule holds_write) (use assms in simp_all)
  then obtain buf' where b: "mem_write buf i (x @ [0]) = Some buf'" "holds bs (t @ x @ [0]) (buf', i + length (x @ [0]))" by blast
  have i: "i = length t" using assms(1) by (simp add: holds_def)
  have tk: "take (length (t @ x @ [0])) buf' = t @ x @ [0]" using b(2) unfolding holds_def by simp
  have "buf' = (t @ x @ [0]) @ drop (length (t @ x @ [0])) buf'" using tk by (metis append_take_drop_id)
  then obtain y where y: "buf' = t @ x @ 0 # y" by simp
  have "drop i buf' = x @ 0 # y" using y i by simp
  then have "c_strlen (drop i buf') = Some (length x)" using strlen_app [OF assms(3)] by simp
  then have "print_at bs x (buf, i) = Some (buf', i + length x)" using b(1) nz x by (simp add: print_at_def snprintf_def)
  moreover have "holds bs (t @ x) (buf', i + length x)" using b(2) y i by (simp add: holds_def)
  ultimately show ?thesis by blast
qed

lemma holds_key:
  assumes "holds bs t st" "length t + length key + 1 < bs" "key \<noteq> bytes ''ctx''"
  shows "\<exists>st'. put_key bs key st = Some st' \<and> holds bs (t @ key @ [61]) st'"
proof -
  obtain buf i where st: "st = (buf, i)" by (cases st)
  have h: "holds bs t (buf, i)" using assms(1) st by simp
  have r: "room bs i > length key + 1" using holds_size(1) [OF h] assms(2) by simp
  obtain b1 where b1: "mem_write buf i key = Some b1" "holds bs (t @ key) (b1, i + length key)" using holds_write [OF h, of key] assms(2) by auto
  obtain b2 where b2: "mem_write b1 (i + length key) [61] = Some b2" "holds bs ((t @ key) @ [61]) (b2, i + length key + length [61 :: byte])"
    using holds_write [OF b1(2), of "[61]"] assms(2) by auto
  show ?thesis using st r assms(3) b1(1) b2 by (simp add: put_key_def)
qed

lemma holds_space:
  assumes "holds bs t st" "length t + 1 < bs"
  shows "\<exists>st'. put_space bs st = Some st' \<and> holds bs (t @ [32]) st'"
proof -
  obtain buf i where st: "st = (buf, i)" by (cases st)
  have h: "holds bs t (buf, i)" using assms(1) st by simp
  have r: "room bs i > 1" using holds_size(1) [OF h] assms(2) by simp
  show ?thesis using st r holds_write [OF h, of "[32]"] assms(2) by (auto simp: put_space_def)
qed


section \<open>Fields\<close>

text \<open>A field of a line, as a caller writes it: what stands in the format, the arguments, and what is printed.\<close>

datatype log_value = V_s "byte list" | V_n "byte list" | V_d u32 | V_f u64 | V_p u64

fun value_code :: "log_value \<Rightarrow> byte list" where
  "value_code (V_s s) = bytes ''s''"
| "value_code (V_n s) = bytes ''*s''"
| "value_code (V_d x) = bytes ''d''"
| "value_code (V_f x) = bytes ''f''"
| "value_code (V_p x) = bytes ''p''"

fun value_args :: "log_value \<Rightarrow> log_arg list" where
  "value_args (V_s s) = [Arg_s (Some (s @ [0]))]"
| "value_args (V_n s) = [Arg_d (of_nat (length s)), Arg_s (Some s)]"
| "value_args (V_d x) = [Arg_d x]"
| "value_args (V_f x) = [Arg_f x]"
| "value_args (V_p x) = [Arg_p x]"

fun shown :: "log_env \<Rightarrow> log_value \<Rightarrow> byte list" where
  "shown le (V_s s) = value_text s"
| "shown le (V_n s) = value_text s"
| "shown le (V_d x) = fmt_d x"
| "shown le (V_f x) = fmt_f le x"
| "shown le (V_p x) = fmt_p le x"

text \<open>The room that a value may need, and the strings that are allowed.\<close>

fun value_need :: "log_env \<Rightarrow> log_value \<Rightarrow> nat" where
  "value_need le (V_s s) = 4 * length s + 3"
| "value_need le (V_n s) = 4 * length s + 3"
| "value_need le v = length (shown le v)"

fun value_ok :: "log_env \<Rightarrow> log_value \<Rightarrow> bool" where
  "value_ok le (V_s s) \<longleftrightarrow> 0 \<notin> set s"
| "value_ok le (V_n s) \<longleftrightarrow> True"
| "value_ok le v \<longleftrightarrow> 0 \<notin> set (shown le v)"

lemma value_code_ok: "value_code v \<noteq> [] \<and> 32 \<notin> set (value_code v)"
  by (cases v) (simp_all add: bytes_def)

lemma shown_need: "length (shown le v) \<le> value_need le v"
proof (cases v)
  case (V_s s)
  then show ?thesis using length_value_text [of s] by simp
next
  case (V_n s)
  then show ?thesis using length_value_text [of s] by simp
qed simp_all

lemma show_value:
  assumes "holds bs t st" "length t + value_need le v < bs" "value_ok le v"
  shows "\<exists>st' mv'. slog_value le bs key (value_code v) (value_args v @ args) (st, mv) = Some (Inr (st', mv'), args) \<and> holds bs (t @ shown le v) st'"
proof -
  obtain buf i where st: "st = (buf, i)" by (cases st)
  have h: "holds bs t (buf, i)" using assms(1) st by simp
  show ?thesis
  proof (cases v)
    case (V_s s)
    then show ?thesis using holds_append_string [OF h, of s mv] assms(2,3) st by (auto simp: slog_value_def appended_def log_defs bytes_def)
  next
    case (V_n s)
    have "length s < 2 ^ 31" using V_n assms(2) h by (simp add: holds_def)
    then have "sint (of_nat (length s) :: u32) = int (length s)" by (simp add: signed_of_nat signed_take_bit_int_eq_self)
    then show ?thesis using holds_append [OF h, of s "[]" "Some 0"] V_n assms(2) st by (auto simp: slog_value_def appended_def log_defs bytes_def)
  next
    case (V_d x)
    then show ?thesis using holds_print [OF h, of "fmt_d x"] assms(2,3) st by (auto simp: slog_value_def bytes_def)
  next
    case (V_f x)
    then show ?thesis using holds_print [OF h, of "fmt_f le x"] assms(2,3) st by (auto simp: slog_value_def bytes_def)
  next
    case (V_p x)
    then show ?thesis using holds_print [OF h, of "fmt_p le x"] assms(2,3) st by (auto simp: slog_value_def bytes_def)
  qed
qed

text \<open>The names of fields and the messages that the tokenizer takes as such.\<close>

definition key_ok :: "byte list \<Rightarrow> bool" where
  "key_ok key \<longleftrightarrow> key \<noteq> [] \<and> key \<noteq> bytes ''ctx'' \<and> set key \<inter> {9, 32, 61} = {}"

definition message_ok :: "byte list \<Rightarrow> bool" where
  "message_ok msg \<longleftrightarrow> msg \<noteq> [] \<and> hd msg \<noteq> 32 \<and> 61 \<notin> set msg \<and> 0 \<notin> set msg"

lemma tokenize_field:
  assumes "key_ok key" "set sp \<subseteq> {32}"
  shows "tokenize_key (sp @ key @ 61 # r) = Inr (key, 61 # r)"
proof -
  have k: "\<forall>c\<in>set key. c \<noteq> 32 \<and> c \<noteq> 61" "key \<noteq> []" "hd key \<noteq> 32" "hd key \<noteq> 9" using assms(1) hd_in_set by (fastforce simp: key_ok_def)+
  have "dropWhile (\<lambda>c. c = 32 \<or> c = 9) (sp @ key @ 61 # r) = dropWhile (\<lambda>c. c = 32 \<or> c = 9) (key @ 61 # r)"
    using assms(2) by (intro dropWhile_append2) auto
  also have "\<dots> = key @ 61 # r" using k(2-4) by (cases key) auto
  finally have s: "dropWhile (\<lambda>c. c = 32 \<or> c = 9) (sp @ key @ 61 # r) = key @ 61 # r" .
  have d: "dropWhile (\<lambda>c. c \<noteq> 32 \<and> c \<noteq> 61) (key @ 61 # r) = 61 # r" "takeWhile (\<lambda>c. c \<noteq> 32 \<and> c \<noteq> 61) (key @ 61 # r) = key"
    using k(1) by (simp_all add: dropWhile_append2 takeWhile_append2)
  show ?thesis unfolding tokenize_key_def Let_def s d using k(2) by simp
qed

lemma tokenize_code: "tokenize_value_fmt (value_code v @ 32 # r) = Inr (value_code v, 32 # r)"
proof -
  have a: "\<forall>c\<in>set (value_code v). c \<noteq> 32" "value_code v \<noteq> []" using value_code_ok [of v] by auto
  then have "takeWhile (\<lambda>c. c \<noteq> 32) (value_code v @ 32 # r) = value_code v" "dropWhile (\<lambda>c. c \<noteq> 32) (value_code v @ 32 # r) = 32 # r"
    by (simp_all add: takeWhile_append2 dropWhile_append2)
  then show ?thesis using a(2) by (simp add: tokenize_value_fmt_def)
qed

lemma tokenize_message:
  assumes "61 \<notin> set p"
  shows "\<exists>e. tokenize_key p = Inl e"
proof -
  define s where "s = dropWhile (\<lambda>c. c = 32 \<or> c = 9) p"
  have n: "61 \<notin> set s" using assms set_dropWhileD unfolding s_def by fastforce
  show ?thesis
  proof (cases "dropWhile (\<lambda>c. c \<noteq> 32 \<and> c \<noteq> 61) s")
    case Nil
    then show ?thesis unfolding tokenize_key_def Let_def s_def [symmetric] Nil by simp
  next
    case (Cons c r)
    have "c \<in> set (dropWhile (\<lambda>c. c \<noteq> 32 \<and> c \<noteq> 61) s)" unfolding Cons by simp
    then have "c \<in> set s" by (rule set_dropWhileD)
    moreover have "c = 32 \<or> c = 61" using hd_dropWhile [of "\<lambda>c. c \<noteq> 32 \<and> c \<noteq> 61" s] unfolding Cons by auto
    ultimately have "c = 32" using n by auto
    then show ?thesis unfolding tokenize_key_def Let_def s_def [symmetric] Cons by simp
  qed
qed

section \<open>Whole lines\<close>

type_synonym log_field = "byte list \<times> log_value"

definition field_fmt :: "log_field \<Rightarrow> byte list" where
  "field_fmt f = fst f @ 61 # value_code (snd f) @ [32]"

definition field_text :: "log_env \<Rightarrow> log_field \<Rightarrow> byte list" where
  "field_text le f = fst f @ 61 # shown le (snd f) @ [32]"

definition field_need :: "log_env \<Rightarrow> log_field \<Rightarrow> nat" where
  "field_need le f = length (fst f) + value_need le (snd f) + 2"

lemma field_text_need: "length (field_text le f) \<le> field_need le f"
  using shown_need [of le "snd f"] by (simp add: field_text_def field_need_def)

lemma show_fields:
  assumes "holds bs t st" "length t + sum_list (map (field_need le) fs) < bs" "\<forall>f\<in>set fs. key_ok (fst f) \<and> value_ok le (snd f)"
    and "set sp \<subseteq> {32}" "61 \<notin> set msg"
  shows "\<exists>sp' st' mv'. slog_fields le bs (sp @ concat (map field_fmt fs) @ msg) (concat (map (value_args \<circ> snd) fs) @ args) (st, mv) = Some (Inr (sp' @ msg, (st', mv'))) \<and>
    set sp' \<subseteq> {32} \<and> holds bs (t @ concat (map (field_text le) fs)) st'"
  using assms
proof (induction fs arbitrary: t st mv sp)
  case Nil
  have "61 \<notin> set (sp @ msg)" using Nil.prems(4,5) by auto
  then obtain e where "tokenize_key (sp @ msg) = Inl e" using tokenize_message by blast
  then show ?case using Nil.prems(1,4) by (auto simp: slog_fields.simps [of le bs "sp @ msg"])
next
  case (Cons f fs)
  obtain key v where f: "f = (key, v)" by (cases f)
  let ?r = "concat (map field_fmt fs) @ msg"
  have k: "key_ok key" "value_ok le v" "key \<noteq> bytes ''ctx''" using Cons.prems(3) f by (auto simp: key_ok_def)
  have n: "length t + length key + value_need le v + 2 + sum_list (map (field_need le) fs) < bs" using Cons.prems(2) f field_need_def [of le f] by simp
  obtain s1 where s1: "put_key bs key st = Some s1" "holds bs (t @ key @ [61]) s1" using holds_key [OF Cons.prems(1) _ k(3)] n by auto
  obtain s2 m2 where s2: "slog_value le bs key (value_code v) (value_args v @ concat (map (value_args \<circ> snd) fs) @ args) (s1, mv) = Some (Inr (s2, m2), concat (map (value_args \<circ> snd) fs) @ args)"
    "holds bs ((t @ key @ [61]) @ shown le v) s2" using show_value [OF s1(2) _ k(2)] n by fastforce
  obtain s3 where s3: "put_space bs s2 = Some s3" "holds bs (((t @ key @ [61]) @ shown le v) @ [32]) s3" using holds_space [OF s2(2)] n shown_need [of le v] by auto
  have t3: "((t @ key @ [61]) @ shown le v) @ [32] = t @ field_text le f" using f by (simp add: field_text_def)
  have "\<exists>sp' st' mv'. slog_fields le bs ([32] @ ?r) (concat (map (value_args \<circ> snd) fs) @ args) (s3, m2) = Some (Inr (sp' @ msg, (st', mv'))) \<and>
    set sp' \<subseteq> {32} \<and> holds bs ((t @ field_text le f) @ concat (map (field_text le) fs)) st'"
  proof (rule Cons.IH)
    show "holds bs (t @ field_text le f) s3" using s3(2) t3 by simp
    have "field_need le f = length key + value_need le v + 2" using f by (simp add: field_need_def)
    then show "length (t @ field_text le f) + sum_list (map (field_need le) fs) < bs" using n field_text_need [of le f] by simp
  qed (use Cons.prems(3,5) in simp_all)
  then obtain sp' st' mv' where ih: "slog_fields le bs (32 # ?r) (concat (map (value_args \<circ> snd) fs) @ args) (s3, m2) = Some (Inr (sp' @ msg, (st', mv')))"
    "set sp' \<subseteq> {32}" "holds bs ((t @ field_text le f) @ concat (map (field_text le) fs)) st'" by auto
  have p: "sp @ concat (map field_fmt (f # fs)) @ msg = sp @ key @ 61 # value_code v @ 32 # ?r" using f by (simp add: field_fmt_def)
  have "slog_fields le bs (sp @ concat (map field_fmt (f # fs)) @ msg) (concat (map (value_args \<circ> snd) (f # fs)) @ args) (st, mv) = Some (Inr (sp' @ msg, (st', mv')))"
    unfolding p slog_fields.simps [of le bs "sp @ key @ 61 # value_code v @ 32 # ?r"] tokenize_field [OF k(1) Cons.prems(4)]
    using tokenize_code [of v ?r] s1(1) s2(1) s3(1) ih(1) f by simp
  moreover have "(t @ field_text le f) @ concat (map (field_text le) fs) = t @ concat (map (field_text le) (f # fs))" by simp
  ultimately show ?case using ih(2,3) by metis
qed

lemma show_message:
  assumes "holds bs t st" "length t + 4 * length msg + 24 < bs" "message_ok msg" "set sp \<subseteq> {32}"
  shows "\<exists>st'. slog_message bs (sp @ msg) (st, mv) = Some (Inr st') \<and> holds bs (t @ bytes ''msg='' @ value_text msg) st'"
proof -
  obtain buf i where st: "st = (buf, i)" by (cases st)
  have h: "holds bs t (buf, i)" using assms(1) st by simp
  have m: "0 \<notin> set msg" "msg \<noteq> []" "hd msg \<noteq> 32" using assms(3) by (simp_all add: message_ok_def)
  have "dropWhile (\<lambda>c. c = 32) (sp @ msg) = dropWhile (\<lambda>c. c = 32) msg" using assms(4) by (intro dropWhile_append2) auto
  also have "\<dots> = msg" using m(2,3) by (cases msg) auto
  finally have d: "dropWhile (\<lambda>c. c = 32) (sp @ msg) = msg" .
  have v: "value_text (bytes ''msg='') = bytes ''msg=''" "length (bytes ''msg='') = 4" "0 \<notin> set (bytes ''msg='')"
    by (simp_all add: value_text_def quoted_def bytes_def esc_char_def short_escape_def)
  obtain b1 where b1: "append_quoted_string buf i (size_to_int (room bs i)) (bytes ''msg='' @ [0]) mv = Some (0, Some 4, b1)" "holds bs (t @ bytes ''msg='') (b1, i + 4)"
    using holds_append_string [OF h _ v(3), of mv] assms(2) v(1,2) by auto
  obtain b2 where b2: "append_quoted_string b1 (i + 4) (size_to_int (room bs (i + 4))) (msg @ [0]) (Some 4) = Some (0, Some (length (value_text msg)), b2)"
    "holds bs ((t @ bytes ''msg='') @ value_text msg) (b2, i + 4 + length (value_text msg))"
    using holds_append_string [OF b1(2) _ m(1), of "Some 4"] assms(2) v(2) by auto
  show ?thesis using st d m(2) b1(1) b2 by (simp add: slog_message_def Let_def log_defs)
qed

definition line_text :: "log_env \<Rightarrow> log_field list \<Rightarrow> byte list \<Rightarrow> byte list" where
  "line_text le fs msg = concat (map (field_text le) fs) @ bytes ''msg='' @ value_text msg"

lemma text_length: "length (concat (map (field_text le) fs)) \<le> sum_list (map (field_need le) fs)"
proof (induction fs)
  case (Cons f fs)
  then show ?case using field_text_need [of le f] by simp
qed simp

section \<open>Properties\<close>


definition example_log :: log_env where
  "example_log = \<lparr>fmt_f = (\<lambda>_. bytes ''0.0''), fmt_p = (\<lambda>_. bytes ''0x0''), log_junk = replicate LOG_BUF_SIZE 0, log_pid = 7, log_file = bytes ''x.c'', log_line = 1\<rparr>"


text \<open>
  Characters with short escapes are lost: the text of a value is the same without its backslashes, tabs and newlines (and
  without its quotes if it is in quotes).
\<close>

theorem escape_loses_characters:
  assumes "short_escape dq c \<noteq> None" "int (length (esc dq (a @ b))) + 1 < bsz" "int pos + bsz \<le> int (length m)"
  shows "\<exists>m1 m2. escape_binary m pos bsz (a @ c # b) (length (a @ c # b)) dq = Some (LOG_OK, pos + length (esc dq (a @ b)), m1) \<and>
    escape_binary m pos bsz (a @ b) (length (a @ b)) dq = Some (LOG_OK, pos + length (esc dq (a @ b)), m2) \<and>
    take (pos + length (esc dq (a @ b))) m1 = take (pos + length (esc dq (a @ b))) m2"
proof -
  have e: "esc dq (a @ c # b) = esc dq (a @ b)" using assms(1) by (simp add: esc_def esc_char_def)
  show ?thesis using escape_fits [of dq "a @ c # b" bsz pos m "[]"] escape_fits [of dq "a @ b" bsz pos m "[]"] assms(2,3) unfolding e by fastforce
qed

section \<open>Lines that do not fit\<close>

definition plain :: "byte list \<Rightarrow> bool" where
  "plain s \<longleftrightarrow> (\<forall>c\<in>set s. 32 < c \<and> c \<le> 126 \<and> c \<noteq> 34 \<and> c \<noteq> 92)"

lemma plain_char: "32 < c \<and> c \<le> 126 \<and> c \<noteq> 34 \<and> c \<noteq> 92 \<Longrightarrow> short_escape dq c = None \<and> 32 \<le> c \<and> c \<noteq> 0"
  by (auto simp: short_escape_def)

lemma plain_escape:
  assumes "plain s" "length s < bsz" "pos + length s \<le> length m"
  shows "\<exists>m'. escape_binary m pos (int bsz) (s @ x) (length s) dq = Some (LOG_OK, pos + length s, m') \<and> length m' = length m"
  using assms
proof (induction s arbitrary: m pos bsz)
  case (Cons c s)
  have c: "short_escape dq c = None \<and> 32 \<le> c \<and> c \<noteq> 0" "c \<le> 126" using Cons.prems(1) plain_char by (simp_all add: plain_def)
  obtain m1 where w: "mem_write m pos [c] = Some m1" "length m1 = length m" using mem_write_ok [of pos "[c]" m] Cons.prems(3) by auto
  obtain b where b: "bsz = Suc b" using Cons.prems(2) by (cases bsz) auto
  have "\<exists>m'. escape_binary m1 (pos + 1) (int b) (s @ x) (length s) dq = Some (LOG_OK, pos + 1 + length s, m') \<and> length m' = length m1"
    by (rule Cons.IH) (use Cons.prems b w(2) in \<open>auto simp: plain_def\<close>)
  then show ?case using c w Cons.prems(2) b by auto
qed simp

text \<open>When the text is longer than the rest of the buffer, the buffer is filled exactly.\<close>

lemma plain_fills:
  assumes "plain s" "bsz \<le> length s" "0 < bsz" "pos + bsz \<le> length m"
  shows "\<exists>m'. escape_binary m pos (int bsz) (s @ x) bsz dq = Some (LOG_ERROR_OUT_OF_SPACE, pos + bsz, m') \<and> length m' = length m"
  using assms
proof (induction s arbitrary: m pos bsz)
  case (Cons c s)
  have c: "short_escape dq c = None \<and> 32 \<le> c \<and> c \<noteq> 0" "c \<le> 126" using Cons.prems(1) plain_char by (simp_all add: plain_def)
  obtain m1 where w: "mem_write m pos [c] = Some m1" "length m1 = length m" using mem_write_ok [of pos "[c]" m] Cons.prems(3,4) by auto
  obtain b where b: "bsz = Suc b" using Cons.prems(3) by (cases bsz) auto
  show ?case
  proof (cases "b = 0")
    case True
    then show ?thesis using c w b by auto
  next
    case False
    have "\<exists>m'. escape_binary m1 (pos + 1) (int b) (s @ x) b dq = Some (LOG_ERROR_OUT_OF_SPACE, pos + 1 + b, m') \<and> length m' = length m1"
      by (rule Cons.IH) (use Cons.prems b w(2) False in \<open>auto simp: plain_def\<close>)
    then show ?thesis using c w b False by auto
  qed
qed simp

lemma plain_not_quoted: "plain s \<Longrightarrow> \<not> quoted s \<and> 0 \<notin> set s"
  using set_takeWhileD by (fastforce simp: plain_def quoted_def)

lemma plain_append:
  assumes "plain s" "length s < r" "pos + r \<le> length m"
  shows "\<exists>m'. append_quoted_string m pos (int r) (s @ [0]) mv = Some (LOG_OK, Some (length s), m') \<and> length m' = length m"
proof -
  obtain m' where "escape_binary m pos (int r) (s @ [0]) (length s) False = Some (LOG_OK, pos + length s, m')" "length m' = length m"
    using plain_escape [of s r pos m "[0]" False] assms by auto
  then show ?thesis using assms(2) plain_not_quoted [OF assms(1)] strlen_app [of s "[]"] needs_quotes_eq [of s "[0]"]
    by (simp add: append_quoted_string_def append_quoted_string_n_def Let_def)
qed

lemma plain_append_full:
  assumes "plain s" "r \<le> length s" "0 < r" "pos + r \<le> length m"
  shows "\<exists>m'. append_quoted_string m pos (int r) (s @ [0]) mv = Some (LOG_ERROR_OUT_OF_SPACE, Some r, m') \<and> length m' = length m"
proof -
  obtain m' where "escape_binary m pos (int r) (s @ [0]) r False = Some (LOG_ERROR_OUT_OF_SPACE, pos + r, m')" "length m' = length m"
    using plain_fills [of s r pos m "[0]" False] assms by auto
  moreover have "(if int (length s) > int r then nat (int r) else length s) = r" using assms(2) by auto
  ultimately show ?thesis using assms(3) plain_not_quoted [OF assms(1)] strlen_app [of s "[]"] needs_quotes_eq [of s "[0]"]
    by (simp add: append_quoted_string_def append_quoted_string_n_def Let_def del: of_nat_less_iff)
qed

lemma message_aborts:
  assumes "1 \<le> r" "r \<le> 4" "i + r = bs" "length buf = bs + 2" "bs < 2 ^ 31" "dropWhile (\<lambda>c. c = 32) p \<noteq> []" "0 \<notin> set p"
  shows "case slog_message bs p ((buf, i), mv) of Some (Inr st) \<Rightarrow> slog_end bs 0 st = None | _ \<Rightarrow> False"
proof -
  have sz: "size_to_int (room bs i) = int r" "size_to_int (room bs (i + r)) = 0" using assms(3,5) room_eq [of i bs] room_eq [of "i + r" bs] by (auto simp: size_to_int_small)
  have pl: "plain (bytes ''msg='')" "r \<le> length (bytes ''msg='')" using assms(2) by (simp_all add: plain_def bytes_def)
  obtain b1 where b1: "append_quoted_string buf i (int r) (bytes ''msg='' @ [0]) mv = Some (LOG_ERROR_OUT_OF_SPACE, Some r, b1)"
    using plain_append_full [OF pl, of i buf mv] assms(1,3,4) by auto
  have "0 \<notin> set (dropWhile (\<lambda>c. c = 32) p)" using assms(7) set_dropWhileD by fastforce
  from strlen_app [OF this, of "[]"] have "append_quoted_string b1 (i + r) 0 (dropWhile (\<lambda>c. c = 32) p @ [0]) (Some r) = Some (0, Some r, b1)"
    by (simp add: append_quoted_string_def append_quoted_string_n_def)
  then have "slog_message bs p ((buf, i), mv) = Some (Inr (b1, i + r + r))" using b1 sz assms(6) by (auto simp: slog_message_def Let_def log_defs)
  moreover have "\<not> i + r + r + 1 < bs + 2" using assms(1,3) by simp
  ultimately show ?thesis by (simp add: slog_end_def)
qed

text \<open>
  A line that leaves one to four bytes for the message ends the process. With so little room, the name of the message is cut off,
  and the call for its text writes nothing and leaves the number of written bytes as it was, so that the position moves behind the
  end of the buffer and the final assertion fails.
\<close>

theorem slog_aborts_when_nearly_full:
  assumes "key_ok key" "plain v" "message_ok msg" "1 \<le> r" "r \<le> 4"
    and "length key + length v + 2 + r = length buf - 2" "length buf < 2 ^ 31"
  shows "slog_args le buf (key @ bytes ''=s '' @ msg) [Arg_s (Some (v @ [0]))] = None"
proof -
  define bs where "bs = length buf - 2"
  have bs: "length buf = bs + 2" "bs < 2 ^ 31" "length key + length v + 2 + r = bs" using assms(4-7) unfolding bs_def by linarith+
  have h0: "holds bs [] (buf, 0)" using bs(1,2) by (simp add: holds_def)
  have k: "key \<noteq> bytes ''ctx''" using assms(1) by (simp add: key_ok_def)
  obtain s1 where s1: "put_key bs key (buf, 0) = Some s1" "holds bs (key @ [61]) s1" using holds_key [OF h0 _ k] bs(3) assms(4) by auto
  obtain b i where b: "s1 = (b, i)" by (cases s1)
  have i: "i = length key + 1" "length b = bs + 2" using s1(2) b by (simp_all add: holds_def)
  have sz: "size_to_int (room bs i) = int (bs - i)" using i(1) bs room_eq [of i bs] by (simp add: size_to_int_small)
  obtain b2 where b2: "append_quoted_string b i (int (bs - i)) (v @ [0]) None = Some (LOG_OK, Some (length v), b2)" "length b2 = length b"
    using plain_append [OF assms(2), of "bs - i" i b None] i bs assms(4) by auto
  have rm: "room bs (i + length v) = Suc r" using i(1) bs room_eq [of "i + length v" bs] by simp
  obtain b3 where b3: "put_space bs (b2, i + length v) = Some (b3, i + length v + 1)" "length b3 = length b2"
    using mem_write_ok [of "i + length v" "[32]" b2] b2(2) i bs rm assms(4) by (auto simp: put_space_def)
  have v: "slog_value le bs key (bytes ''s'') [Arg_s (Some (v @ [0]))] (s1, None) = Some (Inr ((b2, i + length v), Some (length v)), [])"
    using b b2(1) sz by (simp add: slog_value_def appended_def log_defs)
  have f: "key @ bytes ''=s '' @ msg = [] @ key @ 61 # value_code (V_s v) @ 32 # msg" by (simp add: bytes_def)
  have m: "61 \<notin> set (32 # msg)" "0 \<notin> set (32 # msg)" "dropWhile (\<lambda>c. c = 32) (32 # msg) \<noteq> []"
    using assms(3) by (cases msg; auto simp: message_ok_def)+
  obtain e where "tokenize_key (32 # msg) = Inl e" using tokenize_message [OF m(1)] by blast
  then have l: "slog_fields le bs (32 # msg) [] ((b3, i + length v + 1), Some (length v)) = Some (Inr (32 # msg, ((b3, i + length v + 1), Some (length v))))"
    by (simp add: slog_fields.simps)
  have s: "slog_fields le bs (key @ bytes ''=s '' @ msg) [Arg_s (Some (v @ [0]))] ((buf, 0), None) = Some (Inr (32 # msg, ((b3, i + length v + 1), Some (length v))))"
    unfolding f slog_fields.simps [of le bs "[] @ key @ 61 # value_code (V_s v) @ 32 # msg"] tokenize_field [OF assms(1), of "[]", simplified]
    using tokenize_code [of "V_s v" msg] tokenize_field [OF assms(1), of "[]" "value_code (V_s v) @ 32 # msg"] s1(1) v b3(1) l by simp
  have "case slog_message bs (32 # msg) ((b3, i + length v + 1), Some (length v)) of Some (Inr st) \<Rightarrow> slog_end bs 0 st = None | _ \<Rightarrow> False"
    by (rule message_aborts [OF assms(4,5)]) (use i b2(2) b3(2) bs m in auto)
  then show ?thesis using s bs(1,3) by (auto simp: slog_args_def Let_def bs_def [symmetric] split: option.splits sum.splits)
qed

theorem slog_aborts_when_nearly_full_witness:
  "slog_args example_log (replicate 1024 0) (bytes ''path=s '' @ bytes ''opened'') [Arg_s (Some (replicate 1014 97 @ [0]))] = None"
proof -
  have "key_ok (bytes ''path'')" "plain (replicate 1014 97)" "message_ok (bytes ''opened'')" by (simp_all add: key_ok_def plain_def message_ok_def bytes_def)
  from slog_aborts_when_nearly_full [OF this, of 2 "replicate 1024 0" example_log] show ?thesis by (simp add: bytes_def)
qed

text \<open>
  With no room left, \<^verbatim>\<open>escape_binary\<close> writes all the same. The test for the end of the buffer is made after a byte has been written
  and only for zero, so that a call with no room writes every character of a string, however long it is. \<^verbatim>\<open>append_quoted_string_n\<close> makes such
  a call for a value in quotes when one byte is left.
\<close>

theorem escape_without_room_writes_all:
  assumes "plain s" "pos + length s \<le> length m"
  shows "\<exists>m'. escape_binary m pos 0 (s @ x) (length s) dq = Some (LOG_OK, pos + length s, m') \<and> take (pos + length s) m' = take pos m @ s"
proof -
  have "\<exists>m'. escape_binary m pos (- int k) (s @ x) (length s) dq = Some (LOG_OK, pos + length s, m') \<and> take (pos + length s) m' = take pos m @ s" for k
    using assms
  proof (induction s arbitrary: m pos k)
    case (Cons c s)
    have c: "short_escape dq c = None \<and> 32 \<le> c \<and> c \<noteq> 0" "c \<le> 126" using Cons.prems(1) plain_char by (simp_all add: plain_def)
    obtain m1 where w: "mem_write m pos [c] = Some m1" "length m1 = length m" "take (pos + 1) m1 = take pos m @ [c]" using mem_write_ok [of pos "[c]" m] Cons.prems(2) by auto
    have "\<exists>m'. escape_binary m1 (pos + 1) (- int (Suc k)) (s @ x) (length s) dq = Some (LOG_OK, pos + 1 + length s, m') \<and> take (pos + 1 + length s) m' = take (pos + 1) m1 @ s"
      by (rule Cons.IH) (use Cons.prems w(2) in \<open>auto simp: plain_def\<close>)
    moreover have e: "- int (Suc k) = - int k - 1" by simp
    ultimately obtain m' where m': "escape_binary m1 (pos + 1) (- int k - 1) (s @ x) (length s) dq = Some (LOG_OK, pos + 1 + length s, m')"
      "take (pos + 1 + length s) m' = take (pos + 1) m1 @ s" unfolding e by blast
    then show ?case using c w(1,3) by auto
  qed simp
  from this [of 0] show ?thesis by simp
qed

theorem escape_without_room_writes_all_witness:
  "\<exists>m'. escape_binary (replicate 6 0) 2 0 (bytes ''abcd'') 4 True = Some (LOG_OK, 6, m') \<and> take 6 m' = [0, 0] @ bytes ''abcd''"
proof -
  have "plain (bytes ''abcd'')" "length (bytes ''abcd'') = 4" by (simp_all add: plain_def bytes_def)
  moreover have "take 2 (replicate 6 0) = [0, 0 :: byte]" by (simp add: numeral_2_eq_2)
  ultimately show ?thesis using escape_without_room_writes_all [of "bytes ''abcd''" 2 "replicate 6 0" "[]" True] by simp
qed

end
