(* ===== verification/Options_Properties.thy ===== *)
theory Options_Properties
  imports Options
begin

text \<open>What the parser of the command line makes of well-formed lines, and what it does at their end.\<close>

section \<open>Well-formed options\<close>

text \<open>An option as a user writes it: with its long or its short name, and with a value unless it is a flag.\<close>

datatype opt_input = Int_input int | Str_input "byte list" | Flag_input

record setting =
  set_opt :: cmd_option
  set_long :: bool
  set_input :: opt_input

definition opt_word :: "setting \<Rightarrow> byte list" where
  "opt_word s = (if set_long s then [45, 45] @ long_name (set_opt s) else [45, short_name (set_opt s)])"

definition setting_words :: "setting \<Rightarrow> byte list list" where
  "setting_words s = opt_word s # (case set_input s of Int_input n \<Rightarrow> [int_text n] | Str_input v \<Rightarrow> [v] | Flag_input \<Rightarrow> [])"

definition apply_setting :: "setting \<Rightarrow> opt_vars \<Rightarrow> opt_vars" where
  "apply_setting s vars = vars(value_addr (set_opt s) := (case set_input s of Int_input n \<Rightarrow> Int_value n | Str_input v \<Rightarrow> Str_value (Some v)
     | Flag_input \<Rightarrow> (case vars (value_addr (set_opt s)) of Int_value n \<Rightarrow> Int_value (n + 1) | x \<Rightarrow> x)))"

definition named :: "cmd_option list \<Rightarrow> setting \<Rightarrow> bool" where
  "named options s \<longleftrightarrow> (if set_long s then get_option_long options (long_name (set_opt s)) = Some (set_opt s)
     else get_option_short options (short_name (set_opt s)) = Some (set_opt s) \<and> short_name (set_opt s) \<noteq> 45)"

definition setting_ok :: "cmd_option list \<Rightarrow> setting \<Rightarrow> bool" where
  "setting_ok options s \<longleftrightarrow> named options s \<and>
     (case set_input s of Int_input n \<Rightarrow> opt_type (set_opt s) = OPTION_INTEGER \<and> - (2 ^ 31) \<le> n \<and> n < 2 ^ 31
      | Str_input v \<Rightarrow> opt_type (set_opt s) = OPTION_STRING \<and> (choices (set_opt s) = [] \<or> v \<in> set (choices (set_opt s)))
      | Flag_input \<Rightarrow> opt_type (set_opt s) = OPTION_FLAG)"

text \<open>Variables of flags are numbers.\<close>

definition typed :: "cmd_option list \<Rightarrow> opt_vars \<Rightarrow> bool" where
  "typed options vars \<longleftrightarrow> (\<forall>opt\<in>set options. opt_type opt = OPTION_FLAG \<longrightarrow> (\<exists>n. vars (value_addr opt) = Int_value n))"

definition distinct_addrs :: "cmd_option list \<Rightarrow> bool" where
  "distinct_addrs options \<longleftrightarrow> inj_on value_addr (set options)"

lemma named_in: "named options s \<Longrightarrow> set_opt s \<in> set options"
proof -
  assume "named options s"
  then obtain P where "find P options = Some (set_opt s)" by (auto simp: named_def get_option_long_def get_option_short_def split: if_splits)
  then show ?thesis by (auto simp: find_Some_iff)
qed

lemma parse_named:
  assumes "named options s"
  shows "parse_arg options (opt_word s) argv vars = apply_value (set_opt s) argv vars" "\<not> (length (opt_word s) \<le> 1 \<or> hd (opt_word s) \<noteq> 45)"
  using assms by (auto simp: parse_arg_def opt_word_def named_def parse_long_arg_def parse_short_arg_def)

lemma int_text_zero: "n = 0 \<Longrightarrow> int_text n = bytes ''0''"
  by (simp add: int_text_def dec_digits.simps bytes_def)

lemma apply_ok:
  assumes "setting_ok options s" "typed options vars"
  shows "apply_value (set_opt s) (map Some (tl (setting_words s)) @ argv) vars = Some (0, argv, apply_setting s vars)"
proof (cases "set_input s")
  case (Int_input n)
  then have "atoi (int_text n) = Some n" using assms(1) atoi_text [of n "[]"] by (simp add: setting_ok_def)
  then show ?thesis using Int_input assms(1) int_text_zero [of n] by (auto simp: setting_ok_def setting_words_def apply_value_def apply_value_int_def apply_setting_def)
next
  case (Str_input v)
  then show ?thesis using assms(1) by (auto simp: setting_ok_def setting_words_def apply_value_def apply_value_string_def apply_setting_def)
next
  case Flag_input
  then have "opt_type (set_opt s) = OPTION_FLAG" "set_opt s \<in> set options" using assms(1) named_in by (auto simp: setting_ok_def)
  then obtain n where "vars (value_addr (set_opt s)) = Int_value n" "opt_type (set_opt s) = OPTION_FLAG" using assms(2) by (auto simp: typed_def)
  then show ?thesis using Flag_input by (simp add: setting_words_def apply_value_def apply_value_flag_def apply_setting_def)
qed

lemma apply_typed:
  assumes "setting_ok options s" "typed options vars" "distinct_addrs options"
  shows "typed options (apply_setting s vars)"
  unfolding typed_def
proof (intro ballI impI)
  fix opt assume o: "opt \<in> set options" "opt_type opt = OPTION_FLAG"
  have so: "set_opt s \<in> set options" using assms(1) named_in by (auto simp: setting_ok_def)
  obtain n where n: "vars (value_addr opt) = Int_value n" using assms(2) o by (auto simp: typed_def)
  show "\<exists>n. apply_setting s vars (value_addr opt) = Int_value n"
  proof (cases "value_addr opt = value_addr (set_opt s)")
    case True
    then have "opt = set_opt s" using assms(3) o(1) so by (auto simp: distinct_addrs_def inj_on_def)
    then show ?thesis using assms(1) o(2) n by (auto simp: setting_ok_def apply_setting_def split: opt_input.splits)
  next
    case False
    then show ?thesis using n by (simp add: apply_setting_def)
  qed
qed

lemma parse_settings:
  assumes "\<forall>s\<in>set ss. setting_ok options s" "typed options vars" "distinct_addrs options"
  shows "parse_options options (map Some (concat (map setting_words ss)) @ argv) vars = parse_options options argv (fold apply_setting ss vars)"
  using assms
proof (induction ss arbitrary: vars)
  case (Cons s ss)
  have s: "setting_ok options s" "named options s" using Cons.prems(1) by (auto simp: setting_ok_def)
  let ?r = "map Some (concat (map setting_words ss)) @ argv"
  have w: "map Some (concat (map setting_words (s # ss))) @ argv = Some (opt_word s) # map Some (tl (setting_words s)) @ ?r" by (simp add: setting_words_def)
  have "parse_options options (map Some (concat (map setting_words (s # ss))) @ argv) vars = parse_options options ?r (apply_setting s vars)"
    unfolding w using parse_named [OF s(2)] apply_ok [OF s(1) Cons.prems(2)] by simp
  also have "\<dots> = parse_options options argv (fold apply_setting ss (apply_setting s vars))"
    by (rule Cons.IH) (use Cons.prems apply_typed [OF s(1)] in auto)
  finally show ?case by simp
qed simp

section \<open>Properties\<close>

text \<open>
  C33: The options of a command line are what is set. Any sequence of known options, in their long or short form, with the numbers
  and strings they need, sets the variables one after the other to the given values and counts the flags, and the
  first argument that is not an option, or the end of the line, is where the arguments of the command begin.
\<close>

theorem parse_options_sets:
  assumes "\<forall>s\<in>set ss. setting_ok options s" "typed options vars" "distinct_addrs options"
    and "hd argv = None \<or> (\<exists>s. hd argv = Some s \<and> (length s \<le> 1 \<or> hd s \<noteq> 45))" "argv \<noteq> []"
  shows "parse_options options (map Some (concat (map setting_words ss)) @ argv) vars = Some (0, argv, fold apply_setting ss vars)"
proof -
  obtain a r where argv: "argv = a # r" using assms(5) by (cases argv) auto
  have "parse_options options argv v = Some (0, argv, v)" for v using assms(4) by (cases a) (auto simp: argv)
  then show ?thesis unfolding parse_settings [OF assms(1-3)] .
qed

theorem parse_options_sets_witness:
  "parse_options cli_options [Some (bytes ''--host''), Some (bytes ''db:9002''), Some (bytes ''-h''), Some (bytes ''get''), None] (\<lambda>_. Int_value 0) =
     Some (0, [Some (bytes ''get''), None], (\<lambda>_. Int_value 0)(host_addr := Str_value (Some (bytes ''db:9002'')), help_addr := Int_value 1))"
proof -
  let ?ss = "[\<lparr>set_opt = cli_options ! 0, set_long = True, set_input = Str_input (bytes ''db:9002'')\<rparr>, \<lparr>set_opt = cli_options ! 1, set_long = False, set_input = Flag_input\<rparr>]"
  have "\<forall>s\<in>set ?ss. setting_ok cli_options s" by (simp add: setting_ok_def named_def cli_options_def get_option_long_def get_option_short_def)
  moreover have "typed cli_options (\<lambda>_. Int_value 0)" "distinct_addrs cli_options" by (simp_all add: typed_def distinct_addrs_def cli_options_def host_addr_def help_addr_def)
  ultimately have "parse_options cli_options (map Some (concat (map setting_words ?ss)) @ [Some (bytes ''get''), None]) (\<lambda>_. Int_value 0) =
      Some (0, [Some (bytes ''get''), None], fold apply_setting ?ss (\<lambda>_. Int_value 0))"
    by (rule parse_options_sets) (simp_all add: bytes_def)
  moreover have "map Some (concat (map setting_words ?ss)) @ [Some (bytes ''get''), None] = [Some (bytes ''--host''), Some (bytes ''db:9002''), Some (bytes ''-h''), Some (bytes ''get''), None]"
    by (simp add: setting_words_def opt_word_def cli_options_def bytes_def)
  moreover have "fold apply_setting ?ss (\<lambda>_. Int_value 0) = (\<lambda>_. Int_value 0)(host_addr := Str_value (Some (bytes ''db:9002'')), help_addr := Int_value 1)"
    by (simp add: apply_setting_def cli_options_def host_addr_def help_addr_def)
  ultimately show ?thesis by (simp only:)
qed

text \<open>
  An option that needs a value and is the last word of the line is not reported: the parser uses the null pointer as a
  number or a choice, or takes it for the value and goes on behind the end of the array.
\<close>

theorem parse_options_overruns:
  assumes "\<forall>s\<in>set ss. setting_ok options s" "typed options vars" "distinct_addrs options"
    and "named options s" "opt_type (set_opt s) \<noteq> OPTION_FLAG"
  shows "parse_options options (map Some (concat (map setting_words ss)) @ [Some (opt_word s), None]) vars = None"
proof -
  have "parse_options options [Some (opt_word s), None] v = None" for v
    using parse_named(1) [OF assms(4), of "[None]" v] parse_named(2) [OF assms(4)] assms(5)
    by (cases "opt_type (set_opt s)") (simp_all add: apply_value_def apply_value_int_def apply_value_string_def)
  then show ?thesis unfolding parse_settings [OF assms(1-3)] .
qed

theorem parse_options_overruns_witness:
  "parse_options cli_options [Some (bytes ''--host''), None] (\<lambda>_. Int_value 0) = None"
proof -
  let ?s = "\<lparr>set_opt = cli_options ! 0, set_long = True, set_input = Flag_input\<rparr>"
  have "named cli_options ?s" "opt_type (set_opt ?s) \<noteq> OPTION_FLAG" by (simp_all add: named_def cli_options_def get_option_long_def)
  moreover have "typed cli_options (\<lambda>_. Int_value 0)" "distinct_addrs cli_options" by (simp_all add: typed_def distinct_addrs_def cli_options_def host_addr_def help_addr_def)
  ultimately have "parse_options cli_options (map Some (concat (map setting_words [])) @ [Some (opt_word ?s), None]) (\<lambda>_. Int_value 0) = None"
    by (intro parse_options_overruns) auto
  then show ?thesis by (simp add: opt_word_def cli_options_def bytes_def)
qed

section \<open>Hosts and ports\<close>

lemma host_split: "58 \<notin> set h \<Longrightarrow> takeWhile (\<lambda>c. c \<noteq> 58) (h @ 58 # p) = h \<and> dropWhile (\<lambda>c. c \<noteq> 58) (h @ 58 # p) = 58 # p"
proof -
  assume "58 \<notin> set h"
  then have "\<forall>c\<in>set h. c \<noteq> 58" by auto
  then show ?thesis by (simp add: takeWhile_append2 dropWhile_append2)
qed

text \<open>A host and a port are taken apart, and a name that does not fit the array of 1024 bytes is written behind its end.\<close>

theorem host_and_port_parsed:
  assumes "58 \<notin> set h" "0 < port" "port < 2 ^ 31" "length host = MAX_HOST"
  shows "if length h < MAX_HOST
    then \<exists>rest. parse_host_and_port (h @ 58 # int_text port) host p0 = Some (0, h @ [0] @ rest, port) else parse_host_and_port (h @ 58 # int_text port) host p0 = None"
proof -
  have "atoi (int_text port) = Some port" using assms(2,3) atoi_text [of port "[]"] by simp
  moreover have "int_text port \<noteq> []" using dec_digits_ok assms(2) by (simp add: int_text_def)
  ultimately show ?thesis using host_split [OF assms(1), of "int_text port"] assms(2,4) by (auto simp: parse_host_and_port_def mem_write_def Let_def)
qed

end
