(* ===== verification/Server_Setup.thy ===== *)
theory Server_Setup
  imports Options
begin

text \<open>
  What the server does before it serves: \<^verbatim>\<open>src/server/server.c\<close> without the sockets and threads, \<^verbatim>\<open>src/common/env_parse.c\<close>,
  \<^verbatim>\<open>src/common/mkdir_p.c\<close>, and the helpers \<^verbatim>\<open>src/common/str_utils.c\<close> and \<^verbatim>\<open>src/common/escape_key.c\<close>. The environment, the
  file system and the processes of the machine are parameters.
\<close>

section \<open>Strings\<close>

text \<open>The loop over the bytes of the key, with the position \<open>j\<close> in a buffer of \<^verbatim>\<open>buf_size\<close> bytes.\<close>

fun escape_key_loop :: "byte list \<Rightarrow> mem \<Rightarrow> nat \<Rightarrow> (int \<times> mem) option" where
  "escape_key_loop [] buf j =
     (if j \<ge> length buf then Some (1, buf) else do { buf \<leftarrow> mem_write buf j [0]; Some (0, buf) })"
| "escape_key_loop (c # s) buf j =
     (if c = 0 then
        if j + 4 \<ge> length buf then Some (1, buf)
        else do { buf \<leftarrow> mem_write buf j [92, 120, 48, 48]; escape_key_loop s buf (j + 4) }
      else if j \<ge> length buf then Some (1, buf)
      else do { buf \<leftarrow> mem_write buf j [c]; escape_key_loop s buf (j + 1) })"

definition escape_key :: "byte list \<Rightarrow> mem \<Rightarrow> (int \<times> mem) option" where
  "escape_key s buf = escape_key_loop s buf 0"

definition str_has_prefix :: "byte list \<Rightarrow> byte list \<Rightarrow> bool" where
  "str_has_prefix str pre = (if length str < length pre then False else take (length pre) str = pre)"

definition SHA_DIGEST_LENGTH_HEX :: nat where "SHA_DIGEST_LENGTH_HEX = 41"

definition hex_lower :: "byte \<Rightarrow> byte list" where
  "hex_lower c = (let d = (\<lambda>x. of_nat (if x < 10 then 48 + x else 87 + x)) in [d (unat c div 16), d (unat c mod 16)])"

text \<open>Each \<^verbatim>\<open>sprintf\<close> writes two digits and a zero, which the next one overwrites.\<close>

fun encode_hash_loop :: "byte list \<Rightarrow> nat \<Rightarrow> mem \<Rightarrow> mem option" where
  "encode_hash_loop [] i dst = Some dst"
| "encode_hash_loop (c # hash) i dst = do {
     dst \<leftarrow> mem_write dst (i * 2) (hex_lower c @ [0]);
     encode_hash_loop hash (i + 1) dst }"

definition encode_hash_to_str :: "mem \<Rightarrow> byte list \<Rightarrow> mem option" where
  "encode_hash_to_str dst hash = encode_hash_loop hash 0 dst"

section \<open>Configuration\<close>

type_synonym environ = "byte list \<Rightarrow> byte list option"

definition env_parse_get_int :: "environ \<Rightarrow> byte list \<Rightarrow> int \<Rightarrow> int option" where
  "env_parse_get_int getenv name default_value = (case getenv name of None \<Rightarrow> Some default_value
     | Some s \<Rightarrow> if s = bytes ''0'' then Some 0
         else do { x \<leftarrow> atoi s; if x = 0 then Some default_value else Some x })"

definition env_parse_get_str :: "environ \<Rightarrow> byte list \<Rightarrow> byte list \<Rightarrow> byte list" where
  "env_parse_get_str getenv name default_value = (case getenv name of None \<Rightarrow> default_value | Some s \<Rightarrow> s)"

text \<open>
  \<^verbatim>\<open>parse_label_indices\<close> works in place: the commas in the string become zeros, and the array has the positions behind them.
  The first loop counts the commas, and the second one fills the array.
\<close>

fun label_positions :: "nat \<Rightarrow> mem \<Rightarrow> mem \<Rightarrow> nat list \<Rightarrow> (mem \<times> nat list) option" where
  "label_positions i [] buf indices = None"
| "label_positions i (c # s) buf indices =
     (if c = 0 then Some (buf, indices)
      else if c = 44 then do { buf \<leftarrow> mem_write buf i [0]; label_positions (i + 1) s buf (indices @ [i + 1]) }
      else label_positions (i + 1) s buf indices)"

definition parse_label_indices :: "mem \<Rightarrow> (mem \<times> nat list) option" where
  "parse_label_indices config = do {
     len \<leftarrow> c_strlen config;
     let n = 1 + length [c \<leftarrow> take len config. c = 44];
     (buf, indices) \<leftarrow> label_positions 0 config config [0];
     _ \<leftarrow> c_assert (length indices = n);
     Some (buf, indices) }"

text \<open>The string at a position of a buffer.\<close>

definition string_at :: "mem \<Rightarrow> nat \<Rightarrow> byte list" where
  "string_at buf i = takeWhile (\<lambda>c. c \<noteq> 0) (drop i buf)"

section \<open>Directories\<close>

text \<open>\<^verbatim>\<open>stat\<close> says whether a path exists and is a directory; \<^verbatim>\<open>mkdir\<close> returns a code and the new state of the file system.\<close>

record 'fs fs_ops =
  fs_stat :: "'fs \<Rightarrow> byte list \<Rightarrow> bool option"
  fs_mkdir :: "'fs \<Rightarrow> byte list \<Rightarrow> int \<times> 'fs"

definition ensure_dir :: "'fs fs_ops \<Rightarrow> byte list \<Rightarrow> 'fs \<Rightarrow> int \<times> 'fs" where
  "ensure_dir ops path fs = (case fs_stat ops fs path of
       None \<Rightarrow> (case fs_mkdir ops fs path of (res, fs) \<Rightarrow> if res < 0 then (- 1, fs) else (0, fs))
     | Some is_dir \<Rightarrow> if is_dir then (0, fs) else (- 1, fs))"

text \<open>The loop over the path: \<open>pre\<close> is before the pointer. Each slash ends a path that must be a directory.\<close>

fun mkdir_p_loop :: "'fs fs_ops \<Rightarrow> byte list \<Rightarrow> byte list \<Rightarrow> 'fs \<Rightarrow> int \<times> 'fs" where
  "mkdir_p_loop ops pre [] fs = ensure_dir ops pre fs"
| "mkdir_p_loop ops pre (c # p) fs =
     (if c = 47 then (case ensure_dir ops pre fs of (res, fs) \<Rightarrow> if res < 0 then (- 1, fs) else mkdir_p_loop ops (pre @ [c]) p fs)
      else mkdir_p_loop ops (pre @ [c]) p fs)"

definition mkdir_p :: "'fs fs_ops \<Rightarrow> byte list \<Rightarrow> 'fs \<Rightarrow> (int \<times> 'fs) option" where
  "mkdir_p ops dir fs =
     (if length dir \<ge> 10240 then Some (- 1, fs)
      else if dir = [] then None
      else let tmp = (if last dir = 47 then butlast dir else dir)
        in Some (mkdir_p_loop ops (take 1 tmp) (drop 1 tmp) fs))"

section \<open>The lock file\<close>

definition ESRCH :: int where "ESRCH = 3"

text \<open>
  \<open>kill pid\<close> is zero if there is such a process and otherwise the code in \<^verbatim>\<open>errno\<close>. The result is \<open>Inl\<close> with the code of \<^verbatim>\<open>exit\<close> or \<open>Inr\<close>
  with the new contents of the file. The array has 1024 bytes, as many as are read, and the terminating zero is written behind them.
\<close>

definition acquire_storage_lock :: "(int \<Rightarrow> int) \<Rightarrow> int \<Rightarrow> mem \<Rightarrow> (int + mem) option" where
  "acquire_storage_lock kill pid file = do {
     let buf = take 1024 file;
     _ \<leftarrow> c_assert (length buf < 1024);
     if length buf > 0 then do {
       other \<leftarrow> atoi (takeWhile (\<lambda>c. c \<noteq> 0) buf);
       if other = 0 then Some (Inl 1)
       else if kill other = 0 then Some (Inl 1)
       else if kill other \<noteq> ESRCH then Some (Inl 1)
       else Some (Inr (int_text pid)) }
     else Some (Inr (int_text pid)) }"

section \<open>Properties\<close>

text \<open>The text of a key.\<close>

definition key_text :: "byte list \<Rightarrow> byte list" where
  "key_text s = concat (map (\<lambda>c. if c = 0 then [92, 120, 48, 48] else [c]) s)"

lemma write_prefix:
  assumes "take j m = t" "length t = j" "j + length x \<le> length m"
  shows "\<exists>m'. mem_write m j x = Some m' \<and> length m' = length m \<and> take (j + length x) m' = t @ x"
  using assms by (intro exI [of _ "take j m @ x @ drop (j + length x) m"]) (simp add: mem_write_def)

lemma escape_key_loop_ok:
  assumes "take j buf = t" "length t = j" "j \<le> length buf"
  shows "if j + length (key_text s) < length buf
    then \<exists>rest. escape_key_loop s buf j = Some (0, t @ key_text s @ [0] @ rest) else \<exists>buf'. escape_key_loop s buf j = Some (1, buf')"
  using assms
proof (induction s arbitrary: buf j t)
  case Nil
  show ?case
  proof (cases "j < length buf")
    case True
    then obtain m' where m': "mem_write buf j [0] = Some m'" "length m' = length buf" "take (j + 1) m' = t @ [0]" using write_prefix [OF Nil.prems(1,2), of "[0]"] by auto
    then have "m' = (t @ [0]) @ drop (j + 1) m'" by (metis append_take_drop_id)
    then show ?thesis using True m'(1) by (auto simp: key_text_def)
  qed (simp add: key_text_def)
next
  case (Cons c s)
  define x where "x = (if c = 0 then [92, 120, 48, 48] else [c])"
  have kt: "key_text (c # s) = x @ key_text s" by (simp add: key_text_def x_def)
  show ?case
  proof (cases "if c = 0 then j + 4 < length buf else j < length buf")
    case True
    then have "j + length x \<le> length buf" by (auto simp: x_def split: if_splits)
    then obtain m' where m': "mem_write buf j x = Some m'" "length m' = length buf" "take (j + length x) m' = t @ x" using write_prefix [OF Cons.prems(1,2)] by blast
    have e: "escape_key_loop (c # s) buf j = escape_key_loop s m' (j + length x)" using True m'(1) by (auto simp: x_def eval_nat_numeral split: if_splits)
    have "length (t @ x) = j + length x" "j + length x \<le> length m'" using Cons.prems(2) m'(2) \<open>j + length x \<le> length buf\<close> by simp_all
    from Cons.IH [OF m'(3) this] show ?thesis unfolding e kt using m'(2) by (auto simp: add.assoc split: if_splits)
  next
    case False
    then have "\<not> j + length (key_text (c # s)) < length buf" by (auto simp: kt x_def split: if_splits)
    moreover have "escape_key_loop (c # s) buf j = Some (1, buf)" using False by (auto split: if_splits)
    ultimately show ?thesis by simp
  qed
qed

text \<open>
  \<^verbatim>\<open>escape_key\<close> never leaves the buffer. It succeeds exactly if the text, in which every zero byte is written as an escape, fits with
  the terminating zero, and then the buffer begins with them.
\<close>

theorem escape_key_correct:
  "if length (key_text s) < length buf then \<exists>rest. escape_key s buf = Some (0, key_text s @ [0] @ rest) else \<exists>buf'. escape_key s buf = Some (1, buf')"
  using escape_key_loop_ok [of 0 buf "[]" s] by (auto simp: escape_key_def split: if_splits)

subsection \<open>Labels\<close>

text \<open>The words of a list that is separated by commas.\<close>

fun split_commas :: "byte list \<Rightarrow> byte list list" where
  "split_commas [] = [[]]"
| "split_commas (c # s) = (if c = 44 then [] # split_commas s else case split_commas s of w # ws \<Rightarrow> (c # w) # ws | [] \<Rightarrow> [[c]])"

lemma split_commas_nonempty: "split_commas s \<noteq> []"
  by (cases s) (auto split: list.splits)

lemma length_split: "length (split_commas s) = Suc (length [c \<leftarrow> s. c = 44])"
  using split_commas_nonempty by (induction s) (auto split: list.splits)

lemma label_positions_ok:
  assumes "0 \<notin> set s" "buf = done @ s @ [0] @ x" "i = length done"
  shows "\<exists>buf' ks. label_positions i (s @ [0] @ x) buf indices = Some (buf', indices @ ks) \<and> length buf' = length buf \<and> take i buf' = done \<and>
    takeWhile (\<lambda>c. c \<noteq> 0) (drop i buf') # map (string_at buf') ks = split_commas s \<and> (\<forall>k\<in>set ks. i < k)"
  using assms
proof (induction s arbitrary: "done" i indices buf)
  case Nil
  then show ?case by (intro exI [of _ buf] exI [of _ "[]"]) simp
next
  case (Cons c s)
  define d where "d = (if c = 44 then 0 else c)"
  have c0: "c \<noteq> 0" "0 \<notin> set s" using Cons.prems(1) by auto
  define buf1 where "buf1 = (done @ [d]) @ s @ [0] @ x"
  have l: "length buf1 = length buf" using Cons.prems(2) by (simp add: buf1_def)
  define ind where "ind = (if c = 44 then indices @ [i + 1] else indices)"
  have "mem_write buf i [0] = Some buf1" if "c = 44" using Cons.prems(2,3) that by (simp add: mem_write_def buf1_def d_def)
  then have e: "label_positions i ((c # s) @ [0] @ x) buf indices = label_positions (i + 1) (s @ [0] @ x) buf1 ind"
    using c0(1) Cons.prems(2) by (auto simp: ind_def buf1_def d_def)
  have "i + 1 = length (done @ [d])" using Cons.prems(3) by simp
  from Cons.IH [OF c0(2) buf1_def this, of ind] obtain buf' ks where
    b: "label_positions (i + 1) (s @ [0] @ x) buf1 ind = Some (buf', ind @ ks)" "length buf' = length buf1" "take (i + 1) buf' = done @ [d]"
    "takeWhile (\<lambda>c. c \<noteq> 0) (drop (i + 1) buf') # map (string_at buf') ks = split_commas s" "\<forall>k\<in>set ks. i + 1 < k" by blast
  have t: "take i buf' = done" using b(3) Cons.prems(3) by (metis append_eq_conv_conj le_add1 min.absorb1 take_take)
  have "drop i buf' = d # drop (i + 1) buf'"
  proof -
    have "buf' = (done @ [d]) @ drop (i + 1) buf'" using b(3) by (metis append_take_drop_id)
    then show ?thesis using Cons.prems(3) by (metis append.assoc append_Cons append_Nil append_eq_conv_conj)
  qed
  moreover have "takeWhile (\<lambda>c. c \<noteq> 0) (drop (i + 1) buf') = string_at buf' (i + 1)" by (simp add: string_at_def)
  ultimately show ?case unfolding e using b t l c0(1)
    by (cases "c = 44") (auto simp: ind_def d_def intro!: exI [of _ buf'] exI [of _ "(i + 1) # ks"] exI [of _ ks] split: list.splits)
qed

text \<open>
  The label indices are the words between the commas of the configuration, in their order: the strings at the positions that
  \<^verbatim>\<open>parse_label_indices\<close> returns in the string it has changed, and their number is what the first loop has counted.
\<close>

theorem label_indices_parsed:
  assumes "0 \<notin> set config"
  shows "\<exists>buf indices. parse_label_indices (config @ [0]) = Some (buf, indices) \<and> map (string_at buf) indices = split_commas config \<and> length buf = length config + 1"
proof -
  obtain buf ks where b: "label_positions 0 (config @ [0] @ []) (config @ [0] @ []) [0] = Some (buf, [0] @ ks)" "length buf = length (config @ [0] @ [])"
    "takeWhile (\<lambda>c. c \<noteq> 0) (drop 0 buf) # map (string_at buf) ks = split_commas config"
    using label_positions_ok [of config "config @ [0] @ []" "[]" "[]" 0 "[0]"] assms by auto
  have m: "map (string_at buf) (0 # ks) = split_commas config" using b(3) by (simp add: string_at_def)
  have "length (0 # ks) = 1 + length [c \<leftarrow> config. c = 44]" using arg_cong [OF m, of length] length_split [of config] by simp
  then have "parse_label_indices (config @ [0]) = Some (buf, 0 # ks)"
    using b(1) strlen_app [OF assms, of "[]"] by (simp add: parse_label_indices_def)
  then show ?thesis using m b(2) by auto
qed

theorem label_indices_parsed_witness:
  "\<exists>buf indices. parse_label_indices (bytes ''user_id,host'' @ [0]) = Some (buf, indices) \<and> map (string_at buf) indices = [bytes ''user_id'', bytes ''host'']"
proof -
  have "0 \<notin> set (bytes ''user_id,host'')" by (simp add: bytes_def)
  from label_indices_parsed [OF this] show ?thesis by (auto simp: bytes_def)
qed

subsection \<open>The lock\<close>

lemma int_text_short: "0 < p \<Longrightarrow> p < 2 ^ 31 \<Longrightarrow> length (int_text p) \<le> 10 \<and> int_text p \<noteq> [] \<and> 0 \<notin> set (int_text p)"
proof -
  assume a: "0 < p" "p < 2 ^ 31"
  have "length (dec_digits (nat p)) \<le> 10" using a by (intro length_dec_digits) (auto simp: nat_less_iff)
  moreover have "0 \<notin> set (dec_digits (nat p))" using dec_digits_ok [of "nat p"] by (auto simp: is_dec_digit_def word_le_nat_alt)
  ultimately show ?thesis using a(1) dec_digits_ok [of "nat p"] by (simp add: int_text_def)
qed

lemma lock_of_other:
  assumes "0 < p" "p < 2 ^ 31"
  shows "acquire_storage_lock kill q (int_text p) = Some (if kill p = ESRCH then Inr (int_text q) else Inl 1)"
proof -
  note t = int_text_short [OF assms]
  have "takeWhile (\<lambda>c. c \<noteq> 0) (int_text p) = int_text p" using t by (auto simp: takeWhile_eq_all_conv)
  moreover have "atoi (int_text p) = Some p" using atoi_text [of p "[]"] assms by simp
  ultimately have "atoi (takeWhile (\<lambda>c. c \<noteq> 0) (int_text p)) = Some p" by (simp only:)
  moreover have "take 1024 (int_text p) = int_text p" "length (int_text p) < 1024" "0 < length (int_text p)" using t by simp_all
  ultimately show ?thesis using assms(1) unfolding acquire_storage_lock_def Let_def ESRCH_def by simp
qed

text \<open>
  The lock file keeps a second server out. Once a process has taken the lock, every attempt of another one ends with an error
  while the process exists, and succeeds when it is gone, whatever way it ended.
\<close>

theorem storage_lock_excludes:
  assumes "acquire_storage_lock kill p file = Some (Inr file')" "0 < p" "p < 2 ^ 31"
  shows "(kill' p = 0 \<longrightarrow> acquire_storage_lock kill' q file' = Some (Inl 1)) \<and> (kill' p = ESRCH \<longrightarrow> acquire_storage_lock kill' q file' = Some (Inr (int_text q)))"
proof -
  have "file' = int_text p" using assms(1) by (auto simp: acquire_storage_lock_def Let_def split: if_splits Option.bind_split_asm)
  then show ?thesis using lock_of_other [OF assms(2,3)] by (auto simp: ESRCH_def)
qed

theorem storage_lock_excludes_witness:
  "acquire_storage_lock (\<lambda>_. ESRCH) 7 [] = Some (Inr (int_text 7)) \<and> acquire_storage_lock (\<lambda>_. 0) 8 (int_text 7) = Some (Inl 1)"
proof -
  have a: "acquire_storage_lock (\<lambda>_. ESRCH) 7 [] = Some (Inr (int_text 7))" by (simp add: acquire_storage_lock_def)
  from storage_lock_excludes [OF this, of "\<lambda>_. 0" 8] a show ?thesis by simp
qed

text \<open>A lock file of 1024 bytes or more makes the code write behind its array.\<close>

theorem storage_lock_overrun:
  assumes "1024 \<le> length file"
  shows "acquire_storage_lock kill pid file = None"
  using assms by (simp add: acquire_storage_lock_def Let_def)

subsection \<open>Directories\<close>

text \<open>What the system promises: after \<^verbatim>\<open>mkdir\<close> has succeeded, the path is a directory, and what was there before is still there.\<close>

definition fs_ok :: "'fs fs_ops \<Rightarrow> bool" where
  "fs_ok ops \<longleftrightarrow> (\<forall>fs path. case fs_mkdir ops fs path of (res, fs') \<Rightarrow> (res = 0 \<longrightarrow> fs_stat ops fs' path = Some True) \<and> res \<le> 0 \<and>
     (\<forall>q d. fs_stat ops fs q = Some d \<longrightarrow> fs_stat ops fs' q = Some d))"

lemma ensure_dir_ok:
  assumes "fs_ok ops" "ensure_dir ops path fs = (res, fs')"
  shows "res = 0 \<or> res = - 1" "res = 0 \<Longrightarrow> fs_stat ops fs' path = Some True" "fs_stat ops fs q = Some d \<Longrightarrow> fs_stat ops fs' q = Some d"
proof -
  obtain r f where m: "fs_mkdir ops fs path = (r, f)" by fastforce
  have "case fs_mkdir ops fs path of (res, fs') \<Rightarrow> (res = 0 \<longrightarrow> fs_stat ops fs' path = Some True) \<and> res \<le> 0 \<and> (\<forall>q d. fs_stat ops fs q = Some d \<longrightarrow> fs_stat ops fs' q = Some d)"
    using assms(1) unfolding fs_ok_def by simp
  then have f: "r = 0 \<longrightarrow> fs_stat ops f path = Some True" "r \<le> 0" "\<forall>q d. fs_stat ops fs q = Some d \<longrightarrow> fs_stat ops f q = Some d" unfolding m by simp_all
  show "res = 0 \<or> res = - 1" "res = 0 \<Longrightarrow> fs_stat ops fs' path = Some True" "fs_stat ops fs q = Some d \<Longrightarrow> fs_stat ops fs' q = Some d"
    using assms(2) m f by (auto simp: ensure_dir_def split: option.splits if_splits)
qed

lemma mkdir_p_loop_ok:
  assumes "fs_ok ops" "mkdir_p_loop ops pre p fs = (0, fs')"
  shows "fs_stat ops fs' (pre @ p) = Some True \<and> (\<forall>a b. p = a @ 47 # b \<longrightarrow> fs_stat ops fs' (pre @ a) = Some True) \<and>
    (\<forall>q d. fs_stat ops fs q = Some d \<longrightarrow> fs_stat ops fs' q = Some d)"
  using assms(2)
proof (induction p arbitrary: pre fs)
  case Nil
  then show ?case using ensure_dir_ok(2,3) [OF assms(1)] by (cases "ensure_dir ops pre fs") auto
next
  case (Cons c p)
  show ?case
  proof (cases "c = 47")
    case True
    obtain r f where e: "ensure_dir ops pre fs = (r, f)" by fastforce
    have m: "r = 0" "mkdir_p_loop ops (pre @ [c]) p f = (0, fs')" using Cons.prems True e ensure_dir_ok(1) [OF assms(1) e] by (auto split: if_splits)
    note ih = Cons.IH [OF m(2)]
    have d: "fs_stat ops fs' pre = Some True" using ih ensure_dir_ok(2) [OF assms(1) e m(1)] by blast
    have "fs_stat ops fs' (pre @ a) = Some True" if "c # p = a @ 47 # b" for a b using that ih d by (cases a) auto
    then show ?thesis using ih ensure_dir_ok(3) [OF assms(1) e] by auto
  next
    case False
    then have m: "mkdir_p_loop ops (pre @ [c]) p fs = (0, fs')" using Cons.prems by simp
    note ih = Cons.IH [OF m]
    have "fs_stat ops fs' (pre @ a) = Some True" if "c # p = a @ 47 # b" for a b using that ih False by (cases a) auto
    then show ?thesis using ih by auto
  qed
qed

text \<open>
  When \<^verbatim>\<open>mkdir_p\<close> succeeds, the path and everything above it are directories, and whatever existed before still does. (A slash at the end
  does not count; the first character is never taken for a separator.)
\<close>

theorem mkdir_p_makes_path:
  assumes "fs_ok ops" "mkdir_p ops (c # p) fs = Some (0, fs')" "last (c # p) \<noteq> 47"
  shows "fs_stat ops fs' (c # p) = Some True \<and> (\<forall>a b. p = a @ 47 # b \<longrightarrow> fs_stat ops fs' (c # a) = Some True) \<and>
    (\<forall>q d. fs_stat ops fs q = Some d \<longrightarrow> fs_stat ops fs' q = Some d)"
proof -
  have "mkdir_p_loop ops [c] p fs = (0, fs')" using assms(2,3) by (auto simp: mkdir_p_def Let_def split: if_splits)
  from mkdir_p_loop_ok [OF assms(1) this] show ?thesis by simp
qed

definition example_fs :: "(byte list \<Rightarrow> bool option) fs_ops" where
  "example_fs = \<lparr>fs_stat = (\<lambda>fs q. fs q), fs_mkdir = (\<lambda>fs q. case fs q of None \<Rightarrow> (0, fs(q := Some True)) | Some _ \<Rightarrow> (- 1, fs))\<rparr>"

theorem mkdir_p_makes_path_witness:
  "\<exists>fs. mkdir_p example_fs (bytes ''/a/b'') (\<lambda>_. None) = Some (0, fs) \<and> fs (bytes ''/a/b'') = Some True \<and> fs (bytes ''/a'') = Some True"
proof -
  have ok: "fs_ok example_fs" by (auto simp: fs_ok_def example_fs_def split: option.splits)
  obtain fs where fs: "mkdir_p example_fs (47 # bytes ''a/b'') (\<lambda>_. None) = Some (0, fs)"
    by (simp add: mkdir_p_def bytes_def ensure_dir_def example_fs_def)
  have "bytes ''a/b'' = bytes ''a'' @ 47 # bytes ''b''" "last (47 # bytes ''a/b'') \<noteq> 47" "bytes ''/a/b'' = 47 # bytes ''a/b''" "bytes ''/a'' = 47 # bytes ''a''" by (simp_all add: bytes_def)
  then show ?thesis using mkdir_p_makes_path [OF ok fs] fs by (auto simp: example_fs_def)
qed

end
