(* ===== verification/Storage_Reload.thy ===== *)
theory Storage_Reload
  imports Storage_Clean
begin

unbundle bit_operations_syntax

text \<open>
  Starting from existing files: \<^verbatim>\<open>storage_load\<close> finds every block of the data store and every key, and
  rebuilds the items. What it restores of a series is what was on disk: the complete blocks and the
  points that the block in memory had when it was last written out.
\<close>

section \<open>Scanning a store\<close>

text \<open>The position of the file is at the beginning of blocks, of which those in use are \<open>es\<close>.\<close>

definition at_blocks :: "disk_storage \<Rightarrow> (nat \<times> u8 \<times> byte list) list \<Rightarrow> bool" where
  "at_blocks ds es \<longleftrightarrow> (\<exists>u bs. ds_file ds = u @ enc_blocks bs \<and> length u = ds_pos ds \<and> 0 < ds_pos ds \<and>
     (\<forall>b\<in>set bs. block_ok b \<and> length (bdata b) \<le> 2 ^ 20) \<and> live_entries bs (ds_pos ds) = es)"

definition same_files :: "disk_storage \<Rightarrow> disk_storage \<Rightarrow> bool" where
  "same_files ds ds' \<longleftrightarrow> ds_file ds' = ds_file ds \<and> ds_scratch ds' = ds_scratch ds \<and> eof_offset ds' = eof_offset ds \<and>
     next_free_block ds' = next_free_block ds"

lemma same_files_refl [simp]: "same_files ds ds"
  by (simp add: same_files_def)

lemma same_files_trans: "same_files a b \<Longrightarrow> same_files b c \<Longrightarrow> same_files a c"
  by (simp add: same_files_def)

lemma same_files_disk: "same_files ds ds' \<Longrightarrow> disk_ok ds m \<Longrightarrow> disk_ok ds' m" "same_files ds ds' \<Longrightarrow> disk_size ds' = disk_size ds"
  using same_files_ok by (auto simp: same_files_def disk_size_def)

lemma at_start:
  assumes "disk_ok ds m"
  obtains es where "at_blocks (must_lseek ds STORAGE_INITIAL_RESERVED) es" "map_of es = m" "distinct (map fst es)"
proof -
  obtain bs frees where bs: "disk_inv ds bs frees" "live bs = m" "blocks_le (2 ^ 20) bs" "file_ok (ds_file ds) bs"
    by (rule disk_ok_blocks [OF assms])
  obtain r where r: "ds_file ds = r @ enc_blocks bs" "length r = 64" "\<forall>b\<in>set bs. block_ok b" using bs(4) by (auto simp: file_ok_def disk_defs)
  have le: "length (bdata b) \<le> 2 ^ 20" if bin: "b \<in> set bs" for b
  proof -
    obtain pre post where "bs = pre @ b # post" using split_list [OF bin] by blast
    then have "block_at bs (64 + length (enc_blocks pre)) = Some b" by (simp add: block_at_def lookup_middle disk_defs)
    then show ?thesis using bs(3) by (auto simp: blocks_le_def)
  qed
  have "at_blocks (must_lseek ds STORAGE_INITIAL_RESERVED) (live_entries bs 64)"
    unfolding at_blocks_def using r le by (intro exI [of _ r] exI [of _ bs]) (simp add: must_lseek_def disk_defs)
  moreover have "map_of (live_entries bs 64) = m" using bs(2) live_eq_map_of by simp
  moreover have "distinct (map fst (live_entries bs 64))"
    using live_entries_sorted [of bs 64] by (simp add: strict_sorted_iff)
  ultimately show thesis using that by blast
qed

lemma read_next:
  assumes "at_blocks ds es"
  shows "case es of [] \<Rightarrow> \<exists>ds'. disk_storage_read_blocks_from_start ds False LOAD_MAX_N = Some (0, None, ds') \<and> same_files ds ds'
    | e # es' \<Rightarrow> \<exists>ds'. disk_storage_read_blocks_from_start ds False LOAD_MAX_N = Some (0, Some e, ds') \<and> same_files ds ds' \<and> at_blocks ds' es'"
proof -
  obtain u bs where u: "ds_file ds = u @ enc_blocks bs" "length u = ds_pos ds" "0 < ds_pos ds"
    "\<forall>b\<in>set bs. block_ok b \<and> length (bdata b) \<le> LOAD_MAX_N" "live_entries bs (ds_pos ds) = es"
    using assms by (auto simp: at_blocks_def LOAD_MAX_N_def)
  obtain r ds' where l: "read_blocks_loop ds LOAD_MAX_N = Some (r, ds')" "same_files ds ds'"
    "case es of [] \<Rightarrow> r = Read_End | (off, s, d) # es' \<Rightarrow> r = Read_Block off s d \<and>
       (\<exists>u' bs'. ds_file ds = u' @ enc_blocks bs' \<and> length u' = ds_pos ds' \<and> 0 < ds_pos ds' \<and> set bs' \<subseteq> set bs \<and> live_entries bs' (ds_pos ds') = es')"
    using loop_at_block [OF u(1-4)] unfolding u(5) same_files_def by blast
  show ?thesis
  proof (cases es)
    case Nil
    then show ?thesis using l by (simp add: disk_storage_read_blocks_from_start_def)
  next
    case (Cons e es')
    obtain off s d where e: "e = (off, s, d)" by (cases e) auto
    obtain u' bs' where b: "r = Read_Block off s d" "ds_file ds = u' @ enc_blocks bs'" "length u' = ds_pos ds'" "0 < ds_pos ds'"
      "set bs' \<subseteq> set bs" "live_entries bs' (ds_pos ds') = es'" using l(3) Cons e by auto
    have "at_blocks ds' es'" unfolding at_blocks_def
      using b u(4) l(2) by (intro exI [of _ u'] exI [of _ bs']) (auto simp: same_files_def LOAD_MAX_N_def)
    then show ?thesis using l(1,2) b(1) Cons e by (simp add: disk_storage_read_blocks_from_start_def)
  qed
qed

lemma read_first: "disk_storage_read_blocks_from_start ds True n = disk_storage_read_blocks_from_start (must_lseek ds STORAGE_INITIAL_RESERVED) False n"
  by (simp add: disk_storage_read_blocks_from_start_def)

text \<open>
  The loops of \<^verbatim>\<open>storage_load\<close>: an invariant of the blocks read so far that does not mention the state of the
  file, and that the body of the loop keeps.
\<close>

lemma load_data_loop_inv:
  assumes "at_blocks (data_disk_store st) es2" "Inv es1 st"
    and frame: "\<And>xs st ds. Inv xs st \<Longrightarrow> Inv xs (st\<lparr>data_disk_store := ds\<rparr>)"
    and step: "\<And>xs off s d ys st. es1 @ es2 = xs @ (off, s, d) # ys \<Longrightarrow> Inv xs st \<Longrightarrow>
      \<exists>st'. load_data_block env st off s d = Some (0, st') \<and> data_disk_store st' = data_disk_store st \<and> Inv (xs @ [(off, s, d)]) st'"
  shows "\<exists>st'. load_data_loop env False st = Some (0, st') \<and> Inv (es1 @ es2) st' \<and> same_files (data_disk_store st) (data_disk_store st')"
  using assms(1,2,4)
proof (induction es2 arbitrary: es1 st)
  case Nil
  then obtain ds where "disk_storage_read_blocks_from_start (data_disk_store st) False LOAD_MAX_N = Some (0, None, ds)" "same_files (data_disk_store st) ds"
    using read_next by fastforce
  then show ?case using frame [OF Nil.prems(2)] by (simp add: load_data_loop.simps [of env False])
next
  case (Cons e es2)
  obtain off s d where e: "e = (off, s, d)" by (cases e) auto
  obtain ds where r: "disk_storage_read_blocks_from_start (data_disk_store st) False LOAD_MAX_N = Some (0, Some e, ds)" "same_files (data_disk_store st) ds" "at_blocks ds es2"
    using read_next [OF Cons.prems(1)] by auto
  have "es1 @ e # es2 = es1 @ (off, s, d) # es2" using e by simp
  from Cons.prems(3) [OF this frame [OF Cons.prems(2)], of ds] obtain st1 where
    s1: "load_data_block env (st\<lparr>data_disk_store := ds\<rparr>) off s d = Some (0, st1)" "data_disk_store st1 = ds" "Inv (es1 @ [e]) st1" using e by auto
  have "\<exists>st'. load_data_loop env False st1 = Some (0, st') \<and> Inv ((es1 @ [e]) @ es2) st' \<and> same_files (data_disk_store st1) (data_disk_store st')"
    using r(3) s1(2,3) Cons.prems(3) by (intro Cons.IH) auto
  then show ?case using r(1,2) s1(1,2) e same_files_trans by (auto simp: load_data_loop.simps [of env False st])
qed

lemma load_key_loop_inv:
  assumes "at_blocks (key_disk_store st) es2" "Inv es1 st"
    and frame: "\<And>xs st ds. Inv xs st \<Longrightarrow> Inv xs (st\<lparr>key_disk_store := ds\<rparr>)"
    and step: "\<And>xs off s d ys st. es1 @ es2 = xs @ (off, s, d) # ys \<Longrightarrow> Inv xs st \<Longrightarrow>
      \<exists>st'. load_key_block env st off d = Some st' \<and> key_disk_store st' = key_disk_store st \<and> Inv (xs @ [(off, s, d)]) st'"
  shows "\<exists>st'. load_key_loop env False st = Some (0, st') \<and> Inv (es1 @ es2) st' \<and> same_files (key_disk_store st) (key_disk_store st')"
  using assms(1,2,4)
proof (induction es2 arbitrary: es1 st)
  case Nil
  then obtain ds where "disk_storage_read_blocks_from_start (key_disk_store st) False LOAD_MAX_N = Some (0, None, ds)" "same_files (key_disk_store st) ds"
    using read_next by fastforce
  then show ?case using frame [OF Nil.prems(2)] by (simp add: load_key_loop.simps [of env False])
next
  case (Cons e es2)
  obtain off s d where e: "e = (off, s, d)" by (cases e) auto
  obtain ds where r: "disk_storage_read_blocks_from_start (key_disk_store st) False LOAD_MAX_N = Some (0, Some e, ds)" "same_files (key_disk_store st) ds" "at_blocks ds es2"
    using read_next [OF Cons.prems(1)] by auto
  have "es1 @ e # es2 = es1 @ (off, s, d) # es2" using e by simp
  from Cons.prems(3) [OF this frame [OF Cons.prems(2)], of ds] obtain st1 where
    s1: "load_key_block env (st\<lparr>key_disk_store := ds\<rparr>) off d = Some st1" "key_disk_store st1 = ds" "Inv (es1 @ [e]) st1" using e by auto
  have "\<exists>st'. load_key_loop env False st1 = Some (0, st') \<and> Inv ((es1 @ [e]) @ es2) st' \<and> same_files (key_disk_store st1) (key_disk_store st')"
    using r(3) s1(2,3) Cons.prems(3) by (intro Cons.IH) auto
  then show ?case using r(1,2) s1(1,2) e same_files_trans by (auto simp: load_key_loop.simps [of env False st])
qed

text \<open>The first round starts behind the reserved bytes.\<close>

lemma load_loops_initial:
  "load_data_loop env True st = load_data_loop env False (st\<lparr>data_disk_store := must_lseek (data_disk_store st) STORAGE_INITIAL_RESERVED\<rparr>)"
  "load_key_loop env True st = load_key_loop env False (st\<lparr>key_disk_store := must_lseek (key_disk_store st) STORAGE_INITIAL_RESERVED\<rparr>)"
  by (simp_all add: load_data_loop.simps [of env] load_key_loop.simps [of env] read_first)

section \<open>What is on disk\<close>

text \<open>
  A series as it is on disk: its identifier, where its blocks are and when they start, the points of the complete
  blocks, the points that the block in memory had when it was last written, the key and where the key is.
\<close>

record series_disk =
  sd_id :: u64
  sd_offs :: "offset_and_time list"
  sd_blks :: "point list list"
  sd_cur :: "point list"
  sd_key :: "byte list"
  sd_key_off :: u64

definition disk_series :: "(nat \<Rightarrow> (u8 \<times> byte list) option) \<Rightarrow> nat \<Rightarrow> series_disk \<Rightarrow> bool" where
  "disk_series m n x \<longleftrightarrow> (\<exists>os. list_all2 (complete_ok m (sd_id x) n) os (sd_blks x) \<and>
     (sd_offs x = os \<and> sd_cur x = [] \<or>
      (\<exists>e. sd_offs x = os @ [e] \<and> fst e \<noteq> 0 \<and> saved_of (sd_id x) n (m (unat (fst e))) (sd_cur x) \<and> snd e = fst (hd (sd_cur x)))))"

definition sd_places :: "series_disk \<Rightarrow> nat list" where
  "sd_places x = map (unat \<circ> fst) (sd_offs x)"

text \<open>The blocks start one after the other.\<close>

definition by_time :: "offset_and_time list \<Rightarrow> bool" where
  "by_time offs \<longleftrightarrow> sorted_wrt (\<lambda>a b. sint (snd a) < sint (snd b)) offs \<and> (\<forall>e\<in>set offs. 0 < sint (snd e) \<and> fst e \<noteq> 0)"

definition disk_image :: "(nat \<Rightarrow> (u8 \<times> byte list) option) \<Rightarrow> nat \<Rightarrow> series_disk list \<Rightarrow> bool" where
  "disk_image m n D \<longleftrightarrow> distinct (map sd_id D) \<and> distinct (concat (map sd_places D)) \<and> dom m = set (concat (map sd_places D)) \<and>
     (\<forall>x\<in>set D. disk_series m n x \<and> by_time (sd_offs x))"

lemma disk_series_entry:
  assumes "disk_series m n x" "e \<in> set (sd_offs x)" "m (unat (fst e)) = Some (s, d)"
  obtains (complete) dd pts y where "s = BLOCK_STATUS_VALID" "d = le_bytes (sd_id x) @ dd @ y" "data_inv dd pts" "pts \<noteq> []" "snd e = fst (hd pts)" "length dd = n"
  | (active) os h y where "s = BLOCK_STATUS_ACTIVE" "d = le_bytes (sd_id x) @ tsc_serialize_header h @ tsc_data h @ y" "tsc_inv h (sd_cur x)" "sd_cur x \<noteq> []"
      "unat (data_len h) = n" "snd e = fst (hd (sd_cur x))" "sd_offs x = os @ [e]"
proof -
  obtain os where os: "list_all2 (complete_ok m (sd_id x) n) os (sd_blks x)"
    "sd_offs x = os \<and> sd_cur x = [] \<or> (\<exists>e. sd_offs x = os @ [e] \<and> fst e \<noteq> 0 \<and> saved_of (sd_id x) n (m (unat (fst e))) (sd_cur x) \<and> snd e = fst (hd (sd_cur x)))"
    using assms(1) by (auto simp: disk_series_def)
  show thesis
  proof (cases "e \<in> set os")
    case True
    then obtain pts where "complete_ok m (sd_id x) n e pts" using list_all2_mem [OF os(1)] by blast
    then show thesis using assms(3) complete by (auto simp: complete_ok_def valid_of_def)
  next
    case False
    then show thesis using os(2) assms(2,3) active by (auto simp: saved_of_def)
  qed
qed

text \<open>Every block belongs to one series.\<close>

lemma disk_image_entry:
  assumes "disk_image m n D" "m off = Some b"
  obtains x e where "x \<in> set D" "e \<in> set (sd_offs x)" "unat (fst e) = off"
proof -
  have "off \<in> set (concat (map sd_places D))" using assms by (auto simp: disk_image_def)
  then show thesis using that by (auto simp: sd_places_def)
qed

lemma disk_image_unique:
  assumes "disk_image m n D" "x \<in> set D" "y \<in> set D"
  shows "sd_id x = sd_id y \<Longrightarrow> x = y" "off \<in> set (sd_places x) \<Longrightarrow> off \<in> set (sd_places y) \<Longrightarrow> x = y"
proof -
  have d: "distinct (map sd_id D)" "distinct (concat (map sd_places D))" using assms(1) by (simp_all add: disk_image_def)
  show "sd_id x = sd_id y \<Longrightarrow> x = y" using d(1) assms(2,3) by (auto simp: distinct_map inj_on_def)
  show "off \<in> set (sd_places x) \<Longrightarrow> off \<in> set (sd_places y) \<Longrightarrow> x = y"
    using d(2) assms(2,3)
  proof (induction D)
    case (Cons z D)
    then show ?case by (auto simp: sd_places_def)
  qed simp
qed

section \<open>The places of the blocks that were read\<close>

definition part :: "nat set \<Rightarrow> offset_and_time list \<Rightarrow> offset_and_time list" where
  "part X offs = [e \<leftarrow> offs. unat (fst e) \<in> X]"

lemma insert_offset_at:
  assumes "\<forall>a\<in>set as. sint (snd a) < sint (snd e)" "\<forall>b\<in>set bs. sint (snd e) < sint (snd b)"
  shows "insert_offset e (as @ bs) = (as @ e # bs, bs = [])"
  using assms(1)
proof (induction as)
  case Nil
  show ?case using assms(2) by (cases bs) auto
next
  case (Cons a as)
  then show ?case by auto
qed

lemma insert_offset_part:
  assumes "by_time (us @ e # vs)" "distinct (map (unat \<circ> fst) (us @ e # vs))" "unat (fst e) \<notin> X"
  shows "insert_offset e (part X (us @ e # vs)) = (part (insert (unat (fst e)) X) (us @ e # vs), part X vs = [])"
proof -
  have t: "\<forall>a\<in>set (part X us). sint (snd a) < sint (snd e)" "\<forall>b\<in>set (part X vs). sint (snd e) < sint (snd b)"
    using assms(1) by (auto simp: by_time_def part_def sorted_wrt_append)
  have "part (insert (unat (fst e)) X) us = part X us" "part (insert (unat (fst e)) X) vs = part X vs"
    using assms(2) by (auto simp: part_def image_iff intro!: filter_cong)
  then have "part (insert (unat (fst e)) X) (us @ e # vs) = part X us @ e # part X vs" by (simp add: part_def)
  moreover have "part X (us @ e # vs) = part X us @ part X vs" using assms(3) by (simp add: part_def)
  ultimately show ?thesis using insert_offset_at [OF t] by simp
qed

section \<open>Loading the data blocks\<close>

text \<open>An item that has no key yet, when the blocks at the places \<open>X\<close> have been read.\<close>

definition read_points :: "nat set \<Rightarrow> series_disk \<Rightarrow> point list" where
  "read_points X x = (if sd_cur x \<noteq> [] \<and> unat (fst (last (sd_offs x))) \<in> X then sd_cur x else [])"

definition half_item :: "nat \<Rightarrow> nat set \<Rightarrow> series_disk \<Rightarrow> storage_item \<Rightarrow> bool" where
  "half_item n X x item \<longleftrightarrow> internal_id item = sd_id x \<and> data_offsets item = part X (sd_offs x) \<and> length (data_offsets item) \<le> cap_data_offsets item \<and>
     0 < cap_data_offsets item \<and> tsc_inv (item_data item) (read_points X x) \<and> unat (data_len (item_data item)) = n"

text \<open>The items are in the index of identifiers, and there is one for each series of which a block was read.\<close>

definition id_tree :: "the_storage \<Rightarrow> bool" where
  "id_tree st \<longleftrightarrow> distinct (allocated st) \<and> item_index (item_cmp (items st) INTERNAL_ID_INDEX) (root st ! INTERNAL_ID_INDEX) \<and>
     tree_set (root st ! INTERNAL_ID_INDEX) = set (allocated st) \<and> inj_on (\<lambda>q. internal_id (items st q)) (set (allocated st))"

definition loaded :: "series_disk list \<Rightarrow> nat set \<Rightarrow> the_storage \<Rightarrow> bool" where
  "loaded D X st \<longleftrightarrow> id_tree st \<and>
     (\<forall>q\<in>set (allocated st). key_len (items st q) = INVALID_KEY \<and> (\<exists>x\<in>set D. part X (sd_offs x) \<noteq> [] \<and> half_item (initial_tsc_buf_size st) X x (items st q))) \<and>
     (\<forall>x\<in>set D. part X (sd_offs x) \<noteq> [] \<longrightarrow> (\<exists>q\<in>set (allocated st). internal_id (items st q) = sd_id x))"

text \<open>What the loop does not change.\<close>

definition no_keys :: "the_storage \<Rightarrow> bool" where
  "no_keys st \<longleftrightarrow> item_list st = [] \<and> length (root st) = num_roots st \<and> (\<forall>i < num_roots st. i \<noteq> INTERNAL_ID_INDEX \<longrightarrow> root st ! i = Null) \<and> next_internal_id st = 1 \<and>
     28 \<le> initial_tsc_buf_size st \<and> initial_tsc_buf_size st + 38 \<le> 2 ^ 20"

lemma find_by_id:
  assumes "id_tree st"
  shows "q \<in> set (allocated st) \<Longrightarrow> internal_id (items st q) = iid \<Longrightarrow> find_item st INTERNAL_ID_INDEX (id_probe iid) = Some q"
    "\<forall>q\<in>set (allocated st). internal_id (items st q) \<noteq> iid \<Longrightarrow> find_item st INTERNAL_ID_INDEX (id_probe iid) = None"
proof -
  let ?t = "root st ! INTERNAL_ID_INDEX"
  have i: "sorted_wrt (goes_left (item_cmp (items st) INTERNAL_ID_INDEX)) (inorder ?t)" "tree_set ?t = set (allocated st)"
    using assms by (auto simp: id_tree_def item_index_def)
  have f: "case find_item st INTERNAL_ID_INDEX (id_probe iid) of None \<Rightarrow> \<forall>a\<in>set (allocated st). internal_id (items st a) \<noteq> iid
    | Some a \<Rightarrow> a \<in> set (allocated st) \<and> internal_id (items st a) = iid"
    using ix.find_member_ok [OF i(1) search_key_probe, of "id_probe iid"] i(2) cmp_id_probe
    by (cases "find_item st INTERNAL_ID_INDEX (id_probe iid)") (auto simp: find_item_def probe_cmp_def)
  show "find_item st INTERNAL_ID_INDEX (id_probe iid) = None" if "\<forall>q\<in>set (allocated st). internal_id (items st q) \<noteq> iid"
    using f that by (cases "find_item st INTERNAL_ID_INDEX (id_probe iid)") auto
  show "find_item st INTERNAL_ID_INDEX (id_probe iid) = Some q" if q: "q \<in> set (allocated st)" "internal_id (items st q) = iid"
  proof (cases "find_item st INTERNAL_ID_INDEX (id_probe iid)")
    case None
    then show ?thesis using f q by auto
  next
    case (Some a)
    then have "a \<in> set (allocated st)" "internal_id (items st a) = internal_id (items st q)" using f q(2) by auto
    then show ?thesis using assms q(1) Some inj_onD [of "\<lambda>q. internal_id (items st q)" "set (allocated st)" a q] by (auto simp: id_tree_def)
  qed
qed

text \<open>The comparison in the index of identifiers depends on the identifiers only.\<close>

lemma cmp_by_id:
  "internal_id a = internal_id a' \<Longrightarrow> internal_id b = internal_id b' \<Longrightarrow> storage_item_cmp a b INTERNAL_ID_INDEX = storage_item_cmp a' b' INTERNAL_ID_INDEX"
  by (simp add: storage_item_cmp_def index_defs)

lemma id_tree_upd:
  assumes "id_tree st" "internal_id item = internal_id (items st q)"
  shows "id_tree (st\<lparr>items := (items st)(q := item)\<rparr>)"
proof -
  let ?st = "st\<lparr>items := (items st)(q := item)\<rparr>"
  have e: "internal_id (items ?st a) = internal_id (items st a)" for a using assms(2) by simp
  have c: "item_cmp (items st) INTERNAL_ID_INDEX a b = item_cmp (items ?st) INTERNAL_ID_INDEX a b" for a b
    unfolding item_cmp_def by (intro cmp_by_id e [symmetric])
  have "item_index (item_cmp (items st) INTERNAL_ID_INDEX) (root st ! INTERNAL_ID_INDEX)" using assms(1) by (simp add: id_tree_def)
  from item_index_cong [OF this c] have "item_index (item_cmp (items ?st) INTERNAL_ID_INDEX) (root st ! INTERNAL_ID_INDEX)" .
  moreover have "inj_on (\<lambda>q. internal_id (items ?st q)) (set (allocated st))" unfolding e using assms(1) by (simp add: id_tree_def)
  ultimately show ?thesis using assms(1) by (simp add: id_tree_def)
qed

lemma item_index_fresh:
  assumes "item_index (item_cmp h i) t" "p \<notin> tree_set t"
  shows "item_index (item_cmp (h(p := item)) i) t"
proof (rule item_index_cong [OF assms(1)])
  fix a b assume "a \<in> tree_set t" "b \<in> tree_set t"
  then have "a \<noteq> p" "b \<noteq> p" using assms(2) by auto
  then show "item_cmp h i a b = item_cmp (h(p := item)) i a b" by (simp add: item_cmp_def)
qed

text \<open>A new item without a key.\<close>

lemma item_new_half:
  assumes "28 \<le> n" "n + 38 \<le> 2 ^ 20"
  shows "\<exists>item. storage_item_new env INVALID_KEY [] n inds iid = Some item \<and> key_len item = INVALID_KEY \<and> internal_id item = iid \<and>
    data_offsets item = [] \<and> 0 < cap_data_offsets item \<and> tsc_inv (item_data item) [] \<and> unat (data_len (item_data item)) = n"
proof -
  obtain d where d: "tsc_init (env_junk env) (env_header env) n = Some (ERR_OK, d)" "tsc_inv d []" "unat (data_len d) = n" using tsc_init_ok [OF assms] by blast
  let ?i = "\<lparr>internal_id = 0, key_len = INVALID_KEY, key = Some [], item_data = d, key_storage_offset = 0, data_offsets = [], cap_data_offsets = 0, index_val = []\<rparr>"
  obtain c where c: "storage_item_ensure_offset_room ?i 4 = ?i\<lparr>cap_data_offsets := c\<rparr>" "4 \<le> c" by (rule ensure_room)
  then show ?thesis using d by (simp add: storage_item_new_def Let_def)
qed

lemma insert_half:
  assumes "id_tree st" "no_keys st" "env_ok env" "\<forall>q\<in>set (allocated st). internal_id (items st q) \<noteq> iid"
  defines "p \<equiv> env_malloc env (allocated st)"
  shows "\<exists>item t. let st' = st\<lparr>items := (items st)(p := item), allocated := p # allocated st, root := (root st)[INTERNAL_ID_INDEX := t]\<rparr> in
    storage_insert_item env st [] INVALID_KEY iid = Some (p, st') \<and> p \<notin> set (allocated st) \<and> id_tree st' \<and> no_keys st' \<and>
    key_len item = INVALID_KEY \<and> internal_id item = iid \<and> data_offsets item = [] \<and> 0 < cap_data_offsets item \<and> tsc_inv (item_data item) [] \<and>
    unat (data_len (item_data item)) = initial_tsc_buf_size st"
proof -
  have fresh: "p \<notin> set (allocated st)" using assms(3) by (auto simp: env_ok_def p_def)
  have n: "28 \<le> initial_tsc_buf_size st" "initial_tsc_buf_size st + 38 \<le> 2 ^ 20" using assms(2) by (simp_all add: no_keys_def)
  obtain item where item: "storage_item_new env INVALID_KEY [] (initial_tsc_buf_size st) (indices st) iid = Some item" "key_len item = INVALID_KEY" "internal_id item = iid"
    "data_offsets item = []" "0 < cap_data_offsets item" "tsc_inv (item_data item) []" "unat (data_len (item_data item)) = initial_tsc_buf_size st" using item_new_half [OF n] by blast
  let ?h = "(items st)(p := item)" let ?t = "root st ! INTERNAL_ID_INDEX"
  have t0: "item_index (item_cmp (items st) INTERNAL_ID_INDEX) ?t" "tree_set ?t = set (allocated st)" using assms(1) by (simp_all add: id_tree_def)
  have "p \<notin> tree_set ?t" using t0(2) fresh by simp
  from ix.add_ok [OF item_index_fresh [OF t0(1) this, where item = item] this] obtain t where
    t: "tree_add (item_cmp ?h INTERNAL_ID_INDEX) ?t p = Some t" "item_index (item_cmp ?h INTERNAL_ID_INDEX) t" "tree_set t = insert p (set (allocated st))" using t0(2) by auto
  let ?st = "st\<lparr>items := ?h, allocated := p # allocated st, root := (root st)[INTERNAL_ID_INDEX := t]\<rparr>"
  have l: "INTERNAL_ID_INDEX < length (root st)" using assms(2) special_index(1) [of st] by (simp add: no_keys_def)
  have "storage_insert_item env st [] INVALID_KEY iid = Some (p, ?st)" using item(1) t(1) by (simp add: storage_insert_item_def Let_def root_add_def p_def [symmetric])
  moreover have "inj_on (\<lambda>q. internal_id (?h q)) (set (p # allocated st))"
  proof (rule inj_onI)
    fix a b assume ab: "a \<in> set (p # allocated st)" "b \<in> set (p # allocated st)" "internal_id (?h a) = internal_id (?h b)"
    show "a = b"
    proof (cases "a = p \<or> b = p")
      case True
      then show ?thesis using ab item(3) assms(4) by (auto split: if_splits)
    next
      case False
      then show ?thesis using ab assms(1) inj_onD [of "\<lambda>q. internal_id (items st q)" "set (allocated st)" a b] by (auto simp: id_tree_def)
    qed
  qed
  then have "id_tree ?st" using t l fresh assms(1) by (simp add: id_tree_def)
  moreover have "no_keys ?st" using assms(2) by (auto simp: no_keys_def num_roots_def)
  ultimately show ?thesis using item fresh unfolding Let_def by (intro exI [of _ item] exI [of _ t]) simp
qed

lemma loaded_item:
  assumes "loaded D X st" "q \<in> set (allocated st)"
  obtains x where "x \<in> set D" "part X (sd_offs x) \<noteq> []" "half_item (initial_tsc_buf_size st) X x (items st q)" "key_len (items st q) = INVALID_KEY"
  using assms unfolding loaded_def by blast

text \<open>The item of a series, which is made when its first block is read.\<close>

lemma find_or_insert:
  assumes "loaded D X st" "no_keys st" "env_ok env" "disk_image m (initial_tsc_buf_size st) D" "x \<in> set D"
  defines "found \<equiv> (case find_item st INTERNAL_ID_INDEX (id_probe (sd_id x)) of Some p \<Rightarrow> Some (p, st) | None \<Rightarrow> storage_insert_item env st [] INVALID_KEY (sd_id x))"
  shows "\<exists>p st'. found = Some (p, st') \<and> id_tree st' \<and> no_keys st' \<and> p \<in> set (allocated st') \<and> half_item (initial_tsc_buf_size st) X x (items st' p) \<and>
    key_len (items st' p) = INVALID_KEY \<and> data_disk_store st' = data_disk_store st \<and> key_disk_store st' = key_disk_store st \<and> indices st' = indices st \<and>
    retention_seconds st' = retention_seconds st \<and> initial_tsc_buf_size st' = initial_tsc_buf_size st \<and> set (allocated st') = insert p (set (allocated st)) \<and>
    (\<forall>q\<in>set (allocated st). items st' q = items st q)"
proof -
  have i: "id_tree st" using assms(1) by (simp add: loaded_def)
  have same: "y = x" if "y \<in> set D" "half_item (initial_tsc_buf_size st) X y (items st q)" "internal_id (items st q) = sd_id x" for y q
    by (rule disk_image_unique(1) [OF assms(4) that(1) assms(5)]) (use that(2,3) in \<open>simp add: half_item_def\<close>)
  show ?thesis
  proof (cases "part X (sd_offs x) = []")
    case False
    then obtain q where q: "q \<in> set (allocated st)" "internal_id (items st q) = sd_id x" using assms(1,5) unfolding loaded_def by blast
    obtain y where y: "y \<in> set D" "half_item (initial_tsc_buf_size st) X y (items st q)" "key_len (items st q) = INVALID_KEY" by (rule loaded_item [OF assms(1) q(1)])
    have "y = x" by (rule same [OF y(1,2) q(2)])
    moreover have "found = Some (q, st)" using find_by_id(1) [OF i q] by (simp add: found_def)
    ultimately show ?thesis using q(1) y(2,3) assms(2) i by (intro exI [of _ q] exI [of _ st]) (simp add: insert_absorb)
  next
    case True
    have none: "\<forall>q\<in>set (allocated st). internal_id (items st q) \<noteq> sd_id x"
    proof (intro ballI notI)
      fix q assume q: "q \<in> set (allocated st)" "internal_id (items st q) = sd_id x"
      obtain y where y: "y \<in> set D" "part X (sd_offs y) \<noteq> []" "half_item (initial_tsc_buf_size st) X y (items st q)" by (rule loaded_item [OF assms(1) q(1)])
      then show False using same [OF y(1,3) q(2)] True by simp
    qed
    have "sd_cur x \<noteq> [] \<Longrightarrow> sd_offs x \<noteq> []" using assms(4,5) by (auto simp: disk_image_def disk_series_def)
    then have r: "read_points X x = []" using True by (auto simp: read_points_def part_def filter_empty_conv)
    have "found = storage_insert_item env st [] INVALID_KEY (sd_id x)" using find_by_id(2) [OF i none] by (simp add: found_def)
    then show ?thesis using insert_half [OF i assms(2,3) none] True r unfolding Let_def half_item_def by fastforce
  qed
qed

text \<open>A block changes only the item of its series.\<close>

lemma part_other: "off \<notin> set (sd_places y) \<Longrightarrow> part (insert off X) (sd_offs y) = part X (sd_offs y)"
  by (auto simp: part_def sd_places_def intro!: filter_cong)

lemma half_item_other:
  assumes "off \<notin> set (sd_places y)" "disk_series m n y"
  shows "half_item k (insert off X) y item = half_item k X y item"
proof -
  have "unat (fst (last (sd_offs y))) \<noteq> off" if "sd_cur y \<noteq> []"
  proof -
    have "sd_offs y \<noteq> []" using assms(2) that by (auto simp: disk_series_def)
    then show ?thesis using assms(1) last_in_set by (fastforce simp: sd_places_def)
  qed
  then have "read_points (insert off X) y = read_points X y" by (auto simp: read_points_def)
  then show ?thesis using part_other [OF assms(1)] by (simp add: half_item_def)
qed

lemma last_is_active: "disk_series m n x \<Longrightarrow> sd_cur x \<noteq> [] \<Longrightarrow> \<exists>d. m (unat (fst (last (sd_offs x)))) = Some (BLOCK_STATUS_ACTIVE, d)"
  by (auto simp: disk_series_def saved_of_def)

lemma start_time_prefix: "data_inv d pts \<Longrightarrow> pts \<noteq> [] \<Longrightarrow> TSC_START_TIME (d @ y) = Some (fst (hd pts))"
proof -
  assume a: "data_inv d pts" "pts \<noteq> []"
  then have "TSC_START_TIME d = Some (fst (hd pts))" using start_time_data [of d "fst (hd pts)" "snd (hd pts)" "tl pts"] by simp
  moreover have "12 \<le> length d" using a(1) by (simp add: data_inv_def)
  ultimately show ?thesis by (simp add: TSC_START_TIME_def mem_read_def)
qed

text \<open>Inserting the place of a block in the item of its series.\<close>

lemma insert_block_ok:
  assumes "loaded D X st" "no_keys st" "env_ok env" "disk_image m (initial_tsc_buf_size st) D" "x \<in> set D" "e \<in> set (sd_offs x)" "unat (fst e) = off" "off \<notin> X"
  shows "\<exists>p item last_block st1. storage_insert_data_block_during_initial_load env st (sd_id x) off (snd e) = Some (p, last_block, st1\<lparr>items := (items st1)(p := item)\<rparr>) \<and>
    id_tree st1 \<and> no_keys st1 \<and> p \<in> set (allocated st1) \<and> internal_id item = internal_id (items st1 p) \<and> internal_id item = sd_id x \<and> key_len item = INVALID_KEY \<and>
    data_offsets item = part (insert off X) (sd_offs x) \<and> length (data_offsets item) \<le> cap_data_offsets item \<and> 0 < cap_data_offsets item \<and>
    tsc_inv (item_data item) (read_points X x) \<and> unat (data_len (item_data item)) = initial_tsc_buf_size st \<and> (e = last (sd_offs x) \<longrightarrow> last_block) \<and>
    data_disk_store st1 = data_disk_store st \<and> key_disk_store st1 = key_disk_store st \<and> indices st1 = indices st \<and> retention_seconds st1 = retention_seconds st \<and>
    initial_tsc_buf_size st1 = initial_tsc_buf_size st \<and> set (allocated st1) = insert p (set (allocated st)) \<and> (\<forall>q\<in>set (allocated st). items st1 q = items st q)"
proof -
  have x: "by_time (sd_offs x)" "distinct (map (unat \<circ> fst) (sd_offs x))"
    using assms(4,5) unfolding disk_image_def sd_places_def by (auto simp: distinct_concat_iff)
  obtain us vs where o: "sd_offs x = us @ e # vs" using split_list [OF assms(6)] by blast
  have e0: "fst e \<noteq> 0" "0 < off" using x(1) o assms(7) by (auto simp: by_time_def unat_gt_0)
  have ee: "(of_nat off, snd e) = e" unfolding assms(7) [symmetric] by simp
  have io: "insert_offset e (part X (sd_offs x)) = (part (insert off X) (sd_offs x), part X vs = [])"
    using insert_offset_part [of us e vs X] x o assms(7,8) by simp
  obtain p st1 where f: "(case find_item st INTERNAL_ID_INDEX (id_probe (sd_id x)) of Some p \<Rightarrow> Some (p, st) | None \<Rightarrow> storage_insert_item env st [] INVALID_KEY (sd_id x)) = Some (p, st1)"
    and s1: "id_tree st1" "no_keys st1" "p \<in> set (allocated st1)" and hi: "half_item (initial_tsc_buf_size st) X x (items st1 p)" "key_len (items st1 p) = INVALID_KEY"
    and fr: "data_disk_store st1 = data_disk_store st \<and> key_disk_store st1 = key_disk_store st \<and> indices st1 = indices st \<and> retention_seconds st1 = retention_seconds st \<and>
      initial_tsc_buf_size st1 = initial_tsc_buf_size st \<and> set (allocated st1) = insert p (set (allocated st)) \<and> (\<forall>q\<in>set (allocated st). items st1 q = items st q)"
    using find_or_insert [OF assms(1-5)] by blast
  let ?i = "items st1 p"
  obtain c where c: "storage_item_ensure_offset_room ?i (length (data_offsets ?i) + 1) = ?i\<lparr>cap_data_offsets := c\<rparr>" "length (data_offsets ?i) + 1 \<le> c" by (rule ensure_room)
  define item where "item = ?i\<lparr>cap_data_offsets := c, data_offsets := part (insert off X) (sd_offs x)\<rparr>"
  have d: "data_offsets ?i = part X (sd_offs x)" using hi(1) by (simp add: half_item_def)
  have lp: "length (part (insert off X) (sd_offs x)) = length (part X (sd_offs x)) + 1"
  proof -
    have "length (fst (insert_offset e ys)) = length ys + 1" for ys by (induction ys) (auto split: prod.splits)
    from this [of "part X (sd_offs x)"] show ?thesis unfolding io by simp
  qed
  have "storage_insert_data_block_during_initial_load env st (sd_id x) off (snd e) = Some (p, part X vs = [], st1\<lparr>items := (items st1)(p := item)\<rparr>)"
    unfolding storage_insert_data_block_during_initial_load_def f using c lp io e0(2) d ee by (simp add: item_def upd_item_def)
  moreover have "e = last (sd_offs x) \<longrightarrow> part X vs = []"
  proof
    assume "e = last (sd_offs x)"
    then have "vs = []" using o x(2) by (cases vs rule: rev_cases) auto
    then show "part X vs = []" by (simp add: part_def)
  qed
  moreover have "0 < c" using c(2) by simp
  ultimately show ?thesis using s1 hi fr c(2) lp d unfolding half_item_def
    by (intro exI [of _ p] exI [of _ item] exI [of _ "part X vs = []"] exI [of _ st1]) (simp add: item_def)
qed

text \<open>The item of the series is changed, the others stay.\<close>

lemma loaded_insert:
  assumes "loaded D X st" "disk_image m (initial_tsc_buf_size st) D" "x \<in> set D" "off \<in> set (sd_places x)"
    and "id_tree st1" "p \<in> set (allocated st1)" "internal_id item = internal_id (items st1 p)" "key_len item = INVALID_KEY"
    and "half_item (initial_tsc_buf_size st) (insert off X) x item"
    and "initial_tsc_buf_size st1 = initial_tsc_buf_size st" "set (allocated st1) = insert p (set (allocated st))" "\<forall>q\<in>set (allocated st). items st1 q = items st q"
  shows "loaded D (insert off X) (st1\<lparr>items := (items st1)(p := item)\<rparr>)"
proof -
  let ?st = "st1\<lparr>items := (items st1)(p := item)\<rparr>" and ?n = "initial_tsc_buf_size st"
  have it: "id_tree ?st" by (rule id_tree_upd [OF assms(5,7)])
  have ser: "disk_series m ?n y" if "y \<in> set D" for y using assms(2) that by (simp add: disk_image_def)
  have no: "off \<notin> set (sd_places y)" if "y \<in> set D" "y \<noteq> x" for y using disk_image_unique(2) [OF assms(2) that(1) assms(3)] assms(4) that(2) by blast
  have px: "part (insert off X) (sd_offs x) \<noteq> []" using assms(4) by (auto simp: part_def sd_places_def filter_empty_conv)
  have items: "key_len (items ?st q) = INVALID_KEY \<and> (\<exists>y\<in>set D. part (insert off X) (sd_offs y) \<noteq> [] \<and> half_item ?n (insert off X) y (items ?st q))"
    if q: "q \<in> set (allocated st1)" for q
  proof (cases "q = p")
    case True
    then show ?thesis using assms(3,8,9) px by auto
  next
    case False
    then have q0: "q \<in> set (allocated st)" "items ?st q = items st q" using q assms(11,12) by auto
    obtain y where y: "y \<in> set D" "part X (sd_offs y) \<noteq> []" "half_item ?n X y (items st q)" "key_len (items st q) = INVALID_KEY" by (rule loaded_item [OF assms(1) q0(1)])
    have "y \<noteq> x"
    proof
      assume "y = x"
      then have "internal_id (items ?st q) = internal_id (items ?st p)" using y(3) q0(2) assms(9) by (simp add: half_item_def)
      then show False using it q assms(6) False by (auto simp: id_tree_def inj_on_def)
    qed
    then have "part (insert off X) (sd_offs y) \<noteq> [] \<and> half_item ?n (insert off X) y (items ?st q)"
      unfolding q0(2) using y half_item_other [OF no [OF y(1)] ser [OF y(1)]] part_other [OF no [OF y(1)]] by simp
    then show ?thesis unfolding q0(2) using y(1,4) by blast
  qed
  have "\<exists>q\<in>set (allocated st1). internal_id (items ?st q) = sd_id y" if y: "y \<in> set D" "part (insert off X) (sd_offs y) \<noteq> []" for y
  proof (cases "y = x")
    case True
    then show ?thesis using assms(6,9) by (intro bexI [of _ p]) (auto simp: half_item_def)
  next
    case False
    then have "part X (sd_offs y) \<noteq> []" using y part_other [OF no [OF y(1) False]] by simp
    then obtain q where q: "q \<in> set (allocated st)" "internal_id (items st q) = sd_id y" using assms(1) y(1) unfolding loaded_def by blast
    then show ?thesis using assms(7,11,12) by (intro bexI [of _ q]) auto
  qed
  then show ?thesis using it items assms(10) by (simp add: loaded_def)
qed

text \<open>What loading does not change.\<close>

definition same_config :: "the_storage \<Rightarrow> the_storage \<Rightarrow> bool" where
  "same_config st st' \<longleftrightarrow> data_disk_store st' = data_disk_store st \<and> key_disk_store st' = key_disk_store st \<and> indices st' = indices st \<and>
     retention_seconds st' = retention_seconds st \<and> initial_tsc_buf_size st' = initial_tsc_buf_size st"

lemma load_block_ok:
  assumes "loaded D X st" "no_keys st" "env_ok env" "disk_image m (initial_tsc_buf_size st) D" "m off = Some (s, d)" "off \<notin> X"
  shows "\<exists>st'. load_data_block env st off s d = Some (0, st') \<and> loaded D (insert off X) st' \<and> no_keys st' \<and> same_config st st'"
proof -
  let ?n = "initial_tsc_buf_size st"
  have n: "28 \<le> ?n" using assms(2) by (simp add: no_keys_def)
  obtain x e where x: "x \<in> set D" "e \<in> set (sd_offs x)" "unat (fst e) = off" by (rule disk_image_entry [OF assms(4,5)])
  have pl: "off \<in> set (sd_places x)" using x by (auto simp: sd_places_def)
  have ser: "disk_series m ?n x" and "0 < sint (snd e)" using assms(4) x by (auto simp: disk_image_def by_time_def)
  then have t: "snd e \<noteq> 0" by auto
  obtain p item lb st1 where ins: "storage_insert_data_block_during_initial_load env st (sd_id x) off (snd e) = Some (p, lb, st1\<lparr>items := (items st1)(p := item)\<rparr>)"
    and s1: "id_tree st1" "no_keys st1" "p \<in> set (allocated st1)" "internal_id item = internal_id (items st1 p)" "internal_id item = sd_id x" "key_len item = INVALID_KEY"
    and it: "data_offsets item = part (insert off X) (sd_offs x)" "length (data_offsets item) \<le> cap_data_offsets item" "0 < cap_data_offsets item"
      "tsc_inv (item_data item) (read_points X x)" "unat (data_len (item_data item)) = ?n" and lb: "e = last (sd_offs x) \<longrightarrow> lb"
    and fr: "data_disk_store st1 = data_disk_store st" "key_disk_store st1 = key_disk_store st" "indices st1 = indices st" "retention_seconds st1 = retention_seconds st"
      "initial_tsc_buf_size st1 = ?n" "set (allocated st1) = insert p (set (allocated st))" "\<forall>q\<in>set (allocated st). items st1 q = items st q"
    using insert_block_ok [OF assms(1-4) x assms(6)] by blast
  note upd = loaded_insert [OF assms(1,4) x(1) pl s1(1,3) _ _ _ fr(5-7)]
  have nk: "no_keys (st1\<lparr>items := h\<rparr>)" "same_config st (st1\<lparr>items := h\<rparr>)" for h using s1(2) fr by (simp_all add: no_keys_def num_roots_def same_config_def)
  have "m (unat (fst e)) = Some (s, d)" using assms(5) x(3) by simp
  from ser x(2) this show ?thesis
  proof (cases rule: disk_series_entry)
    case (complete dd pts y)
    have "sd_cur x \<noteq> [] \<Longrightarrow> unat (fst (last (sd_offs x))) \<noteq> off" using last_is_active [OF ser] assms(5) complete(1) by (auto simp: disk_defs)
    then have "read_points (insert off X) x = read_points X x" by (auto simp: read_points_def)
    then have h: "half_item ?n (insert off X) x item" using it s1(5) by (simp add: half_item_def)
    have "load_data_block env st off s d = Some (0, st1\<lparr>items := (items st1)(p := item)\<rparr>)"
      using ins complete n t start_time_prefix [OF complete(3,4), of y] by (simp add: load_data_block_def disk_defs le_word_le_bytes)
    then show ?thesis using upd [OF s1(4,6) h] nk by blast
  next
    case (active os h y)
    let ?item = "item\<lparr>item_data := h\<rparr>"
    have last: "lb" "unat (fst (last (sd_offs x))) = off" using lb active(7) x(3) by simp_all
    have td: "length (tsc_data h) = ?n" "data_inv (tsc_data h) (sd_cur x)" "unat (data_len h) = length (tsc_data h)" using active(3,5) by (simp_all add: tsc_inv_def)
    have "4 \<le> length (tsc_data (item_data item))" using it(4) by (simp add: tsc_inv_def data_inv_def)
    moreover have "data_len (item_data item) = data_len h" using it(5) active(5) by (metis word_unat_eq_iff)
    ultimately have l: "tsc_load_block (item_data item) (tsc_serialize_header h @ tsc_data h @ y) (tsc_data h @ y) (length (tsc_data h) + length y) = Some h"
      by (intro tsc_load_block_restores) (use td(3) in simp_all)
    have h: "half_item ?n (insert off X) x ?item" using it(1-3) s1(5) active(3-5) last(2) by (simp add: half_item_def read_points_def)
    have "load_data_block env st off s d = Some (0, st1\<lparr>items := (items st1)(p := ?item)\<rparr>)"
      using ins active n t start_time_prefix [OF td(2) active(4), of y] l td(1) last(1)
      by (simp add: load_data_block_def disk_defs le_word_le_bytes set_item_data_def upd_item_def TSC_HEADER_SERIALIZATION_SIZE_def)
    moreover have "internal_id ?item = internal_id (items st1 p)" "key_len ?item = INVALID_KEY" using s1(4,6) by simp_all
    ultimately show ?thesis using upd [OF _ _ h] nk by blast
  qed
qed

text \<open>The first loop of \<^verbatim>\<open>storage_load\<close> on an empty storage.\<close>

lemma loaded_position [simp]: "loaded D X (st\<lparr>data_disk_store := ds\<rparr>) = loaded D X st" "no_keys (st\<lparr>data_disk_store := ds\<rparr>) = no_keys st"
  by (simp_all add: loaded_def id_tree_def no_keys_def num_roots_def)

lemma load_data_ok:
  assumes "disk_ok (data_disk_store st) m" "disk_image m (initial_tsc_buf_size st) D" "no_keys st" "env_ok env" "allocated st = []" "root st ! INTERNAL_ID_INDEX = Null"
  shows "\<exists>st' ds. load_data_loop env True st = Some (0, st') \<and> loaded D (dom m) st' \<and> no_keys st' \<and> same_config (st\<lparr>data_disk_store := ds\<rparr>) st' \<and>
    disk_ok ds m \<and> disk_size ds = disk_size (data_disk_store st)"
proof -
  let ?n = "initial_tsc_buf_size st" and ?ds = "must_lseek (data_disk_store st) STORAGE_INITIAL_RESERVED"
  obtain es where es: "at_blocks ?ds es" "map_of es = m" "distinct (map fst es)" by (rule at_start [OF assms(1)])
  let ?st = "st\<lparr>data_disk_store := ?ds\<rparr>"
  define Inv where "Inv = (\<lambda>(xs :: (nat \<times> u8 \<times> byte list) list) s. loaded D (fst ` set xs) s \<and> no_keys s \<and> same_config (st\<lparr>data_disk_store := data_disk_store s\<rparr>) s)"
  have "loaded D {} st" using assms(5,6) by (simp add: loaded_def id_tree_def part_def)
  then have i0: "Inv [] ?st" using assms(3) by (simp add: Inv_def same_config_def)
  have frame: "Inv xs (s\<lparr>data_disk_store := ds\<rparr>)" if "Inv xs s" for xs s ds
    using that by (simp add: Inv_def same_config_def)
  have step: "\<exists>s'. load_data_block env s off b d = Some (0, s') \<and> data_disk_store s' = data_disk_store s \<and> Inv (xs @ [(off, b, d)]) s'"
    if e: "[] @ es = xs @ (off, b, d) # ys" and i: "Inv xs s" for xs off b d ys s
  proof -
    have n: "initial_tsc_buf_size s = ?n" using i by (simp add: Inv_def same_config_def)
    have "map_of es off = Some (b, d)" using e es(3) by (intro map_of_is_SomeI) auto
    then have mo: "m off = Some (b, d)" using es(2) by simp
    have no: "off \<notin> fst ` set xs" using e es(3) by auto
    have l: "loaded D (fst ` set xs) s" "no_keys s" using i by (simp_all add: Inv_def)
    from load_block_ok [OF l assms(4) assms(2) [folded n] mo no] obtain s' where
      s': "load_data_block env s off b d = Some (0, s')" "loaded D (insert off (fst ` set xs)) s'" "no_keys s'" "same_config s s'" by blast
    then have "Inv (xs @ [(off, b, d)]) s'" using i by (simp add: Inv_def same_config_def)
    then show ?thesis using s'(1,4) by (simp add: same_config_def)
  qed
  have at: "at_blocks (data_disk_store ?st) es" using es(1) by simp
  have "\<exists>st'. load_data_loop env False ?st = Some (0, st') \<and> Inv ([] @ es) st' \<and> same_files (data_disk_store ?st) (data_disk_store st')"
    by (rule load_data_loop_inv [where Inv = Inv, OF at i0 frame], assumption, rule step)
  then obtain st' where s: "load_data_loop env False ?st = Some (0, st')" "Inv es st'" "same_files ?ds (data_disk_store st')" by auto
  have "fst ` set es = dom m" using es(2) dom_map_of_conv_image_fst [of es] by simp
  then have l: "loaded D (dom m) st'" "no_keys st'" "same_config (st\<lparr>data_disk_store := data_disk_store st'\<rparr>) st'" using s(2) by (simp_all add: Inv_def)
  have "same_files (data_disk_store st) ?ds" by (simp add: same_files_def must_lseek_def)
  from same_files_disk [OF same_files_trans [OF this s(3)]] assms(1) have "disk_ok (data_disk_store st') m" "disk_size (data_disk_store st') = disk_size (data_disk_store st)" by blast+
  then show ?thesis using s(1) l load_loops_initial(1) [of env st] by (intro exI [of _ st'] exI [of _ "data_disk_store st'"]) simp
qed

end
