(* ===== verification/Storage_Restart.thy ===== *)
theory Storage_Restart
  imports Storage_Reload Storage_Properties
begin

text \<open>
  Starting from existing files, second part: the keys are attached to the items, and the loaded storage represents
  what was on disk. After \<^verbatim>\<open>storage_sync\<close> that is the whole database.
\<close>

section \<open>Keys on disk\<close>

definition key_image :: "(nat \<Rightarrow> (u8 \<times> byte list) option) \<Rightarrow> series_disk list \<Rightarrow> bool" where
  "key_image mk D \<longleftrightarrow> dom mk = (\<lambda>x. unat (sd_key_off x)) ` set D \<and> inj_on sd_key (set D) \<and> inj_on sd_key_off (set D) \<and>
     (\<forall>x\<in>set D. valid_key (sd_key x) \<and> sd_key_off x \<noteq> 0 \<and> 0 < sd_id x \<and> unat (sd_id x) < 2 ^ 62 \<and>
       (\<exists>y. mk (unat (sd_key_off x)) = Some (BLOCK_STATUS_VALID, le_bytes (of_nat (length (sd_key x)) :: u16) @ sd_key x @ le_bytes (sd_id x) @ y)))"

text \<open>The items in each tree.\<close>

definition index_sets :: "the_storage \<Rightarrow> (nat \<Rightarrow> ptr set) \<Rightarrow> bool" where
  "index_sets st T \<longleftrightarrow> length (root st) = num_roots st \<and>
     (\<forall>i < num_roots st. item_index (item_cmp (items st) i) (root st ! i) \<and> tree_set (root st ! i) = T i)"

lemma index_sets_cong:
  assumes "index_sets st T" "root st' = root st" "indices st' = indices st" "\<And>i p. i < num_roots st \<Longrightarrow> p \<in> T i \<Longrightarrow> same_key (items st p) (items st' p)"
  shows "index_sets st' T"
  unfolding index_sets_def
proof (intro conjI allI impI)
  have n: "num_roots st' = num_roots st" using assms(3) by (simp add: num_roots_def)
  show "length (root st') = num_roots st'" using assms(1,2) n by (simp add: index_sets_def)
  fix i assume "i < num_roots st'"
  then have i: "i < num_roots st" "item_index (item_cmp (items st) i) (root st ! i)" "tree_set (root st ! i) = T i"
    using assms(1) n by (simp_all add: index_sets_def)
  show "tree_set (root st' ! i) = T i" using i(3) assms(2) by simp
  show "item_index (item_cmp (items st') i) (root st' ! i)" unfolding assms(2)
    by (rule item_index_cong [OF i(2)]) (use i(1,3) assms(4) same_key_cmp in \<open>auto simp: item_cmp_def\<close>)
qed

lemma index_sets_add:
  assumes "index_sets st T" "\<And>i. p \<notin> T i"
  shows "\<exists>r. for_each (root_add p) [0..<num_roots st] st = Some (st\<lparr>root := r\<rparr>) \<and> index_sets (st\<lparr>root := r\<rparr>) (\<lambda>i. insert p (T i))"
proof -
  let ?P = "\<lambda>T i t. item_index (item_cmp (items st) i) t \<and> tree_set t = T i"
  have "\<exists>t. root_add p i st' = Some (st'\<lparr>root := (root st')[i := t]\<rparr>) \<and> ?P (\<lambda>i. insert p (T i)) i t"
    if "items st' = items st" "?P T i (root st' ! i)" for st' i
    using that ix.add_ok [of "items st" i "root st' ! i" p] assms(2) [of i] by (auto simp: root_add_def)
  from each_root [of "num_roots st" "items st" "?P T" "root_add p" "?P (\<lambda>i. insert p (T i))" st, OF this]
  obtain r where "for_each (root_add p) [0..<num_roots st] st = Some (st\<lparr>root := r\<rparr>)" "length r = length (root st)"
    "\<forall>i < num_roots st. ?P (\<lambda>i. insert p (T i)) i (r ! i)" using assms(1) by (auto simp: index_sets_def)
  then show ?thesis using assms(1) by (auto simp: index_sets_def num_roots_def)
qed

lemma index_sets_delete:
  assumes "index_sets st T" "i < num_roots st" "p \<in> T i"
  shows "\<exists>t. root_delete p i st = Some (st\<lparr>root := (root st)[i := t]\<rparr>) \<and> index_sets (st\<lparr>root := (root st)[i := t]\<rparr>) (T(i := T i - {p}))"
proof -
  have i: "item_index (item_cmp (items st) i) (root st ! i)" "tree_set (root st ! i) = T i" "length (root st) = num_roots st" using assms(1,2) by (simp_all add: index_sets_def)
  from ix.delete_ok [OF i(1), of p] i(2) assms(3) obtain t where t: "tree_delete (item_cmp (items st) i) (root st ! i) p = Some t" "item_index (item_cmp (items st) i) t"
    "tree_set t = T i - {p}" by auto
  then show ?thesis using assms(1,2) i(3) by (intro exI [of _ t]) (auto simp: root_delete_def index_sets_def num_roots_def nth_list_update)
qed

section \<open>Attaching the keys\<close>

text \<open>An item with all its blocks.\<close>

definition whole_item :: "nat \<Rightarrow> series_disk \<Rightarrow> storage_item \<Rightarrow> bool" where
  "whole_item n x item \<longleftrightarrow> internal_id item = sd_id x \<and> data_offsets item = sd_offs x \<and> length (data_offsets item) \<le> cap_data_offsets item \<and>
     0 < cap_data_offsets item \<and> tsc_inv (item_data item) (sd_cur x) \<and> unat (data_len (item_data item)) = n"

lemma half_item_whole:
  assumes "disk_image m n D" "x \<in> set D" "half_item n (dom m) x item"
  shows "whole_item n x item"
proof -
  have d: "unat (fst e) \<in> dom m" if "e \<in> set (sd_offs x)" for e using assms(1,2) that by (auto simp: disk_image_def sd_places_def)
  then have p: "part (dom m) (sd_offs x) = sd_offs x" by (auto simp: part_def)
  have "sd_cur x \<noteq> [] \<Longrightarrow> sd_offs x \<noteq> []" using assms(1,2) by (auto simp: disk_image_def disk_series_def)
  then have "read_points (dom m) x = sd_cur x" using d [OF last_in_set] by (auto simp: read_points_def)
  then show ?thesis using assms(3) p by (auto simp: half_item_def whole_item_def)
qed

definition keyed_item :: "byte list list \<Rightarrow> series_disk \<Rightarrow> storage_item \<Rightarrow> bool" where
  "keyed_item inds x item \<longleftrightarrow> key_is item (sd_key x) \<and> key_storage_offset item = sd_key_off x \<and> index_vals_ok inds item"

text \<open>The keys at the places \<open>Y\<close> have been read: their items are complete and in the list, the others are waiting.\<close>

definition attached :: "series_disk list \<Rightarrow> nat set \<Rightarrow> the_storage \<Rightarrow> bool" where
  "attached D Y st \<longleftrightarrow> index_sets st (\<lambda>i. if i = INTERNAL_ID_INDEX then set (allocated st) else set (item_list st)) \<and>
     distinct (allocated st) \<and> distinct (item_list st) \<and> set (item_list st) \<subseteq> set (allocated st) \<and> inj_on (\<lambda>q. internal_id (items st q)) (set (allocated st)) \<and>
     (\<forall>q\<in>set (allocated st). \<exists>x\<in>set D. whole_item (initial_tsc_buf_size st) x (items st q) \<and>
       (if q \<in> set (item_list st) then unat (sd_key_off x) \<in> Y \<and> keyed_item (indices st) x (items st q) else unat (sd_key_off x) \<notin> Y \<and> key_len (items st q) = INVALID_KEY)) \<and>
     (\<forall>x\<in>set D. \<exists>q\<in>set (allocated st). internal_id (items st q) = sd_id x) \<and>
     (\<forall>q\<in>set (item_list st). internal_id (items st q) < next_internal_id st) \<and> 0 < next_internal_id st \<and> unat (next_internal_id st) \<le> 2 ^ 62 \<and>
     28 \<le> initial_tsc_buf_size st \<and> initial_tsc_buf_size st + 38 \<le> 2 ^ 20"

lemma attached_start:
  assumes "loaded D (dom m) st" "no_keys st" "disk_image m (initial_tsc_buf_size st) D" "\<forall>x\<in>set D. sd_offs x \<noteq> []"
  shows "attached D {} st"
proof -
  have nk: "item_list st = []" "length (root st) = num_roots st" "\<forall>i < num_roots st. i \<noteq> INTERNAL_ID_INDEX \<longrightarrow> root st ! i = Null" "next_internal_id st = 1"
    "28 \<le> initial_tsc_buf_size st" "initial_tsc_buf_size st + 38 \<le> 2 ^ 20" using assms(2) by (simp_all add: no_keys_def)
  have it: "id_tree st" using assms(1) by (simp add: loaded_def)
  have "item_index cmp Null" "tree_set Null = {}" for cmp by (simp_all add: item_index_def rb_tree_def tree_set_def)
  then have "index_sets st (\<lambda>i. if i = INTERNAL_ID_INDEX then set (allocated st) else set (item_list st))"
    using nk(1-3) it by (auto simp: index_sets_def id_tree_def)
  moreover have "\<exists>x\<in>set D. whole_item (initial_tsc_buf_size st) x (items st q) \<and> key_len (items st q) = INVALID_KEY" if "q \<in> set (allocated st)" for q
    by (rule loaded_item [OF assms(1) that]) (use half_item_whole [OF assms(3)] in blast)
  moreover have "\<exists>q\<in>set (allocated st). internal_id (items st q) = sd_id x" if x: "x \<in> set D" for x
  proof -
    have "unat (fst e) \<in> dom m" if "e \<in> set (sd_offs x)" for e using assms(3) x that by (auto simp: disk_image_def sd_places_def)
    then have "part (dom m) (sd_offs x) \<noteq> []" using assms(4) x by (cases "sd_offs x") (auto simp: part_def)
    then show ?thesis using assms(1) x unfolding loaded_def by blast
  qed
  ultimately show ?thesis using nk it by (simp add: attached_def id_tree_def)
qed

lemma attached_id_tree: "attached D Y st \<Longrightarrow> id_tree st"
  using special_index(1) [of st] by (simp add: attached_def index_sets_def id_tree_def)

text \<open>The item that waits for a key.\<close>

lemma waiting_item:
  assumes "attached D Y st" "disk_image m n D" "x \<in> set D" "unat (sd_key_off x) \<notin> Y"
  obtains q where "q \<in> set (allocated st)" "q \<notin> set (item_list st)" "whole_item (initial_tsc_buf_size st) x (items st q)" "key_len (items st q) = INVALID_KEY"
    "find_item st INTERNAL_ID_INDEX (id_probe (sd_id x)) = Some q"
proof -
  obtain q where q: "q \<in> set (allocated st)" "internal_id (items st q) = sd_id x" using assms(1,3) unfolding attached_def by blast
  obtain y where y: "y \<in> set D" "whole_item (initial_tsc_buf_size st) y (items st q)"
    "if q \<in> set (item_list st) then unat (sd_key_off y) \<in> Y \<and> keyed_item (indices st) y (items st q) else unat (sd_key_off y) \<notin> Y \<and> key_len (items st q) = INVALID_KEY"
    using assms(1) q(1) unfolding attached_def by blast
  have "y = x" by (rule disk_image_unique(1) [OF assms(2) y(1) assms(3)]) (use y(2) q(2) in \<open>simp add: whole_item_def\<close>)
  then show thesis using that q y(2,3) assms(4) find_by_id(1) [OF attached_id_tree [OF assms(1)] q] by (auto split: if_splits)
qed

text \<open>A new item with a key, while the waiting item is taken out of its index.\<close>

lemma insert_keyed:
  assumes "index_sets st T" "env_ok env" "28 \<le> initial_tsc_buf_size st" "initial_tsc_buf_size st + 38 \<le> 2 ^ 20" "\<And>i. T i \<subseteq> set (allocated st)"
    and "unat klen = length k" "klen \<noteq> INVALID_KEY"
  defines "p \<equiv> env_malloc env (allocated st)"
  shows "\<exists>item r. let st' = st\<lparr>items := (items st)(p := item), allocated := p # allocated st, root := r, item_list := item_list st @ [p]\<rparr> in
    storage_insert_item env st (k @ y) klen iid = Some (p, st') \<and> p \<notin> set (allocated st) \<and> index_sets st' (\<lambda>i. insert p (T i)) \<and>
    key_is item k \<and> internal_id item = iid \<and> index_vals_ok (indices st) item"
proof -
  have fresh: "p \<notin> set (allocated st)" using assms(2) by (auto simp: env_ok_def p_def)
  obtain d where d: "tsc_init (env_junk env) (env_header env) (initial_tsc_buf_size st) = Some (ERR_OK, d)" using tsc_init_ok [OF assms(3,4)] by blast
  obtain item where item: "storage_item_new env klen (k @ y) (initial_tsc_buf_size st) (indices st) iid = Some item" "key_is item k" "internal_id item = iid"
    "index_vals_ok (indices st) item"
  proof -
    let ?i = "\<lparr>internal_id = 0, key_len = klen, key = Some (k @ [0]), item_data = d, key_storage_offset = 0,
      data_offsets = [], cap_data_offsets = 0, index_val = []\<rparr>"
    obtain c where c: "storage_item_ensure_offset_room ?i 4 = ?i\<lparr>cap_data_offsets := c\<rparr>" "4 \<le> c" by (rule ensure_room)
    show thesis by (rule that) (use c d assms(6,7) in \<open>auto simp: storage_item_new_def key_is_def Let_def index_vals_ok_def item_key_def\<close>)
  qed
  let ?st1 = "st\<lparr>items := (items st)(p := item), allocated := p # allocated st\<rparr>"
  have np: "p \<notin> T i" for i using fresh assms(5) by blast
  have "index_sets ?st1 T" by (rule index_sets_cong [OF assms(1)]) (use np in auto)
  from index_sets_add [OF this np] obtain r where r: "for_each (root_add p) [0..<num_roots ?st1] ?st1 = Some (?st1\<lparr>root := r\<rparr>)"
    "index_sets (?st1\<lparr>root := r\<rparr>) (\<lambda>i. insert p (T i))" by blast
  have "index_sets (?st1\<lparr>root := r, item_list := item_list st @ [p]\<rparr>) (\<lambda>i. insert p (T i))" by (rule index_sets_cong [OF r(2)]) simp_all
  moreover have "storage_insert_item env st (k @ y) klen iid = Some (p, ?st1\<lparr>root := r, item_list := item_list st @ [p]\<rparr>)"
    using item(1) r(1) assms(7) by (simp add: storage_insert_item_def Let_def p_def [symmetric])
  ultimately show ?thesis using item fresh unfolding Let_def by (intro exI [of _ item] exI [of _ r]) simp
qed

lemma storage_attach_ok:
  assumes "attached D Y st" "disk_image m n D" "env_ok env" "x \<in> set D" "unat (sd_key_off x) \<notin> Y" "valid_key (sd_key x)" "unat klen = length (sd_key x)"
  shows "\<exists>p q item r. let st' = st\<lparr>items := (items st)(p := item), allocated := remove1 q (p # allocated st), root := r, item_list := item_list st @ [p]\<rparr> in
    storage_attach_key_to_item env st (sd_key x @ y) klen (sd_id x) (unat (sd_key_off x)) = Some (True, st') \<and> q \<in> set (allocated st) \<and> q \<notin> set (item_list st) \<and>
    p \<notin> set (allocated st) \<and> index_sets st' (\<lambda>i. if i = INTERNAL_ID_INDEX then insert p (set (allocated st) - {q}) else insert p (set (item_list st))) \<and>
    internal_id (items st q) = sd_id x \<and> whole_item (initial_tsc_buf_size st) x item \<and> keyed_item (indices st) x item"
proof -
  let ?T = "\<lambda>i. if i = INTERNAL_ID_INDEX then set (allocated st) else set (item_list st)" and ?o = "unat (sd_key_off x)"
  obtain q where q: "q \<in> set (allocated st)" "q \<notin> set (item_list st)" "whole_item (initial_tsc_buf_size st) x (items st q)" "key_len (items st q) = INVALID_KEY"
    "find_item st INTERNAL_ID_INDEX (id_probe (sd_id x)) = Some q" by (rule waiting_item [OF assms(1,2,4,5)])
  have a: "index_sets st ?T" "set (item_list st) \<subseteq> set (allocated st)" "28 \<le> initial_tsc_buf_size st" "initial_tsc_buf_size st + 38 \<le> 2 ^ 20" using assms(1) unfolding attached_def by blast+
  have "q \<in> ?T INTERNAL_ID_INDEX" using q(1) by simp
  from index_sets_delete [OF a(1) special_index(1) this] obtain t where t: "root_delete q INTERNAL_ID_INDEX st = Some (st\<lparr>root := (root st)[INTERNAL_ID_INDEX := t]\<rparr>)"
    "index_sets (st\<lparr>root := (root st)[INTERNAL_ID_INDEX := t]\<rparr>) (?T(INTERNAL_ID_INDEX := ?T INTERNAL_ID_INDEX - {q}))" by blast
  let ?st1 = "st\<lparr>root := (root st)[INTERNAL_ID_INDEX := t]\<rparr>" and ?T1 = "?T(INTERNAL_ID_INDEX := ?T INTERNAL_ID_INDEX - {q})"
  have "klen \<noteq> INVALID_KEY" using valid_key_len [OF assms(6,7)] by simp
  moreover have "28 \<le> initial_tsc_buf_size ?st1" "initial_tsc_buf_size ?st1 + 38 \<le> 2 ^ 20" "\<And>i. ?T1 i \<subseteq> set (allocated ?st1)" using a(2-4) by auto
  moreover define p where "p = env_malloc env (allocated st)"
  ultimately obtain item r where ins: "storage_insert_item env ?st1 (sd_key x @ y) klen (sd_id x) = Some (p, ?st1\<lparr>items := (items st)(p := item), allocated := p # allocated st, root := r, item_list := item_list st @ [p]\<rparr>)"
    "p \<notin> set (allocated st)" "index_sets (?st1\<lparr>items := (items st)(p := item), allocated := p # allocated st, root := r, item_list := item_list st @ [p]\<rparr>) (\<lambda>i. insert p (?T1 i))"
    "key_is item (sd_key x)" "internal_id item = sd_id x" "index_vals_ok (indices st) item"
    using insert_keyed [OF t(2) assms(3) _ _ _ assms(7), of y "sd_id x"] unfolding Let_def by auto
  let ?item = "item\<lparr>key_storage_offset := of_nat ?o, item_data := item_data (items st q), data_offsets := data_offsets (items st q), cap_data_offsets := cap_data_offsets (items st q)\<rparr>"
  let ?st2 = "st\<lparr>items := (items st)(p := ?item), allocated := remove1 q (p # allocated st), root := r, item_list := item_list st @ [p]\<rparr>"
  have pq: "p \<noteq> q" using ins(2) q(1) by auto
  have "internal_id (items st q) = sd_id x" using q(3) by (simp add: whole_item_def)
  then have "storage_attach_key_to_item env st (sd_key x @ y) klen (sd_id x) ?o = Some (True, ?st2)"
    using q(4,5) t(1) ins(1) pq by (simp add: storage_attach_key_to_item_def upd_item_def storage_item_free_def Let_def)
  moreover have "index_sets ?st2 (\<lambda>i. insert p (?T1 i))"
    by (rule index_sets_cong [OF ins(3)]) (auto simp: same_key_def)
  moreover have "(\<lambda>i. insert p (?T1 i)) = (\<lambda>i. if i = INTERNAL_ID_INDEX then insert p (set (allocated st) - {q}) else insert p (set (item_list st)))" by (simp add: fun_eq_iff)
  moreover have "whole_item (initial_tsc_buf_size st) x ?item" "keyed_item (indices st) x ?item"
    using q(3) ins(4-6) by (auto simp: whole_item_def keyed_item_def key_is_def index_vals_ok_def item_key_def)
  ultimately show ?thesis using q(1-3) ins(2) unfolding Let_def whole_item_def [of _ _ "items st q"]
    by (intro exI [of _ p] exI [of _ q] exI [of _ ?item] exI [of _ r]) simp
qed

text \<open>The new item takes the place of the one that was waiting.\<close>

lemma attached_step:
  assumes "attached D Y st" "disk_image m n D" "key_image mk D" "x \<in> set D"
    and pq: "q \<in> set (allocated st)" "q \<notin> set (item_list st)" "p \<notin> set (allocated st)" "internal_id (items st q) = sd_id x"
    and item: "whole_item (initial_tsc_buf_size st) x item" "keyed_item (indices st) x item"
    and st': "items st' = (items st)(p := item)" "allocated st' = remove1 q (p # allocated st)" "item_list st' = item_list st @ [p]" "indices st' = indices st"
      "initial_tsc_buf_size st' = initial_tsc_buf_size st"
    and sets: "index_sets st' (\<lambda>i. if i = INTERNAL_ID_INDEX then insert p (set (allocated st) - {q}) else insert p (set (item_list st)))"
    and nx: "\<forall>a\<in>set (item_list st). internal_id (items st a) < next_internal_id st'" "sd_id x < next_internal_id st'" "unat (next_internal_id st') \<le> 2 ^ 62"
  shows "attached D (insert (unat (sd_key_off x)) Y) st'"
proof -
  have old: "distinct (allocated st)" "distinct (item_list st)" "set (item_list st) \<subseteq> set (allocated st)" "inj_on (\<lambda>a. internal_id (items st a)) (set (allocated st))"
    "28 \<le> initial_tsc_buf_size st" "initial_tsc_buf_size st + 38 \<le> 2 ^ 20" using assms(1) unfolding attached_def by blast+
  have al: "set (allocated st') = insert p (set (allocated st) - {q})" "distinct (allocated st')" "set (item_list st') = insert p (set (item_list st))"
    using st'(2,3) old(1) pq by auto
  have idp: "internal_id item = sd_id x" using item(1) by (simp add: whole_item_def)
  have others: "items st' a = items st a" if "a \<in> set (allocated st)" for a using that pq(3) st'(1) by auto
  have "(\<lambda>i. if i = INTERNAL_ID_INDEX then insert p (set (allocated st) - {q}) else insert p (set (item_list st))) =
      (\<lambda>i. if i = INTERNAL_ID_INDEX then set (allocated st') else set (item_list st'))" unfolding al(1,3) ..
  then have 1: "index_sets st' (\<lambda>i. if i = INTERNAL_ID_INDEX then set (allocated st') else set (item_list st'))" using sets by simp
  have 2: "distinct (item_list st')" "set (item_list st') \<subseteq> set (allocated st')" using al old(2,3) pq st'(3) by auto
  have 3: "inj_on (\<lambda>a. internal_id (items st' a)) (set (allocated st'))"
  proof -
    have "inj_on (\<lambda>a. internal_id (items st' a)) (set (allocated st) - {q})"
      using inj_on_subset [OF old(4), of "set (allocated st) - {q}"] others by (auto simp: inj_on_def)
    moreover have "internal_id (items st' p) \<noteq> internal_id (items st' a)" if a: "a \<in> set (allocated st) - {q}" for a
      using a others [of a] old(4) pq(1,4) st'(1) idp by (auto simp: inj_on_def)
    ultimately show ?thesis unfolding al(1) by (simp add: image_iff)
  qed
  have 4: "\<exists>y\<in>set D. whole_item (initial_tsc_buf_size st') y (items st' a) \<and>
       (if a \<in> set (item_list st') then unat (sd_key_off y) \<in> insert (unat (sd_key_off x)) Y \<and> keyed_item (indices st') y (items st' a)
        else unat (sd_key_off y) \<notin> insert (unat (sd_key_off x)) Y \<and> key_len (items st' a) = INVALID_KEY)" if a: "a \<in> set (allocated st')" for a
  proof (cases "a = p")
    case True
    then show ?thesis using assms(4) item st'(1,4,5) al(3) by (intro bexI [of _ x]) auto
  next
    case False
    then have a0: "a \<in> set (allocated st)" "a \<noteq> q" "a \<in> set (item_list st') \<longleftrightarrow> a \<in> set (item_list st)" using a al by auto
    then obtain y where y: "y \<in> set D" "whole_item (initial_tsc_buf_size st) y (items st a)"
      "if a \<in> set (item_list st) then unat (sd_key_off y) \<in> Y \<and> keyed_item (indices st) y (items st a) else unat (sd_key_off y) \<notin> Y \<and> key_len (items st a) = INVALID_KEY"
      using assms(1) unfolding attached_def by blast
    have "y \<noteq> x" using y(2) a0(1,2) old(4) pq(1,4) by (auto simp: whole_item_def inj_on_def)
    then have "unat (sd_key_off y) \<noteq> unat (sd_key_off x)" using assms(3,4) y(1) by (auto simp: key_image_def inj_on_def word_unat_eq_iff [symmetric])
    then show ?thesis using y a0 others [OF a0(1)] st'(4,5) by (intro bexI [of _ y]) auto
  qed
  have 5: "\<exists>a\<in>set (allocated st'). internal_id (items st' a) = sd_id y" if y: "y \<in> set D" for y
  proof (cases "y = x")
    case True
    then show ?thesis using al(1) st'(1) idp by (intro bexI [of _ p]) auto
  next
    case False
    obtain a where a: "a \<in> set (allocated st)" "internal_id (items st a) = sd_id y" using assms(1) y unfolding attached_def by blast
    moreover have "a \<noteq> q" using a(2) pq(4) disk_image_unique(1) [OF assms(2) y assms(4)] False by auto
    ultimately show ?thesis using al(1) others [OF a(1)] by (intro bexI [of _ a]) auto
  qed
  have 6: "\<forall>a\<in>set (item_list st'). internal_id (items st' a) < next_internal_id st'"
    using nx(1,2) al(3) others old(3) st'(1) idp by (auto split: if_splits)
  have "0 < next_internal_id st'" using nx(2) by (auto simp: word_gt_0)
  then show ?thesis unfolding attached_def using 1 2 3 4 5 6 al(2) nx(3) old(5,6) st'(5) by simp
qed

lemma load_key_ok:
  assumes "attached D Y st" "disk_image m n D" "key_image mk D" "env_ok env" "mk off = Some (s, buf)" "off \<notin> Y"
  shows "\<exists>st'. load_key_block env st off buf = Some st' \<and> attached D (insert off Y) st' \<and> same_config st st'"
proof -
  have "off \<in> (\<lambda>x. unat (sd_key_off x)) ` set D" using assms(3,5) by (auto simp: key_image_def)
  then obtain x where x: "x \<in> set D" "unat (sd_key_off x) = off" by auto
  have ki: "valid_key (sd_key x)" "unat (sd_id x) < 2 ^ 62" "0 < sd_id x" using assms(3) x(1) by (simp_all add: key_image_def)
  obtain y where "mk (unat (sd_key_off x)) = Some (BLOCK_STATUS_VALID, le_bytes (of_nat (length (sd_key x)) :: u16) @ sd_key x @ le_bytes (sd_id x) @ y)"
    using assms(3) x(1) unfolding key_image_def by blast
  then have buf: "buf = le_bytes (of_nat (length (sd_key x)) :: u16) @ sd_key x @ le_bytes (sd_id x) @ y" using assms(5) x(2) by simp
  define klen where "klen = (of_nat (length (sd_key x)) :: u16)"
  have kl: "unat klen = length (sd_key x)" using ki(1) by (simp add: klen_def valid_key_def MAX_BUF_def unat_of_nat)
  have kl0: "klen \<noteq> 0" using valid_key_len [OF ki(1) kl] by simp
  have k0: "(sd_key x @ z) ! 0 \<noteq> 0" for z using ki(1) by (cases "sd_key x") (auto simp: valid_key_def)
  define st0 where "st0 = (if sd_id x \<ge> next_internal_id st then st\<lparr>next_internal_id := sd_id x + 1\<rparr> else st)"
  have old: "\<forall>a\<in>set (item_list st). internal_id (items st a) < next_internal_id st" "0 < next_internal_id st" "unat (next_internal_id st) \<le> 2 ^ 62" using assms(1) unfolding attached_def by blast+
  have id1: "unat (sd_id x + 1) = unat (sd_id x) + 1" using ki(2) by (simp add: unat_word_ariths)
  have n0: "next_internal_id st \<le> next_internal_id st0" "sd_id x < next_internal_id st0" "unat (next_internal_id st0) \<le> 2 ^ 62"
    using id1 ki(2) old(3) by (auto simp: st0_def word_le_nat_alt word_less_nat_alt)
  have "\<forall>a\<in>set (item_list st). internal_id (items st a) < next_internal_id st0" using old(1) n0(1) by (meson order_less_le_trans)
  moreover have "0 < next_internal_id st0" using n0(2) by (auto simp: word_gt_0)
  moreover have "index_sets st0 T = index_sets st T" for T by (simp add: st0_def index_sets_def num_roots_def)
  moreover have f0: "items st0 = items st" "allocated st0 = allocated st" "item_list st0 = item_list st" "indices st0 = indices st" "initial_tsc_buf_size st0 = initial_tsc_buf_size st"
    by (simp_all add: st0_def)
  ultimately have a0: "attached D Y st0" using assms(1) n0(3) unfolding attached_def f0 by simp
  have nY: "unat (sd_key_off x) \<notin> Y" using x(2) assms(6) by simp
  obtain p q item r where at: "storage_attach_key_to_item env st0 (sd_key x @ le_bytes (sd_id x) @ y) klen (sd_id x) off =
      Some (True, st0\<lparr>items := (items st0)(p := item), allocated := remove1 q (p # allocated st0), root := r, item_list := item_list st0 @ [p]\<rparr>)"
    "q \<in> set (allocated st0)" "q \<notin> set (item_list st0)" "p \<notin> set (allocated st0)"
    "index_sets (st0\<lparr>items := (items st0)(p := item), allocated := remove1 q (p # allocated st0), root := r, item_list := item_list st0 @ [p]\<rparr>)
       (\<lambda>i. if i = INTERNAL_ID_INDEX then insert p (set (allocated st0) - {q}) else insert p (set (item_list st0)))"
    "internal_id (items st0 q) = sd_id x" "whole_item (initial_tsc_buf_size st0) x item" "keyed_item (indices st0) x item"
    using storage_attach_ok [OF a0 assms(2,4) x(1) nY ki(1) kl, of "le_bytes (sd_id x) @ y"] unfolding Let_def x(2) by blast
  let ?st = "st0\<lparr>items := (items st0)(p := item), allocated := remove1 q (p # allocated st0), root := r, item_list := item_list st0 @ [p]\<rparr>"
  have "attached D (insert off Y) ?st"
    unfolding x(2) [symmetric]
    by (rule attached_step [OF a0 assms(2,3) x(1) at(2-4,6-8)]) (use at(5) n0 a0 in \<open>simp_all add: attached_def\<close>)
  moreover have "mem_read (sd_key x @ le_bytes (sd_id x) @ y) (unat klen) 8 = Some (le_bytes (sd_id x))" unfolding kl by (simp add: mem_read_def)
  then have "load_key_block env st off buf = Some ?st"
    using kl0 k0 at(1) unfolding buf klen_def [symmetric] load_key_block_def by (simp add: le_word_le_bytes st0_def [symmetric])
  moreover have "same_config st ?st" by (simp add: same_config_def st0_def)
  ultimately show ?thesis by blast
qed

text \<open>The second loop of \<^verbatim>\<open>storage_load\<close>.\<close>

lemma attached_position [simp]: "attached D Y (st\<lparr>key_disk_store := ds\<rparr>) = attached D Y st"
  by (simp add: attached_def index_sets_def num_roots_def)

lemma load_keys_ok:
  assumes "attached D {} st" "disk_image m n D" "key_image mk D" "env_ok env" "disk_ok (key_disk_store st) mk"
  shows "\<exists>st' ds. load_key_loop env True st = Some (0, st') \<and> attached D (dom mk) st' \<and> same_config (st\<lparr>key_disk_store := ds\<rparr>) st' \<and>
    disk_ok ds mk \<and> disk_size ds = disk_size (key_disk_store st)"
proof -
  let ?ds = "must_lseek (key_disk_store st) STORAGE_INITIAL_RESERVED"
  obtain es where es: "at_blocks ?ds es" "map_of es = mk" "distinct (map fst es)" by (rule at_start [OF assms(5)])
  let ?st = "st\<lparr>key_disk_store := ?ds\<rparr>"
  define Inv where "Inv = (\<lambda>(xs :: (nat \<times> u8 \<times> byte list) list) s. attached D (fst ` set xs) s \<and> same_config (st\<lparr>key_disk_store := key_disk_store s\<rparr>) s)"
  have i0: "Inv [] ?st" using assms(1) by (simp add: Inv_def same_config_def)
  have frame: "Inv xs (s\<lparr>key_disk_store := ds\<rparr>)" if "Inv xs s" for xs s ds
    using that by (simp add: Inv_def same_config_def)
  have step: "\<exists>s'. load_key_block env s off d = Some s' \<and> key_disk_store s' = key_disk_store s \<and> Inv (xs @ [(off, b, d)]) s'"
    if e: "[] @ es = xs @ (off, b, d) # ys" and i: "Inv xs s" for xs off b d ys s
  proof -
    have "map_of es off = Some (b, d)" using e es(3) by (intro map_of_is_SomeI) auto
    then have mo: "mk off = Some (b, d)" using es(2) by simp
    have no: "off \<notin> fst ` set xs" using e es(3) by auto
    have l: "attached D (fst ` set xs) s" using i by (simp add: Inv_def)
    from load_key_ok [OF l assms(2-4) mo no] obtain s' where
      s': "load_key_block env s off d = Some s'" "attached D (insert off (fst ` set xs)) s'" "same_config s s'" by blast
    then have "Inv (xs @ [(off, b, d)]) s'" using i by (simp add: Inv_def same_config_def)
    then show ?thesis using s'(1,3) by (simp add: same_config_def)
  qed
  have at: "at_blocks (key_disk_store ?st) es" using es(1) by simp
  have "\<exists>st'. load_key_loop env False ?st = Some (0, st') \<and> Inv ([] @ es) st' \<and> same_files (key_disk_store ?st) (key_disk_store st')"
    by (rule load_key_loop_inv [where Inv = Inv, OF at i0 frame], assumption, rule step)
  then obtain st' where s: "load_key_loop env False ?st = Some (0, st')" "Inv es st'" "same_files ?ds (key_disk_store st')" by auto
  have "fst ` set es = dom mk" using es(2) dom_map_of_conv_image_fst [of es] by simp
  then have l: "attached D (dom mk) st'" "same_config (st\<lparr>key_disk_store := key_disk_store st'\<rparr>) st'" using s(2) by (simp_all add: Inv_def)
  have "same_files (key_disk_store st) ?ds" by (simp add: same_files_def must_lseek_def)
  from same_files_disk [OF same_files_trans [OF this s(3)]] assms(5) have "disk_ok (key_disk_store st') mk" "disk_size (key_disk_store st') = disk_size (key_disk_store st)" by blast+
  then show ?thesis using s(1) l load_loops_initial(2) [of env st] by (intro exI [of _ st'] exI [of _ "key_disk_store st'"]) simp
qed

section \<open>The checks at the end\<close>

lemma for_each_items:
  assumes "distinct ps" "\<forall>p\<in>set ps. P p (items st p)"
    and "\<And>p st. P p (items st p) \<Longrightarrow> \<exists>item. f p st = Some (st\<lparr>items := (items st)(p := item)\<rparr>) \<and> Q p item"
  shows "\<exists>h. for_each f ps st = Some (st\<lparr>items := h\<rparr>) \<and> (\<forall>p\<in>set ps. Q p (h p)) \<and> (\<forall>p. p \<notin> set ps \<longrightarrow> h p = items st p)"
  using assms(1,2)
proof (induction ps arbitrary: st)
  case Nil
  show ?case by (intro exI [of _ "items st"]) simp
next
  case (Cons p ps)
  obtain item where i: "f p st = Some (st\<lparr>items := (items st)(p := item)\<rparr>)" "Q p item" using assms(3) [of p st] Cons.prems(2) by auto
  let ?st = "st\<lparr>items := (items st)(p := item)\<rparr>"
  have "\<forall>q\<in>set ps. P q (items ?st q)" using Cons.prems by auto
  from Cons.IH [OF _ this] Cons.prems(1) obtain h where h: "for_each f ps ?st = Some (?st\<lparr>items := h\<rparr>)" "\<forall>q\<in>set ps. Q q (h q)" "\<forall>q. q \<notin> set ps \<longrightarrow> h q = items ?st q" by auto
  then have "for_each f (p # ps) st = Some (st\<lparr>items := h\<rparr>)" using i(1) by simp
  moreover have "Q p (h p)" using h(3) Cons.prems(1) i(2) by auto
  ultimately show ?case using h(2,3) by (intro exI [of _ h]) auto
qed

lemma items_by_id_ok:
  assumes "item_index (item_cmp (items st) INTERNAL_ID_INDEX) (root st ! INTERNAL_ID_INDEX)" "tree_set (root st ! INTERNAL_ID_INDEX) = S" "card S < 2 ^ 63"
  obtains ps where "items_by_id st = Some ps" "distinct ps" "set ps = S"
proof -
  let ?t = "root st ! INTERNAL_ID_INDEX"
  have d: "distinct (inorder ?t)" using assms(1) ix.sorted_distinct by (auto simp: item_index_def)
  have "set (inorder ?t) = S" using assms(2) by (simp add: tree_set_def)
  moreover have "length (inorder ?t) < 2 ^ 63" using distinct_card [OF d] assms(2,3) by (simp add: tree_set_def)
  from ix.walk_ok [OF assms(1) this, of None] obtain it where "it_init_full ?t 1 None = Some it" "it_all it = Some (inorder ?t)" by (auto simp: key_ok_def visit_def)
  then have "items_by_id st = Some (inorder ?t)" by (simp add: items_by_id_def it_init_inorder_def)
  ultimately show thesis using that d by blast
qed

text \<open>The last check turns a loaded item into one that the storage can work with.\<close>

lemma saved_is_clear: "tsc_inv d cur \<Longrightarrow> tsc_is_clear d = Some (cur = [])"
proof -
  assume inv: "tsc_inv d cur"
  then have "num_valid_bits d = 0 \<longleftrightarrow> cur = []"
    using length_enc_all [of None cur] unat_0_iff [of "num_valid_bits d"] by (cases cur) (auto simp: tsc_inv_def)
  then show ?thesis using inv by (auto simp: tsc_is_clear_def tsc_inv_def data_inv_def)
qed

definition final_item :: "(nat \<Rightarrow> (u8 \<times> byte list) option) \<Rightarrow> nat \<Rightarrow> series_disk \<Rightarrow> storage_item \<Rightarrow> bool" where
  "final_item m n x item \<longleftrightarrow> item_ok m n item (sd_blks x) (sd_cur x) \<and> offs_of item = sd_places x"

lemma check_last_block_ok:
  assumes "whole_item n x (items st p)" "disk_series m n x" "by_time (sd_offs x)" "sd_offs x \<noteq> []"
  shows "\<exists>item. check_last_block p st = Some (st\<lparr>items := (items st)(p := item)\<rparr>) \<and> final_item m n x item \<and> same_ident (items st p) item"
proof -
  let ?i = "items st p"
  have w: "internal_id ?i = sd_id x" "data_offsets ?i = sd_offs x" "length (sd_offs x) \<le> cap_data_offsets ?i" "0 < cap_data_offsets ?i" "tsc_inv (item_data ?i) (sd_cur x)"
    "unat (data_len (item_data ?i)) = n" using assms(1) by (auto simp: whole_item_def)
  have nz: "\<forall>e\<in>set (sd_offs x). fst e \<noteq> 0" using assms(3) by (simp add: by_time_def)
  obtain os where os: "list_all2 (complete_ok m (sd_id x) n) os (sd_blks x)"
    "sd_offs x = os \<and> sd_cur x = [] \<or> (\<exists>e. sd_offs x = os @ [e] \<and> fst e \<noteq> 0 \<and> saved_of (sd_id x) n (m (unat (fst e))) (sd_cur x) \<and> snd e = fst (hd (sd_cur x)))"
    using assms(2) by (auto simp: disk_series_def)
  have c: "check_last_block p st = (if sd_cur x = [] then do {
      item \<leftarrow> push_offset (0, 0) (storage_item_ensure_offset_room ?i (length (data_offsets ?i) + 1)); Some (upd_item st p (\<lambda>_. item)) } else Some st)"
    using w(2) assms(4) nz saved_is_clear [OF w(5)] by (simp add: check_last_block_def Let_def)
  show ?thesis
  proof (cases "sd_cur x = []")
    case True
    then have o: "sd_offs x = os" using os(2) by (auto simp: saved_of_def)
    obtain cap where r: "storage_item_ensure_offset_room ?i (length (data_offsets ?i) + 1) = ?i\<lparr>cap_data_offsets := cap\<rparr>" "length (data_offsets ?i) + 1 \<le> cap" by (rule ensure_room)
    let ?j = "?i\<lparr>cap_data_offsets := cap, data_offsets := sd_offs x @ [(0, 0)]\<rparr>"
    have "check_last_block p st = Some (st\<lparr>items := (items st)(p := ?j)\<rparr>)" using c True r w(2) by (simp add: push_offset_def upd_item_def)
    moreover have "item_ok m n ?j (sd_blks x) (sd_cur x)" using w True os(1) o r(2) by (auto simp: item_ok_def last_ok_def)
    moreover have "offs_of ?j = sd_places x" using nz by (simp add: offs_of_def sd_places_def)
    ultimately show ?thesis by (intro exI [of _ ?j]) (simp add: final_item_def same_ident_def same_key_def)
  next
    case False
    then obtain e where e: "sd_offs x = os @ [e]" "saved_of (sd_id x) n (m (unat (fst e))) (sd_cur x)" "snd e = fst (hd (sd_cur x))" using os(2) by auto
    have "check_last_block p st = Some (st\<lparr>items := (items st)(p := ?i)\<rparr>)" using c False by simp
    moreover have "last_ok m (sd_id x) n e (sd_cur x)" using e(2,3) unfolding last_ok_def by auto
    then have "item_ok m n ?i (sd_blks x) (sd_cur x)" using w os(1) e(1) unfolding item_ok_def by auto
    moreover have "offs_of ?i = sd_places x" using nz w(2) by (simp add: offs_of_def sd_places_def)
    ultimately show ?thesis by (intro exI [of _ ?i]) (simp add: final_item_def)
  qed
qed

section \<open>The loaded storage\<close>

definition disk_db :: "series_disk list \<Rightarrow> byte list \<Rightarrow> point list option" where
  "disk_db D k = map_option (\<lambda>x. concat (sd_blks x) @ sd_cur x) (find (\<lambda>x. sd_key x = k) D)"

text \<open>When all keys are attached, every item belongs to one series, and every series has an item.\<close>

lemma attached_all:
  assumes "attached D (dom mk) st" "disk_image m n D" "key_image mk D"
  obtains X where "set (allocated st) = set (item_list st)" "inj_on X (set (item_list st))" "X ` set (item_list st) = set D"
    "\<And>q. q \<in> set (item_list st) \<Longrightarrow> whole_item (initial_tsc_buf_size st) (X q) (items st q) \<and> keyed_item (indices st) (X q) (items st q)"
proof -
  have dm: "unat (sd_key_off x) \<in> dom mk" if "x \<in> set D" for x using assms(3) that by (auto simp: key_image_def)
  have a: "q \<in> set (item_list st) \<and> (\<exists>x\<in>set D. whole_item (initial_tsc_buf_size st) x (items st q) \<and> keyed_item (indices st) x (items st q))" if qa: "q \<in> set (allocated st)" for q
  proof -
    obtain x where "x \<in> set D" "whole_item (initial_tsc_buf_size st) x (items st q)"
      "if q \<in> set (item_list st) then unat (sd_key_off x) \<in> dom mk \<and> keyed_item (indices st) x (items st q) else unat (sd_key_off x) \<notin> dom mk \<and> key_len (items st q) = INVALID_KEY"
      using assms(1) qa unfolding attached_def by blast
    then show ?thesis using dm by (auto split: if_splits)
  qed
  have sub: "set (item_list st) \<subseteq> set (allocated st)" and inj: "inj_on (\<lambda>q. internal_id (items st q)) (set (allocated st))" using assms(1) unfolding attached_def by blast+
  have S: "set (allocated st) = set (item_list st)" using a sub by blast
  from a S have "\<forall>q\<in>set (item_list st). \<exists>x. x \<in> set D \<and> whole_item (initial_tsc_buf_size st) x (items st q) \<and> keyed_item (indices st) x (items st q)" by blast
  then obtain X where X: "\<forall>q\<in>set (item_list st). X q \<in> set D \<and> whole_item (initial_tsc_buf_size st) (X q) (items st q) \<and> keyed_item (indices st) (X q) (items st q)"
    by (rule bchoice [THEN exE])
  then have id: "internal_id (items st q) = sd_id (X q)" if "q \<in> set (item_list st)" for q using that by (simp add: whole_item_def)
  have "inj_on X (set (item_list st))"
  proof (rule inj_onI)
    fix p q assume "p \<in> set (item_list st)" "q \<in> set (item_list st)" "X p = X q"
    then have "internal_id (items st p) = internal_id (items st q)" "p \<in> set (allocated st)" "q \<in> set (allocated st)" using id S by simp_all
    then show "p = q" by (rule inj_onD [OF inj])
  qed
  moreover have "X ` set (item_list st) = set D"
  proof
    show "X ` set (item_list st) \<subseteq> set D" using X by auto
    show "set D \<subseteq> X ` set (item_list st)"
    proof
      fix x assume x: "x \<in> set D"
      then obtain q where q: "q \<in> set (item_list st)" "internal_id (items st q) = sd_id x" using assms(1) S unfolding attached_def by blast
      then have "X q = x" using disk_image_unique(1) [OF assms(2) _ x] X id by auto
      then show "x \<in> X ` set (item_list st)" using q(1) by auto
    qed
  qed
  ultimately show thesis using that S X by blast
qed

lemma final_lists_ok:
  assumes "attached D Y st" "set (allocated st) = set (item_list st)" "\<And>q. q \<in> set (item_list st) \<Longrightarrow> keyed_item (indices st) (X q) (items st q)"
    and "\<And>q. q \<in> set (item_list st) \<Longrightarrow> same_ident (items st q) (h q)"
  shows "lists_ok (st\<lparr>items := h\<rparr>)"
proof -
  let ?S = "set (item_list st)"
  have a: "index_sets st (\<lambda>i. if i = INTERNAL_ID_INDEX then set (allocated st) else ?S)" "distinct (allocated st)" "distinct (item_list st)"
    "28 \<le> initial_tsc_buf_size st" "initial_tsc_buf_size st + 38 \<le> 2 ^ 20" using assms(1) unfolding attached_def by blast+
  have "index_sets st (\<lambda>_. ?S)" using a(1) unfolding assms(2) by simp
  then have "index_sets (st\<lparr>items := h\<rparr>) (\<lambda>_. ?S)" by (rule index_sets_cong) (use assms(4) in \<open>auto simp: same_ident_def\<close>)
  then have "indices_ok (st\<lparr>items := h\<rparr>) ?S" by (simp add: index_sets_def indices_ok_def)
  moreover have "index_vals_ok (indices st) (h q)" if "q \<in> ?S" for q
    using assms(3,4) [OF that] index_vals_same by (auto simp: keyed_item_def same_ident_def)
  ultimately show ?thesis using a(2-5) assms(2) by (simp add: lists_ok_def)
qed

lemma final_data_ok:
  assumes "disk_ok (data_disk_store st) m" "disk_image m (initial_tsc_buf_size st) D" "inj_on X (set (item_list st))" "X ` set (item_list st) = set D"
    and "\<And>q. q \<in> set (item_list st) \<Longrightarrow> final_item m (initial_tsc_buf_size st) (X q) (items st q)"
  shows "data_ok st m (\<lambda>q. (sd_blks (X q), sd_cur (X q)))"
proof -
  let ?S = "set (item_list st)"
  have XD: "X q \<in> set D" if "q \<in> ?S" for q using assms(4) that by auto
  have o: "offs_of (items st q) = sd_places (X q)" if "q \<in> ?S" for q using assms(5) [OF that] by (simp add: final_item_def)
  have dist: "distinct (sd_places x)" if "x \<in> set D" for x using assms(2) that unfolding disk_image_def by (auto simp: distinct_concat_iff)
  have "set (sd_places (X p)) \<inter> set (sd_places (X q)) = {}" if pq: "p \<in> ?S" "q \<in> ?S" "p \<noteq> q" for p q
  proof -
    have "X p \<noteq> X q" using pq assms(3) by (auto simp: inj_on_def)
    then show ?thesis using disk_image_unique(2) [OF assms(2) XD [OF pq(1)] XD [OF pq(2)]] by blast
  qed
  moreover have "dom m = (\<Union>q\<in>?S. set (offs_of (items st q)))"
  proof -
    have "dom m = (\<Union>x\<in>set D. set (sd_places x))" using assms(2) by (simp add: disk_image_def)
    also have "\<dots> = (\<Union>q\<in>?S. set (sd_places (X q)))" unfolding assms(4) [symmetric] by simp
    also have "\<dots> = (\<Union>q\<in>?S. set (offs_of (items st q)))" using o by simp
    finally show ?thesis .
  qed
  ultimately show ?thesis using assms(1,5) o dist XD unfolding data_ok_def final_item_def by simp
qed

lemma final_keys_ok:
  assumes "disk_ok (key_disk_store st) mk" "key_image mk D" "inj_on X (set (item_list st))" "X ` set (item_list st) = set D" "disk_image m n D"
    and "\<And>q. q \<in> set (item_list st) \<Longrightarrow> internal_id (items st q) = sd_id (X q) \<and> key_is (items st q) (sd_key (X q)) \<and> key_storage_offset (items st q) = sd_key_off (X q)"
    and "\<forall>q\<in>set (item_list st). internal_id (items st q) < next_internal_id st" "0 < next_internal_id st"
  shows "keys_ok st mk"
proof -
  let ?S = "set (item_list st)"
  have XD: "X q \<in> set D" if "q \<in> ?S" for q using assms(4) that by auto
  have ki: "valid_key (sd_key x) \<and> sd_key_off x \<noteq> 0 \<and> 0 < sd_id x \<and>
      (\<exists>y. mk (unat (sd_key_off x)) = Some (BLOCK_STATUS_VALID, le_bytes (of_nat (length (sd_key x)) :: u16) @ sd_key x @ le_bytes (sd_id x) @ y))" if "x \<in> set D" for x
    using assms(2) that unfolding key_image_def by blast
  have stored: "key_stored mk (items st q)" if q: "q \<in> ?S" for q
  proof -
    have "unat (key_len (items st q)) = length (sd_key (X q))" using assms(6) [OF q] by (simp add: key_is_def)
    then have "key_len (items st q) = of_nat (length (sd_key (X q)))" by (metis of_nat_unat ucast_id)
    then show ?thesis using assms(6) [OF q] ki [OF XD [OF q]] unfolding key_stored_def valid_key_def by fastforce
  qed
  have iX: "p = q" if "p \<in> ?S" "q \<in> ?S" "X p = X q" for p q using assms(3) that by (auto simp: inj_on_def)
  have inj: "inj_on sd_key (set D)" "inj_on sd_key_off (set D)" using assms(2) by (simp_all add: key_image_def)
  have "inj_on (\<lambda>p. key (items st p)) ?S"
  proof (rule inj_onI)
    fix p q assume pq: "p \<in> ?S" "q \<in> ?S" "key (items st p) = key (items st q)"
    then have "sd_key (X p) = sd_key (X q)" using assms(6) by (simp add: key_is_def)
    then show "p = q" using iX [OF pq(1,2)] inj_onD [OF inj(1)] XD pq by blast
  qed
  moreover have "inj_on (\<lambda>p. key_storage_offset (items st p)) ?S"
  proof (rule inj_onI)
    fix p q assume pq: "p \<in> ?S" "q \<in> ?S" "key_storage_offset (items st p) = key_storage_offset (items st q)"
    then have "sd_key_off (X p) = sd_key_off (X q)" using assms(6) by simp
    then show "p = q" using iX [OF pq(1,2)] inj_onD [OF inj(2)] XD pq by blast
  qed
  moreover have "inj_on (\<lambda>p. internal_id (items st p)) ?S"
  proof (rule inj_onI)
    fix p q assume pq: "p \<in> ?S" "q \<in> ?S" "internal_id (items st p) = internal_id (items st q)"
    then have "sd_id (X p) = sd_id (X q)" using assms(6) by simp
    then show "p = q" using iX [OF pq(1,2)] disk_image_unique(1) [OF assms(5)] XD pq by blast
  qed
  moreover have "dom mk = (\<lambda>p. unat (key_storage_offset (items st p))) ` ?S"
  proof -
    have "dom mk = (\<lambda>x. unat (sd_key_off x)) ` X ` ?S" using assms(2) unfolding assms(4) by (simp add: key_image_def)
    then show ?thesis using assms(6) by (auto simp: image_image intro!: image_cong)
  qed
  moreover have "\<forall>p\<in>?S. 0 < internal_id (items st p)" using assms(6) ki XD by simp
  ultimately show ?thesis using assms(1,7,8) stored unfolding keys_ok_def by blast
qed

lemma final_db:
  assumes "keys_ok st mk" "key_image mk D" "X ` set (item_list st) = set D" "\<And>q. q \<in> set (item_list st) \<Longrightarrow> key_is (items st q) (sd_key (X q))"
  shows "db_of st (\<lambda>q. (sd_blks (X q), sd_cur (X q))) = disk_db D"
proof
  fix k
  show "db_of st (\<lambda>q. (sd_blks (X q), sd_cur (X q))) k = disk_db D k"
  proof (cases "\<exists>x\<in>set D. sd_key x = k")
    case True
    then obtain q where q: "q \<in> set (item_list st)" "sd_key (X q) = k" unfolding assms(3) [symmetric] by auto
    have "find (\<lambda>x. sd_key x = k) D = Some (X q)"
    proof -
      obtain y where y: "find (\<lambda>x. sd_key x = k) D = Some y" using True by (cases "find (\<lambda>x. sd_key x = k) D") (auto simp: find_None_iff)
      have "X q \<in> set D" using assms(3) q(1) by auto
      then have "y = X q" using find_SomeD [OF y] q(2) assms(2) by (auto simp: key_image_def inj_on_def)
      then show ?thesis using y by simp
    qed
    then show ?thesis using db_of_eq [OF assms(1) q(1), of k] assms(4) [OF q(1)] q(2) by (simp add: disk_db_def series_def)
  next
    case False
    have "\<not> key_is (items st p) k" if p: "p \<in> set (item_list st)" for p
    proof
      assume "key_is (items st p) k"
      then have "sd_key (X p) = k" using assms(4) [OF p] by (simp add: key_is_def)
      then show False using False p assms(3) by auto
    qed
    from db_of_None [OF this assms(1)] show ?thesis using False by (auto simp: disk_db_def find_None_iff)
  qed
qed


text \<open>The database on disk has positive time stamps, and every series has a block.\<close>

definition disk_ready :: "series_disk list \<Rightarrow> bool" where
  "disk_ready D \<longleftrightarrow> (\<forall>x\<in>set D. sd_offs x \<noteq> [] \<and> (\<forall>q\<in>set (concat (sd_blks x) @ sd_cur x). 0 < sint (fst q)))"

lemma card_items:
  assumes "attached D Y st" "S \<subseteq> set (item_list st)"
  shows "card S < 2 ^ 63"
proof -
  have a: "inj_on (\<lambda>q. internal_id (items st q)) (set (allocated st))" "set (item_list st) \<subseteq> set (allocated st)"
    "\<forall>q\<in>set (item_list st). internal_id (items st q) < next_internal_id st" "unat (next_internal_id st) \<le> 2 ^ 62" using assms(1) unfolding attached_def by blast+
  have i: "inj_on (\<lambda>q. unat (internal_id (items st q))) S"
    using a(1,2) assms(2) by (auto simp: inj_on_def word_unat_eq_iff [symmetric])
  have "(\<lambda>q. unat (internal_id (items st q))) ` S \<subseteq> {..<2 ^ 62}"
    using a(3,4) assms(2) by (fastforce simp: word_less_nat_alt)
  from card_mono [OF _ this] have "card S \<le> 2 ^ 62" using card_image [OF i] by simp
  then show ?thesis by simp
qed

lemma load_checks:
  assumes "attached D (dom mk) st" "disk_image m (initial_tsc_buf_size st) D" "key_image mk D" "disk_ready D"
    and "disk_ok (data_disk_store st) m" "disk_ok (key_disk_store st) mk"
  shows "\<exists>ps h. items_by_id st = Some ps \<and> for_each check_key ps st = Some st \<and> for_each check_last_block ps st = Some (st\<lparr>items := h\<rparr>) \<and>
    storage_good (st\<lparr>items := h\<rparr>) (disk_db D)"
proof -
  let ?n = "initial_tsc_buf_size st" and ?S = "set (item_list st)"
  obtain X where X: "set (allocated st) = ?S" "inj_on X ?S" "X ` ?S = set D"
    and wk: "\<And>q. q \<in> ?S \<Longrightarrow> whole_item ?n (X q) (items st q) \<and> keyed_item (indices st) (X q) (items st q)" by (rule attached_all [OF assms(1-3)]) blast
  have XD: "X q \<in> set D" if "q \<in> ?S" for q using X(3) that by auto
  have at: "index_sets st (\<lambda>i. if i = INTERNAL_ID_INDEX then set (allocated st) else ?S)" "\<forall>q\<in>?S. internal_id (items st q) < next_internal_id st" "0 < next_internal_id st"
    using assms(1) unfolding attached_def by blast+
  have ix: "item_index (item_cmp (items st) INTERNAL_ID_INDEX) (root st ! INTERNAL_ID_INDEX)" "tree_set (root st ! INTERNAL_ID_INDEX) = ?S"
    using at(1) special_index(1) [of st] X(1) by (simp_all add: index_sets_def)
  obtain ps where ps: "items_by_id st = Some ps" "distinct ps" "set ps = ?S" using items_by_id_ok [OF ix card_items [OF assms(1)]] by blast
  have "\<exists>st'. for_each check_key ps st = Some st' \<and> st' = st"
  proof (rule for_each_inv [where P = "\<lambda>s. s = st"])
    fix p s assume p: "p \<in> set ps" "s = st"
    then have "valid_key (sd_key (X p))" using XD ps(3) assms(3) unfolding key_image_def by blast
    moreover have "unat (key_len (items st p)) = length (sd_key (X p))" using wk p(1) ps(3) by (auto simp: keyed_item_def key_is_def)
    ultimately show "\<exists>st'. check_key p s = Some st' \<and> st' = st" using valid_key_len p(2) by (simp add: check_key_def)
  qed simp
  then have ck: "for_each check_key ps st = Some st" by simp
  let ?Q = "\<lambda>p item. final_item m ?n (X p) item \<and> same_ident (items st p) item"
  have "\<exists>h. for_each check_last_block ps st = Some (st\<lparr>items := h\<rparr>) \<and> (\<forall>p\<in>set ps. ?Q p (h p)) \<and> (\<forall>p. p \<notin> set ps \<longrightarrow> h p = items st p)"
  proof (rule for_each_items [where P = "\<lambda>p i. p \<in> ?S \<and> i = items st p"])
    fix p and s :: the_storage assume p: "p \<in> ?S \<and> items s p = items st p"
    then have x: "X p \<in> set D" using XD by blast
    have w: "whole_item ?n (X p) (items s p)" using wk p by simp
    have d: "disk_series m ?n (X p)" "by_time (sd_offs (X p))" using assms(2) x by (simp_all add: disk_image_def)
    have "sd_offs (X p) \<noteq> []" using assms(4) x by (simp add: disk_ready_def)
    from check_last_block_ok [OF w d this] show "\<exists>item. check_last_block p s = Some (s\<lparr>items := (items s)(p := item)\<rparr>) \<and> ?Q p item" using p by simp
  qed (use ps in auto)
  then obtain h where h: "for_each check_last_block ps st = Some (st\<lparr>items := h\<rparr>)" "\<And>p. p \<in> ?S \<Longrightarrow> ?Q p (h p)" unfolding ps(3) by blast
  let ?st = "st\<lparr>items := h\<rparr>" and ?G = "\<lambda>q. (sd_blks (X q), sd_cur (X q))"
  have id: "internal_id (h q) = sd_id (X q) \<and> key_is (h q) (sd_key (X q)) \<and> key_storage_offset (h q) = sd_key_off (X q)" if "q \<in> ?S" for q
    using wk [OF that] h(2) [OF that] by (simp add: whole_item_def keyed_item_def key_is_def same_ident_def same_key_def)
  have l: "lists_ok ?st" by (rule final_lists_ok [OF assms(1) X(1)]) (use wk h(2) in blast)+
  have d: "data_ok ?st m ?G" by (rule final_data_ok) (use assms(2,5) X(2,3) h(2) in simp_all)
  have k: "keys_ok ?st mk"
    by (rule final_keys_ok [OF _ assms(3) _ _ assms(2)]) (use assms(6) X(2,3) id at(2,3) wk in \<open>auto simp: whole_item_def\<close>)
  have "times_ok ?st ?G" unfolding times_ok_def
  proof (intro ballI)
    fix p q assume "p \<in> set (item_list ?st)" "q \<in> set (series (?G p))"
    then have "X p \<in> set D" "q \<in> set (concat (sd_blks (X p)) @ sd_cur (X p))" using XD by (simp_all add: series_def)
    then show "0 < sint (fst q)" using assms(4) unfolding disk_ready_def by blast
  qed
  then have "store_ok ?st ?G" using l d k by (auto simp: store_ok_def)
  moreover have ki: "key_is (items ?st q) (sd_key (X q))" if "q \<in> set (item_list ?st)" for q using id [of q] that by simp
  have "X ` set (item_list ?st) = set D" using X(3) by simp
  from final_db [OF k assms(3) this ki] have "db_of ?st ?G = disk_db D" .
  ultimately have "storage_good ?st (disk_db D)" unfolding storage_good_def by (intro exI [of _ ?G]) simp
  then show ?thesis using ps(1) ck h(1) by blast
qed

lemma storage_load_ok:
  assumes "disk_ok (data_disk_store st) m" "disk_image m (initial_tsc_buf_size st) D" "disk_ok (key_disk_store st) mk" "key_image mk D" "disk_ready D"
    and "no_keys st" "env_ok env" "allocated st = []" "root st ! INTERNAL_ID_INDEX = Null"
  shows "\<exists>st'. storage_load env st = Some (0, st') \<and> storage_good st' (disk_db D) \<and> indices st' = indices st \<and>
    initial_tsc_buf_size st' = initial_tsc_buf_size st \<and> retention_seconds st' = retention_seconds st"
proof -
  obtain st1 ds1 where s1: "load_data_loop env True st = Some (0, st1)" "loaded D (dom m) st1" "no_keys st1" "same_config (st\<lparr>data_disk_store := ds1\<rparr>) st1" "disk_ok ds1 m"
    using load_data_ok [OF assms(1,2,6-9)] by blast
  have e1: "data_disk_store st1 = ds1" "key_disk_store st1 = key_disk_store st" "initial_tsc_buf_size st1 = initial_tsc_buf_size st" "indices st1 = indices st"
    "retention_seconds st1 = retention_seconds st" using s1(4) by (simp_all add: same_config_def)
  have "attached D {} st1" by (rule attached_start [OF s1(2,3)]) (use assms(2,5) e1(3) in \<open>simp_all add: disk_ready_def\<close>)
  moreover have "disk_ok (key_disk_store st1) mk" using assms(3) e1(2) by simp
  ultimately obtain st2 ds2 where s2: "load_key_loop env True st1 = Some (0, st2)" "attached D (dom mk) st2" "same_config (st1\<lparr>key_disk_store := ds2\<rparr>) st2" "disk_ok ds2 mk"
    using load_keys_ok [OF _ assms(2,4,7)] by blast
  have e2: "data_disk_store st2 = ds1" "key_disk_store st2 = ds2" "initial_tsc_buf_size st2 = initial_tsc_buf_size st" "indices st2 = indices st"
    "retention_seconds st2 = retention_seconds st" using s2(3) e1 by (simp_all add: same_config_def)
  have "\<exists>ps h. items_by_id st2 = Some ps \<and> for_each check_key ps st2 = Some st2 \<and> for_each check_last_block ps st2 = Some (st2\<lparr>items := h\<rparr>) \<and>
    storage_good (st2\<lparr>items := h\<rparr>) (disk_db D)"
    by (rule load_checks [OF s2(2) _ assms(4,5)]) (use assms(2) s1(5) s2(4) e2 in simp_all)
  then obtain ps h where "items_by_id st2 = Some ps" "for_each check_key ps st2 = Some st2" "for_each check_last_block ps st2 = Some (st2\<lparr>items := h\<rparr>)"
    "storage_good (st2\<lparr>items := h\<rparr>) (disk_db D)" by blast
  then show ?thesis using s1(1) s2(1) e2 by (intro exI [of _ "st2\<lparr>items := h\<rparr>"]) (simp add: storage_load_def)
qed


end
