(* ===== verification/Storage_Durable.thy ===== *)
theory Storage_Durable
  imports Storage_Restart
begin

text \<open>
  What survives a restart: \<^verbatim>\<open>storage_init\<close> on the files that a storage leaves behind. Without more, each series comes
  back up to the points that were in memory only; after \<^verbatim>\<open>storage_sync\<close> the whole database does.
\<close>

section \<open>\<^verbatim>\<open>storage_init\<close>\<close>

lemma storage_init_ok:
  assumes "disk_ok dsk mk" "disk_ok dsd m" "disk_image m n D" "key_image mk D" "disk_ready D" "env_ok env" "28 \<le> n" "n + 38 \<le> 2 ^ 20"
  shows "\<exists>st. storage_init env retention n inds (ds_file dsk, ds_scratch dsk) (ds_file dsd, ds_scratch dsd) = Some (0, Some st) \<and> storage_good st (disk_db D) \<and>
    indices st = inds \<and> initial_tsc_buf_size st = n \<and> retention_seconds st = retention"
proof -
  obtain kds where k: "disk_storage_open (ds_file dsk) (ds_scratch dsk) = Some (0, kds)" "disk_ok kds mk" using dk.restart_law [OF assms(1)] by blast
  obtain dds where d: "disk_storage_open (ds_file dsd) (ds_scratch dsd) = Some (0, dds)" "disk_ok dds m" using dk.restart_law [OF assms(2)] by blast
  let ?st = "\<lparr>initial_tsc_buf_size = n, retention_seconds = retention, next_internal_id = 1,
            item_list = [], indices = inds, root = replicate (NUM_SPECIAL_INDICES + length inds) Null,
            key_disk_store = kds, data_disk_store = dds, items = (\<lambda>_. blank_item), allocated = []\<rparr>"
  have "no_keys ?st" using assms(7,8) by (simp add: no_keys_def num_roots_def)
  moreover have "root ?st ! INTERNAL_ID_INDEX = Null" by (simp add: index_defs)
  ultimately have "\<exists>st'. storage_load env ?st = Some (0, st') \<and> storage_good st' (disk_db D) \<and> indices st' = indices ?st \<and>
    initial_tsc_buf_size st' = initial_tsc_buf_size ?st \<and> retention_seconds st' = retention_seconds ?st"
    by (intro storage_load_ok) (use k(2) d(2) assms(3-6) in simp_all)
  then show ?thesis using k(1) d(1) by (auto simp: storage_init_def)
qed

section \<open>The disk of a storage\<close>

text \<open>The points of the block in memory that are on disk.\<close>

definition saved_part :: "(nat \<Rightarrow> (u8 \<times> byte list) option) \<Rightarrow> nat \<Rightarrow> storage_item \<Rightarrow> point list \<Rightarrow> point list \<Rightarrow> bool" where
  "saved_part m n item cur c \<longleftrightarrow>
     (if data_offsets item = [] \<or> fst (last (data_offsets item)) = 0 then c = []
      else (\<exists>new. cur = c @ new) \<and> saved_of (internal_id item) n (m (unat (fst (last (data_offsets item))))) c)"

lemma saved_part_ex: "item_ok m n item blks cur \<Longrightarrow> \<exists>c. saved_part m n item cur c"
proof -
  assume ok: "item_ok m n item blks cur"
  show ?thesis
  proof (cases "data_offsets item = [] \<or> fst (last (data_offsets item)) = 0")
    case True
    then show ?thesis by (auto simp: saved_part_def)
  next
    case False
    then obtain os e where "data_offsets item = os @ [e]" "last_ok m (internal_id item) n e cur" using ok by (auto simp: item_ok_def)
    then show ?thesis using False unfolding saved_part_def last_ok_def by auto
  qed
qed

lemma saved_part_prefix: "saved_part m n item cur c \<Longrightarrow> \<exists>new. cur = c @ new"
  by (auto simp: saved_part_def split: if_splits)

definition disk_of :: "storage_item \<Rightarrow> point list list \<Rightarrow> point list \<Rightarrow> series_disk" where
  "disk_of item blks c = \<lparr>sd_id = internal_id item, sd_offs = [e \<leftarrow> data_offsets item. fst e \<noteq> 0], sd_blks = blks, sd_cur = c,
     sd_key = butlast (the (key item)), sd_key_off = key_storage_offset item\<rparr>"

lemma disk_of_sel [simp]: "sd_id (disk_of item blks c) = internal_id item" "sd_blks (disk_of item blks c) = blks" "sd_cur (disk_of item blks c) = c"
  "sd_key_off (disk_of item blks c) = key_storage_offset item" "sd_places (disk_of item blks c) = offs_of item"
  by (simp_all add: disk_of_def sd_places_def offs_of_def)

lemma disk_of_key: "key_is item k \<Longrightarrow> sd_key (disk_of item blks c) = k"
  by (simp add: disk_of_def key_is_def)

text \<open>Blocks of a series in increasing order start one after the other.\<close>

lemma starts_increase:
  assumes "list_all2 (complete_ok m iid n) os blks" "increasing (concat blks)"
  shows "sorted_wrt (\<lambda>a b. sint (snd a) < sint (snd b)) os \<and> (\<forall>e\<in>set os. snd e \<in> fst ` set (concat blks))"
  using assms
proof (induction os blks rule: list_all2_induct)
  case (Cons e os b blks)
  have b: "hd b \<in> set b" "snd e = fst (hd b)" using Cons.hyps(1) by (auto simp: complete_ok_def valid_of_def)
  have inc: "increasing (concat blks)" "\<forall>x\<in>set b. \<forall>y\<in>set (concat blks). sint (fst x) < sint (fst y)" using Cons.prems by (simp_all add: increasing_def sorted_wrt_append)
  note ih = Cons.IH [OF inc(1)]
  have "sint (snd e) < sint (snd e')" if "e' \<in> set os" for e' using ih that inc(2) b by force
  moreover have "snd e' \<in> fst ` set (concat (b # blks))" if "e' \<in> set (e # os)" for e'
    using that ih b by (cases "e' = e") (auto simp: image_Un)
  ultimately show ?case using ih by simp
qed simp

lemma disk_of_ok:
  assumes "item_ok m n item blks cur" "saved_part m n item cur c" "increasing (concat blks @ cur)" "\<forall>q\<in>set (concat blks @ cur). 0 < sint (fst q)"
  shows "disk_series m n (disk_of item blks c)" "by_time (sd_offs (disk_of item blks c))"
proof -
  have "disk_series m n (disk_of item blks c) \<and> by_time (sd_offs (disk_of item blks c))"
  proof (cases "data_offsets item = []")
    case True
    then have "blks = []" "c = []" using assms(1,2) by (auto simp: item_ok_def saved_part_def)
    then show ?thesis using True by (simp add: disk_series_def disk_of_def by_time_def)
  next
    case False
    then obtain os e where o: "data_offsets item = os @ [e]" "list_all2 (complete_ok m (internal_id item) n) os blks" "last_ok m (internal_id item) n e cur"
      using assms(1) by (auto simp: item_ok_def)
    have nz: "fst a \<noteq> 0" if "a \<in> set os" for a using list_all2_mem [OF o(2) that] by (auto simp: complete_ok_def)
    have inc: "increasing (concat blks)" "\<forall>x\<in>set (concat blks). \<forall>y\<in>set cur. sint (fst x) < sint (fst y)" using assms(3) by (simp_all add: increasing_def sorted_wrt_append)
    note st = starts_increase [OF o(2) inc(1)]
    have pos: "0 < sint (snd a)" if "a \<in> set os" for a using st that assms(4) by force
    show ?thesis
    proof (cases "fst e = 0")
      case True
      then have "sd_offs (disk_of item blks c) = os" "c = []" using o(1) nz assms(2) by (simp_all add: disk_of_def saved_part_def)
      then show ?thesis using o(2) st nz pos by (auto simp: disk_series_def by_time_def)
    next
      case False
      then have offs: "sd_offs (disk_of item blks c) = os @ [e]" using o(1) nz by (simp add: disk_of_def)
      obtain new where c: "cur = c @ new" "saved_of (internal_id item) n (m (unat (fst e))) c" using assms(2) o(1) False by (auto simp: saved_part_def)
      have ne: "c \<noteq> []" using c(2) by (simp add: saved_of_def)
      have t: "snd e = fst (hd cur)" "hd cur \<in> set cur" "hd cur = hd c" using o(3) False ne c(1) by (simp_all add: last_ok_def)
      have "sint (snd a) < sint (snd e)" if "a \<in> set os" for a using st that inc(2) t by force
      then have "by_time (os @ [e])" using st nz pos False t assms(4) by (auto simp: by_time_def sorted_wrt_append)
      moreover have "disk_series m n (disk_of item blks c)" unfolding disk_series_def offs using o(2) c(2) t False by auto
      ultimately show ?thesis using offs by simp
    qed
  qed
  then show "disk_series m n (disk_of item blks c)" "by_time (sd_offs (disk_of item blks c))" by simp_all
qed

text \<open>All series of a storage.\<close>

definition disk_all :: "the_storage \<Rightarrow> (ptr \<Rightarrow> point list list \<times> point list) \<Rightarrow> (ptr \<Rightarrow> point list) \<Rightarrow> series_disk list" where
  "disk_all st G C = map (\<lambda>p. disk_of (items st p) (fst (G p)) (C p)) (item_list st)"

lemma disk_all_image:
  assumes "distinct (item_list st)" "data_ok st m G" "times_ok st G" "inj_on (\<lambda>p. internal_id (items st p)) (set (item_list st))"
    and "\<forall>p\<in>set (item_list st). increasing (series (G p)) \<and> saved_part m (initial_tsc_buf_size st) (items st p) (snd (G p)) (C p)"
  shows "disk_image m (initial_tsc_buf_size st) (disk_all st G C)"
proof -
  let ?S = "set (item_list st)"
  have d: "\<forall>p\<in>?S. item_ok m (initial_tsc_buf_size st) (items st p) (fst (G p)) (snd (G p)) \<and> distinct (offs_of (items st p))"
    "\<forall>p\<in>?S. \<forall>q\<in>?S. p \<noteq> q \<longrightarrow> set (offs_of (items st p)) \<inter> set (offs_of (items st q)) = {}" "dom m = (\<Union>p\<in>?S. set (offs_of (items st p)))"
    using assms(2) by (simp_all add: data_ok_def)
  have ser: "disk_series m (initial_tsc_buf_size st) x \<and> by_time (sd_offs x)" if "x \<in> set (disk_all st G C)" for x
  proof -
    obtain p where p: "p \<in> ?S" "x = disk_of (items st p) (fst (G p)) (C p)" using \<open>x \<in> _\<close> by (auto simp: disk_all_def)
    have "\<forall>q\<in>set (concat (fst (G p)) @ snd (G p)). 0 < sint (fst q)" using assms(3) p(1) by (auto simp: times_ok_def series_def)
    then show ?thesis using disk_of_ok [of m "initial_tsc_buf_size st" "items st p" "fst (G p)" "snd (G p)" "C p"] d(1) assms(5) p by (simp add: series_def)
  qed
  have pl: "map sd_places (disk_all st G C) = map (\<lambda>p. offs_of (items st p)) (item_list st)" by (simp add: disk_all_def o_def)
  have "distinct (concat (map (\<lambda>p. offs_of (items st p)) ps))" if "distinct ps" "set ps \<subseteq> ?S" for ps
    using that
  proof (induction ps)
    case (Cons p ps)
    have "set (offs_of (items st p)) \<inter> set (offs_of (items st q)) = {}" if q: "q \<in> set ps" for q
    proof -
      have "p \<noteq> q" "p \<in> ?S" "q \<in> ?S" using q Cons.prems by auto
      then show ?thesis using d(2) by blast
    qed
    then show ?case using Cons d(1) by auto
  qed simp
  then have "distinct (concat (map sd_places (disk_all st G C)))" unfolding pl using assms(1) by simp
  moreover have "distinct (map sd_id (disk_all st G C))" using assms(1,4) by (simp add: disk_all_def o_def distinct_map)
  moreover have "dom m = set (concat (map sd_places (disk_all st G C)))" unfolding pl using d(3) by simp
  ultimately show ?thesis using ser by (simp add: disk_image_def)
qed

lemma disk_all_keys:
  assumes "keys_ok st mk" "unat (next_internal_id st) \<le> 2 ^ 62"
  shows "key_image mk (disk_all st G C)"
proof -
  let ?S = "set (item_list st)" and ?x = "\<lambda>p. disk_of (items st p) (fst (G p)) (C p)"
  have D: "set (disk_all st G C) = ?x ` ?S" by (simp add: disk_all_def)
  have k: "key_stored mk (items st p)" "0 < internal_id (items st p)" "internal_id (items st p) < next_internal_id st" if "p \<in> ?S" for p
    using assms(1) that by (simp_all add: keys_ok_def)
  have kk: "key_is (items st p) (sd_key (?x p))" if "p \<in> ?S" for p using key_stored_is [OF k(1) [OF that]] disk_of_key by auto
  have inj: "inj_on (\<lambda>p. key (items st p)) ?S" "inj_on (\<lambda>p. key_storage_offset (items st p)) ?S" using assms(1) by (simp_all add: keys_ok_def)
  have "inj_on sd_key (?x ` ?S)"
  proof (rule inj_onI)
    fix a b assume "a \<in> ?x ` ?S" "b \<in> ?x ` ?S" and e: "sd_key a = sd_key b"
    then obtain p q where pq: "p \<in> ?S" "a = ?x p" "q \<in> ?S" "b = ?x q" by auto
    then have "key (items st p) = key (items st q)" using kk [OF pq(1)] kk [OF pq(3)] e by (simp add: key_is_def)
    then show "a = b" using inj_onD [OF inj(1)] pq by blast
  qed
  moreover have "inj_on sd_key_off (?x ` ?S)"
  proof (rule inj_onI)
    fix a b assume "a \<in> ?x ` ?S" "b \<in> ?x ` ?S" and e: "sd_key_off a = sd_key_off b"
    then obtain p q where pq: "p \<in> ?S" "a = ?x p" "q \<in> ?S" "b = ?x q" by auto
    then have "key_storage_offset (items st p) = key_storage_offset (items st q)" using e by simp
    then show "a = b" using inj_onD [OF inj(2)] pq by blast
  qed
  moreover have "dom mk = (\<lambda>x. unat (sd_key_off x)) ` ?x ` ?S" using assms(1) by (simp add: keys_ok_def image_image)
  moreover have "valid_key (sd_key (?x p)) \<and> sd_key_off (?x p) \<noteq> 0 \<and> 0 < sd_id (?x p) \<and> unat (sd_id (?x p)) < 2 ^ 62 \<and>
      (\<exists>y. mk (unat (sd_key_off (?x p))) = Some (BLOCK_STATUS_VALID, le_bytes (of_nat (length (sd_key (?x p))) :: u16) @ sd_key (?x p) @ le_bytes (sd_id (?x p)) @ y))" if p: "p \<in> ?S" for p
  proof -
    obtain key y where y: "key_is (items st p) key" "valid_key key" "key_storage_offset (items st p) \<noteq> 0"
      "mk (unat (key_storage_offset (items st p))) = Some (BLOCK_STATUS_VALID, le_bytes (key_len (items st p)) @ key @ le_bytes (internal_id (items st p)) @ y)"
      using k(1) [OF p] unfolding key_stored_def valid_key_def by blast
    have "key_len (items st p) = of_nat (length key)" using y(1) unfolding key_is_def by (metis of_nat_unat ucast_id)
    moreover have "unat (internal_id (items st p)) < 2 ^ 62" using k(3) [OF p] assms(2) by (simp add: word_less_nat_alt)
    ultimately show ?thesis using y k(2) [OF p] disk_of_key [OF y(1)] by simp
  qed
  ultimately show ?thesis unfolding key_image_def D by blast
qed


lemma find_map: "find P (map f xs) = map_option f (find (P \<circ> f) xs)"
  by (induction xs) simp_all

lemma disk_all_db:
  assumes "keys_ok st mk"
  shows "disk_db (disk_all st G C) = db_of st (\<lambda>p. (fst (G p), C p))"
proof
  fix k
  have "find (\<lambda>p. sd_key (disk_of (items st p) (fst (G p)) (C p)) = k) (item_list st) = find (\<lambda>p. key (items st p) = Some (k @ [0])) (item_list st)"
  proof (rule find_cong_on)
    fix p assume "p \<in> set (item_list st)"
    then obtain k' where k': "key_is (items st p) k'" using keys_is [OF assms] by blast
    show "(sd_key (disk_of (items st p) (fst (G p)) (C p)) = k) = (key (items st p) = Some (k @ [0]))" unfolding disk_of_key [OF k'] using k' by (auto simp: key_is_def)
  qed
  then show "disk_db (disk_all st G C) k = db_of st (\<lambda>p. (fst (G p), C p)) k"
    by (simp add: disk_db_def disk_all_def find_map db_of_def o_def option.map_comp series_def)
qed

section \<open>Starting again\<close>

abbreviation storage_restart :: "c_env \<Rightarrow> int \<Rightarrow> byte list list \<Rightarrow> the_storage \<Rightarrow> (int \<times> the_storage option) option" where
  "storage_restart env retention inds st \<equiv> storage_init env retention (initial_tsc_buf_size st) inds
     (ds_file (key_disk_store st), ds_scratch (key_disk_store st)) (ds_file (data_disk_store st), ds_scratch (data_disk_store st))"

lemma restart_saved:
  assumes "lists_ok st" "times_ok st G" "data_ok st m G" "keys_ok st mk" "env_ok env" "unat (next_internal_id st) \<le> 2 ^ 62"
    and sv: "\<forall>p\<in>set (item_list st). increasing (series (G p)) \<and> saved_part m (initial_tsc_buf_size st) (items st p) (snd (G p)) (C p)"
    and offs: "\<forall>p\<in>set (item_list st). offs_of (items st p) \<noteq> []"
  shows "\<exists>st'. storage_restart env retention inds st = Some (0, Some st') \<and> storage_good st' (db_of st (\<lambda>p. (fst (G p), C p))) \<and>
    indices st' = inds \<and> initial_tsc_buf_size st' = initial_tsc_buf_size st \<and> retention_seconds st' = retention"
proof -
  let ?D = "disk_all st G C"
  have l: "distinct (item_list st)" "28 \<le> initial_tsc_buf_size st" "initial_tsc_buf_size st + 38 \<le> 2 ^ 20" using assms(1) by (simp_all add: lists_ok_def)
  have ds: "disk_ok (key_disk_store st) mk" "disk_ok (data_disk_store st) m" "inj_on (\<lambda>p. internal_id (items st p)) (set (item_list st))"
    using assms(3,4) by (simp_all add: data_ok_def keys_ok_def)
  have "sd_offs x \<noteq> [] \<and> (\<forall>q\<in>set (concat (sd_blks x) @ sd_cur x). 0 < sint (fst q))" if x: "x \<in> set ?D" for x
  proof -
    obtain p where p: "p \<in> set (item_list st)" "x = disk_of (items st p) (fst (G p)) (C p)" using x by (auto simp: disk_all_def)
    have "sd_places x \<noteq> []" using offs p by simp
    then have "sd_offs x \<noteq> []" by (auto simp: sd_places_def)
    moreover obtain new where "snd (G p) = C p @ new" using saved_part_prefix sv p(1) by blast
    then have "set (concat (sd_blks x) @ sd_cur x) \<subseteq> set (series (G p))" using p(2) by (auto simp: series_def)
    then have "\<forall>q\<in>set (concat (sd_blks x) @ sd_cur x). 0 < sint (fst q)" using assms(2) p(1) unfolding times_ok_def by blast
    ultimately show ?thesis by blast
  qed
  then have "disk_ready ?D" by (simp add: disk_ready_def)
  from storage_init_ok [OF ds(1,2) disk_all_image [OF l(1) assms(3,2) ds(3) sv] disk_all_keys [OF assms(4,6)] this assms(5) l(2,3)] show ?thesis
    unfolding disk_all_db [OF assms(4)] .
qed

lemma series_increasing:
  assumes "keys_ok st mk" "\<forall>k s. db_of st G k = Some s \<longrightarrow> increasing s" "p \<in> set (item_list st)"
  shows "increasing (series (G p))"
  using assms keys_is [OF assms(1,3)] db_of_eq [OF assms(1,3)] by auto

section \<open>After \<^verbatim>\<open>storage_sync\<close>\<close>

lemma item_saved_frame:
  assumes "item_saved m n item cur" "\<And>off. off \<in> set (offs_of item) \<Longrightarrow> m' off = m off"
  shows "item_saved m' n item cur"
proof -
  have "unat (fst (last (data_offsets item))) \<in> set (offs_of item)" using assms(1) last_in_set by (fastforce simp: item_saved_def offs_of_def)
  then show ?thesis using assms by (simp add: item_saved_def)
qed

lemma item_saved_part: "item_saved m n item cur \<Longrightarrow> saved_part m n item cur cur \<and> offs_of item \<noteq> []"
  using last_in_set by (fastforce simp: item_saved_def saved_part_def offs_of_def filter_empty_conv)

lemma write_disk_saves:
  assumes "lists_ok st" "times_ok st G" "data_ok st m G" "keys_ok st mk" and p: "p \<in> set (item_list st)" "snd (G p) \<noteq> []"
    and room: "disk_size (data_disk_store st) + 2 ^ 27 < 2 ^ 62"
  shows "\<exists>st' m'. storage_write_disk st p False = Some (0, st') \<and> lists_ok st' \<and> times_ok st' G \<and> data_ok st' m' G \<and> keys_ok st' mk \<and> same_shape st st' \<and>
    disk_size (data_disk_store st') \<le> disk_size (data_disk_store st) + 2 ^ 27 \<and>
    (\<forall>q\<in>set (item_list st). q = p \<or> item_saved m (initial_tsc_buf_size st) (items st q) (snd (G q)) \<longrightarrow>
       item_saved m' (initial_tsc_buf_size st) (items st' q) (snd (G q)))"
proof -
  let ?n = "initial_tsc_buf_size st"
  have i: "disk_ok (data_disk_store st) m" "item_ok m ?n (items st p) (fst (G p)) (snd (G p))" using assms(3) p by (auto simp: data_ok_def)
  have "hd (snd (G p)) \<in> set (series (G p))" using p(2) by (simp add: series_def)
  then have hd: "0 < sint (fst (hd (snd (G p))))" using assms(2) p(1) by (simp add: times_ok_def)
  have n: "?n + 38 \<le> 2 ^ 20" using assms(1) by (simp add: lists_ok_def)
  obtain ds m' item' where w: "storage_write_disk st p False = Some (0, st\<lparr>data_disk_store := ds, items := (items st)(p := item')\<rparr>)"
    "disk_ok ds m'" "item_ok m' ?n item' (fst (G p)) (snd (G p))" "same_ident (items st p) item'" "only_changes m m' (items st p) item'"
    "item_saved m' ?n item' (snd (G p))" "disk_size ds \<le> disk_size (data_disk_store st) + 2 ^ 27"
    using write_disk_ok [OF i p(2) hd n room, of False] by auto
  let ?st = "st\<lparr>data_disk_store := ds, items := (items st)(p := item')\<rparr>"
  have f: "footprint m m' (items st p) item'" by (rule footprint_only_changes [OF w(5) i(2)])
  have "G(p := (fst (G p), snd (G p))) = G" by simp
  then have d: "data_ok ?st m' G" using data_ok_upd [OF assms(3) p(1) w(2,3) f] by simp
  have "item_saved m' ?n (items ?st q) (snd (G q))" if q: "q \<in> set (item_list st)" "q = p \<or> item_saved m ?n (items st q) (snd (G q))" for q
  proof (cases "q = p")
    case True
    then show ?thesis using w(6) by simp
  next
    case False
    have "item_saved m' ?n (items st q) (snd (G q))"
    proof (rule item_saved_frame)
      show "item_saved m ?n (items st q) (snd (G q))" using q(2) False by simp
      fix off assume o: "off \<in> set (offs_of (items st q))"
      have "set (offs_of (items st q)) \<inter> set (offs_of (items st p)) = {}" "item_ok m ?n (items st q) (fst (G q)) (snd (G q))"
        using assms(3) q(1) p(1) False unfolding data_ok_def by blast+
      then show "m' off = m off" using f o item_ok_mapped [of m ?n "items st q" "fst (G q)" "snd (G q)" off] by (auto simp: footprint_def)
    qed
    then show ?thesis using False by simp
  qed
  moreover have "times_ok ?st G" using assms(2) by (simp add: times_ok_def)
  ultimately show ?thesis using w(1,7) d lists_ok_upd [OF assms(1) w(4)] keys_ok_upd [OF assms(4) w(4)] same_shape_upd [OF w(4)]
    by (intro exI [of _ ?st] exI [of _ m']) auto
qed

lemma sync_saves:
  assumes "lists_ok st" "times_ok st G" "data_ok st m G" "keys_ok st mk" "set ps \<subseteq> set (item_list st)" "\<forall>p\<in>set (item_list st). snd (G p) \<noteq> []"
    and "disk_size (data_disk_store st) + length ps * 2 ^ 27 < 2 ^ 62"
  shows "\<exists>st' m'. sync_items st ps = Some (0, st') \<and> lists_ok st' \<and> times_ok st' G \<and> data_ok st' m' G \<and> keys_ok st' mk \<and> same_shape st st' \<and>
    (\<forall>q\<in>set (item_list st). q \<in> set ps \<or> item_saved m (initial_tsc_buf_size st) (items st q) (snd (G q)) \<longrightarrow>
       item_saved m' (initial_tsc_buf_size st) (items st' q) (snd (G q)))"
  using assms
proof (induction ps arbitrary: st m)
  case Nil
  then show ?case by (intro exI [of _ st] exI [of _ m]) simp
next
  case (Cons p ps)
  let ?n = "initial_tsc_buf_size st"
  have p: "p \<in> set (item_list st)" "snd (G p) \<noteq> []" "disk_size (data_disk_store st) + 2 ^ 27 < 2 ^ 62" using Cons.prems by auto
  obtain st1 m1 where w: "storage_write_disk st p False = Some (0, st1)" "lists_ok st1" "times_ok st1 G" "data_ok st1 m1 G" "keys_ok st1 mk" "same_shape st st1"
    "disk_size (data_disk_store st1) \<le> disk_size (data_disk_store st) + 2 ^ 27"
    and sv: "\<forall>q\<in>set (item_list st). q = p \<or> item_saved m ?n (items st q) (snd (G q)) \<longrightarrow> item_saved m1 ?n (items st1 q) (snd (G q))"
    using write_disk_saves [OF Cons.prems(1-4) p] by blast
  have s: "item_list st1 = item_list st" "initial_tsc_buf_size st1 = ?n" using w(6) by (simp_all add: same_shape_def)
  have "set ps \<subseteq> set (item_list st1)" "\<forall>p\<in>set (item_list st1). snd (G p) \<noteq> []" "disk_size (data_disk_store st1) + length ps * 2 ^ 27 < 2 ^ 62"
    using Cons.prems w(7) s by auto
  from Cons.IH [OF w(2-5) this] obtain st' m' where i: "sync_items st1 ps = Some (0, st')" "lists_ok st'" "times_ok st' G" "data_ok st' m' G" "keys_ok st' mk" "same_shape st1 st'"
    and sv': "\<forall>q\<in>set (item_list st). q \<in> set ps \<or> item_saved m1 ?n (items st1 q) (snd (G q)) \<longrightarrow> item_saved m' ?n (items st' q) (snd (G q))"
    unfolding s by blast
  have "sync_items st (p # ps) = Some (0, st')" using w(1) i(1) by simp
  moreover have "\<forall>q\<in>set (item_list st). q \<in> set (p # ps) \<or> item_saved m ?n (items st q) (snd (G q)) \<longrightarrow> item_saved m' ?n (items st' q) (snd (G q))"
    using sv sv' unfolding set_simps by blast
  ultimately show ?case using i(2-5) same_shape_trans [OF w(6) i(6)] by blast
qed

lemma sync_on_disk:
  assumes "storage_good st db" "has_room st (length (item_list st))" "\<not> some_block_empty st"
  obtains G st1 m mk where "storage_sync st = Some (0, st1)" "lists_ok st1" "times_ok st1 G" "data_ok st1 m G" "keys_ok st1 mk" "db_of st1 G = db"
    "initial_tsc_buf_size st1 = initial_tsc_buf_size st" "unat (next_internal_id st1) \<le> 2 ^ 62"
    "\<forall>q\<in>set (item_list st1). saved_part m (initial_tsc_buf_size st1) (items st1 q) (snd (G q)) (snd (G q)) \<and> offs_of (items st1 q) \<noteq> []"
proof -
  obtain G where G: "store_ok st G" "db = db_of st G" using assms(1) by (auto simp: storage_good_def)
  obtain m mk where ok: "lists_ok st" "times_ok st G" "data_ok st m G" "keys_ok st mk" using G(1) by (auto simp: store_ok_def)
  have ne: "\<forall>p\<in>set (item_list st). snd (G p) \<noteq> []" using block_empty_iff [OF G(1)] assms(3) by blast
  have room: "disk_size (data_disk_store st) + length (item_list st) * 2 ^ 27 < 2 ^ 62" "unat (next_internal_id st) \<le> 2 ^ 62" using assms(2) by (simp_all add: has_room_def)
  obtain st1 m1 where s: "sync_items st (item_list st) = Some (0, st1)" "lists_ok st1" "times_ok st1 G" "data_ok st1 m1 G" "keys_ok st1 mk" and sh: "same_shape st st1"
    and sv: "\<forall>q\<in>set (item_list st). item_saved m1 (initial_tsc_buf_size st) (items st1 q) (snd (G q))"
    using sync_saves [OF ok order.refl ne room(1)] by blast
  have s1: "item_list st1 = item_list st" "initial_tsc_buf_size st1 = initial_tsc_buf_size st" "unat (next_internal_id st1) \<le> 2 ^ 62" using sh room(2) by (simp_all add: same_shape_def)
  have db: "db_of st1 G = db" using same_shape_db_eq [OF sh] G(2) by simp
  have sp: "\<forall>q\<in>set (item_list st1). saved_part m1 (initial_tsc_buf_size st1) (items st1 q) (snd (G q)) (snd (G q)) \<and> offs_of (items st1 q) \<noteq> []"
    unfolding s1 by (intro ballI item_saved_part) (use sv in simp)
  have "storage_sync st = Some (0, st1)" using s(1) by (simp add: storage_sync_def)
  from that [OF this s(2-5) db s1(2,3) sp] show thesis .
qed

lemma sync_then_restart:
  assumes "storage_good st db" "env_ok env" "\<forall>k s. db k = Some s \<longrightarrow> increasing s" "has_room st (length (item_list st))" "\<not> some_block_empty st"
  shows "\<exists>st1 st2. storage_sync st = Some (0, st1) \<and>
    storage_init env retention (initial_tsc_buf_size st) inds (ds_file (key_disk_store st1), ds_scratch (key_disk_store st1))
      (ds_file (data_disk_store st1), ds_scratch (data_disk_store st1)) = Some (0, Some st2) \<and>
    storage_good st2 db \<and> indices st2 = inds \<and> retention_seconds st2 = retention"
proof -
  obtain G st1 m mk where s: "storage_sync st = Some (0, st1)" and ok: "lists_ok st1" "times_ok st1 G" "data_ok st1 m G" "keys_ok st1 mk" and db: "db_of st1 G = db"
    and n: "initial_tsc_buf_size st1 = initial_tsc_buf_size st" "unat (next_internal_id st1) \<le> 2 ^ 62"
    and sv: "\<forall>q\<in>set (item_list st1). saved_part m (initial_tsc_buf_size st1) (items st1 q) (snd (G q)) (snd (G q)) \<and> offs_of (items st1 q) \<noteq> []"
    by (rule sync_on_disk [OF assms(1,4,5)])
  have "increasing (series (G p))" if "p \<in> set (item_list st1)" for p by (rule series_increasing [OF ok(4) _ that]) (use assms(3) db in simp)
  then obtain st2 where "storage_restart env retention inds st1 = Some (0, Some st2)" "storage_good st2 (db_of st1 (\<lambda>p. (fst (G p), snd (G p))))" "indices st2 = inds"
    "retention_seconds st2 = retention"
    using restart_saved [OF ok assms(2) n(2), of "\<lambda>p. snd (G p)" retention inds] sv by blast
  then show ?thesis using s db n(1) by (intro exI [of _ st1] exI [of _ st2]) simp
qed

section \<open>Properties\<close>

text \<open>
  C8: Durability. When \<^verbatim>\<open>storage_sync\<close> has written all items, \<^verbatim>\<open>storage_init\<close> on the files that are left gives
  a storage with the same database: every key has exactly the points it had, whatever label indices and retention time
  the new process is configured with. (The series are in increasing order and the blocks have the configured size; every
  item has points in memory, since \<^verbatim>\<open>storage_sync\<close> aborts otherwise.)
\<close>

theorem storage_sync_durable:
  assumes "storage_good st db" "env_ok env" "\<forall>k s. db k = Some s \<longrightarrow> increasing s" "has_room st (length (item_list st))" "\<not> some_block_empty st"
  shows "\<exists>st1 st2. storage_sync st = Some (0, st1) \<and>
    storage_init env retention (initial_tsc_buf_size st) inds (ds_file (key_disk_store st1), ds_scratch (key_disk_store st1))
      (ds_file (data_disk_store st1), ds_scratch (data_disk_store st1)) = Some (0, Some st2) \<and>
    storage_good st2 db \<and> indices st2 = inds"
  using sync_then_restart [OF assms] by blast

theorem storage_sync_durable_witness:
  "\<exists>st1 st2 st3. storage_write example_env example_storage example_key 3 example_points = Some (0, st1) \<and> storage_sync st1 = Some (0, st2) \<and>
     storage_init example_env 3600 (initial_tsc_buf_size st1) [] (ds_file (key_disk_store st2), ds_scratch (key_disk_store st2))
       (ds_file (data_disk_store st2), ds_scratch (data_disk_store st2)) = Some (0, Some st3) \<and>
     storage_good st3 [example_key \<mapsto> example_points]"
proof -
  obtain st1 where w: "storage_write example_env example_storage example_key 3 example_points = Some (0, st1)"
    "storage_good st1 [example_key \<mapsto> example_points]" "\<not> some_block_empty st1" "length (item_list st1) \<le> 1" "\<forall>n<900. has_room st1 n"
    using example_written by blast
  have "has_room st1 (length (item_list st1))" using w(4,5) by simp
  moreover have "\<forall>k s. [example_key \<mapsto> example_points] k = Some s \<longrightarrow> increasing s" using example_increasing by (auto simp: points_of_def)
  ultimately show ?thesis using storage_sync_durable [OF w(2) example_env_ok _ _ w(3), of 3600 "[]"] w(1) by blast
qed



end
