(* ===== verification/Server.thy ===== *)
theory Server
  imports Server_Setup Metrics Conn_Pool Storage_Durable
begin

text \<open>
  The server as a process: \<^verbatim>\<open>main\<close>, the shutdown and the loop that accepts connections of \<^verbatim>\<open>src/server/server.c\<close>, and the
  settings it reads from the environment. The files, the other processes and the outcome of the system calls are
  a machine, which is a parameter. The log lines have no effect here; the threads that \<^verbatim>\<open>main\<close> starts are those of \<^verbatim>\<open>conn_handler.c\<close>
  and \<^verbatim>\<open>storage.c\<close>, whose steps are modelled there.
\<close>

section \<open>Settings\<close>

record settings =
  menoetius_port :: int
  metrics_port :: int
  max_conn :: int
  buf_size_per_conn :: int
  set_retention_seconds :: int
  target_cleaning_loop_seconds :: int
  cleaning_sleep_multiplier :: int
  max_duration :: int
  set_initial_tsc_buf_size :: int
  storage_path :: "byte list"
  label_indices_config :: "byte list"

text \<open>The first string of the environment that begins with the name and an equals sign.\<close>

definition getenv :: "byte list list \<Rightarrow> environ" where
  "getenv env name = map_option (drop (length name + 1)) (find (\<lambda>e. take (length name + 1) e = name @ [61]) env)"

definition read_settings :: "environ \<Rightarrow> settings option" where
  "read_settings genv = do {
     port \<leftarrow> env_parse_get_int genv (bytes ''MENOETIUS_PORT'') 9001;
     mport \<leftarrow> env_parse_get_int genv (bytes ''MENOETIUS_METRIC_PORT'') 8001;
     conns \<leftarrow> env_parse_get_int genv (bytes ''MENOETIUS_MAX_CONN'') 256;
     buf \<leftarrow> env_parse_get_int genv (bytes ''MENOETIUS_CONN_BUF_SIZE'') (128 * 1024);
     retention \<leftarrow> env_parse_get_int genv (bytes ''MENOETIUS_RETENTION_SECONDS'') (60 * 60 * 4);
     cleaning \<leftarrow> env_parse_get_int genv (bytes ''MENOETIUS_CLEANING_LOOP_SECONDS'') (60 * 5);
     mult \<leftarrow> env_parse_get_int genv (bytes ''MENOETIUS_SLEEP_MULTIPLIER'') 3;
     duration \<leftarrow> env_parse_get_int genv (bytes ''MENOETIUS_MAX_DURATION'') 10000;
     tsc \<leftarrow> env_parse_get_int genv (bytes ''MENOETIUS_INITIAL_TSC_BUF_SIZE'') (1024 - 8);
     Some \<lparr>menoetius_port = port, metrics_port = mport, max_conn = conns, buf_size_per_conn = buf, set_retention_seconds = retention,
       target_cleaning_loop_seconds = cleaning, cleaning_sleep_multiplier = mult, max_duration = duration, set_initial_tsc_buf_size = tsc,
       storage_path = env_parse_get_str genv (bytes ''MENOETIUS_STORAGE_PATH'') (bytes ''/var/lib/menoetius''),
       label_indices_config = env_parse_get_str genv (bytes ''MENOETIUS_INDICES'') (bytes ''user_id,hypervisor_hostname,host_id,instance'')\<rparr> }"

section \<open>Start\<close>

text \<open>
  What the process finds. \<open>m_lock\<close> is the contents of the lock file when \<^verbatim>\<open>mkdir_p\<close> has left the file system in a state, or \<open>None\<close> if the file
  cannot be opened. \<open>m_http\<close>, \<open>m_signals\<close>, \<open>m_bind\<close> and \<open>m_listen\<close> say whether the web server starts, the handlers of the signals
  can be set, and the port can be bound and listened on.
\<close>

record 'fs machine =
  m_argc :: int
  m_env :: "byte list list"
  m_log :: log_env
  m_fs_ops :: "'fs fs_ops"
  m_fs :: 'fs
  m_pid :: int
  m_kill :: "int \<Rightarrow> int"
  m_lock :: "'fs \<Rightarrow> mem option"
  m_key_files :: "mem \<times> mem"
  m_data_files :: "mem \<times> mem"
  m_config_file :: mem
  m_sha1 :: "byte list \<Rightarrow> byte list"
  m_c_env :: c_env
  m_junk :: "nat \<Rightarrow> byte"
  m_time :: i64
  m_http :: bool
  m_signals :: bool
  m_bind :: bool
  m_listen :: bool

text \<open>What the process is when it waits for connections.\<close>

record running =
  run_settings :: settings
  run_level :: int
  run_lock :: mem
  run_metrics :: "registered_metric list"
  run_counters :: counters
  run_server :: server

definition socket_of_none :: socket where
  "socket_of_none = \<lparr>inbox = [], rx = [], sent = [], tx = []\<rparr>"

text \<open>
  All of \<^verbatim>\<open>storage_init\<close>: the microseconds of a cleaning cycle are computed as \<^verbatim>\<open>int\<close>, then the length of the path is tested, and when both files
  are open, it is asserted that the cycle is not empty. A negative size of a block would be a huge number and has no meaning here.
\<close>

definition open_storage :: "'fs machine \<Rightarrow> settings \<Rightarrow> byte list list \<Rightarrow> (int \<times> the_storage option) option" where
  "open_storage m cfg inds = do {
     let us = target_cleaning_loop_seconds cfg * 1000000;
     _ \<leftarrow> c_assert (- (2 ^ 31) \<le> us \<and> us < 2 ^ 31);
     _ \<leftarrow> c_assert (0 \<le> set_initial_tsc_buf_size cfg);
     if length (storage_path cfg) > 900 then Some (1, None)
     else do {
       (res, st) \<leftarrow> storage_init (m_c_env m) (set_retention_seconds cfg) (nat (set_initial_tsc_buf_size cfg)) inds (m_key_files m) (m_data_files m);
       _ \<leftarrow> c_assert (st = None \<or> 0 < target_cleaning_loop_seconds cfg);
       Some (res, st) } }"

text \<open>What follows when the storage is open: the handlers of the signals, the pool and the port. \<^verbatim>\<open>EXIT_FAILURE\<close> is 1.\<close>

definition serve :: "'fs machine \<Rightarrow> settings \<Rightarrow> the_storage \<Rightarrow> (int + server) option" where
  "serve m cfg st =
     (if \<not> m_signals m then Some (Inl 1)
      else do {
        _ \<leftarrow> c_assert (0 \<le> max_conn cfg \<and> 0 \<le> buf_size_per_conn cfg);
        let sv = conn_data_pool_init (m_junk m) socket_of_none (nat (max_conn cfg)) (nat (buf_size_per_conn cfg)) st
          (read_or_create_cluster_config_from_disk (m_sha1 m) (m_config_file m));
        if \<not> m_bind m then Some (Inl 1)
        else do {
          _ \<leftarrow> c_assert (m_listen m);
          Some (Inr sv) } })"

definition start_services :: "'fs machine \<Rightarrow> settings \<Rightarrow> int \<Rightarrow> byte list list \<Rightarrow> mem \<Rightarrow> (int + running) option" where
  "start_services m cfg level inds lock = do {
     (metrics, c) \<leftarrow> register_metrics (m_time m) [] (\<lambda>_. 0);
     if \<not> m_http m then Some (Inl 1)
     else do {
       (res, st) \<leftarrow> open_storage m cfg inds;
       if res \<noteq> 0 then Some (Inl 1)
       else do {
         st \<leftarrow> st;
         sv \<leftarrow> serve m cfg st;
         Some (map_sum id (\<lambda>sv. \<lparr>run_settings = cfg, run_level = level, run_lock = lock, run_metrics = metrics, run_counters = c, run_server = sv\<rparr>) sv) } } }"

text \<open>A directory that could not be made is only reported. The result is the exit code or the running server.\<close>

definition server_main :: "'fs machine \<Rightarrow> (int + running) option" where
  "server_main m =
     (if m_argc m > 1 then Some (Inl 1)
      else do {
        level \<leftarrow> set_log_level_from_env_variables (m_log m) LOG_LEVEL_INFO (m_env m);
        cfg \<leftarrow> read_settings (getenv (m_env m));
        (res, fs) \<leftarrow> mkdir_p (m_fs_ops m) (storage_path cfg) (m_fs m);
        (buf, inds) \<leftarrow> parse_label_indices (label_indices_config cfg @ [0]);
        lock \<leftarrow> (case m_lock m fs of None \<Rightarrow> Some (Inl 1) | Some file \<Rightarrow> acquire_storage_lock (m_kill m) (m_pid m) file);
        (case lock of Inl code \<Rightarrow> Some (Inl code) | Inr lock \<Rightarrow> start_services m cfg level (map (string_at buf) inds) lock) })"

section \<open>Connections and shutdown\<close>

definition NUM_CONNECTIONS_ACCEPTED :: nat where "NUM_CONNECTIONS_ACCEPTED = 5"
definition NUM_CONNECTIONS_REJECTED :: nat where "NUM_CONNECTIONS_REJECTED = 6"

text \<open>
  One turn of the loop of \<^verbatim>\<open>main\<close>, with what \<^verbatim>\<open>accept\<close> returns: a connection, or \<open>None\<close> for an error, which ends the process. A connection without
  a slot is closed.
\<close>

fun accept_conn :: "socket option \<Rightarrow> running \<Rightarrow> (int + running) option" where
  "accept_conn None r = Some (Inl 1)"
| "accept_conn (Some s) r = do {
     (res, sv) \<leftarrow> conn_data_pool_handle_conn s (run_server r);
     let r = r\<lparr>run_server := sv\<rparr>;
     Some (Inr (case res of
         Inl _ \<Rightarrow> r\<lparr>run_counters := incr_metric NUM_CONNECTIONS_REJECTED (run_counters r)\<rparr>
       | Inr _ \<Rightarrow> r\<lparr>run_counters := incr_metric NUM_CONNECTIONS_ACCEPTED (run_counters r)\<rparr>)) }"

primrec accept_loop :: "socket option list \<Rightarrow> running \<Rightarrow> (int + running) option" where
  "accept_loop [] r = Some (Inr r)"
| "accept_loop (s # ss) r = do {
     res \<leftarrow> accept_conn s r;
     (case res of Inl code \<Rightarrow> Some (Inl code) | Inr r \<Rightarrow> accept_loop ss r) }"

text \<open>
  The thread that waits for a signal, from the moment it has come: the storage is written and stays locked, so that nothing else happens to it,
  and the process ends with the code 0, also if writing has failed.
\<close>

definition shutdown_thread :: "running \<Rightarrow> (int \<times> running) option" where
  "shutdown_thread r = do {
     (res, st) \<leftarrow> storage_sync (srv_storage (run_server r));
     Some (0, r\<lparr>run_server := (run_server r)\<lparr>srv_storage := st\<rparr>\<rparr>) }"

text \<open>The machine after the process has ended: the files are as it left them, and so is the lock file.\<close>

definition machine_after :: "'fs machine \<Rightarrow> running \<Rightarrow> 'fs machine" where
  "machine_after m r = (let st = srv_storage (run_server r) in
     m\<lparr>m_lock := (\<lambda>_. Some (run_lock r)), m_key_files := (ds_file (key_disk_store st), ds_scratch (key_disk_store st)),
       m_data_files := (ds_file (data_disk_store st), ds_scratch (data_disk_store st)), m_config_file := cc_file (srv_config (run_server r))\<rparr>)"

end
