(* ===== verification/Server_Properties.thy ===== *)
theory Server_Properties
  imports Server
begin

text \<open>What the server process guarantees: a shutdown followed by a start keeps the database, and the counters of connections are right.\<close>

section \<open>A new start\<close>

text \<open>
  The conditions under which the program can start: no arguments, a log level that can be set, settings in the ranges of the code, and system calls that succeed.
  \<open>fs\<close> is the file system after the directory of the storage was made.
\<close>

definition can_start :: "'fs machine \<Rightarrow> settings \<Rightarrow> int \<Rightarrow> 'fs \<Rightarrow> bool" where
  "can_start m cfg level fs \<longleftrightarrow> m_argc m \<le> 1 \<and> set_log_level_from_env_variables (m_log m) LOG_LEVEL_INFO (m_env m) = Some level \<and>
     read_settings (getenv (m_env m)) = Some cfg \<and> map_option snd (mkdir_p (m_fs_ops m) (storage_path cfg) (m_fs m)) = Some fs \<and>
     0 \<notin> set (label_indices_config cfg) \<and> length (storage_path cfg) \<le> 900 \<and> 0 < target_cleaning_loop_seconds cfg \<and> target_cleaning_loop_seconds cfg \<le> 2147 \<and>
     0 \<le> set_initial_tsc_buf_size cfg \<and> 0 \<le> max_conn cfg \<and> 0 \<le> buf_size_per_conn cfg \<and> m_http m \<and> m_signals m \<and> m_bind m \<and> m_listen m"

lemma metrics_registered: "\<exists>metrics c. register_metrics now [] c0 = Some (metrics, c)"
  using register_from_ok [of metric_names 0 "[]"] metric_names_facts(3) by (auto simp: register_metrics_def)

lemma server_starts:
  assumes "can_start m cfg level fs" "m_lock m fs = Some file" "acquire_storage_lock (m_kill m) (m_pid m) file = Some (Inr lock)"
    and "storage_init (m_c_env m) (set_retention_seconds cfg) (nat (set_initial_tsc_buf_size cfg)) (split_commas (label_indices_config cfg)) (m_key_files m) (m_data_files m) = Some (0, Some st)"
  shows "\<exists>r. server_main m = Some (Inr r) \<and> srv_storage (run_server r) = st \<and> run_lock r = lock \<and> run_settings r = cfg \<and> run_level r = level \<and>
    run_server r = conn_data_pool_init (m_junk m) socket_of_none (nat (max_conn cfg)) (nat (buf_size_per_conn cfg)) st
      (read_or_create_cluster_config_from_disk (m_sha1 m) (m_config_file m))"
proof -
  obtain res where d: "mkdir_p (m_fs_ops m) (storage_path cfg) (m_fs m) = Some (res, fs)" using assms(1) by (auto simp: can_start_def)
  obtain buf inds where l: "parse_label_indices (label_indices_config cfg @ [0]) = Some (buf, inds)" "map (string_at buf) inds = split_commas (label_indices_config cfg)"
    using label_indices_parsed [of "label_indices_config cfg"] assms(1) unfolding can_start_def by blast
  obtain metrics c where r: "register_metrics (m_time m) [] (\<lambda>_. 0) = Some (metrics, c)" using metrics_registered by blast
  have o: "open_storage m cfg (split_commas (label_indices_config cfg)) = Some (0, Some st)" using assms(1,4) by (simp add: can_start_def open_storage_def)
  show ?thesis using assms(1-3) d l r o by (simp add: can_start_def server_main_def start_services_def serve_def conn_data_pool_init_def)
qed

text \<open>
  C6: A shutdown and a new start lose nothing. When the server is told to end, it writes the storage and exits with the code 0; a new process
  that finds the files and the lock of the one that is gone takes the lock over and serves a storage with the same database, with the label
  indices and the retention time of its own settings and with all slots for connections free. (The block size of the settings is unchanged, the series are
  in increasing order, and every item has points in memory, since the shutdown aborts otherwise.)
\<close>

theorem shutdown_then_start:
  assumes "storage_good (srv_storage (run_server r)) db" "\<forall>k s. db k = Some s \<longrightarrow> increasing s" "\<not> some_block_empty (srv_storage (run_server r))"
    and "has_room (srv_storage (run_server r)) (length (item_list (srv_storage (run_server r))))"
    and "can_start m cfg level fs" "env_ok (m_c_env m)" "set_initial_tsc_buf_size cfg = int (initial_tsc_buf_size (srv_storage (run_server r)))"
    and "run_lock r = int_text pid" "0 < pid" "pid < 2 ^ 31" "m_kill m pid = ESRCH"
  shows "\<exists>r1 r2. shutdown_thread r = Some (0, r1) \<and> server_main (machine_after m r1) = Some (Inr r2) \<and>
    storage_good (srv_storage (run_server r2)) db \<and> indices (srv_storage (run_server r2)) = split_commas (label_indices_config cfg) \<and>
    retention_seconds (srv_storage (run_server r2)) = set_retention_seconds cfg \<and> cc_file (srv_config (run_server r2)) = cc_file (srv_config (run_server r)) \<and>
    run_lock r2 = int_text (m_pid m) \<and> length (conn_pool (run_server r2)) = nat (max_conn cfg) \<and> serves (run_server r2) \<and>
    (\<forall>i<length (conn_pool (run_server r2)). \<not> conn_open (get_conn i (run_server r2)))"
proof -
  let ?inds = "split_commas (label_indices_config cfg)" and ?st = "srv_storage (run_server r)"
  obtain st1 st2 where s: "storage_sync ?st = Some (0, st1)" and i: "storage_init (m_c_env m) (set_retention_seconds cfg) (initial_tsc_buf_size ?st) ?inds
      (ds_file (key_disk_store st1), ds_scratch (key_disk_store st1)) (ds_file (data_disk_store st1), ds_scratch (data_disk_store st1)) = Some (0, Some st2)"
    and g: "storage_good st2 db" "indices st2 = ?inds" "retention_seconds st2 = set_retention_seconds cfg"
    using sync_then_restart [OF assms(1,6,2,4,3), of "set_retention_seconds cfg" ?inds] by blast
  define r1 where "r1 = r\<lparr>run_server := (run_server r)\<lparr>srv_storage := st1\<rparr>\<rparr>"
  have sh: "shutdown_thread r = Some (0, r1)" using s by (simp add: shutdown_thread_def r1_def)
  let ?m = "machine_after m r1"
  have a: "can_start ?m cfg level fs" using assms(5) by (simp add: can_start_def machine_after_def Let_def)
  have b: "m_lock ?m fs = Some (int_text pid)" using assms(8) by (simp add: machine_after_def Let_def r1_def)
  have c: "acquire_storage_lock (m_kill ?m) (m_pid ?m) (int_text pid) = Some (Inr (int_text (m_pid m)))"
    unfolding lock_of_other [OF assms(9,10)] using assms(11) by (simp add: machine_after_def Let_def)
  have d: "storage_init (m_c_env ?m) (set_retention_seconds cfg) (nat (set_initial_tsc_buf_size cfg)) ?inds (m_key_files ?m) (m_data_files ?m) = Some (0, Some st2)"
    using i assms(7) by (simp add: machine_after_def Let_def r1_def)
  obtain r2 where r2: "server_main ?m = Some (Inr r2)" "srv_storage (run_server r2) = st2" "run_lock r2 = int_text (m_pid m)"
    "run_server r2 = conn_data_pool_init (m_junk ?m) socket_of_none (nat (max_conn cfg)) (nat (buf_size_per_conn cfg)) st2
      (read_or_create_cluster_config_from_disk (m_sha1 ?m) (m_config_file ?m))"
    using server_starts [OF a b c d] by blast
  have "serves (run_server r2)" unfolding r2(4) by (rule serves.start)
  moreover have "length (conn_pool (run_server r2)) = nat (max_conn cfg)" "\<forall>i<length (conn_pool (run_server r2)). \<not> conn_open (get_conn i (run_server r2))"
    "cc_file (srv_config (run_server r2)) = cc_file (srv_config (run_server r))" unfolding r2(4)
    by (simp_all add: conn_data_pool_init_def get_conn_def new_conn_def read_or_create_cluster_config_from_disk_def machine_after_def Let_def r1_def)
  ultimately show ?thesis using sh r2(1-3) g by blast
qed

text \<open>An example: the server with one slot has stored points, ends, and is started again.\<close>

definition example_machine :: "unit machine" where
  "example_machine = \<lparr>m_argc = 1, m_env = [bytes ''MENOETIUS_INITIAL_TSC_BUF_SIZE=100''],
     m_log = \<lparr>fmt_f = (\<lambda>_. []), fmt_p = (\<lambda>_. []), log_junk = [], log_pid = 7, log_file = [], log_line = 1\<rparr>,
     m_fs_ops = \<lparr>fs_stat = (\<lambda>_ _. Some True), fs_mkdir = (\<lambda>_ _. (0, ()))\<rparr>, m_fs = (), m_pid = 8, m_kill = (\<lambda>_. ESRCH), m_lock = (\<lambda>_. Some []),
     m_key_files = ([], []), m_data_files = ([], []), m_config_file = [], m_sha1 = (\<lambda>_. []), m_c_env = example_env, m_junk = (\<lambda>_. 0), m_time = 0,
     m_http = True, m_signals = True, m_bind = True, m_listen = True\<rparr>"

definition example_settings :: settings where
  "example_settings = the (read_settings (getenv (m_env example_machine)))"

definition example_running :: "the_storage \<Rightarrow> running" where
  "example_running st = \<lparr>run_settings = example_settings, run_level = LOG_LEVEL_INFO, run_lock = int_text 7, run_metrics = [], run_counters = (\<lambda>_. 0),
     run_server = conn_data_pool_init (\<lambda>_. 0) socket_of_none 1 8 st example_config\<rparr>"

lemma atoi_hundred: "atoi (bytes ''100'') = Some 100"
  by (simp add: atoi_def bytes_def isspace_def is_dec_digit_def digits_value_def)

lemma example_settings_ok:
  "read_settings (getenv (m_env example_machine)) = Some example_settings" "set_initial_tsc_buf_size example_settings = 100" "max_conn example_settings = 256"
  "buf_size_per_conn example_settings = 131072" "target_cleaning_loop_seconds example_settings = 300" "set_retention_seconds example_settings = 14400"
  "storage_path example_settings = bytes ''/var/lib/menoetius''" "label_indices_config example_settings = bytes ''user_id,hypervisor_hostname,host_id,instance''"
proof -
  have g: "getenv (m_env example_machine) = (\<lambda>name. if name = bytes ''MENOETIUS_INITIAL_TSC_BUF_SIZE'' then Some (bytes ''100'') else getenv (m_env example_machine) name)"
    by (rule ext) (simp add: getenv_def example_machine_def bytes_def)
  have n: "getenv (m_env example_machine) name = None" if "name \<in> {bytes ''MENOETIUS_PORT'', bytes ''MENOETIUS_METRIC_PORT'', bytes ''MENOETIUS_MAX_CONN'', bytes ''MENOETIUS_CONN_BUF_SIZE'',
      bytes ''MENOETIUS_RETENTION_SECONDS'', bytes ''MENOETIUS_CLEANING_LOOP_SECONDS'', bytes ''MENOETIUS_SLEEP_MULTIPLIER'', bytes ''MENOETIUS_MAX_DURATION'',
      bytes ''MENOETIUS_STORAGE_PATH'', bytes ''MENOETIUS_INDICES''}" for name
    using that by (auto simp: getenv_def example_machine_def bytes_def)
  have v: "getenv (m_env example_machine) (bytes ''MENOETIUS_INITIAL_TSC_BUF_SIZE'') = Some (bytes ''100'')" by (subst g) simp
  have h: "bytes ''100'' \<noteq> bytes ''0''" by (simp add: bytes_def)
  note e = env_parse_get_int_def env_parse_get_str_def n v h atoi_hundred
  have "\<exists>cfg. read_settings (getenv (m_env example_machine)) = Some cfg \<and> set_initial_tsc_buf_size cfg = 100 \<and> max_conn cfg = 256 \<and> buf_size_per_conn cfg = 131072 \<and>
      target_cleaning_loop_seconds cfg = 300 \<and> set_retention_seconds cfg = 14400 \<and> storage_path cfg = bytes ''/var/lib/menoetius'' \<and>
      label_indices_config cfg = bytes ''user_id,hypervisor_hostname,host_id,instance''"
    unfolding read_settings_def by (simp add: e)
  then show "read_settings (getenv (m_env example_machine)) = Some example_settings" "set_initial_tsc_buf_size example_settings = 100" "max_conn example_settings = 256"
    "buf_size_per_conn example_settings = 131072" "target_cleaning_loop_seconds example_settings = 300" "set_retention_seconds example_settings = 14400"
    "storage_path example_settings = bytes ''/var/lib/menoetius''" "label_indices_config example_settings = bytes ''user_id,hypervisor_hostname,host_id,instance''"
    by (auto simp: example_settings_def)
qed

lemma example_can_start: "can_start example_machine example_settings LOG_LEVEL_INFO ()"
  using example_settings_ok unfolding can_start_def by (simp add: example_machine_def bytes_def mkdir_p_def)

theorem shutdown_then_start_witness:
  "\<exists>st r1 r2. storage_write example_env example_storage example_key 3 example_points = Some (0, st) \<and> shutdown_thread (example_running st) = Some (0, r1) \<and>
     server_main (machine_after example_machine r1) = Some (Inr r2) \<and> storage_good (srv_storage (run_server r2)) [example_key \<mapsto> example_points] \<and>
     run_lock r2 = int_text 8 \<and> length (conn_pool (run_server r2)) = 256"
proof -
  obtain st where w: "storage_write example_env example_storage example_key 3 example_points = Some (0, st)"
    "storage_good st [example_key \<mapsto> example_points]" "\<not> some_block_empty st" "length (item_list st) \<le> 1" "\<forall>n<900. has_room st n"
    using example_written by blast
  let ?r = "example_running st"
  have s: "srv_storage (run_server ?r) = st" "run_lock ?r = int_text 7" by (simp_all add: example_running_def conn_data_pool_init_def)
  have good: "storage_good (srv_storage (run_server ?r)) [example_key \<mapsto> example_points]" unfolding s by (rule w(2))
  have inc: "\<forall>k s. [example_key \<mapsto> example_points] k = Some s \<longrightarrow> increasing s" using example_increasing by (auto simp: points_of_def)
  have ne: "\<not> some_block_empty (srv_storage (run_server ?r))" unfolding s by (rule w(3))
  have room: "has_room (srv_storage (run_server ?r)) (length (item_list (srv_storage (run_server ?r))))" unfolding s using w(4,5) by simp
  have env: "env_ok (m_c_env example_machine)" "m_kill example_machine 7 = ESRCH" "m_pid example_machine = 8" using example_env_ok by (simp_all add: example_machine_def)
  have pid: "0 < (7 :: int)" "(7 :: int) < 2 ^ 31" by simp_all
  have size: "set_initial_tsc_buf_size example_settings = int (initial_tsc_buf_size (srv_storage (run_server ?r)))" unfolding s using example_settings_ok(2)
    storage_write_all [OF example_storage_ok(2) example_env_ok example_key_ok example_points_ok(1) _ example_increasing, of "[]"] w(1) example_storage_ok(3)
    by (auto simp: points_of_def)
  obtain r1 r2 where "shutdown_thread ?r = Some (0, r1)" "server_main (machine_after example_machine r1) = Some (Inr r2)"
    "storage_good (srv_storage (run_server r2)) [example_key \<mapsto> example_points]" "run_lock r2 = int_text 8" "length (conn_pool (run_server r2)) = nat 256"
    using shutdown_then_start [OF good inc ne room example_can_start env(1) size s(2) pid env(2)] unfolding env(3) example_settings_ok(3) by blast
  then show ?thesis using w(1) by (intro exI [of _ st] exI [of _ r1] exI [of _ r2]) simp
qed

text \<open>
  A cleaning cycle of more than 2147 seconds has no \<^verbatim>\<open>int\<close> number of microseconds: the product in \<^verbatim>\<open>storage_init\<close> overflows, and whatever the files hold,
  the server has no defined behaviour.
\<close>

theorem long_cleaning_cycle_overflows:
  assumes "2147 < target_cleaning_loop_seconds cfg"
  shows "open_storage m cfg inds = None"
  using assms by (simp add: open_storage_def)

section \<open>Connections\<close>

lemma accept_step:
  assumes "pool_ok (run_server r)"
  shows "\<exists>r'. accept_conn (Some s) r = Some (Inr r') \<and> pool_ok (run_server r') \<and> srv_storage (run_server r') = srv_storage (run_server r) \<and>
    (if conn_free_i (run_server r) < 0 then r' = r\<lparr>run_counters := incr_metric NUM_CONNECTIONS_REJECTED (run_counters r)\<rparr>
     else conn_free_i (run_server r') = conn_free_i (run_server r) - 1 \<and> run_counters r' = incr_metric NUM_CONNECTIONS_ACCEPTED (run_counters r))"
proof -
  let ?sv = "run_server r"
  have "conn_free_i ?sv < int (length (conn_free ?sv))" using assms by (simp add: pool_ok_def Let_def)
  then have f: "\<exists>i sv'. conn_data_pool_handle_conn s ?sv = Some (if conn_free_i ?sv < 0 then (Inl 1, ?sv) else (Inr i, sv')) \<and> conn_free_i sv' = conn_free_i ?sv - 1"
    by (cases "conn_free_i ?sv < 0")
      (auto simp: conn_data_pool_handle_conn_def conn_data_pool_get_def andthen_def modify_def ret_def put_conn_def nat_less_iff intro!: exI [of _ "?sv\<lparr>conn_free_i := conn_free_i ?sv - 1\<rparr>"])
  show ?thesis using f assms handle_conn_ok [OF assms, of s] by (auto simp: Let_def split: if_splits)
qed

lemma accept_loop_ok:
  assumes "pool_ok (run_server r)" "n = nat (conn_free_i (run_server r) + 1)"
  shows "\<exists>r'. accept_loop (map Some ss) r = Some (Inr r') \<and> srv_storage (run_server r') = srv_storage (run_server r) \<and>
    run_counters r' NUM_CONNECTIONS_ACCEPTED = run_counters r NUM_CONNECTIONS_ACCEPTED + of_nat (min (length ss) n) \<and>
    run_counters r' NUM_CONNECTIONS_REJECTED = run_counters r NUM_CONNECTIONS_REJECTED + of_nat (length ss - n)"
  using assms
proof (induction ss arbitrary: r n)
  case Nil
  then show ?case by simp
next
  case (Cons s ss)
  let ?f = "conn_free_i (run_server r)"
  obtain r1 where r1: "accept_conn (Some s) r = Some (Inr r1)" "pool_ok (run_server r1)" "srv_storage (run_server r1) = srv_storage (run_server r)"
    "if ?f < 0 then r1 = r\<lparr>run_counters := incr_metric NUM_CONNECTIONS_REJECTED (run_counters r)\<rparr>
     else conn_free_i (run_server r1) = ?f - 1 \<and> run_counters r1 = incr_metric NUM_CONNECTIONS_ACCEPTED (run_counters r)"
    using accept_step [OF Cons.prems(1)] by blast
  have l: "accept_loop (map Some (s # ss)) r = accept_loop (map Some ss) r1" using r1(1) by simp
  note c = incr_metric_def add_metric_def NUM_CONNECTIONS_ACCEPTED_def NUM_CONNECTIONS_REJECTED_def
  show ?case
  proof (cases "?f < 0")
    case True
    then have "n = 0" "nat (conn_free_i (run_server r1) + 1) = 0" using r1(4) Cons.prems(2) by simp_all
    then show ?thesis unfolding l using Cons.IH [OF r1(2) refl] True r1(3,4) by (auto simp: c)
  next
    case False
    then obtain k where k: "n = Suc k" "nat (conn_free_i (run_server r1) + 1) = k" using r1(4) Cons.prems(2) that [of "nat ?f"] by (simp add: Suc_nat_eq_nat_zadd1 add.commute)
    then show ?thesis unfolding l using Cons.IH [OF r1(2) refl] False r1(3,4) by (auto simp: c)
  qed
qed

lemma server_main_running:
  assumes "server_main m = Some (Inr r)"
  shows "\<exists>st. run_server r = conn_data_pool_init (m_junk m) socket_of_none (nat (max_conn (run_settings r))) (nat (buf_size_per_conn (run_settings r))) st
      (read_or_create_cluster_config_from_disk (m_sha1 m) (m_config_file m)) \<and> run_counters r = set_metric START_TIME (m_time m) (\<lambda>_. 0)"
  using assms
  by (auto simp: server_main_def start_services_def serve_def register_metrics_def Let_def split: if_splits Option.bind_split_asm option.splits sum.splits prod.splits)

text \<open>
  Connections are counted. From a start on, the loop that accepts connections never fails; as long as none ends, it gives slots to as many as are
  configured and refuses all others, and the two published counters are exactly these numbers.
\<close>

theorem accept_loop_counts:
  assumes "server_main m = Some (Inr r)"
  shows "\<exists>r'. accept_loop (map Some ss) r = Some (Inr r') \<and> srv_storage (run_server r') = srv_storage (run_server r) \<and>
    run_counters r' NUM_CONNECTIONS_ACCEPTED = of_nat (min (length ss) (nat (max_conn (run_settings r)))) \<and>
    run_counters r' NUM_CONNECTIONS_REJECTED = of_nat (length ss - nat (max_conn (run_settings r)))"
proof -
  obtain st where r: "run_server r = conn_data_pool_init (m_junk m) socket_of_none (nat (max_conn (run_settings r))) (nat (buf_size_per_conn (run_settings r))) st
      (read_or_create_cluster_config_from_disk (m_sha1 m) (m_config_file m))" "run_counters r = set_metric START_TIME (m_time m) (\<lambda>_. 0)"
    using server_main_running [OF assms] by blast
  have "pool_ok (run_server r)" unfolding r(1) by (rule pool_init_ok)
  moreover have "nat (max_conn (run_settings r)) = nat (conn_free_i (run_server r) + 1)" by (subst r(1)) (simp add: conn_data_pool_init_def)
  ultimately show ?thesis using accept_loop_ok [of r "nat (max_conn (run_settings r))" ss] r(2)
    by (auto simp: set_metric_def START_TIME_def NUM_CONNECTIONS_ACCEPTED_def NUM_CONNECTIONS_REJECTED_def)
qed

theorem accept_loop_counts_witness:
  "\<exists>r r'. server_main example_machine = Some (Inr r) \<and> accept_loop (map Some (replicate 300 example_socket)) r = Some (Inr r') \<and>
     run_counters r' NUM_CONNECTIONS_ACCEPTED = 256 \<and> run_counters r' NUM_CONNECTIONS_REJECTED = 44"
proof -
  obtain st where st: "storage_init example_env 14400 100 (split_commas (label_indices_config example_settings)) ([], []) ([], []) = Some (0, Some st)"
    using init_empty [of 100 example_env 14400 "split_commas (label_indices_config example_settings)"] by auto
  have lock: "acquire_storage_lock (m_kill example_machine) (m_pid example_machine) [] = Some (Inr (int_text 8))"
    by (simp add: acquire_storage_lock_def example_machine_def)
  obtain r where r: "server_main example_machine = Some (Inr r)" "run_settings r = example_settings"
    using server_starts [OF example_can_start _ lock, of st] st example_settings_ok(2,6) by (auto simp: example_machine_def)
  from accept_loop_counts [OF r(1), of "replicate 300 example_socket"] obtain r' where
    "accept_loop (map Some (replicate 300 example_socket)) r = Some (Inr r')" "run_counters r' NUM_CONNECTIONS_ACCEPTED = of_nat (min 300 (nat 256))" "run_counters r' NUM_CONNECTIONS_REJECTED = of_nat (300 - nat 256)"
    unfolding r(2) example_settings_ok(3) length_replicate by blast
  then show ?thesis using r(1) by (intro exI [of _ r] exI [of _ r']) simp
qed

end
