(* ===== verification/Tools.thy ===== *)
theory Tools
  imports Storage_Index Stream_Contract Server_Setup Tsc_Block
begin

text \<open>
  The tools for samples: \<^verbatim>\<open>src/sample-extractor/main.c\<close> reads a file of points, each with its key, and writes the series of the keys that have
  a text in them; \<^verbatim>\<open>src/comptest/main.c\<close> reads series and measures their compressed size. The extractor keeps the keys in a red-black tree of \<^verbatim>\<open>sglib.h\<close>, whose code
  is that of \<^verbatim>\<open>tree.c\<close>. A file is a stream of bytes; which address \<^verbatim>\<open>my_malloc\<close> returns is a parameter.
\<close>

section \<open>The extractor\<close>

record key_item =
  ki_key :: "byte list"
  ki_points :: "(i64 \<times> u64) list"

definition MAX_ESCAPPED_KEY :: nat where "MAX_ESCAPPED_KEY = 1024 * 1024"
definition MAX_POINTS_PEY_KEY :: nat where "MAX_POINTS_PEY_KEY = 4000"

definition key_item_cmp :: "key_item \<Rightarrow> key_item \<Rightarrow> int" where
  "key_item_cmp a b =
     (if length (ki_key a) < length (ki_key b) then - 1
      else if length (ki_key a) > length (ki_key b) then 1
      else memcmp (ki_key a) (ki_key b) (length (ki_key a)))"

record key_tree =
  kt_root :: item_tree
  kt_items :: "ptr \<Rightarrow> key_item"
  kt_used :: "ptr list"

definition kt_cmp :: "(ptr \<Rightarrow> key_item) \<Rightarrow> ptr \<Rightarrow> ptr \<Rightarrow> int" where
  "kt_cmp its p q = key_item_cmp (its p) (its q)"

definition find_or_add :: "(ptr list \<Rightarrow> ptr) \<Rightarrow> key_tree \<Rightarrow> byte list \<Rightarrow> (ptr \<times> key_tree) option" where
  "find_or_add malloc kt k =
     (let x = \<lparr>ki_key = k, ki_points = []\<rparr>
      in case find_member (\<lambda>q. key_item_cmp x (kt_items kt q)) (kt_root kt) of
        Some p \<Rightarrow> Some (p, kt)
      | None \<Rightarrow> do {
          let p = malloc (kt_used kt);
          let its = (kt_items kt)(p := x);
          t \<leftarrow> tree_add (kt_cmp its) (kt_root kt) p;
          Some (p, \<lparr>kt_root = t, kt_items = its, kt_used = p # kt_used kt\<rparr>) })"

definition track_point :: "(ptr list \<Rightarrow> ptr) \<Rightarrow> key_tree \<Rightarrow> byte list \<Rightarrow> i64 \<Rightarrow> u64 \<Rightarrow> key_tree option" where
  "track_point malloc kt k t y = do {
     (p, kt) \<leftarrow> find_or_add malloc kt k;
     let item = kt_items kt p;
     _ \<leftarrow> c_assert (length (ki_points item) < MAX_POINTS_PEY_KEY);
     Some (kt\<lparr>kt_items := (kt_items kt)(p := item\<lparr>ki_points := ki_points item @ [(t, y)]\<rparr>)\<rparr>) }"

definition read_sample :: "(structured_stream, byte list \<times> i64 \<times> u64) prog" where
  "read_sample =
     andthen (structured_stream_read_uint16_prefixed_bytes MAX_ESCAPPED_KEY) (\<lambda>k.
     andthen structured_stream_read_int64 (\<lambda>t.
     andthen structured_stream_read_double (\<lambda>y. ret (k, t, y))))"

text \<open>The loop over the file ends at the first error of a read, which the end of the file is.\<close>

partial_function (option) extract_loop :: "(ptr list \<Rightarrow> ptr) \<Rightarrow> mem \<Rightarrow> byte list \<Rightarrow> structured_stream \<Rightarrow> key_tree \<Rightarrow> key_tree option" where
  "extract_loop malloc buf flt ss kt = do {
     (r, ss) \<leftarrow> read_sample ss;
     case r of Inl res \<Rightarrow> Some kt
     | Inr (k, t, y) \<Rightarrow>
         if \<not> memmem k flt then extract_loop malloc buf flt ss kt
         else do {
           (res, _) \<leftarrow> escape_key k buf;
           _ \<leftarrow> c_assert (res = 0);
           kt \<leftarrow> track_point malloc kt k t y;
           extract_loop malloc buf flt ss kt } }"

declare extract_loop.simps [code]

text \<open>A call whose result is asserted to be zero.\<close>

definition ok_or_abort :: "(structured_stream, 'a) prog \<Rightarrow> structured_stream \<Rightarrow> structured_stream option" where
  "ok_or_abort p ss = do { (r, ss) \<leftarrow> p ss; case r of Inl _ \<Rightarrow> None | Inr _ \<Rightarrow> Some ss }"

primrec dump_points :: "(i64 \<times> u64) list \<Rightarrow> structured_stream \<Rightarrow> structured_stream option" where
  "dump_points [] ss = Some ss"
| "dump_points (q # qs) ss = do {
     ss \<leftarrow> ok_or_abort (structured_stream_write_int64 (fst q)) ss;
     ss \<leftarrow> ok_or_abort (structured_stream_write_double (snd q)) ss;
     dump_points qs ss }"

definition dump_item :: "key_item \<Rightarrow> structured_stream \<Rightarrow> structured_stream option" where
  "dump_item item ss = do {
     ss \<leftarrow> ok_or_abort (structured_stream_write_uint16_prefixed_bytes (ki_key item) (of_nat (length (ki_key item)))) ss;
     ss \<leftarrow> ok_or_abort (structured_stream_write_uint16 (of_nat (length (ki_points item)))) ss;
     dump_points (ki_points item) ss }"

primrec dump_items :: "key_item list \<Rightarrow> structured_stream \<Rightarrow> structured_stream option" where
  "dump_items [] ss = Some ss"
| "dump_items (item # is) ss = do { ss \<leftarrow> dump_item item ss; dump_items is ss }"

definition dump_data :: "(nat \<Rightarrow> byte) \<Rightarrow> socket \<Rightarrow> key_tree \<Rightarrow> socket option" where
  "dump_data junk stdout kt = do {
     it \<leftarrow> it_init_inorder (kt_root kt);
     ps \<leftarrow> it_all it;
     ss \<leftarrow> dump_items (map (kt_items kt) ps) (structured_stream_new junk stdout 0 1024);
     (_, ss) \<leftarrow> structured_stream_flush ss;
     Some (fd ss) }"

text \<open>The whole program: \<open>file\<close> is \<open>None\<close> if it cannot be opened. The result is the exit code and what the standard output is then.\<close>

definition sample_extractor :: "(ptr list \<Rightarrow> ptr) \<Rightarrow> (nat \<Rightarrow> byte) \<Rightarrow> int \<Rightarrow> byte list \<Rightarrow> socket option \<Rightarrow> socket \<Rightarrow> (int \<times> socket) option" where
  "sample_extractor malloc junk argc flt file stdout =
     (if argc \<noteq> 3 then Some (1, stdout)
      else case file of None \<Rightarrow> Some (1, stdout)
        | Some file \<Rightarrow> do {
            kt \<leftarrow> extract_loop malloc (fresh_mem junk MAX_ESCAPPED_KEY) flt (structured_stream_new junk file (1024 * 1024) 0)
              \<lparr>kt_root = Null, kt_items = (\<lambda>_. \<lparr>ki_key = [], ki_points = []\<rparr>), kt_used = []\<rparr>;
            stdout \<leftarrow> dump_data junk stdout kt;
            Some (0, stdout) })"

section \<open>The measurement\<close>

text \<open>The points of a series are read and added to a block of 64 bytes, which must take all of them.\<close>

fun comptest_points :: "nat \<Rightarrow> tsc_header \<Rightarrow> structured_stream \<Rightarrow> ((int + tsc_header) \<times> structured_stream) option" where
  "comptest_points 0 h ss = Some (Inr h, ss)"
| "comptest_points (Suc n) h ss = do {
     (r, ss) \<leftarrow> andthen structured_stream_read_int64 (\<lambda>t. andthen structured_stream_read_double (\<lambda>y. ret (t, y))) ss;
     case r of Inl res \<Rightarrow> Some (Inl 1, ss)
     | Inr (t, y) \<Rightarrow> do {
         (res, h) \<leftarrow> tsc_add h t y;
         _ \<leftarrow> c_assert (res = 0);
         comptest_points n h ss } }"

text \<open>One line for a series: its key as text and the size of its block. \<open>hdr\<close> is the size of the header in memory.\<close>

partial_function (option) comptest_loop ::
    "(nat \<Rightarrow> byte) \<Rightarrow> tsc_header \<Rightarrow> mem \<Rightarrow> nat \<Rightarrow> structured_stream \<Rightarrow> (byte list \<times> u32) list \<Rightarrow> u64 \<Rightarrow> (int \<times> (byte list \<times> u32) list \<times> u64) option" where
  "comptest_loop junk h buf hdr ss out sum_bytes = do {
     (r, ss) \<leftarrow> structured_stream_read_uint16_prefixed_bytes_inplace ss;
     case r of Inl res \<Rightarrow> Some (if res = ERR_STRUCTURED_STREAM_EOF then 0 else 1, out, sum_bytes)
     | Inr s \<Rightarrow> do {
         (res, text) \<leftarrow> escape_key s buf;
         _ \<leftarrow> c_assert (res = 0);
         (_, h) \<leftarrow> tsc_init junk h 64;
         (r, ss) \<leftarrow> structured_stream_read_uint16 ss;
         case r of Inl res \<Rightarrow> Some (1, out, sum_bytes)
         | Inr num_pts \<Rightarrow> do {
             (r, ss) \<leftarrow> comptest_points (unat num_pts) h ss;
             case r of Inl res \<Rightarrow> Some (res, out, sum_bytes)
             | Inr h \<Rightarrow> comptest_loop junk h buf hdr ss (out @ [(string_at text 0, data_len h)]) (sum_bytes + ucast (data_len h) + of_nat hdr) } } }"

declare comptest_loop.simps [code]

definition comptest :: "(nat \<Rightarrow> byte) \<Rightarrow> tsc_header \<Rightarrow> nat \<Rightarrow> socket option \<Rightarrow> (int \<times> (byte list \<times> u32) list \<times> u64) option" where
  "comptest junk h hdr file = (case file of None \<Rightarrow> Some (1, [], 0)
     | Some file \<Rightarrow> comptest_loop junk h (fresh_mem junk (1024 * 1024)) hdr (structured_stream_new junk file (1024 * 1024) 0) [] 0)"

end
