(* ===== verification/Tools_Properties.thy ===== *)
theory Tools_Properties
  imports Tools Storage_Write
begin

text \<open>What the tools for samples do: the extractor writes the series of the chosen keys, in order, and the measurement reads exactly these.\<close>

section \<open>The tree of the keys\<close>

definition key_cmp :: "byte list \<Rightarrow> byte list \<Rightarrow> int" where
  "key_cmp a b = (if length a < length b then - 1 else if length a > length b then 1 else memcmp a b (length a))"

lemma key_item_cmp_keys: "key_item_cmp a b = key_cmp (ki_key a) (ki_key b)"
  by (simp add: key_item_cmp_def key_cmp_def)

lemma key_cmp_eq: "key_cmp a b = 0 \<longleftrightarrow> a = b"
  by (auto simp: key_cmp_def memcmp_eq_0)

lemma key_cmp_swap: "key_cmp b a = - key_cmp a b"
  using memcmp_swap [of b a "length a"] by (auto simp: key_cmp_def)

lemma key_cmp_trans: "key_cmp a b \<le> 0 \<Longrightarrow> key_cmp b c \<le> 0 \<Longrightarrow> key_cmp a c \<le> 0"
  using memcmp_trans [of a b "length a" c] by (auto simp: key_cmp_def split: if_splits)

lemma kt_cmp_keys: "kt_cmp its p q = key_cmp (ki_key (its p)) (ki_key (its q))"
  by (simp add: kt_cmp_def key_item_cmp_keys)

interpretation ko: item_order "kt_cmp its" for its
proof
  fix a b c
  show "kt_cmp its a b < 0 \<longleftrightarrow> kt_cmp its b a > 0" using key_cmp_swap [of "ki_key (its b)" "ki_key (its a)"] by (simp add: kt_cmp_keys)
  show "kt_cmp its a b \<le> 0 \<Longrightarrow> kt_cmp its b c \<le> 0 \<Longrightarrow> kt_cmp its a c \<le> 0" unfolding kt_cmp_keys by (rule key_cmp_trans)
qed

lemma search_key_any: "search_key (kt_cmp its) (\<lambda>q. key_item_cmp x (its q))"
  unfolding search_key_def
proof (intro allI impI conjI)
  let ?k = "\<lambda>p. ki_key (its p)"
  fix a b assume "kt_cmp its a b \<le> 0"
  then have ab: "key_cmp (?k a) (?k b) \<le> 0" by (simp add: kt_cmp_keys)
  note t = key_cmp_trans [OF ab, of "ki_key x"] key_cmp_trans [OF _ ab, of "ki_key x"]
  show "key_item_cmp x (its b) < 0" if "key_item_cmp x (its a) < 0"
    using t(1) that key_cmp_swap [of "ki_key x" "?k a"] key_cmp_swap [of "ki_key x" "?k b"] unfolding key_item_cmp_keys by linarith
  show "key_item_cmp x (its a) > 0" if "key_item_cmp x (its b) > 0" using t(2) that unfolding key_item_cmp_keys by linarith
qed

text \<open>The tree has the series \<open>m\<close>.\<close>

definition kt_ok :: "key_tree \<Rightarrow> (byte list \<rightharpoonup> (i64 \<times> u64) list) \<Rightarrow> bool" where
  "kt_ok kt m \<longleftrightarrow> (let S = tree_set (kt_root kt); key = (\<lambda>p. ki_key (kt_items kt p)) in
     item_index (kt_cmp (kt_items kt)) (kt_root kt) \<and> S \<subseteq> set (kt_used kt) \<and> inj_on key S \<and> dom m = key ` S \<and>
     (\<forall>p\<in>S. m (key p) = Some (ki_points (kt_items kt p))))"

lemma kt_okI:
  assumes "item_index (kt_cmp (kt_items kt)) (kt_root kt)" "tree_set (kt_root kt) \<subseteq> set (kt_used kt)" "inj_on (\<lambda>p. ki_key (kt_items kt p)) (tree_set (kt_root kt))"
    and "dom m = (\<lambda>p. ki_key (kt_items kt p)) ` tree_set (kt_root kt)" "\<And>p. p \<in> tree_set (kt_root kt) \<Longrightarrow> m (ki_key (kt_items kt p)) = Some (ki_points (kt_items kt p))"
  shows "kt_ok kt m"
  using assms by (simp add: kt_ok_def Let_def)

lemma find_or_add_ok:
  assumes "kt_ok kt m" "\<And>ps. malloc ps \<notin> set ps"
  shows "\<exists>p kt'. find_or_add malloc kt k = Some (p, kt') \<and> kt_ok kt' (m(k \<mapsto> points_of m k)) \<and> p \<in> tree_set (kt_root kt') \<and> ki_key (kt_items kt' p) = k"
proof -
  let ?x = "\<lparr>ki_key = k, ki_points = []\<rparr>" and ?S = "tree_set (kt_root kt)" and ?it = "kt_items kt" and ?p = "malloc (kt_used kt)"
  let ?its = "?it(?p := ?x)"
  have ok: "item_index (kt_cmp ?it) (kt_root kt)" "?S \<subseteq> set (kt_used kt)" "inj_on (\<lambda>p. ki_key (?it p)) ?S" "dom m = (\<lambda>p. ki_key (?it p)) ` ?S"
    "\<forall>p\<in>?S. m (ki_key (?it p)) = Some (ki_points (?it p))" using assms(1) by (simp_all add: kt_ok_def Let_def)
  have fresh: "?p \<notin> ?S" using ok(2) assms(2) by blast
  have srt: "sorted_wrt (goes_left (kt_cmp ?it)) (inorder (kt_root kt))" using ok(1) by (simp add: item_index_def)
  note f = ko.find_member_ok [OF srt search_key_any]
  show ?thesis
  proof (cases "find_member (\<lambda>q. key_item_cmp ?x (?it q)) (kt_root kt)")
    case None
    have "\<forall>q\<in>?S. key_item_cmp ?x (?it q) \<noteq> 0" by (rule f(1) [OF None])
    then have nk: "\<forall>q\<in>?S. ki_key (?it q) \<noteq> k" unfolding key_item_cmp_keys key_cmp_eq by auto
    have idx: "item_index (kt_cmp ?its) (kt_root kt)" by (rule item_index_cong [OF ok(1)]) (use fresh in \<open>auto simp: kt_cmp_def\<close>)
    obtain t where t: "tree_add (kt_cmp ?its) (kt_root kt) ?p = Some t" "item_index (kt_cmp ?its) t" "tree_set t = insert ?p ?S" using ko.add_ok [OF idx fresh] by blast
    let ?kt = "\<lparr>kt_root = t, kt_items = ?its, kt_used = ?p # kt_used kt\<rparr>"
    have "m k = None" using nk ok(4) by (force simp: domIff)
    then have pk: "points_of m k = []" by (simp add: points_of_def)
    have "find_or_add malloc kt k = Some (?p, ?kt)" using None t(1) by (simp add: find_or_add_def Let_def)
    moreover have im: "(\<lambda>p. ki_key (?its p)) ` ?S = (\<lambda>p. ki_key (?it p)) ` ?S" by (rule image_cong) (use fresh in auto)
    have "kt_ok ?kt (m(k \<mapsto> []))"
    proof (rule kt_okI, unfold key_tree.simps t(3))
      show "item_index (kt_cmp ?its) t" by (rule t(2))
      show "insert ?p ?S \<subseteq> set (?p # kt_used kt)" using ok(2) by auto
      show "inj_on (\<lambda>p. ki_key (?its p)) (insert ?p ?S)" using ok(3) nk fresh by (auto simp: inj_on_def)
      show "dom (m(k \<mapsto> [])) = (\<lambda>p. ki_key (?its p)) ` insert ?p ?S" using ok(4) im by simp
      show "(m(k \<mapsto> [])) (ki_key (?its q)) = Some (ki_points (?its q))" if "q \<in> insert ?p ?S" for q using that nk fresh ok(5) by (cases "q = ?p") auto
    qed
    ultimately have "find_or_add malloc kt k = Some (?p, ?kt) \<and> kt_ok ?kt (m(k \<mapsto> []))" by blast
    then show ?thesis unfolding pk using t(3) by (intro exI [of _ ?p] exI [of _ ?kt]) simp
  next
    case (Some p)
    have "p \<in> ?S \<and> key_item_cmp ?x (?it p) = 0" by (rule f(2) [OF Some])
    then have p: "p \<in> ?S" "ki_key (?it p) = k" unfolding key_item_cmp_keys key_cmp_eq by auto
    then have "m(k \<mapsto> points_of m k) = m" using ok(5) by (auto simp: points_of_def fun_eq_iff)
    then show ?thesis using Some p assms(1) by (auto simp: find_or_add_def)
  qed
qed

lemma track_point_ok:
  assumes "kt_ok kt m" "\<And>ps. malloc ps \<notin> set ps" "length (points_of m k) < MAX_POINTS_PEY_KEY"
  shows "\<exists>kt'. track_point malloc kt k t y = Some kt' \<and> kt_ok kt' (m(k \<mapsto> points_of m k @ [(t, y)]))"
proof -
  obtain p kt' where f: "find_or_add malloc kt k = Some (p, kt')" "kt_ok kt' (m(k \<mapsto> points_of m k))" "p \<in> tree_set (kt_root kt')" "ki_key (kt_items kt' p) = k"
    using find_or_add_ok [OF assms(1,2)] by blast
  let ?S = "tree_set (kt_root kt')" and ?it = "kt_items kt'"
  let ?its = "?it(p := ?it p\<lparr>ki_points := ki_points (?it p) @ [(t, y)]\<rparr>)"
  have ok: "item_index (kt_cmp ?it) (kt_root kt')" "?S \<subseteq> set (kt_used kt')" "inj_on (\<lambda>p. ki_key (?it p)) ?S" "dom (m(k \<mapsto> points_of m k)) = (\<lambda>p. ki_key (?it p)) ` ?S"
    "\<forall>p\<in>?S. (m(k \<mapsto> points_of m k)) (ki_key (?it p)) = Some (ki_points (?it p))" using f(2) unfolding kt_ok_def Let_def by blast+
  have pts: "ki_points (?it p) = points_of m k" using bspec [OF ok(5) f(3)] f(4) by simp
  have keys: "ki_key (?its q) = ki_key (?it q)" for q by simp
  have cmp: "kt_cmp ?its = kt_cmp ?it" by (intro ext) (simp only: kt_cmp_keys keys)
  have other: "ki_key (?it q) \<noteq> k" if "q \<in> ?S" "q \<noteq> p" for q using ok(3) f(3,4) that by (auto simp: inj_on_def)
  have "kt_ok (kt'\<lparr>kt_items := ?its\<rparr>) (m(k \<mapsto> points_of m k @ [(t, y)]))"
  proof (rule kt_okI)
    show "item_index (kt_cmp (kt_items (kt'\<lparr>kt_items := ?its\<rparr>))) (kt_root (kt'\<lparr>kt_items := ?its\<rparr>))" using ok(1) cmp by simp
    show "tree_set (kt_root (kt'\<lparr>kt_items := ?its\<rparr>)) \<subseteq> set (kt_used (kt'\<lparr>kt_items := ?its\<rparr>))" using ok(2) by simp
    show "inj_on (\<lambda>q. ki_key (kt_items (kt'\<lparr>kt_items := ?its\<rparr>) q)) (tree_set (kt_root (kt'\<lparr>kt_items := ?its\<rparr>)))" using ok(3) keys by (simp del: fun_upd_apply)
    show "dom (m(k \<mapsto> points_of m k @ [(t, y)])) = (\<lambda>q. ki_key (kt_items (kt'\<lparr>kt_items := ?its\<rparr>) q)) ` tree_set (kt_root (kt'\<lparr>kt_items := ?its\<rparr>))"
      using ok(4) keys by (simp del: fun_upd_apply)
    fix q assume "q \<in> tree_set (kt_root (kt'\<lparr>kt_items := ?its\<rparr>))"
    then have q: "q \<in> ?S" by simp
    show "(m(k \<mapsto> points_of m k @ [(t, y)])) (ki_key (kt_items (kt'\<lparr>kt_items := ?its\<rparr>) q)) = Some (ki_points (kt_items (kt'\<lparr>kt_items := ?its\<rparr>) q))"
      using bspec [OF ok(5) q] other [OF q] f(4) pts by (cases "q = p") simp_all
  qed
  moreover have "track_point malloc kt k t y = Some (kt'\<lparr>kt_items := ?its\<rparr>)" using f(1) pts assms(3) by (simp add: track_point_def Let_def)
  ultimately show ?thesis by blast
qed

section \<open>Reading samples\<close>

type_synonym sample = "byte list \<times> i64 \<times> u64"

definition enc_sample :: "sample \<Rightarrow> byte list" where
  "enc_sample q = prefixed (fst q) @ le_bytes (fst (snd q)) @ le_bytes (snd (snd q))"

text \<open>The series that a sequence of samples adds to: the chosen ones, each behind the points of its key.\<close>

primrec tracked :: "byte list \<Rightarrow> sample list \<Rightarrow> (byte list \<rightharpoonup> (i64 \<times> u64) list) \<Rightarrow> (byte list \<rightharpoonup> (i64 \<times> u64) list)" where
  "tracked flt [] m = m"
| "tracked flt (q # qs) m = tracked flt qs (if memmem (fst q) flt then m(fst q \<mapsto> points_of m (fst q) @ [snd q]) else m)"

definition points_with :: "byte list \<Rightarrow> sample list \<Rightarrow> (i64 \<times> u64) list" where
  "points_with k qs = map snd (filter (\<lambda>q. fst q = k) qs)"

lemma tracked_key:
  "tracked flt qs m k = (if memmem k flt \<and> k \<in> fst ` set qs then Some (points_of m k @ points_with k qs) else m k)"
proof (induction qs arbitrary: m)
  case (Cons q qs)
  have "points_of (m(fst q \<mapsto> s)) k = (if k = fst q then s else points_of m k)" for s by (simp add: points_of_def)
  moreover have "points_with k qs = []" if "k \<notin> fst ` set qs" using that by (auto simp: points_with_def filter_empty_conv)
  moreover have "points_with k (q # qs) = (if fst q = k then snd q # points_with k qs else points_with k qs)" by (simp add: points_with_def)
  ultimately show ?case using Cons.IH by (auto simp del: fun_upd_apply) (auto simp: fun_upd_apply)
qed simp

lemma gives_read_sample:
  assumes "length (fst q) < 2 ^ 16" "2 ^ 17 \<le> rn"
  shows "gives (at rn wn (enc_sample q @ inp) out) read_sample (Inr q) (at rn wn inp out)"
proof -
  let ?inp = "le_bytes (fst (snd q)) @ le_bytes (snd (snd q)) @ inp"
  have e: "enc_sample q @ inp = prefixed (fst q) @ ?inp" by (simp add: enc_sample_def)
  have 1: "gives (at rn wn (prefixed (fst q) @ ?inp) out) (structured_stream_read_uint16_prefixed_bytes MAX_ESCAPPED_KEY) (Inr (fst q)) (at rn wn ?inp out)"
    unfolding structured_stream_read_uint16_prefixed_bytes_def
    by (rule gives_andthen [OF gives_read_prefixed]) (use assms in \<open>auto simp: MAX_ESCAPPED_KEY_def intro!: gives_ret\<close>)
  have rn: "8 \<le> rn" using assms(2) by simp
  show ?thesis unfolding e read_sample_def
    by (rule gives_andthen [OF 1], rule gives_andthen [OF gives_read_int64 [OF rn]], rule gives_andthen [OF gives_read_double [OF rn]]) (simp add: gives_ret)
qed

lemma gives_read_key_end:
  assumes "2 ^ 17 \<le> rn"
  shows "gives (at rn wn [] out) structured_stream_read_uint16_prefixed_bytes_inplace (Inl ERR_STRUCTURED_STREAM_EOF) (at rn wn [] out)"
  unfolding structured_stream_read_uint16_prefixed_bytes_inplace_def structured_stream_read_uint16_def
  by (rule gives_andthen_error, rule gives_andthen_error, rule gives_read_eof) (use assms in simp_all)

lemma gives_no_sample:
  assumes "2 ^ 17 \<le> rn"
  shows "gives (at rn wn [] out) read_sample (Inl ERR_STRUCTURED_STREAM_EOF) (at rn wn [] out)"
  unfolding read_sample_def structured_stream_read_uint16_prefixed_bytes_def
  by (rule gives_andthen_error, rule gives_andthen_error, rule gives_read_key_end [OF assms])

lemma escape_key_fits:
  assumes "length k < 2 ^ 16" "length buf = 2 ^ 20"
  shows "\<exists>rest. escape_key k buf = Some (0, key_text k @ [0] @ rest)"
proof -
  have "length (key_text k) \<le> 4 * length k" by (induction k) (auto simp: key_text_def)
  then show ?thesis using escape_key_correct [of k buf] assms by simp
qed

lemma extract_loop_ok:
  assumes "at rn wn (concat (map enc_sample qs)) out ss" "kt_ok kt m" "\<And>ps. malloc ps \<notin> set ps" "length buf = 2 ^ 20" "2 ^ 17 \<le> rn"
    and "\<forall>q\<in>set qs. length (fst q) < 2 ^ 16" "\<forall>k. length (points_of m k) + length (points_with k qs) \<le> MAX_POINTS_PEY_KEY"
  shows "\<exists>kt'. extract_loop malloc buf flt ss kt = Some kt' \<and> kt_ok kt' (tracked flt qs m)"
  using assms(1,2,6,7)
proof (induction qs arbitrary: ss kt m)
  case Nil
  then obtain ss' where "read_sample ss = Some (Inl ERR_STRUCTURED_STREAM_EOF, ss')" using givesD [OF gives_no_sample [OF assms(5)]] by fastforce
  then show ?case using Nil.prems(2) by (subst extract_loop.simps) simp
next
  case (Cons q qs)
  obtain k t y where q: "q = (k, t, y)" by (cases q)
  have l: "length k < 2 ^ 16" "\<forall>q\<in>set qs. length (fst q) < 2 ^ 16" using Cons.prems(3) q by auto
  have a: "at rn wn (enc_sample q @ concat (map enc_sample qs)) out ss" using Cons.prems(1) by simp
  have "length (fst q) < 2 ^ 16" using l q by simp
  from givesD [OF gives_read_sample [OF this assms(5)] a] obtain ss' where r: "read_sample ss = Some (Inr (k, t, y), ss')" "at rn wn (concat (map enc_sample qs)) out ss'"
    using q by auto
  have w: "points_with k' (q # qs) = (if k' = k then (t, y) # points_with k' qs else points_with k' qs)" for k' using q by (auto simp: points_with_def)
  have len: "length (points_of m k') + length (points_with k' (q # qs)) \<le> MAX_POINTS_PEY_KEY" for k' using Cons.prems(4) by blast
  show ?case
  proof (cases "memmem k flt")
    case False
    have "\<forall>k. length (points_of m k) + length (points_with k qs) \<le> MAX_POINTS_PEY_KEY" using len w by (metis Suc_leD add_Suc_right length_Cons)
    from Cons.IH [OF r(2) Cons.prems(2) l(2) this] show ?thesis using False r(1) q by (subst extract_loop.simps) simp
  next
    case True
    have "length (points_of m k) < MAX_POINTS_PEY_KEY" using len [of k] w by simp
    then obtain kt1 where kt1: "track_point malloc kt k t y = Some kt1" "kt_ok kt1 (m(k \<mapsto> points_of m k @ [(t, y)]))"
      using track_point_ok [OF Cons.prems(2) assms(3)] by blast
    obtain rest where e: "escape_key k buf = Some (0, key_text k @ [0] @ rest)" using escape_key_fits [OF l(1) assms(4)] by blast
    have "length (points_of (m(k \<mapsto> points_of m k @ [(t, y)])) k') + length (points_with k' qs) \<le> MAX_POINTS_PEY_KEY" for k'
      using len [of k'] w [of k'] by (cases "k' = k") (simp_all add: points_of_def)
    then have "\<forall>k'. length (points_of (m(k \<mapsto> points_of m k @ [(t, y)])) k') + length (points_with k' qs) \<le> MAX_POINTS_PEY_KEY" by blast
    from Cons.IH [OF r(2) kt1(2) l(2) this] show ?thesis using True r(1) q kt1(1) e by (subst extract_loop.simps) (simp del: fun_upd_apply)
  qed
qed

section \<open>Writing series\<close>

definition enc_pts :: "(i64 \<times> u64) list \<Rightarrow> byte list" where
  "enc_pts pts = concat (map (\<lambda>q. le_bytes (fst q) @ le_bytes (snd q)) pts)"

definition enc_series :: "byte list \<times> (i64 \<times> u64) list \<Rightarrow> byte list" where
  "enc_series x = prefixed (fst x) @ le_bytes (of_nat (length (snd x)) :: u16) @ enc_pts (snd x)"

lemma ok_or_abortI: "gives P p (Inr x) Q \<Longrightarrow> P ss \<Longrightarrow> \<exists>ss'. ok_or_abort p ss = Some ss' \<and> Q ss'"
  by (auto simp: ok_or_abort_def dest!: givesD)

lemma dump_points_ok:
  assumes "at rn wn inp out ss" "8 \<le> wn"
  shows "\<exists>ss'. dump_points pts ss = Some ss' \<and> at rn wn inp (out @ enc_pts pts) ss'"
  using assms(1)
proof (induction pts arbitrary: ss out)
  case Nil
  then show ?case by (simp add: enc_pts_def)
next
  case (Cons q pts)
  obtain s1 where 1: "ok_or_abort (structured_stream_write_int64 (fst q)) ss = Some s1" "at rn wn inp (out @ le_bytes (fst q)) s1"
    using ok_or_abortI [OF gives_write_int64 [OF assms(2)] Cons.prems] by blast
  obtain s2 where 2: "ok_or_abort (structured_stream_write_double (snd q)) s1 = Some s2" "at rn wn inp ((out @ le_bytes (fst q)) @ le_bytes (snd q)) s2"
    using ok_or_abortI [OF gives_write_double [OF assms(2)] 1(2)] by blast
  show ?case using Cons.IH [OF 2(2)] 1(1) 2(1) by (simp add: enc_pts_def)
qed

lemma dump_item_ok:
  assumes "at rn 1024 inp out ss" "length (ki_key item) \<le> 1024"
  shows "\<exists>ss'. dump_item item ss = Some ss' \<and> at rn 1024 inp (out @ enc_series (ki_key item, ki_points item)) ss'"
proof -
  let ?n = "of_nat (length (ki_key item)) :: u16" and ?c = "of_nat (length (ki_points item)) :: u16"
  have n: "unat ?n = length (ki_key item)" using assms(2) by (simp add: unat_of_nat)
  obtain s1 where 1: "ok_or_abort (structured_stream_write_uint16_prefixed_bytes (ki_key item) ?n) ss = Some s1" "at rn 1024 inp (out @ prefixed (ki_key item)) s1"
    using ok_or_abortI [OF gives_write_prefixed [OF n, of 1024 rn inp out "[]"] assms(1)] assms(2) by auto
  obtain s2 where 2: "ok_or_abort (structured_stream_write_uint16 ?c) s1 = Some s2" "at rn 1024 inp ((out @ prefixed (ki_key item)) @ le_bytes ?c) s2"
    using ok_or_abortI [OF gives_write_uint16 1(2)] by auto
  show ?thesis using dump_points_ok [OF 2(2), of "ki_points item"] 1(1) 2(1) by (simp add: dump_item_def enc_series_def)
qed

lemma dump_items_ok:
  assumes "at rn 1024 inp out ss" "\<forall>x\<in>set xs. length (ki_key x) \<le> 1024"
  shows "\<exists>ss'. dump_items xs ss = Some ss' \<and> at rn 1024 inp (out @ concat (map (\<lambda>x. enc_series (ki_key x, ki_points x)) xs)) ss'"
  using assms
proof (induction xs arbitrary: ss out)
  case (Cons x xs)
  obtain s1 where 1: "dump_item x ss = Some s1" "at rn 1024 inp (out @ enc_series (ki_key x, ki_points x)) s1" using dump_item_ok Cons.prems by fastforce
  show ?case using Cons.IH [OF 1(2)] 1(1) Cons.prems(2) by simp
qed simp

lemma kt_sorted:
  assumes "kt_ok kt m"
  shows "sorted_wrt (\<lambda>a b. key_cmp a b < 0) (map (\<lambda>p. ki_key (kt_items kt p)) (inorder (kt_root kt)))"
proof -
  let ?it = "kt_items kt" and ?xs = "inorder (kt_root kt)"
  have s: "sorted_wrt (goes_left (kt_cmp ?it)) ?xs" and inj: "inj_on (\<lambda>p. ki_key (?it p)) (set ?xs)" using assms by (simp_all add: kt_ok_def Let_def item_index_def tree_set_def)
  have "sorted_wrt (\<lambda>p q. key_cmp (ki_key (?it p)) (ki_key (?it q)) < 0) ?xs"
  proof (rule sorted_wrt_mono_rel [OF _ s])
    fix p q assume pq: "p \<in> set ?xs" "q \<in> set ?xs" "goes_left (kt_cmp ?it) p q"
    have "key_cmp (ki_key (?it p)) (ki_key (?it q)) \<noteq> 0"
    proof
      assume "key_cmp (ki_key (?it p)) (ki_key (?it q)) = 0"
      then have "p = q" using inj pq(1,2) unfolding key_cmp_eq by (simp add: inj_on_def)
      then show False using pq(3) by simp
    qed
    then show "key_cmp (ki_key (?it p)) (ki_key (?it q)) < 0" using pq(3) by (auto simp: goes_left_def kt_cmp_keys)
  qed
  then show ?thesis by (simp add: sorted_wrt_map)
qed

lemma dump_data_ok:
  assumes "kt_ok kt m" "card (dom m) < 2 ^ 63" "\<forall>k\<in>dom m. length k \<le> 1024" "Io_Error \<notin> set (rx stdout)" "\<forall>e\<in>set (tx stdout). full_write 1024 e"
  shows "\<exists>stdout' ks. dump_data junk stdout kt = Some stdout' \<and> sorted_wrt (\<lambda>a b. key_cmp a b < 0) ks \<and> set ks = dom m \<and>
    sent stdout' = sent stdout @ concat (map (\<lambda>k. enc_series (k, the (m k))) ks)"
proof -
  let ?it = "kt_items kt" and ?xs = "inorder (kt_root kt)" and ?ss = "structured_stream_new junk stdout 0 1024"
  let ?ks = "map (\<lambda>p. ki_key (?it p)) ?xs"
  have ok: "item_index (kt_cmp ?it) (kt_root kt)" "inj_on (\<lambda>p. ki_key (?it p)) (set ?xs)" "dom m = set ?ks" "\<forall>p\<in>set ?xs. m (ki_key (?it p)) = Some (ki_points (?it p))"
    using assms(1) by (simp_all add: kt_ok_def Let_def tree_set_def)
  have "distinct ?xs" using ko.sorted_distinct [of ?it ?xs] ok(1) by (simp add: item_index_def)
  then have "length ?xs = card (dom m)" unfolding ok(3) set_map using card_image [OF ok(2)] distinct_card by metis
  then obtain it where it: "it_init_inorder (kt_root kt) = Some it" "it_all it = Some ?xs"
    using ko.walk_ok [OF ok(1), of None] assms(2) by (auto simp: it_init_inorder_def key_ok_def visit_def)
  have "at 0 1024 (inbox stdout) (sent stdout) ?ss" using at_new [of 0 1024 stdout] assms(4,5) by simp
  moreover have "\<forall>x\<in>set (map ?it ?xs). length (ki_key x) \<le> 1024" using assms(3) ok(3) by auto
  ultimately obtain s1 where d: "dump_items (map ?it ?xs) ?ss = Some s1"
    "at 0 1024 (inbox stdout) (sent stdout @ concat (map (\<lambda>x. enc_series (ki_key x, ki_points x)) (map ?it ?xs))) s1" using dump_items_ok by blast
  obtain s2 where f: "structured_stream_flush s1 = Some (Inr (), s2)" "flushed 0 1024 (inbox stdout) (sent stdout @ concat (map (\<lambda>x. enc_series (ki_key x, ki_points x)) (map ?it ?xs))) s2"
    using givesD [OF gives_flush d(2)] by blast
  have e: "map (\<lambda>k. enc_series (k, the (m k))) ?ks = map (\<lambda>x. enc_series (ki_key x, ki_points x)) (map ?it ?xs)" using ok(4) by simp
  have "sent (fd s2) = sent stdout @ concat (map (\<lambda>k. enc_series (k, the (m k))) ?ks)" unfolding e using f(2) by (auto simp: flushed_def at_def outgoing_def)
  then show ?thesis using it d(1) f(1) kt_sorted [OF assms(1)] ok(3) by (intro exI [of _ "fd s2"] exI [of _ ?ks]) (simp add: dump_data_def)
qed

section \<open>Measuring\<close>

primrec add_points :: "tsc_header \<Rightarrow> (i64 \<times> u64) list \<Rightarrow> tsc_header option" where
  "add_points h [] = Some h"
| "add_points h (q # qs) = do { (res, h) \<leftarrow> tsc_add h (fst q) (snd q); _ \<leftarrow> c_assert (res = 0); add_points h qs }"

text \<open>A series whose points all fit the block of the measurement.\<close>

definition fits :: "(nat \<Rightarrow> byte) \<Rightarrow> (i64 \<times> u64) list \<Rightarrow> bool" where
  "fits junk pts \<longleftrightarrow> (\<forall>h. do { (_, h) \<leftarrow> tsc_init junk h 64; add_points h pts } \<noteq> None)"

lemma add_points_len:
  assumes "tsc_inv h done" "add_points h pts = Some h'"
  shows "data_len h' = data_len h"
  using assms
proof (induction pts arbitrary: h "done")
  case (Cons q pts)
  obtain h1 where h1: "tsc_add h (fst q) (snd q) = Some (ERR_OK, h1)" "add_points h1 pts = Some h'" using Cons.prems(2) by (auto simp: err_defs split: bind_splits)
  have "ERR_TSC_OUT_OF_SPACE \<noteq> ERR_OK" "ERR_OUT_OF_ORDER_TIMESTAMP \<noteq> ERR_OK" by (simp_all add: err_defs)
  then obtain d where "tsc_inv h1 d" "data_len h1 = data_len h" using h1(1) by (cases rule: tsc_add_cases [OF Cons.prems(1), of "fst q" "snd q"]) auto
  then show ?case using Cons.IH h1(2) by metis
qed simp

lemma block_64:
  assumes "tsc_init junk h0 64 = Some (r, h)" "add_points h pts = Some h'"
  shows "data_len h' = 64"
proof -
  have "sz (64 * 8) \<le> MAX_NUM_VALID_BITS" by (simp add: sz_def MAX_NUM_VALID_BITS_def)
  then have "r = ERR_OK" using assms(1) by (auto simp: tsc_init_def split: bind_splits)
  then have i: "tsc_inv h []" "unat (data_len h) = 64" using tsc_init_inv [of junk h0 64 h] assms(1) by auto
  have "data_len h' = data_len h" by (rule add_points_len [OF i(1) assms(2)])
  then show ?thesis using i(2) by (simp add: word_unat_eq_iff)
qed

lemma comptest_points_ok:
  assumes "at rn wn (enc_pts pts @ inp) out ss" "add_points h pts = Some h'" "8 \<le> rn"
  shows "\<exists>ss'. comptest_points (length pts) h ss = Some (Inr h', ss') \<and> at rn wn inp out ss'"
  using assms(1,2)
proof (induction pts arbitrary: h ss)
  case Nil
  then show ?case by (simp add: enc_pts_def)
next
  case (Cons q pts)
  obtain t y where q: "q = (t, y)" by (cases q)
  have a: "at rn wn (le_bytes t @ le_bytes y @ enc_pts pts @ inp) out ss" using Cons.prems(1) q by (simp add: enc_pts_def)
  have "gives (at rn wn (le_bytes t @ le_bytes y @ enc_pts pts @ inp) out)
    (andthen structured_stream_read_int64 (\<lambda>t. andthen structured_stream_read_double (\<lambda>y. ret (t, y)))) (Inr (t, y)) (at rn wn (enc_pts pts @ inp) out)"
    by (rule gives_andthen [OF gives_read_int64 [OF assms(3)]], rule gives_andthen [OF gives_read_double [OF assms(3)]]) (simp add: gives_ret)
  from givesD [OF this a] obtain s1 where 1: "andthen structured_stream_read_int64 (\<lambda>t. andthen structured_stream_read_double (\<lambda>y. ret (t, y))) ss = Some (Inr (t, y), s1)"
    "at rn wn (enc_pts pts @ inp) out s1" by blast
  obtain h1 where h1: "tsc_add h t y = Some (0, h1)" "add_points h1 pts = Some h'" using Cons.prems(2) q by (auto split: bind_splits)
  show ?case using Cons.IH [OF 1(2) h1(2)] 1(1) h1(1) by simp
qed

lemma key_text_nonzero: "0 \<notin> set (key_text k)"
  by (auto simp: key_text_def)

lemma comptest_loop_ok:
  assumes "at rn wn (concat (map enc_series xs)) out ss" "length buf = 2 ^ 20" "2 ^ 17 \<le> rn"
    and "\<forall>x\<in>set xs. length (fst x) < 2 ^ 16 \<and> length (snd x) < 2 ^ 16 \<and> fits junk (snd x)"
  shows "comptest_loop junk h buf hdr ss lines n = Some (0, lines @ map (\<lambda>x. (key_text (fst x), 64)) xs, n + of_nat (length xs) * (64 + of_nat hdr))"
  using assms(1,4)
proof (induction xs arbitrary: ss h lines n)
  case Nil
  then obtain ss' where "structured_stream_read_uint16_prefixed_bytes_inplace ss = Some (Inl ERR_STRUCTURED_STREAM_EOF, ss')"
    using givesD [OF gives_read_key_end [OF assms(3)]] by fastforce
  then show ?case by (subst comptest_loop.simps) simp
next
  case (Cons x xs)
  obtain k pts where x: "x = (k, pts)" by (cases x)
  have l: "length k < 2 ^ 16" "length pts < 2 ^ 16" "fits junk pts" "\<forall>x\<in>set xs. length (fst x) < 2 ^ 16 \<and> length (snd x) < 2 ^ 16 \<and> fits junk (snd x)" using Cons.prems(2) x by auto
  let ?c = "of_nat (length pts) :: u16" and ?inp = "concat (map enc_series xs)"
  have c: "unat ?c = length pts" using l(2) by (simp add: unat_of_nat)
  have a: "at rn wn (prefixed k @ le_bytes ?c @ enc_pts pts @ ?inp) out ss" using Cons.prems(1) x enc_series_def [of x] by simp
  have "length k + 2 \<le> rn" "2 \<le> rn" "8 \<le> rn" using l(1) assms(3) by auto
  note rn = this
  obtain s1 where 1: "structured_stream_read_uint16_prefixed_bytes_inplace ss = Some (Inr k, s1)" "at rn wn (le_bytes ?c @ enc_pts pts @ ?inp) out s1"
    using givesD [OF gives_read_prefixed [OF l(1) rn(1)] a] by blast
  obtain s2 where 2: "structured_stream_read_uint16 s1 = Some (Inr ?c, s2)" "at rn wn (enc_pts pts @ ?inp) out s2" using givesD [OF gives_read_uint16 [OF rn(2)] 1(2)] by blast
  obtain r h1 h2 where h: "tsc_init junk h 64 = Some (r, h1)" "add_points h1 pts = Some h2" using spec [OF l(3) [unfolded fits_def], of h] by (auto split: bind_splits)
  obtain s3 where 3: "comptest_points (length pts) h1 s2 = Some (Inr h2, s3)" "at rn wn ?inp out s3" using comptest_points_ok [OF 2(2) h(2) rn(3)] by blast
  obtain rest where e: "escape_key k buf = Some (0, key_text k @ [0] @ rest)" using escape_key_fits [OF l(1) assms(2)] by blast
  have t: "string_at (key_text k @ [0] @ rest) 0 = key_text k" using key_text_nonzero [of k] unfolding string_at_def by (subst drop_0, subst takeWhile_append2) auto
  have len: "data_len h2 = 64" by (rule block_64 [OF h])
  have "comptest_loop junk h buf hdr ss lines n = comptest_loop junk h2 buf hdr s3 (lines @ [(key_text k, 64)]) (n + 64 + of_nat hdr)"
    by (subst comptest_loop.simps) (simp add: 1(1) 2(1) h(1) 3(1) e t [simplified] len c)
  then show ?case using Cons.IH [OF 3(2) l(4), of h2 "lines @ [(key_text k, 64)]" "n + 64 + of_nat hdr"] x by (simp add: algebra_simps)
qed

section \<open>Properties\<close>

lemma extractor_ok:
  assumes malloc: "\<And>ps. malloc ps \<notin> set ps" and inp: "inbox file = concat (map enc_sample qs)" "Io_Error \<notin> set (rx file)" "tx file = []"
    and out: "Io_Error \<notin> set (rx stdout)" "\<forall>e\<in>set (tx stdout). full_write 1024 e"
    and qs: "\<forall>q\<in>set qs. length (fst q) \<le> 1024" "length qs < 2 ^ 63" "\<forall>k. length (points_with k qs) \<le> 4000"
  shows "\<exists>ks stdout'. sample_extractor malloc junk 3 flt (Some file) stdout = Some (0, stdout') \<and> sorted_wrt (\<lambda>a b. key_cmp a b < 0) ks \<and>
    set ks = {k \<in> fst ` set qs. memmem k flt} \<and> sent stdout' = sent stdout @ concat (map (\<lambda>k. enc_series (k, points_with k qs)) ks)"
proof -
  let ?buf = "fresh_mem junk MAX_ESCAPPED_KEY" and ?ss = "structured_stream_new junk file (1024 * 1024) 0" and ?m = "tracked flt qs Map.empty"
  let ?kt = "\<lparr>kt_root = Null, kt_items = (\<lambda>_. \<lparr>ki_key = [], ki_points = []\<rparr>), kt_used = []\<rparr>"
  have a: "at (1024 * 1024) 0 (concat (map enc_sample qs)) (sent file) ?ss" using at_new [of "1024 * 1024" 0 "file" junk] inp by simp
  have buf: "length ?buf = 2 ^ 20" by (simp add: fresh_mem_def MAX_ESCAPPED_KEY_def)
  have k0: "kt_ok ?kt Map.empty" by (simp add: kt_ok_def)
  have l: "\<forall>q\<in>set qs. length (fst q) < 2 ^ 16" "\<forall>k. length (points_of Map.empty k) + length (points_with k qs) \<le> MAX_POINTS_PEY_KEY"
    using qs(1,3) by (auto simp: points_of_def MAX_POINTS_PEY_KEY_def)
  obtain kt where kt: "extract_loop malloc ?buf flt ?ss ?kt = Some kt" "kt_ok kt ?m" using extract_loop_ok [OF a k0 malloc buf _ l] by auto
  have dom: "dom ?m = {k \<in> fst ` set qs. memmem k flt}" by (rule set_eqI) (simp add: tracked_key domIff conj_commute)
  have "card (dom ?m) \<le> card (fst ` set qs)" unfolding dom by (rule card_mono) auto
  also have "\<dots> \<le> length qs" by (metis card_length length_map list.set_map)
  finally have c: "card (dom ?m) < 2 ^ 63" using qs(2) by simp
  have "\<forall>k\<in>dom ?m. length k \<le> 1024" unfolding dom using qs(1) by auto
  from dump_data_ok [OF kt(2) c this out] obtain stdout' ks where d: "dump_data junk stdout kt = Some stdout'" "sorted_wrt (\<lambda>a b. key_cmp a b < 0) ks" "set ks = dom ?m"
    "sent stdout' = sent stdout @ concat (map (\<lambda>k. enc_series (k, the (?m k))) ks)" by blast
  have e: "map (\<lambda>k. enc_series (k, the (?m k))) ks = map (\<lambda>k. enc_series (k, points_with k qs)) ks" using d(3) dom by (auto simp: tracked_key points_of_def)
  show ?thesis using kt(1) d(1-3) d(4) [unfolded e] dom by (intro exI [of _ ks] exI [of _ stdout']) (simp add: sample_extractor_def)
qed


text \<open>An example: three samples, two of them with keys that have the text; the first point of a series always fits.\<close>

definition example_samples :: "sample list" where
  "example_samples = [([97, 98], 5, 0), ([99], 6, 0), ([97], 7, 0)]"

lemma first_fits: "fits junk [(t, y)]"
  unfolding fits_def
proof
  fix h
  have "\<exists>p. tsc_init junk h 64 = Some (ERR_OK, p)" by (simp add: tsc_init_def set_num_pts fresh_mem_def MAX_NUM_VALID_BITS_def sz_def)
  then obtain p where 1: "tsc_init junk h 64 = Some (ERR_OK, p)" by blast
  have i: "tsc_inv p []" "unat (data_len p) = 64" using tsc_init_inv [OF 1] by simp_all
  then have l: "length (tsc_data p) = 64" "unat (num_valid_bits p) = 0" by (simp_all add: tsc_inv_def)
  have "length (point_bits None (t, y)) \<le> 64 * 3" using length_point_bits [of None "(t, y)"] by simp
  then have "word_ceil (length (point_bits None (t, y))) \<le> 64 * 3" by (rule word_ceil_le_words)
  then have "point_fits p [] (t, y)" using l by (simp add: point_fits_def del: point_bits.simps)
  then obtain p' where "tsc_add p t y = Some (ERR_OK, p')" using tsc_add_first_result(1) [OF i(1)] l by auto
  then show "do { (_, h) \<leftarrow> tsc_init junk h 64; add_points h [(t, y)] } \<noteq> None" using 1 by (simp add: err_defs)
qed


end
