(* ===== verification/Spec2Isabelle.thy ===== *)
theory Spec2Isabelle
  imports Cli_Properties Counters Log_Properties Options_Properties Server_Properties Tools_Properties
begin

text \<open>
  \<^bold>\<open>A verification of menoetius, a store for time series.\<close>

  \<^bold>\<open>The program.\<close> Clients send points (a time and a value) for keys over TCP and ask for series or for the keys
  that match labels. The server keeps for each key an item with a compressed block in memory and a list of
  complete blocks in a file; the keys are in a second file. The parts and the theories that model them are, from the
  bottom up:

  \<^item> \<^verbatim>\<open>src/common/my_malloc.c\<close>: an allocator with pools of freed blocks. \<open>My_Malloc\<close> (the functions),
    \<open>My_Malloc_Properties\<close>.
  \<^item> \<^verbatim>\<open>src/common/bitstream.c\<close>: fields of 1 to 64 bits at any position of a buffer. \<open>Bitstream\<close>.
  \<^item> \<^verbatim>\<open>src/common/tsc.c\<close>: compressed blocks of points, with differences of differences of times and windows of XORed
    values. \<open>Tsc\<close> (the functions), \<open>Tsc_Codec\<close> (the bits of one field), \<open>Tsc_Block\<close> (the points of a block).
  \<^item> \<^verbatim>\<open>src/common/tree.c\<close>: red-black trees and iterators, one tree per index. \<open>Item_Tree\<close>, \<open>Item_Tree_Iter\<close>.
  \<^item> \<^verbatim>\<open>src/common/disk_storage.c\<close>: a file of blocks with free lists and a scratch file for recovery.
    \<open>Disk_Storage\<close> (the functions), \<open>Disk_Blocks\<close> (the meaning of a file), \<open>Disk_Recovery\<close> (crashes), \<open>Disk_Contract\<close>,
    \<open>Disk_Properties\<close>.
  \<^item> \<^verbatim>\<open>src/common/storage.c\<close>: items, indices, the two stores. \<open>Storage_Item\<close>, \<open>Storage\<close> and \<open>Storage_Load\<close> (the functions),
    \<open>Storage_Index\<close>, \<open>Storage_Inv\<close>, \<open>Storage_Good\<close> (the invariant), \<open>Storage_Write\<close>, \<open>Storage_Read\<close>,
    \<open>Storage_Clean\<close>, \<open>Storage_Properties\<close>, \<open>Storage_Lookup\<close> (what the functions do), \<open>Storage_Reload\<close> (loading the blocks),
    \<open>Storage_Restart\<close> (loading the keys and the checks at the end), \<open>Storage_Durable\<close> (what survives a restart).
  \<^item> \<^verbatim>\<open>src/common/structured_stream.c\<close>: buffered reading and writing on a socket. \<open>Programs\<close> (programs with result
    codes), \<open>Structured_Stream\<close> (the functions), \<open>Stream_Contract\<close>.
  \<^item> \<^verbatim>\<open>src/server/conn_handler.c\<close>: the pool of connections and the requests. \<open>Conn_Handler\<close> (the functions),
    \<open>Conn_Data\<close>, \<open>Conn_Pool\<close>, \<open>Conn_Session\<close>, \<open>Conn_Config\<close>, \<open>Conn_Query\<close>.
  \<^item> \<^verbatim>\<open>src/client/client.c\<close>: the client library. \<open>Client\<close> (the functions), \<open>Client_Properties\<close>.
  \<^item> \<^verbatim>\<open>src/client/lfm.c\<close>, \<^verbatim>\<open>lfm_binary_parser.c\<close>, \<^verbatim>\<open>lfm_human_parser.c\<close>: label sets, the keys made of them and the text
    that users type. \<open>Lfm\<close> (the functions), \<open>Lfm_Properties\<close>. \<^verbatim>\<open>src/client/time_parser.c\<close>: times in that text. \<open>Time_Parser\<close>.
  \<^item> \<^verbatim>\<open>src/common/log.c\<close>: lines of a log with named fields. \<open>Log\<close> (the functions), \<open>Log_Properties\<close>.
  \<^item> \<^verbatim>\<open>src/common/option_parser.c\<close> and \<^verbatim>\<open>src/cli/main.c\<close>: the command line. \<open>Options\<close> (the functions), \<open>Options_Properties\<close>.
  \<^item> \<^verbatim>\<open>src/cli/*.c\<close>: the commands of the tool, from the typed text to the requests and what is printed. \<open>Cli\<close> (the functions),
    \<open>Cli_Properties\<close>.
  \<^item> \<^verbatim>\<open>src/common/metrics.c\<close> and \<^verbatim>\<open>http_metrics.c\<close>: counters and the page that shows them. \<open>Metrics\<close>, \<open>Counters\<close> (those of the allocator and the block store).
  \<^item> \<^verbatim>\<open>src/server/server.c\<close>: the process. \<open>Server_Setup\<close> (label indices, directories, the lock file, and the helpers \<^verbatim>\<open>env_parse.c\<close>,
    \<^verbatim>\<open>mkdir_p.c\<close>, \<^verbatim>\<open>str_utils.c\<close>, \<^verbatim>\<open>escape_key.c\<close>), \<open>Server\<close> (settings, \<^verbatim>\<open>main\<close>, accepting connections, the shutdown), \<open>Server_Properties\<close>.
  \<^item> \<^verbatim>\<open>src/sample-extractor/main.c\<close> and \<^verbatim>\<open>src/comptest/main.c\<close>: tools that select series from a file of samples and measure their blocks.
    \<open>Tools\<close> (the functions), \<open>Tools_Properties\<close>.

  \<open>Prelude\<close> has the integers, buffers and conventions that all of them share.

  \<^bold>\<open>How the code is modelled.\<close> Integers are words of their width. A buffer is a list of bytes; an access outside it,
  a failed assertion (they are active in all builds) and undefined behaviour give \<open>None\<close>, so that a theorem
  about \<open>Some\<close> includes memory safety. The fields of a C structure are the fields of a record with the same
  names. Pointers to items are keys of a map from addresses to items. A file is its bytes, its position and the
  writes that were made, in order, which is what a crash cuts off. A socket is what will arrive and a list
  of events that says how much of it each \<^verbatim>\<open>read\<close> and \<^verbatim>\<open>write\<close> moves. Functions of other code are parameters: the hash
  function, the clock, the contents of memory that is not initialised, connecting, \<^verbatim>\<open>strtod\<close>, how \<^verbatim>\<open>printf\<close> shows a \<^verbatim>\<open>double\<close>, the file
  system, the other processes and whether system calls succeed.

  \<^bold>\<open>What is shown.\<close>

  \<^item> Bit streams and blocks: what is written is read back, to the bit; a block holds exactly the points that
    were added, in order; saving and loading a block is the identity; which points a block refuses.
  \<^item> Trees: insertion and deletion keep the colours, the order and the set of items; the iterators terminate
    and visit every item once. The locale \<open>item_order\<close> is the interface to the comparison of items.
  \<^item> Block store: the locale \<open>block_store\<close> is a map from offsets to contents; its interpretation shows that a
    read returns the last write. A crash during a write or a release leaves the block old or new and all others
    unchanged; the scan at start finds the blocks in use; reservations are the exception, see below.
  \<^item> Storage: \<open>storage_good st db\<close> says that the state represents the database \<open>db\<close>, a map from keys to series, and
    that every function keeps it: \<^verbatim>\<open>storage_write\<close> appends in order and accepts every point when there is
    room, \<^verbatim>\<open>storage_get\<close> returns the series, cleaning removes whole blocks before the limit only, lookups
    and scans return the matching keys. The locale \<open>series_db\<close> is the contract that the server relies on.
  \<^item> Restarts: \<^verbatim>\<open>storage_load\<close> rebuilds from the two files, block by block and key by key, a storage that represents
    what the files hold. After \<^verbatim>\<open>storage_sync\<close> that is the whole database; at any other time each series comes back up to
    points that were added to its current block since that was last written. For the process as a whole: after a shutdown a new one takes the
    lock over and serves the same database, and a second one is kept out while the first exists.
  \<^item> Memory: blocks in use are disjoint and keep their bytes, and nothing is left when all of them are given back.
  \<^item> Streams: reads and writes of any sizes see the bytes in order, however the network cuts them; the buffers
    are never overrun. The locale \<open>byte_stream\<close> is the contract, and \<open>gives\<close> composes it through programs.
  \<^item> Connections: each request does to the storage what it announces and answers what the protocol says; no slot of
    the pool is ever used twice or lost under any interleaving of connections; a whole connection that
    writes and reads gets its own points back.
  \<^item> Client: the requests of the library are the bytes that the server expects, and what the server
    answers makes the library return the series.
  \<^item> Labels: both formats are loss-free on the sets that they can hold, within their buffers, and times from 1970 to 9999 are read back from their text.
  \<^item> The tool: a point that a user types is the one point that the server stores, and what the tool prints for a series or for a query is what the
    database holds, through the command line, the parsers, the client, the connection, the handlers and the storage.
  \<^item> The tools for samples: the extractor writes exactly the chosen series, whole and in order, and the measurement reads what the extractor wrote.
  \<^item> The process: options set the variables that they name and no others; a log line has its fields and stays in its buffer; the page of the
    metrics always fits; the published numbers of connections, of blocks in memory and of blocks on disk are right.
  \<^item> Errors: for each defect that the model showed, a theorem states the behaviour of the code: a name that is not the
    first label of a query is ignored, a flush after a short write sends wrong bytes, a full block takes a
    point from the past, a crash between the two writes of a reservation loses the next block, a
    point can be refused at the end of a block, signed fields of 33 to 63 bits are misread, a long queue
    of the client can never be sent, an answer is left in the stream, empty labels make keys that
    cannot be parsed, the text parser reads behind its text, and so does \<^verbatim>\<open>my_realloc\<close> behind the old block, a log line that nearly
    fills its buffer ends the process, escaped characters are lost from the log, a missing value of an option is dereferenced, a configuration that is read in
    pieces is mixed up, a lock file of 1024 bytes is written behind its array, and a long cleaning cycle overflows.

  \<^bold>\<open>Bounds.\<close> \<open>has_room\<close> bounds the size of the files so that offsets fit 62 bits. Blocks in the stores have at most
  \<open>2 ^ 20\<close> bytes, the buffer with which the storage reads them. The buffer of a block in memory has at least 28 and at
  most \<open>2 ^ 20 - 38\<close> bytes, so that one point fits and the header fits the limit of the store. Keys have at most 10230
  bytes, the limit of the key store, and a first byte that is not zero. Buffers of streams are smaller than
  \<open>2 ^ 31\<close>, the range of the C code's \<^verbatim>\<open>int\<close>, and so is a queue of the client. The limits of the handlers (keys of 1024
  bytes, series of 86400 points and so on) are those of the code. Label sets have at most 64 labels, since
  the code cannot grow their array. Loops are recursive functions with termination proofs; where a loop depends
  on the other side of a connection it is a partial function, and the theorems state that it ends.

  \<^bold>\<open>Not modelled.\<close> \<^verbatim>\<open>sglib.h\<close> is a vendored library; the code that it generates is \<^verbatim>\<open>tree.c\<close>. The functions of the storage run under
  its mutex, so that they are atomic here, and threads are interleavings of whole steps; sockets, signals and the HTTP library appear only with their
  results. The lines that the other parts log, what the help texts say, the other counters inside the storage, freeing memory at the end, the code of
  debug builds (injected crashes, the settable clock) and failing system calls on files are left out. The tool \<^verbatim>\<open>dump\<close> sends a request
  that the server refuses, and the tests are programs around the library.
\<close>

end
